(* ===== verification/Td_Prelude.thy ===== *)
theory Td_Prelude
  imports Main "HOL-Library.Word" "HOL-Library.Monad_Syntax"
begin

text \<open>
  Shared vocabulary of the development: bytes and byte strings, the error half of
  \<open>td::Result\<close>, the outcome of code guarded by \<open>CHECK\<close>, the checked narrowing casts,
  and generic facts about words and lists.

  \<^item> A \<open>char\<close> or \<open>unsigned char\<close> is a \<open>byte\<close>, and a \<open>Slice\<close> or \<open>string\<close> is a list of bytes.
  \<^item> \<open>td::Status\<close> and \<open>td::Result\<close> are sums: \<open>Inl (Err code message)\<close> or \<open>Inr value\<close>.
  \<^item> \<open>CHECK\<close>, \<open>LOG_CHECK\<close> and \<open>UNREACHABLE\<close> abort the process.  Code that contains one has a
    result of type \<^theory_text>\<open>option\<close>, and \<open>None\<close> is the abort; that an operation never aborts
    is then a theorem about it.
\<close>

unbundle bit_operations_syntax

subsection \<open>Bytes, results and checks\<close>

type_synonym byte = "8 word"
type_synonym bytes = "byte list"

abbreviation ch :: "char \<Rightarrow> byte" where
  "ch \<equiv> of_char"

abbreviation str :: "string \<Rightarrow> bytes" where
  "str s \<equiv> map of_char s"

datatype status_error = Err (err_code: int) (err_msg: bytes)

type_synonym 'a result = "status_error + 'a"

abbreviation Error :: "string \<Rightarrow> status_error + 'a" where
  "Error m \<equiv> Inl (Err 0 (str m))"

definition check :: "bool \<Rightarrow> unit option" where
  "check b = (if b then Some () else None)"

definition try_result :: "'a result \<Rightarrow> ('a \<Rightarrow> 'b result) \<Rightarrow> 'b result" where
  "try_result r f = (case r of Inl e \<Rightarrow> Inl e | Inr x \<Rightarrow> f x)"

definition is_ok :: "'a result \<Rightarrow> bool" where
  "is_ok r = (case r of Inl _ \<Rightarrow> False | Inr _ \<Rightarrow> True)"

lemma check_simps [simp]: "check True = Some ()" "check False = None"
  by (simp_all add: check_def)

lemma check_eq_Some [simp]: "check b = Some u \<longleftrightarrow> b"
  by (simp add: check_def)

lemma check_bind [simp]: "(check b \<bind> f = Some r) \<longleftrightarrow> b \<and> f () = Some r"
  by (simp add: check_def)

lemma check_bindI: "b \<Longrightarrow> check b \<bind> f = f ()"
  by (simp add: check_def)

lemma try_result_simps [simp]: "try_result (Inl e) f = Inl e" "try_result (Inr x) f = f x"
  by (simp_all add: try_result_def)

lemma try_result_eq_Inr [simp]: "try_result r f = Inr y \<longleftrightarrow> (\<exists>x. r = Inr x \<and> f x = Inr y)"
  by (cases r) auto

lemma is_ok_simps [simp]: "is_ok (Inl e) = False" "is_ok (Inr x) = True"
  by (simp_all add: is_ok_def)

lemma is_ok_iff: "is_ok r \<longleftrightarrow> (\<exists>x. r = Inr x)"
  by (cases r) auto

text \<open>
  What an encoding promises: the decoder accepts every encoded value and gives it back.  The
  codecs of the development (hexadecimal, percent, run-length, base64, base32, JSON strings)
  interpret it.
\<close>

locale codec =
  fixes enc :: "'a \<Rightarrow> 'b" and dec :: "'b \<Rightarrow> 'a result"
  assumes dec_enc: "dec (enc x) = Inr x"
begin

lemma enc_inject: "enc x = enc y \<longleftrightarrow> x = y"
  by (metis dec_enc sum.inject(2))

lemma enc_decodes: "is_ok (dec (enc x))"
  by (simp add: dec_enc)

end

subsection \<open>Integer ranges\<close>

definition int32_max :: int where "int32_max = 2147483647"

definition int32_min :: int where "int32_min = - 2147483648"

definition int64_max :: int where "int64_max = 9223372036854775807"

definition int64_min :: int where "int64_min = - 9223372036854775808"

definition in_int32 :: "int \<Rightarrow> bool" where
  "in_int32 x \<longleftrightarrow> int32_min \<le> x \<and> x \<le> int32_max"

definition in_int64 :: "int \<Rightarrow> bool" where
  "in_int64 x \<longleftrightarrow> int64_min \<le> x \<and> x \<le> int64_max"

lemmas int_range_defs = int32_max_def int32_min_def int64_max_def int64_min_def
  in_int32_def in_int64_def

definition narrow_cast_int32 :: "int \<Rightarrow> int option" where
  "narrow_cast_int32 a = (if in_int32 a then Some a else None)"

lemma narrow_cast_int32_eq_Some [simp]:
  "narrow_cast_int32 a = Some r \<longleftrightarrow> in_int32 a \<and> r = a"
  by (auto simp: narrow_cast_int32_def)

definition narrow_cast_safe_int32 :: "int \<Rightarrow> int result" where
  "narrow_cast_safe_int32 a = (if in_int32 a then Inr a else Error ''Narrow cast failed'')"

lemma narrow_cast_safe_int32_eq_Inr [simp]:
  "narrow_cast_safe_int32 a = Inr r \<longleftrightarrow> in_int32 a \<and> r = a"
  by (auto simp: narrow_cast_safe_int32_def)

subsection \<open>Facts about bytes and words\<close>

lemma unat_byte_less: "unat (b :: byte) < 256"
  using unsigned_less [of b] by simp

lemma unat_drop_bit_div: "unat (drop_bit n w) = unat w div 2 ^ n"
proof -
  have "unat (drop_bit n w) = drop_bit n (unat w)" by (rule unat_drop_bit_eq)
  then show ?thesis by (simp only: drop_bit_eq_div)
qed

lemma unat_and_mask: "unat (w AND mask n) = unat w mod 2 ^ n"
proof -
  have "unat (w AND mask n) = take_bit n (unat w)"
    by (simp flip: take_bit_eq_mask add: unsigned_take_bit_eq)
  then show ?thesis by (simp only: take_bit_eq_mod)
qed

lemma unat_hi_nibble_eq: "unat (drop_bit 4 (b :: byte)) = unat b div 16"
  using unat_drop_bit_div [of 4 b] by simp

lemma unat_hi_nibble: "unat (drop_bit 4 (b :: byte)) < 16"
  using unat_byte_less [of b] unat_hi_nibble_eq [of b] by linarith

lemma unat_lo_nibble_eq: "unat ((b :: byte) AND 15) = unat b mod 16"
  using unat_and_mask [of b 4] by (simp add: mask_eq_exp_minus_1)

lemma unat_lo_nibble: "unat ((b :: byte) AND 15) < 16"
  by (simp add: unat_lo_nibble_eq)

lemma unat_byte_nibbles: "unat (b :: byte) = 16 * unat (drop_bit 4 b) + unat (b AND 15)"
  by (simp add: unat_hi_nibble_eq unat_lo_nibble_eq)

lemma inj_unat: "inj (unat :: 'a :: len word \<Rightarrow> nat)"
  by (simp add: inj_def word_unat_eq_iff)

lemma map_unat_inject: "map unat xs = map unat ys \<Longrightarrow> xs = (ys :: 'a :: len word list)"
  using inj_unat by (simp add: inj_map_eq_map)

text \<open>
  Masks and shifts as arithmetic: a contiguous mask reads a field, and an \<open>OR\<close> of a multiple
  of \<open>2 ^ k\<close> with a number below \<open>2 ^ k\<close> is their sum.
\<close>

lemma nat_and_field: "(x :: nat) AND push_bit k (mask n) = 2 ^ k * ((x div 2 ^ k) mod 2 ^ n)"
proof -
  have "x AND push_bit k (mask n) = push_bit k (take_bit n (drop_bit k x))"
    by (rule bit_eqI) (auto simp: bit_simps)
  then show ?thesis
    by (simp only: push_bit_eq_mult take_bit_eq_mod drop_bit_eq_div mult.commute)
qed

lemma nat_or_add: "2 ^ k dvd x \<Longrightarrow> y < 2 ^ k \<Longrightarrow> (x :: nat) OR y = x + y"
proof -
  assume x: "2 ^ k dvd x" and y: "y < 2 ^ k"
  have bx: "\<not> bit x n" if "n < k" for n
  proof -
    from x have "take_bit k x = 0" by (simp add: take_bit_eq_mod)
    then show ?thesis using that by (metis bit_0_eq bit_take_bit_iff bot_apply bot_bool_def)
  qed
  have by': "\<not> bit y n" if "\<not> n < k" for n
  proof -
    from y have "take_bit k y = y" by (simp add: take_bit_nat_eq_self)
    then show ?thesis using that by (metis bit_take_bit_iff)
  qed
  show ?thesis
    by (rule disjunctive_add [symmetric]) (use bx by' in blast)
qed

lemma nat_and_128: "(x :: nat) AND 128 = 128 * (x div 128 mod 2)"
  using nat_and_field [of x 7 1] by (simp add: mask_eq_exp_minus_1 push_bit_eq_mult)

lemma nat_and_64: "(x :: nat) AND 64 = 64 * (x div 64 mod 2)"
  using nat_and_field [of x 6 1] by (simp add: mask_eq_exp_minus_1 push_bit_eq_mult)

lemma nat_and_32: "(x :: nat) AND 32 = 32 * (x div 32 mod 2)"
  using nat_and_field [of x 5 1] by (simp add: mask_eq_exp_minus_1 push_bit_eq_mult)

lemma nat_and_16: "(x :: nat) AND 16 = 16 * (x div 16 mod 2)"
  using nat_and_field [of x 4 1] by (simp add: mask_eq_exp_minus_1 push_bit_eq_mult)

lemma nat_and_8: "(x :: nat) AND 8 = 8 * (x div 8 mod 2)"
  using nat_and_field [of x 3 1] by (simp add: mask_eq_exp_minus_1 push_bit_eq_mult)

lemma nat_and_30: "(x :: nat) AND 30 = 2 * (x div 2 mod 16)"
  using nat_and_field [of x 1 4] by (simp add: mask_eq_exp_minus_1 push_bit_eq_mult)

lemma nat_and_192: "(x :: nat) AND 192 = 64 * (x div 64 mod 4)"
  using nat_and_field [of x 6 2] by (simp add: mask_eq_exp_minus_1 push_bit_eq_mult)

lemma nat_and_48: "(x :: nat) AND 48 = 16 * (x div 16 mod 4)"
  using nat_and_field [of x 4 2] by (simp add: mask_eq_exp_minus_1 push_bit_eq_mult)

lemma nat_and_248: "(x :: nat) AND 248 = 8 * (x div 8 mod 32)"
  using nat_and_field [of x 3 5] by (simp add: mask_eq_exp_minus_1 push_bit_eq_mult)

lemma nat_and_15: "(x :: nat) AND 15 = x mod 16"
  using nat_and_field [of x 0 4] by (simp add: mask_eq_exp_minus_1 push_bit_eq_mult)

lemma nat_and_7: "(x :: nat) AND 7 = x mod 8"
  using nat_and_field [of x 0 3] by (simp add: mask_eq_exp_minus_1 push_bit_eq_mult)

lemma nat_and_31: "(x :: nat) AND 31 = x mod 32"
  using nat_and_field [of x 0 5] by (simp add: mask_eq_exp_minus_1 push_bit_eq_mult)

lemma nat_and_63: "(x :: nat) AND 63 = x mod 64"
  using nat_and_field [of x 0 6] by (simp add: mask_eq_exp_minus_1 push_bit_eq_mult)

lemma nat_and_3: "(x :: nat) AND 3 = x mod 4"
  using nat_and_field [of x 0 2] by (simp add: mask_eq_exp_minus_1 push_bit_eq_mult)

lemmas nat_mask_fields = nat_and_128 nat_and_64 nat_and_32 nat_and_16 nat_and_8 nat_and_30 nat_and_192 nat_and_48 nat_and_248 nat_and_15 nat_and_7 nat_and_31 nat_and_63 nat_and_3

text \<open>Numbers written in base 64.\<close>

lemma sextet_step: "r < 64 \<Longrightarrow> (64 * v + r) div 64 = (v :: nat)"
  "r < 64 \<Longrightarrow> (64 * v + r) mod 64 = r"
  by simp_all

lemma sextets3: "4096 * (u div 4096) + 64 * (u div 64 mod 64) + u mod 64 = (u :: nat)"
proof -
  have "u div 4096 = u div 64 div 64" by (simp add: div_mult2_eq [symmetric])
  then show ?thesis
    using mult_div_mod_eq [of 64 u] mult_div_mod_eq [of 64 "u div 64"] by linarith
qed

lemma sextets4:
  "262144 * (u div 262144) + 4096 * (u div 4096 mod 64) + 64 * (u div 64 mod 64) + u mod 64 = (u :: nat)"
proof -
  have "u div 262144 = u div 4096 div 64" by (simp add: div_mult2_eq [symmetric])
  then show ?thesis
    using sextets3 [of u] mult_div_mod_eq [of 64 "u div 4096"] by linarith
qed

lemma sextet_digits:
  fixes q x y z :: nat
  assumes "x < 64" "y < 64" "z < 64" and v: "v = 262144 * q + 4096 * x + 64 * y + z"
  shows "v div 262144 = q" "v div 4096 mod 64 = x" "v div 64 mod 64 = y" "v mod 64 = z"
proof -
  have v1: "v = 64 * (64 * (64 * q + x) + y) + z" using v by simp
  have d: "v div 64 = 64 * (64 * q + x) + y" "v mod 64 = z"
    unfolding v1 using assms(3) by (rule sextet_step)+
  have e: "v div 64 div 64 = 64 * q + x" "v div 64 mod 64 = y"
    unfolding d(1) using assms(2) by (rule sextet_step)+
  have f: "v div 64 div 64 div 64 = q" "v div 64 div 64 mod 64 = x"
    unfolding e(1) using assms(1) by (rule sextet_step)+
  have "v div 4096 = v div 64 div 64" "v div 262144 = v div 64 div 64 div 64"
    by (simp_all add: div_mult2_eq [symmetric])
  then show "v div 262144 = q" "v div 4096 mod 64 = x" "v div 64 mod 64 = y" "v mod 64 = z"
    using d e f by simp_all
qed

lemma octet_step: "r < 256 \<Longrightarrow> (256 * v + r) div 256 = (v :: nat)"
  "r < 256 \<Longrightarrow> (256 * v + r) mod 256 = r"
  by simp_all

lemma octet_digits:
  fixes a b c :: nat
  assumes "b < 256" "c < 256" and v: "v = 65536 * a + 256 * b + c"
  shows "v div 65536 = a" "v div 256 mod 256 = b" "v mod 256 = c" "v mod 65536 = 256 * b + c"
proof -
  have v1: "v = 256 * (256 * a + b) + c" using v by simp
  have d: "v div 256 = 256 * a + b" "v mod 256 = c"
    unfolding v1 using assms(2) by (rule octet_step)+
  have e: "v div 256 div 256 = a" "v div 256 mod 256 = b"
    unfolding d(1) using assms(1) by (rule octet_step)+
  have "v div 65536 = v div 256 div 256" by (simp add: div_mult2_eq [symmetric])
  then show "v div 65536 = a" "v div 256 mod 256 = b" "v mod 256 = c"
    using d e by simp_all
  then show "v mod 65536 = 256 * b + c"
    using v mult_div_mod_eq [of 65536 v] by linarith
qed

text \<open>A statement about all numbers below a numeral is a finite conjunction.\<close>

lemma all_less_upt: "(\<forall>n<m. P n) \<longleftrightarrow> list_all P [0..<m]" for m :: nat
  by (auto simp: list_all_iff)

subsection \<open>Facts about lists\<close>

lemma nth_append_self [simp]: "(xs @ y # ys) ! length xs = y"
  by simp

lemma list_update_append_self [simp]: "(xs @ y # ys)[length xs := z] = xs @ z # ys"
  by simp

lemma takeWhile_drop_length:
  "takeWhile P xs @ drop (length (takeWhile P xs)) xs = xs"
  by (metis dropWhile_eq_drop takeWhile_dropWhile_id)

end
