(* ===== verification/Td_Chars.thy ===== *)
theory Td_Chars
  imports Td_Prelude
begin

text \<open>
  Character classes and string helpers: \<open>tdutils/td/utils/misc.h\<close> and \<open>misc.cpp\<close>.

  Characters are compared as unsigned bytes.  The source compares plain \<open>char\<close>s, but only
  against ranges inside the ASCII half, where the signed and the unsigned reading agree.
\<close>

unbundle bit_operations_syntax

subsection \<open>Character classes\<close>

definition is_space :: "byte \<Rightarrow> bool" where
  "is_space c \<longleftrightarrow> c = ch (CHR '' '') \<or> c = 9 \<or> c = 13 \<or> c = 10 \<or> c = 0 \<or> c = 11"

definition is_alpha :: "byte \<Rightarrow> bool" where
  "is_alpha c = (let c = c OR 0x20 in ch (CHR ''a'') \<le> c \<and> c \<le> ch (CHR ''z''))"

definition is_digit :: "byte \<Rightarrow> bool" where
  "is_digit c \<longleftrightarrow> ch (CHR ''0'') \<le> c \<and> c \<le> ch (CHR ''9'')"

definition is_alnum :: "byte \<Rightarrow> bool" where
  "is_alnum c \<longleftrightarrow> is_alpha c \<or> is_digit c"

definition is_hex_digit :: "byte \<Rightarrow> bool" where
  "is_hex_digit c =
     (if is_digit c then True
      else let c = c OR 0x20 in ch (CHR ''a'') \<le> c \<and> c \<le> ch (CHR ''f''))"

definition hex_to_int :: "byte \<Rightarrow> nat" where
  "hex_to_int c =
     (if is_digit c then unat (c - ch (CHR ''0''))
      else let c = c OR 0x20 in
        if ch (CHR ''a'') \<le> c \<and> c \<le> ch (CHR ''f'') then unat (c - ch (CHR ''a'')) + 10 else 16)"

definition to_lower :: "byte \<Rightarrow> byte" where
  "to_lower c =
     (if ch (CHR ''A'') \<le> c \<and> c \<le> ch (CHR ''Z'') then c - ch (CHR ''A'') + ch (CHR ''a'') else c)"

definition to_upper :: "byte \<Rightarrow> byte" where
  "to_upper c =
     (if ch (CHR ''a'') \<le> c \<and> c \<le> ch (CHR ''z'') then c - ch (CHR ''a'') + ch (CHR ''A'') else c)"

definition to_lower_str :: "bytes \<Rightarrow> bytes" where
  "to_lower_str s = map to_lower s"

definition to_upper_str :: "bytes \<Rightarrow> bytes" where
  "to_upper_str s = map to_upper s"

lemma is_digit_iff: "is_digit c \<longleftrightarrow> 48 \<le> unat c \<and> unat c \<le> 57"
  by (simp add: is_digit_def word_le_nat_alt)

lemma is_hex_digit_hex_to_int: "is_hex_digit c \<longleftrightarrow> hex_to_int c < 16"
proof -
  have "unat (c OR 0x20) - 97 + 10 < 16" if "c OR 0x20 \<le> 102"
    using that by (simp add: word_le_nat_alt)
  moreover have "unat (c - 48) < 16" if "48 \<le> c" "c \<le> 57"
    using that by (simp add: word_le_nat_alt unat_sub)
  ultimately show ?thesis
    by (auto simp: is_hex_digit_def hex_to_int_def is_digit_def Let_def unat_sub word_le_nat_alt)
qed

lemma unat_or_32:
  "unat (c OR 32 :: byte) = (if unat c div 32 mod 2 = 1 then unat c else unat c + 32)"
proof -
  have "unat (c OR 32) = unat c OR 32" by (simp add: unsigned_or_eq)
  moreover have "(unat c AND 32) + (unat c OR 32) = unat c + 32"
  proof -
    have "int ((unat c AND 32) + (unat c OR 32)) = int (unat c + 32)"
      using plus_and_or [of "int (unat c)" "int 32"]
      by (simp only: of_nat_add of_nat_and_eq of_nat_or_eq)
    then show ?thesis by (simp only: of_nat_eq_iff)
  qed
  moreover have "unat c div 32 mod 2 = 0 \<or> unat c div 32 mod 2 = 1" by presburger
  ultimately show ?thesis by (auto simp: nat_and_32)
qed

lemma or_32_mid:
  assumes "64 \<le> unat (c :: byte)" "unat c < 128"
  shows "unat (c OR 32) = (if 96 \<le> unat c then unat c else unat c + 32)"
proof -
  have "unat c div 32 = (if 96 \<le> unat c then 3 else 2)"
    using assms by (auto intro!: div_nat_eqI)
  then show ?thesis by (simp add: unat_or_32)
qed

lemma or_32_range:
  assumes "97 \<le> l" "h \<le> 122"
  shows "l \<le> unat (c OR 32 :: byte) \<and> unat (c OR 32) \<le> h \<longleftrightarrow>
    l \<le> unat c \<and> unat c \<le> h \<or> l \<le> unat c + 32 \<and> unat c + 32 \<le> h"
proof -
  define u v where "u = unat c" and "v = unat (c OR 32)"
  have mid: "v = (if 96 \<le> u then u else u + 32)" if "64 < u" "u < 128"
    using that or_32_mid [of c] by (simp add: u_def v_def)
  have any: "v = u \<or> v = u + 32" using unat_or_32 [of c] by (simp add: u_def v_def)
  show ?thesis
    unfolding u_def [symmetric] v_def [symmetric]
  proof (cases "64 < u \<and> u < 128")
    case True
    then show "l \<le> v \<and> v \<le> h \<longleftrightarrow> l \<le> u \<and> u \<le> h \<or> l \<le> u + 32 \<and> u + 32 \<le> h"
      using mid assms by (cases "96 \<le> u") auto
  next
    case False
    then show "l \<le> v \<and> v \<le> h \<longleftrightarrow> l \<le> u \<and> u \<le> h \<or> l \<le> u + 32 \<and> u + 32 \<le> h"
      using any assms by auto
  qed
qed

lemma is_alpha_iff:
  "is_alpha c \<longleftrightarrow> 65 \<le> unat c \<and> unat c \<le> 90 \<or> 97 \<le> unat c \<and> unat c \<le> 122"
  using or_32_range [of 97 122 c] by (auto simp: is_alpha_def Let_def word_le_nat_alt)

lemma hex_to_int_nat:
  "hex_to_int c =
    (if 48 \<le> unat c \<and> unat c \<le> 57 then unat c - 48
     else if 97 \<le> unat c \<and> unat c \<le> 102 then unat c - 87
     else if 65 \<le> unat c \<and> unat c \<le> 70 then unat c - 55 else 16)"
proof -
  have "unat ((c OR 32) - 97) + 10 = (if 97 \<le> unat c then unat c - 87 else unat c - 55)"
    if "97 \<le> unat (c OR 32)" "unat (c OR 32) \<le> 102"
  proof -
    have "64 \<le> unat c" "unat c < 128"
      using that unat_or_32 [of c] by (simp_all split: if_splits)
    moreover have "unat ((c OR 32) - 97) = unat (c OR 32) - 97"
      using that(1) by (simp add: unat_sub word_le_nat_alt)
    ultimately show ?thesis using that or_32_mid [of c] by auto
  qed
  then show ?thesis
    using or_32_range [of 97 102 c]
    by (auto simp: hex_to_int_def is_digit_iff Let_def word_le_nat_alt unat_sub)
qed

lemma unat_to_lower:
  "unat (to_lower c) = (if 65 \<le> unat c \<and> unat c \<le> 90 then unat c + 32 else unat c)"
proof -
  have "c - 65 + 97 = c + 32" by simp
  then show ?thesis
    by (auto simp: to_lower_def word_le_nat_alt unat_word_ariths)
qed

lemma hex_to_int_le: "hex_to_int c \<le> 16"
  by (auto simp: hex_to_int_nat)

subsection \<open>Splitting and joining\<close>

text \<open>\<open>split\<close>: at the first delimiter, or the whole string and an empty one.\<close>

fun split_at_char :: "bytes \<Rightarrow> byte \<Rightarrow> bytes \<times> bytes" where
  "split_at_char s d =
     (let before = takeWhile (\<lambda>c. c \<noteq> d) s
      in if length before = length s then (s, []) else (before, drop (length before + 1) s))"

text \<open>\<open>full_split\<close> with the default \<open>max_parts\<close>: one part per delimiter, and the rest.\<close>

function full_split_loop :: "bytes \<Rightarrow> byte \<Rightarrow> bytes list" where
  "full_split_loop s d =
     (let before = takeWhile (\<lambda>c. c \<noteq> d) s
      in if length before = length s then [s]
         else before # full_split_loop (drop (length before + 1) s) d)"
  by pat_completeness auto
termination
  by (relation "measure (\<lambda>(s, d). length s)")
     (auto simp: le_neq_implies_less length_takeWhile_le intro!: diff_less)

declare full_split_loop.simps [simp del]

definition full_split :: "bytes \<Rightarrow> byte \<Rightarrow> bytes list" where
  "full_split s d = (if s = [] then [] else full_split_loop s d)"

fun implode :: "bytes list \<Rightarrow> byte \<Rightarrow> bytes" where
  "implode [] d = []"
| "implode [x] d = x"
| "implode (x # y # ys) d = x @ d # implode (y # ys) d"

lemma full_split_loop_nonempty [simp]: "full_split_loop s d \<noteq> []"
  by (subst full_split_loop.simps) (simp add: Let_def)

lemma implode_Cons: "ys \<noteq> [] \<Longrightarrow> implode (x # ys) d = x @ d # implode ys d"
  by (cases ys) simp_all

lemma takeWhile_neq_length:
  assumes "length (takeWhile (\<lambda>c. c \<noteq> d) s) \<noteq> length s"
  shows "s = takeWhile (\<lambda>c. c \<noteq> d) s @ d # drop (length (takeWhile (\<lambda>c. c \<noteq> d) s) + 1) s"
proof -
  let ?b = "takeWhile (\<lambda>c. c \<noteq> d) s"
  have len: "length ?b < length s"
    using assms length_takeWhile_le [of "\<lambda>c. c \<noteq> d" s] by linarith
  have "s ! length ?b = d"
    using nth_length_takeWhile [OF len] by simp
  then show ?thesis
    by (metis Suc_eq_plus1 id_take_nth_drop len takeWhile_eq_take)
qed

lemma implode_full_split_loop: "implode (full_split_loop s d) d = s"
proof (induction s d rule: full_split_loop.induct)
  case (1 s d)
  let ?b = "takeWhile (\<lambda>c. c \<noteq> d) s"
  show ?case
  proof (cases "length ?b = length s")
    case True
    then show ?thesis by (subst full_split_loop.simps) (simp add: Let_def)
  next
    case False
    have "implode (full_split_loop s d) d = ?b @ d # drop (length ?b + 1) s"
      using False 1 by (subst full_split_loop.simps) (simp add: Let_def implode_Cons)
    with takeWhile_neq_length [OF False] show ?thesis by simp
  qed
qed

lemma full_split_loop_no_delim: "x \<in> set (full_split_loop s d) \<Longrightarrow> d \<notin> set x"
proof (induction s d rule: full_split_loop.induct)
  case (1 s d)
  let ?b = "takeWhile (\<lambda>c. c \<noteq> d) s"
  have "d \<notin> set ?b"
    by (auto dest: set_takeWhileD)
  moreover have "s = ?b" if "length ?b = length s"
    using that by (metis take_all_iff order_refl takeWhile_eq_take)
  ultimately show ?case
    using 1 by (subst (asm) full_split_loop.simps) (auto simp: Let_def split: if_splits)
qed

subsection \<open>Padding, trimming, single lines\<close>

definition lpad :: "bytes \<Rightarrow> nat \<Rightarrow> byte \<Rightarrow> bytes" where
  "lpad s n c = (if length s \<ge> n then s else replicate (n - length s) c @ s)"

definition lpad0 :: "bytes \<Rightarrow> nat \<Rightarrow> bytes" where
  "lpad0 s n = lpad s n (ch (CHR ''0''))"

definition rpad :: "bytes \<Rightarrow> nat \<Rightarrow> byte \<Rightarrow> bytes" where
  "rpad s n c = (if length s \<ge> n then s else s @ replicate (n - length s) c)"

definition remove_suffix_while :: "(byte \<Rightarrow> bool) \<Rightarrow> bytes \<Rightarrow> bytes" where
  "remove_suffix_while P s = rev (dropWhile P (rev s))"

definition trim :: "bytes \<Rightarrow> bytes" where
  "trim s = remove_suffix_while is_space (dropWhile is_space s)"

fun oneline_loop :: "bool \<Rightarrow> bytes \<Rightarrow> bytes" where
  "oneline_loop after_new_line [] = []"
| "oneline_loop after_new_line (c # cs) =
     (if c \<noteq> 10 \<and> c \<noteq> 13
      then if after_new_line \<and> c = ch (CHR '' '') then oneline_loop after_new_line cs
           else c # oneline_loop False cs
      else if \<not> after_new_line then ch (CHR '' '') # oneline_loop True cs
      else oneline_loop after_new_line cs)"

definition oneline :: "bytes \<Rightarrow> bytes" where
  "oneline s = remove_suffix_while (\<lambda>c. c = ch (CHR '' '')) (oneline_loop True s)"

lemma remove_suffix_while_append:
  "\<exists>t. s = remove_suffix_while P s @ t \<and> (\<forall>c\<in>set t. P c)"
proof -
  have "s = rev (dropWhile P (rev s)) @ rev (takeWhile P (rev s))"
    by (metis rev_append rev_rev_ident takeWhile_dropWhile_id)
  then show ?thesis
    unfolding remove_suffix_while_def by (metis set_rev set_takeWhileD)
qed

lemma remove_suffix_while_last:
  "remove_suffix_while P s \<noteq> [] \<Longrightarrow> \<not> P (last (remove_suffix_while P s))"
  unfolding remove_suffix_while_def by (simp add: last_rev hd_dropWhile)

lemma remove_suffix_while_id: "s = [] \<or> \<not> P (last s) \<Longrightarrow> remove_suffix_while P s = s"
  unfolding remove_suffix_while_def
  by (cases s rule: rev_cases) simp_all

lemma set_remove_suffix_while: "set (remove_suffix_while P s) \<subseteq> set s"
  unfolding remove_suffix_while_def by (auto dest: set_dropWhileD)

lemma oneline_loop_no_newline: "c \<in> set (oneline_loop b s) \<Longrightarrow> c \<noteq> 10 \<and> c \<noteq> 13"
  by (induction b s rule: oneline_loop.induct) (auto split: if_splits)

lemma oneline_loop_hd: "oneline_loop True s \<noteq> [] \<Longrightarrow> hd (oneline_loop True s) \<noteq> 32"
  by (induction s) (auto split: if_splits)

lemma oneline_loop_id:
  "\<forall>c\<in>set s. c \<noteq> 10 \<and> c \<noteq> 13 \<Longrightarrow> \<not> b \<or> s = [] \<or> hd s \<noteq> 32 \<Longrightarrow> oneline_loop b s = s"
  by (induction b s rule: oneline_loop.induct) auto

lemma oneline_no_newline: "c \<in> set (oneline s) \<Longrightarrow> c \<noteq> 10 \<and> c \<noteq> 13"
  using oneline_loop_no_newline set_remove_suffix_while unfolding oneline_def by blast

lemma oneline_hd: "oneline s \<noteq> [] \<Longrightarrow> hd (oneline s) \<noteq> 32"
  using remove_suffix_while_append [of "oneline_loop True s" "\<lambda>c. c = ch (CHR '' '')"]
    oneline_loop_hd [of s]
  unfolding oneline_def by (metis append_is_Nil_conv hd_append2)

lemma oneline_idem: "oneline (oneline s) = oneline s"
proof -
  have "oneline_loop True (oneline s) = oneline s"
    using oneline_no_newline oneline_hd by (intro oneline_loop_id) blast+
  moreover have "oneline s = [] \<or> last (oneline s) \<noteq> ch (CHR '' '')"
    using remove_suffix_while_last [of "\<lambda>c. c = ch (CHR '' '')" "oneline_loop True s"]
    unfolding oneline_def by blast
  ultimately have "remove_suffix_while (\<lambda>c. c = ch (CHR '' '')) (oneline_loop True (oneline s))
      = oneline s"
    by (simp only: remove_suffix_while_id)
  then show ?thesis
    by (subst oneline_def) simp
qed

end
