(* ===== verification/Td_Utf8.thy ===== *)
theory Td_Utf8
  imports Td_Chars
begin

text \<open>
  UTF-8: \<open>tdutils/td/utils/utf8.cpp\<close> and \<open>utf8.h\<close>.

  A code point is a \<open>uint32\<close>.  The validator reads a NUL-terminated string; its model runs over
  the bytes followed by the terminator, and \<open>None\<close> is a read past it.  The tables of
  \<open>unicode.cpp\<close> (case folding, diacritics, search characters) are arguments of the functions
  that use them.
\<close>

unbundle bit_operations_syntax

type_synonym u32 = "32 word"

abbreviation u32_of :: "byte \<Rightarrow> u32" where
  "u32_of b \<equiv> ucast b"

abbreviation byte_of :: "u32 \<Rightarrow> byte" where
  "byte_of w \<equiv> ucast w"

subsection \<open>The operations\<close>

fun check_utf8_loop :: "bytes \<Rightarrow> bool option" where
  "check_utf8_loop [] = None"
| "check_utf8_loop (a0 # r1) =
     (let a = u32_of a0 in
      if a AND 0x80 = 0 then (if r1 = [] then Some True else check_utf8_loop r1)
      else if \<not> (a AND 0x40 \<noteq> 0) then Some False
      else case r1 of [] \<Rightarrow> None | b0 # r2 \<Rightarrow>
        let b = u32_of b0 in
        if \<not> (b AND 0xc0 = 0x80) then Some False
        else if a AND 0x20 = 0 then (if \<not> (a AND 0x1e > 0) then Some False else check_utf8_loop r2)
        else case r2 of [] \<Rightarrow> None | c0 # r3 \<Rightarrow>
          let c = u32_of c0 in
          if \<not> (c AND 0xc0 = 0x80) then Some False
          else if a AND 0x10 = 0 then
            let x = (push_bit 6 (a AND 0x0f)) OR (b AND 0x20)
            in if \<not> (x \<noteq> 0 \<and> x \<noteq> 0x360) then Some False else check_utf8_loop r3
          else case r3 of [] \<Rightarrow> None | d0 # r4 \<Rightarrow>
            let d = u32_of d0 in
            if \<not> (d AND 0xc0 = 0x80) then Some False
            else if a AND 0x08 = 0 then
              let t = (push_bit 6 (a AND 0x07)) OR (b AND 0x30)
              in if \<not> (0 < t \<and> t < 0x110) then Some False else check_utf8_loop r4
            else Some False)"

declare check_utf8_loop.simps(2) [simp del]

definition check_utf8 :: "bytes \<Rightarrow> bool option" where
  "check_utf8 s = check_utf8_loop (s @ [0])"

definition is_utf8_character_first_code_unit :: "byte \<Rightarrow> bool" where
  "is_utf8_character_first_code_unit c \<longleftrightarrow> c AND 0xC0 \<noteq> 0x80"

definition utf8_length :: "bytes \<Rightarrow> nat" where
  "utf8_length s = (\<Sum>c\<leftarrow>s. if is_utf8_character_first_code_unit c then 1 else 0)"

text \<open>
  \<open>append_utf8_character\<close> and \<open>append_utf8_character_unsafe\<close> write the same bytes, the one to
  the end of a string and the other through a pointer; this is the list of them.
\<close>

definition append_utf8_character :: "u32 \<Rightarrow> bytes" where
  "append_utf8_character code =
     (if code \<le> 0x7f then [byte_of code]
      else if code \<le> 0x7ff then
        [byte_of (0xc0 OR drop_bit 6 code),
         byte_of (0x80 OR (code AND 0x3f))]
      else if code \<le> 0xffff then
        [byte_of (0xe0 OR drop_bit 12 code),
         byte_of (0x80 OR (drop_bit 6 code AND 0x3f)),
         byte_of (0x80 OR (code AND 0x3f))]
      else
        [byte_of (0xf0 OR drop_bit 18 code),
         byte_of (0x80 OR (drop_bit 12 code AND 0x3f)),
         byte_of (0x80 OR (drop_bit 6 code AND 0x3f)),
         byte_of (0x80 OR (code AND 0x3f))])"

text \<open>
  \<open>next_utf8_unsafe\<close>: the code and the rest.  \<open>None\<close> stands for a read past the end of the
  string or for \<open>UNREACHABLE\<close>: the caller must pass valid UTF-8.
\<close>

fun next_utf8_unsafe :: "bytes \<Rightarrow> (u32 \<times> bytes) option" where
  "next_utf8_unsafe [] = None"
| "next_utf8_unsafe (p0 # r1) =
     (let a = u32_of p0 in
      if a AND 0x80 = 0 then Some (a, r1)
      else case r1 of [] \<Rightarrow> None | p1 # r2 \<Rightarrow>
        if a AND 0x20 = 0 then Some ((push_bit 6 (a AND 0x1f)) OR (u32_of p1 AND 0x3f), r2)
        else case r2 of [] \<Rightarrow> None | p2 # r3 \<Rightarrow>
          if a AND 0x10 = 0 then
            Some ((push_bit 12 (a AND 0x0f)) OR (push_bit 6 (u32_of p1 AND 0x3f)) OR
                  (u32_of p2 AND 0x3f), r3)
          else case r3 of [] \<Rightarrow> None | p3 # r4 \<Rightarrow>
            if a AND 0x08 = 0 then
              Some ((push_bit 18 (a AND 0x07)) OR (push_bit 12 (u32_of p1 AND 0x3f)) OR
                    (push_bit 6 (u32_of p2 AND 0x3f)) OR (u32_of p3 AND 0x3f), r4)
            else None)"

declare next_utf8_unsafe.simps(2) [simp del]

lemma next_utf8_unsafe_shorter: "next_utf8_unsafe s = Some (c, r) \<Longrightarrow> length r < length s"
  by (cases s) (auto simp: next_utf8_unsafe.simps(2) Let_def split: if_splits list.splits)

text \<open>The loop of \<open>utf8_to_lower\<close> and of the search-word splitter: one code at a time.\<close>

function utf8_codes :: "bytes \<Rightarrow> u32 list option" where
  "utf8_codes s =
     (if s = [] then Some []
      else case next_utf8_unsafe s of None \<Rightarrow> None
           | Some (code, r) \<Rightarrow> map_option (\<lambda>cs. code # cs) (utf8_codes r))"
  by pat_completeness auto
termination
  by (relation "measure length") (auto dest: next_utf8_unsafe_shorter)

declare utf8_codes.simps [simp del]

definition utf8_to_lower :: "(u32 \<Rightarrow> u32) \<Rightarrow> bytes \<Rightarrow> bytes option" where
  "utf8_to_lower unicode_to_lower s =
     map_option (\<lambda>cs. concat (map (\<lambda>c. append_utf8_character (unicode_to_lower c)) cs))
       (utf8_codes s)"

text \<open>
  \<open>utf8_get_search_words\<close>: the state of the loop is whether it is in a word, the word, and the
  finished words.
\<close>

fun search_words_step ::
  "(u32 \<Rightarrow> u32) \<Rightarrow> (u32 \<Rightarrow> u32) \<Rightarrow> u32 \<Rightarrow> bool \<times> bytes \<times> bytes list \<Rightarrow> bool \<times> bytes \<times> bytes list"
where
  "search_words_step prepare_search_character remove_diacritics code (in_word, word, words) =
     (let code = prepare_search_character code in
      if code = 0 then (in_word, word, words)
      else if code = 32 then
        (if in_word then (False, [], words @ [word]) else (in_word, word, words))
      else (True, word @ append_utf8_character (remove_diacritics code), words))"

definition utf8_get_search_words ::
  "(u32 \<Rightarrow> u32) \<Rightarrow> (u32 \<Rightarrow> u32) \<Rightarrow> bytes \<Rightarrow> bytes list option" where
  "utf8_get_search_words prepare_search_character remove_diacritics s =
     map_option (\<lambda>cs.
       case fold (search_words_step prepare_search_character remove_diacritics) cs (False, [], [])
       of (in_word, word, words) \<Rightarrow> if in_word then words @ [word] else words)
     (utf8_codes s)"

definition utf8_prepare_search_string ::
  "(u32 \<Rightarrow> u32) \<Rightarrow> (u32 \<Rightarrow> u32) \<Rightarrow> bytes \<Rightarrow> bytes option" where
  "utf8_prepare_search_string prepare_search_character remove_diacritics s =
     map_option (\<lambda>ws. implode ws (ch (CHR '' '')))
       (utf8_get_search_words prepare_search_character remove_diacritics s)"

definition utf8_utf16_length :: "bytes \<Rightarrow> nat" where
  "utf8_utf16_length s =
     (\<Sum>c\<leftarrow>s. (if is_utf8_character_first_code_unit c then 1 else 0) +
            (if c AND 0xf8 = 0xf0 then 1 else 0))"

text \<open>
  \<open>utf8_truncate\<close> counts characters.  \<open>utf8_utf16_truncate\<close> counts UTF-16 code units in a
  \<open>size_t\<close>, which wraps: the second decrement runs even when the first one reached zero.
\<close>

fun utf8_truncate_loop :: "bytes \<Rightarrow> nat \<Rightarrow> bytes" where
  "utf8_truncate_loop [] len = []"
| "utf8_truncate_loop (c # cs) len =
     (if is_utf8_character_first_code_unit c
      then if len = 0 then [] else c # utf8_truncate_loop cs (len - 1)
      else c # utf8_truncate_loop cs len)"

definition utf8_truncate :: "bytes \<Rightarrow> nat \<Rightarrow> bytes" where
  "utf8_truncate s len = (if length s > len then utf8_truncate_loop s len else s)"

definition utf8_substr :: "bytes \<Rightarrow> nat \<Rightarrow> bytes" where
  "utf8_substr s offset =
     (if offset = 0 then s else drop (length (utf8_truncate s offset)) s)"

fun utf8_utf16_truncate :: "bytes \<Rightarrow> 64 word \<Rightarrow> bytes" where
  "utf8_utf16_truncate [] len = []"
| "utf8_utf16_truncate (c # cs) len =
     (if is_utf8_character_first_code_unit c
      then if len = 0 then []
           else c # utf8_utf16_truncate cs (if c \<ge> 0xf0 then len - 1 - 1 else len - 1)
      else c # utf8_utf16_truncate cs len)"

definition utf8_utf16_substr :: "bytes \<Rightarrow> 64 word \<Rightarrow> bytes" where
  "utf8_utf16_substr s offset =
     (if offset = 0 then s else drop (length (utf8_utf16_truncate s offset)) s)"

definition utf8_utf16_substr_length :: "bytes \<Rightarrow> 64 word \<Rightarrow> 64 word \<Rightarrow> bytes" where
  "utf8_utf16_substr_length s offset len = utf8_utf16_truncate (utf8_utf16_substr s offset) len"

subsection \<open>Bit tests as arithmetic\<close>

lemma unat_u32_of_and: "unat (u32_of b AND numeral m) = unat b AND (take_bit 32 (numeral m))"
  by (simp add: unsigned_and_eq unsigned_ucast_eq take_bit_nat_eq_self unat_byte_less
      order_less_le_trans [OF unat_byte_less])

lemma unat_byte_fields:
  "unat (a :: byte) div 128 mod 2 = unat a div 128" "unat a div 64 mod 4 = unat a div 64"
  using unat_byte_less [of a] by (simp_all add: less_mult_imp_div_less)

lemma u32_and_eq_iff: "u32_of a AND numeral m = w \<longleftrightarrow> unat a AND (take_bit 32 (numeral m)) = unat w"
  by (simp only: unat_u32_of_and [symmetric] word_unat_eq_iff)

lemma byte_tests:
  "u32_of a AND 0x80 = 0 \<longleftrightarrow> unat a < 128"
  "u32_of a AND 0x40 = 0 \<longleftrightarrow> unat a div 64 mod 2 = 0"
  "u32_of a AND 0x20 = 0 \<longleftrightarrow> unat a div 32 mod 2 = 0"
  "u32_of a AND 0x10 = 0 \<longleftrightarrow> unat a div 16 mod 2 = 0"
  "u32_of a AND 0x08 = 0 \<longleftrightarrow> unat a div 8 mod 2 = 0"
  "u32_of a AND 0x1e = 0 \<longleftrightarrow> unat a div 2 mod 16 = 0"
  "u32_of a AND 0xc0 = 0x80 \<longleftrightarrow> unat a div 64 = 2"
  "0 < u32_of a AND 0x1e \<longleftrightarrow> unat a div 2 mod 16 \<noteq> 0"
  by (simp_all add: word_neq_0_conv [symmetric] u32_and_eq_iff nat_mask_fields unat_byte_fields
      div_eq_0_iff)

subsection \<open>Encoding as arithmetic\<close>

lemma unat_byte_of_or: "unat (byte_of (v OR w)) = (unat v OR unat w) mod 256"
proof -
  have "unat (byte_of (v OR w)) = take_bit 8 (unat (v OR w))"
    by (simp add: unsigned_ucast_eq)
  then show ?thesis by (simp only: unsigned_or_eq take_bit_eq_mod) simp
qed

lemma u32_or_leading:
  "y < 64 \<Longrightarrow> (192 :: nat) OR y = 192 + y" "y < 32 \<Longrightarrow> (224 :: nat) OR y = 224 + y"
  "y < 16 \<Longrightarrow> (240 :: nat) OR y = 240 + y" "y < 128 \<Longrightarrow> (128 :: nat) OR y = 128 + y"
  using nat_or_add [of 6 192 y] nat_or_add [of 5 224 y] nat_or_add [of 4 240 y]
    nat_or_add [of 7 128 y] by simp_all

lemma unat_lead_byte:
  "unat w < 64 \<Longrightarrow> unat (byte_of (0xc0 OR w)) = 192 + unat w"
  "unat w < 32 \<Longrightarrow> unat (byte_of (0xe0 OR w)) = 224 + unat w"
  "unat w < 16 \<Longrightarrow> unat (byte_of (0xf0 OR w)) = 240 + unat w"
  by (simp_all only: unat_byte_of_or) (simp_all add: u32_or_leading)

lemma unat_and_3f: "unat ((w :: u32) AND 0x3f) = unat w mod 64"
  by (simp add: unsigned_and_eq nat_and_63)

lemma unat_cont_byte: "unat (byte_of (0x80 OR (w AND 0x3f))) = 128 + unat w mod 64"
proof -
  have "(128 :: nat) OR unat w mod 64 = 128 + unat w mod 64"
    by (rule u32_or_leading) (rule order_less_trans [of _ 64]; simp)
  moreover have "unat w mod 64 < 64" by simp
  ultimately show ?thesis
    by (simp add: unat_byte_of_or unat_and_3f)
qed

text \<open>The encoding of a code as numbers.\<close>

definition utf8_units :: "nat \<Rightarrow> nat list" where
  "utf8_units u =
     (if u \<le> 0x7f then [u]
      else if u \<le> 0x7ff then [192 + u div 64, 128 + u mod 64]
      else if u \<le> 0xffff then [224 + u div 4096, 128 + u div 64 mod 64, 128 + u mod 64]
      else [240 + u div 262144, 128 + u div 4096 mod 64, 128 + u div 64 mod 64, 128 + u mod 64])"

lemma unat_append_utf8_character:
  assumes "unat c < 0x200000"
  shows "map unat (append_utf8_character c) = utf8_units (unat c)"
proof -
  have d: "unat (drop_bit n c) = unat c div 2 ^ n" for n
    by (rule unat_drop_bit_div)
  have cond: "c \<le> 0x7f \<longleftrightarrow> unat c \<le> 0x7f" "c \<le> 0x7ff \<longleftrightarrow> unat c \<le> 0x7ff"
    "c \<le> 0xffff \<longleftrightarrow> unat c \<le> 0xffff"
    by (simp_all add: word_le_nat_alt)
  consider "unat c \<le> 0x7f" | "0x7f < unat c" "unat c \<le> 0x7ff" | "0x7ff < unat c" "unat c \<le> 0xffff"
    | "0xffff < unat c" by linarith
  then show ?thesis
  proof cases
    case 1
    then show ?thesis
      by (simp add: append_utf8_character_def cond utf8_units_def unsigned_ucast_eq take_bit_eq_mod)
  next
    case 2
    then have "unat (drop_bit 6 c) < 64" by (simp add: d)
    with 2 show ?thesis
      by (simp add: append_utf8_character_def cond utf8_units_def unat_lead_byte unat_cont_byte d)
  next
    case 3
    then have "unat (drop_bit 12 c) < 32" by (simp add: d)
    with 3 show ?thesis
      by (simp add: append_utf8_character_def cond utf8_units_def unat_lead_byte unat_cont_byte d)
  next
    case 4
    with assms have "unat (drop_bit 18 c) < 16" by (simp add: d)
    with 4 show ?thesis
      by (simp add: append_utf8_character_def cond utf8_units_def unat_lead_byte unat_cont_byte d)
  qed
qed

subsection \<open>Decoding as arithmetic\<close>

lemma unat_push_bit_u32: "2 ^ k * unat (w :: u32) < 2 ^ 32 \<Longrightarrow> unat (push_bit k w) = 2 ^ k * unat w"
proof -
  assume a: "2 ^ k * unat w < 2 ^ 32"
  have "unat (push_bit k w) = take_bit 32 (push_bit k (unat w))"
    by (simp add: unsigned_push_bit_eq)
  also have "push_bit k (unat w) = 2 ^ k * unat w"
    by (simp only: push_bit_eq_mult mult.commute)
  also have "take_bit 32 \<dots> = 2 ^ k * unat w"
    using a by (rule take_bit_nat_eq_self)
  finally show ?thesis .
qed

lemma unat_u32_field:
  "unat (u32_of a AND 0x07) = unat a mod 8" "unat (u32_of a AND 0x0f) = unat a mod 16"
  "unat (u32_of a AND 0x1f) = unat a mod 32" "unat (u32_of a AND 0x3f) = unat a mod 64"
  "unat (u32_of a AND 0x20) = 32 * (unat a div 32 mod 2)"
  "unat (u32_of a AND 0x30) = 16 * (unat a div 16 mod 4)"
  by (simp_all add: unat_u32_of_and nat_mask_fields)

lemma nat_or_sum: "y < 2 ^ k \<Longrightarrow> (2 ^ k * x) OR y = 2 ^ k * x + (y :: nat)"
  by (rule nat_or_add) simp_all

lemma unat_push_or:
  assumes "unat w < 2 ^ m" "k + m \<le> 32" "unat z < 2 ^ k"
  shows "unat (push_bit k w OR z :: u32) = 2 ^ k * unat w + unat z"
proof -
  have "2 ^ k * unat w < 2 ^ k * (2 :: nat) ^ m" using assms(1) by simp
  also have "\<dots> \<le> 2 ^ 32"
    using assms(2) by (metis le_numeral_extra(4) numeral_le_one_iff one_le_numeral power_add power_increasing semiring_norm(69))
  finally show ?thesis
    using assms(3) by (simp add: unsigned_or_eq unat_push_bit_u32 nat_or_sum)
qed

lemma utf8_decode_2:
  "unat (push_bit 6 (u32_of a AND 0x1f) OR (u32_of b AND 0x3f)) =
     64 * (unat a mod 32) + unat b mod 64"
proof -
  have "unat a mod 32 < 2 ^ 5" "unat b mod 64 < 2 ^ 6" by simp_all
  then show ?thesis
    using unat_push_or [of "u32_of a AND 0x1f" 5 6] by (simp only: unat_u32_field) simp
qed

lemma utf8_decode_3:
  "unat (push_bit 12 (u32_of a AND 0x0f) OR push_bit 6 (u32_of b AND 0x3f) OR (u32_of c AND 0x3f)) =
     4096 * (unat a mod 16) + 64 * (unat b mod 64) + unat c mod 64"
proof -
  have lt: "unat a mod 16 < 2 ^ 4" "unat b mod 64 < 2 ^ 6" "unat c mod 64 < 2 ^ 6" by simp_all
  have bc: "unat (push_bit 6 (u32_of b AND 0x3f) OR (u32_of c AND 0x3f)) =
      64 * (unat b mod 64) + unat c mod 64"
    using lt unat_push_or [of "u32_of b AND 0x3f" 6 6] by (simp only: unat_u32_field) simp
  have "64 * (unat b mod 64) + unat c mod 64 < 2 ^ 12" using lt by simp
  then show ?thesis
    using lt unat_push_or [of "u32_of a AND 0x0f" 4 12] bc by (simp only: unat_u32_field) simp
qed

lemma utf8_decode_4:
  "unat (push_bit 18 (u32_of a AND 0x07) OR push_bit 12 (u32_of b AND 0x3f) OR
         push_bit 6 (u32_of c AND 0x3f) OR (u32_of d AND 0x3f)) =
     262144 * (unat a mod 8) + 4096 * (unat b mod 64) + 64 * (unat c mod 64) + unat d mod 64"
proof -
  have lt: "unat a mod 8 < 2 ^ 3" "unat b mod 64 < 2 ^ 6" "unat c mod 64 < 2 ^ 6"
    "unat d mod 64 < 2 ^ 6" by simp_all
  have cd: "unat (push_bit 6 (u32_of c AND 0x3f) OR (u32_of d AND 0x3f)) =
      64 * (unat c mod 64) + unat d mod 64"
    using lt unat_push_or [of "u32_of c AND 0x3f" 6 6] by (simp only: unat_u32_field) simp
  have "64 * (unat c mod 64) + unat d mod 64 < 2 ^ 12" using lt by simp
  then have bcd: "unat (push_bit 12 (u32_of b AND 0x3f) OR
        push_bit 6 (u32_of c AND 0x3f) OR (u32_of d AND 0x3f)) =
      4096 * (unat b mod 64) + (64 * (unat c mod 64) + unat d mod 64)"
    using lt unat_push_or [of "u32_of b AND 0x3f" 6 12] cd by (simp only: unat_u32_field) simp
  have "4096 * (unat b mod 64) + (64 * (unat c mod 64) + unat d mod 64) < 2 ^ 18" using lt by simp
  then show ?thesis
    using lt unat_push_or [of "u32_of a AND 0x07" 3 18] bcd by (simp only: unat_u32_field) simp
qed

text \<open>One decoding step by the range of the first code unit.\<close>

lemma div_mod2_range:
  fixes n :: nat assumes "0 < k" "even a" "a * k \<le> n" "n < (a + 2) * k"
  shows "n div k mod 2 = 0 \<longleftrightarrow> n < (a + 1) * k"
proof -
  have "a \<le> n div k" "n div k < a + 2" "n div k < a + 1 \<longleftrightarrow> n < (a + 1) * k"
    using assms by (simp_all add: less_eq_div_iff_mult_less_eq div_less_iff_less_mult)
  then consider "n div k = a" "n < (a + 1) * k" | "n div k = a + 1" "\<not> n < (a + 1) * k"
    by linarith
  then show ?thesis
    using assms(2) by cases (simp_all add: even_iff_mod_2_eq_zero mod_Suc)
qed

lemma lead_unit_ranges:
  fixes n :: nat assumes "n < 256"
  shows "128 \<le> n \<Longrightarrow> n div 64 mod 2 = 0 \<longleftrightarrow> n < 192"
    "192 \<le> n \<Longrightarrow> n div 32 mod 2 = 0 \<longleftrightarrow> n < 224"
    "224 \<le> n \<Longrightarrow> n div 16 mod 2 = 0 \<longleftrightarrow> n < 240"
    "240 \<le> n \<Longrightarrow> n div 8 mod 2 = 0 \<longleftrightarrow> n < 248"
  using assms div_mod2_range [of 64 2 n] div_mod2_range [of 32 6 n]
    div_mod2_range [of 16 14 n] div_mod2_range [of 8 30 n] by simp_all

lemma two_unit_lead: "192 \<le> n \<Longrightarrow> n < 224 \<Longrightarrow> (n :: nat) div 2 mod 16 = 0 \<longleftrightarrow> n < 194"
proof -
  assume "192 \<le> n" "n < 224"
  then have "n div 2 mod 16 = n div 2 - 96"
    by (intro mod_nat_eqI) (simp_all add: le_mod_geq)
  with \<open>192 \<le> n\<close> show ?thesis by linarith
qed

lemma cont_unit_range: "(n :: nat) div 64 = 2 \<longleftrightarrow> 128 \<le> n \<and> n < 192"
  by linarith

lemma next_utf8_unsafe_range1:
  "unat a < 128 \<Longrightarrow> next_utf8_unsafe (a # r) = Some (u32_of a, r)"
  by (simp add: next_utf8_unsafe.simps(2) Let_def byte_tests)

lemma next_utf8_unsafe_range2:
  assumes "192 \<le> unat a" "unat a < 224"
  shows "next_utf8_unsafe (a # b # r) =
     Some (word_of_nat (64 * (unat a mod 32) + unat b mod 64), r)"
proof -
  have "unat a div 32 mod 2 = 0"
    using assms lead_unit_ranges [OF unat_byte_less [of a]] by simp
  then show ?thesis
    using assms by (simp add: next_utf8_unsafe.simps(2) byte_tests utf8_decode_2 [symmetric] del: of_nat_add)
qed

lemma next_utf8_unsafe_range3:
  assumes "224 \<le> unat a" "unat a < 240"
  shows "next_utf8_unsafe (a # b # c # r) =
     Some (word_of_nat (4096 * (unat a mod 16) + 64 * (unat b mod 64) + unat c mod 64), r)"
proof -
  have "unat a div 32 mod 2 \<noteq> 0" "unat a div 16 mod 2 = 0"
    using assms lead_unit_ranges [OF unat_byte_less [of a]] by simp_all
  then show ?thesis
    using assms by (simp add: next_utf8_unsafe.simps(2) byte_tests utf8_decode_3 [symmetric] del: of_nat_add)
qed

lemma next_utf8_unsafe_range4:
  assumes "240 \<le> unat a" "unat a < 248"
  shows "next_utf8_unsafe (a # b # c # d # r) =
     Some (word_of_nat (262144 * (unat a mod 8) + 4096 * (unat b mod 64) + 64 * (unat c mod 64)
       + unat d mod 64), r)"
proof -
  have "unat a div 32 mod 2 \<noteq> 0" "unat a div 16 mod 2 \<noteq> 0" "unat a div 8 mod 2 = 0"
    using assms lead_unit_ranges [OF unat_byte_less [of a]] by simp_all
  then show ?thesis
    using assms by (simp add: next_utf8_unsafe.simps(2) byte_tests utf8_decode_4 [symmetric] del: of_nat_add)
qed

lemma utf8_units_cases:
  assumes "u < 0x200000"
  obtains (one) "u < 128" "utf8_units u = [u]"
  | (two) "128 \<le> u" "u < 2048" "utf8_units u = [192 + u div 64, 128 + u mod 64]"
  | (three) "2048 \<le> u" "u < 65536"
      "utf8_units u = [224 + u div 4096, 128 + u div 64 mod 64, 128 + u mod 64]"
  | (four) "65536 \<le> u"
      "utf8_units u = [240 + u div 262144, 128 + u div 4096 mod 64, 128 + u div 64 mod 64, 128 + u mod 64]"
  unfolding utf8_units_def by (cases "u < 128"; cases "u < 2048"; cases "u < 65536") auto

lemma map_unat_eq_Cons:
  "map unat xs = y # ys \<longleftrightarrow> (\<exists>b bs. xs = b # bs \<and> unat b = y \<and> map unat bs = ys)"
  by (cases xs) auto

subsection \<open>Decoding inverts encoding\<close>

lemma unit_payload:
  fixes q :: nat
  shows "q < 32 \<Longrightarrow> (192 + q) mod 32 = q" "q < 16 \<Longrightarrow> (224 + q) mod 16 = q"
    "q < 8 \<Longrightarrow> (240 + q) mod 8 = q" "(128 + q) mod 64 = q mod 64"
  using mod_mult_self3 [of 6 32 q] mod_mult_self3 [of 14 16 q] mod_mult_self3 [of 30 8 q]
    mod_mult_self3 [of 2 64 q] by simp_all

lemma next_append_utf8:
  assumes "unat c < 0x200000"
  shows "next_utf8_unsafe (append_utf8_character c @ r) = Some (c, r)"
proof -
  have units: "map unat (append_utf8_character c) = utf8_units (unat c)"
    using assms by (rule unat_append_utf8_character)
  from assms show ?thesis
  proof (cases "unat c" rule: utf8_units_cases)
    case one
    with units obtain a where a: "append_utf8_character c = [a]" "unat a = unat c"
      by (auto simp: map_unat_eq_Cons)
    have "u32_of a = c"
      using a(2) unat_byte_less [of a]
      by (simp add: word_unat_eq_iff unsigned_ucast_eq take_bit_nat_eq_self)
    with a one show ?thesis by (simp add: next_utf8_unsafe_range1)
  next
    case two
    with units obtain a b where ab: "append_utf8_character c = [a, b]"
      "unat a = 192 + unat c div 64" "unat b = 128 + unat c mod 64"
      by (auto simp: map_unat_eq_Cons)
    have "unat c div 64 < 32" using two by linarith
    then show ?thesis
      using ab two by (simp add: next_utf8_unsafe_range2 unit_payload del: of_nat_add)
  next
    case three
    with units obtain a b d where abd: "append_utf8_character c = [a, b, d]"
      "unat a = 224 + unat c div 4096" "unat b = 128 + unat c div 64 mod 64"
      "unat d = 128 + unat c mod 64"
      by (auto simp: map_unat_eq_Cons)
    have "unat c div 4096 < 16" using three by linarith
    then show ?thesis
      using abd three
      by (simp add: next_utf8_unsafe_range3 unit_payload sextets3 del: of_nat_add)
  next
    case four
    with units obtain a b d e where abd: "append_utf8_character c = [a, b, d, e]"
      "unat a = 240 + unat c div 262144" "unat b = 128 + unat c div 4096 mod 64"
      "unat d = 128 + unat c div 64 mod 64" "unat e = 128 + unat c mod 64"
      by (auto simp: map_unat_eq_Cons)
    have "unat c div 262144 < 8" using assms by linarith
    then show ?thesis
      using abd four
      by (simp add: next_utf8_unsafe_range4 unit_payload sextets4 del: of_nat_add)
  qed
qed

definition unicode_scalar :: "u32 \<Rightarrow> bool" where
  "unicode_scalar c \<longleftrightarrow> unat c < 0xD800 \<or> 0xE000 \<le> unat c \<and> unat c < 0x110000"

definition utf8_encode_codes :: "u32 list \<Rightarrow> bytes" where
  "utf8_encode_codes cs = concat (map append_utf8_character cs)"

definition valid_utf8 :: "bytes \<Rightarrow> bool" where
  "valid_utf8 s \<longleftrightarrow> (\<exists>cs. list_all unicode_scalar cs \<and> s = utf8_encode_codes cs)"

lemma unicode_scalar_bound: "unicode_scalar c \<Longrightarrow> unat c < 0x200000"
  by (auto simp: unicode_scalar_def)

lemma append_utf8_character_nonempty [simp]: "append_utf8_character c \<noteq> []"
  by (simp add: append_utf8_character_def)

lemma utf8_encode_codes_simps [simp]:
  "utf8_encode_codes [] = []"
  "utf8_encode_codes (c # cs) = append_utf8_character c @ utf8_encode_codes cs"
  by (simp_all add: utf8_encode_codes_def)

lemma utf8_encode_codes_append [simp]:
  "utf8_encode_codes (xs @ ys) = utf8_encode_codes xs @ utf8_encode_codes ys"
  by (simp add: utf8_encode_codes_def)

lemma utf8_codes_encode:
  "list_all unicode_scalar cs \<Longrightarrow> utf8_codes (utf8_encode_codes cs) = Some cs"
proof (induction cs)
  case Nil
  then show ?case by (simp add: utf8_codes.simps)
next
  case (Cons c cs)
  then show ?case
    by (subst utf8_codes.simps) (simp add: next_append_utf8 unicode_scalar_bound)
qed

subsection \<open>The validator accepts exactly the encodings of Unicode scalar values\<close>

lemma check_utf8_ascii:
  "unat a < 128 \<Longrightarrow>
     check_utf8_loop (a # r) = (if r = [] then Some True else check_utf8_loop r)"
  by (subst check_utf8_loop.simps(2)) (simp add: byte_tests)

lemma check_utf8_two:
  assumes "192 \<le> unat a" "unat a < 224"
  shows "check_utf8_loop (a # b # r) =
     (if unat b div 64 = 2 \<and> 194 \<le> unat a then check_utf8_loop r else Some False)"
proof -
  have n: "\<not> unat a < 128" "unat a div 64 mod 2 \<noteq> 0" "unat a div 32 mod 2 = 0"
    "unat a div 2 mod 16 = 0 \<longleftrightarrow> \<not> 194 \<le> unat a"
    using assms lead_unit_ranges [OF unat_byte_less [of a]] two_unit_lead [OF assms]
    by (simp_all add: not_le)
  show ?thesis
    by (simp only: check_utf8_loop.simps(2) [of a "b # r"] Let_def list.case byte_tests n
        simp_thms if_True if_False) (simp split: if_split)
qed

lemma check_utf8_three:
  assumes "224 \<le> unat a" "unat a < 240"
  shows "check_utf8_loop (a # b # c # r) =
     (let x = 64 * (unat a mod 16) + 32 * (unat b div 32 mod 2)
      in if unat b div 64 = 2 \<and> unat c div 64 = 2 \<and> x \<noteq> 0 \<and> x \<noteq> 0x360
         then check_utf8_loop r else Some False)"
proof -
  have n: "\<not> unat a < 128" "unat a div 64 mod 2 \<noteq> 0" "unat a div 32 mod 2 \<noteq> 0"
    "unat a div 16 mod 2 = 0"
    using assms lead_unit_ranges [OF unat_byte_less [of a]] by simp_all
  have x: "unat (push_bit 6 (u32_of a AND 0x0f) OR (u32_of b AND 0x20)) =
      64 * (unat a mod 16) + 32 * (unat b div 32 mod 2)"
    using unat_push_or [of "u32_of a AND 0x0f" 4 6 "u32_of b AND 0x20"]
    by (simp only: unat_u32_field) simp
  have w: "push_bit 6 (u32_of a AND 0x0f) OR (u32_of b AND 0x20) = w \<longleftrightarrow>
      64 * (unat a mod 16) + 32 * (unat b div 32 mod 2) = unat w" for w
    by (simp only: word_unat_eq_iff x)
  show ?thesis
    by (simp only: check_utf8_loop.simps(2) [of a "b # c # r"] Let_def list.case byte_tests n w
        simp_thms if_True if_False) (simp split: if_split)
qed

lemma check_utf8_four:
  assumes "240 \<le> unat a"
  shows "check_utf8_loop (a # b # c # d # r) =
     (let t = 64 * (unat a mod 8) + 16 * (unat b div 16 mod 4)
      in if unat a < 248 \<and> unat b div 64 = 2 \<and> unat c div 64 = 2 \<and> unat d div 64 = 2 \<and> 0 < t \<and> t < 0x110
         then check_utf8_loop r else Some False)"
proof -
  have n: "\<not> unat a < 128" "unat a div 64 mod 2 \<noteq> 0" "unat a div 32 mod 2 \<noteq> 0"
    "unat a div 16 mod 2 \<noteq> 0" "unat a div 8 mod 2 = 0 \<longleftrightarrow> unat a < 248"
    using assms lead_unit_ranges [OF unat_byte_less [of a]] by simp_all
  have x: "unat (push_bit 6 (u32_of a AND 0x07) OR (u32_of b AND 0x30)) =
      64 * (unat a mod 8) + 16 * (unat b div 16 mod 4)"
    using unat_push_or [of "u32_of a AND 0x07" 3 6 "u32_of b AND 0x30"]
    by (simp only: unat_u32_field) simp
  show ?thesis
    by (simp only: check_utf8_loop.simps(2) [of a "b # c # d # r"] Let_def list.case byte_tests n x
        word_less_nat_alt simp_thms if_True if_False) (simp split: if_split)
qed

text \<open>Every encoding of a scalar value passes one round of the loop.\<close>

lemma div_range_nat: "(k :: nat) * b \<le> n \<Longrightarrow> n < (k + 1) * b \<Longrightarrow> n div b = k"
  by (rule div_nat_eqI) (simp_all add: mult.commute)

lemma check_utf8_append:
  assumes c: "unicode_scalar c" and r: "r \<noteq> []"
  shows "check_utf8_loop (append_utf8_character c @ r) = check_utf8_loop r"
proof -
  have units: "map unat (append_utf8_character c) = utf8_units (unat c)"
    using c by (intro unat_append_utf8_character unicode_scalar_bound)
  have bound: "unat c < 0x200000"
    using c by (rule unicode_scalar_bound)
  have cont: "(128 + m mod 64) div 64 = (2 :: nat)" for m
    by (rule div_range_nat) simp_all
  from bound show ?thesis
  proof (cases "unat c" rule: utf8_units_cases)
    case one
    with units r show ?thesis by (auto simp: map_unat_eq_Cons check_utf8_ascii)
  next
    case two
    then have "2 \<le> unat c div 64" "unat c div 64 < 32" by linarith+
    with units two show ?thesis by (auto simp: map_unat_eq_Cons check_utf8_two cont)
  next
    case three
    let ?u = "unat c"
    have q: "?u div 4096 < 16" using three by linarith
    have hi: "(128 + ?u div 64 mod 64) div 32 mod 2 = ?u div 2048 mod 2"
    proof -
      have "(128 + ?u div 64 mod 64) div 32 = ?u div 64 mod 64 div 32 + 4" by simp
      also have "\<dots> = ?u div 2048 mod 2 + 4"
        using mod_mult2_eq [of "?u div 64" 32 2] by (simp add: div_mult2_eq [symmetric] mod_mult2_eq)
      finally show ?thesis using mod_mult_self1 [of "?u div 2048 mod 2" 2 2] by simp
    qed
    have x: "64 * ((224 + ?u div 4096) mod 16) + 32 * (?u div 2048 mod 2) = 32 * (?u div 2048)"
      using q mult_div_mod_eq [of 2 "?u div 2048"]
      by (simp add: unit_payload div_mult2_eq [symmetric])
    have "?u div 2048 \<noteq> 0" "?u div 2048 \<noteq> 27"
      using three c unfolding unicode_scalar_def by linarith+
    then have "check_utf8_loop (a # b # d # r) = check_utf8_loop r"
      if "unat a = 224 + ?u div 4096" "unat b = 128 + ?u div 64 mod 64"
        "unat d = 128 + ?u mod 64" for a b d
      using that q hi x cont by (simp add: check_utf8_three Let_def)
    with units three show ?thesis by (auto simp: map_unat_eq_Cons)
  next
    case four
    let ?u = "unat c"
    have q: "?u div 262144 < 8" using c unfolding unicode_scalar_def by linarith
    have hi: "(128 + ?u div 4096 mod 64) div 16 mod 4 = ?u div 65536 mod 4"
    proof -
      have "(128 + ?u div 4096 mod 64) div 16 = ?u div 4096 mod 64 div 16 + 8" by simp
      also have "\<dots> = ?u div 65536 mod 4 + 8"
        using mod_mult2_eq [of "?u div 4096" 16 4] by (simp add: div_mult2_eq [symmetric])
      finally show ?thesis using mod_mult_self1 [of "?u div 65536 mod 4" 2 4] by simp
    qed
    have x: "64 * ((240 + ?u div 262144) mod 8) + 16 * (?u div 65536 mod 4) = 16 * (?u div 65536)"
      using q mult_div_mod_eq [of 4 "?u div 65536"]
      by (simp add: unit_payload div_mult2_eq [symmetric])
    have "0 < ?u div 65536" "?u div 65536 < 17"
      using four c unfolding unicode_scalar_def by linarith+
    then have "check_utf8_loop (a # b # d # e # r) = check_utf8_loop r"
      if "unat a = 240 + ?u div 262144" "unat b = 128 + ?u div 4096 mod 64"
        "unat d = 128 + ?u div 64 mod 64" "unat e = 128 + ?u mod 64" for a b d e
      using that q hi x cont by (simp add: check_utf8_four Let_def)
    with units four show ?thesis by (auto simp: map_unat_eq_Cons)
  qed
qed

text \<open>
  Conversely, every round of the loop that does not reject consumes the encoding of a scalar.
\<close>

lemma append_units_eq:
  assumes "u < 0x200000" "utf8_units u = map unat bs"
  shows "append_utf8_character (word_of_nat u) = bs"
proof -
  have u: "unat (word_of_nat u :: u32) = u"
    using assms(1) by (simp add: unat_of_nat)
  then have "map unat (append_utf8_character (word_of_nat u)) = map unat bs"
    using assms by (simp add: unat_append_utf8_character)
  then show ?thesis by (rule map_unat_inject)
qed

lemma check_utf8_cont:
  assumes "128 \<le> unat a" "unat a < 192"
  shows "check_utf8_loop (a # r) = Some False"
  using assms lead_unit_ranges(1) [OF unat_byte_less [of a]]
  by (subst check_utf8_loop.simps(2)) (simp add: byte_tests)

lemma check_utf8_short2: "192 \<le> unat a \<Longrightarrow> check_utf8_loop [a, 0] = Some False"
proof -
  assume "192 \<le> unat a"
  then have n: "\<not> unat a < 128" "unat a div 64 mod 2 \<noteq> 0"
    using lead_unit_ranges [OF unat_byte_less [of a]] by simp_all
  show ?thesis
    by (simp only: check_utf8_loop.simps(2) [of a "[0]"] Let_def list.case byte_tests n
        simp_thms if_True if_False) simp
qed

lemma check_utf8_short3: "224 \<le> unat a \<Longrightarrow> check_utf8_loop [a, b, 0] = Some False"
proof -
  assume "224 \<le> unat a"
  then have n: "\<not> unat a < 128" "unat a div 64 mod 2 \<noteq> 0" "unat a div 32 mod 2 \<noteq> 0"
    using lead_unit_ranges [OF unat_byte_less [of a]] by simp_all
  show ?thesis
    by (simp only: check_utf8_loop.simps(2) [of a "[b, 0]"] Let_def list.case byte_tests n
        simp_thms if_True if_False) (simp split: if_split)
qed

lemma check_utf8_short4: "240 \<le> unat a \<Longrightarrow> check_utf8_loop [a, b, c, 0] = Some False"
proof -
  assume "240 \<le> unat a"
  then have n: "\<not> unat a < 128" "unat a div 64 mod 2 \<noteq> 0" "unat a div 32 mod 2 \<noteq> 0"
    "unat a div 16 mod 2 \<noteq> 0"
    using lead_unit_ranges [OF unat_byte_less [of a]] by simp_all
  show ?thesis
    by (simp only: check_utf8_loop.simps(2) [of a "[b, c, 0]"] Let_def list.case byte_tests n
        simp_thms if_True if_False) (simp split: if_split)
qed

text \<open>The units a round accepts are the units of one code.\<close>

lemma cont_unitE:
  assumes "(b :: nat) div 64 = 2" obtains q where "b = 128 + q" "q < 64"
  using assms that [of "b - 128"] by (auto simp: cont_unit_range)

lemma units2:
  assumes "194 \<le> a" "a < 224" "b div 64 = 2"
  shows "\<exists>u. u < 2048 \<and> utf8_units u = [a, b]"
proof -
  from assms(3) obtain q where b: "b = 128 + q" "q < 64" by (rule cont_unitE)
  obtain p where a: "a = 192 + p" "2 \<le> p" "p < 32"
    using assms(1,2) that [of "a - 192"] by simp
  have "(64 * p + q) div 64 = p" "(64 * p + q) mod 64 = q" using b by simp_all
  then have "64 * p + q < 2048 \<and> utf8_units (64 * p + q) = [a, b]"
    using a b by (simp add: utf8_units_def)
  then show ?thesis by blast
qed

lemma units3:
  assumes "224 \<le> a" "a < 240" "b div 64 = 2" "c div 64 = 2"
    and x: "64 * (a mod 16) + 32 * (b div 32 mod 2) \<noteq> 0"
    and sur: "64 * (a mod 16) + 32 * (b div 32 mod 2) \<noteq> 0x360"
  shows "\<exists>u. u < 65536 \<and> \<not> (0xD800 \<le> u \<and> u < 0xE000) \<and> utf8_units u = [a, b, c]"
proof -
  from assms(3) obtain q where b: "b = 128 + q" "q < 64" by (rule cont_unitE)
  from assms(4) obtain r where c: "c = 128 + r" "r < 64" by (rule cont_unitE)
  obtain p where a: "a = 224 + p" "p < 16"
    using assms(1,2) that [of "a - 224"] by simp
  have "q div 32 < 2" using b(2) by linarith
  then have "b div 32 mod 2 = q div 32"
    using b(1) mod_mult_self3 [of 2 2 "q div 32"] div_mult_self3 [of 32 4 q] by simp
  then have x0: "64 * p + 32 * (q div 32) \<noteq> 0" "64 * p + 32 * (q div 32) \<noteq> 864"
    using x sur a unit_payload(2) [OF a(2)] by simp_all
  define u where "u = 64 * (64 * p + q) + r"
  have u: "u = 4096 * p + 64 * q + r" by (simp add: u_def)
  have d: "u div 64 = 64 * p + q" "u mod 64 = r" using c(2) by (simp_all only: u_def sextet_step)
  then have "u div 64 div 64 = p" "u div 64 mod 64 = q" using b(2) by (simp_all only: sextet_step)
  then have e: "u div 4096 = p" "u div 64 mod 64 = q" by (simp_all add: div_mult2_eq [symmetric])
  have "2048 \<le> u"
  proof (cases "p = 0")
    case True
    then have "q div 32 \<noteq> 0" using x0(1) by simp
    then have "32 \<le> q" by (simp add: div_eq_0_iff)
    then show ?thesis by (simp add: u_def)
  qed (simp add: u_def)
  moreover have "\<not> (0xD800 \<le> u \<and> u < 0xE000)"
  proof
    assume "0xD800 \<le> u \<and> u < 0xE000"
    then have "0xD800 \<le> u" "u < 0xE000" "q \<le> 63" "r \<le> 63" using b(2) c(2) by simp_all
    then have "p \<le> 13" "13 \<le> p" unfolding u by linarith+
    then have "p = 13" by simp
    then have "32 \<le> q" using \<open>0xD800 \<le> u\<close> \<open>r \<le> 63\<close> unfolding u by linarith
    then have "q div 32 = 1" using b(2) by (intro div_range_nat) simp_all
    with \<open>p = 13\<close> x0(2) show False by simp
  qed
  moreover have "u < 65536" using a(2) b(2) c(2) unfolding u by linarith
  ultimately show ?thesis
    using a b c d e by (intro exI [of _ u]) (simp add: utf8_units_def)
qed

lemma units4:
  assumes "240 \<le> a" "a < 248" "b div 64 = 2" "c div 64 = 2" "d div 64 = 2"
    and t: "0 < 64 * (a mod 8) + 16 * (b div 16 mod 4)"
    and t': "64 * (a mod 8) + 16 * (b div 16 mod 4) < 0x110"
  shows "\<exists>u. 65536 \<le> u \<and> u < 0x110000 \<and> utf8_units u = [a, b, c, d]"
proof -
  from assms(3) obtain q where b: "b = 128 + q" "q < 64" by (rule cont_unitE)
  from assms(4) obtain r where c: "c = 128 + r" "r < 64" by (rule cont_unitE)
  from assms(5) obtain s where dd: "d = 128 + s" "s < 64" by (rule cont_unitE)
  obtain p where a: "a = 240 + p" "p < 8"
    using assms(1,2) that [of "a - 240"] by simp
  have "q div 16 < 4" using b(2) by linarith
  then have "b div 16 mod 4 = q div 16"
    using b(1) mod_mult_self3 [of 2 4 "q div 16"] div_mult_self3 [of 16 8 q] by simp
  then have x0: "0 < 64 * p + 16 * (q div 16)" "64 * p + 16 * (q div 16) < 272"
    using t t' a unit_payload(3) [OF a(2)] by simp_all
  define u where "u = 64 * (64 * (64 * p + q) + r) + s"
  have u: "u = 262144 * p + 4096 * q + 64 * r + s" by (simp add: u_def)
  have d: "u div 64 = 64 * (64 * p + q) + r" "u mod 64 = s" using dd(2) by (simp_all only: u_def sextet_step)
  then have "u div 64 div 64 = 64 * p + q" "u div 64 mod 64 = r"
    using c(2) by (simp_all only: sextet_step)
  moreover from this(1) have "u div 64 div 64 div 64 = p" "u div 64 div 64 mod 64 = q"
    using b(2) by (simp_all only: sextet_step)
  ultimately have e: "u div 262144 = p" "u div 4096 mod 64 = q" "u div 64 mod 64 = r"
    by (simp_all add: div_mult2_eq [symmetric])
  have "65536 \<le> u"
  proof (cases "p = 0")
    case True
    then have "q div 16 \<noteq> 0" using x0(1) by simp
    then have "16 \<le> q" by (simp add: div_eq_0_iff)
    then show ?thesis by (simp add: u_def)
  qed (simp add: u_def)
  moreover have "u < 0x110000"
  proof (cases "p < 4")
    case True
    then have "p \<le> 3" "q \<le> 63" "r \<le> 63" "s \<le> 63" using b(2) c(2) dd(2) by simp_all
    then show ?thesis unfolding u by linarith
  next
    case False
    then have "p \<le> 4" using x0(2) by linarith
    with False have "p = 4" by simp
    then have "q div 16 = 0" using x0(2) by simp
    then have "q < 16" by (simp add: div_eq_0_iff)
    then have "q \<le> 15" "r \<le> 63" "s \<le> 63" using c(2) dd(2) by simp_all
    then show ?thesis using \<open>p = 4\<close> unfolding u by linarith
  qed
  ultimately show ?thesis
    using a b c dd d e by (intro exI [of _ u]) (simp add: utf8_units_def)
qed

lemma scalar_of_units:
  assumes "utf8_units u = map unat bs" "u < 0xD800 \<or> 0xE000 \<le> u \<and> u < 0x110000" "s = bs @ r"
  shows "\<exists>c r. unicode_scalar c \<and> s = append_utf8_character c @ r"
proof -
  have "append_utf8_character (word_of_nat u) = bs"
    using assms(1,2) by (intro append_units_eq) auto
  moreover have "unicode_scalar (word_of_nat u)"
  proof -
    have "u < 2 ^ 32" using assms(2) by auto
    then have "unat (word_of_nat u :: u32) = u" by (simp add: unat_of_nat)
    then show ?thesis using assms(2) by (simp add: unicode_scalar_def)
  qed
  ultimately show ?thesis using assms(3) by metis
qed

lemma check_utf8_round:
  assumes "s \<noteq> []" "check_utf8_loop (s @ [0]) \<noteq> Some False"
  shows "\<exists>c r. unicode_scalar c \<and> s = append_utf8_character c @ r"
proof -
  obtain a s1 where s: "s = a # s1" using assms(1) by (cases s) auto
  consider "unat a < 128" | "128 \<le> unat a" "unat a < 192" | "192 \<le> unat a" "unat a < 224"
    | "224 \<le> unat a" "unat a < 240" | "240 \<le> unat a" by linarith
  then show ?thesis
  proof cases
    case 1
    then show ?thesis
      using s scalar_of_units [of "unat a" "[a]" s s1] by (simp add: utf8_units_def)
  next
    case 2
    then show ?thesis using assms(2) s by (simp add: check_utf8_cont)
  next
    case 3
    then obtain b r where s1: "s1 = b # r"
      using assms(2) s by (cases s1) (auto simp: check_utf8_short2)
    then have "194 \<le> unat a" "unat b div 64 = 2"
      using assms(2) s 3 by (auto simp: check_utf8_two split: if_splits)
    then obtain u where "u < 2048" "utf8_units u = [unat a, unat b]"
      using units2 3 by blast
    then show ?thesis using s s1 scalar_of_units [of u "[a, b]" s r] by simp
  next
    case 4
    then obtain b c r where s1: "s1 = b # c # r"
      using assms(2) s
      by (cases s1; cases "tl s1") (auto simp: check_utf8_short2 check_utf8_short3)
    then have "\<exists>u. u < 65536 \<and> \<not> (0xD800 \<le> u \<and> u < 0xE000) \<and> utf8_units u = [unat a, unat b, unat c]"
      using assms(2) s 4 by (intro units3) (auto simp: check_utf8_three Let_def split: if_splits)
    then obtain u where "u < 65536" "\<not> (0xD800 \<le> u \<and> u < 0xE000)"
      "utf8_units u = [unat a, unat b, unat c]" by blast
    then show ?thesis using s s1 scalar_of_units [of u "[a, b, c]" s r] by auto
  next
    case 5
    then obtain b c d r where s1: "s1 = b # c # d # r"
      using assms(2) s
      by (cases s1; cases "tl s1"; cases "tl (tl s1)")
        (auto simp: check_utf8_short2 check_utf8_short3 check_utf8_short4)
    then have "\<exists>u. 65536 \<le> u \<and> u < 0x110000 \<and> utf8_units u = [unat a, unat b, unat c, unat d]"
      using assms(2) s 5 by (intro units4) (auto simp: check_utf8_four Let_def split: if_splits)
    then obtain u where "65536 \<le> u" "u < 0x110000"
      "utf8_units u = [unat a, unat b, unat c, unat d]" by blast
    then show ?thesis using s s1 scalar_of_units [of u "[a, b, c, d]" s r] by simp
  qed
qed

lemma valid_utf8_Nil [simp]: "valid_utf8 []"
  unfolding valid_utf8_def by (rule exI [of _ "[]"]) simp

lemma valid_utf8_append:
  assumes "unicode_scalar c"
  shows "valid_utf8 (append_utf8_character c @ r) \<longleftrightarrow> valid_utf8 r"
proof
  assume "valid_utf8 r"
  then obtain cs where "list_all unicode_scalar cs" "r = utf8_encode_codes cs"
    by (auto simp: valid_utf8_def)
  with assms show "valid_utf8 (append_utf8_character c @ r)"
    unfolding valid_utf8_def by (intro exI [of _ "c # cs"]) simp
next
  assume "valid_utf8 (append_utf8_character c @ r)"
  then obtain cs where cs: "list_all unicode_scalar cs"
    "append_utf8_character c @ r = utf8_encode_codes cs"
    by (auto simp: valid_utf8_def)
  then obtain d ds where ds: "cs = d # ds" by (cases cs) auto
  have "Some (c, r) = Some (d, utf8_encode_codes ds)"
    using next_append_utf8 [of c r] next_append_utf8 [of d "utf8_encode_codes ds"]
      assms cs ds by (simp add: unicode_scalar_bound)
  with cs ds show "valid_utf8 r" unfolding valid_utf8_def by auto
qed

lemma check_utf8_correct: "check_utf8 s = Some (valid_utf8 s)"
  unfolding check_utf8_def
proof (induction s rule: length_induct)
  case (1 s)
  show ?case
  proof (cases "\<exists>c r. unicode_scalar c \<and> s = append_utf8_character c @ r")
    case True
    then obtain c r where c: "unicode_scalar c" "s = append_utf8_character c @ r" by blast
    then have "length r < length s" by simp
    then have "check_utf8_loop (r @ [0]) = Some (valid_utf8 r)" using "1.IH" by blast
    then show ?thesis
      using c by (simp add: check_utf8_append valid_utf8_append)
  next
    case False
    show ?thesis
    proof (cases "s = []")
      case True
      then show ?thesis by (simp add: check_utf8_loop.simps(2))
    next
      case ne: False
      then have "check_utf8_loop (s @ [0]) = Some False"
        using check_utf8_round False by blast
      moreover have "\<not> valid_utf8 s"
      proof
        assume "valid_utf8 s"
        then obtain cs where "list_all unicode_scalar cs" "s = utf8_encode_codes cs"
          by (auto simp: valid_utf8_def)
        with ne False show False by (cases cs) auto
      qed
      ultimately show ?thesis by simp
    qed
  qed
qed

subsection \<open>Lengths and truncation\<close>

definition utf16_units :: "u32 \<Rightarrow> nat" where
  "utf16_units c = (if 0x10000 \<le> unat c then 2 else 1)"

lemma byte_and_eq_iff: "b AND numeral m = w \<longleftrightarrow> unat b AND (take_bit 8 (numeral m)) = unat (w :: byte)"
proof -
  have "unat (b AND numeral m) = unat b AND take_bit 8 (numeral m)"
    by (simp add: unsigned_and_eq)
  then show ?thesis by (simp only: word_unat_eq_iff)
qed

lemma first_code_unit_iff: "is_utf8_character_first_code_unit b \<longleftrightarrow> unat b div 64 \<noteq> 2"
  by (simp add: is_utf8_character_first_code_unit_def byte_and_eq_iff nat_mask_fields unat_byte_fields)

lemma four_unit_lead_iff: "(b :: byte) AND 0xf8 = 0xf0 \<longleftrightarrow> unat b div 8 = 30"
proof -
  have "unat b div 8 mod 32 = unat b div 8"
    using unat_byte_less [of b] by simp
  then show ?thesis by (simp add: byte_and_eq_iff nat_mask_fields)
qed

lemma append_utf8_shape:
  assumes "unicode_scalar c"
  obtains b bs where "append_utf8_character c = b # bs" "is_utf8_character_first_code_unit b"
    "\<forall>x\<in>set bs. \<not> is_utf8_character_first_code_unit x \<and> x AND 0xf8 \<noteq> 0xf0"
    "b \<ge> 0xf0 \<longleftrightarrow> utf16_units c = 2" "b AND 0xf8 = 0xf0 \<longleftrightarrow> utf16_units c = 2"
proof -
  have bound: "unat c < 0x200000" using assms by (rule unicode_scalar_bound)
  then have units: "map unat (append_utf8_character c) = utf8_units (unat c)"
    by (rule unat_append_utf8_character)
  have cont: "(128 + m mod 64) div 64 = (2 :: nat)" "(128 + m mod 64) div 8 \<noteq> (30 :: nat)" for m
  proof -
    have "m mod 64 < 64" by simp
    then show "(128 + m mod 64) div 64 = (2 :: nat)" "(128 + m mod 64) div 8 \<noteq> (30 :: nat)"
      by linarith+
  qed
  have "\<exists>b bs. append_utf8_character c = b # bs \<and> unat b div 64 \<noteq> 2 \<and>
    (\<forall>x\<in>set bs. unat x div 64 = 2 \<and> unat x div 8 \<noteq> 30) \<and>
    (240 \<le> unat b \<longleftrightarrow> 0x10000 \<le> unat c) \<and> (unat b div 8 = 30 \<longleftrightarrow> 0x10000 \<le> unat c)"
    using bound
  proof (cases "unat c" rule: utf8_units_cases)
    case one
    then show ?thesis using units by (auto simp: map_unat_eq_Cons)
  next
    case two
    then have "unat c div 64 < 32" by linarith
    then show ?thesis using two units cont by (auto simp: map_unat_eq_Cons)
  next
    case three
    then have "unat c div 4096 < 16" by linarith
    then show ?thesis using three units cont by (auto simp: map_unat_eq_Cons)
  next
    case four
    then have "unat c div 262144 < 8" using bound by linarith
    then have lead: "(240 + unat c div 262144) div 64 = 3" "(240 + unat c div 262144) div 8 = 30"
      by linarith+
    obtain b b1 b2 b3 where "append_utf8_character c = [b, b1, b2, b3]"
        "unat b = 240 + unat c div 262144" "unat b1 = 128 + unat c div 4096 mod 64"
        "unat b2 = 128 + unat c div 64 mod 64" "unat b3 = 128 + unat c mod 64"
      using four(2) units by (auto simp: map_unat_eq_Cons)
    then show ?thesis using four(1) lead cont by simp
  qed
  then show thesis
    using that by (auto simp: first_code_unit_iff four_unit_lead_iff word_le_nat_alt utf16_units_def)
qed

lemma utf8_length_append: "utf8_length (xs @ ys) = utf8_length xs + utf8_length ys"
  by (simp add: utf8_length_def)

lemma utf16_length_append: "utf8_utf16_length (xs @ ys) = utf8_utf16_length xs + utf8_utf16_length ys"
  by (simp add: utf8_utf16_length_def)

lemma utf8_lengths_char:
  assumes "unicode_scalar c"
  shows "utf8_length (append_utf8_character c) = 1"
    "utf8_utf16_length (append_utf8_character c) = utf16_units c"
proof -
  obtain b bs where b: "append_utf8_character c = b # bs" "is_utf8_character_first_code_unit b"
    "\<forall>x\<in>set bs. \<not> is_utf8_character_first_code_unit x \<and> x AND 0xf8 \<noteq> 0xf0"
    "b AND 0xf8 = 0xf0 \<longleftrightarrow> utf16_units c = 2"
    using append_utf8_shape [OF assms] .
  have "(\<Sum>x\<leftarrow>bs. if is_utf8_character_first_code_unit x then 1 else 0) = (0 :: nat)"
    using b(3) by (simp add: sum_list_eq_0_iff)
  moreover have "(\<Sum>x\<leftarrow>bs. (if is_utf8_character_first_code_unit x then 1 else 0) +
      (if x AND 0xf8 = 0xf0 then 1 else 0)) = (0 :: nat)"
    using b(3) by (simp add: sum_list_eq_0_iff)
  ultimately show "utf8_length (append_utf8_character c) = 1"
    "utf8_utf16_length (append_utf8_character c) = utf16_units c"
    using b by (auto simp: utf8_length_def utf8_utf16_length_def utf16_units_def)
qed

lemma utf8_lengths:
  assumes "list_all unicode_scalar cs"
  shows "utf8_length (utf8_encode_codes cs) = length cs"
    "utf8_utf16_length (utf8_encode_codes cs) = (\<Sum>c\<leftarrow>cs. utf16_units c)"
  using assms
proof (induction cs)
  case Nil
  { case 1 show ?case by (simp add: utf8_length_def)
  next case 2 show ?case by (simp add: utf8_utf16_length_def) }
next
  case (Cons c cs)
  { case 1 then show ?case using Cons.IH by (simp add: utf8_length_append utf8_lengths_char)
  next case 2 then show ?case using Cons.IH by (simp add: utf16_length_append utf8_lengths_char) }
qed

lemma utf16_truncate_cont:
  "\<forall>x\<in>set bs. \<not> is_utf8_character_first_code_unit x \<Longrightarrow>
     utf8_utf16_truncate (bs @ r) len = bs @ utf8_utf16_truncate r len"
  by (induction bs) auto

lemma utf8_truncate_cont:
  "\<forall>x\<in>set bs. \<not> is_utf8_character_first_code_unit x \<Longrightarrow>
     utf8_truncate_loop (bs @ r) len = bs @ utf8_truncate_loop r len"
  by (induction bs) auto

text \<open>
  Truncation to a length that does not split a surrogate pair keeps exactly that many UTF-16
  units; the truncation to \<open>n\<close> characters keeps the first \<open>n\<close>.
\<close>

lemma utf16_truncate_append:
  assumes "list_all unicode_scalar cs" "(\<Sum>c\<leftarrow>cs. utf16_units c) + m < 2 ^ 64"
  shows "utf8_utf16_truncate (utf8_encode_codes cs @ r) (word_of_nat ((\<Sum>c\<leftarrow>cs. utf16_units c) + m)) =
    utf8_encode_codes cs @ utf8_utf16_truncate r (word_of_nat m)"
  using assms
proof (induction cs)
  case Nil
  then show ?case by simp
next
  case (Cons c cs)
  have uc: "unicode_scalar c" using Cons.prems(1) by simp
  obtain b bs where b: "append_utf8_character c = b # bs" "is_utf8_character_first_code_unit b"
    "\<forall>x\<in>set bs. \<not> is_utf8_character_first_code_unit x \<and> x AND 0xf8 \<noteq> 0xf0"
    "b \<ge> 0xf0 \<longleftrightarrow> utf16_units c = 2" "b AND 0xf8 = 0xf0 \<longleftrightarrow> utf16_units c = 2"
    using append_utf8_shape [OF uc] .
  let ?n = "(\<Sum>c\<leftarrow>cs. utf16_units c) + m"
  have n: "utf16_units c + ?n < 2 ^ 64" using Cons.prems(2) by simp
  have u: "utf16_units c = 1 \<or> utf16_units c = 2" by (simp add: utf16_units_def)
  have "(word_of_nat (utf16_units c + ?n) :: 64 word) \<noteq> 0"
  proof -
    have "unat (word_of_nat (utf16_units c + ?n) :: 64 word) = utf16_units c + ?n"
      using n by (simp only: unat_of_nat) simp
    then show ?thesis using u by (metis unat_0 add_is_0 zero_neq_one zero_neq_numeral)
  qed
  moreover have "(word_of_nat (utf16_units c + ?n) :: 64 word) -
      (if utf16_units c = 2 then 2 else 1) = word_of_nat ?n"
    using u by auto
  ultimately have "utf8_utf16_truncate (b # bs @ utf8_encode_codes cs @ r)
      (word_of_nat (utf16_units c + ?n)) =
    b # bs @ utf8_utf16_truncate (utf8_encode_codes cs @ r) (word_of_nat ?n)"
    using b u by (auto simp: utf16_truncate_cont split: if_splits)
  then show ?case
    using Cons.IH Cons.prems b(1) n by (simp add: add.assoc)
qed

lemma utf16_truncate_zero:
  assumes "list_all unicode_scalar cs"
  shows "utf8_utf16_truncate (utf8_encode_codes cs) 0 = []"
proof (cases cs)
  case (Cons c cs')
  then have "unicode_scalar c" using assms by simp
  then show ?thesis using Cons by (elim append_utf8_shape) simp
qed simp

lemma utf16_truncate_boundary:
  assumes "list_all unicode_scalar xs" "list_all unicode_scalar ys"
    "(\<Sum>c\<leftarrow>xs. utf16_units c) < 2 ^ 64"
  shows "utf8_utf16_truncate (utf8_encode_codes (xs @ ys)) (word_of_nat (\<Sum>c\<leftarrow>xs. utf16_units c)) =
    utf8_encode_codes xs"
  using utf16_truncate_append [OF assms(1), of 0] assms(2,3) by (simp add: utf16_truncate_zero)

lemma utf16_truncate_all:
  assumes "list_all unicode_scalar cs" "(\<Sum>c\<leftarrow>cs. utf16_units c) \<le> unat len"
  shows "utf8_utf16_truncate (utf8_encode_codes cs) len = utf8_encode_codes cs"
proof -
  let ?m = "unat len - (\<Sum>c\<leftarrow>cs. utf16_units c)"
  have "(\<Sum>c\<leftarrow>cs. utf16_units c) + ?m < 2 ^ 64"
    using assms(2) unsigned_less [of len] by simp
  then have "utf8_utf16_truncate (utf8_encode_codes cs @ [])
      (word_of_nat ((\<Sum>c\<leftarrow>cs. utf16_units c) + ?m)) = utf8_encode_codes cs @ []"
    using utf16_truncate_append [OF assms(1), of ?m "[]"] by simp
  then show ?thesis using assms(2) by simp
qed

text \<open>A target length that splits a surrogate pair wraps the counter, and nothing is cut.\<close>

lemma utf16_truncate_split_pair:
  assumes "list_all unicode_scalar (xs @ c # ys)" "utf16_units c = 2"
    "(\<Sum>c\<leftarrow>xs. utf16_units c) + 1 < 2 ^ 64" "(\<Sum>c\<leftarrow>ys. utf16_units c) < 2 ^ 64"
  shows "utf8_utf16_truncate (utf8_encode_codes (xs @ c # ys))
      (word_of_nat ((\<Sum>c\<leftarrow>xs. utf16_units c) + 1)) = utf8_encode_codes (xs @ c # ys)"
proof -
  have uc: "unicode_scalar c" "list_all unicode_scalar xs" "list_all unicode_scalar ys"
    using assms(1) by simp_all
  obtain b bs where b: "append_utf8_character c = b # bs" "is_utf8_character_first_code_unit b"
    "\<forall>x\<in>set bs. \<not> is_utf8_character_first_code_unit x \<and> x AND 0xf8 \<noteq> 0xf0"
    "b \<ge> 0xf0 \<longleftrightarrow> utf16_units c = 2"
    using append_utf8_shape [OF uc(1)] by metis
  have "(\<Sum>c\<leftarrow>ys. utf16_units c) \<le> unat (1 - 1 - 1 :: 64 word)"
    using assms(4) by (simp add: unsigned_minus_1_eq_mask mask_eq_exp_minus_1)
  then have "utf8_utf16_truncate (utf8_encode_codes ys) (1 - 1 - 1) = utf8_encode_codes ys"
    by (rule utf16_truncate_all [OF uc(3)])
  then have "utf8_utf16_truncate (utf8_encode_codes (c # ys)) 1 = utf8_encode_codes (c # ys)"
    using b assms(2) by (simp add: utf16_truncate_cont)
  then show ?thesis
    using utf16_truncate_append [OF uc(2) assms(3), of "utf8_encode_codes (c # ys)"] by simp
qed

lemma utf8_truncate_loop_chars:
  assumes "list_all unicode_scalar cs"
  shows "utf8_truncate_loop (utf8_encode_codes cs) n = utf8_encode_codes (take n cs)"
  using assms
proof (induction cs arbitrary: n)
  case Nil
  then show ?case by simp
next
  case (Cons c cs)
  have uc: "unicode_scalar c" using Cons.prems(1) by simp
  obtain b bs where b: "append_utf8_character c = b # bs" "is_utf8_character_first_code_unit b"
    "\<forall>x\<in>set bs. \<not> is_utf8_character_first_code_unit x \<and> x AND 0xf8 \<noteq> 0xf0"
    "b \<ge> 0xf0 \<longleftrightarrow> utf16_units c = 2" "b AND 0xf8 = 0xf0 \<longleftrightarrow> utf16_units c = 2"
    using append_utf8_shape [OF uc] .
  then show ?case
    using Cons by (cases n) (auto simp: utf8_truncate_cont)
qed

lemma length_utf8_encode_codes: "length cs \<le> length (utf8_encode_codes cs)"
proof (induction cs)
  case (Cons c cs)
  have "1 \<le> length (append_utf8_character c)" by (simp add: Suc_le_eq)
  with Cons show ?case by simp
qed simp

lemma utf8_truncate_chars:
  assumes "list_all unicode_scalar cs"
  shows "utf8_truncate (utf8_encode_codes cs) n = utf8_encode_codes (take n cs)"
  using utf8_truncate_loop_chars [OF assms] length_utf8_encode_codes [of cs]
  by (simp add: utf8_truncate_def)

subsection \<open>Properties\<close>

text \<open>C27: the validator accepts exactly the concatenations of encodings of Unicode scalar
  values (no surrogates, no overlong forms, nothing above U+10FFFF), and on no input does it read
  past the terminator.\<close>
theorem check_utf8_exact:
  "check_utf8 s = Some (\<exists>cs. list_all unicode_scalar cs \<and> s = concat (map append_utf8_character cs))"
  using check_utf8_correct [of s] by (simp add: valid_utf8_def utf8_encode_codes_def)

text \<open>C28: on a validated string the unsafe decoder never runs past the end, the code points it
  reads encode back to the same bytes, and the two length functions count characters and UTF-16
  code units.\<close>
theorem utf8_decode_validated:
  assumes "check_utf8 s = Some True"
  shows "\<exists>cs. utf8_codes s = Some cs \<and> concat (map append_utf8_character cs) = s \<and>
    utf8_length s = length cs \<and> utf8_utf16_length s = (\<Sum>c\<leftarrow>cs. if 0x10000 \<le> c then 2 else 1)"
proof -
  obtain cs where cs: "list_all unicode_scalar cs" "s = utf8_encode_codes cs"
    using assms check_utf8_correct [of s] by (auto simp: valid_utf8_def)
  have "utf16_units c = (if 0x10000 \<le> c then 2 else 1)" for c
    by (simp add: utf16_units_def word_le_nat_alt)
  then show ?thesis
    using cs utf8_codes_encode [OF cs(1)] utf8_lengths [OF cs(1)]
    by (auto simp: utf8_encode_codes_def)
qed

theorem utf8_decode_validated_witness:
  "\<exists>cs. utf8_codes [0xF0, 0x9F, 0x98, 0x80, 0x61] = Some cs \<and>
    concat (map append_utf8_character cs) = [0xF0, 0x9F, 0x98, 0x80, 0x61] \<and>
    utf8_length [0xF0, 0x9F, 0x98, 0x80, 0x61] = length cs \<and>
    utf8_utf16_length [0xF0, 0x9F, 0x98, 0x80, 0x61] = (\<Sum>c\<leftarrow>cs. if 0x10000 \<le> c then 2 else 1)"
  by (rule utf8_decode_validated) code_simp

text \<open>Truncating a validated string to \<open>n\<close> characters gives a validated prefix with the
  smaller of \<open>n\<close> and the old number of characters.\<close>
theorem utf8_truncate_valid:
  assumes "check_utf8 s = Some True"
  shows "check_utf8 (utf8_truncate s n) = Some True \<and>
    utf8_length (utf8_truncate s n) = min n (utf8_length s) \<and>
    utf8_truncate s n @ utf8_substr s n = s"
proof -
  obtain cs where cs: "list_all unicode_scalar cs" "s = utf8_encode_codes cs"
    using assms check_utf8_correct [of s] by (auto simp: valid_utf8_def)
  have tr: "utf8_truncate s n = utf8_encode_codes (take n cs)"
    using utf8_truncate_chars [OF cs(1)] cs(2) by simp
  have sc: "list_all unicode_scalar (take n cs)"
    using cs(1) by (auto simp: list_all_iff dest: in_set_takeD)
  have "s = utf8_truncate s n @ utf8_encode_codes (drop n cs)"
    using cs(2) tr by (simp flip: utf8_encode_codes_append)
  then have "utf8_truncate s n = take (length (utf8_truncate s n)) s"
    by (metis append_eq_conv_conj)
  moreover have "utf8_truncate s 0 = []"
    using utf8_truncate_chars [OF cs(1), of 0] cs(2) by simp
  ultimately have "utf8_truncate s n @ utf8_substr s n = s"
    by (metis utf8_substr_def append_take_drop_id append_Nil)
  then show ?thesis
    using sc cs tr check_utf8_correct utf8_lengths(1) [OF sc] utf8_lengths(1) [OF cs(1)]
    by (auto simp: valid_utf8_def)
qed

theorem utf8_truncate_valid_witness:
  "check_utf8 (utf8_truncate [0x61, 0xC3, 0xA9, 0x62] 2) = Some True \<and>
    utf8_length (utf8_truncate [0x61, 0xC3, 0xA9, 0x62] 2) = min 2 (utf8_length [0x61, 0xC3, 0xA9, 0x62]) \<and>
    utf8_truncate [0x61, 0xC3, 0xA9, 0x62] 2 @ utf8_substr [0x61, 0xC3, 0xA9, 0x62] 2 =
      [0x61, 0xC3, 0xA9, 0x62]"
  by (rule utf8_truncate_valid) code_simp

text \<open>C31: truncation by UTF-16 code units.  Where the length falls between two characters,
  exactly the characters before it are kept.  Where it would split a surrogate pair, the second
  decrement wraps around and the string is returned whole.\<close>
theorem utf8_utf16_truncate_cases:
  assumes "list_all unicode_scalar (xs @ ys)" "utf8_utf16_length (utf8_encode_codes (xs @ ys)) < 2 ^ 64"
  shows "utf8_utf16_truncate (utf8_encode_codes (xs @ ys))
      (word_of_nat (utf8_utf16_length (utf8_encode_codes xs))) = utf8_encode_codes xs \<and>
    (ys \<noteq> [] \<and> 0x10000 \<le> hd ys \<longrightarrow>
     utf8_utf16_truncate (utf8_encode_codes (xs @ ys))
      (word_of_nat (utf8_utf16_length (utf8_encode_codes xs) + 1)) = utf8_encode_codes (xs @ ys))"
proof -
  have sc: "list_all unicode_scalar xs" "list_all unicode_scalar ys" using assms(1) by simp_all
  have len: "utf8_utf16_length (utf8_encode_codes zs) = (\<Sum>c\<leftarrow>zs. utf16_units c)"
    if "list_all unicode_scalar zs" for zs using utf8_lengths(2) [OF that] .
  have total: "(\<Sum>c\<leftarrow>xs. utf16_units c) + (\<Sum>c\<leftarrow>ys. utf16_units c) < 2 ^ 64"
    using assms(2) len [OF assms(1)] by simp
  have "utf8_utf16_truncate (utf8_encode_codes (xs @ ys))
      (word_of_nat ((\<Sum>c\<leftarrow>xs. utf16_units c) + 1)) = utf8_encode_codes (xs @ ys)"
    if "ys \<noteq> []" "0x10000 \<le> hd ys"
  proof -
    obtain c zs where ys: "ys = c # zs" using \<open>ys \<noteq> []\<close> by (cases ys) auto
    have "utf16_units c = 2" using that ys by (simp add: utf16_units_def word_le_nat_alt)
    moreover have "(\<Sum>c\<leftarrow>xs. utf16_units c) + 1 < 2 ^ 64" "(\<Sum>c\<leftarrow>zs. utf16_units c) < 2 ^ 64"
      using total ys calculation by simp_all
    ultimately show ?thesis
      using utf16_truncate_split_pair [of xs c zs] assms(1) unfolding ys by blast
  qed
  moreover have "utf8_utf16_truncate (utf8_encode_codes (xs @ ys))
      (word_of_nat (\<Sum>c\<leftarrow>xs. utf16_units c)) = utf8_encode_codes xs"
    by (rule utf16_truncate_boundary [OF sc]) (use total in linarith)
  ultimately show ?thesis unfolding len [OF sc(1)] by blast
qed

theorem utf8_utf16_truncate_cases_witness:
  "utf8_utf16_truncate [0x61, 0xF0, 0x9F, 0x98, 0x80, 0x62] 1 = [0x61] \<and>
   utf8_utf16_truncate [0x61, 0xF0, 0x9F, 0x98, 0x80, 0x62] 2 = [0x61, 0xF0, 0x9F, 0x98, 0x80, 0x62]"
proof -
  have e: "utf8_encode_codes ([0x61] @ [0x1F600, 0x62]) = [0x61, 0xF0, 0x9F, 0x98, 0x80, 0x62]"
    "utf8_encode_codes [0x61] = [0x61]" 
    by (simp_all add: append_utf8_character_def)
  have u: "utf8_utf16_length [0x61] = 1" "utf8_utf16_length [0x61, 0xF0, 0x9F, 0x98, 0x80, 0x62] = 4"
    by (simp_all add: utf8_utf16_length_def is_utf8_character_first_code_unit_def)
  have "list_all unicode_scalar ([0x61] @ [0x1F600, 0x62])" by (simp add: unicode_scalar_def)
  from utf8_utf16_truncate_cases [OF this] show ?thesis unfolding e u by simp
qed

end
