(* ===== verification/Td_Numbers.thy ===== *)
theory Td_Numbers
  imports Td_Utf8
begin

text \<open>
  Decimal and hexadecimal conversion: the integer printers of \<open>tdutils/td/utils/StringBuilder.cpp\<close>
  and the integer readers of \<open>tdutils/td/utils/misc.h\<close>.

  The templates are instantiated with 32-bit and 64-bit types, so the width \<open>w\<close> is a parameter:
  a signed \<open>w\<close>-bit integer is an \<open>int\<close> in \<open>[-2^(w-1), 2^(w-1))\<close> and the arithmetic of the
  unsigned type of the same width is written with \<open>mod 2 ^ w\<close>.  The printers write into a buffer
  that grows; the model returns the written bytes.
\<close>

unbundle bit_operations_syntax

subsection \<open>The operations\<close>

definition signed_min :: "nat \<Rightarrow> int" where "signed_min w = - (2 ^ (w - 1))"

definition signed_max :: "nat \<Rightarrow> int" where "signed_max w = 2 ^ (w - 1) - 1"

definition digit_char :: "nat \<Rightarrow> byte" where
  "digit_char d = ch (CHR ''0'') + word_of_nat d"

fun print_uint_loop :: "nat \<Rightarrow> bytes" where
  "print_uint_loop x =
     digit_char (x mod 10) # (if x div 10 > 0 then print_uint_loop (x div 10) else [])"

declare print_uint_loop.simps [simp del]

definition print_uint :: "nat \<Rightarrow> bytes" where
  "print_uint x =
     (if x < 100
      then if x < 10 then [digit_char x] else [digit_char (x div 10), digit_char (x mod 10)]
      else rev (print_uint_loop x))"

text \<open>\<open>None\<close> is the failed \<open>CHECK\<close> in the branch for the smallest number.\<close>

definition print_nonmin_int :: "int \<Rightarrow> bytes" where
  "print_nonmin_int x =
     (if x < 0 then ch (CHR ''-'') # print_uint (nat (- x)) else print_uint (nat x))"

definition print_int :: "nat \<Rightarrow> int \<Rightarrow> bytes option" where
  "print_int w x =
     (if x < 0 \<and> x = signed_min w then
        let p = print_nonmin_int (x + 1) in
        do { check (last p \<noteq> ch (CHR ''9''));
             Some (butlast p @ [last p + 1]) }
      else Some (print_nonmin_int x))"

text \<open>
  \<open>to_integer\<close>: the value is accumulated in the unsigned type of the same width, so it wraps;
  reading stops at the first character that is not a digit.
\<close>

fun to_integer_loop :: "nat \<Rightarrow> int \<Rightarrow> bytes \<Rightarrow> int" where
  "to_integer_loop w acc [] = acc"
| "to_integer_loop w acc (c # cs) =
     (if is_digit c
      then to_integer_loop w ((acc * 10 + int (unat (c - ch (CHR ''0'')))) mod 2 ^ w) cs else acc)"

definition to_integer :: "nat \<Rightarrow> bytes \<Rightarrow> int" where
  "to_integer w s =
     (let is_negative = (s \<noteq> [] \<and> hd s = ch (CHR ''-''));
          v = to_integer_loop w 0 (if is_negative then tl s else s)
      in if v > signed_max w then
           let v' = (2 ^ w - v) mod 2 ^ w
           in if v' > signed_max w then signed_min w else if \<not> is_negative then - v' else v'
         else if is_negative then - v else v)"

definition get_to_integer_safe_error :: "bytes \<Rightarrow> 'a result option" where
  "get_to_integer_safe_error s =
     (let error_message = str ''Can't parse as an integer string '' @ [0x22] @ s @ [0x22] in
      do { ok \<leftarrow> check_utf8 error_message;
           Some (if \<not> ok then Error ''Strings must be encoded in UTF-8''
                 else Inl (Err 0 error_message)) })"

definition to_integer_safe :: "nat \<Rightarrow> bytes \<Rightarrow> int result option" where
  "to_integer_safe w s =
     do { let res = to_integer w s;
          p \<leftarrow> print_int w res;
          if p \<noteq> s then get_to_integer_safe_error s else Some (Inr res) }"

fun hex_to_integer_loop :: "nat \<Rightarrow> nat \<Rightarrow> bytes \<Rightarrow> nat result" where
  "hex_to_integer_loop w acc [] = Inr acc"
| "hex_to_integer_loop w acc (c # cs) =
     (let digit = hex_to_int c in
      if digit = 16 then Error ''String contains non-hex digit''
      else if acc > (2 ^ w - 1) div 16 then Error ''String hex number overflows''
      else hex_to_integer_loop w (acc * 16 + digit) cs)"

definition hex_to_integer_safe :: "nat \<Rightarrow> bytes \<Rightarrow> nat result" where
  "hex_to_integer_safe w s =
     (if s = [] then Error ''String is empty'' else hex_to_integer_loop w 0 s)"

subsection \<open>Printing\<close>

definition decimal_value :: "bytes \<Rightarrow> nat" where
  "decimal_value s = foldl (\<lambda>v c. v * 10 + unat (c - ch (CHR ''0''))) 0 s"

lemma unat_digit_char: "d < 10 \<Longrightarrow> unat (digit_char d) = 48 + d"
  by (simp add: digit_char_def unat_word_ariths unat_of_nat)

lemma digit_char_facts [simp]:
  assumes "d < 10"
  shows "is_digit (digit_char d)" "unat (digit_char d - 48) = d" "digit_char d = 57 \<longleftrightarrow> d = 9"
proof -
  show "is_digit (digit_char d)" using assms by (simp add: is_digit_iff unat_digit_char)
  show "unat (digit_char d - 48) = d" using assms by (simp add: digit_char_def unat_of_nat)
  show "digit_char d = 57 \<longleftrightarrow> d = 9" using unat_digit_char [OF assms] by (simp add: word_unat_eq_iff)
qed

lemma print_uint_eq: "print_uint x = rev (print_uint_loop x)"
proof -
  have "print_uint_loop x = [digit_char x]" if "x < 10"
    using that by (subst print_uint_loop.simps) simp
  moreover have "print_uint_loop x = [digit_char (x mod 10), digit_char (x div 10)]"
    if "\<not> x < 10" "x < 100"
    using that by (subst print_uint_loop.simps, subst print_uint_loop.simps) auto
  ultimately show ?thesis by (simp add: print_uint_def)
qed

lemma print_uint_step:
  "print_uint x = (if x < 10 then [] else print_uint (x div 10)) @ [digit_char (x mod 10)]"
  unfolding print_uint_eq by (subst print_uint_loop.simps) auto

lemma print_uint_nonempty [simp]: "print_uint x \<noteq> []"
  by (subst print_uint_step) simp

lemma print_uint_digits: "list_all is_digit (print_uint x)"
proof (induction x rule: less_induct)
  case (less x)
  then show ?case by (subst print_uint_step) simp
qed

lemma decimal_value_snoc [simp]:
  "decimal_value [] = 0"
  "decimal_value (s @ [c]) = decimal_value s * 10 + unat (c - ch (CHR ''0''))"
  by (simp_all add: decimal_value_def)

lemma decimal_value_print_uint [simp]: "decimal_value (print_uint x) = x"
proof (induction x rule: less_induct)
  case (less x)
  then show ?case by (subst print_uint_step) simp
qed

lemma print_uint_Suc:
  assumes "x mod 10 \<noteq> 9"
  shows "print_uint (Suc x) = butlast (print_uint x) @ [last (print_uint x) + 1]"
proof -
  have "Suc x mod 10 = Suc (x mod 10)" "Suc x div 10 = x div 10"
    using assms by (simp_all add: mod_Suc div_Suc)
  moreover have "Suc x < 10 \<longleftrightarrow> x < 10" using assms by presburger
  ultimately have "print_uint (Suc x) =
      (if x < 10 then [] else print_uint (x div 10)) @ [digit_char (x mod 10) + 1]"
    using print_uint_step [of "Suc x"] by (simp add: digit_char_def)
  then show ?thesis by (simp add: print_uint_step [of x])
qed

text \<open>The canonical decimal form, without the special case for the smallest number.\<close>

lemma pow2_mod5: "(2 ^ k :: nat) mod 5 \<noteq> 0"
proof (induction k)
  case (Suc k)
  then show ?case unfolding power_Suc by presburger
qed simp

lemma pow2_pred_mod10: "(2 ^ k - 1 :: nat) mod 10 \<noteq> 9"
proof -
  have "(x - 1) mod 10 \<noteq> 9" if "x \<noteq> 0" "x mod 5 \<noteq> 0" for x :: nat
  proof
    assume "(x - 1) mod 10 = 9"
    then obtain q where "x - 1 = 10 * q + 9" by (metis mult_div_mod_eq)
    then have "x = 5 * (2 * (q + 1))" using that(1) by simp
    then have "x mod 5 = 0" by (metis mod_mult_self1_is_0)
    with that(2) show False ..
  qed
  then show ?thesis using pow2_mod5 [of k] by simp
qed

lemma print_int_eq: "1 < w \<Longrightarrow> print_int w x = Some (print_nonmin_int x)"
proof -
  assume w: "1 < w"
  let ?m = "2 ^ (w - 1) - 1 :: nat"
  have m: "?m mod 10 \<noteq> 9" using pow2_pred_mod10 .
  have "print_int w x = Some (print_nonmin_int x)" if x: "x = signed_min w" "x < 0"
  proof -
    have p1: "print_nonmin_int x = ch (CHR ''-'') # print_uint (Suc ?m)"
      using x by (simp add: print_nonmin_int_def signed_min_def nat_power_eq)
    have p0: "print_nonmin_int (x + 1) = ch (CHR ''-'') # print_uint ?m"
    proof -
      have "(2 :: int) ^ 1 \<le> 2 ^ (w - 1)" using w by (intro power_increasing) auto
      moreover have "nat (- (x + 1)) = ?m"
        using x(1) by (simp add: signed_min_def nat_diff_distrib nat_power_eq)
      ultimately show ?thesis
        using x(1) by (simp add: print_nonmin_int_def signed_min_def)
    qed
    have "last (print_uint ?m) \<noteq> 57"
      using m by (subst print_uint_step) simp
    then show ?thesis
      using x p0 p1 print_uint_Suc [OF m] by (simp add: print_int_def Let_def)
  qed
  then show ?thesis by (auto simp: print_int_def)
qed

subsection \<open>Reading back\<close>

lemma to_integer_loop_mod:
  "list_all is_digit ds \<Longrightarrow> to_integer_loop w (a mod 2 ^ w) ds =
     foldl (\<lambda>v c. v * 10 + int (unat (c - ch (CHR ''0'')))) a ds mod 2 ^ w"
proof (induction ds arbitrary: a)
  case (Cons d ds)
  have "(a mod 2 ^ w * 10 + int (unat (d - ch (CHR ''0'')))) mod 2 ^ w =
      (a * 10 + int (unat (d - ch (CHR ''0'')))) mod 2 ^ w"
    by (intro mod_add_cong mod_mult_cong) simp_all
  then show ?case using Cons by simp
qed simp

lemma to_integer_loop_digits:
  assumes "list_all is_digit ds"
  shows "to_integer_loop w 0 ds = int (decimal_value ds) mod 2 ^ w"
proof -
  have "foldl (\<lambda>v c. v * 10 + int (unat (c - ch (CHR ''0'')))) (int n) ds =
      int (foldl (\<lambda>v c. v * 10 + unat (c - ch (CHR ''0''))) n ds)" for n
  proof (induction ds arbitrary: n)
    case (Cons d ds)
    show ?case using Cons.IH [of "n * 10 + unat (d - ch (CHR ''0''))"] by simp
  qed simp
  from this [of 0] show ?thesis
    using to_integer_loop_mod [OF assms, of w 0] by (simp add: decimal_value_def)
qed

definition in_signed :: "nat \<Rightarrow> int \<Rightarrow> bool" where
  "in_signed w x \<longleftrightarrow> signed_min w \<le> x \<and> x \<le> signed_max w"

lemma hd_print_uint: "hd (print_uint x) \<noteq> ch (CHR ''-'')"
proof -
  have "is_digit (hd (print_uint x))"
    using print_uint_digits [of x] by (cases "print_uint x") auto
  then show ?thesis by (auto simp: is_digit_iff)
qed

lemma to_integer_loop_range: "0 \<le> a \<Longrightarrow> a < 2 ^ w \<Longrightarrow> 0 \<le> to_integer_loop w a s \<and> to_integer_loop w a s < 2 ^ w"
  by (induction s arbitrary: a) auto

lemma to_integer_eq:
  assumes w: "1 < w" and v: "v = to_integer_loop w 0 (if is_negative then tl s else s)"
    and neg: "is_negative = (s \<noteq> [] \<and> hd s = ch (CHR ''-''))"
  shows "to_integer w s =
    (if v \<le> signed_max w then if is_negative then - v else v
     else if v = - signed_min w then signed_min w
     else if is_negative then 2 ^ w - v else v - 2 ^ w)"
proof -
  have h: "2 ^ w = 2 * - signed_min w" "signed_max w = - signed_min w - 1"
    using w by (cases w; simp add: signed_min_def signed_max_def)+
  have v_range: "0 \<le> v" "v < 2 ^ w"
    using to_integer_loop_range [of 0 w] v by simp_all
  have "(2 ^ w - v) mod 2 ^ w = 2 ^ w - v" if "\<not> v \<le> signed_max w"
    by (rule mod_pos_pos_trivial) (use that v_range h in linarith)+
  then show ?thesis
    using v_range unfolding to_integer_def Let_def neg [symmetric] v [symmetric] h by auto
qed

lemma to_integer_print:
  assumes w: "1 < w" and x: "in_signed w x"
  shows "to_integer w (print_nonmin_int x) = x"
proof -
  have h: "2 ^ w = 2 * - signed_min w" "signed_max w = - signed_min w - 1"
    using w by (cases w; simp add: signed_min_def signed_max_def)+
  have range: "signed_min w \<le> x" "x \<le> signed_max w" using x by (simp_all add: in_signed_def)
  have v: "to_integer_loop w 0 (print_uint (nat \<bar>x\<bar>)) = \<bar>x\<bar>"
    using to_integer_loop_digits [OF print_uint_digits] range h by simp
  show ?thesis
  proof (cases "x < 0")
    case True
    then have p: "print_nonmin_int x = ch (CHR ''-'') # print_uint (nat \<bar>x\<bar>)"
      by (simp add: print_nonmin_int_def)
    have "\<bar>x\<bar> = to_integer_loop w 0 (if True then tl (print_nonmin_int x) else print_nonmin_int x)"
      using p v by simp
    from to_integer_eq [OF w this] p show ?thesis using True range h by auto
  next
    case False
    then have p: "print_nonmin_int x = print_uint (nat \<bar>x\<bar>)"
      by (simp add: print_nonmin_int_def)
    have "\<bar>x\<bar> = to_integer_loop w 0 (if False then tl (print_nonmin_int x) else print_nonmin_int x)"
      using p v by simp
    from to_integer_eq [OF w this] p show ?thesis using False range hd_print_uint by simp
  qed
qed

lemma to_integer_in_range:
  assumes w: "1 < w" shows "in_signed w (to_integer w s)"
proof -
  have h: "2 ^ w = 2 * - signed_min w" "signed_max w = - signed_min w - 1" "signed_min w < 0"
    using w by (cases w; simp add: signed_min_def signed_max_def)+
  have "0 \<le> to_integer_loop w 0 r" "to_integer_loop w 0 r < 2 ^ w" for r
    using to_integer_loop_range [of 0 w r] by simp_all
  then show ?thesis
    using h unfolding in_signed_def to_integer_eq [OF w refl refl] by (smt (verit))
qed

subsection \<open>Hexadecimal numbers\<close>

lemma hex_fold_mono: "a \<le> foldl (\<lambda>v c. v * 16 + hex_to_int c) a s"
proof (induction s arbitrary: a)
  case (Cons c s)
  have "a \<le> a * 16 + hex_to_int c" by simp
  also have "\<dots> \<le> foldl (\<lambda>v c. v * 16 + hex_to_int c) (a * 16 + hex_to_int c) s" by (rule Cons)
  finally show ?case by simp
qed simp

lemma hex_to_integer_loop_exact:
  assumes "4 \<le> w" "a < 2 ^ w"
  shows "hex_to_integer_loop w a s = Inr n \<longleftrightarrow>
    list_all is_hex_digit s \<and> n = foldl (\<lambda>v c. v * 16 + hex_to_int c) a s \<and> n < 2 ^ w"
  using assms(2)
proof (induction s arbitrary: a)
  case Nil
  then show ?case by auto
next
  case (Cons c s)
  define m :: nat where "m = 2 ^ (w - 4)"
  have "(2 :: nat) ^ w = 2 ^ 4 * 2 ^ (w - 4)"
    using assms(1) power_add [of "2 :: nat" 4 "w - 4"] by simp
  then have m: "(2 :: nat) ^ w = 16 * m" "0 < m" by (simp_all add: m_def)
  have "(2 ^ w - 1) div 16 = m - 1" using m by (intro div_nat_eqI) auto
  moreover have "a * 16 + hex_to_int c < 2 ^ w \<longleftrightarrow> a \<le> m - 1" if "hex_to_int c < 16"
    using that m by linarith
  ultimately show ?case
    using Cons.IH [of "a * 16 + hex_to_int c"] hex_to_int_le [of c]
      hex_fold_mono [of "a * 16 + hex_to_int c" s]
    by (auto simp: Let_def is_hex_digit_hex_to_int not_le)
qed

lemma hex_to_integer_safe_exact:
  "4 \<le> w \<Longrightarrow> hex_to_integer_safe w s = Inr n \<longleftrightarrow> s \<noteq> [] \<and> list_all is_hex_digit s \<and>
     n = foldl (\<lambda>v c. v * 16 + hex_to_int c) 0 s \<and> n < 2 ^ w"
  by (simp add: hex_to_integer_safe_def hex_to_integer_loop_exact)

text \<open>The checked conversion always returns.\<close>

lemma to_integer_safe_returns:
  assumes "1 < w"
  obtains r where "to_integer_safe w s = Some r"
    "\<And>x. r = Inr x \<longleftrightarrow> signed_min w \<le> x \<and> x \<le> signed_max w \<and> print_int w x = Some s"
proof -
  let ?x = "to_integer w s"
  have "\<exists>e. get_to_integer_safe_error s = Some (Inl e :: int result)"
    by (simp add: get_to_integer_safe_error_def check_utf8_correct Let_def)
  then obtain e where e: "get_to_integer_safe_error s = Some (Inl e :: int result)" ..
  have r: "to_integer_safe w s = Some (if print_nonmin_int ?x \<noteq> s then Inl e else Inr ?x)"
    by (simp add: to_integer_safe_def print_int_eq [OF assms] e)
  have "in_signed w ?x" using to_integer_in_range [OF assms] .
  then have "((if print_nonmin_int ?x \<noteq> s then Inl e else Inr ?x) = Inr x) =
      (signed_min w \<le> x \<and> x \<le> signed_max w \<and> print_int w x = Some s)" for x
    using to_integer_print [OF assms] by (auto simp: in_signed_def print_int_eq [OF assms])
  then show thesis by (rule that [OF r])
qed

subsection \<open>Properties\<close>

text \<open>Printing a signed integer never trips the \<open>CHECK\<close> in the branch for the smallest one,
  and \<open>to_integer\<close> reads the number back, at every width from two bits.\<close>
theorem print_int_to_integer:
  assumes "1 < w" "signed_min w \<le> x" "x \<le> signed_max w"
  shows "\<exists>p. print_int w x = Some p \<and> to_integer w p = x"
  using assms print_int_eq to_integer_print by (simp add: in_signed_def)

theorem print_int_to_integer_witness:
  "\<exists>p. print_int 32 (- 2147483648) = Some p \<and> to_integer 32 p = - 2147483648"
  by (rule print_int_to_integer) (simp_all add: signed_min_def signed_max_def)

text \<open>C29: \<open>to_integer_safe\<close> always returns, and it succeeds exactly on the printed form of an
  integer in range: overflow, leading zeros, a plus sign or trailing bytes are all rejected.\<close>
theorem to_integer_safe_exact:
  assumes "1 < w"
  shows "\<exists>r. to_integer_safe w s = Some r \<and>
    (\<forall>x. r = Inr x \<longleftrightarrow> signed_min w \<le> x \<and> x \<le> signed_max w \<and> print_int w x = Some s)"
proof -
  obtain r where "to_integer_safe w s = Some r"
    "\<And>x. r = Inr x \<longleftrightarrow> signed_min w \<le> x \<and> x \<le> signed_max w \<and> print_int w x = Some s"
    using to_integer_safe_returns [OF assms, of s] by blast
  then show ?thesis by blast
qed

theorem to_integer_safe_exact_witness:
  "\<exists>r. to_integer_safe 64 (str ''-12'') = Some r \<and>
    (\<forall>x. r = Inr x \<longleftrightarrow> signed_min 64 \<le> x \<and> x \<le> signed_max 64 \<and> print_int 64 x = Some (str ''-12''))"
  by (rule to_integer_safe_exact) simp

end
