(* ===== verification/Td_Codec.thy ===== *)
theory Td_Codec
  imports Td_Numbers
begin

text \<open>
  The text and run-length encodings of \<open>tdutils/td/utils/misc.cpp\<close>: hexadecimal, percent
  encoding, and the two run-length codings \<open>zero_encode\<close> and \<open>zero_one_encode\<close>.
\<close>

unbundle bit_operations_syntax

subsection \<open>Hexadecimal\<close>

definition hex_lower :: bytes where "hex_lower = str ''0123456789abcdef''"

definition hex_upper :: bytes where "hex_upper = str ''0123456789ABCDEF''"

definition hex_encode :: "bytes \<Rightarrow> bytes" where
  "hex_encode data =
     concat (map (\<lambda>c. [hex_lower ! unat (drop_bit 4 c), hex_lower ! unat (c AND 15)]) data)"

definition buffer_to_hex :: "bytes \<Rightarrow> bytes" where
  "buffer_to_hex buffer =
     concat (map (\<lambda>c. [hex_upper ! unat (c AND 15), hex_upper ! unat (drop_bit 4 c)]) buffer)"

fun hex_decode_loop :: "bytes \<Rightarrow> bytes result" where
  "hex_decode_loop (h # l # rest) =
     (let high = hex_to_int h; low = hex_to_int l in
      if high = 16 \<or> low = 16 then Error ''Wrong hex string''
      else try_result (hex_decode_loop rest) (\<lambda>r. Inr (word_of_nat (high * 16 + low) # r)))"
| "hex_decode_loop _ = Inr []"

definition hex_decode :: "bytes \<Rightarrow> bytes result" where
  "hex_decode hex =
     (if length hex mod 2 \<noteq> 0 then Error ''Wrong hex string length'' else hex_decode_loop hex)"

subsection \<open>Percent encoding\<close>

definition is_url_char :: "byte \<Rightarrow> bool" where
  "is_url_char c \<longleftrightarrow> is_alnum c \<or> c = ch (CHR ''-'') \<or> c = ch (CHR ''.'') \<or>
     c = ch (CHR ''_'') \<or> c = ch (CHR ''~'')"

definition url_encode_char :: "byte \<Rightarrow> bytes" where
  "url_encode_char c =
     (if is_url_char c then [c]
      else [ch (CHR ''%''), hex_upper ! (unat c div 16), hex_upper ! (unat c mod 16)])"

definition url_encode :: "bytes \<Rightarrow> bytes option" where
  "url_encode data =
     (let len = fold (\<lambda>c n. n - 2 * (if is_url_char c then 1 else 0)) data (3 * length data) in
      if len = length data then Some data
      else let res = concat (map url_encode_char data) in
        do { check (length res = len); Some res })"

text \<open>
  \<open>url_decode\<close> writes through \<open>to\<close>, which may be the buffer it reads from.  \<open>url_decode_loop\<close> is
  the loop with two separate buffers and gives the written bytes; \<open>url_decode_shared_loop\<close> is the
  loop on one buffer, and gives the buffer and \<open>to_i\<close>.
\<close>

fun url_decode_loop :: "bool \<Rightarrow> bytes \<Rightarrow> bytes" where
  "url_decode_loop as_space [] = []"
| "url_decode_loop as_space (c # h # l # rest) =
     (if c = ch (CHR ''%'') \<and> hex_to_int h < 16 \<and> hex_to_int l < 16
      then word_of_nat (hex_to_int h * 16 + hex_to_int l) # url_decode_loop as_space rest
      else (if as_space \<and> c = ch (CHR ''+'') then ch (CHR '' '') else c) #
           url_decode_loop as_space (h # l # rest))"
| "url_decode_loop as_space (c # rest) =
     (if as_space \<and> c = ch (CHR ''+'') then ch (CHR '' '') else c) # url_decode_loop as_space rest"

definition url_decode_into :: "bytes \<Rightarrow> nat \<Rightarrow> bool \<Rightarrow> bytes option" where
  "url_decode_into from to_size as_space =
     do { check (to_size \<ge> length from); Some (url_decode_loop as_space from) }"

definition url_decode :: "bytes \<Rightarrow> bool \<Rightarrow> bytes option" where
  "url_decode from as_space = url_decode_into from (length from) as_space"

function url_decode_shared_loop :: "bool \<Rightarrow> bytes \<Rightarrow> nat \<Rightarrow> nat \<Rightarrow> bytes \<times> nat" where
  "url_decode_shared_loop as_space buf from_i to_i =
     (if from_i < length buf then
        let c = buf ! from_i in
        if c = ch (CHR ''%'') \<and> from_i + 2 < length buf \<and>
           hex_to_int (buf ! (from_i + 1)) < 16 \<and> hex_to_int (buf ! (from_i + 2)) < 16
        then url_decode_shared_loop as_space
               (buf[to_i := word_of_nat (hex_to_int (buf ! (from_i + 1)) * 16 +
                                         hex_to_int (buf ! (from_i + 2)))]) (from_i + 3) (to_i + 1)
        else url_decode_shared_loop as_space
               (buf[to_i := (if as_space \<and> c = ch (CHR ''+'') then ch (CHR '' '') else c)])
               (from_i + 1) (to_i + 1)
      else (buf, to_i))"
  by pat_completeness auto
termination
  by (relation "measure (\<lambda>(as_space, buf, from_i, to_i). length buf - from_i)") auto

declare url_decode_shared_loop.simps [simp del]

definition url_decode_inplace :: "bytes \<Rightarrow> bool \<Rightarrow> bytes" where
  "url_decode_inplace s as_space =
     (case url_decode_shared_loop as_space s 0 0 of (buf, n) \<Rightarrow> take n buf)"

text \<open>\<open>utf8_encode\<close> of \<open>utf8.cpp\<close>: bytes that are not UTF-8 are shown percent-encoded.\<close>

definition utf8_encode :: "bytes \<Rightarrow> bytes option" where
  "utf8_encode data =
     do { ok \<leftarrow> check_utf8 data;
          if ok then Some data
          else do { u \<leftarrow> url_encode data; Some (str ''url_decode('' @ u @ str '')'') } }"

subsection \<open>Run-length encodings\<close>

text \<open>The inner loop: how many of the following bytes equal \<open>c\<close>, at most 250 with \<open>c\<close> itself.\<close>

fun run_count :: "byte \<Rightarrow> nat \<Rightarrow> bytes \<Rightarrow> nat" where
  "run_count c cnt [] = cnt"
| "run_count c cnt (x # xs) = (if cnt < 250 \<and> x = c then run_count c (cnt + 1) xs else cnt)"

function zero_encode :: "bytes \<Rightarrow> bytes" where
  "zero_encode [] = []"
| "zero_encode (c # xs) =
     (if c = 0 then
        let cnt = run_count c 1 xs in c # word_of_nat cnt # zero_encode (drop (cnt - 1) xs)
      else c # zero_encode xs)"
  by pat_completeness auto
termination by (relation "measure length") auto

fun zero_decode :: "bytes \<Rightarrow> bytes" where
  "zero_decode [] = []"
| "zero_decode [c] = [c]"
| "zero_decode (c # n # rest) =
     (if c = 0 then replicate (unat n) c @ zero_decode rest else c # zero_decode (n # rest))"

function zero_one_encode :: "bytes \<Rightarrow> bytes" where
  "zero_one_encode [] = []"
| "zero_one_encode (c # xs) =
     (if c = 0 \<or> c = 0xff then
        let cnt = run_count c 1 xs in c # word_of_nat cnt # zero_one_encode (drop (cnt - 1) xs)
      else c # zero_one_encode xs)"
  by pat_completeness auto
termination by (relation "measure length") auto

fun zero_one_decode :: "bytes \<Rightarrow> bytes" where
  "zero_one_decode [] = []"
| "zero_one_decode [c] = [c]"
| "zero_one_decode (c # n # rest) =
     (if c = 0 \<or> c = 0xff then replicate (unat n) c @ zero_one_decode rest
      else c # zero_one_decode (n # rest))"

subsection \<open>Hexadecimal round trips\<close>

lemma hex_lower_nth:
  assumes "k < 16"
  shows "unat (hex_lower ! k) = (if k < 10 then 48 + k else 87 + k)"
    "hex_to_int (hex_lower ! k) = k"
proof -
  have "\<forall>k<16. unat (hex_lower ! k) = (if k < 10 then 48 + k else 87 + k)"
    unfolding all_less_upt by code_simp
  then show u: "unat (hex_lower ! k) = (if k < 10 then 48 + k else 87 + k)"
    using assms by blast
  show "hex_to_int (hex_lower ! k) = k"
    unfolding hex_to_int_nat u using assms by auto
qed

lemma hex_to_int_lower: "hex_to_int c = k \<and> k < 16 \<longleftrightarrow> k < 16 \<and> to_lower c = hex_lower ! k"
proof (cases "k < 16")
  case True
  show ?thesis
    unfolding word_unat_eq_iff unat_to_lower hex_lower_nth(1) [OF True] hex_to_int_nat using True by auto
qed simp

lemma length_hex_encode: "length (hex_encode d) = 2 * length d"
  by (induction d) (simp_all add: hex_encode_def)

lemma byte_of_nibbles: "word_of_nat (unat (drop_bit 4 c) * 16 + unat (c AND 15)) = (c :: byte)"
  using arg_cong [OF unat_byte_nibbles [of c], of "word_of_nat :: nat \<Rightarrow> byte"]
  by (simp add: mult.commute)

lemma nibbles_of_byte:
  assumes "h < 16" "l < 16"
  shows "unat (drop_bit 4 (word_of_nat (h * 16 + l) :: byte)) = h"
    "unat ((word_of_nat (h * 16 + l) :: byte) AND 15) = l"
proof -
  have "unat (word_of_nat (h * 16 + l) :: byte) = h * 16 + l"
    using assms by (subst unat_of_nat) simp
  then show "unat (drop_bit 4 (word_of_nat (h * 16 + l) :: byte)) = h"
    "unat ((word_of_nat (h * 16 + l) :: byte) AND 15) = l"
    using assms by (simp_all only: unat_hi_nibble_eq unat_lo_nibble_eq) simp_all
qed

lemma hex_decode_loop_encode: "hex_decode_loop (hex_encode d) = Inr d"
proof (induction d)
  case (Cons c d)
  then show ?case
    using unat_hi_nibble [of c] unat_lo_nibble [of c]
    by (simp add: hex_encode_def hex_lower_nth(2) byte_of_nibbles del: of_nat_add)
qed (simp add: hex_encode_def)

lemma hex_decode_loop_sound:
  assumes "hex_decode_loop h = Inr d" "even (length h)"
  shows "map to_lower h = hex_encode d"
  using assms
proof (induction h arbitrary: d rule: hex_decode_loop.induct)
  case (1 h l rest)
  from 1(2) obtain r where r: "hex_to_int h \<noteq> 16" "hex_to_int l \<noteq> 16" "hex_decode_loop rest = Inr r"
    "d = word_of_nat (hex_to_int h * 16 + hex_to_int l) # r"
    by (auto simp: Let_def split: if_splits)
  have n: "hex_to_int h < 16" "hex_to_int l < 16"
    using r(1,2) hex_to_int_le [of h] hex_to_int_le [of l] by simp_all
  have "map to_lower rest = hex_encode r" using 1 r by (auto simp: Let_def)
  then show ?case
    using n nibbles_of_byte [OF n] hex_to_int_lower r(4) by (auto simp: hex_encode_def)
qed (auto simp: hex_encode_def)

lemma hex_decode_encode: "hex_decode (hex_encode d) = Inr d"
  by (simp add: hex_decode_def length_hex_encode hex_decode_loop_encode)

interpretation hex: codec hex_encode hex_decode
  by unfold_locales (rule hex_decode_encode)

lemma hex_decode_loop_lower: "hex_decode_loop (map to_lower h) = hex_decode_loop h"
proof -
  have "hex_to_int (to_lower c) = hex_to_int c" for c
  proof -
    have "to_lower (to_lower c) = to_lower c" by (simp add: word_unat_eq_iff unat_to_lower)
    then show ?thesis
      using hex_to_int_lower [of c "hex_to_int c"] hex_to_int_lower [of "to_lower c" "hex_to_int c"]
        hex_to_int_lower [of c "hex_to_int (to_lower c)"]
        hex_to_int_lower [of "to_lower c" "hex_to_int (to_lower c)"]
        hex_to_int_le [of c] hex_to_int_le [of "to_lower c"] by force
  qed
  then show ?thesis by (induction h rule: hex_decode_loop.induct) (auto simp: Let_def)
qed

subsection \<open>Percent encoding round trips\<close>

lemma hex_upper_nth: "k < 16 \<Longrightarrow> hex_to_int (hex_upper ! k) = k \<and> hex_upper ! k \<noteq> 43"
proof -
  have "\<forall>k<16. hex_to_int (hex_upper ! k) = k \<and> hex_upper ! k \<noteq> 43"
    unfolding all_less_upt by code_simp
  then show "k < 16 \<Longrightarrow> hex_to_int (hex_upper ! k) = k \<and> hex_upper ! k \<noteq> 43" by blast
qed

lemma is_url_char_not_special: "is_url_char c \<Longrightarrow> c \<noteq> ch (CHR ''%'') \<and> c \<noteq> ch (CHR ''+'')"
  by (auto simp: is_url_char_def is_alnum_def is_alpha_iff is_digit_iff)

lemma url_encode_length_fold:
  "fold (\<lambda>c n. n - 2 * (if is_url_char c then 1 else 0)) data m =
     m - 2 * length (filter is_url_char data)"
  by (induction data arbitrary: m) auto

lemma length_url_encode_chars:
  "length (concat (map url_encode_char data)) + 2 * length (filter is_url_char data) =
     3 * length data"
  by (induction data) (auto simp: url_encode_char_def)

lemma url_encode_eq: "url_encode data = Some (concat (map url_encode_char data))"
proof -
  let ?k = "length (filter is_url_char data)"
  have "concat (map url_encode_char data) = data" if "3 * length data - 2 * ?k = length data"
  proof -
    have "?k = length data" using that length_filter_le [of is_url_char data] by linarith
    then have "filter is_url_char data = data" by (metis filter_True length_filter_less less_irrefl)
    then have "\<forall>c\<in>set data. is_url_char c" by (simp add: filter_id_conv)
    then show ?thesis by (induction data) (simp_all add: url_encode_char_def)
  qed
  moreover have "length (concat (map url_encode_char data)) = 3 * length data - 2 * ?k"
    using length_url_encode_chars [of data] by linarith
  ultimately show ?thesis
    by (simp add: url_encode_def url_encode_length_fold Let_def)
qed

lemma url_decode_loop_plain:
  "c \<noteq> ch (CHR ''%'') \<Longrightarrow> url_decode_loop sp (c # rest) =
     (if sp \<and> c = ch (CHR ''+'') then ch (CHR '' '') else c) # url_decode_loop sp rest"
  by (cases rest; cases "tl rest") auto

lemma url_decode_loop_other:
  assumes "\<not> (c = ch (CHR ''%'') \<and> 2 \<le> length r \<and> hex_to_int (r ! 0) < 16 \<and> hex_to_int (r ! 1) < 16)"
  shows "url_decode_loop sp (c # r) =
     (if sp \<and> c = ch (CHR ''+'') then ch (CHR '' '') else c) # url_decode_loop sp r"
  using assms by (cases r; cases "tl r") auto

lemma url_decode_loop_encode: "url_decode_loop sp (concat (map url_encode_char data)) = data"
proof (induction data)
  case (Cons c data)
  show ?case
  proof (cases "is_url_char c")
    case True
    then show ?thesis
      using Cons is_url_char_not_special [OF True]
      by (simp add: url_encode_char_def url_decode_loop_plain)
  next
    case False
    have "unat c div 16 < 16" "unat c mod 16 < 16" using unat_byte_less [of c] by simp_all
    moreover have "word_of_nat (unat c div 16 * 16 + unat c mod 16) = c" by simp
    ultimately show ?thesis
      using Cons False by (simp add: url_encode_char_def hex_upper_nth del: of_nat_add)
  qed
qed simp

text \<open>Writing behind the read position never changes what is read later.\<close>

lemma url_decode_shared:
  assumes "to_i \<le> from_i" "to_i \<le> length buf" "url_decode_shared_loop sp buf from_i to_i = (b, n)"
  shows "take n b = take to_i buf @ url_decode_loop sp (drop from_i buf)"
  using assms
proof (induction sp buf from_i to_i arbitrary: b n rule: url_decode_shared_loop.induct)
  case (1 sp buf from_i to_i)
  show ?case
  proof (cases "from_i < length buf")
    case False
    then show ?thesis using 1(5) by (simp add: url_decode_shared_loop.simps [of sp buf])
  next
    case True
    have lt: "to_i < length buf" using True 1(3) by linarith
    have split: "drop from_i buf = buf ! from_i # drop (from_i + 1) buf"
      using True by (simp add: Cons_nth_drop_Suc)
    have upd: "take (to_i + 1) (buf[to_i := x]) = take to_i buf @ [x]" for x
      using lt by (simp add: take_Suc_conv_app_nth)
    show ?thesis
    proof (cases "buf ! from_i = ch (CHR ''%'') \<and> from_i + 2 < length buf \<and>
           hex_to_int (buf ! (from_i + 1)) < 16 \<and> hex_to_int (buf ! (from_i + 2)) < 16")
      case esc: True
      have "drop (from_i + 1) buf = buf ! (from_i + 1) # buf ! (from_i + 2) # drop (from_i + 3) buf"
        using esc by (simp add: Cons_nth_drop_Suc eval_nat_numeral)
      moreover have "url_decode_shared_loop sp buf from_i to_i = url_decode_shared_loop sp
          (buf[to_i := word_of_nat (hex_to_int (buf ! (from_i + 1)) * 16 +
             hex_to_int (buf ! (from_i + 2)))]) (from_i + 3) (to_i + 1)"
        using True esc by (subst url_decode_shared_loop.simps) (simp add: Let_def)
      ultimately show ?thesis
        using 1(1) [OF True refl esc] 1(3,5) lt esc split upd by simp
    next
      case False
      have "url_decode_loop sp (drop from_i buf) =
          (if sp \<and> buf ! from_i = ch (CHR ''+'') then ch (CHR '' '') else buf ! from_i) #
          url_decode_loop sp (drop (from_i + 1) buf)"
        unfolding split using False by (intro url_decode_loop_other) auto
      moreover have "url_decode_shared_loop sp buf from_i to_i = url_decode_shared_loop sp
          (buf[to_i := (if sp \<and> buf ! from_i = ch (CHR ''+'') then ch (CHR '' '') else buf ! from_i)])
          (from_i + 1) (to_i + 1)"
        using True False by (subst url_decode_shared_loop.simps) (auto simp: Let_def)
      ultimately show ?thesis
        using 1(2) [OF True refl False] 1(3,5) lt upd by simp
    qed
  qed
qed

subsection \<open>Run-length codecs\<close>

lemma run_count_prefix:
  "cnt \<le> 250 \<Longrightarrow> cnt \<le> run_count c cnt xs \<and> run_count c cnt xs \<le> 250 \<and>
     run_count c cnt xs - cnt \<le> length xs \<and>
     take (run_count c cnt xs - cnt) xs = replicate (run_count c cnt xs - cnt) c"
proof (induction xs arbitrary: cnt)
  case (Cons x xs)
  have "run_count c (cnt + 1) xs - cnt = Suc (run_count c (cnt + 1) xs - (cnt + 1))"
    if "cnt < 250"
  proof -
    have "cnt + 1 \<le> run_count c (cnt + 1) xs" using Cons.IH [of "cnt + 1"] that by simp
    then show ?thesis by linarith
  qed
  then show ?case using Cons.IH [of "cnt + 1"] Cons.prems by auto
qed simp

text \<open>
  The contract both run-length codings satisfy: an escaped byte is followed by the length of its
  run, every other byte stands for itself.
\<close>

locale run_codec =
  fixes escaped :: "byte \<Rightarrow> bool" and enc :: "bytes \<Rightarrow> bytes" and dec :: "bytes \<Rightarrow> bytes"
  assumes enc_Nil: "enc [] = []"
    and enc_run: "escaped c \<Longrightarrow> enc (c # xs) =
      c # word_of_nat (run_count c 1 xs) # enc (drop (run_count c 1 xs - 1) xs)"
    and enc_plain: "\<not> escaped c \<Longrightarrow> enc (c # xs) = c # enc xs"
    and dec_Nil: "dec [] = []"
    and dec_run: "escaped c \<Longrightarrow> dec (c # n # xs) = replicate (unat n) c @ dec xs"
    and dec_plain: "\<not> escaped c \<Longrightarrow> dec (c # xs) = c # dec xs"
begin

lemma dec_enc_run: "dec (enc xs) = xs"
proof (induction xs rule: length_induct)
  case (1 xs)
  show ?case
  proof (cases xs)
    case (Cons c cs)
    show ?thesis
    proof (cases "escaped c")
      case True
      let ?r = "run_count c 1 cs"
      have r: "1 \<le> ?r" "?r \<le> 250" "take (?r - 1) cs = replicate (?r - 1) c"
        using run_count_prefix [of 1 c cs] by simp_all
      have "unat (word_of_nat ?r :: byte) = ?r" using r(2) by (subst unat_of_nat) simp
      moreover have "dec (enc (drop (?r - 1) cs)) = drop (?r - 1) cs" using 1 Cons by simp
      moreover have "replicate ?r c = c # take (?r - 1) cs"
        using r(1,3) by (metis replicate_Suc le_add_diff_inverse plus_1_eq_Suc)
      ultimately show ?thesis
        using Cons True by (simp add: enc_run dec_run)
    next
      case False
      then show ?thesis using 1 Cons by (simp add: enc_plain dec_plain)
    qed
  qed (simp add: enc_Nil dec_Nil)
qed

lemma length_enc: "length (enc xs) \<le> length xs + length (filter escaped xs)"
proof (induction xs rule: length_induct)
  case (1 xs)
  show ?case
  proof (cases xs)
    case (Cons c cs)
    show ?thesis
    proof (cases "escaped c")
      case True
      let ?k = "run_count c 1 cs - 1"
      have "length (enc (drop ?k cs)) \<le> length (drop ?k cs) + length (filter escaped (drop ?k cs))"
        using 1 [rule_format, of "drop ?k cs"] Cons by simp
      moreover have "length (filter escaped cs) =
          length (filter escaped (take ?k cs)) + length (filter escaped (drop ?k cs))"
        by (metis append_take_drop_id filter_append length_append)
      ultimately show ?thesis using Cons True by (simp add: enc_run)
    next
      case False
      then show ?thesis using 1 Cons by (simp add: enc_plain)
    qed
  qed (simp add: enc_Nil)
qed

end

sublocale run_codec \<subseteq> rc: codec enc "\<lambda>s. Inr (dec s)"
  by unfold_locales (simp add: dec_enc_run)

interpretation zero: run_codec "\<lambda>c. c = 0" zero_encode zero_decode
proof
  show "c \<noteq> 0 \<Longrightarrow> zero_decode (c # xs) = c # zero_decode xs" for c xs by (cases xs) simp_all
qed (simp_all add: Let_def)

interpretation zero_one: run_codec "\<lambda>c. c = 0 \<or> c = 0xff" zero_one_encode zero_one_decode
proof
  show "\<not> (c = 0 \<or> c = 0xff) \<Longrightarrow> zero_one_decode (c # xs) = c # zero_one_decode xs" for c xs
    by (cases xs) simp_all
  show "c = 0 \<or> c = 0xff \<Longrightarrow> zero_one_encode (c # xs) =
      c # word_of_nat (run_count c 1 xs) # zero_one_encode (drop (run_count c 1 xs - 1) xs)" for c xs
    by (simp add: Let_def)
qed simp_all

subsection \<open>Properties\<close>

text \<open>Hexadecimal decoding inverts encoding, and it accepts exactly the encodings of byte
  strings, in either letter case.\<close>
theorem hex_decode_exact:
  "hex_decode (hex_encode d) = Inr d \<and>
   (hex_decode h = Inr d \<longleftrightarrow> map to_lower h = hex_encode d)"
proof -
  have "map to_lower h = hex_encode d" if "hex_decode h = Inr d"
    using that hex_decode_loop_sound [of h d]
    by (simp add: hex_decode_def even_iff_mod_2_eq_zero split: if_splits)
  moreover have "hex_decode h = Inr d" if "map to_lower h = hex_encode d"
  proof -
    have "length h = 2 * length d" using that length_hex_encode [of d] by (metis length_map)
    then show ?thesis
      using that hex_decode_loop_lower [of h] hex_decode_loop_encode [of d]
      by (simp add: hex_decode_def)
  qed
  ultimately show ?thesis using hex.dec_enc by blast
qed

text \<open>Percent encoding never trips its length \<open>CHECK\<close>, and it is inverted by decoding into a
  fresh buffer and by decoding in place, where the output overwrites the input it is read from.\<close>
theorem url_encode_decode:
  "\<exists>e. url_encode d = Some e \<and> url_decode e as_space = Some d \<and>
     url_decode_inplace e as_space = d"
proof -
  let ?e = "concat (map url_encode_char d)"
  obtain b n where bn: "url_decode_shared_loop as_space ?e 0 0 = (b, n)" by fastforce
  have "url_decode_inplace ?e as_space = d"
    using url_decode_shared [OF _ _ bn] bn
    by (simp add: url_decode_inplace_def url_decode_loop_encode)
  then show ?thesis
    by (simp add: url_encode_eq url_decode_def url_decode_into_def url_decode_loop_encode)
qed

text \<open>Decoding in place gives the same bytes as decoding into a separate buffer, on every
  input.\<close>
theorem url_decode_inplace_eq:
  "url_decode s as_space = Some (url_decode_inplace s as_space)"
proof -
  obtain b n where bn: "url_decode_shared_loop as_space s 0 0 = (b, n)" by fastforce
  then show ?thesis
    using url_decode_shared [OF _ _ bn]
    by (simp add: url_decode_inplace_def url_decode_def url_decode_into_def)
qed

text \<open>The run-length codings are lossless and injective, and each escaped byte costs at most
  one more byte.\<close>
theorem run_length_roundtrip:
  "zero_decode (zero_encode xs) = xs \<and> zero_one_decode (zero_one_encode xs) = xs \<and>
   (zero_encode xs = zero_encode ys \<longleftrightarrow> xs = ys) \<and>
   length (zero_encode xs) \<le> length xs + length (filter (\<lambda>c. c = 0) xs) \<and>
   length (zero_one_encode xs) \<le> length xs + length (filter (\<lambda>c. c = 0 \<or> c = 0xff) xs)"
  using zero.dec_enc_run zero_one.dec_enc_run zero.length_enc zero_one.length_enc
    zero.rc.enc_inject by blast

end
