(* ===== verification/Td_Base64.thy ===== *)
theory Td_Base64
  imports Td_Codec
begin

text \<open>
  Base64 and base32: \<open>tdutils/td/utils/base64.cpp\<close>.

  The template parameter \<open>is_url\<close> is an argument.  \<open>int c\<close> only ever holds 24 bits, so it is a
  32-bit word.  The decoders of base64 write through a pointer into a string allocated before;
  \<open>None\<close> is a write past its end.
\<close>

unbundle bit_operations_syntax

subsection \<open>Base64\<close>

definition get_characters :: "bool \<Rightarrow> bytes" where
  "get_characters is_url =
     (if is_url then str ''ABCDEFGHIJKLMNOPQRSTUVWXYZabcdefghijklmnopqrstuvwxyz0123456789-_''
      else str ''ABCDEFGHIJKLMNOPQRSTUVWXYZabcdefghijklmnopqrstuvwxyz0123456789+/'')"

definition get_character_table :: "bool \<Rightarrow> byte list" where
  "get_character_table is_url =
     fold (\<lambda>i table. table[unat (get_characters is_url ! i) := word_of_nat i]) [0..<64]
       (replicate 256 64)"

definition table_value :: "bool \<Rightarrow> byte \<Rightarrow> byte" where
  "table_value is_url c = get_character_table is_url ! unat c"

text \<open>One round of the encoding loop, on the next \<open>left\<close> bytes, at most three.\<close>

definition base64_encode_group :: "bool \<Rightarrow> bytes \<Rightarrow> bytes" where
  "base64_encode_group is_url g =
     (let characters = get_characters is_url;
          left = length g;
          c0 = push_bit 16 (u32_of (g ! 0));
          s0 = [characters ! unat (drop_bit 18 c0)];
          c1 = (if left \<noteq> 1 then c0 OR push_bit 8 (u32_of (g ! 1)) else c0);
          s1 = s0 @ [characters ! unat (drop_bit 12 c1 AND 63)];
          c2 = (if left = 3 then c1 OR u32_of (g ! 2) else c1);
          s2 = (if left \<noteq> 1 then s1 @ [characters ! unat (drop_bit 6 c2 AND 63)]
                else if \<not> is_url then s1 @ [ch (CHR ''='')] else s1)
      in if left = 3 then s2 @ [characters ! unat (c2 AND 63)]
         else if \<not> is_url then s2 @ [ch (CHR ''='')] else s2)"

fun base64_encode_impl :: "bool \<Rightarrow> bytes \<Rightarrow> bytes" where
  "base64_encode_impl is_url [] = []"
| "base64_encode_impl is_url [a] = base64_encode_group is_url [a]"
| "base64_encode_impl is_url [a, b] = base64_encode_group is_url [a, b]"
| "base64_encode_impl is_url (a # b # c # rest) =
     base64_encode_group is_url [a, b, c] @ base64_encode_impl is_url rest"

function strip_padding :: "bytes \<Rightarrow> nat \<Rightarrow> bytes \<times> nat" where
  "strip_padding s n =
     (if s \<noteq> [] \<and> last s = ch (CHR ''='') then strip_padding (butlast s) (n + 1) else (s, n))"
  by pat_completeness auto
termination by (relation "measure (\<lambda>(s, n). length s)") auto

declare strip_padding.simps [simp del]

definition base64_drop_padding :: "bool \<Rightarrow> bytes \<Rightarrow> bytes result" where
  "base64_drop_padding is_url s =
     (case strip_padding s 0 of (base64, padding_length) \<Rightarrow>
        if padding_length \<ge> 3 then Error ''Wrong string padding''
        else if (\<not> is_url \<or> padding_length > 0) \<and> (length base64 + padding_length) AND 3 \<noteq> 0
        then Error ''Wrong padding length''
        else if is_url \<and> length base64 AND 3 = 1 then Error ''Wrong string length''
        else Inr base64)"

text \<open>The inner loop over the next \<open>left\<close> characters, then the bytes they give.\<close>

fun base64_group_value :: "bool \<Rightarrow> nat \<Rightarrow> u32 \<Rightarrow> bytes \<Rightarrow> u32 result" where
  "base64_group_value is_url t c [] = Inr c"
| "base64_group_value is_url t c (x # xs) =
     (let v = table_value is_url x in
      if v = 64 then Error ''Wrong character in the string''
      else base64_group_value is_url (t + 1) (c OR push_bit ((3 - t) * 6) (u32_of v)) xs)"

definition base64_group_bytes :: "nat \<Rightarrow> u32 \<Rightarrow> bytes result" where
  "base64_group_bytes left c =
     (let b0 = [byte_of (drop_bit 16 c)] in
      if left = 2 then
        if c AND (push_bit 16 1 - 1) \<noteq> 0 then Error ''Wrong padding in the string'' else Inr b0
      else let b1 = b0 @ [byte_of (drop_bit 8 c)] in
        if left = 3 then
          if c AND (push_bit 8 1 - 1) \<noteq> 0 then Error ''Wrong padding in the string'' else Inr b1
        else Inr (b1 @ [byte_of c]))"

definition base64_decode_group :: "bool \<Rightarrow> bytes \<Rightarrow> bytes result" where
  "base64_decode_group is_url g =
     try_result (base64_group_value is_url 0 0 g) (base64_group_bytes (length g))"

fun do_base64_decode_impl :: "bool \<Rightarrow> bytes \<Rightarrow> bytes result" where
  "do_base64_decode_impl is_url [] = Inr []"
| "do_base64_decode_impl is_url (a # b # c # d # rest) =
     try_result (base64_decode_group is_url [a, b, c, d])
       (\<lambda>g. try_result (do_base64_decode_impl is_url rest) (\<lambda>r. Inr (g @ r)))"
| "do_base64_decode_impl is_url g = base64_decode_group is_url g"

definition base64_decoded_size :: "nat \<Rightarrow> nat" where
  "base64_decoded_size n = n div 4 * 3 + ((n AND 3) + 1) div 2"

definition base64_decode_impl :: "bool \<Rightarrow> bytes \<Rightarrow> bytes result option" where
  "base64_decode_impl is_url s =
     (case base64_drop_padding is_url s of
        Inl e \<Rightarrow> Some (Inl e)
      | Inr base64 \<Rightarrow>
          let size = base64_decoded_size (length base64) in
          (case do_base64_decode_impl is_url base64 of
             Inl e \<Rightarrow> Some (Inl e)
           | Inr out \<Rightarrow> do { check (length out \<le> size);
                            Some (Inr (out @ replicate (size - length out) 0)) }))"

definition is_base64_characters_impl :: "bool \<Rightarrow> bytes \<Rightarrow> bool" where
  "is_base64_characters_impl is_url s = list_all (\<lambda>c. table_value is_url c \<noteq> 64) s"

definition is_base64_impl :: "bool \<Rightarrow> bytes \<Rightarrow> bool" where
  "is_base64_impl is_url s =
     (case strip_padding s 0 of (input, padding_length) \<Rightarrow>
        if padding_length \<ge> 3 then False
        else if (\<not> is_url \<or> padding_length > 0) \<and> (length input + padding_length) AND 3 \<noteq> 0 then False
        else if is_url \<and> length input AND 3 = 1 then False
        else if \<not> list_all (\<lambda>c. table_value is_url c \<noteq> 64) input then False
        else if length input AND 3 = 2 \<and> table_value is_url (last input) AND 15 \<noteq> 0 then False
        else if length input AND 3 = 3 \<and> table_value is_url (last input) AND 3 \<noteq> 0 then False
        else True)"

definition base64_filter :: "bytes \<Rightarrow> bytes" where
  "base64_filter s = filter (\<lambda>c. table_value False c \<noteq> 64 \<or> c = ch (CHR ''='')) s"

subsection \<open>Base32\<close>

definition get_base32_characters :: "bool \<Rightarrow> bytes" where
  "get_base32_characters upper_case =
     (if upper_case then str ''ABCDEFGHIJKLMNOPQRSTUVWXYZ234567''
      else str ''abcdefghijklmnopqrstuvwxyz234567'')"

definition get_base32_character_table :: "byte list" where
  "get_base32_character_table =
     fold (\<lambda>i table. table[unat (get_base32_characters False ! i) := word_of_nat i,
                           unat (get_base32_characters True ! i) := word_of_nat i])
       [0..<32] (replicate 256 32)"

function base32_encode_emit :: "bytes \<Rightarrow> u32 \<Rightarrow> nat \<Rightarrow> bytes \<times> nat" where
  "base32_encode_emit characters c len =
     (if len \<ge> 5 then
        case base32_encode_emit characters c (len - 5) of (out, n) \<Rightarrow>
          (characters ! unat (drop_bit (len - 5) c AND 31) # out, n)
      else ([], len))"
  by pat_completeness auto
termination by (relation "measure (\<lambda>(characters, c, len). len)") auto

declare base32_encode_emit.simps [simp del]

fun base32_encode_loop :: "bytes \<Rightarrow> u32 \<Rightarrow> nat \<Rightarrow> bytes \<Rightarrow> bytes" where
  "base32_encode_loop characters c len [] =
     (if len \<noteq> 0 then [characters ! unat (push_bit (5 - len) c AND 31)] else [])"
| "base32_encode_loop characters c len (b # rest) =
     (let c = push_bit 8 c OR u32_of b in
      case base32_encode_emit characters c (len + 8) of (out, n) \<Rightarrow>
        out @ base32_encode_loop characters c n rest)"

definition base32_encode :: "bytes \<Rightarrow> bool \<Rightarrow> bytes" where
  "base32_encode s upper_case = base32_encode_loop (get_base32_characters upper_case) 0 0 s"

fun base32_decode_loop :: "u32 \<Rightarrow> nat \<Rightarrow> bytes \<Rightarrow> bytes result" where
  "base32_decode_loop c len [] =
     (if c AND (push_bit len 1 - 1) \<noteq> 0 then Error ''Nonzero padding'' else Inr [])"
| "base32_decode_loop c len (x # rest) =
     (let v = get_base32_character_table ! unat x in
      if v = 32 then Error ''Wrong character in the string''
      else let c = push_bit 5 c OR u32_of v in
        if len + 5 \<ge> 8 then
          try_result (base32_decode_loop c (len + 5 - 8) rest)
            (\<lambda>r. Inr (byte_of (drop_bit (len + 5 - 8) c AND 255) # r))
        else base32_decode_loop c (len + 5) rest)"

definition base32_decode :: "bytes \<Rightarrow> bytes result" where
  "base32_decode s = base32_decode_loop 0 0 s"


subsection \<open>The character tables\<close>

lemma table_fold:
  assumes "n \<le> 64" "distinct cs" "length cs = 64"
  shows "let t = fold (\<lambda>i table. table[unat (cs ! i) := word_of_nat i]) [0..<n]
      (replicate 256 64) in
    length t = 256 \<and> (\<forall>i<n. t ! unat (cs ! i) = word_of_nat i) \<and>
    (\<forall>b :: byte. (\<forall>i<n. cs ! i \<noteq> b) \<longrightarrow> t ! unat b = (64 :: byte))"
  using assms(1)
proof (induction n)
  case 0
  then show ?case using unat_byte_less by (simp add: Let_def)
next
  case (Suc n)
  have ne: "cs ! i \<noteq> cs ! n" if "i < n" for i
    using that assms Suc.prems by (simp add: nth_eq_iff_index_eq)
  have inj: "unat (cs ! n) = unat b \<longleftrightarrow> cs ! n = b" for b
    by (metis word_unat_eq_iff)
  show ?case
    using Suc unat_byte_less [of "cs ! n"] ne
    by (auto simp: Let_def nth_list_update less_Suc_eq inj) blast
qed

text \<open>The alphabets are unions of ranges of the ASCII table.\<close>

lemma get_characters_ranges:
  "get_characters u = map word_of_nat
     ([65..<91] @ [97..<123] @ [48..<58] @ (if u then [45, 95] else [43, 47]))"
proof -
  have "get_characters True = map word_of_nat ([65..<91] @ [97..<123] @ [48..<58] @ [45, 95])"
    by code_simp
  moreover have "get_characters False = map word_of_nat ([65..<91] @ [97..<123] @ [48..<58] @ [43, 47])"
    by code_simp
  ultimately show ?thesis by (cases u) (simp_all only: if_True if_False simp_thms)
qed

lemma distinct_byte_list:
  "distinct ns \<Longrightarrow> list_all (\<lambda>n. n < 256) ns \<Longrightarrow> distinct (map word_of_nat ns :: bytes)"
  by (auto simp: distinct_map inj_on_def list_all_iff word_unat_eq_iff unat_of_nat)

lemma get_characters_facts:
  "distinct (get_characters u)" "length (get_characters u) = 64" "ch (CHR ''='') \<notin> set (get_characters u)"
proof -
  let ?ns = "[65..<91] @ [97..<123] @ [48..<58] @ (if u then [45, 95] else [43, 47])"
  show "distinct (get_characters u)"
    unfolding get_characters_ranges
    by (rule distinct_byte_list) (auto simp: list_all_iff simp del: upt.simps)
  have "length ?ns = 64" by (simp del: upt.simps)
  then show "length (get_characters u) = 64" unfolding get_characters_ranges by (simp only: length_map)
  show "ch (CHR ''='') \<notin> set (get_characters u)"
    by (cases u) (simp_all add: get_characters_def)
qed

lemma table_value_cases:
  "i < 64 \<Longrightarrow> table_value u (get_characters u ! i) = word_of_nat i"
  "\<forall>i<64. get_characters u ! i \<noteq> b \<Longrightarrow> table_value u b = 64"
proof -
  note t = table_fold [OF order_refl get_characters_facts(1,2), unfolded Let_def, of u]
  show "i < 64 \<Longrightarrow> table_value u (get_characters u ! i) = word_of_nat i"
    using t [THEN conjunct2, THEN conjunct1]
    unfolding table_value_def get_character_table_def by blast
  show "\<forall>i<64. get_characters u ! i \<noteq> b \<Longrightarrow> table_value u b = 64"
    using t [THEN conjunct2, THEN conjunct2]
    unfolding table_value_def get_character_table_def by blast
qed

lemmas table_value_nth = table_value_cases(1)

lemma table_value_char:
  "table_value u c \<noteq> 64 \<longleftrightarrow> (\<exists>i<64. c = get_characters u ! i)"
proof
  assume "table_value u c \<noteq> 64"
  then show "\<exists>i<64. c = get_characters u ! i" by (metis table_value_cases(2))
next
  assume "\<exists>i<64. c = get_characters u ! i"
  then obtain i where i: "i < 64" "c = get_characters u ! i" by blast
  have "unat (word_of_nat i :: byte) = i" using i(1) by (subst unat_of_nat) simp
  moreover have "unat (64 :: byte) = 64" by simp
  ultimately have "(word_of_nat i :: byte) \<noteq> 64" using i(1) by (metis less_irrefl)
  then show "table_value u c \<noteq> 64" using i by (simp add: table_value_nth)
qed

text \<open>Strings of table characters are the images of lists of six-bit values.\<close>

definition sextet_chars :: "bool \<Rightarrow> nat list \<Rightarrow> bytes" where
  "sextet_chars u vs = map (\<lambda>v. get_characters u ! v) vs"

lemma sextet_chars_simps [simp]:
  "sextet_chars u [] = []" "sextet_chars u (v # vs) = get_characters u ! v # sextet_chars u vs"
  "sextet_chars u (vs @ ws) = sextet_chars u vs @ sextet_chars u ws"
  "length (sextet_chars u vs) = length vs"
  by (simp_all add: sextet_chars_def)

lemma chars_are_sextets:
  "list_all (\<lambda>c. table_value u c \<noteq> 64) s \<longleftrightarrow>
     (\<exists>vs. list_all (\<lambda>v. v < 64) vs \<and> s = sextet_chars u vs)"
proof
  show "list_all (\<lambda>c. table_value u c \<noteq> 64) s \<Longrightarrow>
      \<exists>vs. list_all (\<lambda>v. v < 64) vs \<and> s = sextet_chars u vs"
  proof (induction s)
    case (Cons c s)
    then obtain i vs where "i < 64" "c = get_characters u ! i" "list_all (\<lambda>v. v < 64) vs"
      "s = sextet_chars u vs" by (auto simp: table_value_char)
    then show ?case by (intro exI [of _ "i # vs"]) simp
  qed (simp add: exI [of _ "[]"])
next
  assume "\<exists>vs. list_all (\<lambda>v. v < 64) vs \<and> s = sextet_chars u vs"
  then show "list_all (\<lambda>c. table_value u c \<noteq> 64) s"
    unfolding table_value_char by (fastforce simp: sextet_chars_def list_all_iff)
qed

lemma sextet_chars_inject:
  assumes "list_all (\<lambda>v. v < 64) vs" "list_all (\<lambda>v. v < 64) ws" "sextet_chars u vs = sextet_chars u ws"
  shows "vs = ws"
proof -
  have "inj_on (\<lambda>v. get_characters u ! v) (set vs \<union> set ws)"
    using get_characters_facts [of u] assms(1,2) by (intro inj_on_nth) (auto simp: list_all_iff)
  then show ?thesis using assms(3) map_inj_on unfolding sextet_chars_def by blast
qed

subsection \<open>Groups\<close>

fun sextets :: "bytes \<Rightarrow> nat list" where
  "sextets [] = []"
| "sextets [a] = [unat a div 4, unat a mod 4 * 16]"
| "sextets [a, b] = [unat a div 4, unat a mod 4 * 16 + unat b div 16, unat b mod 16 * 4]"
| "sextets (a # b # c # rest) =
     unat a div 4 # (unat a mod 4 * 16 + unat b div 16) # (unat b mod 16 * 4 + unat c div 64) #
     unat c mod 64 # sextets rest"

lemma sextets_bound: "list_all (\<lambda>v. v < 64) (sextets xs)"
proof -
  have "unat a div 4 < 64" "unat a mod 4 * 16 + unat b div 16 < 64"
    "unat b mod 16 * 4 + unat c div 64 < 64" "unat a mod 4 * 16 < 64" "unat b mod 16 * 4 < 64"
    for a b c :: byte
    using unat_byte_less [of a] unat_byte_less [of b] unat_byte_less [of c]
      mod_less_divisor [of 4 "unat a"] mod_less_divisor [of 16 "unat b"] by linarith+
  then show ?thesis by (induction xs rule: sextets.induct) auto
qed

lemma group_int:
  "unat (push_bit 16 (u32_of a)) = 65536 * unat a"
  "unat (push_bit 16 (u32_of a) OR push_bit 8 (u32_of b)) = 65536 * unat a + 256 * unat b"
  "unat ((push_bit 16 (u32_of a) OR push_bit 8 (u32_of b)) OR u32_of c) =
     65536 * unat a + 256 * unat b + unat c"
proof -
  have push: "unat (push_bit k (u32_of a)) = 2 ^ k * unat a" if "k \<le> 16" for k and a :: byte
  proof -
    have "(2 :: nat) ^ k \<le> 2 ^ 16" using that by (intro power_increasing) auto
    then have "2 ^ k * unat a < 2 ^ 32"
      using unat_byte_less [of a] mult_le_mono [of "2 ^ k" "2 ^ 16" "unat a" 255] by simp
    then show ?thesis
      unfolding unsigned_push_bit_eq unsigned_ucast_eq
      using unat_byte_less [of a]
      by (simp only: push_bit_eq_mult) (simp add: take_bit_nat_eq_self mult.commute)
  qed
  show a: "unat (push_bit 16 (u32_of a)) = 65536 * unat a" using push [of 16 a] by simp
  have b: "unat (push_bit 8 (u32_of b)) = 256 * unat b" using push [of 8 b] by simp
  have c: "unat (u32_of c) = unat c" using push [of 0 c] by simp
  show ab: "unat (push_bit 16 (u32_of a) OR push_bit 8 (u32_of b)) = 65536 * unat a + 256 * unat b"
    unfolding unsigned_or_eq a b using unat_byte_less [of b] by (intro nat_or_add [of 16]) auto
  have "(2 :: nat) ^ 8 dvd 65536 * unat a + 256 * unat b"
    by (intro dvd_add dvd_mult2) simp_all
  then show "unat ((push_bit 16 (u32_of a) OR push_bit 8 (u32_of b)) OR u32_of c) =
     65536 * unat a + 256 * unat b + unat c"
  proof -
    let ?x = "push_bit 16 (u32_of a) OR push_bit 8 (u32_of b)"
    assume dvd: "(2 :: nat) ^ 8 dvd 65536 * unat a + 256 * unat b"
    have "unat (?x OR u32_of c) = unat ?x OR unat (u32_of c)" by (rule unsigned_or_eq)
    also have "\<dots> = 65536 * unat a + 256 * unat b + unat c"
      unfolding ab c using dvd unat_byte_less [of c] by (intro nat_or_add [where k = 8]) auto
    finally show ?thesis .
  qed
qed

lemma sextets_of_octets:
  fixes a b c :: nat
  assumes "b < 256" "c < 256" and v: "v = 65536 * a + 256 * b + c"
  shows "v div 262144 = a div 4" "v div 4096 mod 64 = a mod 4 * 16 + b div 16"
    "v div 64 mod 64 = b mod 16 * 4 + c div 64" "v mod 64 = c mod 64"
proof -
  have split: "65536 * (4 * a1 + a0) + 256 * (16 * b1 + b0) + (64 * c1 + c0) =
      262144 * a1 + 4096 * (a0 * 16 + b1) + 64 * (b0 * 4 + c1) + c0" for a1 a0 b1 b0 c1 c0 :: nat
    by simp
  have r: "a mod 4 < 4" "b div 16 < 16" "b mod 16 < 16" "c div 64 < 4" "c mod 64 < 64"
    using assms(1,2) by (simp_all add: div_less_iff_less_mult)
  have "v = 262144 * (a div 4) + 4096 * (a mod 4 * 16 + b div 16) +
      64 * (b mod 16 * 4 + c div 64) + c mod 64"
    using split [of "a div 4" "a mod 4" "b div 16" "b mod 16" "c div 64" "c mod 64"]
    unfolding v mult_div_mod_eq .
  moreover have "a mod 4 * 16 + b div 16 < 64" "b mod 16 * 4 + c div 64 < 64"
    using r by linarith+
  note digits = sextet_digits [OF this r(5) calculation]
  show "v div 262144 = a div 4" "v div 4096 mod 64 = a mod 4 * 16 + b div 16"
    "v div 64 mod 64 = b mod 16 * 4 + c div 64" "v mod 64 = c mod 64"
    by (rule digits)+
qed

lemma unat_and_63: "unat (w AND 63 :: u32) = unat w mod 64"
  using unat_and_mask [of w 6] by (simp add: mask_eq_exp_minus_1)

lemma base64_encode_group_eq:
  "base64_encode_group u [a, b, c] = sextet_chars u (sextets [a, b, c])"
  "base64_encode_group u [a, b] = sextet_chars u (sextets [a, b]) @ (if u then [] else str ''='')"
  "base64_encode_group u [a] = sextet_chars u (sextets [a]) @ (if u then [] else str ''=='')"
proof -
  have b: "unat b < 256" "unat c < 256" "(0 :: nat) < 256" using unat_byte_less by simp_all
  note v3 = sextets_of_octets [OF b(1,2) group_int(3) [of a b c]]
  have "unat (push_bit 16 (u32_of a) OR push_bit 8 (u32_of b)) = 65536 * unat a + 256 * unat b + 0"
    "unat (push_bit 16 (u32_of a)) = 65536 * unat a + 256 * 0 + 0"
    by (simp_all only: group_int)
  note v2 = sextets_of_octets [OF b(1,3) this(1)] and v1 = sextets_of_octets [OF b(3,3) this(2)]
  have d18: "unat (drop_bit 18 w) = unat w div 262144" "unat (drop_bit 12 w) = unat w div 4096"
    "unat (drop_bit 6 w) = unat w div 64" for w :: u32
    using unat_drop_bit_div [of 18 w] unat_drop_bit_div [of 12 w] unat_drop_bit_div [of 6 w] by simp_all
  show "base64_encode_group u [a, b, c] = sextet_chars u (sextets [a, b, c])"
    by (simp add: base64_encode_group_def Let_def d18 unat_and_63 v1 v2 v3 del: drop_bit_or)
  show "base64_encode_group u [a, b] = sextet_chars u (sextets [a, b]) @ (if u then [] else str ''='')"
    by (simp add: base64_encode_group_def Let_def d18 unat_and_63 v1 v2 del: drop_bit_or)
  show "base64_encode_group u [a] = sextet_chars u (sextets [a]) @ (if u then [] else str ''=='')"
    by (simp add: base64_encode_group_def Let_def d18 unat_and_63 v1 del: drop_bit_or)
qed

definition base64_padding :: "nat \<Rightarrow> bytes" where
  "base64_padding n = replicate ((3 - n mod 3) mod 3) (ch (CHR ''=''))"

lemma base64_encode_eq:
  "base64_encode_impl u xs =
     sextet_chars u (sextets xs) @ (if u then [] else base64_padding (length xs))"
  by (induction u xs rule: base64_encode_impl.induct)
     (simp_all add: base64_encode_group_eq base64_padding_def numeral_2_eq_2 del: sextets.simps(2,3))

subsection \<open>Decoding groups\<close>

text \<open>What the inner loop accumulates: the values, six bits each, from the top.\<close>

lemma push_value: "i \<le> 18 \<Longrightarrow> v < 64 \<Longrightarrow> unat (push_bit i (u32_of (word_of_nat v))) = 2 ^ i * v"
proof -
  assume i: "i \<le> 18" and v: "v < 64"
  have "(2 :: nat) ^ i \<le> 2 ^ 18" using i by (intro power_increasing) auto
  then have "2 ^ i * v < 2 ^ 32" using v mult_le_mono [of "2 ^ i" "2 ^ 18" v 63] by simp
  moreover have "unat (u32_of (word_of_nat v)) = v"
    using v unat_of_nat [of v, where 'a = 8]
    by (simp add: unsigned_ucast_eq take_bit_nat_eq_self)
  ultimately show ?thesis
    unfolding unsigned_push_bit_eq
    by (simp only: push_bit_eq_mult) (simp add: take_bit_nat_eq_self mult.commute)
qed

lemma base64_group_value_step:
  "v < 64 \<Longrightarrow> base64_group_value u t c (get_characters u ! v # xs) =
     base64_group_value u (t + 1) (c OR push_bit ((3 - t) * 6) (u32_of (word_of_nat v))) xs"
  using table_value_nth [of v u] table_value_char [of u "get_characters u ! v"]
  by (auto simp: Let_def)

lemma or_value:
  assumes "unat c = a" "2 ^ (k + 6) dvd a" "k \<le> 18" "v < 64"
  shows "unat (c OR push_bit k (u32_of (word_of_nat v))) = a + 2 ^ k * v"
proof -
  have "2 ^ k * v < 2 ^ k * 64" using assms(4) by simp
  then have "2 ^ k * v < 2 ^ (k + 6)" by (simp add: power_add)
  then show ?thesis
    unfolding unsigned_or_eq push_value [OF assms(3,4)] assms(1) by (rule nat_or_add [OF assms(2)])
qed

lemma base64_group_value_chars:
  assumes "a < 64" "b < 64" "c < 64" "d < 64"
  shows "\<exists>w. base64_group_value u 0 0 (sextet_chars u [a, b]) = Inr w \<and>
      unat w = 262144 * a + 4096 * b"
    "\<exists>w. base64_group_value u 0 0 (sextet_chars u [a, b, c]) = Inr w \<and>
      unat w = 262144 * a + 4096 * b + 64 * c"
    "\<exists>w. base64_group_value u 0 0 (sextet_chars u [a, b, c, d]) = Inr w \<and>
      unat w = 262144 * a + 4096 * b + 64 * c + d"
proof -
  let ?w1 = "0 OR push_bit 18 (u32_of (word_of_nat a))"
  let ?w2 = "?w1 OR push_bit 12 (u32_of (word_of_nat b))"
  let ?w3 = "?w2 OR push_bit 6 (u32_of (word_of_nat c))"
  let ?w4 = "?w3 OR push_bit 0 (u32_of (word_of_nat d))"
  have d1: "(2 :: nat) ^ (12 + 6) dvd 262144 * a" by simp
  have d2: "(2 :: nat) ^ (6 + 6) dvd 262144 * a + 4096 * b" by (intro dvd_add dvd_mult2) simp_all
  have d3: "(2 :: nat) ^ (0 + 6) dvd 262144 * a + 4096 * b + 64 * c"
    by (intro dvd_add dvd_mult2) simp_all
  have w1: "unat ?w1 = 262144 * a" using or_value [of 0 0 18 a] assms by simp
  have w2: "unat ?w2 = 262144 * a + 4096 * b" using or_value [OF w1 d1 _ assms(2)] by simp
  have w3: "unat ?w3 = 262144 * a + 4096 * b + 64 * c" using or_value [OF w2 d2 _ assms(3)] by simp
  have w4: "unat ?w4 = 262144 * a + 4096 * b + 64 * c + d" using or_value [OF w3 d3 _ assms(4)] by simp
  show "\<exists>w. base64_group_value u 0 0 (sextet_chars u [a, b]) = Inr w \<and>
      unat w = 262144 * a + 4096 * b"
    using assms w2 by (simp add: base64_group_value_step del: base64_group_value.simps(2))
  show "\<exists>w. base64_group_value u 0 0 (sextet_chars u [a, b, c]) = Inr w \<and>
      unat w = 262144 * a + 4096 * b + 64 * c"
    using assms w3 by (simp add: base64_group_value_step del: base64_group_value.simps(2))
  show "\<exists>w. base64_group_value u 0 0 (sextet_chars u [a, b, c, d]) = Inr w \<and>
      unat w = 262144 * a + 4096 * b + 64 * c + d"
    using assms w4 by (simp add: base64_group_value_step del: base64_group_value.simps(2))
qed

lemma byte_of_nat: "byte_of w = word_of_nat (unat w)"
  by (simp add: word_unat_eq_iff unsigned_ucast_eq unat_of_nat)

lemma octets_of_sextets:
  fixes a b c d :: nat
  assumes "b < 64" "c < 64" "d < 64" and v: "v = 262144 * a + 4096 * b + 64 * c + d"
  shows "v div 65536 = a * 4 + b div 16" "v div 256 mod 256 = b mod 16 * 16 + c div 4"
    "v mod 256 = c mod 4 * 64 + d"
    "v mod 65536 = 256 * (b mod 16 * 16 + c div 4) + (c mod 4 * 64 + d)"
proof -
  have split: "262144 * a + 4096 * (16 * b1 + b0) + 64 * (4 * c1 + c0) + d =
      65536 * (a * 4 + b1) + 256 * (b0 * 16 + c1) + (c0 * 64 + d)" for b1 b0 c1 c0 :: nat
    by simp
  have r: "b mod 16 < 16" "c div 4 < 16" "c mod 4 < 4"
    using assms(2) by (simp_all add: div_less_iff_less_mult)
  have "v = 65536 * (a * 4 + b div 16) + 256 * (b mod 16 * 16 + c div 4) + (c mod 4 * 64 + d)"
    using split [of "b div 16" "b mod 16" "c div 4" "c mod 4"] unfolding v mult_div_mod_eq .
  moreover have "b mod 16 * 16 + c div 4 < 256" "c mod 4 * 64 + d < 256"
    using r assms(3) by linarith+
  note digits = octet_digits [OF this calculation]
  show "v div 65536 = a * 4 + b div 16" "v div 256 mod 256 = b mod 16 * 16 + c div 4"
    "v mod 256 = c mod 4 * 64 + d"
    "v mod 65536 = 256 * (b mod 16 * 16 + c div 4) + (c mod 4 * 64 + d)"
    by (rule digits)+
qed

fun unsextets :: "nat list \<Rightarrow> bytes option" where
  "unsextets [] = Some []"
| "unsextets [a] = None"
| "unsextets [a, b] = (if b mod 16 = 0 then Some [word_of_nat (a * 4 + b div 16)] else None)"
| "unsextets [a, b, c] =
     (if c mod 4 = 0
      then Some [word_of_nat (a * 4 + b div 16), word_of_nat (b mod 16 * 16 + c div 4)] else None)"
| "unsextets (a # b # c # d # rest) =
     map_option (\<lambda>r. word_of_nat (a * 4 + b div 16) # word_of_nat (b mod 16 * 16 + c div 4) #
       word_of_nat (c mod 4 * 64 + d) # r) (unsextets rest)"

lemma word_of_nat_mod256: "word_of_nat (n mod 256) = (word_of_nat n :: byte)"
  using word_unat_eq_iff [of "word_of_nat (n mod 256) :: byte" "word_of_nat n"]
  by (simp add: unat_of_nat take_bit_eq_mod)

lemma base64_group_bytes_eq:
  "base64_group_bytes 4 w = Inr [word_of_nat (unat w div 65536), word_of_nat (unat w div 256 mod 256),
     word_of_nat (unat w mod 256)]"
  "base64_group_bytes 3 w = (if unat w mod 256 = 0
     then Inr [word_of_nat (unat w div 65536), word_of_nat (unat w div 256 mod 256)]
     else Error ''Wrong padding in the string'')"
  "base64_group_bytes 2 w = (if unat w mod 65536 = 0 then Inr [word_of_nat (unat w div 65536)]
     else Error ''Wrong padding in the string'')"
proof -
  have m: "push_bit 16 1 - 1 = (mask 16 :: u32)" "push_bit 8 1 - 1 = (mask 8 :: u32)"
    by (simp_all add: mask_eq_exp_minus_1)
  have z: "w AND mask 16 = 0 \<longleftrightarrow> unat w mod 65536 = 0" "w AND mask 8 = 0 \<longleftrightarrow> unat w mod 256 = 0"
    using unat_and_mask [of w 16] unat_and_mask [of w 8] by (simp_all add: word_unat_eq_iff)
  have d: "unat (drop_bit 16 w) = unat w div 65536" "unat (drop_bit 8 w) = unat w div 256"
    using unat_drop_bit_div [of 16 w] unat_drop_bit_div [of 8 w] by simp_all
  show "base64_group_bytes 4 w = Inr [word_of_nat (unat w div 65536),
      word_of_nat (unat w div 256 mod 256), word_of_nat (unat w mod 256)]"
    "base64_group_bytes 3 w = (if unat w mod 256 = 0
     then Inr [word_of_nat (unat w div 65536), word_of_nat (unat w div 256 mod 256)]
     else Error ''Wrong padding in the string'')"
    "base64_group_bytes 2 w = (if unat w mod 65536 = 0 then Inr [word_of_nat (unat w div 65536)]
     else Error ''Wrong padding in the string'')"
    unfolding base64_group_bytes_def Let_def m z byte_of_nat d word_of_nat_mod256 by simp_all
qed

lemma base64_decode_group_eq:
  assumes "a < 64" "b < 64" "c < 64" "d < 64"
  shows "base64_decode_group u (sextet_chars u [a, b, c, d]) = Inr xs \<longleftrightarrow>
      unsextets [a, b, c, d] = Some xs"
    "base64_decode_group u (sextet_chars u [a, b, c]) = Inr xs \<longleftrightarrow> unsextets [a, b, c] = Some xs"
    "base64_decode_group u (sextet_chars u [a, b]) = Inr xs \<longleftrightarrow> unsextets [a, b] = Some xs"
proof -
  obtain w4 where w4: "base64_group_value u 0 0 (sextet_chars u [a, b, c, d]) = Inr w4"
      "unat w4 = 262144 * a + 4096 * b + 64 * c + d"
    using base64_group_value_chars(3) [OF assms] by blast
  obtain w3 where w3: "base64_group_value u 0 0 (sextet_chars u [a, b, c]) = Inr w3"
      "unat w3 = 262144 * a + 4096 * b + 64 * c + 0"
    using base64_group_value_chars(2) [OF assms] by auto
  obtain w2 where w2: "base64_group_value u 0 0 (sextet_chars u [a, b]) = Inr w2"
      "unat w2 = 262144 * a + 4096 * b + 64 * 0 + 0"
    using base64_group_value_chars(1) [OF assms] by auto
  have z: "(0 :: nat) < 64" by simp
  note o4 = octets_of_sextets [OF assms(2-4) w4(2)] and o3 = octets_of_sextets [OF assms(2,3) z w3(2)]
    and o2 = octets_of_sextets [OF assms(2) z z w2(2)]
  show "base64_decode_group u (sextet_chars u [a, b, c, d]) = Inr xs \<longleftrightarrow>
      unsextets [a, b, c, d] = Some xs"
  proof -
    have "length (sextet_chars u [a, b, c, d]) = 4" by simp
    then show ?thesis
      unfolding base64_decode_group_def w4(1) try_result_simps
      by (auto simp only: base64_group_bytes_eq(1) o4 unsextets.simps option.map sum.inject option.inject)
  qed
  show "base64_decode_group u (sextet_chars u [a, b, c]) = Inr xs \<longleftrightarrow> unsextets [a, b, c] = Some xs"
  proof -
    have len: "length (sextet_chars u [a, b, c]) = 3" by simp
    show ?thesis
      unfolding base64_decode_group_def w3(1) try_result_simps len base64_group_bytes_eq(2) o3
      by auto
  qed
  show "base64_decode_group u (sextet_chars u [a, b]) = Inr xs \<longleftrightarrow> unsextets [a, b] = Some xs"
  proof -
    have len: "length (sextet_chars u [a, b]) = 2" by simp
    show ?thesis
      unfolding base64_decode_group_def w2(1) try_result_simps len base64_group_bytes_eq(3) o2
      by auto
  qed
qed

lemma do_base64_decode_unsextets:
  assumes "list_all (\<lambda>v. v < 64) vs" "length vs mod 4 \<noteq> 1"
  shows "do_base64_decode_impl u (sextet_chars u vs) = Inr xs \<longleftrightarrow> unsextets vs = Some xs"
  using assms
proof (induction vs arbitrary: xs rule: unsextets.induct)
  case (5 a b c d rest)
  have "length rest mod 4 \<noteq> 1" using 5(3) by simp
  then have IH: "do_base64_decode_impl u (sextet_chars u rest) = Inr ys \<longleftrightarrow> unsextets rest = Some ys" for ys
    using 5 by simp
  have "do_base64_decode_impl u (sextet_chars u (a # b # c # d # rest)) = Inr xs \<longleftrightarrow>
      (\<exists>g r. base64_decode_group u (sextet_chars u [a, b, c, d]) = Inr g \<and>
         do_base64_decode_impl u (sextet_chars u rest) = Inr r \<and> xs = g @ r)"
    by auto
  also have "\<dots> \<longleftrightarrow> unsextets (a # b # c # d # rest) = Some xs"
  proof -
    have g: "base64_decode_group u (sextet_chars u [a, b, c, d]) = Inr g \<longleftrightarrow>
        unsextets [a, b, c, d] = Some g" for g
      using 5(2) by (intro base64_decode_group_eq) simp_all
    show ?thesis unfolding IH g by auto
  qed
  finally show ?case .
next
  case (4 a b c)
  then show ?case using base64_decode_group_eq(2) [of a b c 0 u xs] by simp
next
  case (3 a b)
  then show ?case using base64_decode_group_eq(3) [of a b 0 0 u xs] by simp
qed auto

lemma unsextets_sextets: "unsextets (sextets xs) = Some xs"
proof -
  have a: "unat a div 4 * 4 + (unat a mod 4 * 16 + q) div 16 = unat a" if "q < 16" for a :: byte and q
    using that by simp
  have b: "(p * 16 + unat b div 16) mod 16 * 16 + (unat b mod 16 * 4 + q) div 4 = unat b"
    if "q < 4" for b :: byte and p q
    using that unat_byte_less [of b] by simp
  have c: "(p * 4 + unat c div 64) mod 4 * 64 + unat c mod 64 = unat c" for c :: byte and p
    using unat_byte_less [of c] by simp
  have r: "unat b div 16 < 16" "unat c div 64 < 4" for b c :: byte
    using unat_byte_less [of b] unat_byte_less [of c] by simp_all
  show ?thesis
    using a [of 0] b [of 0] a [OF r(1)] b [OF r(2)] c
    by (induction xs rule: sextets.induct) (simp_all del: of_nat_add of_nat_mult)
qed

lemma sextets_group:
  assumes "a < 64" "b < 64" "c < 64" "d < 64"
  defines "x \<equiv> word_of_nat (a * 4 + b div 16) :: byte"
    and "y \<equiv> word_of_nat (b mod 16 * 16 + c div 4) :: byte"
    and "z \<equiv> word_of_nat (c mod 4 * 64 + d) :: byte"
  shows "sextets [x, y, z] = [a, b, c, d]" "c mod 4 = 0 \<Longrightarrow> sextets [x, y] = [a, b, c]"
    "b mod 16 = 0 \<Longrightarrow> sextets [x] = [a, b]"
proof -
  have q: "b div 16 < 4" "c div 4 < 16" "b mod 16 < 16" "c mod 4 < 4"
    using assms(2,3) by (simp_all add: div_less_iff_less_mult)
  have x: "unat x = a * 4 + b div 16"
    unfolding x_def using assms(1) q(1) by (subst unat_of_nat) simp
  have y: "unat y = b mod 16 * 16 + c div 4"
    unfolding y_def using q(2,3) by (subst unat_of_nat) simp
  have z: "unat z = c mod 4 * 64 + d"
    unfolding z_def using assms(4) q(4) by (subst unat_of_nat) simp
  have d: "unat x div 4 = a" "unat x mod 4 = b div 16" "unat y div 16 = b mod 16"
    "unat y mod 16 = c div 4" "unat z div 64 = c mod 4" "unat z mod 64 = d"
    unfolding x y z using assms(4) q by simp_all
  show "sextets [x, y, z] = [a, b, c, d]" "c mod 4 = 0 \<Longrightarrow> sextets [x, y] = [a, b, c]"
    "b mod 16 = 0 \<Longrightarrow> sextets [x] = [a, b]"
    by (auto simp: d)
qed

lemma sextets_unsextets:
  "list_all (\<lambda>v. v < 64) vs \<Longrightarrow> unsextets vs = Some xs \<Longrightarrow> vs = sextets xs"
proof (induction vs arbitrary: xs rule: unsextets.induct)
  case (5 a b c d rest)
  then obtain r where r: "unsextets rest = Some r" "xs = word_of_nat (a * 4 + b div 16) #
      word_of_nat (b mod 16 * 16 + c div 4) # word_of_nat (c mod 4 * 64 + d) # r"
    by auto
  have "rest = sextets r" using 5 r by simp
  then show ?case
    using 5(2) sextets_group(1) [of a b c d] unfolding r(2) by simp
next
  case (4 a b c)
  then have "c mod 4 = 0" "xs = [word_of_nat (a * 4 + b div 16), word_of_nat (b mod 16 * 16 + c div 4)]"
    by (auto simp del: of_nat_add of_nat_mult split: if_splits)
  then show ?case using 4(1) sextets_group(2) [of a b c 0] by simp
next
  case (3 a b)
  then have "b mod 16 = 0" "xs = [word_of_nat (a * 4 + b div 16)]"
    by (auto simp del: of_nat_add of_nat_mult split: if_splits)
  then show ?case using 3(1) sextets_group(3) [of a b 0 0] by simp
qed auto

lemma unsextets_iff: "list_all (\<lambda>v. v < 64) vs \<Longrightarrow> unsextets vs = Some xs \<longleftrightarrow> vs = sextets xs"
  using sextets_unsextets unsextets_sextets by blast

subsection \<open>Padding\<close>

lemma strip_padding_spec:
  "strip_padding s n = (body, m) \<Longrightarrow>
     \<exists>k. m = n + k \<and> s = body @ replicate k (ch (CHR ''='')) \<and> (body = [] \<or> last body \<noteq> ch (CHR ''=''))"
proof (induction s n arbitrary: body m rule: strip_padding.induct)
  case (1 s n)
  show ?case
  proof (cases "s \<noteq> [] \<and> last s = ch (CHR ''='')")
    case True
    then have "strip_padding (butlast s) (n + 1) = (body, m)"
      using 1(2) by (simp add: strip_padding.simps [of s n])
    then obtain k where k: "m = n + 1 + k" "butlast s = body @ replicate k (ch (CHR ''=''))"
      "body = [] \<or> last body \<noteq> ch (CHR ''='')"
      using 1(1) [OF True] by blast
    have "s = butlast s @ [ch (CHR ''='')]" using True by (metis append_butlast_last_id)
    then have "s = body @ replicate (Suc k) (ch (CHR ''=''))"
      using k(2) by (metis append_assoc replicate_append_same replicate_Suc)
    then show ?thesis using k by (intro exI [of _ "Suc k"]) simp
  next
    case False
    then have "strip_padding s n = (s, n)" by (subst strip_padding.simps) auto
    then show ?thesis using 1(2) False by auto
  qed
qed

lemma strip_padding_append:
  assumes "ch (CHR ''='') \<notin> set body"
  shows "strip_padding (body @ replicate k (ch (CHR ''=''))) n = (body, n + k)"
proof (induction k arbitrary: n)
  case 0
  have "\<not> (body \<noteq> [] \<and> last body = ch (CHR ''=''))" using assms by (metis last_in_set)
  then show ?case by (subst strip_padding.simps) auto
next
  case (Suc k)
  have "body @ replicate (Suc k) (ch (CHR ''='')) =
      (body @ replicate k (ch (CHR ''=''))) @ [ch (CHR ''='')]"
    by (simp flip: replicate_append_same)
  then show ?case
    using Suc [of "n + 1"] by (subst strip_padding.simps) (simp add: butlast_append del: replicate.simps)
qed

lemma sextet_chars_no_padding:
  "list_all (\<lambda>v. v < 64) vs \<Longrightarrow> ch (CHR ''='') \<notin> set (sextet_chars u vs)"
  using get_characters_facts [of u]
  by (auto simp: sextet_chars_def list_all_iff)

lemma length_sextets: "length (sextets xs) = 4 * (length xs div 3) + (if length xs mod 3 = 0 then 0 else length xs mod 3 + 1)"
proof (induction xs rule: sextets.induct)
  case (4 a b c rest)
  have "length (a # b # c # rest) div 3 = Suc (length rest div 3)"
    "length (a # b # c # rest) mod 3 = length rest mod 3" by simp_all
  then show ?case using 4 by (simp del: length_Cons)
qed simp_all

lemma length_sextets_mod: "length (sextets xs) mod 4 = (if length xs mod 3 = 0 then 0 else length xs mod 3 + 1)"
proof -
  have "length xs mod 3 < 3" by simp
  then show ?thesis unfolding length_sextets by simp
qed

text \<open>The padding a string may carry: the canonical one, and none for the URL variant.\<close>

lemma base64_drop_padding_ok:
  assumes "base64_drop_padding u s = Inr body"
  obtains k where "s = body @ replicate k (ch (CHR ''=''))" "k < 3" "length body mod 4 \<noteq> 1"
    "u \<and> k = 0 \<or> (length body + k) mod 4 = 0"
proof -
  obtain b m where bm: "strip_padding s 0 = (b, m)" by fastforce
  obtain k where k: "m = k" "s = b @ replicate k (ch (CHR ''=''))"
    using strip_padding_spec [OF bm] by auto
  have c: "k < 3" "b = body" "u \<and> k = 0 \<or> (length b + k) mod 4 = 0" "\<not> (u \<and> length b mod 4 = 1)"
    using assms bm k(1) by (auto simp: base64_drop_padding_def nat_and_3 split: if_splits)
  have "length b mod 4 \<noteq> 1"
  proof
    assume "length b mod 4 = 1"
    then have "(length b + k) mod 4 = (1 + k) mod 4" by (metis mod_add_left_eq)
    then show False using c \<open>length b mod 4 = 1\<close> by auto
  qed
  then show thesis using that [of k] k c by simp
qed

lemma base64_drop_padding_canonical:
  assumes "list_all (\<lambda>v. v < 64) (sextets xs)" "pad = base64_padding (length xs) \<or> u \<and> pad = []"
  shows "base64_drop_padding u (sextet_chars u (sextets xs) @ pad) = Inr (sextet_chars u (sextets xs))"
proof -
  obtain k where pad: "pad = replicate k (ch (CHR ''=''))"
    "k = (3 - length xs mod 3) mod 3 \<or> u \<and> k = 0"
    using assms(2) by (metis base64_padding_def replicate_0)
  have sp: "strip_padding (sextet_chars u (sextets xs) @ pad) 0 = (sextet_chars u (sextets xs), k)"
    unfolding pad(1) using strip_padding_append [OF sextet_chars_no_padding [OF assms(1)], of u k 0] by simp
  have m3: "length xs mod 3 = 0 \<or> length xs mod 3 = 1 \<or> length xs mod 3 = 2" by linarith
  have len: "length (sextets xs) mod 4 \<noteq> 1"
    using m3 unfolding length_sextets_mod by auto
  have "(length (sextets xs) + (3 - length xs mod 3) mod 3) mod 4 = 0"
    using m3 mod_add_left_eq [of "length (sextets xs)" 4 "(3 - length xs mod 3) mod 3"]
    unfolding length_sextets_mod by auto
  then have "\<not> ((\<not> u \<or> k > 0) \<and> (length (sextets xs) + k) mod 4 \<noteq> 0)" "\<not> 3 \<le> k"
    using pad(2) by auto
  then show ?thesis
    using len by (auto simp: base64_drop_padding_def sp nat_and_3)
qed

subsection \<open>The whole codec\<close>

lemma do_base64_decode_chars:
  "do_base64_decode_impl u s = Inr xs \<Longrightarrow> list_all (\<lambda>c. table_value u c \<noteq> 64) s"
proof -
  have g: "list_all (\<lambda>c. table_value u c \<noteq> 64) g"
    if "base64_group_value u t c g = Inr w" for g t c w
    using that by (induction g arbitrary: t c) (auto simp: Let_def split: if_splits)
  then have "list_all (\<lambda>c. table_value u c \<noteq> 64) g" if "base64_decode_group u g = Inr ys" for g ys
    using that by (auto simp: base64_decode_group_def)
  then show "do_base64_decode_impl u s = Inr xs \<Longrightarrow> list_all (\<lambda>c. table_value u c \<noteq> 64) s"
    by (induction u s arbitrary: xs rule: do_base64_decode_impl.induct) fastforce+
qed

lemma do_base64_decode_iff:
  assumes "length body mod 4 \<noteq> 1"
  shows "do_base64_decode_impl u body = Inr xs \<longleftrightarrow> body = sextet_chars u (sextets xs)"
proof
  assume l: "do_base64_decode_impl u body = Inr xs"
  obtain vs where vs: "list_all (\<lambda>v. v < 64) vs" "body = sextet_chars u vs"
    using do_base64_decode_chars [OF l] chars_are_sextets by blast
  then show "body = sextet_chars u (sextets xs)"
    using l do_base64_decode_unsextets [OF vs(1), of u xs] assms unsextets_iff [OF vs(1)] by simp
next
  assume r: "body = sextet_chars u (sextets xs)"
  then show "do_base64_decode_impl u body = Inr xs"
    using do_base64_decode_unsextets [OF sextets_bound, of xs u xs] assms unsextets_sextets by simp
qed

lemma base64_decoded_size_eq: "base64_decoded_size (length (sextets xs)) = length xs"
proof -
  define q r where "q = length xs div 3" and "r = length xs mod 3"
  have n: "length xs = 3 * q + r" "r = 0 \<or> r = 1 \<or> r = 2" unfolding q_def r_def by auto
  show ?thesis
    unfolding base64_decoded_size_def nat_and_3 length_sextets q_def [symmetric] r_def [symmetric]
    using n by auto
qed

lemma base64_decode_iff:
  "base64_decode_impl u s = Some (Inr xs) \<longleftrightarrow>
     s = sextet_chars u (sextets xs) @ base64_padding (length xs) \<or>
     u \<and> s = sextet_chars u (sextets xs)"
proof
  assume d: "base64_decode_impl u s = Some (Inr xs)"
  then obtain body ys where b: "base64_drop_padding u s = Inr body" "do_base64_decode_impl u body = Inr ys"
    by (auto simp: base64_decode_impl_def Let_def split: sum.splits)
  obtain k where k: "s = body @ replicate k (ch (CHR ''=''))" "k < 3" "length body mod 4 \<noteq> 1"
    "u \<and> k = 0 \<or> (length body + k) mod 4 = 0"
    using base64_drop_padding_ok [OF b(1)] .
  have body: "body = sextet_chars u (sextets ys)" using b(2) do_base64_decode_iff [OF k(3)] by simp
  then have "xs = ys" using d b base64_decoded_size_eq [of ys] by (simp add: base64_decode_impl_def)
  have m3: "length xs mod 3 = 0 \<or> length xs mod 3 = 1 \<or> length xs mod 3 = 2" by linarith
  have "(3 - length xs mod 3) mod 3 = k" if "(length body + k) mod 4 = 0"
  proof -
    have "(length (sextets xs) mod 4 + k) mod 4 = 0" using that body \<open>xs = ys\<close> by (simp add: mod_add_left_eq)
    then have eq: "((if length xs mod 3 = 0 then 0 else length xs mod 3 + 1) + k) mod 4 = 0"
      by (simp only: length_sextets_mod)
    have res: "(3 - r) mod 3 = j"
      if "((if r = 0 then 0 else r + 1) + j) mod 4 = 0" "r = 0 \<or> r = 1 \<or> r = 2" "j < 3" for r j :: nat
    proof -
      have "j = 0 \<or> j = 1 \<or> j = 2" using that(3) by linarith
      with that(2) show ?thesis
        using that(1) by (elim disjE) (simp_all del: One_nat_def)
    qed
    show ?thesis by (rule res) (fact eq, fact m3, fact k(2))
  qed
  then show "s = sextet_chars u (sextets xs) @ base64_padding (length xs) \<or>
     u \<and> s = sextet_chars u (sextets xs)"
    using k body \<open>xs = ys\<close> by (auto simp: base64_padding_def)
next
  assume "s = sextet_chars u (sextets xs) @ base64_padding (length xs) \<or>
     u \<and> s = sextet_chars u (sextets xs)"
  then obtain pad where pad: "pad = base64_padding (length xs) \<or> u \<and> pad = []"
    "s = sextet_chars u (sextets xs) @ pad" by auto
  have m3: "length xs mod 3 = 0 \<or> length xs mod 3 = 1 \<or> length xs mod 3 = 2" by linarith
  then have "length (sextet_chars u (sextets xs)) mod 4 \<noteq> 1"
    using length_sextets_mod [of xs] by auto
  then have "do_base64_decode_impl u (sextet_chars u (sextets xs)) = Inr xs"
    using do_base64_decode_iff by blast
  then show "base64_decode_impl u s = Some (Inr xs)"
    using base64_drop_padding_canonical [OF sextets_bound pad(1)] pad(2) base64_decoded_size_eq [of xs]
    by (simp add: base64_decode_impl_def)
qed

lemma base64_decode_total: "base64_decode_impl u s \<noteq> None"
proof (cases "base64_drop_padding u s")
  case (Inr body)
  obtain k where k: "length body mod 4 \<noteq> 1" using base64_drop_padding_ok [OF Inr] by metis
  then show ?thesis
    using Inr do_base64_decode_iff [OF k, of u] base64_decoded_size_eq
    by (auto simp: base64_decode_impl_def Let_def split: sum.splits)
qed (simp add: base64_decode_impl_def)

text \<open>The validator, which only looks at the last value of the last group.\<close>

lemma and_low_bits: "v < 64 \<Longrightarrow> (word_of_nat v :: byte) AND 15 = 0 \<longleftrightarrow> v mod 16 = 0"
  "v < 64 \<Longrightarrow> (word_of_nat v :: byte) AND 3 = 0 \<longleftrightarrow> v mod 4 = 0"
proof -
  assume v: "v < 64"
  have u: "unat (word_of_nat v :: byte) = v" using v by (subst unat_of_nat) simp
  show "(word_of_nat v :: byte) AND 15 = 0 \<longleftrightarrow> v mod 16 = 0"
    using unat_and_mask [of "word_of_nat v :: byte" 4] u by (simp add: mask_eq_exp_minus_1 word_unat_eq_iff)
  show "(word_of_nat v :: byte) AND 3 = 0 \<longleftrightarrow> v mod 4 = 0"
    using unat_and_mask [of "word_of_nat v :: byte" 2] u by (simp add: mask_eq_exp_minus_1 word_unat_eq_iff)
qed

lemma unsextets_is_Some:
  "length vs mod 4 \<noteq> 1 \<Longrightarrow> (\<exists>xs. unsextets vs = Some xs) \<longleftrightarrow>
     (length vs mod 4 = 2 \<longrightarrow> last vs mod 16 = 0) \<and> (length vs mod 4 = 3 \<longrightarrow> last vs mod 4 = 0)"
proof (induction vs rule: unsextets.induct)
  case (5 a b c d rest)
  have len: "length (a # b # c # d # rest) mod 4 = length rest mod 4" by simp
  have IH: "(\<exists>xs. unsextets rest = Some xs) \<longleftrightarrow>
     (length rest mod 4 = 2 \<longrightarrow> last rest mod 16 = 0) \<and> (length rest mod 4 = 3 \<longrightarrow> last rest mod 4 = 0)"
    using 5 unfolding len by simp
  have "(\<exists>xs. unsextets (a # b # c # d # rest) = Some xs) \<longleftrightarrow> (\<exists>xs. unsextets rest = Some xs)"
    by auto
  then show ?case
    unfolding len IH by (cases "rest = []") simp_all
qed auto

lemma table_value_last:
  "list_all (\<lambda>v. v < 64) vs \<Longrightarrow> vs \<noteq> [] \<Longrightarrow>
     table_value u (last (sextet_chars u vs)) = word_of_nat (last vs) \<and> last vs < 64"
  using table_value_nth [of "last vs" u]
  by (simp add: sextet_chars_def last_map list_all_iff)

lemma last_group_ok:
  assumes "list_all (\<lambda>v. v < 64) vs" "length vs mod 4 \<noteq> 1"
  shows "\<not> (length vs mod 4 = 2 \<and> table_value u (last (sextet_chars u vs)) AND 15 \<noteq> 0) \<and>
    \<not> (length vs mod 4 = 3 \<and> table_value u (last (sextet_chars u vs)) AND 3 \<noteq> 0) \<longleftrightarrow>
    (\<exists>xs. unsextets vs = Some xs)"
proof (cases "vs = []")
  case False
  then show ?thesis
    using table_value_last [OF assms(1) False, of u] and_low_bits [of "last vs"]
    unfolding unsextets_is_Some [OF assms(2)] by metis
qed simp

lemma is_base64_iff:
  "is_base64_impl u s \<longleftrightarrow> (\<exists>xs. base64_decode_impl u s = Some (Inr xs))"
proof -
  obtain b m where bm: "strip_padding s 0 = (b, m)" by fastforce
  have drop: "is_base64_impl u s \<longleftrightarrow> (\<exists>body. base64_drop_padding u s = Inr body \<and>
      list_all (\<lambda>c. table_value u c \<noteq> 64) body \<and>
      \<not> (length body mod 4 = 2 \<and> table_value u (last body) AND 15 \<noteq> 0) \<and>
      \<not> (length body mod 4 = 3 \<and> table_value u (last body) AND 3 \<noteq> 0))"
    by (simp add: is_base64_impl_def base64_drop_padding_def bm nat_and_3)
  have "list_all (\<lambda>c. table_value u c \<noteq> 64) body \<and>
      \<not> (length body mod 4 = 2 \<and> table_value u (last body) AND 15 \<noteq> 0) \<and>
      \<not> (length body mod 4 = 3 \<and> table_value u (last body) AND 3 \<noteq> 0) \<longleftrightarrow>
      (\<exists>xs. do_base64_decode_impl u body = Inr xs)"
    if "length body mod 4 \<noteq> 1" for body
  proof
    assume l: "list_all (\<lambda>c. table_value u c \<noteq> 64) body \<and>
      \<not> (length body mod 4 = 2 \<and> table_value u (last body) AND 15 \<noteq> 0) \<and>
      \<not> (length body mod 4 = 3 \<and> table_value u (last body) AND 3 \<noteq> 0)"
    then obtain vs where vs: "list_all (\<lambda>v. v < 64) vs" "body = sextet_chars u vs"
      using chars_are_sextets by blast
    then have "\<exists>xs. unsextets vs = Some xs"
      using l last_group_ok [OF vs(1), of u] that by simp
    then show "\<exists>xs. do_base64_decode_impl u body = Inr xs"
      using do_base64_decode_unsextets [OF vs(1), of u] that vs(2) by simp
  next
    assume "\<exists>xs. do_base64_decode_impl u body = Inr xs"
    then obtain xs where xs: "do_base64_decode_impl u body = Inr xs" ..
    then have b: "body = sextet_chars u (sextets xs)" using do_base64_decode_iff [OF that] by blast
    then have "\<exists>ys. unsextets (sextets xs) = Some ys" by (simp add: unsextets_sextets)
    then show "list_all (\<lambda>c. table_value u c \<noteq> 64) body \<and>
      \<not> (length body mod 4 = 2 \<and> table_value u (last body) AND 15 \<noteq> 0) \<and>
      \<not> (length body mod 4 = 3 \<and> table_value u (last body) AND 3 \<noteq> 0)"
      using do_base64_decode_chars [OF xs] last_group_ok [OF sextets_bound, of xs u] that b by simp
  qed
  moreover have "length body mod 4 \<noteq> 1" if "base64_drop_padding u s = Inr body" for body
    using base64_drop_padding_ok [OF that] by metis
  moreover have "(\<exists>xs. base64_decode_impl u s = Some (Inr xs)) \<longleftrightarrow>
      (\<exists>body xs. base64_drop_padding u s = Inr body \<and> do_base64_decode_impl u body = Inr xs)"
    using base64_decode_total [of u s]
    by (auto simp: base64_decode_impl_def Let_def check_def split: sum.splits if_splits)
  ultimately show ?thesis unfolding drop by blast
qed

subsection \<open>Base32 as bit streams\<close>

definition bits_of :: "nat \<Rightarrow> 'a :: len word \<Rightarrow> bool list" where
  "bits_of n w = map (bit w) (rev [0..<n])"

definition bits5 :: "nat \<Rightarrow> bool list" where
  "bits5 v = map (bit v) (rev [0..<5])"

lemma length_bits [simp]: "length (bits_of n w) = n" "length (bits5 v) = 5"
  by (simp_all add: bits_of_def bits5_def)

lemma rev_upt_add: "rev [0..<m + k] = map (\<lambda>i. i + k) (rev [0..<m]) @ rev [0..<k]"
proof -
  have "[0..<m + k] = [0..<k] @ map (\<lambda>i. i + k) [0..<m]"
    by (metis add.commute map_add_upt upt_add_eq_append le0 add_0)
  then show ?thesis by (simp add: rev_map)
qed

lemma bits_of_push:
  assumes "m + k \<le> LENGTH('a)" "\<And>i. bit (b :: 'a :: len word) i \<Longrightarrow> i < k"
  shows "bits_of (m + k) (push_bit k c OR b) = bits_of m c @ bits_of k b"
proof -
  have "bit (push_bit k c OR b) (i + k) = bit c i" if "i < m" for i
    using that assms by (auto simp: bit_simps)
  moreover have "bit (push_bit k c OR b) i = bit b i" if "i < k" for i
    using that assms by (auto simp: bit_simps)
  ultimately show ?thesis
    by (simp add: bits_of_def rev_upt_add)
qed

lemma bits_of_drop:
  "bits_of (n + 5) c = bits5 (unat (drop_bit n c AND 31)) @ bits_of n c"
  "bits_of (n + 8) c = bits_of 8 (drop_bit n c AND 255) @ bits_of n c"
proof -
  have m: "31 = (mask 5 :: 'a word)" "255 = (mask 8 :: 'a word)" by (simp_all add: mask_eq_exp_minus_1)
  have 5: "bit (unat (drop_bit n c AND 31)) i = bit c (i + n)" if "i < 5" for i
    using that bit_imp_le_length [of c "i + n"] unfolding m by (auto simp: bit_simps add.commute)
  have 8: "bit (drop_bit n c AND 255) i = bit c (i + n)" if "i < 8" for i
    using that bit_imp_le_length [of c "i + n"] unfolding m by (auto simp: bit_simps add.commute)
  show "bits_of (n + 5) c = bits5 (unat (drop_bit n c AND 31)) @ bits_of n c"
    using 5 unfolding bits_of_def bits5_def add.commute [of n] rev_upt_add by simp
  show "bits_of (n + 8) c = bits_of 8 (drop_bit n c AND 255) @ bits_of n c"
    using 8 unfolding bits_of_def add.commute [of n] rev_upt_add by simp
qed

lemma bits_of_8_inject: "bits_of 8 a = bits_of 8 b \<longleftrightarrow> a = (b :: byte)"
proof
  assume "bits_of 8 a = bits_of 8 b"
  then have "\<forall>i\<in>set (rev [0..<8]). bit a i = bit b i"
    unfolding bits_of_def map_eq_conv .
  then show "a = b" by (intro bit_word_eqI) auto
qed simp

lemma bits_of_u32: "bits_of 8 (u32_of b) = bits_of 8 b"
  unfolding bits_of_def by (rule map_cong) (auto simp: bit_simps)

lemma bits_of_byte: "bits_of 8 (byte_of w) = bits_of 8 w"
  unfolding bits_of_def by (rule map_cong) (auto simp: bit_simps)

lemma bits_of_value:
  "v < 32 \<Longrightarrow> bits_of 5 (u32_of (word_of_nat v)) = bits5 v"
  unfolding bits_of_def bits5_def
  by (rule map_cong) (auto simp: bit_simps)

lemma base32_char_codes:
  "\<forall>i<32. unat (get_base32_characters False ! i) = (if i < 26 then 97 + i else 24 + i)"
  "\<forall>i<32. unat (get_base32_characters True ! i) = (if i < 26 then 65 + i else 24 + i)"
  unfolding all_less_upt by code_simp+

lemma base32_table_fold:
  "n \<le> 32 \<Longrightarrow> let t = fold (\<lambda>i table. table[unat (get_base32_characters False ! i) := word_of_nat i,
       unat (get_base32_characters True ! i) := word_of_nat i]) [0..<n] (replicate 256 (32 :: byte)) in
     length t = 256 \<and>
     (\<forall>i<n. t ! unat (get_base32_characters False ! i) = word_of_nat i \<and>
            t ! unat (get_base32_characters True ! i) = word_of_nat i)"
proof (induction n)
  case (Suc n)
  note codes = base32_char_codes [rule_format]
  have ne: "unat (get_base32_characters a ! i) \<noteq> unat (get_base32_characters b ! n)" if "i < n" for i a b
    using that Suc.prems codes [of i] codes [of n] by (cases a; cases b) auto
  show ?case
    using Suc ne unat_byte_less [of "get_base32_characters False ! n"]
      unat_byte_less [of "get_base32_characters True ! n"]
    by (auto simp: Let_def nth_list_update less_Suc_eq) metis+
qed simp

lemma base32_table_nth:
  assumes "i < 32"
  shows "get_base32_character_table ! unat (get_base32_characters upper_case ! i) = word_of_nat i"
  using base32_table_fold [OF order_refl, unfolded Let_def, THEN conjunct2, rule_format, OF assms]
  unfolding get_base32_character_table_def by (cases upper_case) (simp_all del: upt.simps)

lemma base32_encode_emit_spec:
  assumes "base32_encode_emit chars c len = (out, n)"
  shows "\<exists>vs. list_all (\<lambda>v. v < 32) vs \<and> out = map (\<lambda>v. chars ! v) vs \<and> n < 5 \<and>
    bits_of len c = concat (map bits5 vs) @ bits_of n c"
  using assms
proof (induction chars c len arbitrary: out n rule: base32_encode_emit.induct)
  case (1 chars c len)
  show ?case
  proof (cases "len \<ge> 5")
    case True
    obtain o' where o': "base32_encode_emit chars c (len - 5) = (o', n)"
      "out = chars ! unat (drop_bit (len - 5) c AND 31) # o'"
      using 1(2) True by (subst (asm) base32_encode_emit.simps) (auto split: prod.splits)
    obtain vs where vs: "list_all (\<lambda>v. v < 32) vs" "o' = map (\<lambda>v. chars ! v) vs" "n < 5"
      "bits_of (len - 5) c = concat (map bits5 vs) @ bits_of n c"
      using 1(1) [OF True o'(1)] by blast
    have "unat (drop_bit (len - 5) c AND 31) < 32"
      using unat_and_mask [of "drop_bit (len - 5) c" 5] by (simp add: mask_eq_exp_minus_1)
    moreover have "bits_of len c = bits5 (unat (drop_bit (len - 5) c AND 31)) @ bits_of (len - 5) c"
      using bits_of_drop(1) [of "len - 5" c] True by simp
    ultimately show ?thesis
      using vs o'(2) by (intro exI [of _ "unat (drop_bit (len - 5) c AND 31) # vs"]) simp
  next
    case False
    then have "out = []" "n = len" using 1(2) by (simp_all add: base32_encode_emit.simps [of chars])
    then show ?thesis using False by (intro exI [of _ "[]"]) simp
  qed
qed

lemma base32_encode_loop_spec:
  "len < 5 \<Longrightarrow> \<exists>vs z. list_all (\<lambda>v. v < 32) vs \<and> z < 5 \<and>
     base32_encode_loop chars c len xs = map (\<lambda>v. chars ! v) vs \<and>
     concat (map bits5 vs) = bits_of len c @ concat (map (bits_of 8) xs) @ replicate z False"
proof (induction xs arbitrary: c len)
  case Nil
  show ?case
  proof (cases "len = 0")
    case True
    then show ?thesis by (intro exI [of _ "[]"] exI [of _ 0]) (simp add: bits_of_def)
  next
    case False
    let ?w = "push_bit (5 - len) c AND 31 :: u32"
    have m: "31 = (mask 5 :: u32)" by (simp add: mask_eq_exp_minus_1)
    have "unat ?w < 32"
      using unat_and_mask [of "push_bit (5 - len) c" 5] by (simp add: mask_eq_exp_minus_1)
    moreover have "bits5 (unat ?w) = bits_of len c @ replicate (5 - len) False"
    proof -
      have "bits5 (unat ?w) = bits_of (len + (5 - len)) (push_bit (5 - len) c OR 0 :: u32)"
        using Nil unfolding bits5_def bits_of_def m by (auto simp: bit_simps)
      also have "\<dots> = bits_of len c @ bits_of (5 - len) (0 :: u32)"
        using Nil by (intro bits_of_push) auto
      also have "bits_of k (0 :: u32) = replicate k False" for k
        by (induction k) (simp_all add: bits_of_def)
      finally show ?thesis .
    qed
    ultimately show ?thesis
      using False Nil by (intro exI [of _ "[unat ?w]"] exI [of _ "5 - len"]) simp
  qed
next
  case (Cons x xs)
  let ?c = "push_bit 8 c OR u32_of x"
  obtain out n where on: "base32_encode_emit chars ?c (len + 8) = (out, n)" by fastforce
  obtain us where us: "list_all (\<lambda>v. v < 32) us" "out = map (\<lambda>v. chars ! v) us" "n < 5"
    "bits_of (len + 8) ?c = concat (map bits5 us) @ bits_of n ?c"
    using base32_encode_emit_spec [OF on] by blast
  have push: "bits_of (len + 8) ?c = bits_of len c @ bits_of 8 x"
    using Cons.prems bits_of_u32 [of x]
    by (subst bits_of_push) (auto simp: bit_simps dest: bit_imp_le_length)
  obtain vs z where vs: "list_all (\<lambda>v. v < 32) vs" "z < 5"
    "base32_encode_loop chars ?c n xs = map (\<lambda>v. chars ! v) vs"
    "concat (map bits5 vs) = bits_of n ?c @ concat (map (bits_of 8) xs) @ replicate z False"
    using Cons.IH [OF us(3), of ?c] by blast
  show ?case
    using us vs on push by (intro exI [of _ "us @ vs"] exI [of _ z]) (simp add: Let_def)
qed

lemma base32_decode_loop_spec:
  assumes "len < 8" "list_all (\<lambda>v. v < 32) vs" "z < 8"
    "bits_of len c @ concat (map bits5 vs) = concat (map (bits_of 8) xs) @ replicate z False"
  shows "base32_decode_loop c len (map (\<lambda>v. get_base32_characters upper_case ! v) vs) = Inr xs"
  using assms
proof (induction vs arbitrary: c len xs)
  case Nil
  have "len = 8 * length xs + z"
    using arg_cong [OF Nil(4), of length] by (simp add: length_concat o_def sum_list_triv)
  moreover from this have "xs = []" using Nil(1) by (cases xs) auto
  ultimately have zero: "bits_of len c = replicate len False" and "xs = []" using Nil(4) by simp_all
  moreover have "c AND mask len = 0"
  proof (rule bit_word_eqI)
    fix i assume "i < LENGTH(32)"
    have "\<not> bit c i" if "i < len"
    proof -
      have "bit c i \<in> set (bits_of len c)" using that by (auto simp: bits_of_def)
      then show ?thesis using zero by (metis in_set_replicate)
    qed
    then show "bit (c AND mask len) i = bit (0 :: u32) i" by (auto simp: bit_simps)
  qed
  moreover have "push_bit len 1 - 1 = (mask len :: u32)"
    by (simp add: mask_eq_exp_minus_1 push_bit_eq_mult)
  ultimately show ?case by simp
next
  case (Cons v vs)
  have v: "v < 32" using Cons.prems(2) by simp
  let ?c = "push_bit 5 c OR u32_of (word_of_nat v)"
  have ok: "(word_of_nat v :: byte) \<noteq> 32"
  proof
    assume "(word_of_nat v :: byte) = 32"
    then have "unat (word_of_nat v :: byte) = 32" by simp
    then show False using v by (subst (asm) unat_of_nat) simp
  qed
  have "take_bit 5 v = v" using v by (simp add: take_bit_nat_eq_self)
  then have low: "bit v i \<Longrightarrow> i < 5" for i by (metis bit_take_bit_iff)
  have push: "bits_of (len + 5) ?c = bits_of len c @ bits5 v"
    using Cons.prems(1) bits_of_value [OF v]
    by (subst bits_of_push) (auto simp: bit_simps dest: low)
  show ?case
  proof (cases "len + 5 \<ge> 8")
    case True
    let ?n = "len + 5 - 8"
    have "bits_of (?n + 8) ?c @ concat (map bits5 vs) =
        concat (map (bits_of 8) xs) @ replicate z False"
      using Cons.prems(4) push True by (simp add: add.commute [of 5])
    then have all: "bits_of 8 (byte_of (drop_bit ?n ?c AND 255)) @ bits_of ?n ?c @ concat (map bits5 vs) =
        concat (map (bits_of 8) xs) @ replicate z False"
      by (simp only: bits_of_drop(2) [of ?n ?c] bits_of_byte append_assoc)
    have "8 \<le> 8 * length xs + z"
      using arg_cong [OF all, of length] by (simp add: length_concat o_def sum_list_triv)
    then obtain y ys where xs: "xs = y # ys" using Cons.prems(3) by (cases xs) auto
    then have "byte_of (drop_bit ?n ?c AND 255) = y"
      "bits_of ?n ?c @ concat (map bits5 vs) = concat (map (bits_of 8) ys) @ replicate z False"
      using all by (simp_all add: bits_of_8_inject)
    then show ?thesis
      using Cons.IH [of ?n ?c ys] Cons.prems ok v xs True
      by (simp add: base32_table_nth Let_def)
  next
    case False
    then show ?thesis
      using Cons.IH [of "len + 5" ?c xs] Cons.prems ok v push
      by (simp add: base32_table_nth Let_def)
  qed
qed

subsection \<open>Properties\<close>

lemma base64_decode_encode:
  "base64_decode_impl u (base64_encode_impl u xs) = Some (Inr xs)"
  unfolding base64_encode_eq base64_decode_iff by auto

definition base64_decode :: "bytes \<Rightarrow> bytes result" where
  "base64_decode s = the (base64_decode_impl False s)"

definition base64url_decode :: "bytes \<Rightarrow> bytes result" where
  "base64url_decode s = the (base64_decode_impl True s)"

interpretation b64: codec "base64_encode_impl False" base64_decode
  by unfold_locales (simp add: base64_decode_def base64_decode_encode)

interpretation b64url: codec "base64_encode_impl True" base64url_decode
  by unfold_locales (simp add: base64url_decode_def base64_decode_encode)

lemma base32_encode_spec:
  "\<exists>vs z. list_all (\<lambda>v. v < 32) vs \<and> z < 5 \<and>
     base32_encode s upper_case = map (\<lambda>v. get_base32_characters upper_case ! v) vs \<and>
     concat (map bits5 vs) = concat (map (bits_of 8) s) @ replicate z False"
  using base32_encode_loop_spec [of 0 "get_base32_characters upper_case" 0 s]
  by (simp add: base32_encode_def bits_of_def)

lemma base32_decode_encode: "base32_decode (base32_encode s upper_case) = Inr s"
proof -
  obtain vs z where vs: "list_all (\<lambda>v. v < 32) vs" "z < 5"
    "base32_encode s upper_case = map (\<lambda>v. get_base32_characters upper_case ! v) vs"
    "concat (map bits5 vs) = concat (map (bits_of 8) s) @ replicate z False"
    using base32_encode_spec by blast
  then show ?thesis
    using base32_decode_loop_spec [of 0 vs z 0 s upper_case]
    by (simp add: base32_decode_def bits_of_def)
qed

interpretation b32: codec "\<lambda>s. base32_encode s upper_case" base32_decode
  by unfold_locales (rule base32_decode_encode)

text \<open>C30: the base64 decoders never write past the string they allocate, and they accept exactly
  the encoder's output; the URL variant also accepts it with the canonical padding.  So every other
  padding, a non-zero unused bit, or a character outside the alphabet is an error.\<close>
theorem base64_decode_exact:
  "base64_decode_impl u s \<noteq> None \<and>
   (base64_decode_impl u s = Some (Inr d) \<longleftrightarrow> s = base64_encode_impl u d \<or>
     u \<and> s = base64_encode_impl u d @ replicate ((3 - length d mod 3) mod 3) (ch (CHR ''='')))"
  unfolding base64_decode_iff base64_encode_eq base64_padding_def
  using base64_decode_total [of u s] by auto

text \<open>The validators accept exactly the strings the decoders accept.\<close>
theorem is_base64_decodable:
  "is_base64_impl u s \<longleftrightarrow> (\<exists>d. base64_decode_impl u s = Some (Inr d))"
  by (rule is_base64_iff)

text \<open>Base32, where the encoder's 32-bit accumulator overflows and only its low bits count: in
  either letter case the encoding has one character per started group of five bits and decodes to
  the bytes it came from.\<close>
theorem base32_roundtrip:
  "base32_decode (base32_encode s upper_case) = Inr s \<and>
   length (base32_encode s upper_case) = (8 * length s + 4) div 5 \<and>
   (base32_encode s upper_case = base32_encode t upper_case \<longleftrightarrow> s = t)"
proof -
  obtain vs z where vs: "z < 5" "base32_encode s upper_case = map (\<lambda>v. get_base32_characters upper_case ! v) vs"
    "concat (map bits5 vs) = concat (map (bits_of 8) s) @ replicate z False"
    using base32_encode_spec by blast
  have "5 * length vs = 8 * length s + z"
    using arg_cong [OF vs(3), of length] by (simp add: length_concat o_def sum_list_triv)
  then have "length (base32_encode s upper_case) = (8 * length s + 4) div 5"
    using vs(1,2) by simp
  then show ?thesis using base32_decode_encode b32.enc_inject by blast
qed

end
