(* ===== verification/Td_Bitmask.thy ===== *)
theory Td_Bitmask
  imports Td_Codec
begin

text \<open>
  The bitmask of ready file parts: \<open>td/telegram/files/FileBitmask.cpp\<close>.

  The mask is a byte string, eight parts to a byte; part numbers are \<open>int64\<close>, kept as \<open>int\<close>
  because they stay far below the limit.  \<open>None\<close> is a failed \<open>CHECK\<close>, a failed narrowing cast, an
  access outside the string, or a loop that does not end.
\<close>

unbundle bit_operations_syntax

subsection \<open>The operations\<close>

definition bitmask_size :: "bytes \<Rightarrow> int" where
  "bitmask_size d = int (length d) * 8"

definition bitmask_get :: "bytes \<Rightarrow> int \<Rightarrow> bool" where
  "bitmask_get d offset_part =
     (if offset_part < 0 then False
      else let index = nat (offset_part div 8) in
        if index \<ge> length d then False
        else d ! index AND push_bit (nat (offset_part mod 8)) 1 \<noteq> 0)"

definition bitmask_set :: "bytes \<Rightarrow> int \<Rightarrow> bytes option" where
  "bitmask_set d offset_part =
     do { check (offset_part \<ge> 0);
          let need_size = nat (offset_part div 8 + 1);
          let d = (if need_size > length d then d @ replicate (need_size - length d) 0 else d);
          Some (d[need_size - 1 := d ! (need_size - 1) OR push_bit (nat (offset_part mod 8)) 1]) }"

fun bitmask_set_all :: "bytes \<Rightarrow> int list \<Rightarrow> bytes option" where
  "bitmask_set_all d [] = Some d"
| "bitmask_set_all d (i # is) = do { d \<leftarrow> bitmask_set d i; bitmask_set_all d is }"

definition bitmask_decode :: "bytes \<Rightarrow> bytes" where
  "bitmask_decode data = zero_one_decode data"

definition bitmask_ones :: "nat \<Rightarrow> bytes option" where
  "bitmask_ones count = bitmask_set_all (replicate ((count + 7) div 8) 0) (map int [0..<count])"

text \<open>
  \<open>encode\<close> masks the byte the prefix ends in, trims zeros, encodes, and restores the byte.  The
  byte may be the terminator right behind the string, which is zero and is written back as zero.
\<close>

definition bitmask_encode :: "bytes \<Rightarrow> int \<Rightarrow> bytes option" where
  "bitmask_encode d prefix_count =
     do { data \<leftarrow>
            (if prefix_count \<noteq> -1 then
               let truncated_size = nat ((prefix_count + 7) div 8) in
               if prefix_count mod 8 \<noteq> 0 then
                 let save_i = truncated_size - 1;
                     m = drop_bit (8 - nat (prefix_count mod 8)) 0xff in
                 do { check (save_i \<le> length d);
                      Some (take truncated_size
                        (if save_i < length d then d[save_i := d ! save_i AND m] else d)) }
               else Some (take truncated_size d)
             else Some d);
          Some (zero_one_encode (remove_suffix_while (\<lambda>c. c = 0) data)) }"

function bitmask_ready_parts_loop :: "bytes \<Rightarrow> int \<Rightarrow> int \<Rightarrow> int" where
  "bitmask_ready_parts_loop d offset_part res =
     (if bitmask_get d (offset_part + res) then bitmask_ready_parts_loop d offset_part (res + 1)
      else res)"
  by pat_completeness auto
termination
  by (relation "measure (\<lambda>(d, off, res). nat (int (length d) * 8 - (off + res)))")
     (auto simp: bitmask_get_def Let_def split: if_splits)

declare bitmask_ready_parts_loop.simps [simp del]

definition bitmask_get_ready_parts :: "bytes \<Rightarrow> int \<Rightarrow> int" where
  "bitmask_get_ready_parts d offset_part = bitmask_ready_parts_loop d offset_part 0"

definition bitmask_get_ready_prefix_size :: "bytes \<Rightarrow> int \<Rightarrow> int \<Rightarrow> int \<Rightarrow> int option" where
  "bitmask_get_ready_prefix_size d offset part_size file_size =
     (if offset < 0 then Some 0
      else if part_size = 0 then Some 0
      else do { check (part_size > 0);
        let offset_part = offset div part_size;
        let ones = bitmask_get_ready_parts d offset_part;
        if ones = 0 then Some 0
        else do {
          let ready_parts_end = (offset_part + ones) * part_size;
          let (ready_parts_end, offset) =
            (if file_size \<noteq> 0 \<and> ready_parts_end > file_size
             then (file_size, if offset > file_size then file_size else offset)
             else (ready_parts_end, offset));
          let res = ready_parts_end - offset;
          check (res \<ge> 0);
          Some res } })"

definition bitmask_get_total_size :: "bytes \<Rightarrow> int \<Rightarrow> int \<Rightarrow> int" where
  "bitmask_get_total_size d part_size file_size =
     (\<Sum>i\<leftarrow>map int [0..<8 * length d].
        if bitmask_get d i then
          let from' = i * part_size;
              to' = from' + part_size;
              to' = (if file_size \<noteq> 0 \<and> file_size < to' then file_size else to')
          in if from' < to' then to' - from' else 0
        else 0)"

definition bitmask_as_vector :: "bytes \<Rightarrow> int list option" where
  "bitmask_as_vector d =
     do { n \<leftarrow> narrow_cast_int32 (int (length d * 8));
          Some (filter (bitmask_get d) (map int [0..<nat n])) }"

definition bitmask_compress :: "bytes \<Rightarrow> nat \<Rightarrow> bytes option" where
  "bitmask_compress d k =
     (if k = 0 then (if d = [] then Some [] else None)
      else bitmask_set_all []
        (filter (\<lambda>i. list_all (\<lambda>j. bitmask_get d (i * int k + j)) (map int [0..<k]))
          (map int [0..<(8 * length d + k - 1) div k])))"


subsection \<open>The mask as a set of part numbers\<close>

definition bit_at :: "bytes \<Rightarrow> nat \<Rightarrow> bool" where
  "bit_at d n \<longleftrightarrow> n div 8 < length d \<and> bit (d ! (n div 8)) (n mod 8)"

lemma bitmask_get_iff: "bitmask_get d i \<longleftrightarrow> 0 \<le> i \<and> bit_at d (nat i)"
proof (cases "0 \<le> i")
  case True
  then obtain n where "i = int n" using zero_le_imp_eq_int by blast
  moreover have "nat (int n div 8) = n div 8" "nat (int n mod 8) = n mod 8"
    by (simp_all add: nat_div_distrib nat_mod_distrib)
  ultimately show ?thesis
    by (simp add: bitmask_get_def bit_at_def Let_def bit_iff_and_push_bit_not_eq_0)
qed (simp add: bitmask_get_def)

lemma bit_at_index: "k < length d \<Longrightarrow> m < 8 \<Longrightarrow> bit_at d (8 * k + m) \<longleftrightarrow> bit (d ! k) m"
  by (simp add: bit_at_def)

lemma bit_at_append_zeros: "bit_at (d @ replicate n 0) i \<longleftrightarrow> bit_at d i"
  by (auto simp: bit_at_def nth_append)

lemma bitmask_set_spec:
  assumes "0 \<le> i"
  shows "\<exists>d'. bitmask_set d i = Some d' \<and> (\<forall>j. bitmask_get d' j \<longleftrightarrow> j = i \<or> bitmask_get d j) \<and>
    length d \<le> length d'"
proof -
  obtain n where n: "i = int n" using assms zero_le_imp_eq_int by blast
  let ?k = "n div 8" and ?m = "n mod 8"
  have nat: "nat (int n div 8 + 1) = ?k + 1" "nat (int n mod 8) = ?m"
    by (simp_all add: nat_div_distrib nat_mod_distrib nat_add_distrib)
  define e where "e = (if ?k + 1 > length d then d @ replicate (?k + 1 - length d) 0 else d)"
  have e: "?k < length e" "length d \<le> length e" "bit_at e j \<longleftrightarrow> bit_at d j" for j
    by (auto simp: e_def bit_at_append_zeros)
  define d' where "d' = e[?k := e ! ?k OR push_bit ?m 1]"
  have set: "bitmask_set d i = Some d'"
    using n by (simp add: bitmask_set_def nat d'_def e_def Let_def)
  have m8: "?m < 8" by simp
  have "bit_at d' j \<longleftrightarrow> j = n \<or> bit_at e j" for j
  proof (cases "j div 8 = ?k")
    case True
    have "j mod 8 < 8" by simp
    then have "bit (d' ! ?k) (j mod 8) \<longleftrightarrow> bit (e ! ?k) (j mod 8) \<or> j mod 8 = ?m"
      using e(1) m8 by (auto simp: d'_def bit_simps)
    moreover have "j mod 8 = ?m \<longleftrightarrow> j = n" using True by (metis mult_div_mod_eq)
    ultimately show ?thesis using True e(1) by (auto simp: bit_at_def d'_def)
  next
    case False
    then show ?thesis using e(1) by (auto simp: bit_at_def d'_def)
  qed
  then have "bitmask_get d' j \<longleftrightarrow> j = i \<or> bitmask_get d j" for j
    using e(3) n by (auto simp: bitmask_get_iff)
  then show ?thesis using set e(2) by (auto simp: d'_def)
qed

text \<open>
  The contract the users of the mask rely on: membership after insertion.
\<close>

locale part_set =
  fixes member :: "'s \<Rightarrow> int \<Rightarrow> bool" and insert_part :: "'s \<Rightarrow> int \<Rightarrow> 's option"
    and insert_all :: "'s \<Rightarrow> int list \<Rightarrow> 's option"
  assumes insert_part: "0 \<le> i \<Longrightarrow>
      \<exists>s'. insert_part s i = Some s' \<and> (\<forall>j. member s' j \<longleftrightarrow> j = i \<or> member s j)"
    and insert_all_Nil: "insert_all s [] = Some s"
    and insert_all_Cons: "insert_all s (i # is) = do { s \<leftarrow> insert_part s i; insert_all s is }"
begin

lemma member_insert: "insert_part s i = Some s' \<Longrightarrow> 0 \<le> i \<Longrightarrow> member s' j \<longleftrightarrow> j = i \<or> member s j"
  using insert_part [of i s] by auto

lemma insert_all_spec:
  "\<forall>i\<in>set is. 0 \<le> i \<Longrightarrow>
     \<exists>s'. insert_all s is = Some s' \<and> (\<forall>j. member s' j \<longleftrightarrow> j \<in> set is \<or> member s j)"
proof (induction "is" arbitrary: s)
  case Nil
  then show ?case by (simp add: insert_all_Nil)
next
  case (Cons i "is")
  then obtain s1 where s1: "insert_part s i = Some s1" "\<forall>j. member s1 j \<longleftrightarrow> j = i \<or> member s j"
    using insert_part [of i s] by auto
  obtain s2 where "insert_all s1 is = Some s2" "\<forall>j. member s2 j \<longleftrightarrow> j \<in> set is \<or> member s1 j"
    using Cons.IH [of s1] Cons.prems by auto
  then show ?case using s1 by (auto simp: insert_all_Cons)
qed

end

interpretation bm: part_set bitmask_get bitmask_set bitmask_set_all
  by unfold_locales (use bitmask_set_spec in blast, simp_all)

lemma bit_at_strip: "bit_at (remove_suffix_while (\<lambda>c. c = 0) d) n \<longleftrightarrow> bit_at d n"
proof -
  obtain t where t: "d = remove_suffix_while (\<lambda>c. c = 0) d @ t" "\<forall>c\<in>set t. c = 0"
    using remove_suffix_while_append [of d "\<lambda>c. c = 0"] by blast
  from t(2) have "t = replicate (length t) 0" by (simp add: replicate_length_same)
  then show ?thesis using t(1) bit_at_append_zeros by metis
qed

lemma stripped_unique:
  assumes "\<And>n. bit_at d n \<longleftrightarrow> bit_at e n" "d = [] \<or> last d \<noteq> 0" "e = [] \<or> last e \<noteq> 0"
  shows "d = e"
proof -
  have shorter: "length y \<le> length x"
    if eq: "\<And>n. bit_at x n \<longleftrightarrow> bit_at y n" and last: "y = [] \<or> last y \<noteq> 0" for x y :: bytes
  proof (rule ccontr)
    assume "\<not> length y \<le> length x"
    then have lt: "length x \<le> length y - 1" "y \<noteq> []" by auto
    then have "y ! (length y - 1) \<noteq> 0" using last by (simp add: last_conv_nth)
    then obtain m where m: "bit (y ! (length y - 1)) m" using bit_eq_iff [of "y ! (length y - 1)" 0] by auto
    then have "m < 8" using bit_imp_le_length [of "y ! (length y - 1)" m] by simp
    moreover have "length y - 1 < length y" using lt(2) by simp
    ultimately have "bit_at y (8 * (length y - 1) + m)" using m bit_at_index by blast
    then have "bit_at x (8 * (length y - 1) + m)" using eq by blast
    then show False using lt(1) \<open>m < 8\<close> by (simp add: bit_at_def)
  qed
  then have len: "length d = length e"
    using shorter [of d e, OF assms(1,3)] shorter [of e d, OF assms(1) [symmetric] assms(2)] by simp
  show ?thesis
  proof (rule nth_equalityI [OF len])
    fix k assume k: "k < length d"
    show "d ! k = e ! k"
    proof (rule bit_word_eqI)
      fix m assume "m < LENGTH(8)"
      then have "m < 8" by simp
      then show "bit (d ! k) m = bit (e ! k) m"
        using bit_at_index k len assms(1) by metis
    qed
  qed
qed

subsection \<open>Encoding\<close>

lemma low_bits_mask: "0 < k \<Longrightarrow> k < 8 \<Longrightarrow> bit (drop_bit (8 - k) 0xff :: byte) m \<longleftrightarrow> m < k"
proof -
  assume k: "0 < k" "k < 8"
  have ff: "(0xff :: byte) = mask 8" by (simp add: mask_eq_exp_minus_1)
  show ?thesis unfolding ff using k by (auto simp: bit_simps)
qed

lemma bitmask_encode_spec:
  assumes "p = -1 \<or> 0 \<le> p \<and> (p + 7) div 8 \<le> int (length d) + 1"
  shows "\<exists>e. bitmask_encode d p = Some (zero_one_encode e) \<and> (e = [] \<or> last e \<noteq> 0) \<and>
    (\<forall>i. bitmask_get e i \<longleftrightarrow> bitmask_get d i \<and> (p = -1 \<or> i < p))"
proof -
  have last: "remove_suffix_while (\<lambda>c. c = 0) x = [] \<or> last (remove_suffix_while (\<lambda>c. c = 0) x) \<noteq> 0"
    for x :: bytes using remove_suffix_while_last [of "\<lambda>c. c = 0" x] by blast
  show ?thesis
  proof (cases "p = -1")
    case True
    then show ?thesis
      using last [of d] by (intro exI [of _ "remove_suffix_while (\<lambda>c. c = 0) d"])
        (simp add: bitmask_encode_def bitmask_get_iff bit_at_strip)
  next
    case False
    then obtain n where n: "p = int n" using assms zero_le_imp_eq_int by blast
    let ?t = "(n + 7) div 8" and ?r = "n mod 8"
    have nat: "nat ((int n + 7) div 8) = ?t" "nat (int n mod 8) = ?r" "int n mod 8 = int ?r"
      by (simp_all add: nat_div_distrib nat_mod_distrib nat_add_distrib zmod_int)
    let ?m = "drop_bit (8 - ?r) 0xff :: byte"
    define x where "x = take ?t (if ?r \<noteq> 0 \<and> ?t - 1 < length d then d[?t - 1 := d ! (?t - 1) AND ?m] else d)"
    have "?t - 1 \<le> length d" using assms False n nat(1) by simp
    then have enc: "bitmask_encode d p = Some (zero_one_encode (remove_suffix_while (\<lambda>c. c = 0) x))"
      unfolding bitmask_encode_def n nat x_def by (auto simp: Let_def n)
    have n8: "n = 8 * (n div 8) + ?r" "?r < 8" by simp_all
    have t: "?t = n div 8 + (if ?r = 0 then 0 else 1)" by presburger
    have bx: "bit_at x i \<longleftrightarrow> bit_at d i \<and> i < n" for i
    proof (cases "i div 8 < n div 8")
      case True
      then have "i < n" by (metis div_le_mono not_less)
      moreover have "x ! (i div 8) = d ! (i div 8)" "i div 8 < ?t" using True t by (auto simp: x_def)
      ultimately show ?thesis by (auto simp: bit_at_def x_def)
    next
      case ge: False
      show ?thesis
      proof (cases "?r \<noteq> 0 \<and> i div 8 = n div 8")
        case True
        have "i < n \<longleftrightarrow> i mod 8 < ?r" using True n8(1) mult_div_mod_eq [of 8 i] by linarith
        moreover have "i div 8 < length d \<Longrightarrow> x ! (i div 8) = d ! (i div 8) AND ?m"
          using True t by (simp add: x_def)
        moreover have "bit (d ! (i div 8) AND ?m) (i mod 8) \<longleftrightarrow> bit (d ! (i div 8)) (i mod 8) \<and> i mod 8 < ?r"
          using True low_bits_mask [of ?r "i mod 8"] by (simp add: bit_and_iff)
        ultimately show ?thesis using True t by (auto simp: bit_at_def x_def)
      next
        case False
        then have "\<not> i div 8 < ?t" using ge t by (auto split: if_splits)
        moreover have "\<not> i < n"
        proof
          assume "i < n"
          then have "i div 8 = n div 8" using ge div_le_mono [of i n 8] by simp
          then have "n = 8 * (i div 8)" using False n8(1) by simp
          then show False using \<open>i < n\<close> mult_div_mod_eq [of 8 i] by linarith
        qed
        ultimately show ?thesis by (auto simp: bit_at_def x_def)
      qed
    qed
    have bs: "bitmask_get (remove_suffix_while (\<lambda>c. c = 0) x) i \<longleftrightarrow> bitmask_get d i \<and> i < p" for i
      unfolding bitmask_get_iff bit_at_strip n bx [of "nat i"] by (cases "0 \<le> i") (simp_all add: nat_less_iff)
    show ?thesis
      using False by (intro exI [of _ "remove_suffix_while (\<lambda>c. c = 0) x"]) (simp add: enc last bs)
  qed
qed

subsection \<open>Runs of ready parts\<close>

lemma bitmask_ready_parts_loop_spec:
  "res \<le> bitmask_ready_parts_loop d off res \<and>
   (\<forall>j. res \<le> j \<and> j < bitmask_ready_parts_loop d off res \<longrightarrow> bitmask_get d (off + j)) \<and>
   \<not> bitmask_get d (off + bitmask_ready_parts_loop d off res)"
proof (induction d off res rule: bitmask_ready_parts_loop.induct)
  case (1 d off res)
  show ?case
  proof (cases "bitmask_get d (off + res)")
    case True
    then have "bitmask_ready_parts_loop d off res = bitmask_ready_parts_loop d off (res + 1)"
      by (subst bitmask_ready_parts_loop.simps) simp
    then show ?thesis using 1 [OF True] True by (metis add1_zle_eq le_less order_le_less_trans zless_add1_eq)
  next
    case False
    then have "bitmask_ready_parts_loop d off res = res"
      by (subst bitmask_ready_parts_loop.simps) simp
    then show ?thesis using False by auto
  qed
qed

lemma bitmask_get_ready_parts_spec:
  "0 \<le> bitmask_get_ready_parts d off \<and>
   (\<forall>j. 0 \<le> j \<and> j < bitmask_get_ready_parts d off \<longrightarrow> bitmask_get d (off + j)) \<and>
   \<not> bitmask_get d (off + bitmask_get_ready_parts d off)"
  unfolding bitmask_get_ready_parts_def by (rule bitmask_ready_parts_loop_spec)

lemma bitmask_get_ready_prefix_size_spec:
  assumes "0 \<le> part_size"
  shows "\<exists>r. bitmask_get_ready_prefix_size d offset part_size file_size = Some r \<and> 0 \<le> r \<and>
    (\<forall>b. offset \<le> b \<and> b < offset + r \<and> 0 < part_size \<longrightarrow> bitmask_get d (b div part_size))"
proof (cases "offset < 0 \<or> part_size = 0")
  case True
  then show ?thesis by (auto simp: bitmask_get_ready_prefix_size_def)
next
  case False
  then have ps: "0 < part_size" "0 \<le> offset" using assms by simp_all
  define op ones where "op = offset div part_size" and "ones = bitmask_get_ready_parts d op"
  define e where "e = (op + ones) * part_size"
  have spec: "0 \<le> ones" "\<And>j. 0 \<le> j \<Longrightarrow> j < ones \<Longrightarrow> bitmask_get d (op + j)"
    using bitmask_get_ready_parts_spec [of d op] by (simp_all add: ones_def)
  have op: "op * part_size \<le> offset" "offset < (op + 1) * part_size"
  proof -
    have "offset = op * part_size + offset mod part_size" by (simp add: op_def)
    moreover have "0 \<le> offset mod part_size" "offset mod part_size < part_size" using ps by simp_all
    moreover have "(op + 1) * part_size = op * part_size + part_size" by (simp add: distrib_right)
    ultimately show "op * part_size \<le> offset" "offset < (op + 1) * part_size" by linarith+
  qed
  have bits: "bitmask_get d (b div part_size)" if "offset \<le> b" "b < e" for b
  proof -
    have "op \<le> b div part_size" using that(1) ps by (simp add: op_def zdiv_mono1)
    moreover have "b div part_size < op + ones"
    proof (rule ccontr)
      assume "\<not> b div part_size < op + ones"
      then have "(op + ones) * part_size \<le> b div part_size * part_size"
        using ps by (intro mult_right_mono) auto
      also have "\<dots> \<le> b" using ps pos_mod_sign [of part_size b] div_mult_mod_eq [of b part_size] by linarith
      finally show False using that(2) by (simp add: e_def)
    qed
    ultimately show ?thesis using spec(2) [of "b div part_size - op"] by simp
  qed
  show ?thesis
  proof (cases "ones = 0")
    case True
    then show ?thesis using False ps by (auto simp: bitmask_get_ready_prefix_size_def Let_def ones_def op_def)
  next
    case nz: False
    then have "(op + 1) * part_size \<le> e" using spec(1) ps by (simp add: e_def)
    then have le: "offset < e" using op(2) by linarith
    define r where "r = (if file_size \<noteq> 0 \<and> e > file_size
      then file_size - (if offset > file_size then file_size else offset) else e - offset)"
    have r: "0 \<le> r" "offset + r \<le> e \<or> r = 0" using le by (auto simp: r_def)
    have "bitmask_get_ready_prefix_size d offset part_size file_size =
        (case (if file_size \<noteq> 0 \<and> e > file_size
          then (file_size, if offset > file_size then file_size else offset) else (e, offset))
         of (a, b) \<Rightarrow> do { check (a - b \<ge> 0); Some (a - b) })"
      using False ps nz
      unfolding bitmask_get_ready_prefix_size_def Let_def op_def [symmetric] ones_def [symmetric]
        e_def [symmetric] by simp
    then have "bitmask_get_ready_prefix_size d offset part_size file_size = Some r"
      using r(1) by (cases "file_size \<noteq> 0 \<and> e > file_size") (auto simp: r_def check_bindI)
    then show ?thesis using r bits by fastforce
  qed
qed

subsection \<open>Properties\<close>

text \<open>C26: the stored form of a mask decodes to the parts of the mask that lie in the requested
  prefix, and it depends on nothing but the set of those parts: masks with the same parts are stored
  as the same bytes, however they were built.\<close>
theorem bitmask_encode_canonical:
  assumes "p = -1 \<or> 0 \<le> p \<and> (p + 7) div 8 \<le> int (length d) + 1"
    and "p' = -1 \<or> 0 \<le> p' \<and> (p' + 7) div 8 \<le> int (length d') + 1"
  shows "\<exists>e e'. bitmask_encode d p = Some e \<and> bitmask_encode d' p' = Some e' \<and>
    (\<forall>i. bitmask_get (bitmask_decode e) i \<longleftrightarrow> bitmask_get d i \<and> (p = -1 \<or> i < p)) \<and>
    ((\<forall>i. bitmask_get d i \<and> (p = -1 \<or> i < p) \<longleftrightarrow> bitmask_get d' i \<and> (p' = -1 \<or> i < p')) \<longleftrightarrow> e = e')"
proof -
  obtain s s' where s: "bitmask_encode d p = Some (zero_one_encode s)" "s = [] \<or> last s \<noteq> 0"
      "\<forall>i. bitmask_get s i \<longleftrightarrow> bitmask_get d i \<and> (p = -1 \<or> i < p)"
    and s': "bitmask_encode d' p' = Some (zero_one_encode s')" "s' = [] \<or> last s' \<noteq> 0"
      "\<forall>i. bitmask_get s' i \<longleftrightarrow> bitmask_get d' i \<and> (p' = -1 \<or> i < p')"
    using bitmask_encode_spec [OF assms(1)] bitmask_encode_spec [OF assms(2)] by blast
  have "s = s'" if "\<And>i. bitmask_get s i \<longleftrightarrow> bitmask_get s' i"
  proof (rule stripped_unique [OF _ s(2) s'(2)])
    show "bit_at s n \<longleftrightarrow> bit_at s' n" for n using that [of "int n"] by (simp add: bitmask_get_iff)
  qed
  then have "(\<forall>i. bitmask_get d i \<and> (p = -1 \<or> i < p) \<longleftrightarrow> bitmask_get d' i \<and> (p' = -1 \<or> i < p')) \<longleftrightarrow> s = s'"
    using s(3) s'(3) by metis
  then show ?thesis
    using s s' zero_one.dec_enc_run zero_one.rc.enc_inject by (simp add: bitmask_decode_def)
qed

theorem bitmask_encode_canonical_witness:
  "\<exists>e e'. bitmask_encode [0x0f, 0x01] 3 = Some e \<and> bitmask_encode [0x07, 0x00] (-1) = Some e' \<and>
    (\<forall>i. bitmask_get (bitmask_decode e) i \<longleftrightarrow> bitmask_get [0x0f, 0x01] i \<and> ((3 :: int) = -1 \<or> i < 3)) \<and>
    ((\<forall>i. bitmask_get [0x0f, 0x01] i \<and> ((3 :: int) = -1 \<or> i < 3) \<longleftrightarrow>
       bitmask_get [0x07, 0x00] i \<and> ((-1 :: int) = -1 \<or> i < -1)) \<longleftrightarrow> e = e')"
  by (rule bitmask_encode_canonical) simp_all

text \<open>For a part size that is not negative, the ready prefix size never trips its \<open>CHECK\<close>, is not negative, and every byte it
  counts lies in a part whose bit is set.\<close>
theorem bitmask_ready_prefix_covered:
  assumes "0 \<le> part_size"
  shows "\<exists>r. bitmask_get_ready_prefix_size d offset part_size file_size = Some r \<and> 0 \<le> r \<and>
    (\<forall>b. offset \<le> b \<and> b < offset + r \<and> 0 < part_size \<longrightarrow> bitmask_get d (b div part_size))"
  by (rule bitmask_get_ready_prefix_size_spec [OF assms])

theorem bitmask_ready_prefix_covered_witness:
  "\<exists>r. bitmask_get_ready_prefix_size [0x07] 5 10 25 = Some r \<and> 0 \<le> r \<and>
    (\<forall>b. 5 \<le> b \<and> b < 5 + r \<and> 0 < (10 :: int) \<longrightarrow> bitmask_get [0x07] (b div 10))"
  by (rule bitmask_ready_prefix_covered) simp


end
