(* ===== verification/Td_Parts.thy ===== *)
theory Td_Parts
  imports Td_Bitmask
begin

text \<open>
  The scheduler of file parts: \<open>td/telegram/files/PartsManager.cpp\<close>.

  The state is the class's fields.  Byte counts and part numbers are integers without wrap-around
  (they stay far below the limits of \<open>int64\<close> and \<open>int\<close>; where the code casts, the cast is
  written); \<open>size_t\<close> values are natural numbers.  Sizes and limits passed in are not negative.

  \<open>None\<close> is a failed \<open>CHECK\<close>, a failed narrowing cast or an access outside \<open>part_status_\<close>.  An
  operation that returns a \<open>Status\<close> gives the state and the result, because a failing operation
  has already changed the state.
\<close>

unbundle bit_operations_syntax

subsection \<open>The state\<close>

datatype part_status = Empty | Pending | Ready

record part =
  part_id :: int
  part_offset :: int
  part_len :: nat

record parts =
  is_upload :: bool
  need_check :: bool
  checked_prefix_size :: int
  known_prefix_flag :: bool
  known_prefix_size :: int
  file_size :: int
  expected_size :: int
  min_size :: int
  max_size :: int
  unknown_size_flag :: bool
  ready_size :: int
  streaming_ready_size :: int
  part_size :: nat
  part_count :: int
  pending_count :: int
  first_empty_part :: int
  first_not_ready_part :: int
  streaming_offset :: int
  streaming_limit :: int
  first_streaming_empty_part :: int
  first_streaming_not_ready_part :: int
  part_statuses :: "part_status list"
  bitmask :: bytes
  use_part_count_limit :: bool

definition new_parts_manager :: parts where
  "new_parts_manager = \<lparr>
     is_upload = False, need_check = False, checked_prefix_size = 0,
     known_prefix_flag = False, known_prefix_size = 0,
     file_size = 0, expected_size = 0, min_size = 0, max_size = 0, unknown_size_flag = False,
     ready_size = 0, streaming_ready_size = 0,
     part_size = 0, part_count = 0, pending_count = 0, first_empty_part = 0,
     first_not_ready_part = 0, streaming_offset = 0, streaming_limit = 0,
     first_streaming_empty_part = 0, first_streaming_not_ready_part = 0,
     part_statuses = [], bitmask = [], use_part_count_limit = False\<rparr>"

definition MAX_PART_COUNT :: int where "MAX_PART_COUNT = 4000"

definition MAX_PART_COUNT_PREMIUM :: int where "MAX_PART_COUNT_PREMIUM = 8000"

definition MAX_PART_SIZE :: nat where "MAX_PART_SIZE = 524288"

definition MAX_FILE_SIZE :: int where "MAX_FILE_SIZE = int MAX_PART_SIZE * MAX_PART_COUNT_PREMIUM"

lemmas parts_limits = MAX_PART_COUNT_def MAX_PART_COUNT_PREMIUM_def MAX_PART_SIZE_def
  MAX_FILE_SIZE_def

text \<open>\<open>static_cast<int>\<close>, and the access and resizing of \<open>part_status_\<close>.\<close>

definition to_int32 :: "int \<Rightarrow> int" where
  "to_int32 x = (x + 2147483648) mod 4294967296 - 2147483648"

definition status_at :: "part_status list \<Rightarrow> int \<Rightarrow> part_status option" where
  "status_at ps i = (if 0 \<le> i \<and> i < int (length ps) then Some (ps ! nat i) else None)"

definition set_status :: "part_status list \<Rightarrow> int \<Rightarrow> part_status \<Rightarrow> part_status list option" where
  "set_status ps i st = (if 0 \<le> i \<and> i < int (length ps) then Some (ps[nat i := st]) else None)"

definition resize_statuses :: "part_status list \<Rightarrow> int \<Rightarrow> part_status list option" where
  "resize_statuses ps n =
     (if n < 0 then None else Some (take (nat n) ps @ replicate (nat n - length ps) Empty))"

definition calc_part_count :: "int \<Rightarrow> nat \<Rightarrow> int option" where
  "calc_part_count sz ps = do { check (ps \<noteq> 0); Some ((sz + int ps - 1) div int ps) }"

subsection \<open>Queries\<close>

definition get_size :: "parts \<Rightarrow> int option" where
  "get_size s = do { check (\<not> unknown_size_flag s); Some (file_size s) }"

definition get_part :: "parts \<Rightarrow> int \<Rightarrow> part" where
  "get_part s pid =
     (let sz = int (part_size s);
          offset = sz * pid;
          total_size = (if unknown_size_flag s then max_size s else file_size s)
      in \<lparr>part_id = pid, part_offset = offset,
          part_len = nat (if total_size < offset then 0 else min sz (total_size - offset))\<rparr>)"

definition get_empty_part :: part where
  "get_empty_part = \<lparr>part_id = -1, part_offset = 0, part_len = 0\<rparr>"

definition is_part_in_streaming_limit :: "parts \<Rightarrow> int \<Rightarrow> bool option" where
  "is_part_in_streaming_limit s pid =
     do { check (pid < part_count s);
          let offset_begin = pid * int (part_size s);
          let offset_end = offset_begin + int (part_len (get_part s pid));
          let is_intersect_with = (\<lambda>b e. max b offset_begin < min e offset_end);
          let streaming_begin = streaming_offset s;
          let streaming_end = streaming_offset s + streaming_limit s;
          Some (if streaming_limit s = 0 then True
                else if is_intersect_with streaming_begin streaming_end then True
                else \<not> unknown_size_flag s \<and> streaming_end > file_size s \<and>
                     is_intersect_with 0 (streaming_end - file_size s)) }"

text \<open>The loop over all parts of \<open>set_streaming_limit\<close> and of \<open>get_estimated_extra\<close>.\<close>

fun sum_streaming_ready :: "parts \<Rightarrow> int list \<Rightarrow> int option" where
  "sum_streaming_ready s [] = Some 0"
| "sum_streaming_ready s (pid # pids) =
     do { in_limit \<leftarrow> is_part_in_streaming_limit s pid;
          ready \<leftarrow> (if in_limit then map_option (\<lambda>st. st = Ready) (status_at (part_statuses s) pid)
                    else Some False);
          rest \<leftarrow> sum_streaming_ready s pids;
          Some ((if ready then int (part_len (get_part s pid)) else 0) + rest) }"

definition all_part_ids :: "parts \<Rightarrow> int list" where
  "all_part_ids s = map int [0..<nat (part_count s)]"

definition unchecked_ready :: "parts \<Rightarrow> bool" where
  "unchecked_ready s \<longleftrightarrow> \<not> unknown_size_flag s \<and> ready_size s = file_size s"

definition ready :: "parts \<Rightarrow> bool" where
  "ready s \<longleftrightarrow> unchecked_ready s \<and> (\<not> need_check s \<or> checked_prefix_size s = file_size s)"

definition get_expected_size :: "parts \<Rightarrow> int option" where
  "get_expected_size s =
     (if unknown_size_flag s
      then Some (min (max (min_size s + 524288) (ready_size s * 2)) (max_size s))
      else get_size s)"

definition round_up :: "nat \<Rightarrow> int \<Rightarrow> int" where
  "round_up ps sz = (sz + int ps - 1) div int ps * int ps"

definition streaming_size :: "parts \<Rightarrow> int" where
  "streaming_size s =
     (let ps = part_size s;
          streaming_begin = streaming_offset s div int ps * int ps;
          streaming_end = streaming_offset s + streaming_limit s
      in if unknown_size_flag s then
           min (round_up ps streaming_end) (max_size s) - min streaming_begin (max_size s)
         else if streaming_end \<le> file_size s then
           min (round_up ps streaming_end) (file_size s) - streaming_begin
         else if streaming_offset s < file_size s then
           min (file_size s)
             (min (round_up ps (streaming_end - file_size s)) (file_size s) +
              (file_size s - streaming_begin))
         else 0)"

definition get_estimated_extra :: "parts \<Rightarrow> int option" where
  "get_estimated_extra s =
     do { expected \<leftarrow> get_expected_size s;
          let total_estimated_extra = expected - ready_size s;
          if streaming_limit s \<noteq> 0 then
            do { let res = streaming_size s;
                 sub \<leftarrow> sum_streaming_ready s (all_part_ids s);
                 check (sub = streaming_ready_size s);
                 let res = res - streaming_ready_size s;
                 check (res \<ge> 0);
                 Some res }
          else Some total_estimated_extra }"

subsection \<open>Cursors\<close>

text \<open>The loops of \<open>update_first_empty_part\<close> and \<open>update_first_not_ready_part\<close>.\<close>

function advance :: "part_status list \<Rightarrow> int \<Rightarrow> (part_status \<Rightarrow> bool) \<Rightarrow> int \<Rightarrow> int option" where
  "advance ps n P i =
     (if i < n then
        (case status_at ps i of None \<Rightarrow> None
         | Some st \<Rightarrow> if P st then advance ps n P (i + 1) else Some i)
      else Some i)"
  by pat_completeness auto
termination by (relation "measure (\<lambda>(ps, n, P, i). nat (n - i))") auto

declare advance.simps [simp del]

definition update_first_empty_part :: "parts \<Rightarrow> parts option" where
  "update_first_empty_part s =
     do { i \<leftarrow> advance (part_statuses s) (part_count s) (\<lambda>st. st \<noteq> Empty) (first_empty_part s);
          let s = s\<lparr>first_empty_part := i\<rparr>;
          if streaming_offset s = 0
          then Some (s\<lparr>first_streaming_empty_part := first_empty_part s\<rparr>)
          else do {
            j \<leftarrow> advance (part_statuses s) (part_count s) (\<lambda>st. st \<noteq> Empty)
                   (first_streaming_empty_part s);
            Some (s\<lparr>first_streaming_empty_part := j\<rparr>) } }"

definition update_first_not_ready_part :: "parts \<Rightarrow> parts option" where
  "update_first_not_ready_part s =
     do { i \<leftarrow> advance (part_statuses s) (part_count s) (\<lambda>st. st = Ready) (first_not_ready_part s);
          let s = s\<lparr>first_not_ready_part := i\<rparr>;
          if streaming_offset s = 0
          then Some (s\<lparr>first_streaming_not_ready_part := first_not_ready_part s\<rparr>)
          else do {
            j \<leftarrow> advance (part_statuses s) (part_count s) (\<lambda>st. st = Ready)
                   (first_streaming_not_ready_part s);
            Some (s\<lparr>first_streaming_not_ready_part := j\<rparr>) } }"

definition get_unchecked_ready_prefix_count :: "parts \<Rightarrow> (parts \<times> int) option" where
  "get_unchecked_ready_prefix_count s =
     do { s \<leftarrow> update_first_not_ready_part s; Some (s, first_not_ready_part s) }"

definition get_ready_prefix_count :: "parts \<Rightarrow> (parts \<times> int) option" where
  "get_ready_prefix_count s =
     do { (s, res) \<leftarrow> get_unchecked_ready_prefix_count s;
          if need_check s then
            do { checked_parts \<leftarrow> narrow_cast_int32 (checked_prefix_size s div int (part_size s));
                 Some (s, if checked_parts < res then checked_parts else res) }
          else Some (s, res) }"

definition get_unchecked_ready_prefix_size :: "parts \<Rightarrow> (parts \<times> int) option" where
  "get_unchecked_ready_prefix_size s =
     do { s \<leftarrow> update_first_not_ready_part s;
          let count = first_not_ready_part s;
          if count = 0 then Some (s, 0)
          else let p = get_part s (count - 1);
                   res = part_offset p
               in Some (s, if \<not> unknown_size_flag s
                           then min (res + int (part_len p)) (file_size s) else res) }"

definition get_bitmask :: "parts \<Rightarrow> bytes option" where
  "get_bitmask s =
     do { prefix_count \<leftarrow>
            (if need_check s then narrow_cast_int32 (checked_prefix_size s div int (part_size s))
             else Some (-1));
          bitmask_encode (bitmask s) prefix_count }"

definition is_streaming_limit_reached :: "parts \<Rightarrow> (parts \<times> bool) option" where
  "is_streaming_limit_reached s =
     (if streaming_limit s = 0 then Some (s, False)
      else do {
        s \<leftarrow> update_first_not_ready_part s;
        let pid = first_streaming_not_ready_part s;
        let pid = (if \<not> unknown_size_flag s \<and> pid = part_count s then first_not_ready_part s else pid);
        outside \<leftarrow> (if pid = part_count s then Some True
                    else map_option Not (is_part_in_streaming_limit s pid));
        if outside then do { extra \<leftarrow> get_estimated_extra s; Some (s, extra = 0) }
        else Some (s, False) })"

definition may_finish :: "parts \<Rightarrow> (parts \<times> bool) option" where
  "may_finish s =
     do { (s, reached) \<leftarrow> is_streaming_limit_reached s; Some (s, reached \<or> ready s) }"

definition finish :: "parts \<Rightarrow> (parts \<times> unit result) option" where
  "finish s =
     (if ready s then Some (s, Inr ())
      else do {
        (s, reached) \<leftarrow> is_streaming_limit_reached s;
        Some (s, if reached then Error ''FILE_DOWNLOAD_LIMIT''
                 else Error ''File transferring not finished'') })"

subsection \<open>Streaming window\<close>

definition set_streaming_limit :: "int \<Rightarrow> parts \<Rightarrow> parts option" where
  "set_streaming_limit limit s =
     do { let s = s\<lparr>streaming_limit := limit, streaming_ready_size := 0\<rparr>;
          if streaming_limit s = 0 then Some s
          else do { n \<leftarrow> sum_streaming_ready s (all_part_ids s);
                    Some (s\<lparr>streaming_ready_size := n\<rparr>) } }"

text \<open>
  \<open>set_streaming_offset\<close> first rejects offsets it cannot use.  The message of a rejected non-zero
  offset prints \<open>get_size()\<close>, which has a \<open>CHECK\<close> of its own.
\<close>

definition finish_streaming_offset :: "int \<Rightarrow> parts \<Rightarrow> (parts \<times> int) option" where
  "finish_streaming_offset limit s =
     do { s \<leftarrow> set_streaming_limit limit s;
          s \<leftarrow> update_first_not_ready_part s;
          Some (s, first_streaming_not_ready_part s) }"

definition set_streaming_offset :: "int \<Rightarrow> int \<Rightarrow> parts \<Rightarrow> (parts \<times> int) option" where
  "set_streaming_offset offset limit s =
     (if offset < 0 \<or> need_check s \<or> (\<not> unknown_size_flag s \<and> file_size s < offset)
      then do { let s = s\<lparr>streaming_offset := 0\<rparr>;
                (if offset \<noteq> 0 then map_option (\<lambda>_. ()) (get_size s) else Some ());
                finish_streaming_offset limit s }
      else let pid = offset div int (part_size s) in
        if use_part_count_limit s \<and> pid \<ge> MAX_PART_COUNT_PREMIUM
        then finish_streaming_offset limit (s\<lparr>streaming_offset := 0\<rparr>)
        else do {
          pid \<leftarrow> narrow_cast_int32 pid;
          let s = s\<lparr>streaming_offset := offset, first_streaming_empty_part := pid,
                    first_streaming_not_ready_part := pid\<rparr>;
          s \<leftarrow> (if part_count s < first_streaming_empty_part s
                then do { ps \<leftarrow> resize_statuses (part_statuses s) (first_streaming_empty_part s);
                          Some (s\<lparr>part_count := first_streaming_empty_part s, part_statuses := ps\<rparr>) }
                else Some s);
          finish_streaming_offset limit s })"

definition set_need_check :: "parts \<Rightarrow> parts option" where
  "set_need_check s = map_option fst (set_streaming_offset 0 0 (s\<lparr>need_check := True\<rparr>))"

definition set_checked_prefix_size :: "int \<Rightarrow> parts \<Rightarrow> parts" where
  "set_checked_prefix_size sz s = s\<lparr>checked_prefix_size := sz\<rparr>"

subsection \<open>Initialisation\<close>

fun init_ready_parts :: "int list \<Rightarrow> parts \<Rightarrow> (parts \<times> unit result) option" where
  "init_ready_parts [] s = Some (s, Inr ())"
| "init_ready_parts (i # is) s =
     (if known_prefix_flag s \<and> i \<ge> to_int32 (known_prefix_size s div int (part_size s))
      then do { check (is_upload s); Some (s, Error ''FILE_UPLOAD_RESTART'') }
      else if is_upload s \<and> i \<ge> part_count s then Some (s, Error ''FILE_UPLOAD_RESTART'')
      else do {
        check (0 \<le> i \<and> i < part_count s);
        ps \<leftarrow> set_status (part_statuses s) i Ready;
        bm \<leftarrow> bitmask_set (bitmask s) i;
        let s = s\<lparr>part_statuses := ps, bitmask := bm\<rparr>;
        init_ready_parts is (s\<lparr>ready_size := ready_size s + int (part_len (get_part s i))\<rparr>) })"

definition init_common :: "int list \<Rightarrow> parts \<Rightarrow> (parts \<times> unit result) option" where
  "init_common ready_parts s =
     do { ps \<leftarrow> resize_statuses [] (part_count s);
          (s, r) \<leftarrow> init_ready_parts ready_parts
            (s\<lparr>ready_size := 0, streaming_ready_size := 0, pending_count := 0,
               first_empty_part := 0, first_not_ready_part := 0, part_statuses := ps\<rparr>);
          (case r of Inl e \<Rightarrow> Some (s, Inl e)
           | Inr _ \<Rightarrow> do { (s, n) \<leftarrow> get_ready_prefix_count s;
                          Some (s\<lparr>checked_prefix_size := n * int (part_size s)\<rparr>, Inr ()) }) }"

text \<open>Doubling the part size until the parts are few enough or the largest size is reached.\<close>

function grow_part_size :: "int \<Rightarrow> nat \<Rightarrow> nat option" where
  "grow_part_size expected ps =
     (if ps < MAX_PART_SIZE then
        (case calc_part_count expected ps of None \<Rightarrow> None
         | Some c \<Rightarrow> if c > MAX_PART_COUNT then grow_part_size expected (ps * 2) else Some ps)
      else Some ps)"
  by pat_completeness auto
termination
  by (relation "measure (\<lambda>(e, ps). MAX_PART_SIZE - ps)")
     (auto simp: calc_part_count_def check_def split: if_splits)

declare grow_part_size.simps [simp del]

definition init_no_size :: "nat \<Rightarrow> int list \<Rightarrow> parts \<Rightarrow> (parts \<times> unit result) option" where
  "init_no_size ps ready_parts s =
     do { let s = s\<lparr>unknown_size_flag := True, file_size := 0, min_size := 0, max_size := int64_max\<rparr>;
          new_ps \<leftarrow>
            (if ps \<noteq> 0 then Some ps
             else do { p \<leftarrow> grow_part_size (expected_size s) 32768;
                       Some (if p < MAX_PART_SIZE then p * 2 else p) });
          init_common ready_parts
            (s\<lparr>part_size := new_ps, part_count := fold (\<lambda>b a. max a (b + 1)) ready_parts 0\<rparr>) }"

definition init_known_prefix ::
  "int \<Rightarrow> nat \<Rightarrow> int list \<Rightarrow> parts \<Rightarrow> (parts \<times> unit result) option" where
  "init_known_prefix known_prefix ps ready_parts s =
     init_no_size ps ready_parts (s\<lparr>known_prefix_flag := True, known_prefix_size := known_prefix\<rparr>)"

definition init ::
  "int \<Rightarrow> int \<Rightarrow> bool \<Rightarrow> nat \<Rightarrow> int list \<Rightarrow> bool \<Rightarrow> bool \<Rightarrow> parts \<Rightarrow> (parts \<times> unit result) option"
where
  "init sz expected is_size_final ps ready_parts use_limit upload s =
     do { check (expected \<ge> sz);
          let s = s\<lparr>is_upload := upload, use_part_count_limit := use_limit, expected_size := expected\<rparr>;
          if expected_size s > MAX_FILE_SIZE then Some (s, Error ''Too big file'')
          else if \<not> is_size_final then init_known_prefix sz ps ready_parts s
          else if sz = 0 then init_no_size ps ready_parts s
          else do {
            check (sz > 0);
            let s = s\<lparr>unknown_size_flag := False, file_size := sz\<rparr>;
            restart \<leftarrow>
              (if ps \<noteq> 0 \<and> use_part_count_limit s \<and> ps < MAX_PART_SIZE
               then map_option (\<lambda>c. c > MAX_PART_COUNT) (calc_part_count (expected_size s) ps)
               else Some False);
            new_ps \<leftarrow> (if ps \<noteq> 0 then Some ps else grow_part_size (expected_size s) 65536);
            let s = s\<lparr>part_size := new_ps\<rparr>;
            if restart then do { check (is_upload s); Some (s, Error ''FILE_UPLOAD_RESTART'') }
            else do {
              check (1 \<le> file_size s);
              (if use_limit
               then do { c \<leftarrow> calc_part_count (expected_size s) (part_size s);
                         check (c \<le> MAX_PART_COUNT_PREMIUM) }
               else Some ());
              n \<leftarrow> calc_part_count (file_size s) (part_size s);
              init_common ready_parts (s\<lparr>part_count := to_int32 n\<rparr>) } } }"

subsection \<open>Transfers\<close>

definition on_part_start :: "int \<Rightarrow> parts \<Rightarrow> parts option" where
  "on_part_start pid s =
     do { st \<leftarrow> status_at (part_statuses s) pid;
          check (st = Empty);
          ps \<leftarrow> set_status (part_statuses s) pid Pending;
          Some (s\<lparr>part_statuses := ps, pending_count := pending_count s + 1\<rparr>) }"

definition start_chosen_part :: "int \<Rightarrow> parts \<Rightarrow> (parts \<times> part result) option" where
  "start_chosen_part pid s =
     do { in_limit \<leftarrow> is_part_in_streaming_limit s pid;
          if \<not> in_limit \<or>
             pid * int (part_size s) \<ge> (if unknown_size_flag s then max_size s else file_size s)
          then Some (s, Inr get_empty_part)
          else do {
            st \<leftarrow> status_at (part_statuses s) pid;
            check (st = Empty);
            s \<leftarrow> on_part_start pid s;
            Some (s, Inr (get_part s pid)) } }"

definition start_part :: "parts \<Rightarrow> (parts \<times> part result) option" where
  "start_part s =
     do { s \<leftarrow> update_first_empty_part s;
          let pid = first_streaming_empty_part s;
          if known_prefix_flag s \<and> pid \<ge> to_int32 (known_prefix_size s div int (part_size s))
          then Some (s, Inl (Err (-1) (str ''Wait for prefix to be known'')))
          else if pid = part_count s then
            (if unknown_size_flag s then
               let s = s\<lparr>part_count := part_count s + 1\<rparr> in
               if part_count s > MAX_PART_COUNT_PREMIUM + (if use_part_count_limit s then 0 else 64)
               then Some (s, if \<not> is_upload s
                             then Error ''FILE_DOWNLOAD_RESTART_INCREASE_PART_SIZE''
                             else Error ''Too big file with unknown size'')
               else start_chosen_part pid (s\<lparr>part_statuses := part_statuses s @ [Empty]\<rparr>)
             else if first_empty_part s < part_count s
             then start_chosen_part (first_empty_part s) s
             else Some (s, Inr get_empty_part))
          else start_chosen_part pid s }"

definition tag :: "string \<Rightarrow> int \<Rightarrow> bytes" where
  "tag name x = str ''['' @ str name @ str '':'' @ print_nonmin_int x @ str '']''"

text \<open>The part of \<open>on_part_ok\<close> that learns the size of the file, or checks it.\<close>

definition learn_size :: "int \<Rightarrow> nat \<Rightarrow> parts \<Rightarrow> (parts \<times> unit result) option" where
  "learn_size end_offset actual_size s =
     do { let shrinks = (actual_size < part_size s \<and> end_offset < max_size s);
          let s = (if shrinks then s\<lparr>max_size := end_offset\<rparr> else s);
          let s = (if actual_size \<noteq> 0 then s\<lparr>min_size := max (min_size s) end_offset\<rparr> else s);
          if min_size s > max_size s
          then Some (s, Inl (Err 0 (str ''Failed to transfer file: '' @
                 tag ''min_size'' (min_size s) @ tag ''max_size'' (max_size s))))
          else do {
            let known = (min_size s = max_size s);
            let s = (if known then s\<lparr>unknown_size_flag := False, file_size := min_size s\<rparr> else s);
            s \<leftarrow> (if (shrinks \<or> known) \<and> streaming_limit s \<noteq> 0
                  then set_streaming_limit (streaming_limit s) s else Some s);
            Some (s, Inr ()) } }"

definition check_part_size :: "int \<Rightarrow> nat \<Rightarrow> nat \<Rightarrow> parts \<Rightarrow> unit result" where
  "check_part_size offset ps actual_size s =
     (if actual_size < ps \<and> offset < file_size s \<or> offset \<ge> file_size s \<and> actual_size > 0
      then Inl (Err 0 (str ''Failed to transfer file: '' @ tag ''size'' (file_size s) @
             tag ''offset'' offset @ tag ''transferred size'' (int actual_size) @
             tag ''part size'' (int ps)))
      else Inr ())"

definition narrow_cast_int64 :: "nat \<Rightarrow> int option" where
  "narrow_cast_int64 n = (if int n \<le> int64_max then Some (int n) else None)"

definition on_part_ok :: "int \<Rightarrow> nat \<Rightarrow> nat \<Rightarrow> parts \<Rightarrow> (parts \<times> unit result) option" where
  "on_part_ok pid ps actual_size s =
     do { st \<leftarrow> status_at (part_statuses s) pid;
          check (st = Pending);
          let s = s\<lparr>pending_count := pending_count s - 1\<rparr>;
          sts \<leftarrow> set_status (part_statuses s) pid Ready;
          let s = s\<lparr>part_statuses := sts\<rparr>;
          bm \<leftarrow> (if actual_size \<noteq> 0 then bitmask_set (bitmask s) pid else Some (bitmask s));
          n \<leftarrow> narrow_cast_int64 actual_size;
          let s = s\<lparr>bitmask := bm, ready_size := ready_size s + n\<rparr>;
          in_limit \<leftarrow> (if streaming_limit s > 0 then is_part_in_streaming_limit s pid else Some False);
          let s = (if in_limit then s\<lparr>streaming_ready_size := streaming_ready_size s + n\<rparr> else s);
          let offset = int (part_size s) * pid;
          let end_offset = offset + n;
          if unknown_size_flag s then do { check (ps = part_size s); learn_size end_offset actual_size s }
          else Some (s, check_part_size offset ps actual_size s) }"

definition on_part_failed :: "int \<Rightarrow> parts \<Rightarrow> parts option" where
  "on_part_failed pid s =
     do { st \<leftarrow> status_at (part_statuses s) pid;
          check (st = Pending);
          sts \<leftarrow> set_status (part_statuses s) pid Empty;
          let s = s\<lparr>pending_count := pending_count s - 1, part_statuses := sts\<rparr>;
          let s = (if pid < first_empty_part s then s\<lparr>first_empty_part := pid\<rparr> else s);
          if streaming_offset s = 0 then Some (s\<lparr>first_streaming_empty_part := pid\<rparr>)
          else do {
            offset_part_id \<leftarrow> narrow_cast_int32 (streaming_offset s div int (part_size s));
            Some (if pid \<ge> offset_part_id \<and> pid < first_streaming_empty_part s
                  then s\<lparr>first_streaming_empty_part := pid\<rparr> else s) } }"

definition set_known_prefix :: "int \<Rightarrow> bool \<Rightarrow> parts \<Rightarrow> (parts \<times> unit result) option" where
  "set_known_prefix sz is_ready s =
     (if \<not> known_prefix_flag s \<or> sz < known_prefix_size s \<or>
         (\<not> is_ready \<and> sz div int (part_size s) < int (length (part_statuses s)))
      then do { check (is_upload s); Some (s, Error ''FILE_UPLOAD_RESTART'') }
      else do {
        let s = s\<lparr>known_prefix_size := sz, expected_size := max sz (expected_size s)\<rparr>;
        check (part_count s = int (length (part_statuses s)));
        s \<leftarrow> (if is_ready then
                do { n \<leftarrow> calc_part_count sz (part_size s);
                     let s = s\<lparr>part_count := to_int32 n, file_size := sz, unknown_size_flag := False,
                               known_prefix_flag := False\<rparr>;
                     if streaming_limit s \<noteq> 0 then set_streaming_limit (streaming_limit s) s
                     else Some s }
              else Some (s\<lparr>part_count := to_int32 (sz div int (part_size s))\<rparr>));
        check (part_count s < 0 \<or> part_count s \<ge> int (length (part_statuses s)));
        sts \<leftarrow> resize_statuses (part_statuses s) (part_count s);
        let s = s\<lparr>part_statuses := sts\<rparr>;
        restart \<leftarrow>
          (if use_part_count_limit s \<and> part_size s < MAX_PART_SIZE
           then map_option (\<lambda>c. c > MAX_PART_COUNT) (calc_part_count (expected_size s) (part_size s))
           else Some False);
        if restart then do { check (is_upload s); Some (s, Error ''FILE_UPLOAD_RESTART'') }
        else Some (s, Inr ()) })"


subsection \<open>Lists of statuses\<close>

lemma status_at_Some:
  "status_at ps i = Some st \<longleftrightarrow> 0 \<le> i \<and> i < int (length ps) \<and> ps ! nat i = st"
  by (auto simp: status_at_def)

lemma set_status_Some:
  "set_status ps i st = Some qs \<longleftrightarrow> 0 \<le> i \<and> i < int (length ps) \<and> qs = ps[nat i := st]"
  by (auto simp: set_status_def)

lemma status_at_eq: "0 \<le> i \<Longrightarrow> i < int (length ps) \<Longrightarrow> status_at ps i = Some (ps ! nat i)"
  by (simp add: status_at_def)

lemma set_status_eq:
  "0 \<le> i \<Longrightarrow> i < int (length ps) \<Longrightarrow> set_status ps i st = Some (ps[nat i := st])"
  by (simp add: set_status_def)

lemma advance_spec:
  assumes "0 \<le> i" "i \<le> n" "n = int (length ps)"
  shows "\<exists>j. advance ps n P i = Some j \<and> i \<le> j \<and> j \<le> n \<and>
    (\<forall>k. i \<le> k \<and> k < j \<longrightarrow> P (ps ! nat k)) \<and> (j < n \<longrightarrow> \<not> P (ps ! nat j))"
  using assms
proof (induction ps n P i rule: advance.induct)
  case (1 ps n P i)
  show ?case
  proof (cases "i < n \<and> P (ps ! nat i)")
    case True
    then have st: "status_at ps i = Some (ps ! nat i)" using 1(2-) by (simp add: status_at_eq)
    obtain j where j: "advance ps n P (i + 1) = Some j" "i + 1 \<le> j" "j \<le> n"
      "\<forall>k. i + 1 \<le> k \<and> k < j \<longrightarrow> P (ps ! nat k)" "j < n \<longrightarrow> \<not> P (ps ! nat j)"
      using 1(1) [OF _ st] True 1(2-) by auto
    have "advance ps n P i = Some j"
      using True st j(1) by (subst advance.simps) simp
    moreover have "P (ps ! nat k)" if "i \<le> k" "k < j" for k
      using that j(4) True by (cases "k = i") auto
    ultimately show ?thesis using j by auto
  next
    case False
    then have "advance ps n P i = Some i"
      using 1(2-) by (subst advance.simps) (auto simp: status_at_def)
    then show ?thesis using False 1(2-) by auto
  qed
qed

text \<open>Sums over the parts, by number and status.\<close>

definition status_sum :: "(nat \<Rightarrow> part_status \<Rightarrow> int) \<Rightarrow> part_status list \<Rightarrow> int" where
  "status_sum f ps = (\<Sum>i<length ps. f i (ps ! i))"

lemma status_sum_update:
  assumes "k < length ps"
  shows "status_sum f (ps[k := x]) = status_sum f ps - f k (ps ! k) + f k x"
proof -
  have "(\<Sum>i<length ps. f i (ps[k := x] ! i)) = (\<Sum>i\<in>{..<length ps} - {k}. f i (ps ! i)) + f k x"
    using assms by (subst sum.remove [of _ k]) (auto intro!: sum.cong)
  moreover have "(\<Sum>i<length ps. f i (ps ! i)) = (\<Sum>i\<in>{..<length ps} - {k}. f i (ps ! i)) + f k (ps ! k)"
    using assms by (subst sum.remove [of _ k]) auto
  ultimately show ?thesis by (simp add: status_sum_def)
qed

lemma status_sum_snoc: "status_sum f (ps @ [x]) = status_sum f ps + f (length ps) x"
  by (simp add: status_sum_def nth_append)

lemma status_sum_Empty:
  "(\<And>i. f i Empty = 0) \<Longrightarrow> status_sum f (ps @ replicate n Empty) = status_sum f ps"
proof (induction n)
  case (Suc n)
  have "ps @ replicate (Suc n) Empty = (ps @ replicate n Empty) @ [Empty]"
    by (simp flip: replicate_append_same)
  then show ?case using Suc by (simp only: status_sum_snoc)
qed simp

lemma status_sum_cong:
  "(\<And>i. i < length ps \<Longrightarrow> f i (ps ! i) = g i (ps ! i)) \<Longrightarrow> status_sum f ps = status_sum g ps"
  by (simp add: status_sum_def)

lemma status_sum_zero: "(\<And>i. f i Empty = 0) \<Longrightarrow> status_sum f (replicate n Empty) = 0"
  by (simp add: status_sum_def)

definition pending_weight :: "nat \<Rightarrow> part_status \<Rightarrow> int" where
  "pending_weight i st = (if st = Pending then 1 else 0)"

subsection \<open>The streaming window\<close>

definition in_window :: "parts \<Rightarrow> int \<Rightarrow> bool" where
  "in_window s pid \<longleftrightarrow> (\<exists>b. is_part_in_streaming_limit s pid = Some b \<and> b)"

definition window_weight :: "parts \<Rightarrow> nat \<Rightarrow> part_status \<Rightarrow> int" where
  "window_weight s i st =
     (if st = Ready \<and> in_window s (int i) then int (part_len (get_part s (int i))) else 0)"

lemma in_limit_eq: "pid < part_count s \<Longrightarrow> is_part_in_streaming_limit s pid = Some (in_window s pid)"
  by (auto simp: is_part_in_streaming_limit_def in_window_def Let_def check_def)

lemma sum_streaming_ready_eq:
  assumes "part_count s = int (length (part_statuses s))"
  shows "sum_streaming_ready s (all_part_ids s) =
    Some (status_sum (window_weight s) (part_statuses s))"
proof -
  have "sum_streaming_ready s (map int [m..<n]) =
      Some (\<Sum>i=m..<n. window_weight s i (part_statuses s ! i))"
    if "m \<le> n" "n \<le> length (part_statuses s)" for m n
    using that
  proof (induction "n - m" arbitrary: m)
    case (Suc k)
    then have m: "m < n" "m < length (part_statuses s)" by linarith+
    have "is_part_in_streaming_limit s (int m) = Some (in_window s (int m))"
      using assms m(2) by (intro in_limit_eq) simp
    moreover have "status_at (part_statuses s) (int m) = Some (part_statuses s ! m)"
      using m(2) by (simp add: status_at_eq)
    moreover have "sum_streaming_ready s (map int [Suc m..<n]) =
        Some (\<Sum>i=Suc m..<n. window_weight s i (part_statuses s ! i))"
      using Suc by simp
    ultimately show ?case
      using m by (simp add: upt_conv_Cons sum.atLeast_Suc_lessThan window_weight_def del: upt_Suc)
  qed simp
  from this [of 0 "length (part_statuses s)"] show ?thesis
    using assms by (simp add: all_part_ids_def status_sum_def lessThan_atLeast0)
qed

text \<open>The accounting of ready bytes inside the streaming window.\<close>

definition window_accounted :: "parts \<Rightarrow> bool" where
  "window_accounted s \<longleftrightarrow> (streaming_limit s \<noteq> 0 \<longrightarrow>
     streaming_ready_size s = status_sum (window_weight s) (part_statuses s))"

subsection \<open>Well-formed states\<close>

definition cursor_ok :: "part_status list \<Rightarrow> (part_status \<Rightarrow> bool) \<Rightarrow> int \<Rightarrow> int \<Rightarrow> bool" where
  "cursor_ok ps P from' cursor \<longleftrightarrow> 0 \<le> cursor \<and> cursor \<le> int (length ps) \<and>
     (\<forall>k. from' \<le> k \<and> 0 \<le> k \<and> k < cursor \<longrightarrow> P (ps ! nat k))"

definition streaming_from :: "parts \<Rightarrow> int" where
  "streaming_from s =
     (if streaming_offset s = 0 then int (length (part_statuses s))
      else streaming_offset s div int (part_size s))"

definition parts_shape :: "parts \<Rightarrow> bool" where
  "parts_shape s \<longleftrightarrow>
     0 < part_size s \<and> part_count s = int (length (part_statuses s)) \<and>
     pending_count s = status_sum pending_weight (part_statuses s) \<and>
     cursor_ok (part_statuses s) (\<lambda>st. st \<noteq> Empty) 0 (first_empty_part s) \<and>
     cursor_ok (part_statuses s) (\<lambda>st. st = Ready) 0 (first_not_ready_part s) \<and>
     0 \<le> streaming_offset s \<and> 0 \<le> streaming_limit s \<and>
     in_int32 (streaming_offset s div int (part_size s)) \<and>
     cursor_ok (part_statuses s) (\<lambda>st. st \<noteq> Empty) (streaming_from s) (first_streaming_empty_part s) \<and>
     cursor_ok (part_statuses s) (\<lambda>st. st = Ready) (streaming_from s) (first_streaming_not_ready_part s) \<and>
     (\<forall>i. bitmask_get (bitmask s) i \<longrightarrow>
        i < int (length (part_statuses s)) \<and> part_statuses s ! nat i = Ready)"

definition parts_wf :: "parts \<Rightarrow> bool" where
  "parts_wf s \<longleftrightarrow> parts_shape s \<and> window_accounted s"

text \<open>Fields the streaming window does not depend on.\<close>

lemma get_part_frame [simp]:
  "get_part (s\<lparr>first_empty_part := x0\<rparr>) = get_part s"
  "get_part (s\<lparr>first_not_ready_part := x1\<rparr>) = get_part s"
  "get_part (s\<lparr>first_streaming_empty_part := x2\<rparr>) = get_part s"
  "get_part (s\<lparr>first_streaming_not_ready_part := x3\<rparr>) = get_part s"
  "get_part (s\<lparr>pending_count := x4\<rparr>) = get_part s"
  "get_part (s\<lparr>ready_size := x5\<rparr>) = get_part s"
  "get_part (s\<lparr>bitmask := x6\<rparr>) = get_part s"
  "get_part (s\<lparr>part_statuses := x7\<rparr>) = get_part s"
  "get_part (s\<lparr>streaming_ready_size := x8\<rparr>) = get_part s"
  "get_part (s\<lparr>checked_prefix_size := x9\<rparr>) = get_part s"
  by (simp_all add: get_part_def fun_eq_iff)

lemma in_window_frame [simp]:
  "in_window (s\<lparr>first_empty_part := x0\<rparr>) = in_window s"
  "in_window (s\<lparr>first_not_ready_part := x1\<rparr>) = in_window s"
  "in_window (s\<lparr>first_streaming_empty_part := x2\<rparr>) = in_window s"
  "in_window (s\<lparr>first_streaming_not_ready_part := x3\<rparr>) = in_window s"
  "in_window (s\<lparr>pending_count := x4\<rparr>) = in_window s"
  "in_window (s\<lparr>ready_size := x5\<rparr>) = in_window s"
  "in_window (s\<lparr>bitmask := x6\<rparr>) = in_window s"
  "in_window (s\<lparr>part_statuses := x7\<rparr>) = in_window s"
  "in_window (s\<lparr>streaming_ready_size := x8\<rparr>) = in_window s"
  "in_window (s\<lparr>checked_prefix_size := x9\<rparr>) = in_window s"
  by (simp_all add: in_window_def is_part_in_streaming_limit_def fun_eq_iff Let_def)

lemma window_weight_frame [simp]:
  "window_weight (s\<lparr>first_empty_part := x0\<rparr>) = window_weight s"
  "window_weight (s\<lparr>first_not_ready_part := x1\<rparr>) = window_weight s"
  "window_weight (s\<lparr>first_streaming_empty_part := x2\<rparr>) = window_weight s"
  "window_weight (s\<lparr>first_streaming_not_ready_part := x3\<rparr>) = window_weight s"
  "window_weight (s\<lparr>pending_count := x4\<rparr>) = window_weight s"
  "window_weight (s\<lparr>ready_size := x5\<rparr>) = window_weight s"
  "window_weight (s\<lparr>bitmask := x6\<rparr>) = window_weight s"
  "window_weight (s\<lparr>part_statuses := x7\<rparr>) = window_weight s"
  "window_weight (s\<lparr>streaming_ready_size := x8\<rparr>) = window_weight s"
  "window_weight (s\<lparr>checked_prefix_size := x9\<rparr>) = window_weight s"
  by (simp_all add: window_weight_def fun_eq_iff)

lemma window_weight_simps [simp]: "window_weight s i Empty = 0" "window_weight s i Pending = 0"
  by (simp_all add: window_weight_def)

lemma streaming_from_frame [simp]:
  "streaming_from (s\<lparr>first_empty_part := x0\<rparr>) = streaming_from s"
  "streaming_from (s\<lparr>first_not_ready_part := x1\<rparr>) = streaming_from s"
  "streaming_from (s\<lparr>first_streaming_empty_part := x2\<rparr>) = streaming_from s"
  "streaming_from (s\<lparr>first_streaming_not_ready_part := x3\<rparr>) = streaming_from s"
  "streaming_from (s\<lparr>pending_count := x4\<rparr>) = streaming_from s"
  "streaming_from (s\<lparr>ready_size := x5\<rparr>) = streaming_from s"
  "streaming_from (s\<lparr>bitmask := x6\<rparr>) = streaming_from s"
  "streaming_from (s\<lparr>checked_prefix_size := x7\<rparr>) = streaming_from s"
  by (simp_all add: streaming_from_def)

lemma window_accounted_frame [simp]:
  "window_accounted (s\<lparr>first_empty_part := x0\<rparr>) = window_accounted s"
  "window_accounted (s\<lparr>first_not_ready_part := x1\<rparr>) = window_accounted s"
  "window_accounted (s\<lparr>first_streaming_empty_part := x2\<rparr>) = window_accounted s"
  "window_accounted (s\<lparr>first_streaming_not_ready_part := x3\<rparr>) = window_accounted s"
  "window_accounted (s\<lparr>pending_count := x4\<rparr>) = window_accounted s"
  "window_accounted (s\<lparr>ready_size := x5\<rparr>) = window_accounted s"
  "window_accounted (s\<lparr>bitmask := x6\<rparr>) = window_accounted s"
  "window_accounted (s\<lparr>checked_prefix_size := x7\<rparr>) = window_accounted s"
  by (simp_all add: window_accounted_def)

lemma window_cong:
  assumes "part_size t = part_size s" "unknown_size_flag t = unknown_size_flag s"
    "max_size t = max_size s" "file_size t = file_size s"
    "streaming_offset t = streaming_offset s" "streaming_limit t = streaming_limit s"
    "pid < part_count s" "pid < part_count t"
  shows "get_part t pid = get_part s pid" "in_window t pid = in_window s pid"
proof -
  show g: "get_part t pid = get_part s pid" by (simp only: get_part_def assms)
  show "in_window t pid = in_window s pid"
    by (simp only: in_window_def is_part_in_streaming_limit_def assms g)
qed

lemma pending_weight_simps [simp]:
  "pending_weight i Empty = 0" "pending_weight i Pending = 1" "pending_weight i Ready = 0"
  by (simp_all add: pending_weight_def)

lemma parts_wfD:
  assumes "parts_wf s"
  shows "0 < part_size s" "part_count s = int (length (part_statuses s))"
    "pending_count s = status_sum pending_weight (part_statuses s)"
    "cursor_ok (part_statuses s) (\<lambda>st. st \<noteq> Empty) 0 (first_empty_part s)"
    "cursor_ok (part_statuses s) (\<lambda>st. st = Ready) 0 (first_not_ready_part s)"
    "0 \<le> streaming_offset s" "0 \<le> streaming_limit s"
    "in_int32 (streaming_offset s div int (part_size s))"
    "cursor_ok (part_statuses s) (\<lambda>st. st \<noteq> Empty) (streaming_from s) (first_streaming_empty_part s)"
    "cursor_ok (part_statuses s) (\<lambda>st. st = Ready) (streaming_from s) (first_streaming_not_ready_part s)"
    "bitmask_get (bitmask s) i \<Longrightarrow> i < int (length (part_statuses s)) \<and> part_statuses s ! nat i = Ready"
    "window_accounted s"
  using assms by (simp_all add: parts_wf_def parts_shape_def)

lemma cursor_advance:
  assumes "cursor_ok ps P from' c"
  shows "\<exists>j. advance ps (int (length ps)) P c = Some j \<and> cursor_ok ps P from' j \<and> c \<le> j \<and>
    (j < int (length ps) \<longrightarrow> \<not> P (ps ! nat j))"
proof -
  obtain j where j: "advance ps (int (length ps)) P c = Some j" "c \<le> j" "j \<le> int (length ps)"
    "\<forall>k. c \<le> k \<and> k < j \<longrightarrow> P (ps ! nat k)" "j < int (length ps) \<longrightarrow> \<not> P (ps ! nat j)"
    using advance_spec [of c "int (length ps)" ps P] assms by (auto simp: cursor_ok_def)
  have "cursor_ok ps P from' j"
    using assms j(2-4) by (auto simp: cursor_ok_def not_less [symmetric])
  then show ?thesis using j by blast
qed

lemma cursor_vacuous: "0 \<le> c \<Longrightarrow> c \<le> int (length ps) \<Longrightarrow> int (length ps) \<le> from' \<Longrightarrow> cursor_ok ps P from' c"
  by (auto simp: cursor_ok_def)

lemma cursor_bounds: "cursor_ok ps P from' c \<Longrightarrow> 0 \<le> c \<and> c \<le> int (length ps)"
  by (simp add: cursor_ok_def)

lemma update_first_empty_part_wf:
  assumes "parts_wf s"
  shows "\<exists>i j. update_first_empty_part s =
      Some (s\<lparr>first_empty_part := i, first_streaming_empty_part := j\<rparr>) \<and>
    parts_wf (s\<lparr>first_empty_part := i, first_streaming_empty_part := j\<rparr>) \<and>
    (i < part_count s \<longrightarrow> part_statuses s ! nat i = Empty) \<and>
    (j < part_count s \<longrightarrow> part_statuses s ! nat j = Empty)"
proof -
  note wf = parts_wfD [OF assms]
  obtain i where i: "advance (part_statuses s) (part_count s) (\<lambda>st. st \<noteq> Empty) (first_empty_part s) = Some i"
    "cursor_ok (part_statuses s) (\<lambda>st. st \<noteq> Empty) 0 i" "i < part_count s \<longrightarrow> part_statuses s ! nat i = Empty"
    using cursor_advance [OF wf(4)] wf(2) by auto
  obtain j where j: "advance (part_statuses s) (part_count s) (\<lambda>st. st \<noteq> Empty) (first_streaming_empty_part s) = Some j"
    "cursor_ok (part_statuses s) (\<lambda>st. st \<noteq> Empty) (streaming_from s) j"
    "j < part_count s \<longrightarrow> part_statuses s ! nat j = Empty"
    using cursor_advance [OF wf(9)] wf(2) by auto
  define j' where "j' = (if streaming_offset s = 0 then i else j)"
  have "update_first_empty_part s = Some (s\<lparr>first_empty_part := i, first_streaming_empty_part := j'\<rparr>)"
    using i(1) j(1) by (simp add: update_first_empty_part_def j'_def)
  moreover have "cursor_ok (part_statuses s) (\<lambda>st. st \<noteq> Empty) (streaming_from s) j'"
    using i(2) j(2) wf(2) cursor_bounds [OF i(2)]
    by (auto simp: j'_def streaming_from_def intro: cursor_vacuous)
  then have "parts_wf (s\<lparr>first_empty_part := i, first_streaming_empty_part := j'\<rparr>)"
    using assms i(2) by (simp add: parts_wf_def parts_shape_def)
  moreover have "j' < part_count s \<longrightarrow> part_statuses s ! nat j' = Empty"
    using i(3) j(3) by (simp add: j'_def)
  ultimately show ?thesis using i(3) by blast
qed

lemma update_first_not_ready_part_wf:
  assumes "parts_wf s"
  shows "\<exists>i j. update_first_not_ready_part s =
      Some (s\<lparr>first_not_ready_part := i, first_streaming_not_ready_part := j\<rparr>) \<and>
    parts_wf (s\<lparr>first_not_ready_part := i, first_streaming_not_ready_part := j\<rparr>) \<and>
    (i < part_count s \<longrightarrow> part_statuses s ! nat i \<noteq> Ready) \<and>
    (j < part_count s \<longrightarrow> part_statuses s ! nat j \<noteq> Ready)"
proof -
  note wf = parts_wfD [OF assms]
  obtain i where i: "advance (part_statuses s) (part_count s) (\<lambda>st. st = Ready) (first_not_ready_part s) = Some i"
    "cursor_ok (part_statuses s) (\<lambda>st. st = Ready) 0 i" "i < part_count s \<longrightarrow> part_statuses s ! nat i \<noteq> Ready"
    using cursor_advance [OF wf(5)] wf(2) by auto
  obtain j where j: "advance (part_statuses s) (part_count s) (\<lambda>st. st = Ready) (first_streaming_not_ready_part s) = Some j"
    "cursor_ok (part_statuses s) (\<lambda>st. st = Ready) (streaming_from s) j"
    "j < part_count s \<longrightarrow> part_statuses s ! nat j \<noteq> Ready"
    using cursor_advance [OF wf(10)] wf(2) by auto
  define j' where "j' = (if streaming_offset s = 0 then i else j)"
  have "update_first_not_ready_part s =
      Some (s\<lparr>first_not_ready_part := i, first_streaming_not_ready_part := j'\<rparr>)"
    using i(1) j(1) by (simp add: update_first_not_ready_part_def j'_def)
  moreover have "cursor_ok (part_statuses s) (\<lambda>st. st = Ready) (streaming_from s) j'"
    using i(2) j(2) wf(2) cursor_bounds [OF i(2)]
    by (auto simp: j'_def streaming_from_def intro: cursor_vacuous)
  then have "parts_wf (s\<lparr>first_not_ready_part := i, first_streaming_not_ready_part := j'\<rparr>)"
    using assms i(2) by (simp add: parts_wf_def parts_shape_def)
  moreover have "j' < part_count s \<longrightarrow> part_statuses s ! nat j' \<noteq> Ready"
    using i(3) j(3) by (simp add: j'_def)
  ultimately show ?thesis using i(3) by blast
qed

subsection \<open>Starting parts\<close>

lemma cursor_ok_update:
  "cursor_ok ps P from' c \<Longrightarrow> (from' \<le> int k \<Longrightarrow> int k < c \<Longrightarrow> P x) \<Longrightarrow> cursor_ok (ps[k := x]) P from' c"
proof -
  assume c: "cursor_ok ps P from' c" and x: "from' \<le> int k \<Longrightarrow> int k < c \<Longrightarrow> P x"
  have "P (ps[k := x] ! nat j)" if "from' \<le> j" "0 \<le> j" "j < c" for j
    using that c x by (cases "nat j = k") (auto simp: cursor_ok_def)
  then show ?thesis using c by (simp add: cursor_ok_def)
qed

lemma cursor_ok_snoc: "cursor_ok ps P from' c \<Longrightarrow> cursor_ok (ps @ [x]) P from' c"
  by (auto simp: cursor_ok_def nth_append)

lemma on_part_start_wf:
  assumes "parts_wf s" "0 \<le> pid" "pid < part_count s" "part_statuses s ! nat pid = Empty"
  shows "\<exists>s'. on_part_start pid s = Some s' \<and> parts_wf s' \<and>
    s' = s\<lparr>part_statuses := (part_statuses s)[nat pid := Pending], pending_count := pending_count s + 1\<rparr>"
proof -
  note wf = parts_wfD [OF assms(1)]
  have k: "nat pid < length (part_statuses s)" using assms(2,3) wf(2) by simp
  let ?s = "s\<lparr>part_statuses := (part_statuses s)[nat pid := Pending], pending_count := pending_count s + 1\<rparr>"
  have "on_part_start pid s = Some ?s"
    using assms(2-) wf(2) by (simp add: on_part_start_def status_at_eq set_status_eq)
  moreover have "parts_wf ?s"
  proof -
    have "streaming_from ?s = streaming_from s" by (simp add: streaming_from_def)
    moreover have "status_sum pending_weight ((part_statuses s)[nat pid := Pending]) = pending_count s + 1"
      using k assms(4) wf(3) by (simp add: status_sum_update)
    moreover have "window_accounted ?s"
      using wf(12) k assms(4) by (simp add: window_accounted_def status_sum_update)
    moreover have "cursor_ok ((part_statuses s)[nat pid := Pending]) (\<lambda>st. st = Ready) f c"
      if c: "cursor_ok (part_statuses s) (\<lambda>st. st = Ready) f c" for f c
    proof (rule cursor_ok_update [OF c])
      assume "f \<le> int (nat pid)" "int (nat pid) < c"
      then have "part_statuses s ! nat pid = Ready"
        using c assms(2) by (auto simp: cursor_ok_def)
      then show "Pending = Ready" using assms(4) by simp
    qed
    moreover have "i < int (length (part_statuses s)) \<and> (part_statuses s)[nat pid := Pending] ! nat i = Ready"
      if "bitmask_get (bitmask s) i" for i
    proof -
      have "nat i \<noteq> nat pid" using wf(11) [OF that] assms(4) by auto
      then show ?thesis using wf(11) [OF that] by simp
    qed
    moreover have "cursor_ok ((part_statuses s)[nat pid := Pending]) (\<lambda>st. st \<noteq> Empty) f c"
      if "cursor_ok (part_statuses s) (\<lambda>st. st \<noteq> Empty) f c" for f c
      using that by (rule cursor_ok_update) simp
    ultimately show ?thesis
      using wf by (simp add: parts_wf_def parts_shape_def)
  qed
  ultimately show ?thesis by blast
qed

lemma parts_wf_add_part:
  assumes "parts_wf s"
  shows "parts_wf (s\<lparr>part_count := part_count s + 1, part_statuses := part_statuses s @ [Empty]\<rparr>)"
proof -
  note wf = parts_wfD [OF assms]
  let ?s = "s\<lparr>part_count := part_count s + 1, part_statuses := part_statuses s @ [Empty]\<rparr>"
  have ww: "window_weight ?s i st = window_weight s i st" if "i < length (part_statuses s)" for i st
    unfolding window_weight_def using that wf(2) window_cong [of ?s s "int i"] by simp
  have "status_sum (window_weight ?s) (part_statuses s) = status_sum (window_weight s) (part_statuses s)"
    by (rule status_sum_cong) (rule ww)
  then have "status_sum (window_weight ?s) (part_statuses s @ [Empty]) =
      status_sum (window_weight s) (part_statuses s)"
    by (simp only: status_sum_snoc window_weight_simps add_0_right)
  then have "window_accounted ?s" using wf(12) by (simp add: window_accounted_def)
  moreover have "cursor_ok (part_statuses s @ [Empty]) P (streaming_from ?s) c"
    if "cursor_ok (part_statuses s) P (streaming_from s) c" for P c
    using that by (auto simp: cursor_ok_def streaming_from_def nth_append)
  moreover have "i < int (length (part_statuses s @ [Empty])) \<and> (part_statuses s @ [Empty]) ! nat i = Ready"
    if "bitmask_get (bitmask s) i" for i
    using wf(11) [OF that] that by (auto simp: nth_append bitmask_get_iff)
  ultimately show ?thesis
    using wf by (simp add: parts_wf_def parts_shape_def status_sum_snoc cursor_ok_snoc)
qed

text \<open>What \<open>start_part\<close> may do: nothing, or hand out one part that was empty.\<close>

definition hands_out :: "parts \<Rightarrow> part \<Rightarrow> parts \<Rightarrow> bool" where
  "hands_out s p s' \<longleftrightarrow>
     (let k = nat (part_id p) in
      0 \<le> part_id p \<and> k \<le> length (part_statuses s) \<and>
      (k < length (part_statuses s) \<longrightarrow> part_statuses s ! k = Empty) \<and>
      part_statuses s' = (part_statuses s @ replicate (Suc k - length (part_statuses s)) Empty)[k := Pending] \<and>
      p = get_part s' (part_id p) \<and> 0 < part_len p)"

lemma part_len_pos:
  "pid * int (part_size s) < (if unknown_size_flag s then max_size s else file_size s) \<Longrightarrow>
     0 < part_size s \<Longrightarrow> 0 < part_len (get_part s pid)"
  by (auto simp: get_part_def Let_def mult.commute)

lemma start_chosen_part_wf:
  assumes "parts_wf s" "0 \<le> pid" "pid < part_count s" "part_statuses s ! nat pid = Empty"
  shows "\<exists>s' p. start_chosen_part pid s = Some (s', Inr p) \<and> parts_wf s' \<and>
    (s' = s \<and> p = get_empty_part \<or>
     s' = s\<lparr>part_statuses := (part_statuses s)[nat pid := Pending], pending_count := pending_count s + 1\<rparr> \<and>
     p = get_part s' pid \<and> 0 < part_len p \<and> in_window s' pid)"
proof (cases "\<not> in_window s pid \<or>
    pid * int (part_size s) \<ge> (if unknown_size_flag s then max_size s else file_size s)")
  case True
  then show ?thesis
    using assms in_limit_eq [OF assms(3)] by (simp add: start_chosen_part_def)
next
  case False
  obtain s' where s': "on_part_start pid s = Some s'" "parts_wf s'"
    "s' = s\<lparr>part_statuses := (part_statuses s)[nat pid := Pending], pending_count := pending_count s + 1\<rparr>"
    using on_part_start_wf [OF assms] by blast
  have "start_chosen_part pid s = Some (s', Inr (get_part s' pid))"
    using False assms in_limit_eq [OF assms(3)] s'(1) parts_wfD(2) [OF assms(1)]
    by (simp add: start_chosen_part_def status_at_eq)
  moreover have "0 < part_len (get_part s' pid)"
    using False part_len_pos [of pid s] parts_wfD(1) [OF assms(1)] s'(3) by simp
  moreover have "in_window s' pid" using False s'(3) by simp
  ultimately show ?thesis using s'(2,3) by blast
qed

definition same_sizes :: "parts \<Rightarrow> parts \<Rightarrow> bool" where
  "same_sizes s s' \<longleftrightarrow> part_size s' = part_size s \<and> unknown_size_flag s' = unknown_size_flag s \<and>
     max_size s' = max_size s \<and> min_size s' = min_size s \<and> file_size s' = file_size s \<and>
     ready_size s' = ready_size s"

definition start_outcome :: "parts \<Rightarrow> (parts \<times> part result) option \<Rightarrow> bool" where
  "start_outcome s out \<longleftrightarrow> (\<exists>s' r. out = Some (s', r) \<and>
    (\<forall>e. r = Inl e \<and> err_code e = -1 \<longrightarrow>
       parts_wf s' \<and> same_sizes s s' \<and> part_statuses s' = part_statuses s) \<and>
    (\<forall>p. r = Inr p \<longrightarrow> parts_wf s' \<and> same_sizes s s' \<and> part_count s' \<le> max (part_count s) 8064 \<and>
       (p = get_empty_part \<and> pending_count s' = pending_count s \<and>
          (\<exists>m. part_statuses s' = part_statuses s @ replicate m Empty) \<or>
        hands_out s p s' \<and> in_window s' (part_id p) \<and> pending_count s' = pending_count s + 1)))"

lemma start_chosen_part_outcome:
  assumes "parts_wf t" "0 \<le> pid" "nat pid \<le> length (part_statuses s)"
    "part_statuses t = part_statuses s @ replicate m Empty" "pid < part_count t"
    "m = Suc (nat pid) - length (part_statuses s)"
    "part_statuses t ! nat pid = Empty" "pending_count t = pending_count s"
    "same_sizes s t" "part_count t \<le> max (part_count s) 8064"
  shows "start_outcome s (start_chosen_part pid t)"
proof -
  obtain s' p where p: "start_chosen_part pid t = Some (s', Inr p)" "parts_wf s'"
    "s' = t \<and> p = get_empty_part \<or>
     s' = t\<lparr>part_statuses := (part_statuses t)[nat pid := Pending], pending_count := pending_count t + 1\<rparr> \<and>
     p = get_part s' pid \<and> 0 < part_len p \<and> in_window s' pid"
    using start_chosen_part_wf [OF assms(1,2,5,7)] by blast
  have "hands_out s p s' \<and> in_window s' (part_id p) \<and> pending_count s' = pending_count s + 1"
    if "\<not> (s' = t \<and> p = get_empty_part)"
  proof -
    have s': "part_statuses s' = (part_statuses t)[nat pid := Pending]"
      "pending_count s' = pending_count t + 1" "p = get_part s' pid" "0 < part_len p" "in_window s' pid"
      using p(3) that by auto
    have "part_id p = pid" using s'(3) by (simp add: get_part_def Let_def)
    moreover have "part_statuses s ! nat pid = Empty" if "nat pid < length (part_statuses s)"
      using assms(4,7) that by (simp add: nth_append)
    ultimately show ?thesis
      using s' assms(2,3,4,6,8) by (simp add: hands_out_def Let_def)
  qed
  moreover have "same_sizes s s'" "part_count s' \<le> max (part_count s) 8064"
    using p(3) assms(9,10) by (auto simp: same_sizes_def)
  moreover have "(s' = t \<and> p = get_empty_part) \<longrightarrow>
      (\<exists>m. part_statuses s' = part_statuses s @ replicate m Empty)" using assms(4) by blast
  ultimately show ?thesis
    using p(1,2) assms(8) by (auto simp: start_outcome_def)
qed

lemma start_part_outcome:
  assumes "parts_wf s"
  shows "start_outcome s (start_part s)"
proof -
  obtain i j where ij: "update_first_empty_part s =
        Some (s\<lparr>first_empty_part := i, first_streaming_empty_part := j\<rparr>)"
      "parts_wf (s\<lparr>first_empty_part := i, first_streaming_empty_part := j\<rparr>)"
      "i < part_count s \<longrightarrow> part_statuses s ! nat i = Empty"
      "j < part_count s \<longrightarrow> part_statuses s ! nat j = Empty"
    using update_first_empty_part_wf [OF assms] by blast
  define t where "t = s\<lparr>first_empty_part := i, first_streaming_empty_part := j\<rparr>"
  have t: "part_statuses t = part_statuses s" "part_count t = part_count s"
    "pending_count t = pending_count s" "first_empty_part t = i" "first_streaming_empty_part t = j"
    by (simp_all add: t_def)
  have wt: "parts_wf t" using ij(2) by (simp add: t_def)
  have sizes: "same_sizes s t" "\<And>n sts. same_sizes s (t\<lparr>part_count := n, part_statuses := sts\<rparr>)"
    by (simp_all add: t_def same_sizes_def)
  have len: "part_count s = int (length (part_statuses s))" using parts_wfD(2) [OF assms] .
  have bi: "0 \<le> i" "i \<le> part_count s" and bj: "0 \<le> j" "j \<le> part_count s"
    using cursor_bounds [OF parts_wfD(4) [OF wt]] cursor_bounds [OF parts_wfD(9) [OF wt]] t len
    by simp_all
  have chosen: "start_outcome s (start_chosen_part pid t)"
    if "0 \<le> pid" "pid < part_count s" "part_statuses s ! nat pid = Empty" for pid
    using that t len sizes by (intro start_chosen_part_outcome [OF wt]) auto
  let ?u = "t\<lparr>part_count := part_count t + 1, part_statuses := part_statuses t @ [Empty]\<rparr>"
  have grown: "start_outcome s (start_chosen_part j ?u)" if "j = part_count s" "part_count s + 1 \<le> 8064"
    using that t len sizes
    by (intro start_chosen_part_outcome [OF parts_wf_add_part [OF wt], of _ _ 1]) auto
  have failed: "start_outcome s (Some (s', Inl (Err 0 m)))" for s' m by (simp add: start_outcome_def)
  have waits: "start_outcome s (Some (t, Inl (Err (-1) m)))" for m
    using wt t sizes by (simp add: start_outcome_def)
  have idle: "start_outcome s (Some (t, Inr get_empty_part))"
    using wt t sizes by (auto simp: start_outcome_def intro: exI [of _ 0])
  show ?thesis
    unfolding start_part_def ij(1) t_def [symmetric] bind.bind_lunit Let_def t(4,5)
    using grown chosen [of j] chosen [of i] bi bj ij(3,4) t len
    by (auto simp: Let_def failed waits idle parts_limits)
qed

subsection \<open>Finished and failed parts\<close>

lemma part_statuses_Ready_bitmask:
  assumes "parts_wf s" "bitmask_get (bitmask s) i"
  shows "nat i < length (part_statuses s)" "part_statuses s ! nat i = Ready"
  using parts_wfD(11) [OF assms] assms(2) by (auto simp: bitmask_get_iff)

lemma on_part_failed_wf:
  assumes "parts_wf s" "0 \<le> pid" "pid < part_count s" "part_statuses s ! nat pid = Pending"
  shows "\<exists>s'. on_part_failed pid s = Some s' \<and> parts_wf s' \<and>
    part_statuses s' = (part_statuses s)[nat pid := Empty] \<and> pending_count s' = pending_count s - 1 \<and>
    same_sizes s s'"
proof -
  note wf = parts_wfD [OF assms(1)]
  have k: "nat pid < length (part_statuses s)" using assms(2,3) wf(2) by simp
  let ?ps = "(part_statuses s)[nat pid := Empty]"
  define fe where "fe = (if pid < first_empty_part s then pid else first_empty_part s)"
  define fs where "fs = (if streaming_offset s = 0 then pid
    else if pid \<ge> streaming_offset s div int (part_size s) \<and> pid < first_streaming_empty_part s then pid
    else first_streaming_empty_part s)"
  let ?s = "s\<lparr>pending_count := pending_count s - 1, part_statuses := ?ps, first_empty_part := fe,
    first_streaming_empty_part := fs\<rparr>"
  have "on_part_failed pid s = Some ?s"
    using assms(2-) wf(2,8)
    by (simp add: on_part_failed_def status_at_eq set_status_eq fe_def fs_def narrow_cast_int32_def Let_def)
  moreover have "parts_wf ?s"
  proof -
    have "status_sum pending_weight ?ps = pending_count s - 1"
      using k assms(4) wf(3) by (simp add: status_sum_update)
    moreover have "window_accounted ?s"
      using wf(12) k assms(4) by (simp add: window_accounted_def status_sum_update)
    moreover have ready: "cursor_ok ?ps (\<lambda>st. st = Ready) f c"
      if c: "cursor_ok (part_statuses s) (\<lambda>st. st = Ready) f c" for f c
    proof (rule cursor_ok_update [OF c])
      assume "f \<le> int (nat pid)" "int (nat pid) < c"
      then have "part_statuses s ! nat pid = Ready" using c assms(2) by (auto simp: cursor_ok_def)
      then show "Empty = Ready" using assms(4) by simp
    qed
    moreover have "cursor_ok ?ps (\<lambda>st. st \<noteq> Empty) 0 fe"
    proof -
      have "cursor_ok (part_statuses s) (\<lambda>st. st \<noteq> Empty) 0 fe"
        using wf(4) assms(2) by (auto simp: fe_def cursor_ok_def)
      then show ?thesis
        by (rule cursor_ok_update) (use assms(2) in \<open>auto simp: fe_def split: if_splits\<close>)
    qed
    moreover have "cursor_ok ?ps (\<lambda>st. st \<noteq> Empty) (streaming_from ?s) fs"
    proof (cases "streaming_offset s = 0")
      case True
      then show ?thesis
        using assms(2,3) wf(2) by (intro cursor_vacuous) (auto simp: fs_def streaming_from_def)
    next
      case False
      have "cursor_ok (part_statuses s) (\<lambda>st. st \<noteq> Empty) (streaming_from s) fs"
        using wf(9) assms(2) False by (auto simp: fs_def cursor_ok_def)
      then have "cursor_ok ?ps (\<lambda>st. st \<noteq> Empty) (streaming_from s) fs"
        by (rule cursor_ok_update)
          (use assms(2) False in \<open>auto simp: fs_def streaming_from_def split: if_splits\<close>)
      then show ?thesis using False by (simp add: streaming_from_def)
    qed
    moreover have "cursor_ok ?ps (\<lambda>st. st = Ready) (streaming_from ?s) (first_streaming_not_ready_part s)"
      using ready [OF wf(10)] by (cases "streaming_offset s = 0") (simp_all add: streaming_from_def)
    moreover have "i < int (length (part_statuses s)) \<and> ?ps ! nat i = Ready" if "bitmask_get (bitmask s) i" for i
    proof -
      have "nat i \<noteq> nat pid" using wf(11) [OF that] assms(4) by auto
      then show ?thesis using wf(11) [OF that] by simp
    qed
    ultimately show ?thesis
      using wf by (simp add: parts_wf_def parts_shape_def)
  qed
  ultimately show ?thesis by (intro exI [of _ ?s]) (simp add: same_sizes_def)
qed

text \<open>Recomputing the window restores its accounting, whatever changed before.\<close>

lemma set_streaming_limit_eq:
  assumes "part_count s = int (length (part_statuses s))"
  shows "\<exists>n. set_streaming_limit limit s =
      Some (s\<lparr>streaming_limit := limit, streaming_ready_size := n\<rparr>) \<and>
    window_accounted (s\<lparr>streaming_limit := limit, streaming_ready_size := n\<rparr>)"
proof (cases "limit = 0")
  case True
  then show ?thesis by (intro exI [of _ 0]) (simp add: set_streaming_limit_def window_accounted_def)
next
  case False
  let ?t = "s\<lparr>streaming_limit := limit, streaming_ready_size := 0\<rparr>"
  let ?n = "status_sum (window_weight ?t) (part_statuses ?t)"
  have "sum_streaming_ready ?t (all_part_ids ?t) = Some ?n"
    using assms by (intro sum_streaming_ready_eq) simp
  moreover have "window_weight (s\<lparr>streaming_limit := limit, streaming_ready_size := ?n\<rparr>) = window_weight ?t"
    using window_weight_frame(9) [where s = ?t] by simp
  ultimately show ?thesis
    using False by (intro exI [of _ ?n]) (simp add: set_streaming_limit_def window_accounted_def)
qed

lemma set_streaming_limit_wf:
  assumes "parts_shape s" "0 \<le> limit"
  shows "\<exists>n. set_streaming_limit limit s =
      Some (s\<lparr>streaming_limit := limit, streaming_ready_size := n\<rparr>) \<and>
    parts_wf (s\<lparr>streaming_limit := limit, streaming_ready_size := n\<rparr>)"
proof -
  have "part_count s = int (length (part_statuses s))" using assms(1) by (simp add: parts_shape_def)
  from set_streaming_limit_eq [OF this, of limit] obtain n where
    n: "set_streaming_limit limit s = Some (s\<lparr>streaming_limit := limit, streaming_ready_size := n\<rparr>)"
      "window_accounted (s\<lparr>streaming_limit := limit, streaming_ready_size := n\<rparr>)" by blast
  have "streaming_from (s\<lparr>streaming_limit := limit, streaming_ready_size := n\<rparr>) = streaming_from s"
    by (simp add: streaming_from_def)
  then have "parts_shape (s\<lparr>streaming_limit := limit, streaming_ready_size := n\<rparr>)"
    using assms by (simp add: parts_shape_def)
  then show ?thesis using n by (auto simp: parts_wf_def)
qed

lemma finish_streaming_offset_wf:
  assumes "parts_shape s" "0 \<le> limit"
  shows "\<exists>s' r. finish_streaming_offset limit s = Some (s', r) \<and> parts_wf s' \<and>
    part_statuses s' = part_statuses s \<and> streaming_offset s' = streaming_offset s \<and>
    streaming_limit s' = limit \<and> same_sizes s s'"
proof -
  obtain n where n: "set_streaming_limit limit s =
      Some (s\<lparr>streaming_limit := limit, streaming_ready_size := n\<rparr>)"
    "parts_wf (s\<lparr>streaming_limit := limit, streaming_ready_size := n\<rparr>)"
    using set_streaming_limit_wf [OF assms] by blast
  show ?thesis
    using update_first_not_ready_part_wf [OF n(2)] n(1)
    by (auto simp: finish_streaming_offset_def same_sizes_def)
qed

lemma parts_shape_no_offset:
  "parts_shape s \<Longrightarrow> parts_shape (s\<lparr>streaming_offset := 0\<rparr>)"
  by (auto simp: parts_shape_def streaming_from_def int_range_defs intro!: cursor_vacuous dest: cursor_bounds)

lemma cursor_start: "0 \<le> c \<Longrightarrow> c \<le> int (length ps) \<Longrightarrow> cursor_ok ps P c c"
  by (auto simp: cursor_ok_def)

lemma resize_statuses_grow:
  "int (length ps) \<le> n \<Longrightarrow> resize_statuses ps n = Some (ps @ replicate (nat n - length ps) Empty)"
  by (simp add: resize_statuses_def)

lemma parts_shape_offset:
  assumes s: "parts_shape s" and offset: "0 \<le> offset" "in_int32 (offset div int (part_size s))"
  defines "pid \<equiv> offset div int (part_size s)"
  defines "m \<equiv> nat pid - length (part_statuses s)"
  shows "parts_shape (s\<lparr>streaming_offset := offset, first_streaming_empty_part := pid,
     first_streaming_not_ready_part := pid, part_count := int (length (part_statuses s) + m),
     part_statuses := part_statuses s @ replicate m Empty\<rparr>)"
proof -
  let ?ps = "part_statuses s @ replicate m Empty"
  have pid: "0 \<le> pid" "pid \<le> int (length ?ps)"
    using offset(1) s by (auto simp: pid_def m_def parts_shape_def div_int_pos_iff)
  have app: "cursor_ok ?ps P f c" if "cursor_ok (part_statuses s) P f c" for P f c
    using that by (auto simp: cursor_ok_def nth_append)
  let ?t = "s\<lparr>streaming_offset := offset, first_streaming_empty_part := pid,
     first_streaming_not_ready_part := pid, part_count := int (length (part_statuses s) + m),
     part_statuses := ?ps\<rparr>"
  have "cursor_ok ?ps P (streaming_from ?t) pid" for P
  proof (cases "offset = 0")
    case True
    then show ?thesis using pid by (intro cursor_vacuous) (auto simp: streaming_from_def pid_def)
  next
    case False
    then show ?thesis using cursor_start [OF pid] by (simp add: streaming_from_def pid_def)
  qed
  moreover have "i < int (length ?ps) \<and> ?ps ! nat i = Ready" if "bitmask_get (bitmask s) i" for i
    using s that by (auto simp: parts_shape_def nth_append bitmask_get_iff)
  moreover have "status_sum pending_weight ?ps = status_sum pending_weight (part_statuses s)"
    by (rule status_sum_Empty) simp
  ultimately show ?thesis
    using s offset pid app by (simp add: parts_shape_def pid_def)
qed

text \<open>The three ways \<open>set_streaming_offset\<close> goes: the offset is refused, or it is beyond the limit on
the number of parts, or it becomes the start of the streaming window.\<close>

lemma set_streaming_offset_refused:
  assumes "offset < 0 \<or> need_check s \<or> (\<not> unknown_size_flag s \<and> file_size s < offset)"
  shows "set_streaming_offset offset limit s =
    (if offset \<noteq> 0 \<and> unknown_size_flag s then None
     else finish_streaming_offset limit (s\<lparr>streaming_offset := 0\<rparr>))"
  unfolding set_streaming_offset_def if_P [OF assms]
  by (simp add: get_size_def check_def Let_def)

lemma set_streaming_offset_too_many:
  assumes "\<not> (offset < 0 \<or> need_check s \<or> (\<not> unknown_size_flag s \<and> file_size s < offset))"
    and "use_part_count_limit s \<and> offset div int (part_size s) \<ge> MAX_PART_COUNT_PREMIUM"
  shows "set_streaming_offset offset limit s =
    finish_streaming_offset limit (s\<lparr>streaming_offset := 0\<rparr>)"
  unfolding set_streaming_offset_def if_not_P [OF assms(1)] Let_def if_P [OF assms(2)] by (rule refl)

lemma set_streaming_offset_accepted:
  assumes "\<not> (offset < 0 \<or> need_check s \<or> (\<not> unknown_size_flag s \<and> file_size s < offset))"
    and "\<not> (use_part_count_limit s \<and> offset div int (part_size s) \<ge> MAX_PART_COUNT_PREMIUM)"
    and "part_count s = int (length (part_statuses s))" "in_int32 (offset div int (part_size s))"
  defines "pid \<equiv> offset div int (part_size s)"
  defines "m \<equiv> nat pid - length (part_statuses s)"
  shows "set_streaming_offset offset limit s = finish_streaming_offset limit
    (s\<lparr>streaming_offset := offset, first_streaming_empty_part := pid,
       first_streaming_not_ready_part := pid, part_count := int (length (part_statuses s) + m),
       part_statuses := part_statuses s @ replicate m Empty\<rparr>)"
proof -
  note step = set_streaming_offset_def if_not_P [OF assms(1)] Let_def if_not_P [OF assms(2)]
  have pid: "narrow_cast_int32 pid = Some pid" using assms(4) by (simp add: pid_def narrow_cast_int32_def)
  show ?thesis
  proof (cases "part_count s < pid")
    case True
    then have "int (length (part_statuses s) + m) = pid" "int (length (part_statuses s)) \<le> pid"
      using assms(3) by (simp_all add: m_def)
    then show ?thesis
      unfolding step pid_def [symmetric]
      using True assms(2) [folded pid_def] by (auto simp: pid resize_statuses_grow m_def)
  next
    case False
    then have m: "m = 0" using assms(3) by (simp add: m_def)
    have eq: "s\<lparr>streaming_offset := offset, first_streaming_empty_part := pid,
        first_streaming_not_ready_part := pid, part_count := int (length (part_statuses s))\<rparr> =
      s\<lparr>streaming_offset := offset, first_streaming_empty_part := pid,
        first_streaming_not_ready_part := pid\<rparr>"
      using assms(3) by (cases s) simp
    show ?thesis
      unfolding step pid_def [symmetric]
      using False assms(3) assms(2) [folded pid_def] by (auto simp: pid eq m)
  qed
qed

lemma set_streaming_offset_outcome:
  assumes "parts_wf s" "0 \<le> limit" "in_int32 (offset div int (part_size s))"
  shows "if unknown_size_flag s \<and> offset \<noteq> 0 \<and> (offset < 0 \<or> need_check s)
    then set_streaming_offset offset limit s = None
    else \<exists>s' r m. set_streaming_offset offset limit s = Some (s', r) \<and> parts_wf s' \<and>
      same_sizes s s' \<and> part_statuses s' = part_statuses s @ replicate m Empty \<and>
      part_count s' \<le> max (part_count s) int32_max \<and> streaming_limit s' = limit"
proof -
  have shape: "parts_shape s" using assms(1) by (simp add: parts_wf_def)
  note len = parts_wfD(2) [OF assms(1)]
  obtain s0 r0 where zero:
    "finish_streaming_offset limit (s\<lparr>streaming_offset := 0\<rparr>) = Some (s0, r0)" "parts_wf s0"
    "part_statuses s0 = part_statuses s" "streaming_limit s0 = limit" "same_sizes s s0"
    using finish_streaming_offset_wf [OF parts_shape_no_offset [OF shape] assms(2)]
    by (auto simp: same_sizes_def)
  then have zero': "part_statuses s0 = part_statuses s @ replicate 0 Empty"
    "part_count s0 \<le> max (part_count s) int32_max" using len parts_wfD(2) by auto
  show ?thesis
  proof (cases "offset < 0 \<or> need_check s \<or> (\<not> unknown_size_flag s \<and> file_size s < offset)")
    case True
    then show ?thesis using zero zero' set_streaming_offset_refused [OF True, of limit] by fastforce
  next
    case ok: False
    show ?thesis
    proof (cases "use_part_count_limit s \<and> offset div int (part_size s) \<ge> MAX_PART_COUNT_PREMIUM")
      case True
      show ?thesis using zero zero' set_streaming_offset_too_many [OF ok True, of limit] ok by fastforce
    next
      case False
      have "0 \<le> offset" using ok by simp
      from finish_streaming_offset_wf [OF parts_shape_offset [OF shape this assms(3)] assms(2)]
      obtain s' r where out: "set_streaming_offset offset limit s = Some (s', r)" "parts_wf s'"
        "part_statuses s' = part_statuses s @
           replicate (nat (offset div int (part_size s)) - length (part_statuses s)) Empty"
        "streaming_limit s' = limit" "same_sizes s s'"
        using set_streaming_offset_accepted [OF ok False len assms(3), of limit]
        by (auto simp: same_sizes_def)
      moreover have "part_count s' \<le> max (part_count s) int32_max"
        using parts_wfD(2) [OF out(2)] out(3) len assms(3)
        by (cases "nat (offset div int (part_size s)) \<le> length (part_statuses s)") (auto simp: int_range_defs max_def)
      ultimately show ?thesis using ok by auto
    qed
  qed
qed

text \<open>What \<open>on_part_ok\<close> does before it looks at the size.\<close>

definition mark_ready :: "int \<Rightarrow> nat \<Rightarrow> bytes \<Rightarrow> parts \<Rightarrow> parts" where
  "mark_ready pid n bm s = s\<lparr>
     pending_count := pending_count s - 1, part_statuses := (part_statuses s)[nat pid := Ready],
     bitmask := bm, ready_size := ready_size s + int n,
     streaming_ready_size := streaming_ready_size s +
       (if streaming_limit s > 0 \<and> in_window s pid then int n else 0)\<rparr>"

definition marks :: "int \<Rightarrow> nat \<Rightarrow> bytes \<Rightarrow> bytes \<Rightarrow> bool" where
  "marks pid n d d' \<longleftrightarrow> (\<forall>j. bitmask_get d' j \<longleftrightarrow> bitmask_get d j \<or> (n \<noteq> 0 \<and> j = pid))"

lemma mark_ready_fields [simp]:
  "part_statuses (mark_ready pid n bm s) = (part_statuses s)[nat pid := Ready]"
  "part_count (mark_ready pid n bm s) = part_count s"
  "part_size (mark_ready pid n bm s) = part_size s"
  "unknown_size_flag (mark_ready pid n bm s) = unknown_size_flag s"
  "max_size (mark_ready pid n bm s) = max_size s"
  "min_size (mark_ready pid n bm s) = min_size s"
  "file_size (mark_ready pid n bm s) = file_size s"
  "ready_size (mark_ready pid n bm s) = ready_size s + int n"
  "streaming_limit (mark_ready pid n bm s) = streaming_limit s"
  "get_part (mark_ready pid n bm s) = get_part s"
  "window_weight (mark_ready pid n bm s) = window_weight s"
  by (simp_all add: mark_ready_def)

lemma mark_ready_shape:
  assumes "parts_shape s" "0 \<le> pid" "pid < part_count s" "part_statuses s ! nat pid = Pending"
    "marks pid n (bitmask s) bm"
  shows "parts_shape (mark_ready pid n bm s)"
proof -
  have k: "nat pid < length (part_statuses s)" using assms by (simp add: parts_shape_def)
  have "status_sum pending_weight ((part_statuses s)[nat pid := Ready]) = pending_count s - 1"
    using assms(1,4) k by (simp add: parts_shape_def status_sum_update)
  moreover have "cursor_ok ((part_statuses s)[nat pid := Ready]) P f c"
    if "cursor_ok (part_statuses s) P f c" "P Ready" for P f c
    by (rule cursor_ok_update [OF that(1)]) (rule that(2))
  moreover have "i < int (length (part_statuses s)) \<and> (part_statuses s)[nat pid := Ready] ! nat i = Ready"
    if "bitmask_get bm i" for i
  proof (cases "i = pid")
    case True
    then show ?thesis using k assms(2) by auto
  next
    case False
    then have "bitmask_get (bitmask s) i" using that assms(5) by (auto simp: marks_def)
    then have "i < int (length (part_statuses s))" "part_statuses s ! nat i = Ready"
      using assms(1) by (auto simp: parts_shape_def)
    then show ?thesis using k by (cases "nat i = nat pid") auto
  qed
  moreover have "streaming_from (mark_ready pid n bm s) = streaming_from s"
    by (simp add: streaming_from_def mark_ready_def)
  ultimately show ?thesis
    using assms(1) by (simp add: parts_shape_def mark_ready_def)
qed

lemma mark_ready_accounted:
  assumes "parts_wf s" "pid < part_count s" "0 \<le> pid" "part_statuses s ! nat pid = Pending"
    "n = part_len (get_part s pid)"
  shows "window_accounted (mark_ready pid n bm s)"
proof (cases "streaming_limit s = 0")
  case True
  then show ?thesis by (simp add: window_accounted_def)
next
  case False
  have k: "nat pid < length (part_statuses s)" "int (nat pid) = pid"
    using assms(2,3) parts_wfD(2) [OF assms(1)] by simp_all
  have pos: "0 < streaming_limit s" using False parts_wfD(7) [OF assms(1)] by simp
  have "window_weight s (nat pid) Ready = (if in_window s pid then int n else 0)"
    using k(2) assms(5) by (simp add: window_weight_def)
  then have "status_sum (window_weight s) ((part_statuses s)[nat pid := Ready]) =
      status_sum (window_weight s) (part_statuses s) + (if in_window s pid then int n else 0)"
    using k assms(4) by (simp add: status_sum_update)
  then show ?thesis
    using parts_wfD(12) [OF assms(1)] False pos
    by (simp add: window_accounted_def mark_ready_def del: window_weight_def)
qed

lemma in_limit_frame:
  "is_part_in_streaming_limit (s\<lparr>pending_count := x0\<rparr>) = is_part_in_streaming_limit s"
  "is_part_in_streaming_limit (s\<lparr>part_statuses := x1\<rparr>) = is_part_in_streaming_limit s"
  "is_part_in_streaming_limit (s\<lparr>bitmask := x2\<rparr>) = is_part_in_streaming_limit s"
  "is_part_in_streaming_limit (s\<lparr>ready_size := x3\<rparr>) = is_part_in_streaming_limit s"
  by (simp_all add: is_part_in_streaming_limit_def fun_eq_iff Let_def)

lemma on_part_ok_marks:
  assumes "parts_wf s" "0 \<le> pid" "pid < part_count s" "part_statuses s ! nat pid = Pending"
    "int n \<le> int64_max"
  shows "\<exists>bm. marks pid n (bitmask s) bm \<and> on_part_ok pid ps n s =
    (let t = mark_ready pid n bm s; offset = int (part_size s) * pid in
     if unknown_size_flag s then do { check (ps = part_size s); learn_size (offset + int n) n t }
     else Some (t, check_part_size offset ps n t))"
proof -
  note len = parts_wfD(2) [OF assms(1)]
  have "\<exists>bm. marks pid n (bitmask s) bm \<and>
      (if n \<noteq> 0 then bitmask_set (bitmask s) pid else Some (bitmask s)) = Some bm"
  proof (cases "n = 0")
    case False
    then show ?thesis using bitmask_set_spec [OF assms(2), of "bitmask s"] by (auto simp: marks_def)
  qed (simp add: marks_def)
  then obtain bm where bm: "marks pid n (bitmask s) bm"
    "(if n \<noteq> 0 then bitmask_set (bitmask s) pid else Some (bitmask s)) = Some bm" by blast
  note lim = in_limit_frame in_limit_eq [OF assms(3)]
  have st: "status_at (part_statuses s) pid = Some Pending"
    "set_status (part_statuses s) pid Ready = Some ((part_statuses s)[nat pid := Ready])"
    using assms len by (simp_all add: status_at_eq set_status_eq)
  have n64: "narrow_cast_int64 n = Some (int n)" using assms(5) by (simp add: narrow_cast_int64_def)
  have "on_part_ok pid ps n s =
    (let t = mark_ready pid n bm s; offset = int (part_size s) * pid in
     if unknown_size_flag s then do { check (ps = part_size s); learn_size (offset + int n) n t }
     else Some (t, check_part_size offset ps n t))"
  proof (cases "n = 0")
    case True
    then show ?thesis
      using bm(2) by (simp add: on_part_ok_def st n64 [unfolded True] lim True mark_ready_def Let_def)
  next
    case False
    then have "bitmask_set (bitmask s) pid = Some bm" using bm(2) by simp
    then show ?thesis
      using False by (simp add: on_part_ok_def st n64 lim mark_ready_def Let_def)
  qed
  then show ?thesis using bm(1) by blast
qed

end
