(* ===== verification/Td_PartsSession.thy ===== *)
theory Td_PartsSession
  imports Td_Parts
begin

text \<open>
  Download sessions of the part scheduler of \<open>Td_Parts\<close>: the manager of
  \<open>td/telegram/files/PartsManager.cpp\<close> together with the parts a loader has taken and not yet
  reported.  A step relation says what a loader may do; its invariant shows that the scheduler hands
  no part out twice, that its \<open>CHECK\<close>s hold (with two exceptions, characterised here) and that its
  byte counters are exact.
\<close>

subsection \<open>Download sessions\<close>

text \<open>
  A session is the manager together with the parts it has handed out and whose transfer has not
  ended: part number to the size the caller was given.  The caller reports for such a part either a
  failure or a number of bytes that is at most that size.
\<close>

type_synonym handed = "int \<Rightarrow> nat option"

definition plen :: "int \<Rightarrow> int \<Rightarrow> int \<Rightarrow> nat" where
  "plen ps tot i = nat (if tot < ps * i then 0 else min ps (tot - ps * i))"

definition total_size :: "parts \<Rightarrow> int" where
  "total_size s = (if unknown_size_flag s then max_size s else file_size s)"

lemma part_len_plen: "part_len (get_part s i) = plen (int (part_size s)) (total_size s) i"
  by (simp add: get_part_def plen_def total_size_def Let_def)

lemma plen_full: "(i + 1) * p \<le> tot \<Longrightarrow> 0 < p \<Longrightarrow> plen p tot i = nat p"
  by (simp add: plen_def algebra_simps)

lemma plen_zero: "tot \<le> i * p \<Longrightarrow> plen p tot i = 0"
  by (auto simp: plen_def mult.commute)

lemma plen_last: "0 \<le> n \<Longrightarrow> n \<le> p \<Longrightarrow> plen p (i * p + n) i = nat n"
  by (simp add: plen_def mult.commute)

lemma plen_le: "0 \<le> p \<Longrightarrow> int (plen p tot i) \<le> p"
  by (auto simp: plen_def)

definition part_weight :: "int \<Rightarrow> int \<Rightarrow> nat \<Rightarrow> part_status \<Rightarrow> int" where
  "part_weight p tot i st = (if st = Ready then int (plen p tot (int i)) else 0)"

lemma part_weight_simps [simp]:
  "part_weight p tot i Empty = 0" "part_weight p tot i Pending = 0"
  "part_weight p tot i Ready = int (plen p tot (int i))"
  by (simp_all add: part_weight_def)

text \<open>An upper bound on the size is the largest \<open>int64\<close> or a whole number of parts.\<close>

definition whole_parts :: "int \<Rightarrow> int \<Rightarrow> bool" where
  "whole_parts p m \<longleftrightarrow> m = int64_max \<or> p dvd m"

lemma next_part_le:
  fixes i j p :: int assumes "i < j" "0 \<le> p" shows "(i + 1) * p \<le> j * p"
  using assms by (intro mult_right_mono) auto

lemma lt_part_imp_less:
  fixes i j p n :: int assumes "i * p < j * p + n" "n < p" "0 \<le> n" shows "i \<le> j"
proof (rule ccontr)
  assume "\<not> i \<le> j"
  then have "(j + 1) * p \<le> i * p" using assms by (intro next_part_le) auto
  then show False using assms by (simp add: algebra_simps)
qed

lemma whole_parts_full:
  assumes "whole_parts p m" "i * p < m" "0 < p" "p \<le> 2147483648" "i \<le> int32_max"
  shows "(i + 1) * p \<le> m"
proof (cases "m = int64_max")
  case True
  have "(i + 1) * p \<le> 2147483648 * p" using assms by (intro mult_right_mono) (auto simp: int32_max_def)
  also have "\<dots> \<le> 2147483648 * 2147483648" using assms by simp
  finally show ?thesis using True by (simp add: int64_max_def)
next
  case False
  then have "p dvd m" using assms(1) by (simp add: whole_parts_def)
  then obtain q where "m = p * q" by (rule dvdE)
  then have q: "m = q * p" by (simp add: mult.commute)
  then have "i < q" using assms(2,3) by simp
  then show ?thesis using q assms(3) next_part_le [of i q p] by simp
qed

definition size_unknown_ok :: "parts \<Rightarrow> handed \<Rightarrow> bool" where
  "size_unknown_ok s h \<longleftrightarrow>
     (\<forall>pid n. h pid = Some n \<longrightarrow> n = part_size s) \<and> whole_parts (int (part_size s)) (max_size s) \<and>
     0 \<le> min_size s \<and> min_size s < max_size s \<and> min_size s \<le> part_count s * int (part_size s) \<and>
     (\<forall>j<length (part_statuses s). part_statuses s ! j = Ready \<and> int j * int (part_size s) < max_size s \<longrightarrow>
        (int j + 1) * int (part_size s) \<le> min_size s)"

definition size_known_ok :: "parts \<Rightarrow> handed \<Rightarrow> bool" where
  "size_known_ok s h \<longleftrightarrow>
     0 \<le> file_size s \<and> file_size s \<le> part_count s * int (part_size s) \<and>
     (\<forall>pid n. h pid = Some n \<and> pid * int (part_size s) < file_size s \<longrightarrow>
        n = plen (int (part_size s)) (file_size s) pid)"

definition session_ok :: "parts \<Rightarrow> handed \<Rightarrow> bool" where
  "session_ok s h \<longleftrightarrow> parts_wf s \<and> part_size s \<le> 2147483648 \<and> part_count s \<le> int32_max \<and>
     (\<forall>pid. h pid \<noteq> None \<longleftrightarrow>
        0 \<le> pid \<and> pid < part_count s \<and> part_statuses s ! nat pid = Pending) \<and>
     (\<forall>pid n. h pid = Some n \<longrightarrow> n \<le> part_size s) \<and>
     ready_size s = status_sum (part_weight (int (part_size s)) (total_size s)) (part_statuses s) \<and>
     (if unknown_size_flag s then size_unknown_ok s h else size_known_ok s h)"

lemma session_okD:
  assumes "session_ok s h"
  shows "parts_wf s" "0 < part_size s" "part_size s \<le> 2147483648" "part_count s \<le> int32_max"
    "\<And>pid. h pid \<noteq> None \<longleftrightarrow> 0 \<le> pid \<and> pid < part_count s \<and> part_statuses s ! nat pid = Pending"
    "\<And>pid n. h pid = Some n \<Longrightarrow> n \<le> part_size s"
    "ready_size s = status_sum (part_weight (int (part_size s)) (total_size s)) (part_statuses s)"
    "unknown_size_flag s \<Longrightarrow> size_unknown_ok s h" "\<not> unknown_size_flag s \<Longrightarrow> size_known_ok s h"
    "part_count s = int (length (part_statuses s))"
  using assms parts_wfD(1,2) unfolding session_ok_def by (metis (full_types))+

text \<open>What the bounds on the size are after a part of \<open>n\<close> bytes, and what follows when they agree.\<close>

definition new_max :: "int \<Rightarrow> int \<Rightarrow> int \<Rightarrow> int \<Rightarrow> int" where
  "new_max p m i n = (if n < p \<and> i * p + n < m then i * p + n else m)"

definition new_min :: "int \<Rightarrow> int \<Rightarrow> int \<Rightarrow> int \<Rightarrow> int" where
  "new_min p l i n = (if n \<noteq> 0 then max l (i * p + n) else l)"

definition learns :: "int \<Rightarrow> int \<Rightarrow> int \<Rightarrow> int \<Rightarrow> int \<Rightarrow> bool" where
  "learns p m l i n \<longleftrightarrow> 0 < p \<and> p \<le> 2147483648 \<and> whole_parts p m \<and> 0 \<le> l \<and> l < m \<and>
     0 \<le> i \<and> i \<le> int32_max \<and> 0 \<le> n \<and> n \<le> p \<and> new_min p l i n \<le> new_max p m i n"

lemma learnsD:
  assumes "learns p m l i n"
  shows "0 < p" "p \<le> 2147483648" "whole_parts p m" "0 \<le> l" "l < m" "0 \<le> i" "i \<le> int32_max"
    "0 \<le> n" "n \<le> p" "new_min p l i n \<le> new_max p m i n"
  using assms by (simp_all add: learns_def)

lemma learns_min: "learns p m l i n \<Longrightarrow> l \<le> new_min p l i n \<and> 0 \<le> new_min p l i n"
  by (auto simp: new_min_def learns_def)

lemma new_max_le: "new_max p m i n \<le> m"
  by (auto simp: new_max_def)

lemma learns_full: "learns p m l i n \<Longrightarrow> i * p < m \<Longrightarrow> (i + 1) * p \<le> m"
  by (rule whole_parts_full) (auto simp: learns_def)

lemma learns_unchanged:
  assumes "learns p m l i n" "new_max p m i n = m"
  shows "int (plen p m i) = n"
proof (cases "i * p < m")
  case True
  note f = learns_full [OF assms(1) True] and d = learnsD [OF assms(1)]
  have "n = p" using assms(2) f d by (auto simp: new_max_def algebra_simps split: if_splits)
  then show ?thesis using plen_full [OF f] d by simp
next
  case False
  then have "n = 0" using assms(2) learnsD [OF assms(1)] by (auto simp: new_min_def split: if_splits)
  then show ?thesis using False by (simp add: plen_zero)
qed

lemma learns_shrunk:
  assumes "learns p m l i n" "new_max p m i n \<noteq> m"
  shows "new_max p m i n = i * p + n" "n < p" "n \<noteq> 0 \<Longrightarrow> new_min p l i n = new_max p m i n"
  using assms by (auto simp: new_max_def new_min_def learns_def split: if_splits)

lemma learns_whole:
  assumes "learns p m l i n" "new_min p l i n < new_max p m i n"
  shows "whole_parts p (new_max p m i n)"
proof (cases "new_max p m i n = m")
  case False
  then show ?thesis using learns_shrunk [OF assms(1) False] assms(2) by (auto simp: whole_parts_def)
qed (simp add: learnsD [OF assms(1)])

lemma learns_len:
  assumes "learns p m l i n"
  shows "int (plen p (new_max p m i n) i) = n"
proof (cases "new_max p m i n = m")
  case True
  then show ?thesis using learns_unchanged [OF assms] by simp
next
  case False
  then show ?thesis
    using learns_shrunk(1) [OF assms False] plen_last [of n p i] learnsD [OF assms] by simp
qed

lemma learns_finished:
  assumes "learns p m l i n" "i * p < new_max p m i n" "new_min p l i n < new_max p m i n"
  shows "(i + 1) * p \<le> new_min p l i n"
proof (cases "new_max p m i n = m")
  case True
  then have "i * p < m" using assms(2) by simp
  note f = learns_full [OF assms(1) this] and d = learnsD [OF assms(1)]
  have "int (plen p m i) = p" using plen_full [OF f] d by simp
  then have "n = p" using learns_unchanged [OF assms(1) True] by simp
  then show ?thesis using d by (simp add: new_min_def algebra_simps)
next
  case False
  then show ?thesis using learns_shrunk [OF assms(1) False] assms by auto
qed

lemma learns_other_ready:
  assumes "learns p m l i n" "j * p < m \<longrightarrow> (j + 1) * p \<le> l"
  shows "plen p (new_max p m i n) j = plen p m j"
proof (cases "j * p < m")
  case True
  then have "(j + 1) * p \<le> new_max p m i n" "(j + 1) * p \<le> m"
    using assms(2) learns_min [OF assms(1)] learnsD [OF assms(1)] by linarith+
  then show ?thesis using learnsD [OF assms(1)] by (simp add: plen_full)
next
  case False
  then have "m \<le> j * p" "new_max p m i n \<le> j * p" using new_max_le [of p m i n] by linarith+
  then show ?thesis by (simp add: plen_zero)
qed

lemma learns_other_pending:
  assumes "learns p m l i n" "j \<noteq> i" "j * p < new_max p m i n" "j \<le> int32_max"
    "new_min p l i n = new_max p m i n"
  shows "plen p (new_max p m i n) j = nat p"
proof (cases "new_max p m i n = m")
  case True
  then show ?thesis
    using plen_full [OF whole_parts_full [of p m j]] assms(3,4) learnsD [OF assms(1)] by simp
next
  case False
  note s = learns_shrunk [OF assms(1) False] and d = learnsD [OF assms(1)]
  have "j \<le> i" using assms(3) s lt_part_imp_less [of j p i n] d by simp
  then have "(j + 1) * p \<le> i * p" using assms(2) d by (intro next_part_le) auto
  then have "(j + 1) * p \<le> new_max p m i n" using s(1) d by linarith
  then show ?thesis using d by (simp add: plen_full)
qed

definition learned :: "int \<Rightarrow> int \<Rightarrow> parts \<Rightarrow> parts" where
  "learned i n t =
     (let p = int (part_size t); m = new_max p (max_size t) i n; l = new_min p (min_size t) i n
      in t\<lparr>max_size := m, min_size := l, unknown_size_flag := (l \<noteq> m),
           file_size := (if l = m then l else file_size t)\<rparr>)"

lemma learned_fields [simp]:
  "part_statuses (learned i n t) = part_statuses t" "part_count (learned i n t) = part_count t"
  "part_size (learned i n t) = part_size t" "streaming_limit (learned i n t) = streaming_limit t"
  "ready_size (learned i n t) = ready_size t"
  "max_size (learned i n t) = new_max (int (part_size t)) (max_size t) i n"
  "min_size (learned i n t) = new_min (int (part_size t)) (min_size t) i n"
  "unknown_size_flag (learned i n t) \<longleftrightarrow>
     new_min (int (part_size t)) (min_size t) i n \<noteq> new_max (int (part_size t)) (max_size t) i n"
  "total_size (learned i n t) = new_max (int (part_size t)) (max_size t) i n"
  by (simp_all add: learned_def total_size_def Let_def)

lemma learned_shape: "parts_shape t \<Longrightarrow> parts_shape (learned i n t)"
proof -
  assume s: "parts_shape t"
  have "streaming_from (learned i n t) = streaming_from t" by (simp add: streaming_from_def learned_def Let_def)
  then show ?thesis using s by (simp add: parts_shape_def learned_def Let_def)
qed

lemma set_streaming_limit_same:
  assumes "part_count t = int (length (part_statuses t))"
  shows "\<exists>k. set_streaming_limit (streaming_limit t) t = Some (t\<lparr>streaming_ready_size := k\<rparr>) \<and>
    window_accounted (t\<lparr>streaming_ready_size := k\<rparr>)"
proof -
  have "t\<lparr>streaming_limit := streaming_limit t, streaming_ready_size := k\<rparr> = t\<lparr>streaming_ready_size := k\<rparr>"
    for k by simp
  then show ?thesis using set_streaming_limit_eq [OF assms, of "streaming_limit t"] by metis
qed

lemma streaming_ready_size_shape: "parts_shape t \<Longrightarrow> parts_shape (t\<lparr>streaming_ready_size := k\<rparr>)"
proof -
  have "streaming_from (t\<lparr>streaming_ready_size := k\<rparr>) = streaming_from t" by (simp add: streaming_from_def)
  then show "parts_shape t \<Longrightarrow> parts_shape (t\<lparr>streaming_ready_size := k\<rparr>)" by (simp add: parts_shape_def)
qed

lemma learn_size_step:
  fixes i :: int and n :: nat
  assumes "unknown_size_flag t"
  defines "m \<equiv> new_max (int (part_size t)) (max_size t) i (int n)"
  defines "l \<equiv> new_min (int (part_size t)) (min_size t) i (int n)"
  shows "m < l \<Longrightarrow> \<exists>s' e. learn_size (int (part_size t) * i + int n) n t = Some (s', Inl e)"
    and "l \<le> m \<Longrightarrow> learn_size (int (part_size t) * i + int n) n t =
      do { u \<leftarrow> (if (m \<noteq> max_size t \<or> l = m) \<and> streaming_limit t \<noteq> 0
               then set_streaming_limit (streaming_limit t) (learned i (int n) t)
               else Some (learned i (int n) t));
           Some (u, Inr ()) }"
proof -
  let ?e = "int (part_size t) * i + int n"
  have e: "i * int (part_size t) + int n = ?e" by (simp add: mult.commute)
  define shrinks where "shrinks = (n < part_size t \<and> ?e < max_size t)"
  have m: "m = (if shrinks then ?e else max_size t)" and sh: "m \<noteq> max_size t \<longleftrightarrow> shrinks"
    unfolding m_def new_max_def shrinks_def e by auto
  have l: "l = (if n \<noteq> 0 then max (min_size t) ?e else min_size t)"
    unfolding l_def new_min_def e by simp
  have u: "learned i (int n) t = t\<lparr>max_size := m, min_size := l, unknown_size_flag := (l \<noteq> m),
      file_size := (if l = m then l else file_size t)\<rparr>"
    unfolding learned_def m_def l_def Let_def by (rule refl)
  have t1: "(if shrinks then t\<lparr>max_size := ?e\<rparr> else t) = t\<lparr>max_size := m\<rparr>" using m by simp
  have t2: "(if n \<noteq> 0 then t\<lparr>max_size := m\<rparr>\<lparr>min_size := max (min_size (t\<lparr>max_size := m\<rparr>)) ?e\<rparr>
      else t\<lparr>max_size := m\<rparr>) = t\<lparr>max_size := m, min_size := l\<rparr>" using l by simp
  note step = learn_size_def shrinks_def [symmetric] Let_def t1 t2
  show "\<exists>s' e. learn_size ?e n t = Some (s', Inl e)" if "m < l"
    unfolding step using that by simp
  show "learn_size ?e n t =
      do { u \<leftarrow> (if (m \<noteq> max_size t \<or> l = m) \<and> streaming_limit t \<noteq> 0
               then set_streaming_limit (streaming_limit t) (learned i (int n) t)
               else Some (learned i (int n) t));
           Some (u, Inr ()) }" if "l \<le> m"
  proof (cases "l = m")
    case True
    then show ?thesis unfolding step u sh using that by simp
  next
    case False
    have "t\<lparr>max_size := m, min_size := l, unknown_size_flag := True, file_size := file_size t\<rparr> =
        t\<lparr>max_size := m, min_size := l\<rparr>" using assms(1) by (cases t) simp
    then show ?thesis unfolding step u sh using that False by simp
  qed
qed

lemma learn_size_ok:
  assumes unknown: "unknown_size_flag t" and shape: "parts_shape t"
    and le: "new_min (int (part_size t)) (min_size t) i (int n) \<le>
      new_max (int (part_size t)) (max_size t) i (int n)"
    and acc: "new_max (int (part_size t)) (max_size t) i (int n) = max_size t \<Longrightarrow> window_accounted t"
  shows "\<exists>k. learn_size (int (part_size t) * i + int n) n t =
      Some ((learned i (int n) t)\<lparr>streaming_ready_size := k\<rparr>, Inr ()) \<and>
    parts_wf ((learned i (int n) t)\<lparr>streaming_ready_size := k\<rparr>)"
proof -
  let ?e = "int (part_size t) * i + int n"
  let ?m = "new_max (int (part_size t)) (max_size t) i (int n)"
  let ?l = "new_min (int (part_size t)) (min_size t) i (int n)"
  let ?u = "learned i (int n) t"
  note step = learn_size_step(2) [OF unknown le]
  have shape_u: "parts_shape ?u" using learned_shape [OF shape] .
  then have len: "part_count ?u = int (length (part_statuses ?u))" by (simp add: parts_shape_def)
  have wf: "window_accounted (?u\<lparr>streaming_ready_size := k\<rparr>) \<Longrightarrow> parts_wf (?u\<lparr>streaming_ready_size := k\<rparr>)"
    for k using streaming_ready_size_shape [OF shape_u] by (simp add: parts_wf_def)
  show ?thesis
  proof (cases "(?m \<noteq> max_size t \<or> ?l = ?m) \<and> streaming_limit t \<noteq> 0")
    case True
    then show ?thesis
      using set_streaming_limit_same [OF len] wf unfolding step by auto
  next
    case False
    have same: "?u\<lparr>streaming_ready_size := streaming_ready_size t\<rparr> = ?u"
      by (simp add: learned_def Let_def)
    have "window_accounted ?u"
    proof (cases "streaming_limit t = 0")
      case True
      then show ?thesis by (simp add: window_accounted_def)
    next
      case nz: False
      then have "?m = max_size t" "?l \<noteq> ?m" using False by auto
      then have "?u = t\<lparr>min_size := ?l\<rparr>" using unknown by (cases t) (simp add: learned_def Let_def)
      moreover have "window_weight (t\<lparr>min_size := ?l\<rparr>) = window_weight t"
        by (simp add: window_weight_def in_window_def is_part_in_streaming_limit_def get_part_def
            fun_eq_iff Let_def)
      ultimately show ?thesis using acc \<open>?m = max_size t\<close> by (simp add: window_accounted_def)
    qed
    then show ?thesis
      using wf [of "streaming_ready_size t"] False unfolding step same by (auto simp: same intro!: exI [of _ "streaming_ready_size t"])
  qed
qed

text \<open>The sum of the ready parts after a part is finished and the size may have changed.\<close>

lemma ready_sum_update:
  assumes "k < length sts" "sts ! k \<noteq> Ready" "int (plen p tot' (int k)) = n"
    and "\<And>j. j < length sts \<Longrightarrow> sts ! j = Ready \<Longrightarrow> plen p tot' (int j) = plen p tot (int j)"
  shows "status_sum (part_weight p tot') (sts[k := Ready]) = status_sum (part_weight p tot) sts + n"
proof -
  have "status_sum (part_weight p tot') sts = status_sum (part_weight p tot) sts"
    by (rule status_sum_cong) (simp add: part_weight_def assms(4))
  moreover have "part_weight p tot' k (sts ! k) = 0" using assms(2) by (simp add: part_weight_def)
  ultimately show ?thesis
    using assms(1,3) by (simp add: status_sum_update)
qed

lemma handed_pending:
  assumes "session_ok s h" "h pid = Some sz"
  shows "0 \<le> pid" "pid < part_count s" "part_statuses s ! nat pid = Pending"
    "nat pid < length (part_statuses s)"
  using session_okD(5) [OF assms(1), of pid] assms(2) session_okD(10) [OF assms(1)] by auto

lemma handed_update:
  assumes "session_ok s h" "h pid = Some sz" "st \<noteq> Pending"
  shows "(h(pid := None)) i \<noteq> None \<longleftrightarrow>
    0 \<le> i \<and> i < part_count s \<and> (part_statuses s)[nat pid := st] ! nat i = Pending"
  using session_okD(5) [OF assms(1), of i] handed_pending [OF assms(1,2)] assms(3)
  by (cases "i = pid") (auto simp: nth_list_update)

text \<open>A finished part while the size is unknown.\<close>

lemma session_learns:
  assumes "session_ok s h" "unknown_size_flag s" "h pid = Some sz" "n \<le> sz"
    and "new_min (int (part_size s)) (min_size s) pid (int n) \<le>
      new_max (int (part_size s)) (max_size s) pid (int n)"
  shows "learns (int (part_size s)) (max_size s) (min_size s) pid (int n)" "sz = part_size s"
proof -
  note d = session_okD [OF assms(1)] and u = session_okD(8) [OF assms(1,2)]
    and h = handed_pending [OF assms(1,3)]
  show "sz = part_size s" using u assms(3) by (simp add: size_unknown_ok_def)
  then show "learns (int (part_size s)) (max_size s) (min_size s) pid (int n)"
    using u d(2,3,4) h assms(4,5) by (simp add: learns_def size_unknown_ok_def)
qed

lemma learned_sizes:
  assumes s: "session_ok s h" "unknown_size_flag s" "h pid = Some sz"
    and le: "learns (int (part_size s)) (max_size s) (min_size s) pid (int n)"
    and u: "part_statuses u = (part_statuses s)[nat pid := Ready]" "part_size u = part_size s"
      "part_count u = part_count s"
      "max_size u = new_max (int (part_size s)) (max_size s) pid (int n)"
      "min_size u = new_min (int (part_size s)) (min_size s) pid (int n)"
      "unknown_size_flag u = (min_size u \<noteq> max_size u)"
      "\<not> unknown_size_flag u \<Longrightarrow> file_size u = max_size u"
  shows "if unknown_size_flag u then size_unknown_ok u (h(pid := None))
    else size_known_ok u (h(pid := None))"
proof -
  let ?p = "int (part_size s)"
  note uo = session_okD(8) [OF s(1,2), unfolded size_unknown_ok_def] and pend = handed_pending [OF s(1,3)]
    and d = learnsD [OF le] and sd = session_okD [OF s(1)]
  have "(pid + 1) * ?p \<le> part_count s * ?p" using pend(2) d(1) by (intro next_part_le) auto
  then have bound: "min_size u \<le> part_count s * ?p"
    using uo d(8,9) unfolding u(5) new_min_def by (auto simp: algebra_simps)
  have lo: "min_size s \<le> min_size u" "0 \<le> min_size u" using learns_min [OF le] u(5) by auto
  have le': "min_size u \<le> max_size u" using d(10) u by simp
  show ?thesis
  proof (cases "unknown_size_flag u")
    case True
    then have lt: "min_size u < max_size u" using le' u(6) by simp
    have "(int j + 1) * ?p \<le> min_size u"
      if "j < length (part_statuses u)" "part_statuses u ! j = Ready" "int j * ?p < max_size u" for j
    proof (cases "j = nat pid")
      case True
      then show ?thesis using learns_finished [OF le] lt that(3) pend(1) u by simp
    next
      case False
      then have "part_statuses s ! j = Ready" "j < length (part_statuses s)" using that u(1) by simp_all
      moreover have "int j * ?p < max_size s"
        using that(3) new_max_le [of ?p "max_size s" pid "int n"] u(4) by simp
      ultimately have "(int j + 1) * ?p \<le> min_size s" using uo by blast
      then show ?thesis using lo by simp
    qed
    moreover have "whole_parts ?p (max_size u)" using learns_whole [OF le] lt u by simp
    moreover have "m = part_size s" if "(h(pid := None)) i = Some m" for i m
      using that uo by (auto split: if_splits)
    ultimately show ?thesis
      using True lo lt bound u(2,3) by (auto simp: size_unknown_ok_def)
  next
    case False
    have eq: "file_size u = max_size u" "min_size u = max_size u" using u(6,7) False by simp_all
    have "m = plen ?p (file_size u) i"
      if h: "(h(pid := None)) i = Some m" and lt: "i * ?p < file_size u" for i m
    proof -
      have "i \<noteq> pid" "h i = Some m" using h by (auto split: if_splits)
      moreover from this have "m = part_size s" using uo by blast
      moreover have "i \<le> int32_max"
        using handed_pending(2) [OF s(1) \<open>h i = Some m\<close>] sd(4) by simp
      ultimately show ?thesis
        using learns_other_pending [OF le, of i] lt eq u by simp
    qed
    then show ?thesis using False eq lo bound u(2,3) by (simp add: size_known_ok_def)
  qed
qed

lemma session_part_weight:
  assumes "session_ok s h" "unknown_size_flag s"
  shows "ready_size s = status_sum (part_weight (int (part_size s)) (max_size s)) (part_statuses s)"
  using session_okD(7) [OF assms(1)] assms(2) by (simp add: total_size_def)

lemma session_finish_unknown:
  assumes s: "session_ok s h" "unknown_size_flag s" "h pid = Some sz" "n \<le> sz"
  shows "\<exists>s' r. on_part_ok pid sz n s = Some (s', r) \<and> (r = Inr () \<longrightarrow> session_ok s' (h(pid := None)))"
proof -
  let ?p = "int (part_size s)"
  note d = session_okD [OF s(1)] and uo = session_okD(8) [OF s(1,2), unfolded size_unknown_ok_def]
    and pend = handed_pending [OF s(1,3)]
  have sz: "sz = part_size s" using uo s(3) by simp
  have n64: "int n \<le> int64_max" using s(4) sz d(3) by (simp add: int64_max_def)
  obtain bm where bm: "marks pid n (bitmask s) bm" "on_part_ok pid sz n s =
      learn_size (?p * pid + int n) n (mark_ready pid n bm s)"
    using on_part_ok_marks [OF d(1) pend(1,2,3) n64, of sz] s(2) sz by (auto simp: Let_def)
  let ?t = "mark_ready pid n bm s"
  have shape: "parts_shape ?t"
    using mark_ready_shape [OF _ pend(1,2,3) bm(1)] d(1) by (simp add: parts_wf_def)
  show ?thesis
  proof (cases "new_min ?p (min_size s) pid (int n) \<le> new_max ?p (max_size s) pid (int n)")
    case False
    then show ?thesis
      using learn_size_step(1) [of ?t pid n] s(2) bm(2) by (auto simp: not_le)
  next
    case True
    note le = session_learns(1) [OF s True]
    have acc: "window_accounted ?t" if "new_max ?p (max_size s) pid (int n) = max_size s"
    proof -
      have "n = part_len (get_part s pid)"
        using learns_unchanged [OF le that] s(2) by (simp add: part_len_plen total_size_def)
      then show ?thesis using mark_ready_accounted [OF d(1) pend(2,1,3)] by simp
    qed
    obtain k where k: "learn_size (?p * pid + int n) n ?t =
        Some ((learned pid (int n) ?t)\<lparr>streaming_ready_size := k\<rparr>, Inr ())"
      "parts_wf ((learned pid (int n) ?t)\<lparr>streaming_ready_size := k\<rparr>)"
      using learn_size_ok [OF _ shape, of pid n] s(2) True acc by auto
    let ?u = "(learned pid (int n) ?t)\<lparr>streaming_ready_size := k\<rparr>"
    have f: "part_statuses ?u = (part_statuses s)[nat pid := Ready]" "part_size ?u = part_size s"
      "part_count ?u = part_count s" "max_size ?u = new_max ?p (max_size s) pid (int n)"
      "min_size ?u = new_min ?p (min_size s) pid (int n)" "unknown_size_flag ?u = (min_size ?u \<noteq> max_size ?u)"
      "\<not> unknown_size_flag ?u \<Longrightarrow> file_size ?u = max_size ?u" "ready_size ?u = ready_size s + int n"
      by (simp_all add: learned_def Let_def)
    have tot: "total_size ?u = max_size ?u" using f(6,7) by (simp add: total_size_def)
    have "ready_size ?u = status_sum (part_weight ?p (max_size ?u)) (part_statuses ?u)"
    proof -
      have "plen ?p (max_size ?u) (int j) = plen ?p (max_size s) (int j)"
        if "j < length (part_statuses s)" "part_statuses s ! j = Ready" for j
        using learns_other_ready [OF le, of "int j"] that uo f(4) by simp
      moreover have "int (plen ?p (max_size ?u) (int (nat pid))) = int n"
        using learns_len [OF le] pend(1) f(4) by simp
      ultimately show ?thesis
        using ready_sum_update [of "nat pid" "part_statuses s" ?p "max_size ?u" "int n" "max_size s"]
          session_part_weight [OF s(1,2)] pend f(1,8) by simp
    qed
    moreover have "if unknown_size_flag ?u then size_unknown_ok ?u (h(pid := None))
        else size_known_ok ?u (h(pid := None))"
      by (rule learned_sizes [OF s(1-3) le f(1-7)])
    moreover have "m \<le> part_size s" if "(h(pid := None)) i = Some m" for i m
      using that d(6) by (auto split: if_splits)
    ultimately have "session_ok ?u (h(pid := None))"
      unfolding session_ok_def f(1-3) tot
      using k(2) d(3,4) handed_update [OF s(1,3), of Ready] by simp
    then show ?thesis using k(1) bm(2) by auto
  qed
qed

lemma session_finish_known:
  assumes s: "session_ok s h" "\<not> unknown_size_flag s" "h pid = Some sz" "n \<le> sz"
  shows "\<exists>s' r. on_part_ok pid sz n s = Some (s', r) \<and> (r = Inr () \<longrightarrow> session_ok s' (h(pid := None)))"
proof -
  let ?p = "int (part_size s)"
  note d = session_okD [OF s(1)] and ko = session_okD(9) [OF s(1,2), unfolded size_known_ok_def]
    and pend = handed_pending [OF s(1,3)]
  have "sz \<le> part_size s" using d(6) s(3) by blast
  then have n64: "int n \<le> int64_max" using s(4) d(3) by (simp add: int64_max_def)
  obtain bm where bm: "marks pid n (bitmask s) bm" "on_part_ok pid sz n s =
      Some (mark_ready pid n bm s, check_part_size (?p * pid) sz n (mark_ready pid n bm s))"
    using on_part_ok_marks [OF d(1) pend(1,2,3) n64, of sz] s(2) by (auto simp: Let_def)
  let ?t = "mark_ready pid n bm s"
  have "session_ok ?t (h(pid := None))" if ok: "check_part_size (?p * pid) sz n ?t = Inr ()"
  proof -
    have len: "n = plen ?p (file_size s) pid"
    proof (cases "pid * ?p < file_size s")
      case True
      then have "sz = plen ?p (file_size s) pid" using ko s(3) by blast
      moreover have "\<not> n < sz" using ok True by (auto simp: check_part_size_def mult.commute split: if_splits)
      ultimately show ?thesis using s(4) by simp
    next
      case False
      then have "n = 0" using ok by (auto simp: check_part_size_def mult.commute split: if_splits)
      then show ?thesis using False by (simp add: plen_zero)
    qed
    have "total_size s = file_size s" "total_size ?t = file_size s"
      using s(2) by (simp_all add: total_size_def)
    moreover have "parts_wf ?t"
      using mark_ready_shape [OF _ pend(1,2,3) bm(1)] mark_ready_accounted [OF d(1) pend(2,1,3), of n bm]
        d(1) len \<open>total_size s = file_size s\<close> by (simp add: parts_wf_def part_len_plen)
    moreover have "ready_size ?t = status_sum (part_weight ?p (file_size s)) ((part_statuses s)[nat pid := Ready])"
      using ready_sum_update [of "nat pid" "part_statuses s" ?p "file_size s" "int n" "file_size s"]
        pend len d(7) \<open>total_size s = file_size s\<close> by simp
    moreover have "size_known_ok ?t (h(pid := None))"
      using ko by (auto simp: size_known_ok_def split: if_splits)
    moreover have "m \<le> part_size s" if "(h(pid := None)) i = Some m" for i m
      using that d(6) by (auto split: if_splits)
    ultimately show ?thesis
      using d(3,4) s(2) handed_update [OF s(1,3), of Ready] by (simp add: session_ok_def)
  qed
  then show ?thesis using bm(2) by auto
qed

lemma session_finish:
  assumes "session_ok s h" "h pid = Some sz" "n \<le> sz"
  shows "\<exists>s' r. on_part_ok pid sz n s = Some (s', r) \<and> (r = Inr () \<longrightarrow> session_ok s' (h(pid := None)))"
  using session_finish_unknown [OF assms(1) _ assms(2,3)] session_finish_known [OF assms(1) _ assms(2,3)]
  by blast

lemma ready_sum_eq:
  "status_sum (part_weight p tot) sts =
    (\<Sum>j\<in>{j. j < length sts \<and> sts ! j = Ready}. int (plen p tot (int j)))"
  unfolding status_sum_def part_weight_def
  by (rule sum.mono_neutral_cong_right) auto

text \<open>Steps that finish no part keep the session well-formed.\<close>

lemma session_change:
  assumes s: "session_ok s h" and wf: "parts_wf s'" and same: "same_sizes s s'"
    and grow: "length (part_statuses s) \<le> length (part_statuses s')" "part_count s' \<le> int32_max"
    and ready: "\<And>j. j < length (part_statuses s') \<and> part_statuses s' ! j = Ready \<longleftrightarrow>
      j < length (part_statuses s) \<and> part_statuses s ! j = Ready"
    and h': "\<And>pid. h' pid \<noteq> None \<longleftrightarrow>
      0 \<le> pid \<and> pid < part_count s' \<and> part_statuses s' ! nat pid = Pending"
    and new: "\<And>pid n. h' pid = Some n \<Longrightarrow> h pid = Some n \<or> 0 < n \<and> n = plen (int (part_size s)) (total_size s) pid"
  shows "session_ok s' h'"
proof -
  let ?p = "int (part_size s)"
  note d = session_okD [OF s]
  have f: "part_size s' = part_size s" "unknown_size_flag s' = unknown_size_flag s"
    "max_size s' = max_size s" "min_size s' = min_size s" "file_size s' = file_size s"
    "ready_size s' = ready_size s" "total_size s' = total_size s"
    using same by (simp_all add: same_sizes_def total_size_def)
  have cnt: "part_count s * ?p \<le> part_count s' * ?p" "part_count s' = int (length (part_statuses s'))"
    using grow parts_wfD(2) [OF wf] d(10) by (auto intro!: mult_right_mono)
  have small: "n \<le> part_size s" if "h' pid = Some n" for pid n
    using new [OF that] d(6) plen_le [of ?p "total_size s" pid] by auto
  have "if unknown_size_flag s' then size_unknown_ok s' h' else size_known_ok s' h'"
  proof (cases "unknown_size_flag s")
    case True
    note uo = d(8) [OF True, unfolded size_unknown_ok_def]
    have "n = part_size s" if h: "h' pid = Some n" for pid n
      using new [OF h]
    proof
      assume n: "0 < n \<and> n = plen ?p (total_size s) pid"
      then have "pid * ?p < max_size s"
        using True plen_zero [of "max_size s" pid ?p]
        by (cases "pid * ?p < max_size s") (auto simp: total_size_def)
      moreover have "pid \<le> int32_max" using h' [of pid] h grow(2) by auto
      ultimately have "(pid + 1) * ?p \<le> max_size s"
        using uo d(2,3) by (intro whole_parts_full) auto
      then show ?thesis using n True d(2) by (simp add: plen_full total_size_def)
    qed (use uo in blast)
    moreover have "\<forall>j<length (part_statuses s'). part_statuses s' ! j = Ready \<and> int j * ?p < max_size s \<longrightarrow>
        (int j + 1) * ?p \<le> min_size s" using uo ready by blast
    ultimately show ?thesis using uo cnt(1) True by (auto simp: size_unknown_ok_def f)
  next
    case False
    note ko = d(9) [OF False, unfolded size_known_ok_def]
    have "n = plen ?p (file_size s) pid" if "h' pid = Some n" "pid * ?p < file_size s" for pid n
      using new [OF that(1)] ko that(2) False by (auto simp: total_size_def)
    then show ?thesis using ko cnt(1) False by (auto simp: size_known_ok_def f)
  qed
  moreover have "ready_size s' = status_sum (part_weight ?p (total_size s')) (part_statuses s')"
    unfolding ready_sum_eq ready f using d(7) by (simp add: ready_sum_eq)
  ultimately show ?thesis
    using wf grow(2) h' small d(3) unfolding session_ok_def f(1) by blast
qed

lemma session_same:
  assumes "session_ok s h" "parts_wf s'" "same_sizes s s'" "part_count s' \<le> int32_max"
    "part_statuses s' = part_statuses s @ replicate m Empty"
  shows "session_ok s' h"
proof (rule session_change [OF assms(1-3) _ assms(4)])
  fix pid
  have "pid < part_count s' \<and> 0 \<le> pid \<and> part_statuses s' ! nat pid = Pending \<longleftrightarrow>
      pid < part_count s \<and> 0 \<le> pid \<and> part_statuses s ! nat pid = Pending"
    using assms(5) parts_wfD(2) [OF assms(2)] session_okD(10) [OF assms(1)]
    by (auto simp: nth_append split: if_splits)
  then show "(h pid \<noteq> None) = (0 \<le> pid \<and> pid < part_count s' \<and> part_statuses s' ! nat pid = Pending)"
    using session_okD(5) [OF assms(1), of pid] by blast
qed (use assms(5) in \<open>auto simp: nth_append split: if_splits\<close>)

lemma session_failed:
  assumes "session_ok s h" "h pid = Some sz"
  shows "\<exists>s'. on_part_failed pid s = Some s' \<and> session_ok s' (h(pid := None))"
proof -
  note pend = handed_pending [OF assms] and d = session_okD [OF assms(1)]
  obtain s' where s': "on_part_failed pid s = Some s'" "parts_wf s'"
    "part_statuses s' = (part_statuses s)[nat pid := Empty]" and same: "same_sizes s s'"
    using on_part_failed_wf [OF d(1) pend(1,2,3)] by blast
  have len: "part_count s' = part_count s" using parts_wfD(2) [OF s'(2)] s'(3) d(10) by simp
  have "session_ok s' (h(pid := None))"
  proof (rule session_change [OF assms(1) s'(2) same])
    show "((h(pid := None)) i \<noteq> None) =
        (0 \<le> i \<and> i < part_count s' \<and> part_statuses s' ! nat i = Pending)" for i
      using handed_update [OF assms, of Empty i] by (simp add: len s'(3))
    show "j < length (part_statuses s') \<and> part_statuses s' ! j = Ready \<longleftrightarrow>
        j < length (part_statuses s) \<and> part_statuses s ! j = Ready" for j
      using s'(3) pend(3,4) by (cases "j = nat pid") auto
  qed (use s'(3) len d(4) in \<open>auto split: if_splits\<close>)
  then show ?thesis using s'(1) by blast
qed

lemma session_start:
  assumes "session_ok s h"
  shows "\<exists>s' r. start_part s = Some (s', r) \<and>
    (\<forall>e. r = Inl e \<and> err_code e = -1 \<longrightarrow> session_ok s' h) \<and>
    (\<forall>p. r = Inr p \<longrightarrow> session_ok s' (if part_len p = 0 then h else h(part_id p := Some (part_len p))) \<and>
       (part_len p \<noteq> 0 \<longrightarrow> h (part_id p) = None \<and>
          status_at (part_statuses s) (part_id p) \<in> {None, Some Empty}))"
proof -
  note d = session_okD [OF assms]
  obtain s' r where out: "start_part s = Some (s', r)"
    "\<And>e. r = Inl e \<Longrightarrow> err_code e = -1 \<Longrightarrow>
       parts_wf s' \<and> same_sizes s s' \<and> part_statuses s' = part_statuses s"
    "\<And>p. r = Inr p \<Longrightarrow> parts_wf s' \<and> same_sizes s s' \<and> part_count s' \<le> max (part_count s) 8064 \<and>
       (p = get_empty_part \<and> pending_count s' = pending_count s \<and>
          (\<exists>m. part_statuses s' = part_statuses s @ replicate m Empty) \<or>
        hands_out s p s' \<and> in_window s' (part_id p) \<and> pending_count s' = pending_count s + 1)"
    using start_part_outcome [OF d(1)] unfolding start_outcome_def by blast
  have waits: "session_ok s' h" if "r = Inl e" "err_code e = -1" for e
    using session_same [OF assms, of s' 0] out(2) [OF that] d(4,10) parts_wfD(2) by auto
  have started: "session_ok s' (if part_len p = 0 then h else h(part_id p := Some (part_len p))) \<and>
       (part_len p \<noteq> 0 \<longrightarrow> h (part_id p) = None \<and>
          status_at (part_statuses s) (part_id p) \<in> {None, Some Empty})" if r: "r = Inr p" for p
  proof -
    note o = out(3) [OF r]
    have cnt: "part_count s' \<le> int32_max" using o d(4) by (auto simp: int32_max_def)
    show ?thesis
    proof (cases "p = get_empty_part \<and> (\<exists>m. part_statuses s' = part_statuses s @ replicate m Empty)")
      case True
      then show ?thesis using session_same [OF assms _ _ cnt] o by (auto simp: get_empty_part_def)
    next
      case False
      let ?k = "nat (part_id p)"
      have ho: "0 \<le> part_id p" "?k \<le> length (part_statuses s)" "0 < part_len p"
        "?k < length (part_statuses s) \<Longrightarrow> part_statuses s ! ?k = Empty"
        "part_statuses s' = (part_statuses s @ replicate (Suc ?k - length (part_statuses s)) Empty)[?k := Pending]"
        "p = get_part s' (part_id p)"
        using o False by (auto simp: hands_out_def Let_def)
      have tot: "total_size s' = total_size s" "part_size s' = part_size s"
        using o by (simp_all add: same_sizes_def total_size_def)
      have plen: "part_len p = plen (int (part_size s)) (total_size s) (part_id p)"
        using ho(6) part_len_plen [of s' "part_id p"] tot by simp
      have none: "h (part_id p) = None"
        using d(5) [of "part_id p"] ho(1,4) d(10)
        by (cases "h (part_id p)") (auto simp: nat_less_iff)
      have nth: "part_statuses s' ! j = (if j = ?k then Pending else if j < length (part_statuses s)
          then part_statuses s ! j else Empty)" if "j < length (part_statuses s')" for j
        using that ho(2,5) by (auto simp: nth_list_update nth_append)
      have len': "length (part_statuses s') = max (length (part_statuses s)) (Suc ?k)"
        using ho(2,5) by auto
      have cs: "part_count s' = int (length (part_statuses s'))" using o parts_wfD(2) by blast
      have "session_ok s' (h(part_id p := Some (part_len p)))"
      proof (rule session_change [OF assms _ _ _ cnt])
        show "((h(part_id p := Some (part_len p))) i \<noteq> None) =
            (0 \<le> i \<and> i < part_count s' \<and> part_statuses s' ! nat i = Pending)" for i
        proof (cases "0 \<le> i \<and> i \<noteq> part_id p")
          case True
          then obtain j where j: "i = int j" "j \<noteq> ?k" using zero_le_imp_eq_int [of i] ho(1) by auto
          have "(h i \<noteq> None) = (j < length (part_statuses s) \<and> part_statuses s ! j = Pending)"
            using d(5) [of i] j(1) d(10) by simp
          then show ?thesis
            using nth [of j] j len' True by (cases "j < length (part_statuses s)") (auto simp: cs)
        next
          case False
          have at_k: "part_statuses s' ! ?k = Pending" "part_id p < part_count s'"
            using nth [of ?k] len' ho(1) cs by (simp_all add: nat_less_iff)
          show ?thesis
          proof (cases "i = part_id p")
            case True
            then show ?thesis using at_k ho(1) by simp
          next
            case False
            then show ?thesis using \<open>\<not> (0 \<le> i \<and> i \<noteq> part_id p)\<close> d(5) [of i] by simp
          qed
        qed
        show "j < length (part_statuses s') \<and> part_statuses s' ! j = Ready \<longleftrightarrow>
            j < length (part_statuses s) \<and> part_statuses s ! j = Ready" for j
          using nth [of j] len' ho(4) by (auto split: if_splits)
      qed (use o ho(3) plen len' in \<open>auto split: if_splits\<close>)
      then show ?thesis using none ho(3,4) by (auto simp: status_at_def nat_less_iff)
    qed
  qed
  show ?thesis using out(1) waits started by blast
qed

lemma session_offset:
  assumes "session_ok s h" "0 \<le> limit" "in_int32 (offset div int (part_size s))"
    "set_streaming_offset offset limit s = Some (s', r)"
  shows "session_ok s' h"
proof -
  note d = session_okD [OF assms(1)]
  have "\<not> (unknown_size_flag s \<and> offset \<noteq> 0 \<and> (offset < 0 \<or> need_check s))"
    using set_streaming_offset_outcome [OF d(1) assms(2,3)] assms(4) by auto
  then obtain m where "parts_wf s'" "same_sizes s s'"
    "part_statuses s' = part_statuses s @ replicate m Empty"
    "part_count s' \<le> max (part_count s) int32_max"
    using set_streaming_offset_outcome [OF d(1) assms(2,3)] assms(4) by auto
  then show ?thesis using session_same [OF assms(1)] d(4) by simp
qed

lemma session_limit:
  assumes "session_ok s h" "0 \<le> limit"
  shows "\<exists>s'. set_streaming_limit limit s = Some s' \<and> session_ok s' h"
proof -
  note d = session_okD [OF assms(1)]
  obtain n where n: "set_streaming_limit limit s = Some (s\<lparr>streaming_limit := limit, streaming_ready_size := n\<rparr>)"
    "parts_wf (s\<lparr>streaming_limit := limit, streaming_ready_size := n\<rparr>)"
    using set_streaming_limit_wf [OF _ assms(2)] d(1) by (auto simp: parts_wf_def)
  then show ?thesis
    using session_same [OF assms(1) n(2), of 0] d(4) by (simp add: same_sizes_def)
qed

lemma session_cursor:
  assumes "session_ok s h"
  shows "\<exists>s'. update_first_not_ready_part s = Some s' \<and> session_ok s' h \<and>
    streaming_limit s' = streaming_limit s \<and> part_count s' = part_count s \<and>
    unknown_size_flag s' = unknown_size_flag s \<and> file_size s' = file_size s"
proof -
  note d = session_okD [OF assms(1)]
  obtain i j where ij: "update_first_not_ready_part s =
      Some (s\<lparr>first_not_ready_part := i, first_streaming_not_ready_part := j\<rparr>)"
    "parts_wf (s\<lparr>first_not_ready_part := i, first_streaming_not_ready_part := j\<rparr>)"
    using update_first_not_ready_part_wf [OF d(1)] by blast
  then show ?thesis
    using session_same [OF assms(1) ij(2), of 0] d(4) by (simp add: same_sizes_def)
qed

lemma session_reached:
  assumes "session_ok s h" "is_streaming_limit_reached s = Some (s', b)"
  shows "session_ok s' h"
proof (cases "streaming_limit s = 0")
  case True
  then show ?thesis using assms by (simp add: is_streaming_limit_reached_def)
next
  case False
  obtain t where t: "update_first_not_ready_part s = Some t" "session_ok t h"
    using session_cursor [OF assms(1)] by blast
  then have "s' = t"
    using assms(2) False
    by (auto simp: is_streaming_limit_reached_def Let_def bind_eq_Some_conv split: if_splits)
  then show ?thesis using t(2) by simp
qed

subsection \<open>The start of a session\<close>

lemma grow_part_size_bounds:
  "grow_part_size e ps = Some q \<Longrightarrow> 0 < ps \<Longrightarrow> ps \<le> 1048576 \<Longrightarrow> 0 < q \<and> q \<le> 1048576"
proof (induction e ps rule: grow_part_size.induct)
  case (1 e ps)
  show ?case
  proof (cases "ps < MAX_PART_SIZE \<and> (\<exists>c. calc_part_count e ps = Some c \<and> c > MAX_PART_COUNT)")
    case True
    then obtain c where c: "calc_part_count e ps = Some c" "c > MAX_PART_COUNT" by blast
    have "grow_part_size e (ps * 2) = Some q"
      using 1(2) True c by (subst (asm) grow_part_size.simps) simp
    moreover have "ps * 2 \<le> 1048576" using True by (simp add: MAX_PART_SIZE_def)
    ultimately show ?thesis using 1(1) [OF _ c(1,2)] True 1(3) by simp
  next
    case False
    then have "q = ps"
      using 1(2) by (subst (asm) grow_part_size.simps) (auto split: if_splits option.splits)
    then show ?thesis using 1(3,4) by simp
  qed
qed

text \<open>The loop over the parts known to be ready.\<close>

definition loaded :: "parts \<Rightarrow> bool" where
  "loaded s \<longleftrightarrow> 0 < part_size s \<and> part_count s = int (length (part_statuses s)) \<and>
     (\<forall>j<length (part_statuses s). part_statuses s ! j \<noteq> Pending) \<and>
     (\<forall>i. bitmask_get (bitmask s) i \<longrightarrow>
        i < int (length (part_statuses s)) \<and> part_statuses s ! nat i = Ready) \<and>
     ready_size s = status_sum (part_weight (int (part_size s)) (total_size s)) (part_statuses s)"

definition same_static :: "parts \<Rightarrow> parts \<Rightarrow> bool" where
  "same_static s s' \<longleftrightarrow> s' = s\<lparr>ready_size := ready_size s', part_statuses := part_statuses s', bitmask := bitmask s'\<rparr>"

lemma init_ready_parts_loaded:
  assumes "init_ready_parts is s = Some (s', Inr ())" "loaded s" "distinct is"
    "\<forall>i\<in>set is. 0 \<le> i \<and> i < part_count s \<longrightarrow> part_statuses s ! nat i \<noteq> Ready"
  shows "loaded s' \<and> same_static s s' \<and> length (part_statuses s') = length (part_statuses s)"
  using assms
proof (induction "is" arbitrary: s)
  case Nil
  then show ?case by (simp add: same_static_def)
next
  case (Cons i "is")
  obtain ps bm where step: "0 \<le> i" "i < part_count s"
    "set_status (part_statuses s) i Ready = Some ps" "bitmask_set (bitmask s) i = Some bm"
    "init_ready_parts is (s\<lparr>part_statuses := ps, bitmask := bm,
        ready_size := ready_size s + int (part_len (get_part s i))\<rparr>) = Some (s', Inr ())"
    using Cons.prems(1)
    by (auto simp: Let_def bind_eq_Some_conv split: if_splits)
  let ?t = "s\<lparr>part_statuses := ps, bitmask := bm, ready_size := ready_size s + int (part_len (get_part s i))\<rparr>"
  have l: "loaded s" by (rule Cons.prems(2))
  have ps: "ps = (part_statuses s)[nat i := Ready]" "nat i < length (part_statuses s)"
    using step(1,3) by (auto simp: set_status_Some nat_less_iff)
  have bm: "bitmask_get bm j \<longleftrightarrow> j = i \<or> bitmask_get (bitmask s) j" for j
    using bitmask_set_spec [OF step(1), of "bitmask s"] step(4) by auto
  have "loaded ?t"
  proof -
    have "part_statuses s ! nat i \<noteq> Ready" using Cons.prems(4) step(1,2) by simp
    then have "status_sum (part_weight (int (part_size s)) (total_size s)) ps = ready_size ?t"
      using ready_sum_update [of "nat i" "part_statuses s" "int (part_size s)" "total_size s"
          "int (part_len (get_part s i))" "total_size s"] ps l step(1)
      by (simp add: loaded_def part_len_plen)
    moreover have "total_size ?t = total_size s" by (simp add: total_size_def)
    moreover have "j < int (length ps) \<and> ps ! nat j = Ready" if "bitmask_get bm j" for j
      using that l ps step(1) by (cases "nat j = nat i") (auto simp: bm loaded_def)
    ultimately show ?thesis
      using l ps by (auto simp: loaded_def nth_list_update)
  qed
  moreover have "\<forall>k\<in>set is. 0 \<le> k \<and> k < part_count ?t \<longrightarrow> part_statuses ?t ! nat k \<noteq> Ready"
  proof (intro ballI impI)
    fix k assume k: "k \<in> set is" "0 \<le> k \<and> k < part_count ?t"
    then have "k \<noteq> i" using Cons.prems(3) by auto
    then have "nat k \<noteq> nat i" using k(2) step(1) eq_nat_nat_iff [of k i] by simp
    then show "part_statuses ?t ! nat k \<noteq> Ready" using Cons.prems(4) k ps by simp
  qed
  ultimately have "loaded s' \<and> same_static ?t s' \<and> length (part_statuses s') = length (part_statuses ?t)"
    using Cons.IH [OF step(5)] Cons.prems(3) by simp
  then show ?case using ps(1) by (simp add: same_static_def)
qed

lemma loaded_wf:
  assumes "loaded s" "streaming_offset s = 0" "streaming_limit s = 0" "pending_count s = 0"
    "first_empty_part s = 0" "first_not_ready_part s = 0"
    "first_streaming_empty_part s = 0" "first_streaming_not_ready_part s = 0"
  shows "parts_wf s"
proof -
  have "status_sum pending_weight (part_statuses s) = 0"
    using assms(1) by (simp add: status_sum_def loaded_def pending_weight_def)
  moreover have "cursor_ok (part_statuses s) P f 0" for P f by (auto simp: cursor_ok_def)
  ultimately show ?thesis
    using assms by (auto simp: parts_wf_def parts_shape_def window_accounted_def loaded_def int_range_defs)
qed

lemma get_ready_prefix_count_frame:
  assumes "parts_wf s" "\<not> need_check s"
  shows "\<exists>i j. get_ready_prefix_count s =
      Some (s\<lparr>first_not_ready_part := i, first_streaming_not_ready_part := j\<rparr>, i) \<and>
    parts_wf (s\<lparr>first_not_ready_part := i, first_streaming_not_ready_part := j\<rparr>)"
proof -
  obtain i j where ij: "update_first_not_ready_part s =
      Some (s\<lparr>first_not_ready_part := i, first_streaming_not_ready_part := j\<rparr>)"
    "parts_wf (s\<lparr>first_not_ready_part := i, first_streaming_not_ready_part := j\<rparr>)"
    using update_first_not_ready_part_wf [OF assms(1)] by blast
  then show ?thesis
    using assms(2)
    by (intro exI [of _ i] exI [of _ j])
      (simp add: get_ready_prefix_count_def get_unchecked_ready_prefix_count_def)
qed

text \<open>A fresh object before \<open>init_common\<close>, and the session it starts.\<close>

definition fresh :: "parts \<Rightarrow> bool" where
  "fresh s \<longleftrightarrow> 0 < part_size s \<and> part_size s \<le> 2147483648 \<and> part_count s \<le> int32_max \<and>
     \<not> need_check s \<and> streaming_offset s = 0 \<and> streaming_limit s = 0 \<and>
     first_streaming_empty_part s = 0 \<and> first_streaming_not_ready_part s = 0 \<and> bitmask s = []"

lemma init_common_session:
  assumes init: "init_common is s = Some (s', Inr ())" and "fresh s" "distinct is"
    and sizes: "if unknown_size_flag s then is = [] \<and> part_count s = 0 \<and> min_size s = 0 \<and> max_size s = int64_max
      else 0 \<le> file_size s \<and> file_size s \<le> part_count s * int (part_size s)"
  shows "session_ok s' (\<lambda>_. None)"
proof -
  have cnt: "0 \<le> part_count s" using init
    by (simp add: init_common_def resize_statuses_def split: if_splits)
  let ?t = "s\<lparr>ready_size := 0, streaming_ready_size := 0, pending_count := 0, first_empty_part := 0,
      first_not_ready_part := 0, part_statuses := replicate (nat (part_count s)) Empty\<rparr>"
  obtain u where u: "init_ready_parts is ?t = Some (u, Inr ())"
    and last: "do { (v, n) \<leftarrow> get_ready_prefix_count u;
                    Some (v\<lparr>checked_prefix_size := n * int (part_size v)\<rparr>, Inr ()) } = Some (s', Inr () :: unit result)"
  proof -
    obtain u r where r: "init_ready_parts is ?t = Some (u, r)"
      "(case r of Inl e \<Rightarrow> Some (u, Inl e) | Inr _ \<Rightarrow> do { (v, n) \<leftarrow> get_ready_prefix_count u;
                    Some (v\<lparr>checked_prefix_size := n * int (part_size v)\<rparr>, Inr ()) }) = Some (s', Inr () :: unit result)"
      using init cnt
      by (auto simp: init_common_def resize_statuses_def bind_eq_Some_conv)
    show ?thesis using that [of u] r by (cases r) auto
  qed
  have "loaded ?t"
    using assms(2) cnt by (auto simp: loaded_def fresh_def status_sum_zero bitmask_get_def)
  moreover have "\<forall>i\<in>set is. 0 \<le> i \<and> i < part_count ?t \<longrightarrow> part_statuses ?t ! nat i \<noteq> Ready"
    by (auto simp: nat_less_iff)
  ultimately have l: "loaded u" and st: "same_static ?t u"
    and len: "length (part_statuses u) = nat (part_count s)"
    using init_ready_parts_loaded [OF u _ assms(3)] by auto
  obtain rs sts bm where ueq: "u = ?t\<lparr>ready_size := rs, part_statuses := sts, bitmask := bm\<rparr>"
    using st by (auto simp: same_static_def)
  have fields: "streaming_offset u = 0" "streaming_limit u = 0" "pending_count u = 0"
    "first_empty_part u = 0" "first_not_ready_part u = 0" "first_streaming_empty_part u = 0"
    "first_streaming_not_ready_part u = 0" "\<not> need_check u" "part_size u = part_size s"
    "part_count u = part_count s" "unknown_size_flag u = unknown_size_flag s" "file_size u = file_size s"
    "min_size u = min_size s" "max_size u = max_size s"
    using assms(2) by (simp_all add: ueq fresh_def)
  obtain i j where ij: "get_ready_prefix_count u =
      Some (u\<lparr>first_not_ready_part := i, first_streaming_not_ready_part := j\<rparr>, i)"
    "parts_wf (u\<lparr>first_not_ready_part := i, first_streaming_not_ready_part := j\<rparr>)"
    using get_ready_prefix_count_frame [OF loaded_wf [OF l fields(1-7)] fields(8)] by blast
  let ?v = "u\<lparr>first_not_ready_part := i, first_streaming_not_ready_part := j\<rparr>"
  have s': "s' = ?v\<lparr>checked_prefix_size := i * int (part_size u)\<rparr>" using last ij(1) by simp
  have "parts_wf s'" using ij(2) by (simp add: s' parts_wf_def parts_shape_def)
  moreover have "total_size s' = total_size u" by (simp add: total_size_def s')
  moreover have "if unknown_size_flag s' then size_unknown_ok s' (\<lambda>_. None) else size_known_ok s' (\<lambda>_. None)"
  proof (cases "unknown_size_flag s")
    case True
    then have "is = []" "part_count s = 0" using sizes by simp_all
    then have "sts = []" using len by (simp add: ueq)
    then show ?thesis
      using True sizes fields by (simp add: size_unknown_ok_def s' ueq whole_parts_def int64_max_def)
  next
    case False
    then show ?thesis using sizes fields by (simp add: size_known_ok_def s')
  qed
  moreover have "\<not> (0 \<le> k \<and> k < part_count s' \<and> part_statuses s' ! nat k = Pending)" for k
    using l fields by (auto simp: loaded_def s' nat_less_iff)
  moreover have "part_size s' = part_size s" "part_count s' = part_count s"
    "part_statuses s' = part_statuses u" "ready_size s' = ready_size u"
    using fields by (simp_all add: s')
  ultimately show ?thesis
    using assms(2) l fields(9,10) by (simp add: session_ok_def loaded_def fresh_def)
qed

lemma to_int32_small: "0 \<le> to_int32 x \<Longrightarrow> 0 \<le> x \<Longrightarrow> x < 4294967296 \<Longrightarrow> to_int32 x = x \<and> x \<le> int32_max"
proof -
  assume a: "0 \<le> to_int32 x" "0 \<le> x" "x < 4294967296"
  show ?thesis
  proof (cases "x + 2147483648 < 4294967296")
    case True
    then show ?thesis using a by (simp add: to_int32_def int32_max_def)
  next
    case False
    then have "(x + 2147483648) mod 4294967296 = x + 2147483648 - 4294967296"
      using a mod_pos_pos_trivial [of "x + 2147483648 - 4294967296" 4294967296]
        mod_add_self2 [of "x + 2147483648 - 4294967296" 4294967296]
      by (simp add: add.commute)
    then show ?thesis using a by (simp add: to_int32_def)
  qed
qed

lemma part_count_covers:
  fixes n p :: int assumes "0 < p" shows "n \<le> (n + p - 1) div p * p"
proof -
  have "(n + p - 1) mod p < p" using assms by simp
  moreover have "(n + p - 1) div p * p + (n + p - 1) mod p = n + p - 1" by simp
  ultimately show ?thesis by linarith
qed

lemma part_count_le:
  fixes n p :: int assumes "0 < p" "1 \<le> n" shows "(n + p - 1) div p \<le> n"
proof -
  have "n * 1 \<le> n * p" using assms by (intro mult_left_mono) auto
  then have "(n + p - 1) div p \<le> (p - 1 + n * p) div p" using assms by (intro zdiv_mono1) linarith+
  also have "\<dots> = n" using assms by (simp add: div_pos_pos_trivial)
  finally show ?thesis .
qed

text \<open>A download whose final size is known, or that knows nothing of the size.\<close>

lemma init_session:
  assumes init: "init sz expected True ps is use_limit upload new_parts_manager = Some (s, Inr ())"
    and "0 \<le> sz" "distinct is" "sz = 0 \<longrightarrow> is = []" "ps \<le> 2147483648"
  shows "session_ok s (\<lambda>_. None)"
proof (cases "sz = 0")
  case True
  obtain q where q: "0 < q" "q \<le> 2147483648"
    "init_common [] (new_parts_manager\<lparr>is_upload := upload, use_part_count_limit := use_limit,
        expected_size := expected, unknown_size_flag := True, file_size := 0, min_size := 0,
        max_size := int64_max, part_size := q, part_count := 0\<rparr>) = Some (s, Inr ())"
  proof (cases "ps = 0")
    case False
    then show ?thesis using that [of ps] init True assms(4,5)
      by (auto simp: init_def init_no_size_def Let_def split: if_splits)
  next
    case ps: True
    obtain p where p: "grow_part_size expected 32768 = Some p"
      "init_common [] (new_parts_manager\<lparr>is_upload := upload, use_part_count_limit := use_limit,
        expected_size := expected, unknown_size_flag := True, file_size := 0, min_size := 0,
        max_size := int64_max, part_size := (if p < MAX_PART_SIZE then p * 2 else p), part_count := 0\<rparr>) =
        Some (s, Inr ())"
      using init True ps assms(4)
      by (auto simp: init_def init_no_size_def Let_def bind_eq_Some_conv split: if_splits)
    then show ?thesis
      using that [of "if p < MAX_PART_SIZE then p * 2 else p"] grow_part_size_bounds [OF p(1)]
      by (auto simp: MAX_PART_SIZE_def)
  qed
  show ?thesis
    by (rule init_common_session [OF q(3)])
      (use q in \<open>simp_all add: fresh_def new_parts_manager_def int32_max_def\<close>)
next
  case False
  obtain q where q: "0 < q" "q \<le> 2147483648" "expected \<le> MAX_FILE_SIZE" "sz \<le> expected"
    "init_common is (new_parts_manager\<lparr>is_upload := upload, use_part_count_limit := use_limit,
        expected_size := expected, unknown_size_flag := False, file_size := sz, part_size := q,
        part_count := to_int32 ((sz + int q - 1) div int q)\<rparr>) = Some (s, Inr ())"
  proof (cases "ps = 0")
    case ps: False
    then show ?thesis using that [of ps] init False assms(5)
      by (auto simp: init_def Let_def calc_part_count_def bind_eq_Some_conv split: if_splits)
  next
    case True
    obtain p where p: "grow_part_size expected 65536 = Some p" "expected \<le> MAX_FILE_SIZE" "sz \<le> expected"
      "init_common is (new_parts_manager\<lparr>is_upload := upload, use_part_count_limit := use_limit,
        expected_size := expected, unknown_size_flag := False, file_size := sz, part_size := p,
        part_count := to_int32 ((sz + int p - 1) div int p)\<rparr>) = Some (s, Inr ())"
      using init True False
      by (auto simp: init_def Let_def calc_part_count_def bind_eq_Some_conv split: if_splits)
    then show ?thesis using that [of p] grow_part_size_bounds [OF p(1)] by auto
  qed
  let ?n = "(sz + int q - 1) div int q"
  have n: "?n \<le> sz" "0 \<le> ?n" "sz \<le> ?n * int q"
    using part_count_le [of "int q" sz] part_count_covers [of "int q" sz] q(1) assms(2) False
    by (simp_all add: pos_imp_zdiv_nonneg_iff)
  have "0 \<le> to_int32 ?n"
    using q(5) by (simp add: init_common_def resize_statuses_def split: if_splits)
  then have "to_int32 ?n = ?n" "?n \<le> int32_max"
    using to_int32_small [of ?n] n q(3,4) by (simp_all add: parts_limits)
  then show ?thesis
    by (intro init_common_session [OF q(5) _ assms(3)])
      (use q n assms(2) in \<open>simp_all add: fresh_def new_parts_manager_def\<close>)
qed

subsection \<open>Reachable sessions\<close>

text \<open>
  What a loader does with the manager.  A transfer that ends badly with an error status other than
  ``wait'' ends the session, so no step follows it.
\<close>

inductive session_step :: "parts \<times> handed \<Rightarrow> parts \<times> handed \<Rightarrow> bool" where
  hand_out: "start_part s = Some (s', Inr p) \<Longrightarrow>
    session_step (s, h) (s', if part_len p = 0 then h else h(part_id p := Some (part_len p)))"
| wait: "start_part s = Some (s', Inl e) \<Longrightarrow> err_code e = -1 \<Longrightarrow> session_step (s, h) (s', h)"
| transferred: "h pid = Some sz \<Longrightarrow> n \<le> sz \<Longrightarrow> on_part_ok pid sz n s = Some (s', Inr ()) \<Longrightarrow>
    session_step (s, h) (s', h(pid := None))"
| failed: "h pid = Some sz \<Longrightarrow> on_part_failed pid s = Some s' \<Longrightarrow>
    session_step (s, h) (s', h(pid := None))"
| offset: "0 \<le> limit \<Longrightarrow> in_int32 (offset div int (part_size s)) \<Longrightarrow>
    set_streaming_offset offset limit s = Some (s', r) \<Longrightarrow> session_step (s, h) (s', h)"
| limit: "0 \<le> limit \<Longrightarrow> set_streaming_limit limit s = Some s' \<Longrightarrow> session_step (s, h) (s', h)"
| query: "may_finish s = Some (s', b) \<Longrightarrow> session_step (s, h) (s', h)"

inductive session :: "parts \<Rightarrow> handed \<Rightarrow> bool" where
  begins: "init sz expected True ps is use_limit upload new_parts_manager = Some (s, Inr ()) \<Longrightarrow>
    0 \<le> sz \<Longrightarrow> distinct is \<Longrightarrow> sz = 0 \<longrightarrow> is = [] \<Longrightarrow> ps \<le> 2147483648 \<Longrightarrow> session s (\<lambda>_. None)"
| goes_on: "session s h \<Longrightarrow> session_step (s, h) (s', h') \<Longrightarrow> session s' h'"

lemma session_step_ok:
  assumes "session_step (s, h) (s', h')" "session_ok s h"
  shows "session_ok s' h'"
  using assms(1)
proof (cases rule: session_step.cases)
  case (hand_out p)
  then show ?thesis using session_start [OF assms(2)] by auto
next
  case (wait e)
  then show ?thesis using session_start [OF assms(2)] by auto
next
  case (transferred pid sz n)
  then show ?thesis using session_finish [OF assms(2), of pid sz n] by auto
next
  case (failed pid sz)
  then show ?thesis using session_failed [OF assms(2), of pid sz] by auto
next
  case (offset limit offset r)
  then show ?thesis using session_offset [OF assms(2)] by blast
next
  case (limit limit)
  then show ?thesis using session_limit [OF assms(2), of limit] by auto
next
  case (query b)
  obtain t reached where "is_streaming_limit_reached s = Some (t, reached)" "s' = t"
    using query(2) by (auto simp: may_finish_def bind_eq_Some_conv)
  then show ?thesis using session_reached [OF assms(2)] query by blast
qed

lemma session_invariant: "session s h \<Longrightarrow> session_ok s h"
proof (induction rule: session.induct)
  case (begins sz expected ps "is" use_limit upload s)
  then show ?case using init_session by blast
next
  case (goes_on s h s' h')
  then show ?case using session_step_ok by blast
qed

lemma sum_plen:
  fixes F p :: int
  assumes "0 \<le> F" "0 < p"
  shows "(\<Sum>j<n. int (plen p F (int j))) = min F (int n * p)"
proof (induction n)
  case (Suc n)
  have "int (plen p F (int n)) = (if F < int n * p then 0 else min p (F - int n * p))"
    using assms by (simp add: plen_def mult.commute)
  then show ?case using Suc assms by (auto simp: algebra_simps min_def)
qed (use assms in simp)

lemma plen_pos_iff: "0 < p \<Longrightarrow> 0 < plen p F i \<longleftrightarrow> i * p < F"
  by (auto simp: plen_def mult.commute)

lemma sum_part_eq:
  fixes f :: "nat \<Rightarrow> int"
  assumes "finite A" "B \<subseteq> A" "\<And>x. x \<in> A \<Longrightarrow> 0 \<le> f x"
  shows "sum f B = sum f A \<longleftrightarrow> (\<forall>x\<in>A - B. f x = 0)"
proof -
  have "sum f A = sum f B + sum f (A - B)"
    using assms(1,2) by (metis add.commute sum.subset_diff)
  moreover have "sum f (A - B) = 0 \<longleftrightarrow> (\<forall>x\<in>A - B. f x = 0)"
    using assms by (intro sum_nonneg_eq_0_iff) auto
  ultimately show ?thesis by auto
qed

lemma known_size_ready_iff:
  assumes "session_ok s h" "\<not> unknown_size_flag s"
  shows "ready_size s = file_size s \<longleftrightarrow>
    (\<forall>j. int j * int (part_size s) < file_size s \<longrightarrow> status_at (part_statuses s) (int j) = Some Ready)"
proof -
  let ?p = "int (part_size s)" and ?F = "file_size s" and ?n = "length (part_statuses s)"
  note d = session_okD [OF assms(1)] and ko = session_okD(9) [OF assms, unfolded size_known_ok_def]
  have p: "0 < ?p" using d(2) by simp
  have "ready_size s = (\<Sum>j\<in>{j. j < ?n \<and> part_statuses s ! j = Ready}. int (plen ?p ?F (int j)))"
    using d(7) assms(2) by (simp add: total_size_def ready_sum_eq)
  moreover have "?F = (\<Sum>j<?n. int (plen ?p ?F (int j)))"
    using sum_plen [of ?F ?p ?n] ko p d(10) by (simp add: min_absorb1)
  moreover have sub: "{j. j < ?n \<and> part_statuses s ! j = Ready} \<subseteq> {..<?n}" by auto
  ultimately have "ready_size s = ?F \<longleftrightarrow>
      (\<forall>j\<in>{..<?n} - {j. j < ?n \<and> part_statuses s ! j = Ready}. int (plen ?p ?F (int j)) = 0)"
    using sum_part_eq [OF finite_lessThan sub, of "\<lambda>j. int (plen ?p ?F (int j))"] by simp
  also have "\<dots> \<longleftrightarrow> (\<forall>j<?n. int j * ?p < ?F \<longrightarrow> part_statuses s ! j = Ready)"
  proof -
    have "int (plen ?p ?F (int j)) = 0 \<longleftrightarrow> \<not> int j * ?p < ?F" for j
      using plen_pos_iff [OF p, of ?F "int j"] by auto
    then show ?thesis by auto
  qed
  also have "\<dots> \<longleftrightarrow> (\<forall>j. int j * ?p < ?F \<longrightarrow> status_at (part_statuses s) (int j) = Some Ready)"
  proof -
    have "j < ?n" if "int j * ?p < ?F" for j
    proof -
      have "int j * ?p < int ?n * ?p" using that ko d(10) by simp
      then show ?thesis using p by simp
    qed
    then show ?thesis by (auto simp: status_at_def)
  qed
  finally show ?thesis .
qed

lemma estimated_extra_outcome:
  assumes "parts_wf s"
  shows "get_estimated_extra s =
    (if streaming_limit s \<noteq> 0 then
       (if streaming_size s < streaming_ready_size s then None
        else Some (streaming_size s - streaming_ready_size s))
     else map_option (\<lambda>e. e - ready_size s) (get_expected_size s))"
proof -
  have e: "\<exists>e. get_expected_size s = Some e" by (simp add: get_expected_size_def get_size_def)
  have "streaming_limit s \<noteq> 0 \<Longrightarrow>
      sum_streaming_ready s (all_part_ids s) = Some (streaming_ready_size s)"
    using sum_streaming_ready_eq [OF parts_wfD(2) [OF assms]] parts_wfD(12) [OF assms]
    by (simp add: window_accounted_def)
  then show ?thesis
    using e by (auto simp: get_estimated_extra_def Let_def check_def)
qed

subsection \<open>Properties\<close>

text \<open>A sample session: two parts are taken, the first arrives, the user seeks beyond the end of the
file and the second part, shorter than the others, reveals the size.\<close>

definition sample_new :: parts where
  "sample_new = new_parts_manager\<lparr>unknown_size_flag := True, max_size := int64_max, part_size := 10\<rparr>"

definition sample_one :: parts where
  "sample_one = sample_new\<lparr>part_count := 1, pending_count := 1, part_statuses := [Pending]\<rparr>"

definition sample_two :: parts where
  "sample_two = sample_new\<lparr>part_count := 2, pending_count := 2, first_empty_part := 1,
     first_streaming_empty_part := 1, part_statuses := [Pending, Pending]\<rparr>"

definition sample_got :: parts where
  "sample_got = sample_two\<lparr>pending_count := 1, part_statuses := [Ready, Pending], bitmask := [1],
     ready_size := 10, min_size := 10\<rparr>"

definition sample_far :: parts where
  "sample_far = sample_got\<lparr>streaming_offset := 30, streaming_limit := 20,
     first_streaming_empty_part := 3, first_streaming_not_ready_part := 3, first_not_ready_part := 1,
     part_count := 3, part_statuses := [Ready, Pending, Empty]\<rparr>"

definition sample_end :: parts where
  "sample_end = sample_far\<lparr>pending_count := 0, part_statuses := [Ready, Ready, Empty], bitmask := [3],
     ready_size := 15, streaming_ready_size := 15, min_size := 15, max_size := 15, file_size := 15,
     unknown_size_flag := False\<rparr>"

lemma sample_new_run: "init 0 0 True 10 [] False False new_parts_manager = Some (sample_new, Inr ())"
  by (simp add: init_def init_no_size_def init_common_def sample_new_def new_parts_manager_def parts_limits
      resize_statuses_def get_ready_prefix_count_def get_unchecked_ready_prefix_count_def
      update_first_not_ready_part_def advance.simps check_def Let_def)

lemma sample_one_run:
  "start_part sample_new = Some (sample_one, Inr \<lparr>part_id = 0, part_offset = 0, part_len = 10\<rparr>)"
  by code_simp

lemma sample_two_run:
  "start_part sample_one = Some (sample_two, Inr \<lparr>part_id = 1, part_offset = 10, part_len = 10\<rparr>)"
  by code_simp

lemma sample_got_run: "on_part_ok 0 10 10 sample_two = Some (sample_got, Inr ())"
  by code_simp

lemma sample_far_run: "set_streaming_offset 30 20 sample_got = Some (sample_far, 3)"
  by code_simp

lemma sample_end_run: "on_part_ok 1 10 5 sample_far = Some (sample_end, Inr ())"
  by code_simp

lemma sample_extra: "get_estimated_extra sample_end = None"
  by code_simp

definition sample_handed :: handed where
  "sample_handed = (\<lambda>pid. if pid = 0 \<or> pid = 1 then Some 10 else None)"

lemma sample_two_session: "session sample_two sample_handed"
proof -
  have "session sample_new (\<lambda>_. None)"
    by (rule session.begins [OF sample_new_run]) simp_all
  from session.goes_on [OF this session_step.hand_out [OF sample_one_run]]
  have "session sample_one (\<lambda>pid. if pid = 0 then Some 10 else None)"
    by (simp add: fun_upd_def)
  from session.goes_on [OF this session_step.hand_out [OF sample_two_run]]
  have "session sample_two (\<lambda>pid. if pid = 1 then Some 10 else if pid = 0 then Some 10 else None)"
    by (simp add: fun_upd_def)
  moreover have "(\<lambda>pid :: int. if pid = 1 then Some (10 :: nat) else if pid = 0 then Some 10 else None) =
      sample_handed" by (rule ext) (simp add: sample_handed_def)
  ultimately show ?thesis by simp
qed

lemma sample_end_session: "session sample_end (sample_handed(0 := None, 1 := None))"
proof -
  have "session sample_got (sample_handed(0 := None))"
    using session.goes_on [OF sample_two_session session_step.transferred [OF _ _ sample_got_run]]
    by (simp add: sample_handed_def)
  then have "session sample_far (sample_handed(0 := None))"
    by (rule session.goes_on) (rule session_step.offset [OF _ _ sample_far_run],
      simp_all add: sample_got_def sample_two_def sample_new_def int_range_defs)
  then show ?thesis
    using session.goes_on [OF _ session_step.transferred [OF _ _ sample_end_run]]
    by (simp add: sample_handed_def)
qed

text \<open>C21: In every reachable download session \<open>start_part\<close> returns (no \<open>CHECK\<close> or out-of-range access
fails), and a part it hands out is neither being transferred nor transferred already.\<close>
theorem start_part_hands_out_once:
  assumes "session s h"
  shows "\<exists>s' r. start_part s = Some (s', r) \<and>
    (\<forall>p. r = Inr p \<and> part_len p \<noteq> 0 \<longrightarrow>
       h (part_id p) = None \<and> status_at (part_statuses s) (part_id p) \<in> {None, Some Empty} \<and>
       status_at (part_statuses s') (part_id p) = Some Pending)"
proof -
  note inv = session_invariant [OF assms]
  obtain s' r where out: "start_part s = Some (s', r)"
    "\<And>p. r = Inr p \<Longrightarrow> session_ok s' (if part_len p = 0 then h else h(part_id p := Some (part_len p))) \<and>
       (part_len p \<noteq> 0 \<longrightarrow> h (part_id p) = None \<and>
          status_at (part_statuses s) (part_id p) \<in> {None, Some Empty})"
    using session_start [OF inv] by blast
  have "status_at (part_statuses s') (part_id p) = Some Pending" if "r = Inr p" "part_len p \<noteq> 0" for p
  proof -
    have "session_ok s' (h(part_id p := Some (part_len p)))" using out(2) [OF that(1)] that(2) by simp
    from handed_pending [OF this, of "part_id p" "part_len p"] show ?thesis
      by (simp add: status_at_Some nat_less_iff)
  qed
  then show ?thesis using out by blast
qed

theorem start_part_hands_out_once_witness:
  "\<exists>s' r. start_part sample_two = Some (s', r) \<and>
    (\<forall>p. r = Inr p \<and> part_len p \<noteq> 0 \<longrightarrow>
       sample_handed (part_id p) = None \<and>
       status_at (part_statuses sample_two) (part_id p) \<in> {None, Some Empty} \<and>
       status_at (part_statuses s') (part_id p) = Some Pending)"
  using start_part_hands_out_once [OF sample_two_session] .

text \<open>C12: In every reachable session, reporting a part that was handed out, with at most the number of
bytes it has, or reporting its failure, never aborts: the \<open>CHECK\<close>s on the status of the part, on the size
of the part and on its number all hold.\<close>
theorem part_reports_never_abort:
  assumes "session s h" "h pid = Some sz" "n \<le> sz"
  shows "on_part_ok pid sz n s \<noteq> None \<and> on_part_failed pid s \<noteq> None"
  using session_finish [OF session_invariant [OF assms(1)] assms(2,3)]
    session_failed [OF session_invariant [OF assms(1)] assms(2)] by auto

theorem part_reports_never_abort_witness:
  "on_part_ok 1 10 5 sample_two \<noteq> None \<and> on_part_failed 1 sample_two \<noteq> None"
  by (rule part_reports_never_abort [OF sample_two_session]) (simp_all add: sample_handed_def)





text \<open>C24: In every reachable session the recount of \<open>get_estimated_extra\<close> agrees with the running counter,
so its first \<open>CHECK\<close> never fails; it aborts exactly when the streaming window is set and holds more ready
bytes than its size, which a reachable session attains when the size becomes known only after a seek beyond
it.\<close>
theorem estimated_extra_abort_iff:
  assumes "session s h"
  shows "get_estimated_extra s = None \<longleftrightarrow>
    streaming_limit s \<noteq> 0 \<and> streaming_size s < streaming_ready_size s"
proof -
  have "\<exists>e. get_expected_size s = Some e" by (simp add: get_expected_size_def get_size_def)
  then show ?thesis
    using estimated_extra_outcome [OF session_okD(1) [OF session_invariant [OF assms]]] by auto
qed

theorem estimated_extra_abort_iff_witness:
  "get_estimated_extra sample_end = None \<and> get_estimated_extra sample_two \<noteq> None"
proof -
  have "streaming_limit sample_end \<noteq> 0 \<and> streaming_size sample_end < streaming_ready_size sample_end"
    by (simp add: sample_end_def sample_far_def sample_got_def sample_two_def sample_new_def
        new_parts_manager_def streaming_size_def)
  moreover have "streaming_limit sample_two = 0"
    by (simp add: sample_two_def sample_new_def new_parts_manager_def)
  ultimately show ?thesis
    using estimated_extra_abort_iff [OF sample_end_session] estimated_extra_abort_iff [OF sample_two_session]
    by simp
qed

end
