(* ===== verification/Td_Parser.thy ===== *)
theory Td_Parser
  imports Td_Chars
begin

text \<open>
  The input cursor of the hand-written parsers: \<open>tdutils/td/utils/Parser.h\<close>.

  A parser is the input that is left, from \<open>ptr_\<close> to \<open>end_\<close>, and the sticky \<open>status_\<close>.  An operation that
  returns a slice gives the slice and the parser.  \<open>None\<close> is the failed \<open>CHECK\<close> of \<open>advance\<close>.
\<close>

unbundle bit_operations_syntax

subsection \<open>The cursor\<close>

record parser =
  p_rest :: bytes
  p_status :: "unit result"

definition new_parser :: "bytes \<Rightarrow> parser" where
  "new_parser data = \<lparr>p_rest = data, p_status = Inr ()\<rparr>"

definition parser_empty :: "parser \<Rightarrow> bool" where
  "parser_empty p \<longleftrightarrow> p_rest p = []"

definition parser_clear :: "parser \<Rightarrow> parser" where
  "parser_clear p = \<lparr>p_rest = [], p_status = Inr ()\<rparr>"

definition parser_data :: "parser \<Rightarrow> bytes" where
  "parser_data p = p_rest p"

definition advance_by :: "nat \<Rightarrow> parser \<Rightarrow> parser option" where
  "advance_by diff p =
     do { check (diff \<le> length (p_rest p)); Some (p\<lparr>p_rest := drop diff (p_rest p)\<rparr>) }"

definition peek_char :: "parser \<Rightarrow> byte" where
  "peek_char p = (case p_rest p of [] \<Rightarrow> 0 | c # _ \<Rightarrow> c)"

text \<open>\<open>std::memchr\<close>: the distance of the first occurrence.\<close>

fun memchr :: "bytes \<Rightarrow> byte \<Rightarrow> nat option" where
  "memchr [] c = None"
| "memchr (x # xs) c = (if x = c then Some 0 else map_option Suc (memchr xs c))"

definition split_rest :: "nat \<Rightarrow> parser \<Rightarrow> bytes \<times> parser" where
  "split_rest n p = (take n (p_rest p), p\<lparr>p_rest := drop n (p_rest p)\<rparr>)"

subsection \<open>Reading\<close>

definition read_till_nofail :: "byte \<Rightarrow> parser \<Rightarrow> bytes \<times> parser" where
  "read_till_nofail c p =
     (if \<not> is_ok (p_status p) then ([], p)
      else let till = (case memchr (p_rest p) c of None \<Rightarrow> length (p_rest p) | Some n \<Rightarrow> n)
           in split_rest till p)"

text \<open>The loop of the overload for a set of characters: the nearest occurrence of any of them.\<close>

fun best_till :: "bytes \<Rightarrow> bytes \<Rightarrow> nat \<Rightarrow> nat" where
  "best_till data [] best = best"
| "best_till data (c # cs) best =
     best_till data cs (case memchr data c of None \<Rightarrow> best
                        | Some till \<Rightarrow> if till < best then till else best)"

definition read_till_nofail_any :: "bytes \<Rightarrow> parser \<Rightarrow> bytes \<times> parser" where
  "read_till_nofail_any cs p =
     (if \<not> is_ok (p_status p) then ([], p)
      else split_rest (best_till (p_rest p) cs (length (p_rest p))) p)"

fun read_while_loop :: "(byte \<Rightarrow> bool) \<Rightarrow> bytes \<Rightarrow> nat" where
  "read_while_loop f [] = 0"
| "read_while_loop f (c # cs) = (if f c then Suc (read_while_loop f cs) else 0)"

definition read_while :: "(byte \<Rightarrow> bool) \<Rightarrow> parser \<Rightarrow> bytes \<times> parser" where
  "read_while f p = split_rest (read_while_loop f (p_rest p)) p"

definition read_all :: "parser \<Rightarrow> bytes \<times> parser" where
  "read_all p = split_rest (length (p_rest p)) p"

definition quoted :: "string \<Rightarrow> byte \<Rightarrow> string \<Rightarrow> bytes" where
  "quoted before c after = str before @ [39, c, 39] @ str after"

definition read_till :: "byte \<Rightarrow> parser \<Rightarrow> bytes \<times> parser" where
  "read_till c p =
     (if \<not> is_ok (p_status p) then ([], p)
      else let (res, p) = read_till_nofail c p in
        if p_rest p = [] \<or> hd (p_rest p) \<noteq> c
        then ([], p\<lparr>p_status := Inl (Err 0 (quoted ''Read till '' c '' failed''))\<rparr>)
        else (res, p))"

subsection \<open>Skipping\<close>

definition skip_nofail :: "byte \<Rightarrow> parser \<Rightarrow> parser" where
  "skip_nofail c p =
     (if p_rest p \<noteq> [] \<and> hd (p_rest p) = c then p\<lparr>p_rest := tl (p_rest p)\<rparr> else p)"

definition skip :: "byte \<Rightarrow> parser \<Rightarrow> parser" where
  "skip c p =
     (if \<not> is_ok (p_status p) then p
      else if p_rest p = [] \<or> hd (p_rest p) \<noteq> c
      then p\<lparr>p_status := Inl (Err 0 (quoted ''Skip '' c '' failed''))\<rparr>
      else p\<lparr>p_rest := tl (p_rest p)\<rparr>)"

definition try_skip :: "byte \<Rightarrow> parser \<Rightarrow> parser option" where
  "try_skip c p =
     (if p_rest p \<noteq> [] \<and> hd (p_rest p) = c then Some (p\<lparr>p_rest := tl (p_rest p)\<rparr>) else None)"

text \<open>The result \<open>false\<close> of \<open>try_skip\<close>, which leaves the parser as it is, is \<open>None\<close> here.\<close>

definition try_skip_prefix :: "bytes \<Rightarrow> parser \<Rightarrow> parser option" where
  "try_skip_prefix prefix p =
     (if length prefix > length (p_rest p) \<or> prefix \<noteq> take (length prefix) (p_rest p) then None
      else advance_by (length prefix) p)"

fun skip_till_not_loop :: "bytes \<Rightarrow> bytes \<Rightarrow> bytes" where
  "skip_till_not_loop cs [] = []"
| "skip_till_not_loop cs (c # r) = (if memchr cs c = None then c # r else skip_till_not_loop cs r)"

definition skip_till_not :: "bytes \<Rightarrow> parser \<Rightarrow> parser" where
  "skip_till_not cs p = p\<lparr>p_rest := skip_till_not_loop cs (p_rest p)\<rparr>"

definition whitespaces :: bytes where
  "whitespaces = [32, 9, 13, 10]"

definition skip_whitespaces :: "parser \<Rightarrow> parser" where
  "skip_whitespaces p = skip_till_not whitespaces p"

definition read_word :: "parser \<Rightarrow> bytes \<times> parser" where
  "read_word p = read_till_nofail_any whitespaces (skip_whitespaces p)"

subsection \<open>What the loops find\<close>

lemma memchr_None [simp]: "memchr xs c = None \<longleftrightarrow> c \<notin> set xs"
  by (induction xs) auto

lemma memchr_le: "memchr xs c = Some n \<Longrightarrow> n < length xs"
  by (induction xs arbitrary: n) (auto split: if_splits)

lemma memchr_eq:
  "memchr xs c = (if c \<in> set xs then Some (length (takeWhile (\<lambda>x. x \<noteq> c) xs)) else None)"
  by (induction xs) auto

lemma length_takeWhile_all: "(\<And>x. x \<in> set xs \<Longrightarrow> P x) \<Longrightarrow> length (takeWhile P xs) = length xs"
  by (induction xs) auto

lemma memchr_takeWhile:
  "(case memchr xs c of None \<Rightarrow> length xs | Some n \<Rightarrow> n) = length (takeWhile (\<lambda>x. x \<noteq> c) xs)"
proof (cases "c \<in> set xs")
  case False
  then have "length (takeWhile (\<lambda>x. x \<noteq> c) xs) = length xs" by (intro length_takeWhile_all) auto
  then show ?thesis using False by (simp add: memchr_eq)
qed (simp add: memchr_eq)

lemma read_while_loop_eq: "read_while_loop f xs = length (takeWhile f xs)"
  by (induction xs) auto

lemma length_takeWhile_le: "length (takeWhile P xs) \<le> length xs"
  by (induction xs) auto

lemma takeWhile_both: "length (takeWhile (\<lambda>x. P x \<and> Q x) xs) =
    min (length (takeWhile P xs)) (length (takeWhile Q xs))"
  by (induction xs) auto

lemma best_till_eq: "best_till xs cs best = min best (length (takeWhile (\<lambda>x. x \<notin> set cs) xs))"
  if "best \<le> length xs"
  using that
proof (induction cs arbitrary: best)
  case Nil
  have "length (takeWhile (\<lambda>x. True) xs) = length xs" by (rule length_takeWhile_all) simp
  then show ?case using Nil by simp
next
  case (Cons c cs)
  let ?k = "length (takeWhile (\<lambda>x. x \<noteq> c) xs)"
  have k: "(case memchr xs c of None \<Rightarrow> best | Some till \<Rightarrow> if till < best then till else best) = min best ?k"
  proof (cases "c \<in> set xs")
    case False
    then have "?k = length xs" by (intro length_takeWhile_all) auto
    then show ?thesis using False Cons.prems by (simp add: memchr_eq)
  qed (simp add: memchr_eq min_def)
  have "min best ?k \<le> length xs" using Cons.prems by simp
  from Cons.IH [OF this] show ?case
    using takeWhile_both [of "\<lambda>x. x \<noteq> c" "\<lambda>x. x \<notin> set cs" xs] by (simp add: k min.assoc)
qed

lemma skip_till_not_loop_eq: "skip_till_not_loop cs xs = dropWhile (\<lambda>c. c \<in> set cs) xs"
  by (induction xs) auto

lemma drop_takeWhile: "drop (length (takeWhile P xs)) xs = dropWhile P xs"
  by (simp add: dropWhile_eq_drop)

lemma split_rest_takeWhile:
  "split_rest (length (takeWhile P (p_rest p))) p =
     (takeWhile P (p_rest p), p\<lparr>p_rest := dropWhile P (p_rest p)\<rparr>)"
  by (simp add: split_rest_def drop_takeWhile flip: takeWhile_eq_take)

lemma read_while_eq:
  "read_while f p = (takeWhile f (p_rest p), p\<lparr>p_rest := dropWhile f (p_rest p)\<rparr>)"
  by (simp add: read_while_def read_while_loop_eq split_rest_takeWhile)

lemma read_till_nofail_eq:
  "is_ok (p_status p) \<Longrightarrow> read_till_nofail c p =
     (takeWhile (\<lambda>x. x \<noteq> c) (p_rest p), p\<lparr>p_rest := dropWhile (\<lambda>x. x \<noteq> c) (p_rest p)\<rparr>)"
  by (simp add: read_till_nofail_def memchr_takeWhile split_rest_takeWhile)

lemma read_till_nofail_any_eq:
  "is_ok (p_status p) \<Longrightarrow> read_till_nofail_any cs p =
     (takeWhile (\<lambda>x. x \<notin> set cs) (p_rest p), p\<lparr>p_rest := dropWhile (\<lambda>x. x \<notin> set cs) (p_rest p)\<rparr>)"
  using length_takeWhile_le [of "\<lambda>x. x \<notin> set cs" "p_rest p"]
  by (simp add: read_till_nofail_any_def best_till_eq min_absorb2 split_rest_takeWhile)

lemma skip_whitespaces_eq:
  "skip_whitespaces p = p\<lparr>p_rest := dropWhile (\<lambda>c. c \<in> set whitespaces) (p_rest p)\<rparr>"
  by (simp add: skip_whitespaces_def skip_till_not_def skip_till_not_loop_eq)

lemma skip_whitespaces_fields [simp]:
  "p_status (skip_whitespaces p) = p_status p"
  "p_rest (skip_whitespaces p) = dropWhile (\<lambda>c. c \<in> set whitespaces) (p_rest p)"
  by (simp_all add: skip_whitespaces_eq)

lemma try_skip_Some:
  "try_skip c p = Some q \<longleftrightarrow> (\<exists>r. p_rest p = c # r \<and> q = p\<lparr>p_rest := r\<rparr>)"
  by (cases "p_rest p") (auto simp: try_skip_def)

lemma try_skip_simps:
  "p_rest p = [] \<Longrightarrow> try_skip c p = None"
  "p_rest p = x # r \<Longrightarrow> try_skip c p = (if x = c then Some (p\<lparr>p_rest := r\<rparr>) else None)"
  by (simp_all add: try_skip_def)

lemma try_skip_prefix_Some:
  "try_skip_prefix pre p = Some q \<longleftrightarrow> (\<exists>r. p_rest p = pre @ r \<and> q = p\<lparr>p_rest := r\<rparr>)"
proof -
  have "p_rest p = pre @ drop (length pre) (p_rest p)" if "pre = take (length pre) (p_rest p)"
    using that by (metis append_take_drop_id)
  then show ?thesis
    by (auto simp: try_skip_prefix_def advance_by_def check_def split: if_splits)
qed

subsection \<open>Readers\<close>

text \<open>
  What a reading operation promises its clients: as long as no error has been met, the slice it
  returns and the rest are the input, and only a shorter rest is left.
\<close>

locale reader =
  fixes rd :: "parser \<Rightarrow> bytes \<times> parser"
  assumes exact: "rd p = (s, q) \<Longrightarrow> is_ok (p_status p) \<Longrightarrow> is_ok (p_status q) \<Longrightarrow>
      p_rest p = s @ p_rest q"
    and sticky: "rd p = (s, q) \<Longrightarrow> is_ok (p_status q) \<Longrightarrow> is_ok (p_status p)"
begin

lemma shorter: "rd p = (s, q) \<Longrightarrow> is_ok (p_status q) \<Longrightarrow> length (p_rest q) \<le> length (p_rest p)"
  using exact [of p s q] sticky [of p s q] by simp

lemma same_rest: "rd p = (s, q) \<Longrightarrow> is_ok (p_status q) \<Longrightarrow> p_rest q = p_rest p \<longleftrightarrow> s = []"
  using exact [of p s q] sticky [of p s q] by simp

lemma two_reads:
  "rd p = (s, q) \<Longrightarrow> rd q = (t, r) \<Longrightarrow> is_ok (p_status r) \<Longrightarrow> p_rest p = s @ t @ p_rest r"
  using exact [of p s q] exact [of q t r] sticky [of q t r] sticky [of p s q] by simp

end

interpretation while_reader: reader "read_while f"
  by unfold_locales (auto simp: read_while_eq)

interpretation all_reader: reader read_all
  by unfold_locales (auto simp: read_all_def split_rest_def)

interpretation nofail_reader: reader "read_till_nofail c"
  by unfold_locales (auto simp: read_till_nofail_def split_rest_def Let_def split: if_splits)

interpretation any_reader: reader "read_till_nofail_any cs"
  by unfold_locales (auto simp: read_till_nofail_any_def split_rest_def Let_def split: if_splits)

interpretation till_reader: reader "read_till c"
proof unfold_locales
  show "p_rest p = s @ p_rest q"
    if "read_till c p = (s, q)" "is_ok (p_status p)" "is_ok (p_status q)" for p s q
    using that by (auto simp: read_till_def read_till_nofail_eq split: if_splits)
  show "is_ok (p_status p)" if "read_till c p = (s, q)" "is_ok (p_status q)" for p s q
    using that by (auto simp: read_till_def split: if_splits)
qed

subsection \<open>Properties\<close>

text \<open>\<open>read_till\<close> succeeds exactly when the character occurs in the rest of the input; it then returns
the part before its first occurrence and stops in front of it, and otherwise it returns nothing, leaves the
parser at the end and records the error, after which every guarded read returns nothing.\<close>
theorem read_till_exact:
  assumes "is_ok (p_status p)" "read_till c p = (s, q)"
  shows "if c \<in> set (p_rest p)
    then is_ok (p_status q) \<and> c \<notin> set s \<and> (\<exists>r. p_rest q = c # r \<and> p_rest p = s @ c # r)
    else s = [] \<and> p_rest q = [] \<and> p_status q = Inl (Err 0 (quoted ''Read till '' c '' failed'')) \<and>
      read_till d q = ([], q) \<and> read_till_nofail d q = ([], q) \<and> skip d q = q"
proof (cases "c \<in> set (p_rest p)")
  case True
  then obtain a b where ab: "p_rest p = a @ c # b" "c \<notin> set a" by (metis split_list_first)
  have "takeWhile (\<lambda>x. x \<noteq> c) (p_rest p) = a" "dropWhile (\<lambda>x. x \<noteq> c) (p_rest p) = c # b"
    using ab by (auto simp: takeWhile_append dropWhile_append)
  then show ?thesis
    using assms ab True by (auto simp: read_till_def read_till_nofail_eq)
next
  case False
  then have d: "dropWhile (\<lambda>x. x \<noteq> c) (p_rest p) = []" by auto
  have "s = []" "q = p\<lparr>p_rest := [], p_status := Inl (Err 0 (quoted ''Read till '' c '' failed''))\<rparr>"
    using assms unfolding read_till_def read_till_nofail_eq [OF assms(1)] d by simp_all
  then show ?thesis
    using False by (simp add: read_till_def read_till_nofail_def skip_def)
qed

theorem read_till_exact_witness:
  "read_till 58 (new_parser [97, 58, 98]) = ([97], new_parser [58, 98]) \<and> is_ok (p_status (new_parser [58, 98]))"
proof -
  have "read_till 58 (new_parser [97, 58, 98]) = ([97], new_parser [58, 98])" by code_simp
  moreover from this have "is_ok (p_status (new_parser [58, 98]))"
    using read_till_exact [of "new_parser [97, 58, 98]" 58 "[97]" "new_parser [58, 98]" 0]
    by (simp add: new_parser_def)
  ultimately show ?thesis by simp
qed

text \<open>\<open>read_word\<close> returns the first maximal run of characters that are not blank: what precedes it is
blank, it holds no blank, and it ends at a blank or at the end of the input.\<close>
theorem read_word_exact:
  assumes "is_ok (p_status p)" "read_word p = (w, q)"
  shows "\<exists>b. p_rest p = b @ w @ p_rest q \<and> set b \<subseteq> set whitespaces \<and> set w \<inter> set whitespaces = {} \<and>
    (p_rest q = [] \<or> hd (p_rest q) \<in> set whitespaces) \<and> (w = [] \<longrightarrow> p_rest q = [])"
proof -
  let ?b = "takeWhile (\<lambda>c. c \<in> set whitespaces) (p_rest p)"
  let ?r = "dropWhile (\<lambda>c. c \<in> set whitespaces) (p_rest p)"
  have w: "w = takeWhile (\<lambda>c. c \<notin> set whitespaces) ?r" and q: "p_rest q = dropWhile (\<lambda>c. c \<notin> set whitespaces) ?r"
    using assms by (auto simp: read_word_def read_till_nofail_any_eq)
  have "p_rest p = ?b @ w @ p_rest q" by (simp add: w q)
  moreover have "set ?b \<subseteq> set whitespaces" by (auto dest: set_takeWhileD)
  moreover have "set w \<inter> set whitespaces = {}" by (auto simp: w dest: set_takeWhileD)
  moreover have "p_rest q = [] \<or> hd (p_rest q) \<in> set whitespaces"
    using hd_dropWhile [of "\<lambda>c. c \<notin> set whitespaces" ?r] q by auto
  moreover have "p_rest q = []" if "w = []"
  proof (cases ?r)
    case (Cons c r)
    then have "c \<notin> set whitespaces" using hd_dropWhile [of "\<lambda>c. c \<in> set whitespaces" "p_rest p"] by simp
    then show ?thesis using that Cons w by simp
  next
    case Nil
    show ?thesis unfolding q Nil by simp
  qed
  ultimately show ?thesis by blast
qed

theorem read_word_exact_witness:
  "read_word (new_parser [32, 97, 98, 10]) = ([97, 98], new_parser [10]) \<and>
   set [97 :: byte, 98] \<inter> set whitespaces = {}"
proof -
  have r: "read_word (new_parser [32, 97, 98, 10]) = ([97, 98], new_parser [10])" by code_simp
  have "is_ok (p_status (new_parser [32, 97, 98, 10]))" by (simp add: new_parser_def)
  from read_word_exact [OF this r] r show ?thesis by blast
qed

end
