(* ===== verification/Td_JsonString.thy ===== *)
theory Td_JsonString
  imports Td_Parser Td_Utf8 Td_Codec
begin

text \<open>
  JSON strings: the two escaping printers and the string reader and skipper of
  \<open>tdutils/td/utils/JsonBuilder.h\<close> and \<open>JsonBuilder.cpp\<close>.

  The printers write what they append to the \<open>StringBuilder\<close>.  The reader decodes in place; the model
  keeps the decoded bytes apart from the input, which is the same as long as the write position never
  passes the read position; \<open>json_string_loop_fits\<close> shows that it does not.
\<close>

unbundle bit_operations_syntax

subsection \<open>Printing\<close>

definition json_hex_digit :: "u32 \<Rightarrow> byte" where
  "json_hex_digit d = str ''0123456789abcdef'' ! unat d"

definition json_one_char :: "u32 \<Rightarrow> bytes option" where
  "json_one_char c =
     do { check (drop_bit 12 c < 16);
          Some [92, ch (CHR ''u''), json_hex_digit (drop_bit 12 c),
                json_hex_digit (drop_bit 8 c AND 15), json_hex_digit (drop_bit 4 c AND 15),
                json_hex_digit (c AND 15)] }"

text \<open>The check of \<open>json_one_char\<close> stands for the read past the sixteen digits.\<close>

definition json_char :: "u32 \<Rightarrow> bytes option" where
  "json_char c =
     (if c < 0x10000 then
        (if 0xD7FF < c \<and> c < 0xE000 then None else json_one_char c)
      else if c \<le> 0x10ffff then
        do { hi \<leftarrow> json_one_char (0xD7C0 + drop_bit 10 c);
             lo \<leftarrow> json_one_char (0xDC00 + (c AND 0x3FF));
             Some (hi @ lo) }
      else None)"

text \<open>The \<open>case\<close>s the two printers share.\<close>

definition simple_escape :: "byte \<Rightarrow> bytes option" where
  "simple_escape c =
     (if c = 34 then Some [92, 34]
      else if c = 92 then Some [92, 92]
      else if c = 8 then Some [92, ch (CHR ''b'')]
      else if c = 12 then Some [92, ch (CHR ''f'')]
      else if c = 10 then Some [92, ch (CHR ''n'')]
      else if c = 13 then Some [92, ch (CHR ''r'')]
      else if c = 9 then Some [92, ch (CHR ''t'')]
      else None)"

fun json_raw_string_loop :: "bytes \<Rightarrow> bytes option" where
  "json_raw_string_loop [] = Some []"
| "json_raw_string_loop (c # r) =
     do { e \<leftarrow> (case simple_escape c of Some e \<Rightarrow> Some e
               | None \<Rightarrow> if c \<le> 31 then json_one_char (u32_of c) else Some [c]);
          es \<leftarrow> json_raw_string_loop r;
          Some (e @ es) }"

definition json_raw_string :: "bytes \<Rightarrow> bytes option" where
  "json_raw_string s = do { es \<leftarrow> json_raw_string_loop s; Some ([34] @ es @ [34]) }"

text \<open>One UTF-8 character whose first byte is not ASCII, with the \<open>CHECK\<close>s of the printer.\<close>

definition json_utf8_char :: "byte \<Rightarrow> bytes \<Rightarrow> (u32 \<times> bytes) option" where
  "json_utf8_char a0 r1 =
     (let a = u32_of a0 in
      do { check (a AND 0x40 \<noteq> 0);
           check (r1 \<noteq> []);
           let b = u32_of (hd r1);
           let r2 = tl r1;
           check (b AND 0xc0 = 0x80);
           if a AND 0x20 = 0 then
             do { check (a AND 0x1e > 0);
                  Some (push_bit 6 (a AND 0x1f) OR (b AND 0x3f), r2) }
           else do {
             check (r2 \<noteq> []);
             let c = u32_of (hd r2);
             let r3 = tl r2;
             check (c AND 0xc0 = 0x80);
             if a AND 0x10 = 0 then
               do { check ((a AND 0x0f) OR (b AND 0x20) > 0);
                    Some (push_bit 12 (a AND 0x0f) OR push_bit 6 (b AND 0x3f) OR (c AND 0x3f), r3) }
             else do {
               check (r3 \<noteq> []);
               let d = u32_of (hd r3);
               let r4 = tl r3;
               check (d AND 0xc0 = 0x80);
               check (a AND 0x08 = 0);
               check ((a AND 0x07) OR (b AND 0x30) > 0);
               Some (push_bit 18 (a AND 0x07) OR push_bit 12 (b AND 0x3f) OR
                       push_bit 6 (c AND 0x3f) OR (d AND 0x3f), r4) } } })"

lemma json_utf8_char_shorter: "json_utf8_char a r = Some (c, r') \<Longrightarrow> length r' \<le> length r"
  by (cases r; cases "tl r"; cases "tl (tl r)")
    (auto simp: json_utf8_char_def Let_def check_def split: if_splits)

function json_string_loop_out :: "bytes \<Rightarrow> bytes option" where
  "json_string_loop_out [] = Some []"
| "json_string_loop_out (c # r) =
     (case simple_escape c of
        Some e \<Rightarrow> map_option ((@) e) (json_string_loop_out r)
      | None \<Rightarrow>
          if c \<le> 31 then do { e \<leftarrow> json_one_char (u32_of c); es \<leftarrow> json_string_loop_out r; Some (e @ es) }
          else if 128 \<le> c then
            (case json_utf8_char c r of None \<Rightarrow> None
             | Some (code, r') \<Rightarrow>
                 do { e \<leftarrow> json_char code; es \<leftarrow> json_string_loop_out r'; Some (e @ es) })
          else map_option ((#) c) (json_string_loop_out r))"
  by pat_completeness auto
termination
  by (relation "measure length") (auto dest: json_utf8_char_shorter)

declare json_string_loop_out.simps(2) [simp del]

definition json_string :: "bytes \<Rightarrow> bytes option" where
  "json_string s = do { es \<leftarrow> json_string_loop_out s; Some ([34] @ es @ [34]) }"

subsection \<open>Reading\<close>

definition invalid_u :: "status_error" where
  "invalid_u = Err 0 (str ''Invalid '' @ [92] @ str ''u -- not hex digit'')"

fun read_hex :: "nat \<Rightarrow> nat \<Rightarrow> bytes \<Rightarrow> (nat \<times> bytes) result" where
  "read_hex 0 num src = Inr (num, src)"
| "read_hex (Suc n) num [] = Inl invalid_u"
| "read_hex (Suc n) num (c # src) =
     (let d = hex_to_int c in
      if d = 16 then Inl invalid_u else read_hex n (num * 16 + d) src)"

definition is_surrogate :: "nat \<Rightarrow> bool" where
  "is_surrogate num \<longleftrightarrow> 0xD7FF < num \<and> num < 0xE000"

text \<open>
  What follows \<open>\u\<close>.  The four digits are there when \<open>read_hex\<close> is called, so its case for a short input
  is never met.
\<close>

definition read_unicode_escape :: "bytes \<Rightarrow> (u32 \<times> bytes) result" where
  "read_unicode_escape src =
     (if length src < 4 then Inl (Err 0 ([92] @ str ''u has less than 4 symbols''))
      else try_result (read_hex 4 0 src) (\<lambda>(num, src).
        if is_surrogate num then
          (if 6 \<le> length src \<and> src ! 0 = 92 \<and> src ! 1 = ch (CHR ''u'') then
             try_result (read_hex 4 0 (drop 2 src)) (\<lambda>(new_num, src').
               if is_surrogate new_num
               then Inr ((push_bit 10 (of_nat num AND 0x3FF) OR (of_nat new_num AND 0x3FF)) + 0x10000, src')
               else Inr (of_nat num, src))
           else Inr (of_nat num, src))
        else Inr (of_nat num, src)))"

lemma read_hex_length: "read_hex n num src = Inr (m, r) \<Longrightarrow> length src = n + length r"
  by (induction n num src rule: read_hex.induct) (auto simp: Let_def split: if_splits)

lemma read_unicode_escape_length:
  "read_unicode_escape src = Inr (c, r) \<Longrightarrow> length r + 4 \<le> length src"
  by (auto simp: read_unicode_escape_def split: if_splits dest!: read_hex_length)

definition unescape :: "byte \<Rightarrow> byte" where
  "unescape c =
     (if c = ch (CHR ''b'') then 8 else if c = ch (CHR ''f'') then 12 else if c = ch (CHR ''n'') then 10
      else if c = ch (CHR ''r'') then 13 else if c = ch (CHR ''t'') then 9 else c)"

definition closing_not_found :: "'a result" where
  "closing_not_found = Inl (Err 0 (quoted ''Closing '' 34 '' not found''))"

definition opening_expected :: "'a result" where
  "opening_expected = Inl (Err 0 (quoted ''Opening '' 34 '' expected''))"

function json_string_loop :: "bytes \<Rightarrow> bytes \<Rightarrow> (bytes \<times> bytes) result" where
  "json_string_loop dest [] = closing_not_found"
| "json_string_loop dest (c # src) =
     (if c = 34 then Inr (dest, src)
      else if c = 92 then
        (case src of [] \<Rightarrow> closing_not_found
         | e # src' \<Rightarrow>
             if e = ch (CHR ''u'') then
               (case read_unicode_escape src' of Inl err \<Rightarrow> Inl err
                | Inr (num, src'') \<Rightarrow> json_string_loop (dest @ append_utf8_character num) src'')
             else json_string_loop (dest @ [unescape e]) src')
      else json_string_loop (dest @ [c]) src)"
  by pat_completeness auto
termination
  by (relation "measure (\<lambda>(dest, src). length src)") (auto dest: read_unicode_escape_length)

declare json_string_loop.simps(2) [simp del]

definition json_string_decode :: "parser \<Rightarrow> (bytes \<times> parser) result" where
  "json_string_decode p =
     (case try_skip 34 p of None \<Rightarrow> opening_expected
      | Some p \<Rightarrow> try_result (json_string_loop [] (p_rest p)) (\<lambda>(s, r). Inr (s, p\<lparr>p_rest := r\<rparr>)))"

function json_string_skip_loop :: "bytes \<Rightarrow> bytes result" where
  "json_string_skip_loop [] = closing_not_found"
| "json_string_skip_loop (c # src) =
     (if c = 34 then Inr src
      else if c = 92 then
        (case src of [] \<Rightarrow> closing_not_found
         | e # src' \<Rightarrow>
             if e = ch (CHR ''u'') then
               (case read_unicode_escape src' of Inl err \<Rightarrow> Inl err
                | Inr (num, src'') \<Rightarrow> json_string_skip_loop src'')
             else json_string_skip_loop src')
      else json_string_skip_loop src)"
  by pat_completeness auto
termination
  by (relation "measure length") (auto dest: read_unicode_escape_length)

declare json_string_skip_loop.simps(2) [simp del]

definition json_string_skip :: "parser \<Rightarrow> parser result" where
  "json_string_skip p =
     (case try_skip 34 p of None \<Rightarrow> opening_expected
      | Some p \<Rightarrow> try_result (json_string_skip_loop (p_rest p)) (\<lambda>r. Inr (p\<lparr>p_rest := r\<rparr>)))"


subsection \<open>Digits\<close>

lemma hex_value4:
  fixes x :: nat assumes "x < 65536"
  shows "((x div 4096 * 16 + x div 256 mod 16) * 16 + x div 16 mod 16) * 16 + x mod 16 = x"
proof -
  have s: "y div 16 * 16 + y mod 16 = y" for y :: nat by simp
  have "x div 256 = x div 16 div 16" "x div 4096 = x div 16 div 16 div 16"
    by (simp_all add: div_mult2_eq)
  then show ?thesis using s [of x] s [of "x div 16"] s [of "x div 16 div 16"] by simp
qed

lemma json_hex_digit_value:
  assumes "unat d < 16"
  shows "hex_to_int (json_hex_digit d) = unat d"
  using hex_lower_nth(2) [OF assms] by (simp add: json_hex_digit_def hex_lower_def)

lemma u32_and_15: "unat ((w :: u32) AND 15) = unat w mod 16"
proof -
  have "w AND 15 = w AND mask 4" by (simp add: mask_eq_exp_minus_1)
  then show ?thesis by (simp only: unat_and_mask) simp
qed

lemma read_hex4:
  assumes "hex_to_int d3 \<noteq> 16" "hex_to_int d2 \<noteq> 16" "hex_to_int d1 \<noteq> 16" "hex_to_int d0 \<noteq> 16"
  shows "read_hex 4 0 ([d3, d2, d1, d0] @ r) =
    Inr (((hex_to_int d3 * 16 + hex_to_int d2) * 16 + hex_to_int d1) * 16 + hex_to_int d0, r)"
proof -
  have four: "(4 :: nat) = Suc (Suc (Suc (Suc 0)))" by simp
  show ?thesis unfolding four using assms by simp
qed

lemma read_json_one_char:
  assumes "unat c < 65536"
  shows "\<exists>d0 d1 d2 d3. json_one_char c = Some [92, ch (CHR ''u''), d3, d2, d1, d0] \<and>
    read_hex 4 0 ([d3, d2, d1, d0] @ r) = Inr (unat c, r)"
proof -
  have d: "unat (drop_bit 12 c) = unat c div 4096" "unat (drop_bit 8 c AND 15) = unat c div 256 mod 16"
    "unat (drop_bit 4 c AND 15) = unat c div 16 mod 16" "unat (c AND 15) = unat c mod 16"
    by (simp_all add: unat_drop_bit_div u32_and_15)
  have lt: "unat c div 4096 < 16" using assms by linarith
  have h: "hex_to_int (json_hex_digit (drop_bit 12 c)) = unat c div 4096"
    "hex_to_int (json_hex_digit (drop_bit 8 c AND 15)) = unat c div 256 mod 16"
    "hex_to_int (json_hex_digit (drop_bit 4 c AND 15)) = unat c div 16 mod 16"
    "hex_to_int (json_hex_digit (c AND 15)) = unat c mod 16"
    using lt by (simp_all add: json_hex_digit_value d)
  have "drop_bit 12 c < 16" using lt by (simp add: word_less_nat_alt d)
  moreover have "unat c div 4096 \<noteq> 16" "unat c div 256 mod 16 \<noteq> 16" "unat c div 16 mod 16 \<noteq> 16"
    "unat c mod 16 \<noteq> 16"
    using lt mod_less_divisor [of 16 "unat c div 256"] mod_less_divisor [of 16 "unat c div 16"]
      mod_less_divisor [of 16 "unat c"] by linarith+
  ultimately have "json_one_char c = Some [92, ch (CHR ''u''), json_hex_digit (drop_bit 12 c),
      json_hex_digit (drop_bit 8 c AND 15), json_hex_digit (drop_bit 4 c AND 15), json_hex_digit (c AND 15)]"
    "read_hex 4 0 ([json_hex_digit (drop_bit 12 c), json_hex_digit (drop_bit 8 c AND 15),
      json_hex_digit (drop_bit 4 c AND 15), json_hex_digit (c AND 15)] @ r) = Inr (unat c, r)"
    by (simp_all only: json_one_char_def check_simps bind.bind_lunit read_hex4 h not_False_eq_True
        hex_value4 [OF assms])
  then show ?thesis by blast
qed

subsection \<open>Surrogate pairs\<close>

lemma surrogate_pair:
  assumes "0x10000 \<le> unat c" "unat c < 0x110000"
  defines "hi \<equiv> 0xD7C0 + drop_bit 10 c" and "lo \<equiv> 0xDC00 + ((c :: u32) AND 0x3FF)"
  shows "unat hi < 65536" "unat lo < 65536" "is_surrogate (unat hi)" "is_surrogate (unat lo)"
    "(push_bit 10 (of_nat (unat hi) AND 0x3FF) OR (of_nat (unat lo) AND 0x3FF)) + 0x10000 = c"
proof -
  have m: "unat ((w :: u32) AND 0x3FF) = unat w mod 1024" for w
  proof -
    have "w AND 0x3FF = w AND mask 10" by (simp add: mask_eq_exp_minus_1)
    then show ?thesis by (simp only: unat_and_mask) simp
  qed
  define q where "q = unat c div 1024"
  define l where "l = unat c mod 1024"
  have c: "unat c = q * 1024 + l" "l < 1024" by (simp_all add: q_def l_def)
  have q: "64 \<le> q" "q < 1088" using assms(1,2) unfolding q_def by linarith+
  have dq: "unat (drop_bit 10 c) = q" by (simp add: unat_drop_bit_div q_def)
  have hi: "unat hi = 55232 + q"
    using q dq by (simp add: hi_def unat_word_ariths)
  have lo: "unat lo = 56320 + l"
    using c(2) m [of c] by (simp add: lo_def unat_word_ariths flip: l_def)
  show "unat hi < 65536" "unat lo < 65536" "is_surrogate (unat hi)" "is_surrogate (unat lo)"
    using q c(2) by (simp_all add: hi lo is_surrogate_def)
  have hm: "(55232 + q) mod 1024 = q - 64"
  proof -
    have "55232 + q = (q - 64) + 54 * 1024" using q by simp
    then show ?thesis using q by (simp only: mod_mult_self1) simp
  qed
  have lm: "(56320 + l) mod 1024 = l"
    using mod_mult_self1 [of l 55 1024] c(2) by (simp add: add.commute)
  have "unat (push_bit 10 (hi AND 0x3FF) OR (lo AND 0x3FF)) =
      2 ^ 10 * unat (hi AND 0x3FF) + unat (lo AND 0x3FF)"
    by (rule unat_push_or [where m = 10]) (simp_all add: m)
  then have "unat (push_bit 10 (hi AND 0x3FF) OR (lo AND 0x3FF)) = 1024 * (q - 64) + l"
    by (simp only: m hi lo hm lm) simp
  moreover have "1024 * (q - 64) + l + 65536 = unat c" using q c by simp
  ultimately have "unat ((push_bit 10 (hi AND 0x3FF) OR (lo AND 0x3FF)) + 0x10000) = unat c"
    using assms(2) by (simp add: unat_word_ariths)
  then show "(push_bit 10 (of_nat (unat hi) AND 0x3FF) OR (of_nat (unat lo) AND 0x3FF)) + 0x10000 = c"
    by (simp add: word_unat_eq_iff)
qed

text \<open>An escaped code is read back.\<close>

lemma read_json_char:
  assumes "unicode_scalar c"
  shows "\<exists>e. json_char c = Some ([92, ch (CHR ''u'')] @ e) \<and> read_unicode_escape (e @ r) = Inr (c, r)"
proof (cases "unat c < 0x10000")
  case True
  obtain d0 d1 d2 d3 where d: "json_one_char c = Some [92, ch (CHR ''u''), d3, d2, d1, d0]"
    "read_hex 4 0 ([d3, d2, d1, d0] @ r) = Inr (unat c, r)"
    using read_json_one_char True by blast
  have "\<not> is_surrogate (unat c)" using assms by (auto simp: unicode_scalar_def is_surrogate_def)
  moreover have "json_char c = json_one_char c"
    using True assms by (auto simp: json_char_def unicode_scalar_def word_less_nat_alt)
  ultimately show ?thesis
    using d by (auto simp: read_unicode_escape_def)
next
  case False
  then have c: "0x10000 \<le> unat c" "unat c < 0x110000" using assms by (auto simp: unicode_scalar_def)
  let ?hi = "0xD7C0 + drop_bit 10 c" and ?lo = "0xDC00 + (c AND 0x3FF)"
  note s = surrogate_pair [OF c]
  obtain d0 d1 d2 d3 where lo: "json_one_char ?lo = Some [92, ch (CHR ''u''), d3, d2, d1, d0]"
    "read_hex 4 0 ([d3, d2, d1, d0] @ r) = Inr (unat ?lo, r)"
    using read_json_one_char [OF s(2)] by blast
  let ?r = "[92, ch (CHR ''u''), d3, d2, d1, d0] @ r"
  obtain e0 e1 e2 e3 where hi: "json_one_char ?hi = Some [92, ch (CHR ''u''), e3, e2, e1, e0]"
    "read_hex 4 0 ([e3, e2, e1, e0] @ ?r) = Inr (unat ?hi, ?r)"
    using read_json_one_char [OF s(1), of ?r] by blast
  have "json_char c = Some ([92, ch (CHR ''u'')] @ [e3, e2, e1, e0, 92, ch (CHR ''u''), d3, d2, d1, d0])"
    using c hi(1) lo(1) by (simp add: json_char_def word_less_nat_alt word_le_nat_alt)
  moreover have "read_unicode_escape ([e3, e2, e1, e0, 92, ch (CHR ''u''), d3, d2, d1, d0] @ r) = Inr (c, r)"
    using hi(2) lo(2) s(3-5) by (simp add: read_unicode_escape_def)
  ultimately show ?thesis by blast
qed

subsection \<open>Multi-byte characters\<close>

lemma u32_or_pos: "0 < (v :: u32) OR w \<longleftrightarrow> v \<noteq> 0 \<or> w \<noteq> 0"
  by (metis word_neq_0_conv or_eq_0_iff)

lemma u32_field_zero:
  "u32_of a AND 0x0f = 0 \<longleftrightarrow> unat a mod 16 = 0" "u32_of a AND 0x20 = 0 \<longleftrightarrow> unat a div 32 mod 2 = 0"
  "u32_of a AND 0x07 = 0 \<longleftrightarrow> unat a mod 8 = 0" "u32_of a AND 0x30 = 0 \<longleftrightarrow> unat a div 16 mod 4 = 0"
  by (simp_all only: word_unat_eq_iff unat_u32_field unat_0) simp_all

lemma option_bind_weak_cong: "m = m' \<Longrightarrow> Option.bind m f = Option.bind m' f"
  by simp

lemma json_utf8_char_two:
  assumes "192 \<le> unat a" "unat a < 224" "unat b div 64 = 2" "194 \<le> unat a"
  shows "json_utf8_char a (b # r) = next_utf8_unsafe (a # b # r)"
proof -
  have n: "unat a div 64 mod 2 \<noteq> 0" "unat a div 32 mod 2 = 0" "unat a div 2 mod 16 \<noteq> 0" "\<not> unat a < 128"
    using assms lead_unit_ranges [OF unat_byte_less [of a]] two_unit_lead [OF assms(1,2)] by simp_all
  show ?thesis
    using assms(3) n
    by (simp add: json_utf8_char_def next_utf8_unsafe.simps(2) byte_tests Let_def)
qed

lemma json_utf8_char_three:
  assumes "224 \<le> unat a" "unat a < 240" "unat b div 64 = 2" "unat c div 64 = 2"
    "unat a mod 16 \<noteq> 0 \<or> unat b div 32 mod 2 \<noteq> 0"
  shows "json_utf8_char a (b # c # r) = next_utf8_unsafe (a # b # c # r)"
proof -
  have n: "unat a div 64 mod 2 \<noteq> 0" "unat a div 32 mod 2 \<noteq> 0" "unat a div 16 mod 2 = 0" "\<not> unat a < 128"
    using assms lead_unit_ranges [OF unat_byte_less [of a]] by simp_all
  show ?thesis
    using assms(3-5) n
    by (simp add: json_utf8_char_def next_utf8_unsafe.simps(2) byte_tests u32_or_pos u32_field_zero Let_def)
qed

lemma json_utf8_char_four:
  assumes "240 \<le> unat a" "unat a < 248" "unat b div 64 = 2" "unat c div 64 = 2" "unat d div 64 = 2"
    "unat a mod 8 \<noteq> 0 \<or> unat b div 16 mod 4 \<noteq> 0"
  shows "json_utf8_char a (b # c # d # r) = next_utf8_unsafe (a # b # c # d # r)"
proof -
  have n: "unat a div 64 mod 2 \<noteq> 0" "unat a div 32 mod 2 \<noteq> 0" "unat a div 16 mod 2 \<noteq> 0"
    "unat a div 8 mod 2 = 0" "\<not> unat a < 128"
    using assms(1,2) lead_unit_ranges [OF unat_byte_less [of a]] by simp_all
  have t: "u32_of a AND 0x80 \<noteq> 0" "u32_of a AND 0x40 \<noteq> 0" "u32_of a AND 0x20 \<noteq> 0"
    "u32_of a AND 0x10 \<noteq> 0" "u32_of a AND 0x08 = 0"
    "u32_of b AND 0xc0 = 0x80" "u32_of c AND 0xc0 = 0x80" "u32_of d AND 0xc0 = 0x80"
    unfolding byte_tests using n assms by blast+
  have p: "0 < (u32_of a AND 0x07) OR (u32_of b AND 0x30)"
    unfolding u32_or_pos u32_field_zero using assms(6) by blast
  have "next_utf8_unsafe (a # b # c # d # r) =
    Some (push_bit 18 (u32_of a AND 0x07) OR push_bit 12 (u32_of b AND 0x3f) OR
          push_bit 6 (u32_of c AND 0x3f) OR (u32_of d AND 0x3f), r)"
    unfolding next_utf8_unsafe.simps(2) Let_def list.case
    by (simp only: t if_False if_True simp_thms)
  moreover have "json_utf8_char a (b # c # d # r) =
    Some (push_bit 18 (u32_of a AND 0x07) OR push_bit 12 (u32_of b AND 0x3f) OR
          push_bit 6 (u32_of c AND 0x3f) OR (u32_of d AND 0x3f), r)"
    unfolding json_utf8_char_def Let_def list.sel
    by (simp only: t p list.distinct not_False_eq_True check_simps bind.bind_lunit if_False if_True simp_thms)
  ultimately show ?thesis by simp
qed

lemma json_utf8_char_append:
  assumes c: "unicode_scalar c" "128 \<le> unat c"
  shows "\<exists>a bs. append_utf8_character c = a # bs \<and> 128 \<le> unat a \<and>
    json_utf8_char a (bs @ r) = Some (c, r)"
proof -
  note bound = unicode_scalar_bound [OF c(1)]
  have units: "map unat (append_utf8_character c) = utf8_units (unat c)"
    using bound by (rule unat_append_utf8_character)
  have cont: "(128 + m mod 64) div 64 = (2 :: nat)" for m
    by (rule div_range_nat) simp_all
  note dec = next_append_utf8 [OF bound, of r]
  from bound show ?thesis
  proof (cases "unat c" rule: utf8_units_cases)
    case one
    then show ?thesis using c(2) by simp
  next
    case two
    obtain a b where ab: "append_utf8_character c = [a, b]" "unat a = 192 + unat c div 64"
        "unat b = 128 + unat c mod 64" using units two(3) by (auto simp: map_unat_eq_Cons)
    have "2 \<le> unat c div 64" "unat c div 64 < 32" using two by linarith+
    then have "json_utf8_char a (b # r) = next_utf8_unsafe (a # b # r)"
      using ab cont by (intro json_utf8_char_two) simp_all
    then show ?thesis using dec ab by simp
  next
    case three
    obtain a b d where ab: "append_utf8_character c = [a, b, d]" "unat a = 224 + unat c div 4096"
        "unat b = 128 + unat c div 64 mod 64" "unat d = 128 + unat c mod 64"
      using units three(3) by (auto simp: map_unat_eq_Cons)
    have lt: "unat c div 4096 < 16" using three by linarith
    have "unat a mod 16 \<noteq> 0 \<or> unat b div 32 mod 2 \<noteq> 0"
    proof (cases "unat c < 4096")
      case True
      have "unat c div 64 < 64" "32 \<le> unat c div 64" using True three by linarith+
      then have "unat b = 128 + unat c div 64" using ab by simp
      moreover have "(128 + unat c div 64) div 32 = 5" using \<open>unat c div 64 < 64\<close> \<open>32 \<le> unat c div 64\<close> by linarith
      ultimately show ?thesis by simp
    next
      case False
      then have "0 < unat c div 4096" by linarith
      then show ?thesis using ab(2) lt by (simp add: unit_payload)
    qed
    then have "json_utf8_char a (b # d # r) = next_utf8_unsafe (a # b # d # r)"
      using ab lt cont by (intro json_utf8_char_three) simp_all
    then show ?thesis using dec ab by simp
  next
    case four
    obtain a b d e where ab: "append_utf8_character c = [a, b, d, e]" "unat a = 240 + unat c div 262144"
        "unat b = 128 + unat c div 4096 mod 64" "unat d = 128 + unat c div 64 mod 64"
        "unat e = 128 + unat c mod 64"
      using units four(2) by (auto simp: map_unat_eq_Cons)
    have lt: "unat c div 262144 < 8" using bound by linarith
    have "unat a mod 8 \<noteq> 0 \<or> unat b div 16 mod 4 \<noteq> 0"
    proof (cases "unat c < 262144")
      case True
      have q: "unat c div 4096 < 64" "16 \<le> unat c div 4096" using True four by linarith+
      then have "unat b = 128 + unat c div 4096" using ab by simp
      moreover have "8 < (128 + unat c div 4096) div 16" "(128 + unat c div 4096) div 16 < 12"
        using q by linarith+
      ultimately have "unat b div 16 = 9 \<or> unat b div 16 = 10 \<or> unat b div 16 = 11" by linarith
      then show ?thesis by auto
    next
      case False
      then have "0 < unat c div 262144" by linarith
      then show ?thesis using ab(2) lt by (simp add: unit_payload)
    qed
    then have "json_utf8_char a (b # d # e # r) = next_utf8_unsafe (a # b # d # e # r)"
      by (intro json_utf8_char_four) (simp_all add: ab(2-5) lt cont)
    then show ?thesis using dec ab by simp
  qed
qed

subsection \<open>Reading and skipping strings\<close>

lemma json_string_loop_dest:
  "json_string_loop dest src = try_result (json_string_loop [] src) (\<lambda>(s, r). Inr (dest @ s, r))"
proof (induction src arbitrary: dest rule: length_induct)
  case (1 src)
  have IH: "json_string_loop d r = try_result (json_string_loop [] r) (\<lambda>(s, r). Inr (d @ s, r))"
    if "length r < length src" for d r using 1 that by blast
  show ?case
  proof (cases src)
    case Nil
    then show ?thesis by (simp add: closing_not_found_def)
  next
    case (Cons c r)
    have app: "json_string_loop (dest @ x) r' = try_result (json_string_loop x r') (\<lambda>(s, r). Inr (dest @ s, r))"
      if "length r' < length src" for x r'
      using IH [OF that, of "dest @ x"] IH [OF that, of x]
      by (cases "json_string_loop [] r'") auto
    show ?thesis
    proof (cases "c = 92 \<and> c \<noteq> 34")
      case True
      show ?thesis
      proof (cases r)
        case Nil
        then show ?thesis using Cons True by (simp add: json_string_loop.simps(2) closing_not_found_def)
      next
        case (Cons e r')
        have "length r'' < length src" if "read_unicode_escape r' = Inr (n, r'')" for n r''
          using read_unicode_escape_length [OF that] \<open>src = c # r\<close> Cons by simp
        then show ?thesis
          using \<open>src = c # r\<close> True Cons app [of r' "[unescape e]"]
          by (auto simp: json_string_loop.simps(2) app split: sum.splits)
      qed
    next
      case False
      then show ?thesis using Cons app [of r "[c]"] by (auto simp: json_string_loop.simps(2))
    qed
  qed
qed

lemma json_string_loop_fits:
  "json_string_loop dest src = Inr (s, r) \<Longrightarrow> length s + length r < length dest + length src"
proof (induction dest src rule: json_string_loop.induct)
  case (1 dest)
  then show ?case by (simp add: closing_not_found_def)
next
  case (2 dest c src)
  have u: "length (append_utf8_character n) \<le> 4" for n by (simp add: append_utf8_character_def)
  show ?case
  proof (cases "c = 34 \<or> c \<noteq> 92")
    case True
    then show ?thesis
      using 2(3,4) by (cases "c = 34") (auto simp: json_string_loop.simps(2))
  next
    case False
    obtain e src' where src: "src = e # src'"
      using 2(4) False by (cases src) (auto simp: json_string_loop.simps(2) closing_not_found_def)
    show ?thesis
    proof (cases "e = ch (CHR ''u'')")
      case True
      obtain n src'' where n: "read_unicode_escape src' = Inr (n, src'')"
        "json_string_loop (dest @ append_utf8_character n) src'' = Inr (s, r)"
        using 2(4) False src True by (auto simp: json_string_loop.simps(2) split: sum.splits)
      have "length s + length r < length (dest @ append_utf8_character n) + length src''"
        using 2(1) [of e src' "(n, src'')" n src''] False src True n by simp
      then show ?thesis using read_unicode_escape_length [OF n(1)] u [of n] src by simp
    next
      case no: False
      have "json_string_loop (dest @ [unescape e]) src' = Inr (s, r)"
        using 2(4) False src no by (simp add: json_string_loop.simps(2))
      then show ?thesis using 2(2) [of e src'] False src no by simp
    qed
  qed
qed

lemma json_string_skip_loop_eq:
  "json_string_skip_loop src = try_result (json_string_loop dest src) (\<lambda>(s, r). Inr r)"
proof (induction src arbitrary: dest rule: json_string_skip_loop.induct)
  case 1
  then show ?case by (simp add: closing_not_found_def)
next
  case (2 c src)
  show ?case
    using 2 by (auto simp: json_string_loop.simps(2) json_string_skip_loop.simps(2) closing_not_found_def
        split: list.splits sum.splits)
qed

lemma json_string_skip_eq: "json_string_skip p = try_result (json_string_decode p) (\<lambda>(s, q). Inr q)"
proof (cases "try_skip 34 p")
  case (Some q)
  then show ?thesis
    using json_string_skip_loop_eq [of "p_rest q" "[]"]
    by (cases "json_string_loop [] (p_rest q)") (auto simp: json_string_skip_def json_string_decode_def)
qed (simp add: json_string_skip_def json_string_decode_def opening_expected_def)

text \<open>Pieces of text that the reader turns into given bytes.\<close>

definition decodes_to :: "bytes \<Rightarrow> bytes \<Rightarrow> bool" where
  "decodes_to e b \<longleftrightarrow> (\<forall>dest r. json_string_loop dest (e @ r) = json_string_loop (dest @ b) r)"

lemma decodes_toD: "decodes_to e b \<Longrightarrow> json_string_loop dest (e @ r) = json_string_loop (dest @ b) r"
  by (simp add: decodes_to_def)

lemma decodes_to_append: "decodes_to e b \<Longrightarrow> decodes_to f c \<Longrightarrow> decodes_to (e @ f) (b @ c)"
  by (simp add: decodes_to_def)

lemma decodes_to_Nil: "decodes_to [] []"
  by (simp add: decodes_to_def)

lemma decodes_plain: "c \<noteq> 34 \<Longrightarrow> c \<noteq> 92 \<Longrightarrow> decodes_to [c] [c]"
  by (simp add: decodes_to_def json_string_loop.simps(2))

lemma decodes_simple_escape: "simple_escape c = Some e \<Longrightarrow> decodes_to e [c]"
  by (auto simp: simple_escape_def decodes_to_def json_string_loop.simps(2) unescape_def split: if_splits)

lemma decodes_json_char:
  assumes "unicode_scalar c"
  shows "\<exists>e. json_char c = Some e \<and> decodes_to e (append_utf8_character c)"
proof -
  obtain e where e: "json_char c = Some e" "\<And>r. \<exists>e'. e = [92, ch (CHR ''u'')] @ e' \<and> read_unicode_escape (e' @ r) = Inr (c, r)"
    using read_json_char [OF assms] by (metis option.inject)
  have "json_string_loop dest (e @ r) = json_string_loop (dest @ append_utf8_character c) r" for dest r
    using e(2) [of r] by (auto simp: json_string_loop.simps(2))
  then show ?thesis using e(1) by (auto simp: decodes_to_def)
qed

lemma control_char:
  assumes "c \<le> (31 :: byte)"
  shows "json_one_char (u32_of c) = json_char (u32_of c)" "unicode_scalar (u32_of c)"
    "append_utf8_character (u32_of c) = [c]"
proof -
  have u: "unat (u32_of c) = unat c" "unat c \<le> 31"
    using assms unat_byte_less [of c]
    by (simp_all add: unsigned_ucast_eq take_bit_nat_eq_self word_le_nat_alt)
  then show "json_one_char (u32_of c) = json_char (u32_of c)" "unicode_scalar (u32_of c)"
    by (auto simp: json_char_def unicode_scalar_def word_less_nat_alt)
  show "append_utf8_character (u32_of c) = [c]"
  proof -
    have "unat (byte_of w) = take_bit 8 (unat w)" for w :: u32 by (simp add: unsigned_ucast_eq)
    from this [of "u32_of c"] have "unat (byte_of (u32_of c)) = take_bit 8 (unat (u32_of c))" .
    also have "\<dots> = unat c" using u by (simp add: take_bit_nat_eq_self)
    finally have "byte_of (u32_of c) = c" by (simp only: word_unat_eq_iff)
    moreover have "u32_of c \<le> 0x7f" using u by (simp add: word_le_nat_alt)
    ultimately show ?thesis by (simp only: append_utf8_character_def if_True)
  qed
qed

lemma decodes_control: "c \<le> 31 \<Longrightarrow> \<exists>e. json_one_char (u32_of c) = Some e \<and> decodes_to e [c]"
  using decodes_json_char [of "u32_of c"] control_char [of c] by simp

lemma simple_escape_None: "simple_escape c = None \<Longrightarrow> c \<noteq> 34 \<and> c \<noteq> 92"
  by (auto simp: simple_escape_def)

lemma json_raw_string_decodes: "\<exists>e. json_raw_string_loop s = Some e \<and> decodes_to e s"
proof (induction s)
  case Nil
  then show ?case by (simp add: decodes_to_Nil)
next
  case (Cons c s)
  then obtain es where es: "json_raw_string_loop s = Some es" "decodes_to es s" by blast
  have "\<exists>e. (case simple_escape c of Some e \<Rightarrow> Some e
               | None \<Rightarrow> if c \<le> 31 then json_one_char (u32_of c) else Some [c]) = Some e \<and> decodes_to e [c]"
    using decodes_control [of c] decodes_plain [of c] simple_escape_None [of c]
    by (cases "simple_escape c") (auto simp: decodes_simple_escape)
  then show ?case using es decodes_to_append [of _ "[c]" es s] by fastforce
qed

text \<open>What the printer of checked strings emits for a valid UTF-8 string.\<close>

lemma ascii_append:
  assumes "unat c < 128" "unicode_scalar c"
  shows "\<exists>a. append_utf8_character c = [a] \<and> unat a = unat c"
proof -
  have "map unat (append_utf8_character c) = utf8_units (unat c)"
    using assms(2) by (intro unat_append_utf8_character unicode_scalar_bound)
  then show ?thesis using assms(1) by (auto simp: utf8_units_def map_unat_eq_Cons)
qed

lemma json_string_decodes:
  assumes "list_all unicode_scalar cs"
  shows "\<exists>e. json_string_loop_out (utf8_encode_codes cs) = Some e \<and> decodes_to e (utf8_encode_codes cs)"
  using assms
proof (induction cs)
  case Nil
  then show ?case by (simp add: decodes_to_Nil)
next
  case (Cons c cs)
  then obtain es where es: "json_string_loop_out (utf8_encode_codes cs) = Some es"
    "decodes_to es (utf8_encode_codes cs)" and c: "unicode_scalar c" by auto
  let ?r = "utf8_encode_codes cs"
  have "\<exists>e. json_string_loop_out (append_utf8_character c @ ?r) = Some (e @ es) \<and>
      decodes_to e (append_utf8_character c)"
  proof (cases "unat c < 128")
    case True
    then obtain a where a: "append_utf8_character c = [a]" "unat a < 128" using ascii_append c by metis
    then have "\<not> 128 \<le> a" by (simp add: word_le_nat_alt)
    then show ?thesis
      using es(1) a(1) decodes_control [of a] decodes_plain [of a] simple_escape_None [of a]
        decodes_simple_escape [of a]
      by (cases "simple_escape a") (auto simp: json_string_loop_out.simps(2))
  next
    case False
    obtain a bs where a: "append_utf8_character c = a # bs" "128 \<le> unat a"
      "json_utf8_char a (bs @ ?r) = Some (c, ?r)"
      using json_utf8_char_append [OF c, of ?r] False by auto
    obtain e where e: "json_char c = Some e" "decodes_to e (append_utf8_character c)"
      using decodes_json_char [OF c] by blast
    have "simple_escape a = None" "\<not> a \<le> 31" "128 \<le> a"
      using a(2) by (auto simp: simple_escape_def word_le_nat_alt)
    then have "json_string_loop_out (append_utf8_character c @ ?r) = Some (e @ es)"
      using a es(1) e(1) by (simp add: json_string_loop_out.simps(2))
    then show ?thesis using e(2) by blast
  qed
  then show ?case using es(2) decodes_to_append by fastforce
qed

lemma json_string_decode_quoted:
  assumes "decodes_to e s" "p_rest p = [34] @ e @ [34] @ r"
  shows "json_string_decode p = Inr (s, p\<lparr>p_rest := r\<rparr>)"
proof -
  have "json_string_loop [] (e @ 34 # r) = Inr (s, r)"
    using decodes_toD [OF assms(1), of "[]" "34 # r"] by (simp add: json_string_loop.simps(2))
  then show ?thesis
    using assms(2) by (simp add: json_string_decode_def try_skip_def)
qed

subsection \<open>Properties\<close>

definition json_quote_raw :: "bytes \<Rightarrow> bytes" where
  "json_quote_raw s = the (json_raw_string s)"

definition json_unquote :: "bytes \<Rightarrow> bytes result" where
  "json_unquote t = try_result (json_string_decode (new_parser t)) (\<lambda>(s, p).
     if p_rest p = [] then Inr s else Error ''Expected string end'')"

interpretation json_raw: codec json_quote_raw json_unquote
proof unfold_locales
  fix s
  obtain e where e: "json_raw_string_loop s = Some e" "decodes_to e s" using json_raw_string_decodes by blast
  have "json_string_decode (new_parser ([34] @ e @ [34])) = Inr (s, (new_parser ([34] @ e @ [34]))\<lparr>p_rest := []\<rparr>)"
    using json_string_decode_quoted [OF e(2), of "new_parser ([34] @ e @ [34])" "[]"] by (simp add: new_parser_def)
  then show "json_unquote (json_quote_raw s) = Inr s"
    using e(1) by (simp add: json_unquote_def json_quote_raw_def json_raw_string_def)
qed

text \<open>C23: \<open>JsonRawString\<close> prints every byte string, whatever its bytes, and \<open>json_string_decode\<close> reads the
text back, leaving what follows the closing quote; so different strings have different texts.\<close>
theorem json_raw_string_roundtrip:
  "\<exists>t. json_raw_string s = Some t \<and>
     json_string_decode (new_parser (t @ r)) = Inr (s, new_parser r) \<and>
     (json_raw_string s' = Some t) = (s' = s)"
proof -
  obtain e where e: "json_raw_string_loop s = Some e" "decodes_to e s" using json_raw_string_decodes by blast
  have "json_string_decode (new_parser (([34] @ e @ [34]) @ r)) = Inr (s, new_parser r)"
    using json_string_decode_quoted [OF e(2), of "new_parser (([34] @ e @ [34]) @ r)" r] by (simp add: new_parser_def)
  moreover have t: "json_raw_string s = Some ([34] @ e @ [34])" using e(1) by (simp add: json_raw_string_def)
  moreover have "s' = s" if "json_raw_string s' = Some ([34] @ e @ [34])"
    using that t json_raw.enc_inject [of s' s] by (simp add: json_quote_raw_def)
  ultimately have "json_raw_string s = Some ([34] @ e @ [34]) \<and>
      json_string_decode (new_parser (([34] @ e @ [34]) @ r)) = Inr (s, new_parser r) \<and>
      (json_raw_string s' = Some ([34] @ e @ [34])) = (s' = s)" by blast
  then show ?thesis by blast
qed

text \<open>For a string that \<open>check_utf8\<close> accepts, the \<open>CHECK\<close>s of the printer \<open>JsonString\<close> all hold, and
\<open>json_string_decode\<close> reads the printed text back, also through the surrogate pairs it writes for
characters beyond the basic plane.\<close>
theorem json_string_roundtrip:
  assumes "check_utf8 s = Some True"
  shows "\<exists>t. json_string s = Some t \<and> json_string_decode (new_parser (t @ r)) = Inr (s, new_parser r)"
proof -
  obtain cs where cs: "list_all unicode_scalar cs" "s = utf8_encode_codes cs"
    using assms by (auto simp: check_utf8_correct valid_utf8_def)
  obtain e where e: "json_string_loop_out s = Some e" "decodes_to e s" using json_string_decodes [OF cs(1)] cs(2) by blast
  have "json_string_decode (new_parser (([34] @ e @ [34]) @ r)) = Inr (s, new_parser r)"
    using json_string_decode_quoted [OF e(2), of "new_parser (([34] @ e @ [34]) @ r)" r] by (simp add: new_parser_def)
  then show ?thesis using e(1) by (auto simp: json_string_def)
qed

theorem json_string_roundtrip_witness:
  "\<exists>t. json_string [0xF0, 0x9F, 0x98, 0x80] = Some t \<and>
     json_string_decode (new_parser (t @ [44])) = Inr ([0xF0, 0x9F, 0x98, 0x80], new_parser [44])"
proof -
  have "check_utf8 [0xF0, 0x9F, 0x98, 0x80] = Some True" by code_simp
  then show ?thesis by (rule json_string_roundtrip)
qed

text \<open>Decoding a string in place is safe: what has been written never reaches what has not been read,
since the decoded string together with the rest is shorter than the input.  \<open>json_string_skip\<close> accepts the
same strings and stops at the same place.\<close>
theorem json_string_decode_fits:
  "json_string_skip p = try_result (json_string_decode p) (\<lambda>(s, q). Inr q) \<and>
   (json_string_decode p = Inr (s, q) \<longrightarrow> length s + length (p_rest q) + 2 \<le> length (p_rest p))"
proof -
  have "length s + length (p_rest q) + 2 \<le> length (p_rest p)" if d: "json_string_decode p = Inr (s, q)"
  proof -
    obtain p' where p': "try_skip 34 p = Some p'" using d
      by (cases "try_skip 34 p") (auto simp: json_string_decode_def opening_expected_def)
    have "json_string_loop [] (p_rest p') = Inr (s, p_rest q)"
      using d p' by (auto simp: json_string_decode_def)
    then show ?thesis using json_string_loop_fits [of "[]" "p_rest p'" s "p_rest q"] p'
      by (auto simp: try_skip_Some)
  qed
  then show ?thesis using json_string_skip_eq [of p] by blast
qed

theorem json_string_decode_fits_witness:
  "json_string_skip (new_parser [34, 92, 110, 34]) = Inr (new_parser []) \<and>
   length [10 :: byte] + length (p_rest (new_parser [])) + 2 \<le> length (p_rest (new_parser [34, 92, 110, 34]))"
proof -
  have d: "json_string_decode (new_parser [34, 92, 110, 34]) = Inr ([10], new_parser [])" by code_simp
  then show ?thesis
    using json_string_decode_fits [of "new_parser [34, 92, 110, 34]" "[10]" "new_parser []"] by simp
qed
end
