(* ===== verification/Td_Json.thy ===== *)
theory Td_Json
  imports Td_JsonString Td_Numbers
begin

text \<open>
  JSON values: the recursive reader and skipper of \<open>tdutils/td/utils/JsonBuilder.cpp\<close>, and the builder
  and \<open>JsonValue::store\<close> of \<open>JsonBuilder.h\<close>.

  The reader recurses through the input, at most \<open>max_depth\<close> levels deep, and loops over the elements of
  an array or object.  The model has one fuel for both; \<open>None\<close> is fuel that has run out, and
  \<open>do_json_decode_total\<close> shows that twice the length of the input plus one is enough.  The strings of a value
  are slices of the input buffer in the source; here they are their bytes.

  The scope objects of the builder only guard against misuse of the builder by its caller; the model has
  the text and the offset they maintain.
\<close>

unbundle bit_operations_syntax

subsection \<open>Values\<close>

datatype json_value =
    JNull
  | JNumber bytes
  | JBoolean bool
  | JString bytes
  | JArray "json_value list"
  | JObject "(bytes \<times> json_value) list"

datatype json_type = TNull | TNumber | TBoolean | TString | TArray | TObject

fun json_type_of :: "json_value \<Rightarrow> json_type" where
  "json_type_of JNull = TNull"
| "json_type_of (JNumber _) = TNumber"
| "json_type_of (JBoolean _) = TBoolean"
| "json_type_of (JString _) = TString"
| "json_type_of (JArray _) = TArray"
| "json_type_of (JObject _) = TObject"

fun get_type_name :: "json_type \<Rightarrow> bytes" where
  "get_type_name TNull = str ''Null''"
| "get_type_name TNumber = str ''Number''"
| "get_type_name TBoolean = str ''Boolean''"
| "get_type_name TString = str ''String''"
| "get_type_name TArray = str ''Array''"
| "get_type_name TObject = str ''Object''"

subsection \<open>Reading\<close>

definition try2 :: "'a result option \<Rightarrow> ('a \<Rightarrow> 'b result option) \<Rightarrow> 'b result option" where
  "try2 m f = (case m of None \<Rightarrow> None | Some (Inl e) \<Rightarrow> Some (Inl e) | Some (Inr x) \<Rightarrow> f x)"

definition number_start :: "byte \<Rightarrow> bool" where
  "number_start c \<longleftrightarrow> c = ch (CHR ''-'') \<or> c = ch (CHR ''+'') \<or> c = ch (CHR ''.'') \<or> is_digit c"

definition number_char :: "byte \<Rightarrow> bool" where
  "number_char c \<longleftrightarrow> c = ch (CHR ''-'') \<or> is_digit c \<or> c = ch (CHR ''e'') \<or> c = ch (CHR ''E'') \<or>
     c = ch (CHR ''+'') \<or> c = ch (CHR ''.'')"

definition unexpected_symbol :: "byte \<Rightarrow> 'a result" where
  "unexpected_symbol c =
     (if 0 < c \<and> c < 127 then Inl (Err 0 (quoted ''Unexpected symbol '' c ''''))
      else Error ''Unexpected symbol'')"

definition read_token :: "string \<Rightarrow> 'a \<Rightarrow> status_error \<Rightarrow> parser \<Rightarrow> ('a \<times> parser) result" where
  "read_token token v e p =
     (case try_skip_prefix (str token) p of Some q \<Rightarrow> Inr (v, q) | None \<Rightarrow> Inl e)"

definition token_error :: "string \<Rightarrow> byte \<Rightarrow> string \<Rightarrow> status_error" where
  "token_error before c after = Err 0 (quoted before c after)"

text \<open>The cases of the \<open>switch\<close> that do not recurse.\<close>

definition json_scalar :: "byte \<Rightarrow> parser \<Rightarrow> (json_value \<times> parser) result" where
  "json_scalar c p =
     (if c = ch (CHR ''f'') then
        read_token ''false'' (JBoolean False) (token_error ''Token starts with '' c '' -- false expected'') p
      else if c = ch (CHR ''t'') then
        read_token ''true'' (JBoolean True) (token_error ''Token starts with '' c '' -- true expected'') p
      else if c = ch (CHR ''n'') then
        read_token ''null'' JNull (token_error ''Token starts with '' c '' -- null expected'') p
      else if c = 34 then try_result (json_string_decode p) (\<lambda>(s, p). Inr (JString s, p))
      else if number_start c then
        let (num, p) = read_while number_char p in Inr (JNumber num, p)
      else if c = 0 then Error ''Unexpected string end''
      else unexpected_symbol c)"

definition json_scalar_skip :: "byte \<Rightarrow> parser \<Rightarrow> parser result" where
  "json_scalar_skip c p =
     (if c = ch (CHR ''f'') then
        try_result (read_token ''false'' () (token_error ''Starts with '' c '' -- false expected'') p)
          (\<lambda>(_, p). Inr p)
      else if c = ch (CHR ''t'') then
        try_result (read_token ''true'' () (token_error ''Starts with '' c '' -- true expected'') p)
          (\<lambda>(_, p). Inr p)
      else if c = ch (CHR ''n'') then
        try_result (read_token ''null'' () (token_error ''Starts with '' c '' -- null expected'') p)
          (\<lambda>(_, p). Inr p)
      else if c = 34 then json_string_skip p
      else if number_start c then
        let (num, p) = read_while number_char p in Inr p
      else if c = 0 then Error ''Unexpected end''
      else unexpected_symbol c)"

text \<open>After the opening bracket, and after an element: closed, another one, or an error.\<close>

datatype json_next = Closed parser | More parser | Bad status_error

definition json_open :: "byte \<Rightarrow> byte \<Rightarrow> parser \<Rightarrow> json_next" where
  "json_open bracket close p =
     (let p = skip_whitespaces (skip bracket p) in
      case try_skip close p of Some p \<Rightarrow> Closed p | None \<Rightarrow> More p)"

definition json_continue :: "byte \<Rightarrow> status_error \<Rightarrow> status_error \<Rightarrow> parser \<Rightarrow> json_next" where
  "json_continue close at_end other p =
     (let p = skip_whitespaces p in
      case try_skip close p of
        Some p \<Rightarrow> Closed p
      | None \<Rightarrow>
          (case try_skip (ch (CHR '','')) p of
             Some p \<Rightarrow> More (skip_whitespaces p)
           | None \<Rightarrow> if parser_empty p then Bad at_end else Bad other))"

definition json_colon :: "parser \<Rightarrow> parser result" where
  "json_colon p =
     (case try_skip (ch (CHR '':'')) (skip_whitespaces p) of
        None \<Rightarrow> Inl (Err 0 (quoted [] (ch (CHR '':'')) '' expected'')) | Some p \<Rightarrow> Inr p)"

abbreviation msg :: "string \<Rightarrow> status_error" where "msg s \<equiv> Err 0 (str s)"

function do_json_decode :: "nat \<Rightarrow> int \<Rightarrow> parser \<Rightarrow> (json_value \<times> parser) result option"
and json_array_loop :: "nat \<Rightarrow> int \<Rightarrow> json_value list \<Rightarrow> parser \<Rightarrow> (json_value \<times> parser) result option"
and json_object_loop ::
  "nat \<Rightarrow> int \<Rightarrow> (bytes \<times> json_value) list \<Rightarrow> parser \<Rightarrow> (json_value \<times> parser) result option"
where
  "do_json_decode 0 max_depth p = None"
| "do_json_decode (Suc fuel) max_depth p =
     (if max_depth < 0 then Some (Error ''Too big object depth'')
      else let p = skip_whitespaces p; c = peek_char p in
        if c = ch (CHR ''['') then
          (case json_open c (ch (CHR '']'')) p of
             More p \<Rightarrow> json_array_loop fuel max_depth [] p
           | Closed p \<Rightarrow> Some (Inr (JArray [], p)) | Bad e \<Rightarrow> Some (Inl e))
        else if c = ch (CHR ''{'') then
          (case json_open c (ch (CHR ''}'')) p of
             More p \<Rightarrow> json_object_loop fuel max_depth [] p
           | Closed p \<Rightarrow> Some (Inr (JObject [], p)) | Bad e \<Rightarrow> Some (Inl e))
        else Some (json_scalar c p))"
| "json_array_loop 0 max_depth res p = None"
| "json_array_loop (Suc fuel) max_depth res p =
     (if parser_empty p then Some (Error ''Unexpected string end'')
      else try2 (do_json_decode fuel (max_depth - 1) p) (\<lambda>(value, p).
        case json_continue (ch (CHR '']'')) (msg ''Unexpected string end'')
            (msg ''Unexpected symbol while parsing JSON Array'') p of
          Closed p \<Rightarrow> Some (Inr (JArray (res @ [value]), p))
        | More p \<Rightarrow> json_array_loop fuel max_depth (res @ [value]) p
        | Bad e \<Rightarrow> Some (Inl e)))"
| "json_object_loop 0 max_depth fvs p = None"
| "json_object_loop (Suc fuel) max_depth fvs p =
     (if parser_empty p then Some (Error ''Unexpected string end'')
      else try2 (Some (json_string_decode p)) (\<lambda>(field, p).
        try2 (Some (json_colon p)) (\<lambda>p.
          try2 (do_json_decode fuel (max_depth - 1) p) (\<lambda>(value, p).
            case json_continue (ch (CHR ''}'')) (msg ''Unexpected string end'')
                (msg ''Unexpected symbol while parsing JSON Object'') p of
              Closed p \<Rightarrow> Some (Inr (JObject (fvs @ [(field, value)]), p))
            | More p \<Rightarrow> json_object_loop fuel max_depth (fvs @ [(field, value)]) p
            | Bad e \<Rightarrow> Some (Inl e)))))"
  by pat_completeness auto
termination
  by (relation "measure (\<lambda>x. case x of Inl (f, _) \<Rightarrow> f | Inr (Inl (f, _)) \<Rightarrow> f | Inr (Inr (f, _)) \<Rightarrow> f)") auto

function do_json_skip :: "nat \<Rightarrow> int \<Rightarrow> parser \<Rightarrow> parser result option"
and json_skip_array_loop :: "nat \<Rightarrow> int \<Rightarrow> parser \<Rightarrow> parser result option"
and json_skip_object_loop :: "nat \<Rightarrow> int \<Rightarrow> parser \<Rightarrow> parser result option"
where
  "do_json_skip 0 max_depth p = None"
| "do_json_skip (Suc fuel) max_depth p =
     (if max_depth < 0 then Some (Error ''Too big object depth'')
      else let p = skip_whitespaces p; c = peek_char p in
        if c = ch (CHR ''['') then
          (case json_open c (ch (CHR '']'')) p of
             More p \<Rightarrow> json_skip_array_loop fuel max_depth p
           | Closed p \<Rightarrow> Some (Inr p) | Bad e \<Rightarrow> Some (Inl e))
        else if c = ch (CHR ''{'') then
          (case json_open c (ch (CHR ''}'')) p of
             More p \<Rightarrow> json_skip_object_loop fuel max_depth p
           | Closed p \<Rightarrow> Some (Inr p) | Bad e \<Rightarrow> Some (Inl e))
        else Some (json_scalar_skip c p))"
| "json_skip_array_loop 0 max_depth p = None"
| "json_skip_array_loop (Suc fuel) max_depth p =
     (if parser_empty p then Some (Error ''Unexpected end'')
      else try2 (do_json_skip fuel (max_depth - 1) p) (\<lambda>p.
        case json_continue (ch (CHR '']'')) (msg ''Unexpected symbol'') (msg ''Unexpected symbol'') p of
          Closed p \<Rightarrow> Some (Inr p)
        | More p \<Rightarrow> json_skip_array_loop fuel max_depth p
        | Bad e \<Rightarrow> Some (Inl e)))"
| "json_skip_object_loop 0 max_depth p = None"
| "json_skip_object_loop (Suc fuel) max_depth p =
     (if parser_empty p then Some (Error ''Unexpected end'')
      else try2 (Some (json_string_skip p)) (\<lambda>p.
        try2 (Some (json_colon p)) (\<lambda>p.
          try2 (do_json_skip fuel (max_depth - 1) p) (\<lambda>p.
            case json_continue (ch (CHR ''}'')) (msg ''Unexpected symbol'') (msg ''Unexpected symbol'') p of
              Closed p \<Rightarrow> Some (Inr p)
            | More p \<Rightarrow> json_skip_object_loop fuel max_depth p
            | Bad e \<Rightarrow> Some (Inl e)))))"
  by pat_completeness auto
termination
  by (relation "measure (\<lambda>x. case x of Inl (f, _) \<Rightarrow> f | Inr (Inl (f, _)) \<Rightarrow> f | Inr (Inr (f, _)) \<Rightarrow> f)") auto

declare do_json_decode.simps(2) json_array_loop.simps(2) json_object_loop.simps(2) [simp del]
declare do_json_skip.simps(2) json_skip_array_loop.simps(2) json_skip_object_loop.simps(2) [simp del]

definition json_fuel :: "parser \<Rightarrow> nat" where
  "json_fuel p = 2 * length (p_rest p) + 1"

definition DEFAULT_MAX_DEPTH :: int where "DEFAULT_MAX_DEPTH = 100"

definition json_decode :: "bytes \<Rightarrow> json_value result option" where
  "json_decode json =
     (let p = new_parser json in
      try2 (do_json_decode (json_fuel p) DEFAULT_MAX_DEPTH p) (\<lambda>(v, p).
        if \<not> parser_empty (skip_whitespaces p) then Some (Error ''Expected string end'')
        else Some (Inr v)))"

subsection \<open>Building\<close>

record json_builder =
  jb_out :: bytes
  jb_offset :: int

definition jb_put :: "bytes \<Rightarrow> json_builder \<Rightarrow> json_builder" where
  "jb_put s jb = jb\<lparr>jb_out := jb_out jb @ s\<rparr>"

definition is_pretty :: "json_builder \<Rightarrow> bool" where
  "is_pretty jb \<longleftrightarrow> jb_offset jb \<ge> 0"

definition print_offset :: "json_builder \<Rightarrow> json_builder" where
  "print_offset jb =
     (if jb_offset jb \<ge> 0
      then jb_put ([10] @ concat (replicate (nat (jb_offset jb)) (str ''   ''))) jb else jb)"

definition dec_offset :: "json_builder \<Rightarrow> json_builder option" where
  "dec_offset jb =
     (if jb_offset jb \<ge> 0 then do { check (jb_offset jb > 0); Some (jb\<lparr>jb_offset := jb_offset jb - 1\<rparr>) }
      else Some jb)"

definition inc_offset :: "json_builder \<Rightarrow> json_builder" where
  "inc_offset jb = (if jb_offset jb \<ge> 0 then jb\<lparr>jb_offset := jb_offset jb + 1\<rparr> else jb)"

definition put_string :: "bytes \<Rightarrow> json_builder \<Rightarrow> json_builder option" where
  "put_string s jb = do { t \<leftarrow> json_string s; Some (jb_put t jb) }"

definition enter_scope :: "bytes \<Rightarrow> json_builder \<Rightarrow> json_builder" where
  "enter_scope bracket jb = jb_put bracket (inc_offset jb)"

definition leave_scope :: "bytes \<Rightarrow> json_builder \<Rightarrow> json_builder option" where
  "leave_scope bracket jb = do { jb \<leftarrow> dec_offset jb; Some (jb_put bracket (print_offset jb)) }"

definition next_element :: "bool \<Rightarrow> json_builder \<Rightarrow> json_builder" where
  "next_element is_first jb = print_offset (if is_first then jb_put (str '','') jb else jb)"

definition object_field :: "bool \<Rightarrow> bytes \<Rightarrow> json_builder \<Rightarrow> json_builder option" where
  "object_field is_first field jb =
     do { jb \<leftarrow> put_string field (next_element is_first jb);
          Some (if is_pretty jb then jb_put (str '' : '') jb else jb_put (str '':'') jb) }"

text \<open>
  \<open>JsonValue::store\<close> with the loops over elements and fields.  The flag is \<open>is_first_\<close>, which the source
  sets once an element has been written.
\<close>

fun store :: "json_value \<Rightarrow> json_builder \<Rightarrow> json_builder option"
and store_elements :: "bool \<Rightarrow> json_value list \<Rightarrow> json_builder \<Rightarrow> json_builder option"
and store_fields :: "bool \<Rightarrow> (bytes \<times> json_value) list \<Rightarrow> json_builder \<Rightarrow> json_builder option"
where
  "store JNull jb = Some (jb_put (str ''null'') jb)"
| "store (JBoolean b) jb = Some (jb_put (if b then str ''true'' else str ''false'') jb)"
| "store (JNumber s) jb = Some (jb_put s jb)"
| "store (JString s) jb = put_string s jb"
| "store (JArray vs) jb =
     do { jb \<leftarrow> store_elements False vs (enter_scope (str ''['') jb); leave_scope (str '']'') jb }"
| "store (JObject fs) jb =
     do { jb \<leftarrow> store_fields False fs (enter_scope (str ''{'') jb); leave_scope (str ''}'') jb }"
| "store_elements is_first [] jb = Some jb"
| "store_elements is_first (v # vs) jb =
     do { jb \<leftarrow> store v (next_element is_first jb); store_elements True vs jb }"
| "store_fields is_first [] jb = Some jb"
| "store_fields is_first ((f, v) # fs) jb =
     do { jb \<leftarrow> object_field is_first f jb; jb \<leftarrow> store v jb; store_fields True fs jb }"

definition json_encode :: "bool \<Rightarrow> json_value \<Rightarrow> bytes option" where
  "json_encode pretty v =
     do { jb \<leftarrow> store v \<lparr>jb_out = [], jb_offset = (if pretty then 0 else -1)\<rparr>;
          Some (jb_out (if pretty then jb_put [10] jb else jb)) }"

subsection \<open>Consumption\<close>

lemma try2_simps [simp]:
  "try2 None f = None" "try2 (Some (Inl e)) f = Some (Inl e)" "try2 (Some (Inr x)) f = f x"
  by (simp_all add: try2_def)

lemma try2_Inr: "try2 m f = Some (Inr y) \<longleftrightarrow> (\<exists>x. m = Some (Inr x) \<and> f x = Some (Inr y))"
  by (auto simp: try2_def split: option.splits sum.splits)

lemma length_skip_whitespaces: "length (p_rest (skip_whitespaces p)) \<le> length (p_rest p)"
  by (simp add: length_dropWhile_le)

lemma try_skip_shorter: "try_skip c p = Some q \<Longrightarrow> length (p_rest q) < length (p_rest p)"
  by (auto simp: try_skip_Some)

lemma json_open_shorter:
  assumes "peek_char p = c" "c \<noteq> 0" "is_ok (p_status p)"
  shows "json_open c d p = More q \<Longrightarrow> length (p_rest q) < length (p_rest p)"
    and "json_open c d p = Closed q \<Longrightarrow> length (p_rest q) < length (p_rest p)"
proof -
  obtain r where r: "p_rest p = c # r" using assms by (cases "p_rest p") (auto simp: peek_char_def)
  then have s: "p_rest (skip_whitespaces (skip c p)) = dropWhile (\<lambda>c. c \<in> set whitespaces) r"
    using assms(3) by (simp add: skip_def)
  have le: "length (dropWhile (\<lambda>c. c \<in> set whitespaces) r) < length (p_rest p)"
    using r length_dropWhile_le [of "\<lambda>c. c \<in> set whitespaces" r] by simp
  show "length (p_rest q) < length (p_rest p)" if "json_open c d p = More q"
    using that le s by (auto simp: json_open_def Let_def split: option.splits)
  show "length (p_rest q) < length (p_rest p)" if "json_open c d p = Closed q"
    using that le s try_skip_shorter [of d "skip_whitespaces (skip c p)" q]
    by (auto simp: json_open_def Let_def split: option.splits)
qed

lemma json_continue_shorter:
  "json_continue c e f p = More q \<Longrightarrow> length (p_rest q) < length (p_rest p)"
  "json_continue c e f p = Closed q \<Longrightarrow> length (p_rest q) < length (p_rest p)"
  using length_skip_whitespaces [of p]
  by (auto simp: json_continue_def Let_def split: option.splits if_splits dest!: try_skip_shorter
      intro: le_less_trans [OF length_skip_whitespaces])

lemma json_colon_shorter: "json_colon p = Inr q \<Longrightarrow> length (p_rest q) < length (p_rest p)"
  using length_skip_whitespaces [of p]
  by (auto simp: json_colon_def split: option.splits dest!: try_skip_shorter)

lemma number_start_char: "number_start c \<Longrightarrow> number_char c"
  by (auto simp: number_start_def number_char_def)

lemma read_token_shorter:
  "read_token t v e p = Inr (w, q) \<Longrightarrow> t \<noteq> [] \<Longrightarrow> length (p_rest q) < length (p_rest p)"
  by (auto simp: read_token_def try_skip_prefix_Some split: option.splits)

lemma json_string_decode_shorter:
  "json_string_decode p = Inr (s, q) \<Longrightarrow> length (p_rest q) < length (p_rest p)"
proof -
  assume d: "json_string_decode p = Inr (s, q)"
  then obtain p' where p': "try_skip 34 p = Some p'"
    by (cases "try_skip 34 p") (auto simp: json_string_decode_def opening_expected_def)
  then have "json_string_loop [] (p_rest p') = Inr (s, p_rest q)"
    using d by (auto simp: json_string_decode_def)
  then show ?thesis
    using json_string_loop_fits [of "[]" "p_rest p'" s "p_rest q"] try_skip_shorter [OF p'] by simp
qed

lemma json_scalar_shorter:
  assumes "json_scalar (peek_char p) p = Inr (v, q)"
  shows "length (p_rest q) < length (p_rest p)"
proof (cases "number_start (peek_char p)")
  case True
  have "peek_char p \<noteq> 0" using True by (auto simp: number_start_def is_digit_def)
  then obtain c r where r: "p_rest p = c # r" by (cases "p_rest p") (auto simp: peek_char_def)
  then have "number_char c" using True number_start_char by (simp add: peek_char_def)
  moreover have "peek_char p \<noteq> ch (CHR ''f'') \<and> peek_char p \<noteq> ch (CHR ''t'') \<and> peek_char p \<noteq> ch (CHR ''n'')
      \<and> peek_char p \<noteq> 34" using True by (auto simp: number_start_def is_digit_def)
  ultimately show ?thesis
    using assms True r by (auto simp: json_scalar_def read_while_eq le_imp_less_Suc length_dropWhile_le)
next
  case False
  then show ?thesis
    using assms
    by (auto simp: json_scalar_def unexpected_symbol_def dest: read_token_shorter json_string_decode_shorter
        split: if_splits)
qed

lemma statuses:
  "json_open c d p = More q \<Longrightarrow> is_ok (p_status p) \<Longrightarrow> c = peek_char p \<Longrightarrow> c \<noteq> 0 \<Longrightarrow> p_status q = p_status p"
  "json_open c d p = Closed q \<Longrightarrow> is_ok (p_status p) \<Longrightarrow> c = peek_char p \<Longrightarrow> c \<noteq> 0 \<Longrightarrow> p_status q = p_status p"
  "json_continue c e f p = More q \<Longrightarrow> p_status q = p_status p"
  "json_continue c e f p = Closed q \<Longrightarrow> p_status q = p_status p"
  "json_colon p = Inr q \<Longrightarrow> p_status q = p_status p"
  "json_string_decode p = Inr (s, q) \<Longrightarrow> p_status q = p_status p"
  "json_scalar c p = Inr (v, q) \<Longrightarrow> p_status q = p_status p"
proof -
  have peek: "p_rest p \<noteq> [] \<and> hd (p_rest p) = peek_char p" if "peek_char p \<noteq> 0" for p
    using that by (cases "p_rest p") (auto simp: peek_char_def)
  show "p_status q = p_status p"
    if "json_open c d p = More q" "is_ok (p_status p)" "c = peek_char p" "c \<noteq> 0"
    using that peek [of p] by (auto simp: json_open_def skip_def Let_def split: option.splits)
  show "p_status q = p_status p"
    if "json_open c d p = Closed q" "is_ok (p_status p)" "c = peek_char p" "c \<noteq> 0"
    using that peek [of p] by (auto simp: json_open_def skip_def try_skip_Some Let_def split: option.splits)
  show "p_status q = p_status p" if "json_continue c e f p = More q"
    using that by (auto simp: json_continue_def try_skip_Some Let_def split: option.splits if_splits)
  show "p_status q = p_status p" if "json_continue c e f p = Closed q"
    using that by (auto simp: json_continue_def try_skip_Some Let_def split: option.splits if_splits)
  show "p_status q = p_status p" if "json_colon p = Inr q"
    using that by (auto simp: json_colon_def try_skip_Some split: option.splits)
  show str: "p_status q = p_status p" if "json_string_decode p = Inr (s, q)" for s
    using that by (auto simp: json_string_decode_def opening_expected_def try_skip_Some split: option.splits)
  show "p_status q = p_status p" if "json_scalar c p = Inr (v, q)"
    using that str
    by (auto simp: json_scalar_def read_token_def try_skip_prefix_Some unexpected_symbol_def read_while_eq
        split: if_splits option.splits)
qed

text \<open>
  \<open>behind q p\<close>: the parser \<open>q\<close> is \<open>p\<close> after something has been consumed.  \<open>reads p m\<close>: the outcome \<open>m\<close> of
  reading at \<open>p\<close> is there, and a success has consumed something.
\<close>

definition behind :: "parser \<Rightarrow> parser \<Rightarrow> bool" where
  "behind q p \<longleftrightarrow> length (p_rest q) < length (p_rest p) \<and> p_status q = p_status p"

definition reads :: "parser \<Rightarrow> ('a \<times> parser) result option \<Rightarrow> bool" where
  "reads p m \<longleftrightarrow> (\<exists>r. m = Some r \<and> (\<forall>v q. r = Inr (v, q) \<longrightarrow> behind q p))"

lemma reads_simps [simp]: "reads p (Some (Inl e))" "reads p (Some (Inr (v, q))) \<longleftrightarrow> behind q p" "\<not> reads p None"
  by (simp_all add: reads_def)

lemma behind_trans: "behind q p \<Longrightarrow> behind r q \<Longrightarrow> behind r p"
  by (auto simp: behind_def)

lemma reads_behind: "behind q p \<Longrightarrow> reads q m \<Longrightarrow> reads p m"
  unfolding reads_def using behind_trans by blast

lemma reads_try2:
  assumes "reads p m" "\<And>v q. m = Some (Inr (v, q)) \<Longrightarrow> behind q p \<Longrightarrow> reads p (f (v, q))"
  shows "reads p (try2 m f)"
proof -
  obtain r where m: "m = Some r" using assms(1) by (auto simp: reads_def)
  show ?thesis
  proof (cases r)
    case (Inr x)
    then show ?thesis using assms m by (cases x) simp
  qed (use m in simp)
qed

lemma behind_skip_whitespaces: "behind q (skip_whitespaces p) \<Longrightarrow> behind q p"
  using length_skip_whitespaces [of p] by (simp add: behind_def)

lemma continue_behind:
  "json_continue c e f p = More q \<Longrightarrow> behind q p" "json_continue c e f p = Closed q \<Longrightarrow> behind q p"
  unfolding behind_def by (blast intro: json_continue_shorter statuses(3,4))+

lemma open_behind:
  assumes "peek_char p = c" "c \<noteq> 0" "is_ok (p_status p)"
  shows "json_open c d p = More q \<Longrightarrow> behind q p" "json_open c d p = Closed q \<Longrightarrow> behind q p"
  using json_open_shorter [OF assms, of d q] statuses(1) [OF _ assms(3) assms(1) [symmetric] assms(2), of d q]
    statuses(2) [OF _ assms(3) assms(1) [symmetric] assms(2), of d q]
  unfolding behind_def by blast+

lemma colon_behind: "json_colon p = Inr q \<Longrightarrow> behind q p"
  unfolding behind_def by (blast intro: json_colon_shorter statuses(5))

lemma string_behind: "json_string_decode p = Inr (s, q) \<Longrightarrow> behind q p"
  unfolding behind_def by (blast intro: json_string_decode_shorter statuses(6))

lemma scalar_behind: "json_scalar (peek_char p) p = Inr (v, q) \<Longrightarrow> behind q p"
  unfolding behind_def by (blast intro: json_scalar_shorter statuses(7))

lemma open_reads:
  assumes peek: "peek_char (skip_whitespaces p) = c" "c \<noteq> 0" "is_ok (p_status p)"
    and fin: "\<And>r. behind r p \<Longrightarrow> reads p (closed r)"
    and loop: "\<And>r. behind r p \<Longrightarrow> reads r (more_of r)"
  shows "reads p (case json_open c d (skip_whitespaces p) of More r \<Rightarrow> more_of r | Closed r \<Rightarrow> closed r
    | Bad e \<Rightarrow> Some (Inl e))"
proof -
  have ok: "is_ok (p_status (skip_whitespaces p))" using peek by simp
  note o = open_behind [OF peek(1,2) ok, THEN behind_skip_whitespaces]
  show ?thesis
  proof (cases "json_open c d (skip_whitespaces p)")
    case (Closed r)
    then show ?thesis using fin o(2) by simp
  next
    case (More r)
    then show ?thesis using reads_behind [OF o(1) loop, OF More o(1)] by simp
  qed simp
qed

text \<open>One level of the reader, in the three cases of an array, an object and anything else.\<close>

lemma do_json_decode_cases:
  fixes p :: parser and fuel :: nat
  assumes "0 \<le> d"
  defines "q \<equiv> skip_whitespaces p"
  obtains (arr) "peek_char q = ch (CHR ''['')" "do_json_decode (Suc fuel) d p =
      (case json_open (ch (CHR ''['')) (ch (CHR '']'')) q of
         More p \<Rightarrow> json_array_loop fuel d [] p
       | Closed p \<Rightarrow> Some (Inr (JArray [], p)) | Bad e \<Rightarrow> Some (Inl e))"
  | (obj) "peek_char q = ch (CHR ''{'')" "do_json_decode (Suc fuel) d p =
      (case json_open (ch (CHR ''{'')) (ch (CHR ''}'')) q of
         More p \<Rightarrow> json_object_loop fuel d [] p
       | Closed p \<Rightarrow> Some (Inr (JObject [], p)) | Bad e \<Rightarrow> Some (Inl e))"
  | (scalar) "peek_char q \<noteq> ch (CHR ''['')" "peek_char q \<noteq> ch (CHR ''{'')"
      "do_json_decode (Suc fuel) d p = Some (json_scalar (peek_char q) q)"
proof -
  have d: "\<not> d < 0" using assms by simp
  have ne: "ch (CHR ''{'') \<noteq> ch (CHR ''['')" by simp
  note step = do_json_decode.simps(2) [of fuel d p, unfolded Let_def, folded q_def]
  show thesis
  proof (cases "peek_char q = ch (CHR ''['')")
    case True
    show thesis using True by (intro arr) (simp only: step d True if_False if_True simp_thms)+
  next
    case nota: False
    show thesis
    proof (cases "peek_char q = ch (CHR ''{'')")
      case True
      show thesis using True by (intro obj) (simp only: step d True ne if_False if_True simp_thms)+
    next
      case False
      show thesis by (intro scalar nota False) (simp only: step d nota False if_False simp_thms)
    qed
  qed
qed

lemma value_reads:
  assumes ok: "is_ok (p_status p)"
    and arrs: "\<And>q. behind q p \<Longrightarrow> reads q (json_array_loop fuel d [] q)"
    and objs: "\<And>q. behind q p \<Longrightarrow> reads q (json_object_loop fuel d [] q)"
  shows "reads p (do_json_decode (Suc fuel) d p)"
proof (cases "0 \<le> d")
  case False
  then show ?thesis by (simp add: do_json_decode.simps(2))
next
  case True
  have br: "ch (CHR ''['') \<noteq> 0" "ch (CHR ''{'') \<noteq> 0" by simp_all
  show ?thesis
  proof (cases rule: do_json_decode_cases [OF True, where p = p and fuel = fuel])
    case 1
    show ?thesis unfolding 1(2) by (rule open_reads [OF 1(1) br(1) ok]) (simp_all add: arrs)
  next
    case 2
    show ?thesis unfolding 2(2) by (rule open_reads [OF 2(1) br(2) ok]) (simp_all add: objs)
  next
    case 3
    show ?thesis unfolding 3(3)
      by (cases "json_scalar (peek_char (skip_whitespaces p)) (skip_whitespaces p)")
        (auto dest!: scalar_behind behind_skip_whitespaces)
  qed
qed

text \<open>What the loops do with an element they have read, for any of the two loops.\<close>

lemma next_reads:
  assumes q: "behind q p"
    and fin: "\<And>r. behind r p \<Longrightarrow> reads p (closed r)"
    and loop: "\<And>r. behind r p \<Longrightarrow> reads r (more_of r)"
  shows "reads p (case json_continue c e f q of Closed r \<Rightarrow> closed r | More r \<Rightarrow> more_of r
    | Bad e \<Rightarrow> Some (Inl e))"
proof (cases "json_continue c e f q")
  case (Closed r)
  then show ?thesis using fin behind_trans [OF q] continue_behind(2) by simp
next
  case (More r)
  then have "behind r p" using behind_trans [OF q] continue_behind(1) by blast
  then show ?thesis using More reads_behind [OF _ loop] by simp
qed simp

lemma array_reads:
  assumes val: "reads p (do_json_decode fuel (d - 1) p)"
    and loop: "\<And>q us. behind q p \<Longrightarrow> reads q (json_array_loop fuel d us q)"
  shows "reads p (json_array_loop (Suc fuel) d vs p)"
  unfolding json_array_loop.simps(2)
  by (cases "parser_empty p") (auto intro!: reads_try2 val next_reads loop)

lemma object_reads:
  assumes val: "\<And>q. behind q p \<Longrightarrow> reads q (do_json_decode fuel (d - 1) q)"
    and loop: "\<And>q us. behind q p \<Longrightarrow> reads q (json_object_loop fuel d us q)"
  shows "reads p (json_object_loop (Suc fuel) d fvs p)"
proof (cases "parser_empty p")
  case False
  have field: "reads p (try2 (do_json_decode fuel (d - 1) q) (\<lambda>(v, q).
      case json_continue c e e' q of Closed p \<Rightarrow> Some (Inr (JObject (fvs @ [(f, v)]), p))
      | More p \<Rightarrow> json_object_loop fuel d (fvs @ [(f, v)]) p | Bad e \<Rightarrow> Some (Inl e)))"
    if q: "behind q p" for q f c e e'
    by (rule reads_try2 [OF reads_behind [OF q val [OF q]]]) (auto intro!: next_reads loop)
  have colon: "reads p (try2 (Some (json_colon r)) (\<lambda>q. try2 (do_json_decode fuel (d - 1) q) (\<lambda>(v, q).
      case json_continue c e e' q of Closed p \<Rightarrow> Some (Inr (JObject (fvs @ [(f, v)]), p))
      | More p \<Rightarrow> json_object_loop fuel d (fvs @ [(f, v)]) p | Bad e \<Rightarrow> Some (Inl e))))"
    if r: "behind r p" for r f c e e'
  proof (cases "json_colon r")
    case (Inr q)
    then show ?thesis using field behind_trans [OF r colon_behind] by simp
  qed simp
  show ?thesis
  proof (cases "json_string_decode p")
    case (Inr x)
    obtain s r where x: "x = (s, r)" by (cases x)
    then have "behind r p" using Inr string_behind by blast
    then show ?thesis
      using False Inr x colon by (simp only: json_object_loop.simps(2) if_False try2_simps split_conv)
  qed (use False in \<open>simp add: json_object_loop.simps(2)\<close>)
qed (simp add: json_object_loop.simps(2))

text \<open>Fuel: each level and each element of an array or object uses one unit and consumes something.\<close>

lemma do_json_decode_reads:
  "is_ok (p_status p) \<Longrightarrow>
     (2 * length (p_rest p) + 1 \<le> fuel \<longrightarrow> reads p (do_json_decode fuel d p)) \<and>
     (2 * length (p_rest p) + 2 \<le> fuel \<longrightarrow> reads p (json_array_loop fuel d vs p)) \<and>
     (2 * length (p_rest p) + 2 \<le> fuel \<longrightarrow> reads p (json_object_loop fuel d fvs p))"
proof (induction fuel arbitrary: d vs fvs p)
  case (Suc fuel)
  have ok: "is_ok (p_status q)" if "behind q p" for q using that Suc.prems by (simp add: behind_def)
  have len: "2 * length (p_rest q) + 2 \<le> 2 * length (p_rest p)" if "behind q p" for q
    using that by (simp add: behind_def)
  have loops: "reads q (json_array_loop fuel d us q) \<and> reads q (json_object_loop fuel d ufs q)"
    if "behind q p" "2 * length (p_rest p) \<le> fuel" for q d us ufs
    using Suc.IH [OF ok, OF that(1), of d us ufs] len [OF that(1)] that(2) by simp
  have vals: "reads q (do_json_decode fuel d q)" if "behind q p" "2 * length (p_rest p) \<le> fuel" for q d
    using Suc.IH [OF ok, OF that(1), of d] len [OF that(1)] that(2) by simp
  have val: "reads p (do_json_decode fuel d p)" if "2 * length (p_rest p) + 1 \<le> fuel" for d
    using Suc.IH [OF Suc.prems, of d] that by simp
  show ?case
    using value_reads [OF Suc.prems, of fuel d] array_reads [of p fuel d vs] object_reads [of p fuel d fvs]
      loops vals val by simp
qed simp

subsection \<open>Skipping\<close>

text \<open>
  The outcome of reading without the value and without the text of the error: skipping has the same.
\<close>

definition verdict :: "parser result option \<Rightarrow> parser option option" where
  "verdict m = map_option (case_sum (\<lambda>_. None) Some) m"

definition forget_value :: "('a \<times> parser) result option \<Rightarrow> parser result option" where
  "forget_value m = try2 m (\<lambda>(_, q). Some (Inr q))"

lemma verdict_simps [simp]:
  "verdict None = None" "verdict (Some (Inl e)) = Some None" "verdict (Some (Inr q)) = Some (Some q)"
  by (simp_all add: verdict_def)

lemma verdict_eq:
  "verdict m = None \<longleftrightarrow> m = None" "verdict m = Some None \<longleftrightarrow> (\<exists>e. m = Some (Inl e))"
  "verdict m = Some (Some q) \<longleftrightarrow> m = Some (Inr q)"
  by (cases m; cases "the m"; simp)+

lemma forget_value_simps [simp]:
  "forget_value None = None" "forget_value (Some (Inl e)) = Some (Inl e)"
  "forget_value (Some (Inr (v, q))) = Some (Inr q)"
  by (simp_all add: forget_value_def)

lemma verdict_try2:
  assumes "verdict m = verdict (forget_value m')" "\<And>v q. m' = Some (Inr (v, q)) \<Longrightarrow>
    verdict (f q) = verdict (forget_value (g (v, q)))"
  shows "verdict (try2 m f) = verdict (forget_value (try2 m' g))"
proof (cases m')
  case None
  then show ?thesis using assms(1) by (simp add: verdict_eq)
next
  case (Some r')
  show ?thesis
  proof (cases r')
    case (Inl e)
    then obtain d where "m = Some (Inl d)" using assms(1) Some by (auto simp: verdict_eq)
    then show ?thesis using Some Inl by simp
  next
    case (Inr x)
    then obtain v q where x: "m' = Some (Inr (v, q))" using Some by (cases x) simp
    then have "m = Some (Inr q)" using assms(1) by (simp add: verdict_eq)
    then show ?thesis using assms(2) x by simp
  qed
qed

lemma verdict_next:
  assumes "\<And>q. verdict (more_of q) = verdict (forget_value (more_of' q))"
    and "\<And>q. verdict (closed q) = verdict (forget_value (closed' q))"
  shows "verdict (case json_continue c e f p of Closed q \<Rightarrow> closed q | More q \<Rightarrow> more_of q | Bad e \<Rightarrow> Some (Inl e)) =
    verdict (forget_value (case json_continue c e' f' p of Closed q \<Rightarrow> closed' q | More q \<Rightarrow> more_of' q
      | Bad e \<Rightarrow> Some (Inl e)))"
  using assms by (simp add: json_continue_def Let_def split: option.splits)

lemma verdict_scalar: "verdict (Some (json_scalar_skip c p)) = verdict (forget_value (Some (json_scalar c p)))"
  by (auto simp: json_scalar_def json_scalar_skip_def read_token_def unexpected_symbol_def json_string_skip_eq
      read_while_eq try_result_def split: option.splits sum.splits)

lemma verdict_colon: "verdict (try2 (Some (json_colon p)) f) = verdict (forget_value (try2 (Some (json_colon p)) g))"
  if "\<And>q. verdict (f q) = verdict (forget_value (g q))"
  using that by (cases "json_colon p") simp_all

lemma verdict_field:
  "verdict (try2 (Some (json_string_skip p)) f) = verdict (forget_value (try2 (Some (json_string_decode p)) g))"
  if "\<And>v q. verdict (f q) = verdict (forget_value (g (v, q)))"
  using that by (cases "json_string_decode p") (auto simp: json_string_skip_eq)

lemma do_json_skip_verdict:
  "verdict (do_json_skip fuel d p) = verdict (forget_value (do_json_decode fuel d p)) \<and>
   verdict (json_skip_array_loop fuel d p) = verdict (forget_value (json_array_loop fuel d vs p)) \<and>
   verdict (json_skip_object_loop fuel d p) = verdict (forget_value (json_object_loop fuel d fvs p))"
proof (induction fuel arbitrary: d vs fvs p)
  case (Suc fuel)
  have one: "verdict (do_json_skip (Suc fuel) d p) = verdict (forget_value (do_json_decode (Suc fuel) d p))"
    using Suc.IH verdict_scalar
    by (simp add: do_json_skip.simps(2) do_json_decode.simps(2) Let_def split: json_next.split)
  have two: "verdict (json_skip_array_loop (Suc fuel) d p) = verdict (forget_value (json_array_loop (Suc fuel) d vs p))"
    unfolding json_skip_array_loop.simps(2) json_array_loop.simps(2)
    by (cases "parser_empty p") (simp, simp only: if_False, intro verdict_try2, use Suc.IH in \<open>auto intro!: verdict_next\<close>)
  have three: "verdict (json_skip_object_loop (Suc fuel) d p) =
      verdict (forget_value (json_object_loop (Suc fuel) d fvs p))"
    unfolding json_skip_object_loop.simps(2) json_object_loop.simps(2)
    by (cases "parser_empty p") (simp, simp only: if_False split_conv,
        intro verdict_field, use Suc.IH in \<open>auto intro!: verdict_next verdict_colon verdict_try2\<close>)
  show ?case using one two three by blast
qed simp

subsection \<open>Properties\<close>

text \<open>C32: Reading a value ends on every input, at every depth limit: with fuel for twice the length of the
input plus one, which \<open>json_decode\<close> gives, the reader returns an error, or a value with a parser that has
moved forward; so \<open>json_decode\<close> is total.\<close>
theorem do_json_decode_total:
  assumes "is_ok (p_status p)" "json_fuel p \<le> fuel"
  shows "\<exists>r. do_json_decode fuel d p = Some r \<and>
    (\<forall>v q. r = Inr (v, q) \<longrightarrow> length (p_rest q) < length (p_rest p) \<and> p_status q = p_status p) \<and>
    (\<exists>r'. json_decode s = Some r')"
proof -
  have "reads p (do_json_decode fuel d p)"
    using do_json_decode_reads [OF assms(1), of fuel d] assms(2) by (simp add: json_fuel_def)
  moreover have "reads (new_parser s) (do_json_decode (json_fuel (new_parser s)) DEFAULT_MAX_DEPTH (new_parser s))"
    using do_json_decode_reads [of "new_parser s" "json_fuel (new_parser s)" DEFAULT_MAX_DEPTH]
    by (simp add: json_fuel_def new_parser_def)
  then have "\<exists>r'. json_decode s = Some r'"
    by (auto simp: reads_def json_decode_def Let_def try2_def split: sum.split)
  ultimately show ?thesis by (auto simp: reads_def behind_def)
qed

theorem do_json_decode_total_witness:
  "length (p_rest (new_parser [])) < length (p_rest (new_parser (str ''[ ]''))) \<and>
   p_status (new_parser []) = p_status (new_parser (str ''[ ]'')) \<and> (\<exists>r'. json_decode (str ''{'') = Some r')"
proof -
  have d: "do_json_decode 7 0 (new_parser (str ''[ ]'')) = Some (Inr (JArray [], new_parser []))" by code_simp
  have "json_fuel (new_parser (str ''[ ]'')) \<le> 7" "is_ok (p_status (new_parser (str ''[ ]'')))"
    by (simp_all add: json_fuel_def new_parser_def)
  then show ?thesis using do_json_decode_total [of "new_parser (str ''[ ]'')" 7 0 "str ''{''"] d by auto
qed

text \<open>The skipping reader, which builds no value, agrees with the decoding one at every depth limit and
for every amount of fuel: one ends exactly when the other does, one fails exactly when the other does, and
on success both stop at the same place.\<close>
theorem do_json_skip_agrees:
  "(do_json_skip fuel d p = Some (Inr q)) = (\<exists>v. do_json_decode fuel d p = Some (Inr (v, q))) \<and>
   (\<exists>e. do_json_skip fuel d p = Some (Inl e)) = (\<exists>e. do_json_decode fuel d p = Some (Inl e)) \<and>
   (do_json_skip fuel d p = None) = (do_json_decode fuel d p = None)"
proof -
  have v: "verdict (do_json_skip fuel d p) = verdict (forget_value (do_json_decode fuel d p))"
    using do_json_skip_verdict by blast
  show ?thesis
  proof (cases "do_json_decode fuel d p")
    case None
    then show ?thesis using v by (simp add: verdict_eq)
  next
    case (Some r)
    then show ?thesis using v by (cases r) (auto simp: verdict_eq)
  qed
qed

end
