(* ===== verification/Td_JsonGrammar.thy ===== *)
theory Td_JsonGrammar
  imports Td_Json
begin

text \<open>
  What the JSON reader of \<open>Td_Json\<close> accepts, as a grammar that does not mention parsers, fuel or the order of
  the tests in the code: \<open>json_text d v t\<close> says that \<open>t\<close> is a text of the value \<open>v\<close> nested at most \<open>d\<close> levels deep.
  The reader is proved sound and complete for it, and the builder is proved to print texts of it, which gives
  the round trip.
\<close>

unbundle bit_operations_syntax

subsection \<open>String texts\<close>

text \<open>
  A string text is a quote and what the string loop accepts to the end.  The loop looks ahead for the second
  half of a surrogate pair, so that it stops at the same place whatever follows has to be proved.
\<close>

definition string_text :: "bytes \<Rightarrow> bytes \<Rightarrow> bool" where
  "string_text s t \<longleftrightarrow> t \<noteq> [] \<and> hd t = 34 \<and> json_string_loop [] (tl t) = Inr (s, [])"

definition second_half :: "bytes \<Rightarrow> nat option result" where
  "second_half x =
     (if 6 \<le> length x \<and> x ! 0 = 92 \<and> x ! 1 = ch (CHR ''u'')
      then try_result (read_hex 4 0 (take 4 (drop 2 x))) (\<lambda>(n, _). Inr (if is_surrogate n then Some n else None))
      else Inr None)"

lemma read_hex_append:
  "n \<le> length a \<Longrightarrow> read_hex n num (a @ b) = try_result (read_hex n num a) (\<lambda>(m, r). Inr (m, r @ b))"
  by (induction n num a rule: read_hex.induct) (auto simp: Let_def)

lemma read_hex_take: "read_hex 4 0 x =
    try_result (read_hex 4 0 (take 4 x)) (\<lambda>(m, _). Inr (m, drop 4 x))" if "4 \<le> length x"
proof -
  have "read_hex 4 0 (take 4 x @ drop 4 x) = try_result (read_hex 4 0 (take 4 x)) (\<lambda>(m, r). Inr (m, r @ drop 4 x))"
    using that by (intro read_hex_append) simp
  then show ?thesis
    using that read_hex_length [of 4 0 "take 4 x"]
    by (cases "read_hex 4 0 (take 4 x)") auto
qed

lemma read_unicode_escape_eq:
  "read_unicode_escape x = (if length x < 4 then Inl (Err 0 ([92] @ str ''u has less than 4 symbols'')) else
     try_result (read_hex 4 0 (take 4 x)) (\<lambda>(num, _).
       if is_surrogate num then
         try_result (second_half (drop 4 x)) (\<lambda>other. case other of
           None \<Rightarrow> Inr (of_nat num, drop 4 x)
         | Some new_num \<Rightarrow>
             Inr ((push_bit 10 (of_nat num AND 0x3FF) OR (of_nat new_num AND 0x3FF)) + 0x10000, drop 10 x))
       else Inr (of_nat num, drop 4 x)))"
proof (cases "length x < 4")
  case False
  show ?thesis
  proof (cases "read_hex 4 0 (take 4 x)")
    case (Inl e)
    then have "read_hex 4 0 x = Inl e" using False by (subst read_hex_take) simp_all
    then show ?thesis using False Inl by (simp add: read_unicode_escape_def)
  next
    case (Inr y)
    obtain num r where y: "y = (num, r)" by (cases y)
    have hex: "read_hex 4 0 x = Inr (num, drop 4 x)" using False Inr y by (subst read_hex_take) simp_all
    show ?thesis
    proof (cases "is_surrogate num \<and> 6 \<le> length (drop 4 x) \<and> drop 4 x ! 0 = 92 \<and> drop 4 x ! 1 = ch (CHR ''u'')")
      case True
      then have "4 \<le> length (drop 2 (drop 4 x))" unfolding length_drop by linarith
      note hex2 = read_hex_take [OF this]
      show ?thesis
      proof (cases "read_hex 4 0 (take 4 (drop 2 (drop 4 x)))")
        case (Inl e)
        then show ?thesis using False hex Inr y hex2 True
          by (simp add: read_unicode_escape_def second_half_def)
      next
        case (Inr z)
        then show ?thesis using False hex \<open>read_hex 4 0 (take 4 x) = Inr y\<close> y hex2 True
          by (cases z) (simp add: read_unicode_escape_def second_half_def)
      qed
    next
      case nothalf: False
      then show ?thesis using False hex Inr y
        by (auto simp: read_unicode_escape_def second_half_def)
    qed
  qed
qed (simp add: read_unicode_escape_def)

lemma second_half_append:
  assumes "6 \<le> length x" shows "second_half (x @ r) = second_half x"
proof -
  have "(x @ r) ! 0 = x ! 0" "(x @ r) ! 1 = x ! 1" "take 4 (drop 2 (x @ r)) = take 4 (drop 2 x)"
    using assms by (simp_all only: nth_append take_append drop_append) auto
  then show ?thesis using assms by (simp only: second_half_def length_append) simp
qed

lemma second_half_short: "length x < 6 \<Longrightarrow> second_half x = Inr None"
  by (simp add: second_half_def)

lemma read_unicode_escape_cases:
  assumes "read_unicode_escape x = Inr (num, y)"
  obtains (one) n r where "read_hex 4 0 (take 4 x) = Inr (n, r)" "4 \<le> length x" "y = drop 4 x" "num = of_nat n"
      "is_surrogate n \<Longrightarrow> second_half (drop 4 x) = Inr None"
  | (two) n r m where "read_hex 4 0 (take 4 x) = Inr (n, r)" "10 \<le> length x" "y = drop 10 x" "is_surrogate n"
      "second_half (drop 4 x) = Inr (Some m)"
      "num = (push_bit 10 (of_nat n AND 0x3FF) OR (of_nat m AND 0x3FF)) + 0x10000"
proof -
  have len: "4 \<le> length x" using assms by (cases "length x < 4") (simp_all add: read_unicode_escape_def)
  obtain n r where n: "read_hex 4 0 (take 4 x) = Inr (n, r)"
    using assms len by (cases "read_hex 4 0 (take 4 x)") (auto simp: read_unicode_escape_eq)
  show thesis
  proof (cases "is_surrogate n")
    case False
    then show thesis using assms len n by (intro one [OF n]) (simp_all add: read_unicode_escape_eq)
  next
    case True
    show thesis
    proof (cases "second_half (drop 4 x)")
      case (Inl e)
      then show thesis using assms len n True by (simp add: read_unicode_escape_eq)
    next
      case (Inr z)
      show thesis
      proof (cases z)
        case None
        then show thesis using assms len n True Inr by (intro one [OF n]) (simp_all add: read_unicode_escape_eq)
      next
        case (Some m)
        then have "10 \<le> length x" using Inr second_half_short [of "drop 4 x"] by (cases "10 \<le> length x") auto
        then show thesis using assms len n True Inr Some
          by (intro two [OF n]) (auto simp: read_unicode_escape_eq)
      qed
    qed
  qed
qed

text \<open>The escape reads the same when what follows it changes, as long as that does not make a second half.\<close>

lemma read_unicode_escape_tail:
  assumes "read_unicode_escape (u @ x) = Inr (num, x)" "second_half x = Inr None \<Longrightarrow> second_half y = Inr None"
  shows "read_unicode_escape (u @ y) = Inr (num, y)"
  using assms(1)
proof (cases rule: read_unicode_escape_cases)
  case (one n r)
  have "length x = length u + length x - 4" "4 \<le> length u + length x"
    using arg_cong [OF one(3), of length] one(2) by simp_all
  then have u: "length u = 4" by simp
  then show ?thesis using one assms(2) by (simp add: read_unicode_escape_eq)
next
  case (two n r m)
  have "length x = length u + length x - 10" "10 \<le> length u + length x"
    using arg_cong [OF two(3), of length] two(2) by simp_all
  then have u: "length u = 10" by simp
  then have "second_half (drop 4 u) = Inr (Some m)" using two(5) second_half_append [of "drop 4 u" x] by simp
  then have "second_half (drop 4 (u @ y)) = Inr (Some m)" using u second_half_append [of "drop 4 u" y] by simp
  then show ?thesis using two u by (simp add: read_unicode_escape_eq)
qed

lemma read_unicode_escape_split:
  assumes "read_unicode_escape x = Inr (num, r)"
  obtains u where "x = u @ r" "length u = 4 \<or> length u = 10"
proof -
  show thesis
    using assms
  proof (cases rule: read_unicode_escape_cases)
    case one
    then show thesis using that [of "take 4 x"] by simp
  next
    case two
    then show thesis using that [of "take 10 x"] by simp
  qed
qed

text \<open>A text the loop accepts is not the cut beginning of a second half.\<close>

lemma json_string_loop_half:
  assumes "json_string_loop dest x = Inr (s, r)" "second_half x = Inr None"
  shows "second_half (x @ y) = Inr None"
proof (cases "6 \<le> length x")
  case False
  have "\<not> (x ! 0 = 92 \<and> x ! 1 = ch (CHR ''u'')) \<and> length x = 1 \<longrightarrow> x ! 0 = 34"
    using assms(1) by (cases x) (auto simp: json_string_loop.simps closing_not_found_def split: if_splits)
  moreover have "x \<noteq> []" using assms(1) by (auto simp: closing_not_found_def)
  moreover have False if x: "length x \<noteq> 1" "x ! 0 = 92" "x ! 1 = ch (CHR ''u'')"
  proof -
    obtain z where z: "x = 92 # ch (CHR ''u'') # z"
      using x \<open>x \<noteq> []\<close> by (cases x; cases "tl x") auto
    then have "\<exists>q. read_unicode_escape z = Inr q"
      using assms(1) by (auto simp: json_string_loop.simps(2) split: sum.splits)
    then show False using z False by (auto simp: read_unicode_escape_def split: if_splits)
  qed
  moreover have False if "length x = 1" "x ! 0 = 92"
    using that assms(1) by (cases x) (auto simp: json_string_loop.simps closing_not_found_def)
  ultimately show ?thesis
    by (cases x; cases "tl x") (auto simp: second_half_def)
qed (use assms(2) in \<open>simp add: second_half_append\<close>)

lemma json_string_loop_extend:
  "json_string_loop dest x = Inr (s, r) \<Longrightarrow> json_string_loop dest (x @ y) = Inr (s, r @ y)"
proof (induction dest x rule: json_string_loop.induct)
  case (2 dest c src)
  show ?case
  proof (cases "c = 92")
    case False
    then show ?thesis using 2(3,4) by (cases "c = 34") (auto simp: json_string_loop.simps(2))
  next
    case True
    obtain e z where src: "src = e # z"
      using 2(4) True by (cases src) (auto simp: json_string_loop.simps(2) closing_not_found_def)
    show ?thesis
    proof (cases "e = ch (CHR ''u'')")
      case False
      then show ?thesis using 2(2) 2(4) True src by (auto simp: json_string_loop.simps(2))
    next
      case u: True
      obtain num w where esc: "read_unicode_escape z = Inr (num, w)"
        and rec: "json_string_loop (dest @ append_utf8_character num) w = Inr (s, r)"
        using 2(4) True src u by (auto simp: json_string_loop.simps(2) split: sum.splits)
      obtain v where v: "z = v @ w" using read_unicode_escape_split [OF esc] by blast
      have "second_half (w @ y) = Inr None" if "second_half w = Inr None"
        using json_string_loop_half [OF rec that] .
      then have "read_unicode_escape (v @ (w @ y)) = Inr (num, w @ y)"
        using read_unicode_escape_tail [of v w num] esc v by blast
      moreover have "json_string_loop (dest @ append_utf8_character num) (w @ y) = Inr (s, r @ y)"
        using 2(1) [of e z "(num, w)" num w] esc rec True src u by simp
      ultimately show ?thesis using True src u v by (simp add: json_string_loop.simps(2))
    qed
  qed
qed (simp add: closing_not_found_def)

lemma json_string_loop_cut:
  "json_string_loop dest x = Inr (s, r) \<Longrightarrow> \<exists>t. x = t @ r \<and> json_string_loop dest t = Inr (s, [])"
proof (induction dest x rule: json_string_loop.induct)
  case (2 dest c src)
  show ?case
  proof (cases "c = 92")
    case False
    show ?thesis
    proof (cases "c = 34")
      case True
      then show ?thesis using 2(4) by (intro exI [of _ "[c]"]) (simp add: json_string_loop.simps(2))
    next
      case no: False
      then obtain t where "src = t @ r" "json_string_loop (dest @ [c]) t = Inr (s, [])"
        using 2(3,4) False by (auto simp: json_string_loop.simps(2))
      then show ?thesis using False no by (intro exI [of _ "c # t"]) (simp add: json_string_loop.simps(2))
    qed
  next
    case True
    obtain e z where src: "src = e # z"
      using 2(4) True by (cases src) (auto simp: json_string_loop.simps(2) closing_not_found_def)
    show ?thesis
    proof (cases "e = ch (CHR ''u'')")
      case False
      then obtain t where "z = t @ r" "json_string_loop (dest @ [unescape e]) t = Inr (s, [])"
        using 2(2) 2(4) True src by (auto simp: json_string_loop.simps(2))
      then show ?thesis using False True src
        by (intro exI [of _ "c # e # t"]) (simp add: json_string_loop.simps(2))
    next
      case u: True
      obtain num w where esc: "read_unicode_escape z = Inr (num, w)"
        and rec: "json_string_loop (dest @ append_utf8_character num) w = Inr (s, r)"
        using 2(4) True src u by (auto simp: json_string_loop.simps(2) split: sum.splits)
      obtain v where v: "z = v @ w" using read_unicode_escape_split [OF esc] by blast
      obtain t where t: "w = t @ r" "json_string_loop (dest @ append_utf8_character num) t = Inr (s, [])"
        using 2(1) [of e z "(num, w)" num w] esc rec True src u by auto
      have "second_half t = Inr None" if "second_half w = Inr None"
        using that second_half_append [of t r] second_half_short [of t] t(1) by (cases "6 \<le> length t") simp_all
      then have "read_unicode_escape (v @ t) = Inr (num, t)"
        using read_unicode_escape_tail [of v w num] esc v by blast
      then show ?thesis using True src u v t
        by (intro exI [of _ "c # e # v @ t"]) (simp add: json_string_loop.simps(2))
    qed
  qed
qed (simp add: closing_not_found_def)

lemma json_string_decode_text:
  "json_string_decode p = Inr (s, q) \<longleftrightarrow> (\<exists>t r. string_text s t \<and> p_rest p = t @ r \<and> q = p\<lparr>p_rest := r\<rparr>)"
proof
  assume d: "json_string_decode p = Inr (s, q)"
  then obtain x where x: "p_rest p = 34 # x"
    by (cases "try_skip 34 p") (auto simp: json_string_decode_def opening_expected_def try_skip_Some)
  then obtain r where r: "json_string_loop [] x = Inr (s, r)" "q = p\<lparr>p_rest := r\<rparr>"
    using d by (auto simp: json_string_decode_def try_skip_def)
  obtain t where "x = t @ r" "json_string_loop [] t = Inr (s, [])" using json_string_loop_cut [OF r(1)] by blast
  then show "\<exists>t r. string_text s t \<and> p_rest p = t @ r \<and> q = p\<lparr>p_rest := r\<rparr>"
    using x r(2) by (intro exI [of _ "34 # t"] exI [of _ r]) (simp add: string_text_def)
next
  assume "\<exists>t r. string_text s t \<and> p_rest p = t @ r \<and> q = p\<lparr>p_rest := r\<rparr>"
  then obtain t r where t: "string_text s t" "p_rest p = t @ r" "q = p\<lparr>p_rest := r\<rparr>" by blast
  then show "json_string_decode p = Inr (s, q)"
    using json_string_loop_extend [of "[]" "tl t" s "[]" r]
    by (cases t) (simp_all add: string_text_def json_string_decode_def try_skip_def)
qed

subsection \<open>The grammar\<close>

definition ws :: "bytes \<Rightarrow> bool" where
  "ws w \<longleftrightarrow> set w \<subseteq> set whitespaces"

definition number_text :: "bytes \<Rightarrow> bool" where
  "number_text n \<longleftrightarrow> n \<noteq> [] \<and> number_start (hd n) \<and> list_all number_char n"

inductive json_text :: "nat \<Rightarrow> json_value \<Rightarrow> bytes \<Rightarrow> bool"
  and json_elements :: "nat \<Rightarrow> json_value list \<Rightarrow> bytes \<Rightarrow> bool"
  and json_members :: "nat \<Rightarrow> (bytes \<times> json_value) list \<Rightarrow> bytes \<Rightarrow> bool"
where
  t_null: "json_text d JNull (str ''null'')"
| t_true: "json_text d (JBoolean True) (str ''true'')"
| t_false: "json_text d (JBoolean False) (str ''false'')"
| t_number: "number_text n \<Longrightarrow> json_text d (JNumber n) n"
| t_string: "string_text s t \<Longrightarrow> json_text d (JString s) t"
| t_array0: "ws w \<Longrightarrow> json_text d (JArray []) ([91] @ w @ [93])"
| t_array: "ws w \<Longrightarrow> json_elements d vs t \<Longrightarrow> json_text (Suc d) (JArray vs) ([91] @ w @ t @ [93])"
| t_object0: "ws w \<Longrightarrow> json_text d (JObject []) ([123] @ w @ [125])"
| t_object: "ws w \<Longrightarrow> json_members d fs t \<Longrightarrow> json_text (Suc d) (JObject fs) ([123] @ w @ t @ [125])"
| e_one: "json_text d v t \<Longrightarrow> ws w \<Longrightarrow> json_elements d [v] (t @ w)"
| e_more: "json_text d v t \<Longrightarrow> ws w \<Longrightarrow> ws w' \<Longrightarrow> json_elements d vs t' \<Longrightarrow>
    json_elements d (v # vs) (t @ w @ [44] @ w' @ t')"
| m_one: "string_text f ft \<Longrightarrow> ws w \<Longrightarrow> ws w' \<Longrightarrow> json_text d v t \<Longrightarrow> ws w'' \<Longrightarrow>
    json_members d [(f, v)] (ft @ w @ [58] @ w' @ t @ w'')"
| m_more: "string_text f ft \<Longrightarrow> ws w \<Longrightarrow> ws w' \<Longrightarrow> json_text d v t \<Longrightarrow> ws w'' \<Longrightarrow> ws w3 \<Longrightarrow>
    json_members d fs t' \<Longrightarrow> json_members d ((f, v) # fs) (ft @ w @ [58] @ w' @ t @ w'' @ [44] @ w3 @ t')"

text \<open>No text begins with a blank or a closing bracket.\<close>

definition opens :: "bytes \<Rightarrow> bool" where
  "opens t \<longleftrightarrow> t \<noteq> [] \<and> hd t \<notin> set whitespaces \<and> hd t \<noteq> 93 \<and> hd t \<noteq> 125 \<and> hd t \<noteq> 0"

lemma opens_append [simp]: "opens t \<Longrightarrow> opens (t @ r)"
  by (auto simp: opens_def)

lemma string_text_opens: "string_text s t \<Longrightarrow> opens t"
  by (auto simp: string_text_def opens_def whitespaces_def)

lemma number_text_opens: "number_text n \<Longrightarrow> opens n"
  by (auto simp: number_text_def opens_def whitespaces_def number_start_def is_digit_def)

lemma grammar_opens:
  "json_text d v t \<Longrightarrow> opens t" "json_elements d vs t \<Longrightarrow> opens t" "json_members d fs t \<Longrightarrow> opens t"
  by (induction rule: json_text_json_elements_json_members.inducts)
    (simp_all add: string_text_opens number_text_opens, simp_all add: opens_def whitespaces_def)

subsection \<open>Completeness\<close>

text \<open>What may follow a text: a number ends where no character of a number follows.\<close>

definition stops :: "bytes \<Rightarrow> bool" where
  "stops r \<longleftrightarrow> r = [] \<or> \<not> number_char (hd r)"

lemma ws_dropWhile: "ws w \<Longrightarrow> opens t \<Longrightarrow> dropWhile (\<lambda>c. c \<in> set whitespaces) (w @ t) = t"
  by (cases t) (auto simp: ws_def opens_def dropWhile_append)

lemma ws_close: "ws w \<Longrightarrow> c \<notin> set whitespaces \<Longrightarrow> dropWhile (\<lambda>c. c \<in> set whitespaces) (w @ c # r) = c # r"
  by (auto simp: ws_def dropWhile_append)

lemma not_blank [simp]: "93 \<notin> set whitespaces" "125 \<notin> set whitespaces" "44 \<notin> set whitespaces"
    "58 \<notin> set whitespaces"
  by (simp_all add: whitespaces_def)

lemma not_number [simp]: "\<not> number_char 93" "\<not> number_char 125" "\<not> number_char 44"
  by (simp_all add: number_char_def is_digit_def)

lemma blank_not_number: "c \<in> set whitespaces \<Longrightarrow> \<not> number_char c"
  by (auto simp: whitespaces_def number_char_def is_digit_def)

lemma ws_stops: "ws w \<Longrightarrow> r = [] \<or> \<not> number_char (hd r) \<Longrightarrow> stops (w @ r)"
  by (cases w) (auto simp: ws_def stops_def blank_not_number)

lemma open_text:
  assumes "p_rest p = c # w @ t @ r" "is_ok (p_status p)" "ws w" "opens t" "hd t \<noteq> d"
  shows "json_open c d p = More (p\<lparr>p_rest := t @ r\<rparr>)"
proof -
  have "dropWhile (\<lambda>c. c \<in> set whitespaces) (w @ t @ r) = t @ r" "t @ r \<noteq> []" "hd (t @ r) \<noteq> d"
    using assms by (auto intro: ws_dropWhile simp: opens_def)
  then show ?thesis using assms(1,2)
    by (simp add: json_open_def skip_def skip_whitespaces_eq try_skip_def Let_def)
qed

lemma open_closed:
  assumes "p_rest p = c # w @ d # r" "is_ok (p_status p)" "ws w" "d \<notin> set whitespaces"
  shows "json_open c d p = Closed (p\<lparr>p_rest := r\<rparr>)"
  using assms ws_close [OF assms(3,4), of r]
  by (simp add: json_open_def skip_def skip_whitespaces_eq try_skip_def Let_def)

lemma continue_closed:
  assumes "p_rest p = w @ d # r" "ws w" "d \<notin> set whitespaces"
  shows "json_continue d e f p = Closed (p\<lparr>p_rest := r\<rparr>)"
  using assms ws_close [OF assms(2,3), of r]
  by (simp add: json_continue_def skip_whitespaces_eq try_skip_def Let_def)

lemma continue_more:
  assumes "p_rest p = w @ 44 # w' @ t @ r" "ws w" "ws w'" "opens t" "d \<noteq> 44"
  shows "json_continue d e f p = More (p\<lparr>p_rest := t @ r\<rparr>)"
  using assms ws_close [OF assms(2), of 44 "w' @ t @ r"] ws_dropWhile [OF assms(3), of "t @ r"]
  by (simp add: json_continue_def skip_whitespaces_eq try_skip_def Let_def)

lemma colon_text:
  assumes "p_rest p = w @ 58 # r" "ws w"
  shows "json_colon p = Inr (p\<lparr>p_rest := r\<rparr>)"
  using assms ws_close [OF assms(2), of 58 r]
  by (simp add: json_colon_def skip_whitespaces_eq try_skip_def)

lemma scalar_number:
  assumes "number_text n" "p_rest p = n @ r" "stops r"
  shows "json_scalar (peek_char p) p = Inr (JNumber n, p\<lparr>p_rest := r\<rparr>)"
proof -
  obtain c n' where n: "n = c # n'" using assms(1) by (cases n) (auto simp: number_text_def)
  have c: "peek_char p = c" "number_start c" "\<forall>x\<in>set n. number_char x"
    using assms n by (auto simp: peek_char_def number_text_def list_all_iff)
  have "takeWhile number_char (n @ r) = n" "dropWhile number_char (n @ r) = r"
    using c(3) assms(3) by (cases r; auto simp: stops_def takeWhile_append dropWhile_append)+
  moreover have "c \<noteq> ch (CHR ''f'') \<and> c \<noteq> ch (CHR ''t'') \<and> c \<noteq> ch (CHR ''n'') \<and> c \<noteq> 34"
    using c(2) by (auto simp: number_start_def is_digit_def)
  ultimately show ?thesis using assms(2) c by (simp add: json_scalar_def read_while_eq)
qed

lemma scalar_string:
  assumes "string_text s t" "p_rest p = t @ r"
  shows "json_scalar (peek_char p) p = Inr (JString s, p\<lparr>p_rest := r\<rparr>)"
proof -
  have "peek_char p = 34" using assms by (cases t) (auto simp: string_text_def peek_char_def)
  moreover have "json_string_decode p = Inr (s, p\<lparr>p_rest := r\<rparr>)" using assms json_string_decode_text by blast
  ultimately show ?thesis by (simp add: json_scalar_def)
qed

lemma scalar_token:
  assumes "p_rest p = t @ r"
  shows "t = str ''null'' \<Longrightarrow> json_scalar (peek_char p) p = Inr (JNull, p\<lparr>p_rest := r\<rparr>)"
    "t = str ''true'' \<Longrightarrow> json_scalar (peek_char p) p = Inr (JBoolean True, p\<lparr>p_rest := r\<rparr>)"
    "t = str ''false'' \<Longrightarrow> json_scalar (peek_char p) p = Inr (JBoolean False, p\<lparr>p_rest := r\<rparr>)"
proof -
  have s: "try_skip_prefix t p = Some (p\<lparr>p_rest := r\<rparr>)" using assms try_skip_prefix_Some by blast
  show "json_scalar (peek_char p) p = Inr (JNull, p\<lparr>p_rest := r\<rparr>)" if t: "t = str ''null''"
    using s assms unfolding t by (simp add: json_scalar_def peek_char_def read_token_def)
  show "json_scalar (peek_char p) p = Inr (JBoolean True, p\<lparr>p_rest := r\<rparr>)" if t: "t = str ''true''"
    using s assms unfolding t by (simp add: json_scalar_def peek_char_def read_token_def)
  show "json_scalar (peek_char p) p = Inr (JBoolean False, p\<lparr>p_rest := r\<rparr>)" if t: "t = str ''false''"
    using s assms unfolding t by (simp add: json_scalar_def peek_char_def read_token_def)
qed

text \<open>What it means that the reader, or one of its loops, reads a text.\<close>

definition value_read :: "nat \<Rightarrow> json_value \<Rightarrow> bytes \<Rightarrow> bool" where
  "value_read d v t \<longleftrightarrow> (\<forall>md fuel (p :: parser) w r. int d \<le> md \<longrightarrow> is_ok (p_status p) \<longrightarrow> p_rest p = w @ t @ r \<longrightarrow> ws w \<longrightarrow>
     stops r \<longrightarrow> 2 * length (p_rest p) + 1 \<le> fuel \<longrightarrow> do_json_decode fuel md p = Some (Inr (v, p\<lparr>p_rest := r\<rparr>)))"

definition elements_read :: "nat \<Rightarrow> json_value list \<Rightarrow> bytes \<Rightarrow> bool" where
  "elements_read d vs t \<longleftrightarrow> (\<forall>md fuel res (p :: parser) r. int d < md \<longrightarrow> is_ok (p_status p) \<longrightarrow> p_rest p = t @ 93 # r \<longrightarrow>
     2 * length (p_rest p) + 2 \<le> fuel \<longrightarrow>
     json_array_loop fuel md res p = Some (Inr (JArray (res @ vs), p\<lparr>p_rest := r\<rparr>)))"

definition members_read :: "nat \<Rightarrow> (bytes \<times> json_value) list \<Rightarrow> bytes \<Rightarrow> bool" where
  "members_read d fs t \<longleftrightarrow> (\<forall>md fuel res (p :: parser) r. int d < md \<longrightarrow> is_ok (p_status p) \<longrightarrow> p_rest p = t @ 125 # r \<longrightarrow>
     2 * length (p_rest p) + 2 \<le> fuel \<longrightarrow>
     json_object_loop fuel md res p = Some (Inr (JObject (res @ fs), p\<lparr>p_rest := r\<rparr>)))"

lemma value_readD:
  "value_read d v t \<Longrightarrow> int d \<le> md \<Longrightarrow> is_ok (p_status p) \<Longrightarrow> p_rest p = w @ t @ r \<Longrightarrow> ws w \<Longrightarrow> stops r \<Longrightarrow>
    2 * length (p_rest p) + 1 \<le> fuel \<Longrightarrow> do_json_decode fuel md p = Some (Inr (v, p\<lparr>p_rest := r\<rparr>))"
  unfolding value_read_def by blast

lemma value_read_scalar:
  assumes "opens t" "hd t \<noteq> 91" "hd t \<noteq> 123"
    and scalar: "\<And>(p :: parser) r. p_rest p = t @ r \<Longrightarrow> stops r \<Longrightarrow> json_scalar (peek_char p) p = Inr (v, p\<lparr>p_rest := r\<rparr>)"
  shows "value_read d v t"
  unfolding value_read_def
proof (intro allI impI)
  fix md fuel w r and p :: parser
  assume h: "int d \<le> md" "p_rest p = w @ t @ r" "ws w" "stops r" "2 * length (p_rest p) + 1 \<le> fuel"
  obtain f where f: "fuel = Suc f" using h(5) by (cases fuel) auto
  have md: "\<not> md < 0" using h(1) by linarith
  have q: "skip_whitespaces p = p\<lparr>p_rest := t @ r\<rparr>"
    using ws_dropWhile [OF h(3), of "t @ r"] assms(1) h(2) by (simp add: skip_whitespaces_eq)
  have "peek_char (p\<lparr>p_rest := t @ r\<rparr>) = hd t" using assms(1) by (cases t) (auto simp: opens_def peek_char_def)
  then show "do_json_decode fuel md p = Some (Inr (v, p\<lparr>p_rest := r\<rparr>))"
    using scalar [of "p\<lparr>p_rest := t @ r\<rparr>" r] h(4) assms(2,3) md
    by (simp add: f do_json_decode.simps(2) Let_def q)
qed

text \<open>Brackets, for both kinds.\<close>

lemma value_read_closed:
  assumes "ws w'" "c = 91 \<and> d = 93 \<and> v = JArray [] \<or> c = 123 \<and> d = 125 \<and> v = JObject []"
  shows "value_read n v ([c] @ w' @ [d])"
  unfolding value_read_def
proof (intro allI impI)
  fix md fuel w r and p :: parser
  assume h: "int n \<le> md" "is_ok (p_status p)" "p_rest p = w @ ([c] @ w' @ [d]) @ r" "ws w" "stops r"
    "2 * length (p_rest p) + 1 \<le> fuel"
  obtain f where f: "fuel = Suc f" using h(6) by (cases fuel) auto
  have md: "\<not> md < 0" using h(1) by linarith
  have c: "opens (c # w' @ d # r)" "d \<notin> set whitespaces" using assms(2) by (auto simp: opens_def whitespaces_def)
  define q where "q = p\<lparr>p_rest := c # w' @ d # r\<rparr>"
  have q: "skip_whitespaces p = q"
    using ws_dropWhile [OF h(4) c(1)] h(3) by (simp add: skip_whitespaces_eq q_def)
  have op: "json_open c d q = Closed (p\<lparr>p_rest := r\<rparr>)"
    using open_closed [of q c w' d r] h(2) assms(1) c(2) by (simp add: q_def)
  show "do_json_decode fuel md p = Some (Inr (v, p\<lparr>p_rest := r\<rparr>))"
    using op assms(2) md by (auto simp: f do_json_decode.simps(2) Let_def q q_def peek_char_def)
qed

lemma value_read_open:
  assumes "ws w'" "opens t"
    and kind: "c = 91 \<and> d = 93 \<and> v = JArray vs \<and> elements_read n vs t \<or>
      c = 123 \<and> d = 125 \<and> v = JObject fs \<and> members_read n fs t"
  shows "value_read (Suc n) v ([c] @ w' @ t @ [d])"
  unfolding value_read_def
proof (intro allI impI)
  fix md fuel w r and p :: parser
  assume h: "int (Suc n) \<le> md" "is_ok (p_status p)" "p_rest p = w @ ([c] @ w' @ t @ [d]) @ r" "ws w" "stops r"
    "2 * length (p_rest p) + 1 \<le> fuel"
  obtain f where f: "fuel = Suc f" using h(6) by (cases fuel) auto
  have md: "\<not> md < 0" "int n < md" using h(1) by linarith+
  have c: "opens (c # w' @ t @ d # r)" using kind by (auto simp: opens_def whitespaces_def)
  define q where "q = p\<lparr>p_rest := c # w' @ t @ d # r\<rparr>"
  have q: "skip_whitespaces p = q"
    using ws_dropWhile [OF h(4) c] h(3) by (simp add: skip_whitespaces_eq q_def)
  have td: "hd t \<noteq> d" using kind assms(2) by (auto simp: opens_def)
  have op: "json_open c d q = More (p\<lparr>p_rest := t @ d # r\<rparr>)"
    using open_text [of q c w' t "d # r" d] h(2) assms(1,2) td by (simp add: q_def)
  have "2 * length (t @ d # r) + 2 \<le> f" using h(3,6) f by simp
  then have loop: "c = 91 \<Longrightarrow> json_array_loop f md [] (p\<lparr>p_rest := t @ d # r\<rparr>) = Some (Inr (v, p\<lparr>p_rest := r\<rparr>))"
    "c = 123 \<Longrightarrow> json_object_loop f md [] (p\<lparr>p_rest := t @ d # r\<rparr>) = Some (Inr (v, p\<lparr>p_rest := r\<rparr>))"
    using kind md(2) h(2) by (auto simp: elements_read_def members_read_def)
  show "do_json_decode fuel md p = Some (Inr (v, p\<lparr>p_rest := r\<rparr>))"
    using op kind md(1) loop by (auto simp: f do_json_decode.simps(2) Let_def q q_def peek_char_def)
qed

text \<open>One element and what follows it.\<close>

lemma elements_read_one:
  assumes "value_read n v t" "opens t" "ws w"
  shows "elements_read n [v] (t @ w)"
  unfolding elements_read_def
proof (intro allI impI)
  fix md fuel res r and p :: parser
  assume h: "int n < md" "is_ok (p_status p)" "p_rest p = (t @ w) @ 93 # r" "2 * length (p_rest p) + 2 \<le> fuel"
  obtain f where f: "fuel = Suc f" using h(4) by (cases fuel) auto
  have "do_json_decode f (md - 1) p = Some (Inr (v, p\<lparr>p_rest := w @ 93 # r\<rparr>))"
    using h f by (intro value_readD [OF assms(1), where w = "[]"]) (auto simp: ws_stops assms(3), simp add: ws_def)
  moreover have "\<not> parser_empty p" using h(3) by (simp add: parser_empty_def)
  ultimately show "json_array_loop fuel md res p = Some (Inr (JArray (res @ [v]), p\<lparr>p_rest := r\<rparr>))"
    using assms(3) by (simp add: f json_array_loop.simps(2) continue_closed [where w = w])
qed

lemma elements_read_more:
  assumes "value_read n v t" "opens t" "ws w" "ws w'" "elements_read n vs t'" "opens t'"
  shows "elements_read n (v # vs) (t @ w @ [44] @ w' @ t')"
  unfolding elements_read_def
proof (intro allI impI)
  fix md fuel res r and p :: parser
  assume h: "int n < md" "is_ok (p_status p)" "p_rest p = (t @ w @ [44] @ w' @ t') @ 93 # r"
    "2 * length (p_rest p) + 2 \<le> fuel"
  obtain f where f: "fuel = Suc f" using h(4) by (cases fuel) auto
  have "do_json_decode f (md - 1) p = Some (Inr (v, p\<lparr>p_rest := w @ 44 # w' @ t' @ 93 # r\<rparr>))"
    using h f by (intro value_readD [OF assms(1), where w = "[]"]) (auto simp: ws_stops assms(3), simp add: ws_def)
  moreover have "\<not> parser_empty p" using h(3) assms(2) by (simp add: parser_empty_def)
  moreover have "json_array_loop f md (res @ [v]) (p\<lparr>p_rest := t' @ 93 # r\<rparr>) =
      Some (Inr (JArray (res @ v # vs), p\<lparr>p_rest := r\<rparr>))"
    using assms(5) h f unfolding elements_read_def by simp
  ultimately show "json_array_loop fuel md res p = Some (Inr (JArray (res @ v # vs), p\<lparr>p_rest := r\<rparr>))"
    using assms by (simp add: f json_array_loop.simps(2) continue_more [where w = w and w' = w' and t = t' and r = "93 # r"])
qed

text \<open>A member up to what follows it.\<close>

lemma member_read:
  assumes "string_text k ft" "ws w" "ws w'" "value_read n v t" "is_ok (p_status p)"
    "p_rest p = ft @ w @ 58 # w' @ t @ r" "stops r" "int n < md" "2 * length (p_rest p) + 2 \<le> Suc fuel"
  shows "json_object_loop (Suc fuel) md res p =
    (case json_continue 125 (msg ''Unexpected string end'')
        (msg ''Unexpected symbol while parsing JSON Object'') (p\<lparr>p_rest := r\<rparr>) of
       Closed p \<Rightarrow> Some (Inr (JObject (res @ [(k, v)]), p))
     | More p \<Rightarrow> json_object_loop fuel md (res @ [(k, v)]) p
     | Bad e \<Rightarrow> Some (Inl e))"
proof -
  have s: "json_string_decode p = Inr (k, p\<lparr>p_rest := w @ 58 # w' @ t @ r\<rparr>)"
    using json_string_decode_text assms(1,6) by blast
  have c: "json_colon (p\<lparr>p_rest := w @ 58 # w' @ t @ r\<rparr>) = Inr (p\<lparr>p_rest := w' @ t @ r\<rparr>)"
    using colon_text [of "p\<lparr>p_rest := w @ 58 # w' @ t @ r\<rparr>" w "w' @ t @ r"] assms(2) by simp
  have "do_json_decode fuel (md - 1) (p\<lparr>p_rest := w' @ t @ r\<rparr>) =
      Some (Inr (v, (p\<lparr>p_rest := w' @ t @ r\<rparr>)\<lparr>p_rest := r\<rparr>))"
    using assms by (intro value_readD [OF assms(4), where w = w']) simp_all
  moreover have "\<not> parser_empty p" using assms(6) by (auto simp: parser_empty_def)
  ultimately show ?thesis
    using s c by (simp add: json_object_loop.simps(2))
qed

lemma members_read_one:
  assumes "string_text k ft" "ws w" "ws w'" "value_read n v t" "ws w''"
  shows "members_read n [(k, v)] (ft @ w @ [58] @ w' @ t @ w'')"
  unfolding members_read_def
proof (intro allI impI)
  fix md fuel res r and p :: parser
  assume h: "int n < md" "is_ok (p_status p)" "p_rest p = (ft @ w @ [58] @ w' @ t @ w'') @ 125 # r"
    "2 * length (p_rest p) + 2 \<le> fuel"
  obtain f where f: "fuel = Suc f" using h(4) by (cases fuel) auto
  note m = member_read [OF assms(1-4) h(2), of "w'' @ 125 # r" md f res]
  show "json_object_loop fuel md res p = Some (Inr (JObject (res @ [(k, v)]), p\<lparr>p_rest := r\<rparr>))"
    unfolding f
    by (subst m) (use h f assms(5) in \<open>simp_all add: ws_stops continue_closed [where w = w'']\<close>)
qed

lemma members_read_more:
  assumes "string_text k ft" "ws w" "ws w'" "value_read n v t" "ws w''" "ws w3" "members_read n fs t'" "opens t'"
  shows "members_read n ((k, v) # fs) (ft @ w @ [58] @ w' @ t @ w'' @ [44] @ w3 @ t')"
  unfolding members_read_def
proof (intro allI impI)
  fix md fuel res r and p :: parser
  assume h: "int n < md" "is_ok (p_status p)"
    "p_rest p = (ft @ w @ [58] @ w' @ t @ w'' @ [44] @ w3 @ t') @ 125 # r" "2 * length (p_rest p) + 2 \<le> fuel"
  obtain f where f: "fuel = Suc f" using h(4) by (cases fuel) auto
  note m = member_read [OF assms(1-4) h(2), of "w'' @ 44 # w3 @ t' @ 125 # r" md f res]
  have "json_object_loop f md (res @ [(k, v)]) (p\<lparr>p_rest := t' @ 125 # r\<rparr>) =
      Some (Inr (JObject (res @ (k, v) # fs), p\<lparr>p_rest := r\<rparr>))"
    using assms(7) h f unfolding members_read_def by simp
  then show "json_object_loop fuel md res p = Some (Inr (JObject (res @ (k, v) # fs), p\<lparr>p_rest := r\<rparr>))"
    unfolding f
    by (subst m) (use h f assms(5,6,8) in
        \<open>simp_all add: ws_stops continue_more [where w = w'' and w' = w3 and t = t' and r = "125 # r"]\<close>)
qed

lemma grammar_read:
  "json_text d v t \<Longrightarrow> value_read d v t" "json_elements d vs t \<Longrightarrow> elements_read d vs t"
  "json_members d fs t \<Longrightarrow> members_read d fs t"
proof (induction rule: json_text_json_elements_json_members.inducts)
  case (t_number n d)
  then show ?case
    by (intro value_read_scalar) (auto intro: number_text_opens scalar_number
        simp: number_text_def number_start_def is_digit_def)
next
  case (t_string s t d)
  then show ?case
    by (intro value_read_scalar) (auto intro: string_text_opens scalar_string simp: string_text_def)
next
  case (t_array w d vs t)
  then show ?case using value_read_open [of w t 91 93 "JArray vs" vs d] grammar_opens(2) by blast
next
  case (t_object w d fs t)
  then show ?case using value_read_open [of w t 123 125 "JObject fs" _ d fs] grammar_opens(3) by blast
next
  case (e_more d v t w w' vs t')
  then show ?case using elements_read_more grammar_opens by blast
next
  case (m_more f ft w w' d v t w'' w3 fs t')
  then show ?case by (intro members_read_more grammar_opens(3))
qed (auto intro!: value_read_scalar value_read_closed elements_read_one members_read_one scalar_token
    simp del: append.simps intro: grammar_opens, auto simp: opens_def whitespaces_def)

subsection \<open>Soundness\<close>

text \<open>The same steps backwards: what an outcome of a step says about the input.\<close>

definition settled :: "bytes \<Rightarrow> bool" where
  "settled r \<longleftrightarrow> r = [] \<or> hd r \<notin> set whitespaces"

lemma skip_ws_split:
  obtains w r where "p_rest p = w @ r" "ws w" "settled r" "skip_whitespaces p = p\<lparr>p_rest := r\<rparr>"
proof
  let ?b = "\<lambda>c. c \<in> set whitespaces"
  show "p_rest p = takeWhile ?b (p_rest p) @ dropWhile ?b (p_rest p)" by simp
  show "ws (takeWhile ?b (p_rest p))" by (auto simp: ws_def dest: set_takeWhileD)
  show "settled (dropWhile ?b (p_rest p))"
    using hd_dropWhile [of ?b "p_rest p"] by (auto simp: settled_def)
qed (simp add: skip_whitespaces_eq)

lemma continue_cases:
  assumes "json_continue d e f p = n" "n \<noteq> Bad e'"
  shows "(\<forall>q. n = Closed q \<longrightarrow> (\<exists>w. ws w \<and> p_rest p = w @ d # p_rest q \<and> q = p\<lparr>p_rest := p_rest q\<rparr>)) \<and>
    (\<forall>q. n = More q \<longrightarrow> (\<exists>w w'. ws w \<and> ws w' \<and> p_rest p = w @ 44 # w' @ p_rest q \<and> settled (p_rest q) \<and>
      q = p\<lparr>p_rest := p_rest q\<rparr>))"
proof -
  obtain w r where w: "p_rest p = w @ r" "ws w" "skip_whitespaces p = p\<lparr>p_rest := r\<rparr>"
    by (rule skip_ws_split [of p])
  show ?thesis
  proof (cases r)
    case Nil
    then show ?thesis using assms w by (auto simp: json_continue_def Let_def try_skip_def parser_empty_def split: if_splits)
  next
    case (Cons c s)
    obtain w' r' where w': "s = w' @ r'" "ws w'" "settled r'"
      "skip_whitespaces (p\<lparr>p_rest := s\<rparr>) = p\<lparr>p_rest := r'\<rparr>"
      by (rule skip_ws_split [of "p\<lparr>p_rest := s\<rparr>"]) simp
    show ?thesis using assms w w' Cons
      by (cases "c = d"; cases "c = 44") (auto simp: json_continue_def Let_def try_skip_def parser_empty_def)
  qed
qed

lemma open_cases:
  assumes "p_rest p = c # r" "is_ok (p_status p)"
  shows "json_open c d p = Closed q \<Longrightarrow> \<exists>w. ws w \<and> r = w @ d # p_rest q \<and> q = p\<lparr>p_rest := p_rest q\<rparr>"
    and "json_open c d p = More q \<Longrightarrow> \<exists>w. ws w \<and> r = w @ p_rest q \<and> settled (p_rest q) \<and> q = p\<lparr>p_rest := p_rest q\<rparr>"
proof -
  have k: "skip c p = p\<lparr>p_rest := r\<rparr>" using assms by (simp add: skip_def)
  obtain w r' where w: "r = w @ r'" "ws w" "settled r'" "skip_whitespaces (p\<lparr>p_rest := r\<rparr>) = p\<lparr>p_rest := r'\<rparr>"
    by (rule skip_ws_split [of "p\<lparr>p_rest := r\<rparr>"]) simp
  have op: "json_open c d p = (case try_skip d (p\<lparr>p_rest := r'\<rparr>) of Some q \<Rightarrow> Closed q | None \<Rightarrow> More (p\<lparr>p_rest := r'\<rparr>))"
    unfolding json_open_def k Let_def w(4) ..
  show "\<exists>w. ws w \<and> r = w @ d # p_rest q \<and> q = p\<lparr>p_rest := p_rest q\<rparr>" if "json_open c d p = Closed q"
    using that w(1-3) by (auto simp: op try_skip_Some split: option.splits)
  show "\<exists>w. ws w \<and> r = w @ p_rest q \<and> settled (p_rest q) \<and> q = p\<lparr>p_rest := p_rest q\<rparr>" if "json_open c d p = More q"
    using that w(1-3) by (auto simp: op split: option.splits)
qed

lemma colon_cases:
  "json_colon p = Inr q \<Longrightarrow> \<exists>w. ws w \<and> p_rest p = w @ 58 # p_rest q \<and> q = p\<lparr>p_rest := p_rest q\<rparr>"
  by (rule skip_ws_split [of p]) (auto simp: json_colon_def try_skip_Some split: option.splits)

lemma scalar_cases:
  assumes "json_scalar (peek_char p) p = Inr (v, q)"
  shows "\<exists>t. json_text d v t \<and> p_rest p = t @ p_rest q \<and> q = p\<lparr>p_rest := p_rest q\<rparr>"
proof -
  have token: "\<exists>t. json_text d v t \<and> p_rest p = t @ p_rest q \<and> q = p\<lparr>p_rest := p_rest q\<rparr>"
    if "read_token s v' e p = Inr (v, q)" "json_text d v' (str s)" for s v' e
    using that by (auto simp: read_token_def try_skip_prefix_Some split: option.splits)
  have string: "\<exists>t. json_text d v t \<and> p_rest p = t @ p_rest q \<and> q = p\<lparr>p_rest := p_rest q\<rparr>"
    if "json_string_decode p = Inr (s, q)" "v = JString s" for s
    using that t_string unfolding json_string_decode_text by fastforce
  have number: "\<exists>t. json_text d v t \<and> p_rest p = t @ p_rest q \<and> q = p\<lparr>p_rest := p_rest q\<rparr>"
    if "number_start (peek_char p)" "read_while number_char p = (n, q)" "v = JNumber n" for n
  proof -
    have "peek_char p \<noteq> 0" using that(1) by (auto simp: number_start_def is_digit_def)
    then obtain c r where r: "p_rest p = c # r" by (cases "p_rest p") (auto simp: peek_char_def)
    then have c: "number_start c" "number_char c" using that(1) number_start_char by (auto simp: peek_char_def)
    have n: "n = takeWhile number_char (p_rest p)" "q = p\<lparr>p_rest := dropWhile number_char (p_rest p)\<rparr>"
      using that(2) by (simp_all add: read_while_eq)
    have "list_all number_char n" unfolding n by (auto simp: list_all_iff dest: set_takeWhileD)
    then have "number_text n" using n r c by (simp add: number_text_def)
    then show ?thesis using that(3) n t_number by (intro exI [of _ n]) simp
  qed
  note t = t_null [of d] t_true [of d] t_false [of d]
  show ?thesis
    using assms token [of "''false''" "JBoolean False"] token [of "''true''" "JBoolean True"]
      token [of "''null''" JNull] string number t
    unfolding json_scalar_def unexpected_symbol_def Let_def
    by (cases "read_while number_char p") (auto simp del: list.map split: if_splits)
qed

definition value_sound :: "parser \<Rightarrow> int \<Rightarrow> json_value \<Rightarrow> parser \<Rightarrow> bool" where
  "value_sound p md v q \<longleftrightarrow> 0 \<le> md \<and> q = p\<lparr>p_rest := p_rest q\<rparr> \<and>
     (\<exists>w t. ws w \<and> p_rest p = w @ t @ p_rest q \<and> json_text (nat md) v t)"

definition elements_sound :: "parser \<Rightarrow> int \<Rightarrow> json_value list \<Rightarrow> parser \<Rightarrow> bool" where
  "elements_sound p md vs q \<longleftrightarrow> 0 < md \<and> q = p\<lparr>p_rest := p_rest q\<rparr> \<and>
     (\<exists>t. p_rest p = t @ 93 # p_rest q \<and> json_elements (nat (md - 1)) vs t)"

definition members_sound :: "parser \<Rightarrow> int \<Rightarrow> (bytes \<times> json_value) list \<Rightarrow> parser \<Rightarrow> bool" where
  "members_sound p md fs q \<longleftrightarrow> 0 < md \<and> q = p\<lparr>p_rest := p_rest q\<rparr> \<and>
     (\<exists>t. p_rest p = t @ 125 # p_rest q \<and> json_members (nat (md - 1)) fs t)"

lemma value_sound_settled:
  assumes "value_sound p md v q" "settled (p_rest p)"
  obtains t where "p_rest p = t @ p_rest q" "json_text (nat md) v t"
proof -
  obtain w t where t: "ws w" "p_rest p = w @ t @ p_rest q" "json_text (nat md) v t"
    using assms(1) by (auto simp: value_sound_def)
  have "w = []" using t(1,2) assms(2) by (cases w) (auto simp: ws_def settled_def)
  then show thesis using that t by simp
qed

lemma value_sound_brackets:
  assumes "0 \<le> md" "p_rest p = w @ c # w' @ t @ d # p_rest q" "ws w" "ws w'" "q = p\<lparr>p_rest := p_rest q\<rparr>"
    and "c = 91 \<and> d = 93 \<and> (t = [] \<and> v = JArray [] \<or> (\<exists>vs. v = JArray vs \<and> 0 < md \<and> json_elements (nat (md - 1)) vs t)) \<or>
      c = 123 \<and> d = 125 \<and> (t = [] \<and> v = JObject [] \<or> (\<exists>fs. v = JObject fs \<and> 0 < md \<and> json_members (nat (md - 1)) fs t))"
  shows "value_sound p md v q"
proof -
  have n: "Suc (nat (md - 1)) = nat md" if "0 < md" using that by simp
  have "json_text (nat md) v ([c] @ w' @ t @ [d])"
    using assms(6) t_array0 [OF assms(4)] t_object0 [OF assms(4)] t_array [OF assms(4), of "nat (md - 1)"]
      t_object [OF assms(4), of "nat (md - 1)"] n by auto
  then show ?thesis
    unfolding value_sound_def using assms(1,2,3,5)
    by (intro conjI exI [of _ w] exI [of _ "[c] @ w' @ t @ [d]"]) simp_all
qed

lemma do_json_decode_sound_step:
  assumes read: "do_json_decode (Suc fuel) md p = Some (Inr (v, q))" "is_ok (p_status p)"
    and arrs: "\<And>p v q. is_ok (p_status p) \<Longrightarrow> settled (p_rest p) \<Longrightarrow>
      json_array_loop fuel md [] p = Some (Inr (v, q)) \<Longrightarrow> \<exists>vs. v = JArray vs \<and> elements_sound p md vs q"
    and objs: "\<And>p v q. is_ok (p_status p) \<Longrightarrow> settled (p_rest p) \<Longrightarrow>
      json_object_loop fuel md [] p = Some (Inr (v, q)) \<Longrightarrow> \<exists>fs. v = JObject fs \<and> members_sound p md fs q"
  shows "value_sound p md v q"
proof -
  have md: "0 \<le> md" using read(1) by (cases "0 \<le> md") (simp_all add: do_json_decode.simps(2))
  obtain w r where w: "p_rest p = w @ r" "ws w" "skip_whitespaces p = p\<lparr>p_rest := r\<rparr>" by (rule skip_ws_split)
  define p' where "p' = p\<lparr>p_rest := r\<rparr>"
  have p': "p_rest p' = r" "is_ok (p_status p')" using read(2) by (simp_all add: p'_def)
  have hd: "\<exists>s. r = c # s" if "peek_char p' = c" "c \<noteq> 0" for c
    using that p'(1) by (cases r) (auto simp: peek_char_def)
  have bracket: "value_sound p md v q"
    if o: "(case json_open c d p' of More x \<Rightarrow> loop x | Closed x \<Rightarrow> Some (Inr (v0, x)) | Bad e \<Rightarrow> Some (Inl e)) =
        Some (Inr (v, q))" "r = c # s"
      and c: "c = 91 \<and> d = 93 \<and> v0 = JArray [] \<and> loop = json_array_loop fuel md [] \<or>
        c = 123 \<and> d = 125 \<and> v0 = JObject [] \<and> loop = json_object_loop fuel md []" for c d s loop v0
  proof -
    have r: "p_rest p' = c # s" using p'(1) o(2) by simp
    show ?thesis
    proof (cases "json_open c d p'")
      case (Closed x)
      then have x: "v = v0" "x = q" using o(1) by simp_all
      obtain w' where w': "ws w'" "s = w' @ d # p_rest q" "q = p'\<lparr>p_rest := p_rest q\<rparr>"
        using open_cases(1) [OF r p'(2), of d] Closed x by blast
      show ?thesis
        by (rule value_sound_brackets [OF md _ w(2) w'(1), where t = "[]" and c = c and d = d])
          (use w w' o(2) c x in \<open>auto simp: p'_def\<close>)
    next
      case (More x)
      then have x: "loop x = Some (Inr (v, q))" using o(1) by simp
      obtain w' where w': "ws w'" "s = w' @ p_rest x" "settled (p_rest x)" "x = p'\<lparr>p_rest := p_rest x\<rparr>"
        using open_cases(2) [OF r p'(2), of d] More by blast
      have "is_ok (p_status x)" using w'(4) p'(2) by (metis parser.select_convs(2) parser.surjective
            parser.update_convs(1))
      note s = arrs [OF this w'(3)] objs [OF this w'(3)]
      have "\<exists>t. p_rest x = t @ d # p_rest q \<and> q = x\<lparr>p_rest := p_rest q\<rparr> \<and> (c = 91 \<and> d = 93 \<and>
          (\<exists>vs. v = JArray vs \<and> 0 < md \<and> json_elements (nat (md - 1)) vs t) \<or>
          c = 123 \<and> d = 125 \<and> (\<exists>fs. v = JObject fs \<and> 0 < md \<and> json_members (nat (md - 1)) fs t))"
        using c
      proof (elim disjE conjE)
        assume c: "c = 91" "d = 93" "loop = json_array_loop fuel md []"
        then show ?thesis using s(1) [of v q] x unfolding elements_sound_def by auto
      next
        assume c: "c = 123" "d = 125" "loop = json_object_loop fuel md []"
        then show ?thesis using s(2) [of v q] x unfolding members_sound_def by auto
      qed
      then obtain t where t: "p_rest x = t @ d # p_rest q" "q = x\<lparr>p_rest := p_rest q\<rparr>" "c = 91 \<and> d = 93 \<and>
          (\<exists>vs. v = JArray vs \<and> 0 < md \<and> json_elements (nat (md - 1)) vs t) \<or>
          c = 123 \<and> d = 125 \<and> (\<exists>fs. v = JObject fs \<and> 0 < md \<and> json_members (nat (md - 1)) fs t)" by blast
      have "q = p\<lparr>p_rest := p_rest q\<rparr>"
        using t(2) w'(4) by (metis p'_def parser.surjective parser.update_convs(1))
      then show ?thesis
        by (intro value_sound_brackets [OF md _ w(2) w'(1), where t = t and c = c and d = d])
          (use w w' o(2) t in auto)
    qed (use o(1) in simp)
  qed
  show ?thesis
  proof (cases rule: do_json_decode_cases [OF md, where p = p and fuel = fuel])
    case 1
    then obtain s where "r = 91 # s" using hd [of 91] w(3) by (auto simp: p'_def)
    then show ?thesis
      using 1(2) read(1) w(3) by (intro bracket [where c = 91 and d = 93 and loop = "json_array_loop fuel md []" and s = s]) (simp_all add: p'_def)
  next
    case 2
    then obtain s where "r = 123 # s" using hd [of 123] w(3) by (auto simp: p'_def)
    then show ?thesis
      using 2(2) read(1) w(3) by (intro bracket [where c = 123 and d = 125 and loop = "json_object_loop fuel md []" and s = s]) (simp_all add: p'_def)
  next
    case 3
    then have "json_scalar (peek_char p') p' = Inr (v, q)" using read(1) w(3) by (simp add: p'_def)
    then obtain t where "json_text (nat md) v t" "p_rest p' = t @ p_rest q" "q = p'\<lparr>p_rest := p_rest q\<rparr>"
      using scalar_cases by blast
    then show ?thesis
      unfolding value_sound_def using md w p' by (auto simp: p'_def)
  qed
qed

lemma elements_sound_step:
  assumes read: "json_array_loop (Suc fuel) md res p = Some (Inr (v, q))" "is_ok (p_status p)" "settled (p_rest p)"
    and val: "\<And>v q. do_json_decode fuel (md - 1) p = Some (Inr (v, q)) \<Longrightarrow> value_sound p (md - 1) v q"
    and loop: "\<And>p res v q. is_ok (p_status p) \<Longrightarrow> settled (p_rest p) \<Longrightarrow>
      json_array_loop fuel md res p = Some (Inr (v, q)) \<Longrightarrow> \<exists>vs. v = JArray (res @ vs) \<and> elements_sound p md vs q"
  shows "\<exists>vs. v = JArray (res @ vs) \<and> elements_sound p md vs q"
proof -
  obtain u x where u: "do_json_decode fuel (md - 1) p = Some (Inr (u, x))"
    and n: "(case json_continue 93 (msg ''Unexpected string end'')
        (msg ''Unexpected symbol while parsing JSON Array'') x of Closed p \<Rightarrow> Some (Inr (JArray (res @ [u]), p))
      | More p \<Rightarrow> json_array_loop fuel md (res @ [u]) p | Bad e \<Rightarrow> Some (Inl e)) = Some (Inr (v, q))"
    using read(1) by (auto simp: json_array_loop.simps(2) try2_Inr split: if_splits)
  have vs: "value_sound p (md - 1) u x" by (rule val [OF u])
  obtain t where t: "p_rest p = t @ p_rest x" "json_text (nat (md - 1)) u t"
    by (rule value_sound_settled [OF vs read(3)])
  have md: "0 < md" "x = p\<lparr>p_rest := p_rest x\<rparr>" using vs by (auto simp: value_sound_def)
  show ?thesis
  proof (cases "json_continue 93 (msg ''Unexpected string end'')
        (msg ''Unexpected symbol while parsing JSON Array'') x")
    case (Closed y)
    then have y: "v = JArray (res @ [u])" "y = q" using n by simp_all
    obtain w where w: "ws w" "p_rest x = w @ 93 # p_rest q" "q = x\<lparr>p_rest := p_rest q\<rparr>"
      using continue_cases [OF Closed] y(2) by auto
    have "q = p\<lparr>p_rest := p_rest q\<rparr>" using w(3) md(2) by (metis parser.surjective parser.update_convs(1))
    then have "elements_sound p md [u] q"
      unfolding elements_sound_def using md(1) t w e_one [OF t(2) w(1)]
      by (intro conjI exI [of _ "t @ w"]) simp_all
    then show ?thesis using y(1) by blast
  next
    case (More y)
    obtain w w' where w: "ws w" "ws w'" "p_rest x = w @ 44 # w' @ p_rest y" "settled (p_rest y)"
      "y = x\<lparr>p_rest := p_rest y\<rparr>"
      using continue_cases [OF More] by auto
    have y: "y = p\<lparr>p_rest := p_rest y\<rparr>" using w(5) md(2) by (metis parser.surjective parser.update_convs(1))
    then have "is_ok (p_status y)" using read(2) by (metis parser.select_convs(2) parser.surjective parser.update_convs(1))
    moreover have "json_array_loop fuel md (res @ [u]) y = Some (Inr (v, q))" using More n by simp
    ultimately obtain vs where vs: "v = JArray ((res @ [u]) @ vs)" "elements_sound y md vs q"
      using loop w(4) by blast
    obtain t' where t': "p_rest y = t' @ 93 # p_rest q" "json_elements (nat (md - 1)) vs t'"
      "q = y\<lparr>p_rest := p_rest q\<rparr>" using vs(2) by (auto simp: elements_sound_def)
    have "q = p\<lparr>p_rest := p_rest q\<rparr>" using y t'(3) by (metis parser.surjective parser.update_convs(1))
    then have "elements_sound p md (u # vs) q"
      unfolding elements_sound_def using md(1) t w t' e_more [OF t(2) w(1,2) t'(2)]
      by (intro conjI exI [of _ "t @ w @ [44] @ w' @ t'"]) simp_all
    then show ?thesis using vs(1) by simp
  qed (use n in simp)
qed

lemma members_sound_step:
  assumes read: "json_object_loop (Suc fuel) md res p = Some (Inr (v, q))" "is_ok (p_status p)"
    and val: "\<And>p v q. is_ok (p_status p) \<Longrightarrow> do_json_decode fuel (md - 1) p = Some (Inr (v, q)) \<Longrightarrow>
      value_sound p (md - 1) v q"
    and loop: "\<And>p res v q. is_ok (p_status p) \<Longrightarrow>
      json_object_loop fuel md res p = Some (Inr (v, q)) \<Longrightarrow> \<exists>fs. v = JObject (res @ fs) \<and> members_sound p md fs q"
  shows "\<exists>fs. v = JObject (res @ fs) \<and> members_sound p md fs q"
proof -
  obtain k y z u x where s: "json_string_decode p = Inr (k, y)" and c: "json_colon y = Inr z"
    and u: "do_json_decode fuel (md - 1) z = Some (Inr (u, x))"
    and n: "(case json_continue 125 (msg ''Unexpected string end'')
        (msg ''Unexpected symbol while parsing JSON Object'') x of Closed p \<Rightarrow> Some (Inr (JObject (res @ [(k, u)]), p))
      | More p \<Rightarrow> json_object_loop fuel md (res @ [(k, u)]) p | Bad e \<Rightarrow> Some (Inl e)) = Some (Inr (v, q))"
    using read(1) by (auto simp: json_object_loop.simps(2) try2_Inr split: if_splits)
  obtain ft where ft: "string_text k ft" "p_rest p = ft @ p_rest y" "y = p\<lparr>p_rest := p_rest y\<rparr>"
    using s unfolding json_string_decode_text by fastforce
  obtain w where w: "ws w" "p_rest y = w @ 58 # p_rest z" "z = y\<lparr>p_rest := p_rest z\<rparr>"
    using colon_cases [OF c] by blast
  have z: "z = p\<lparr>p_rest := p_rest z\<rparr>" using ft(3) w(3) by (metis parser.surjective parser.update_convs(1))
  then have "is_ok (p_status z)" using read(2) by (metis parser.select_convs(2) parser.surjective parser.update_convs(1))
  then have vs: "value_sound z (md - 1) u x" using val u by blast
  obtain w' t where t: "ws w'" "p_rest z = w' @ t @ p_rest x" "json_text (nat (md - 1)) u t"
    using vs by (auto simp: value_sound_def)
  have md: "0 < md" "x = z\<lparr>p_rest := p_rest x\<rparr>" using vs by (auto simp: value_sound_def)
  then have x: "x = p\<lparr>p_rest := p_rest x\<rparr>" using z by (metis parser.surjective parser.update_convs(1))
  show ?thesis
  proof (cases "json_continue 125 (msg ''Unexpected string end'')
        (msg ''Unexpected symbol while parsing JSON Object'') x")
    case (Closed y')
    then have y: "v = JObject (res @ [(k, u)])" "y' = q" using n by simp_all
    obtain w2 where w2: "ws w2" "p_rest x = w2 @ 125 # p_rest q" "q = x\<lparr>p_rest := p_rest q\<rparr>"
      using continue_cases [OF Closed] y(2) by auto
    have "q = p\<lparr>p_rest := p_rest q\<rparr>" using w2(3) x by (metis parser.surjective parser.update_convs(1))
    then have "members_sound p md [(k, u)] q"
      unfolding members_sound_def using md(1) t w ft w2 m_one [OF ft(1) w(1) t(1) t(3) w2(1)]
      by (intro conjI exI [of _ "ft @ w @ [58] @ w' @ t @ w2"]) simp_all
    then show ?thesis using y(1) by blast
  next
    case (More y')
    obtain w2 w3 where w2: "ws w2" "ws w3" "p_rest x = w2 @ 44 # w3 @ p_rest y'"
      "y' = x\<lparr>p_rest := p_rest y'\<rparr>"
      using continue_cases [OF More] by auto
    have y: "y' = p\<lparr>p_rest := p_rest y'\<rparr>" using w2(4) x by (metis parser.surjective parser.update_convs(1))
    then have "is_ok (p_status y')" using read(2) by (metis parser.select_convs(2) parser.surjective parser.update_convs(1))
    moreover have "json_object_loop fuel md (res @ [(k, u)]) y' = Some (Inr (v, q))" using More n by simp
    ultimately obtain fs where fs: "v = JObject ((res @ [(k, u)]) @ fs)" "members_sound y' md fs q"
      using loop by blast
    obtain t' where t': "p_rest y' = t' @ 125 # p_rest q" "json_members (nat (md - 1)) fs t'"
      "q = y'\<lparr>p_rest := p_rest q\<rparr>" using fs(2) by (auto simp: members_sound_def)
    have "q = p\<lparr>p_rest := p_rest q\<rparr>" using y t'(3) by (metis parser.surjective parser.update_convs(1))
    then have "members_sound p md ((k, u) # fs) q"
      unfolding members_sound_def using md(1) t w ft w2 t' m_more [OF ft(1) w(1) t(1) t(3) w2(1,2) t'(2)]
      by (intro conjI exI [of _ "ft @ w @ [58] @ w' @ t @ w2 @ [44] @ w3 @ t'"]) simp_all
    then show ?thesis using fs(1) by simp
  qed (use n in simp)
qed

lemma do_json_decode_sound:
  "is_ok (p_status p) \<Longrightarrow>
     (do_json_decode fuel md p = Some (Inr (v, q)) \<longrightarrow> value_sound p md v q) \<and>
     (json_array_loop fuel md res p = Some (Inr (v, q)) \<longrightarrow> settled (p_rest p) \<longrightarrow>
       (\<exists>vs. v = JArray (res @ vs) \<and> elements_sound p md vs q)) \<and>
     (json_object_loop fuel md fres p = Some (Inr (v, q)) \<longrightarrow>
       (\<exists>fs. v = JObject (fres @ fs) \<and> members_sound p md fs q))"
proof (induction fuel arbitrary: md res fres p v q)
  case (Suc fuel)
  note IH = Suc.IH [THEN conjunct1, THEN mp] Suc.IH [THEN conjunct2, THEN conjunct1, THEN mp, THEN mp]
    Suc.IH [THEN conjunct2, THEN conjunct2, THEN mp]
  have one: "value_sound p md v q" if "do_json_decode (Suc fuel) md p = Some (Inr (v, q))"
    by (rule do_json_decode_sound_step [OF that Suc.prems]) (use IH(2) [of _ md "[]"] IH(3) [of _ md "[]"] in auto)
  have two: "\<exists>vs. v = JArray (res @ vs) \<and> elements_sound p md vs q"
    if "json_array_loop (Suc fuel) md res p = Some (Inr (v, q))" "settled (p_rest p)"
    by (rule elements_sound_step [OF that(1) Suc.prems that(2)]) (use IH(1,2) Suc.prems in blast)+
  have three: "\<exists>fs. v = JObject (fres @ fs) \<and> members_sound p md fs q"
    if "json_object_loop (Suc fuel) md fres p = Some (Inr (v, q))"
    by (rule members_sound_step [OF that Suc.prems]) (use IH(1,3) in blast)+
  show ?case using one two three by blast
qed simp

definition document :: "json_value \<Rightarrow> bytes \<Rightarrow> bool" where
  "document v s \<longleftrightarrow> (\<exists>w t w'. s = w @ t @ w' \<and> ws w \<and> ws w' \<and> json_text 100 v t)"

lemma json_decode_document: "json_decode s = Some (Inr v) \<longleftrightarrow> document v s"
proof
  assume "json_decode s = Some (Inr v)"
  then obtain q where q: "do_json_decode (json_fuel (new_parser s)) 100 (new_parser s) = Some (Inr (v, q))"
    "parser_empty (skip_whitespaces q)"
    by (auto simp: json_decode_def Let_def try2_Inr DEFAULT_MAX_DEPTH_def split: if_splits)
  have "value_sound (new_parser s) 100 v q"
    using do_json_decode_sound [of "new_parser s"] q(1) by (simp add: new_parser_def)
  moreover have "ws (p_rest q)" using q(2) by (auto simp: parser_empty_def ws_def)
  ultimately show "document v s" by (auto simp: document_def value_sound_def new_parser_def)
next
  assume "document v s"
  then obtain w t w' where s: "s = w @ t @ w'" "ws w" "ws w'" "json_text 100 v t"
    by (auto simp: document_def)
  have "do_json_decode (json_fuel (new_parser s)) 100 (new_parser s) = Some (Inr (v, (new_parser s)\<lparr>p_rest := w'\<rparr>))"
    by (rule value_readD [OF grammar_read(1) [OF s(4)], where w = w])
      (use s ws_stops [OF s(3), of "[]"] in \<open>simp_all add: new_parser_def json_fuel_def\<close>)
  moreover have "parser_empty (skip_whitespaces ((new_parser s)\<lparr>p_rest := w'\<rparr>))"
    using s(3) by (auto simp: parser_empty_def ws_def)
  ultimately show "json_decode s = Some (Inr v)"
    by (simp add: json_decode_def Let_def DEFAULT_MAX_DEPTH_def)
qed

subsection \<open>Printing\<close>

text \<open>
  The values the printer can print: strings are valid UTF-8, which \<open>JsonString\<close> checks, numbers are texts of
  numbers, and the nesting is at most \<open>d\<close> levels.
\<close>

definition printable_string :: "bytes \<Rightarrow> bool" where
  "printable_string s \<longleftrightarrow> check_utf8 s = Some True"

fun printable :: "nat \<Rightarrow> json_value \<Rightarrow> bool" where
  "printable d JNull = True"
| "printable d (JBoolean b) = True"
| "printable d (JNumber n) = number_text n"
| "printable d (JString s) = printable_string s"
| "printable d (JArray vs) = (vs = [] \<or> (0 < d \<and> (\<forall>v \<in> set vs. printable (d - 1) v)))"
| "printable d (JObject fs) = (fs = [] \<or> (0 < d \<and> (\<forall>(f, v) \<in> set fs. printable_string f \<and> printable (d - 1) v)))"

text \<open>Printing appends a text and leaves the indentation as it was.\<close>

definition prints :: "json_builder option \<Rightarrow> json_builder \<Rightarrow> (bytes \<Rightarrow> bool) \<Rightarrow> bool" where
  "prints m jb P \<longleftrightarrow> (\<exists>t. m = Some (jb_put t jb) \<and> P t)"

lemma jb_put_put [simp]: "jb_put t (jb_put s jb) = jb_put (s @ t) jb"
  by (simp add: jb_put_def)

lemma jb_put_fields [simp]: "jb_offset (jb_put t jb) = jb_offset jb" "jb_out (jb_put t jb) = jb_out jb @ t"
  by (simp_all add: jb_put_def)

lemma jb_put_Nil [simp]: "jb_put [] jb = jb"
  by (simp add: jb_put_def)

lemma prints_bind:
  assumes "prints m jb P" "\<And>t. P t \<Longrightarrow> prints (f (jb_put t jb)) (jb_put t jb) (\<lambda>u. Q (t @ u))"
  shows "prints (m \<bind> f) jb Q"
  using assms by (fastforce simp: prints_def)

lemma ws_blanks: "ws [10]" "ws (concat (replicate n (str ''   '')))" "ws []" "ws w \<Longrightarrow> ws w' \<Longrightarrow> ws (w @ w')" "ws [32]"
  by (auto simp: ws_def whitespaces_def)

lemma print_offset_ws: obtains w where "print_offset jb = jb_put w jb" "ws w"
proof
  let ?w = "if jb_offset jb \<ge> 0 then [10] @ concat (replicate (nat (jb_offset jb)) (str ''   '')) else []"
  show "print_offset jb = jb_put ?w jb" by (simp add: print_offset_def)
  show "ws ?w" using ws_blanks by (auto simp del: append.simps)
qed

lemma next_element_prints: obtains w where "next_element first jb = jb_put (if first then 44 # w else w) jb" "ws w"
  by (rule print_offset_ws [of "if first then jb_put (str '','') jb else jb"])
    (cases first; simp add: next_element_def)

lemma put_string_prints: "printable_string s \<Longrightarrow> prints (put_string s jb) jb (string_text s)"
proof -
  assume "printable_string s"
  then obtain cs where cs: "list_all unicode_scalar cs" "s = utf8_encode_codes cs"
    by (auto simp: printable_string_def check_utf8_correct valid_utf8_def)
  obtain e where e: "json_string_loop_out s = Some e" "decodes_to e s"
    using json_string_decodes [OF cs(1)] cs(2) by blast
  have "json_string_loop [] (e @ [34]) = Inr (s, [])"
    using decodes_toD [OF e(2), of "[]" "[34]"] by (simp add: json_string_loop.simps(2))
  then show ?thesis using e(1)
    by (auto simp: prints_def put_string_def json_string_def string_text_def intro!: exI [of _ "[34] @ e @ [34]"])
qed

text \<open>What encloses the elements: the bracket and the offset before, the offset and the bracket after.\<close>

lemma scope_prints:
  assumes body: "prints (m (enter_scope [a] jb)) (enter_scope [a] jb) P" and off: "-1 \<le> jb_offset jb"
    and Q: "\<And>t w. P t \<Longrightarrow> ws w \<Longrightarrow> Q ([a] @ t @ w @ [z])"
  shows "prints (m (enter_scope [a] jb) \<bind> leave_scope [z]) jb Q"
proof -
  obtain t where t: "m (enter_scope [a] jb) = Some (jb_put t (enter_scope [a] jb))" "P t"
    using body by (auto simp: prints_def)
  have "dec_offset (jb_put t (enter_scope [a] jb)) = Some (jb_put ([a] @ t) jb)"
    using off by (cases jb) (auto simp: dec_offset_def enter_scope_def inc_offset_def jb_put_def)
  moreover obtain w where "print_offset (jb_put ([a] @ t) jb) = jb_put w (jb_put ([a] @ t) jb)" "ws w"
    by (rule print_offset_ws)
  ultimately have "m (enter_scope [a] jb) \<bind> leave_scope [z] = Some (jb_put ([a] @ t @ w @ [z]) jb)"
    using t(1) by (simp add: leave_scope_def)
  then show ?thesis using Q [OF t(2) \<open>ws w\<close>] by (auto simp: prints_def)
qed

text \<open>What the loops print: elements after a comma, or the first one after the opening bracket.\<close>

definition elements_text :: "nat \<Rightarrow> bool \<Rightarrow> json_value list \<Rightarrow> bytes \<Rightarrow> bool" where
  "elements_text d first vs t \<longleftrightarrow> (if vs = [] then t = [] else
     (\<exists>w u. ws w \<and> t = (if first then 44 # w else w) @ u \<and> (\<forall>w'. ws w' \<longrightarrow> json_elements d vs (u @ w'))))"

definition members_text :: "nat \<Rightarrow> bool \<Rightarrow> (bytes \<times> json_value) list \<Rightarrow> bytes \<Rightarrow> bool" where
  "members_text d first fs t \<longleftrightarrow> (if fs = [] then t = [] else
     (\<exists>w u. ws w \<and> t = (if first then 44 # w else w) @ u \<and> (\<forall>w'. ws w' \<longrightarrow> json_members d fs (u @ w'))))"

lemma elements_textI:
  "vs \<noteq> [] \<Longrightarrow> ws w \<Longrightarrow> (\<And>w'. ws w' \<Longrightarrow> json_elements d vs (u @ w')) \<Longrightarrow>
    elements_text d first vs ((if first then 44 # w else w) @ u)"
  by (auto simp: elements_text_def)

lemma members_textI:
  "fs \<noteq> [] \<Longrightarrow> ws w \<Longrightarrow> (\<And>w'. ws w' \<Longrightarrow> json_members d fs (u @ w')) \<Longrightarrow>
    members_text d first fs ((if first then 44 # w else w) @ u)"
  by (auto simp: members_text_def)

lemma elements_text_Cons:
  assumes "ws w" "json_text d v u" "elements_text d True vs t"
  shows "elements_text d first (v # vs) ((if first then 44 # w else w) @ u @ t)"
proof (rule elements_textI [OF _ assms(1)])
  show "json_elements d (v # vs) ((u @ t) @ w')" if "ws w'" for w'
  proof (cases "vs = []")
    case True
    then show ?thesis using assms(3) e_one [OF assms(2) that] by (simp add: elements_text_def)
  next
    case False
    then obtain w2 u2 where t: "ws w2" "t = 44 # w2 @ u2" "\<And>w'. ws w' \<Longrightarrow> json_elements d vs (u2 @ w')"
      using assms(3) by (auto simp: elements_text_def)
    show ?thesis using e_more [OF assms(2) ws_blanks(3) t(1) t(3) [OF that]] t(2) by simp
  qed
qed simp

lemma members_text_Cons:
  assumes "ws w" "string_text k ft" "ws w1" "ws w2" "json_text d v u" "members_text d True fs t"
  shows "members_text d first ((k, v) # fs) ((if first then 44 # w else w) @ (ft @ w1 @ [58] @ w2 @ u @ t))"
proof (rule members_textI [OF _ assms(1)])
  show "json_members d ((k, v) # fs) ((ft @ w1 @ [58] @ w2 @ u @ t) @ w')" if "ws w'" for w'
  proof (cases "fs = []")
    case True
    then show ?thesis using assms(6) m_one [OF assms(2-5) that] by (simp add: members_text_def)
  next
    case False
    then obtain w3 u3 where t: "ws w3" "t = 44 # w3 @ u3" "\<And>w'. ws w' \<Longrightarrow> json_members d fs (u3 @ w')"
      using assms(6) by (auto simp: members_text_def)
    show ?thesis using m_more [OF assms(2-5) ws_blanks(3) t(1) t(3) [OF that]] t(2) by simp
  qed
qed simp

lemma object_field_prints:
  assumes "printable_string k"
  obtains w ft w1 w2 where "object_field first k jb = Some (jb_put ((if first then 44 # w else w) @ ft @ w1 @ [58] @ w2) jb)"
    "ws w" "string_text k ft" "ws w1" "ws w2"
proof -
  obtain w where w: "next_element first jb = jb_put (if first then 44 # w else w) jb" "ws w"
    by (rule next_element_prints)
  obtain ft where ft: "put_string k (jb_put (if first then 44 # w else w) jb) =
      Some (jb_put ft (jb_put (if first then 44 # w else w) jb))" "string_text k ft"
    using put_string_prints [OF assms] unfolding prints_def by blast
  let ?b = "if jb_offset jb \<ge> 0 then [32] else []"
  have "ws ?b" using ws_blanks by simp
  moreover have "object_field first k jb = Some (jb_put ((if first then 44 # w else w) @ ft @ ?b @ [58] @ ?b) jb)"
    using w(1) ft(1) by (simp add: object_field_def is_pretty_def)
  ultimately show thesis using that w(2) ft(2) by blast
qed

lemma array_printed:
  assumes "elements_text d False vs t" "ws w" "vs \<noteq> []"
  shows "json_text (Suc d) (JArray vs) ([91] @ t @ w @ [93])"
  using assms t_array [of _ d vs] unfolding elements_text_def by fastforce

lemma object_printed:
  assumes "members_text d False fs t" "ws w" "fs \<noteq> []"
  shows "json_text (Suc d) (JObject fs) ([123] @ t @ w @ [125])"
  using assms t_object [of _ d fs] unfolding members_text_def by fastforce

lemma enter_scope_offset: "-1 \<le> jb_offset jb \<Longrightarrow> -1 \<le> jb_offset (enter_scope b jb)"
  by (simp add: enter_scope_def inc_offset_def)

lemma store_prints:
  "printable d v \<Longrightarrow> -1 \<le> jb_offset jb \<Longrightarrow> prints (store v jb) jb (json_text d v)"
  "(\<forall>v \<in> set vs. printable d v) \<Longrightarrow> -1 \<le> jb_offset jb \<Longrightarrow>
     prints (store_elements first vs jb) jb (elements_text d first vs)"
  "(\<forall>(f, v) \<in> set fs. printable_string f \<and> printable d v) \<Longrightarrow> -1 \<le> jb_offset jb \<Longrightarrow>
     prints (store_fields first fs jb) jb (members_text d first fs)"
proof (induction v jb and first vs jb and first fs jb arbitrary: d and d and d rule: store_store_elements_store_fields.induct)
  case (1 jb)
  then show ?case using t_null [of d] by (auto simp: prints_def)
next
  case (2 b jb)
  then show ?case using t_true [of d] t_false [of d] by (auto simp: prints_def)
next
  case (3 s jb)
  then show ?case using t_number [of s d] by (auto simp: prints_def)
next
  case (4 s jb)
  then show ?case using put_string_prints [of s jb] by (auto simp: prints_def intro: t_string)
next
  case (5 vs jb)
  show ?case
  proof (cases "vs = []")
    case True
    have "prints (store_elements False vs (enter_scope [91] jb) \<bind> leave_scope [93]) jb (json_text d (JArray vs))"
      by (rule scope_prints [where P = "\<lambda>t. t = []"])
        (use True 5 t_array0 [of _ d] in \<open>auto simp: prints_def\<close>)
    then show ?thesis by simp
  next
    case False
    then obtain e where e: "d = Suc e" "\<forall>v \<in> set vs. printable e v" using 5(2) by (cases d) auto
    have "prints (store_elements False vs (enter_scope [91] jb) \<bind> leave_scope [93]) jb (json_text d (JArray vs))"
      by (rule scope_prints [where P = "elements_text e False vs"])
        (use 5(1) [OF e(2)] 5(3) enter_scope_offset array_printed [OF _ _ False] e(1) in auto)
    then show ?thesis by simp
  qed
next
  case (6 fs jb)
  show ?case
  proof (cases "fs = []")
    case True
    have "prints (store_fields False fs (enter_scope [123] jb) \<bind> leave_scope [125]) jb (json_text d (JObject fs))"
      by (rule scope_prints [where P = "\<lambda>t. t = []"])
        (use True 6 t_object0 [of _ d] in \<open>auto simp: prints_def\<close>)
    then show ?thesis by simp
  next
    case False
    then obtain e where e: "d = Suc e" "\<forall>(f, v) \<in> set fs. printable_string f \<and> printable e v"
      using 6(2) by (cases d) auto
    have "prints (store_fields False fs (enter_scope [123] jb) \<bind> leave_scope [125]) jb (json_text d (JObject fs))"
      by (rule scope_prints [where P = "members_text e False fs"])
        (use 6(1) [OF e(2)] 6(3) enter_scope_offset object_printed [OF _ _ False] e(1) in auto)
    then show ?thesis by simp
  qed
next
  case (7 first jb)
  then show ?case by (simp add: prints_def elements_text_def)
next
  case (8 first v vs jb)
  obtain w where w: "next_element first jb = jb_put (if first then 44 # w else w) jb" "ws w"
    by (rule next_element_prints)
  have "-1 \<le> jb_offset (next_element first jb)" using 8(4) w(1) by simp
  then obtain u where u: "store v (next_element first jb) = Some (jb_put u (next_element first jb))" "json_text d v u"
    using 8(1) [of d] 8(3) by (auto simp: prints_def)
  then obtain t where t: "store_elements True vs (jb_put u (next_element first jb)) =
      Some (jb_put t (jb_put u (next_element first jb)))" "elements_text d True vs t"
    using 8(2) [of "jb_put u (next_element first jb)" d] 8(3,4) w(1) by (auto simp: prints_def)
  have "store_elements first (v # vs) jb = Some (jb_put ((if first then 44 # w else w) @ u @ t) jb)"
    using u(1) t(1) w(1) by simp
  then show ?case using elements_text_Cons [OF w(2) u(2) t(2)] unfolding prints_def by blast
next
  case (9 first jb)
  then show ?case by (simp add: prints_def members_text_def)
next
  case (10 first f v fs jb)
  have "printable_string f" using 10(3) by simp
  then obtain w ft w1 w2 where o: "object_field first f jb = Some (jb_put ((if first then 44 # w else w) @ ft @ w1 @ [58] @ w2) jb)"
    "ws w" "string_text f ft" "ws w1" "ws w2" by (rule object_field_prints)
  let ?jb = "jb_put ((if first then 44 # w else w) @ ft @ w1 @ [58] @ w2) jb"
  obtain u where u: "store v ?jb = Some (jb_put u ?jb)" "json_text d v u"
    using 10(1) [OF o(1), of d] 10(3,4) by (auto simp: prints_def)
  obtain t where t: "store_fields True fs (jb_put u ?jb) = Some (jb_put t (jb_put u ?jb))" "members_text d True fs t"
    using 10(2) [OF o(1) u(1), of d] 10(3,4) by (auto simp: prints_def)
  have "store_fields first ((f, v) # fs) jb =
      Some (jb_put ((if first then 44 # w else w) @ (ft @ w1 @ [58] @ w2 @ u @ t)) jb)"
    using o(1) u(1) t(1) by simp
  then show ?case using members_text_Cons [OF o(2-5) u(2) t(2)] unfolding prints_def by blast
qed

lemma json_encode_text:
  assumes "printable d v"
  obtains t where "json_encode pretty v = Some (t @ (if pretty then [10] else []))" "json_text d v t"
proof -
  obtain t where "store v \<lparr>jb_out = [], jb_offset = (if pretty then 0 else -1)\<rparr> =
      Some (jb_put t \<lparr>jb_out = [], jb_offset = (if pretty then 0 else -1)\<rparr>)" "json_text d v t"
    using store_prints(1) [OF assms, of "\<lparr>jb_out = [], jb_offset = (if pretty then 0 else -1)\<rparr>"]
    by (cases pretty) (auto simp: prints_def)
  then show thesis using that [of t] by (cases pretty) (simp_all add: json_encode_def)
qed

subsection \<open>Properties\<close>


text \<open>C23: What the builder prints for a value, compactly or indented, is read back as that value, with any
blanks around it; printing succeeds whenever the strings of the value are valid UTF-8, its numbers are texts
of numbers, and it is at most a hundred levels deep.\<close>
theorem json_encode_roundtrip:
  assumes "printable 100 v" "ws w" "ws w'"
  shows "\<exists>s. json_encode pretty v = Some s \<and> json_decode (w @ s @ w') = Some (Inr v)"
proof -
  obtain t where t: "json_encode pretty v = Some (t @ (if pretty then [10] else []))" "json_text 100 v t"
    by (rule json_encode_text [OF assms(1)])
  let ?b = "if pretty then [10] else []"
  have "ws (?b @ w')" using ws_blanks(4) [OF ws_blanks(1) assms(3)] assms(3) by simp
  then have "document v (w @ t @ (?b @ w'))" using assms(2) t(2) unfolding document_def by blast
  then have "json_decode (w @ (t @ ?b) @ w') = Some (Inr v)" unfolding json_decode_document by simp
  then show ?thesis using t(1) by blast
qed

theorem json_encode_roundtrip_witness:
  "\<exists>s. json_encode True (JObject [(str ''a'', JArray [JNumber (str ''-1e5''), JString [0xC3, 0xA9], JObject []])]) = Some s \<and>
     json_decode ([32] @ s @ [9]) =
       Some (Inr (JObject [(str ''a'', JArray [JNumber (str ''-1e5''), JString [0xC3, 0xA9], JObject []])]))"
proof (rule json_encode_roundtrip)
  show "printable 100 (JObject [(str ''a'', JArray [JNumber (str ''-1e5''), JString [0xC3, 0xA9], JObject []])])"
    by code_simp
  show "ws [32]" "ws [9]" by code_simp+
qed

end
