(* ===== verification/Td_JsonObject.thy ===== *)
theory Td_JsonObject
  imports Td_Json
begin

text \<open>
  The fields of a JSON object: the accessors of \<open>JsonValue\<close> (\<open>tdutils/td/utils/JsonBuilder.h\<close>) and the class
  \<open>JsonObject\<close> (\<open>tdutils/td/utils/JsonBuilder.cpp\<close>).

  An object is the list \<open>field_values_\<close>, with duplicates, in the order of the input.  A lookup finds the
  first field of a name.  Moving a value out of a field leaves the null value there.  The conversion
  \<open>to_double\<close> of the standard library's streams is an argument.
\<close>

subsection \<open>Values\<close>

type_synonym json_object = "(bytes \<times> json_value) list"

text \<open>The accessors; \<open>None\<close> is their failed \<open>CHECK\<close>.\<close>

fun get_string :: "json_value \<Rightarrow> bytes option" where
  "get_string (JString s) = Some s"
| "get_string _ = None"

fun get_boolean :: "json_value \<Rightarrow> bool option" where
  "get_boolean (JBoolean b) = Some b"
| "get_boolean _ = None"

fun get_number :: "json_value \<Rightarrow> bytes option" where
  "get_number (JNumber n) = Some n"
| "get_number _ = None"

fun get_array :: "json_value \<Rightarrow> json_value list option" where
  "get_array (JArray vs) = Some vs"
| "get_array _ = None"

fun get_object :: "json_value \<Rightarrow> json_object option" where
  "get_object (JObject fs) = Some fs"
| "get_object _ = None"

text \<open>The move constructor: the value and what is left of the source.\<close>

definition move_value :: "json_value \<Rightarrow> json_value \<times> json_value" where
  "move_value v = (v, JNull)"

subsection \<open>Objects\<close>

definition field_count :: "json_object \<Rightarrow> nat" where
  "field_count fvs = length fvs"

definition field_error :: "bytes \<Rightarrow> bytes \<Rightarrow> status_error" where
  "field_error name what = Err 400 (str ''Field '' @ [34] @ name @ [34] @ what)"

definition no_field :: "bytes \<Rightarrow> status_error" where
  "no_field name = Err 400 (str ''Can'' @ [39] @ str ''t find field '' @ [34] @ name @ [34])"

fun extract_field :: "bytes \<Rightarrow> json_object \<Rightarrow> json_value \<times> json_object" where
  "extract_field name [] = (JNull, [])"
| "extract_field name ((f, v) # fs) =
     (if f = name then let (res, left) = move_value v in (res, (f, left) # fs)
      else let (res, fs') = extract_field name fs in (res, (f, v) # fs'))"

text \<open>The two typed extractions differ in what they return when the loop finds nothing.\<close>

fun extract_typed ::
  "json_value result \<Rightarrow> bytes \<Rightarrow> json_type \<Rightarrow> json_object \<Rightarrow> json_value result \<times> json_object" where
  "extract_typed absent name type [] = (absent, [])"
| "extract_typed absent name type ((f, v) # fs) =
     (if f = name then
        (if type \<noteq> TNull \<and> json_type_of v \<noteq> type
         then (Inl (field_error name (str '' must be of type '' @ get_type_name type)), (f, v) # fs)
         else let (res, left) = move_value v in (Inr res, (f, left) # fs))
      else let (res, fs') = extract_typed absent name type fs in (res, (f, v) # fs'))"

definition extract_optional_field :: "bytes \<Rightarrow> json_type \<Rightarrow> json_object \<Rightarrow> json_value result \<times> json_object" where
  "extract_optional_field name type fvs = extract_typed (Inr JNull) name type fvs"

definition extract_required_field :: "bytes \<Rightarrow> json_type \<Rightarrow> json_object \<Rightarrow> json_value result \<times> json_object" where
  "extract_required_field name type fvs = extract_typed (Inl (no_field name)) name type fvs"

fun get_field :: "bytes \<Rightarrow> json_object \<Rightarrow> json_value option" where
  "get_field name [] = None"
| "get_field name ((f, v) # fs) = (if f = name then Some v else get_field name fs)"

definition has_field :: "bytes \<Rightarrow> json_object \<Rightarrow> bool" where
  "has_field name fvs \<longleftrightarrow> get_field name fvs \<noteq> None"

text \<open>The body the getters share: what is done with the field, and what without it.\<close>

definition with_field ::
  "bytes \<Rightarrow> json_object \<Rightarrow> (json_value \<Rightarrow> 'a result option) \<Rightarrow> 'a result \<Rightarrow> 'a result option" where
  "with_field name fvs f absent =
     (case get_field name fvs of Some v \<Rightarrow> f v | None \<Rightarrow> Some absent)"

definition bool_field :: "bytes \<Rightarrow> json_value \<Rightarrow> bool result option" where
  "bool_field name v =
     (if json_type_of v = TBoolean then map_option Inr (get_boolean v)
      else Some (Inl (field_error name (str '' must be of type Boolean''))))"

definition get_optional_bool_field :: "bytes \<Rightarrow> bool \<Rightarrow> json_object \<Rightarrow> bool result option" where
  "get_optional_bool_field name default_value fvs =
     with_field name fvs (bool_field name) (Inr default_value)"

definition get_required_bool_field :: "bytes \<Rightarrow> json_object \<Rightarrow> bool result option" where
  "get_required_bool_field name fvs = with_field name fvs (bool_field name) (Inl (no_field name))"

definition get_integer_field :: "nat \<Rightarrow> bytes \<Rightarrow> bytes \<Rightarrow> int result option" where
  "get_integer_field w name s =
     do { r_int \<leftarrow> to_integer_safe w s;
          Some (case r_int of Inr i \<Rightarrow> Inr i
                | Inl _ \<Rightarrow> Inl (field_error name (str '' must be a valid Number''))) }"

definition integer_field :: "nat \<Rightarrow> bytes \<Rightarrow> json_value \<Rightarrow> int result option" where
  "integer_field w name v =
     (if json_type_of v = TString then do { s \<leftarrow> get_string v; get_integer_field w name s }
      else if json_type_of v = TNumber then do { s \<leftarrow> get_number v; get_integer_field w name s }
      else Some (Inl (field_error name (str '' must be a Number''))))"

definition get_optional_int_field :: "bytes \<Rightarrow> int \<Rightarrow> json_object \<Rightarrow> int result option" where
  "get_optional_int_field name default_value fvs =
     with_field name fvs (integer_field 32 name) (Inr default_value)"

definition get_required_int_field :: "bytes \<Rightarrow> json_object \<Rightarrow> int result option" where
  "get_required_int_field name fvs = with_field name fvs (integer_field 32 name) (Inl (no_field name))"

definition get_optional_long_field :: "bytes \<Rightarrow> int \<Rightarrow> json_object \<Rightarrow> int result option" where
  "get_optional_long_field name default_value fvs =
     with_field name fvs (integer_field 64 name) (Inr default_value)"

definition get_required_long_field :: "bytes \<Rightarrow> json_object \<Rightarrow> int result option" where
  "get_required_long_field name fvs = with_field name fvs (integer_field 64 name) (Inl (no_field name))"

definition double_field :: "(bytes \<Rightarrow> 'd) \<Rightarrow> bytes \<Rightarrow> json_value \<Rightarrow> 'd result option" where
  "double_field to_double name v =
     (if json_type_of v = TNumber then do { n \<leftarrow> get_number v; Some (Inr (to_double n)) }
      else Some (Inl (field_error name (str '' must be of type Number''))))"

definition get_optional_double_field :: "(bytes \<Rightarrow> 'd) \<Rightarrow> bytes \<Rightarrow> 'd \<Rightarrow> json_object \<Rightarrow> 'd result option" where
  "get_optional_double_field to_double name default_value fvs =
     with_field name fvs (double_field to_double name) (Inr default_value)"

definition get_required_double_field :: "(bytes \<Rightarrow> 'd) \<Rightarrow> bytes \<Rightarrow> json_object \<Rightarrow> 'd result option" where
  "get_required_double_field to_double name fvs =
     with_field name fvs (double_field to_double name) (Inl (no_field name))"

definition string_field :: "bytes \<Rightarrow> json_value \<Rightarrow> bytes result option" where
  "string_field name v =
     (if json_type_of v = TString then map_option Inr (get_string v)
      else if json_type_of v = TNumber then map_option Inr (get_number v)
      else Some (Inl (field_error name (str '' must be of type String''))))"

definition get_optional_string_field :: "bytes \<Rightarrow> bytes \<Rightarrow> json_object \<Rightarrow> bytes result option" where
  "get_optional_string_field name default_value fvs =
     with_field name fvs (string_field name) (Inr default_value)"

definition get_required_string_field :: "bytes \<Rightarrow> json_object \<Rightarrow> bytes result option" where
  "get_required_string_field name fvs = with_field name fvs (string_field name) (Inl (no_field name))"

text \<open>\<open>foreach\<close>, for a callback that changes a state.\<close>

fun foreach :: "(bytes \<Rightarrow> json_value \<Rightarrow> 's \<Rightarrow> 's) \<Rightarrow> json_object \<Rightarrow> 's \<Rightarrow> 's" where
  "foreach callback [] s = s"
| "foreach callback ((f, v) # fs) s = foreach callback fs (callback f v s)"

subsection \<open>Getters\<close>

text \<open>
  What a getter promises, whatever the type of the field: it always returns; it succeeds exactly on a field
  whose first value is one it takes, with the value it gives that; and its errors have code 400.
\<close>

locale getter =
  fixes get :: "bytes \<Rightarrow> json_object \<Rightarrow> 'a result option" and takes :: "json_value \<Rightarrow> 'a \<Rightarrow> bool"
    and absent :: "bytes \<Rightarrow> 'a result"
  assumes found: "get_field name fvs = Some v \<Longrightarrow>
      \<exists>r. get name fvs = Some r \<and> (\<forall>x. r = Inr x \<longleftrightarrow> takes v x) \<and> (\<forall>e. r = Inl e \<longrightarrow> err_code e = 400)"
    and missing: "get_field name fvs = None \<Longrightarrow> get name fvs = Some (absent name)"
    and absent_code: "absent name = Inl e \<Longrightarrow> err_code e = 400"
begin

lemma returns: "\<exists>r. get name fvs = Some r \<and> (\<forall>e. r = Inl e \<longrightarrow> err_code e = 400)"
  using found [of name fvs] missing [of name fvs] absent_code [of name]
  by (cases "get_field name fvs") auto

lemma succeeds: "get name fvs = Some (Inr x) \<longleftrightarrow>
    (case get_field name fvs of Some v \<Rightarrow> takes v x | None \<Rightarrow> absent name = Inr x)"
  using found [of name fvs] missing [of name fvs] by (cases "get_field name fvs") auto

lemma takes_one: "takes v x \<Longrightarrow> takes v y \<Longrightarrow> x = y"
  using found [of "[]" "[([], v)]" v] by (auto simp: all_conj_distrib) (metis sum.inject(2))

end

definition takes_bool :: "json_value \<Rightarrow> bool \<Rightarrow> bool" where
  "takes_bool v b \<longleftrightarrow> v = JBoolean b"

definition takes_int :: "nat \<Rightarrow> json_value \<Rightarrow> int \<Rightarrow> bool" where
  "takes_int w v i \<longleftrightarrow> signed_min w \<le> i \<and> i \<le> signed_max w \<and>
     (\<exists>s. print_int w i = Some s \<and> (v = JString s \<or> v = JNumber s))"

definition takes_string :: "json_value \<Rightarrow> bytes \<Rightarrow> bool" where
  "takes_string v s \<longleftrightarrow> v = JString s \<or> v = JNumber s"

lemma integer_field_takes:
  "1 < w \<Longrightarrow> \<exists>r. integer_field w name v = Some r \<and> (\<forall>x. r = Inr x \<longleftrightarrow> takes_int w v x) \<and>
     (\<forall>e. r = Inl e \<longrightarrow> err_code e = 400)"
proof -
  assume w: "1 < w"
  have num: "\<exists>r. get_integer_field w name s = Some r \<and>
      (\<forall>x. r = Inr x \<longleftrightarrow> signed_min w \<le> x \<and> x \<le> signed_max w \<and> print_int w x = Some s) \<and>
      (\<forall>e. r = Inl e \<longrightarrow> err_code e = 400)" for s
  proof -
    obtain r where "to_integer_safe w s = Some r"
      "\<And>x. r = Inr x \<longleftrightarrow> signed_min w \<le> x \<and> x \<le> signed_max w \<and> print_int w x = Some s"
      using to_integer_safe_returns [OF w] by blast
    then show ?thesis by (cases r) (auto simp: get_integer_field_def field_error_def)
  qed
  show ?thesis
    by (cases v) (use num in \<open>auto simp: integer_field_def takes_int_def field_error_def\<close>)
qed

lemma no_field_code [simp]: "err_code (no_field name) = 400" "err_code (field_error name m) = 400"
  by (simp_all add: no_field_def field_error_def)

interpretation opt_bool: getter "\<lambda>n. get_optional_bool_field n d" takes_bool "\<lambda>_. Inr d"
  by unfold_locales (auto simp: get_optional_bool_field_def with_field_def bool_field_def takes_bool_def
      split: json_value.splits elim!: json_type_of.elims)

interpretation req_bool: getter get_required_bool_field takes_bool "\<lambda>n. Inl (no_field n)"
  by unfold_locales (auto simp: get_required_bool_field_def with_field_def bool_field_def takes_bool_def
      elim!: json_type_of.elims)

interpretation opt_int: getter "\<lambda>n. get_optional_int_field n d" "takes_int 32" "\<lambda>_. Inr d"
  by unfold_locales (auto simp: get_optional_int_field_def with_field_def intro: integer_field_takes)

interpretation req_int: getter get_required_int_field "takes_int 32" "\<lambda>n. Inl (no_field n)"
  by unfold_locales (auto simp: get_required_int_field_def with_field_def intro: integer_field_takes)

interpretation opt_long: getter "\<lambda>n. get_optional_long_field n d" "takes_int 64" "\<lambda>_. Inr d"
  by unfold_locales (auto simp: get_optional_long_field_def with_field_def intro: integer_field_takes)

interpretation req_long: getter get_required_long_field "takes_int 64" "\<lambda>n. Inl (no_field n)"
  by unfold_locales (auto simp: get_required_long_field_def with_field_def intro: integer_field_takes)

interpretation opt_string: getter "\<lambda>n. get_optional_string_field n d" takes_string "\<lambda>_. Inr d"
  by unfold_locales (auto simp: get_optional_string_field_def with_field_def string_field_def takes_string_def
      elim!: json_type_of.elims)

interpretation req_string: getter get_required_string_field takes_string "\<lambda>n. Inl (no_field n)"
  by unfold_locales (auto simp: get_required_string_field_def with_field_def string_field_def takes_string_def
      elim!: json_type_of.elims)

subsection \<open>Extraction\<close>

lemma extract_typed_absent: "get_field name fvs = None \<Longrightarrow> extract_typed a name type fvs = (a, fvs)"
  by (induction fvs) (auto split: if_splits)

lemma extract_typed_found:
  assumes "get_field name fvs = Some v"
  shows "extract_typed a name type fvs =
    (if type \<noteq> TNull \<and> json_type_of v \<noteq> type
     then (Inl (field_error name (str '' must be of type '' @ get_type_name type)), fvs)
     else (Inr v, snd (extract_field name fvs)))"
  using assms by (induction fvs) (auto simp: move_value_def split: if_splits prod.splits)

lemma get_field_extract:
  "get_field n (snd (extract_field name fvs)) =
     (if n = name then map_option (\<lambda>_. JNull) (get_field name fvs) else get_field n fvs)"
  by (induction fvs) (auto simp: move_value_def split: prod.splits)

lemma names_extract: "map fst (snd (extract_field name fvs)) = map fst fvs"
  by (induction fvs) (auto simp: move_value_def split: prod.splits)

subsection \<open>Properties\<close>

text \<open>The integer getters, required and optional, always return, with errors of code 400 only, and
succeed on a field exactly when the first value of that name is a string or a number spelled as the printer
spells an integer of the width: no sign, zeros, blanks, fraction or exponent is tolerated, and nothing wraps.\<close>
theorem integer_fields_exact:
  "(\<exists>r. get_required_int_field name fvs = Some r \<and> case_sum (\<lambda>e. err_code e = 400) (\<lambda>_. True) r) \<and>
   (get_required_int_field name fvs = Some (Inr i)) =
     (in_int32 i \<and> (\<exists>s. print_int 32 i = Some s \<and> get_field name fvs \<in> {Some (JString s), Some (JNumber s)})) \<and>
   (get_optional_long_field name d fvs = Some (Inr i)) =
     (if has_field name fvs
      then in_int64 i \<and> (\<exists>s. print_int 64 i = Some s \<and> get_field name fvs \<in> {Some (JString s), Some (JNumber s)})
      else i = d)"
proof -
  have "signed_min 32 = int32_min" "signed_max 32 = int32_max" "signed_min 64 = int64_min"
    "signed_max 64 = int64_max"
    by (simp_all add: signed_min_def signed_max_def int_range_defs)
  moreover have "\<exists>r. get_required_int_field name fvs = Some r \<and> case_sum (\<lambda>e. err_code e = 400) (\<lambda>_. True) r"
    using req_int.returns [of name fvs] by (auto split: sum.split)
  ultimately show ?thesis
    by (auto simp: req_int.succeeds opt_long.succeeds takes_int_def has_field_def in_int32_def in_int64_def
        split: option.splits)
qed

text \<open>C33: An extraction with a type gives a value of that type, or an error of code 400 and the object
unchanged; what it extracts is the first value of the name, it leaves the null value in its place, and no other
field changes.\<close>
theorem extract_required_field_typed:
  assumes "extract_required_field name type fvs = (r, fvs')"
  shows "map fst fvs' = map fst fvs \<and>
    (case r of
       Inl e \<Rightarrow> err_code e = 400 \<and> fvs' = fvs \<and>
         (get_field name fvs = None \<or> type \<noteq> TNull \<and> map_option json_type_of (get_field name fvs) \<noteq> Some type)
     | Inr v \<Rightarrow> get_field name fvs = Some v \<and> (type = TNull \<or> json_type_of v = type) \<and>
         get_field name fvs' = Some JNull \<and> (\<forall>n. n = name \<or> get_field n fvs' = get_field n fvs))"
proof (cases "get_field name fvs")
  case None
  then show ?thesis using assms by (auto simp: extract_required_field_def extract_typed_absent)
next
  case (Some v)
  then show ?thesis
    using assms unfolding extract_required_field_def extract_typed_found [OF Some]
    by (auto simp: get_field_extract names_extract split: if_splits)
qed

theorem extract_required_field_typed_witness:
  "json_type_of (JNumber (str ''7'')) = TNumber \<and>
   get_field (str ''a'') [(str ''a'', JNull), (str ''a'', JBoolean True)] = Some JNull"
proof -
  have "extract_required_field (str ''a'') TNumber [(str ''a'', JNumber (str ''7'')), (str ''a'', JBoolean True)] =
      (Inr (JNumber (str ''7'')), [(str ''a'', JNull), (str ''a'', JBoolean True)])"
    by code_simp
  from extract_required_field_typed [OF this] show ?thesis by simp
qed
end
