(* ===== verification/Td_OrdMap.thy ===== *)
theory Td_OrdMap
  imports Td_Prelude
begin

text \<open>
  The ordered maps of the standard library, \<open>std::map\<close>, as association lists in increasing order of their
  keys: what the sources use of them (find, emplace, assignment, erase, iteration in order), and the facts
  about them that the components share.
\<close>

subsection \<open>Operations\<close>

fun omap_put :: "'k::linorder \<Rightarrow> 'v \<Rightarrow> ('k \<times> 'v) list \<Rightarrow> ('k \<times> 'v) list" where
  "omap_put k v [] = [(k, v)]"
| "omap_put k v ((k', v') # m) =
     (if k < k' then (k, v) # (k', v') # m else if k = k' then (k, v) # m else (k', v') # omap_put k v m)"

text \<open>\<open>emplace\<close> keeps the value that is there; its flag says whether the new one was inserted.\<close>

definition omap_emplace :: "'k::linorder \<Rightarrow> 'v \<Rightarrow> ('k \<times> 'v) list \<Rightarrow> ('k \<times> 'v) list \<times> bool" where
  "omap_emplace k v m = (if map_of m k = None then (omap_put k v m, True) else (m, False))"

definition omap_del :: "'k \<Rightarrow> ('k \<times> 'v) list \<Rightarrow> ('k \<times> 'v) list" where
  "omap_del k m = filter (\<lambda>(k', _). k' \<noteq> k) m"

definition omap :: "('k::linorder \<times> 'v) list \<Rightarrow> bool" where
  "omap m \<longleftrightarrow> sorted_wrt (<) (map fst m)"

subsection \<open>Facts\<close>

lemma omap_Nil [simp]: "omap []"
  by (simp add: omap_def)

lemma omap_Cons: "omap ((k, v) # m) \<longleftrightarrow> (\<forall>x \<in> set m. k < fst x) \<and> omap m"
  by (auto simp: omap_def)

lemma omap_append: "omap (m @ m') \<longleftrightarrow> omap m \<and> omap m' \<and> (\<forall>x \<in> set m. \<forall>y \<in> set m'. fst x < fst y)"
  by (auto simp: omap_def sorted_wrt_append)

lemma omap_distinct: "omap m \<Longrightarrow> distinct (map fst m)"
  by (simp add: omap_def strict_sorted_iff)

lemma map_of_omap: "omap m \<Longrightarrow> map_of m k = Some v \<longleftrightarrow> (k, v) \<in> set m"
  by (simp add: omap_distinct)

lemma map_of_put: "omap m \<Longrightarrow> map_of (omap_put k v m) = (map_of m)(k \<mapsto> v)"
  by (induction k v m rule: omap_put.induct) (auto simp: omap_Cons fun_eq_iff)

lemma fst_put: "fst ` set (omap_put k v m) = insert k (fst ` set m)"
  by (induction k v m rule: omap_put.induct) auto

lemma omap_put [simp]: "omap m \<Longrightarrow> omap (omap_put k v m)"
proof (induction k v m rule: omap_put.induct)
  case (2 k v k' v' m)
  have "fst ` set (omap_put k v m) = insert k (fst ` set m)" by (rule fst_put)
  then have "\<forall>x \<in> set (omap_put k v m). fst x = k \<or> fst x \<in> fst ` set m" by auto
  then show ?case using 2 by (fastforce simp: omap_Cons)
qed (simp add: omap_Cons)

lemma omap_filter [simp]: "omap m \<Longrightarrow> omap (filter P m)"
  by (induction m) (auto simp: omap_Cons)

lemma omap_del [simp]: "omap m \<Longrightarrow> omap (omap_del k m)"
  by (simp add: omap_del_def)

lemma map_of_del: "map_of (omap_del k m) = (map_of m)(k := None)"
  by (induction m) (auto simp: omap_del_def fun_eq_iff)

lemma omap_put_last: "\<forall>x \<in> set m. fst x < k \<Longrightarrow> omap_put k v m = m @ [(k, v)]"
  by (induction k v m rule: omap_put.induct) auto

lemma omap_emplace_last:
  assumes "\<forall>x \<in> set m. fst x < k"
  shows "omap_emplace k v m = (m @ [(k, v)], True)"
proof -
  have "map_of m k = None" using assms by (auto simp: map_of_eq_None_iff)
  then show ?thesis using assms by (simp add: omap_emplace_def omap_put_last)
qed

text \<open>A map split at an entry.\<close>

lemma omap_split:
  assumes "omap (m @ (k, v) # m')"
  shows "map_of (m @ (k, v) # m') k = Some v" "omap_put k w (m @ (k, v) # m') = m @ (k, w) # m'"
    "omap_del k (m @ (k, v) # m') = m @ m'"
proof -
  have lt: "\<forall>x \<in> set m. fst x < k" "\<forall>x \<in> set m'. k < fst x"
    using assms by (auto simp: omap_append omap_Cons)
  show "map_of (m @ (k, v) # m') k = Some v" using lt(1) by (induction m) auto
  show "omap_put k w (m @ (k, v) # m') = m @ (k, w) # m'" using lt(1) by (induction m) auto
  have "filter (\<lambda>(k', _). k' \<noteq> k) m = m" "filter (\<lambda>(k', _). k' \<noteq> k) m' = m'"
    using lt by (auto simp: filter_id_conv)
  then show "omap_del k (m @ (k, v) # m') = m @ m'" by (simp add: omap_del_def)
qed

lemma map_of_split:
  assumes "map_of m k = Some v"
  obtains a b where "m = a @ (k, v) # b"
  using map_of_SomeD [OF assms] by (metis split_list)

lemma omap_keys_values:
  assumes "omap m" shows "m = map (\<lambda>k. (k, the (map_of m k))) (map fst m)"
proof -
  have "x = (fst x, the (map_of m (fst x)))" if "x \<in> set m" for x
    using that map_of_omap [OF assms, of "fst x" "snd x"] by simp
  then show ?thesis by (simp add: map_idI comp_def)
qed

lemma omap_eqI:
  assumes "omap m" "omap m'" "map_of m = map_of m'" shows "m = m'"
proof -
  have "set (map fst m) = set (map fst m')" using assms(3) by (metis dom_map_of_conv_image_fst list.set_map)
  then have "map fst m = map fst m'"
    using assms(1,2) by (intro sorted_distinct_set_unique) (simp_all add: omap_def strict_sorted_iff)
  then show ?thesis using omap_keys_values [OF assms(1)] omap_keys_values [OF assms(2)] assms(3) by simp
qed

end
