(* ===== verification/Td_TQueue.thy ===== *)
theory Td_TQueue
  imports Td_OrdMap "HOL-Library.Product_Lexorder"
begin

text \<open>
  The persistent event queues of \<open>tddb/td/db/TQueue.cpp\<close>: \<open>EventId\<close>, the class \<open>TQueueImpl\<close> with its garbage
  collection, and the storage callback \<open>TQueueMemoryStorage\<close>.

  A queue is its record \<open>Queue\<close>; \<open>queues_\<close> is a map, and \<open>queue_gc_at_\<close> the increasing list of the pairs of the
  \<open>std::set\<close>.  The callback is absent or the memory storage; identifiers of log events are counted from one.
  \<open>None\<close> is a failed \<open>CHECK\<close> (also of \<open>move_as_ok\<close> and \<open>ok\<close> on an error), or a dereferenced end iterator.  An
  iterator is the key it stands at: as only the current element is erased, a loop over a map visits the keys it
  had when the loop started.

  \<open>Random::fast\<close> is the argument \<open>rnd\<close>, its result, and \<open>Time::now\<close> the number of readings of the clock that are
  before the deadline of \<open>run_gc\<close>.  Event texts are bytes, sizes and log event identifiers are natural numbers.
\<close>

subsection \<open>Event identifiers\<close>

text \<open>The empty identifier is zero.\<close>

definition MAX_ID :: int where "MAX_ID = 2000000000"

definition is_valid_id :: "int \<Rightarrow> bool" where
  "is_valid_id n \<longleftrightarrow> 0 \<le> n \<and> n < MAX_ID"

definition event_id_of :: "int \<Rightarrow> int option" where
  "event_id_of n = do { check (is_valid_id n); Some n }"

definition from_int32 :: "int \<Rightarrow> int result option" where
  "from_int32 n = (if \<not> is_valid_id n then Some (Error ''Invalid ID'') else map_option Inr (event_id_of n))"

definition id_empty :: "int \<Rightarrow> bool" where "id_empty n \<longleftrightarrow> n = 0"

definition id_is_valid :: "int \<Rightarrow> bool" where
  "id_is_valid n \<longleftrightarrow> \<not> id_empty n \<and> is_valid_id n"

definition next_id :: "int \<Rightarrow> int result option" where
  "next_id n = from_int32 (n + 1)"

text \<open>The sum is computed in \<open>size_t\<close>.\<close>

definition advance_id :: "nat \<Rightarrow> int \<Rightarrow> int result option" where
  "advance_id offset n =
     (case narrow_cast_safe_int32 ((n + int offset) mod 2 ^ 64) of
        Inl e \<Rightarrow> Some (Inl e) | Inr m \<Rightarrow> from_int32 m)"

definition ok :: "'a result option \<Rightarrow> 'a option" where
  "ok m = do { r \<leftarrow> m; case r of Inl _ \<Rightarrow> None | Inr x \<Rightarrow> Some x }"

subsection \<open>State\<close>

record raw_event =
  e_log :: nat
  e_id :: int
  e_expires :: int
  e_data :: bytes
  e_extra :: int

record queue =
  q_tail :: int
  q_events :: "(int \<times> raw_event) list"
  q_total :: nat
  q_gc :: int

record memory_storage =
  ms_next :: nat
  ms_events :: "(nat \<times> int \<times> raw_event) list"

record tqueue =
  t_queues :: "int \<Rightarrow> queue option"
  t_gc :: "(int \<times> int) list"
  t_callback :: "memory_storage option"

definition new_queue :: queue where
  "new_queue = \<lparr>q_tail = 0, q_events = [], q_total = 0, q_gc = 0\<rparr>"

definition new_tqueue :: tqueue where
  "new_tqueue = \<lparr>t_queues = (\<lambda>_. None), t_gc = [], t_callback = None\<rparr>"

definition new_storage :: memory_storage where
  "new_storage = \<lparr>ms_next = 1, ms_events = []\<rparr>"

definition MAX_EVENT_LENGTH :: nat where "MAX_EVENT_LENGTH = 65536 * 8"

definition MAX_QUEUE_EVENTS :: nat where "MAX_QUEUE_EVENTS = 100000"

definition MAX_TOTAL_EVENT_LENGTH :: nat where "MAX_TOTAL_EVENT_LENGTH = 134217728"

definition set_callback :: "memory_storage option \<Rightarrow> tqueue \<Rightarrow> tqueue" where
  "set_callback cb s = s\<lparr>t_callback := cb\<rparr>"

definition extract_callback :: "tqueue \<Rightarrow> memory_storage option \<times> tqueue" where
  "extract_callback s = (t_callback s, s\<lparr>t_callback := None\<rparr>)"

subsection \<open>The memory storage\<close>

definition ms_push :: "int \<Rightarrow> raw_event \<Rightarrow> memory_storage \<Rightarrow> nat \<times> memory_storage" where
  "ms_push queue_id event ms =
     (let (log_event_id, ms) =
            (if e_log event = 0 then (ms_next ms, ms\<lparr>ms_next := ms_next ms + 1\<rparr>) else (e_log event, ms))
      in (log_event_id, ms\<lparr>ms_events := omap_put log_event_id (queue_id, event) (ms_events ms)\<rparr>))"

definition ms_pop :: "nat \<Rightarrow> memory_storage \<Rightarrow> memory_storage" where
  "ms_pop log_event_id ms = ms\<lparr>ms_events := omap_del log_event_id (ms_events ms)\<rparr>"

fun ms_pop_batch :: "nat list \<Rightarrow> memory_storage \<Rightarrow> memory_storage" where
  "ms_pop_batch [] ms = ms"
| "ms_pop_batch (n # ns) ms = ms_pop_batch ns (ms_pop n ms)"

definition ms_close :: "memory_storage \<Rightarrow> memory_storage" where
  "ms_close ms = ms\<lparr>ms_events := []\<rparr>"

subsection \<open>Queues\<close>

definition get_queue_head :: "queue \<Rightarrow> int" where
  "get_queue_head q = (case q_events q of [] \<Rightarrow> q_tail q | (k, _) # _ \<Rightarrow> k)"

definition queue_size :: "queue \<Rightarrow> nat" where
  "queue_size q =
     (if q_events q = [] then 0
      else length (q_events q) - (if e_data (snd (last (q_events q))) = [] then 1 else 0))"

text \<open>Operations on a queue and the callback.\<close>

type_synonym queue_state = "queue \<times> memory_storage option"

definition remove_event :: "int \<Rightarrow> queue \<Rightarrow> queue" where
  "remove_event k q =
     (case map_of (q_events q) k of None \<Rightarrow> q
      | Some e \<Rightarrow> q\<lparr>q_total := q_total q - length (e_data e), q_events := omap_del k (q_events q)\<rparr>)"

text \<open>The cleared event, and the queue with it in its place.\<close>

definition clear_event_data :: "int \<Rightarrow> raw_event \<Rightarrow> queue \<Rightarrow> raw_event \<times> queue" where
  "clear_event_data k e q =
     (let q = q\<lparr>q_total := q_total q - length (e_data e)\<rparr>; e = e\<lparr>e_data := []\<rparr>
      in (e, q\<lparr>q_events := omap_put k e (q_events q)\<rparr>))"

definition pop :: "int \<Rightarrow> int \<Rightarrow> int \<Rightarrow> queue_state \<Rightarrow> queue_state option" where
  "pop queue_id tail_id k qs =
     (let (q, cb) = qs in
      do { event \<leftarrow> map_of (q_events q) k;
           case cb of
             None \<Rightarrow> Some (remove_event k q, cb)
           | Some ms \<Rightarrow>
               if e_log event = 0 then Some (remove_event k q, cb)
               else do {
                 n \<leftarrow> ok (next_id (e_id event));
                 if n = tail_id then
                   (if e_data event \<noteq> [] then
                      let (event, q) = clear_event_data k event q in
                      Some (q, Some (snd (ms_push queue_id event ms)))
                    else Some (q, cb))
                 else Some (remove_event k q, Some (ms_pop (e_log event) ms)) } })"

fun pop_all :: "int \<Rightarrow> int \<Rightarrow> int list \<Rightarrow> queue_state \<Rightarrow> queue_state option" where
  "pop_all queue_id tail_id [] qs = Some qs"
| "pop_all queue_id tail_id (k # ks) qs = do { qs \<leftarrow> pop queue_id tail_id k qs; pop_all queue_id tail_id ks qs }"

definition schedule_queue_gc ::
  "int \<Rightarrow> int \<Rightarrow> queue \<times> (int \<times> int) list \<Rightarrow> (queue \<times> (int \<times> int) list) option" where
  "schedule_queue_gc queue_id gc_at qg =
     (let (q, g) = qg in
      do { g \<leftarrow> (if q_gc q \<noteq> 0 then do { check ((q_gc q, queue_id) \<in> set g); Some (remove1 (q_gc q, queue_id) g) }
                else Some g);
           let q = q\<lparr>q_gc := gc_at\<rparr>;
           g \<leftarrow> (if gc_at \<noteq> 0 then do { check ((gc_at, queue_id) \<notin> set g); Some (insort (gc_at, queue_id) g) }
                else Some g);
           Some (q, g) })"

definition queue_at :: "tqueue \<Rightarrow> int \<Rightarrow> queue" where
  "queue_at s queue_id = (case t_queues s queue_id of None \<Rightarrow> new_queue | Some q \<Rightarrow> q)"

definition put_queue :: "int \<Rightarrow> queue \<Rightarrow> tqueue \<Rightarrow> tqueue" where
  "put_queue queue_id q s = s\<lparr>t_queues := (t_queues s)(queue_id \<mapsto> q)\<rparr>"

definition put_state :: "int \<Rightarrow> queue_state \<Rightarrow> tqueue \<Rightarrow> tqueue" where
  "put_state queue_id qs s = (put_queue queue_id (fst qs) s)\<lparr>t_callback := snd qs\<rparr>"

subsection \<open>Adding events\<close>

text \<open>The tombstone at the end of the queue goes when an event is added.\<close>

definition drop_tombstone :: "queue_state \<Rightarrow> queue_state" where
  "drop_tombstone qs =
     (let (q, cb) = qs in
      if q_events q \<noteq> [] then
        let (k, e) = last (q_events q) in
        if e_data e = [] then
          (q\<lparr>q_events := omap_del k (q_events q)\<rparr>,
           case cb of Some ms \<Rightarrow> if e_log e \<noteq> 0 then Some (ms_pop (e_log e) ms) else cb | None \<Rightarrow> cb)
        else (q, cb)
      else (q, cb))"

definition log_event :: "int \<Rightarrow> raw_event \<Rightarrow> memory_storage option \<Rightarrow> raw_event \<times> memory_storage option" where
  "log_event queue_id e cb =
     (case cb of
        Some ms \<Rightarrow>
          if e_log e = 0 then let (n, ms) = ms_push queue_id e ms in (e\<lparr>e_log := n\<rparr>, Some ms) else (e, cb)
      | None \<Rightarrow> (e, cb))"

definition do_push :: "int \<Rightarrow> raw_event \<Rightarrow> tqueue \<Rightarrow> (bool \<times> tqueue) option" where
  "do_push queue_id e s =
     do { check (id_is_valid (e_id e));
          if length (e_data e) > MAX_EVENT_LENGTH \<or> queue_id = 0 then Some (False, s)
          else let q = queue_at s queue_id; s = put_queue queue_id q s in
            if length (q_events q) \<ge> MAX_QUEUE_EVENTS \<or> q_total q > MAX_TOTAL_EVENT_LENGTH - length (e_data e) \<or>
               e_expires e \<le> 0 then Some (False, s)
            else if e_id e < q_tail q then Some (False, s)
            else do {
              let (q, cb) = drop_tombstone (q, t_callback s);
              (q, g) \<leftarrow> (if q_events q = [] \<and> e_data e \<noteq> []
                        then schedule_queue_gc queue_id (e_expires e) (q, t_gc s) else Some (q, t_gc s));
              let (e, cb) = log_event queue_id e cb;
              n \<leftarrow> ok (next_id (e_id e));
              let q = q\<lparr>q_tail := n, q_total := q_total q + length (e_data e),
                        q_events := fst (omap_emplace (e_id e) e (q_events q))\<rparr>;
              Some (True, (put_queue queue_id q s)\<lparr>t_gc := g, t_callback := cb\<rparr>) } }"

text \<open>
  The loop that chooses the identifier of a new event.  It ends after at most two rounds; the fuel of
  \<open>push\<close> is two.
\<close>

fun choose_id :: "nat \<Rightarrow> int \<Rightarrow> int \<Rightarrow> int \<Rightarrow> queue_state \<Rightarrow> (int \<times> queue_state) option" where
  "choose_id 0 rnd hint_new_id queue_id qs = None"
| "choose_id (Suc fuel) rnd hint_new_id queue_id qs =
     (let (q, cb) = qs in
      do { q \<leftarrow> (if id_empty (q_tail q) then
                  if id_empty hint_new_id then do { n \<leftarrow> ok (from_int32 rnd); Some (q\<lparr>q_tail := n\<rparr>) }
                  else Some (q\<lparr>q_tail := hint_new_id\<rparr>)
                else Some q);
           let event_id = q_tail q;
           check (id_is_valid event_id);
           n \<leftarrow> next_id event_id;
           if is_ok n then Some (event_id, q, cb)
           else do {
             (q, cb) \<leftarrow> pop_all queue_id 0 (map fst (q_events q)) (q, cb);
             let q = q\<lparr>q_tail := 0\<rparr>;
             h \<leftarrow> next_id hint_new_id;
             check (is_ok h);
             choose_id fuel rnd hint_new_id queue_id (q, cb) } })"

definition push ::
  "int \<Rightarrow> bytes \<Rightarrow> int \<Rightarrow> int \<Rightarrow> int \<Rightarrow> int \<Rightarrow> tqueue \<Rightarrow> (int result \<times> tqueue) option" where
  "push queue_id data expires_at extra hint_new_id rnd s =
     (if data = [] then Some (Error ''Data is empty'', s)
      else if length data > MAX_EVENT_LENGTH then Some (Error ''Data is too big'', s)
      else if queue_id = 0 then Some (Error ''Queue identifier is invalid'', s)
      else let q = queue_at s queue_id; s = put_queue queue_id q s in
        if length (q_events q) \<ge> MAX_QUEUE_EVENTS then Some (Error ''Queue is full'', s)
        else if q_total q > MAX_TOTAL_EVENT_LENGTH - length data then Some (Error ''Queue size is too big'', s)
        else if expires_at \<le> 0 then Some (Error ''Failed to add already expired event'', s)
        else do {
          (event_id, qs) \<leftarrow> choose_id 2 rnd hint_new_id queue_id (q, t_callback s);
          let e = \<lparr>e_log = 0, e_id = event_id, e_expires = expires_at, e_data = data, e_extra = extra\<rparr>;
          (is_added, s) \<leftarrow> do_push queue_id e (put_state queue_id qs s);
          check is_added;
          Some (Inr event_id, s) })"

text \<open>Replaying a storage: the events in the order of their log identifiers.\<close>

fun replay_events :: "(nat \<times> int \<times> raw_event) list \<Rightarrow> tqueue \<Rightarrow> tqueue option" where
  "replay_events [] s = Some s"
| "replay_events ((n, queue_id, e) # es) s =
     do { (is_added, s) \<leftarrow> do_push queue_id (e\<lparr>e_log := n\<rparr>) s;
          check is_added;
          replay_events es s }"

definition ms_replay :: "memory_storage \<Rightarrow> tqueue \<Rightarrow> tqueue option" where
  "ms_replay ms s = replay_events (ms_events ms) s"

subsection \<open>Reading and forgetting\<close>

definition get_head :: "int \<Rightarrow> tqueue \<Rightarrow> int" where
  "get_head queue_id s = (case t_queues s queue_id of None \<Rightarrow> 0 | Some q \<Rightarrow> get_queue_head q)"

definition get_tail :: "int \<Rightarrow> tqueue \<Rightarrow> int" where
  "get_tail queue_id s = (case t_queues s queue_id of None \<Rightarrow> 0 | Some q \<Rightarrow> q_tail q)"

definition get_queue_size :: "int \<Rightarrow> tqueue \<Rightarrow> nat" where
  "get_queue_size queue_id s = (case t_queues s queue_id of None \<Rightarrow> 0 | Some q \<Rightarrow> queue_size q)"

definition forget :: "int \<Rightarrow> int \<Rightarrow> tqueue \<Rightarrow> tqueue option" where
  "forget queue_id event_id s =
     (case t_queues s queue_id of None \<Rightarrow> Some s
      | Some q \<Rightarrow>
          if map_of (q_events q) event_id = None then Some s
          else do { qs \<leftarrow> pop queue_id (q_tail q) event_id (q, t_callback s); Some (put_state queue_id qs s) })"

record event =
  ev_id :: int
  ev_expires :: int
  ev_data :: bytes
  ev_extra :: int

fun get_loop :: "int \<Rightarrow> int \<Rightarrow> int \<Rightarrow> nat \<Rightarrow> int list \<Rightarrow> event list \<Rightarrow> queue_state \<Rightarrow> (event list \<times> queue_state) option" where
  "get_loop queue_id from_id now span_size [] res qs = Some (res, qs)"
| "get_loop queue_id from_id now span_size (k # ks) res qs =
     do { e \<leftarrow> map_of (q_events (fst qs)) k;
          if e_expires e < now \<or> e_data e = [] then
            do { qs \<leftarrow> pop queue_id (q_tail (fst qs)) k qs; get_loop queue_id from_id now span_size ks res qs }
          else do {
            check (\<not> e_id e < from_id);
            if length res = span_size then Some (res, qs)
            else get_loop queue_id from_id now span_size ks
                   (res @ [\<lparr>ev_id = e_id e, ev_expires = e_expires e, ev_data = e_data e, ev_extra = e_extra e\<rparr>]) qs } }"

definition do_get ::
  "int \<Rightarrow> int \<Rightarrow> bool \<Rightarrow> int \<Rightarrow> nat \<Rightarrow> queue_state \<Rightarrow> (event list \<times> queue_state) option" where
  "do_get queue_id from_id forget_previous now span_size qs =
     do { qs \<leftarrow> (if forget_previous
                then pop_all queue_id (q_tail (fst qs)) (filter (\<lambda>k. k < from_id) (map fst (q_events (fst qs)))) qs
                else Some qs);
          get_loop queue_id from_id now span_size (filter (\<lambda>k. from_id \<le> k) (map fst (q_events (fst qs)))) [] qs }"

text \<open>\<open>get\<close> with a span of the given size: the result, what the span holds afterwards, and the state.\<close>

definition get ::
  "int \<Rightarrow> int \<Rightarrow> bool \<Rightarrow> int \<Rightarrow> nat \<Rightarrow> tqueue \<Rightarrow> ((nat \<times> event list) result \<times> tqueue) option" where
  "get queue_id from_id forget_previous now span_size s =
     (case t_queues s queue_id of
        None \<Rightarrow> Some (Inr (0, []), s)
      | Some q \<Rightarrow>
          if from_id > q_tail q + 10 then Some (Error ''Specified from_id is in the future'', s)
          else if from_id < get_queue_head q - int MAX_QUEUE_EVENTS
          then Some (Error ''Specified from_id is in the past'', s)
          else do {
            (res, qs) \<leftarrow> do_get queue_id from_id forget_previous now span_size (q, t_callback s);
            Some (Inr (queue_size (fst qs), res), put_state queue_id qs s) })"

subsection \<open>Clearing and garbage collection\<close>

text \<open>The two loops of \<open>clear\<close> that move events from the queue to another map.\<close>

fun move_first :: "nat \<Rightarrow> queue \<Rightarrow> (int \<times> raw_event) list \<Rightarrow> (queue \<times> (int \<times> raw_event) list) option" where
  "move_first 0 q deleted = Some (q, deleted)"
| "move_first (Suc n) q deleted =
     (case q_events q of [] \<Rightarrow> None
      | (k, e) # es \<Rightarrow>
          do { let (deleted, is_inserted) = omap_emplace k e deleted;
               check is_inserted;
               move_first n (q\<lparr>q_total := q_total q - length (e_data e), q_events := es\<rparr>) deleted })"

fun move_rest ::
  "(int \<times> raw_event) list \<Rightarrow> queue \<Rightarrow> (int \<times> raw_event) list \<Rightarrow> (queue \<times> (int \<times> raw_event) list) option" where
  "move_rest [] q deleted = Some (q, deleted)"
| "move_rest ((k, e) # es) q deleted =
     do { let (deleted, is_inserted) = omap_emplace k e deleted;
          check is_inserted;
          move_rest es (q\<lparr>q_total := q_total q + length (e_data e), q_events := omap_del k (q_events q)\<rparr>) deleted }"

text \<open>The last event stays as a tombstone when nothing is kept.\<close>

definition keep_last :: "int \<Rightarrow> queue_state \<Rightarrow> nat \<times> queue_state" where
  "keep_last queue_id qs =
     (let (q, cb) = qs; n = length (q_events q); (k, event) = last (q_events q) in
      case cb of
        None \<Rightarrow> (n, qs)
      | Some ms \<Rightarrow>
          if e_log event = 0 then (n, qs)
          else if e_data event \<noteq> [] then
            let (event, q) = clear_event_data k event q in (n - 1, q, Some (snd (ms_push queue_id event ms)))
          else (n - 1, qs))"

definition clear_events :: "int \<Rightarrow> nat \<Rightarrow> tqueue \<Rightarrow> ((int \<times> raw_event) list \<times> tqueue) option" where
  "clear_events queue_id keep_count s =
     (case t_queues s queue_id of None \<Rightarrow> Some ([], s)
      | Some q \<Rightarrow>
          let n_size = queue_size q in
          if n_size \<le> keep_count then Some ([], s)
          else do {
            let (end_pos, q, cb) =
              (if keep_count = 0 then keep_last queue_id (q, t_callback s)
               else (length (q_events q) - keep_count, q, t_callback s));
            let cb = map_option (ms_pop_batch
              (filter (\<lambda>n. n \<noteq> 0) (map (e_log \<circ> snd) (take end_pos (q_events q))))) cb;
            (q, deleted) \<leftarrow> (if keep_count > n_size div 2 then move_first end_pos q []
                            else do {
                              (q, kept) \<leftarrow> move_rest (drop end_pos (q_events q)) (q\<lparr>q_total := 0\<rparr>) [];
                              Some (q\<lparr>q_events := kept\<rparr>, q_events q) });
            Some (deleted, put_state queue_id (q, cb) s) })"

text \<open>
  The clock: how often it was read before the deadline.  \<open>gc_loop\<close> is the loop over the events of one queue
  with \<open>counter\<close> and \<open>new_gc_at\<close>.
\<close>

definition deadline :: "nat \<Rightarrow> bool \<times> nat" where
  "deadline readings = (readings = 0, readings - 1)"

fun gc_loop ::
  "int \<Rightarrow> int \<Rightarrow> int list \<Rightarrow> nat \<Rightarrow> nat \<Rightarrow> int \<Rightarrow> queue_state \<Rightarrow> (nat \<times> nat \<times> int \<times> queue_state) option" where
  "gc_loop queue_id now [] readings counter new_gc_at qs = Some (readings, counter, new_gc_at, qs)"
| "gc_loop queue_id now (k # ks) readings counter new_gc_at qs =
     do { e \<leftarrow> map_of (q_events (fst qs)) k;
          let counter = counter + 1;
          let (late, readings) = (if (counter div 128) mod 2 = 0 then deadline readings else (False, readings));
          if late then
            Some (readings, counter, if new_gc_at = 0 then e_expires e else new_gc_at, qs)
          else if e_expires e < now \<or> e_data e = [] then
            do { qs \<leftarrow> pop queue_id (q_tail (fst qs)) k qs;
                 gc_loop queue_id now ks readings counter new_gc_at qs }
          else if new_gc_at \<noteq> 0 then Some (readings, counter, new_gc_at, qs)
          else gc_loop queue_id now ks readings counter (e_expires e) qs }"

fun run_gc_loop :: "nat \<Rightarrow> int \<Rightarrow> nat \<Rightarrow> nat \<Rightarrow> nat \<Rightarrow> tqueue \<Rightarrow> ((nat \<times> bool) \<times> tqueue) option" where
  "run_gc_loop 0 now readings counter deleted_events s = None"
| "run_gc_loop (Suc fuel) now readings counter deleted_events s =
     (case t_gc s of
        [] \<Rightarrow> Some ((deleted_events, True), s)
      | (gc_at, queue_id) # _ \<Rightarrow>
          if gc_at \<ge> now then Some ((deleted_events, True), s)
          else do {
            let q = queue_at s queue_id;
            check (q_gc q = gc_at);
            let size_before = queue_size q;
            (readings, counter, new_gc_at, q, cb) \<leftarrow>
              gc_loop queue_id now (map fst (q_events q)) readings counter 0 (q, t_callback s);
            check (queue_size q \<le> size_before);
            let deleted_events = deleted_events + (size_before - queue_size q);
            (q, g) \<leftarrow> schedule_queue_gc queue_id new_gc_at (q, t_gc s);
            let s = (put_state queue_id (q, cb) s)\<lparr>t_gc := g\<rparr>;
            let (late, readings) = deadline readings;
            if late then Some ((deleted_events, False), s)
            else run_gc_loop fuel now readings counter deleted_events s })"

definition run_gc :: "int \<Rightarrow> nat \<Rightarrow> tqueue \<Rightarrow> ((nat \<times> bool) \<times> tqueue) option" where
  "run_gc unix_time_now readings s = run_gc_loop (length (t_gc s) + 1) unix_time_now readings 0 0 s"

definition close_queue :: "tqueue \<Rightarrow> memory_storage option \<times> tqueue" where
  "close_queue s = (map_option ms_close (t_callback s), s\<lparr>t_callback := None\<rparr>)"

end
