(* ===== verification/Td_TQueueInv.thy ===== *)
theory Td_TQueueInv
  imports Td_TQueue
begin

text \<open>
  Correctness of the event queues of \<open>Td_TQueue\<close>: what holds of a queue, of the set of scheduled garbage
  collections and of the whole state in every reachable state, that no operation fails a \<open>CHECK\<close> there, what
  reading returns, and that garbage collection ends.
\<close>

subsection \<open>One queue\<close>

abbreviation live :: "raw_event \<Rightarrow> bool" where "live e \<equiv> e_data e \<noteq> []"

abbreviation tomb :: "raw_event \<Rightarrow> raw_event" where "tomb e \<equiv> e\<lparr>e_data := []\<rparr>"

definition total_of :: "(int \<times> raw_event) list \<Rightarrow> nat" where
  "total_of ev = sum_list (map (\<lambda>(k, e). length (e_data e)) ev)"

lemma total_of_simps [simp]: "total_of [] = 0" "total_of ((k, e) # ev) = length (e_data e) + total_of ev"
  "total_of (ev @ ev') = total_of ev + total_of ev'"
  by (simp_all add: total_of_def)

text \<open>An event fits a queue whose next identifier is \<open>t\<close>.\<close>

definition event_ok :: "int \<Rightarrow> int \<times> raw_event \<Rightarrow> bool" where
  "event_ok t x \<longleftrightarrow> e_id (snd x) = fst x \<and> 0 < fst x \<and> fst x < t \<and> 0 < e_expires (snd x) \<and>
     length (e_data (snd x)) \<le> MAX_EVENT_LENGTH"

definition queue_ok :: "queue \<Rightarrow> bool" where
  "queue_ok q \<longleftrightarrow> omap (q_events q) \<and> (\<forall>x \<in> set (q_events q). event_ok (q_tail q) x) \<and>
     0 \<le> q_tail q \<and> q_tail q < MAX_ID \<and> q_total q = total_of (q_events q) \<and>
     q_total q \<le> MAX_TOTAL_EVENT_LENGTH \<and> length (q_events q) \<le> MAX_QUEUE_EVENTS \<and>
     (\<forall>x \<in> set (q_events q). fst x + 1 = q_tail q \<or> live (snd x))"

lemma queue_ok_new [simp]: "queue_ok new_queue"
  by (simp add: queue_ok_def new_queue_def MAX_ID_def)

text \<open>Only the last event can be a tombstone.\<close>

lemma tombstone_last:
  assumes "queue_ok q" "(k, e) \<in> set (q_events q)" "\<not> live e"
  shows "k + 1 = q_tail q" "last (q_events q) = (k, e)" "q_events q = butlast (q_events q) @ [(k, e)]"
proof -
  show k: "k + 1 = q_tail q" using assms by (auto simp: queue_ok_def)
  obtain a b where ab: "q_events q = a @ (k, e) # b" using split_list [OF assms(2)] by blast
  have "b = []"
  proof (cases b)
    case (Cons x b')
    then have "k < fst x" "fst x < q_tail q"
      using assms(1) ab by (auto simp: queue_ok_def omap_append omap_Cons event_ok_def)
    then show ?thesis using k by simp
  qed simp
  then show "last (q_events q) = (k, e)" "q_events q = butlast (q_events q) @ [(k, e)]" using ab by simp_all
qed

text \<open>The size that the queue reports is the number of its live events.\<close>

lemma queue_size_live:
  assumes "queue_ok q" shows "queue_size q = length (filter (\<lambda>x. live (snd x)) (q_events q))"
proof (cases "q_events q = []")
  case False
  define k e where "k = fst (last (q_events q))" and "e = snd (last (q_events q))"
  have ev: "q_events q = butlast (q_events q) @ [(k, e)]" using False by (simp add: k_def e_def)
  have "live (snd x)" if "x \<in> set (butlast (q_events q))" for x
  proof (rule ccontr)
    assume d: "\<not> live (snd x)"
    have "x \<in> set (q_events q)" using that by (rule in_set_butlastD)
    then have "x = (k, e)"
      using tombstone_last(2) [OF assms, of "fst x" "snd x"] d by (simp add: k_def e_def)
    moreover have "distinct (q_events q)" using assms omap_distinct distinct_map by (auto simp: queue_ok_def)
    then have "(k, e) \<notin> set (butlast (q_events q))" by (subst (asm) ev) simp
    ultimately show False using that by simp
  qed
  then have "filter (\<lambda>x. live (snd x)) (butlast (q_events q)) = butlast (q_events q)"
    by (simp add: filter_id_conv)
  then have "filter (\<lambda>x. live (snd x)) (q_events q) = butlast (q_events q) @ (if live e then [(k, e)] else [])"
    by (subst ev) simp
  then show ?thesis using False by (simp add: queue_size_def e_def)
qed (simp add: queue_size_def)

definition live_ids :: "queue \<Rightarrow> int set" where
  "live_ids q = {k. \<exists>e. map_of (q_events q) k = Some e \<and> live e}"

lemma queue_size_card: "queue_ok q \<Longrightarrow> queue_size q = card (live_ids q)"
proof -
  assume q: "queue_ok q"
  let ?l = "filter (\<lambda>x. live (snd x)) (q_events q)"
  have o: "omap (q_events q)" using q by (simp add: queue_ok_def)
  then have "live_ids q = set (map fst ?l)" by (force simp: live_ids_def map_of_omap)
  moreover have "distinct (map fst ?l)" using omap_filter [OF o] by (rule omap_distinct)
  ultimately show ?thesis using queue_size_live [OF q] distinct_card [of "map fst ?l"] by simp
qed

lemma finite_live_ids [simp]: "finite (live_ids q)"
  by (rule finite_subset [of _ "fst ` set (q_events q)"]) (auto simp: live_ids_def dest!: map_of_SomeD intro: rev_image_eqI)

text \<open>
  What every operation but adding does to a queue: events disappear, and the last one may become a tombstone.
\<close>

definition shrunk :: "queue \<Rightarrow> queue \<Rightarrow> bool" where
  "shrunk q q' \<longleftrightarrow> q_tail q' = q_tail q \<and> q_gc q' = q_gc q \<and>
     (\<forall>k e'. map_of (q_events q') k = Some e' \<longrightarrow>
       (\<exists>e. map_of (q_events q) k = Some e \<and> (e' = e \<or> e' = tomb e \<and> k + 1 = q_tail q)))"

lemma shrunk_refl [simp]: "shrunk q q"
  by (simp add: shrunk_def)

lemma shrunk_trans: "shrunk q q' \<Longrightarrow> shrunk q' q'' \<Longrightarrow> shrunk q q''"
  unfolding shrunk_def by (simp; fastforce)

lemma shrunk_live: "shrunk q q' \<Longrightarrow> live_ids q' \<subseteq> live_ids q"
  by (fastforce simp: shrunk_def live_ids_def)

lemma shrunk_size: "shrunk q q' \<Longrightarrow> queue_ok q \<Longrightarrow> queue_ok q' \<Longrightarrow> queue_size q' \<le> queue_size q"
  by (simp add: queue_size_card card_mono shrunk_live)

lemma queue_ok_split:
  assumes "queue_ok q" "map_of (q_events q) k = Some e"
  obtains a b where "q_events q = a @ (k, e) # b" "omap (a @ (k, e) # b)" "event_ok (q_tail q) (k, e)"
proof -
  obtain a b where ab: "q_events q = a @ (k, e) # b" by (rule map_of_split [OF assms(2)])
  then show thesis using that [OF ab] assms(1) by (simp add: queue_ok_def)
qed

lemma remove_event_ok:
  assumes q: "queue_ok q" and e: "map_of (q_events q) k = Some e"
  shows "queue_ok (remove_event k q)" "shrunk q (remove_event k q)"
    "map_of (q_events (remove_event k q)) = (map_of (q_events q))(k := None)"
proof -
  obtain a b where ab: "q_events q = a @ (k, e) # b" "omap (a @ (k, e) # b)"
    using queue_ok_split [OF q e] by metis
  have r: "remove_event k q = q\<lparr>q_total := q_total q - length (e_data e), q_events := a @ b\<rparr>"
    using e omap_split(3) [OF ab(2)] ab(1) by (simp add: remove_event_def)
  show m: "map_of (q_events (remove_event k q)) = (map_of (q_events q))(k := None)"
    using e by (simp add: remove_event_def map_of_del)
  show "queue_ok (remove_event k q)"
    using q ab unfolding queue_ok_def r by (auto simp: omap_append omap_Cons)
  show "shrunk q (remove_event k q)" unfolding shrunk_def m by (simp add: r)
qed

lemma clear_event_data_ok:
  assumes q: "queue_ok q" and e: "map_of (q_events q) k = Some e" "k + 1 = q_tail q"
  shows "queue_ok (snd (clear_event_data k e q))" "shrunk q (snd (clear_event_data k e q))"
    "map_of (q_events (snd (clear_event_data k e q))) = (map_of (q_events q))(k \<mapsto> tomb e)"
    "fst (clear_event_data k e q) = tomb e"
proof -
  obtain a b where ab: "q_events q = a @ (k, e) # b" "omap (a @ (k, e) # b)" "event_ok (q_tail q) (k, e)"
    using queue_ok_split [OF q e(1)] by metis
  have r: "snd (clear_event_data k e q) = q\<lparr>q_total := q_total q - length (e_data e), q_events := a @ (k, tomb e) # b\<rparr>"
    using omap_split(2) [OF ab(2)] ab(1) by (simp add: clear_event_data_def Let_def)
  show m: "map_of (q_events (snd (clear_event_data k e q))) = (map_of (q_events q))(k \<mapsto> tomb e)"
    using q by (simp add: clear_event_data_def Let_def map_of_put queue_ok_def)
  show "queue_ok (snd (clear_event_data k e q))"
    using q ab e(2) unfolding queue_ok_def r by (auto simp: omap_append omap_Cons event_ok_def)
  show "shrunk q (snd (clear_event_data k e q))" unfolding shrunk_def m using e by (simp add: r)
  show "fst (clear_event_data k e q) = tomb e" by (simp add: clear_event_data_def Let_def)
qed

lemma next_id_ok: "0 \<le> n + 1 \<Longrightarrow> n + 1 < MAX_ID \<Longrightarrow> next_id n = Some (Inr (n + 1))"
  by (simp add: next_id_def from_int32_def event_id_of_def is_valid_id_def)

lemma ok_simps [simp]: "ok (Some (Inr x)) = Some x" "ok (Some (Inl e)) = None" "ok None = None"
  by (simp_all add: ok_def)

text \<open>Popping an event: it goes, or it becomes a tombstone, or it was one and stays.\<close>

lemma pop_cases:
  assumes q: "queue_ok q" and e: "map_of (q_events q) k = Some e" and t: "t = q_tail q \<or> t = 0"
  obtains (gone) cb' where "pop queue_id t k (q, cb) = Some (remove_event k q, cb')"
      "cb' = (case cb of Some ms \<Rightarrow> if e_log e = 0 then cb else Some (ms_pop (e_log e) ms) | None \<Rightarrow> None)"
      "cb = None \<or> e_log e = 0 \<or> k + 1 \<noteq> t"
  | (entombed) ms where "cb = Some ms" "e_log e \<noteq> 0" "k + 1 = q_tail q" "t = q_tail q" "live e"
      "pop queue_id t k (q, cb) =
         Some (snd (clear_event_data k e q), Some (snd (ms_push queue_id (tomb e) ms)))"
  | (stays) ms where "cb = Some ms" "e_log e \<noteq> 0" "k + 1 = q_tail q" "t = q_tail q" "\<not> live e"
      "pop queue_id t k (q, cb) = Some (q, cb)"
proof -
  obtain a b where ab: "q_events q = a @ (k, e) # b" "event_ok (q_tail q) (k, e)"
    using queue_ok_split [OF q e] by metis
  have k: "e_id e = k" "0 < k" "k < q_tail q" "q_tail q < MAX_ID"
    using ab(2) q by (auto simp: event_ok_def queue_ok_def)
  then have n: "ok (next_id (e_id e)) = Some (k + 1)" using next_id_ok [of k] by simp
  have fst: "fst (clear_event_data k e q) = tomb e" by (simp add: clear_event_data_def Let_def)
  show thesis
  proof (cases cb)
    case None
    then show thesis using gone e by (simp add: pop_def)
  next
    case (Some ms)
    show thesis
    proof (cases "e_log e = 0 \<or> k + 1 \<noteq> t")
      case True
      then show thesis using gone e Some n by (auto simp: pop_def)
    next
      case False
      then have t: "t = q_tail q" "k + 1 = q_tail q" "e_log e \<noteq> 0" using t k(2) by auto
      show thesis
      proof (cases "live e")
        case True
        have "pop queue_id t k (q, cb) =
            Some (snd (clear_event_data k e q), Some (snd (ms_push queue_id (tomb e) ms)))"
          using Some e n t True fst by (simp add: pop_def split_beta)
        then show thesis using entombed Some t True by blast
      next
        case False
        then have "pop queue_id t k (q, cb) = Some (q, cb)" using Some e n t by (simp add: pop_def)
        then show thesis using stays Some t False by blast
      qed
    qed
  qed
qed

text \<open>
  With a storage, every event is in it, and the last event, which carries the next identifier, is never removed
  from it.
\<close>

definition queue_kept :: "queue \<Rightarrow> bool" where
  "queue_kept q \<longleftrightarrow> (\<forall>x \<in> set (q_events q). e_log (snd x) \<noteq> 0) \<and>
     (if q_events q = [] then q_tail q = 0 else q_tail q - 1 \<in> fst ` set (q_events q))"

definition state_ok :: "queue \<Rightarrow> memory_storage option \<Rightarrow> bool" where
  "state_ok q cb \<longleftrightarrow> queue_ok q \<and> (cb \<noteq> None \<longrightarrow> queue_kept q)"

lemma state_okD: "state_ok q cb \<Longrightarrow> queue_ok q"
  by (simp add: state_ok_def)

lemma state_ok_new [simp]: "state_ok new_queue cb"
  by (simp add: state_ok_def queue_kept_def) (simp add: new_queue_def)

lemma kept_remove:
  assumes "queue_ok q" "map_of (q_events q) k = Some e" "k + 1 \<noteq> q_tail q" "queue_kept q"
  shows "queue_kept (remove_event k q)"
proof -
  have ev: "q_events (remove_event k q) = omap_del k (q_events q)" "q_tail (remove_event k q) = q_tail q"
    using assms(2) by (simp_all add: remove_event_def)
  have "q_events q \<noteq> []" using assms(2) by auto
  then obtain x where "x \<in> set (q_events q)" "fst x = q_tail q - 1" using assms(4) by (auto simp: queue_kept_def)
  then have x: "x \<in> set (omap_del k (q_events q))" "fst x = q_tail q - 1" using assms(3) by (auto simp: omap_del_def)
  have "omap_del k (q_events q) \<noteq> []" using x(1) by force
  moreover have "q_tail q - 1 \<in> fst ` set (omap_del k (q_events q))" using x by (metis image_eqI)
  moreover have "\<forall>x \<in> set (omap_del k (q_events q)). e_log (snd x) \<noteq> 0"
    using assms(4) by (auto simp: queue_kept_def omap_del_def)
  ultimately show ?thesis unfolding queue_kept_def ev by simp
qed

lemma kept_clear:
  assumes "queue_ok q" "map_of (q_events q) k = Some e" "queue_kept q"
  shows "queue_kept (snd (clear_event_data k e q))"
proof -
  obtain a b where ab: "q_events q = a @ (k, e) # b" "omap (a @ (k, e) # b)"
    using queue_ok_split [OF assms(1,2)] by metis
  then show ?thesis
    using assms(3) omap_split(2) [OF ab(2)] by (simp add: queue_kept_def clear_event_data_def Let_def)
qed

text \<open>Popping hands out no identifiers of log events.\<close>

definition same_cb :: "memory_storage option \<Rightarrow> memory_storage option \<Rightarrow> bool" where
  "same_cb cb cb' \<longleftrightarrow> map_option ms_next cb' = map_option ms_next cb"

lemma same_cb_None: "same_cb cb cb' \<Longrightarrow> (cb' = None) = (cb = None)"
  by (auto simp: same_cb_def map_option_is_None dest: arg_cong [where f = "\<lambda>x. x = None"])

lemma same_cb_refl [simp]: "same_cb cb cb"
  by (simp add: same_cb_def)

lemma ms_next_simps [simp]: "ms_next (ms_pop n ms) = ms_next ms"
  "e_log e \<noteq> 0 \<Longrightarrow> ms_next (snd (ms_push queue_id e ms)) = ms_next ms"
  "ms_next (ms_pop_batch ns ms) = ms_next ms"
  by (simp_all add: ms_pop_def ms_push_def) (induction ns ms rule: ms_pop_batch.induct, simp_all add: ms_pop_def)

lemma pop_ok:
  assumes q: "state_ok q cb" and e: "map_of (q_events q) k = Some e"
  obtains q' cb' where "pop queue_id (q_tail q) k (q, cb) = Some (q', cb')" "state_ok q' cb'" "shrunk q q'"
    "\<And>k'. k' \<noteq> k \<Longrightarrow> map_of (q_events q') k' = map_of (q_events q) k'" "same_cb cb cb'"
    "k \<notin> live_ids q'"
proof (cases rule: pop_cases [OF state_okD [OF q] e, of "q_tail q" queue_id cb])
  case 1
  then show ?case by simp
next
  case (2 cb')
  have "e_log e \<noteq> 0" if "cb \<noteq> None" using q that e by (auto simp: state_ok_def queue_kept_def dest!: map_of_SomeD)
  then have "state_ok (remove_event k q) cb'" "same_cb cb cb'"
    using q kept_remove [OF state_okD [OF q] e] remove_event_ok(1) [OF state_okD [OF q] e] 2(2,3)
    by (auto simp: state_ok_def same_cb_def split: option.splits)
  then show ?thesis using that 2(1) remove_event_ok(2,3) [OF state_okD [OF q] e] by (simp add: live_ids_def)
next
  case (3 ms)
  have "state_ok (snd (clear_event_data k e q)) (Some ms')" for ms'
    using q kept_clear [OF state_okD [OF q] e] clear_event_data_ok(1) [OF state_okD [OF q] e] 3(1,3)
    by (auto simp: state_ok_def)
  then show ?thesis using that 3 clear_event_data_ok(2,3) [OF state_okD [OF q] e] by (simp add: live_ids_def same_cb_def)
next
  case (4 ms)
  then show ?thesis using that q e by (simp add: live_ids_def)
qed

text \<open>The loops that pop: every identifier they visit is still there when they reach it.\<close>

definition keys_of :: "queue \<Rightarrow> int set" where
  "keys_of q = dom (map_of (q_events q))"

lemma keys_ofD: "k \<in> keys_of q \<Longrightarrow> \<exists>e. map_of (q_events q) k = Some e"
  by (auto simp: keys_of_def)

lemma shrunk_tail: "shrunk q q' \<Longrightarrow> q_tail q' = q_tail q" "shrunk q q' \<Longrightarrow> q_gc q' = q_gc q"
  by (simp_all add: shrunk_def)

lemma keys_events: "set (map fst (q_events q)) = keys_of q"
  by (simp add: keys_of_def dom_map_of_conv_image_fst)

lemma keys_distinct: "queue_ok q \<Longrightarrow> distinct (map fst (q_events q))"
  by (simp add: queue_ok_def omap_distinct)

lemma pop_step:
  assumes "state_ok q cb" "distinct (k # ks)" "set (k # ks) \<subseteq> keys_of q"
  obtains q' cb' where "pop queue_id (q_tail q) k (q, cb) = Some (q', cb')" "state_ok q' cb'" "shrunk q q'"
    "set ks \<subseteq> keys_of q'" "same_cb cb cb'" "k \<notin> live_ids q'"
    "\<forall>k'. k' \<noteq> k \<longrightarrow> map_of (q_events q') k' = map_of (q_events q) k'"
proof -
  obtain e where e: "map_of (q_events q) k = Some e" using keys_ofD [of k q] assms(3) by auto
  obtain q' cb' where p: "pop queue_id (q_tail q) k (q, cb) = Some (q', cb')" "state_ok q' cb'" "shrunk q q'"
    "\<And>k'. k' \<noteq> k \<Longrightarrow> map_of (q_events q') k' = map_of (q_events q) k'" "same_cb cb cb'" "k \<notin> live_ids q'"
    by (rule pop_ok [OF assms(1) e, where queue_id = queue_id]) blast
  have "set ks \<subseteq> keys_of q'"
  proof
    fix k' assume "k' \<in> set ks"
    then have "k' \<noteq> k" "k' \<in> keys_of q" using assms(2,3) by auto
    then show "k' \<in> keys_of q'" using p(4) by (simp add: keys_of_def dom_def)
  qed
  then show thesis using that p by simp
qed

text \<open>What a loop over events leaves behind.\<close>

definition left_ok :: "queue \<Rightarrow> memory_storage option \<Rightarrow> queue \<Rightarrow> memory_storage option \<Rightarrow> bool" where
  "left_ok q cb q' cb' \<longleftrightarrow> state_ok q' cb' \<and> shrunk q q' \<and> same_cb cb cb'"

lemma left_ok_refl: "state_ok q cb \<Longrightarrow> left_ok q cb q cb"
  by (simp add: left_ok_def)

lemma left_ok_trans: "left_ok q cb q' cb' \<Longrightarrow> left_ok q' cb' q'' cb'' \<Longrightarrow> left_ok q cb q'' cb''"
  by (auto simp: left_ok_def same_cb_def intro: shrunk_trans)

lemma pop_left:
  assumes "state_ok q cb" "map_of (q_events q) k = Some e"
  shows "\<exists>q' cb'. pop queue_id (q_tail q) k (q, cb) = Some (q', cb') \<and> left_ok q cb q' cb'"
  by (rule pop_ok [OF assms, where queue_id = queue_id]) (simp add: left_ok_def)

lemma pop_all_ok:
  assumes "state_ok q cb" "distinct ks" "set ks \<subseteq> keys_of q"
  shows "\<exists>q' cb'. pop_all queue_id (q_tail q) ks (q, cb) = Some (q', cb') \<and> left_ok q cb q' cb'"
  using assms
proof (induction ks arbitrary: q cb)
  case Nil
  then show ?case by (simp add: left_ok_refl)
next
  case (Cons k ks)
  obtain q' cb' where p: "pop queue_id (q_tail q) k (q, cb) = Some (q', cb')" "state_ok q' cb'" "shrunk q q'"
    "set ks \<subseteq> keys_of q'" "same_cb cb cb'"
    by (rule pop_step [OF Cons.prems])
  obtain q'' cb'' where "pop_all queue_id (q_tail q') ks (q', cb') = Some (q'', cb'')" "left_ok q' cb' q'' cb''"
    using Cons.IH [OF p(2) _ p(4)] Cons.prems(2) by auto
  then show ?case using p shrunk_tail(1) [OF p(3)] left_ok_trans [of q cb q' cb'] by (simp add: left_ok_def)
qed

lemma get_loop_ok:
  assumes "state_ok q cb" "distinct ks" "set ks \<subseteq> keys_of q" "\<forall>k \<in> set ks. from_id \<le> k"
  shows "\<exists>res' q' cb'. get_loop queue_id from_id now n ks res (q, cb) = Some (res', q', cb') \<and> left_ok q cb q' cb'"
  using assms
proof (induction ks arbitrary: q cb res)
  case Nil
  then show ?case by (simp add: left_ok_refl)
next
  case (Cons k ks)
  obtain e where e: "map_of (q_events q) k = Some e" using keys_ofD [of k q] Cons.prems(3) by auto
  show ?case
  proof (cases "e_expires e < now \<or> e_data e = []")
    case True
    obtain q' cb' where p: "pop queue_id (q_tail q) k (q, cb) = Some (q', cb')" "state_ok q' cb'" "shrunk q q'"
      "set ks \<subseteq> keys_of q'" "same_cb cb cb'"
      by (rule pop_step [OF Cons.prems(1-3)])
    obtain res' q'' cb'' where "get_loop queue_id from_id now n ks res (q', cb') = Some (res', q'', cb'')"
      "left_ok q' cb' q'' cb''"
      using Cons.IH [OF p(2) _ p(4)] Cons.prems(2,4) by force
    then show ?thesis using p e True left_ok_trans [of q cb q' cb'] by (auto simp: left_ok_def)
  next
    case False
    have "e_id e = k"
      using state_okD [OF Cons.prems(1)] e by (auto simp: queue_ok_def event_ok_def dest!: map_of_SomeD)
    then show ?thesis using False e Cons by (auto simp: left_ok_refl)
  qed
qed

lemma filtered_keys:
  "queue_ok q \<Longrightarrow> distinct (filter P (map fst (q_events q)))" "set (filter P (map fst (q_events q))) \<subseteq> keys_of q"
  using keys_distinct [of q] by (auto simp flip: keys_events)

lemma do_get_ok:
  assumes "state_ok q cb"
  shows "\<exists>res' q' cb'. do_get queue_id from_id fp now n (q, cb) = Some (res', q', cb') \<and> left_ok q cb q' cb'"
proof -
  note q = state_okD [OF assms]
  let ?ks = "filter (\<lambda>k. k < from_id) (map fst (q_events q))"
  obtain q1 cb1 where p: "(if fp then pop_all queue_id (q_tail q) ?ks (q, cb) else Some (q, cb)) = Some (q1, cb1)"
    "left_ok q cb q1 cb1"
    using pop_all_ok [OF assms filtered_keys(1) [OF q] filtered_keys(2), of queue_id "\<lambda>k. k < from_id"]
      left_ok_refl [OF assms] by (cases fp) auto
  then have q1: "state_ok q1 cb1" by (simp add: left_ok_def)
  let ?ls = "filter (\<lambda>k. from_id \<le> k) (map fst (q_events q1))"
  have "\<forall>k \<in> set ?ls. from_id \<le> k" by simp
  from get_loop_ok [OF q1 filtered_keys(1) [OF state_okD [OF q1]] filtered_keys(2) this, of queue_id now n "[]"]
  obtain res' q' cb' where g: "get_loop queue_id from_id now n ?ls [] (q1, cb1) = Some (res', q', cb')"
    "left_ok q1 cb1 q' cb'" by blast
  have "do_get queue_id from_id fp now n (q, cb) = Some (res', q', cb')"
    unfolding do_get_def fst_conv p(1) using g(1) by simp
  then show ?thesis using left_ok_trans [OF p(2) g(2)] by blast
qed

text \<open>
  The loop of the garbage collection.  It spares what has not expired; if a live event is left, a next time has
  been chosen; and that time is not over, or the deadline is.
\<close>

definition spares :: "int \<Rightarrow> queue \<Rightarrow> queue \<Rightarrow> bool" where
  "spares now q q' \<longleftrightarrow> (\<forall>k e. map_of (q_events q) k = Some e \<longrightarrow> live e \<longrightarrow> now \<le> e_expires e \<longrightarrow>
     map_of (q_events q') k = Some e)"

lemma spares_refl [simp]: "spares now q q"
  by (simp add: spares_def)

lemma spares_trans: "spares now q q' \<Longrightarrow> spares now q' q'' \<Longrightarrow> spares now q q''"
  by (simp add: spares_def)

lemma gc_loop_ok:
  assumes "state_ok q cb" "distinct ks" "set ks \<subseteq> keys_of q" "gc = 0 \<or> 0 < gc \<and> now \<le> gc"
  shows "\<exists>readings' counter' gc' q' cb'.
    gc_loop queue_id now ks readings counter gc (q, cb) = Some (readings', counter', gc', q', cb') \<and>
    left_ok q cb q' cb' \<and> spares now q q' \<and> 0 \<le> gc' \<and> (gc' = 0 \<longrightarrow> gc = 0 \<and> live_ids q' \<inter> set ks = {}) \<and>
    (readings' = 0 \<or> gc' = 0 \<or> now \<le> gc')"
  using assms
proof (induction ks arbitrary: q cb readings counter gc)
  case Nil
  then show ?case by (auto simp: left_ok_refl)
next
  case (Cons k ks)
  obtain e where e: "map_of (q_events q) k = Some e" using keys_ofD [of k q] Cons.prems(3) by auto
  have pos: "0 < e_expires e"
    using state_okD [OF Cons.prems(1)] e by (auto simp: queue_ok_def event_ok_def dest!: map_of_SomeD)
  obtain late rd where late: "(if (counter + 1) div 128 mod 2 = 0 then deadline readings else (False, readings)) = (late, rd)"
    by (cases "if (counter + 1) div 128 mod 2 = 0 then deadline readings else (False, readings)")
  have refl: "left_ok q cb q cb" using Cons.prems(1) by (rule left_ok_refl)
  show ?case
  proof (cases late)
    case True
    then have "rd = 0" using late by (auto simp: deadline_def split: if_splits)
    then show ?thesis using e late True pos Cons.prems(4) refl by auto
  next
    case notlate: False
    show ?thesis
    proof (cases "e_expires e < now \<or> e_data e = []")
      case True
      obtain q' cb' where p: "pop queue_id (q_tail q) k (q, cb) = Some (q', cb')" "state_ok q' cb'" "shrunk q q'"
        "set ks \<subseteq> keys_of q'" "same_cb cb cb'" "k \<notin> live_ids q'"
        "\<forall>k'. k' \<noteq> k \<longrightarrow> map_of (q_events q') k' = map_of (q_events q) k'"
        by (rule pop_step [OF Cons.prems(1-3)])
      obtain rd' counter' gc' q'' cb'' where g: "gc_loop queue_id now ks rd (counter + 1) gc (q', cb') =
          Some (rd', counter', gc', q'', cb'')" "left_ok q' cb' q'' cb''" "spares now q' q''" "0 \<le> gc'"
        "gc' = 0 \<longrightarrow> gc = 0 \<and> live_ids q'' \<inter> set ks = {}" "rd' = 0 \<or> gc' = 0 \<or> now \<le> gc'"
        using Cons.IH [OF p(2) _ p(4) Cons.prems(4), of rd "counter + 1"] Cons.prems(2) by auto
      have "gc_loop queue_id now (k # ks) readings counter gc (q, cb) = Some (rd', counter', gc', q'', cb'')"
        using late e True notlate p(1) g(1) by simp
      moreover have "k \<notin> live_ids q''" using p(6) g(2) shrunk_live by (auto simp: left_ok_def)
      moreover have "left_ok q cb q'' cb''" using left_ok_trans [of q cb q' cb'] p g(2) by (simp add: left_ok_def)
      moreover have sp: "spares now q q'"
        unfolding spares_def
      proof (intro allI impI)
        fix k' e' assume e': "map_of (q_events q) k' = Some e'" "live e'" "now \<le> e_expires e'"
        then have "k' \<noteq> k" using e True by auto
        then show "map_of (q_events q') k' = Some e'" using p(7) e'(1) by simp
      qed
      ultimately show ?thesis using g(4-6) spares_trans [OF sp g(3)] by auto
    next
      case False
      show ?thesis
      proof (cases "gc = 0")
        case False
        then show ?thesis using \<open>\<not> (e_expires e < now \<or> e_data e = [])\<close> e late notlate Cons.prems(4) refl by auto
      next
        case True
        obtain rd' counter' gc' q'' cb'' where g: "gc_loop queue_id now ks rd (counter + 1) (e_expires e) (q, cb) =
            Some (rd', counter', gc', q'', cb'')" "left_ok q cb q'' cb''" "spares now q q''" "0 \<le> gc'" "gc' \<noteq> 0"
          "rd' = 0 \<or> gc' = 0 \<or> now \<le> gc'"
          using Cons.IH [OF Cons.prems(1), of "e_expires e" rd "counter + 1"] Cons.prems(2,3) pos False by auto
        have "gc_loop queue_id now (k # ks) readings counter gc (q, cb) = Some (rd', counter', gc', q'', cb'')"
          using late e False notlate True g(1) by simp
        then show ?thesis using g by auto
      qed
    qed
  qed
qed

subsection \<open>The whole state\<close>

text \<open>
  The set of scheduled collections holds exactly the queues with a time, and every queue with a live event has
  one.
\<close>

definition gc_ok :: "(int \<Rightarrow> queue option) \<Rightarrow> (int \<times> int) list \<Rightarrow> bool" where
  "gc_ok qs g \<longleftrightarrow> sorted g \<and> distinct g \<and>
     (\<forall>gc_at queue_id. (gc_at, queue_id) \<in> set g \<longleftrightarrow>
        (\<exists>q. qs queue_id = Some q \<and> q_gc q = gc_at \<and> gc_at \<noteq> 0)) \<and>
     (\<forall>queue_id q. qs queue_id = Some q \<longrightarrow> 0 \<le> q_gc q \<and> (live_ids q \<noteq> {} \<longrightarrow> q_gc q \<noteq> 0))"

definition tqueue_ok :: "tqueue \<Rightarrow> bool" where
  "tqueue_ok s \<longleftrightarrow> (\<forall>queue_id q. t_queues s queue_id = Some q \<longrightarrow> state_ok q (t_callback s) \<and> (q_events q \<noteq> [] \<longrightarrow> queue_id \<noteq> 0)) \<and>
     gc_ok (t_queues s) (t_gc s) \<and> map_option ms_next (t_callback s) \<noteq> Some 0"

lemma tqueue_ok_new: "tqueue_ok new_tqueue"
  by (simp add: tqueue_ok_def gc_ok_def new_tqueue_def)

lemma queue_at_ok: "tqueue_ok s \<Longrightarrow> state_ok (queue_at s queue_id) (t_callback s)"
  by (auto simp: tqueue_ok_def queue_at_def split: option.split)

text \<open>Creating a queue by looking it up.\<close>

lemma live_ids_new [simp]: "live_ids new_queue = {}" "q_gc new_queue = 0" "q_events new_queue = []"
  by (auto simp: live_ids_def new_queue_def)

lemma tqueue_ok_touch:
  assumes "tqueue_ok s" shows "tqueue_ok (put_queue queue_id (queue_at s queue_id) s)"
proof (cases "t_queues s queue_id")
  case None
  then show ?thesis
    using assms by (auto simp: tqueue_ok_def gc_ok_def put_queue_def queue_at_def)
next
  case (Some q)
  then have "put_queue queue_id (queue_at s queue_id) s = s"
    by (cases s) (simp add: put_queue_def queue_at_def fun_upd_idem)
  then show ?thesis using assms by simp
qed

text \<open>Replacing a queue by one that has shrunk.\<close>

lemma gc_ok_shrunk:
  assumes "gc_ok qs g" "qs queue_id = Some q" "shrunk q q'"
  shows "gc_ok (qs(queue_id \<mapsto> q')) g"
proof -
  have gc: "q_gc q' = q_gc q" using assms(3) by (simp add: shrunk_def)
  moreover have "live_ids q' \<noteq> {} \<Longrightarrow> live_ids q \<noteq> {}" using shrunk_live [OF assms(3)] by auto
  ultimately show ?thesis using assms(1,2) unfolding gc_ok_def by auto
qed

lemma shrunk_nonempty: "shrunk q q' \<Longrightarrow> q_events q' \<noteq> [] \<Longrightarrow> q_events q \<noteq> []"
proof -
  assume s: "shrunk q q'" and "q_events q' \<noteq> []"
  then obtain k e es where "q_events q' = (k, e) # es" by (cases "q_events q'") auto
  then have "map_of (q_events q') k = Some e" by simp
  then have "map_of (q_events q) k \<noteq> None" using s unfolding shrunk_def by blast
  then show "q_events q \<noteq> []" by auto
qed

lemma put_fields [simp]:
  "t_queues (put_queue queue_id q s) = (t_queues s)(queue_id \<mapsto> q)" "t_gc (put_queue queue_id q s) = t_gc s"
  "t_callback (put_queue queue_id q s) = t_callback s"
  "t_queues (put_state queue_id qs s) = (t_queues s)(queue_id \<mapsto> fst qs)" "t_gc (put_state queue_id qs s) = t_gc s"
  "t_callback (put_state queue_id qs s) = snd qs"
  by (simp_all add: put_queue_def put_state_def)

lemma state_ok_cb: "state_ok q cb \<Longrightarrow> same_cb cb cb' \<Longrightarrow> state_ok q cb'"
  using same_cb_None [of cb cb'] by (auto simp: state_ok_def)

lemma tqueue_ok_left:
  assumes "tqueue_ok s" "t_queues s queue_id = Some q" "left_ok q (t_callback s) q' cb"
  shows "tqueue_ok (put_state queue_id (q', cb) s)"
proof -
  have l: "state_ok q' cb" "shrunk q q'" "same_cb (t_callback s) cb"
    using assms(3) by (simp_all add: left_ok_def)
  have other: "state_ok p cb" if "state_ok p (t_callback s)" for p using state_ok_cb [OF that l(3)] .
  have "gc_ok ((t_queues s)(queue_id \<mapsto> q')) (t_gc s)"
    using gc_ok_shrunk [of "t_queues s" "t_gc s" queue_id q q'] assms(1,2) l(2) by (simp add: tqueue_ok_def)
  moreover have "q_events q' \<noteq> [] \<longrightarrow> queue_id \<noteq> 0"
    using assms(1,2) shrunk_nonempty [OF l(2)] by (auto simp: tqueue_ok_def)
  ultimately show ?thesis using assms(1) l(1,3) other by (simp add: tqueue_ok_def same_cb_def)
qed

lemma forget_ok:
  assumes "tqueue_ok s" shows "\<exists>s'. forget queue_id n s = Some s' \<and> tqueue_ok s'"
proof (cases "t_queues s queue_id")
  case (Some q)
  then have q: "state_ok q (t_callback s)" using assms by (simp add: tqueue_ok_def)
  show ?thesis
  proof (cases "map_of (q_events q) n")
    case e: (Some e)
    obtain q' cb' where p: "pop queue_id (q_tail q) n (q, t_callback s) = Some (q', cb')"
      "left_ok q (t_callback s) q' cb'"
      using pop_left [OF q e] by blast
    have "tqueue_ok (put_state queue_id (q', cb') s)" by (rule tqueue_ok_left [OF assms Some p(2)])
    then show ?thesis using Some e p(1) by (simp add: forget_def)
  qed (use Some assms in \<open>simp add: forget_def\<close>)
qed (use assms in \<open>simp add: forget_def\<close>)

lemma get_ok:
  assumes "tqueue_ok s" shows "\<exists>r s'. get queue_id from_id fp now n s = Some (r, s') \<and> tqueue_ok s'"
proof (cases "t_queues s queue_id")
  case (Some q)
  then have q: "state_ok q (t_callback s)" using assms by (simp add: tqueue_ok_def)
  obtain res' q' cb' where g: "do_get queue_id from_id fp now n (q, t_callback s) = Some (res', q', cb')"
    "left_ok q (t_callback s) q' cb'" using do_get_ok [OF q] by blast
  then show ?thesis
    using Some assms tqueue_ok_left [OF assms Some g(2)] by (simp add: get_def)
qed (use assms in \<open>simp add: get_def\<close>)

subsection \<open>Clearing\<close>

lemma move_first_eq:
  assumes "omap (deleted @ ev)" "q_events q = ev" "n \<le> length ev" "q_total q = total_of ev"
  shows "move_first n q deleted =
    Some (q\<lparr>q_events := drop n ev, q_total := total_of (drop n ev)\<rparr>, deleted @ take n ev)"
  using assms
proof (induction n arbitrary: q deleted ev)
  case 0
  then show ?case by (cases q) simp
next
  case (Suc n)
  obtain k e es where ev: "ev = (k, e) # es" using Suc.prems(3) by (cases ev) auto
  have lt: "\<forall>x \<in> set deleted. fst x < k" using Suc.prems(1) ev by (auto simp: omap_append)
  have "move_first n (q\<lparr>q_total := q_total q - length (e_data e), q_events := es\<rparr>) (deleted @ [(k, e)]) =
      Some (q\<lparr>q_events := drop n es, q_total := total_of (drop n es)\<rparr>, (deleted @ [(k, e)]) @ take n es)"
    by (subst Suc.IH [of "deleted @ [(k, e)]" es]) (use Suc.prems ev in auto)
  then show ?case using Suc.prems(2) ev omap_emplace_last [OF lt, of e] by simp
qed

lemma move_rest_eq:
  assumes "omap (a @ ev)" "q_events q = a @ ev" "omap (kept @ ev)" "q_total q = total_of kept"
  shows "move_rest ev q kept = Some (q\<lparr>q_events := a, q_total := total_of (kept @ ev)\<rparr>, kept @ ev)"
  using assms
proof (induction ev arbitrary: q kept)
  case Nil
  then show ?case by (cases q) simp
next
  case (Cons x ev)
  obtain k e where x: "x = (k, e)" by (cases x)
  have lt: "\<forall>y \<in> set kept. fst y < k" using Cons.prems(3) x by (auto simp: omap_append)
  have del: "omap_del k (q_events q) = a @ ev" using Cons.prems(1,2) x omap_split(3) by metis
  have "move_rest ev (q\<lparr>q_total := q_total q + length (e_data e), q_events := a @ ev\<rparr>) (kept @ [(k, e)]) =
      Some (q\<lparr>q_events := a, q_total := total_of ((kept @ [(k, e)]) @ ev)\<rparr>, (kept @ [(k, e)]) @ ev)"
    by (subst Cons.IH) (use Cons.prems x in \<open>auto simp: omap_append omap_Cons\<close>)
  then show ?case using x del omap_emplace_last [OF lt, of e] by simp
qed

text \<open>Both ways move the same events.\<close>

definition kept_queue :: "nat \<Rightarrow> queue \<Rightarrow> queue" where
  "kept_queue n q = q\<lparr>q_events := drop n (q_events q), q_total := total_of (drop n (q_events q))\<rparr>"

lemma kept_queue_ok:
  assumes "queue_ok q" shows "queue_ok (kept_queue n q)" "shrunk q (kept_queue n q)"
proof -
  have split: "q_events q = take n (q_events q) @ drop n (q_events q)" by simp
  have "omap (drop n (q_events q))" using assms split by (metis omap_append queue_ok_def)
  moreover have "total_of (drop n (q_events q)) \<le> total_of (q_events q)"
    by (metis le_add2 split total_of_simps(3))
  ultimately show "queue_ok (kept_queue n q)"
    using assms by (auto simp: queue_ok_def kept_queue_def dest: in_set_dropD)
  then have o: "omap (drop n (q_events q))" by (simp add: queue_ok_def kept_queue_def)
  have "map_of (drop n (q_events q)) k = Some e \<Longrightarrow> map_of (q_events q) k = Some e" for k e
    using assms map_of_omap [OF o] map_of_omap [of "q_events q"] by (auto simp: queue_ok_def dest: in_set_dropD)
  then show "shrunk q (kept_queue n q)" by (auto simp: shrunk_def kept_queue_def)
qed

lemma moves_eq:
  assumes "queue_ok q" "n \<le> length (q_events q)"
  shows "(if first then move_first n q []
      else do { (q', kept) \<leftarrow> move_rest (drop n (q_events q)) (q\<lparr>q_total := 0\<rparr>) [];
                Some (q'\<lparr>q_events := kept\<rparr>, q_events q') }) = Some (kept_queue n q, take n (q_events q))"
proof -
  have o: "omap (q_events q)" "omap (take n (q_events q) @ drop n (q_events q))" "omap (drop n (q_events q))"
    using assms(1) by (simp_all add: queue_ok_def) (metis append_take_drop_id omap_append)
  have "move_first n q [] = Some (kept_queue n q, take n (q_events q))"
    using move_first_eq [of "[]" "q_events q" q n] assms o by (simp add: kept_queue_def queue_ok_def)
  moreover have "move_rest (drop n (q_events q)) (q\<lparr>q_total := 0\<rparr>) [] =
      Some (q\<lparr>q_total := total_of (drop n (q_events q)), q_events := take n (q_events q)\<rparr>, drop n (q_events q))"
    using move_rest_eq [of "take n (q_events q)" "drop n (q_events q)" "q\<lparr>q_total := 0\<rparr>" "[]"] o by simp
  ultimately show ?thesis by (simp add: kept_queue_def)
qed

lemma kept_queue_kept:
  assumes "queue_ok q" "queue_kept q" "n < length (q_events q)"
  shows "queue_kept (kept_queue n q)"
proof -
  have ne: "drop n (q_events q) \<noteq> []" "q_events q \<noteq> []" using assms(3) by auto
  have o: "omap (q_events q)" using assms(1) by (simp add: queue_ok_def)
  obtain x where x: "x \<in> set (q_events q)" "fst x = q_tail q - 1" using assms(2) ne by (auto simp: queue_kept_def)
  have "x \<in> set (drop n (q_events q))"
  proof (rule ccontr)
    assume "x \<notin> set (drop n (q_events q))"
    moreover have "q_events q = take n (q_events q) @ drop n (q_events q)" by simp
    ultimately have "x \<in> set (take n (q_events q))" using x(1) by (metis Un_iff set_append)
    moreover have "omap (take n (q_events q) @ drop n (q_events q))" using o by simp
    moreover obtain y where y: "y \<in> set (drop n (q_events q))" using ne(1) by (meson last_in_set)
    ultimately have "fst x < fst y" unfolding omap_append by blast
    moreover have "event_ok (q_tail q) y" using assms(1) y by (auto simp: queue_ok_def dest: in_set_dropD)
    ultimately show False using x(2) by (auto simp: event_ok_def)
  qed
  then have "q_tail q - 1 \<in> fst ` set (drop n (q_events q))" using x(2) by (metis image_eqI)
  then show ?thesis
    using assms(2) ne(1) by (auto simp: queue_kept_def kept_queue_def dest: in_set_dropD)
qed

text \<open>With nothing kept, the storage's last event stays, as a tombstone.\<close>

lemma keep_last_ok:
  assumes q: "state_ok q cb" and ne: "q_events q \<noteq> []"
  obtains n q' cb' where "keep_last queue_id (q, cb) = (n, q', cb')" "left_ok q cb q' cb'"
    "n \<le> length (q_events q')" "cb \<noteq> None \<longrightarrow> n < length (q_events q')"
proof -
  define k e where "k = fst (last (q_events q))" and "e = snd (last (q_events q))"
  have l: "last (q_events q) = (k, e)" by (simp add: k_def e_def)
  then have "(k, e) \<in> set (q_events q)" using ne by (metis last_in_set)
  then have e: "map_of (q_events q) k = Some e" using state_okD [OF q] by (simp add: queue_ok_def map_of_omap)
  show thesis
  proof (cases cb)
    case None
    then show thesis using that q l by (auto simp: keep_last_def left_ok_refl)
  next
    case (Some ms)
    then have kept: "queue_kept q" using q by (simp add: state_ok_def)
    then have log: "e_log e \<noteq> 0" using \<open>(k, e) \<in> set (q_events q)\<close> by (auto simp: queue_kept_def)
    have k: "k + 1 = q_tail q"
    proof -
      obtain x where x: "x \<in> set (q_events q)" "fst x = q_tail q - 1" using kept ne by (auto simp: queue_kept_def)
      have ev: "q_events q = butlast (q_events q) @ [(k, e)]" using l ne by (metis append_butlast_last_id)
      have "x = (k, e) \<or> fst x < k"
        using x(1) state_okD [OF q] ev unfolding queue_ok_def by (metis Un_iff empty_iff empty_set fst_conv
            list.set_intros(1) omap_append set_ConsD set_append)
      moreover have "k < q_tail q" using \<open>(k, e) \<in> set (q_events q)\<close> state_okD [OF q]
        by (auto simp: queue_ok_def event_ok_def)
      ultimately show ?thesis using x(2) by auto
    qed
    show thesis
    proof (cases "live e")
      case True
      have "left_ok q cb (snd (clear_event_data k e q)) (Some (snd (ms_push queue_id (tomb e) ms)))"
        using clear_event_data_ok(1,2) [OF state_okD [OF q] e k] kept_clear [OF state_okD [OF q] e kept] Some log
        by (simp add: left_ok_def state_ok_def same_cb_def)
      moreover have "length (q_events (snd (clear_event_data k e q))) = length (q_events q)"
      proof -
        obtain a b where ab: "q_events q = a @ (k, e) # b" "omap (a @ (k, e) # b)"
          using queue_ok_split [OF state_okD [OF q] e] by metis
        then show ?thesis using omap_split(2) [OF ab(2)] by (simp add: clear_event_data_def Let_def)
      qed
      ultimately show thesis
        using that [of "length (q_events q) - 1" "snd (clear_event_data k e q)"
            "Some (snd (ms_push queue_id (tomb e) ms))"] Some log True l ne clear_event_data_ok(4) [OF state_okD [OF q] e k]
        by (simp add: keep_last_def split_beta)
    next
      case False
      then show thesis using that Some log l ne q by (simp add: keep_last_def left_ok_refl)
    qed
  qed
qed

lemma clear_events_ok:
  assumes "tqueue_ok s" shows "\<exists>deleted s'. clear_events queue_id keep_count s = Some (deleted, s') \<and> tqueue_ok s'"
proof (cases "t_queues s queue_id")
  case (Some q)
  then have q: "state_ok q (t_callback s)" using assms by (simp add: tqueue_ok_def)
  show ?thesis
  proof (cases "queue_size q \<le> keep_count")
    case False
    then have ne: "q_events q \<noteq> []" "0 < length (q_events q)" by (auto simp: queue_size_def)
    obtain n q' cb' where k: "(if keep_count = 0 then keep_last queue_id (q, t_callback s)
        else (length (q_events q) - keep_count, q, t_callback s)) = (n, q', cb')" "left_ok q (t_callback s) q' cb'"
      "n \<le> length (q_events q')" "t_callback s \<noteq> None \<longrightarrow> n < length (q_events q')"
    proof (cases "keep_count = 0")
      case True
      then show thesis using that keep_last_ok [OF q ne(1), of queue_id] by metis
    next
      case False
      then show thesis using that [of "length (q_events q) - keep_count" q "t_callback s"] q ne by (simp add: left_ok_refl)
    qed
    define cb'' where "cb'' = map_option (ms_pop_batch (filter (\<lambda>n. n \<noteq> 0) (map (e_log \<circ> snd) (take n (q_events q'))))) cb'"
    have q': "state_ok q' cb'" "shrunk q q'" "same_cb (t_callback s) cb'" using k(2) by (simp_all add: left_ok_def)
    have kept: "cb' \<noteq> None \<Longrightarrow> queue_kept (kept_queue n q')"
      using q' k(4) kept_queue_kept [of q' n] same_cb_None [OF q'(3)] by (simp add: state_ok_def)
    then have "left_ok q (t_callback s) (kept_queue n q') cb''"
      using kept_queue_ok [OF state_okD [OF q'(1)], of n] q' shrunk_trans [OF q'(2)]
      by (auto simp: left_ok_def state_ok_def cb''_def same_cb_def map_option_case split: option.splits)
    then have "tqueue_ok (put_state queue_id (kept_queue n q', cb'') s)" by (rule tqueue_ok_left [OF assms Some])
    moreover have "clear_events queue_id keep_count s = Some (take n (q_events q'), put_state queue_id (kept_queue n q', cb'') s)"
      using Some False moves_eq [OF state_okD [OF q'(1)] k(3), of "keep_count > queue_size q div 2"]
      by (simp only: clear_events_def option.case Let_def if_False k(1) split_conv cb''_def bind.bind_lunit)
    ultimately show ?thesis by blast
  qed (use Some assms in \<open>simp add: clear_events_def\<close>)
qed (use assms in \<open>simp add: clear_events_def\<close>)

subsection \<open>Scheduling and garbage collection\<close>

lemma schedule_ok:
  assumes ok: "gc_ok qs g" "qs queue_id = Some q0" "q_gc q = q_gc q0" and t: "0 \<le> t" "t = 0 \<longrightarrow> live_ids q = {}"
  obtains g' where "schedule_queue_gc queue_id t (q, g) = Some (q\<lparr>q_gc := t\<rparr>, g')"
    "gc_ok (qs(queue_id \<mapsto> q\<lparr>q_gc := t\<rparr>)) g'"
    "set g' = set g - {(q_gc q, queue_id)} \<union> (if t = 0 then {} else {(t, queue_id)})" "distinct g'"
proof -
  have mem: "(u, i) \<in> set g \<longleftrightarrow> (\<exists>p. qs i = Some p \<and> q_gc p = u \<and> u \<noteq> 0)" for u i
    using ok(1) by (simp add: gc_ok_def)
  have sd: "sorted g" "distinct g" using ok(1) by (simp_all add: gc_ok_def)
  define g1 where "g1 = (if q_gc q \<noteq> 0 then remove1 (q_gc q, queue_id) g else g)"
  have g1: "set g1 = set g - {(q_gc q, queue_id)}" "sorted g1" "distinct g1"
    using sd mem [of "q_gc q" queue_id] by (auto simp: g1_def sorted_remove1)
  have in_g: "q_gc q \<noteq> 0 \<Longrightarrow> (q_gc q, queue_id) \<in> set g" using mem ok(2,3) by auto
  have fresh: "(u, queue_id) \<notin> set g1" for u using g1(1) mem ok(2,3) by auto
  define g2 where "g2 = (if t \<noteq> 0 then insort (t, queue_id) g1 else g1)"
  have g2: "set g2 = set g1 \<union> (if t = 0 then {} else {(t, queue_id)})" "sorted g2" "distinct g2"
    using g1 fresh by (auto simp: g2_def set_insort_key sorted_insort distinct_insort)
  have s: "schedule_queue_gc queue_id t (q, g) = Some (q\<lparr>q_gc := t\<rparr>, g2)"
    using in_g fresh by (auto simp: schedule_queue_gc_def g1_def g2_def Let_def)
  have "live_ids (q\<lparr>q_gc := t\<rparr>) = live_ids q" by (simp add: live_ids_def)
  moreover have "(u, i) \<in> set g2 \<longleftrightarrow> (\<exists>p. (qs(queue_id \<mapsto> q\<lparr>q_gc := t\<rparr>)) i = Some p \<and> q_gc p = u \<and> u \<noteq> 0)" for u i
    using mem [of u i] ok(2,3) by (cases "i = queue_id") (auto simp: g2(1) g1(1))
  moreover have "live_ids q \<noteq> {} \<longrightarrow> t \<noteq> 0" using t(2) by blast
  ultimately have "gc_ok (qs(queue_id \<mapsto> q\<lparr>q_gc := t\<rparr>)) g2"
    using ok(1) g2(2,3) t unfolding gc_ok_def by simp
  then show thesis using that [OF s] g2(1,3) g1(1) by simp
qed

text \<open>What a run leaves of each queue.\<close>

definition spared :: "int \<Rightarrow> tqueue \<Rightarrow> tqueue \<Rightarrow> bool" where
  "spared now s s' \<longleftrightarrow> (\<forall>i q. t_queues s i = Some q \<longrightarrow>
     (\<exists>q'. t_queues s' i = Some q' \<and> spares now q q' \<and> q_tail q' = q_tail q \<and> live_ids q' \<subseteq> live_ids q))"

lemma spared_refl [simp]: "spared now s s"
  by (auto simp: spared_def)

lemma spared_trans: "spared now s s' \<Longrightarrow> spared now s' s'' \<Longrightarrow> spared now s s''"
  unfolding spared_def
proof (intro allI impI)
  fix i q assume a: "\<forall>i q. t_queues s i = Some q \<longrightarrow> (\<exists>q'. t_queues s' i = Some q' \<and> spares now q q' \<and>
      q_tail q' = q_tail q \<and> live_ids q' \<subseteq> live_ids q)"
    "\<forall>i q. t_queues s' i = Some q \<longrightarrow> (\<exists>q'. t_queues s'' i = Some q' \<and> spares now q q' \<and>
      q_tail q' = q_tail q \<and> live_ids q' \<subseteq> live_ids q)" "t_queues s i = Some q"
  then obtain q' where q': "t_queues s' i = Some q'" "spares now q q'" "q_tail q' = q_tail q" "live_ids q' \<subseteq> live_ids q"
    by blast
  then obtain q'' where "t_queues s'' i = Some q''" "spares now q' q''" "q_tail q'' = q_tail q'" "live_ids q'' \<subseteq> live_ids q'"
    using a(2) by blast
  then show "\<exists>q'. t_queues s'' i = Some q' \<and> spares now q q' \<and> q_tail q' = q_tail q \<and> live_ids q' \<subseteq> live_ids q"
    using q' spares_trans [OF q'(2)] by auto
qed

definition due :: "int \<Rightarrow> tqueue \<Rightarrow> nat" where
  "due now s = length (filter (\<lambda>x. fst x < now) (t_gc s))"

lemma run_gc_step:
  assumes s: "tqueue_ok s" and g: "t_gc s = (gc_at, queue_id) # g" "gc_at < now"
  obtains q rd ct gc q' cb' s' where "q_gc (queue_at s queue_id) = gc_at" "q = queue_at s queue_id"
    "gc_loop queue_id now (map fst (q_events q)) readings counter 0 (q, t_callback s) = Some (rd, ct, gc, q', cb')"
    "queue_size q' \<le> queue_size q"
    "map_option (\<lambda>(q, g). (put_state queue_id (q, cb') s)\<lparr>t_gc := g\<rparr>) (schedule_queue_gc queue_id gc (q', t_gc s)) = Some s'"
    "tqueue_ok s'" "spared now s s'" "rd = 0 \<or> due now s' < due now s"
proof -
  have gc: "gc_ok (t_queues s) (t_gc s)" using s by (simp add: tqueue_ok_def)
  then obtain q where q: "t_queues s queue_id = Some q" "q_gc q = gc_at" "gc_at \<noteq> 0"
    using g(1) unfolding gc_ok_def by (metis list.set_intros(1))
  have qa: "queue_at s queue_id = q" using q(1) by (simp add: queue_at_def)
  have ok: "state_ok q (t_callback s)" using s q(1) by (simp add: tqueue_ok_def)
  have keys: "distinct (map fst (q_events q))" "set (map fst (q_events q)) \<subseteq> keys_of q"
    using keys_distinct [OF state_okD [OF ok]] keys_events [of q] by simp_all
  obtain rd ct gc q' cb' where loop:
    "gc_loop queue_id now (map fst (q_events q)) readings counter 0 (q, t_callback s) = Some (rd, ct, gc, q', cb')"
    "left_ok q (t_callback s) q' cb'" "spares now q q'" "0 \<le> gc" "gc = 0 \<longrightarrow> live_ids q' \<inter> set (map fst (q_events q)) = {}"
    "rd = 0 \<or> gc = 0 \<or> now \<le> gc"
    using gc_loop_ok [OF ok keys, of 0 now queue_id readings counter] by auto
  have l: "state_ok q' cb'" "shrunk q q'" "same_cb (t_callback s) cb'" using loop(2) by (simp_all add: left_ok_def)
  have sub: "live_ids q' \<subseteq> live_ids q" using shrunk_live [OF l(2)] .
  have "live_ids q \<subseteq> set (map fst (q_events q))" by (auto simp: live_ids_def dest!: map_of_SomeD intro: rev_image_eqI)
  then have "gc = 0 \<longrightarrow> live_ids q' = {}" using loop(5) sub by auto
  then obtain g' where g': "schedule_queue_gc queue_id gc (q', t_gc s) = Some (q'\<lparr>q_gc := gc\<rparr>, g')"
    "gc_ok ((t_queues s)(queue_id \<mapsto> q'\<lparr>q_gc := gc\<rparr>)) g'"
    "set g' = set (t_gc s) - {(q_gc q', queue_id)} \<union> (if gc = 0 then {} else {(gc, queue_id)})" "distinct g'"
    using schedule_ok [OF gc q(1), of q' gc] shrunk_tail(2) [OF l(2)] loop(4) by metis
  define s' where "s' = (put_state queue_id (q'\<lparr>q_gc := gc\<rparr>, cb') s)\<lparr>t_gc := g'\<rparr>"
  have other: "state_ok p cb'" if "state_ok p (t_callback s)" for p using state_ok_cb [OF that l(3)] .
  have "state_ok (q'\<lparr>q_gc := gc\<rparr>) cb'" using l(1) by (simp add: state_ok_def queue_ok_def queue_kept_def)
  then have "tqueue_ok s'"
    using s g'(2) other shrunk_nonempty [OF l(2)] q(1) l(3) by (simp add: tqueue_ok_def s'_def same_cb_def)
  moreover have "spared now s s'"
    using loop(3) q(1) shrunk_tail(1) [OF l(2)] sub by (auto simp: spared_def s'_def spares_def live_ids_def)
  moreover have "rd = 0 \<or> due now s' < due now s"
  proof (cases "rd = 0")
    case False
    then have "gc = 0 \<or> now \<le> gc" using loop(6) by simp
    then have "set (filter (\<lambda>x. fst x < now) g') \<subseteq> set (filter (\<lambda>x. fst x < now) (t_gc s))"
      using g'(3) by (auto split: if_splits)
    moreover have "(gc_at, queue_id) \<in> set (filter (\<lambda>x. fst x < now) (t_gc s))" using g by simp
    moreover have "(gc_at, queue_id) \<notin> set (filter (\<lambda>x. fst x < now) g')"
      using g'(3) g(2) q(2) shrunk_tail(2) [OF l(2)] \<open>gc = 0 \<or> now \<le> gc\<close> by (auto split: if_splits)
    ultimately have "set (filter (\<lambda>x. fst x < now) g') \<subset> set (filter (\<lambda>x. fst x < now) (t_gc s))" by blast
    moreover have "distinct (t_gc s)" using gc by (simp add: gc_ok_def)
    ultimately show ?thesis
      using g'(4) by (simp add: due_def s'_def distinct_length_filter psubset_card_mono flip: set_filter distinct_card)
  qed simp
  moreover have "queue_size q' \<le> queue_size q"
    using shrunk_size [OF l(2) state_okD [OF ok] state_okD [OF l(1)]] .
  ultimately show thesis
    by (intro that [of q rd ct gc q' cb' s']) (use q(2) qa loop(1) in \<open>simp_all only: s'_def g'(1) option.map split_conv\<close>)
qed

lemma run_gc_loop_ok:
  assumes "tqueue_ok s" "due now s < fuel"
  shows "\<exists>n fin s'. run_gc_loop fuel now readings counter deleted s = Some ((n, fin), s') \<and> tqueue_ok s' \<and>
    spared now s s' \<and> (fin \<longrightarrow> (\<forall>x \<in> set (t_gc s'). now \<le> fst x))"
  using assms
proof (induction fuel arbitrary: readings counter deleted s)
  case (Suc fuel)
  show ?case
  proof (cases "\<exists>gc_at queue_id g. t_gc s = (gc_at, queue_id) # g \<and> gc_at < now")
    case False
    have sorted: "sorted (t_gc s)" using Suc.prems(1) by (simp add: tqueue_ok_def gc_ok_def)
    have "now \<le> fst x" if "x \<in> set (t_gc s)" for x
    proof (cases "t_gc s")
      case (Cons y g)
      then have "y \<le> x" using sorted that by auto
      then have "fst y \<le> fst x" by (cases x; cases y) auto
      moreover have "now \<le> fst y" using False Cons by (cases y) auto
      ultimately show ?thesis by simp
    qed (use that in simp)
    moreover have "run_gc_loop (Suc fuel) now readings counter deleted s = Some ((deleted, True), s)"
      using False by (cases "t_gc s") auto
    ultimately show ?thesis using Suc.prems(1) by (intro exI conjI) auto
  next
    case True
    then obtain gc_at queue_id g where g: "t_gc s = (gc_at, queue_id) # g" "gc_at < now" by blast
    obtain q rd ct gc q' cb' s' where step: "q_gc (queue_at s queue_id) = gc_at" "q = queue_at s queue_id"
      "gc_loop queue_id now (map fst (q_events q)) readings counter 0 (q, t_callback s) = Some (rd, ct, gc, q', cb')"
      "queue_size q' \<le> queue_size q"
      "map_option (\<lambda>(q, g). (put_state queue_id (q, cb') s)\<lparr>t_gc := g\<rparr>) (schedule_queue_gc queue_id gc (q', t_gc s)) = Some s'"
      "tqueue_ok s'" "spared now s s'" "rd = 0 \<or> due now s' < due now s"
      by (rule run_gc_step [OF Suc.prems(1) g, of readings counter])
    obtain q'' g'' where sch: "schedule_queue_gc queue_id gc (q', t_gc s) = Some (q'', g'')"
      "s' = (put_state queue_id (q'', cb') s)\<lparr>t_gc := g''\<rparr>" using step(5) by auto
    have run: "run_gc_loop (Suc fuel) now readings counter deleted s =
      (if rd = 0 then Some ((deleted + (queue_size q - queue_size q'), False), s')
       else run_gc_loop fuel now (rd - 1) ct (deleted + (queue_size q - queue_size q')) s')"
      using g step(1-4) sch by (simp add: deadline_def)
    show ?thesis
    proof (cases "rd = 0")
      case True
      then show ?thesis unfolding run using step(6,7)
        by (intro exI [of _ "deleted + (queue_size q - queue_size q')"] exI [of _ False] exI [of _ s']) simp
    next
      case False
      then have "due now s' < fuel" using step(8) Suc.prems(2) by simp
      then obtain n fin s'' where "run_gc_loop fuel now (rd - 1) ct (deleted + (queue_size q - queue_size q')) s' = Some ((n, fin), s'')"
        "tqueue_ok s''" "spared now s' s''" "fin \<longrightarrow> (\<forall>x \<in> set (t_gc s''). now \<le> fst x)"
        using Suc.IH [OF step(6)] by blast
      then show ?thesis unfolding run using False spared_trans [OF step(7)] by simp
    qed
  qed
qed simp

lemma run_gc_ok:
  assumes "tqueue_ok s"
  shows "\<exists>n fin s'. run_gc now readings s = Some ((n, fin), s') \<and> tqueue_ok s' \<and> spared now s s' \<and>
    (fin \<longrightarrow> (\<forall>x \<in> set (t_gc s'). now \<le> fst x))"
proof -
  have "due now s < length (t_gc s) + 1" by (simp add: due_def less_Suc_eq_le)
  from run_gc_loop_ok [OF assms this] show ?thesis unfolding run_gc_def .
qed

subsection \<open>Adding\<close>

lemma drop_tombstone_ok:
  assumes "state_ok q cb"
  obtains q' cb' where "drop_tombstone (q, cb) = (q', cb')" "queue_ok q'" "q_gc q' = q_gc q" "q_tail q' = q_tail q"
    "\<forall>x \<in> set (q_events q'). live (snd x)" "q_events q' = filter (\<lambda>x. live (snd x)) (q_events q)"
    "q_total q' = q_total q" "same_cb cb cb'" "cb \<noteq> None \<longrightarrow> (\<forall>x \<in> set (q_events q'). e_log (snd x) \<noteq> 0)"
    "live_ids q' = live_ids q"
proof -
  note q = state_okD [OF assms]
  have alive: "filter (\<lambda>x. live (snd x)) (q_events q) = q_events q" if "\<forall>x \<in> set (q_events q). live (snd x)"
    using that by (simp add: filter_id_conv)
  have kept: "cb \<noteq> None \<Longrightarrow> \<forall>x \<in> set (q_events q). e_log (snd x) \<noteq> 0"
    using assms by (auto simp: state_ok_def queue_kept_def)
  show thesis
  proof (cases "\<exists>k e. (k, e) \<in> set (q_events q) \<and> \<not> live e")
    case False
    then have live: "\<forall>x \<in> set (q_events q). live (snd x)" by auto
    have "drop_tombstone (q, cb) = (q, cb)"
    proof (cases "q_events q = []")
      case ne: False
      then have "live (snd (last (q_events q)))" using live by (metis last_in_set)
      then show ?thesis by (simp add: drop_tombstone_def split_beta)
    qed (simp add: drop_tombstone_def)
    then show thesis using that [of q cb] q live alive kept by simp
  next
    case True
    then obtain k e where e: "(k, e) \<in> set (q_events q)" "\<not> live e" by blast
    note l = tombstone_last [OF q e]
    have ne: "q_events q \<noteq> []" using e(1) by auto
    have m: "map_of (q_events q) k = Some e" using e(1) q by (simp add: queue_ok_def map_of_omap)
    have rem: "remove_event k q = q\<lparr>q_events := omap_del k (q_events q)\<rparr>"
      using e(2) m by (cases q) (simp add: remove_event_def)
    have om: "omap (butlast (q_events q) @ [(k, e)])" using q l(3) by (simp add: queue_ok_def)
    have del: "omap_del k (q_events q) = butlast (q_events q)"
      using omap_split(3) [of "butlast (q_events q)" k e "[]"] om l(3) by simp
    define cb' where "cb' = (case cb of Some ms \<Rightarrow> if e_log e \<noteq> 0 then Some (ms_pop (e_log e) ms) else cb | None \<Rightarrow> cb)"
    have d: "drop_tombstone (q, cb) = (remove_event k q, cb')"
      unfolding rem using ne l(2) e(2) by (simp add: drop_tombstone_def cb'_def)
    have ev: "q_events (remove_event k q) = butlast (q_events q)" by (simp add: rem del)
    have other: "live (snd x)" if "x \<in> set (butlast (q_events q))" for x
    proof (rule ccontr)
      assume "\<not> live (snd x)"
      then have "fst x + 1 = q_tail q" using tombstone_last(1) [OF q, of "fst x" "snd x"] in_set_butlastD [OF that] by simp
      moreover have "fst x < k" using om that by (auto simp: omap_append)
      ultimately show False using l(1) by simp
    qed
    have f: "filter (\<lambda>x. live (snd x)) (q_events q) = butlast (q_events q)"
    proof -
      have "filter (\<lambda>x. live (snd x)) (butlast (q_events q) @ [(k, e)]) = butlast (q_events q)"
        using other e(2) by (simp add: filter_id_conv)
      then show ?thesis using l(3) by simp
    qed
    have "live_ids (remove_event k q) = live_ids q"
      using m e(2) by (auto simp: live_ids_def remove_event_ok(3) [OF q m])
    moreover have "same_cb cb cb'" by (auto simp: cb'_def same_cb_def split: option.split)
    moreover have "cb \<noteq> None \<longrightarrow> (\<forall>x \<in> set (butlast (q_events q)). e_log (snd x) \<noteq> 0)"
      using kept by (auto dest: in_set_butlastD)
    moreover have "q_gc (remove_event k q) = q_gc q" "q_tail (remove_event k q) = q_tail q"
      "q_total (remove_event k q) = q_total q" by (simp_all add: rem)
    ultimately show thesis
      by (intro that [OF d remove_event_ok(1) [OF q m]]) (simp_all only: ev f, use other in blast)
  qed
qed

lemma gc_ok_touch: "gc_ok (t_queues s) g \<Longrightarrow> gc_ok ((t_queues s)(queue_id \<mapsto> queue_at s queue_id)) g"
  by (cases "t_queues s queue_id") (auto simp: gc_ok_def queue_at_def)

text \<open>The logged event.\<close>

definition logged :: "memory_storage option \<Rightarrow> raw_event \<Rightarrow> raw_event" where
  "logged cb e = (case cb of Some ms \<Rightarrow> if e_log e = 0 then e\<lparr>e_log := ms_next ms\<rparr> else e | None \<Rightarrow> e)"

lemma log_event_eq:
  obtains cb' where "log_event queue_id e cb = (logged cb e, cb')" "(cb' = None) = (cb = None)"
    "map_option ms_next cb \<noteq> Some 0 \<longrightarrow> map_option ms_next cb' \<noteq> Some 0"
    "\<And>ms. cb = Some ms \<Longrightarrow> cb' = Some (if e_log e = 0 then snd (ms_push queue_id e ms) else ms)"
  by (cases cb) (auto simp: log_event_def logged_def ms_push_def)

lemma logged_fields [simp]:
  "e_id (logged cb e) = e_id e" "e_data (logged cb e) = e_data e" "e_expires (logged cb e) = e_expires e"
  "e_extra (logged cb e) = e_extra e"
  by (simp_all add: logged_def split: option.split)

lemma max_lengths: "MAX_EVENT_LENGTH \<le> MAX_TOTAL_EVENT_LENGTH"
  by (simp add: MAX_EVENT_LENGTH_def MAX_TOTAL_EVENT_LENGTH_def)

lemma total_of_filter: "total_of (filter (\<lambda>x. live (snd x)) ev) = total_of ev"
  by (induction ev) auto

text \<open>
  An event that the guards let through is added at the end, without the tombstone.  The lemma is for a state
  whose queue need not have an event yet for its next identifier, as in the middle of \<open>push\<close>.
\<close>

lemma gc_ok_live: "gc_ok qs g \<Longrightarrow> qs i = Some q \<Longrightarrow> live_ids q \<noteq> {} \<Longrightarrow> q_gc q \<noteq> 0"
  unfolding gc_ok_def by blast

lemma gc_ok_update:
  assumes "gc_ok qs g" "qs i = Some q" "q_gc q' = q_gc q" "live_ids q' \<noteq> {} \<longrightarrow> q_gc q \<noteq> 0"
  shows "gc_ok (qs(i \<mapsto> q')) g"
  using assms unfolding gc_ok_def by auto

lemma map_of_append_last: "map_of (m @ [(k, v)]) k' = (case map_of m k' of Some w \<Rightarrow> Some w | None \<Rightarrow> if k' = k then Some v else None)"
  by (simp add: map_add_def split: option.split)

lemma live_ids_append:
  assumes "q_events q' = q_events q @ [(k, e)]" "\<forall>x \<in> set (q_events q). fst x < k"
  shows "live_ids q' = live_ids q \<union> (if live e then {k} else {})"
proof -
  have "map_of (q_events q) k = None" using assms(2) by (auto simp: map_of_eq_None_iff)
  then show ?thesis unfolding live_ids_def assms(1) map_of_append_last by (auto split: option.splits if_splits)
qed

lemma do_push_adds:
  fixes s :: tqueue and queue_id :: int and q :: queue
  assumes qdef: "q = queue_at s queue_id" and gc: "gc_ok (t_queues s) (t_gc s)"
    and q: "queue_ok q" "t_callback s \<noteq> None \<longrightarrow> (\<forall>x \<in> set (q_events q). e_log (snd x) \<noteq> 0)"
      "map_option ms_next (t_callback s) \<noteq> Some 0"
    and e: "0 < e_id e" "e_id e + 1 < MAX_ID" "q_tail q \<le> e_id e" "0 < e_expires e" "length (e_data e) \<le> MAX_EVENT_LENGTH"
    and room: "queue_id \<noteq> 0" "length (q_events q) < MAX_QUEUE_EVENTS"
      "q_total q \<le> MAX_TOTAL_EVENT_LENGTH - length (e_data e)"
  obtains s' q' cb1 where "do_push queue_id e s = Some (True, s')" "t_queues s' = (t_queues s)(queue_id \<mapsto> q')"
    "q_events q' = filter (\<lambda>x. live (snd x)) (q_events q) @ [(e_id e, logged cb1 e)]" "q_tail q' = e_id e + 1"
    "q_total q' = q_total q + length (e_data e)" "queue_ok q'" "gc_ok (t_queues s') (t_gc s')"
    "(t_callback s' = None) = (t_callback s = None)" "map_option ms_next (t_callback s') \<noteq> Some 0"
    "snd (drop_tombstone (q, t_callback s)) = cb1" "t_callback s' = snd (log_event queue_id e cb1)"
    "t_callback s \<noteq> None \<longrightarrow> queue_kept q'"
proof -
  have so: "state_ok q None" using q(1) by (simp add: state_ok_def)
  obtain q1 cb1 where d: "drop_tombstone (q, t_callback s) = (q1, cb1)" by (cases "drop_tombstone (q, t_callback s)")
  have "fst (drop_tombstone (q, cb)) = fst (drop_tombstone (q, None))" for cb
    by (simp add: drop_tombstone_def split_beta)
  then have "fst (drop_tombstone (q, None)) = q1" using d by (metis fst_conv)
  then have q1: "queue_ok q1" "q_gc q1 = q_gc q" "q_tail q1 = q_tail q"
    "q_events q1 = filter (\<lambda>x. live (snd x)) (q_events q)" "q_total q1 = q_total q" "live_ids q1 = live_ids q"
    using drop_tombstone_ok [OF so] by (metis fst_conv)+
  have alive: "\<forall>x \<in> set (q_events q1). live (snd x)" unfolding q1(4) by simp
  have cb1: "same_cb (t_callback s) cb1"
    using d by (auto simp: drop_tombstone_def same_cb_def split_beta split: if_splits option.splits)
  define qs where "qs = (t_queues s)(queue_id \<mapsto> q)"
  have gcs: "gc_ok qs (t_gc s)" "qs queue_id = Some q" using gc_ok_touch [OF gc, of queue_id] by (simp_all add: qs_def qdef)
  define g where "g = (if q_events q1 = [] \<and> live e then e_expires e else q_gc q)"
  have lt: "\<forall>x \<in> set (q_events q1). fst x < e_id e"
    using q1(1,3) e(3) by (auto simp: queue_ok_def event_ok_def)
  obtain g' where g': "(if q_events q1 = [] \<and> live e then schedule_queue_gc queue_id (e_expires e) (q1, t_gc s)
      else Some (q1, t_gc s)) = Some (q1\<lparr>q_gc := g\<rparr>, g')" "gc_ok (qs(queue_id \<mapsto> q1\<lparr>q_gc := g\<rparr>)) g'"
    "live e \<or> live_ids q1 \<noteq> {} \<longrightarrow> g \<noteq> 0"
  proof (cases "q_events q1 = [] \<and> live e")
    case True
    then show thesis
      using schedule_ok [OF gcs q1(2), of "e_expires e"] e(4) that by (auto simp: g_def)
  next
    case False
    have lq: "live_ids q1 \<noteq> {} \<longrightarrow> q_gc q \<noteq> 0" using gc_ok_live [OF gcs] q1(6) by simp
    have "live e \<longrightarrow> live_ids q1 \<noteq> {}"
    proof
      assume "live e"
      then obtain x xs where x: "q_events q1 = x # xs" using False by (cases "q_events q1") auto
      then have "live (snd x)" using alive by simp
      then show "live_ids q1 \<noteq> {}" using x by (cases x) (auto simp: live_ids_def)
    qed
    then have "live e \<or> live_ids q1 \<noteq> {} \<longrightarrow> g \<noteq> 0" using lq False by (auto simp: g_def)
    moreover have "q1\<lparr>q_gc := g\<rparr> = q1" using q1(2) False by (cases q1) (auto simp: g_def)
    ultimately show thesis using that [of "t_gc s"] False gc_ok_update [OF gcs q1(2) lq] by simp
  qed
  obtain cb2 where l: "log_event queue_id e cb1 = (logged cb1 e, cb2)" "(cb2 = None) = (cb1 = None)"
    "map_option ms_next cb1 \<noteq> Some 0 \<longrightarrow> map_option ms_next cb2 \<noteq> Some 0"
    by (rule log_event_eq [of queue_id e cb1]) blast
  define q' where "q' = q1\<lparr>q_gc := g, q_tail := e_id e + 1, q_total := q_total q1 + length (e_data e),
    q_events := q_events q1 @ [(e_id e, logged cb1 e)]\<rparr>"
  define s' where "s' = (put_queue queue_id q' (put_queue queue_id q s))\<lparr>t_gc := g', t_callback := cb2\<rparr>"
  have valid: "id_is_valid (e_id e)" using e by (simp add: id_is_valid_def is_valid_id_def id_empty_def)
  have no: "\<not> (length (e_data e) > MAX_EVENT_LENGTH \<or> queue_id = 0)"
    "\<not> (length (q_events q) \<ge> MAX_QUEUE_EVENTS \<or> q_total q > MAX_TOTAL_EVENT_LENGTH - length (e_data e) \<or> e_expires e \<le> 0)"
    "\<not> e_id e < q_tail q" using e room by auto
  have next': "ok (next_id (e_id e)) = Some (e_id e + 1)" using next_id_ok [of "e_id e"] e by simp
  have push: "do_push queue_id e s = Some (True, s')"
    unfolding do_push_def Let_def qdef [symmetric] put_fields d split_conv
    using valid no g'(1) l(1) next' omap_emplace_last [OF lt, of "logged cb1 e"]
    by (simp add: s'_def q'_def)
  have ev: "q_events q' = filter (\<lambda>x. live (snd x)) (q_events q) @ [(e_id e, logged cb1 e)]"
    by (simp add: q'_def q1(4))
  have tq: "t_queues s' = (t_queues s)(queue_id \<mapsto> q')" by (simp add: s'_def)
  have "length (q_events q1) < MAX_QUEUE_EVENTS" using room(2) by (simp add: q1(4) le_less_trans [OF length_filter_le])
  moreover have "q_total q + length (e_data e) \<le> MAX_TOTAL_EVENT_LENGTH"
    using room(3) e(5) max_lengths by linarith
  ultimately have "queue_ok q'"
    using alive q1(1,3,5) lt e by (auto simp: queue_ok_def q'_def omap_append omap_Cons event_ok_def)
  moreover have "gc_ok (t_queues s') (t_gc s')"
  proof -
    have lv: "live_ids q' = live_ids q1 \<union> (if live e then {e_id e} else {})"
      using live_ids_append [OF _ lt, of q' "logged cb1 e"] by (simp add: q'_def)
    have "live_ids q' \<noteq> {} \<longrightarrow> q_gc (q1\<lparr>q_gc := g\<rparr>) \<noteq> 0" using g'(3) lv by (auto split: if_splits)
    then have "gc_ok (qs(queue_id \<mapsto> q1\<lparr>q_gc := g\<rparr>, queue_id \<mapsto> q')) g'"
      by (intro gc_ok_update [OF g'(2), where q = "q1\<lparr>q_gc := g\<rparr>"]) (simp_all add: q'_def)
    then show ?thesis by (simp add: s'_def qs_def)
  qed
  moreover have "t_callback s \<noteq> None \<longrightarrow> queue_kept q'"
  proof
    assume cb: "t_callback s \<noteq> None"
    then obtain ms where ms: "cb1 = Some ms" using same_cb_None [OF cb1] by auto
    then have "map_option ms_next (t_callback s) = Some (ms_next ms)" using cb1 by (simp add: same_cb_def)
    then have "ms_next ms \<noteq> 0" using q(3) by auto
    then have "e_log (logged cb1 e) \<noteq> 0" by (simp add: logged_def ms)
    moreover have "\<forall>x \<in> set (q_events q1). e_log (snd x) \<noteq> 0" using q(2) cb by (simp add: q1(4))
    ultimately show "queue_kept q'" by (simp add: queue_kept_def q'_def)
  qed
  moreover have "(t_callback s' = None) = (t_callback s = None)"
    using l(2) same_cb_None [OF cb1] by (simp add: s'_def)
  moreover have "map_option ms_next (t_callback s') \<noteq> Some 0"
  proof -
    have "map_option ms_next cb1 \<noteq> Some 0" unfolding cb1 [unfolded same_cb_def] by (rule q(3))
    moreover have "t_callback s' = cb2" by (simp add: s'_def)
    ultimately show ?thesis using l(3) by blast
  qed
  moreover have "q_tail q' = e_id e + 1" "q_total q' = q_total q + length (e_data e)"
    "snd (drop_tombstone (q, t_callback s)) = cb1" "t_callback s' = snd (log_event queue_id e cb1)"
    using d l(1) by (simp_all add: q'_def q1(5) s'_def)
  ultimately show thesis by - (rule that [OF push tq ev]; assumption)
qed

text \<open>Choosing an identifier; both identifiers the caller supplies must have a successor.\<close>

definition hint_ok :: "int \<Rightarrow> bool" where
  "hint_ok h \<longleftrightarrow> 0 \<le> h \<and> h + 1 < MAX_ID"

definition random_ok :: "int \<Rightarrow> bool" where
  "random_ok r \<longleftrightarrow> 2 * max (int MAX_QUEUE_EVENTS) 1000000 + 1 \<le> r \<and> r \<le> MAX_ID div 2"

text \<open>Popping for good, when no identifier is the next one.\<close>

lemma pop_all_zero:
  assumes "queue_ok q"
  shows "\<exists>cb'. pop_all queue_id 0 (map fst (q_events q)) (q, cb) = Some (q\<lparr>q_events := [], q_total := 0\<rparr>, cb') \<and> same_cb cb cb'"
  using assms
proof (induction "q_events q" arbitrary: q cb)
  case Nil
  then have "q\<lparr>q_events := [], q_total := 0\<rparr> = q" by (cases q) (simp add: queue_ok_def)
  then show ?case using Nil by simp
next
  case (Cons x xs)
  obtain k e where x: "x = (k, e)" by (cases x)
  have ev: "q_events q = (k, e) # xs" using Cons x by simp
  have e: "map_of (q_events q) k = Some e" by (simp add: ev)
  have r: "q_events (remove_event k q) = xs"
    using omap_split(3) [of "[]" k e xs] Cons.prems ev by (simp add: remove_event_def queue_ok_def)
  have k: "0 < k" using Cons.prems ev by (auto simp: queue_ok_def event_ok_def)
  have tail: "(remove_event k q)\<lparr>q_events := [], q_total := 0\<rparr> = q\<lparr>q_events := [], q_total := 0\<rparr>"
    by (simp add: remove_event_def e)
  show ?case
  proof (cases rule: pop_cases [OF Cons.prems e, of 0 queue_id cb])
    case 1
    then show ?case by simp
  next
    case (2 cb')
    have "same_cb cb cb'" using 2(2) by (auto simp: same_cb_def split: option.splits if_splits)
    moreover obtain cb'' where "pop_all queue_id 0 (map fst xs) (remove_event k q, cb') =
        Some (q\<lparr>q_events := [], q_total := 0\<rparr>, cb'')" "same_cb cb' cb''"
      using Cons.hyps(1) [OF r [symmetric] remove_event_ok(1) [OF Cons.prems e], of cb'] r tail by auto
    ultimately show ?thesis using ev 2(1) by (auto simp: same_cb_def)
  next
    case (3 ms)
    then show ?thesis using k by simp
  next
    case (4 ms)
    then show ?thesis using k by simp
  qed
qed

lemma from_int32_ok: "0 \<le> n \<Longrightarrow> n < MAX_ID \<Longrightarrow> from_int32 n = Some (Inr n)"
  by (simp add: from_int32_def event_id_of_def is_valid_id_def)

lemma choose_id_ok:
  assumes q: "state_ok q cb" and hint: "hint_ok hint" and rnd: "random_ok rnd"
  defines "n \<equiv> (if q_tail q \<noteq> 0 \<and> q_tail q + 1 < MAX_ID then q_tail q else if hint \<noteq> 0 then hint else rnd)"
  shows "0 < n \<and> n + 1 < MAX_ID \<and>
    (if q_tail q + 1 < MAX_ID then choose_id 2 rnd hint queue_id (q, cb) = Some (n, q\<lparr>q_tail := n\<rparr>, cb)
     else (\<exists>cb'. choose_id 2 rnd hint queue_id (q, cb) = Some (n, q\<lparr>q_events := [], q_total := 0, q_tail := n\<rparr>, cb') \<and> same_cb cb cb'))"
proof -
  have r: "0 < rnd" "rnd + 1 < MAX_ID" using rnd by (auto simp: random_ok_def MAX_ID_def MAX_QUEUE_EVENTS_def)
  have h: "0 \<le> hint" "hint + 1 < MAX_ID" using hint by (simp_all add: hint_ok_def)
  have t: "0 \<le> q_tail q" "q_tail q < MAX_ID" using state_okD [OF q] by (simp_all add: queue_ok_def)
  have n: "0 < n" "n + 1 < MAX_ID" unfolding n_def using r h t by auto
  have valid: "id_is_valid m" if "0 < m" "m < MAX_ID" for m
    using that by (simp add: id_is_valid_def id_empty_def is_valid_id_def)
  have full: "next_id (q_tail q) = Some (Error ''Invalid ID'')" if "\<not> q_tail q + 1 < MAX_ID"
    using that by (simp add: next_id_def from_int32_def is_valid_id_def)
  have fresh: "choose_id (Suc fuel) rnd hint queue_id (p, cb') = Some (m, p\<lparr>q_tail := m\<rparr>, cb')"
    if "q_tail p = 0" "m = (if hint \<noteq> 0 then hint else rnd)" for p cb' m fuel
    using that r h by (auto simp: id_empty_def valid next_id_ok from_int32_ok)
  show ?thesis
  proof (cases "q_tail q + 1 < MAX_ID")
    case True
    show ?thesis
    proof (cases "q_tail q = 0")
      case z: True
      then show ?thesis using n True fresh [of q n "Suc 0" cb] by (simp add: n_def numeral_2_eq_2)
    next
      case False
      have "choose_id (Suc (Suc 0)) rnd hint queue_id (q, cb) = Some (q_tail q, q, cb)"
        using False t True by (simp add: id_empty_def valid next_id_ok)
      moreover have "n = q_tail q" "q\<lparr>q_tail := n\<rparr> = q" using False True by (simp_all add: n_def)
      ultimately show ?thesis using n True by (simp add: numeral_2_eq_2)
    qed
  next
    case False
    obtain cb' where p: "pop_all queue_id 0 (map fst (q_events q)) (q, cb) = Some (q\<lparr>q_events := [], q_total := 0\<rparr>, cb')"
      "same_cb cb cb'" using pop_all_zero [OF state_okD [OF q]] by blast
    have tq: "q_tail q \<noteq> 0" "0 < q_tail q" using False t by (auto simp: MAX_ID_def)
    have "choose_id (Suc (Suc 0)) rnd hint queue_id (q, cb) =
        choose_id (Suc 0) rnd hint queue_id (q\<lparr>q_events := [], q_total := 0, q_tail := 0\<rparr>, cb')"
      using tq t p(1) full [OF False] h
      by (subst choose_id.simps(2)) (simp add: id_empty_def valid next_id_ok Let_def del: choose_id.simps)
    also have "\<dots> = Some (n, q\<lparr>q_events := [], q_total := 0, q_tail := n\<rparr>, cb')"
      using fresh [of "q\<lparr>q_events := [], q_total := 0, q_tail := 0\<rparr>" n 0 cb'] False by (simp add: n_def)
    finally show ?thesis using n False p(2) by (auto simp: numeral_2_eq_2)
  qed
qed

text \<open>What \<open>push\<close> does when no guard refuses the event.\<close>

definition push_guards :: "int \<Rightarrow> bytes \<Rightarrow> int \<Rightarrow> tqueue \<Rightarrow> bool" where
  "push_guards queue_id data expires_at s \<longleftrightarrow> data \<noteq> [] \<and> length data \<le> MAX_EVENT_LENGTH \<and> queue_id \<noteq> 0 \<and>
     length (q_events (queue_at s queue_id)) < MAX_QUEUE_EVENTS \<and>
     q_total (queue_at s queue_id) \<le> MAX_TOTAL_EVENT_LENGTH - length data \<and> 0 < expires_at"

definition fresh_id :: "int \<Rightarrow> int \<Rightarrow> queue \<Rightarrow> int" where
  "fresh_id hint rnd q =
     (if q_tail q \<noteq> 0 \<and> q_tail q + 1 < MAX_ID then q_tail q else if hint \<noteq> 0 then hint else rnd)"

lemma push_refused:
  assumes "tqueue_ok s" "\<not> push_guards queue_id data expires_at s"
  shows "\<exists>m s'. push queue_id data expires_at extra hint rnd s = Some (Error m, s') \<and> tqueue_ok s' \<and>
    (\<forall>i. queue_at s' i = queue_at s i) \<and> t_callback s' = t_callback s"
proof -
  have touch: "tqueue_ok (put_queue queue_id (queue_at s queue_id) s)" by (rule tqueue_ok_touch [OF assms(1)])
  have same: "queue_at (put_queue queue_id (queue_at s queue_id) s) i = queue_at s i" for i
    by (simp add: queue_at_def)
  let ?q = "queue_at s queue_id"
  let ?r = "\<lambda>m s'. push queue_id data expires_at extra hint rnd s = Some (Error m, s')"
  have "?r ''Data is empty'' s \<or> ?r ''Data is too big'' s \<or> ?r ''Queue identifier is invalid'' s \<or>
      ?r ''Queue is full'' (put_queue queue_id ?q s) \<or> ?r ''Queue size is too big'' (put_queue queue_id ?q s) \<or>
      ?r ''Failed to add already expired event'' (put_queue queue_id ?q s)"
  proof (cases "data = [] \<or> length data > MAX_EVENT_LENGTH \<or> queue_id = 0")
    case True
    then show ?thesis by (cases "data = []"; cases "length data > MAX_EVENT_LENGTH") (simp_all add: push_def)
  next
    case False
    then have p: "push queue_id data expires_at extra hint rnd s =
        (if length (q_events ?q) \<ge> MAX_QUEUE_EVENTS then Some (Error ''Queue is full'', put_queue queue_id ?q s)
         else if q_total ?q > MAX_TOTAL_EVENT_LENGTH - length data
         then Some (Error ''Queue size is too big'', put_queue queue_id ?q s)
         else Some (Error ''Failed to add already expired event'', put_queue queue_id ?q s))"
      using assms(2) unfolding push_def Let_def push_guards_def by (simp only: if_False de_Morgan_disj simp_thms if_split) auto
    show ?thesis unfolding p by (simp split: if_split)
  qed
  then have "(\<exists>m. ?r m s) \<or> (\<exists>m. ?r m (put_queue queue_id ?q s))" by blast
  then show ?thesis
  proof
    assume "\<exists>m. ?r m s"
    then show ?thesis using assms(1) by blast
  next
    assume "\<exists>m. ?r m (put_queue queue_id ?q s)"
    then show ?thesis using touch same put_fields(3) by blast
  qed
qed

lemma push_added:
  assumes s: "tqueue_ok s" and g: "push_guards queue_id data expires_at s" and hint: "hint_ok hint" and rnd: "random_ok rnd"
  defines "q \<equiv> queue_at s queue_id"
  defines "n \<equiv> fresh_id hint rnd (queue_at s queue_id)"
  shows "\<exists>s' e. push queue_id data expires_at extra hint rnd s = Some (Inr n, s') \<and> tqueue_ok s' \<and>
    0 < n \<and> n + 1 < MAX_ID \<and> get_tail queue_id s' = n + 1 \<and>
    q_events (queue_at s' queue_id) =
      (if q_tail q + 1 < MAX_ID then filter (\<lambda>x. live (snd x)) (q_events q) else []) @ [(n, e)] \<and>
    e_id e = n \<and> e_data e = data \<and> e_expires e = expires_at \<and> e_extra e = extra \<and>
    (\<forall>i. i \<noteq> queue_id \<longrightarrow> t_queues s' i = t_queues s i)"
proof -
  have q: "state_ok q (t_callback s)" using queue_at_ok [OF s] by (simp add: q_def)
  note qo = state_okD [OF q]
  have kept: "t_callback s \<noteq> None \<longrightarrow> (\<forall>x \<in> set (q_events q). e_log (snd x) \<noteq> 0)"
    using q by (auto simp: state_ok_def queue_kept_def)
  note choice = choose_id_ok [OF q hint rnd, of queue_id]
  have n: "n = (if q_tail q \<noteq> 0 \<and> q_tail q + 1 < MAX_ID then q_tail q else if hint \<noteq> 0 then hint else rnd)"
    by (simp add: n_def fresh_id_def q_def)
  define q1 where "q1 = (if q_tail q + 1 < MAX_ID then q\<lparr>q_tail := n\<rparr> else q\<lparr>q_events := [], q_total := 0, q_tail := n\<rparr>)"
  obtain cb' where c: "choose_id 2 rnd hint queue_id (q, t_callback s) = Some (n, q1, cb')" "same_cb (t_callback s) cb'"
    using choice unfolding n [symmetric] q1_def by (auto split: if_splits)
  have n0: "0 < n" "n + 1 < MAX_ID" using choice unfolding n [symmetric] by blast+
  have events1: "q_events q1 = (if q_tail q + 1 < MAX_ID then q_events q else [])" "q_tail q1 = n" "q_gc q1 = q_gc q"
    by (simp_all add: q1_def)
  have empty: "q_tail q = 0 \<Longrightarrow> q_events q = []"
    using qo by (cases "q_events q") (auto simp: queue_ok_def event_ok_def)
  have q1o: "queue_ok q1"
  proof (cases "q_tail q + 1 < MAX_ID")
    case True
    show ?thesis
    proof (cases "q_tail q = 0")
      case z: True
      then show ?thesis using qo n0 True empty by (simp add: queue_ok_def q1_def)
    next
      case False
      then have "q1 = q" using True by (simp add: q1_def n)
      then show ?thesis using qo by simp
    qed
  qed (use qo n0 in \<open>simp add: queue_ok_def q1_def\<close>)
  have lv: "live_ids q1 \<subseteq> live_ids q" by (auto simp: live_ids_def events1 split: if_splits)
  define e where "e = \<lparr>e_log = 0, e_id = n, e_expires = expires_at, e_data = data, e_extra = extra\<rparr>"
  define s1 where "s1 = put_state queue_id (q1, cb') (put_queue queue_id q s)"
  have gcs: "gc_ok ((t_queues s)(queue_id \<mapsto> q)) (t_gc s)"
    using s gc_ok_touch [of s "t_gc s" queue_id] by (simp add: tqueue_ok_def q_def)
  have "live_ids q1 \<noteq> {} \<longrightarrow> q_gc q \<noteq> 0" using gc_ok_live [OF gcs, of queue_id q] lv by auto
  then have gc1: "gc_ok (t_queues s1) (t_gc s1)"
    using gc_ok_update [OF gcs, of queue_id q q1] events1(3) by (simp add: s1_def)
  have at1: "queue_at s1 queue_id = q1" by (simp add: s1_def queue_at_def)
  have kept1: "t_callback s1 \<noteq> None \<longrightarrow> (\<forall>x \<in> set (q_events q1). e_log (snd x) \<noteq> 0)"
    using kept same_cb_None [OF c(2)] by (auto simp: s1_def events1(1) split: if_splits)
  have next1: "map_option ms_next (t_callback s1) \<noteq> Some 0"
    using s c(2) by (simp add: s1_def tqueue_ok_def same_cb_def)
  have total1: "q_total q1 \<le> q_total q" "length (q_events q1) \<le> length (q_events q)" by (auto simp: q1_def)
  have room: "queue_id \<noteq> 0" "length (q_events q1) < MAX_QUEUE_EVENTS"
    "q_total q1 \<le> MAX_TOTAL_EVENT_LENGTH - length (e_data e)"
    using g total1 by (auto simp: push_guards_def q_def e_def)
  have eok: "0 < e_id e" "e_id e + 1 < MAX_ID" "q_tail q1 \<le> e_id e" "0 < e_expires e" "length (e_data e) \<le> MAX_EVENT_LENGTH"
    using n0 g events1(2) by (auto simp: e_def push_guards_def)
  obtain s' q' cb1 where p: "do_push queue_id e s1 = Some (True, s')" "t_queues s' = (t_queues s1)(queue_id \<mapsto> q')"
    "q_events q' = filter (\<lambda>x. live (snd x)) (q_events q1) @ [(e_id e, logged cb1 e)]" "q_tail q' = e_id e + 1"
    "queue_ok q'" "gc_ok (t_queues s') (t_gc s')"
    "(t_callback s' = None) = (t_callback s1 = None)" "map_option ms_next (t_callback s') \<noteq> Some 0"
    "t_callback s1 \<noteq> None \<longrightarrow> queue_kept q'"
    by (rule do_push_adds [OF at1 [symmetric] gc1 q1o kept1 next1 eok room])
  have push: "push queue_id data expires_at extra hint rnd s = Some (Inr n, s')"
    using g c(1) p(1) unfolding push_def push_guards_def Let_def q_def [symmetric] s1_def e_def by simp
  have tq: "t_queues s' = (t_queues s)(queue_id \<mapsto> q')" using p(2) by (simp add: s1_def)
  have cbn: "(t_callback s' = None) = (t_callback s = None)" using p(7) same_cb_None [OF c(2)] by (simp add: s1_def)
  have other: "state_ok r (t_callback s')" if "state_ok r (t_callback s)" for r
    using that cbn by (auto simp: state_ok_def)
  have "state_ok q' (t_callback s')" using p(5,9) p(7) by (auto simp: state_ok_def)
  then have "tqueue_ok s'"
    using s p(6,8) tq other room(1) by (simp add: tqueue_ok_def)
  then show ?thesis
    using push n0 p(3,4) tq by (auto simp: events1(1) e_def get_tail_def queue_at_def intro!: exI [of _ s'] exI [of _ "logged cb1 e"])
qed

end
