(* ===== verification/Td_TQueueStore.thy ===== *)
theory Td_TQueueStore
  imports Td_TQueueInv
begin

text \<open>
  The storage of the event queues: in every reachable state it holds exactly the events of the queues, and a
  restart, which replays it into a new object, gives the same queues.  The theory ends with the properties of
  the component.
\<close>

subsection \<open>What is stored\<close>

definition events_at :: "tqueue \<Rightarrow> int \<Rightarrow> (int \<times> raw_event) list" where
  "events_at s i = q_events (queue_at s i)"

definition queue_contents :: "(int \<Rightarrow> (int \<times> raw_event) list) \<Rightarrow> (nat \<times> int \<times> raw_event) set" where
  "queue_contents ev = {(n, i, e). n = e_log e \<and> (\<exists>k. (k, e) \<in> set (ev i))}"

definition storage_contents :: "memory_storage \<Rightarrow> (nat \<times> int \<times> raw_event) set" where
  "storage_contents ms = (\<lambda>(n, i, e). (n, i, e\<lparr>e_log := n\<rparr>)) ` set (ms_events ms)"

text \<open>The identifiers of log events grow along a queue.\<close>

definition logs_grow :: "(int \<times> raw_event) list \<Rightarrow> bool" where
  "logs_grow ev \<longleftrightarrow> sorted_wrt (<) (map (\<lambda>(k, e). e_log e) ev)"

definition mirrors :: "(int \<Rightarrow> (int \<times> raw_event) list) \<Rightarrow> memory_storage \<Rightarrow> bool" where
  "mirrors ev ms \<longleftrightarrow> omap (ms_events ms) \<and> storage_contents ms = queue_contents ev \<and>
     (\<forall>x \<in> set (ms_events ms). fst x < ms_next ms) \<and> (\<forall>i. logs_grow (ev i))"

lemma mirrors_new: "mirrors (\<lambda>_. []) new_storage"
  by (auto simp: mirrors_def new_storage_def storage_contents_def queue_contents_def logs_grow_def)

lemma contents_fun: "mirrors ev ms \<Longrightarrow> (n, i, e) \<in> queue_contents ev \<Longrightarrow> (n, i', e') \<in> queue_contents ev \<Longrightarrow> i' = i \<and> e' = e"
proof -
  assume m: "mirrors ev ms" "(n, i, e) \<in> queue_contents ev" "(n, i', e') \<in> queue_contents ev"
  then have c: "(n, i, e) \<in> storage_contents ms" "(n, i', e') \<in> storage_contents ms" by (simp_all add: mirrors_def)
  obtain d where d: "(n, i, d) \<in> set (ms_events ms)" "e = d\<lparr>e_log := n\<rparr>" using c(1) by (auto simp: storage_contents_def)
  obtain d' where d': "(n, i', d') \<in> set (ms_events ms)" "e' = d'\<lparr>e_log := n\<rparr>" using c(2) by (auto simp: storage_contents_def)
  have "map_of (ms_events ms) n = Some (i, d)" "map_of (ms_events ms) n = Some (i', d')"
    using m(1) d(1) d'(1) by (simp_all add: mirrors_def map_of_omap)
  then show ?thesis using d(2) d'(2) by simp
qed

lemma storage_pop: "storage_contents (ms_pop n ms) = {x \<in> storage_contents ms. fst x \<noteq> n}"
  by (force simp: storage_contents_def ms_pop_def omap_del_def)

lemma set_put: "omap m \<Longrightarrow> set (omap_put k v m) = insert (k, v) {x \<in> set m. fst x \<noteq> k}"
proof (induction k v m rule: omap_put.induct)
  case (2 k v k' v' m)
  have lt: "\<forall>x \<in> set m. k' < fst x" and m: "omap m" using 2(2) by (auto simp: omap_Cons)
  consider "k < k'" | "k = k'" | "k' < k" by fastforce
  then show ?case
  proof cases
    case 1
    then have "\<forall>x \<in> set m. fst x \<noteq> k" using lt by auto
    then show ?thesis using 1 by auto
  next
    case 2
    then show ?thesis using lt by auto
  next
    case 3
    then have "set (omap_put k v m) = insert (k, v) {x \<in> set m. fst x \<noteq> k}" using 2(1) m by simp
    moreover have "{x \<in> set ((k', v') # m). fst x \<noteq> k} = insert (k', v') {x \<in> set m. fst x \<noteq> k}" using 3 by auto
    moreover have "omap_put k v ((k', v') # m) = (k', v') # omap_put k v m" using 3 by auto
    ultimately show ?thesis by (simp add: insert_commute del: omap_put.simps)
  qed
qed simp

lemma contents_storage:
  "(n, i, e) \<in> storage_contents ms \<longleftrightarrow> (\<exists>d. (n, i, d) \<in> set (ms_events ms) \<and> e = d\<lparr>e_log := n\<rparr>)"
  by (force simp: storage_contents_def)

lemma storage_put:
  assumes "omap (ms_events ms)"
  shows "storage_contents (ms\<lparr>ms_events := omap_put n (i, e) (ms_events ms)\<rparr>) =
    insert (n, i, e\<lparr>e_log := n\<rparr>) {x \<in> storage_contents ms. fst x \<noteq> n}"
  using set_put [OF assms, of n "(i, e)"] by (auto simp: contents_storage)

text \<open>Removing an event from a queue and from the storage; changing one in both; adding one to both.\<close>

lemma contents_iff: "(n, i, e) \<in> queue_contents ev \<longleftrightarrow> n = e_log e \<and> (\<exists>k. (k, e) \<in> set (ev i))"
  by (simp add: queue_contents_def)

lemma contents_update:
  "queue_contents (ev(i := l)) =
     {x \<in> queue_contents ev. fst (snd x) \<noteq> i} \<union> {(n, j, e). n = e_log e \<and> j = i \<and> (\<exists>k. (k, e) \<in> set l)}"
  by (auto simp: contents_iff split: if_splits)

lemma logs_grow_append: "logs_grow (a @ b) \<longleftrightarrow> logs_grow a \<and> logs_grow b \<and>
    (\<forall>x \<in> set a. \<forall>y \<in> set b. e_log (snd x) < e_log (snd y))"
  by (auto simp: logs_grow_def sorted_wrt_append split_beta)

lemma logs_grow_Cons: "logs_grow ((k, e) # b) \<longleftrightarrow> logs_grow b \<and> (\<forall>y \<in> set b. e_log e < e_log (snd y))"
  by (auto simp: logs_grow_def split_beta)

lemma logs_grow_Nil [simp]: "logs_grow []"
  by (simp add: logs_grow_def)

lemma log_unique:
  assumes "logs_grow (a @ (k, e) # b)" "x \<in> set a \<union> set b" shows "e_log (snd x) \<noteq> e_log e"
  using assms by (fastforce simp: logs_grow_append logs_grow_Cons)

lemma mirrors_remove:
  assumes m: "mirrors ev ms" and ev: "ev i = a @ (k, e) # b"
  shows "mirrors (ev(i := a @ b)) (ms_pop (e_log e) ms)"
proof -
  have g: "logs_grow (a @ (k, e) # b)" using m ev by (metis mirrors_def)
  have mem: "(e_log e, i, e) \<in> queue_contents ev" using ev by (auto simp: queue_contents_def)
  have "{x \<in> queue_contents ev. fst x \<noteq> e_log e} = queue_contents (ev(i := a @ b))" (is "?l = ?r")
  proof (intro set_eqI iffI)
    fix x assume x: "x \<in> ?l"
    then obtain j k' e' where e': "x = (e_log e', j, e')" "(k', e') \<in> set (ev j)" "e_log e' \<noteq> e_log e"
      by (auto simp: queue_contents_def)
    show "x \<in> ?r"
    proof (cases "j = i")
      case True
      then have "(k', e') \<in> set (a @ b)" using e' ev by auto
      then show ?thesis using e' True by (auto simp: queue_contents_def)
    next
      case False
      then have "(k', e') \<in> set ((ev(i := a @ b)) j)" using e' by simp
      then show ?thesis using e' by (auto simp: queue_contents_def simp del: fun_upd_apply)
    qed
  next
    fix x assume "x \<in> ?r"
    then obtain j k' e' where e': "x = (e_log e', j, e')" "(k', e') \<in> set ((ev(i := a @ b)) j)"
      by (auto simp: queue_contents_def simp del: fun_upd_apply)
    have "x \<in> queue_contents ev" using e' ev by (auto simp: queue_contents_def split: if_splits)
    moreover have "e_log e' \<noteq> e_log e"
    proof (cases "j = i")
      case True
      then show ?thesis using log_unique [OF g, of "(k', e')"] e'(2) by auto
    next
      case False
      then show ?thesis using contents_fun [OF m mem, of j e'] calculation e'(1) by auto
    qed
    ultimately show "x \<in> ?l" using e'(1) by simp
  qed
  moreover have "logs_grow ((ev(i := a @ b)) j)" for j
    using m g by (auto simp: mirrors_def logs_grow_append logs_grow_Cons)
  ultimately show ?thesis
    using m unfolding mirrors_def storage_pop by (auto simp: ms_pop_def omap_del_def)
qed

lemma ms_push_old: "e_log e \<noteq> 0 \<Longrightarrow> snd (ms_push i e ms) = ms\<lparr>ms_events := omap_put (e_log e) (i, e) (ms_events ms)\<rparr>"
  by (simp add: ms_push_def)

lemma ms_push_new: "e_log e = 0 \<Longrightarrow> ms_push i e ms =
    (ms_next ms, ms\<lparr>ms_next := ms_next ms + 1, ms_events := omap_put (ms_next ms) (i, e) (ms_events ms)\<rparr>)"
  by (simp add: ms_push_def)

lemma mirrors_change:
  assumes m: "mirrors ev ms" and ev: "ev i = a @ (k, e) # b" and log: "e_log e \<noteq> 0" "e_log e' = e_log e"
  shows "mirrors (ev(i := a @ (k, e') # b)) (snd (ms_push i e' ms))"
proof -
  have g: "logs_grow (a @ (k, e) # b)" using m ev by (metis mirrors_def)
  have o: "omap (ms_events ms)" using m by (simp add: mirrors_def)
  have r: "mirrors (ev(i := a @ b)) (ms_pop (e_log e) ms)" by (rule mirrors_remove [OF m ev])
  have "storage_contents (snd (ms_push i e' ms)) = insert (e_log e, i, e') (storage_contents (ms_pop (e_log e) ms))"
    using log storage_put [OF o, of "e_log e" i e'] by (cases e') (simp add: ms_push_old storage_pop)
  also have "\<dots> = insert (e_log e, i, e') (queue_contents (ev(i := a @ b)))" using r by (simp add: mirrors_def)
  also have "\<dots> = queue_contents (ev(i := a @ (k, e') # b))"
    unfolding contents_update using log(2) by auto
  finally have c: "storage_contents (snd (ms_push i e' ms)) = queue_contents (ev(i := a @ (k, e') # b))" .
  have "e_log e \<in> fst ` set (ms_events ms)"
  proof -
    have "(e_log e, i, e) \<in> queue_contents ev" using ev by (auto simp: queue_contents_def)
    then have "(e_log e, i, e) \<in> storage_contents ms" using m by (simp add: mirrors_def)
    then show ?thesis by (force simp: storage_contents_def)
  qed
  then have lt: "e_log e < ms_next ms" using m by (auto simp: mirrors_def)
  have "fst x < ms_next ms" if "x \<in> set (omap_put (e_log e) (i, e') (ms_events ms))" for x
  proof -
    have "fst x \<in> insert (e_log e) (fst ` set (ms_events ms))" using that fst_put by (metis image_eqI)
    then show ?thesis using lt m by (auto simp: mirrors_def)
  qed
  then have "\<forall>x \<in> set (ms_events (snd (ms_push i e' ms))). fst x < ms_next (snd (ms_push i e' ms))"
    using log by (simp add: ms_push_old)
  moreover have "logs_grow ((ev(i := a @ (k, e') # b)) j)" for j
    using m g log(2) by (auto simp: mirrors_def logs_grow_append logs_grow_Cons)
  moreover have "omap (ms_events (snd (ms_push i e' ms)))" using o log by (simp add: ms_push_old)
  ultimately show ?thesis using c by (simp add: mirrors_def)
qed

lemma mirrors_add:
  assumes m: "mirrors ev ms" and log: "e_log e = 0"
  shows "mirrors (ev(i := ev i @ [(k, e\<lparr>e_log := ms_next ms\<rparr>)])) (snd (ms_push i e ms))"
proof -
  have o: "omap (ms_events ms)" using m by (simp add: mirrors_def)
  have lt: "\<forall>x \<in> set (ms_events ms). fst x < ms_next ms" using m by (simp add: mirrors_def)
  have put: "omap_put (ms_next ms) (i, e) (ms_events ms) = ms_events ms @ [(ms_next ms, i, e)]"
    by (rule omap_put_last [OF lt])
  have "storage_contents (snd (ms_push i e ms)) = insert (ms_next ms, i, e\<lparr>e_log := ms_next ms\<rparr>) (storage_contents ms)"
    using log by (auto simp: ms_push_new put storage_contents_def)
  also have "\<dots> = queue_contents (ev(i := ev i @ [(k, e\<lparr>e_log := ms_next ms\<rparr>)]))"
    unfolding contents_update using m by (auto simp: mirrors_def queue_contents_def)
  finally have c: "storage_contents (snd (ms_push i e ms)) = queue_contents (ev(i := ev i @ [(k, e\<lparr>e_log := ms_next ms\<rparr>)]))" .
  have small: "e_log (snd x) < ms_next ms" if "x \<in> set (ev i)" for x
  proof -
    have "(fst x, snd x) \<in> set (ev i)" using that by simp
    then have "(e_log (snd x), i, snd x) \<in> storage_contents ms"
      using m unfolding mirrors_def by (auto simp only: contents_iff)
    then show ?thesis using lt by (auto simp: storage_contents_def)
  qed
  have grow: "logs_grow ((ev(i := ev i @ [(k, e\<lparr>e_log := ms_next ms\<rparr>)])) j)" for j
    using m small by (auto simp: mirrors_def logs_grow_append logs_grow_Cons)
  have "omap (ms_events (snd (ms_push i e ms)))" using o omap_put [OF o] log by (simp add: ms_push_new)
  moreover have "\<forall>x \<in> set (ms_events (snd (ms_push i e ms))). fst x < ms_next (snd (ms_push i e ms))"
    using log lt by (auto simp: ms_push_new put)
  ultimately show ?thesis using c grow by (simp add: mirrors_def)
qed

subsection \<open>What holds while events are popped\<close>

text \<open>
  All the loops that shorten a queue do so by \<open>pop\<close>: whatever \<open>pop\<close> keeps, they keep.
\<close>

locale popping =
  fixes queue_id :: int and P :: "queue_state \<Rightarrow> bool"
  assumes popped: "P qs \<Longrightarrow> pop queue_id t k qs = Some qs' \<Longrightarrow> P qs'"
begin

lemma pop_all_keeps: "P qs \<Longrightarrow> pop_all queue_id t ks qs = Some qs' \<Longrightarrow> P qs'"
  by (induction ks arbitrary: qs) (auto simp: bind_eq_Some_conv intro: popped)

lemma get_loop_keeps:
  "P qs \<Longrightarrow> get_loop queue_id from_id now n ks res qs = Some (res', qs') \<Longrightarrow> P qs'"
proof (induction ks arbitrary: qs res)
  case (Cons k ks)
  then obtain e where e: "map_of (q_events (fst qs)) k = Some e" by (auto simp: bind_eq_Some_conv)
  show ?case
  proof (cases "e_expires e < now \<or> e_data e = []")
    case True
    then obtain qs1 where "pop queue_id (q_tail (fst qs)) k qs = Some qs1"
      "get_loop queue_id from_id now n ks res qs1 = Some (res', qs')"
      using Cons.prems(2) e by (auto simp: bind_eq_Some_conv)
    then show ?thesis using Cons.IH popped [OF Cons.prems(1)] by blast
  next
    case False
    then show ?thesis using Cons e by (auto simp: bind_eq_Some_conv check_def split: if_splits)
  qed
qed simp

lemma do_get_keeps:
  "P qs \<Longrightarrow> do_get queue_id from_id fp now n qs = Some (res, qs') \<Longrightarrow> P qs'"
  by (auto simp: do_get_def bind_eq_Some_conv split: if_splits elim!: get_loop_keeps [rotated] intro: pop_all_keeps)

lemma gc_loop_keeps:
  "P qs \<Longrightarrow> gc_loop queue_id now ks readings counter gc qs = Some (rd', ct, gc', qs') \<Longrightarrow> P qs'"
proof (induction ks arbitrary: qs readings counter gc)
  case (Cons k ks)
  then obtain e where e: "map_of (q_events (fst qs)) k = Some e" by (auto simp: bind_eq_Some_conv)
  obtain late rd where late: "(if (counter + 1) div 128 mod 2 = 0 then deadline readings else (False, readings)) = (late, rd)"
    by (cases "if (counter + 1) div 128 mod 2 = 0 then deadline readings else (False, readings)")
  show ?case
  proof (cases "\<not> late \<and> (e_expires e < now \<or> e_data e = [])")
    case True
    then obtain qs1 where "pop queue_id (q_tail (fst qs)) k qs = Some qs1"
      "gc_loop queue_id now ks rd (counter + 1) gc qs1 = Some (rd', ct, gc', qs')"
      using Cons.prems(2) e late by (auto simp: bind_eq_Some_conv)
    then show ?thesis using Cons.IH popped [OF Cons.prems(1)] by blast
  next
    case False
    then show ?thesis using Cons e late by (auto split: if_splits)
  qed
qed simp

end

text \<open>A queue and the storage, when the other queues hold \<open>ev\<close>.\<close>

definition stored :: "(int \<Rightarrow> (int \<times> raw_event) list) \<Rightarrow> int \<Rightarrow> queue_state \<Rightarrow> bool" where
  "stored ev i qs \<longleftrightarrow> omap (q_events (fst qs)) \<and> (case snd qs of None \<Rightarrow> True | Some ms \<Rightarrow>
     (\<forall>x \<in> set (q_events (fst qs)). e_log (snd x) \<noteq> 0) \<and> mirrors (ev(i := q_events (fst qs))) ms)"

lemma stored_pop:
  assumes s: "stored ev i qs" and p: "pop i t k qs = Some qs'"
  shows "stored ev i qs'"
proof -
  obtain q cb where qs: "qs = (q, cb)" by (cases qs)
  obtain e where e: "map_of (q_events q) k = Some e" using p qs by (auto simp: pop_def bind_eq_Some_conv)
  obtain a b where ab: "q_events q = a @ (k, e) # b" by (rule map_of_split [OF e])
  have o: "omap (a @ (k, e) # b)" using s qs ab by (simp add: stored_def)
  have del: "q_events (remove_event k q) = a @ b" using e omap_split(3) [OF o] ab by (simp add: remove_event_def)
  have put: "q_events (snd (clear_event_data k e q)) = a @ (k, tomb e) # b" "fst (clear_event_data k e q) = tomb e"
    using omap_split(2) [OF o] ab by (simp_all add: clear_event_data_def Let_def)
  have o': "omap (a @ b)" "omap (a @ (k, tomb e) # b)" using o by (auto simp: omap_append omap_Cons)
  show ?thesis
  proof (cases cb)
    case None
    then have "qs' = (remove_event k q, None)" using p qs e by (simp add: pop_def)
    then show ?thesis using o' del by (simp add: stored_def)
  next
    case (Some ms)
    have log: "\<forall>x \<in> set (a @ (k, e) # b). e_log (snd x) \<noteq> 0" and m: "mirrors (ev(i := a @ (k, e) # b)) ms"
      using s qs ab Some by (simp_all add: stored_def)
    then have le: "e_log e \<noteq> 0" by simp
    have upd: "(ev(i := a @ (k, e) # b)) i = a @ (k, e) # b" by simp
    obtain n where n: "ok (next_id (e_id e)) = Some n" using p qs e Some le by (auto simp: pop_def bind_eq_Some_conv)
    consider "n = t" "live e" "qs' = (snd (clear_event_data k e q), Some (snd (ms_push i (tomb e) ms)))"
      | "qs' = qs" | "qs' = (remove_event k q, Some (ms_pop (e_log e) ms))"
      using p qs e Some le n put(2) by (auto simp: pop_def split_beta split: if_splits)
    then show ?thesis
    proof cases
      case 1
      have "mirrors (ev(i := a @ (k, tomb e) # b)) (snd (ms_push i (tomb e) ms))"
        using mirrors_change [OF m upd le, of "tomb e"] unfolding fun_upd_upd by simp
      then show ?thesis using 1 log o' by (auto simp: stored_def put)
    next
      case 2
      then show ?thesis using s by simp
    next
      case 3
      have "mirrors (ev(i := a @ b)) (ms_pop (e_log e) ms)" using mirrors_remove [OF m upd] unfolding fun_upd_upd .
      then show ?thesis using 3 log o' by (simp add: stored_def del)
    qed
  qed
qed

interpretation storing: popping i "stored ev i" for i ev
  by unfold_locales (rule stored_pop)


text \<open>The whole state.\<close>

definition mirrored :: "tqueue \<Rightarrow> bool" where
  "mirrored s \<longleftrightarrow> (case t_callback s of None \<Rightarrow> True | Some ms \<Rightarrow> mirrors (events_at s) ms)"

lemma events_at_update [simp]:
  "events_at (put_state i qs s) = (events_at s)(i := q_events (fst qs))"
  "events_at (put_queue i q s) = (events_at s)(i := q_events q)"
  "events_at (s\<lparr>t_gc := g\<rparr>) = events_at s" "events_at (s\<lparr>t_callback := cb\<rparr>) = events_at s"
  by (auto simp: events_at_def queue_at_def fun_eq_iff)

lemma events_at_triv [simp]: "(events_at s)(i := q_events (queue_at s i)) = events_at s"
  by (simp add: events_at_def fun_eq_iff)

lemma stored_at:
  assumes "tqueue_ok s" "mirrored s" shows "stored (events_at s) i (queue_at s i, t_callback s)"
proof -
  have "state_ok (queue_at s i) (t_callback s)" using queue_at_ok [OF assms(1)] .
  then show ?thesis
    using assms(2) by (auto simp: stored_def mirrored_def state_ok_def queue_ok_def queue_kept_def split: option.splits)
qed

lemma mirrored_put: "stored (events_at s) i (q, cb) \<Longrightarrow> mirrored (put_state i (q, cb) s)"
  by (auto simp: stored_def mirrored_def split: option.splits)

lemma queue_at_Some: "t_queues s i = Some q \<Longrightarrow> queue_at s i = q"
  by (simp add: queue_at_def)

lemma forget_mirrored:
  assumes "tqueue_ok s" "mirrored s" "forget i n s = Some s'" shows "mirrored s'"
proof (cases "s' = s")
  case False
  then obtain q qs where q: "t_queues s i = Some q" "pop i (q_tail q) n (q, t_callback s) = Some qs" "s' = put_state i qs s"
    using assms(3) by (auto simp: forget_def bind_eq_Some_conv split: option.splits if_splits)
  have "stored (events_at s) i qs"
    using stored_pop [OF stored_at [OF assms(1,2), of i]] q(1,2) queue_at_Some [OF q(1)] by auto
  then show ?thesis using q(3) mirrored_put [of s i "fst qs" "snd qs"] by simp
qed (use assms in simp)

lemma get_mirrored:
  assumes "tqueue_ok s" "mirrored s" "get i from_id fp now n s = Some (r, s')" shows "mirrored s'"
proof (cases "s' = s")
  case False
  then obtain q res qs where q: "t_queues s i = Some q" "do_get i from_id fp now n (q, t_callback s) = Some (res, qs)"
    "s' = put_state i qs s"
    using assms(3) by (auto simp: get_def bind_eq_Some_conv split: option.splits if_splits)
  have "stored (events_at s) i qs"
    using storing.do_get_keeps [OF stored_at [OF assms(1,2), of i]] q(1,2) queue_at_Some [OF q(1)] by auto
  then show ?thesis using q(3) mirrored_put [of s i "fst qs" "snd qs"] by simp
qed (use assms in simp)

text \<open>\<open>clear\<close> removes a prefix from the queue and from the storage.\<close>

lemma mirrors_batch:
  "mirrors (ev(i := a @ b)) ms \<Longrightarrow> mirrors (ev(i := b)) (ms_pop_batch (map (e_log \<circ> snd) a) ms)"
proof (induction a arbitrary: ms)
  case (Cons x a)
  obtain k e where x: "x = (k, e)" by (cases x)
  have "mirrors (ev(i := [] @ (a @ b))) (ms_pop (e_log e) ms)"
    using mirrors_remove [OF Cons.prems, of i "[]" k e "a @ b"] x unfolding fun_upd_upd by simp
  from Cons.IH [OF this [unfolded append_Nil]] show ?case using x by simp
qed simp

lemma keep_last_stored:
  assumes s: "stored ev i (q, cb)" and ne: "q_events q \<noteq> []" and k: "keep_last i (q, cb) = (n, qs)"
  shows "stored ev i qs"
proof (cases "qs = (q, cb)")
  case False
  obtain a k' e where ab: "q_events q = a @ [(k', e)]" using ne by (metis rev_exhaust surj_pair)
  obtain ms where ms: "cb = Some ms" "e_log e \<noteq> 0" "live e"
    "qs = (snd (clear_event_data k' e q), Some (snd (ms_push i (tomb e) ms)))"
    using k False ab by (auto simp: keep_last_def clear_event_data_def Let_def split: option.splits if_splits)
  have o: "omap (a @ [(k', e)])" using s ab by (simp add: stored_def)
  then have o': "omap (a @ [(k', tomb e)])" by (auto simp: omap_append omap_Cons)
  have put: "q_events (snd (clear_event_data k' e q)) = a @ [(k', tomb e)]"
    using omap_split(2) [OF o] ab by (simp add: clear_event_data_def Let_def)
  have m: "mirrors (ev(i := a @ [(k', e)])) ms" "\<forall>x \<in> set (a @ [(k', e)]). e_log (snd x) \<noteq> 0"
    using s ab ms(1) by (simp_all add: stored_def)
  have "mirrors (ev(i := a @ [(k', tomb e)])) (snd (ms_push i (tomb e) ms))"
    using mirrors_change [OF m(1) _ ms(2), of i a k' "[]" "tomb e"] unfolding fun_upd_upd by simp
  then show ?thesis using ms(4) o' m(2) by (simp add: stored_def put)
qed (use s in simp)

lemma stored_batch:
  assumes s: "stored ev i (q, cb)"
  shows "stored ev i (kept_queue n q, map_option (ms_pop_batch
    (filter (\<lambda>n. n \<noteq> 0) (map (e_log \<circ> snd) (take n (q_events q))))) cb)"
proof -
  let ?a = "take n (q_events q)" and ?b = "drop n (q_events q)"
  have "omap (?a @ ?b)" using s by (simp add: stored_def)
  then have o: "omap ?b" by (simp only: omap_append)
  have "mirrors (ev(i := ?b)) (ms_pop_batch (filter (\<lambda>n. n \<noteq> 0) (map (e_log \<circ> snd) ?a)) ms)" if "cb = Some ms" for ms
  proof -
    have "\<forall>x \<in> set (?a). e_log (snd x) \<noteq> 0" using s that by (auto simp: stored_def dest: in_set_takeD)
    then have "filter (\<lambda>n. n \<noteq> 0) (map (e_log \<circ> snd) ?a) = map (e_log \<circ> snd) ?a" by (auto simp: filter_id_conv)
    then show ?thesis using mirrors_batch [of ev i ?a ?b ms] s that by (simp add: stored_def)
  qed
  then show ?thesis using s o by (auto simp: stored_def kept_queue_def dest: in_set_dropD split: option.splits)
qed


lemma clear_mirrored:
  assumes t: "tqueue_ok s" and m: "mirrored s" and c: "clear_events i keep s = Some (deleted, s')"
  shows "mirrored s'"
proof (cases "t_queues s i")
  case None
  then show ?thesis using m c by (simp add: clear_events_def)
next
  case (Some q)
  note qa = queue_at_Some [OF Some]
  have ok: "state_ok q (t_callback s)" using t Some by (simp add: tqueue_ok_def)
  have st: "stored (events_at s) i (q, t_callback s)" using stored_at [OF t m, of i] qa by simp
  show ?thesis
  proof (cases "queue_size q \<le> keep")
    case True
    then show ?thesis using m c Some by (simp add: clear_events_def)
  next
    case False
    then have ne: "q_events q \<noteq> []" by (auto simp: queue_size_def)
    obtain n q' cb' where k: "(if keep = 0 then keep_last i (q, t_callback s)
        else (length (q_events q) - keep, q, t_callback s)) = (n, q', cb')"
      by (metis prod_cases3)
    have "stored (events_at s) i (q', cb') \<and> queue_ok q' \<and> n \<le> length (q_events q')"
    proof (cases "keep = 0")
      case True
      then have kl: "keep_last i (q, t_callback s) = (n, q', cb')" using k by simp
      moreover obtain n' q'' cb'' where "keep_last i (q, t_callback s) = (n', q'', cb'')" "state_ok q'' cb''"
        "n' \<le> length (q_events q'')"
        by (rule keep_last_ok [OF ok ne, of i]) (unfold left_ok_def, blast)
      ultimately show ?thesis using keep_last_stored [OF st ne kl] by (auto dest: state_okD)
    next
      case False
      then show ?thesis using k st state_okD [OF ok] by auto
    qed
    then have q': "stored (events_at s) i (q', cb')" "queue_ok q'" "n \<le> length (q_events q')" by blast+
    have "clear_events i keep s = Some (take n (q_events q'), put_state i (kept_queue n q', map_option
        (ms_pop_batch (filter (\<lambda>n. n \<noteq> 0) (map (e_log \<circ> snd) (take n (q_events q'))))) cb') s)"
      using Some False moves_eq [OF q'(2,3), of "keep > queue_size q div 2"]
      by (simp only: clear_events_def option.case Let_def if_False k(1) split_conv bind.bind_lunit)
    then show ?thesis using c mirrored_put [OF stored_batch [OF q'(1), of n]] by simp
  qed
qed

lemma stored_gc: "stored ev i (q\<lparr>q_gc := t\<rparr>, cb) \<longleftrightarrow> stored ev i (q, cb)"
  by (simp add: stored_def split: option.splits)

lemma schedule_fields:
  "schedule_queue_gc i t (q, g) = Some (q', g') \<Longrightarrow> q' = q\<lparr>q_gc := t\<rparr>"
  by (auto simp: schedule_queue_gc_def Let_def bind_eq_Some_conv)

lemma run_gc_loop_mirrored:
  assumes "tqueue_ok s" "mirrored s" "run_gc_loop fuel now readings counter deleted s = Some (r, s')"
  shows "mirrored s'"
  using assms
proof (induction fuel arbitrary: readings counter deleted s)
  case (Suc fuel)
  show ?case
  proof (cases "s' = s")
    case False
    obtain t i g where g: "t_gc s = (t, i) # g" "t < now"
      using Suc.prems(3) False by (cases "t_gc s") (auto split: if_splits)
    obtain q rd ct gc q' cb' s1 where step: "q_gc (queue_at s i) = t" "q = queue_at s i"
      "gc_loop i now (map fst (q_events q)) readings counter 0 (q, t_callback s) = Some (rd, ct, gc, q', cb')"
      "queue_size q' \<le> queue_size q"
      "map_option (\<lambda>(q, g). (put_state i (q, cb') s)\<lparr>t_gc := g\<rparr>) (schedule_queue_gc i gc (q', t_gc s)) = Some s1"
      "tqueue_ok s1"
      by (rule run_gc_step [OF Suc.prems(1) g, of readings counter])
    obtain q2 g2 where sch: "schedule_queue_gc i gc (q', t_gc s) = Some (q2, g2)"
      "s1 = (put_state i (q2, cb') s)\<lparr>t_gc := g2\<rparr>" using step(5) by auto
    have "stored (events_at s) i (q', cb')"
      using storing.gc_loop_keeps [OF stored_at [OF Suc.prems(1,2), of i]] step(2,3) by blast
    then have "mirrored (put_state i (q2, cb') s)"
      using mirrored_put [of s i q2 cb'] schedule_fields [OF sch(1)] stored_gc by simp
    then have m1: "mirrored s1" using sch(2) by (simp add: mirrored_def split: option.splits)
    have "run_gc_loop (Suc fuel) now readings counter deleted s =
      (if rd = 0 then Some ((deleted + (queue_size q - queue_size q'), False), s1)
       else run_gc_loop fuel now (rd - 1) ct (deleted + (queue_size q - queue_size q')) s1)"
      using g step(1-4) sch by (simp add: deadline_def)
    then show ?thesis using Suc.prems(3) m1 Suc.IH [OF step(6) m1] by (auto split: if_splits)
  qed (use Suc.prems in simp)
qed simp

lemma run_gc_mirrored:
  "tqueue_ok s \<Longrightarrow> mirrored s \<Longrightarrow> run_gc now readings s = Some (r, s') \<Longrightarrow> mirrored s'"
  unfolding run_gc_def by (rule run_gc_loop_mirrored)


subsection \<open>Adding\<close>

lemma drop_tombstone_stored:
  assumes s: "stored ev i (q, cb)" and d: "drop_tombstone (q, cb) = qs"
  shows "stored ev i qs"
proof (cases "qs = (q, cb)")
  case False
  then have "q_events q \<noteq> []" using d by (auto simp: drop_tombstone_def)
  then obtain a k e where ab: "q_events q = a @ [(k, e)]" by (metis rev_exhaust surj_pair)
  have o: "omap (a @ [(k, e)])" using s ab by (simp add: stored_def)
  have del: "omap_del k (a @ [(k, e)]) = a" using omap_split(3) [OF o] by simp
  have "qs = (q\<lparr>q_events := a\<rparr>, case cb of Some ms \<Rightarrow> if e_log e \<noteq> 0 then Some (ms_pop (e_log e) ms) else cb | None \<Rightarrow> cb)"
    using d False ab del by (auto simp: drop_tombstone_def split: if_splits)
  moreover have "mirrors (ev(i := a)) (ms_pop (e_log e) ms)" if "cb = Some ms" for ms
  proof -
    have "mirrors (ev(i := a @ [(k, e)])) ms" using s ab that by (simp add: stored_def)
    from mirrors_remove [OF this, of i a k e "[]"] show ?thesis unfolding fun_upd_upd by simp
  qed
  ultimately show ?thesis using s ab o by (auto simp: stored_def omap_append split: option.splits)
qed (use s in simp)

lemma stored_tail: "stored ev i (q\<lparr>q_tail := t\<rparr>, cb) \<longleftrightarrow> stored ev i (q, cb)"
  by (simp add: stored_def split: option.splits)

lemma choose_id_stored:
  "stored ev i qs \<Longrightarrow> choose_id fuel rnd hint i qs = Some (n, qs') \<Longrightarrow> stored ev i qs'"
proof (induction fuel arbitrary: qs)
  case (Suc fuel)
  obtain q cb where qs: "qs = (q, cb)" by (cases qs)
  obtain q1 r where 1: "(if id_empty (q_tail q) then
        if id_empty hint then do { n \<leftarrow> ok (from_int32 rnd); Some (q\<lparr>q_tail := n\<rparr>) } else Some (q\<lparr>q_tail := hint\<rparr>)
      else Some q) = Some q1" "next_id (q_tail q1) = Some r"
    "if is_ok r then (n, qs') = (q_tail q1, q1, cb)
     else \<exists>q2 cb2. pop_all i 0 (map fst (q_events q1)) (q1, cb) = Some (q2, cb2) \<and>
       choose_id fuel rnd hint i (q2\<lparr>q_tail := 0\<rparr>, cb2) = Some (n, qs')"
    using Suc.prems(2) qs by (auto simp: bind_eq_Some_conv check_def Let_def split: if_splits)
  have q1: "stored ev i (q1, cb)"
    using 1(1) Suc.prems(1) qs by (auto simp: bind_eq_Some_conv stored_tail split: if_splits)
  show ?case
  proof (cases "is_ok r")
    case True
    then show ?thesis using 1(3) q1 by simp
  next
    case False
    then obtain q2 cb2 where 2: "pop_all i 0 (map fst (q_events q1)) (q1, cb) = Some (q2, cb2)"
      "choose_id fuel rnd hint i (q2\<lparr>q_tail := 0\<rparr>, cb2) = Some (n, qs')" using 1(3) by auto
    have "stored ev i (q2\<lparr>q_tail := 0\<rparr>, cb2)" using storing.pop_all_keeps [OF q1 2(1)] stored_tail by simp
    then show ?thesis using Suc.IH 2(2) by blast
  qed
qed simp


lemma drop_tombstone_keys:
  assumes "drop_tombstone (q, cb) = (q1, cb1)" shows "set (q_events q1) \<subseteq> set (q_events q)"
  using assms by (auto simp: drop_tombstone_def omap_del_def split: if_splits prod.splits)

lemma do_push_inv:
  assumes p: "do_push i e s = Some (True, s')" and d: "drop_tombstone (queue_at s i, t_callback s) = (q1, cb1)"
  obtains q2 g e2 cb2 n where
    "(if q_events q1 = [] \<and> e_data e \<noteq> [] then schedule_queue_gc i (e_expires e) (q1, t_gc s)
      else Some (q1, t_gc s)) = Some (q2, g)" "log_event i e cb1 = (e2, cb2)" "ok (next_id (e_id e2)) = Some n"
    "s' = (put_queue i (q2\<lparr>q_tail := n, q_total := q_total q2 + length (e_data e2),
        q_events := fst (omap_emplace (e_id e2) e2 (q_events q2))\<rparr>)
      (put_queue i (queue_at s i) s))\<lparr>t_gc := g, t_callback := cb2\<rparr>"
proof -
  obtain e2 cb2 where l: "log_event i e cb1 = (e2, cb2)" by (cases "log_event i e cb1")
  define sch where "sch = (if q_events q1 = [] \<and> e_data e \<noteq> [] then schedule_queue_gc i (e_expires e) (q1, t_gc s)
      else Some (q1, t_gc s))"
  define F where "F = (\<lambda>(q2::queue) n. q2\<lparr>q_tail := n, q_total := q_total q2 + length (e_data e2),
        q_events := fst (omap_emplace (e_id e2) e2 (q_events q2))\<rparr>)"
  have "do { (q2, g) \<leftarrow> sch; n \<leftarrow> ok (next_id (e_id e2)); Some (True, (put_queue i (F q2 n)
      (put_queue i (queue_at s i) s))\<lparr>t_gc := g, t_callback := cb2\<rparr>) } = Some (True, s')"
    using p unfolding do_push_def Let_def put_fields d split_conv sch_def [symmetric] l F_def
    by (cases "id_is_valid (e_id e)") (simp_all split: if_split_asm)
  then obtain q2 g n where r: "sch = Some (q2, g)" "ok (next_id (e_id e2)) = Some n"
    "s' = (put_queue i (F q2 n) (put_queue i (queue_at s i) s))\<lparr>t_gc := g, t_callback := cb2\<rparr>"
    by (auto simp: bind_eq_Some_conv)
  show thesis by (rule that [OF r(1) [unfolded sch_def] l r(2) r(3) [unfolded F_def]])
qed

lemma do_push_mirrored:
  assumes st: "stored (events_at s) i (queue_at s i, t_callback s)" and log: "e_log e = 0"
    and lt: "\<forall>x \<in> set (q_events (queue_at s i)). fst x < e_id e" and p: "do_push i e s = Some (True, s')"
  shows "mirrored s'"
proof -
  obtain q1 cb1 where d: "drop_tombstone (queue_at s i, t_callback s) = (q1, cb1)"
    by (cases "drop_tombstone (queue_at s i, t_callback s)")
  have st1: "stored (events_at s) i (q1, cb1)" by (rule drop_tombstone_stored [OF st d])
  obtain q2 g e2 cb2 n where r: "(if q_events q1 = [] \<and> e_data e \<noteq> [] then schedule_queue_gc i (e_expires e) (q1, t_gc s)
      else Some (q1, t_gc s)) = Some (q2, g)" "log_event i e cb1 = (e2, cb2)"
    "s' = (put_queue i (q2\<lparr>q_tail := n, q_total := q_total q2 + length (e_data e2),
        q_events := fst (omap_emplace (e_id e2) e2 (q_events q2))\<rparr>)
      (put_queue i (queue_at s i) s))\<lparr>t_gc := g, t_callback := cb2\<rparr>"
    by (rule do_push_inv [OF p d])
  have ev2: "q_events q2 = q_events q1" using r(1) by (auto split: if_splits dest: schedule_fields)
  have e2: "e_id e2 = e_id e" "cb1 = None \<Longrightarrow> cb2 = None"
    "\<And>ms. cb1 = Some ms \<Longrightarrow> e2 = e\<lparr>e_log := ms_next ms\<rparr> \<and> cb2 = Some (snd (ms_push i e ms))"
    using r(2) log by (auto simp: log_event_def ms_push_new split: option.splits)
  have "\<forall>x \<in> set (q_events q2). fst x < e_id e2" using drop_tombstone_keys [OF d] lt by (auto simp: ev2 e2(1))
  note emplace = omap_emplace_last [OF this, of e2]
  have ev': "events_at s' = (events_at s)(i := q_events q1 @ [(e_id e2, e2)])" using emplace ev2 by (simp add: r(3))
  show ?thesis
  proof (cases cb1)
    case None
    then show ?thesis using e2(2) by (simp add: mirrored_def r(3))
  next
    case (Some ms)
    have "mirrors ((events_at s)(i := q_events q1)) ms" using st1 Some by (simp add: stored_def)
    from mirrors_add [OF this log, of i "e_id e2"] have "mirrors (events_at s') (snd (ms_push i e ms))"
      unfolding fun_upd_upd using e2(3) [OF Some] by (simp add: ev')
    moreover have "t_callback s' = Some (snd (ms_push i e ms))" using e2(3) [OF Some] by (simp add: r(3))
    ultimately show ?thesis by (simp add: mirrored_def)
  qed
qed

lemma stored_upd: "stored (ev(i := l)) i qs \<longleftrightarrow> stored ev i qs"
  unfolding stored_def fun_upd_upd ..

lemma queue_keys_lt: "queue_ok q \<Longrightarrow> x \<in> set (q_events q) \<Longrightarrow> fst x < q_tail q"
  by (auto simp: queue_ok_def event_ok_def)

lemma push_mirrored:
  assumes t: "tqueue_ok s" and m: "mirrored s" and hint: "hint_ok hint" and rnd: "random_ok rnd"
    and p: "push i data expires extra hint rnd s = Some (r, s')"
  shows "mirrored s'"
proof (cases "push_guards i data expires s")
  case False
  obtain m' s1 where "push i data expires extra hint rnd s = Some (Error m', s1)"
    "\<forall>j. queue_at s1 j = queue_at s j" "t_callback s1 = t_callback s"
    using push_refused [OF t False, of extra hint rnd] by blast
  then have "\<forall>j. queue_at s' j = queue_at s j" "t_callback s' = t_callback s" using p by simp_all
  moreover from this have "events_at s' = events_at s" by (simp add: events_at_def fun_eq_iff)
  ultimately show ?thesis using m by (simp add: mirrored_def split: option.splits)
next
  case True
  let ?q = "queue_at s i"
  have q: "state_ok ?q (t_callback s)" by (rule queue_at_ok [OF t])
  obtain n qs where c: "choose_id 2 rnd hint i (?q, t_callback s) = Some (n, qs)"
    "do_push i \<lparr>e_log = 0, e_id = n, e_expires = expires, e_data = data, e_extra = extra\<rparr>
       (put_state i qs (put_queue i ?q s)) = Some (True, s')"
    using p True by (auto simp: push_def push_guards_def Let_def bind_eq_Some_conv check_def split: if_splits)
  have st: "stored (events_at s) i qs" by (rule choose_id_stored [OF stored_at [OF t m] c(1)])
  have keys: "\<forall>x \<in> set (q_events (fst qs)). fst x < n"
  proof (cases "q_tail ?q + 1 < MAX_ID \<and> q_tail ?q \<noteq> 0")
    case True
    then have "n = q_tail ?q \<and> q_events (fst qs) = q_events ?q"
      using choose_id_ok [OF q hint rnd, of i] c(1) by auto
    then show ?thesis using queue_keys_lt [OF state_okD [OF q]] by auto
  next
    case False
    have "q_tail ?q = 0 \<Longrightarrow> q_events ?q = []"
      using state_okD [OF q] by (cases "q_events ?q") (auto simp: queue_ok_def event_ok_def)
    then have "q_events (fst qs) = []" using choose_id_ok [OF q hint rnd, of i] c(1) False by (auto split: if_splits)
    then show ?thesis by simp
  qed
  have "queue_at (put_state i qs (put_queue i ?q s)) i = fst qs" by (simp add: queue_at_def)
  then show ?thesis using do_push_mirrored [OF _ _ _ c(2)] st keys by (simp add: stored_upd)
qed


subsection \<open>Replaying the storage\<close>

text \<open>The events of one queue in a storage.\<close>

definition replayed :: "(nat \<times> int \<times> raw_event) list \<Rightarrow> int \<Rightarrow> (int \<times> raw_event) list" where
  "replayed xs i = map (\<lambda>(n, _, e). (e_id e, e\<lparr>e_log := n\<rparr>)) (filter (\<lambda>(_, j, _). j = i) xs)"

lemma replayed_simps [simp]: "replayed [] i = []"
  "replayed ((n, j, e) # xs) i = (if j = i then [(e_id e, e\<lparr>e_log := n\<rparr>)] else []) @ replayed xs i"
  "replayed (xs @ ys) i = replayed xs i @ replayed ys i"
  by (simp_all add: replayed_def)

lemma strict_sorted_inj:
  fixes f :: "'a \<Rightarrow> 'b::linorder"
  assumes "sorted_wrt (<) (map f xs)" "sorted_wrt (<) (map f ys)" "set xs = set ys"
  shows "xs = ys"
proof -
  have "map f xs = map f ys" using assms by (intro sorted_distinct_set_unique) (simp_all add: strict_sorted_iff)
  moreover have "inj_on f (set xs \<union> set ys)"
    using assms by (simp add: strict_sorted_iff distinct_map)
  ultimately show ?thesis by (simp add: inj_on_map_eq_map)
qed

lemma replayed_sorted: "omap xs \<Longrightarrow> sorted_wrt (<) (map (e_log \<circ> snd) (replayed xs i))"
proof (induction xs)
  case (Cons x xs)
  obtain n j e where x: "x = (n, j, e)" by (cases x)
  have "n < e_log (snd y)" if "y \<in> set (replayed xs i)" for y
    using that Cons.prems x by (auto simp: replayed_def omap_Cons)
  then show ?case using Cons x by (auto simp: omap_Cons)
qed simp

lemma replayed_mem: "(k, d) \<in> set (replayed xs i) \<longleftrightarrow> (\<exists>n e. (n, i, e) \<in> set xs \<and> k = e_id e \<and> d = e\<lparr>e_log := n\<rparr>)"
  by (force simp: replayed_def)

lemma replayed_eq:
  assumes m: "mirrors ev ms" and id: "\<forall>x \<in> set (ev i). e_id (snd x) = fst x"
  shows "replayed (ms_events ms) i = ev i"
proof (rule strict_sorted_inj)
  show "sorted_wrt (<) (map (e_log \<circ> snd) (replayed (ms_events ms) i))"
    using m replayed_sorted by (simp add: mirrors_def)
  have "logs_grow (ev i)" using m by (simp add: mirrors_def)
  then show "sorted_wrt (<) (map (e_log \<circ> snd) (ev i))" by (simp add: logs_grow_def comp_def case_prod_unfold)
  have "(k, d) \<in> set (replayed (ms_events ms) i) \<longleftrightarrow> k = e_id d \<and> (e_log d, i, d) \<in> storage_contents ms" for k d
    unfolding replayed_mem contents_storage
  proof (intro iffI; elim exE conjE)
    fix n e assume "(n, i, e) \<in> set (ms_events ms)" "k = e_id e" "d = e\<lparr>e_log := n\<rparr>"
    then show "k = e_id d \<and> (\<exists>d'. (e_log d, i, d') \<in> set (ms_events ms) \<and> d = d'\<lparr>e_log := e_log d\<rparr>)"
      by (intro conjI exI [of _ e]) simp_all
  next
    fix d' assume d': "k = e_id d" "(e_log d, i, d') \<in> set (ms_events ms)" "d = d'\<lparr>e_log := e_log d\<rparr>"
    have "e_id d = e_id d'" using arg_cong [OF d'(3), of e_id] by simp
    then show "\<exists>n e. (n, i, e) \<in> set (ms_events ms) \<and> k = e_id e \<and> d = e\<lparr>e_log := n\<rparr>"
      using d' by (intro exI [of _ "e_log d"] exI [of _ d']) simp
  qed
  moreover have "storage_contents ms = queue_contents ev" using m by (simp add: mirrors_def)
  ultimately have "(k, d) \<in> set (replayed (ms_events ms) i) \<longleftrightarrow> k = e_id d \<and> (\<exists>k. (k, d) \<in> set (ev i))" for k d
    by (simp add: contents_iff)
  then show "set (replayed (ms_events ms) i) = set (ev i)" using id by fastforce
qed

definition tail_of :: "(int \<times> raw_event) list \<Rightarrow> int" where
  "tail_of ev = (if ev = [] then 0 else fst (last ev) + 1)"

lemma kept_tail:
  assumes "queue_ok q" "queue_kept q" shows "q_tail q = tail_of (q_events q)"
proof (cases "q_events q = []")
  case False
  obtain k e where ev: "q_events q = butlast (q_events q) @ [(k, e)]"
    using False by (metis append_butlast_last_id surj_pair)
  obtain x where x: "x \<in> set (q_events q)" "fst x = q_tail q - 1" using assms(2) False by (auto simp: queue_kept_def)
  have "omap (butlast (q_events q) @ [(k, e)])" using assms(1) ev by (simp add: queue_ok_def)
  then have "fst x \<le> k" using x(1) ev by (metis Un_iff eq_iff fst_conv less_imp_le list.set_intros(1) omap_append
        set_ConsD set_append empty_iff empty_set)
  moreover have "k < q_tail q" using queue_keys_lt [OF assms(1), of "(k, e)"] ev by (metis fst_conv in_set_conv_decomp)
  moreover have "last (q_events q) = (k, e)" using ev by (metis last_snoc)
  ultimately show ?thesis using x(2) False by (simp add: tail_of_def)
qed (use assms in \<open>simp add: queue_kept_def tail_of_def\<close>)


text \<open>The state after the entries \<open>ys\<close> have been replayed.\<close>

definition rebuilt :: "(nat \<times> int \<times> raw_event) list \<Rightarrow> tqueue \<Rightarrow> bool" where
  "rebuilt ys s \<longleftrightarrow> t_callback s = None \<and> gc_ok (t_queues s) (t_gc s) \<and>
     (\<forall>i. queue_ok (queue_at s i) \<and> q_events (queue_at s i) = replayed ys i \<and>
       q_tail (queue_at s i) = tail_of (replayed ys i) \<and> (q_events (queue_at s i) \<noteq> [] \<longrightarrow> i \<noteq> 0))"

lemma queue_at_update: "t_queues s' = (t_queues s)(i \<mapsto> q) \<Longrightarrow> queue_at s' j = (if j = i then q else queue_at s j)"
  by (simp add: queue_at_def)

lemma rebuilt_step:
  assumes r: "rebuilt ys s" and q: "queue_ok q" "q_events q = replayed ys i @ (e_id e, e) # es" and i: "i \<noteq> 0"
    and x: "x = (n, i, d)" "e = d\<lparr>e_log := n\<rparr>"
  shows "\<exists>s'. do_push i e s = Some (True, s') \<and> rebuilt (ys @ [x]) s'"
proof -
  let ?p = "queue_at s i"
  have p: "queue_ok ?p" "q_events ?p = replayed ys i" "q_tail ?p = tail_of (replayed ys i)"
    using r by (simp_all add: rebuilt_def)
  have om: "omap (replayed ys i @ (e_id e, e) # es)" using q by (simp add: queue_ok_def)
  have ok: "event_ok (q_tail q) x" if "x \<in> set (replayed ys i @ (e_id e, e) # es)" for x
    using q that unfolding queue_ok_def by metis
  have e: "0 < e_id e" "e_id e < q_tail q" "0 < e_expires e" "length (e_data e) \<le> MAX_EVENT_LENGTH"
    using ok [of "(e_id e, e)"] by (simp_all add: event_ok_def)
  have bound: "e_id e + 1 < MAX_ID" using e(2) q(1) by (simp add: queue_ok_def)
  have lt: "fst x < e_id e" if "x \<in> set (replayed ys i)" for x using om that by (auto simp: omap_append)
  have tail: "q_tail ?p \<le> e_id e"
    using lt [of "last (replayed ys i)"] e(1) by (auto simp: p(3) tail_of_def)
  have live: "filter (\<lambda>x. live (snd x)) (replayed ys i) = replayed ys i"
  proof (rule filter_True, rule ballI)
    fix x assume xs: "x \<in> set (replayed ys i)"
    then have "fst x + 1 \<noteq> q_tail q" using lt [OF xs] e(2) by simp
    moreover have "fst x + 1 = q_tail q \<or> live (snd x)" using q xs by (simp add: queue_ok_def)
    ultimately show "live (snd x)" by simp
  qed
  have len: "length (q_events ?p) < MAX_QUEUE_EVENTS" "q_total ?p \<le> MAX_TOTAL_EVENT_LENGTH - length (e_data e)"
  proof -
    have "length (q_events q) \<le> MAX_QUEUE_EVENTS" "total_of (q_events q) \<le> MAX_TOTAL_EVENT_LENGTH"
      using q(1) by (simp_all add: queue_ok_def)
    then have "length (replayed ys i) < MAX_QUEUE_EVENTS"
      "total_of (replayed ys i) + length (e_data e) \<le> MAX_TOTAL_EVENT_LENGTH" using q(2) by simp_all
    moreover have "q_total ?p = total_of (replayed ys i)" using p(1,2) by (simp add: queue_ok_def)
    ultimately show "length (q_events ?p) < MAX_QUEUE_EVENTS" "q_total ?p \<le> MAX_TOTAL_EVENT_LENGTH - length (e_data e)"
      using p(2) by simp_all
  qed
  have gc: "gc_ok (t_queues s) (t_gc s)" and cb: "t_callback s = None" using r by (simp_all add: rebuilt_def)
  have none: "t_callback s \<noteq> None \<longrightarrow> (\<forall>x \<in> set (q_events ?p). e_log (snd x) \<noteq> 0)"
    "map_option ms_next (t_callback s) \<noteq> Some 0" by (simp_all add: cb)
  obtain s' q' cb1 where s': "do_push i e s = Some (True, s')" "t_queues s' = (t_queues s)(i \<mapsto> q')"
    "q_events q' = filter (\<lambda>x. live (snd x)) (q_events ?p) @ [(e_id e, logged cb1 e)]" "q_tail q' = e_id e + 1"
    "queue_ok q'" "gc_ok (t_queues s') (t_gc s')"
    "(t_callback s' = None) = (t_callback s = None)" "snd (drop_tombstone (?p, t_callback s)) = cb1"
    by (rule do_push_adds [OF refl gc p(1) none e(1) bound tail e(3,4) i len])
  have "cb1 = None" using s'(8) by (auto simp: drop_tombstone_def cb split: if_splits prod.splits)
  then have "q_events q' = replayed ys i @ [(e_id e, e)]" using s'(3) p(2) live by (simp add: logged_def)
  then have "rebuilt (ys @ [x]) s'"
    using r s'(4-7) x i unfolding rebuilt_def queue_at_update [OF s'(2)] by (simp add: tail_of_def)
  then show ?thesis using s'(1) by blast
qed

lemma rebuild:
  assumes "rebuilt ys s" "\<forall>i. queue_ok (Q i) \<and> q_events (Q i) = replayed (ys @ xs) i \<and> (q_events (Q i) \<noteq> [] \<longrightarrow> i \<noteq> 0)"
  shows "\<exists>s'. replay_events xs s = Some s' \<and> rebuilt (ys @ xs) s'"
  using assms
proof (induction xs arbitrary: ys s)
  case (Cons x xs)
  obtain n i d where x: "x = (n, i, d)" by (cases x)
  have Q: "queue_ok (Q i)" "q_events (Q i) = replayed ys i @ (e_id (d\<lparr>e_log := n\<rparr>), d\<lparr>e_log := n\<rparr>) # replayed xs i" "i \<noteq> 0"
    using spec [OF Cons.prems(2), of i] x by simp_all
  obtain s1 where s1: "do_push i (d\<lparr>e_log := n\<rparr>) s = Some (True, s1)" "rebuilt (ys @ [x]) s1"
    using rebuilt_step [OF Cons.prems(1) Q x refl] by blast
  obtain s' where "replay_events xs s1 = Some s'" "rebuilt ((ys @ [x]) @ xs) s'"
    using Cons.IH [OF s1(2)] Cons.prems(2) by auto
  then show ?case using s1(1) x by auto
qed simp

lemma rebuilt_new: "rebuilt [] new_tqueue"
  by (simp add: rebuilt_def new_tqueue_def gc_ok_def queue_at_def tail_of_def) (simp add: new_queue_def)

lemma set_callback_fields [simp]:
  "t_queues (set_callback cb s) = t_queues s" "t_gc (set_callback cb s) = t_gc s" "t_callback (set_callback cb s) = cb"
  "queue_at (set_callback cb s) i = queue_at s i" "events_at (set_callback cb s) = events_at s"
  by (simp_all add: set_callback_def queue_at_def events_at_def fun_eq_iff)

text \<open>A restart: the new object has the same queues, and the storage mirrors it.\<close>

lemma restart_ok:
  assumes t: "tqueue_ok s" and m: "mirrored s" and cb: "t_callback s = Some ms"
  obtains s' where "ms_replay ms new_tqueue = Some s'" "tqueue_ok (set_callback (Some ms) s')"
    "mirrored (set_callback (Some ms) s')"
    "\<And>i. q_events (queue_at s' i) = q_events (queue_at s i) \<and> q_tail (queue_at s' i) = q_tail (queue_at s i)"
proof -
  have mm: "mirrors (events_at s) ms" using m cb by (simp add: mirrored_def)
  have q: "queue_ok (queue_at s i)" "queue_kept (queue_at s i)" for i
    using queue_at_ok [OF t, of i] cb by (simp_all add: state_ok_def)
  have ev: "replayed (ms_events ms) i = q_events (queue_at s i)" for i
  proof -
    have "\<forall>x \<in> set (events_at s i). e_id (snd x) = fst x" using q(1) [of i] by (auto simp: events_at_def queue_ok_def event_ok_def)
    from replayed_eq [OF mm this] show ?thesis by (simp add: events_at_def)
  qed
  have "q_events (queue_at s i) \<noteq> [] \<longrightarrow> i \<noteq> 0" for i
    using t by (auto simp: tqueue_ok_def queue_at_def split: option.splits)
  then obtain s' where s': "ms_replay ms new_tqueue = Some s'" "rebuilt (ms_events ms) s'"
    using rebuild [OF rebuilt_new, of "queue_at s" "ms_events ms"] q(1) ev by (auto simp: ms_replay_def)
  have same: "q_events (queue_at s' i) = q_events (queue_at s i)" "q_tail (queue_at s' i) = q_tail (queue_at s i)"
    "queue_ok (queue_at s' i)" "q_events (queue_at s' i) \<noteq> [] \<longrightarrow> i \<noteq> 0" for i
    using s'(2) ev kept_tail [OF q] by (simp_all add: rebuilt_def)
  have evs: "events_at s' = events_at s" by (simp add: events_at_def same(1) fun_eq_iff)
  have kept: "state_ok (queue_at s' i) (Some ms)" for i
    using same q(2) [of i] by (simp add: state_ok_def queue_kept_def)
  have "tqueue_ok (set_callback (Some ms) s')"
    unfolding tqueue_ok_def set_callback_fields
  proof (intro conjI allI impI)
    fix i p assume "t_queues s' i = Some p"
    then have "queue_at s' i = p" by (rule queue_at_Some)
    then show "state_ok p (Some ms)" "q_events p \<noteq> [] \<Longrightarrow> i \<noteq> 0" using kept [of i] same(4) [of i] by simp_all
  next
    show "gc_ok (t_queues s') (t_gc s')" using s'(2) by (simp add: rebuilt_def)
    show "map_option ms_next (Some ms) \<noteq> Some 0" using t cb by (simp add: tqueue_ok_def)
  qed
  moreover have "mirrored (set_callback (Some ms) s')" using mm by (simp add: mirrored_def evs)
  ultimately show thesis by (intro that [OF s'(1)]) (simp_all add: same)
qed

end
