(* ===== verification/Td_TQueueSteps.thy ===== *)
theory Td_TQueueSteps
  imports Td_TQueueStore
begin

text \<open>
  The event queues as a state machine: a step is a call of an operation, or a restart, which replays the storage
  into a new object.  The theory holds what each operation does in a reachable state, as the properties of the
  component.
\<close>

subsection \<open>Reading\<close>

definition event_of :: "raw_event \<Rightarrow> event" where
  "event_of e = \<lparr>ev_id = e_id e, ev_expires = e_expires e, ev_data = e_data e, ev_extra = e_extra e\<rparr>"

definition readable :: "int \<Rightarrow> int \<times> raw_event \<Rightarrow> bool" where
  "readable now x \<longleftrightarrow> live (snd x) \<and> now \<le> e_expires (snd x)"

text \<open>The events a reader is given.\<close>

definition reading :: "int \<Rightarrow> int \<Rightarrow> nat \<Rightarrow> (int \<times> raw_event) list \<Rightarrow> event list" where
  "reading from_id now n ev = map (event_of \<circ> snd) (take n (filter (\<lambda>x. from_id \<le> fst x \<and> readable now x) ev))"

lemma get_loop_result:
  assumes "state_ok q cb" "omap xs" "\<forall>x \<in> set xs. map_of (q_events q) (fst x) = Some (snd x)" "length res \<le> n"
    "\<forall>x \<in> set xs. from_id \<le> fst x"
    "get_loop queue_id from_id now n (map fst xs) res (q, cb) = Some (res', qs')"
  shows "res' = res @ map (event_of \<circ> snd) (take (n - length res) (filter (readable now) xs))"
  using assms
proof (induction xs arbitrary: q cb res)
  case (Cons x xs)
  obtain k e where x: "x = (k, e)" by (cases x)
  have e: "map_of (q_events q) k = Some e" using Cons.prems(3) x by simp
  have keys: "distinct (k # map fst xs)" "set (k # map fst xs) \<subseteq> keys_of q"
    using omap_distinct [OF Cons.prems(2)] Cons.prems(3) x by (auto simp: keys_of_def)
  show ?case
  proof (cases "readable now x")
    case False
    obtain q' cb' where p: "pop queue_id (q_tail q) k (q, cb) = Some (q', cb')" "state_ok q' cb'"
      "\<forall>k'. k' \<noteq> k \<longrightarrow> map_of (q_events q') k' = map_of (q_events q) k'"
      by (rule pop_step [OF Cons.prems(1) keys])
    have "\<forall>x \<in> set xs. map_of (q_events q') (fst x) = Some (snd x)"
      using p(3) Cons.prems(3) keys(1) by (metis distinct.simps(2) image_eqI list.set_intros(2) list.set_map)
    moreover have "get_loop queue_id from_id now n (map fst xs) res (q', cb') = Some (res', qs')"
      using Cons.prems(6) x e p(1) False by (auto simp: readable_def)
    moreover have "omap xs" using Cons.prems(2) x by (simp add: omap_Cons)
    ultimately show ?thesis using Cons.IH [OF p(2)] Cons.prems(4,5) False by simp
  next
    case True
    have id: "e_id e = k"
      using state_okD [OF Cons.prems(1)] e by (auto simp: queue_ok_def event_ok_def dest!: map_of_SomeD)
    show ?thesis
    proof (cases "length res = n")
      case full: True
      then show ?thesis using Cons.prems(5,6) x e True id by (auto simp: readable_def)
    next
      case False
      have g: "get_loop queue_id from_id now n (map fst xs) (res @ [event_of e]) (q, cb) = Some (res', qs')"
        using Cons.prems(5,6) x e True id False by (auto simp: readable_def event_of_def)
      have o: "omap xs" using Cons.prems(2) x by (simp add: omap_Cons)
      have "res' = (res @ [event_of e]) @ map (event_of \<circ> snd) (take (n - length (res @ [event_of e])) (filter (readable now) xs))"
        by (rule Cons.IH [OF Cons.prems(1) o _ _ _ g]) (use Cons.prems(3-5) False in simp_all)
      moreover have "n - length res = Suc (n - length (res @ [event_of e]))" using Cons.prems(4) False by simp
      ultimately show ?thesis using True x by simp
    qed
  qed
qed simp


lemma pop_all_other:
  assumes "state_ok q cb" "distinct ks" "set ks \<subseteq> keys_of q"
    "pop_all queue_id (q_tail q) ks (q, cb) = Some (q', cb')" "k \<notin> set ks"
  shows "map_of (q_events q') k = map_of (q_events q) k"
  using assms
proof (induction ks arbitrary: q cb)
  case (Cons k' ks)
  obtain q1 cb1 where p: "pop queue_id (q_tail q) k' (q, cb) = Some (q1, cb1)" "state_ok q1 cb1" "shrunk q q1"
    "set ks \<subseteq> keys_of q1" "\<forall>k. k \<noteq> k' \<longrightarrow> map_of (q_events q1) k = map_of (q_events q) k"
    by (rule pop_step [OF Cons.prems(1-3)])
  have "pop_all queue_id (q_tail q1) ks (q1, cb1) = Some (q', cb')"
    using Cons.prems(4) p(1) shrunk_tail(1) [OF p(3)] by simp
  then have "map_of (q_events q') k = map_of (q_events q1) k"
    using Cons.IH [OF p(2) _ p(4)] Cons.prems(2,5) by simp
  then show ?case using p(5) Cons.prems(5) by simp
qed simp

lemma map_of_filter_keys: "map_of (filter (\<lambda>x. P (fst x)) m) k = (if P k then map_of m k else None)"
  by (induction m) auto

lemma do_get_result:
  assumes q: "state_ok q cb" and g: "do_get queue_id from_id fp now n (q, cb) = Some (res, qs')"
  shows "res = reading from_id now n (q_events q)"
proof -
  let ?ks = "filter (\<lambda>k. k < from_id) (map fst (q_events q))" and ?F = "filter (\<lambda>x. from_id \<le> fst x)"
  note qo = state_okD [OF q]
  obtain q1 cb1 where 1: "(if fp then pop_all queue_id (q_tail q) ?ks (q, cb) else Some (q, cb)) = Some (q1, cb1)"
    "left_ok q cb q1 cb1"
    using pop_all_ok [OF q filtered_keys(1) [OF qo] filtered_keys(2), of queue_id "\<lambda>k. k < from_id"]
      left_ok_refl [OF q] by (cases fp) auto
  have q1: "state_ok q1 cb1" "omap (q_events q1)" "omap (q_events q)"
    using 1(2) qo by (simp_all add: left_ok_def state_ok_def queue_ok_def)
  have same: "map_of (q_events q1) k = map_of (q_events q) k" if "from_id \<le> k" for k
  proof (cases fp)
    case True
    then show ?thesis
      using pop_all_other [OF q filtered_keys(1) [OF qo] filtered_keys(2), of queue_id "\<lambda>k. k < from_id" q1 cb1 k] 1(1) that
      by simp
  qed (use 1(1) in simp)
  have "?F (q_events q1) = ?F (q_events q)"
    using same by (intro omap_eqI omap_filter q1(2,3)) (auto simp: map_of_filter_keys [of "\<lambda>k. from_id \<le> k"] fun_eq_iff)
  moreover have "filter (\<lambda>k. from_id \<le> k) (map fst (q_events q1)) = map fst (?F (q_events q1))"
    by (simp add: filter_map comp_def)
  ultimately have loop: "get_loop queue_id from_id now n (map fst (?F (q_events q))) [] (q1, cb1) = Some (res, qs')"
    using g unfolding do_get_def fst_conv 1(1) by simp
  have "\<forall>x \<in> set (?F (q_events q)). map_of (q_events q1) (fst x) = Some (snd x)"
    using same q1(3) by (simp add: map_of_omap)
  then have "res = [] @ map (event_of \<circ> snd) (take (n - length ([] :: event list)) (filter (readable now) (?F (q_events q))))"
    by (intro get_loop_result [OF q1(1) omap_filter [OF q1(3)] _ _ _ loop]) simp_all
  then show ?thesis by (simp add: reading_def conj_commute)
qed


subsection \<open>Steps\<close>

text \<open>
  The calls, with identifiers that the caller may supply (\<open>hint_ok\<close>) and results of \<open>Random::fast\<close> in its range.
\<close>

inductive tqueue_step :: "tqueue \<Rightarrow> tqueue \<Rightarrow> bool" where
  step_push: "hint_ok hint \<Longrightarrow> random_ok rnd \<Longrightarrow> push i data expires extra hint rnd s = Some (r, s') \<Longrightarrow> tqueue_step s s'"
| step_forget: "forget i n s = Some s' \<Longrightarrow> tqueue_step s s'"
| step_get: "get i from_id fp now n s = Some (r, s') \<Longrightarrow> tqueue_step s s'"
| step_clear: "clear_events i keep s = Some (r, s') \<Longrightarrow> tqueue_step s s'"
| step_gc: "run_gc now readings s = Some (r, s') \<Longrightarrow> tqueue_step s s'"
| step_restart: "t_callback s = Some ms \<Longrightarrow> ms_replay ms new_tqueue = Some s' \<Longrightarrow>
    tqueue_step s (set_callback (Some ms) s')"

inductive tqueue_reachable :: "tqueue \<Rightarrow> bool" where
  reachable_new: "cb = None \<or> cb = Some new_storage \<Longrightarrow> tqueue_reachable (set_callback cb new_tqueue)"
| reachable_step: "tqueue_reachable s \<Longrightarrow> tqueue_step s s' \<Longrightarrow> tqueue_reachable s'"

lemma push_ok:
  assumes "tqueue_ok s" "hint_ok hint" "random_ok rnd" "push i data expires extra hint rnd s = Some (r, s')"
  shows "tqueue_ok s'"
proof (cases "push_guards i data expires s")
  case True
  then show ?thesis using push_added [OF assms(1) True assms(2,3), of extra] assms(4) by auto
next
  case False
  then show ?thesis using push_refused [OF assms(1) False, of extra hint rnd] assms(4) by auto
qed

lemma step_ok:
  assumes "tqueue_step s s'" "tqueue_ok s" "mirrored s" shows "tqueue_ok s' \<and> mirrored s'"
  using assms
proof cases
  case step_push
  then show ?thesis using push_ok push_mirrored assms(2,3) by blast
next
  case (step_forget i n)
  then show ?thesis using forget_ok [OF assms(2), of i n] forget_mirrored [OF assms(2,3)] by auto
next
  case (step_get i from_id fp now n r)
  then show ?thesis using get_ok [OF assms(2), of i from_id fp now n] get_mirrored [OF assms(2,3)] by auto
next
  case (step_clear i keep r)
  then show ?thesis using clear_events_ok [OF assms(2), of i keep] clear_mirrored [OF assms(2,3)] by auto
next
  case (step_gc now readings r)
  then show ?thesis using run_gc_ok [OF assms(2), of now readings] run_gc_mirrored [OF assms(2,3)] by auto
next
  case (step_restart ms s1)
  show ?thesis by (rule restart_ok [OF assms(2,3) step_restart(2)]) (use step_restart in auto)
qed

lemma start_ok: "cb = None \<or> cb = Some new_storage \<Longrightarrow> tqueue_ok (set_callback cb new_tqueue) \<and> mirrored (set_callback cb new_tqueue)"
proof -
  assume cb: "cb = None \<or> cb = Some new_storage"
  have "events_at new_tqueue = (\<lambda>_. [])" by (simp add: events_at_def queue_at_def new_tqueue_def fun_eq_iff)
  then have "mirrored (set_callback cb new_tqueue)" using cb mirrors_new by (auto simp: mirrored_def)
  moreover have "tqueue_ok (set_callback cb new_tqueue)"
    using cb by (auto simp: tqueue_ok_def gc_ok_def new_tqueue_def set_callback_def new_storage_def)
  ultimately show ?thesis by simp
qed

lemma reachable_inv: "tqueue_reachable s \<Longrightarrow> tqueue_ok s \<and> mirrored s"
  by (induction rule: tqueue_reachable.induct) (use start_ok step_ok in blast)+

subsection \<open>How long a collection takes\<close>

text \<open>A round reads the clock at most once for every event of the queue, and once more.\<close>

lemma gc_loop_readings:
  "gc_loop i now ks readings counter gc qs = Some (rd, ct, gc', qs') \<Longrightarrow> readings \<le> rd + length ks"
proof (induction ks arbitrary: readings counter gc qs)
  case (Cons k ks)
  then obtain e where e: "map_of (q_events (fst qs)) k = Some e" by (auto simp: bind_eq_Some_conv)
  obtain late rd1 where late: "(if (counter + 1) div 128 mod 2 = 0 then deadline readings else (False, readings)) = (late, rd1)"
    by (cases "if (counter + 1) div 128 mod 2 = 0 then deadline readings else (False, readings)")
  then have rd1: "readings \<le> rd1 + 1" by (auto simp: deadline_def split: if_splits)
  show ?case
  proof (cases "\<not> late \<and> (e_expires e < now \<or> e_data e = [])")
    case True
    then obtain qs1 where "gc_loop i now ks rd1 (counter + 1) gc qs1 = Some (rd, ct, gc', qs')"
      using Cons.prems e late by (auto simp: bind_eq_Some_conv)
    then show ?thesis using Cons.IH rd1 by fastforce
  next
    case False
    then show ?thesis using Cons.prems Cons.IH [of rd1 "counter + 1" "e_expires e" qs] e late rd1 by (auto split: if_splits)
  qed
qed simp

lemma run_gc_loop_finishes:
  assumes "tqueue_ok s" "due now s < fuel" "due now s * (MAX_QUEUE_EVENTS + 1) < readings"
  shows "\<exists>n s'. run_gc_loop fuel now readings counter deleted s = Some ((n, True), s')"
  using assms
proof (induction fuel arbitrary: readings counter deleted s)
  case (Suc fuel)
  show ?case
  proof (cases "\<exists>t i g. t_gc s = (t, i) # g \<and> t < now")
    case False
    then show ?thesis by (cases "t_gc s") auto
  next
    case True
    then obtain t i g where g: "t_gc s = (t, i) # g" "t < now" by blast
    obtain q rd ct gc q' cb' s1 where step: "q_gc (queue_at s i) = t" "q = queue_at s i"
      "gc_loop i now (map fst (q_events q)) readings counter 0 (q, t_callback s) = Some (rd, ct, gc, q', cb')"
      "queue_size q' \<le> queue_size q"
      "map_option (\<lambda>(q, g). (put_state i (q, cb') s)\<lparr>t_gc := g\<rparr>) (schedule_queue_gc i gc (q', t_gc s)) = Some s1"
      "tqueue_ok s1" "spared now s s1" "rd = 0 \<or> due now s1 < due now s"
      by (rule run_gc_step [OF Suc.prems(1) g, of readings counter])
    obtain q2 g2 where sch: "schedule_queue_gc i gc (q', t_gc s) = Some (q2, g2)"
      "s1 = (put_state i (q2, cb') s)\<lparr>t_gc := g2\<rparr>" using step(5) by auto
    have "length (q_events q) \<le> MAX_QUEUE_EVENTS"
      using state_okD [OF queue_at_ok [OF Suc.prems(1)], of i] step(2) by (simp add: queue_ok_def)
    then have rd: "readings \<le> rd + MAX_QUEUE_EVENTS" using gc_loop_readings [OF step(3)] by simp
    have pos: "0 < due now s" using g by (simp add: due_def)
    then have "1 * (MAX_QUEUE_EVENTS + 1) \<le> due now s * (MAX_QUEUE_EVENTS + 1)" by (intro mult_le_mono) simp_all
    then have "MAX_QUEUE_EVENTS + 1 < readings" using Suc.prems(3) by (simp only: mult_1)
    then have "0 < rd" using rd by linarith
    then have rd0: "rd \<noteq> 0" by simp
    then have less: "due now s1 < due now s" using step(8) by simp
    then have "(due now s1 + 1) * (MAX_QUEUE_EVENTS + 1) \<le> due now s * (MAX_QUEUE_EVENTS + 1)" by (intro mult_le_mono) simp_all
    then have left: "due now s1 * (MAX_QUEUE_EVENTS + 1) < rd - 1" using rd Suc.prems(3) by (simp add: add_mult_distrib)
    have "run_gc_loop (Suc fuel) now readings counter deleted s =
       run_gc_loop fuel now (rd - 1) ct (deleted + (queue_size q - queue_size q')) s1"
      using g step(1-4) sch rd0 by (simp add: deadline_def)
    then show ?thesis using Suc.IH [OF step(6) _ left] less Suc.prems(2) by simp
  qed
qed simp

subsection \<open>What \<open>clear\<close> leaves\<close>

definition entombed :: "queue \<Rightarrow> bool" where
  "entombed q \<longleftrightarrow> q_events q \<noteq> [] \<and> \<not> live (snd (last (q_events q)))"

lemma size_kept_last:
  assumes "q_events q \<noteq> []" "omap (q_events q)" "keep_last i (q, cb) = (n, q', cb')"
  shows "queue_size (kept_queue n q') = 0 \<and> q_tail q' = q_tail q"
proof -
  obtain a k e where ab: "q_events q = a @ [(k, e)]" using assms(1) by (metis rev_exhaust surj_pair)
  then have "omap_put k (tomb e) (q_events q) = a @ [(k, tomb e)]" using omap_split(2) [of a k e "[]"] assms(2) by simp
  then show ?thesis
    using assms(3) ab by (auto simp: keep_last_def clear_event_data_def kept_queue_def queue_size_def Let_def split: option.splits if_splits)
qed

lemma size_kept:
  assumes "0 < keep" "keep < queue_size q"
  shows "queue_size (kept_queue (length (q_events q) - keep) q) = keep - (if entombed q then 1 else 0)"
proof -
  have "q_events q \<noteq> []" "keep \<le> length (q_events q)" using assms by (auto simp: queue_size_def split: if_splits)
  then show ?thesis using assms(1) by (auto simp: queue_size_def kept_queue_def entombed_def)
qed

lemma clear_size:
  assumes t: "tqueue_ok s" and q: "t_queues s i = Some q"
  obtains deleted s' where "clear_events i keep s = Some (deleted, s')" "q_tail (queue_at s' i) = q_tail q"
    "queue_size (queue_at s' i) = (if queue_size q \<le> keep then queue_size q else if keep = 0 then 0
       else keep - (if entombed q then 1 else 0))"
proof -
  have ok: "state_ok q (t_callback s)" using t q by (simp add: tqueue_ok_def)
  show thesis
  proof (cases "queue_size q \<le> keep")
    case True
    then show thesis using that [of "[]" s] q queue_at_Some [OF q] by (simp add: clear_events_def)
  next
    case False
    then have ne: "q_events q \<noteq> []" by (auto simp: queue_size_def)
    obtain n q' cb' where k: "(if keep = 0 then keep_last i (q, t_callback s)
        else (length (q_events q) - keep, q, t_callback s)) = (n, q', cb')"
      by (metis prod_cases3)
    have q': "queue_ok q' \<and> n \<le> length (q_events q') \<and> q_tail q' = q_tail q \<and>
      queue_size (kept_queue n q') = (if keep = 0 then 0 else keep - (if entombed q then 1 else 0))"
    proof (cases "keep = 0")
      case True
      then have kl: "keep_last i (q, t_callback s) = (n, q', cb')" using k by simp
      moreover obtain n' q'' cb'' where "keep_last i (q, t_callback s) = (n', q'', cb'')" "state_ok q'' cb''"
        "n' \<le> length (q_events q'')"
        by (rule keep_last_ok [OF ok ne, of i]) (unfold left_ok_def, blast)
      moreover have "omap (q_events q)" using state_okD [OF ok] by (simp add: queue_ok_def)
      ultimately show ?thesis using size_kept_last [OF ne _ kl] True by (auto dest: state_okD)
    next
      case False
      then show ?thesis using k state_okD [OF ok] size_kept [of keep q] \<open>\<not> queue_size q \<le> keep\<close> by auto
    qed
    have "clear_events i keep s = Some (take n (q_events q'), put_state i (kept_queue n q', map_option
        (ms_pop_batch (filter (\<lambda>n. n \<noteq> 0) (map (e_log \<circ> snd) (take n (q_events q'))))) cb') s)"
      using q False moves_eq [of q' n "keep > queue_size q div 2"] q'
      by (simp only: clear_events_def option.case Let_def if_False k(1) split_conv bind.bind_lunit)
    then show thesis using q' False by (intro that) (auto simp: queue_at_def kept_queue_def)
  qed
qed

subsection \<open>A run\<close>

text \<open>
  A queue with a storage: two events are added, a third one is added and forgotten, which leaves a tombstone.
\<close>

definition sample_start :: tqueue where
  "sample_start = set_callback (Some new_storage) new_tqueue"

definition sample_first :: tqueue where
  "sample_first = snd (the (push 7 [65] 10 0 5 2000001 sample_start))"

definition sample_pushed :: tqueue where
  "sample_pushed = snd (the (push 7 [66] 20 1 0 2000001 sample_first))"

definition sample_third :: tqueue where
  "sample_third = snd (the (push 7 [67] 30 2 0 2000001 sample_pushed))"

definition sample_tombstone :: tqueue where
  "sample_tombstone = the (forget 7 7 sample_third)"

lemma sample_ok: "hint_ok 5" "hint_ok 0" "random_ok 2000001"
  by (simp_all add: hint_ok_def random_ok_def MAX_ID_def MAX_QUEUE_EVENTS_def)

lemma reachable_push:
  assumes "tqueue_reachable s" "hint_ok hint" "random_ok rnd"
  shows "tqueue_reachable (snd (the (push i data expires extra hint rnd s)))"
proof -
  obtain r s' where p: "push i data expires extra hint rnd s = Some (r, s')"
    using push_refused push_added [OF _ _ assms(2,3)] reachable_inv [OF assms(1)] by (metis (no_types, lifting))
  show ?thesis using reachable_step [OF assms(1) step_push [OF assms(2,3) p]] by (simp add: p)
qed

lemma sample_reachable: "tqueue_reachable sample_start" "tqueue_reachable sample_pushed"
  "tqueue_reachable sample_tombstone"
proof -
  show start: "tqueue_reachable sample_start" unfolding sample_start_def by (intro reachable_new) simp
  then show pushed: "tqueue_reachable sample_pushed"
    unfolding sample_pushed_def sample_first_def by (intro reachable_push sample_ok)
  then have third: "tqueue_reachable sample_third" unfolding sample_third_def by (intro reachable_push sample_ok)
  obtain s3 where 3: "forget 7 7 sample_third = Some s3" using forget_ok reachable_inv [OF third] by blast
  then show "tqueue_reachable sample_tombstone"
    using reachable_step [OF third step_forget [OF 3]] by (simp add: sample_tombstone_def)
qed

lemma choose_two: "choose_id 2 = choose_id (Suc (Suc 0))"
  by (simp add: numeral_2_eq_2)

lemmas evaluate = queue_at_def put_queue_def put_state_def new_queue_def id_empty_def id_is_valid_def is_valid_id_def
  next_id_def from_int32_def event_id_of_def drop_tombstone_def schedule_queue_gc_def log_event_def ms_push_def
  omap_emplace_def MAX_EVENT_LENGTH_def MAX_QUEUE_EVENTS_def MAX_TOTAL_EVENT_LENGTH_def MAX_ID_def ok_def check_def Let_def

lemma sample_pushed_eq:
  "sample_pushed = \<lparr>t_queues = [7 \<mapsto> \<lparr>q_tail = 7, q_events =
       [(5, \<lparr>e_log = 1, e_id = 5, e_expires = 10, e_data = [65], e_extra = 0\<rparr>),
        (6, \<lparr>e_log = 2, e_id = 6, e_expires = 20, e_data = [66], e_extra = 1\<rparr>)], q_total = 2, q_gc = 10\<rparr>],
     t_gc = [(10, 7)], t_callback = Some \<lparr>ms_next = 3, ms_events =
       [(1, 7, \<lparr>e_log = 0, e_id = 5, e_expires = 10, e_data = [65], e_extra = 0\<rparr>),
        (2, 7, \<lparr>e_log = 0, e_id = 6, e_expires = 20, e_data = [66], e_extra = 1\<rparr>)]\<rparr>\<rparr>"
proof -
  have first: "sample_first = \<lparr>t_queues = [7 \<mapsto> \<lparr>q_tail = 6, q_events =
       [(5, \<lparr>e_log = 1, e_id = 5, e_expires = 10, e_data = [65], e_extra = 0\<rparr>)], q_total = 1, q_gc = 10\<rparr>],
     t_gc = [(10, 7)], t_callback = Some \<lparr>ms_next = 2, ms_events =
       [(1, 7, \<lparr>e_log = 0, e_id = 5, e_expires = 10, e_data = [65], e_extra = 0\<rparr>)]\<rparr>\<rparr>"
    unfolding sample_first_def sample_start_def set_callback_def new_tqueue_def new_storage_def push_def do_push_def
      choose_two choose_id.simps
    by (simp add: evaluate)
  show ?thesis
    unfolding sample_pushed_def first push_def do_push_def choose_two choose_id.simps
    by (simp add: evaluate) (simp add: numeral_2_eq_2)
qed

lemma sample_tombstone_queue:
  "t_queues sample_tombstone 7 = Some \<lparr>q_tail = 8, q_events =
       [(5, \<lparr>e_log = 1, e_id = 5, e_expires = 10, e_data = [65], e_extra = 0\<rparr>),
        (6, \<lparr>e_log = 2, e_id = 6, e_expires = 20, e_data = [66], e_extra = 1\<rparr>),
        (7, \<lparr>e_log = 3, e_id = 7, e_expires = 30, e_data = [], e_extra = 2\<rparr>)], q_total = 2, q_gc = 10\<rparr>"
  unfolding sample_tombstone_def sample_third_def sample_pushed_eq push_def do_push_def choose_two choose_id.simps
  by (simp add: evaluate forget_def pop_def clear_event_data_def)

subsection \<open>Properties\<close>

text \<open>C13: in every reachable state the queues are well formed (events in the order of their identifiers and
  below the next one, sizes as counted, only the last event a tombstone), a garbage collection is scheduled for
  every queue with a live event, and the storage holds exactly the events of the queues.\<close>

lemma tqueue_invariant:
  assumes "tqueue_reachable s" shows "tqueue_ok s \<and> mirrored s"
  by (rule reachable_inv [OF assms])

lemma tqueue_invariant_witness: "tqueue_ok sample_tombstone \<and> mirrored sample_tombstone"
  by (rule tqueue_invariant [OF sample_reachable(3)])



text \<open>C34: what \<open>push\<close> does.  An event that the guards let through gets the next identifier of its queue (or, when
  there is none, the one the caller supplied or a random one), goes to the end of the queue in place of a
  tombstone, and changes no other queue; when the identifiers are used up, the old events go.  An event that they
  refuse changes nothing and the caller is given an error.\<close>

lemma push_result:
  assumes "tqueue_reachable s" "hint_ok hint" "random_ok rnd"
  shows "case push i data expires extra hint rnd s of None \<Rightarrow> False | Some (r, s') \<Rightarrow>
    if push_guards i data expires s then
      (let q = queue_at s i; n = fresh_id hint rnd q in
        r = Inr n \<and> get_tail i s' = n + 1 \<and> (\<forall>j. j \<noteq> i \<longrightarrow> queue_at s' j = queue_at s j) \<and>
        (\<exists>log. q_events (queue_at s' i) = (if q_tail q + 1 < MAX_ID then filter (\<lambda>x. live (snd x)) (q_events q) else []) @
           [(n, \<lparr>e_log = log, e_id = n, e_expires = expires, e_data = data, e_extra = extra\<rparr>)]))
    else \<not> is_ok r \<and> (\<forall>j. queue_at s' j = queue_at s j) \<and> t_callback s' = t_callback s"
proof (cases "push_guards i data expires s")
  case True
  obtain s' e where p: "push i data expires extra hint rnd s = Some (Inr (fresh_id hint rnd (queue_at s i)), s')"
    "get_tail i s' = fresh_id hint rnd (queue_at s i) + 1"
    "q_events (queue_at s' i) = (if q_tail (queue_at s i) + 1 < MAX_ID then filter (\<lambda>x. live (snd x)) (q_events (queue_at s i)) else []) @
       [(fresh_id hint rnd (queue_at s i), e)]"
    "e_id e = fresh_id hint rnd (queue_at s i)" "e_data e = data" "e_expires e = expires" "e_extra e = extra"
    "\<forall>j. j \<noteq> i \<longrightarrow> t_queues s' j = t_queues s j"
    using push_added [OF _ True assms(2,3), of extra] reachable_inv [OF assms(1)] by blast
  have "e = \<lparr>e_log = e_log e, e_id = fresh_id hint rnd (queue_at s i), e_expires = expires, e_data = data, e_extra = extra\<rparr>"
    by (rule raw_event.equality) (simp_all add: p(4-7))
  moreover have "\<forall>j. j \<noteq> i \<longrightarrow> queue_at s' j = queue_at s j" using p(8) by (simp add: queue_at_def)
  ultimately show ?thesis using True p(1-3) by (auto simp: Let_def)
next
  case False
  then show ?thesis using push_refused [OF _ False, of extra hint rnd] reachable_inv [OF assms(1)] by fastforce
qed

lemma push_result_witness:
  "case push 7 [67] 30 2 0 2000001 sample_pushed of None \<Rightarrow> False | Some (r, s') \<Rightarrow> r = Inr 7 \<and> get_tail 7 s' = 8"
proof -
  have "push_guards 7 [67] 30 sample_pushed" "fresh_id 0 2000001 (queue_at sample_pushed 7) = 7"
    unfolding sample_pushed_eq
    by (simp_all add: push_guards_def fresh_id_def queue_at_def MAX_EVENT_LENGTH_def MAX_QUEUE_EVENTS_def MAX_TOTAL_EVENT_LENGTH_def MAX_ID_def)
  then show ?thesis using push_result [OF sample_reachable(2) sample_ok(2,3), of 7 "[67]" 30 2]
    by (auto simp: Let_def split: option.splits prod.splits)
qed


text \<open>C37: what \<open>get\<close> returns: the first events from the given identifier on that are neither expired nor forgotten,
  up to the length of the span, in order, and the number of live events that are left; or an error, without any
  change, when the identifier is too far from those of the queue.\<close>

lemma get_reads:
  assumes "tqueue_reachable s"
  shows "case get i from_id fp now len s of None \<Rightarrow> False
    | Some (Inr (n, res), s') \<Rightarrow> res = reading from_id now len (q_events (queue_at s i)) \<and>
        n = card (live_ids (queue_at s' i)) \<and> get_tail i s' = get_tail i s
    | Some (Inl m, s') \<Rightarrow> s' = s \<and>
        (get_tail i s + 10 < from_id \<or> from_id < get_head i s - int MAX_QUEUE_EVENTS)"
proof (cases "t_queues s i")
  case None
  then show ?thesis by (simp add: get_def reading_def queue_at_def)
next
  case (Some q)
  have ok: "state_ok q (t_callback s)" using reachable_inv [OF assms] Some by (simp add: tqueue_ok_def)
  obtain res q' cb' where g: "do_get i from_id fp now len (q, t_callback s) = Some (res, q', cb')"
    "left_ok q (t_callback s) q' cb'" using do_get_ok [OF ok] by blast
  have "res = reading from_id now len (q_events q)" by (rule do_get_result [OF ok g(1)])
  moreover have "queue_size q' = card (live_ids q')" "q_tail q' = q_tail q"
    using g(2) queue_size_card [of q'] shrunk_tail(1) by (auto simp: left_ok_def state_ok_def)
  ultimately show ?thesis using Some g(1) by (simp add: get_def get_tail_def get_head_def queue_at_def)
qed

lemma get_reads_witness:
  "case get 7 6 False 15 5 sample_pushed of
     Some (Inr (n, res), s') \<Rightarrow> res = [\<lparr>ev_id = 6, ev_expires = 20, ev_data = [66], ev_extra = 1\<rparr>]
   | _ \<Rightarrow> False"
proof -
  have "q_events (queue_at sample_pushed 7) = [(5, \<lparr>e_log = 1, e_id = 5, e_expires = 10, e_data = [65], e_extra = 0\<rparr>),
        (6, \<lparr>e_log = 2, e_id = 6, e_expires = 20, e_data = [66], e_extra = 1\<rparr>)]"
    "get_tail 7 sample_pushed = 7" "get_head 7 sample_pushed = 5"
    by (simp_all add: sample_pushed_eq queue_at_def get_tail_def get_head_def get_queue_head_def)
  then show ?thesis
    using get_reads [OF sample_reachable(2), where i = 7 and from_id = 6 and fp = False and now = 15 and len = 5]
    by (auto simp: reading_def readable_def event_of_def MAX_QUEUE_EVENTS_def split: option.splits sum.splits prod.splits)
qed

text \<open>Garbage collection.  A run never removes an event that is live and has not expired, and when it says that
  it has finished, no collection that is due is left; and it does finish, provided that the clock can be read
  often enough before the deadline: once for every event of the queues that are due, and once for each of them.\<close>

lemma run_gc_spares:
  assumes "tqueue_reachable s"
  shows "case run_gc now readings s of None \<Rightarrow> False | Some ((n, finished), s') \<Rightarrow> spared now s s' \<and>
    (finished \<longrightarrow> (\<forall>x \<in> set (t_gc s'). now \<le> fst x))"
  using run_gc_ok [of s now readings] reachable_inv [OF assms] by auto

lemma run_gc_spares_witness:
  "case run_gc 15 3 sample_pushed of None \<Rightarrow> False | Some ((n, finished), s') \<Rightarrow> spared 15 sample_pushed s' \<and>
    (finished \<longrightarrow> (\<forall>x \<in> set (t_gc s'). 15 \<le> fst x))"
  by (rule run_gc_spares [OF sample_reachable(2)])

text \<open>C36: a run of the garbage collection finishes when the clock can be read often enough before the deadline:
  for every queue that is due, once for each event it can hold and once more.\<close>

lemma run_gc_finishes:
  assumes "tqueue_reachable s" "due now s * (MAX_QUEUE_EVENTS + 1) < readings"
  shows "\<exists>n s'. run_gc now readings s = Some ((n, True), s') \<and> due now s' = 0"
proof -
  have ok: "tqueue_ok s" using reachable_inv [OF assms(1)] by simp
  have "due now s < length (t_gc s) + 1" by (simp add: due_def less_Suc_eq_le)
  then obtain n s' where "run_gc now readings s = Some ((n, True), s')"
    using run_gc_loop_finishes [OF ok _ assms(2)] unfolding run_gc_def by blast
  then show ?thesis using run_gc_ok [OF ok, of now readings] by (auto simp: due_def filter_empty_conv not_less)
qed

lemma run_gc_finishes_witness:
  "\<exists>n s'. run_gc 15 200000 sample_pushed = Some ((n, True), s') \<and> due 15 s' = 0"
proof -
  have "due 15 sample_pushed = 1" unfolding sample_pushed_eq by (simp add: due_def)
  then show ?thesis by (intro run_gc_finishes [OF sample_reachable(2)]) (simp add: MAX_QUEUE_EVENTS_def)
qed

text \<open>C14: recovery.  Replaying the storage of a reachable state into a new object succeeds and gives the same queues:
  the same events with the identifiers of their log events, the same next identifiers and the same sizes.\<close>

lemma replay_restores:
  assumes "tqueue_reachable s" "t_callback s = Some ms"
  shows "case ms_replay ms new_tqueue of None \<Rightarrow> False | Some s' \<Rightarrow>
    (\<forall>i. q_events (queue_at s' i) = q_events (queue_at s i) \<and> get_tail i s' = get_tail i s \<and>
      get_head i s' = get_head i s \<and> get_queue_size i s' = get_queue_size i s)"
proof -
  have ok: "tqueue_ok s" "mirrored s" using reachable_inv [OF assms(1)] by simp_all
  obtain s' where s': "ms_replay ms new_tqueue = Some s'"
    "\<And>i. q_events (queue_at s' i) = q_events (queue_at s i) \<and> q_tail (queue_at s' i) = q_tail (queue_at s i)"
    by (rule restart_ok [OF ok assms(2)]) blast
  have "get_tail i t = q_tail (queue_at t i)" "get_head i t = get_queue_head (queue_at t i)"
    "get_queue_size i t = queue_size (queue_at t i)" for i t
    by (simp_all add: get_tail_def get_head_def get_queue_size_def queue_at_def new_queue_def get_queue_head_def
        queue_size_def split: option.split)
  then show ?thesis using s' by (simp add: get_queue_head_def queue_size_def split: list.split)
qed

lemma replay_restores_witness:
  "case ms_replay (the (t_callback sample_pushed)) new_tqueue of None \<Rightarrow> False | Some s' \<Rightarrow>
    map (ev_id \<circ> event_of \<circ> snd) (q_events (queue_at s' 7)) = [5, 6] \<and> get_tail 7 s' = 7 \<and> get_queue_size 7 s' = 2"
proof -
  have cb: "t_callback sample_pushed = Some (the (t_callback sample_pushed))" by (simp add: sample_pushed_eq)
  have "map (ev_id \<circ> event_of \<circ> snd) (q_events (queue_at sample_pushed 7)) = [5, 6]" "get_tail 7 sample_pushed = 7"
    "get_queue_size 7 sample_pushed = 2"
    by (simp_all add: sample_pushed_eq queue_at_def get_tail_def get_queue_size_def queue_size_def event_of_def)
  then show ?thesis using replay_restores [OF sample_reachable(2) cb] by (simp split: option.splits)
qed

text \<open>C38: what \<open>clear\<close> leaves of a queue.  With \<open>keep_count\<close> events or fewer, it does nothing; otherwise it leaves
  \<open>keep_count\<close> events, or one less when the last event of the queue is a tombstone, which is counted among the
  events that are kept.  The next identifier stays.\<close>

lemma clear_leaves:
  assumes "tqueue_reachable s"
  shows "case clear_events i keep s of None \<Rightarrow> False | Some (deleted, s') \<Rightarrow> get_tail i s' = get_tail i s \<and>
    get_queue_size i s' = (let m = get_queue_size i s in
      if m \<le> keep then m else if keep = 0 then 0 else keep - (if entombed (queue_at s i) then 1 else 0))"
proof (cases "t_queues s i")
  case None
  then show ?thesis by (simp add: clear_events_def get_queue_size_def)
next
  case (Some q)
  obtain deleted s' where c: "clear_events i keep s = Some (deleted, s')" "q_tail (queue_at s' i) = q_tail q"
    "queue_size (queue_at s' i) = (if queue_size q \<le> keep then queue_size q else if keep = 0 then 0
       else keep - (if entombed q then 1 else 0))"
    using clear_size [of s i q keep] Some reachable_inv [OF assms] by blast
  have "get_tail i s' = q_tail (queue_at s' i)" "get_queue_size i s' = queue_size (queue_at s' i)"
    by (simp_all add: get_tail_def get_queue_size_def queue_at_def new_queue_def queue_size_def split: option.split)
  then show ?thesis using c Some by (simp add: get_tail_def get_queue_size_def queue_at_def)
qed

lemma clear_leaves_witness:
  "get_queue_size 7 sample_tombstone = 2 \<and>
   map_option (\<lambda>(deleted, s'). get_queue_size 7 s') (clear_events 7 1 sample_tombstone) = Some 0"
proof -
  have "get_queue_size 7 sample_tombstone = 2" "entombed (queue_at sample_tombstone 7)"
    by (simp_all add: get_queue_size_def queue_at_def sample_tombstone_queue queue_size_def entombed_def)
  then show ?thesis using clear_leaves [OF sample_reachable(3), of 7 1] by (auto split: option.splits)
qed

end
