(* ===== verification/Td_Tl.thy ===== *)
theory Td_Tl
  imports Td_Utf8 Td_Numbers
begin

text \<open>
  The binary serialisation of the library: \<open>TlStorerUnsafe\<close> and \<open>TlStorerCalcLength\<close> of
  \<open>tdutils/td/utils/tl_storers.h\<close>, \<open>TlParser\<close> and \<open>TlBufferParser\<close> of \<open>tl_parsers.h\<close> and
  \<open>tl_parsers.cpp\<close>, the \<open>Storer\<close> objects of \<open>Storer.h\<close>, and the functions of \<open>tl_helpers.h\<close>.

  A pointer into an object is the list of the bytes from it to the end of the object, so that \<open>None\<close> is, besides
  a failed \<open>CHECK\<close> and \<open>LOG(FATAL)\<close>, a read or a write outside of the object.  Integers are words; memory is
  little-endian and \<open>size_t\<close> has 64 bits, as on the platforms of the application.  A \<open>double\<close> is the word of its
  bits, \<open>UInt256\<close> and \<open>UInt512\<close> are byte strings.
\<close>

type_synonym int32 = "32 word"
type_synonym int64 = "64 word"

definition SIZE_MAX :: nat where "SIZE_MAX = 2 ^ 64 - 1"

subsection \<open>Values in memory\<close>

primrec le_bytes :: "nat \<Rightarrow> 'a::len word \<Rightarrow> bytes" where
  "le_bytes 0 w = []"
| "le_bytes (Suc n) w = ucast w # le_bytes n (drop_bit 8 w)"

primrec le_word :: "bytes \<Rightarrow> 'a::len word" where
  "le_word [] = 0"
| "le_word (b # bs) = ucast b OR push_bit 8 (le_word bs)"

subsection \<open>Storers\<close>

text \<open>
  \<open>Calc\<close> counts the length; \<open>Unsafe\<close> has written the bytes and has room for some more in the buffer.
\<close>

datatype tl_storer = Calc nat | Unsafe bytes nat

fun store_slice :: "bytes \<Rightarrow> tl_storer \<Rightarrow> tl_storer option" where
  "store_slice bs (Calc n) = Some (Calc (n + length bs))"
| "store_slice bs (Unsafe out room) =
     do { check (length bs \<le> room); Some (Unsafe (out @ bs) (room - length bs)) }"

definition store_binary :: "nat \<Rightarrow> 'a::len word \<Rightarrow> tl_storer \<Rightarrow> tl_storer option" where
  "store_binary sz x = store_slice (le_bytes sz x)"

definition store_int :: "int32 \<Rightarrow> tl_storer \<Rightarrow> tl_storer option" where
  "store_int = store_binary 4"

definition store_long :: "int64 \<Rightarrow> tl_storer \<Rightarrow> tl_storer option" where
  "store_long = store_binary 8"

definition string_header :: "nat \<Rightarrow> bytes option" where
  "string_header len =
     (if len < 254 then Some [of_nat len]
      else if len < 2 ^ 24 then Some (254 # map of_nat [len mod 256, len div 2 ^ 8 mod 256, len div 2 ^ 16])
      else if len < 2 ^ 32 then Some (255 # map of_nat
        [len mod 256, len div 2 ^ 8 mod 256, len div 2 ^ 16 mod 256, len div 2 ^ 24 mod 256, 0, 0, 0])
      else None)"

definition string_padding :: "nat \<Rightarrow> bytes" where
  "string_padding len =
     (let n = (if len < 254 then len + 1 else len) mod 4 in replicate (if n = 0 then 0 else 4 - n) 0)"

definition string_stored_length :: "nat \<Rightarrow> nat" where
  "string_stored_length len =
     ((if len < 254 then len + 1 else if len < 2 ^ 24 then len + 4 else len + 8) + 3) div 4 * 4"

fun store_string :: "bytes \<Rightarrow> tl_storer \<Rightarrow> tl_storer option" where
  "store_string s (Calc n) = Some (Calc (n + string_stored_length (length s)))"
| "store_string s (Unsafe out room) =
     do { header \<leftarrow> string_header (length s);
          store_slice (header @ s @ string_padding (length s)) (Unsafe out room) }"

text \<open>
  A \<open>Storer\<close>: its size, and what it writes to a buffer with some room.
\<close>

record storer =
  sr_size :: nat
  sr_store :: "nat \<Rightarrow> bytes option"

fun store_storer :: "storer \<Rightarrow> tl_storer \<Rightarrow> tl_storer option" where
  "store_storer sr (Calc n) = Some (Calc (n + sr_size sr))"
| "store_storer sr (Unsafe out room) = do { bs \<leftarrow> sr_store sr room; store_slice bs (Unsafe out room) }"

fun storer_length :: "tl_storer \<Rightarrow> nat" where
  "storer_length (Calc n) = n"
| "storer_length (Unsafe out room) = length out"

fun storer_bytes :: "tl_storer \<Rightarrow> bytes" where
  "storer_bytes (Calc n) = []"
| "storer_bytes (Unsafe out room) = out"

text \<open>The argument is the \<open>store\<close> of an object.\<close>

definition tl_calc_length :: "(tl_storer \<Rightarrow> tl_storer option) \<Rightarrow> nat option" where
  "tl_calc_length st = map_option storer_length (st (Calc 0))"

definition tl_store_unsafe :: "(tl_storer \<Rightarrow> tl_storer option) \<Rightarrow> nat \<Rightarrow> bytes option" where
  "tl_store_unsafe st room = map_option storer_bytes (st (Unsafe [] room))"

definition slice_storer :: "bytes \<Rightarrow> storer" where
  "slice_storer s = \<lparr>sr_size = length s, sr_store = (\<lambda>room. do { check (length s \<le> room); Some s })\<rparr>"

definition concat_storer :: "storer \<Rightarrow> storer \<Rightarrow> storer" where
  "concat_storer a b = \<lparr>sr_size = sr_size a + sr_size b,
     sr_store = (\<lambda>room. do { x \<leftarrow> sr_store a room; y \<leftarrow> sr_store b (room - length x); Some (x @ y) })\<rparr>"

definition default_storer :: "(tl_storer \<Rightarrow> tl_storer option) \<Rightarrow> storer option" where
  "default_storer st = map_option (\<lambda>n. \<lparr>sr_size = n, sr_store = tl_store_unsafe st\<rparr>) (tl_calc_length st)"

subsection \<open>The parser\<close>

record tl_parser =
  tp_data :: bytes
  tp_data_len :: nat
  tp_left :: nat
  tp_error_pos :: nat
  tp_error :: bytes

definition empty_data :: bytes where "empty_data = replicate 64 0"

definition new_tl_parser :: "bytes \<Rightarrow> tl_parser" where
  "new_tl_parser s =
     \<lparr>tp_data = s, tp_data_len = length s, tp_left = length s, tp_error_pos = SIZE_MAX, tp_error = []\<rparr>"

definition set_error :: "bytes \<Rightarrow> tl_parser \<Rightarrow> tl_parser option" where
  "set_error error_message p =
     (if tp_error p = [] then
        do { check (error_message \<noteq> []);
             Some (p\<lparr>tp_error := error_message, tp_error_pos := tp_data_len p - tp_left p, tp_data := empty_data,
                     tp_left := 0, tp_data_len := 0\<rparr>) }
      else do { check (tp_error_pos p \<noteq> SIZE_MAX \<and> tp_data_len p = 0 \<and> tp_left p = 0);
                Some (p\<lparr>tp_data := empty_data\<rparr>) })"

definition get_status :: "tl_parser \<Rightarrow> unit result" where
  "get_status p =
     (if tp_error p = [] then Inr ()
      else Inl (Err 0 (tp_error p @ str '' at '' @ print_uint (tp_error_pos p))))"

definition check_len :: "nat \<Rightarrow> tl_parser \<Rightarrow> tl_parser option" where
  "check_len len p =
     (if tp_left p < len then set_error (str ''Not enough data to read'') p
      else Some (p\<lparr>tp_left := tp_left p - len\<rparr>))"

text \<open>Reading the bytes at the pointer, and moving it.\<close>

definition bytes_at :: "nat \<Rightarrow> nat \<Rightarrow> tl_parser \<Rightarrow> bytes option" where
  "bytes_at i n p = do { check (i + n \<le> length (tp_data p)); Some (take n (drop i (tp_data p))) }"

definition move_data :: "nat \<Rightarrow> tl_parser \<Rightarrow> tl_parser option" where
  "move_data n p = do { check (n \<le> length (tp_data p)); Some (p\<lparr>tp_data := drop n (tp_data p)\<rparr>) }"

definition can_prefetch_int :: "tl_parser \<Rightarrow> bool" where
  "can_prefetch_int p \<longleftrightarrow> tp_left p \<ge> 4"

definition prefetch_int_unsafe :: "tl_parser \<Rightarrow> int32 option" where
  "prefetch_int_unsafe p = map_option le_word (bytes_at 0 4 p)"

definition fetch_binary_unsafe :: "nat \<Rightarrow> tl_parser \<Rightarrow> (bytes \<times> tl_parser) option" where
  "fetch_binary_unsafe sz p = do { bs \<leftarrow> bytes_at 0 sz p; p \<leftarrow> move_data sz p; Some (bs, p) }"

definition fetch_binary :: "nat \<Rightarrow> tl_parser \<Rightarrow> (bytes \<times> tl_parser) option" where
  "fetch_binary sz p = do { p \<leftarrow> check_len sz p; fetch_binary_unsafe sz p }"

definition fetch_int :: "tl_parser \<Rightarrow> (int32 \<times> tl_parser) option" where
  "fetch_int p = do { (bs, p) \<leftarrow> fetch_binary 4 p; Some (le_word bs, p) }"

definition fetch_long :: "tl_parser \<Rightarrow> (int64 \<times> tl_parser) option" where
  "fetch_long p = do { (bs, p) \<leftarrow> fetch_binary 8 p; Some (le_word bs, p) }"

text \<open>The number that bytes make, the first one the least significant.\<close>

primrec le_nat :: "bytes \<Rightarrow> nat" where
  "le_nat [] = 0"
| "le_nat (b # bs) = unat b + 2 ^ 8 * le_nat bs"

text \<open>
  The three forms of the length.  The result is the length of the string, where it begins, how much is still to
  be checked, and the parser behind the length; \<open>Inl\<close> is the early return.
\<close>

definition fetch_string_header :: "tl_parser \<Rightarrow> (tl_parser + nat \<times> bytes \<times> nat \<times> tl_parser) option" where
  "fetch_string_header p =
     do { b \<leftarrow> bytes_at 0 1 p;
          let result_len = le_nat b in
          if result_len < 254 then
            do { q \<leftarrow> move_data 4 p; Some (Inr (result_len, drop 1 (tp_data p), result_len div 4 * 4, q)) }
          else if result_len = 254 then
            do { bs \<leftarrow> bytes_at 1 3 p;
                 let result_len = le_nat bs;
                 q \<leftarrow> move_data 4 p;
                 Some (Inr (result_len, drop 4 (tp_data p), (result_len + 3) div 4 * 4, q)) }
          else
            do { p \<leftarrow> check_len 4 p;
                 bs \<leftarrow> bytes_at 1 7 p;
                 let result_len = le_nat bs;
                 if result_len > SIZE_MAX - 3 then map_option Inl (set_error (str ''Too big string found'') p)
                 else do { q \<leftarrow> move_data 8 p;
                           Some (Inr (result_len, drop 8 (tp_data p), (result_len + 3) div 4 * 4, q)) } } }"

definition fetch_string_body :: "nat \<Rightarrow> bytes \<Rightarrow> nat \<Rightarrow> tl_parser \<Rightarrow> (bytes \<times> tl_parser) option" where
  "fetch_string_body result_len result_begin result_aligned_len p =
     do { p \<leftarrow> check_len result_aligned_len p;
          if tp_error p \<noteq> [] then Some ([], p)
          else do { p \<leftarrow> move_data result_aligned_len p;
                    check (result_len \<le> length result_begin);
                    Some (take result_len result_begin, p) } }"

definition fetch_string :: "tl_parser \<Rightarrow> (bytes \<times> tl_parser) option" where
  "fetch_string p =
     do { p \<leftarrow> check_len 4 p;
          h \<leftarrow> fetch_string_header p;
          (case h of
             Inl p \<Rightarrow> Some ([], p)
           | Inr (result_len, result_begin, result_aligned_len, p) \<Rightarrow>
               fetch_string_body result_len result_begin result_aligned_len p) }"

definition fetch_string_raw :: "nat \<Rightarrow> tl_parser \<Rightarrow> (bytes \<times> tl_parser) option" where
  "fetch_string_raw sz p =
     do { p \<leftarrow> check_len sz p;
          if tp_error p \<noteq> [] then Some ([], p)
          else do { bs \<leftarrow> bytes_at 0 sz p; p \<leftarrow> move_data sz p; Some (bs, p) } }"

definition fetch_end :: "tl_parser \<Rightarrow> tl_parser option" where
  "fetch_end p = (if tp_left p \<noteq> 0 then set_error (str ''Too much data to fetch'') p else Some p)"

text \<open>\<open>TlBufferParser\<close>: strings are made valid UTF-8 without zero bytes.\<close>

fun last_utf8_character_position_loop :: "bytes \<Rightarrow> nat \<Rightarrow> nat" where
  "last_utf8_character_position_loop s position =
     (if position \<noteq> 0 \<and> \<not> is_utf8_character_first_code_unit (s ! position)
      then last_utf8_character_position_loop s (position - 1) else position)"

definition last_utf8_character_position :: "bytes \<Rightarrow> nat option" where
  "last_utf8_character_position s =
     do { check (s \<noteq> []); Some (last_utf8_character_position_loop s (length s - 1)) }"

definition clean_string :: "bytes \<Rightarrow> bytes option" where
  "clean_string s =
     (let s = map (\<lambda>c. if c = 0 then ch (CHR '' '') else c) s in
      do { ok \<leftarrow> check_utf8 s;
           if ok then Some s
           else do { n \<leftarrow> last_utf8_character_position s;
                     let s = take n s;
                     ok \<leftarrow> check_utf8 s;
                     Some (if ok then s else []) } })"

definition fetch_clean_string :: "tl_parser \<Rightarrow> (bytes \<times> tl_parser) option" where
  "fetch_clean_string p = do { (s, p) \<leftarrow> fetch_string p; s \<leftarrow> clean_string s; Some (s, p) }"

subsection \<open>Facts\<close>

lemma length_le_bytes [simp]: "length (le_bytes n w) = n"
  by (induction n arbitrary: w) simp_all

lemma le_word_bytes: "le_word (le_bytes n w) = take_bit (8 * n) (w :: 'a::len word)"
proof (induction n arbitrary: w)
  case (Suc n)
  have "ucast (ucast w :: byte) OR push_bit 8 (take_bit (8 * n) (drop_bit 8 w)) = take_bit (8 * Suc n) w"
    by (rule bit_word_eqI) (auto simp: bit_simps)
  then show ?case using Suc by simp
qed simp

lemma le_word_int [simp]: "le_word (le_bytes 4 w) = (w :: int32)" "le_word (le_bytes 8 x) = (x :: int64)"
  by (simp_all add: le_word_bytes take_bit_word_eq_self)

lemma length_string_padding: "length (string_padding n) = (4 - (if n < 254 then n + 1 else n) mod 4) mod 4"
  by (auto simp: string_padding_def Let_def)

text \<open>A parser before and after its first error.\<close>

definition tl_ok :: "tl_parser \<Rightarrow> bool" where
  "tl_ok p \<longleftrightarrow> (if tp_error p = [] then tp_left p = length (tp_data p) \<and> tp_left p \<le> tp_data_len p \<and> tp_data_len p < SIZE_MAX
     else tp_left p = 0 \<and> tp_data_len p = 0 \<and> tp_error_pos p \<noteq> SIZE_MAX)"

text \<open>What a read may do to it: an error stays, and without one the pointer has moved forwards.\<close>

definition later :: "tl_parser \<Rightarrow> tl_parser \<Rightarrow> bool" where
  "later p p' \<longleftrightarrow> tl_ok p' \<and>
     (if tp_error p' = [] then tp_error p = [] \<and> (\<exists>n. tp_data p' = drop n (tp_data p))
      else tp_error p \<noteq> [] \<longrightarrow> tp_error p' = tp_error p \<and> tp_error_pos p' = tp_error_pos p)"

lemma later_refl: "tl_ok p \<Longrightarrow> later p p"
  by (auto simp: later_def intro: exI [of _ 0])

lemma later_ok: "later p p' \<Longrightarrow> tl_ok p'"
  by (simp add: later_def)

lemma later_trans: "later p q \<Longrightarrow> later q r \<Longrightarrow> later p r"
proof -
  assume "later p q" "later q r"
  then show "later p r" by (cases "tp_error r = []"; cases "tp_error q = []") (auto simp: later_def)
qed

lemma tl_ok_new: "length s < SIZE_MAX \<Longrightarrow> tl_ok (new_tl_parser s)"
  by (simp add: tl_ok_def new_tl_parser_def)

text \<open>Moving on by some bytes that are there.\<close>

abbreviation moved :: "nat \<Rightarrow> tl_parser \<Rightarrow> tl_parser" where
  "moved n p \<equiv> p\<lparr>tp_data := drop n (tp_data p), tp_left := tp_left p - n\<rparr>"

lemma tl_ok_moved: "tl_ok p \<Longrightarrow> tp_error p = [] \<Longrightarrow> n \<le> tp_left p \<Longrightarrow> later p (moved n p)"
  by (auto simp: tl_ok_def later_def)

text \<open>What a read comes to when it fails.\<close>

definition failed :: "tl_parser \<Rightarrow> tl_parser \<Rightarrow> bool" where
  "failed p p' \<longleftrightarrow> later p p' \<and> tp_error p' \<noteq> []"

lemma set_error_failed:
  assumes "tl_ok p" "m \<noteq> []"
  shows "\<exists>p'. set_error m p = Some p' \<and> failed p p' \<and> tp_data p' = empty_data"
proof (cases "tp_error p = []")
  case True
  then show ?thesis using assms by (auto simp: set_error_def tl_ok_def failed_def later_def)
next
  case False
  then show ?thesis using assms by (auto simp: set_error_def tl_ok_def failed_def later_def)
qed

lemma check_len_good: "tp_left p \<ge> n \<Longrightarrow> check_len n p = Some (p\<lparr>tp_left := tp_left p - n\<rparr>)"
  by (simp add: check_len_def)

lemma check_len_bad:
  assumes "tl_ok p" "tp_left p < n"
  obtains p' where "check_len n p = Some p'" "failed p p'" "tp_data p' = empty_data"
  using set_error_failed [OF assms(1), of "str ''Not enough data to read''"] assms(2) by (auto simp: check_len_def)

lemma no_error_left: "tl_ok p \<Longrightarrow> tp_error p \<noteq> [] \<Longrightarrow> tp_left p = 0"
  by (simp add: tl_ok_def)

lemma failed_moved: "failed p p' \<Longrightarrow> failed p (p'\<lparr>tp_data := d\<rparr>)"
  by (auto simp: failed_def later_def tl_ok_def)

subsection \<open>Reading never leaves the object\<close>

lemma fetch_binary_good:
  assumes "tl_ok p" "tp_error p = []" "n \<le> tp_left p"
  shows "fetch_binary n p = Some (take n (tp_data p), moved n p)"
  using assms by (simp add: fetch_binary_def check_len_good fetch_binary_unsafe_def bytes_at_def move_data_def tl_ok_def)

lemma fetch_binary_bad:
  assumes "tl_ok p" "tp_left p < n" "n \<le> 64"
  obtains p' where "fetch_binary n p = Some (replicate n 0, p')" "failed p p'"
proof -
  obtain p' where p': "check_len n p = Some p'" "failed p p'" "tp_data p' = empty_data" by (rule check_len_bad [OF assms(1,2)])
  then have "fetch_binary n p = Some (replicate n 0, p'\<lparr>tp_data := drop n empty_data\<rparr>)"
    using assms(3) by (simp add: fetch_binary_def fetch_binary_unsafe_def bytes_at_def move_data_def empty_data_def)
  then show thesis using that failed_moved [OF p'(2)] by blast
qed

lemma fetch_binary_total:
  assumes "tl_ok p" "n \<le> 64"
  obtains bs p' where "fetch_binary n p = Some (bs, p')" "later p p'" "length bs = n"
proof (cases "tp_left p < n")
  case True
  obtain p' where "fetch_binary n p = Some (replicate n 0, p')" "failed p p'" by (rule fetch_binary_bad [OF assms(1) True assms(2)])
  then show thesis using that by (simp add: failed_def)
next
  case False
  show thesis
  proof (cases "tp_error p = []")
    case True
    then show thesis
      using that [OF fetch_binary_good [OF assms(1) True] tl_ok_moved [OF assms(1) True]] False assms(1) by (simp add: tl_ok_def)
  next
    case err: False
    then have "n = 0" using False no_error_left [OF assms(1)] by simp
    then show thesis using that [of "[]" p] later_refl [OF assms(1)]
      by (simp add: fetch_binary_def check_len_good fetch_binary_unsafe_def bytes_at_def move_data_def)
  qed
qed

lemma le_nat_bound: "le_nat bs < 256 ^ length bs"
proof (induction bs)
  case (Cons b bs)
  then have "le_nat bs + 1 \<le> 256 ^ length bs" by simp
  then have "256 * (le_nat bs + 1) \<le> 256 * 256 ^ length bs" by (rule mult_le_mono2)
  then show ?case using unat_byte_less [of b] by simp
qed simp

lemma le_nat_zeros [simp]: "le_nat (replicate n 0) = 0"
  by (induction n) simp_all

text \<open>Behind an error the length of a string is zero.\<close>

lemma header_failed:
  assumes "tp_error p \<noteq> []" "tl_ok p" "tp_data p = empty_data"
  shows "fetch_string_header p = Some (Inr (0, drop 1 empty_data, 0, p\<lparr>tp_data := drop 4 empty_data\<rparr>))"
  using assms by (simp add: fetch_string_header_def bytes_at_def empty_data_def move_data_def check_def)

lemma fetch_string_failed:
  assumes "tl_ok p" "tp_left p < 4"
  obtains p' where "fetch_string p = Some ([], p')" "failed p p'"
proof -
  obtain q where q: "check_len 4 p = Some q" "failed p q" "tp_data q = empty_data" by (rule check_len_bad [OF assms])
  have e: "tp_error q \<noteq> []" "tl_ok q" using q(2) later_ok by (auto simp: failed_def)
  have "fetch_string p = Some ([], q\<lparr>tp_data := drop 4 empty_data\<rparr>)"
    using q(1) header_failed [OF e q(3)] e by (simp add: fetch_string_def fetch_string_body_def check_len_good)
  then show thesis using that failed_moved [OF q(2)] by blast
qed


text \<open>What follows the length of a string.\<close>

lemma string_body_good:
  assumes "tl_ok q" "tp_error q = []" "aligned \<le> tp_left q" "len \<le> length start"
  shows "fetch_string_body len start aligned q = Some (take len start, moved aligned q)"
  using assms by (simp add: fetch_string_body_def check_len_good move_data_def tl_ok_def)

lemma string_body_total:
  assumes "tl_ok q" "tp_error q = []" "aligned \<le> tp_left q \<longrightarrow> len \<le> length start"
  shows "\<exists>s p'. fetch_string_body len start aligned q = Some (s, p') \<and> later q p'"
proof (cases "aligned \<le> tp_left q")
  case True
  then show ?thesis using string_body_good [OF assms(1,2) True] assms tl_ok_moved [OF assms(1,2) True] by simp
next
  case False
  then obtain p' where "check_len aligned q = Some p'" "failed q p'"
    using check_len_bad [OF assms(1), of aligned] by force
  then show ?thesis by (auto simp: fetch_string_body_def failed_def)
qed

lemma long_header:
  assumes "tp_data p = b # d0" "unat b > 254" "check_len 4 p = Some q" "tp_data q = x # bs @ d" "length bs = 7"
    "move_data 8 q = Some q'" "le_nat bs \<le> SIZE_MAX - 3"
  shows "fetch_string_header p = Some (Inr (le_nat bs, d, (le_nat bs + 3) div 4 * 4, q'))"
  using assms by (simp add: fetch_string_header_def bytes_at_def Let_def)

lemma fetch_string_total:
  assumes "tl_ok p"
  shows "\<exists>s p'. fetch_string p = Some (s, p') \<and> later p p'"
proof (cases "tp_left p < 4")
  case True
  obtain p' where "fetch_string p = Some ([], p')" "failed p p'" by (rule fetch_string_failed [OF assms True])
  then show ?thesis by (auto simp: failed_def)
next
  case left: False
  then have e: "tp_error p = []" using no_error_left [OF assms] by fastforce
  have len: "tp_left p = length (tp_data p)" using assms e by (simp add: tl_ok_def)
  obtain b d where d: "tp_data p = b # d" using left len by (cases "tp_data p") auto
  define p1 where "p1 = p\<lparr>tp_left := tp_left p - 4\<rparr>"
  have 1: "check_len 4 p = Some p1" using left by (simp add: check_len_good p1_def)
  have m4: "move_data 4 p1 = Some (moved 4 p)" using left len by (simp add: move_data_def p1_def)
  have ok4: "later p (moved 4 p)" "tl_ok (moved 4 p)" using tl_ok_moved [OF assms e, of 4] left later_ok by auto
  have up: "n \<le> n div 4 * 4 + 3" "n \<le> (n + 3) div 4 * 4" for n :: nat by presburger+
  have body: ?thesis if "fetch_string_header p1 = Some (Inr (n, start, aligned, moved k p))"
      "later p (moved k p)" "aligned \<le> tp_left p - k \<longrightarrow> n \<le> length start" for n start aligned k
  proof -
    have "\<exists>s p'. fetch_string_body n start aligned (moved k p) = Some (s, p') \<and> later (moved k p) p'"
      using that later_ok [OF that(2)] e by (intro string_body_total) simp_all
    then obtain s p' where sp: "fetch_string_body n start aligned (moved k p) = Some (s, p')" "later (moved k p) p'" by blast
    have "fetch_string p = Some (s, p')" unfolding fetch_string_def using 1 that(1) sp(1) by simp
    then show ?thesis using later_trans [OF that(2) sp(2)] by blast
  qed
  consider "unat b < 254" | "unat b = 254" | "unat b > 254" by linarith
  then show ?thesis
  proof cases
    case 1
    have "fetch_string_header p1 = Some (Inr (unat b, drop 1 (tp_data p), unat b div 4 * 4, moved 4 p))"
      using 1 m4 d by (simp add: fetch_string_header_def bytes_at_def p1_def Let_def)
    then show ?thesis by (rule body) (use ok4 left len up(1) [of "unat b"] in \<open>auto simp del: div_mult_self1\<close>)
  next
    case 2
    have "fetch_string_header p1 = Some (Inr (le_nat (take 3 (drop 1 (tp_data p))), drop 4 (tp_data p),
        (le_nat (take 3 (drop 1 (tp_data p))) + 3) div 4 * 4, moved 4 p))"
      using 2 m4 d left len by (simp add: fetch_string_header_def bytes_at_def p1_def Let_def)
    then show ?thesis by (rule body) (use ok4 left len up(2) in \<open>auto intro: le_trans\<close>)
  next
    case 3
    show ?thesis
    proof (cases "tp_left p < 8")
      case True
      define q where "q = p1\<lparr>tp_error := str ''Not enough data to read'', tp_error_pos := tp_data_len p1 - tp_left p1,
        tp_data := empty_data, tp_left := 0, tp_data_len := 0\<rparr>"
      have q: "check_len 4 p1 = Some q" "tp_data q = empty_data" "tp_error q \<noteq> []"
        using True e by (simp_all add: check_len_def p1_def set_error_def q_def)
      have "tp_data_len p < SIZE_MAX" using assms e by (simp add: tl_ok_def)
      then have "tp_data_len p - (tp_left p - 4) \<noteq> SIZE_MAX" by linarith
      then have f: "failed p q" using assms e by (simp add: failed_def later_def tl_ok_def q_def p1_def)
      have "fetch_string_header p1 = Some (Inr (0, drop 8 empty_data, 0, q\<lparr>tp_data := drop 8 empty_data\<rparr>))"
      proof -
        have zeros: "empty_data = 0 # replicate 7 0 @ drop 8 empty_data" "8 \<le> length empty_data"
          by (simp_all add: empty_data_def numeral_eq_Suc)
        have "fetch_string_header p1 = Some (Inr (le_nat (replicate 7 0), drop 8 empty_data,
            (le_nat (replicate 7 0) + 3) div 4 * 4, q\<lparr>tp_data := drop 8 empty_data\<rparr>))"
          by (rule long_header [of p1 b d q 0 "replicate 7 0"]) (use q(1,2) d 3 zeros in \<open>simp_all add: p1_def move_data_def\<close>)
        then show ?thesis by simp
      qed
      then have "fetch_string p = Some ([], q\<lparr>tp_data := drop 8 empty_data\<rparr>)"
        using 1 q(3) by (simp add: fetch_string_def fetch_string_body_def check_len_good)
      then show ?thesis using failed_moved [OF f] by (auto simp: failed_def)
    next
      case False
      define bs where "bs = take 7 (tl (tp_data p))"
      have bs: "length bs = 7" "tp_data p = b # bs @ drop 8 (tp_data p)" using False len d by (simp_all add: bs_def)
      have "le_nat bs < 256 ^ length bs" by (rule le_nat_bound)
      then have "le_nat bs \<le> SIZE_MAX - 3" using bs(1) by (simp add: SIZE_MAX_def)
      moreover have "check_len 4 p1 = Some (p\<lparr>tp_left := tp_left p - 8\<rparr>)"
        using False by (simp add: check_len_good p1_def)
      moreover have "move_data 8 (p\<lparr>tp_left := tp_left p - 8\<rparr>) = Some (moved 8 p)"
        using False len by (simp add: move_data_def)
      ultimately have "fetch_string_header p1 = Some (Inr (le_nat bs, drop 8 (tp_data p), (le_nat bs + 3) div 4 * 4, moved 8 p))"
        by (intro long_header [of p1 b d _ b bs]) (use bs d 3 in \<open>simp_all add: p1_def\<close>)
      moreover have "later p (moved 8 p)" using tl_ok_moved [OF assms e, of 8] False by simp
      ultimately show ?thesis by (rule body) (use False len up(2) in \<open>auto intro: le_trans\<close>)
    qed
  qed
qed

subsection \<open>Strings are read back\<close>

definition string_bytes :: "bytes \<Rightarrow> bytes" where
  "string_bytes s = the (string_header (length s)) @ s @ string_padding (length s)"

lemma header_length:
  assumes "len < 2 ^ 32"
  shows "length (the (string_header len)) = (if len < 254 then 1 else if len < 2 ^ 24 then 4 else 8)"
    "string_header len \<noteq> None"
  using assms by (simp_all add: string_header_def)

lemma round_up4: "n + (4 - n mod 4) mod 4 = (n + 3) div 4 * 4" "4 + (n + 3) div 4 * 4 = (n + 4 + 3) div 4 * 4"
  "8 + (n + 3) div 4 * 4 = (n + 8 + 3) div 4 * 4" "(n + 1 + 3) div 4 * 4 = 4 + n div 4 * 4" for n :: nat
proof -
  define q r where "q = n div 4" and "r = n mod 4"
  have "r < 4" by (simp add: r_def)
  then have r: "r = 0 \<or> r = 1 \<or> r = 2 \<or> r = 3" by linarith
  have n: "n = 4 * q + r" by (simp add: q_def r_def)
  have qs: "(4 * q + i) div 4 = q + i div 4" "(4 * q + i) mod 4 = i mod 4" for i by simp_all
  show "n + (4 - n mod 4) mod 4 = (n + 3) div 4 * 4" unfolding n add.assoc qs using r by auto
  show "4 + (n + 3) div 4 * 4 = (n + 4 + 3) div 4 * 4" "8 + (n + 3) div 4 * 4 = (n + 8 + 3) div 4 * 4"
    "(n + 1 + 3) div 4 * 4 = 4 + n div 4 * 4"
    unfolding n add.assoc qs using r by auto
qed

lemma length_string_bytes:
  assumes "length s < 2 ^ 32" shows "length (string_bytes s) = string_stored_length (length s)"
proof -
  let ?n = "length s"
  have l: "length (string_bytes s) = length (the (string_header ?n)) + (?n + length (string_padding ?n))"
    by (simp add: string_bytes_def)
  consider "?n < 254" | "\<not> ?n < 254" "?n < 2 ^ 24" | "\<not> ?n < 254" "\<not> ?n < 2 ^ 24" by blast
  then show ?thesis
  proof cases
    case 1
    then show ?thesis unfolding l length_string_padding header_length(1) [OF assms] string_stored_length_def
      using round_up4(1) [of "?n + 1"] by simp
  next
    case 2
    then show ?thesis unfolding l length_string_padding header_length(1) [OF assms] string_stored_length_def
      using round_up4(1,2) [of ?n] by simp
  next
    case 3
    then show ?thesis unfolding l length_string_padding header_length(1) [OF assms] string_stored_length_def
      using round_up4(1,3) [of ?n] by simp
  qed
qed

lemma stored_length_pos: "0 < string_stored_length n"
  by (auto simp: string_stored_length_def)

lemma byte_digit: "unat (of_nat (n mod 256) :: byte) = n mod 256" "n < 256 \<Longrightarrow> unat (of_nat n :: byte) = n"
  by (simp_all add: unat_of_nat)

lemma le_nat_header:
  assumes "len < 2 ^ 24"
  shows "le_nat (map of_nat [len mod 256, len div 2 ^ 8 mod 256, len div 2 ^ 16]) = len"
proof -
  have "len div 2 ^ 16 < 256" using assms by simp
  then have "le_nat (map of_nat [len mod 256, len div 2 ^ 8 mod 256, len div 2 ^ 16]) =
      len mod 2 ^ 8 + 2 ^ 8 * (len div 2 ^ 8 mod 2 ^ 8 + 2 ^ 8 * (len div 2 ^ 16))"
    by (simp add: byte_digit)
  moreover have d: "len div 2 ^ 16 = len div 2 ^ 8 div 2 ^ 8" by (simp flip: div_mult2_eq)
  ultimately show ?thesis unfolding d by (simp only: mod_mult_div_eq)
qed

lemma le_nat_header8:
  assumes "len < 2 ^ 32"
  shows "le_nat (map of_nat [len mod 256, len div 2 ^ 8 mod 256, len div 2 ^ 16 mod 256, len div 2 ^ 24 mod 256, 0, 0, 0]) = len"
proof -
  have d: "len div 2 ^ 16 = len div 2 ^ 8 div 2 ^ 8" "len div 2 ^ 24 = len div 2 ^ 8 div 2 ^ 8 div 2 ^ 8"
    by (simp_all flip: div_mult2_eq)
  have "len div 2 ^ 24 < 2 ^ 8" using assms by simp
  then have "len div 2 ^ 24 mod 2 ^ 8 = len div 2 ^ 24" by (rule mod_less)
  moreover have "le_nat (map of_nat [len mod 256, len div 2 ^ 8 mod 256, len div 2 ^ 16 mod 256, len div 2 ^ 24 mod 256, 0, 0, 0]) =
      len mod 2 ^ 8 + 2 ^ 8 * (len div 2 ^ 8 mod 2 ^ 8 + 2 ^ 8 * (len div 2 ^ 16 mod 2 ^ 8 + 2 ^ 8 * (len div 2 ^ 24 mod 2 ^ 8)))"
    by (simp add: byte_digit)
  ultimately show ?thesis unfolding d by (simp only: mod_mult_div_eq)
qed

lemma fetch_string_bytes:
  assumes ok: "tl_ok p" "tp_error p = []" and s: "length s < 2 ^ 32" and data: "tp_data p = string_bytes s @ rest"
  shows "fetch_string p = Some (s, p\<lparr>tp_data := rest, tp_left := length rest\<rparr>)"
proof -
  let ?n = "length s" and ?h = "length (the (string_header (length s)))"
  define k where "k = (if ?n < 2 ^ 24 then 4 else 8 :: nat)"
  define aligned where "aligned = string_stored_length ?n - k"
  have left: "tp_left p = length (tp_data p)" using ok by (simp add: tl_ok_def)
  have stored: "length (string_bytes s) = k + aligned" "4 \<le> k"
    using length_string_bytes [OF s] by (auto simp: k_def aligned_def string_stored_length_def)
  have begins: "tp_data p = the (string_header ?n) @ s @ string_padding ?n @ rest" using data by (simp add: string_bytes_def)
  define p1 where "p1 = p\<lparr>tp_left := tp_left p - 4\<rparr>"
  have 1: "check_len 4 p = Some p1" using stored left data by (simp add: check_len_good p1_def)
  have m: "move_data k p1 = Some (p\<lparr>tp_data := drop k (tp_data p), tp_left := tp_left p - 4\<rparr>)"
    using stored(1) left data by (simp add: move_data_def p1_def)
  have h: "fetch_string_header p1 = Some (Inr (?n, drop ?h (tp_data p), aligned, moved k p))"
  proof (cases "?n < 254")
    case True
    then have "the (string_header ?n) = [of_nat ?n]" "k = 4" "aligned = ?n div 4 * 4" "unat (of_nat ?n :: byte) = ?n"
      using round_up4(4) [of ?n] by (simp_all add: string_header_def k_def aligned_def string_stored_length_def unat_of_nat)
    then show ?thesis using True m begins by (simp add: fetch_string_header_def bytes_at_def p1_def Let_def)
  next
    case big: False
    show ?thesis
    proof (cases "?n < 2 ^ 24")
      case True
      then have "the (string_header ?n) = 254 # map of_nat [?n mod 256, ?n div 2 ^ 8 mod 256, ?n div 2 ^ 16]" "k = 4"
        "aligned = (?n + 3) div 4 * 4"
        using big round_up4(2) [of ?n] by (simp_all add: string_header_def k_def aligned_def string_stored_length_def)
      then show ?thesis using m begins le_nat_header [OF True]
        by (simp add: fetch_string_header_def bytes_at_def p1_def Let_def)
    next
      case False
      then have hd: "the (string_header ?n) = 255 # map of_nat
          [?n mod 256, ?n div 2 ^ 8 mod 256, ?n div 2 ^ 16 mod 256, ?n div 2 ^ 24 mod 256, 0, 0, 0]" "k = 8"
        "aligned = (?n + 3) div 4 * 4"
        using big s round_up4(3) [of ?n] by (simp_all add: string_header_def k_def aligned_def string_stored_length_def)
      have "check_len 4 p1 = Some (p\<lparr>tp_left := tp_left p - 8\<rparr>)"
        using stored(1) hd(2) left data by (simp add: check_len_good p1_def)
      moreover have "move_data 8 (p\<lparr>tp_left := tp_left p - 8\<rparr>) = Some (moved 8 p)"
        using stored(1) hd(2) left data by (simp add: move_data_def)
      moreover define bs :: bytes where "bs = map of_nat
          [?n mod 256, ?n div 2 ^ 8 mod 256, ?n div 2 ^ 16 mod 256, ?n div 2 ^ 24 mod 256, 0, 0, 0]"
      have bs: "the (string_header ?n) = 255 # bs" "length bs = 7" by (simp_all only: hd(1) bs_def list.size length_map)
      have n: "le_nat bs = ?n" unfolding bs_def by (rule le_nat_header8 [OF s])
      have "le_nat bs \<le> SIZE_MAX - 3" unfolding n using s by (simp add: SIZE_MAX_def)
      moreover have u: "254 < unat (255 :: byte)" by simp
      ultimately have "fetch_string_header p1 = Some (Inr (le_nat bs, s @ string_padding ?n @ rest,
          (le_nat bs + 3) div 4 * 4, moved 8 p))"
        by (intro long_header [of p1 255 "bs @ s @ string_padding ?n @ rest" _ 255 bs]) (use begins bs u in \<open>simp_all add: p1_def\<close>)
      moreover have "drop ?h (tp_data p) = s @ string_padding ?n @ rest" using begins by simp
      ultimately show ?thesis using n hd(2,3) by simp
    qed
  qed
  have q: "later p (moved k p)" "tl_ok (moved k p)"
    using tl_ok_moved [OF ok, of k] stored(1) left data later_ok by auto
  have "fetch_string_body ?n (drop ?h (tp_data p)) aligned (moved k p) =
      Some (take ?n (drop ?h (tp_data p)), moved aligned (moved k p))"
  proof (rule string_body_good [OF q(2)])
    show "aligned \<le> tp_left (moved k p)" using stored(1) left data by simp
    show "?n \<le> length (drop ?h (tp_data p))" using begins by simp
  qed (use ok(2) in simp)
  moreover have "take ?n (drop ?h (tp_data p)) = s" using begins by simp
  moreover have "moved aligned (moved k p) = p\<lparr>tp_data := rest, tp_left := length rest\<rparr>"
    using stored(1) left data by (simp add: add.commute)
  ultimately show ?thesis using 1 h by (simp add: fetch_string_def)
qed

text \<open>The strings of \<open>TlBufferParser\<close>.\<close>

lemma check_utf8_total: "\<exists>b. check_utf8 s = Some b"
  using check_utf8_correct by blast

lemma check_utf8_empty: "check_utf8 [] = Some True"
  by (simp add: check_utf8_def check_utf8_loop.simps)

lemma clean_string_valid:
  "\<exists>r. clean_string s = Some r \<and> check_utf8 r = Some True \<and> 0 \<notin> set r"
proof -
  define t where "t = map (\<lambda>c. if c = 0 then ch (CHR '' '') else c) s"
  have no0: "0 \<notin> set t" by (auto simp: t_def)
  obtain b where b: "check_utf8 t = Some b" using check_utf8_total by blast
  show ?thesis
  proof (cases b)
    case True
    then show ?thesis using b no0 by (simp add: clean_string_def Let_def flip: t_def)
  next
    case False
    then have ne: "t \<noteq> []" using b check_utf8_empty by auto
    then obtain n where n: "last_utf8_character_position t = Some n" by (simp add: last_utf8_character_position_def)
    obtain c where c: "check_utf8 (take n t) = Some c" using check_utf8_total by blast
    have "clean_string s = Some (if c then take n t else [])"
      using b False n c by (simp add: clean_string_def Let_def flip: t_def)
    moreover have "0 \<notin> set (take n t)" using no0 by (auto dest: in_set_takeD)
    ultimately show ?thesis using c check_utf8_empty by auto
  qed
qed

lemma fetch_clean_string_total:
  assumes "tl_ok p" shows "\<exists>s p'. fetch_clean_string p = Some (s, p') \<and> later p p'"
proof -
  obtain s p' where "fetch_string p = Some (s, p')" "later p p'" using fetch_string_total [OF assms] by blast
  moreover obtain r where "clean_string s = Some r" using clean_string_valid [of s] by blast
  ultimately show ?thesis by (simp add: fetch_clean_string_def)
qed

lemma fetch_string_raw_total:
  assumes "tl_ok p" shows "\<exists>s p'. fetch_string_raw n p = Some (s, p') \<and> later p p'"
proof (cases "n \<le> tp_left p")
  case False
  then obtain p' where "check_len n p = Some p'" "failed p p'" using check_len_bad [OF assms, of n] by force
  then show ?thesis by (auto simp: fetch_string_raw_def failed_def)
next
  case True
  show ?thesis
  proof (cases "tp_error p = []")
    case e: True
    then have "tp_left p = length (tp_data p)" using assms by (simp add: tl_ok_def)
    then have "fetch_string_raw n p = Some (take n (tp_data p), moved n p)"
      using True e by (simp add: fetch_string_raw_def check_len_good bytes_at_def move_data_def)
    then show ?thesis using tl_ok_moved [OF assms e True] by blast
  next
    case False
    then have "tp_left p = 0" using no_error_left [OF assms] by simp
    then have "n = 0" using True by simp
    moreover have "check_len 0 p = Some p" by (cases p) (simp add: check_len_def)
    ultimately show ?thesis using False later_refl [OF assms] by (simp add: fetch_string_raw_def)
  qed
qed

lemma fetch_end_total:
  assumes "tl_ok p"
  shows "\<exists>p'. fetch_end p = Some p' \<and> later p p' \<and> (tp_error p' = [] \<longleftrightarrow> tp_error p = [] \<and> tp_data p = [])"
proof (cases "tp_left p = 0")
  case True
  then show ?thesis using assms later_refl by (auto simp: fetch_end_def tl_ok_def)
next
  case False
  then have "tp_error p = []" "tp_data p \<noteq> []" using assms by (auto simp: tl_ok_def split: if_splits)
  moreover obtain p' where "fetch_end p = Some p'" "failed p p'"
    using set_error_failed [OF assms, of "str ''Too much data to fetch''"] False by (auto simp: fetch_end_def)
  ultimately show ?thesis by (auto simp: failed_def)
qed

end
