(* ===== verification/Td_TlHelpers.thy ===== *)
theory Td_TlHelpers
  imports Td_Tl
begin

text \<open>
  The \<open>store\<close> and \<open>parse\<close> overloads of \<open>tdutils/td/utils/tl_helpers.h\<close>, with \<open>serialize\<close> and \<open>unserialize\<close>.

  A type is serialisable when it has a \<open>store\<close>, which works on both storers, and a \<open>parse\<close>: this is the locale
  \<open>tl_type\<close>.  Every overload is shown to satisfy it, those for vectors, pairs and pointers under the assumption
  that their components do, and the facts about \<open>serialize\<close> and \<open>unserialize\<close> are proved once for all of them.
\<close>

type_synonym 'a tl_store = "'a \<Rightarrow> tl_storer \<Rightarrow> tl_storer option"
type_synonym 'a tl_parse = "tl_parser \<Rightarrow> ('a \<times> tl_parser) option"

subsection \<open>The overloads\<close>

definition store_bool :: "bool tl_store" where
  "store_bool x = store_binary 4 (if x then 1 else 0 :: int32)"

definition parse_bool :: "bool tl_parse" where
  "parse_bool p = do { (n, p) \<leftarrow> fetch_int p; Some (n \<noteq> 0, p) }"

text \<open>Signed and unsigned integers are the same words.\<close>

definition store_int32 :: "int32 tl_store" where "store_int32 x = store_binary 4 x"

definition parse_int32 :: "int32 tl_parse" where "parse_int32 p = fetch_int p"

definition store_int64 :: "int64 tl_store" where "store_int64 x = store_binary 8 x"

definition parse_int64 :: "int64 tl_parse" where "parse_int64 p = fetch_long p"

definition fetch_double :: "int64 tl_parse" where
  "fetch_double p = do { (bs, p) \<leftarrow> fetch_binary 8 p; Some (le_word bs, p) }"

definition store_double :: "int64 tl_store" where "store_double x = store_binary 8 x"

definition parse_double :: "int64 tl_parse" where "parse_double p = fetch_double p"

text \<open>\<open>UInt256\<close> has 32 bytes, \<open>UInt512\<close> has 64.\<close>

definition store_uint :: "bytes tl_store" where "store_uint x = store_slice x"

definition parse_uint :: "nat \<Rightarrow> bytes tl_parse" where "parse_uint sz p = fetch_binary sz p"

definition store_str :: "bytes tl_store" where "store_str x = store_string x"

definition parse_str :: "bytes tl_parse" where "parse_str p = fetch_string p"

fun store_all :: "'a tl_store \<Rightarrow> 'a list \<Rightarrow> tl_storer \<Rightarrow> tl_storer option" where
  "store_all st [] s = Some s"
| "store_all st (x # xs) s = do { s \<leftarrow> st x s; store_all st xs s }"

definition store_vector :: "'a tl_store \<Rightarrow> 'a list tl_store" where
  "store_vector st xs s =
     do { n \<leftarrow> narrow_cast_int32 (int (length xs));
          s \<leftarrow> store_binary 4 (word_of_int n :: int32) s;
          store_all st xs s }"

fun parse_all :: "'a tl_parse \<Rightarrow> nat \<Rightarrow> 'a list tl_parse" where
  "parse_all pa 0 p = Some ([], p)"
| "parse_all pa (Suc n) p = do { (x, p) \<leftarrow> pa p; (xs, p) \<leftarrow> parse_all pa n p; Some (x # xs, p) }"

definition parse_vector :: "'a tl_parse \<Rightarrow> 'a list tl_parse" where
  "parse_vector pa p =
     do { (sz, p) \<leftarrow> fetch_int p;
          if tp_left p < unat sz then do { p \<leftarrow> set_error (str ''Wrong vector length'') p; Some ([], p) }
          else parse_all pa (unat sz) p }"

text \<open>Pointers: storing needs one, parsing makes one.\<close>

definition store_ptr :: "'a tl_store \<Rightarrow> 'a option tl_store" where
  "store_ptr st x s = (case x of None \<Rightarrow> None | Some y \<Rightarrow> st y s)"

definition parse_ptr :: "'a tl_parse \<Rightarrow> 'a option tl_parse" where
  "parse_ptr pa p = do { (x, p) \<leftarrow> pa p; Some (Some x, p) }"

definition store_pair :: "'a tl_store \<Rightarrow> 'b tl_store \<Rightarrow> ('a \<times> 'b) tl_store" where
  "store_pair st1 st2 x s = do { s \<leftarrow> st1 (fst x) s; st2 (snd x) s }"

definition parse_pair :: "'a tl_parse \<Rightarrow> 'b tl_parse \<Rightarrow> ('a \<times> 'b) tl_parse" where
  "parse_pair pa1 pa2 p = do { (x, p) \<leftarrow> pa1 p; (y, p) \<leftarrow> pa2 p; Some ((x, y), p) }"

text \<open>Enumerations, with the casts between them and \<open>int32\<close>.\<close>

definition store_enum :: "('a \<Rightarrow> int32) \<Rightarrow> 'a tl_store" where "store_enum code x = store_int32 (code x)"

definition parse_enum :: "(int32 \<Rightarrow> 'a) \<Rightarrow> 'a tl_parse" where
  "parse_enum decode p = do { (n, p) \<leftarrow> parse_int32 p; Some (decode n, p) }"

text \<open>The flags between \<open>BEGIN_STORE_FLAGS\<close> and \<open>END_STORE_FLAGS\<close>, in their order.\<close>

fun flags_word :: "nat \<Rightarrow> bool list \<Rightarrow> int32" where
  "flags_word bit_offset [] = 0"
| "flags_word bit_offset (flag # fs) = push_bit bit_offset (of_bool flag) OR flags_word (bit_offset + 1) fs"

definition store_flags :: "bool list tl_store" where
  "store_flags flags s = do { check (length flags < 31); store_int32 (flags_word 0 flags) s }"

definition parse_flags :: "nat \<Rightarrow> bool list tl_parse" where
  "parse_flags bit_offset p =
     do { (flags, p) \<leftarrow> parse_int32 p;
          check (bit_offset < 31);
          p \<leftarrow> (if flags AND NOT (push_bit bit_offset 1 - 1) \<noteq> 0
               then set_error (str ''Invalid flags '' @ print_uint (unat flags) @ str '' left, current bit is '' @
                      print_uint bit_offset) p
               else Some p);
          Some (map (\<lambda>i. drop_bit i flags AND 1 \<noteq> 0) [0..<bit_offset], p) }"

subsection \<open>Serialisation\<close>

definition serialize :: "'a tl_store \<Rightarrow> 'a \<Rightarrow> bytes option" where
  "serialize st object =
     do { calc_length \<leftarrow> st object (Calc 0);
          s \<leftarrow> st object (Unsafe [] (storer_length calc_length));
          case s of
            Unsafe out room \<Rightarrow> do { check (room = 0); Some out }
          | Calc n \<Rightarrow> None }"

definition unserialize :: "'a tl_parse \<Rightarrow> bytes \<Rightarrow> 'a result option" where
  "unserialize pa data =
     do { (object, p) \<leftarrow> pa (new_tl_parser data);
          p \<leftarrow> fetch_end p;
          Some (case get_status p of Inl e \<Rightarrow> Inl e | Inr _ \<Rightarrow> Inr object) }"

subsection \<open>Serialisable types\<close>

text \<open>
  The values \<open>ok\<close> are those that can be stored, and \<open>enc\<close> says how.  Parsing never fails a check or leaves the
  data, whatever they are.
\<close>

locale tl_type =
  fixes st :: "'a tl_store" and pa :: "'a tl_parse" and ok :: "'a \<Rightarrow> bool" and enc :: "'a \<Rightarrow> bytes"
  assumes store_calc: "ok x \<Longrightarrow> st x (Calc n) = Some (Calc (n + length (enc x)))"
    and store_unsafe: "ok x \<Longrightarrow> length (enc x) \<le> room \<Longrightarrow>
      st x (Unsafe out room) = Some (Unsafe (out @ enc x) (room - length (enc x)))"
    and parse_enc: "ok x \<Longrightarrow> tl_ok p \<Longrightarrow> tp_error p = [] \<Longrightarrow> tp_data p = enc x @ rest \<Longrightarrow>
      pa p = Some (x, p\<lparr>tp_data := rest, tp_left := length rest\<rparr>)"
    and parse_total: "tl_ok p \<Longrightarrow> \<exists>x p'. pa p = Some (x, p') \<and> later p p'"
begin

lemma serialize_enc: "ok x \<Longrightarrow> serialize st x = Some (enc x)"
  by (simp add: serialize_def store_calc store_unsafe)

lemma unserialize_total:
  assumes "length data < SIZE_MAX" shows "unserialize pa data \<noteq> None"
proof -
  obtain x p where p: "pa (new_tl_parser data) = Some (x, p)" "later (new_tl_parser data) p"
    using parse_total [OF tl_ok_new [OF assms]] by blast
  obtain p' where "fetch_end p = Some p'" using fetch_end_total [OF later_ok [OF p(2)]] by blast
  then show ?thesis by (simp add: unserialize_def p(1))
qed

lemma unserialize_enc:
  assumes "ok x" "length (enc x) < SIZE_MAX" shows "unserialize pa (enc x) = Some (Inr x)"
proof -
  have "pa (new_tl_parser (enc x)) = Some (x, (new_tl_parser (enc x))\<lparr>tp_data := [], tp_left := length ([] :: bytes)\<rparr>)"
    by (rule parse_enc [OF assms(1) tl_ok_new [OF assms(2)]]) (simp_all add: new_tl_parser_def)
  then show ?thesis by (simp add: unserialize_def fetch_end_def get_status_def new_tl_parser_def)
qed

text \<open>Data with something behind the value are refused.\<close>

lemma unserialize_rest:
  assumes "ok x" "length (enc x @ d) < SIZE_MAX" "d \<noteq> []"
  shows "\<exists>e. unserialize pa (enc x @ d) = Some (Inl e)"
proof -
  have "pa (new_tl_parser (enc x @ d)) = Some (x, (new_tl_parser (enc x @ d))\<lparr>tp_data := d, tp_left := length d\<rparr>)"
    by (rule parse_enc [OF assms(1) tl_ok_new [OF assms(2)]]) (simp_all add: new_tl_parser_def)
  then show ?thesis using assms(3)
    by (simp add: unserialize_def fetch_end_def set_error_def get_status_def new_tl_parser_def)
qed

end

subsection \<open>The overloads are serialisable\<close>

lemma fetch_binary_enc:
  assumes "tl_ok p" "tp_error p = []" "tp_data p = bs @ rest" "length bs = n"
  shows "fetch_binary n p = Some (bs, p\<lparr>tp_data := rest, tp_left := length rest\<rparr>)"
proof -
  have left: "tp_left p = n + length rest" using assms by (simp add: tl_ok_def)
  then show ?thesis using fetch_binary_good [OF assms(1,2), of n] assms(3,4) by simp
qed

text \<open>Everything that is read by \<open>fetch_binary\<close> and converted.\<close>

lemma tl_type_binary:
  assumes pa: "\<And>p. pa p = do { (bs, p) \<leftarrow> fetch_binary n p; Some (f bs, p) }" and n: "n \<le> 64"
    and st: "\<And>x s. ok x \<Longrightarrow> st x s = store_slice (enc x) s"
    and enc: "\<And>x. ok x \<Longrightarrow> length (enc x) = n \<and> f (enc x) = x"
  shows "tl_type st pa ok enc"
proof
  fix p assume p: "tl_ok p"
  obtain bs p' where "fetch_binary n p = Some (bs, p')" "later p p'" by (rule fetch_binary_total [OF p n])
  then show "\<exists>x p'. pa p = Some (x, p') \<and> later p p'" by (simp add: pa)
next
  fix x p rest assume x: "ok x" and p: "tl_ok p" "tp_error p = []" "tp_data p = enc x @ rest"
  then show "pa p = Some (x, p\<lparr>tp_data := rest, tp_left := length rest\<rparr>)"
    using fetch_binary_enc [OF p, of n] enc [OF x] by (simp add: pa)
qed (simp_all add: st)

interpretation int32: tl_type store_int32 parse_int32 "\<lambda>_. True" "le_bytes 4"
  by (rule tl_type_binary [where n = 4 and f = le_word])
    (simp_all add: parse_int32_def fetch_int_def store_int32_def store_binary_def)

interpretation int64: tl_type store_int64 parse_int64 "\<lambda>_. True" "le_bytes 8"
  by (rule tl_type_binary [where n = 8 and f = le_word])
    (simp_all add: parse_int64_def fetch_long_def store_int64_def store_binary_def)

interpretation double: tl_type store_double parse_double "\<lambda>_. True" "le_bytes 8"
  by (rule tl_type_binary [where n = 8 and f = le_word])
    (simp_all add: parse_double_def fetch_double_def store_double_def store_binary_def)

interpretation bool: tl_type store_bool parse_bool "\<lambda>_. True" "\<lambda>x. le_bytes 4 (if x then 1 else 0 :: int32)"
proof (rule tl_type_binary [where n = 4 and f = "\<lambda>bs. (le_word bs :: int32) \<noteq> 0"])
  show "parse_bool p = do { (bs, p) \<leftarrow> fetch_binary 4 p; Some ((le_word bs :: int32) \<noteq> 0, p) }" for p
    by (cases "fetch_binary 4 p") (auto simp: parse_bool_def fetch_int_def)
qed (simp_all add: store_bool_def store_binary_def)

lemma tl_type_uint: "n \<le> 64 \<Longrightarrow> tl_type store_uint (parse_uint n) (\<lambda>x. length x = n) (\<lambda>x. x)"
proof (rule tl_type_binary [where n = n and f = "\<lambda>bs. bs"])
  show "parse_uint n p = do { (bs, p) \<leftarrow> fetch_binary n p; Some (bs, p) }" for p
    by (cases "fetch_binary n p") (simp_all add: parse_uint_def)
qed (simp_all add: store_uint_def)

interpretation uint256: tl_type store_uint "parse_uint 32" "\<lambda>x. length x = 32" "\<lambda>x. x"
  by (rule tl_type_uint) simp

interpretation uint512: tl_type store_uint "parse_uint 64" "\<lambda>x. length x = 64" "\<lambda>x. x"
  by (rule tl_type_uint) simp

interpretation str: tl_type store_str parse_str "\<lambda>s. length s < 2 ^ 32" string_bytes
proof
  show "parse_str p = Some (x, p\<lparr>tp_data := rest, tp_left := length rest\<rparr>)"
    if "length x < 2 ^ 32" "tl_ok p" "tp_error p = []" "tp_data p = string_bytes x @ rest" for x p rest
    unfolding parse_str_def by (rule fetch_string_bytes [OF that(2,3,1,4)])
  show "\<exists>x p'. parse_str p = Some (x, p') \<and> later p p'" if "tl_ok p" for p
    unfolding parse_str_def by (rule fetch_string_total [OF that])
  show "store_str x (Calc n) = Some (Calc (n + length (string_bytes x)))" if "length x < 2 ^ 32" for x n
    using that by (simp add: store_str_def length_string_bytes)
  show "store_str x (Unsafe out room) = Some (Unsafe (out @ string_bytes x) (room - length (string_bytes x)))"
    if a: "length x < 2 ^ 32" "length (string_bytes x) \<le> room" for x room out
  proof -
    obtain h where h: "string_header (length x) = Some h" using header_length(2) [OF a(1)] by auto
    then have "string_bytes x = h @ x @ string_padding (length x)" by (simp add: string_bytes_def)
    then show ?thesis using h a(2) by (simp add: store_str_def)
  qed
qed

lemma tl_type_pair:
  assumes "tl_type st1 pa1 ok1 enc1" "tl_type st2 pa2 ok2 enc2"
  shows "tl_type (store_pair st1 st2) (parse_pair pa1 pa2) (\<lambda>x. ok1 (fst x) \<and> ok2 (snd x)) (\<lambda>x. enc1 (fst x) @ enc2 (snd x))"
proof
  note a = tl_type.store_calc [OF assms(1)] tl_type.store_unsafe [OF assms(1)]
  note b = tl_type.store_calc [OF assms(2)] tl_type.store_unsafe [OF assms(2)]
  fix x :: "'a \<times> 'b" and n out room p rest
  show "store_pair st1 st2 x (Calc n) = Some (Calc (n + length (enc1 (fst x) @ enc2 (snd x))))" if "ok1 (fst x) \<and> ok2 (snd x)"
    using that by (simp add: store_pair_def a b add.assoc)
  show "store_pair st1 st2 x (Unsafe out room) =
      Some (Unsafe (out @ enc1 (fst x) @ enc2 (snd x)) (room - length (enc1 (fst x) @ enc2 (snd x))))"
    if "ok1 (fst x) \<and> ok2 (snd x)" "length (enc1 (fst x) @ enc2 (snd x)) \<le> room"
    using that by (simp add: store_pair_def a b)
  show "parse_pair pa1 pa2 p = Some (x, p\<lparr>tp_data := rest, tp_left := length rest\<rparr>)"
    if "ok1 (fst x) \<and> ok2 (snd x)" "tl_ok p" "tp_error p = []" "tp_data p = (enc1 (fst x) @ enc2 (snd x)) @ rest"
  proof -
    let ?q = "p\<lparr>tp_data := enc2 (snd x) @ rest, tp_left := length (enc2 (snd x) @ rest)\<rparr>"
    have "pa1 p = Some (fst x, ?q)" by (rule tl_type.parse_enc [OF assms(1)]) (use that in simp_all)
    moreover have "tl_ok ?q" using that(2-4) by (simp add: tl_ok_def)
    then have "pa2 ?q = Some (snd x, ?q\<lparr>tp_data := rest, tp_left := length rest\<rparr>)"
      by (intro tl_type.parse_enc [OF assms(2)]) (use that in simp_all)
    ultimately show ?thesis by (simp add: parse_pair_def)
  qed
  show "\<exists>x p'. parse_pair pa1 pa2 p = Some (x, p') \<and> later p p'" if p: "tl_ok p"
  proof -
    obtain x p1 where 1: "pa1 p = Some (x, p1)" "later p p1" using tl_type.parse_total [OF assms(1) p] by blast
    obtain y p2 where "pa2 p1 = Some (y, p2)" "later p1 p2"
      using tl_type.parse_total [OF assms(2) later_ok [OF 1(2)]] by blast
    then show ?thesis using 1 later_trans [OF 1(2)] by (simp add: parse_pair_def)
  qed
qed

lemma tl_type_ptr:
  assumes "tl_type st pa ok enc"
  shows "tl_type (store_ptr st) (parse_ptr pa) (\<lambda>x. x \<noteq> None \<and> ok (the x)) (\<lambda>x. enc (the x))"
proof
  fix x :: "'a option" and p rest
  show "parse_ptr pa p = Some (x, p\<lparr>tp_data := rest, tp_left := length rest\<rparr>)"
    if "x \<noteq> None \<and> ok (the x)" "tl_ok p" "tp_error p = []" "tp_data p = enc (the x) @ rest"
    using that tl_type.parse_enc [OF assms, of "the x" p rest] by (auto simp: parse_ptr_def)
  show "\<exists>x p'. parse_ptr pa p = Some (x, p') \<and> later p p'" if "tl_ok p"
    using tl_type.parse_total [OF assms that] by (auto simp: parse_ptr_def)
qed (auto simp: store_ptr_def tl_type.store_calc [OF assms] tl_type.store_unsafe [OF assms])

lemma tl_type_enum:
  assumes "\<And>x. ok x \<Longrightarrow> decode (code x) = x"
  shows "tl_type (store_enum code) (parse_enum decode) ok (\<lambda>x. le_bytes 4 (code x))"
proof
  fix x p rest
  show "parse_enum decode p = Some (x, p\<lparr>tp_data := rest, tp_left := length rest\<rparr>)"
    if "ok x" "tl_ok p" "tp_error p = []" "tp_data p = le_bytes 4 (code x) @ rest"
    using that int32.parse_enc [OF _ that(2-4)] assms by (simp add: parse_enum_def)
  show "\<exists>x p'. parse_enum decode p = Some (x, p') \<and> later p p'" if "tl_ok p"
    using int32.parse_total [OF that] by (auto simp: parse_enum_def)
qed (simp_all add: store_enum_def int32.store_calc int32.store_unsafe)


text \<open>Vectors, of values whose encoding is not empty.\<close>

lemma store_all_enc:
  assumes "tl_type st pa ok enc" "list_all ok xs"
  shows "store_all st xs (Calc n) = Some (Calc (n + length (concat (map enc xs))))"
    "length (concat (map enc xs)) \<le> room \<Longrightarrow>
       store_all st xs (Unsafe out room) = Some (Unsafe (out @ concat (map enc xs)) (room - length (concat (map enc xs))))"
  using assms(2)
  by (induction xs arbitrary: n out room)
    (simp_all add: tl_type.store_calc [OF assms(1)] tl_type.store_unsafe [OF assms(1)] add.assoc)

lemma parse_all_enc:
  assumes "tl_type st pa ok enc" "list_all ok xs" "tl_ok p" "tp_error p = []" "tp_data p = concat (map enc xs) @ rest"
  shows "parse_all pa (length xs) p = Some (xs, p\<lparr>tp_data := rest, tp_left := length rest\<rparr>)"
  using assms(2-5)
proof (induction xs arbitrary: p)
  case Nil
  then have "p\<lparr>tp_data := rest, tp_left := length rest\<rparr> = p" by (cases p) (simp add: tl_ok_def)
  then show ?case by simp
next
  case (Cons x xs)
  let ?q = "p\<lparr>tp_data := concat (map enc xs) @ rest, tp_left := length (concat (map enc xs) @ rest)\<rparr>"
  have "pa p = Some (x, ?q)" by (rule tl_type.parse_enc [OF assms(1)]) (use Cons.prems in simp_all)
  moreover have "tl_ok ?q" using Cons.prems(2-4) by (simp add: tl_ok_def)
  ultimately show ?case using Cons.IH [of ?q] Cons.prems(1,3) by simp
qed

lemma parse_all_total:
  assumes "tl_type st pa ok enc" "tl_ok p"
  shows "\<exists>xs p'. parse_all pa n p = Some (xs, p') \<and> later p p'"
  using assms(2)
proof (induction n arbitrary: p)
  case 0
  then show ?case by (simp add: later_refl)
next
  case (Suc n)
  obtain x p1 where 1: "pa p = Some (x, p1)" "later p p1" using tl_type.parse_total [OF assms(1) Suc.prems] by blast
  obtain xs p2 where "parse_all pa n p1 = Some (xs, p2)" "later p1 p2" using Suc.IH [OF later_ok [OF 1(2)]] by blast
  then show ?case using 1 later_trans [OF 1(2)] by simp
qed

lemma length_concat_ge: "(\<And>x. x \<in> set xs \<Longrightarrow> f x \<noteq> []) \<Longrightarrow> length xs \<le> length (concat (map f xs))"
proof (induction xs)
  case (Cons x xs)
  then have "f x \<noteq> []" "length xs \<le> length (concat (map f xs))" by simp_all
  then show ?case by (cases "f x") simp_all
qed simp

lemma tl_type_vector:
  assumes t: "tl_type st pa ok enc" and ne: "\<And>x. ok x \<Longrightarrow> enc x \<noteq> []"
  shows "tl_type (store_vector st) (parse_vector pa) (\<lambda>xs. list_all ok xs \<and> length xs < 2 ^ 31)
    (\<lambda>xs. le_bytes 4 (of_nat (length xs) :: int32) @ concat (map enc xs))"
proof
  fix xs :: "'a list" and n out room p rest
  have cast: "narrow_cast_int32 (int (length xs)) = Some (int (length xs))" if "length xs < 2 ^ 31"
    using that by (simp add: narrow_cast_int32_def in_int32_def int32_max_def int32_min_def)
  show "store_vector st xs (Calc n) =
      Some (Calc (n + length (le_bytes 4 (of_nat (length xs) :: int32) @ concat (map enc xs))))"
    if "list_all ok xs \<and> length xs < 2 ^ 31"
    unfolding store_vector_def cast [OF conjunct2 [OF that]]
    using that store_all_enc(1) [OF t, of xs] by (simp add: store_binary_def add.assoc)
  show "store_vector st xs (Unsafe out room) = Some (Unsafe
      (out @ le_bytes 4 (of_nat (length xs) :: int32) @ concat (map enc xs))
      (room - length (le_bytes 4 (of_nat (length xs) :: int32) @ concat (map enc xs))))"
    if "list_all ok xs \<and> length xs < 2 ^ 31" "length (le_bytes 4 (of_nat (length xs) :: int32) @ concat (map enc xs)) \<le> room"
    unfolding store_vector_def cast [OF conjunct2 [OF that(1)]]
    using that store_all_enc(2) [OF t, of xs] by (simp add: store_binary_def)
  show "parse_vector pa p = Some (xs, p\<lparr>tp_data := rest, tp_left := length rest\<rparr>)"
    if p: "list_all ok xs \<and> length xs < 2 ^ 31" "tl_ok p" "tp_error p = []"
      "tp_data p = (le_bytes 4 (of_nat (length xs) :: int32) @ concat (map enc xs)) @ rest"
  proof -
    let ?q = "p\<lparr>tp_data := concat (map enc xs) @ rest, tp_left := length (concat (map enc xs) @ rest)\<rparr>"
    have "fetch_int p = Some (of_nat (length xs), ?q)"
      using int32.parse_enc [where x = "of_nat (length xs)" and p = p and rest = "concat (map enc xs) @ rest"] p by (simp add: parse_int32_def)
    moreover have "tl_ok ?q" using p by (simp add: tl_ok_def)
    moreover have n: "unat (of_nat (length xs) :: int32) = length xs" using p(1) by (simp add: unat_of_nat)
    moreover have "length xs \<le> length (concat (map enc xs))"
      by (rule length_concat_ge) (use p(1) ne in \<open>auto simp: list_all_iff\<close>)
    ultimately show ?thesis using parse_all_enc [OF t, of xs ?q rest] p by (simp add: parse_vector_def)
  qed
  show "\<exists>xs p'. parse_vector pa p = Some (xs, p') \<and> later p p'" if p: "tl_ok p"
  proof -
    obtain sz p1 where 1: "fetch_int p = Some (sz, p1)" "later p p1"
      using int32.parse_total [OF p] by (auto simp: parse_int32_def)
    show ?thesis
    proof (cases "tp_left p1 < unat sz")
      case True
      obtain p2 where "set_error (str ''Wrong vector length'') p1 = Some p2" "failed p1 p2"
        using set_error_failed [OF later_ok [OF 1(2)], of "str ''Wrong vector length''"] by auto
      then show ?thesis using 1 True later_trans [OF 1(2)] by (auto simp: parse_vector_def failed_def)
    next
      case False
      obtain xs p2 where "parse_all pa (unat sz) p1 = Some (xs, p2)" "later p1 p2"
        using parse_all_total [OF t later_ok [OF 1(2)]] by blast
      then show ?thesis using 1 False later_trans [OF 1(2)] by (auto simp: parse_vector_def)
    qed
  qed
qed

text \<open>Flags.\<close>

lemma bit_flags_word: "bit (flags_word k fs) i \<longleftrightarrow> i < 32 \<and> k \<le> i \<and> i - k < length fs \<and> fs ! (i - k)"
proof (induction fs arbitrary: k)
  case (Cons f fs)
  show ?case
  proof (cases "i \<le> k")
    case True
    then show ?thesis using Cons by (cases f) (auto simp: bit_simps)
  next
    case False
    then have "i - k = Suc (i - Suc k)" by simp
    then show ?thesis using Cons False by (cases f) (auto simp: bit_simps)
  qed
qed simp

lemma tl_type_flags:
  assumes "n < 31"
  shows "tl_type store_flags (parse_flags n) (\<lambda>fs. length fs = n) (\<lambda>fs. le_bytes 4 (flags_word 0 fs))"
proof
  fix fs :: "bool list" and p rest
  show "parse_flags n p = Some (fs, p\<lparr>tp_data := rest, tp_left := length rest\<rparr>)"
    if p: "length fs = n" "tl_ok p" "tp_error p = []" "tp_data p = le_bytes 4 (flags_word 0 fs) @ rest"
  proof -
    have "parse_int32 p = Some (flags_word 0 fs, p\<lparr>tp_data := rest, tp_left := length rest\<rparr>)"
      by (rule int32.parse_enc [OF _ p(2-4)]) simp
    moreover have "push_bit n 1 - 1 = (mask n :: int32)" by (simp add: mask_eq_exp_minus_1 push_bit_eq_mult)
    then have "flags_word 0 fs AND NOT (push_bit n 1 - 1) = 0"
      by (simp only:) (rule bit_word_eqI, auto simp: bit_simps bit_flags_word p(1))
    moreover have "map (\<lambda>i. drop_bit i (flags_word 0 fs) AND 1 \<noteq> 0) [0..<n] = fs"
    proof (rule nth_equalityI)
      fix i assume "i < length (map (\<lambda>i. drop_bit i (flags_word 0 fs) AND 1 \<noteq> 0) [0..<n])"
      then have "i < n" by simp
      moreover have "drop_bit i (flags_word 0 fs) AND 1 \<noteq> 0 \<longleftrightarrow> bit (flags_word 0 fs) i"
        by (simp add: and_one_eq bit_iff_odd_drop_bit odd_iff_mod_2_eq_one)
      ultimately show "map (\<lambda>i. drop_bit i (flags_word 0 fs) AND 1 \<noteq> 0) [0..<n] ! i = fs ! i"
        using assms p(1) by (simp add: bit_flags_word)
    qed (simp add: p(1))
    ultimately show ?thesis using assms by (simp add: parse_flags_def)
  qed
  show "\<exists>fs p'. parse_flags n p = Some (fs, p') \<and> later p p'" if p: "tl_ok p"
  proof -
    obtain w p1 where 1: "parse_int32 p = Some (w, p1)" "later p p1" using int32.parse_total [OF p] by blast
    obtain p2 where "set_error (str ''Invalid flags '' @ print_uint (unat w) @ str '' left, current bit is '' @ print_uint n) p1 = Some p2"
      "failed p1 p2" using set_error_failed [OF later_ok [OF 1(2)]] by (metis append_is_Nil_conv list.map_disc_iff list.distinct(1))
    then show ?thesis using 1 assms later_trans [OF 1(2)] by (auto simp: parse_flags_def failed_def)
  qed
qed (use assms in \<open>simp_all add: store_flags_def int32.store_calc int32.store_unsafe\<close>)

subsection \<open>Composed types\<close>

text \<open>A \<open>vector<pair<int64, unique_ptr<string>>>\<close>.\<close>

abbreviation store_entries :: "(int64 \<times> bytes option) list tl_store" where
  "store_entries \<equiv> store_vector (store_pair store_int64 (store_ptr store_str))"

abbreviation parse_entries :: "(int64 \<times> bytes option) list tl_parse" where
  "parse_entries \<equiv> parse_vector (parse_pair parse_int64 (parse_ptr parse_str))"

interpretation entries: tl_type store_entries parse_entries
  "\<lambda>xs. list_all (\<lambda>x. True \<and> snd x \<noteq> None \<and> length (the (snd x)) < 2 ^ 32) xs \<and> length xs < 2 ^ 31"
  "\<lambda>xs. le_bytes 4 (of_nat (length xs) :: int32) @ concat (map (\<lambda>x. le_bytes 8 (fst x) @ string_bytes (the (snd x))) xs)"
proof (rule tl_type_vector)
  show "le_bytes 8 (fst x) @ string_bytes (the (snd x)) \<noteq> []" for x :: "int64 \<times> bytes option"
    using length_le_bytes [of 8 "fst x"] by fastforce
qed (intro tl_type_pair tl_type_ptr int64.tl_type_axioms str.tl_type_axioms)

subsection \<open>Properties\<close>

text \<open>C39: what serialize writes of a vector of pairs of a number and a pointer to a string, unserialize reads back,
  and refuses with anything behind it.\<close>

lemma serialize_roundtrip:
  assumes "\<forall>(n, s) \<in> set xs. s \<noteq> None \<and> length (the s) < 2 ^ 32" and "length xs < 2 ^ 31"
  shows "\<exists>data. serialize store_entries xs = Some data \<and>
    (\<forall>d. length (data @ d) < SIZE_MAX \<longrightarrow>
      (if d = [] then unserialize parse_entries (data @ d) = Some (Inr xs)
       else \<exists>e. unserialize parse_entries (data @ d) = Some (Inl e)))"
proof -
  have ok: "list_all (\<lambda>x. True \<and> snd x \<noteq> None \<and> length (the (snd x)) < 2 ^ 32) xs \<and> length xs < 2 ^ 31"
    using assms by (auto simp: list_all_iff)
  then show ?thesis
    using entries.serialize_enc [OF ok] entries.unserialize_enc [OF ok] entries.unserialize_rest [OF ok] by force
qed

lemma serialize_roundtrip_witness:
  "\<exists>data. serialize store_entries [(5, Some [1, 2]), (0, Some [])] = Some data \<and>
    (\<forall>d. length (data @ d) < SIZE_MAX \<longrightarrow>
      (if d = [] then unserialize parse_entries (data @ d) = Some (Inr [(5, Some [1, 2]), (0, Some [])])
       else \<exists>e. unserialize parse_entries (data @ d) = Some (Inl e)))"
  by (rule serialize_roundtrip) simp_all

text \<open>C40: whatever the data, unserialize never fails a check or reads outside of them: it gives an object or an error.\<close>

lemma unserialize_safe:
  assumes "length data < SIZE_MAX"
  shows "unserialize parse_entries data \<noteq> None \<and> unserialize (parse_flags 30) data \<noteq> None \<and>
    unserialize (parse_uint 64) data \<noteq> None"
  using entries.unserialize_total [OF assms] uint512.unserialize_total [OF assms]
    tl_type.unserialize_total [OF tl_type_flags assms, of 30] by simp

lemma unserialize_safe_witness:
  "unserialize parse_entries [1, 0, 0, 0, 7] \<noteq> None \<and> unserialize (parse_flags 30) [1, 0, 0, 0, 7] \<noteq> None \<and>
    unserialize (parse_uint 64) [1, 0, 0, 0, 7] \<noteq> None"
  by (rule unserialize_safe) (simp add: SIZE_MAX_def)

text \<open>The strings read by a \<open>TlBufferParser\<close> are valid UTF-8 without zero bytes, and reading one never leaves
  the data.\<close>

lemma buffer_parser_strings_valid:
  assumes "length data < SIZE_MAX"
  shows "\<exists>s p. fetch_clean_string (new_tl_parser data) = Some (s, p) \<and> valid_utf8 s \<and> 0 \<notin> set s"
proof -
  obtain s p where "fetch_string (new_tl_parser data) = Some (s, p)"
    using fetch_string_total [OF tl_ok_new [OF assms]] by blast
  moreover obtain r where "clean_string s = Some r" "check_utf8 r = Some True" "0 \<notin> set r"
    using clean_string_valid [of s] by blast
  ultimately show ?thesis by (simp add: fetch_clean_string_def check_utf8_correct)
qed

lemma buffer_parser_strings_valid_witness:
  "\<exists>s p. fetch_clean_string (new_tl_parser [3, 0, 65, 0xC3]) = Some (s, p) \<and> valid_utf8 s \<and> 0 \<notin> set s"
  by (rule buffer_parser_strings_valid) (simp add: SIZE_MAX_def)

end
