(* ===== verification/Td_BinlogEvent.thy ===== *)
theory Td_BinlogEvent
  imports Td_TlHelpers
begin

text \<open>
  The events of the binlog: \<open>BinlogEvent\<close> of \<open>tddb/td/db/binlog/BinlogEvent.h\<close> and \<open>BinlogEvent.cpp\<close>.

  An event is a size, an identifier, a type, flags, eight unused bytes, the data and a checksum.  The checksum
  \<open>crc32\<close> belongs to zlib: it is the argument \<open>crc\<close>, any function.  Debug information is left out, and errors are
  values of \<open>binlog_error\<close>, which has the values that the message of the code shows.
\<close>

definition MAX_SIZE :: nat where "MAX_SIZE = 2 ^ 24"

definition HEADER_SIZE :: nat where "HEADER_SIZE = 4 + 8 + 4 + 4 + 8"

definition TAIL_SIZE :: nat where "TAIL_SIZE = 4"

definition MIN_SIZE :: nat where "MIN_SIZE = HEADER_SIZE + TAIL_SIZE"

lemmas size_defs = MIN_SIZE_def HEADER_SIZE_def TAIL_SIZE_def

text \<open>The types of the events that are not those of the user, and the flags.\<close>

definition Header_type :: int32 where "Header_type = - 1"
definition Empty_type :: int32 where "Empty_type = - 2"
definition AesCtrEncryption_type :: int32 where "AesCtrEncryption_type = - 3"
definition NoEncryption_type :: int32 where "NoEncryption_type = - 4"
definition Rewrite_flag :: int32 where "Rewrite_flag = 1"
definition Partial_flag :: int32 where "Partial_flag = 2"

record binlog_event =
  be_offset :: int
  be_size :: int32
  be_id :: int64
  be_type :: int32
  be_flags :: int32
  be_extra :: int64
  be_crc32 :: int32
  be_raw :: bytes

definition new_binlog_event :: binlog_event where
  "new_binlog_event = \<lparr>be_offset = - 1, be_size = 0, be_id = 0, be_type = 0, be_flags = 0, be_extra = 0,
     be_crc32 = 0, be_raw = []\<rparr>"

datatype binlog_error =
    Too_small_event nat
  | Too_big_event nat
  | Bad_event_size nat int
  | Size_changed int32 int32 nat
  | Crc_mismatch int32 int32 binlog_event
  | Ignore_rewrite binlog_event
  | Not_increasing int64 int64 binlog_event
  | Wrong_password

definition init_event :: "bytes \<Rightarrow> binlog_event \<Rightarrow> binlog_event option" where
  "init_event raw_event e =
     do { (sz, p) \<leftarrow> fetch_int (new_tl_parser raw_event);
          check (unat sz = length raw_event);
          (i, p) \<leftarrow> fetch_long p;
          (typ, p) \<leftarrow> fetch_int p;
          (flags, p) \<leftarrow> fetch_int p;
          (extra, p) \<leftarrow> fetch_long p;
          check (unat sz \<ge> MIN_SIZE);
          (_, p) \<leftarrow> fetch_string_raw (unat sz - MIN_SIZE) p;
          (crc32, p) \<leftarrow> fetch_int p;
          Some (e\<lparr>be_size := sz, be_id := i, be_type := typ, be_flags := flags, be_extra := extra,
                  be_crc32 := crc32, be_raw := raw_event\<rparr>) }"

definition get_data :: "binlog_event \<Rightarrow> bytes option" where
  "get_data e =
     do { check (length (be_raw e) \<ge> MIN_SIZE);
          Some (take (length (be_raw e) - MIN_SIZE) (drop HEADER_SIZE (be_raw e))) }"

definition be_is_empty :: "binlog_event \<Rightarrow> bool" where
  "be_is_empty e \<longleftrightarrow> be_raw e = []"

text \<open>The message of a mismatch shows the data.\<close>

definition validate :: "(bytes \<Rightarrow> int32) \<Rightarrow> binlog_event \<Rightarrow> (binlog_error + unit) option" where
  "validate crc e =
     (if length (be_raw e) < MIN_SIZE then Some (Inl (Too_small_event (length (be_raw e))))
      else do { (sz, p) \<leftarrow> fetch_int (new_tl_parser (be_raw e));
                if be_size e \<noteq> sz \<or> unat (be_size e) \<noteq> length (be_raw e)
                then Some (Inl (Size_changed (be_size e) sz (length (be_raw e))))
                else do { (_, p) \<leftarrow> fetch_string_raw (unat (be_size e) - TAIL_SIZE - 4) p;
                          (stored_crc32, p) \<leftarrow> fetch_int p;
                          let calculated_crc = crc (take (unat (be_size e) - TAIL_SIZE) (be_raw e));
                          if calculated_crc \<noteq> be_crc32 e \<or> calculated_crc \<noteq> stored_crc32
                          then do { _ \<leftarrow> get_data e; Some (Inl (Crc_mismatch calculated_crc (be_crc32 e) e)) }
                          else Some (Inr ()) } })"

definition clone_event :: "(bytes \<Rightarrow> int32) \<Rightarrow> binlog_event \<Rightarrow> binlog_event option" where
  "clone_event crc e =
     do { c \<leftarrow> init_event (be_raw e) new_binlog_event;
          v \<leftarrow> validate crc c;
          (case v of Inl _ \<Rightarrow> None | Inr _ \<Rightarrow> Some c) }"

definition create_raw :: "(bytes \<Rightarrow> int32) \<Rightarrow> int64 \<Rightarrow> int32 \<Rightarrow> int32 \<Rightarrow> storer \<Rightarrow> bytes option" where
  "create_raw crc i typ flags sr =
     do { let sz = sr_size sr + MIN_SIZE;
          n \<leftarrow> narrow_cast_int32 (int sz);
          s \<leftarrow> store_int (word_of_int n) (Unsafe [] sz);
          s \<leftarrow> store_long i s;
          s \<leftarrow> store_int typ s;
          s \<leftarrow> store_int flags s;
          s \<leftarrow> store_long 0 s;
          check (storer_length s = HEADER_SIZE);
          s \<leftarrow> store_storer sr s;
          check (storer_length s = sz - TAIL_SIZE);
          s \<leftarrow> store_int (crc (storer_bytes s)) s;
          Some (storer_bytes s) }"

text \<open>An \<open>EmptyStorer\<close>.\<close>

definition empty_storer :: storer where
  "empty_storer = \<lparr>sr_size = 0, sr_store = (\<lambda>room. Some [])\<rparr>"

subsection \<open>What init reads\<close>

text \<open>The parser behind some bytes of the data.\<close>

definition parser_at :: "bytes \<Rightarrow> nat \<Rightarrow> tl_parser" where
  "parser_at raw n = (new_tl_parser raw)\<lparr>tp_data := drop n raw, tp_left := length raw - n\<rparr>"

lemma parser_at_start: "new_tl_parser raw = parser_at raw 0"
  by (simp add: new_tl_parser_def parser_at_def)

lemma fetch_binary_at:
  assumes "n + k \<le> length raw" "length raw < SIZE_MAX"
  shows "fetch_binary k (parser_at raw n) = Some (take k (drop n raw), parser_at raw (n + k))"
proof -
  let ?p = "parser_at raw n"
  have "tl_ok ?p" "tp_error ?p = []" "k \<le> tp_left ?p"
    using assms by (simp_all add: tl_ok_def new_tl_parser_def parser_at_def)
  then have "fetch_binary k ?p = Some (take k (tp_data ?p), moved k ?p)" by (rule fetch_binary_good)
  then show ?thesis by (simp add: parser_at_def add.commute)
qed

lemma fetch_int_at:
  "n + 4 \<le> length raw \<Longrightarrow> length raw < SIZE_MAX \<Longrightarrow>
     fetch_int (parser_at raw n) = Some (le_word (take 4 (drop n raw)), parser_at raw (n + 4))"
  by (simp add: fetch_int_def fetch_binary_at)

lemma fetch_long_at:
  "n + 8 \<le> length raw \<Longrightarrow> length raw < SIZE_MAX \<Longrightarrow>
     fetch_long (parser_at raw n) = Some (le_word (take 8 (drop n raw)), parser_at raw (n + 8))"
  by (simp add: fetch_long_def fetch_binary_at)

lemma fetch_string_raw_at:
  assumes "n + k \<le> length raw" "length raw < SIZE_MAX"
  shows "fetch_string_raw k (parser_at raw n) = Some (take k (drop n raw), parser_at raw (n + k))"
  using assms
  by (simp add: fetch_string_raw_def check_len_good bytes_at_def move_data_def new_tl_parser_def parser_at_def add.commute)

definition parsed :: "bytes \<Rightarrow> binlog_event \<Rightarrow> binlog_event" where
  "parsed raw e = e\<lparr>be_size := le_word (take 4 raw), be_id := le_word (take 8 (drop 4 raw)),
     be_type := le_word (take 4 (drop 12 raw)), be_flags := le_word (take 4 (drop 16 raw)),
     be_extra := le_word (take 8 (drop 20 raw)), be_crc32 := le_word (take 4 (drop (length raw - 4) raw)), be_raw := raw\<rparr>"

lemma init_event_eq:
  assumes sz: "unat (le_word (take 4 raw) :: int32) = length raw" and len: "MIN_SIZE \<le> length raw" "length raw < SIZE_MAX"
  shows "init_event raw e = Some (parsed raw e)"
proof -
  have n: "32 \<le> length raw" using len(1) by (simp add: size_defs)
  have skip_data: "fetch_string_raw (length raw - MIN_SIZE) (parser_at raw 28) =
      Some (take (length raw - MIN_SIZE) (drop 28 raw), parser_at raw (length raw - 4))"
    using fetch_string_raw_at [of 28 "length raw - MIN_SIZE" raw] n len by (simp add: size_defs)
  have "fetch_int (new_tl_parser raw) = Some (le_word (take 4 raw), parser_at raw 4)"
    using fetch_int_at [of 0 raw] n len by (simp add: parser_at_start)
  moreover have "fetch_long (parser_at raw 4) = Some (le_word (take 8 (drop 4 raw)), parser_at raw 12)"
    using fetch_long_at [of 4 raw] n len by simp
  moreover have "fetch_int (parser_at raw 12) = Some (le_word (take 4 (drop 12 raw)), parser_at raw 16)"
    using fetch_int_at [of 12 raw] n len by simp
  moreover have "fetch_int (parser_at raw 16) = Some (le_word (take 4 (drop 16 raw)), parser_at raw 20)"
    using fetch_int_at [of 16 raw] n len by simp
  moreover have "fetch_long (parser_at raw 20) = Some (le_word (take 8 (drop 20 raw)), parser_at raw 28)"
    using fetch_long_at [of 20 raw] n len by simp
  moreover have "fetch_int (parser_at raw (length raw - 4)) =
      Some (le_word (take 4 (drop (length raw - 4) raw)), parser_at raw (length raw))"
    using fetch_int_at [of "length raw - 4" raw] n len by simp
  ultimately show ?thesis using skip_data sz len(1) by (simp add: init_event_def parsed_def)
qed

lemma validate_eq:
  assumes sz: "unat (be_size e) = length (be_raw e)" "be_size e = le_word (take 4 (be_raw e))"
    and len: "MIN_SIZE \<le> length (be_raw e)" "length (be_raw e) < SIZE_MAX"
  shows "validate crc e = Some (let c = crc (take (length (be_raw e) - 4) (be_raw e)) in
    if c = be_crc32 e \<and> c = le_word (take 4 (drop (length (be_raw e) - 4) (be_raw e))) then Inr ()
    else Inl (Crc_mismatch c (be_crc32 e) e))"
proof -
  let ?raw = "be_raw e" let ?n = "length (be_raw e)"
  have n: "32 \<le> ?n" using len(1) by (simp add: size_defs)
  have skip_data: "fetch_string_raw (?n - TAIL_SIZE - 4) (parser_at ?raw 4) =
      Some (take (?n - TAIL_SIZE - 4) (drop 4 ?raw), parser_at ?raw (?n - 4))"
    using fetch_string_raw_at [of 4 "?n - TAIL_SIZE - 4" ?raw] n len by (simp add: size_defs)
  have "fetch_int (new_tl_parser ?raw) = Some (le_word (take 4 ?raw), parser_at ?raw 4)"
    using fetch_int_at [of 0 ?raw] n len by (simp add: parser_at_start)
  moreover have "fetch_int (parser_at ?raw (?n - 4)) = Some (le_word (take 4 (drop (?n - 4) ?raw)), parser_at ?raw ?n)"
    using fetch_int_at [of "?n - 4" ?raw] n len by simp
  moreover have "\<exists>d. get_data e = Some d" using len(1) by (simp add: get_data_def)
  moreover have "?n - TAIL_SIZE = ?n - 4" by (simp add: size_defs)
  ultimately show ?thesis using skip_data sz len(1) by (auto simp: validate_def Let_def)
qed

subsection \<open>What create\_raw writes\<close>

definition size_word :: "nat \<Rightarrow> int32" where "size_word n = of_nat n"

definition event_header :: "nat \<Rightarrow> int64 \<Rightarrow> int32 \<Rightarrow> int32 \<Rightarrow> bytes" where
  "event_header n i typ flags =
     le_bytes 4 (size_word n) @ le_bytes 8 i @ le_bytes 4 typ @ le_bytes 4 flags @ le_bytes 8 (0 :: int64)"

definition raw_of :: "(bytes \<Rightarrow> int32) \<Rightarrow> int64 \<Rightarrow> int32 \<Rightarrow> int32 \<Rightarrow> bytes \<Rightarrow> bytes" where
  "raw_of crc i typ flags data =
     (let b = event_header (length data + MIN_SIZE) i typ flags @ data in b @ le_bytes 4 (crc b))"

text \<open>A \<open>Storer\<close> that writes some data.\<close>

definition writes :: "storer \<Rightarrow> bytes \<Rightarrow> bool" where
  "writes sr data \<longleftrightarrow> sr_size sr = length data \<and> (\<forall>room \<ge> length data. sr_store sr room = Some data)"

lemma writes_slice: "writes (slice_storer data) data"
  by (simp add: writes_def slice_storer_def)

lemma writes_empty: "writes empty_storer []"
  by (simp add: writes_def empty_storer_def)

lemma length_event_header [simp]: "length (event_header n i typ flags) = 28"
  by (simp add: event_header_def)

lemma length_raw_of [simp]: "length (raw_of crc i typ flags data) = length data + 32"
  by (simp add: raw_of_def Let_def)

text \<open>Writing behind what is written.\<close>

lemma store_int_unsafe: "4 \<le> room \<Longrightarrow> store_int w (Unsafe out room) = Some (Unsafe (out @ le_bytes 4 w) (room - 4))"
  by (simp add: store_int_def store_binary_def)

lemma store_long_unsafe: "8 \<le> room \<Longrightarrow> store_long w (Unsafe out room) = Some (Unsafe (out @ le_bytes 8 w) (room - 8))"
  by (simp add: store_long_def store_binary_def)

lemma create_raw_eq:
  assumes w: "writes sr data" and len: "length data + 32 < 2 ^ 31"
  shows "create_raw crc i typ flags sr = Some (raw_of crc i typ flags data)"
proof -
  let ?n = "length data"
  have cast: "narrow_cast_int32 (int (sr_size sr + MIN_SIZE)) = Some (int (?n + 32))"
    using w len by (simp add: writes_def size_defs int_range_defs)
  have sz: "sr_size sr + MIN_SIZE = 32 + ?n" using w by (simp add: writes_def size_defs)
  have st: "sr_store sr (4 + ?n) = Some data" using w by (simp add: writes_def)
  have word: "word_of_int (int (?n + 32)) = size_word (?n + 32)" by (simp add: size_word_def)
  show ?thesis
    unfolding create_raw_def Let_def cast unfolding sz
    by (simp add: store_int_unsafe store_long_unsafe st word size_defs raw_of_def event_header_def Let_def
        del: of_nat_add of_int_of_nat_eq)
qed

lemma raw_of_slices:
  "take 4 (raw_of crc i typ flags data) = le_bytes 4 (size_word (length data + 32))"
  "take 8 (drop 4 (raw_of crc i typ flags data)) = le_bytes 8 i"
  "take 4 (drop 12 (raw_of crc i typ flags data)) = le_bytes 4 typ"
  "take 4 (drop 16 (raw_of crc i typ flags data)) = le_bytes 4 flags"
  "take 8 (drop 20 (raw_of crc i typ flags data)) = le_bytes 8 (0 :: int64)"
  "take (length data) (drop 28 (raw_of crc i typ flags data)) = data"
  "take 4 (drop (28 + length data) (raw_of crc i typ flags data)) =
     le_bytes 4 (crc (take (28 + length data) (raw_of crc i typ flags data)))"
  by (simp_all add: raw_of_def event_header_def Let_def size_defs)

lemma unat_size_word: "n < 2 ^ 32 \<Longrightarrow> unat (size_word n) = n"
  by (simp add: size_word_def unat_of_nat)

lemma parsed_raw_of:
  "parsed (raw_of crc i typ flags data) e = e\<lparr>be_size := size_word (length data + 32), be_id := i, be_type := typ,
     be_flags := flags, be_extra := 0, be_crc32 := crc (take (28 + length data) (raw_of crc i typ flags data)),
     be_raw := raw_of crc i typ flags data\<rparr>"
proof -
  have "length (raw_of crc i typ flags data) - 4 = 28 + length data" by simp
  then show ?thesis unfolding parsed_def raw_of_slices(1-5) by (simp only: raw_of_slices(7) le_word_int)
qed

lemma init_raw_of:
  assumes "length data + 32 < 2 ^ 32"
  shows "init_event (raw_of crc i typ flags data) e = Some (parsed (raw_of crc i typ flags data) e)"
  by (rule init_event_eq, unfold raw_of_slices)
    (use assms in \<open>simp_all add: unat_size_word size_defs SIZE_MAX_def\<close>)

text \<open>An event whose size and checksum are those of its bytes.\<close>

definition valid_event :: "(bytes \<Rightarrow> int32) \<Rightarrow> binlog_event \<Rightarrow> bool" where
  "valid_event crc e \<longleftrightarrow> validate crc e = Some (Inr ()) \<and> MIN_SIZE \<le> length (be_raw e) \<and> unat (be_size e) = length (be_raw e)"

lemma valid_parsed:
  assumes "length data + 32 < 2 ^ 32"
  shows "valid_event crc (parsed (raw_of crc i typ flags data) e)"
proof -
  let ?raw = "raw_of crc i typ flags data" let ?e = "parsed (raw_of crc i typ flags data) e"
  have e: "be_raw ?e = ?raw" "be_size ?e = size_word (length data + 32)"
    "be_crc32 ?e = crc (take (28 + length data) ?raw)" by (simp_all add: parsed_raw_of)
  have sz: "unat (be_size ?e) = length (be_raw ?e)" "be_size ?e = le_word (take 4 (be_raw ?e))"
    "MIN_SIZE \<le> length (be_raw ?e)" "length (be_raw ?e) < SIZE_MAX"
    using assms unfolding e raw_of_slices by (simp_all add: unat_size_word size_defs SIZE_MAX_def)
  have tail: "length (be_raw ?e) - 4 = 28 + length data" by (simp add: e)
  have "validate crc ?e = Some (Inr ())"
    unfolding validate_eq [OF sz] tail unfolding e raw_of_slices(7) by (simp add: Let_def)
  then show ?thesis using sz by (simp add: valid_event_def)
qed

lemma get_data_parsed: "get_data (parsed (raw_of crc i typ flags data) e) = Some data"
  by (simp add: get_data_def parsed_def size_defs raw_of_slices)

text \<open>The event that create\_raw makes of the bytes of a storer is read back by init with all its fields,
  passes validate, and get\_data gives the bytes.\<close>

lemma binlog_event_roundtrip:
  assumes "writes sr data" "length data + 32 < 2 ^ 31"
  shows "\<exists>raw e. create_raw crc i typ flags sr = Some raw \<and> init_event raw new_binlog_event = Some e \<and>
    validate crc e = Some (Inr ()) \<and> get_data e = Some data \<and>
    be_id e = i \<and> be_type e = typ \<and> be_flags e = flags \<and> unat (be_size e) = length raw \<and> be_raw e = raw"
proof -
  let ?raw = "raw_of crc i typ flags data"
  have len: "length data + 32 < 2 ^ 32" using assms(2) by simp
  have "validate crc (parsed ?raw new_binlog_event) = Some (Inr ())"
    using valid_parsed [OF len] by (simp add: valid_event_def)
  then show ?thesis
    using create_raw_eq [OF assms] init_raw_of [OF len] get_data_parsed
      unat_size_word [OF len] by (auto simp: parsed_raw_of)
qed

lemma binlog_event_roundtrip_witness:
  "\<exists>raw e. create_raw (\<lambda>_. 7) 5 1 0 (slice_storer [1, 2, 3, 4]) = Some raw \<and> init_event raw new_binlog_event = Some e \<and>
    validate (\<lambda>_. 7) e = Some (Inr ()) \<and> get_data e = Some [1, 2, 3, 4] \<and>
    be_id e = 5 \<and> be_type e = 1 \<and> be_flags e = 0 \<and> unat (be_size e) = length raw \<and> be_raw e = raw"
  by (rule binlog_event_roundtrip, rule writes_slice) simp

end
