(* ===== verification/Td_BinlogProcessor.thy ===== *)
theory Td_BinlogProcessor
  imports Td_BinlogEvent Td_OrdMap
begin

text \<open>
  What the events of a binlog leave: \<open>BinlogEventsProcessor\<close> of \<open>tddb/td/db/binlog/detail\<close>, and
  \<open>BinlogEventsBuffer\<close>, which collects events before they are written.

  The processor holds two vectors, of the doubled identifiers (odd once the event is erased) and of the events.
  Its specification is an ordered map from doubled identifiers to events, \<open>live\<close>: every event that is accepted
  changes this map as \<open>apply_event\<close> says, whatever the erased events that are still in the vectors.
  Identifiers are doubled in 64 bits, with the wrap-around; sizes and counters are unbounded numbers.
\<close>

subsection \<open>The processor\<close>

record processor =
  pr_ids :: "int64 list"
  pr_events :: "binlog_event list"
  pr_total :: nat
  pr_empty :: nat
  pr_last :: int64
  pr_offset :: int
  pr_size :: int

definition new_processor :: processor where
  "new_processor = \<lparr>pr_ids = [], pr_events = [], pr_total = 0, pr_empty = 0, pr_last = 0, pr_offset = 0, pr_size = 0\<rparr>"

definition has_flag :: "int32 \<Rightarrow> binlog_event \<Rightarrow> bool" where
  "has_flag f e \<longleftrightarrow> be_flags e AND f \<noteq> 0"

definition clear_flag :: "int32 \<Rightarrow> binlog_event \<Rightarrow> binlog_event" where
  "clear_flag f e = e\<lparr>be_flags := be_flags e AND NOT f\<rparr>"

text \<open>Twice the identifier.\<close>

definition fixed_id :: "binlog_event \<Rightarrow> int64" where
  "fixed_id e = be_id e * 2"

text \<open>\<open>std::lower\_bound\<close> on an increasing vector.\<close>

definition lower_bound :: "int64 list \<Rightarrow> int64 \<Rightarrow> nat" where
  "lower_bound ids x = length (takeWhile (\<lambda>y. y < x) ids)"

text \<open>The loop of compactify keeps the events whose identifier is even.\<close>

fun keep_events :: "int64 list \<Rightarrow> binlog_event list \<Rightarrow> int64 list \<times> binlog_event list" where
  "keep_events (i # ids) (e # es) =
     (let (ids', es') = keep_events ids es in if i AND 1 = 0 then (i # ids', e # es') else (ids', es'))"
| "keep_events ids es = ([], [])"

definition compactify :: "processor \<Rightarrow> processor option" where
  "compactify p =
     do { check (length (pr_ids p) = length (pr_events p));
          let (ids, es) = keep_events (pr_ids p) (pr_events p);
          check (length ids = length es);
          Some (p\<lparr>pr_ids := ids, pr_events := es, pr_total := length ids, pr_empty := 0\<rparr>) }"

definition rewrite_event :: "binlog_event \<Rightarrow> processor \<Rightarrow> (binlog_error + processor) option" where
  "rewrite_event e p =
     (let pos = lower_bound (pr_ids p) (fixed_id e) in
      if pos = length (pr_ids p) \<or> pr_ids p ! pos \<noteq> fixed_id e
      then do { _ \<leftarrow> get_data e; Some (Inl (Ignore_rewrite e)) }
      else do { check (pos < length (pr_events p));
                let p = p\<lparr>pr_size := pr_size p - int (length (be_raw (pr_events p ! pos)))\<rparr>;
                Some (Inr (if be_type e = Empty_type
                  then p\<lparr>pr_ids := (pr_ids p)[pos := pr_ids p ! pos + 1], pr_empty := pr_empty p + 1,
                         pr_events := (pr_events p)[pos := new_binlog_event]\<rparr>
                  else p\<lparr>pr_size := pr_size p + int (length (be_raw e)),
                         pr_events := (pr_events p)[pos := clear_flag Rewrite_flag e]\<rparr>)) })"

definition append_event :: "binlog_event \<Rightarrow> processor \<Rightarrow> (binlog_error + processor) option" where
  "append_event e p =
     (if \<not> (pr_ids p = [] \<or> last (pr_ids p) < fixed_id e)
      then do { _ \<leftarrow> get_data e; Some (Inl (Not_increasing (last (pr_ids p)) (fixed_id e) e)) }
      else Some (Inr (p\<lparr>pr_last := be_id e, pr_size := pr_size p + int (length (be_raw e)), pr_total := pr_total p + 1,
                        pr_ids := pr_ids p @ [fixed_id e], pr_events := pr_events p @ [e]\<rparr>)))"

definition process_event :: "binlog_event \<Rightarrow> processor \<Rightarrow> ((binlog_error + unit) \<times> processor) option" where
  "process_event e p =
     do { let p = p\<lparr>pr_offset := be_offset e\<rparr>;
          r \<leftarrow> (if has_flag Rewrite_flag e \<and> pr_ids p \<noteq> [] \<and> last (pr_ids p) \<ge> fixed_id e then rewrite_event e p
                else if be_type e <s 0 then Some (Inr p)
                else append_event e p);
          (case r of
             Inl err \<Rightarrow> Some (Inl err, p)
           | Inr p \<Rightarrow> if pr_total p > 10 \<and> pr_empty p * 4 > pr_total p * 3
                     then do { p \<leftarrow> compactify p; Some (Inr (), p) } else Some (Inr (), p)) }"

text \<open>The events that for\_each passes to its callback, in their order.\<close>

fun each_event :: "int64 option \<Rightarrow> int64 list \<Rightarrow> binlog_event list \<Rightarrow> binlog_event list option" where
  "each_event prev [] es = Some []"
| "each_event prev (i # ids) es =
     do { check (case prev of None \<Rightarrow> True | Some j \<Rightarrow> j < i);
          check (es \<noteq> []);
          rs \<leftarrow> each_event (Some i) ids (tl es);
          Some (if i AND 1 = 0 then hd es # rs else rs) }"

definition for_each_event :: "processor \<Rightarrow> binlog_event list option" where
  "for_each_event p = each_event None (pr_ids p) (pr_events p)"

subsection \<open>The buffer\<close>

record events_buffer =
  bf_ids :: "int64 list"
  bf_events :: "binlog_event list"
  bf_total :: nat
  bf_size :: int

definition new_buffer :: events_buffer where
  "new_buffer = \<lparr>bf_ids = [], bf_events = [], bf_total = 0, bf_size = 0\<rparr>"

definition buffer_event :: "binlog_event \<Rightarrow> events_buffer \<Rightarrow> events_buffer" where
  "buffer_event e b =
     (let b = b\<lparr>bf_total := bf_total b + 1\<rparr>; pos = length (takeWhile (\<lambda>i. i \<noteq> be_id e) (bf_ids b)) in
      if \<not> has_flag Partial_flag e \<and> pos < length (bf_ids b)
      then b\<lparr>bf_size := bf_size b - int (unat (be_size (bf_events b ! pos))) + int (unat (be_size e)),
             bf_events := (bf_events b)[pos := e]\<rparr>
      else b\<lparr>bf_ids := bf_ids b @ [be_id e], bf_size := bf_size b + int (unat (be_size e)),
             bf_events := bf_events b @ [e]\<rparr>)"

definition need_flush :: "events_buffer \<Rightarrow> bool" where
  "need_flush b \<longleftrightarrow> bf_total b > 5000 \<or> length (bf_ids b) > 100"

text \<open>The events that flush passes on: all but the last one are marked as parts of what is to come.\<close>

fun flush_events :: "(bytes \<Rightarrow> int32) \<Rightarrow> binlog_event list \<Rightarrow> binlog_event list option" where
  "flush_events crc [] = Some []"
| "flush_events crc (e # es) =
     do { e \<leftarrow> (if es \<noteq> [] \<and> \<not> has_flag Partial_flag e
               then do { d \<leftarrow> get_data e;
                         raw \<leftarrow> create_raw crc (be_id e) (be_type e) (be_flags e OR Partial_flag) (slice_storer d);
                         init_event raw new_binlog_event }
               else Some e);
          es \<leftarrow> flush_events crc es;
          Some (e # es) }"

definition flush_buffer :: "(bytes \<Rightarrow> int32) \<Rightarrow> events_buffer \<Rightarrow> (binlog_event list \<times> events_buffer) option" where
  "flush_buffer crc b = do { es \<leftarrow> flush_events crc (bf_events b); Some (es, new_buffer) }"

subsection \<open>What is live\<close>

definition slots :: "processor \<Rightarrow> (int64 \<times> binlog_event) list" where
  "slots p = zip (pr_ids p) (pr_events p)"

definition live :: "processor \<Rightarrow> (int64 \<times> binlog_event) list" where
  "live p = filter (\<lambda>(i, _). i AND 1 = 0) (slots p)"

text \<open>What an accepted event does to the map.\<close>

definition apply_event :: "binlog_event \<Rightarrow> (int64 \<times> binlog_event) list \<Rightarrow> (int64 \<times> binlog_event) list" where
  "apply_event e m =
     (if has_flag Rewrite_flag e \<and> fixed_id e \<in> fst ` set m
      then if be_type e = Empty_type then omap_del (fixed_id e) m
           else omap_put (fixed_id e) (clear_flag Rewrite_flag e) m
      else if be_type e <s 0 then m else omap_put (fixed_id e) e m)"

text \<open>Identifiers without their deletion mark.\<close>

abbreviation half :: "int64 \<Rightarrow> nat" where "half i \<equiv> unat i div 2"

definition processor_ok :: "processor \<Rightarrow> bool" where
  "processor_ok p \<longleftrightarrow> length (pr_ids p) = length (pr_events p) \<and>
     sorted_wrt (\<lambda>i j. half i < half j) (pr_ids p) \<and>
     (\<forall>(i, e) \<in> set (slots p). if i AND 1 = 0 then i = fixed_id e else be_raw e = []) \<and>
     pr_total p = length (pr_ids p) \<and> pr_empty p = length (filter (\<lambda>i. i AND 1 \<noteq> 0) (pr_ids p)) \<and>
     pr_size p = (\<Sum>e\<leftarrow>pr_events p. int (length (be_raw e)))"

lemma even_iff: "(i :: int64) AND 1 = 0 \<longleftrightarrow> even (unat i)"
proof -
  have "unat (i AND 1) = unat i mod 2" by (simp add: and_one_eq unat_mod)
  then show ?thesis by (metis even_iff_mod_2_eq_zero unat_eq_zero unsigned_0)
qed

lemma even_fixed_id [simp]: "fixed_id e AND 1 = 0"
  unfolding even_iff fixed_id_def by (simp add: unat_word_ariths(2) dvd_mod)

lemma new_processor_ok [simp]: "processor_ok new_processor"
  by (simp add: processor_ok_def new_processor_def slots_def)

lemma ids_sorted: "processor_ok p \<Longrightarrow> sorted_wrt (<) (pr_ids p)"
proof -
  assume "processor_ok p"
  then have "sorted_wrt (\<lambda>i j. half i < half j) (pr_ids p)" by (simp add: processor_ok_def)
  then show ?thesis
    by (rule sorted_wrt_mono_rel [rotated]) (metis div_le_mono linorder_not_le word_le_nat_alt)
qed

lemma map_fst_slots: "processor_ok p \<Longrightarrow> map fst (slots p) = pr_ids p"
  by (simp add: slots_def processor_ok_def)

lemma omap_slots: "processor_ok p \<Longrightarrow> omap (slots p)"
  using ids_sorted map_fst_slots by (simp add: omap_def)

lemma omap_live [simp]: "processor_ok p \<Longrightarrow> omap (live p)"
  by (simp add: live_def omap_slots)

lemma set_live_ids: "processor_ok p \<Longrightarrow> fst ` set (live p) = {i \<in> set (pr_ids p). i AND 1 = 0}"
  by (auto simp: live_def simp flip: map_fst_slots)

lemma live_fixed: "processor_ok p \<Longrightarrow> (i, e) \<in> set (live p) \<Longrightarrow> i = fixed_id e"
  by (auto simp: live_def processor_ok_def)

text \<open>The vectors split at a position.\<close>

lemma lower_bound_found:
  assumes "sorted_wrt (<) ids" "x \<in> set ids"
  obtains a b where "ids = a @ x # b" "lower_bound ids x = length a"
proof -
  obtain a b where ids: "ids = a @ x # b" using assms(2) by (auto simp: in_set_conv_decomp)
  then have "takeWhile (\<lambda>y. y < x) ids = a" using assms(1) by (auto simp: sorted_wrt_append takeWhile_append)
  then show thesis using that [OF ids] by (simp add: lower_bound_def)
qed

lemma lower_bound_absent: "x \<notin> set ids \<Longrightarrow> lower_bound ids x = length ids \<or> ids ! lower_bound ids x \<noteq> x"
  unfolding lower_bound_def by (metis length_takeWhile_le nat_less_le nth_mem)

lemma split_slots:
  assumes "processor_ok p" "pr_ids p = a @ x # b"
  obtains c e d where "pr_events p = c @ e # d" "length c = length a" "length d = length b"
    "slots p = zip a c @ (x, e) # zip b d"
proof -
  have len: "length (pr_events p) = length a + 1 + length b" using assms by (simp add: processor_ok_def)
  define c e d where "c = take (length a) (pr_events p)" "e = pr_events p ! length a" "d = drop (Suc (length a)) (pr_events p)"
  have es: "pr_events p = c @ e # d" using len unfolding c_e_d_def by (intro id_take_nth_drop) simp
  have l: "length c = length a" "length d = length b" using len by (simp_all add: c_e_d_def)
  have "slots p = zip a c @ (x, e) # zip b d" by (simp add: slots_def assms(2) es l)
  then show thesis by (rule that [OF es l])
qed

text \<open>An event in the middle replaced.\<close>

lemma live_split: "slots p = m @ (x, e) # m' \<Longrightarrow>
    live p = filter (\<lambda>(i, _). i AND 1 = 0) m @ (if x AND 1 = 0 then [(x, e)] else []) @ filter (\<lambda>(i, _). i AND 1 = 0) m'"
  by (simp add: live_def)

lemma odd_succ: "even (unat (x :: int64)) \<Longrightarrow> unat (x + 1) = unat x + 1"
proof -
  assume "even (unat x)"
  moreover have "unat x < 2 ^ 64" using unsigned_less [of x] by simp
  moreover have "odd (2 ^ 64 - 1 :: nat)" by simp
  ultimately have "unat x + 1 < 2 ^ 64" by (metis Suc_eq_plus1 add_diff_cancel_right' nat_neq_iff not_less_eq)
  then show ?thesis by (simp add: unat_plus_simple [THEN iffD1] unat_word_ariths(1))
qed

lemma rewrite_event_live:
  assumes p: "processor_ok p" and mem: "fixed_id e \<in> set (pr_ids p)"
  obtains p' where "rewrite_event e p = Some (Inr p')" "processor_ok p'" "pr_last p' = pr_last p" "pr_offset p' = pr_offset p"
    "set (map half (pr_ids p')) = set (map half (pr_ids p))"
    "live p' = (if be_type e = Empty_type then omap_del (fixed_id e) (live p)
                else omap_put (fixed_id e) (clear_flag Rewrite_flag e) (live p))"
proof -
  obtain a b where ids: "pr_ids p = a @ fixed_id e # b" "lower_bound (pr_ids p) (fixed_id e) = length a"
    by (rule lower_bound_found [OF ids_sorted [OF p] mem])
  obtain c e0 d where es: "pr_events p = c @ e0 # d" "length c = length a" "length d = length b"
      "slots p = zip a c @ (fixed_id e, e0) # zip b d"
    by (rule split_slots [OF p ids(1)])
  define e1 where "e1 = clear_flag Rewrite_flag e"
  define q where "q = (if be_type e = Empty_type
     then p\<lparr>pr_size := pr_size p - int (length (be_raw e0)), pr_ids := a @ (fixed_id e + 1) # b,
            pr_empty := pr_empty p + 1, pr_events := c @ new_binlog_event # d\<rparr>
     else p\<lparr>pr_size := pr_size p - int (length (be_raw e0)) + int (length (be_raw e)), pr_events := c @ e1 # d\<rparr>)"
  have q: "rewrite_event e p = Some (Inr q)"
    using es(1-3) ids by (simp add: rewrite_event_def Let_def q_def e1_def nth_append list_update_append)
  have succ: "unat (fixed_id e + 1) = unat (fixed_id e) + 1" "even (unat (fixed_id e))"
    using odd_succ even_fixed_id [of e] by (simp_all only: even_iff)
  then have h: "half (fixed_id e + 1) = half (fixed_id e)" "(fixed_id e + 1) AND 1 \<noteq> 0"
    by (simp_all only: even_iff) simp_all
  have e1: "fixed_id e1 = fixed_id e" "be_raw e1 = be_raw e" by (simp_all add: e1_def clear_flag_def fixed_id_def)
  have len: "length a + Suc (length b) = length (pr_events p)" using es by simp
  have ok: "processor_ok q"
  proof (cases "be_type e = Empty_type")
    case True
    then have "slots q = zip a c @ (fixed_id e + 1, new_binlog_event) # zip b d" using es(2,3) by (simp add: slots_def q_def)
    then show ?thesis using p True es ids h len
      by (auto simp: processor_ok_def q_def new_binlog_event_def sorted_wrt_append)
  next
    case False
    then have "slots q = zip a c @ (fixed_id e, e1) # zip b d" using es(2,3) ids(1) by (simp add: slots_def q_def)
    then show ?thesis using p False es ids e1 by (auto simp: processor_ok_def q_def)
  qed
  let ?m = "filter (\<lambda>(i, _). i AND 1 = 0) (zip a c)" let ?m' = "filter (\<lambda>(i, _). i AND 1 = 0) (zip b d)"
  have m: "live p = ?m @ (fixed_id e, e0) # ?m'" using live_split [OF es(4)] by simp
  then have om: "omap (?m @ (fixed_id e, e0) # ?m')" using omap_live [OF p] by simp
  have "live q = (if be_type e = Empty_type then ?m @ ?m' else ?m @ (fixed_id e, e1) # ?m')"
    using es(2,3) ids(1) h(2) by (simp add: live_def slots_def q_def)
  then have "live q = (if be_type e = Empty_type then omap_del (fixed_id e) (live p) else omap_put (fixed_id e) e1 (live p))"
    unfolding m omap_split(2,3) [OF om] .
  moreover have "pr_last q = pr_last p" "pr_offset q = pr_offset p" by (simp_all add: q_def)
  moreover have "set (map half (pr_ids q)) = set (map half (pr_ids p))" using ids(1) h(1) by (simp add: q_def image_Un)
  ultimately show thesis using that [OF q ok] by (simp add: e1_def)
qed

text \<open>A new event at the end.\<close>

lemma half_less: "(i :: int64) < j \<Longrightarrow> even (unat j) \<Longrightarrow> half i < half j"
  unfolding word_less_nat_alt by presburger

lemma ids_bound:
  assumes "processor_ok p" "last (pr_ids p) < fixed_id e" "i \<in> set (pr_ids p)"
  shows "half i < half (fixed_id e)" "i < fixed_id e"
proof -
  have "i \<le> last (pr_ids p)"
    using ids_sorted [OF assms(1)] assms(3) by (cases "pr_ids p" rule: rev_cases) (auto simp: sorted_wrt_append)
  then show "i < fixed_id e" using assms(2) by simp
  then show "half i < half (fixed_id e)" by (rule half_less) (use even_fixed_id in \<open>simp only: even_iff\<close>)
qed

lemma append_event_live:
  assumes p: "processor_ok p" and new: "pr_ids p = [] \<or> last (pr_ids p) < fixed_id e"
  obtains p' where "append_event e p = Some (Inr p')" "processor_ok p'" "pr_last p' = be_id e" "pr_offset p' = pr_offset p"
    "pr_ids p' = pr_ids p @ [fixed_id e]" "fixed_id e \<notin> fst ` set (live p)" "live p' = omap_put (fixed_id e) e (live p)"
proof -
  define q where "q = p\<lparr>pr_last := be_id e, pr_size := pr_size p + int (length (be_raw e)), pr_total := pr_total p + 1,
                        pr_ids := pr_ids p @ [fixed_id e], pr_events := pr_events p @ [e]\<rparr>"
  have q: "append_event e p = Some (Inr q)" using new by (simp add: append_event_def q_def)
  have lt: "half i < half (fixed_id e)" "i < fixed_id e" if "i \<in> set (pr_ids p)" for i
    using new ids_bound [OF p _ that] that by auto
  have slots: "slots q = slots p @ [(fixed_id e, e)]" using p by (simp add: slots_def q_def processor_ok_def)
  then have ok: "processor_ok q" using p lt(1) by (auto simp: processor_ok_def q_def sorted_wrt_append)
  have small: "\<forall>x \<in> set (live p). fst x < fixed_id e" using lt(2) set_live_ids [OF p] by auto
  have "live q = live p @ [(fixed_id e, e)]" using slots by (simp add: live_def)
  then have "live q = omap_put (fixed_id e) e (live p)" using omap_put_last [OF small] by simp
  moreover have "fixed_id e \<notin> fst ` set (live p)" using small by auto
  ultimately show thesis using that [OF q ok] by (simp add: q_def)
qed

text \<open>Compaction keeps what is live.\<close>

lemma keep_events_eq:
  "keep_events ids es = (map fst (filter (\<lambda>(i, _). i AND 1 = 0) (zip ids es)), map snd (filter (\<lambda>(i, _). i AND 1 = 0) (zip ids es)))"
  by (induction ids es rule: keep_events.induct) (auto simp: split_def Let_def)

lemma compactify_live:
  assumes p: "processor_ok p"
  obtains p' where "compactify p = Some p'" "processor_ok p'" "live p' = live p" "pr_last p' = pr_last p" "pr_offset p' = pr_offset p"
    "set (pr_ids p') \<subseteq> set (pr_ids p)"
proof -
  define q where "q = p\<lparr>pr_ids := map fst (live p), pr_events := map snd (live p), pr_total := length (live p), pr_empty := 0\<rparr>"
  have q: "compactify p = Some q"
    using p by (simp add: compactify_def keep_events_eq processor_ok_def q_def live_def slots_def)
  have slots: "slots q = live p" by (simp add: slots_def q_def zip_map_fst_snd)
  have even: "\<forall>(i, e) \<in> set (live p). i AND 1 = 0" by (auto simp: live_def)
  have sorted: "sorted_wrt (\<lambda>x y. half (fst x) < half (fst y)) (slots p)"
    using p by (simp add: processor_ok_def sorted_wrt_map flip: map_fst_slots [OF p])
  have "sorted_wrt (\<lambda>i j. half i < half j) (map fst (live p))"
    using sorted_wrt_filter [OF sorted] by (simp add: sorted_wrt_map live_def)
  moreover have "(\<Sum>e\<leftarrow>map snd (live p). int (length (be_raw e))) = pr_size p"
  proof -
    have zero: "\<forall>(i, e) \<in> set (slots p). i AND 1 \<noteq> 0 \<longrightarrow> be_raw e = []" using p by (auto simp: processor_ok_def)
    have "(\<Sum>x\<leftarrow>filter (\<lambda>(i, _). i AND 1 = 0) xs. int (length (be_raw (snd x)))) = (\<Sum>x\<leftarrow>xs. int (length (be_raw (snd x))))"
      if "\<forall>(i, e) \<in> set xs. i AND 1 \<noteq> 0 \<longrightarrow> be_raw e = []" for xs :: "(int64 \<times> binlog_event) list"
      using that by (induction xs) auto
    from this [OF zero] have "(\<Sum>e\<leftarrow>map snd (live p). int (length (be_raw e))) = (\<Sum>e\<leftarrow>map snd (slots p). int (length (be_raw e)))"
      by (simp add: live_def comp_def)
    also have "map snd (slots p) = pr_events p" using p by (simp add: slots_def processor_ok_def)
    finally show ?thesis using p by (simp add: processor_ok_def)
  qed
  moreover have "filter (\<lambda>i. i AND 1 \<noteq> 0) (map fst (live p)) = []" using even by (auto simp: filter_empty_conv)
  ultimately have ok: "processor_ok q"
    unfolding processor_ok_def slots using even live_fixed [OF p] by (auto simp: q_def)
  have "live q = live p" unfolding live_def [of q] slots using even by (auto simp: filter_id_conv)
  then show thesis using that [OF q ok] set_live_ids [OF p] by (auto simp: q_def)
qed

text \<open>Every event is accepted or refused, without failing a check.\<close>

lemma process_event_cases:
  assumes p: "processor_ok p" and e: "MIN_SIZE \<le> length (be_raw e)"
  obtains (refused) err where "process_event e p = Some (Inl err, p\<lparr>pr_offset := be_offset e\<rparr>)"
      "\<not> (has_flag Rewrite_flag e \<and> fixed_id e \<in> fst ` set (live p))" "last (pr_ids p) \<ge> fixed_id e" "pr_ids p \<noteq> []"
    | (accepted) p' where "process_event e p = Some (Inr (), p')" "processor_ok p'" "live p' = apply_event e (live p)"
      "pr_offset p' = be_offset e" "half ` set (pr_ids p') \<subseteq> half ` set (pr_ids p) \<union> {half (fixed_id e)}"
      "pr_last p' = (if be_type e <s 0 \<or> (has_flag Rewrite_flag e \<and> fixed_id e \<in> fst ` set (live p)) then pr_last p else be_id e)"
proof -
  let ?p = "p\<lparr>pr_offset := be_offset e\<rparr>"
  have ok: "processor_ok ?p" using p by (simp add: processor_ok_def slots_def)
  have live_p: "live ?p = live p" by (simp add: live_def slots_def)
  obtain d where d: "get_data e = Some d" using e by (simp add: get_data_def)
  define tail where "tail r = (case r of Inl err \<Rightarrow> Some (Inl err, ?p)
     | Inr p \<Rightarrow> if pr_total p > 10 \<and> pr_empty p * 4 > pr_total p * 3
               then do { p \<leftarrow> compactify p; Some (Inr (), p) } else Some (Inr (), p))" for r :: "binlog_error + processor"
  have done_by: thesis if a: "processor_ok q" "live q = apply_event e (live p)" "pr_offset q = be_offset e"
      "half ` set (pr_ids q) \<subseteq> half ` set (pr_ids p) \<union> {half (fixed_id e)}"
      "pr_last q = (if be_type e <s 0 \<or> (has_flag Rewrite_flag e \<and> fixed_id e \<in> fst ` set (live p)) then pr_last p else be_id e)"
      "process_event e p = tail (Inr q)" for q
  proof (cases "pr_total q > 10 \<and> pr_empty q * 4 > pr_total q * 3")
    case True
    obtain q' where c: "compactify q = Some q'" "processor_ok q'" "live q' = live q" "pr_last q' = pr_last q" "pr_offset q' = pr_offset q"
      "set (pr_ids q') \<subseteq> set (pr_ids q)" by (rule compactify_live [OF a(1)])
    have "process_event e p = Some (Inr (), q')" using a(6) c(1) True by (simp add: tail_def)
    moreover have "half ` set (pr_ids q') \<subseteq> half ` set (pr_ids p) \<union> {half (fixed_id e)}" using a(4) c(6) by blast
    ultimately show thesis using accepted [of q'] c a(2,3,5) by simp
  next
    case False
    then have "process_event e p = Some (Inr (), q)" using a(6) by (auto simp: tail_def)
    then show thesis using accepted [of q] a by simp
  qed
  show thesis
  proof (cases "has_flag Rewrite_flag e \<and> pr_ids p \<noteq> [] \<and> last (pr_ids p) \<ge> fixed_id e")
    case rw: True
    then have step: "process_event e p = rewrite_event e ?p \<bind> tail" by (simp add: process_event_def Let_def tail_def [abs_def])
    show thesis
    proof (cases "fixed_id e \<in> set (pr_ids p)")
      case True
      have mem: "fixed_id e \<in> fst ` set (live p)" using True set_live_ids [OF p] by simp
      from True have "fixed_id e \<in> set (pr_ids ?p)" by simp
      then obtain q where q: "rewrite_event e ?p = Some (Inr q)" "processor_ok q" "pr_last q = pr_last p" "pr_offset q = be_offset e"
        "set (map half (pr_ids q)) = set (map half (pr_ids p))"
        "live q = (if be_type e = Empty_type then omap_del (fixed_id e) (live p)
                else omap_put (fixed_id e) (clear_flag Rewrite_flag e) (live p))"
        by (rule rewrite_event_live [OF ok, unfolded live_p]) simp_all
      show thesis by (rule done_by [of q]) (use q rw mem step in \<open>auto simp: apply_event_def\<close>)
    next
      case False
      then have "fixed_id e \<notin> fst ` set (live p)" using set_live_ids [OF p] by simp
      moreover have "rewrite_event e ?p = Some (Inl (Ignore_rewrite e))"
        using lower_bound_absent [OF False] d by (simp add: rewrite_event_def Let_def)
      ultimately show thesis using refused [of "Ignore_rewrite e"] step rw by (simp add: tail_def)
    qed
  next
    case norw: False
    have mem: "\<not> (has_flag Rewrite_flag e \<and> fixed_id e \<in> fst ` set (live p))"
    proof
      assume a: "has_flag Rewrite_flag e \<and> fixed_id e \<in> fst ` set (live p)"
      then have i: "fixed_id e \<in> set (pr_ids p)" using set_live_ids [OF p] by blast
      then have "last (pr_ids p) < fixed_id e" using norw a by force
      then show False using ids_bound(2) [OF p _ i, of e] by simp
    qed
    show thesis
    proof (cases "be_type e <s 0")
      case True
      then have "process_event e p = tail (Inr ?p)" using norw by (auto simp: process_event_def Let_def tail_def [abs_def])
      moreover have "apply_event e (live p) = live p" using mem True by (auto simp: apply_event_def)
      ultimately show thesis using done_by [of ?p] ok live_p True by auto
    next
      case user: False
      then have step: "process_event e p = append_event e ?p \<bind> tail" using norw by (auto simp: process_event_def Let_def tail_def [abs_def])
      show thesis
      proof (cases "pr_ids p = [] \<or> last (pr_ids p) < fixed_id e")
        case True
        then have "pr_ids ?p = [] \<or> last (pr_ids ?p) < fixed_id e" by simp
        then obtain q where q: "append_event e ?p = Some (Inr q)" "processor_ok q" "pr_last q = be_id e" "pr_offset q = be_offset e"
          "pr_ids q = pr_ids p @ [fixed_id e]" "live q = omap_put (fixed_id e) e (live p)"
          by (rule append_event_live [OF ok, unfolded live_p]) simp_all
        moreover have "apply_event e (live p) = omap_put (fixed_id e) e (live p)" using mem user by (auto simp: apply_event_def)
        ultimately show thesis using done_by [of q] user mem step by simp
      next
        case False
        then have "append_event e ?p = Some (Inl (Not_increasing (last (pr_ids p)) (fixed_id e) e))"
          using d by (simp add: append_event_def)
        then show thesis using refused step mem False by (simp add: tail_def not_less)
      qed
    qed
  qed
qed

lemma process_event_accepts:
  assumes "processor_ok p" "MIN_SIZE \<le> length (be_raw e)"
    and new: "has_flag Rewrite_flag e \<and> fixed_id e \<in> fst ` set (live p) \<or> (\<forall>i \<in> set (pr_ids p). half i < half (fixed_id e))"
  obtains p' where "process_event e p = Some (Inr (), p')" "processor_ok p'" "live p' = apply_event e (live p)"
      "pr_offset p' = be_offset e" "half ` set (pr_ids p') \<subseteq> half ` set (pr_ids p) \<union> {half (fixed_id e)}"
      "pr_last p' = (if be_type e <s 0 \<or> (has_flag Rewrite_flag e \<and> fixed_id e \<in> fst ` set (live p)) then pr_last p else be_id e)"
proof (cases rule: process_event_cases [OF assms(1,2)])
  case 1
  have "half (last (pr_ids p)) < half (fixed_id e)" using 1(2,4) new by auto
  moreover have "half (fixed_id e) \<le> half (last (pr_ids p))" using 1(3) by (simp add: word_le_nat_alt div_le_mono)
  ultimately show thesis by simp
next
  case 2
  then show thesis by (rule that)
qed

text \<open>for\_each passes the live events on, in the order of their identifiers.\<close>

lemma each_event_eq:
  "length ids = length es \<Longrightarrow> sorted_wrt (<) (case prev of None \<Rightarrow> ids | Some j \<Rightarrow> j # ids) \<Longrightarrow>
     each_event prev ids es = Some (map snd (filter (\<lambda>(i, _). i AND 1 = 0) (zip ids es)))"
proof (induction ids arbitrary: prev es)
  case (Cons i ids)
  then obtain e es' where es: "es = e # es'" by (cases es) auto
  have "sorted_wrt (<) (i # ids)" "case prev of None \<Rightarrow> True | Some j \<Rightarrow> j < i"
    using Cons.prems(2) by (auto split: option.splits)
  then show ?case using Cons.IH [of es' "Some i"] Cons.prems(1) es by simp
qed simp

lemma for_each_live: "processor_ok p \<Longrightarrow> for_each_event p = Some (map snd (live p))"
  using ids_sorted [of p]
  by (simp add: for_each_event_def each_event_eq live_def slots_def processor_ok_def)

text \<open>C15: the processor implements an ordered map: an event is refused, or changes the map of the live events as
  \<open>apply_event\<close> says, whether or not the vectors are compactified; the representation stays well formed and
  for\_each passes on the values of the map in order.\<close>

lemma processor_refines:
  assumes "processor_ok p" and "MIN_SIZE \<le> length (be_raw e)"
  shows "\<exists>r p'. process_event e p = Some (r, p') \<and> processor_ok p' \<and>
    live p' = (case r of Inl _ \<Rightarrow> live p | Inr _ \<Rightarrow> apply_event e (live p)) \<and>
    for_each_event p' = Some (map snd (live p'))"
proof (cases rule: process_event_cases [OF assms])
  case (1 err)
  moreover have "processor_ok (p\<lparr>pr_offset := be_offset e\<rparr>)" using assms(1) by (simp add: processor_ok_def slots_def)
  moreover have "live (p\<lparr>pr_offset := be_offset e\<rparr>) = live p" by (simp add: live_def slots_def)
  ultimately show ?thesis using for_each_live by fastforce
next
  case (2 p')
  then show ?thesis using for_each_live by fastforce
qed

definition sample_event :: binlog_event where
  "sample_event = new_binlog_event\<lparr>be_id := 1, be_type := 5, be_raw := replicate 32 0\<rparr>"

lemma processor_refines_witness:
  "\<exists>r p'. process_event sample_event new_processor = Some (r, p') \<and> processor_ok p' \<and>
    live p' = (case r of Inl _ \<Rightarrow> live new_processor | Inr _ \<Rightarrow> apply_event sample_event (live new_processor)) \<and>
    for_each_event p' = Some (map snd (live p'))"
  by (rule processor_refines) (simp_all add: sample_event_def size_defs)
end
