(* ===== verification/Td_Binlog.thy ===== *)
theory Td_Binlog
  imports Td_BinlogProcessor
begin

text \<open>
  The binlog: the reader and the class \<open>Binlog\<close> of \<open>tddb/td/db/binlog/Binlog.cpp\<close>, without encryption.

  A binlog has the bytes of its file and those that are written but not yet flushed.  A file is read to its end, or
  as far as was asked for: input and output errors, locks and clocks are left out, and whether the file for a new
  index can be opened is an argument.  The buffer for batches of events, which the code never creates, is in
  \<open>Td_BinlogProcessor\<close>.  As everywhere, \<open>None\<close> is a failed check or \<open>LOG(FATAL)\<close>, which leaves the file as it is;
  the ends that the code foresees for bad files are outcomes, as is the event that switches encryption on, where
  the model ends.
\<close>

subsection \<open>The reader\<close>

datatype reader_state = ReadLength | ReadEvent

record reader =
  rd_state :: reader_state
  rd_input :: bytes
  rd_size :: nat
  rd_offset :: int

definition new_reader :: reader where
  "new_reader = \<lparr>rd_state = ReadLength, rd_input = [], rd_size = 0, rd_offset = 0\<rparr>"

definition length_error :: "reader \<Rightarrow> binlog_error option" where
  "length_error r =
     (if rd_size r > MAX_SIZE then Some (Too_big_event (rd_size r))
      else if rd_size r < MIN_SIZE then Some (Too_small_event (rd_size r))
      else if rd_size r mod 4 \<noteq> 0 then Some (Bad_event_size (rd_size r) (rd_offset r))
      else None)"

text \<open>How much input is needed, zero when an event was read.\<close>

type_synonym read_result = "(binlog_error + nat) \<times> binlog_event \<times> reader"

definition read_event :: "(bytes \<Rightarrow> int32) \<Rightarrow> binlog_event \<Rightarrow> reader \<Rightarrow> read_result option" where
  "read_event crc e r =
     (if length (rd_input r) < rd_size r then Some (Inr (rd_size r), e, r)
      else do { e \<leftarrow> init_event (take (rd_size r) (rd_input r)) e;
                let r = r\<lparr>rd_input := drop (rd_size r) (rd_input r)\<rparr>;
                v \<leftarrow> validate crc e;
                (case v of
                   Inl err \<Rightarrow> Some (Inl err, e, r)
                 | Inr _ \<Rightarrow> let r = r\<lparr>rd_offset := rd_offset r + int (rd_size r), rd_state := ReadLength\<rparr>
                            in Some (Inr 0, e\<lparr>be_offset := rd_offset r\<rparr>, r)) })"

definition read_next :: "(bytes \<Rightarrow> int32) \<Rightarrow> binlog_event \<Rightarrow> reader \<Rightarrow> read_result option" where
  "read_next crc e r =
     (if rd_state r = ReadLength then
        if length (rd_input r) < 4 then Some (Inr 4, e, r)
        else do { (n, _) \<leftarrow> fetch_int (new_tl_parser (take 4 (rd_input r)));
                  let r = r\<lparr>rd_size := nat (sint n mod 2 ^ 64)\<rparr>;
                  (case length_error r of
                     Some err \<Rightarrow> Some (Inl err, e, r)
                   | None \<Rightarrow> read_event crc e (r\<lparr>rd_state := ReadEvent\<rparr>)) }
      else read_event crc e r)"

subsection \<open>The encryption event\<close>

record aes_event =
  ae_salt :: bytes
  ae_iv :: bytes
  ae_hash :: bytes

definition store_aes_event :: "aes_event tl_store" where
  "store_aes_event a s =
     do { s \<leftarrow> store_flags [] s; s \<leftarrow> store_str (ae_salt a) s; s \<leftarrow> store_str (ae_iv a) s; store_str (ae_hash a) s }"

definition parse_aes_event :: "aes_event tl_parse" where
  "parse_aes_event p =
     do { (_, p) \<leftarrow> parse_flags 0 p;
          (salt, p) \<leftarrow> parse_str p;
          (iv, p) \<leftarrow> parse_str p;
          (hash, p) \<leftarrow> parse_str p;
          Some (\<lparr>ae_salt = salt, ae_iv = iv, ae_hash = hash\<rparr>, p) }"

subsection \<open>The binlog\<close>

datatype binlog_state = Empty_state | Load_state | Reindex_state | Run_state

record binlog =
  bl_file :: bytes
  bl_buffer :: bytes
  bl_fd_size :: int
  bl_fd_events :: nat
  bl_pending :: "binlog_event list"
  bl_processor :: processor
  bl_last_event_id :: int64
  bl_state :: binlog_state

text \<open>
  \<open>Fatal\<close> ends the process and leaves the file with the given bytes; \<open>Encrypted\<close> is a correct encryption event.
\<close>

datatype 'a outcome = Value 'a | Fatal bytes | Encrypted aes_event

definition bind_outcome :: "'a outcome option \<Rightarrow> ('a \<Rightarrow> 'b outcome option) \<Rightarrow> 'b outcome option" where
  "bind_outcome m f =
     do { r \<leftarrow> m; case r of Value x \<Rightarrow> f x | Fatal file \<Rightarrow> Some (Fatal file) | Encrypted a \<Rightarrow> Some (Encrypted a) }"

lemma bind_outcome_simps [simp]:
  "bind_outcome None f = None" "bind_outcome (Some (Value x)) f = f x"
  "bind_outcome (Some (Fatal file)) f = Some (Fatal file)" "bind_outcome (Some (Encrypted a)) f = Some (Encrypted a)"
  by (simp_all add: bind_outcome_def)

definition write_event :: "(bytes \<Rightarrow> int32) \<Rightarrow> binlog_event \<Rightarrow> binlog \<Rightarrow> binlog option" where
  "write_event crc e b =
     (if bl_state b = Run_state \<or> bl_state b = Reindex_state then
        do { v \<leftarrow> validate crc e;
             (case v of Inl _ \<Rightarrow> None | Inr _ \<Rightarrow> Some (b\<lparr>bl_buffer := bl_buffer b @ be_raw e\<rparr>)) }
      else Some b)"

definition encryption_outcome :: "binlog_event \<Rightarrow> binlog \<Rightarrow> binlog outcome option" where
  "encryption_outcome e b =
     do { d \<leftarrow> get_data e;
          (a, p) \<leftarrow> parse_aes_event (new_tl_parser d);
          p \<leftarrow> fetch_end p;
          if tp_error p \<noteq> [] then Some (Fatal (bl_file b))
          else do { check (bl_state b \<noteq> Run_state); Some (Encrypted a) } }"

definition count_event :: "binlog_event \<Rightarrow> binlog \<Rightarrow> binlog" where
  "count_event e b = b\<lparr>bl_fd_events := bl_fd_events b + 1, bl_fd_size := bl_fd_size b + int (length (be_raw e))\<rparr>"

text \<open>The file is truncated only while it is loaded.\<close>

definition bl_do_event :: "(bytes \<Rightarrow> int32) \<Rightarrow> binlog_event \<Rightarrow> binlog \<Rightarrow> binlog outcome option" where
  "bl_do_event crc e b =
     do { b \<leftarrow> write_event crc e b;
          if be_type e <s 0 \<and> be_type e = AesCtrEncryption_type then encryption_outcome e b
          else if bl_state b \<noteq> Reindex_state then
            do { (r, p) \<leftarrow> process_event e (bl_processor b);
                 let b = b\<lparr>bl_processor := p\<rparr>;
                 (case r of
                    Inl _ \<Rightarrow>
                      if bl_state b = Load_state then
                        let file = take (nat (bl_fd_size b)) (bl_file b) in
                        if bl_fd_size b = int (length (bl_file b)) then Some (Value (b\<lparr>bl_file := file\<rparr>))
                        else Some (Fatal file)
                      else None
                  | Inr _ \<Rightarrow> Some (Value (count_event e b))) }
          else Some (Value (count_event e b)) }"

fun bl_do_events :: "(bytes \<Rightarrow> int32) \<Rightarrow> binlog_event list \<Rightarrow> binlog \<Rightarrow> binlog outcome option" where
  "bl_do_events crc [] b = Some (Value b)"
| "bl_do_events crc (e # es) b = bind_outcome (bl_do_event crc e b) (bl_do_events crc es)"

definition do_add_event :: "(bytes \<Rightarrow> int32) \<Rightarrow> binlog_event \<Rightarrow> binlog \<Rightarrow> binlog outcome option" where
  "do_add_event crc e b =
     (if has_flag Partial_flag e then Some (Value (b\<lparr>bl_pending := bl_pending b @ [clear_flag Partial_flag e]\<rparr>))
      else bind_outcome (bl_do_events crc (bl_pending b) b) (\<lambda>b. bl_do_event crc e (b\<lparr>bl_pending := []\<rparr>)))"

subsection \<open>Loading\<close>

text \<open>The argument \<open>left\<close> is what of the file is not yet in the input of the reader.\<close>

definition stop_loading :: "binlog_error \<Rightarrow> reader \<Rightarrow> binlog \<Rightarrow> binlog outcome" where
  "stop_loading err r b =
     (case err of
        Bad_event_size _ _ \<Rightarrow>
          let file = take (nat (rd_offset r)) (bl_file b) in
          if rd_offset r = int (length (bl_file b)) then Value (b\<lparr>bl_file := file\<rparr>) else Fatal file
      | _ \<Rightarrow> Value b)"

definition feed :: "nat \<Rightarrow> bytes \<Rightarrow> reader \<Rightarrow> reader" where
  "feed need left r = r\<lparr>rd_input := rd_input r @ take (max need 4096) left\<rparr>"

lemma init_event_size: "init_event raw e = Some e' \<Longrightarrow> MIN_SIZE \<le> length raw"
  by (auto simp: init_event_def split: option.splits bind_splits if_splits)

lemma read_event_input:
  assumes "read_event crc e r = Some (Inr n, e', r')"
  shows "n = 0 \<and> length (rd_input r') < length (rd_input r) \<or>
    0 < n \<and> rd_input r' = rd_input r \<and> length (rd_input r) < n"
proof (cases "length (rd_input r) < rd_size r")
  case True
  then show ?thesis using assms by (auto simp: read_event_def)
next
  case False
  obtain e1 where e1: "init_event (take (rd_size r) (rd_input r)) e = Some e1"
    using assms False by (auto simp: read_event_def split: bind_splits)
  have "MIN_SIZE \<le> rd_size r" using init_event_size [OF e1] False by simp
  then show ?thesis
    using assms False e1 by (auto simp: read_event_def size_defs Let_def split: bind_splits sum.splits)
qed

lemma read_next_input:
  assumes "read_next crc e r = Some (Inr n, e', r')"
  shows "n = 0 \<and> length (rd_input r') < length (rd_input r) \<or>
    0 < n \<and> rd_input r' = rd_input r \<and> length (rd_input r) < n"
proof -
  have *: "n = 0 \<and> length (rd_input r') < length (rd_input r) \<or> 0 < n \<and> rd_input r' = rd_input r \<and> length (rd_input r) < n"
    if "read_event crc e q = Some (Inr n, e', r')" "rd_input q = rd_input r" for q
    using read_event_input [OF that(1)] that(2) by simp
  show ?thesis using assms *
    by (auto simp: read_next_def Let_def split: if_splits bind_splits option.splits)
qed

function load_loop :: "(bytes \<Rightarrow> int32) \<Rightarrow> bytes \<Rightarrow> reader \<Rightarrow> binlog \<Rightarrow> binlog outcome option" where
  "load_loop crc left r b =
     (case read_next crc new_binlog_event r of
        None \<Rightarrow> None
      | Some (Inl err, _, r) \<Rightarrow> Some (stop_loading err r b)
      | Some (Inr need, e, r) \<Rightarrow>
          if need = 0 then
            (case do_add_event crc e b of
               None \<Rightarrow> None
             | Some (Value b) \<Rightarrow> load_loop crc left r b
             | Some (Fatal file) \<Rightarrow> Some (Fatal file)
             | Some (Encrypted a) \<Rightarrow> Some (Encrypted a))
          else if length (rd_input (feed need left r)) < need then Some (Value b)
          else load_loop crc (drop (max need 4096) left) (feed need left r) b)"
  by pat_completeness auto
termination
proof (relation "measure (\<lambda>(crc, left, r, b). 2 * length left + length (rd_input r))", goal_cases)
  case (2 crc left r)
  then show ?case using read_next_input [of crc new_binlog_event r] by fastforce
next
  case (3 crc left r b res s er need e q)
  then have "read_next crc new_binlog_event r = Some (Inr need, e, q)" "need \<noteq> 0" by simp_all
  then have "rd_input q = rd_input r" "length (rd_input r) < need" using read_next_input by fastforce+
  moreover have "need \<le> length (rd_input q) + min (length left) (max need 4096)" using 3 by (simp add: feed_def)
  ultimately show ?case by (simp add: feed_def)
qed simp

declare load_loop.simps [simp del]

definition new_binlog :: "bytes \<Rightarrow> binlog" where
  "new_binlog file = \<lparr>bl_file = file, bl_buffer = [], bl_fd_size = 0, bl_fd_events = 0, bl_pending = [],
     bl_processor = new_processor, bl_last_event_id = 0, bl_state = Load_state\<rparr>"

text \<open>The result has the events that are passed to the callback.\<close>

definition finish_load :: "binlog \<Rightarrow> (binlog_event list \<times> binlog) outcome option" where
  "finish_load b =
     do { let offset = pr_offset (bl_processor b);
          check (offset \<ge> 0);
          es \<leftarrow> for_each_event (bl_processor b);
          let b = (if offset \<noteq> int (length (bl_file b)) then b\<lparr>bl_file := take (nat offset) (bl_file b)\<rparr> else b);
          check (bl_fd_size b = offset);
          Some (Value (es, b\<lparr>bl_state := Run_state, bl_buffer := []\<rparr>)) }"

definition load_binlog :: "(bytes \<Rightarrow> int32) \<Rightarrow> bytes \<Rightarrow> (binlog_event list \<times> binlog) outcome option" where
  "load_binlog crc file = bind_outcome (load_loop crc file new_reader (new_binlog file)) finish_load"

text \<open>The files \<open>path\<close> and \<open>path.new\<close>.\<close>

record disk =
  d_path :: "bytes option"
  d_new :: "bytes option"

definition restore_path :: "disk \<Rightarrow> disk" where
  "restore_path d = (if d_path d = None then \<lparr>d_path = d_new d, d_new = None\<rparr> else d)"

definition bl_init :: "(bytes \<Rightarrow> int32) \<Rightarrow> disk \<Rightarrow> (binlog_event list \<times> binlog) outcome option" where
  "bl_init crc d =
     (let file = (case d_path (restore_path d) of None \<Rightarrow> [] | Some file \<Rightarrow> file) in
      bind_outcome (load_binlog crc file)
        (\<lambda>(es, b). Some (Value (es, b\<lparr>bl_last_event_id := pr_last (bl_processor b)\<rparr>))))"

subsection \<open>Writing\<close>

definition bl_flush :: "binlog \<Rightarrow> binlog" where
  "bl_flush b = (if bl_state b = Load_state then b else b\<lparr>bl_file := bl_file b @ bl_buffer b, bl_buffer := []\<rparr>)"

definition lazy_flush :: "binlog \<Rightarrow> binlog" where
  "lazy_flush b = (if length (bl_buffer b) > 2 ^ 14 then bl_flush b else b)"

definition need_reindex :: "binlog \<Rightarrow> bool" where
  "need_reindex b \<longleftrightarrow>
     (\<exists>(min_size, rate) \<in> set [(50000, 5), (100000, 4), (300000, 3), (500000, 2 :: int)].
        bl_fd_size b > min_size \<and> bl_fd_size b div rate > pr_size (bl_processor b))"

text \<open>The events go to a new file, which takes the place of the old one.\<close>

definition do_reindex :: "(bytes \<Rightarrow> int32) \<Rightarrow> bool \<Rightarrow> binlog \<Rightarrow> binlog outcome option" where
  "do_reindex crc opened b =
     do { check (bl_state b = Run_state);
          if \<not> opened then Some (Value b)
          else do { es \<leftarrow> for_each_event (bl_processor b);
                    bind_outcome
                      (bl_do_events crc es (b\<lparr>bl_state := Reindex_state, bl_file := [], bl_buffer := [],
                         bl_fd_size := 0, bl_fd_events := 0\<rparr>))
                      (\<lambda>b. let b = bl_flush b in
                           do { check (bl_fd_size b = int (length (bl_file b)));
                                Some (Value (b\<lparr>bl_state := Run_state\<rparr>)) }) } }"

definition add_event :: "(bytes \<Rightarrow> int32) \<Rightarrow> bool \<Rightarrow> binlog_event \<Rightarrow> binlog \<Rightarrow> binlog outcome option" where
  "add_event crc opened e b =
     do { check (unat (be_size e) mod 4 = 0);
          bind_outcome (do_add_event crc e b)
            (\<lambda>b. let b = lazy_flush b in
                 if bl_state b = Run_state \<and> need_reindex b then do_reindex crc opened b else Some (Value b)) }"

definition add_raw_event :: "(bytes \<Rightarrow> int32) \<Rightarrow> bool \<Rightarrow> bytes \<Rightarrow> binlog \<Rightarrow> binlog outcome option" where
  "add_raw_event crc opened raw b =
     do { e \<leftarrow> init_event raw new_binlog_event; add_event crc opened e b }"

definition next_event_id :: "binlog \<Rightarrow> int64 \<times> binlog" where
  "next_event_id b = (bl_last_event_id b + 1, b\<lparr>bl_last_event_id := bl_last_event_id b + 1\<rparr>)"

definition bl_add :: "(bytes \<Rightarrow> int32) \<Rightarrow> bool \<Rightarrow> int32 \<Rightarrow> storer \<Rightarrow> binlog \<Rightarrow> (int64 \<times> binlog) outcome option" where
  "bl_add crc opened typ sr b =
     do { let (event_id, b) = next_event_id b;
          raw \<leftarrow> create_raw crc event_id typ 0 sr;
          bind_outcome (add_raw_event crc opened raw b) (\<lambda>b. Some (Value (event_id, b))) }"

definition bl_rewrite ::
  "(bytes \<Rightarrow> int32) \<Rightarrow> bool \<Rightarrow> int64 \<Rightarrow> int32 \<Rightarrow> storer \<Rightarrow> binlog \<Rightarrow> (int64 \<times> binlog) outcome option" where
  "bl_rewrite crc opened event_id typ sr b =
     do { let (seq_no, b) = next_event_id b;
          raw \<leftarrow> create_raw crc event_id typ Rewrite_flag sr;
          bind_outcome (add_raw_event crc opened raw b) (\<lambda>b. Some (Value (seq_no, b))) }"

definition bl_erase :: "(bytes \<Rightarrow> int32) \<Rightarrow> bool \<Rightarrow> int64 \<Rightarrow> binlog \<Rightarrow> (int64 \<times> binlog) outcome option" where
  "bl_erase crc opened event_id b =
     do { let (seq_no, b) = next_event_id b;
          raw \<leftarrow> create_raw crc event_id Empty_type Rewrite_flag empty_storer;
          bind_outcome (add_raw_event crc opened raw b) (\<lambda>b. Some (Value (seq_no, b))) }"

fun bl_erase_all :: "(bytes \<Rightarrow> int32) \<Rightarrow> bool \<Rightarrow> int64 list \<Rightarrow> binlog \<Rightarrow> binlog outcome option" where
  "bl_erase_all crc opened [] b = Some (Value b)"
| "bl_erase_all crc opened (i # is) b =
     bind_outcome (bl_erase crc opened i b) (\<lambda>(_, b). bl_erase_all crc opened is b)"

definition bl_erase_batch :: "(bytes \<Rightarrow> int32) \<Rightarrow> bool \<Rightarrow> int64 list \<Rightarrow> binlog \<Rightarrow> (int64 \<times> binlog) outcome option" where
  "bl_erase_batch crc opened event_ids b =
     (if event_ids = [] then Some (Value (0, b))
      else bind_outcome (bl_erase_all crc opened event_ids b) (\<lambda>b'. Some (Value (bl_last_event_id b + 1, b'))))"

text \<open>What is on the disk at each moment of a reindex: the new file is written, the old one removed, the new one renamed.\<close>

definition reindex_disks :: "bytes \<Rightarrow> bytes \<Rightarrow> disk list" where
  "reindex_disks old new =
     map (\<lambda>n. \<lparr>d_path = Some old, d_new = Some (take n new)\<rparr>) [0..<length new + 1] @
     [\<lparr>d_path = None, d_new = Some new\<rparr>, \<lparr>d_path = Some new, d_new = None\<rparr>]"

subsection \<open>Reading events back\<close>

text \<open>Bytes that the reader takes for an event, and the event.\<close>

definition readable :: "(bytes \<Rightarrow> int32) \<Rightarrow> bytes \<Rightarrow> bool" where
  "readable crc raw \<longleftrightarrow> MIN_SIZE \<le> length raw \<and> length raw \<le> MAX_SIZE \<and> length raw mod 4 = 0 \<and>
     le_word (take 4 raw) = size_word (length raw) \<and> validate crc (parsed raw new_binlog_event) = Some (Inr ())"

definition event_at :: "bytes \<Rightarrow> int \<Rightarrow> binlog_event" where
  "event_at raw offset = (parsed raw new_binlog_event)\<lparr>be_offset := offset\<rparr>"

lemma size_word_int:
  assumes "n \<le> MAX_SIZE" shows "nat (sint (size_word n) mod 18446744073709551616) = n"
proof -
  have "sint (size_word n) = int n"
    using assms by (simp add: size_word_def MAX_SIZE_def sint_uint unsigned_of_nat take_bit_nat_eq_self signed_take_bit_int_eq_self)
  then show ?thesis using assms by (simp add: MAX_SIZE_def)
qed

lemma readable_init: "readable crc raw \<Longrightarrow> init_event raw e = Some (parsed raw e)"
  by (rule init_event_eq) (simp_all add: readable_def unat_size_word MAX_SIZE_def SIZE_MAX_def)

lemma fetch_int_four: "length bs = 4 \<Longrightarrow> \<exists>p. fetch_int (new_tl_parser bs) = Some (le_word bs, p)"
  using fetch_int_at [of 0 bs] by (simp add: parser_at_start SIZE_MAX_def)

text \<open>Whatever part of an event is in the input, the reader asks for more of it or gives the event.\<close>

lemma read_next_step:
  assumes raw: "readable crc raw"
    and st: "rd_state r = ReadEvent \<longrightarrow> rd_size r = length raw"
    and four: "4 \<le> length (rd_input r) \<longrightarrow> take 4 (rd_input r) = take 4 raw"
    and all: "length raw \<le> length (rd_input r) \<longrightarrow> take (length raw) (rd_input r) = raw"
  shows "read_next crc new_binlog_event r =
    (if rd_state r = ReadLength \<and> length (rd_input r) < 4 then Some (Inr 4, new_binlog_event, r)
     else if length (rd_input r) < length raw
       then Some (Inr (length raw), new_binlog_event, r\<lparr>rd_size := length raw, rd_state := ReadEvent\<rparr>)
     else Some (Inr 0, event_at raw (rd_offset r + int (length raw)),
       r\<lparr>rd_size := length raw, rd_input := drop (length raw) (rd_input r), rd_offset := rd_offset r + int (length raw),
         rd_state := ReadLength\<rparr>))"
proof -
  let ?q = "r\<lparr>rd_size := length raw, rd_state := ReadEvent\<rparr>"
  have ev: "read_event crc new_binlog_event ?q = (if length (rd_input r) < length raw
       then Some (Inr (length raw), new_binlog_event, ?q)
     else Some (Inr 0, event_at raw (rd_offset r + int (length raw)),
       r\<lparr>rd_size := length raw, rd_input := drop (length raw) (rd_input r), rd_offset := rd_offset r + int (length raw),
         rd_state := ReadLength\<rparr>))"
    using raw all readable_init [OF raw] by (simp add: read_event_def readable_def event_at_def Let_def)
  show ?thesis
  proof (cases "rd_state r")
    case ReadEvent
    then have "?q = r" using st by (cases r) simp
    then show ?thesis using ev ReadEvent by (simp add: read_next_def)
  next
    case ReadLength
    show ?thesis
    proof (cases "length (rd_input r) < 4")
      case False
      have "length (take 4 raw) = 4" using raw by (simp add: readable_def size_defs)
      then obtain p where "fetch_int (new_tl_parser (take 4 raw)) = Some (le_word (take 4 raw), p)"
        using fetch_int_four by blast
      moreover have "nat (sint (le_word (take 4 raw) :: int32) mod 2 ^ 64) = length raw"
        using raw by (simp add: readable_def size_word_int)
      moreover have "length_error (r\<lparr>rd_size := length raw\<rparr>) = None" using raw by (simp add: length_error_def readable_def)
      moreover have "r\<lparr>rd_size := length raw, rd_state := ReadEvent\<rparr> = ?q" by simp
      ultimately show ?thesis using ev ReadLength False four by (simp add: read_next_def Let_def)
    qed (use ReadLength in \<open>simp add: read_next_def\<close>)
  qed
qed

lemma load_loop_eq:
  "load_loop crc left r b =
     (case read_next crc new_binlog_event r of
        None \<Rightarrow> None
      | Some (Inl err, _, r) \<Rightarrow> Some (stop_loading err r b)
      | Some (Inr need, e, r) \<Rightarrow>
          if need = 0 then bind_outcome (do_add_event crc e b) (load_loop crc left r)
          else if length (rd_input (feed need left r)) < need then Some (Value b)
          else load_loop crc (drop (max need 4096) left) (feed need left r) b)"
  by (subst load_loop.simps) (auto simp: bind_outcome_def split: option.splits sum.splits outcome.splits)

lemma feed_simps [simp]:
  "rd_state (feed n left r) = rd_state r" "rd_size (feed n left r) = rd_size r" "rd_offset (feed n left r) = rd_offset r"
  "rd_input (feed n left r) @ drop (max n 4096) left = rd_input r @ left"
  by (simp_all add: feed_def)

lemma feed_enough:
  assumes "n \<le> length (rd_input r @ left)" shows "\<not> length (rd_input (feed n left r)) < n"
  using assms by (auto simp: feed_def)

lemma take_of_append: "xs @ ys = raw @ zs \<Longrightarrow> n \<le> length xs \<Longrightarrow> n \<le> length raw \<Longrightarrow> take n xs = take n raw"
  by (metis append_eq_append_conv_if take_all_iff take_append diff_is_0_eq take0 append_Nil2)

lemma load_loop_event:
  assumes raw: "readable crc raw" and data: "rd_input r @ left = raw @ tail"
    and st: "rd_state r = ReadEvent \<longrightarrow> rd_size r = length raw"
  shows "\<exists>left' r'. load_loop crc left r b =
      bind_outcome (do_add_event crc (event_at raw (rd_offset r + int (length raw))) b) (load_loop crc left' r') \<and>
    rd_input r' @ left' = tail \<and> rd_state r' = ReadLength \<and> rd_offset r' = rd_offset r + int (length raw)"
  using data st
proof (induction left arbitrary: r rule: measure_induct_rule [where f = length])
  case (less left)
  have long: "32 \<le> length raw" using raw by (simp add: readable_def size_defs)
  have four: "4 \<le> length (rd_input r) \<longrightarrow> take 4 (rd_input r) = take 4 raw"
    using take_of_append [OF less.prems(1)] long by simp
  have all: "length raw \<le> length (rd_input r) \<longrightarrow> take (length raw) (rd_input r) = raw"
    using take_of_append [OF less.prems(1)] by simp
  note step = read_next_step [OF raw less.prems(2) four all]
  have more: ?case if need: "0 < need" "need \<le> length raw" "length (rd_input r) < need"
    and q: "read_next crc new_binlog_event r = Some (Inr need, new_binlog_event, q)" "rd_input q = rd_input r" "rd_offset q = rd_offset r"
      "rd_state q = ReadEvent \<longrightarrow> rd_size q = length raw" for need q
  proof -
    let ?q = "feed need left q" let ?left = "drop (max need 4096) left"
    have "need \<le> length (rd_input q @ left)" using less.prems(1) q(2) need(2) by simp
    then have "\<not> length (rd_input ?q) < need" by (rule feed_enough)
    then have "load_loop crc left r b = load_loop crc ?left ?q b" using q(1) need by (subst load_loop_eq) simp
    moreover have "left \<noteq> []" using less.prems(1) need(2,3) by (metis append_Nil2 length_append le_add1 not_less order_trans)
    then have "length ?left < length left" using need(1) by simp
    moreover have "rd_input ?q @ ?left = raw @ tail" using less.prems(1) q(2) by simp
    ultimately show ?case using less.IH [of ?left ?q] q(3,4) by simp
  qed
  show ?case
  proof (cases "rd_state r = ReadLength \<and> length (rd_input r) < 4")
    case True
    then show ?thesis using more [of 4 r] step long by simp
  next
    case False
    show ?thesis
    proof (cases "length (rd_input r) < length raw")
      case True
      show ?thesis
        by (rule more [of "length raw" "r\<lparr>rd_size := length raw, rd_state := ReadEvent\<rparr>"])
          (use step False True long in auto)
    next
      case enough: False
      have "drop (length raw) (rd_input r) @ left = tail" using less.prems(1) enough
        by (metis append_eq_conv_conj drop_append diff_is_0_eq' drop0 not_less)
      then show ?thesis using step False enough by (subst load_loop_eq) fastforce
    qed
  qed
qed

text \<open>An event that is not there as a whole ends the load.\<close>

lemma load_loop_torn:
  assumes raw: "readable crc raw" and data: "rd_input r @ left = take k raw" and k: "k < length raw"
    and st: "rd_state r = ReadEvent \<longrightarrow> rd_size r = length raw"
  shows "load_loop crc left r b = Some (Value b)"
  using data st
proof (induction left arbitrary: r rule: measure_induct_rule [where f = length])
  case (less left)
  have len: "length (rd_input r) + length left = k" using less.prems(1) k
    by (metis length_append length_take min.absorb1 min.commute less_imp_le)
  have input: "rd_input r = take (length (rd_input r)) raw"
    using less.prems(1) len by (metis append_eq_conv_conj le_add1 min.absorb1 take_take)
  have four: "4 \<le> length (rd_input r) \<longrightarrow> take 4 (rd_input r) = take 4 raw"
    using input by (metis min.absorb1 take_take)
  have all: "length raw \<le> length (rd_input r) \<longrightarrow> take (length raw) (rd_input r) = raw" using len k by simp
  note step = read_next_step [OF raw less.prems(2) four all]
  have more: ?case if need: "0 < need" "length (rd_input r) < need"
    and q: "read_next crc new_binlog_event r = Some (Inr need, new_binlog_event, q)" "rd_input q = rd_input r"
      "rd_state q = ReadEvent \<longrightarrow> rd_size q = length raw" for need q
  proof (cases "length (rd_input (feed need left q)) < need")
    case True
    then show ?thesis using q(1) need by (subst load_loop_eq) simp
  next
    case False
    let ?q = "feed need left q" let ?left = "drop (max need 4096) left"
    have "load_loop crc left r b = load_loop crc ?left ?q b" using q(1) need False by (subst load_loop_eq) simp
    moreover have "left \<noteq> []" using False need q(2) by (auto simp: feed_def)
    then have "length ?left < length left" using need(1) by simp
    moreover have "rd_input ?q @ ?left = take k raw" using less.prems(1) q(2) by simp
    ultimately show ?thesis using less.IH [of ?left ?q] q(3) by simp
  qed
  show ?case
  proof (cases "rd_state r = ReadLength \<and> length (rd_input r) < 4")
    case True
    then show ?thesis using more [of 4 r] step by simp
  next
    case False
    have "length (rd_input r) < length raw" using len k by simp
    then show ?thesis
      by (intro more [of "length raw" "r\<lparr>rd_size := length raw, rd_state := ReadEvent\<rparr>"]) (use step False in auto)
  qed
qed

text \<open>The events of a log, and the loader on them: the sizes of the pieces in which the file is read do not matter.\<close>

fun events_at :: "int \<Rightarrow> bytes list \<Rightarrow> binlog_event list" where
  "events_at offset [] = []"
| "events_at offset (raw # raws) =
     event_at raw (offset + int (length raw)) # events_at (offset + int (length raw)) raws"

fun add_all :: "(bytes \<Rightarrow> int32) \<Rightarrow> binlog_event list \<Rightarrow> binlog \<Rightarrow> binlog outcome option" where
  "add_all crc [] b = Some (Value b)"
| "add_all crc (e # es) b = bind_outcome (do_add_event crc e b) (add_all crc es)"

text \<open>What may follow the last event.\<close>

definition torn :: "(bytes \<Rightarrow> int32) \<Rightarrow> bytes \<Rightarrow> bool" where
  "torn crc t \<longleftrightarrow> (\<exists>raw k. readable crc raw \<and> k < length raw \<and> t = take k raw)"

lemma bind_outcome_cong: "(\<And>x. f x = g x) \<Longrightarrow> bind_outcome m f = bind_outcome m g"
  by (metis ext)

lemma load_loop_log:
  assumes "\<forall>raw \<in> set raws. readable crc raw" "torn crc t" "rd_input r @ left = concat raws @ t" "rd_state r = ReadLength"
  shows "load_loop crc left r b = add_all crc (events_at (rd_offset r) raws) b"
  using assms
proof (induction raws arbitrary: left r b)
  case Nil
  then obtain raw k where "readable crc raw" "rd_input r @ left = take k raw" "k < length raw" by (auto simp: torn_def)
  then show ?case using load_loop_torn [of crc raw r left k] Nil.prems(4) by simp
next
  case (Cons raw raws)
  obtain left' r' where *: "load_loop crc left r b =
      bind_outcome (do_add_event crc (event_at raw (rd_offset r + int (length raw))) b) (load_loop crc left' r')"
    "rd_input r' @ left' = concat raws @ t" "rd_state r' = ReadLength" "rd_offset r' = rd_offset r + int (length raw)"
    using load_loop_event [of crc raw r left "concat raws @ t" b] Cons.prems by auto
  have "load_loop crc left' r' x = add_all crc (events_at (rd_offset r') raws) x" for x
    using Cons.IH [OF _ Cons.prems(2) *(2,3)] Cons.prems(1) by simp
  then show ?case using *(1,4) by (simp cong: bind_outcome_cong)
qed

lemma load_binlog_log:
  assumes "\<forall>raw \<in> set raws. readable crc raw" "torn crc t"
  shows "load_binlog crc (concat raws @ t) =
    bind_outcome (add_all crc (events_at 0 raws) (new_binlog (concat raws @ t))) finish_load"
  using load_loop_log [OF assms, of new_reader "concat raws @ t"] by (simp add: load_binlog_def new_reader_def)

subsection \<open>The events that the binlog writes\<close>

definition log_raw :: "(bytes \<Rightarrow> int32) \<Rightarrow> bytes \<Rightarrow> bool" where
  "log_raw crc raw \<longleftrightarrow> (\<exists>i typ flags data. raw = raw_of crc i typ flags data \<and>
     length data + 32 \<le> MAX_SIZE \<and> length data mod 4 = 0 \<and> 0 < unat i \<and> unat i < 2 ^ 63 \<and> (flags = 0 \<or> flags = Rewrite_flag) \<and>
     (\<not> typ <s 0 \<or> typ = Empty_type \<and> flags = Rewrite_flag))"

lemma event_at_raw_of:
  "event_at (raw_of crc i typ flags data) n = new_binlog_event\<lparr>be_offset := n, be_size := size_word (length data + 32), be_id := i,
     be_type := typ, be_flags := flags, be_extra := 0,
     be_crc32 := crc (take (28 + length data) (raw_of crc i typ flags data)), be_raw := raw_of crc i typ flags data\<rparr>"
  by (simp add: event_at_def parsed_raw_of new_binlog_event_def)

lemma flag_facts: "Rewrite_flag AND Partial_flag = 0" "Rewrite_flag AND Rewrite_flag \<noteq> 0" "\<not> (0 :: int32) <s 0"
  "Empty_type \<noteq> AesCtrEncryption_type" "Empty_type <s 0" "AesCtrEncryption_type <s 0"
  by (simp_all add: Rewrite_flag_def Partial_flag_def Empty_type_def AesCtrEncryption_type_def word_sless_alt)

lemma readable_raw_of:
  assumes "length data + 32 \<le> MAX_SIZE" "length data mod 4 = 0"
  shows "readable crc (raw_of crc i typ flags data)"
proof -
  have "length data + 32 < 2 ^ 32" using assms(1) by (simp add: MAX_SIZE_def)
  from valid_parsed [OF this] have "validate crc (parsed (raw_of crc i typ flags data) new_binlog_event) = Some (Inr ())"
    by (simp add: valid_event_def)
  then show ?thesis using assms by (simp add: readable_def raw_of_slices size_defs mod_add_eq [symmetric])
qed

lemma log_raw_readable: "log_raw crc raw \<Longrightarrow> readable crc raw"
  using readable_raw_of by (auto simp: log_raw_def)

lemma log_raw_event:
  assumes "log_raw crc raw"
  shows "\<not> has_flag Partial_flag (event_at raw n)" "be_type (event_at raw n) \<noteq> AesCtrEncryption_type"
    "validate crc (event_at raw n) = Some (Inr ())" "be_raw (event_at raw n) = raw" "unat (be_size (event_at raw n)) mod 4 = 0"
    "MIN_SIZE \<le> length raw"
    "be_type (event_at raw n) <s 0 \<Longrightarrow> be_type (event_at raw n) = Empty_type \<and> has_flag Rewrite_flag (event_at raw n)"
proof -
  obtain i ty flags data where raw: "raw = raw_of crc i ty flags data" "length data + 32 \<le> MAX_SIZE" "length data mod 4 = 0"
    "flags = 0 \<or> flags = Rewrite_flag" "\<not> ty <s 0 \<or> ty = Empty_type \<and> flags = Rewrite_flag"
    using assms by (auto simp: log_raw_def)
  show "\<not> has_flag Partial_flag (event_at raw n)" "be_type (event_at raw n) \<noteq> AesCtrEncryption_type"
    using raw(4,5) flag_facts by (auto simp: raw(1) event_at_raw_of has_flag_def)
  have "length data + 32 < 2 ^ 32" using raw(2) by (simp add: MAX_SIZE_def)
  then show "validate crc (event_at raw n) = Some (Inr ())" "unat (be_size (event_at raw n)) mod 4 = 0"
    using valid_parsed [of data crc i ty flags "new_binlog_event\<lparr>be_offset := n\<rparr>"] raw(3)
    by (simp_all add: raw(1) event_at_def parsed_raw_of valid_event_def unat_size_word new_binlog_event_def mod_add_eq [symmetric])
  show "be_raw (event_at raw n) = raw" by (simp add: event_at_def parsed_def)
  show "MIN_SIZE \<le> length raw" by (simp add: raw(1) size_defs)
  show "be_type (event_at raw n) = Empty_type \<and> has_flag Rewrite_flag (event_at raw n)" if "be_type (event_at raw n) <s 0"
    using that raw(5) flag_facts(2) by (auto simp: raw(1) event_at_raw_of has_flag_def)
qed

lemma event_at_offset: "be_id (event_at raw n) = be_id (event_at raw m)" "be_type (event_at raw n) = be_type (event_at raw m)"
  "be_flags (event_at raw n) = be_flags (event_at raw m)" "be_offset (event_at raw n) = n" "be_raw (event_at raw n) = raw"
  by (simp_all add: event_at_def parsed_def)

text \<open>What is live as bytes, and what an event does to it.\<close>

definition view :: "processor \<Rightarrow> (int64 \<times> bytes) list" where
  "view p = map (\<lambda>(i, e). (i, be_raw e)) (live p)"

definition raw_id :: "bytes \<Rightarrow> int64" where "raw_id raw = fixed_id (event_at raw 0)"

definition apply_raw :: "bytes \<Rightarrow> (int64 \<times> bytes) list \<Rightarrow> (int64 \<times> bytes) list" where
  "apply_raw raw m =
     (if has_flag Rewrite_flag (event_at raw 0) \<and> raw_id raw \<in> fst ` set m
      then if be_type (event_at raw 0) = Empty_type then omap_del (raw_id raw) m else omap_put (raw_id raw) raw m
      else if be_type (event_at raw 0) <s 0 then m else omap_put (raw_id raw) raw m)"

lemma map_omap_put: "map (\<lambda>(k, v). (k, f v)) (omap_put k v m) = omap_put k (f v) (map (\<lambda>(k, v). (k, f v)) m)"
  by (induction k v m rule: omap_put.induct) auto

lemma map_omap_del: "map (\<lambda>(k, v). (k, f v)) (omap_del k m) = omap_del k (map (\<lambda>(k, v). (k, f v)) m)"
  by (induction m) (auto simp: omap_del_def)

lemma fst_view: "fst ` set (view p) = fst ` set (live p)"
  by (force simp: view_def)

lemma view_apply:
  assumes "live p' = apply_event (event_at raw n) (live p)"
  shows "view p' = apply_raw raw (view p)"
proof -
  have e: "has_flag f (event_at raw n) = has_flag f (event_at raw 0)" "fixed_id (event_at raw n) = raw_id raw"
    "be_type (event_at raw n) = be_type (event_at raw 0)" "be_raw (event_at raw n) = raw"
    "be_raw (clear_flag f (event_at raw n)) = raw" for f
    by (simp_all add: has_flag_def fixed_id_def raw_id_def clear_flag_def event_at_def parsed_def)
  have put: "map (\<lambda>(i, e). (i, be_raw e)) (omap_put k x (live p)) = omap_put k (be_raw x) (view p)" for k x
    unfolding view_def by (rule map_omap_put)
  have del: "map (\<lambda>(i, e). (i, be_raw e)) (omap_del k (live p)) = omap_del k (view p)" for k
    unfolding view_def by (rule map_omap_del)
  have "view p' = map (\<lambda>(i, e). (i, be_raw e)) (apply_event (event_at raw n) (live p))"
    by (simp only: assms view_def [of p'])
  also have "\<dots> = apply_raw raw (view p)"
    unfolding apply_event_def apply_raw_def e fst_view by (auto simp only: put del e view_def [symmetric] split: if_splits)
  finally show ?thesis .
qed

text \<open>The events of a log processed one after the other, all of them accepted.\<close>

fun replay :: "int \<Rightarrow> bytes list \<Rightarrow> processor \<Rightarrow> processor option" where
  "replay n [] p = Some p"
| "replay n (raw # raws) p =
     (case process_event (event_at raw (n + int (length raw))) p of
        Some (Inr _, p') \<Rightarrow> replay (n + int (length raw)) raws p'
      | _ \<Rightarrow> None)"

lemma replay_append: "replay n (raws @ raws') p =
    do { p \<leftarrow> replay n raws p; replay (n + int (length (concat raws))) raws' p }"
  by (induction raws arbitrary: n p) (auto split: option.splits sum.splits simp: add.assoc)

text \<open>Every identifier in the vectors is at most a bound.\<close>

definition ids_upto :: "nat \<Rightarrow> processor \<Rightarrow> bool" where
  "ids_upto n p \<longleftrightarrow> (\<forall>i \<in> set (pr_ids p). half i \<le> n)"

text \<open>An event that rewrites what is live, or has a new identifier.\<close>

definition fits :: "nat \<Rightarrow> bytes \<Rightarrow> (int64 \<times> bytes) list \<Rightarrow> bool" where
  "fits n raw m \<longleftrightarrow> has_flag Rewrite_flag (event_at raw 0) \<and> raw_id raw \<in> fst ` set m \<or>
     n < half (raw_id raw) \<and> \<not> be_type (event_at raw 0) <s 0"

definition raw_number :: "bytes \<Rightarrow> nat" where "raw_number raw = unat (be_id (event_at raw 0))"

lemma half_raw_id: "half (raw_id raw) \<le> raw_number raw"
proof -
  have "unat (raw_id raw) \<le> raw_number raw * 2"
    by (simp add: raw_id_def fixed_id_def raw_number_def unat_word_ariths(2))
  then show ?thesis by simp
qed

lemma half_log_raw:
  assumes "log_raw crc raw" shows "half (raw_id raw) = raw_number raw" "0 < raw_number raw"
proof -
  obtain i ty flags data where "raw = raw_of crc i ty flags data" "0 < unat i" "unat i < 2 ^ 63"
    using assms by (auto simp: log_raw_def)
  then show "half (raw_id raw) = raw_number raw" "0 < raw_number raw"
    by (simp_all add: raw_id_def raw_number_def fixed_id_def event_at_raw_of unat_word_ariths(2))
qed

lemma process_fitting:
  assumes p: "processor_ok p" "ids_upto (unat (pr_last p)) p" "unat (pr_last p) \<le> n"
    and raw: "MIN_SIZE \<le> length raw" "fits n raw (view p)"
  obtains p' where "process_event (event_at raw k) p = Some (Inr (), p')" "processor_ok p'" "live p' = apply_event (event_at raw k) (live p)"
    "pr_offset p' = k" "ids_upto (unat (pr_last p')) p'" "unat (pr_last p') \<le> max n (raw_number raw)"
proof -
  let ?e = "event_at raw k"
  have e: "has_flag Rewrite_flag ?e = has_flag Rewrite_flag (event_at raw 0)" "fixed_id ?e = raw_id raw" "be_raw ?e = raw"
    "be_offset ?e = k" "be_id ?e = be_id (event_at raw 0)" "be_type ?e = be_type (event_at raw 0)"
    by (simp_all add: has_flag_def fixed_id_def raw_id_def event_at_def parsed_def)
  let ?live = "has_flag Rewrite_flag (event_at raw 0) \<and> raw_id raw \<in> fst ` set (live p)"
  have old: "half i \<le> unat (pr_last p)" if "i \<in> set (pr_ids p)" for i using p(2) that by (simp add: ids_upto_def)
  have new: "has_flag Rewrite_flag ?e \<and> fixed_id ?e \<in> fst ` set (live p) \<or> (\<forall>i \<in> set (pr_ids p). half i < half (fixed_id ?e))"
    using old p(3) raw(2) by (fastforce simp: e fits_def fst_view)
  obtain p' where p': "process_event ?e p = Some (Inr (), p')" "processor_ok p'" "live p' = apply_event ?e (live p)"
      "pr_offset p' = be_offset ?e" "half ` set (pr_ids p') \<subseteq> half ` set (pr_ids p) \<union> {half (fixed_id ?e)}"
      "pr_last p' = (if be_type ?e <s 0 \<or> (has_flag Rewrite_flag ?e \<and> fixed_id ?e \<in> fst ` set (live p)) then pr_last p else be_id ?e)"
    by (rule process_event_accepts [OF p(1) _ new]) (use raw(1) e(3) in simp_all)
  have l: "pr_last p' = (if ?live then pr_last p else be_id (event_at raw 0))"
    using p'(6) raw(2) by (auto simp: e fits_def fst_view)
  have "half i \<le> unat (pr_last p')" if i: "i \<in> set (pr_ids p')" for i
  proof -
    have h: "half i \<in> half ` set (pr_ids p) \<or> half i = half (raw_id raw)" using i p'(5) by (auto simp: e)
    show ?thesis
    proof (cases ?live)
      case True
      then have "half (raw_id raw) \<in> half ` set (pr_ids p)" using set_live_ids [OF p(1)] by blast
      then show ?thesis using h old True by (auto simp: l)
    next
      case False
      then have "unat (pr_last p) < half (raw_id raw)" using raw(2) p(3) by (auto simp: fits_def fst_view)
      moreover have "half (raw_id raw) \<le> unat (pr_last p')" using half_raw_id [of raw] False by (auto simp: l raw_number_def)
      ultimately show ?thesis using h old by force
    qed
  qed
  then have "ids_upto (unat (pr_last p')) p'" by (simp add: ids_upto_def)
  moreover have "unat (pr_last p') \<le> max n (raw_number raw)" using l p(3) by (auto simp: raw_number_def)
  ultimately show thesis using that p'(1-4) by (simp add: e)
qed

subsection \<open>A log and the state it belongs to\<close>

text \<open>A live event, which comes from an event of the log that is not an erasure.\<close>

definition stored :: "(bytes \<Rightarrow> int32) \<Rightarrow> binlog_event \<Rightarrow> bool" where
  "stored crc e \<longleftrightarrow> (\<exists>raw n. log_raw crc raw \<and> \<not> be_type (event_at raw n) <s 0 \<and>
     (e = event_at raw n \<or> e = clear_flag Rewrite_flag (event_at raw n)))"

definition processor_of :: "(bytes \<Rightarrow> int32) \<Rightarrow> nat \<Rightarrow> (int64 \<times> bytes) list \<Rightarrow> processor \<Rightarrow> bool" where
  "processor_of crc n m p \<longleftrightarrow> processor_ok p \<and> view p = m \<and> ids_upto (unat (pr_last p)) p \<and> unat (pr_last p) \<le> n \<and>
     (\<forall>(i, e) \<in> set (live p). stored crc e)"

text \<open>What the events of a log make of the empty map, and that a processor reads each prefix of the log so.\<close>

definition log_map :: "bytes list \<Rightarrow> (int64 \<times> bytes) list" where
  "log_map raws = fold apply_raw raws []"

definition history :: "(bytes \<Rightarrow> int32) \<Rightarrow> bytes list \<Rightarrow> bool" where
  "history crc raws \<longleftrightarrow> (\<forall>raw \<in> set raws. log_raw crc raw) \<and>
     (\<forall>j. \<exists>n q. replay 0 (take j raws) new_processor = Some q \<and> processor_of crc n (log_map (take j raws)) q)"

text \<open>
  The binlog \<open>b\<close> runs, the events \<open>raws\<close> are in its file and its buffer, and the map of what is live is \<open>m\<close>, both for
  the processor of \<open>b\<close> and for one that reads the log afresh.
\<close>

definition logged :: "(bytes \<Rightarrow> int32) \<Rightarrow> nat \<Rightarrow> (int64 \<times> bytes) list \<Rightarrow> bytes list \<Rightarrow> binlog \<Rightarrow> bool" where
  "logged crc n m raws b \<longleftrightarrow> bl_state b = Run_state \<and> bl_pending b = [] \<and> bl_file b @ bl_buffer b = concat raws \<and>
     bl_fd_size b = int (length (concat raws)) \<and> processor_of crc n m (bl_processor b) \<and> history crc raws \<and> log_map raws = m \<and>
     (\<exists>q. replay 0 raws new_processor = Some q \<and> processor_of crc n m q)"

lemma stored_apply:
  assumes p: "\<forall>(i, e) \<in> set (live p). stored crc e" and raw: "log_raw crc raw"
    and p': "live p' = apply_event (event_at raw k) (live p)" and ok: "processor_ok p"
  shows "\<forall>(i, e) \<in> set (live p'). stored crc e"
proof -
  let ?e = "event_at raw k"
  have put: "b = x \<or> (a, b) \<in> set m" if "(a, b) \<in> set (omap_put j x m)"
    for j :: int64 and x and m :: "(int64 \<times> binlog_event) list" and a b
    using that by (induction j x m rule: omap_put.induct) (auto split: if_splits)
  have new: "\<not> be_type ?e <s 0 \<Longrightarrow> stored crc ?e" "\<not> be_type ?e <s 0 \<Longrightarrow> stored crc (clear_flag Rewrite_flag ?e)"
    using raw unfolding stored_def by blast+
  have neg: "be_type ?e <s 0 \<Longrightarrow> be_type ?e = Empty_type" using log_raw_event(7) [OF raw, of k] by simp
  show ?thesis
    unfolding p' apply_event_def using new neg p by (auto simp: omap_del_def dest: put)
qed

lemma processor_of_step:
  assumes p: "processor_of crc n m p" and raw: "log_raw crc raw" "fits n raw m" and N: "n \<le> N" "raw_number raw \<le> N"
  obtains p' where "process_event (event_at raw k) p = Some (Inr (), p')" "processor_of crc N (apply_raw raw m) p'" "pr_offset p' = k"
proof -
  have ok: "processor_ok p" "ids_upto (unat (pr_last p)) p" "unat (pr_last p) \<le> n" "view p = m" "\<forall>(i, e) \<in> set (live p). stored crc e"
    using p by (simp_all add: processor_of_def)
  obtain p' where p': "process_event (event_at raw k) p = Some (Inr (), p')" "processor_ok p'"
    "live p' = apply_event (event_at raw k) (live p)"
    "pr_offset p' = k" "ids_upto (unat (pr_last p')) p'" "unat (pr_last p') \<le> max n (raw_number raw)"
    by (rule process_fitting [OF ok(1-3) log_raw_event(6) [OF raw(1)] raw(2) [folded ok(4)]])
  have "view p' = apply_raw raw m" using view_apply [OF p'(3)] ok(4) by simp
  moreover have "\<forall>(i, e) \<in> set (live p'). stored crc e" by (rule stored_apply [OF ok(5) raw(1) p'(3) ok(1)])
  ultimately have "processor_of crc N (apply_raw raw m) p'" using p' N by (simp add: processor_of_def)
  then show thesis using that p'(1,4) by blast
qed

lemma processor_of_mono: "processor_of crc n m p \<Longrightarrow> n \<le> N \<Longrightarrow> processor_of crc N m p"
  by (auto simp: processor_of_def)

lemma run_event:
  assumes b: "bl_state b = Run_state" "bl_pending b = []" and raw: "log_raw crc raw"
    and p': "process_event (event_at raw k) (bl_processor b) = Some (Inr (), p')"
  shows "do_add_event crc (event_at raw k) b =
    Some (Value (count_event (event_at raw k) (b\<lparr>bl_buffer := bl_buffer b @ raw, bl_processor := p'\<rparr>)))"
  using b p' log_raw_event(1-5) [OF raw, of k]
  by (cases b) (simp add: do_add_event_def bl_do_event_def write_event_def count_event_def)

lemma load_event:
  assumes b: "bl_state b = Load_state" "bl_pending b = []" and raw: "log_raw crc raw"
    and p': "process_event (event_at raw k) (bl_processor b) = Some (Inr (), p')"
  shows "do_add_event crc (event_at raw k) b = Some (Value (count_event (event_at raw k) (b\<lparr>bl_processor := p'\<rparr>)))"
  using b p' log_raw_event(1-5) [OF raw, of k]
  by (cases b) (simp add: do_add_event_def bl_do_event_def write_event_def count_event_def)

lemma load_all:
  assumes "bl_state b = Load_state" "bl_pending b = []" "\<forall>raw \<in> set raws. log_raw crc raw"
    "replay k raws (bl_processor b) = Some q"
  shows "\<exists>n. add_all crc (events_at k raws) b =
    Some (Value (b\<lparr>bl_processor := q, bl_fd_size := bl_fd_size b + int (length (concat raws)), bl_fd_events := n\<rparr>))"
  using assms
proof (induction raws arbitrary: k b)
  case Nil
  then have "b\<lparr>bl_processor := q, bl_fd_size := bl_fd_size b, bl_fd_events := bl_fd_events b\<rparr> = b" by (cases b) simp
  then show ?case by (intro exI [of _ "bl_fd_events b"]) simp
next
  case (Cons raw raws)
  let ?k = "k + int (length raw)"
  obtain u p' where p': "process_event (event_at raw ?k) (bl_processor b) = Some (Inr u, p')" "replay ?k raws p' = Some q"
    using Cons.prems(4) by (auto split: option.splits sum.splits)
  let ?b = "count_event (event_at raw ?k) (b\<lparr>bl_processor := p'\<rparr>)"
  have "do_add_event crc (event_at raw ?k) b = Some (Value ?b)"
    using load_event [OF Cons.prems(1,2)] Cons.prems(3) p'(1) by simp
  moreover obtain n where "add_all crc (events_at ?k raws) ?b =
      Some (Value (?b\<lparr>bl_processor := q, bl_fd_size := bl_fd_size ?b + int (length (concat raws)), bl_fd_events := n\<rparr>))"
    using Cons.IH [of ?b ?k] Cons.prems p'(2) by (auto simp: count_event_def)
  ultimately show ?case
    by (intro exI [of _ n]) (simp add: count_event_def event_at_offset add.assoc)
qed

lemma process_event_offset: "process_event e p = Some (r, p') \<Longrightarrow> pr_offset p' = be_offset e"
  by (auto simp: process_event_def rewrite_event_def append_event_def compactify_def Let_def
      split: if_splits bind_splits sum.splits prod.splits)

lemma replay_offset: "replay k raws p = Some q \<Longrightarrow> pr_offset p = k \<Longrightarrow> pr_offset q = k + int (length (concat raws))"
proof (induction raws arbitrary: k p)
  case (Cons raw raws)
  let ?k = "k + int (length raw)"
  obtain u p' where p': "process_event (event_at raw ?k) p = Some (Inr u, p')" "replay ?k raws p' = Some q"
    using Cons.prems(1) by (auto split: option.splits sum.splits)
  then show ?case using Cons.IH [OF p'(2)] process_event_offset [OF p'(1)] by (simp add: event_at_offset)
qed simp

lemma load_replayed:
  assumes raws: "\<forall>raw \<in> set raws. log_raw crc raw" and t: "torn crc t"
    and q: "replay 0 raws new_processor = Some q" "processor_ok q"
  shows "\<exists>n. load_binlog crc (concat raws @ t) = Some (Value (map snd (live q),
    \<lparr>bl_file = concat raws, bl_buffer = [], bl_fd_size = int (length (concat raws)), bl_fd_events = n, bl_pending = [],
     bl_processor = q, bl_last_event_id = 0, bl_state = Run_state\<rparr>))"
proof -
  have readable: "\<forall>raw \<in> set raws. readable crc raw" using raws log_raw_readable by blast
  obtain n where "add_all crc (events_at 0 raws) (new_binlog (concat raws @ t)) = Some (Value ((new_binlog (concat raws @ t))
      \<lparr>bl_processor := q, bl_fd_size := bl_fd_size (new_binlog (concat raws @ t)) + int (length (concat raws)), bl_fd_events := n\<rparr>))"
    using load_all [of "new_binlog (concat raws @ t)" raws crc 0 q] raws q(1) by (auto simp: new_binlog_def)
  moreover have "pr_offset q = int (length (concat raws))"
    using replay_offset [OF q(1)] by (simp add: new_processor_def)
  ultimately show ?thesis
    unfolding load_binlog_log [OF readable t]
    by (intro exI [of _ n]) (simp add: finish_load_def for_each_live [OF q(2)] new_binlog_def Let_def)
qed

subsection \<open>Every operation keeps the log\<close>

lemma logged_append:
  assumes b: "logged crc n m raws b" and raw: "log_raw crc raw" "fits n raw m" and N: "n \<le> N" "raw_number raw \<le> N"
  obtains b' where "do_add_event crc (event_at raw k) b = Some (Value b')" "logged crc N (apply_raw raw m) (raws @ [raw]) b'"
    "bl_last_event_id b' = bl_last_event_id b" "bl_file b' = bl_file b"
proof -
  have st: "bl_state b = Run_state" "bl_pending b = []" and p: "processor_of crc n m (bl_processor b)"
    using b by (simp_all add: logged_def)
  have h: "history crc raws" "log_map raws = m" using b by (simp_all add: logged_def)
  obtain q where q: "replay 0 raws new_processor = Some q" "processor_of crc n m q"
    using b by (auto simp: logged_def)
  obtain p' where p': "process_event (event_at raw k) (bl_processor b) = Some (Inr (), p')" "processor_of crc N (apply_raw raw m) p'"
    by (rule processor_of_step [OF p raw N])
  obtain q' where q': "process_event (event_at raw (int (length (concat raws)) + int (length raw))) q = Some (Inr (), q')"
    "processor_of crc N (apply_raw raw m) q'"
    by (rule processor_of_step [OF q(2) raw N])
  have new: "replay 0 (raws @ [raw]) new_processor = Some q'" using q(1) q'(1) by (simp add: replay_append)
  have m: "log_map (raws @ [raw]) = apply_raw raw m" using h(2) by (simp add: log_map_def)
  have "\<exists>n q. replay 0 (take j (raws @ [raw])) new_processor = Some q \<and> processor_of crc n (log_map (take j (raws @ [raw]))) q" for j
  proof (cases "j \<le> length raws")
    case True
    then show ?thesis using h(1) by (simp add: history_def)
  next
    case False
    then have "take j (raws @ [raw]) = raws @ [raw]" by simp
    then show ?thesis using new q'(2) by (simp only: m) blast
  qed
  then have "history crc (raws @ [raw])" using h(1) raw(1) by (simp add: history_def)
  then have "logged crc N (apply_raw raw m) (raws @ [raw])
      (count_event (event_at raw k) (b\<lparr>bl_buffer := bl_buffer b @ raw, bl_processor := p'\<rparr>))"
    using b p'(2) m new q'(2) by (simp add: logged_def count_event_def event_at_offset)
  then show thesis using that run_event [OF st raw(1) p'(1)] by (simp add: count_event_def)
qed

lemma logged_flush: "logged crc n m raws b \<Longrightarrow> logged crc n m raws (bl_flush b)"
  by (simp add: logged_def bl_flush_def)

lemma logged_lazy_flush: "logged crc n m raws b \<Longrightarrow> logged crc n m raws (lazy_flush b)"
  by (simp add: lazy_flush_def logged_flush)

lemma logged_last_id: "logged crc n m raws b \<Longrightarrow> logged crc n m raws (b\<lparr>bl_last_event_id := i\<rparr>)"
  by (simp add: logged_def)

lemma validate_fields:
  assumes "be_raw e = be_raw e'" "be_size e = be_size e'" "be_crc32 e = be_crc32 e'" "validate crc e' = Some (Inr ())"
  shows "validate crc e = Some (Inr ())"
  using assms by (auto simp: validate_def Let_def split: bind_splits if_splits)

text \<open>Live events, written to a new log one after the other.\<close>

lemma stored_event:
  assumes "stored crc e"
  shows "log_raw crc (be_raw e)" "validate crc e = Some (Inr ())" "\<not> be_type (event_at (be_raw e) 0) <s 0" "be_type e \<noteq> AesCtrEncryption_type"
    "fixed_id e = raw_id (be_raw e)"
proof -
  obtain raw n where raw: "log_raw crc raw" "\<not> be_type (event_at raw n) <s 0"
    "e = event_at raw n \<or> e = clear_flag Rewrite_flag (event_at raw n)" using assms by (auto simp: stored_def)
  have f: "be_raw e = raw" "be_size e = be_size (event_at raw n)" "be_crc32 e = be_crc32 (event_at raw n)"
    "be_type e = be_type (event_at raw n)" "be_id e = be_id (event_at raw n)"
    using raw(3) by (auto simp: clear_flag_def event_at_offset)
  have valid: "validate crc (event_at raw n) = Some (Inr ())" by (rule log_raw_event(3) [OF raw(1)])
  show "log_raw crc (be_raw e)" using raw(1) f(1) by simp
  show "validate crc e = Some (Inr ())" by (rule validate_fields [OF _ f(2,3) valid]) (simp add: f(1) event_at_offset)
  show "\<not> be_type (event_at (be_raw e) 0) <s 0" using raw(2) f(1) by (simp add: event_at_def)
  show "be_type e \<noteq> AesCtrEncryption_type" using f(4) log_raw_event(2) [OF raw(1)] by simp
  show "fixed_id e = raw_id (be_raw e)" by (simp add: fixed_id_def raw_id_def f(1,5)) (simp add: event_at_def)
qed

lemma map_fst_view: "map fst (view p) = map fst (live p)"
  by (auto simp: view_def)

lemma reindex_events:
  assumes "\<forall>e \<in> set es. stored crc e" "bl_state b = Reindex_state"
  shows "bl_do_events crc es b = Some (Value (b\<lparr>bl_buffer := bl_buffer b @ concat (map be_raw es),
    bl_fd_size := bl_fd_size b + int (length (concat (map be_raw es))), bl_fd_events := bl_fd_events b + length es\<rparr>))"
  using assms
proof (induction es arbitrary: b)
  case (Cons e es)
  let ?b = "count_event e (b\<lparr>bl_buffer := bl_buffer b @ be_raw e\<rparr>)"
  have "bl_do_event crc e b = Some (Value ?b)"
    using stored_event(2,4) [of crc e] Cons.prems by (simp add: bl_do_event_def write_event_def)
  moreover have "bl_state ?b = Reindex_state" using Cons.prems by (simp add: count_event_def)
  ultimately show ?case using Cons.IH [of ?b] Cons.prems(1) by (simp add: count_event_def add.assoc)
qed simp

lemma processor_of_new: "processor_of crc n [] new_processor"
  by (simp add: processor_of_def view_def ids_upto_def) (simp add: new_processor_def live_def slots_def)

lemma replay_entries:
  assumes "omap xs" "\<forall>(i, raw) \<in> set xs. log_raw crc raw \<and> \<not> be_type (event_at raw 0) <s 0 \<and> i = raw_id raw"
  shows "\<exists>q. replay 0 (map snd xs) new_processor = Some q \<and>
    processor_of crc (if xs = [] then 0 else half (fst (last xs))) xs q \<and> log_map (map snd xs) = xs"
  using assms
proof (induction xs rule: rev_induct)
  case Nil
  then show ?case by (simp add: processor_of_new log_map_def)
next
  case (snoc x xs)
  obtain i raw where x: "x = (i, raw)" by (cases x)
  let ?n = "if xs = [] then 0 else half (fst (last xs))"
  obtain q where q: "replay 0 (map snd xs) new_processor = Some q" "processor_of crc ?n xs q" "log_map (map snd xs) = xs"
    using snoc by (auto simp: omap_append)
  have raw: "log_raw crc raw" "\<not> be_type (event_at raw 0) <s 0" "i = raw_id raw" using snoc.prems(2) x by auto
  have less: "\<forall>y \<in> set xs. fst y < i" using snoc.prems(1) x by (auto simp: omap_append)
  have "even (unat i)" using even_fixed_id [of "event_at raw 0"] unfolding even_iff by (simp add: raw(3) raw_id_def)
  then have lt: "?n < half i"
    using less half_less [of "fst (last xs)" i] half_log_raw [OF raw(1)] raw(3) by auto
  then have "fits ?n raw xs" using raw by (simp add: fits_def)
  moreover have "raw_number raw \<le> half i" using half_log_raw(1) [OF raw(1)] raw(3) by simp
  ultimately obtain q' where
    q': "process_event (event_at raw (int (length (concat (map snd xs))) + int (length raw))) q = Some (Inr (), q')"
      "processor_of crc (half i) (apply_raw raw xs) q'"
    using lt by (auto intro: processor_of_step [OF q(2) raw(1), where N = "half i"
          and k = "int (length (concat (map snd xs))) + int (length raw)"])
  have "i \<notin> fst ` set xs" using less by auto
  then have "apply_raw raw xs = xs @ [(i, raw)]"
    using raw omap_put_last [OF less] by (simp add: apply_raw_def)
  then show ?case using q(1,3) q' x by (simp add: replay_append log_map_def)
qed

lemma processor_of_keys:
  assumes "processor_of crc n m p" "k \<in> fst ` set m" shows "half k \<le> n"
proof -
  have "k \<in> fst ` set (view p)" using assms by (simp add: processor_of_def)
  then have "k \<in> set (pr_ids p)" using assms(1) set_live_ids [of p] by (simp add: fst_view processor_of_def)
  then show ?thesis using assms(1) by (fastforce simp: processor_of_def ids_upto_def)
qed

lemma logged_reindex:
  assumes b: "logged crc n m raws b"
  obtains b' raws' where "do_reindex crc opened b = Some (Value b')" "logged crc n m raws' b'"
    "bl_last_event_id b' = bl_last_event_id b" "opened \<Longrightarrow> bl_file b' = concat raws' \<and> bl_buffer b' = []"
proof (cases opened)
  case False
  then have "do_reindex crc opened b = Some (Value b)" using b by (simp add: do_reindex_def logged_def)
  then show thesis using that b False by blast
next
  case True
  let ?p = "bl_processor b" let ?es = "map snd (live ?p)" let ?raws = "map snd m"
  have p: "processor_of crc n m ?p" using b by (simp add: logged_def)
  then have ok: "processor_ok ?p" "view ?p = m" "\<forall>(i, e) \<in> set (live ?p). stored crc e" by (simp_all add: processor_of_def)
  have es: "\<forall>e \<in> set ?es. stored crc e" "map be_raw ?es = ?raws" using ok(2,3) by (auto simp: view_def)
  have m: "omap m" using omap_live [OF ok(1)] by (simp add: omap_def map_fst_view flip: ok(2))
  have entries: "\<forall>(i, raw) \<in> set m. log_raw crc raw \<and> \<not> be_type (event_at raw 0) <s 0 \<and> i = raw_id raw"
    using stored_event [of crc] ok(3) live_fixed [OF ok(1)] by (fastforce simp: view_def simp flip: ok(2))
  have "\<exists>n q. replay 0 (take j ?raws) new_processor = Some q \<and> processor_of crc n (log_map (take j ?raws)) q" for j
  proof -
    have "omap (take j m)" using m by (simp add: omap_def sorted_wrt_take flip: take_map)
    moreover have "\<forall>(i, raw) \<in> set (take j m). log_raw crc raw \<and> \<not> be_type (event_at raw 0) <s 0 \<and> i = raw_id raw"
      using entries set_take_subset [of j m] by blast
    ultimately show ?thesis using replay_entries [of "take j m" crc] by (auto simp: take_map)
  qed
  then have hist: "history crc ?raws" using entries by (auto simp: history_def)
  obtain q where q: "replay 0 ?raws new_processor = Some q" "processor_of crc (if m = [] then 0 else half (fst (last m))) m q"
    and map: "log_map ?raws = m"
    using replay_entries [OF m entries] by blast
  have "half (fst (last m)) \<le> n" if "m \<noteq> []"
    using processor_of_keys [OF p, of "fst (last m)"] that by simp
  then have q': "processor_of crc n m q" by (intro processor_of_mono [OF q(2)]) simp
  define b' where "b' = b\<lparr>bl_file := concat ?raws, bl_buffer := [], bl_fd_size := int (length (concat ?raws)),
    bl_fd_events := length ?es\<rparr>"
  have run: "bl_state b = Run_state" "bl_pending b = []" using b by (simp_all add: logged_def)
  have "do_reindex crc opened b = Some (Value b')"
    using True run reindex_events [OF es(1), of "b\<lparr>bl_state := Reindex_state, bl_file := [], bl_buffer := [],
                         bl_fd_size := 0, bl_fd_events := 0\<rparr>"] for_each_live [OF ok(1)] es(2)
    by (cases b) (simp add: do_reindex_def bl_flush_def b'_def Let_def)
  moreover have "logged crc n m ?raws b'"
    using run p hist map q(1) q' by (simp add: logged_def b'_def)
  ultimately show thesis using that by (simp add: b'_def)
qed

lemma logged_add_raw:
  assumes b: "logged crc n m raws b" and raw: "log_raw crc raw" "fits n raw m" and N: "n \<le> N" "raw_number raw \<le> N"
  obtains b' raws' where "add_raw_event crc opened raw b = Some (Value b')" "logged crc N (apply_raw raw m) raws' b'"
    "bl_last_event_id b' = bl_last_event_id b"
proof -
  let ?e = "event_at raw (- 1)"
  have "parsed raw new_binlog_event = ?e" by (simp add: event_at_def parsed_def new_binlog_event_def)
  then have init: "init_event raw new_binlog_event = Some ?e" using readable_init [OF log_raw_readable [OF raw(1)]] by simp
  obtain b1 where b1: "do_add_event crc ?e b = Some (Value b1)" "logged crc N (apply_raw raw m) (raws @ [raw]) b1"
    "bl_last_event_id b1 = bl_last_event_id b" by (rule logged_append [OF b raw N])
  let ?b2 = "lazy_flush b1"
  have b2: "logged crc N (apply_raw raw m) (raws @ [raw]) ?b2" by (rule logged_lazy_flush [OF b1(2)])
  have last: "bl_last_event_id ?b2 = bl_last_event_id b" using b1(3) by (simp add: lazy_flush_def bl_flush_def)
  have add: "add_raw_event crc opened raw b =
      (if need_reindex ?b2 then do_reindex crc opened ?b2 else Some (Value ?b2))"
    using init b1(1) log_raw_event(5) [OF raw(1)] b2 by (simp add: add_raw_event_def add_event_def Let_def logged_def)
  show thesis
  proof (cases "need_reindex ?b2")
    case True
    obtain b' raws' where "do_reindex crc opened ?b2 = Some (Value b')" "logged crc N (apply_raw raw m) raws' b'"
      "bl_last_event_id b' = bl_last_event_id ?b2" by (rule logged_reindex [OF b2])
    then show thesis using that add True last by simp
  next
    case False
    then show thesis using that [of ?b2] add b2 last by simp
  qed
qed

lemma logged_next_id:
  assumes "logged crc (unat (bl_last_event_id b)) m raws b" "unat (bl_last_event_id b) + 1 < 2 ^ 63"
  shows "logged crc (unat (bl_last_event_id b)) m raws (snd (next_event_id b))"
    "unat (fst (next_event_id b)) = unat (bl_last_event_id b) + 1"
    "bl_last_event_id (snd (next_event_id b)) = fst (next_event_id b)"
proof -
  have "unat (bl_last_event_id b) + unat (1 :: int64) < 2 ^ 64" using assms(2) by simp
  then show "unat (fst (next_event_id b)) = unat (bl_last_event_id b) + 1"
    by (simp add: next_event_id_def unat_word_ariths(1))
qed (use assms in \<open>simp_all add: next_event_id_def logged_last_id\<close>)

text \<open>One event more: the common part of add, rewrite and erase.\<close>

lemma logged_operation:
  assumes b: "logged crc (unat (bl_last_event_id b)) m raws b" and limit: "unat (bl_last_event_id b) + 1 < 2 ^ 63"
    and w: "writes sr data" "length data + 32 \<le> MAX_SIZE" "length data mod 4 = 0"
    and ty: "\<not> ty <s 0 \<or> ty = Empty_type \<and> flags = Rewrite_flag"
    and i: "flags = 0 \<and> i = bl_last_event_id b + 1 \<and> \<not> ty <s 0 \<or>
      flags = Rewrite_flag \<and> 0 < unat i \<and> unat i < 2 ^ 63 \<and> i * 2 \<in> fst ` set m"
  obtains b' raws' where "create_raw crc i ty flags sr = Some (raw_of crc i ty flags data)"
    "add_raw_event crc opened (raw_of crc i ty flags data) (snd (next_event_id b)) = Some (Value b')"
    "bl_last_event_id b' = bl_last_event_id b + 1"
    "logged crc (unat (bl_last_event_id b')) (apply_raw (raw_of crc i ty flags data) m) raws' b'"
proof -
  let ?raw = "raw_of crc i ty flags data" let ?b = "snd (next_event_id b)"
  note nb = logged_next_id [OF b limit]
  have len: "length data + 32 < 2 ^ 31" using w(2) by (simp add: MAX_SIZE_def)
  have last: "unat (bl_last_event_id b + 1) = unat (bl_last_event_id b) + 1" using nb(2) by (simp add: next_event_id_def)
  have log: "log_raw crc ?raw" unfolding log_raw_def
    using w(2,3) ty i limit last
    by (intro exI [of _ i] exI [of _ ty] exI [of _ flags] exI [of _ data]) auto
  have num: "raw_number ?raw = unat i" "raw_id ?raw = i * 2" "has_flag Rewrite_flag (event_at ?raw 0) \<longleftrightarrow> flags AND Rewrite_flag \<noteq> 0"
    "be_type (event_at ?raw 0) = ty"
    by (simp_all add: raw_number_def raw_id_def fixed_id_def has_flag_def event_at_raw_of)
  have half: "half (i * 2) = unat i" using half_log_raw(1) [OF log] by (simp add: num)
  have fit: "fits (unat (bl_last_event_id b)) ?raw m"
    using i flag_facts(2) half last by (auto simp: fits_def num)
  have "processor_of crc (unat (bl_last_event_id b)) m (bl_processor b)" using b by (simp add: logged_def)
  from processor_of_keys [OF this] have "unat i \<le> unat (bl_last_event_id b) + 1" using i half last by fastforce
  then have N: "raw_number ?raw \<le> unat (bl_last_event_id b + 1)" by (simp add: num last)
  obtain b' raws' where "add_raw_event crc opened ?raw ?b = Some (Value b')"
    "logged crc (unat (bl_last_event_id b + 1)) (apply_raw ?raw m) raws' b'" "bl_last_event_id b' = bl_last_event_id ?b"
    by (rule logged_add_raw [OF nb(1) log fit _ N]) (use last in simp)
  then show thesis using that [OF create_raw_eq [OF w(1) len]] by (simp add: next_event_id_def)
qed
end
