(* ===== verification/Td_BinlogSteps.thy ===== *)
theory Td_BinlogSteps
  imports Td_Binlog
begin

text \<open>
  The binlog as a whole: the states that its operations reach, and what a restart finds.

  The specification of the binlog is an ordered map from doubled identifiers to events: add and rewrite put, erase
  deletes.  Every operation on the vectors, the buffer and the file implements it, with the reindexing that may
  happen inside, and a load of the file gives it back; after a crash, a load gives the map that the complete events
  on the disk stand for.
\<close>

subsection \<open>Reachable states\<close>

text \<open>The data of an event that a reader accepts.\<close>

definition storable :: "storer \<Rightarrow> bytes \<Rightarrow> bool" where
  "storable sr data \<longleftrightarrow> writes sr data \<and> length data + 32 \<le> MAX_SIZE \<and> length data mod 4 = 0"

text \<open>What is passed to the callback, with the doubled identifiers.\<close>

definition delivered :: "binlog_event list \<Rightarrow> (int64 \<times> bytes) list" where
  "delivered es = map (\<lambda>e. (fixed_id e, be_raw e)) es"

inductive binlog_reachable :: "(bytes \<Rightarrow> int32) \<Rightarrow> (int64 \<times> bytes) list \<Rightarrow> binlog \<Rightarrow> bool" for crc where
  created: "bl_init crc \<lparr>d_path = None, d_new = None\<rparr> = Some (Value (es, b)) \<Longrightarrow> binlog_reachable crc [] b"
| added: "binlog_reachable crc m b \<Longrightarrow> storable sr data \<Longrightarrow> \<not> ty <s 0 \<Longrightarrow> unat (bl_last_event_id b) + 1 < 2 ^ 63 \<Longrightarrow>
    bl_add crc opened ty sr b = Some (Value (i, b')) \<Longrightarrow>
    binlog_reachable crc (omap_put (i * 2) (raw_of crc i ty 0 data) m) b'"
| rewritten: "binlog_reachable crc m b \<Longrightarrow> storable sr data \<Longrightarrow> \<not> ty <s 0 \<Longrightarrow> unat (bl_last_event_id b) + 1 < 2 ^ 63 \<Longrightarrow>
    0 < unat i \<Longrightarrow> unat i < 2 ^ 63 \<Longrightarrow> i * 2 \<in> fst ` set m \<Longrightarrow>
    bl_rewrite crc opened i ty sr b = Some (Value (seq_no, b')) \<Longrightarrow>
    binlog_reachable crc (omap_put (i * 2) (raw_of crc i ty Rewrite_flag data) m) b'"
| erased: "binlog_reachable crc m b \<Longrightarrow> unat (bl_last_event_id b) + 1 < 2 ^ 63 \<Longrightarrow>
    0 < unat i \<Longrightarrow> unat i < 2 ^ 63 \<Longrightarrow> i * 2 \<in> fst ` set m \<Longrightarrow>
    bl_erase crc opened i b = Some (Value (seq_no, b')) \<Longrightarrow> binlog_reachable crc (omap_del (i * 2) m) b'"
| flushed: "binlog_reachable crc m b \<Longrightarrow> binlog_reachable crc m (bl_flush b)"
| restarted: "binlog_reachable crc m b \<Longrightarrow>
    bl_init crc \<lparr>d_path = Some (take k (bl_file b @ bl_buffer b)), d_new = other\<rparr> = Some (Value (es, b')) \<Longrightarrow>
    binlog_reachable crc (delivered es) b'"

text \<open>The log of a reachable state.\<close>

definition log_of :: "(bytes \<Rightarrow> int32) \<Rightarrow> (int64 \<times> bytes) list \<Rightarrow> bytes list \<Rightarrow> binlog \<Rightarrow> bool" where
  "log_of crc m raws b \<longleftrightarrow> logged crc (unat (bl_last_event_id b)) m raws b"

subsection \<open>Loading\<close>

lemma torn_Nil: "torn crc []"
proof -
  have "readable crc (raw_of crc 1 0 0 [])" by (rule readable_raw_of) (simp_all add: MAX_SIZE_def)
  then show ?thesis by (force simp: torn_def intro: exI [of _ 0])
qed

text \<open>Any part of a log that begins where it begins: complete events, and a part of the next one.\<close>

lemma take_log:
  assumes "\<forall>raw \<in> set raws. readable crc raw"
  obtains j t where "take k (concat raws) = concat (take j raws) @ t" "torn crc t" "j \<le> length raws"
    "j < length raws \<longrightarrow> length t < length (raws ! j)"
  using assms
proof (induction raws arbitrary: k thesis)
  case Nil
  then show ?case using torn_Nil [of crc] by (auto intro: Nil(1) [of 0 "[]"])
next
  case (Cons raw raws)
  show ?case
  proof (cases "k < length raw")
    case True
    then have "torn crc (take k raw)" using Cons.prems(2) by (auto simp: torn_def)
    then show ?thesis using True by (intro Cons.prems(1) [of 0 "take k raw"]) simp_all
  next
    case False
    obtain j t where "take (k - length raw) (concat raws) = concat (take j raws) @ t" "torn crc t" "j \<le> length raws"
      "j < length raws \<longrightarrow> length t < length (raws ! j)"
      using Cons.IH [of "k - length raw"] Cons.prems(2) by auto
    then show ?thesis using False by (intro Cons.prems(1) [of "Suc j" t]) simp_all
  qed
qed

lemma fst_live: "processor_ok p \<Longrightarrow> map (\<lambda>e. (fixed_id e, be_raw e)) (map snd (live p)) = view p"
  using live_fixed by (fastforce simp: view_def)

lemma history_take: "history crc raws \<Longrightarrow> history crc (take j raws)"
  by (auto simp: history_def min_def dest: in_set_takeD)

lemma init_history:
  assumes h: "history crc raws" and t: "torn crc t"
  shows "\<exists>es b. bl_init crc \<lparr>d_path = Some (concat raws @ t), d_new = other\<rparr> = Some (Value (es, b)) \<and>
    delivered es = log_map raws \<and> log_of crc (delivered es) raws b \<and> bl_file b = concat raws \<and> bl_buffer b = [] \<and>
    (\<forall>e \<in> set es. stored crc e)"
proof -
  have raws: "\<forall>raw \<in> set raws. log_raw crc raw" using h by (simp add: history_def)
  obtain n q where q: "replay 0 raws new_processor = Some q" "processor_of crc n (log_map raws) q"
    using h by (metis history_def take_all_iff order_refl)
  then have ok: "processor_ok q" "view q = log_map raws" by (simp_all add: processor_of_def)
  obtain c where "load_binlog crc (concat raws @ t) = Some (Value (map snd (live q),
    \<lparr>bl_file = concat raws, bl_buffer = [], bl_fd_size = int (length (concat raws)), bl_fd_events = c, bl_pending = [],
     bl_processor = q, bl_last_event_id = 0, bl_state = Run_state\<rparr>))"
    using load_replayed [OF raws t q(1) ok(1)] by blast
  moreover have "delivered (map snd (live q)) = log_map raws" using fst_live [OF ok(1)] ok(2) by (simp only: delivered_def)
  moreover have "processor_of crc (unat (pr_last q)) (log_map raws) q" using q(2) by (simp add: processor_of_def)
  moreover have "\<forall>e \<in> set (map snd (live q)). stored crc e" using q(2) by (auto simp: processor_of_def)
  ultimately show ?thesis using h q(1)
    by (auto simp: bl_init_def restore_path_def log_of_def logged_def)
qed

text \<open>Any part of the file of a reachable state.\<close>

lemma init_prefix:
  assumes "history crc raws"
  obtains j es b where "bl_init crc \<lparr>d_path = Some (take k (concat raws)), d_new = other\<rparr> = Some (Value (es, b))"
    "delivered es = log_map (take j raws)" "log_of crc (delivered es) (take j raws) b" "bl_file b = concat (take j raws)"
    "bl_buffer b = []" "j \<le> length raws" "length (concat (take j raws)) \<le> k"
    "j < length raws \<longrightarrow> k < length (concat (take (Suc j) raws))"
proof -
  have "\<forall>raw \<in> set raws. readable crc raw" using assms log_raw_readable by (auto simp: history_def)
  then obtain j t where j: "take k (concat raws) = concat (take j raws) @ t" "torn crc t" "j \<le> length raws"
    "j < length raws \<longrightarrow> length t < length (raws ! j)" by (rule take_log)
  have len: "min k (length (concat raws)) = length (concat (take j raws)) + length t"
    using arg_cong [OF j(1), of length] by (simp add: min.commute)
  have "k < length (concat (take (Suc j) raws))" if "j < length raws"
  proof -
    have "length (concat (take (Suc j) raws)) = length (concat (take j raws)) + length (raws ! j)"
      using that by (simp add: take_Suc_conv_app_nth)
    moreover have "length (concat (take (Suc j) raws)) \<le> length (concat raws)"
      by (metis append_take_drop_id concat_append le_add1 length_append)
    ultimately have "min k (length (concat raws)) < length (concat (take (Suc j) raws))" "length (concat (take (Suc j) raws)) \<le> length (concat raws)"
      using len j(4) that by linarith+
    then show ?thesis by linarith
  qed
  moreover have "length (concat (take j raws)) \<le> k" using len by simp
  moreover obtain es b where "bl_init crc \<lparr>d_path = Some (concat (take j raws) @ t), d_new = other\<rparr> = Some (Value (es, b))"
    "delivered es = log_map (take j raws)" "log_of crc (delivered es) (take j raws) b" "bl_file b = concat (take j raws)"
    "bl_buffer b = []" using init_history [OF history_take [OF assms] j(2)] by blast
  ultimately show thesis using that [of es b j] j(1,3) by simp
qed

subsection \<open>Every reachable state has its log\<close>

lemma delivered_log: "processor_ok p \<Longrightarrow> delivered (map snd (live p)) = view p"
  unfolding delivered_def by (rule fst_live)

lemma start_log:
  "\<exists>es b. bl_init crc \<lparr>d_path = None, d_new = None\<rparr> = Some (Value (es, b)) \<and> es = [] \<and> log_of crc [] [] b \<and> bl_file b = []"
proof -
  have "history crc []" by (auto simp: history_def log_map_def intro: processor_of_new)
  from init_history [OF this torn_Nil, of None] show ?thesis
    by (auto simp: bl_init_def restore_path_def delivered_def log_map_def)
qed

lemma apply_raw_add:
  assumes "\<not> ty <s 0"
  shows "apply_raw (raw_of crc i ty 0 data) m = omap_put (i * 2) (raw_of crc i ty 0 data) m"
  using assms by (simp add: apply_raw_def has_flag_def raw_id_def fixed_id_def event_at_raw_of)

lemma apply_raw_rewrite:
  assumes "\<not> ty <s 0" "i * 2 \<in> fst ` set m"
  shows "apply_raw (raw_of crc i ty Rewrite_flag data) m = omap_put (i * 2) (raw_of crc i ty Rewrite_flag data) m"
  using assms flag_facts(5) by (auto simp: apply_raw_def raw_id_def fixed_id_def event_at_raw_of)

lemma apply_raw_erase:
  assumes "i * 2 \<in> fst ` set m"
  shows "apply_raw (raw_of crc i Empty_type Rewrite_flag data) m = omap_del (i * 2) m"
  using assms flag_facts(2) by (auto simp: apply_raw_def has_flag_def raw_id_def fixed_id_def event_at_raw_of)

lemma log_add:
  assumes "log_of crc m raws b" "storable sr data" "\<not> ty <s 0" "unat (bl_last_event_id b) + 1 < 2 ^ 63"
  obtains b' raws' where "bl_add crc opened ty sr b = Some (Value (bl_last_event_id b + 1, b'))"
    "bl_last_event_id b' = bl_last_event_id b + 1"
    "log_of crc (omap_put ((bl_last_event_id b + 1) * 2) (raw_of crc (bl_last_event_id b + 1) ty 0 data) m) raws' b'"
proof -
  let ?i = "bl_last_event_id b + 1"
  have w: "writes sr data" "length data + 32 \<le> MAX_SIZE" "length data mod 4 = 0" using assms(2) by (simp_all add: storable_def)
  obtain b' raws' where "create_raw crc ?i ty 0 sr = Some (raw_of crc ?i ty 0 data)"
    "add_raw_event crc opened (raw_of crc ?i ty 0 data) (snd (next_event_id b)) = Some (Value b')"
    "bl_last_event_id b' = ?i"
    "logged crc (unat (bl_last_event_id b')) (apply_raw (raw_of crc ?i ty 0 data) m) raws' b'"
    by (rule logged_operation [OF assms(1) [unfolded log_of_def] assms(4) w, where ty = ty and flags = 0 and i = ?i and opened = opened])
      (use assms(3) in auto)
  then show thesis using that apply_raw_add [OF assms(3)] by (simp add: bl_add_def next_event_id_def log_of_def)
qed

lemma log_rewrite:
  assumes "log_of crc m raws b" "storable sr data" "\<not> ty <s 0" "unat (bl_last_event_id b) + 1 < 2 ^ 63"
    "0 < unat i" "unat i < 2 ^ 63" "i * 2 \<in> fst ` set m"
  obtains b' raws' where "bl_rewrite crc opened i ty sr b = Some (Value (bl_last_event_id b + 1, b'))"
    "bl_last_event_id b' = bl_last_event_id b + 1"
    "log_of crc (omap_put (i * 2) (raw_of crc i ty Rewrite_flag data) m) raws' b'"
proof -
  have w: "writes sr data" "length data + 32 \<le> MAX_SIZE" "length data mod 4 = 0" using assms(2) by (simp_all add: storable_def)
  obtain b' raws' where "create_raw crc i ty Rewrite_flag sr = Some (raw_of crc i ty Rewrite_flag data)"
    "add_raw_event crc opened (raw_of crc i ty Rewrite_flag data) (snd (next_event_id b)) = Some (Value b')"
    "bl_last_event_id b' = bl_last_event_id b + 1"
    "logged crc (unat (bl_last_event_id b')) (apply_raw (raw_of crc i ty Rewrite_flag data) m) raws' b'"
    by (rule logged_operation [OF assms(1) [unfolded log_of_def] assms(4) w, where ty = ty and flags = Rewrite_flag and i = i and opened = opened])
      (use assms(3,5-7) in auto)
  then show thesis using that apply_raw_rewrite [OF assms(3,7)] by (simp add: bl_rewrite_def next_event_id_def log_of_def)
qed

lemma log_erase:
  assumes "log_of crc m raws b" "unat (bl_last_event_id b) + 1 < 2 ^ 63" "0 < unat i" "unat i < 2 ^ 63" "i * 2 \<in> fst ` set m"
  obtains b' raws' where "bl_erase crc opened i b = Some (Value (bl_last_event_id b + 1, b'))"
    "bl_last_event_id b' = bl_last_event_id b + 1" "log_of crc (omap_del (i * 2) m) raws' b'"
proof -
  obtain b' raws' where "create_raw crc i Empty_type Rewrite_flag empty_storer = Some (raw_of crc i Empty_type Rewrite_flag [])"
    "add_raw_event crc opened (raw_of crc i Empty_type Rewrite_flag []) (snd (next_event_id b)) = Some (Value b')"
    "bl_last_event_id b' = bl_last_event_id b + 1"
    "logged crc (unat (bl_last_event_id b')) (apply_raw (raw_of crc i Empty_type Rewrite_flag []) m) raws' b'"
    by (rule logged_operation [OF assms(1) [unfolded log_of_def] assms(2) writes_empty,
          where ty = Empty_type and flags = Rewrite_flag and i = i and opened = opened])
      (use assms(3-5) in \<open>auto simp: MAX_SIZE_def\<close>)
  then show thesis using that apply_raw_erase [OF assms(5)] by (simp add: bl_erase_def next_event_id_def log_of_def)
qed

lemma reachable_log: "binlog_reachable crc m b \<Longrightarrow> \<exists>raws. log_of crc m raws b"
proof (induction rule: binlog_reachable.induct)
  case (created es b)
  then show ?case using start_log [of crc] by auto
next
  case (added m b sr data ty opened i b')
  obtain raws where "log_of crc m raws b" using added.IH by blast
  then show ?case by (rule log_add [OF _ added.hyps(2-4), where opened = opened]) (use added.hyps(5) in auto)
next
  case (rewritten m b sr data ty i opened seq_no b')
  obtain raws where "log_of crc m raws b" using rewritten.IH by blast
  then show ?case by (rule log_rewrite [OF _ rewritten.hyps(2-7), where opened = opened]) (use rewritten.hyps(8) in auto)
next
  case (erased m b i opened seq_no b')
  obtain raws where "log_of crc m raws b" using erased.IH by blast
  then show ?case by (rule log_erase [OF _ erased.hyps(2-5), where opened = opened]) (use erased.hyps(6) in auto)
next
  case (flushed m b)
  moreover have "bl_last_event_id (bl_flush b) = bl_last_event_id b" by (simp add: bl_flush_def)
  ultimately show ?case using logged_flush by (fastforce simp: log_of_def)
next
  case (restarted m b k other es b')
  obtain raws where "logged crc (unat (bl_last_event_id b)) m raws b" using restarted.IH by (auto simp: log_of_def)
  then have raws: "history crc raws" "bl_file b @ bl_buffer b = concat raws" by (simp_all add: logged_def)
  show ?case
    by (rule init_prefix [OF raws(1), of k other]) (use restarted.hyps(2) raws(2) in auto)
qed

text \<open>A state with one event, at which the properties apply.\<close>

lemma fresh_binlog:
  "bl_init crc \<lparr>d_path = None, d_new = None\<rparr> = Some (Value ([], (new_binlog [])\<lparr>bl_state := Run_state\<rparr>))"
proof -
  have "load_loop crc [] new_reader (new_binlog []) = Some (Value (new_binlog []))"
    by (subst load_loop_eq) (simp add: read_next_def new_reader_def feed_def)
  then show ?thesis
    by (simp add: bl_init_def restore_path_def load_binlog_def finish_load_def for_each_event_def Let_def new_binlog_def new_processor_def)
qed

abbreviation sample_map :: "(int64 \<times> bytes) list" where
  "sample_map \<equiv> [(2, raw_of (\<lambda>_. 0) 1 0 0 [])]"

lemma storable_empty: "storable (slice_storer []) []"
  using writes_slice [of "[]"] by (simp add: storable_def MAX_SIZE_def)

lemma sample_log_reachable:
  obtains b where "binlog_reachable (\<lambda>_. 0) sample_map b" "bl_last_event_id b = 1"
proof -
  let ?b = "(new_binlog [])\<lparr>bl_state := Run_state\<rparr>"
  have r: "binlog_reachable (\<lambda>_. 0) [] ?b" by (rule created [OF fresh_binlog])
  have last: "bl_last_event_id ?b = 0" by (simp add: new_binlog_def)
  obtain raws where raws: "log_of (\<lambda>_. 0) [] raws ?b" using reachable_log [OF r] by blast
  obtain b' where b': "bl_add (\<lambda>_. 0) True 0 (slice_storer []) ?b = Some (Value (1, b'))" "bl_last_event_id b' = 1"
    by (rule log_add [OF raws storable_empty, of 0 True]) (simp_all add: last)
  have "binlog_reachable (\<lambda>_. 0) (omap_put (1 * 2) (raw_of (\<lambda>_. 0) 1 0 0 []) []) b'"
    by (rule added [OF r storable_empty _ _ b'(1)]) (simp_all add: last)
  then show thesis using that b'(2) by simp
qed

subsection \<open>Properties\<close>

text \<open>C1: the binlog implements an ordered map from identifiers to events: in every reachable state, whatever was
  rewritten, erased, reindexed, flushed or restarted before, reading the file with what is still in the buffer
  delivers exactly the map, in order, and keeps the file.\<close>

lemma reload_delivers:
  assumes "binlog_reachable crc m b"
  shows "\<exists>es b'. bl_init crc \<lparr>d_path = Some (bl_file b @ bl_buffer b), d_new = other\<rparr> = Some (Value (es, b')) \<and>
    delivered es = m \<and> bl_file b' = bl_file b @ bl_buffer b"
proof -
  obtain raws where "log_of crc m raws b" using reachable_log [OF assms] by blast
  then have raws: "history crc raws" "bl_file b @ bl_buffer b = concat raws" "log_map raws = m"
    by (simp_all add: log_of_def logged_def)
  then show ?thesis using init_history [OF raws(1) torn_Nil, of other] by auto
qed

lemma reload_delivers_witness:
  "\<exists>b. binlog_reachable (\<lambda>_. 0) sample_map b \<and>
    (\<exists>es b'. bl_init (\<lambda>_. 0) \<lparr>d_path = Some (bl_file b @ bl_buffer b), d_new = None\<rparr> = Some (Value (es, b')) \<and>
      delivered es = sample_map \<and> bl_file b' = bl_file b @ bl_buffer b)"
proof -
  obtain b where b: "binlog_reachable (\<lambda>_. 0) sample_map b" by (rule sample_log_reachable)
  show ?thesis using b reload_delivers [OF b, of None] by blast
qed

text \<open>C2: after a crash that leaves any number of the bytes written, a restart succeeds, delivers the map that the
  complete events on the disk make, and cuts the file behind the last of them.\<close>

lemma crash_recovery:
  assumes "binlog_reachable crc m b"
  shows "\<exists>raws. bl_file b @ bl_buffer b = concat raws \<and> log_map raws = m \<and>
    (\<forall>k. \<exists>j es b'. bl_init crc \<lparr>d_path = Some (take k (bl_file b @ bl_buffer b)), d_new = other\<rparr> = Some (Value (es, b')) \<and>
      delivered es = log_map (take j raws) \<and> bl_file b' = concat (take j raws) \<and>
      length (concat (take j raws)) \<le> k \<and> (j < length raws \<longrightarrow> k < length (concat (take (Suc j) raws))))"
proof -
  obtain raws where "log_of crc m raws b" using reachable_log [OF assms] by blast
  then have raws: "history crc raws" "bl_file b @ bl_buffer b = concat raws" "log_map raws = m"
    by (simp_all add: log_of_def logged_def)
  have "\<exists>j es b'. bl_init crc \<lparr>d_path = Some (take k (concat raws)), d_new = other\<rparr> = Some (Value (es, b')) \<and>
      delivered es = log_map (take j raws) \<and> bl_file b' = concat (take j raws) \<and>
      length (concat (take j raws)) \<le> k \<and> (j < length raws \<longrightarrow> k < length (concat (take (Suc j) raws)))" for k
    by (rule init_prefix [OF raws(1), of k other]) blast
  then show ?thesis using raws(2,3) by auto
qed

lemma crash_recovery_witness:
  "\<exists>b. binlog_reachable (\<lambda>_. 0) sample_map b \<and>
    (\<exists>raws. bl_file b @ bl_buffer b = concat raws \<and> log_map raws = sample_map \<and>
    (\<forall>k. \<exists>j es b'. bl_init (\<lambda>_. 0) \<lparr>d_path = Some (take k (bl_file b @ bl_buffer b)), d_new = None\<rparr> = Some (Value (es, b')) \<and>
      delivered es = log_map (take j raws) \<and> bl_file b' = concat (take j raws) \<and>
      length (concat (take j raws)) \<le> k \<and> (j < length raws \<longrightarrow> k < length (concat (take (Suc j) raws)))))"
proof -
  obtain b where b: "binlog_reachable (\<lambda>_. 0) sample_map b" by (rule sample_log_reachable)
  show ?thesis using b crash_recovery [OF b, of None] by blast
qed



text \<open>C18: a reindex succeeds, and a restart at any moment of it finds the old file, or the new one with the same map:
  while the new file is written, after the old one is removed, and after the new one is renamed.\<close>

lemma reindex_crash_safe:
  assumes "binlog_reachable crc m b"
  shows "\<exists>b'. do_reindex crc True b = Some (Value b') \<and>
    list_all (\<lambda>d. bl_init crc d = bl_init crc \<lparr>d_path = Some (bl_file b), d_new = None\<rparr> \<or>
      (\<exists>es c. bl_init crc d = Some (Value (es, c)) \<and> delivered es = m))
      (reindex_disks (bl_file b) (bl_file b'))"
proof -
  obtain raws where "log_of crc m raws b" using reachable_log [OF assms] by blast
  then obtain b' raws' where b': "do_reindex crc True b = Some (Value b')" "logged crc (unat (bl_last_event_id b)) m raws' b'"
    "bl_file b' = concat raws' \<and> bl_buffer b' = []" unfolding log_of_def by (rule logged_reindex [where opened = True]) simp_all
  then have raws': "history crc raws'" "log_map raws' = m" by (simp_all add: logged_def)
  have new: "\<exists>es c. bl_init crc \<lparr>d_path = Some (bl_file b'), d_new = other\<rparr> = Some (Value (es, c)) \<and> delivered es = m" for other
    using init_history [OF raws'(1) torn_Nil, of other] raws'(2) b'(3) by auto
  have "bl_init crc \<lparr>d_path = None, d_new = Some (bl_file b')\<rparr> = bl_init crc \<lparr>d_path = Some (bl_file b'), d_new = None\<rparr>"
    "bl_init crc \<lparr>d_path = Some f, d_new = x\<rparr> = bl_init crc \<lparr>d_path = Some f, d_new = None\<rparr>" for f x
    by (simp_all add: bl_init_def restore_path_def)
  then show ?thesis using b'(1) new by (auto simp: list_all_iff reindex_disks_def)
qed

lemma reindex_crash_safe_witness:
  "\<exists>b. binlog_reachable (\<lambda>_. 0) sample_map b \<and>
    (\<exists>b'. do_reindex (\<lambda>_. 0) True b = Some (Value b') \<and>
    list_all (\<lambda>d. bl_init (\<lambda>_. 0) d = bl_init (\<lambda>_. 0) \<lparr>d_path = Some (bl_file b), d_new = None\<rparr> \<or>
      (\<exists>es c. bl_init (\<lambda>_. 0) d = Some (Value (es, c)) \<and> delivered es = sample_map))
      (reindex_disks (bl_file b) (bl_file b')))"
proof -
  obtain b where b: "binlog_reachable (\<lambda>_. 0) sample_map b" by (rule sample_log_reachable)
  show ?thesis using b reindex_crash_safe [OF b] by blast
qed

end
