(* ===== verification/Td_BinlogLoad.thy ===== *)
theory Td_BinlogLoad
  imports Td_Binlog
begin

text \<open>
  Loading a binlog from any bytes whatever: no check fails, no read leaves the data, and what stays on the disk is a
  beginning of the file.  Then two files for which the binlog does not do what it means to.
\<close>

subsection \<open>The reader on any input\<close>

definition reader_ok :: "reader \<Rightarrow> bool" where
  "reader_ok r \<longleftrightarrow> (rd_state r = ReadEvent \<longrightarrow> MIN_SIZE \<le> rd_size r \<and> rd_size r \<le> MAX_SIZE \<and>
     4 \<le> length (rd_input r) \<and> nat (sint (le_word (take 4 (rd_input r)) :: int32) mod 18446744073709551616) = rd_size r)"

lemma size_word_of_int:
  assumes "nat (sint (w :: int32) mod 18446744073709551616) = n" "n \<le> MAX_SIZE" shows "w = size_word n"
proof -
  have b: "- (2 ^ 31) \<le> sint w" "sint w < 2 ^ 31" using sint_ge [of w] sint_lt [of w] by simp_all
  have "sint w = int n"
  proof (cases "0 \<le> sint w")
    case True
    then have "sint w mod 18446744073709551616 = sint w" using b(2) by simp
    then show ?thesis using assms(1) True by simp
  next
    case False
    have "sint w mod 18446744073709551616 = (sint w + 18446744073709551616) mod 18446744073709551616" by simp
    also have "\<dots> = sint w + 18446744073709551616" using b(1) False by (intro mod_pos_pos_trivial) simp_all
    finally have "sint w mod 18446744073709551616 = sint w + 18446744073709551616" .
    then show ?thesis using assms b(1) by (simp add: MAX_SIZE_def)
  qed
  moreover have "sint (size_word n) = int n"
    using assms(2) by (simp add: size_word_def MAX_SIZE_def sint_uint unsigned_of_nat take_bit_nat_eq_self signed_take_bit_int_eq_self)
  ultimately have "sint w = sint (size_word n)" by simp
  then show ?thesis by (rule signed_word_eqI)
qed

lemma reader_ok_feed: "reader_ok r \<Longrightarrow> reader_ok (feed n left r)"
  by (auto simp: reader_ok_def feed_def)

lemma read_event_total:
  assumes r: "reader_ok r" "rd_state r = ReadEvent"
  obtains (need) "read_event crc new_binlog_event r = Some (Inr (rd_size r), new_binlog_event, r)" "length (rd_input r) < rd_size r"
    | (bad) err e r' where "read_event crc new_binlog_event r = Some (Inl err, e, r')" "\<forall>n m. err \<noteq> Bad_event_size n m"
    | (event) r' where "read_event crc new_binlog_event r =
        Some (Inr 0, event_at (take (rd_size r) (rd_input r)) (rd_offset r + int (rd_size r)), r')"
      "rd_size r \<le> length (rd_input r)" "rd_input r' = drop (rd_size r) (rd_input r)" "rd_offset r' = rd_offset r + int (rd_size r)"
      "rd_state r' = ReadLength"
proof (cases "length (rd_input r) < rd_size r")
  case True
  then show thesis using need by (simp add: read_event_def)
next
  case False
  let ?raw = "take (rd_size r) (rd_input r)"
  have sz: "MIN_SIZE \<le> rd_size r" "rd_size r \<le> MAX_SIZE"
    "nat (sint (le_word (take 4 (rd_input r)) :: int32) mod 18446744073709551616) = rd_size r"
    using r by (simp_all add: reader_ok_def)
  have len: "length ?raw = rd_size r" using False by simp
  have "4 \<le> rd_size r" using sz(1) by (simp add: size_defs)
  then have "take 4 ?raw = take 4 (rd_input r)" by (simp add: min_def)
  then have w: "le_word (take 4 ?raw) = size_word (length ?raw)" using size_word_of_int [OF sz(3,2)] len by simp
  have n: "unat (size_word (length ?raw)) = length ?raw" using sz(2) len by (simp add: unat_size_word MAX_SIZE_def)
  have big: "length ?raw < SIZE_MAX" using sz(2) len by (simp add: MAX_SIZE_def SIZE_MAX_def)
  have init: "init_event ?raw new_binlog_event = Some (parsed ?raw new_binlog_event)"
    by (rule init_event_eq) (use w n sz(1) len big in simp_all)
  let ?e = "parsed ?raw new_binlog_event"
  have "\<exists>v. validate crc ?e = Some v \<and> (\<forall>err. v = Inl err \<longrightarrow> (\<forall>n m. err \<noteq> Bad_event_size n m))"
    by (subst validate_eq) (use w n sz(1) len big in \<open>simp_all add: parsed_def Let_def\<close>)
  then obtain v where v: "validate crc ?e = Some v" "\<forall>err. v = Inl err \<longrightarrow> (\<forall>n m. err \<noteq> Bad_event_size n m)" by blast
  show thesis
  proof (cases v)
    case (Inl err)
    then show thesis using bad [of err] v False init by (simp add: read_event_def)
  next
    case (Inr u)
    then show thesis using event v(1) False init by (simp add: read_event_def event_at_def Let_def)
  qed
qed

lemma read_next_total:
  assumes r: "reader_ok r"
  obtains (need) n r' where "read_next crc new_binlog_event r = Some (Inr n, new_binlog_event, r')" "0 < n" "rd_input r' = rd_input r"
      "rd_offset r' = rd_offset r" "reader_ok r'"
    | (bad) err e r' where "read_next crc new_binlog_event r = Some (Inl err, e, r')" "\<forall>n m. err \<noteq> Bad_event_size n m"
    | (misaligned) n m e r' where "read_next crc new_binlog_event r = Some (Inl (Bad_event_size n m), e, r')"
      "rd_offset r' = rd_offset r" "4 \<le> length (rd_input r)"
    | (event) raw r' where "read_next crc new_binlog_event r = Some (Inr 0, event_at raw (rd_offset r + int (length raw)), r')"
      "rd_input r = raw @ rd_input r'" "MIN_SIZE \<le> length raw" "rd_offset r' = rd_offset r + int (length raw)" "reader_ok r'"
proof (cases "rd_state r = ReadLength \<and> length (rd_input r) < 4")
  case True
  then show thesis using need [of 4 r] r by (simp add: read_next_def)
next
  case False
  have size_pos: "0 < MIN_SIZE" by (simp add: size_defs)
  have by_event: thesis if q: "reader_ok q" "rd_state q = ReadEvent" "rd_input q = rd_input r" "rd_offset q = rd_offset r"
    "read_next crc new_binlog_event r = read_event crc new_binlog_event q" for q
  proof (cases rule: read_event_total [OF q(1,2), of crc])
    case 1
    then show thesis using need [of "rd_size q" q] q size_pos by (simp add: reader_ok_def)
  next
    case (2 err e r')
    then show thesis using bad q(5) by simp
  next
    case (3 r')
    let ?raw = "take (rd_size q) (rd_input q)"
    have len: "length ?raw = rd_size q" "MIN_SIZE \<le> rd_size q" using 3(2) q(1,2) by (simp_all add: reader_ok_def)
    have "rd_input r = ?raw @ rd_input r'" using 3(3) q(3) by simp
    moreover have "read_next crc new_binlog_event r = Some (Inr 0, event_at ?raw (rd_offset r + int (length ?raw)), r')"
      unfolding q(5) len(1) 3(1) q(4) ..
    moreover have "rd_offset r' = rd_offset r + int (length ?raw)" unfolding len(1) 3(4) q(4) ..
    moreover have "MIN_SIZE \<le> length ?raw" unfolding len(1) by (rule len(2))
    moreover have "reader_ok r'" by (simp add: reader_ok_def 3(5))
    ultimately show thesis using event [of ?raw r'] by blast
  qed
  show thesis
  proof (cases "rd_state r")
    case ReadEvent
    then show thesis using by_event [of r] r by (simp add: read_next_def)
  next
    case ReadLength
    then have four: "length (take 4 (rd_input r)) = 4" using False by simp
    obtain p where p: "fetch_int (new_tl_parser (take 4 (rd_input r))) = Some (le_word (take 4 (rd_input r)), p)"
      using fetch_int_four [OF four] by blast
    let ?q = "r\<lparr>rd_size := nat (sint (le_word (take 4 (rd_input r)) :: int32) mod 18446744073709551616)\<rparr>"
    show thesis
    proof (cases "length_error ?q")
      case None
      have "reader_ok (?q\<lparr>rd_state := ReadEvent\<rparr>)" using None False ReadLength
        by (auto simp: reader_ok_def length_error_def split: if_splits)
      moreover have "read_next crc new_binlog_event r = read_event crc new_binlog_event (?q\<lparr>rd_state := ReadEvent\<rparr>)"
        using ReadLength False p None by (simp add: read_next_def Let_def)
      ultimately show thesis using by_event [of "?q\<lparr>rd_state := ReadEvent\<rparr>"] by simp
    next
      case (Some err)
      then have *: "read_next crc new_binlog_event r = Some (Inl err, new_binlog_event, ?q)"
        using ReadLength False p by (simp add: read_next_def Let_def)
      show thesis
      proof (cases "\<exists>n m. err = Bad_event_size n m")
        case True
        then show thesis using misaligned * False ReadLength by auto
      next
        case False
        then show thesis using bad * by blast
      qed
    qed
  qed
qed

subsection \<open>The loader on any file\<close>

text \<open>The pending events lie in the file one behind the other.\<close>

fun pending_chain :: "int \<Rightarrow> binlog_event list \<Rightarrow> int \<Rightarrow> bool" where
  "pending_chain n [] m \<longleftrightarrow> n = m"
| "pending_chain n (e # es) m \<longleftrightarrow>
     MIN_SIZE \<le> length (be_raw e) \<and> be_offset e = n + int (length (be_raw e)) \<and> pending_chain (be_offset e) es m"

definition loading :: "bytes \<Rightarrow> int \<Rightarrow> binlog \<Rightarrow> bool" where
  "loading file n b \<longleftrightarrow> bl_state b = Load_state \<and> bl_file b = file \<and> processor_ok (bl_processor b) \<and> 0 \<le> bl_fd_size b \<and>
     pr_offset (bl_processor b) = bl_fd_size b \<and> pending_chain (bl_fd_size b) (bl_pending b) n"

text \<open>How a step may end: in a state, or with a part of the file left on the disk.\<close>

definition ends_well :: "bytes \<Rightarrow> ('a \<Rightarrow> bool) \<Rightarrow> 'a outcome option \<Rightarrow> bool" where
  "ends_well file P m \<longleftrightarrow> (case m of None \<Rightarrow> False | Some (Value x) \<Rightarrow> P x | Some (Fatal f) \<Rightarrow> (\<exists>k. f = take k file)
     | Some (Encrypted _) \<Rightarrow> True)"

lemma ends_well_Value [simp]: "ends_well file P (Some (Value x)) = P x"
  by (simp add: ends_well_def)

lemma ends_well_bind:
  assumes "ends_well file P m" "\<And>x. P x \<Longrightarrow> ends_well file Q (f x)"
  shows "ends_well file Q (bind_outcome m f)"
proof (cases m)
  case (Some r)
  then show ?thesis using assms by (cases r) (auto simp: ends_well_def)
qed (use assms(1) in \<open>simp add: ends_well_def\<close>)

lemma pending_chain_le: "pending_chain n es m \<Longrightarrow> n \<le> m"
  by (induction es arbitrary: n) fastforce+

lemma pending_chain_append:
  "pending_chain n (es @ [e]) m \<longleftrightarrow> (\<exists>k. pending_chain n es k \<and> MIN_SIZE \<le> length (be_raw e) \<and>
     be_offset e = k + int (length (be_raw e)) \<and> m = be_offset e)"
  by (induction es arbitrary: n) auto

lemma parse_aes_total:
  assumes "tl_ok p" shows "\<exists>a p'. parse_aes_event p = Some (a, p') \<and> later p p'"
proof -
  obtain fs p1 where 1: "parse_flags 0 p = Some (fs, p1)" "later p p1"
    using tl_type.parse_total [OF tl_type_flags [of 0] assms] by auto
  obtain s1 p2 where 2: "parse_str p1 = Some (s1, p2)" "later p1 p2" using str.parse_total [OF later_ok [OF 1(2)]] by blast
  obtain s2 p3 where 3: "parse_str p2 = Some (s2, p3)" "later p2 p3" using str.parse_total [OF later_ok [OF 2(2)]] by blast
  obtain s3 p4 where 4: "parse_str p3 = Some (s3, p4)" "later p3 p4" using str.parse_total [OF later_ok [OF 3(2)]] by blast
  have "later p p4" using later_trans [OF later_trans [OF later_trans [OF 1(2) 2(2)] 3(2)] 4(2)] .
  then show ?thesis using 1(1) 2(1) 3(1) 4(1) by (simp add: parse_aes_event_def)
qed

lemma encryption_ends_well:
  assumes "MIN_SIZE \<le> length (be_raw e)" "length (be_raw e) < SIZE_MAX" "bl_state b = Load_state" "bl_file b = file"
  shows "ends_well file P (encryption_outcome e b)"
proof -
  obtain d where d: "get_data e = Some d" "length d < SIZE_MAX" using assms(1,2) by (simp add: get_data_def)
  obtain a p where p: "parse_aes_event (new_tl_parser d) = Some (a, p)" "later (new_tl_parser d) p"
    using parse_aes_total [OF tl_ok_new [OF d(2)]] by blast
  obtain p' where "fetch_end p = Some p'" using fetch_end_total [OF later_ok [OF p(2)]] by blast
  then show ?thesis using d p assms(3,4)
    by (auto simp: encryption_outcome_def ends_well_def intro!: exI [of _ "length file"])
qed

lemma load_event_ends_well:
  assumes b: "bl_state b = Load_state" "bl_file b = file" "processor_ok (bl_processor b)" "0 \<le> bl_fd_size b"
    and e: "MIN_SIZE \<le> length (be_raw e)" "be_offset e = bl_fd_size b + int (length (be_raw e))" "be_offset e \<le> int (length file)"
    and big: "length file < SIZE_MAX"
  shows "ends_well file (\<lambda>b'. bl_state b' = Load_state \<and> bl_file b' = file \<and> processor_ok (bl_processor b') \<and>
    bl_fd_size b' = be_offset e \<and> pr_offset (bl_processor b') = be_offset e \<and> bl_pending b' = bl_pending b) (bl_do_event crc e b)"
proof (cases "be_type e <s 0 \<and> be_type e = AesCtrEncryption_type")
  case True
  have "length (be_raw e) < SIZE_MAX" using e(2,3) b(4) big by linarith
  then show ?thesis using encryption_ends_well [OF e(1) _ b(1,2)] True b(1) flag_facts(6)
    by (simp add: bl_do_event_def write_event_def)
next
  case False
  have less: "bl_fd_size b < int (length file)" using e by (auto simp: size_defs)
  show ?thesis
  proof (cases rule: process_event_cases [OF b(3) e(1)])
    case (1 err)
    then show ?thesis using False b less
      by (auto simp: bl_do_event_def write_event_def ends_well_def Let_def)
  next
    case (2 p')
    then show ?thesis using False b e(2)
      by (simp add: bl_do_event_def write_event_def count_event_def) auto
  qed
qed

lemma load_events_ends_well:
  assumes "bl_state b = Load_state" "bl_file b = file" "processor_ok (bl_processor b)" "0 \<le> bl_fd_size b"
    "pr_offset (bl_processor b) = bl_fd_size b" "pending_chain (bl_fd_size b) es n" "n \<le> int (length file)" "length file < SIZE_MAX"
  shows "ends_well file (\<lambda>b'. bl_state b' = Load_state \<and> bl_file b' = file \<and> processor_ok (bl_processor b') \<and>
    bl_fd_size b' = n \<and> pr_offset (bl_processor b') = n) (bl_do_events crc es b)"
  using assms
proof (induction es arbitrary: b)
  case (Cons e es)
  have "pending_chain (be_offset e) es n" using Cons.prems(6) unfolding pending_chain.simps by blast
  then have "be_offset e \<le> n" by (rule pending_chain_le)
  then have "be_offset e \<le> int (length file)" using Cons.prems(7) by linarith
  then show ?case
    using Cons.prems unfolding bl_do_events.simps
    by (intro ends_well_bind [OF load_event_ends_well] Cons.IH) auto
qed simp

lemma add_event_ends_well:
  assumes b: "loading file n b" and raw: "MIN_SIZE \<le> length raw" "n + int (length raw) \<le> int (length file)" "length file < SIZE_MAX"
  shows "ends_well file (loading file (n + int (length raw))) (do_add_event crc (event_at raw (n + int (length raw))) b)"
proof (cases "has_flag Partial_flag (event_at raw (n + int (length raw)))")
  case True
  then show ?thesis using b raw(1)
    by (auto simp: do_add_event_def loading_def pending_chain_append clear_flag_def event_at_offset)
next
  case False
  have n: "n \<le> int (length file)" using raw(2) by linarith
  have nn: "0 \<le> n" using b pending_chain_le [of "bl_fd_size b" "bl_pending b" n] by (simp add: loading_def)
  let ?e = "event_at raw (n + int (length raw))"
  have step: "ends_well file (loading file (n + int (length raw))) (bl_do_event crc ?e (x\<lparr>bl_pending := []\<rparr>))"
    if x: "bl_state x = Load_state \<and> bl_file x = file \<and> processor_ok (bl_processor x) \<and> bl_fd_size x = n \<and> pr_offset (bl_processor x) = n" for x
  proof -
    have "ends_well file (\<lambda>b'. bl_state b' = Load_state \<and> bl_file b' = file \<and> processor_ok (bl_processor b') \<and>
      bl_fd_size b' = be_offset ?e \<and> pr_offset (bl_processor b') = be_offset ?e \<and> bl_pending b' = bl_pending (x\<lparr>bl_pending := []\<rparr>))
      (bl_do_event crc ?e (x\<lparr>bl_pending := []\<rparr>))"
      by (rule load_event_ends_well) (use x nn raw in \<open>simp_all add: event_at_offset\<close>)
    then show ?thesis using nn
      by (auto simp: ends_well_def loading_def event_at_offset split: option.splits outcome.splits)
  qed
  have "ends_well file (\<lambda>x. bl_state x = Load_state \<and> bl_file x = file \<and> processor_ok (bl_processor x) \<and>
      bl_fd_size x = n \<and> pr_offset (bl_processor x) = n) (bl_do_events crc (bl_pending b) b)"
    by (rule load_events_ends_well) (use b n raw(3) in \<open>simp_all add: loading_def\<close>)
  from ends_well_bind [OF this step] show ?thesis using False by (simp add: do_add_event_def)
qed

lemma load_loop_ends_well:
  assumes "reader_ok r" "loading file (rd_offset r) b" "rd_offset r + int (length (rd_input r @ left)) = int (length file)"
    "length file < SIZE_MAX"
  shows "ends_well file (\<lambda>b'. \<exists>n. loading file n b' \<and> n \<le> int (length file)) (load_loop crc left r b)"
  using assms
proof (induction "2 * length left + length (rd_input r)" arbitrary: left r b rule: less_induct)
  case less
  have le: "rd_offset r \<le> int (length file)" using less.prems(3) by linarith
  show ?case
  proof (cases rule: read_next_total [OF less.prems(1), of crc])
    case (1 n r')
    show ?thesis
    proof (cases "length (rd_input (feed n left r')) < n")
      case True
      then show ?thesis using 1 less.prems(2) le by (subst load_loop_eq) auto
    next
      case False
      let ?left = "drop (max n 4096) left" let ?r = "feed n left r'"
      have "length (rd_input r) < n" using read_next_input [OF 1(1)] 1(2) by simp
      then have "left \<noteq> []" using False 1(3) by (auto simp: feed_def)
      then have "2 * length ?left + length (rd_input ?r) < 2 * length left + length (rd_input r)" using 1(2,3) by (cases left) (auto simp: feed_def)
      moreover have "rd_input ?r @ ?left = rd_input r @ left" using 1(3) by simp
      ultimately have "ends_well file (\<lambda>b'. \<exists>n. loading file n b' \<and> n \<le> int (length file)) (load_loop crc ?left ?r b)"
        using less.hyps [of ?left ?r b] reader_ok_feed [OF 1(5)] less.prems(2-4) 1(4) by simp
      then show ?thesis using 1 False by (subst load_loop_eq) simp
    qed
  next
    case (2 err e r')
    then have "stop_loading err r' b = Value b" by (cases err) (simp_all add: stop_loading_def)
    then show ?thesis using 2 less.prems(2) le by (subst load_loop_eq) auto
  next
    case (3 n m e r')
    have "rd_offset r' < int (length file)" using 3 less.prems(3) by simp
    moreover have "bl_file b = file" using less.prems(2) by (simp add: loading_def)
    ultimately have "stop_loading (Bad_event_size n m) r' b = Fatal (take (nat (rd_offset r')) file)" by (simp add: stop_loading_def)
    then show ?thesis using 3 by (subst load_loop_eq) (auto simp: ends_well_def)
  next
    case (4 raw r')
    have data: "rd_offset r' + int (length (rd_input r' @ left)) = int (length file)" using 4 less.prems(3) by simp
    have "ends_well file (loading file (rd_offset r'))
        (do_add_event crc (event_at raw (rd_offset r + int (length raw))) b)"
      unfolding 4(4) by (rule add_event_ends_well [OF less.prems(2) 4(3) _ less.prems(4)]) (use data 4(4) in simp)
    moreover have "ends_well file (\<lambda>b'. \<exists>n. loading file n b' \<and> n \<le> int (length file)) (load_loop crc left r' x)"
      if "loading file (rd_offset r') x" for x
      using less.hyps [of left r' x] 4(2,3,5) that data less.prems(4) by (fastforce simp: size_defs)
    ultimately have "ends_well file (\<lambda>b'. \<exists>n. loading file n b' \<and> n \<le> int (length file))
        (bind_outcome (do_add_event crc (event_at raw (rd_offset r + int (length raw))) b) (load_loop crc left r'))"
      by (rule ends_well_bind)
    then show ?thesis using 4(1) by (subst load_loop_eq) simp
  qed
qed



subsection \<open>Two files that are not read back\<close>

text \<open>The state of a binlog on an empty file.\<close>

definition empty_binlog :: binlog where
  "empty_binlog = (new_binlog [])\<lparr>bl_state := Run_state\<rparr>"

lemma event_at_valid:
  assumes "length data + 32 < 2 ^ 32"
  shows "validate crc (event_at (raw_of crc i ty fl data) n) = Some (Inr ())"
proof -
  have "event_at (raw_of crc i ty fl data) n = parsed (raw_of crc i ty fl data) (new_binlog_event\<lparr>be_offset := n\<rparr>)"
    by (simp add: event_at_def parsed_def)
  then show ?thesis using valid_parsed [OF assms] by (simp add: valid_event_def)
qed

lemma init_event_raw_of:
  assumes "length data + 32 < 2 ^ 32"
  shows "init_event (raw_of crc i ty fl data) new_binlog_event = Some (event_at (raw_of crc i ty fl data) (- 1))"
proof -
  have "parsed (raw_of crc i ty fl data) new_binlog_event = event_at (raw_of crc i ty fl data) (- 1)"
    by (simp add: event_at_def parsed_def new_binlog_event_def)
  then show ?thesis using init_raw_of [OF assms] by simp
qed

text \<open>An event that is a part of a batch stays pending when the file ends before the end of the batch.\<close>

lemma load_partial:
  assumes len: "length data + 32 \<le> MAX_SIZE" "length data mod 4 = 0" and raw_def: "raw = raw_of crc 1 ty Partial_flag data"
  shows "bl_init crc \<lparr>d_path = Some raw, d_new = other\<rparr> =
    Some (Value ([], empty_binlog\<lparr>bl_pending := [clear_flag Partial_flag (event_at raw (int (length raw)))]\<rparr>))"
proof -
  have raw: "readable crc raw" unfolding raw_def by (rule readable_raw_of [OF len])
  have "torn crc []" using raw by (force simp: torn_def readable_def size_defs intro!: exI [of _ raw] exI [of _ 0])
  moreover have "has_flag Partial_flag (event_at raw (int (length raw)))"
    by (simp add: raw_def event_at_raw_of has_flag_def Partial_flag_def)
  ultimately have "load_binlog crc raw = Some (Value ([], empty_binlog\<lparr>bl_pending := [clear_flag Partial_flag (event_at raw (int (length raw)))]\<rparr>))"
    using load_binlog_log [of "[raw]" crc "[]"] raw
    by (simp add: do_add_event_def finish_load_def for_each_event_def Let_def new_binlog_def new_processor_def empty_binlog_def)
  then show ?thesis by (simp add: bl_init_def restore_path_def empty_binlog_def new_binlog_def new_processor_def)
qed

text \<open>A file with only the first part of a batch loads as an empty binlog, but its event stays pending while its
  identifier is given out again: the next add ends the process, whatever it adds.\<close>

lemma pending_batch_blocks:
  assumes "length data + 32 \<le> MAX_SIZE" and "length data mod 4 = 0" and "\<not> ty <s 0"
    and "writes sr data'" and "length data' + 32 < 2 ^ 31"
  shows "\<exists>b. bl_init crc \<lparr>d_path = Some (raw_of crc 1 ty Partial_flag data), d_new = None\<rparr> = Some (Value ([], b)) \<and>
    bl_file b = [] \<and> bl_add crc opened 0 sr b = None"
proof -
  let ?raw = "raw_of crc 1 ty Partial_flag data" let ?new = "raw_of crc 1 0 0 data'"
  let ?e = "clear_flag Partial_flag (event_at ?raw (int (length ?raw)))" let ?b = "empty_binlog\<lparr>bl_pending := [?e]\<rparr>"
  have len: "length data + 32 < 2 ^ 32" "length data' + 32 < 2 ^ 32" using assms(1,5) by (simp_all add: MAX_SIZE_def)
  have e: "be_type ?e = ty" "fixed_id ?e = 2" "\<not> has_flag Rewrite_flag ?e" "be_raw ?e = ?raw"
    by (simp_all add: clear_flag_def event_at_raw_of fixed_id_def has_flag_def)
  have val: "validate crc ?e = Some (Inr ())"
    by (rule validate_fields [OF _ _ _ event_at_valid [OF len(1), of crc 1 ty Partial_flag "int (length ?raw)"]])
      (simp_all add: clear_flag_def)
  define p where "p = new_processor\<lparr>pr_offset := be_offset ?e, pr_last := be_id ?e, pr_size := int (length ?raw), pr_total := 1,
    pr_ids := [2], pr_events := [?e]\<rparr>"
  have p: "process_event ?e new_processor = Some (Inr (), p)"
    using e assms(3) by (simp add: process_event_def append_event_def new_processor_def Let_def p_def)
  define b1 where "b1 = count_event ?e (?b\<lparr>bl_last_event_id := 1, bl_buffer := ?raw, bl_processor := p\<rparr>)"
  have b1: "bl_do_events crc [?e] (?b\<lparr>bl_last_event_id := 1\<rparr>) = Some (Value b1)"
    using val e assms(3) p
    by (simp add: bl_do_event_def write_event_def empty_binlog_def new_binlog_def b1_def AesCtrEncryption_type_def)
  let ?e' = "event_at ?new (- 1)"
  have e': "be_type ?e' = 0" "fixed_id ?e' = 2" "\<not> has_flag f ?e'" "be_raw ?e' = ?new" for f
    by (simp_all add: event_at_raw_of fixed_id_def has_flag_def)
  obtain d where d: "get_data ?e' = Some d" by (auto simp: get_data_def e' size_defs)
  have "process_event ?e' p = Some (Inl (Not_increasing 2 2 ?e'), p\<lparr>pr_offset := be_offset ?e'\<rparr>)"
    using e' d by (simp add: process_event_def append_event_def p_def Let_def)
  moreover have "validate crc ?e' = Some (Inr ())" by (rule event_at_valid [OF len(2)])
  ultimately have "bl_do_event crc ?e' (b1\<lparr>bl_pending := []\<rparr>) = None"
    using e' by (simp add: bl_do_event_def write_event_def b1_def count_event_def empty_binlog_def new_binlog_def)
  then have "do_add_event crc ?e' (?b\<lparr>bl_last_event_id := 1\<rparr>) = None"
    using b1 e'(3) by (simp add: do_add_event_def del: bl_do_events.simps)
  then have "add_raw_event crc opened ?new (?b\<lparr>bl_last_event_id := 1\<rparr>) = None"
    using init_event_raw_of [OF len(2)] by (simp add: add_raw_event_def add_event_def check_def)
  then have "bl_add crc opened 0 sr ?b = None"
    using create_raw_eq [OF assms(4,5)]
    by (simp add: bl_add_def next_event_id_def empty_binlog_def new_binlog_def)
  then show ?thesis using load_partial [OF assms(1,2) refl, of crc ty None]
    by (simp add: empty_binlog_def new_binlog_def)
qed

lemma pending_batch_blocks_witness:
  "\<exists>b. bl_init (\<lambda>_. 0) \<lparr>d_path = Some (raw_of (\<lambda>_. 0) 1 5 Partial_flag []), d_new = None\<rparr> = Some (Value ([], b)) \<and>
    bl_file b = [] \<and> bl_add (\<lambda>_. 0) False 0 empty_storer b = None"
  by (rule pending_batch_blocks [OF _ _ _ writes_empty]) (simp_all add: MAX_SIZE_def word_sless_alt)

lemma size_word_large:
  assumes "n < 2 ^ 31" shows "nat (sint (size_word n) mod 18446744073709551616) = n"
proof -
  have "sint (size_word n) = int n"
    using assms by (simp add: size_word_def sint_uint unsigned_of_nat take_bit_nat_eq_self signed_take_bit_int_eq_self)
  then show ?thesis using assms by simp
qed

text \<open>An event of more than the maximal size is added, written and flushed, but the next load takes it for an error
  and drops it.\<close>

lemma oversized_event_lost:
  assumes "writes sr data" and "MAX_SIZE < length data + 32" and "length data + 32 < 2 ^ 31" and "length data mod 4 = 0"
  shows "\<exists>b b'. bl_add crc opened 0 sr empty_binlog = Some (Value (1, b)) \<and> bl_file b = raw_of crc 1 0 0 data \<and>
    bl_init crc \<lparr>d_path = Some (bl_file b), d_new = None\<rparr> = Some (Value ([], b')) \<and> bl_file b' = []"
proof -
  let ?raw = "raw_of crc 1 0 0 data" let ?n = "length data + 32" let ?e = "event_at ?raw (- 1)"
  have len: "?n < 2 ^ 32" using assms(3) by simp
  have e: "be_type ?e = 0" "fixed_id ?e = 2" "\<not> has_flag f ?e" "be_raw ?e = ?raw" "be_id ?e = 1" for f
    by (simp_all add: event_at_raw_of fixed_id_def has_flag_def)
  have sz: "unat (be_size ?e) mod 4 = 0"
    using assms(4) len by (simp add: event_at_raw_of unat_size_word mod_add_eq [symmetric])
  define p where "p = new_processor\<lparr>pr_offset := be_offset ?e, pr_last := 1, pr_size := int ?n, pr_total := 1,
    pr_ids := [2], pr_events := [?e]\<rparr>"
  have p: "process_event ?e new_processor = Some (Inr (), p)"
    using e by (simp add: process_event_def append_event_def new_processor_def Let_def p_def)
  define b where "b = empty_binlog\<lparr>bl_last_event_id := 1, bl_buffer := ?raw, bl_processor := p, bl_fd_events := 1, bl_fd_size := int ?n\<rparr>"
  have b: "do_add_event crc ?e (empty_binlog\<lparr>bl_last_event_id := 1\<rparr>) = Some (Value b)"
    using event_at_valid [OF len, of crc 1 0 0 "- 1"] e p
    by (simp add: do_add_event_def bl_do_event_def write_event_def empty_binlog_def new_binlog_def b_def count_event_def)
  have "lazy_flush b = b\<lparr>bl_file := ?raw, bl_buffer := []\<rparr>"
    using assms(2) by (simp add: lazy_flush_def bl_flush_def b_def empty_binlog_def new_binlog_def MAX_SIZE_def)
  moreover have "\<not> need_reindex (b\<lparr>bl_file := ?raw, bl_buffer := []\<rparr>)"
    by (simp add: need_reindex_def b_def p_def empty_binlog_def new_binlog_def) linarith
  ultimately have "add_raw_event crc opened ?raw (empty_binlog\<lparr>bl_last_event_id := 1\<rparr>) = Some (Value (b\<lparr>bl_file := ?raw, bl_buffer := []\<rparr>))"
    using init_event_raw_of [OF len] b sz by (simp add: add_raw_event_def add_event_def Let_def)
  then have add: "bl_add crc opened 0 sr empty_binlog = Some (Value (1, b\<lparr>bl_file := ?raw, bl_buffer := []\<rparr>))"
    using create_raw_eq [OF assms(1,3)] by (simp add: bl_add_def next_event_id_def empty_binlog_def new_binlog_def)
  let ?r = "feed 4 ?raw new_reader"
  have four: "take 4 (rd_input ?r) = le_bytes 4 (size_word ?n)" "4 \<le> length (rd_input ?r)" "rd_state ?r = ReadLength"
    using assms(2) raw_of_slices(1) [of crc 1 0 0 data]
    by (simp_all add: feed_def new_reader_def min_def MAX_SIZE_def)
  obtain q where "fetch_int (new_tl_parser (le_bytes 4 (size_word ?n))) = Some (size_word ?n, q)"
    using fetch_int_four [of "le_bytes 4 (size_word ?n)"] by auto
  then have "read_next crc new_binlog_event ?r = Some (Inl (Too_big_event ?n), new_binlog_event, ?r\<lparr>rd_size := ?n\<rparr>)"
    using four size_word_large [OF assms(3)] assms(2) by (simp add: read_next_def Let_def length_error_def)
  then have "load_loop crc (drop 4096 ?raw) ?r (new_binlog ?raw) = Some (Value (new_binlog ?raw))"
    by (subst load_loop_eq) (simp add: stop_loading_def)
  moreover have "read_next crc new_binlog_event new_reader = Some (Inr 4, new_binlog_event, new_reader)"
    by (simp add: read_next_def new_reader_def)
  ultimately have "load_loop crc ?raw new_reader (new_binlog ?raw) = Some (Value (new_binlog ?raw))"
    using four(2) by (subst load_loop_eq) simp
  then have "bl_init crc \<lparr>d_path = Some ?raw, d_new = None\<rparr> = Some (Value ([], empty_binlog))"
    by (simp add: bl_init_def restore_path_def load_binlog_def finish_load_def for_each_event_def Let_def new_binlog_def
        new_processor_def empty_binlog_def)
  then show ?thesis using add by (simp add: empty_binlog_def new_binlog_def)
qed

lemma oversized_event_lost_witness:
  "\<exists>b b'. bl_add (\<lambda>_. 0) False 0 (slice_storer (replicate 16777216 0)) empty_binlog = Some (Value (1, b)) \<and>
    bl_file b = raw_of (\<lambda>_. 0) 1 0 0 (replicate 16777216 0) \<and>
    bl_init (\<lambda>_. 0) \<lparr>d_path = Some (bl_file b), d_new = None\<rparr> = Some (Value ([], b')) \<and> bl_file b' = []"
  by (rule oversized_event_lost [OF writes_slice]) (simp_all add: MAX_SIZE_def)
end
