(* ===== verification/Td_TQueueBinlog.thy ===== *)
theory Td_TQueueBinlog
  imports Td_BinlogSteps Td_TQueue
begin

text \<open>
  The event queues stored in a binlog: \<open>TQueueLogEvent\<close> and \<open>TQueueBinlog\<close> of \<open>tddb/td/db/TQueue.cpp\<close>.

  \<open>TQueueBinlog\<close> is the storage callback of the program; the queues of \<open>Td_TQueue\<close> have the one of the tests,
  \<open>TQueueMemoryStorage\<close>.  The binlog storage is shown to implement the memory storage: every push and pop keeps the
  two storing the same events under the same identifiers, and replaying a reloaded binlog has the effect of
  replaying the memory storage, so that what is proved of the queues with the one holds with the other.
\<close>

record tqueue_log_event =
  le_queue_id :: int64
  le_event_id :: int32
  le_expires_at :: int32
  le_data :: bytes
  le_extra :: int64

definition BINLOG_EVENT_TYPE :: int32 where "BINLOG_EVENT_TYPE = 2314"

definition store_log_event :: "tqueue_log_event tl_store" where
  "store_log_event e s =
     do { s \<leftarrow> store_int64 (le_queue_id e) s;
          s \<leftarrow> store_int32 (le_event_id e) s;
          s \<leftarrow> store_int32 (le_expires_at e) s;
          s \<leftarrow> store_str (le_data e) s;
          if le_extra e \<noteq> 0 then store_int64 (le_extra e) s else Some s }"

definition parse_log_event :: "int32 \<Rightarrow> tqueue_log_event tl_parse" where
  "parse_log_event has_extra p =
     do { (queue_id, p) \<leftarrow> parse_int64 p;
          (event_id, p) \<leftarrow> parse_int32 p;
          (expires_at, p) \<leftarrow> parse_int32 p;
          (data, p) \<leftarrow> fetch_string p;
          (extra, p) \<leftarrow> (if has_extra = 0 then Some (0, p) else parse_int64 p);
          Some (\<lparr>le_queue_id = queue_id, le_event_id = event_id, le_expires_at = expires_at, le_data = data,
                 le_extra = extra\<rparr>, p) }"

text \<open>The log event as a \<open>Storer\<close>.\<close>

definition log_event_storer :: "tqueue_log_event \<Rightarrow> storer option" where
  "log_event_storer e = default_storer (store_log_event e)"

definition log_event_of :: "int \<Rightarrow> raw_event \<Rightarrow> tqueue_log_event" where
  "log_event_of queue_id e = \<lparr>le_queue_id = word_of_int queue_id, le_event_id = word_of_int (e_id e),
     le_expires_at = word_of_int (e_expires e), le_data = e_data e, le_extra = word_of_int (e_extra e)\<rparr>"

definition event_magic :: "tqueue_log_event \<Rightarrow> int32" where
  "event_magic e = BINLOG_EVENT_TYPE + (if le_extra e \<noteq> 0 then 1 else 0)"

definition tb_push :: "(bytes \<Rightarrow> int32) \<Rightarrow> bool \<Rightarrow> int \<Rightarrow> raw_event \<Rightarrow> binlog \<Rightarrow> (int64 \<times> binlog) outcome option" where
  "tb_push crc opened queue_id e b =
     do { let log_event = log_event_of queue_id e;
          sr \<leftarrow> log_event_storer log_event;
          if e_log e = 0 then bl_add crc opened (event_magic log_event) sr b
          else bind_outcome (bl_rewrite crc opened (of_nat (e_log e)) (event_magic log_event) sr b)
                 (\<lambda>(_, b). Some (Value (of_nat (e_log e), b))) }"

definition tb_pop :: "(bytes \<Rightarrow> int32) \<Rightarrow> bool \<Rightarrow> nat \<Rightarrow> binlog \<Rightarrow> binlog outcome option" where
  "tb_pop crc opened log_event_id b =
     bind_outcome (bl_erase crc opened (of_nat log_event_id) b) (\<lambda>(_, b). Some (Value b))"

definition tb_pop_batch :: "(bytes \<Rightarrow> int32) \<Rightarrow> bool \<Rightarrow> nat list \<Rightarrow> binlog \<Rightarrow> binlog outcome option" where
  "tb_pop_batch crc opened log_event_ids b =
     bind_outcome (bl_erase_batch crc opened (map of_nat log_event_ids) b) (\<lambda>(_, b). Some (Value b))"

definition tb_close :: "binlog \<Rightarrow> binlog" where
  "tb_close b = bl_flush b"

text \<open>The event of a binlog event, with its queue.\<close>

definition decode_event :: "binlog_event \<Rightarrow> (int \<times> raw_event) result option" where
  "decode_event be =
     do { d \<leftarrow> get_data be;
          let has_extra = be_type be - BINLOG_EVENT_TYPE;
          if has_extra \<noteq> 0 \<and> has_extra \<noteq> 1 then Some (Error ''Wrong magic'')
          else do { (e, p) \<leftarrow> parse_log_event has_extra (new_tl_parser d);
                    p \<leftarrow> fetch_end p;
                    (case get_status p of
                       Inl err \<Rightarrow> Some (Inl err)
                     | Inr _ \<Rightarrow>
                         do { r \<leftarrow> from_int32 (sint (le_event_id e));
                              (case r of
                                 Inl err \<Rightarrow> Some (Inl err)
                               | Inr event_id \<Rightarrow> Some (Inr (sint (le_queue_id e),
                                   \<lparr>e_log = unat (be_id be), e_id = event_id, e_expires = sint (le_expires_at e),
                                    e_data = le_data e, e_extra = sint (le_extra e)\<rparr>))) }) } }"

definition tb_replay :: "binlog_event \<Rightarrow> tqueue \<Rightarrow> (unit result \<times> tqueue) option" where
  "tb_replay be q =
     do { r \<leftarrow> decode_event be;
          (case r of
             Inl err \<Rightarrow> Some (Inl err, q)
           | Inr (queue_id, raw_event) \<Rightarrow>
               do { (is_added, q) \<leftarrow> do_push queue_id raw_event q;
                    Some (if is_added then Inr () else Error ''Failed to add event'', q) }) }"

text \<open>A binlog replayed with a callback that expects every event to be good.\<close>

fun tb_replay_all :: "binlog_event list \<Rightarrow> tqueue \<Rightarrow> tqueue option" where
  "tb_replay_all [] q = Some q"
| "tb_replay_all (be # bes) q = do { (r, q) \<leftarrow> tb_replay be q; check (is_ok r); tb_replay_all bes q }"

subsection \<open>Log events\<close>

definition log_event_bytes :: "tqueue_log_event \<Rightarrow> bytes" where
  "log_event_bytes e = le_bytes 8 (le_queue_id e) @ le_bytes 4 (le_event_id e) @ le_bytes 4 (le_expires_at e) @
     string_bytes (le_data e) @ (if le_extra e \<noteq> 0 then le_bytes 8 (le_extra e) else [])"

lemma store_log_event_calc:
  "length (le_data e) < 2 ^ 32 \<Longrightarrow> store_log_event e (Calc n) = Some (Calc (n + length (log_event_bytes e)))"
  by (simp add: store_log_event_def int64.store_calc int32.store_calc str.store_calc log_event_bytes_def)

lemma store_log_event_unsafe:
  "length (le_data e) < 2 ^ 32 \<Longrightarrow> length (log_event_bytes e) \<le> room \<Longrightarrow>
     store_log_event e (Unsafe out room) = Some (Unsafe (out @ log_event_bytes e) (room - length (log_event_bytes e)))"
  by (auto simp: store_log_event_def int64.store_unsafe int32.store_unsafe str.store_unsafe log_event_bytes_def)

lemma log_event_storer_writes:
  assumes "length (le_data e) < 2 ^ 32"
  obtains sr where "log_event_storer e = Some sr" "writes sr (log_event_bytes e)"
  using that assms
  by (simp add: log_event_storer_def default_storer_def tl_calc_length_def tl_store_unsafe_def writes_def
      store_log_event_calc store_log_event_unsafe)

lemma length_log_event_bytes:
  assumes "length (le_data e) < 2 ^ 32"
  shows "length (log_event_bytes e) mod 4 = 0" "length (log_event_bytes e) \<le> length (le_data e) + 36"
proof -
  have s: "length (string_bytes (le_data e)) = string_stored_length (length (le_data e))"
    using length_string_bytes [OF assms] by simp
  have "string_stored_length n mod 4 = 0" "string_stored_length n \<le> n + 11" for n
    unfolding string_stored_length_def by (auto simp: Let_def)
  from this [of "length (le_data e)"] show "length (log_event_bytes e) mod 4 = 0" "length (log_event_bytes e) \<le> length (le_data e) + 36"
    using s by (auto simp: log_event_bytes_def mod_add_eq [symmetric])
qed

lemma tl_ok_rest: "tl_ok p \<Longrightarrow> tp_error p = [] \<Longrightarrow> tp_data p = a @ rest \<Longrightarrow> tl_ok (p\<lparr>tp_data := rest, tp_left := length rest\<rparr>)"
  by (auto simp: tl_ok_def)

lemma parse_log_event_bytes:
  assumes len: "length (le_data e) < 2 ^ 32" and p: "tl_ok p" "tp_error p = []" "tp_data p = log_event_bytes e"
  shows "parse_log_event (if le_extra e \<noteq> 0 then 1 else 0) p = Some (e, p\<lparr>tp_data := [], tp_left := 0\<rparr>)"
proof -
  let ?at = "\<lambda>r. p\<lparr>tp_data := r, tp_left := length r\<rparr>"
  let ?x = "if le_extra e \<noteq> 0 then le_bytes 8 (le_extra e) else []"
  let ?s = "string_bytes (le_data e) @ ?x" let ?e = "le_bytes 4 (le_expires_at e) @ ?s" let ?i = "le_bytes 4 (le_event_id e) @ ?e"
  have ok: "tl_ok (?at r)" if "log_event_bytes e = a @ r" for a r
    by (rule tl_ok_rest [OF p(1,2)]) (simp add: p(3) that)
  have "parse_int64 p = Some (le_queue_id e, ?at ?i)"
    by (rule int64.parse_enc [OF _ p(1,2)]) (simp_all add: p(3) log_event_bytes_def)
  moreover have "parse_int32 (?at ?i) = Some (le_event_id e, ?at ?e)"
    using int32.parse_enc [where p = "?at ?i" and x = "le_event_id e" and rest = ?e] ok [of "le_bytes 8 (le_queue_id e)" ?i] p(2)
    by (simp add: log_event_bytes_def)
  moreover have "parse_int32 (?at ?e) = Some (le_expires_at e, ?at ?s)"
    using int32.parse_enc [where p = "?at ?e" and x = "le_expires_at e" and rest = ?s]
      ok [of "le_bytes 8 (le_queue_id e) @ le_bytes 4 (le_event_id e)" ?e] p(2)
    by (simp add: log_event_bytes_def)
  moreover have "fetch_string (?at ?s) = Some (le_data e, ?at ?x)"
    using fetch_string_bytes [of "?at ?s" "le_data e" ?x] len
      ok [of "le_bytes 8 (le_queue_id e) @ le_bytes 4 (le_event_id e) @ le_bytes 4 (le_expires_at e)" ?s] p(2)
    by (simp add: log_event_bytes_def)
  moreover have "parse_int64 (?at ?x) = Some (le_extra e, ?at [])" if "le_extra e \<noteq> 0"
    using int64.parse_enc [where p = "?at ?x" and x = "le_extra e" and rest = "[]"]
      ok [of "le_bytes 8 (le_queue_id e) @ le_bytes 4 (le_event_id e) @ le_bytes 4 (le_expires_at e) @ string_bytes (le_data e)" ?x]
      p(2) that
    by (simp add: log_event_bytes_def)
  ultimately show ?thesis by (cases e) (simp add: parse_log_event_def)
qed

subsection \<open>Events in their ranges\<close>

definition event_in_range :: "int \<Rightarrow> raw_event \<Rightarrow> bool" where
  "event_in_range queue_id e \<longleftrightarrow> in_int64 queue_id \<and> is_valid_id (e_id e) \<and> in_int32 (e_expires e) \<and> in_int64 (e_extra e) \<and>
     length (e_data e) \<le> MAX_EVENT_LENGTH"

lemma sint_int64: "in_int64 x \<Longrightarrow> sint (word_of_int x :: int64) = x"
  by (simp add: int_range_defs sint_uint unsigned_of_int signed_take_bit_take_bit signed_take_bit_int_eq_self)

lemma sint_int32: "in_int32 x \<Longrightarrow> sint (word_of_int x :: int32) = x"
  by (simp add: int_range_defs sint_uint unsigned_of_int signed_take_bit_take_bit signed_take_bit_int_eq_self)

lemma decode_log_event:
  assumes e: "event_in_range queue_id e"
    and be: "get_data be = Some (log_event_bytes (log_event_of queue_id e))" "be_type be = event_magic (log_event_of queue_id e)"
  shows "decode_event be = Some (Inr (queue_id, e\<lparr>e_log := unat (be_id be)\<rparr>))"
proof -
  let ?le = "log_event_of queue_id e"
  have len: "length (le_data ?le) < 2 ^ 32" using e by (simp add: log_event_of_def event_in_range_def MAX_EVENT_LENGTH_def)
  have "length (log_event_bytes ?le) < SIZE_MAX"
    using length_log_event_bytes(2) [OF len] e by (simp add: log_event_of_def event_in_range_def MAX_EVENT_LENGTH_def SIZE_MAX_def)
  moreover define h :: int32 where "h = (if le_extra ?le \<noteq> 0 then 1 else 0)"
  ultimately have "parse_log_event h (new_tl_parser (log_event_bytes ?le)) =
      Some (?le, (new_tl_parser (log_event_bytes ?le))\<lparr>tp_data := [], tp_left := 0\<rparr>)"
    unfolding h_def by (intro parse_log_event_bytes [OF len] tl_ok_new) (simp_all add: new_tl_parser_def)
  moreover have "be_type be - BINLOG_EVENT_TYPE = h" "h = 0 \<or> h = 1" by (simp_all add: be(2) event_magic_def h_def)
  moreover have "from_int32 (e_id e) = Some (Inr (e_id e))"
    using e by (simp add: from_int32_def event_id_of_def event_in_range_def)
  moreover have "in_int32 (e_id e)"
    using e by (simp add: event_in_range_def is_valid_id_def MAX_ID_def int_range_defs)
  ultimately show ?thesis
    using e be(1) by (auto simp: decode_event_def fetch_end_def get_status_def new_tl_parser_def log_event_of_def
        event_in_range_def sint_int64 sint_int32 Let_def)
qed

lemma log_event_storable:
  assumes e: "event_in_range queue_id e"
  obtains sr where "log_event_storer (log_event_of queue_id e) = Some sr" "storable sr (log_event_bytes (log_event_of queue_id e))"
proof -
  let ?le = "log_event_of queue_id e"
  have len: "length (le_data ?le) \<le> 524288" using e by (simp add: log_event_of_def event_in_range_def MAX_EVENT_LENGTH_def)
  then have small: "length (le_data ?le) < 2 ^ 32" by simp
  obtain sr where sr: "log_event_storer ?le = Some sr" "writes sr (log_event_bytes ?le)" by (rule log_event_storer_writes [OF small])
  have "length (log_event_bytes ?le) + 32 \<le> MAX_SIZE" "length (log_event_bytes ?le) mod 4 = 0"
    using length_log_event_bytes [OF small] len by (simp_all add: MAX_SIZE_def)
  then show thesis using that sr by (simp add: storable_def)
qed

subsection \<open>The binlog stores what the memory storage stores\<close>

definition stored_entry :: "int64 \<times> bytes \<Rightarrow> nat \<times> int \<times> raw_event \<Rightarrow> bool" where
  "stored_entry x y \<longleftrightarrow> (let (i, raw) = x; (n, queue_id, e) = y in
     i = of_nat n * 2 \<and> 0 < n \<and> n < 2 ^ 63 \<and> decode_event (event_at raw 0) = Some (Inr (queue_id, e\<lparr>e_log := n\<rparr>)))"

definition stored_as :: "(int64 \<times> bytes) list \<Rightarrow> memory_storage \<Rightarrow> bool" where
  "stored_as m ms \<longleftrightarrow> list_all2 stored_entry m (ms_events ms)"

lemma unat_double: "n < 2 ^ 63 \<Longrightarrow> unat (of_nat n * 2 :: int64) = 2 * n"
  by (simp add: unat_word_ariths(2) unat_of_nat)

lemma double_less: "n < 2 ^ 63 \<Longrightarrow> k < 2 ^ 63 \<Longrightarrow> (of_nat n * 2 :: int64) < of_nat k * 2 \<longleftrightarrow> n < k"
  by (simp add: word_less_nat_alt unat_double)

lemma double_eq: "n < 2 ^ 63 \<Longrightarrow> k < 2 ^ 63 \<Longrightarrow> (of_nat n * 2 :: int64) = of_nat k * 2 \<longleftrightarrow> n = k"
  by (metis double_less linorder_neqE_nat less_irrefl)

lemma stored_put:
  assumes "list_all2 stored_entry m es" "stored_entry (i, raw) (n, y)"
  shows "list_all2 stored_entry (omap_put i raw m) (omap_put n y es)"
  using assms(1)
proof (induction rule: list_all2_induct)
  case Nil
  then show ?case using assms(2) by simp
next
  case (Cons x xs z zs)
  obtain j r k w where xz: "x = (j, r)" "z = (k, w)" by (cases x, cases z) auto
  then have "j = of_nat k * 2" "k < 2 ^ 63" using Cons(1) by (auto simp: stored_entry_def split: prod.splits)
  moreover have "i = of_nat n * 2" "n < 2 ^ 63" using assms(2) by (auto simp: stored_entry_def split: prod.splits)
  ultimately show ?case using Cons assms(2) by (auto simp: xz double_less double_eq)
qed

lemma stored_del:
  assumes "list_all2 stored_entry m es" "n < 2 ^ 63"
  shows "list_all2 stored_entry (omap_del (of_nat n * 2) m) (omap_del n es)"
  using assms(1)
proof (induction rule: list_all2_induct)
  case (Cons x xs z zs)
  obtain j r k w where xz: "x = (j, r)" "z = (k, w)" by (cases x, cases z) auto
  then have "j = of_nat k * 2" "k < 2 ^ 63" using Cons(1) by (auto simp: stored_entry_def split: prod.splits)
  then show ?case using Cons assms(2) by (simp add: xz omap_del_def double_eq)
qed (simp add: omap_del_def)

lemma stored_key:
  assumes "list_all2 stored_entry m es" "n \<in> fst ` set es"
  shows "of_nat n * 2 \<in> fst ` set m" "0 < n" "n < 2 ^ 63"
proof -
  obtain y where "(n, y) \<in> set es" using assms(2) by auto
  then obtain x where x: "x \<in> set m" "stored_entry x (n, y)" using assms(1) by (metis list_all2_conv_all_nth in_set_conv_nth)
  then show "of_nat n * 2 \<in> fst ` set m" "0 < n" "n < 2 ^ 63"
    by (auto simp: stored_entry_def image_iff split: prod.splits intro!: bexI [of _ x])
qed

lemma decode_raw_of:
  assumes "event_in_range queue_id e"
  shows "decode_event (event_at (raw_of crc i (event_magic (log_event_of queue_id e)) flags (log_event_bytes (log_event_of queue_id e))) n) =
    Some (Inr (queue_id, e\<lparr>e_log := unat i\<rparr>))"
proof -
  let ?raw = "raw_of crc i (event_magic (log_event_of queue_id e)) flags (log_event_bytes (log_event_of queue_id e))"
  have "get_data (event_at ?raw n) = Some (log_event_bytes (log_event_of queue_id e))"
    using get_data_parsed by (simp add: get_data_def event_at_def parsed_def)
  then show ?thesis using decode_log_event [OF assms] by (simp add: event_at_raw_of)
qed

lemma event_magic_user: "\<not> event_magic e <s 0"
  by (simp add: event_magic_def BINLOG_EVENT_TYPE_def word_sless_alt)

lemma storage_push_new:
  assumes b: "binlog_reachable crc m b" and ms: "stored_as m ms" and e: "event_in_range queue_id e" "e_log e = 0"
    and limit: "ms_next ms = unat (bl_last_event_id b) + 1" "ms_next ms < 2 ^ 63"
  shows "\<exists>b' m'. tb_push crc opened queue_id e b = Some (Value (of_nat (fst (ms_push queue_id e ms)), b')) \<and>
    binlog_reachable crc m' b' \<and> stored_as m' (snd (ms_push queue_id e ms))"
proof -
  let ?le = "log_event_of queue_id e" let ?i = "bl_last_event_id b + 1"
  have small: "unat (bl_last_event_id b) + 1 < 2 ^ 63" using limit by simp
  have i: "?i = of_nat (ms_next ms)" by (simp add: limit(1))
  then have ui: "unat ?i = ms_next ms" using limit(2) by (simp only: unat_of_nat) simp
  obtain sr where sr: "log_event_storer ?le = Some sr" "storable sr (log_event_bytes ?le)" by (rule log_event_storable [OF e(1)])
  obtain raws where raws: "log_of crc m raws b" using reachable_log [OF b] by blast
  let ?raw = "raw_of crc ?i (event_magic ?le) 0 (log_event_bytes ?le)"
  obtain b' where b': "bl_add crc opened (event_magic ?le) sr b = Some (Value (?i, b'))"
    by (rule log_add [OF raws sr(2) event_magic_user [of ?le] small, of opened])
  have "binlog_reachable crc (omap_put (?i * 2) ?raw m) b'"
    by (rule added [OF b sr(2) event_magic_user small b'])
  moreover have "stored_entry (?i * 2, ?raw) (ms_next ms, queue_id, e)"
    using decode_raw_of [OF e(1), of crc ?i 0 0] limit ui i by (simp add: stored_entry_def add.commute)
  then have "list_all2 stored_entry (omap_put (?i * 2) ?raw m) (omap_put (ms_next ms) (queue_id, e) (ms_events ms))"
    using stored_put ms by (simp add: stored_as_def)
  ultimately show ?thesis using b' sr(1) e(2) i
    by (auto simp: tb_push_def ms_push_def stored_as_def Let_def)
qed

lemma storage_push_old:
  assumes b: "binlog_reachable crc m b" and ms: "stored_as m ms" and e: "event_in_range queue_id e"
    and old: "e_log e \<noteq> 0" "e_log e \<in> fst ` set (ms_events ms)" and small: "unat (bl_last_event_id b) + 1 < 2 ^ 63"
  shows "\<exists>b' m'. tb_push crc opened queue_id e b = Some (Value (of_nat (fst (ms_push queue_id e ms)), b')) \<and>
    binlog_reachable crc m' b' \<and> stored_as m' (snd (ms_push queue_id e ms))"
proof -
  let ?le = "log_event_of queue_id e" let ?i = "of_nat (e_log e) :: int64"
  have key: "?i * 2 \<in> fst ` set m" "0 < e_log e" "e_log e < 2 ^ 63"
    using stored_key [OF ms [unfolded stored_as_def] old(2)] by simp_all
  have ui: "unat ?i = e_log e" using key(3) by (simp add: unat_of_nat)
  then have i: "0 < unat ?i" "unat ?i < 2 ^ 63" using key by simp_all
  obtain sr where sr: "log_event_storer ?le = Some sr" "storable sr (log_event_bytes ?le)" by (rule log_event_storable [OF e])
  obtain raws where raws: "log_of crc m raws b" using reachable_log [OF b] by blast
  let ?raw = "raw_of crc ?i (event_magic ?le) Rewrite_flag (log_event_bytes ?le)"
  obtain b' where b': "bl_rewrite crc opened ?i (event_magic ?le) sr b = Some (Value (bl_last_event_id b + 1, b'))"
    by (rule log_rewrite [OF raws sr(2) event_magic_user [of ?le] small i key(1), of opened])
  have "binlog_reachable crc (omap_put (?i * 2) ?raw m) b'"
    by (rule rewritten [OF b sr(2) event_magic_user small i key(1) b'])
  moreover have "stored_entry (?i * 2, ?raw) (e_log e, queue_id, e)"
    using decode_raw_of [OF e, of crc ?i Rewrite_flag 0] key ui by (simp add: stored_entry_def)
  then have "list_all2 stored_entry (omap_put (?i * 2) ?raw m) (omap_put (e_log e) (queue_id, e) (ms_events ms))"
    using stored_put ms by (simp add: stored_as_def)
  ultimately show ?thesis using b' sr(1) old(1)
    by (auto simp: tb_push_def ms_push_def stored_as_def Let_def)
qed

lemma binlog_storage_pop:
  assumes b: "binlog_reachable crc m b" and ms: "stored_as m ms" and n: "n \<in> fst ` set (ms_events ms)"
    and small: "unat (bl_last_event_id b) + 1 < 2 ^ 63"
  shows "\<exists>b' m'. tb_pop crc opened n b = Some (Value b') \<and> binlog_reachable crc m' b' \<and> stored_as m' (ms_pop n ms) \<and>
    bl_last_event_id b' = bl_last_event_id b + 1"
proof -
  let ?i = "of_nat n :: int64"
  have key: "?i * 2 \<in> fst ` set m" "0 < n" "n < 2 ^ 63" using stored_key [OF ms [unfolded stored_as_def] n] by simp_all
  then have i: "0 < unat ?i" "unat ?i < 2 ^ 63" by (simp_all add: unat_of_nat)
  obtain raws where raws: "log_of crc m raws b" using reachable_log [OF b] by blast
  obtain b' where b': "bl_erase crc opened ?i b = Some (Value (bl_last_event_id b + 1, b'))" "bl_last_event_id b' = bl_last_event_id b + 1"
    by (rule log_erase [OF raws small i key(1), of opened])
  have "binlog_reachable crc (omap_del (?i * 2) m) b'" by (rule erased [OF b small i key(1) b'(1)])
  moreover have "list_all2 stored_entry (omap_del (?i * 2) m) (omap_del n (ms_events ms))"
    using stored_del key(3) ms by (simp add: stored_as_def)
  ultimately show ?thesis using b' by (auto simp: tb_pop_def ms_pop_def stored_as_def)
qed

subsection \<open>Replaying\<close>

lemma decode_event_fields:
  assumes "be_raw e = be_raw e'" "be_type e = be_type e'" "be_id e = be_id e'"
  shows "decode_event e = decode_event e'"
  unfolding decode_event_def get_data_def assms ..

lemma decode_stored:
  assumes "stored crc e" shows "decode_event e = decode_event (event_at (be_raw e) 0)"
proof -
  obtain raw n where "e = event_at raw n \<or> e = clear_flag Rewrite_flag (event_at raw n)" using assms by (auto simp: stored_def)
  then show ?thesis by (intro decode_event_fields) (auto simp: clear_flag_def event_at_def parsed_def)
qed

lemma replay_stored:
  assumes "list_all2 stored_entry (delivered es) xs" "\<forall>e \<in> set es. stored crc e"
  shows "tb_replay_all es q = replay_events xs q"
  using assms
proof (induction es arbitrary: xs q)
  case Nil
  then show ?case by (simp add: delivered_def)
next
  case (Cons e es)
  then obtain n queue_id ev ys where xs: "xs = (n, queue_id, ev) # ys" "list_all2 stored_entry (delivered es) ys"
    "stored_entry (fixed_id e, be_raw e) (n, queue_id, ev)"
    by (auto simp: delivered_def list_all2_Cons1)
  have "decode_event e = Some (Inr (queue_id, ev\<lparr>e_log := n\<rparr>))"
    using xs(3) decode_stored [of crc e] Cons.prems(2) by (simp add: stored_entry_def)
  moreover have "tb_replay_all es s = replay_events ys s" for s using Cons.IH [OF xs(2)] Cons.prems(2) by simp
  ultimately show ?case
    by (cases "do_push queue_id (ev\<lparr>e_log := n\<rparr>) q") (auto simp: xs(1) tb_replay_def check_def)
qed

subsection \<open>Properties\<close>

text \<open>The storer of a log event writes bytes that fit in a binlog event, and from an event with these bytes and
  its magic, replay pushes the same event back, with the identifier of the binlog event.\<close>

lemma log_event_roundtrip:
  assumes "event_in_range queue_id e"
  shows "\<exists>sr data. log_event_storer (log_event_of queue_id e) = Some sr \<and> storable sr data \<and>
    (\<forall>be q. get_data be = Some data \<and> be_type be = event_magic (log_event_of queue_id e) \<longrightarrow>
      tb_replay be q = do { (is_added, q) \<leftarrow> do_push queue_id (e\<lparr>e_log := unat (be_id be)\<rparr>) q;
                            Some (if is_added then Inr () else Error ''Failed to add event'', q) })"
proof -
  obtain sr where sr: "log_event_storer (log_event_of queue_id e) = Some sr" "storable sr (log_event_bytes (log_event_of queue_id e))"
    by (rule log_event_storable [OF assms])
  then show ?thesis using decode_log_event [OF assms] by (fastforce simp: tb_replay_def)
qed

abbreviation sample_raw_event :: raw_event where
  "sample_raw_event \<equiv> \<lparr>e_log = 0, e_id = 7, e_expires = 100, e_data = [104, 105], e_extra = - 3\<rparr>"

lemma sample_in_range: "event_in_range 5 sample_raw_event"
  by (simp add: event_in_range_def int_range_defs is_valid_id_def MAX_ID_def MAX_EVENT_LENGTH_def)

lemma log_event_roundtrip_witness:
  "\<exists>sr data. log_event_storer (log_event_of 5 sample_raw_event) = Some sr \<and> storable sr data \<and>
    (\<forall>be q. get_data be = Some data \<and> be_type be = event_magic (log_event_of 5 sample_raw_event) \<longrightarrow>
      tb_replay be q = do { (is_added, q) \<leftarrow> do_push 5 (sample_raw_event\<lparr>e_log := unat (be_id be)\<rparr>) q;
                            Some (if is_added then Inr () else Error ''Failed to add event'', q) })"
  by (rule log_event_roundtrip [OF sample_in_range])


lemma fresh_reachable: "binlog_reachable crc [] ((new_binlog [])\<lparr>bl_state := Run_state\<rparr>)"
  by (rule created [OF fresh_binlog])

lemma fresh_stored: "stored_as [] new_storage"
  by (simp add: stored_as_def new_storage_def)


text \<open>C4: reloading the file of a binlog storage, with what is in its buffer, and replaying the events has exactly the
  effect of replaying the memory storage that stores the same.\<close>

lemma binlog_replay_restores:
  assumes "binlog_reachable crc m b" and "stored_as m ms"
  shows "\<exists>es b'. bl_init crc \<lparr>d_path = Some (bl_file b @ bl_buffer b), d_new = other\<rparr> = Some (Value (es, b')) \<and>
    (\<forall>q. tb_replay_all es q = ms_replay ms q)"
proof -
  obtain raws where "log_of crc m raws b" using reachable_log [OF assms(1)] by blast
  then have raws: "history crc raws" "bl_file b @ bl_buffer b = concat raws" "log_map raws = m"
    by (simp_all add: log_of_def logged_def)
  obtain es b' where es: "bl_init crc \<lparr>d_path = Some (bl_file b @ bl_buffer b), d_new = other\<rparr> = Some (Value (es, b'))"
    "delivered es = m" "\<forall>e \<in> set es. stored crc e"
    using init_history [OF raws(1) torn_Nil, of other] raws(2,3) by auto
  have "tb_replay_all es q = ms_replay ms q" for q
    using replay_stored [OF _ es(3)] assms(2) es(2) by (simp add: stored_as_def ms_replay_def)
  then show ?thesis using es(1) by blast
qed

lemma binlog_replay_restores_witness:
  "\<exists>m b. binlog_reachable (\<lambda>_. 0) m b \<and> stored_as m (snd (ms_push 5 sample_raw_event new_storage)) \<and>
    (\<exists>es b'. bl_init (\<lambda>_. 0) \<lparr>d_path = Some (bl_file b @ bl_buffer b), d_new = None\<rparr> = Some (Value (es, b')) \<and>
      (\<forall>q. tb_replay_all es q = ms_replay (snd (ms_push 5 sample_raw_event new_storage)) q))"
proof -
  obtain m b where b: "binlog_reachable (\<lambda>_. 0) m b" "stored_as m (snd (ms_push 5 sample_raw_event new_storage))"
    using storage_push_new [OF fresh_reachable fresh_stored sample_in_range, of "\<lambda>_. 0" True]
    by (auto simp: new_storage_def new_binlog_def)
  show ?thesis using b binlog_replay_restores [OF b, of None] by blast
qed
end
