(* ===== verification/Td_MessageId.thy ===== *)
theory Td_MessageId
  imports Td_Prelude
begin

text \<open>
  Message identifiers: \<open>MessageId\<close> of \<open>td/telegram/MessageId.h\<close> and \<open>MessageId.cpp\<close>, with the two classes of
  server identifiers.

  An identifier is its \<open>int64\<close>, as an integer.  Its bits are
  \<^item> \<open>server id (31) | local id (17) | 0 | type (2)\<close> for an ordinary message and
  \<^item> \<open>send date - 2^30 (30) | server id (18) | 1 | type (2)\<close> for a scheduled one.
  The comparisons of two identifiers check that both are of the same kind.
\<close>

subsection \<open>Identifiers\<close>

type_synonym mid = int

datatype message_type = NoneType | ServerType | YetUnsentType | LocalType

definition SERVER_ID_SHIFT :: nat where "SERVER_ID_SHIFT = 20"
definition SHORT_TYPE_MASK :: int where "SHORT_TYPE_MASK = 3"
definition TYPE_MASK :: int where "TYPE_MASK = 7"
definition FULL_TYPE_MASK :: int where "FULL_TYPE_MASK = 1048575"
definition SCHEDULED_MASK :: int where "SCHEDULED_MASK = 4"
definition TYPE_YET_UNSENT :: int where "TYPE_YET_UNSENT = 1"
definition TYPE_LOCAL :: int where "TYPE_LOCAL = 2"

lemmas mid_consts = SERVER_ID_SHIFT_def SHORT_TYPE_MASK_def TYPE_MASK_def FULL_TYPE_MASK_def SCHEDULED_MASK_def
  TYPE_YET_UNSENT_def TYPE_LOCAL_def

definition min_mid :: mid where "min_mid = TYPE_YET_UNSENT"

definition max_mid :: mid where "max_mid = push_bit SERVER_ID_SHIFT int32_max"

lemma max_mid_eq [simp]: "max_mid = 2251799812636672"
  by (simp add: max_mid_def SERVER_ID_SHIFT_def int32_max_def push_bit_eq_mult)

definition server_valid :: "int \<Rightarrow> bool" where
  "server_valid i \<longleftrightarrow> i > 0"

definition scheduled_server_valid :: "int \<Rightarrow> bool" where
  "scheduled_server_valid i \<longleftrightarrow> i > 0 \<and> i < 262144"

definition server_mid :: "int \<Rightarrow> mid" where
  "server_mid i = push_bit SERVER_ID_SHIFT i"

text \<open>An error leaves the identifier zero.\<close>

definition scheduled_mid :: "int \<Rightarrow> int \<Rightarrow> bool \<Rightarrow> mid" where
  "scheduled_mid server_id send_date forced =
     (if send_date \<le> 1073741824 then 0
      else if \<not> scheduled_server_valid server_id \<and> \<not> forced then 0
      else push_bit 21 (send_date - 1073741824) OR push_bit 3 server_id OR SCHEDULED_MASK)"

definition is_scheduled :: "mid \<Rightarrow> bool" where
  "is_scheduled i \<longleftrightarrow> i AND SCHEDULED_MASK \<noteq> 0"

definition is_valid :: "mid \<Rightarrow> bool" where
  "is_valid i =
     (if i \<le> 0 \<or> i > max_mid then False
      else if i AND FULL_TYPE_MASK = 0 then True
      else let t = i AND TYPE_MASK in t = TYPE_YET_UNSENT \<or> t = TYPE_LOCAL)"

definition is_valid_scheduled :: "mid \<Rightarrow> bool" where
  "is_valid_scheduled i =
     (if i \<le> 0 \<or> i > 2251799813685248 then False
      else let t = i AND TYPE_MASK in
        t = SCHEDULED_MASK \<or> t = SCHEDULED_MASK OR TYPE_YET_UNSENT \<or> t = SCHEDULED_MASK OR TYPE_LOCAL)"

definition is_valid_sponsored :: "mid \<Rightarrow> bool" where
  "is_valid_sponsored i = (if i \<le> max_mid \<or> i > 2251799813685248 then False else i AND TYPE_MASK = TYPE_LOCAL)"

definition mid_type :: "mid \<Rightarrow> message_type" where
  "mid_type i =
     (if i \<le> 0 \<or> i > 2251799813685248 then NoneType
      else let t = i AND TYPE_MASK in
        if is_scheduled i then
          if t = SCHEDULED_MASK OR TYPE_YET_UNSENT then YetUnsentType
          else if t = SCHEDULED_MASK OR TYPE_LOCAL then LocalType
          else if t = SCHEDULED_MASK then ServerType
          else NoneType
        else if i AND FULL_TYPE_MASK = 0 then ServerType
        else if t = TYPE_YET_UNSENT then YetUnsentType
        else if t = TYPE_LOCAL then LocalType
        else NoneType)"

definition is_yet_unsent :: "mid \<Rightarrow> bool option" where
  "is_yet_unsent i = do { check (is_valid i \<or> is_scheduled i); Some (i AND SHORT_TYPE_MASK = TYPE_YET_UNSENT) }"

definition is_local :: "mid \<Rightarrow> bool option" where
  "is_local i = do { check (is_valid i \<or> is_scheduled i); Some (i AND SHORT_TYPE_MASK = TYPE_LOCAL) }"

definition is_server :: "mid \<Rightarrow> bool option" where
  "is_server i = do { check (is_valid i); Some (i AND FULL_TYPE_MASK = 0) }"

definition is_scheduled_server :: "mid \<Rightarrow> bool option" where
  "is_scheduled_server i = do { check (is_valid_scheduled i); Some (i AND SHORT_TYPE_MASK = 0) }"

definition is_any_server :: "mid \<Rightarrow> bool option" where
  "is_any_server i = (if is_scheduled i then is_scheduled_server i else is_server i)"

definition get_server_message_id_force :: "mid \<Rightarrow> int option" where
  "get_server_message_id_force i = do { check (\<not> is_scheduled i); narrow_cast_int32 (drop_bit SERVER_ID_SHIFT i) }"

definition get_server_message_id :: "mid \<Rightarrow> int option" where
  "get_server_message_id i =
     do { server \<leftarrow> (if i = 0 then Some True else is_server i);
          check server;
          get_server_message_id_force i }"

definition get_prev_server_message_id :: "mid \<Rightarrow> mid option" where
  "get_prev_server_message_id i = do { check (\<not> is_scheduled i); Some (i AND NOT FULL_TYPE_MASK) }"

definition get_next_server_message_id :: "mid \<Rightarrow> mid option" where
  "get_next_server_message_id i =
     do { check (\<not> is_scheduled i); Some ((i + FULL_TYPE_MASK) AND NOT FULL_TYPE_MASK) }"

definition get_scheduled_server_message_id_force :: "mid \<Rightarrow> int option" where
  "get_scheduled_server_message_id_force i = do { check (is_scheduled i); Some (drop_bit 3 i AND 262143) }"

definition get_scheduled_server_message_id :: "mid \<Rightarrow> int option" where
  "get_scheduled_server_message_id i =
     do { server \<leftarrow> is_scheduled_server i; check server; get_scheduled_server_message_id_force i }"

definition get_scheduled_message_date :: "mid \<Rightarrow> int option" where
  "get_scheduled_message_date i = do { check (is_valid_scheduled i); Some (drop_bit 21 i + 1073741824) }"

text \<open>The number of a type in the enumeration.\<close>

fun type_number :: "message_type \<Rightarrow> int" where
  "type_number NoneType = 0"
| "type_number ServerType = 1"
| "type_number YetUnsentType = 2"
| "type_number LocalType = 3"

definition next_scheduled_mid :: "message_type \<Rightarrow> mid \<Rightarrow> mid option" where
  "next_scheduled_mid type i =
     do { check (is_valid_scheduled i);
          let current_type = mid_type i;
          if type_number current_type < type_number type
          then Some (i - type_number current_type + type_number type)
          else do { let base_id = (i AND NOT TYPE_MASK) + TYPE_MASK + 1 + SCHEDULED_MASK;
                    (case type of
                       ServerType \<Rightarrow> Some base_id
                     | YetUnsentType \<Rightarrow> Some (base_id + TYPE_YET_UNSENT)
                     | LocalType \<Rightarrow> Some (base_id + TYPE_LOCAL)
                     | NoneType \<Rightarrow> None) } }"

definition get_next_message_id :: "message_type \<Rightarrow> mid \<Rightarrow> mid option" where
  "get_next_message_id type i =
     (if is_scheduled i then next_scheduled_mid type i
      else (case type of
          ServerType \<Rightarrow>
            do { server \<leftarrow> is_server i;
                 if server then do { n \<leftarrow> get_server_message_id i; Some (server_mid (n + 1)) }
                 else get_next_server_message_id i }
        | YetUnsentType \<Rightarrow> Some (((i + TYPE_MASK + 1 - TYPE_YET_UNSENT) AND NOT TYPE_MASK) + TYPE_YET_UNSENT)
        | LocalType \<Rightarrow> Some (((i + TYPE_MASK + 1 - TYPE_LOCAL) AND NOT TYPE_MASK) + TYPE_LOCAL)
        | NoneType \<Rightarrow> None))"

subsection \<open>Comparisons\<close>

definition mid_lt :: "mid \<Rightarrow> mid \<Rightarrow> bool option" where
  "mid_lt a b = do { check (is_scheduled a = is_scheduled b); Some (a < b) }"

definition mid_gt :: "mid \<Rightarrow> mid \<Rightarrow> bool option" where
  "mid_gt a b = do { check (is_scheduled a = is_scheduled b); Some (a > b) }"

definition mid_le :: "mid \<Rightarrow> mid \<Rightarrow> bool option" where
  "mid_le a b = do { check (is_scheduled a = is_scheduled b); Some (a \<le> b) }"

definition mid_ge :: "mid \<Rightarrow> mid \<Rightarrow> bool option" where
  "mid_ge a b = do { check (is_scheduled a = is_scheduled b); Some (a \<ge> b) }"

text \<open>
  The checks of the order of received messages; \<open>get_message_id\<close> reads the identifier of a message, which is of a
  generated class.
\<close>

fun max_message_id_from :: "('m \<Rightarrow> mid) \<Rightarrow> mid \<Rightarrow> 'm list \<Rightarrow> mid option" where
  "max_message_id_from get_message_id max_message_id [] = Some max_message_id"
| "max_message_id_from get_message_id max_message_id (m # ms) =
     do { let message_id = get_message_id m;
          gt \<leftarrow> mid_gt message_id max_message_id;
          max_message_id_from get_message_id (if gt then message_id else max_message_id) ms }"

definition get_max_message_id :: "('m \<Rightarrow> mid) \<Rightarrow> 'm list \<Rightarrow> mid option" where
  "get_max_message_id get_message_id ms = max_message_id_from get_message_id 0 ms"

fun ascending_from :: "('m \<Rightarrow> mid) \<Rightarrow> mid \<Rightarrow> 'm list \<Rightarrow> bool option" where
  "ascending_from get_message_id cur_message_id [] = Some True"
| "ascending_from get_message_id cur_message_id (m # ms) =
     do { let message_id = get_message_id m;
          le \<leftarrow> mid_le message_id cur_message_id;
          if le \<or> \<not> is_valid message_id then Some False
          else ascending_from get_message_id message_id ms }"

definition is_message_id_order_ascending :: "('m \<Rightarrow> mid) \<Rightarrow> 'm list \<Rightarrow> bool option" where
  "is_message_id_order_ascending get_message_id ms = ascending_from get_message_id 0 ms"

fun descending_from :: "('m \<Rightarrow> mid) \<Rightarrow> mid \<Rightarrow> 'm list \<Rightarrow> bool option" where
  "descending_from get_message_id cur_message_id [] = Some True"
| "descending_from get_message_id cur_message_id (m # ms) =
     do { let message_id = get_message_id m;
          ge \<leftarrow> mid_ge message_id cur_message_id;
          if ge \<or> \<not> is_valid message_id then Some False
          else descending_from get_message_id message_id ms }"

definition is_message_id_order_descending :: "('m \<Rightarrow> mid) \<Rightarrow> 'm list \<Rightarrow> bool option" where
  "is_message_id_order_descending get_message_id ms = descending_from get_message_id max_mid ms"

fun get_server_message_ids :: "mid list \<Rightarrow> int list option" where
  "get_server_message_ids [] = Some []"
| "get_server_message_ids (i # is) =
     do { n \<leftarrow> get_server_message_id i; ns \<leftarrow> get_server_message_ids is; Some (n # ns) }"

fun get_scheduled_server_message_ids :: "mid list \<Rightarrow> int list option" where
  "get_scheduled_server_message_ids [] = Some []"
| "get_scheduled_server_message_ids (i # is) =
     do { n \<leftarrow> get_scheduled_server_message_id i; ns \<leftarrow> get_scheduled_server_message_ids is; Some (n # ns) }"

subsection \<open>The bits as arithmetic\<close>

lemma int_and_masks:
  "(i :: int) AND 3 = i mod 4" "i AND 7 = i mod 8" "i AND 1048575 = i mod 1048576" "i AND 262143 = i mod 262144"
  using take_bit_eq_mask [of 2 i] take_bit_eq_mask [of 3 i] take_bit_eq_mask [of 20 i] take_bit_eq_mask [of 18 i]
  by (simp_all add: take_bit_eq_mod mask_eq_exp_minus_1)

lemma int_and_not_mask: "(i :: int) AND NOT (mask n) = i - i mod 2 ^ n"
proof -
  have "i AND NOT (mask n) = push_bit n (drop_bit n i)"
    by (rule bit_eqI) (auto simp: bit_simps not_less)
  then show ?thesis by (simp add: push_bit_eq_mult drop_bit_eq_div minus_mod_eq_div_mult)
qed

lemma int_and_not_masks:
  "(i :: int) AND NOT 7 = i - i mod 8" "i AND NOT 1048575 = i - i mod 1048576"
  "i AND - 8 = i - i mod 8" "i AND - 1048576 = i - i mod 1048576"
  using int_and_not_mask [of i 3] int_and_not_mask [of i 20] by (simp_all add: mask_eq_exp_minus_1)

lemma is_scheduled_iff: "is_scheduled i \<longleftrightarrow> 4 \<le> i mod 8"
proof -
  have "is_scheduled i \<longleftrightarrow> bit i 2"
    using and_exp_eq_0_iff_not_bit [of i 2] by (simp add: is_scheduled_def SCHEDULED_MASK_def)
  moreover have "bit i 2 \<longleftrightarrow> odd (i div 4)" by (simp add: bit_iff_odd)
  moreover have "odd (i div 4) \<longleftrightarrow> 4 \<le> i mod 8" by presburger
  ultimately show ?thesis by simp
qed

lemmas mid_arith = mid_consts int_and_masks int_and_not_masks is_scheduled_iff

lemma mid_compare:
  assumes "is_scheduled a = is_scheduled b"
  shows "mid_lt a b = Some (a < b)" "mid_gt a b = Some (a > b)" "mid_le a b = Some (a \<le> b)" "mid_ge a b = Some (a \<ge> b)"
  by (simp_all add: mid_lt_def mid_gt_def mid_le_def mid_ge_def assms)

subsection \<open>Kinds and types\<close>

lemma is_valid_iff: "is_valid i \<longleftrightarrow> 0 < i \<and> i \<le> 2251799812636672 \<and> (i mod 1048576 = 0 \<or> i mod 8 = 1 \<or> i mod 8 = 2)"
  by (auto simp: is_valid_def mid_arith Let_def)

lemma is_valid_scheduled_iff:
  "is_valid_scheduled i \<longleftrightarrow> 0 < i \<and> i \<le> 2251799813685248 \<and> (i mod 8 = 4 \<or> i mod 8 = 5 \<or> i mod 8 = 6)"
  by (auto simp: is_valid_scheduled_def mid_arith Let_def)

lemma server_mod: "(i :: int) mod 1048576 = 0 \<Longrightarrow> i mod 8 = 0"
  using mod_mod_cancel [of 8 1048576 i] by simp

lemma valid_not_scheduled: "is_valid i \<Longrightarrow> \<not> is_scheduled i"
  using server_mod [of i] by (auto simp: is_valid_iff is_scheduled_iff)

lemma valid_scheduled_scheduled: "is_valid_scheduled i \<Longrightarrow> is_scheduled i"
  by (auto simp: is_valid_scheduled_iff is_scheduled_iff)

lemma mid_type_valid:
  assumes "is_valid i"
  shows "mid_type i = ServerType \<longleftrightarrow> i mod 1048576 = 0" "mid_type i = YetUnsentType \<longleftrightarrow> i mod 8 = 1"
    "mid_type i = LocalType \<longleftrightarrow> i mod 8 = 2" "mid_type i \<noteq> NoneType"
  using assms valid_not_scheduled [OF assms] server_mod [of i]
  by (auto simp: mid_type_def is_valid_iff mid_consts int_and_masks Let_def)

lemma mid_type_valid_scheduled:
  assumes "is_valid_scheduled i"
  shows "mid_type i = ServerType \<longleftrightarrow> i mod 8 = 4" "mid_type i = YetUnsentType \<longleftrightarrow> i mod 8 = 5"
    "mid_type i = LocalType \<longleftrightarrow> i mod 8 = 6" "mid_type i \<noteq> NoneType"
  using assms valid_scheduled_scheduled [OF assms]
  by (auto simp: mid_type_def is_valid_scheduled_iff mid_consts int_and_masks Let_def)

text \<open>The identifiers of a kind and a type.\<close>

definition mid_of :: "bool \<Rightarrow> message_type \<Rightarrow> mid \<Rightarrow> bool" where
  "mid_of scheduled type i \<longleftrightarrow> (if scheduled then is_valid_scheduled i else is_valid i) \<and> mid_type i = type"

lemma mid_of_iff:
  "mid_of False ServerType i \<longleftrightarrow> 0 < i \<and> i \<le> 2251799812636672 \<and> i mod 1048576 = 0"
  "mid_of False YetUnsentType i \<longleftrightarrow> 0 < i \<and> i \<le> 2251799812636672 \<and> i mod 8 = 1"
  "mid_of False LocalType i \<longleftrightarrow> 0 < i \<and> i \<le> 2251799812636672 \<and> i mod 8 = 2"
  "mid_of True ServerType i \<longleftrightarrow> 0 < i \<and> i \<le> 2251799813685248 \<and> i mod 8 = 4"
  "mid_of True YetUnsentType i \<longleftrightarrow> 0 < i \<and> i \<le> 2251799813685248 \<and> i mod 8 = 5"
  "mid_of True LocalType i \<longleftrightarrow> 0 < i \<and> i \<le> 2251799813685248 \<and> i mod 8 = 6"
proof -
  have "mid_of False ServerType i \<longleftrightarrow> is_valid i \<and> i mod 1048576 = 0"
    "mid_of False YetUnsentType i \<longleftrightarrow> is_valid i \<and> i mod 8 = 1" "mid_of False LocalType i \<longleftrightarrow> is_valid i \<and> i mod 8 = 2"
    by (auto simp: mid_of_def mid_type_valid)
  then show "mid_of False ServerType i \<longleftrightarrow> 0 < i \<and> i \<le> 2251799812636672 \<and> i mod 1048576 = 0"
    "mid_of False YetUnsentType i \<longleftrightarrow> 0 < i \<and> i \<le> 2251799812636672 \<and> i mod 8 = 1"
    "mid_of False LocalType i \<longleftrightarrow> 0 < i \<and> i \<le> 2251799812636672 \<and> i mod 8 = 2"
    unfolding is_valid_iff by auto
  have "mid_of True ServerType i \<longleftrightarrow> is_valid_scheduled i \<and> i mod 8 = 4"
    "mid_of True YetUnsentType i \<longleftrightarrow> is_valid_scheduled i \<and> i mod 8 = 5"
    "mid_of True LocalType i \<longleftrightarrow> is_valid_scheduled i \<and> i mod 8 = 6"
    by (auto simp: mid_of_def mid_type_valid_scheduled)
  then show "mid_of True ServerType i \<longleftrightarrow> 0 < i \<and> i \<le> 2251799813685248 \<and> i mod 8 = 4"
    "mid_of True YetUnsentType i \<longleftrightarrow> 0 < i \<and> i \<le> 2251799813685248 \<and> i mod 8 = 5"
    "mid_of True LocalType i \<longleftrightarrow> 0 < i \<and> i \<le> 2251799813685248 \<and> i mod 8 = 6"
    unfolding is_valid_scheduled_iff by auto
qed

text \<open>The first number behind \<open>i\<close> with the remainder \<open>r\<close>.\<close>

lemma next_in_class:
  fixes k :: int
  assumes cls: "\<And>m. P m \<longleftrightarrow> 0 < m \<and> m \<le> limit \<and> m mod k = r" and n: "n mod k = r" "i < n" "n \<le> i + k"
    and k: "0 < k" "0 < i"
  shows "i < n \<and> (\<forall>m. i < m \<and> P m \<longrightarrow> n \<le> m) \<and> ((\<exists>m. i < m \<and> P m) \<longrightarrow> P n)"
proof -
  have least: "n \<le> m" if "i < m" "m mod k = r" for m
  proof (rule ccontr)
    assume "\<not> n \<le> m"
    then have "0 < n - m" "n - m < k" using that n by auto
    moreover have "k dvd n - m" using that(2) n(1) by (metis mod_eq_dvd_iff)
    ultimately show False using zdvd_imp_le by force
  qed
  have "\<forall>m. i < m \<and> P m \<longrightarrow> n \<le> m" using least cls by blast
  moreover have "P n" if "i < m" "P m" for m
  proof -
    have "n \<le> m" "m \<le> limit" using least [of m] that cls by blast+
    then show ?thesis using n k by (simp add: cls)
  qed
  ultimately show ?thesis using n(2) by blast
qed

lemma round_up_mod:
  fixes k :: int
  assumes "0 < k" "i mod k \<noteq> 0" shows "(i + (k - 1)) mod k = i mod k - 1"
proof -
  have "0 < i mod k" "i mod k < k" using assms by (simp_all add: order_neq_le_trans)
  then have "i mod k - 1 = (i mod k - 1) mod k" by (simp add: mod_pos_pos_trivial)
  also have "\<dots> = (i - 1 + k) mod k" by (simp add: mod_diff_left_eq)
  finally show ?thesis by (simp add: algebra_simps)
qed

text \<open>Get\_next\_message\_id gives the least identifier of the asked type behind a valid one of the same kind,
  ordinary or scheduled, as long as there is one at all.\<close>

lemma next_message_id_least:
  assumes "is_valid i \<and> i < max_mid \<or> is_valid_scheduled i" "type \<noteq> NoneType"
  shows "\<exists>n. get_next_message_id type i = Some n \<and> i < n \<and>
    (\<forall>m. i < m \<and> mid_of (is_scheduled i) type m \<longrightarrow> n \<le> m) \<and>
    ((\<exists>m. i < m \<and> mid_of (is_scheduled i) type m) \<longrightarrow> mid_of (is_scheduled i) type n)"
proof -
  have *: ?thesis if "get_next_message_id type i = Some n" "n mod k = r" "i < n" "n \<le> i + k" "0 < k"
    "\<And>m. mid_of (is_scheduled i) type m \<longleftrightarrow> 0 < m \<and> m \<le> limit \<and> m mod k = r" for n k r limit
  proof -
    have "0 < i" using assms(1) by (auto simp: is_valid_iff is_valid_scheduled_iff)
    then show ?thesis using next_in_class [OF that(6) that(2-5)] that(1) by blast
  qed
  from assms(1) show ?thesis
  proof
    assume i: "is_valid i \<and> i < max_mid"
    then have ord: "\<not> is_scheduled i" by (simp add: valid_not_scheduled)
    have pos: "0 < i" "i \<le> 2251799812636672" using i by (simp_all add: is_valid_iff)
    show ?thesis
    proof (cases type)
      case ServerType
      show ?thesis
      proof (cases "i mod 1048576 = 0")
        case True
        have "i div 1048576 * 1048576 = i" using True div_mult_mod_eq [of i 1048576] by simp
        moreover have "in_int32 (i div 1048576)"
          using zdiv_mono1 [OF pos(2), of 1048576] pos_imp_zdiv_nonneg_iff [of 1048576 i] pos(1) by (simp add: int_range_defs)
        ultimately have "get_next_message_id type i = Some (i + 1048576)"
          using True ord i by (simp add: ServerType get_next_message_id_def is_server_def get_server_message_id_def
              get_server_message_id_force_def narrow_cast_int32_def server_mid_def mid_consts int_and_masks
              drop_bit_eq_div push_bit_eq_mult)
        then show ?thesis using True ord by (intro * [where n = "i + 1048576" and k = 1048576 and r = 0 and limit = 2251799812636672]) (simp_all add: ServerType mid_of_iff)
      next
        case False
        then have "get_next_message_id type i = Some (i + 1048575 - (i + 1048575) mod 1048576)"
          using ord i by (simp add: ServerType get_next_message_id_def is_server_def get_next_server_message_id_def
              mid_consts int_and_masks int_and_not_masks)
        moreover have "(i + 1048575) mod 1048576 = i mod 1048576 - 1"
          using round_up_mod [of 1048576 i] False by simp
        ultimately have step: "get_next_message_id type i = Some (i - i mod 1048576 + 1048576)" by simp
        have "(i - i mod 1048576 + 1048576) mod 1048576 = 0" by (simp add: minus_mod_eq_div_mult)
        moreover have "0 < i mod 1048576" "i mod 1048576 < 1048576" using False by (simp_all add: order_neq_le_trans)
        ultimately show ?thesis using ord
          by (intro * [where n = "i - i mod 1048576 + 1048576" and k = 1048576 and r = 0 and limit = 2251799812636672] step)
            (simp_all add: ServerType mid_of_iff)
      qed
    next
      case YetUnsentType
      have "get_next_message_id type i = Some (i + 7 - (i + 7) mod 8 + 1)"
        using ord by (simp add: YetUnsentType get_next_message_id_def mid_consts int_and_not_masks add.commute)
      then show ?thesis using ord
        
        by (intro * [where n = "i + 7 - (i + 7) mod 8 + 1" and k = 8 and r = 1 and limit = 2251799812636672])
          (simp_all add: YetUnsentType mid_of_iff, presburger+)
    next
      case LocalType
      have "get_next_message_id type i = Some (i + 6 - (i + 6) mod 8 + 2)"
        using ord by (simp add: LocalType get_next_message_id_def mid_consts int_and_not_masks add.commute)
      then show ?thesis using ord
        
        by (intro * [where n = "i + 6 - (i + 6) mod 8 + 2" and k = 8 and r = 2 and limit = 2251799812636672])
          (simp_all add: LocalType mid_of_iff, presburger+)
    qed (use assms(2) in simp)
  next
    assume i: "is_valid_scheduled i"
    then have sch: "is_scheduled i" by (rule valid_scheduled_scheduled)
    let ?c = "type_number (mid_type i)"
    have c: "i mod 8 = 3 + ?c" "1 \<le> ?c" "?c \<le> 3"
      using mid_type_valid_scheduled [OF i] by (cases "mid_type i"; simp)+
    have t: "1 \<le> type_number type" "type_number type \<le> 3" using assms(2) by (cases type; simp)+
    define n where "n = (if ?c < type_number type then i - ?c + type_number type else i - i mod 8 + 11 + type_number type)"
    have "get_next_message_id type i = Some n"
      using sch i assms(2) by (cases type) (simp_all add: get_next_message_id_def next_scheduled_mid_def n_def Let_def
          mid_consts int_and_not_masks)
    moreover have "mid_of (is_scheduled i) type m \<longleftrightarrow> 0 < m \<and> m \<le> 2251799813685248 \<and> m mod 8 = 3 + type_number type" for m
      using sch assms(2) by (cases type) (simp_all add: mid_of_iff)
    moreover have "n mod 8 = 3 + type_number type"
    proof -
      define q where "q = i div 8"
      have "i = 3 + ?c + 8 * q" using c(1) div_mult_mod_eq [of i 8] by (simp add: q_def)
      then have "n = 3 + type_number type + 8 * (if ?c < type_number type then q else q + 1)" using c(1) by (simp add: n_def)
      then show ?thesis using t by (simp only: mod_mult_self2) simp
    qed
    ultimately show ?thesis using c t 
      by (intro * [where n = n and k = 8 and r = "3 + type_number type" and limit = 2251799813685248]) (auto simp: n_def)
  qed
qed

lemma next_message_id_least_witness:
  "(\<exists>n. get_next_message_id LocalType 1048576 = Some n \<and> 1048576 < n \<and>
    (\<forall>m. 1048576 < m \<and> mid_of (is_scheduled 1048576) LocalType m \<longrightarrow> n \<le> m) \<and>
    ((\<exists>m. 1048576 < m \<and> mid_of (is_scheduled 1048576) LocalType m) \<longrightarrow> mid_of (is_scheduled 1048576) LocalType n)) \<and>
   get_next_message_id LocalType 1048576 = Some 1048578"
  using next_message_id_least [of 1048576 LocalType]
  by (simp add: is_valid_iff get_next_message_id_def mid_arith)

subsection \<open>Scheduled messages\<close>

lemma scheduled_mid_bits:
  assumes "0 \<le> s" "s < 262144"
  shows "drop_bit 3 (push_bit 21 d OR push_bit 3 s OR 4) AND 262143 = (s :: int)"
    "drop_bit 21 (push_bit 21 d OR push_bit 3 s OR 4) = d" "(push_bit 21 d OR push_bit 3 s OR 4) AND 7 = 4"
proof -
  have s: "take_bit 18 s = s" using assms by (simp add: take_bit_int_eq_self_iff)
  then have high: "\<not> bit s n" if "18 \<le> n" for n using that by (metis bit_take_bit_iff not_less)
  have four: "bit (4 :: int) n \<longleftrightarrow> n = 2" for n using bit_exp_iff [of 2 n, where 'a = int] by simp
  have "drop_bit 3 (push_bit 21 d OR push_bit 3 s OR 4) AND mask 18 = s"
    by (rule bit_eqI) (use high in \<open>auto simp: bit_simps four not_le [symmetric] simp del: not_le\<close>)
  then show "drop_bit 3 (push_bit 21 d OR push_bit 3 s OR 4) AND 262143 = s" by (simp add: mask_eq_exp_minus_1)
  show "drop_bit 21 (push_bit 21 d OR push_bit 3 s OR 4) = d"
    by (rule bit_eqI) (use high in \<open>auto simp: bit_simps four\<close>)
  have "(push_bit 21 d OR push_bit 3 s OR 4) AND mask 3 = 4"
    by (rule bit_eqI) (auto simp: bit_simps four)
  then show "(push_bit 21 d OR push_bit 3 s OR 4) AND 7 = 4" by (simp add: mask_eq_exp_minus_1)
qed

text \<open>The identifier made of a valid scheduled server identifier and a date that is not in the past is a valid
  scheduled one, and gives both back.
\<close>

lemma scheduled_message_id_roundtrip:
  assumes "scheduled_server_valid s" "1073741824 < date" "date \<le> int32_max"
  shows "is_valid_scheduled (scheduled_mid s date forced)"
    "get_scheduled_server_message_id (scheduled_mid s date forced) = Some s"
    "get_scheduled_message_date (scheduled_mid s date forced) = Some date"
proof -
  let ?i = "push_bit 21 (date - 1073741824) OR push_bit 3 s OR 4"
  have i: "scheduled_mid s date forced = ?i" using assms by (simp add: scheduled_mid_def mid_consts)
  have s: "0 \<le> s" "s < 262144" using assms(1) by (simp_all add: scheduled_server_valid_def)
  note bits = scheduled_mid_bits [OF s, of "date - 1073741824"]
  have "?i div 2097152 = date - 1073741824" using bits(2) by (simp add: drop_bit_eq_div)
  then have "0 < ?i" "?i \<le> 2251799813685248" using assms(2,3) div_mult_mod_eq [of ?i 2097152]
      pos_mod_bound [of 2097152 ?i] pos_mod_sign [of 2097152 ?i] by (simp_all add: int32_max_def)
  then have valid: "is_valid_scheduled ?i" using bits(3) by (simp add: is_valid_scheduled_iff int_and_masks)
  then show "is_valid_scheduled (scheduled_mid s date forced)" by (simp add: i)
  have "?i mod 4 = 0" using bits(3) mod_mod_cancel [of 4 8 ?i] by (simp add: int_and_masks)
  then show "get_scheduled_server_message_id (scheduled_mid s date forced) = Some s"
    using valid valid_scheduled_scheduled [OF valid] bits(1)
    by (simp add: i get_scheduled_server_message_id_def is_scheduled_server_def SHORT_TYPE_MASK_def int_and_masks(1)
        get_scheduled_server_message_id_force_def)
  show "get_scheduled_message_date (scheduled_mid s date forced) = Some date"
    using valid bits(2) by (simp add: i get_scheduled_message_date_def)
qed

lemma scheduled_message_id_roundtrip_witness:
  "is_valid_scheduled (scheduled_mid 5 1700000000 False) \<and>
   get_scheduled_server_message_id (scheduled_mid 5 1700000000 False) = Some 5 \<and>
   get_scheduled_message_date (scheduled_mid 5 1700000000 False) = Some 1700000000"
  using scheduled_message_id_roundtrip [of 5 1700000000 False] by (simp add: scheduled_server_valid_def int32_max_def)

subsection \<open>Orders\<close>

lemma ascending_from_sorted:
  assumes "\<forall>m \<in> set ms. \<not> is_scheduled (get_message_id m)" "\<not> is_scheduled cur"
  shows "ascending_from get_message_id cur ms =
    Some (sorted_wrt (<) (cur # map get_message_id ms) \<and> (\<forall>m \<in> set ms. is_valid (get_message_id m)))"
  using assms
proof (induction ms arbitrary: cur)
  case (Cons m ms)
  then show ?case by (auto simp: mid_compare Let_def)
qed simp

lemma descending_from_sorted:
  assumes "\<forall>m \<in> set ms. \<not> is_scheduled (get_message_id m)" "\<not> is_scheduled cur"
  shows "descending_from get_message_id cur ms =
    Some (sorted_wrt (>) (cur # map get_message_id ms) \<and> (\<forall>m \<in> set ms. is_valid (get_message_id m)))"
  using assms
proof (induction ms arbitrary: cur)
  case (Cons m ms)
  then show ?case by (auto simp: mid_compare Let_def)
qed simp

lemma max_message_id_from_Max:
  assumes "\<forall>m \<in> set ms. \<not> is_scheduled (get_message_id m)" "\<not> is_scheduled cur"
  shows "max_message_id_from get_message_id cur ms = Some (Max (insert cur (get_message_id ` set ms)))"
  using assms
proof (induction ms arbitrary: cur)
  case (Cons m ms)
  then show ?case
    by (cases "ms = []") (auto simp: mid_compare Let_def insert_commute max_def)
qed simp

end
