(* ===== verification/Td_OrderedMessages.thy ===== *)
theory Td_OrderedMessages
  imports Td_MessageId
begin

text \<open>
  The messages of a chat in memory: \<open>OrderedMessages\<close> of \<open>td/telegram/OrderedMessage.h\<close> and \<open>OrderedMessage.cpp\<close>,
  a treap of messages with a link between neighbours that are known to have nothing between them on the server.

  \<^item> A \<open>unique_ptr\<close> to a node is a tree, empty for \<open>nullptr\<close>.
  \<^item> A plain pointer to a message is the identifier of the message: \<^theory_text>\<open>node\<close> follows it, and
    \<^theory_text>\<open>set_flags\<close> changes what is behind it.  The two find a message by the order of the identifiers, as the code
    does when it looks for one; identifiers are unique in the tree.
  \<^item> The stack of an iterator has its back first.
  \<^item> A lookup of an identifier that is not there, which the code excludes by a check, and the checks themselves give
    \<^theory_text>\<open>None\<close>.
\<close>

subsection \<open>Messages and pointers\<close>

record ordered_message =
  random_y :: int
  have_previous :: bool
  have_next :: bool
  message_id :: mid

datatype treap = Null | Msg treap ordered_message treap

text \<open>The loop that looks for a message.\<close>

fun node :: "treap \<Rightarrow> mid \<Rightarrow> treap" where
  "node Null i = Null"
| "node (Msg l m r) i =
     (if message_id m < i then node r i else if i < message_id m then node l i else Msg l m r)"

definition deref :: "treap \<Rightarrow> mid \<Rightarrow> ordered_message option" where
  "deref t i = (case node t i of Null \<Rightarrow> None | Msg l m r \<Rightarrow> Some m)"

fun set_flags :: "mid \<Rightarrow> (ordered_message \<Rightarrow> ordered_message) \<Rightarrow> treap \<Rightarrow> treap" where
  "set_flags i f Null = Null"
| "set_flags i f (Msg l m r) =
     (if message_id m < i then Msg l m (set_flags i f r)
      else if i < message_id m then Msg (set_flags i f l) m r else Msg l (f m) r)"

definition with_previous :: "bool \<Rightarrow> ordered_message \<Rightarrow> ordered_message" where
  "with_previous b m = m\<lparr>have_previous := b\<rparr>"

definition with_next :: "bool \<Rightarrow> ordered_message \<Rightarrow> ordered_message" where
  "with_next b m = m\<lparr>have_next := b\<rparr>"

fun root_id :: "treap \<Rightarrow> mid option" where
  "root_id Null = None"
| "root_id (Msg l m r) = Some (message_id m)"

fun left_id :: "treap \<Rightarrow> mid option" where
  "left_id Null = None"
| "left_id (Msg l m r) = root_id l"

fun right_id :: "treap \<Rightarrow> mid option" where
  "right_id Null = None"
| "right_id (Msg l m r) = root_id r"

subsection \<open>Iterators\<close>

type_synonym iter = "mid list"

text \<open>The constructor; \<open>kept\<close> is the stack up to \<open>last\_right\_pos\<close>.\<close>

fun seek :: "mid \<Rightarrow> treap \<Rightarrow> iter \<Rightarrow> iter \<Rightarrow> iter option" where
  "seek i Null stack kept = Some kept"
| "seek i (Msg l m r) stack kept =
     do { let stack = message_id m # stack;
          le \<leftarrow> mid_le (message_id m) i;
          if le then seek i r stack stack else seek i l stack kept }"

definition get_iterator :: "treap \<Rightarrow> mid \<Rightarrow> iter option" where
  "get_iterator t i = do { check (\<not> is_scheduled i); seek i t [] [] }"

definition iter_get :: "iter \<Rightarrow> mid option" where
  "iter_get it = (case it of [] \<Rightarrow> None | i # _ \<Rightarrow> Some i)"

fun push_left :: "treap \<Rightarrow> iter \<Rightarrow> iter" where
  "push_left Null stack = stack"
| "push_left (Msg l m r) stack = push_left l (message_id m # stack)"

fun push_right :: "treap \<Rightarrow> iter \<Rightarrow> iter" where
  "push_right Null stack = stack"
| "push_right (Msg l m r) stack = push_right r (message_id m # stack)"

fun climb_next :: "treap \<Rightarrow> mid \<Rightarrow> iter \<Rightarrow> iter" where
  "climb_next t cur [] = []"
| "climb_next t cur (new_cur # stack) =
     (if left_id (node t new_cur) = Some cur then new_cur # stack else climb_next t new_cur stack)"

fun climb_previous :: "treap \<Rightarrow> mid \<Rightarrow> iter \<Rightarrow> iter" where
  "climb_previous t cur [] = []"
| "climb_previous t cur (new_cur # stack) =
     (if right_id (node t new_cur) = Some cur then new_cur # stack else climb_previous t new_cur stack)"

fun iter_next :: "treap \<Rightarrow> iter \<Rightarrow> iter" where
  "iter_next t [] = []"
| "iter_next t (cur # stack) =
     (case node t cur of
        Null \<Rightarrow> []
      | Msg l m r \<Rightarrow>
          if \<not> have_next m then []
          else if r = Null then climb_next t cur stack
          else push_left r (cur # stack))"

fun iter_previous :: "treap \<Rightarrow> iter \<Rightarrow> iter" where
  "iter_previous t [] = []"
| "iter_previous t (cur # stack) =
     (case node t cur of
        Null \<Rightarrow> []
      | Msg l m r \<Rightarrow>
          if \<not> have_previous m then []
          else if l = Null then climb_previous t cur stack
          else push_right l (cur # stack))"

subsection \<open>Adding and removing a message\<close>

text \<open>The least message that is not less; the loop in auto\_attach\_message.\<close>

fun find_next_message :: "mid \<Rightarrow> treap \<Rightarrow> mid option \<Rightarrow> mid option option" where
  "find_next_message i Null next_message = Some next_message"
| "find_next_message i (Msg l m r) next_message =
     do { lt \<leftarrow> mid_lt (message_id m) i;
          if lt then find_next_message i r next_message else find_next_message i l (Some (message_id m)) }"

definition attach_to_next_only :: "ordered_message \<Rightarrow> treap \<Rightarrow> (ordered_message \<times> treap) option" where
  "attach_to_next_only m t =
     do { unsent \<leftarrow> is_yet_unsent (message_id m);
          if unsent then Some (m, t)
          else do { next_message \<leftarrow> find_next_message (message_id m) t None;
                    (case next_message of
                       None \<Rightarrow> Some (m, t)
                     | Some n \<Rightarrow>
                         do { nm \<leftarrow> deref t n;
                              check (\<not> have_previous nm);
                              Some (with_next True m, set_flags n (with_previous True) t) }) } }"

text \<open>The checks inside the branch that only logs an error.\<close>

definition attach_log :: "mid \<Rightarrow> ordered_message \<Rightarrow> iter \<Rightarrow> treap \<Rightarrow> unit option" where
  "attach_log i previous_message it t =
     do { server \<leftarrow> is_server i;
          if \<not> server then Some ()
          else do { server \<leftarrow> is_server (message_id previous_message);
                    if \<not> (server \<and> have_next previous_message) then Some ()
                    else do { next_message \<leftarrow> iter_get (iter_next t it);
                              _ \<leftarrow> is_server next_message;
                              Some () } } }"

definition auto_attach_message :: "ordered_message \<Rightarrow> mid \<Rightarrow> treap \<Rightarrow> (ordered_message \<times> treap) option" where
  "auto_attach_message m last_message_id t =
     do { let i = message_id m;
          it \<leftarrow> get_iterator t i;
          (case iter_get it of
             None \<Rightarrow> attach_to_next_only m t
           | Some p \<Rightarrow>
               do { previous_message \<leftarrow> deref t p;
                    lt \<leftarrow> mid_lt p i;
                    check lt;
                    attach \<leftarrow> (if have_next previous_message then Some True
                              else if is_valid last_message_id then mid_ge p last_message_id else Some False);
                    if attach
                    then do { attach_log i previous_message it t;
                              Some (with_previous True (with_next (have_next previous_message) m),
                                    set_flags p (with_next True) t) }
                    else attach_to_next_only m t }) }"

definition detach_neighbours :: "mid \<Rightarrow> treap \<Rightarrow> treap option" where
  "detach_neighbours i t =
     do { it \<leftarrow> get_iterator t i;
          (case iter_get it of
             None \<Rightarrow> Some t
           | Some p \<Rightarrow>
               do { previous_message \<leftarrow> deref t p;
                    if \<not> have_next previous_message then Some t
                    else do { lt \<leftarrow> mid_lt p i;
                              check lt;
                              n \<leftarrow> iter_get (iter_next t it);
                              gt \<leftarrow> mid_gt n i;
                              check gt;
                              Some (set_flags p (with_next False) (set_flags n (with_previous False) t)) } }) }"

fun split_at :: "mid \<Rightarrow> treap \<Rightarrow> treap \<times> treap" where
  "split_at i Null = (Null, Null)"
| "split_at i (Msg l m r) =
     (if message_id m < i then let (a, b) = split_at i r in (Msg l m a, b)
      else let (a, b) = split_at i l in (a, Msg b m r))"

fun insert_at :: "ordered_message \<Rightarrow> treap \<Rightarrow> treap option" where
  "insert_at x Null = Some (Msg Null x Null)"
| "insert_at x (Msg l m r) =
     (if random_y m \<ge> random_y x then
        if message_id m < message_id x then map_option (Msg l m) (insert_at x r)
        else if message_id m = message_id x then None
        else map_option (\<lambda>l. Msg l m r) (insert_at x l)
      else let (a, b) = split_at (message_id x) (Msg l m r) in Some (Msg a x b))"

definition random_priority :: "mid \<Rightarrow> int" where
  "random_priority i = signed_take_bit 31 (i * 2101234567)"

definition om_insert :: "mid \<Rightarrow> bool \<Rightarrow> mid \<Rightarrow> treap \<Rightarrow> treap option" where
  "om_insert i auto_attach old_last_message_id t =
     do { let m = \<lparr>random_y = random_priority i, have_previous = False, have_next = False, message_id = i\<rparr>;
          (m, t) \<leftarrow> (if auto_attach then auto_attach_message m old_last_message_id t
                     else map_option (Pair m) (detach_neighbours i t));
          insert_at m t }"

fun join :: "treap \<Rightarrow> treap \<Rightarrow> treap" where
  "join Null Null = Null"
| "join Null (Msg l m r) = Msg (join Null l) m r"
| "join (Msg l m r) Null = Msg l m (join r Null)"
| "join (Msg l m r) (Msg l' m' r') =
     (if random_y m' > random_y m then Msg (join (Msg l m r) l') m' r' else Msg l m (join r (Msg l' m' r')))"

fun erase_at :: "mid \<Rightarrow> treap \<Rightarrow> treap" where
  "erase_at i Null = Null"
| "erase_at i (Msg l m r) =
     (if message_id m < i then Msg l m (erase_at i r)
      else if message_id m > i then Msg (erase_at i l) m r else join l r)"

definition om_erase :: "mid \<Rightarrow> bool \<Rightarrow> treap \<Rightarrow> treap option" where
  "om_erase i only_from_memory t =
     do { v \<leftarrow> deref t i;
          t \<leftarrow> (if have_previous v \<and> (only_from_memory \<or> \<not> have_next v)
               then do { it \<leftarrow> get_iterator t i;
                         check (iter_get it = Some i);
                         p \<leftarrow> iter_get (iter_previous t it);
                         Some (set_flags p (with_next False) t) }
               else Some t);
          t \<leftarrow> (if have_next v \<and> (only_from_memory \<or> \<not> have_previous v)
               then do { it \<leftarrow> get_iterator t i;
                         check (iter_get it = Some i);
                         n \<leftarrow> iter_get (iter_next t it);
                         Some (set_flags n (with_previous False) t) }
               else Some t);
          Some (erase_at i t) }"

definition attach_message_to_previous :: "mid \<Rightarrow> treap \<Rightarrow> treap option" where
  "attach_message_to_previous i t =
     do { check (is_valid i);
          it \<leftarrow> get_iterator t i;
          m \<leftarrow> iter_get it;
          check (m = i);
          om \<leftarrow> deref t m;
          if have_previous om then Some t
          else do { let t = set_flags i (with_previous True) t;
                    p \<leftarrow> iter_get (iter_previous t it);
                    pm \<leftarrow> deref t p;
                    Some (if have_next pm then set_flags i (with_next True) t else set_flags p (with_next True) t) } }"

definition attach_message_to_next :: "mid \<Rightarrow> treap \<Rightarrow> treap option" where
  "attach_message_to_next i t =
     do { check (is_valid i);
          it \<leftarrow> get_iterator t i;
          m \<leftarrow> iter_get it;
          check (m = i);
          om \<leftarrow> deref t m;
          if have_next om then Some t
          else do { let t = set_flags i (with_next True) t;
                    n \<leftarrow> iter_get (iter_next t it);
                    nm \<leftarrow> deref t n;
                    Some (if have_previous nm then set_flags i (with_previous True) t
                          else set_flags n (with_previous True) t) } }"

definition has_message :: "mid \<Rightarrow> treap \<Rightarrow> bool option" where
  "has_message i t =
     do { check (is_valid i); it \<leftarrow> get_iterator t i; Some (iter_get it = Some i) }"

subsection \<open>The messages in order\<close>

fun messages :: "treap \<Rightarrow> ordered_message list" where
  "messages Null = []"
| "messages (Msg l m r) = messages l @ m # messages r"

abbreviation ids :: "treap \<Rightarrow> mid list" where
  "ids t \<equiv> map message_id (messages t)"

fun bst :: "treap \<Rightarrow> bool" where
  "bst Null \<longleftrightarrow> True"
| "bst (Msg l m r) \<longleftrightarrow> bst l \<and> bst r \<and> (\<forall>x \<in> set (messages l). message_id x < message_id m) \<and>
     (\<forall>x \<in> set (messages r). message_id m < message_id x)"

lemma bst_sorted: "bst t \<longleftrightarrow> sorted_wrt (<) (ids t)"
  by (induction t) (fastforce simp: sorted_wrt_append)+

lemma messages_Nil [simp]: "messages t = [] \<longleftrightarrow> t = Null"
  by (cases t) auto

lemma first_id: "t \<noteq> Null \<Longrightarrow> hd (ids t) \<in> set (ids t)"
  by (intro hd_in_set) simp

lemma bst_id_inject: "bst t \<Longrightarrow> x \<in> set (messages t) \<Longrightarrow> y \<in> set (messages t) \<Longrightarrow> message_id x = message_id y \<Longrightarrow> x = y"
  by (auto simp: bst_sorted strict_sorted_iff distinct_map dest: inj_onD)

lemma node_Null_iff: "bst t \<Longrightarrow> node t i = Null \<longleftrightarrow> i \<notin> set (ids t)"
  by (induction t) fastforce+

lemma node_data: "bst t \<Longrightarrow> node t i = Msg l m r \<Longrightarrow> message_id m = i \<and> m \<in> set (messages t)"
  by (induction t) (auto split: if_splits)

lemma deref_Some: "bst t \<Longrightarrow> deref t i = Some m \<longleftrightarrow> m \<in> set (messages t) \<and> message_id m = i"
proof
  assume t: "bst t" and "deref t i = Some m"
  then show "m \<in> set (messages t) \<and> message_id m = i"
    using node_data [OF t] by (auto simp: deref_def split: treap.splits)
next
  assume t: "bst t" and m: "m \<in> set (messages t) \<and> message_id m = i"
  then have "node t i \<noteq> Null" using node_Null_iff [OF t] by auto
  then obtain l n r where n: "node t i = Msg l n r" by (cases "node t i") auto
  then have "n = m" using node_data [OF t n] m bst_id_inject [OF t] by blast
  then show "deref t i = Some m" by (simp add: deref_def n)
qed

lemma deref_None: "bst t \<Longrightarrow> deref t i = None \<longleftrightarrow> i \<notin> set (ids t)"
  using node_Null_iff [of t i] by (auto simp: deref_def split: treap.splits)

definition change :: "mid \<Rightarrow> (ordered_message \<Rightarrow> ordered_message) \<Rightarrow> ordered_message list \<Rightarrow> ordered_message list" where
  "change i f xs = map (\<lambda>m. if message_id m = i then f m else m) xs"

lemma change_simps [simp]:
  "change i f [] = []" "change i f (m # xs) = (if message_id m = i then f m else m) # change i f xs"
  "change i f (xs @ ys) = change i f xs @ change i f ys"
  by (simp_all add: change_def)

lemma change_absent [simp]: "\<forall>m \<in> set xs. message_id m \<noteq> i \<Longrightarrow> change i f xs = xs"
  by (induction xs) auto

lemma messages_set_flags: "bst t \<Longrightarrow> messages (set_flags i f t) = change i f (messages t)"
proof (induction t)
  case (Msg l m r)
  have "change i f (messages l) = messages l" if "message_id m \<le> i"
    using Msg.prems that by (intro change_absent) auto
  moreover have "change i f (messages r) = messages r" if "i \<le> message_id m"
    using Msg.prems that by (intro change_absent) auto
  ultimately show ?case using Msg by auto
qed simp

subsection \<open>Iterators as positions\<close>

text \<open>The stack of an iterator that points to the message \<open>p\<close>.\<close>

fun path :: "treap \<Rightarrow> mid \<Rightarrow> iter \<Rightarrow> iter" where
  "path Null p stack = stack"
| "path (Msg l m r) p stack =
     (if message_id m < p then path r p (message_id m # stack)
      else if p < message_id m then path l p (message_id m # stack) else message_id m # stack)"

definition iter_at :: "treap \<Rightarrow> mid \<Rightarrow> iter" where
  "iter_at t p = path t p []"

lemma path_Cons: "bst t \<Longrightarrow> p \<in> set (ids t) \<Longrightarrow> \<exists>st. path t p stack = p # st"
  by (induction t arbitrary: stack) fastforce+

lemma path_eq: "bst t \<Longrightarrow> p \<in> set (ids t) \<Longrightarrow> p # tl (path t p stack) = path t p stack"
  using path_Cons [of t p stack] by auto

lemma iter_get_at [simp]: "bst t \<Longrightarrow> p \<in> set (ids t) \<Longrightarrow> iter_get (iter_at t p) = Some p"
  using path_Cons [of t p "[]"] by (auto simp: iter_at_def iter_get_def)

definition up_to :: "mid \<Rightarrow> treap \<Rightarrow> mid list" where
  "up_to i t = filter (\<lambda>j. j \<le> i) (ids t)"

lemma seek_path:
  assumes "bst t" "\<forall>m \<in> set (messages t). \<not> is_scheduled (message_id m)" "\<not> is_scheduled i"
  shows "seek i t stack kept = Some (if up_to i t = [] then kept else path t (last (up_to i t)) stack)"
  using assms
proof (induction t arbitrary: stack kept)
  case (Msg l m r)
  show ?case
  proof (cases "message_id m \<le> i")
    case True
    have "up_to i (Msg l m r) = ids l @ message_id m # up_to i r" 
    proof -
      have "filter (\<lambda>j. j \<le> i) (ids l) = ids l" using True Msg.prems(1) by (intro filter_True) auto
      then show ?thesis using True by (simp add: up_to_def)
    qed
    moreover have "message_id m < last (up_to i r)" if "up_to i r \<noteq> []"
      using last_in_set [OF that] Msg.prems(1) by (auto simp: up_to_def)
    ultimately show ?thesis using True Msg by (auto simp: mid_compare Let_def)
  next
    case False
    have "up_to i (Msg l m r) = up_to i l" 
    proof -
      have "filter (\<lambda>j. j \<le> i) (ids r) = []" using False Msg.prems(1) by (intro filter_False) auto
      then show ?thesis using False by (simp add: up_to_def)
    qed
    moreover have "last (up_to i l) < message_id m" if "up_to i l \<noteq> []"
      using last_in_set [OF that] Msg.prems(1) by (auto simp: up_to_def)
    ultimately show ?thesis using False Msg by (auto simp: mid_compare Let_def)
  qed
qed (simp add: up_to_def)

lemma push_left_path: "bst t \<Longrightarrow> t \<noteq> Null \<Longrightarrow> push_left t stack = path t (hd (ids t)) stack"
proof (induction t arbitrary: stack)
  case (Msg l m r)
  then show ?case using first_id [of l] by (cases "l = Null") (auto simp: hd_append)
qed simp

text \<open>The move to the right without the test of the link.\<close>

definition next_mid :: "mid \<Rightarrow> mid list \<Rightarrow> mid option" where
  "next_mid p is = (case filter (\<lambda>j. p < j) is of [] \<Rightarrow> None | q # _ \<Rightarrow> Some q)"

lemma next_mid_append:
  "next_mid p (is @ js) = (case next_mid p is of None \<Rightarrow> next_mid p js | Some q \<Rightarrow> Some q)"
  by (auto simp: next_mid_def split: list.splits option.splits)

lemma next_mid_None: "\<forall>j \<in> set is. j \<le> p \<Longrightarrow> next_mid p is = None"
  by (auto simp: next_mid_def filter_empty_conv not_less split: list.splits)

lemma next_mid_Some_in: "next_mid p is = Some q \<Longrightarrow> q \<in> set is \<and> p < q"
  by (auto simp: next_mid_def split: list.splits dest!: filter_eq_ConsD)

lemma move_right:
  assumes "bst s" "\<And>x. x \<in> set (ids s) \<Longrightarrow> node t x = node s x" "p \<in> set (ids s)" "node s p = Msg a m b"
  shows "(if b = Null then climb_next t p (tl (path s p stack)) else push_left b (path s p stack)) =
    (case next_mid p (ids s) of None \<Rightarrow> climb_next t (the (root_id s)) stack | Some q \<Rightarrow> path s q stack)"
  using assms
proof (induction s arbitrary: stack)
  case (Msg l n r)
  have nl: "node t x = node l x" if "x \<in> set (ids l)" for x using Msg.prems(1) Msg.prems(2) [of x] that by auto
  have nr: "node t x = node r x" if "x \<in> set (ids r)" for x using Msg.prems(1) Msg.prems(2) [of x] that by fastforce
  have n: "node t (message_id n) = Msg l n r" using Msg.prems(2) [of "message_id n"] by simp
  consider "p = message_id n" | "p \<in> set (ids l)" "p < message_id n" | "p \<in> set (ids r)" "message_id n < p"
    using Msg.prems(1,3) by auto
  then show ?case
  proof cases
    case 1
    have "next_mid p (ids l) = None" using Msg.prems(1) by (intro next_mid_None) (auto simp: 1)
    moreover have "filter ((<) p) (ids r) = ids r" using Msg.prems(1) by (auto simp: 1 filter_id_conv)
    then have "next_mid p (message_id n # ids r) = (if r = Null then None else Some (hd (ids r)))"
      by (cases r) (auto simp: 1 next_mid_def split: list.splits)
    moreover have "message_id n < hd (ids r)" if "r \<noteq> Null"
      using Msg.prems(1) first_id [OF that] by auto
    ultimately show ?thesis using Msg.prems push_left_path [of r "message_id n # stack"]
      by (auto simp: 1 next_mid_append)
  next
    case 2
    have p: "path (Msg l n r) p stack = path l p (message_id n # stack)" using 2 by simp
    have IH: "(if b = Null then climb_next t p (tl (path l p (message_id n # stack)))
        else push_left b (path l p (message_id n # stack))) =
      (case next_mid p (ids l) of None \<Rightarrow> climb_next t (the (root_id l)) (message_id n # stack)
       | Some q \<Rightarrow> path l q (message_id n # stack))"
      by (rule Msg.IH(1) [OF _ nl 2(1)]) (use Msg.prems 2 in simp_all)
    have "next_mid p (message_id n # ids r) = Some (message_id n)" using 2 by (simp add: next_mid_def)
    then have nxt: "next_mid p (ids (Msg l n r)) =
        (case next_mid p (ids l) of None \<Rightarrow> Some (message_id n) | Some q \<Rightarrow> Some q)" by (simp add: next_mid_append split: option.split)
    have "climb_next t (the (root_id l)) (message_id n # stack) = message_id n # stack"
      using 2 n by (cases l) simp_all
    moreover have "path (Msg l n r) q stack = path l q (message_id n # stack)" if "next_mid p (ids l) = Some q" for q
      using next_mid_Some_in [OF that] Msg.prems(1) by auto
    ultimately show ?thesis unfolding p nxt IH by (cases "next_mid p (ids l)") simp_all
  next
    case 3
    have p: "path (Msg l n r) p stack = path r p (message_id n # stack)" using 3 by simp
    have IH: "(if b = Null then climb_next t p (tl (path r p (message_id n # stack)))
        else push_left b (path r p (message_id n # stack))) =
      (case next_mid p (ids r) of None \<Rightarrow> climb_next t (the (root_id r)) (message_id n # stack)
       | Some q \<Rightarrow> path r q (message_id n # stack))"
      by (rule Msg.IH(2) [OF _ nr 3(1)]) (use Msg.prems 3 in simp_all)
    have "next_mid p (ids l @ [message_id n]) = None" using Msg.prems(1) 3 by (intro next_mid_None) fastforce
    then have nxt: "next_mid p (ids (Msg l n r)) = next_mid p (ids r)"
      using next_mid_append [of p "ids l @ [message_id n]" "ids r"] by simp
    have "root_id l \<noteq> root_id r" using 3 Msg.prems(1) by (cases l; cases r) force+
    then have "climb_next t (the (root_id r)) (message_id n # stack) = climb_next t (message_id n) stack"
      using 3 n by (cases r) simp_all
    moreover have "path (Msg l n r) q stack = path r q (message_id n # stack)" if "next_mid p (ids r) = Some q" for q
      using next_mid_Some_in [OF that] Msg.prems(1) by auto
    ultimately show ?thesis unfolding p nxt IH by (cases "next_mid p (ids r)") simp_all
  qed
qed simp

text \<open>Moving an iterator along the list of messages.\<close>

lemma next_mid_position:
  assumes "sorted_wrt (<) (is @ p # js)"
  shows "next_mid p (is @ p # js) = (case js of [] \<Rightarrow> None | q # _ \<Rightarrow> Some q)"
proof -
  have "next_mid p (is @ [p]) = None" using assms by (intro next_mid_None) (auto simp: sorted_wrt_append)
  then have "next_mid p (is @ p # js) = next_mid p js" using next_mid_append [of p "is @ [p]" js] by simp
  also have "filter ((<) p) js = js" using assms by (auto simp: sorted_wrt_append filter_id_conv)
  then have "next_mid p js = (case js of [] \<Rightarrow> None | q # _ \<Rightarrow> Some q)" by (simp add: next_mid_def)
  finally show ?thesis .
qed

lemma node_position:
  assumes "bst t" "messages t = as @ m # bs" obtains l r where "node t (message_id m) = Msg l m r"
  using deref_Some [of t "message_id m" m] assms that by (auto simp: deref_def split: treap.splits)

lemma iter_next_at:
  assumes t: "bst t" and m: "messages t = as @ m # bs"
  shows "iter_next t (iter_at t (message_id m)) =
    (if have_next m then (case bs of [] \<Rightarrow> [] | n # _ \<Rightarrow> iter_at t (message_id n)) else [])"
proof -
  obtain l r where n: "node t (message_id m) = Msg l m r" by (rule node_position [OF t m])
  have p: "message_id m \<in> set (ids t)" by (simp add: m)
  obtain st where st: "path t (message_id m) [] = message_id m # st" using path_Cons [OF t p] by blast
  have "next_mid (message_id m) (ids t) = (case bs of [] \<Rightarrow> None | n # _ \<Rightarrow> Some (message_id n))"
    using next_mid_position [of "map message_id as" "message_id m" "map message_id bs"] t m
    by (auto simp: bst_sorted split: list.split)
  then show ?thesis
    using move_right [OF t refl p n, of "[]"] n by (auto simp: iter_at_def st split: list.splits)
qed

text \<open>The tree seen in a mirror, in which the moves to the left are those to the right.\<close>

definition mirror_message :: "ordered_message \<Rightarrow> ordered_message" where
  "mirror_message m = m\<lparr>have_previous := have_next m, have_next := have_previous m, message_id := - message_id m\<rparr>"

fun mirror :: "treap \<Rightarrow> treap" where
  "mirror Null = Null"
| "mirror (Msg l m r) = Msg (mirror r) (mirror_message m) (mirror l)"

lemma mirror_message_simps [simp]: "message_id (mirror_message m) = - message_id m"
  "have_next (mirror_message m) = have_previous m"
  by (simp_all add: mirror_message_def)

lemma messages_mirror: "messages (mirror t) = rev (map mirror_message (messages t))"
  by (induction t) auto

lemma bst_mirror: "bst (mirror t) \<longleftrightarrow> bst t"
  by (induction t) (auto simp: messages_mirror)

lemma mirror_Null [simp]: "mirror t = Null \<longleftrightarrow> t = Null"
  by (cases t) auto

lemma root_mirror: "root_id (mirror t) = map_option uminus (root_id t)"
  by (cases t) auto

lemma node_mirror: "node (mirror t) (- i) = mirror (node t i)"
  by (induction t) auto

lemma path_mirror: "path (mirror t) (- p) (map uminus st) = map uminus (path t p st)"
  by (induction t arbitrary: st) (auto simp flip: list.map(2))

lemma push_mirror: "push_left (mirror t) (map uminus st) = map uminus (push_right t st)"
  by (induction t arbitrary: st) (auto simp flip: list.map(2))

lemma left_mirror: "left_id (mirror t) = map_option uminus (right_id t)"
  by (cases t) (auto simp: root_mirror)

lemma climb_mirror: "climb_next (mirror t) (- cur) (map uminus st) = map uminus (climb_previous t cur st)"
  by (induction t cur st rule: climb_previous.induct) (auto simp: node_mirror left_mirror)

lemma iter_mirror: "iter_next (mirror t) (map uminus it) = map uminus (iter_previous t it)"
  by (cases it) (auto simp: node_mirror climb_mirror push_mirror [of _ "_ # _", simplified] split: treap.split)

lemma iter_previous_at:
  assumes t: "bst t" and m: "messages t = as @ m # bs"
  shows "iter_previous t (iter_at t (message_id m)) =
    (if have_previous m \<and> as \<noteq> [] then iter_at t (message_id (last as)) else [])"
proof -
  have at: "iter_at (mirror t) (- p) = map uminus (iter_at t p)" for p
    using path_mirror [of t p "[]"] by (simp add: iter_at_def)
  have "messages (mirror t) = map mirror_message (rev bs) @ mirror_message m # map mirror_message (rev as)"
    by (simp add: messages_mirror m rev_map)
  from iter_next_at [OF _ this]
  have "map uminus (iter_previous t (iter_at t (message_id m))) =
      map uminus (if have_previous m \<and> as \<noteq> [] then iter_at t (message_id (last as)) else [])"
    using t by (cases as rule: rev_cases) (auto simp: bst_mirror at iter_mirror)
  then show ?thesis using inj_map_eq_map [of uminus] by (simp add: inj_def)
qed

lemma get_iterator_at:
  assumes t: "bst t" and ok: "\<forall>m \<in> set (messages t). is_valid (message_id m)" and i: "\<not> is_scheduled i"
    and m: "messages t = as @ bs" and as: "\<forall>m \<in> set as. message_id m \<le> i" and bs: "\<forall>m \<in> set bs. i < message_id m"
  shows "get_iterator t i = Some (if as = [] then [] else iter_at t (message_id (last as)))"
proof -
  have "up_to i t = map message_id as"
    using as bs by (simp add: up_to_def m filter_map o_def filter_True) (auto intro!: filter_False)
  then show ?thesis using seek_path [OF t _ i, of "[]" "[]"] ok valid_not_scheduled i
    by (auto simp: get_iterator_def iter_at_def last_map)
qed

subsection \<open>The shape of the tree\<close>

fun heap :: "treap \<Rightarrow> bool" where
  "heap Null \<longleftrightarrow> True"
| "heap (Msg l m r) \<longleftrightarrow> heap l \<and> heap r \<and>
     (\<forall>x \<in> set (messages l) \<union> set (messages r). random_y x \<le> random_y m)"

lemma split_at_messages: "split_at i t = (a, b) \<Longrightarrow> messages a @ messages b = messages t"
  by (induction t arbitrary: a b) (force split: if_splits prod.splits)+

lemma split_at_sides:
  assumes "bst t" "split_at i t = (a, b)"
  shows "(\<forall>m \<in> set (messages a). message_id m < i) \<and> (\<forall>m \<in> set (messages b). \<not> message_id m < i)"
  using assms
proof (induction t arbitrary: a b)
  case (Msg l m r)
  show ?case
  proof (cases "message_id m < i")
    case True
    obtain a' b' where ab: "split_at i r = (a', b')" by fastforce
    then have "a = Msg l m a'" "b = b'" using Msg.prems(2) True by simp_all
    then show ?thesis using Msg.IH(2) [OF _ ab] Msg.prems(1) True by fastforce
  next
    case False
    obtain a' b' where ab: "split_at i l = (a', b')" by fastforce
    then have "a = a'" "b = Msg b' m r" using Msg.prems(2) False by simp_all
    then show ?thesis using Msg.IH(1) [OF _ ab] Msg.prems(1) False by fastforce
  qed
qed simp

lemma split_at_order:
  assumes "bst t" "split_at i t = (a, b)"
  shows "messages a = filter (\<lambda>m. message_id m < i) (messages t)"
    "messages b = filter (\<lambda>m. \<not> message_id m < i) (messages t)"
    "bst a" "bst b"
proof -
  note s = split_at_sides [OF assms] and m = split_at_messages [OF assms(2), symmetric]
  show "messages a = filter (\<lambda>m. message_id m < i) (messages t)" "messages b = filter (\<lambda>m. \<not> message_id m < i) (messages t)"
    using s by (simp_all add: m filter_True filter_False)
  show "bst a" "bst b" using assms(1) by (simp_all add: bst_sorted m sorted_wrt_append)
qed

lemma split_at_heap: "heap t \<Longrightarrow> split_at i t = (a, b) \<Longrightarrow> heap a \<and> heap b"
proof (induction t arbitrary: a b)
  case (Msg l m r)
  show ?case
  proof (cases "message_id m < i")
    case True
    obtain a' b' where ab: "split_at i r = (a', b')" by fastforce
    then have "a = Msg l m a'" "b = b'" using Msg.prems(2) True by simp_all
    then show ?thesis using Msg.IH(2) [OF _ ab] Msg.prems(1) split_at_messages [OF ab, symmetric] by auto
  next
    case False
    obtain a' b' where ab: "split_at i l = (a', b')" by fastforce
    then have "a = a'" "b = Msg b' m r" using Msg.prems(2) False by simp_all
    then show ?thesis using Msg.IH(1) [OF _ ab] Msg.prems(1) split_at_messages [OF ab, symmetric] by auto
  qed
qed simp

lemma insert_at_order:
  assumes "bst t" "heap t" "message_id x \<notin> set (ids t)"
  shows "\<exists>t'. insert_at x t = Some t' \<and> bst t' \<and> heap t' \<and>
    messages t' = filter (\<lambda>m. message_id m < message_id x) (messages t) @ x #
      filter (\<lambda>m. \<not> message_id m < message_id x) (messages t)"
  using assms
proof (induction t)
  case (Msg l m r)
  consider "random_y m < random_y x" | "random_y m \<ge> random_y x" "message_id m < message_id x"
    | "random_y m \<ge> random_y x" "message_id x < message_id m" using Msg.prems(3) by fastforce
  then show ?case
  proof cases
    case 1
    obtain a b where ab: "split_at (message_id x) (Msg l m r) = (a, b)" by fastforce
    note order = split_at_order [OF Msg.prems(1) ab]
    have "random_y y \<le> random_y x" if "y \<in> set (messages (Msg l m r))" for y
    proof -
      have "random_y y \<le> random_y m" using that Msg.prems(2) by auto
      then show ?thesis using 1 by simp
    qed
    moreover have "set (messages a) \<union> set (messages b) = set (messages (Msg l m r))"
      by (simp only: split_at_messages [OF ab, symmetric] set_append)
    ultimately have "heap (Msg a x b)" using split_at_heap [OF Msg.prems(2) ab] by (simp del: messages.simps)
    moreover have "message_id x < message_id y" if "y \<in> set (messages b)" for y
    proof -
      have "y \<in> set (messages (Msg l m r))" "\<not> message_id y < message_id x" using that by (simp_all add: order del: messages.simps)
      then show ?thesis using Msg.prems(3) by (metis image_eqI linorder_cases list.set_map)
    qed
    then have "bst (Msg a x b)" using order(3,4) split_at_sides [OF Msg.prems(1) ab] by simp
    moreover have "insert_at x (Msg l m r) = Some (Msg a x b)" using 1 ab by (simp del: split_at.simps)
    moreover have "messages (Msg a x b) = filter (\<lambda>m. message_id m < message_id x) (messages (Msg l m r)) @ x #
        filter (\<lambda>m. \<not> message_id m < message_id x) (messages (Msg l m r))"
      by (simp only: messages.simps(2) [of a x b] order(1,2))
    ultimately show ?thesis by blast
  next
    case 2
    then obtain r' where r': "insert_at x r = Some r'" "bst r'" "heap r'"
        "messages r' = filter (\<lambda>m. message_id m < message_id x) (messages r) @ x #
          filter (\<lambda>m. \<not> message_id m < message_id x) (messages r)"
      using Msg by auto
    have "\<forall>y \<in> set (messages l). message_id y < message_id x" using Msg.prems(1) 2 by fastforce
    then show ?thesis using 2 r' Msg.prems by (auto simp: filter_id_conv filter_empty_conv)
  next
    case 3
    then obtain l' where l': "insert_at x l = Some l'" "bst l'" "heap l'"
        "messages l' = filter (\<lambda>m. message_id m < message_id x) (messages l) @ x #
          filter (\<lambda>m. \<not> message_id m < message_id x) (messages l)"
      using Msg by auto
    have "\<forall>y \<in> set (messages r). \<not> message_id y < message_id x" using Msg.prems(1) 3 by fastforce
    then show ?thesis using 3 l' Msg.prems by (auto simp: filter_id_conv filter_empty_conv)
  qed
qed simp

lemma insert_at_present:
  assumes "bst t" "heap t" "y \<in> set (messages t)" "message_id y = message_id x" "random_y y = random_y x"
  shows "insert_at x t = None"
  using assms
proof (induction t)
  case (Msg l m r)
  have "random_y y \<le> random_y m" using Msg.prems(2,3) by auto
  then have y: "random_y x \<le> random_y m" using Msg.prems(5) by simp
  consider "y = m" | "y \<in> set (messages l)" "message_id y < message_id m" | "y \<in> set (messages r)" "message_id m < message_id y"
    using Msg.prems(1,3) by auto
  then show ?case using Msg y by cases auto
qed simp

lemma messages_join: "messages (join l r) = messages l @ messages r"
  by (induction l r rule: join.induct) auto

lemma join_order:
  "bst l \<Longrightarrow> bst r \<Longrightarrow> \<forall>x \<in> set (messages l). \<forall>y \<in> set (messages r). message_id x < message_id y \<Longrightarrow> bst (join l r)"
  by (simp add: bst_sorted messages_join sorted_wrt_append)

lemma join_heap: "heap l \<Longrightarrow> heap r \<Longrightarrow> heap (join l r)"
proof (induction l r rule: join.induct)
  case (4 l m r l' m' r')
  then show ?case by (cases "random_y m' > random_y m") (auto simp: messages_join order_less_imp_le intro: order_trans)
qed (auto simp: messages_join)

lemma erase_at_order:
  assumes "bst t" "heap t"
  shows "messages (erase_at i t) = filter (\<lambda>m. message_id m \<noteq> i) (messages t) \<and> heap (erase_at i t)"
  using assms
proof (induction t)
  case (Msg l m r)
  have "filter (\<lambda>m. message_id m \<noteq> i) (messages l) = messages l" if "message_id m \<le> i"
    using Msg.prems that by (force simp: filter_id_conv)
  moreover have "filter (\<lambda>m. message_id m \<noteq> i) (messages r) = messages r" if "i \<le> message_id m"
    using Msg.prems that by (force simp: filter_id_conv)
  ultimately show ?case using Msg by (auto simp: messages_join join_heap)
qed simp

lemma erase_at_bst: "bst t \<Longrightarrow> heap t \<Longrightarrow> bst (erase_at i t)"
  using erase_at_order [of t i] by (simp add: bst_sorted sorted_wrt_filter sorted_wrt_map)

text \<open>Changing links keeps the shape.\<close>

locale link_change =
  fixes f :: "ordered_message \<Rightarrow> ordered_message"
  assumes keeps_id: "message_id (f m) = message_id m" and keeps_y: "random_y (f m) = random_y m"
begin

lemma ids_change: "map message_id (change i f xs) = map message_id xs"
  by (induction xs) (simp_all add: keeps_id)

lemma set_change: "x \<in> set (change i f xs) \<Longrightarrow> \<exists>y \<in> set xs. message_id x = message_id y \<and> random_y x = random_y y"
  by (induction xs) (auto simp: keeps_id keeps_y)

lemma bst_set_flags: "bst t \<Longrightarrow> bst (set_flags i f t)"
  using ids_change [of i "messages t"] by (simp add: bst_sorted messages_set_flags)

lemma heap_set_flags: "bst t \<Longrightarrow> heap t \<Longrightarrow> heap (set_flags i f t)"
proof (induction t)
  case (Msg l m r)
  have "random_y x \<le> random_y m" if "x \<in> set (change i f (messages l)) \<union> set (change i f (messages r))" for x
    using that set_change [of x i] Msg.prems(2) by fastforce
  then show ?case using Msg by (auto simp: messages_set_flags keeps_y)
qed simp

lemma node_set_flags_Null: "node (set_flags i f t) j = Null \<longleftrightarrow> node t j = Null"
  by (induction t) (auto simp: keeps_id)

end

interpretation next_link: link_change "with_next b"
  by unfold_locales (simp_all add: with_next_def)

interpretation previous_link: link_change "with_previous b"
  by unfold_locales (simp_all add: with_previous_def)

end
