(* ===== verification/Td_MessageLinks.thy ===== *)
theory Td_MessageLinks
  imports Td_OrderedMessages
begin

text \<open>
  The operations of \<open>OrderedMessages\<close> as operations on the list of messages with their links: the specification of
  insertion, removal and attachment, the invariant of the links, and the refinement.
\<close>

subsection \<open>What the operations do to the list of messages\<close>

text \<open>Two neighbours agree on whether they are linked; \<open>b\<close> and \<open>c\<close> are the links at the ends.\<close>

fun linked :: "bool \<Rightarrow> ordered_message list \<Rightarrow> bool \<Rightarrow> bool" where
  "linked b [] c \<longleftrightarrow> b = c"
| "linked b (m # xs) c \<longleftrightarrow> have_previous m = b \<and> linked (have_next m) xs c"

definition link_last :: "bool \<Rightarrow> ordered_message list \<Rightarrow> ordered_message list" where
  "link_last b xs = (if xs = [] then [] else butlast xs @ [with_next b (last xs)])"

fun link_first :: "bool \<Rightarrow> ordered_message list \<Rightarrow> ordered_message list" where
  "link_first b [] = []"
| "link_first b (m # xs) = with_previous b m # xs"

definition before :: "mid \<Rightarrow> ordered_message list \<Rightarrow> ordered_message list" where
  "before i xs = takeWhile (\<lambda>m. message_id m < i) xs"

definition from_on :: "mid \<Rightarrow> ordered_message list \<Rightarrow> ordered_message list" where
  "from_on i xs = dropWhile (\<lambda>m. message_id m < i) xs"

definition new_message :: "mid \<Rightarrow> ordered_message" where
  "new_message i = \<lparr>random_y = random_priority i, have_previous = False, have_next = False, message_id = i\<rparr>"

text \<open>
  A message is attached to the previous one when that is linked to the next one or known to be the last on the server,
  otherwise to the next one unless it was not sent yet.
\<close>

definition spec_attach ::
  "mid \<Rightarrow> ordered_message list \<Rightarrow> ordered_message \<Rightarrow> ordered_message list \<Rightarrow>
     ordered_message list \<times> ordered_message \<times> ordered_message list" where
  "spec_attach last_message_id as m bs =
     (if as \<noteq> [] \<and> (have_next (last as) \<or> is_valid last_message_id \<and> last_message_id \<le> message_id (last as))
      then (link_last True as, with_previous True (with_next (have_next (last as)) m), bs)
      else if mid_type (message_id m) \<noteq> YetUnsentType \<and> bs \<noteq> [] then (as, with_next True m, link_first True bs)
      else (as, m, bs))"

datatype om_op =
    Insert mid bool mid
  | Erase mid bool
  | AttachPrevious mid
  | AttachNext mid

fun spec_op :: "om_op \<Rightarrow> ordered_message list \<Rightarrow> ordered_message list option" where
  "spec_op (Insert i auto_attach last_message_id) xs =
     (if i \<in> message_id ` set xs then None
      else let as = before i xs; bs = from_on i xs in
        Some (if auto_attach then let (as, m, bs) = spec_attach last_message_id as (new_message i) bs in as @ m # bs
              else link_last False as @ new_message i # link_first False bs))"
| "spec_op (Erase i only_from_memory) xs =
     (if i \<notin> message_id ` set xs then None
      else let as = before i xs; m = hd (from_on i xs); bs = tl (from_on i xs) in
        Some (if \<not> only_from_memory \<and> have_previous m \<and> have_next m then as @ bs
              else link_last False as @ link_first False bs))"
| "spec_op (AttachPrevious i) xs =
     (if i \<notin> message_id ` set xs then None
      else let as = before i xs; m = hd (from_on i xs); bs = tl (from_on i xs) in
        if have_previous m then Some xs
        else if as = [] then None else Some (link_last True as @ with_previous True m # bs))"
| "spec_op (AttachNext i) xs =
     (if i \<notin> message_id ` set xs then None
      else let as = before i xs; m = hd (from_on i xs); bs = tl (from_on i xs) in
        if have_next m then Some xs
        else if bs = [] then None else Some (as @ with_next True m # link_first True bs))"

fun run_op :: "om_op \<Rightarrow> treap \<Rightarrow> treap option" where
  "run_op (Insert i auto_attach last_message_id) t = om_insert i auto_attach last_message_id t"
| "run_op (Erase i only_from_memory) t = om_erase i only_from_memory t"
| "run_op (AttachPrevious i) t = attach_message_to_previous i t"
| "run_op (AttachNext i) t = attach_message_to_next i t"

fun op_mid :: "om_op \<Rightarrow> mid" where
  "op_mid (Insert i auto_attach last_message_id) = i"
| "op_mid (Erase i only_from_memory) = i"
| "op_mid (AttachPrevious i) = i"
| "op_mid (AttachNext i) = i"

definition shape :: "treap \<Rightarrow> bool" where
  "shape t \<longleftrightarrow> bst t \<and> heap t \<and>
     (\<forall>m \<in> set (messages t). is_valid (message_id m) \<and> random_y m = random_priority (message_id m))"

definition om_ok :: "treap \<Rightarrow> bool" where
  "om_ok t \<longleftrightarrow> shape t \<and> linked False (messages t) False"

subsection \<open>Lists of linked messages\<close>

lemma linked_append: "linked b (xs @ ys) c \<longleftrightarrow> (\<exists>d. linked b xs d \<and> linked d ys c)"
  by (induction xs arbitrary: b) auto

lemma linked_last: "linked b xs c \<Longrightarrow> xs \<noteq> [] \<Longrightarrow> have_next (last xs) = c"
  by (induction xs arbitrary: b) (auto split: if_splits)

lemma linked_first: "linked b (m # xs) c \<Longrightarrow> have_previous m = b"
  by simp

lemma with_simps [simp]:
  "message_id (with_next b m) = message_id m" "message_id (with_previous b m) = message_id m"
  "random_y (with_next b m) = random_y m" "random_y (with_previous b m) = random_y m"
  "have_next (with_next b m) = b" "have_previous (with_previous b m) = b"
  "have_previous (with_next b m) = have_previous m" "have_next (with_previous b m) = have_next m"
  by (simp_all add: with_next_def with_previous_def)

lemma with_same: "have_next m = b \<Longrightarrow> with_next b m = m" "have_previous m = b \<Longrightarrow> with_previous b m = m"
  by (cases m; simp add: with_next_def with_previous_def)+

lemma link_last_snoc [simp]: "link_last b (xs @ [m]) = xs @ [with_next b m]" "link_last b [] = []"
  by (simp_all add: link_last_def)

lemma linked_link_last: "linked b xs c \<Longrightarrow> xs \<noteq> [] \<Longrightarrow> linked b (link_last d xs) d"
  by (cases xs rule: rev_cases) (auto simp: linked_append)

lemma linked_link_first: "linked b xs c \<Longrightarrow> xs \<noteq> [] \<Longrightarrow> linked d (link_first d xs) c"
  by (cases xs) auto

lemma link_last_same: "linked b xs c \<Longrightarrow> link_last c xs = xs"
  by (cases xs rule: rev_cases) (auto simp: linked_append with_same)

lemma link_first_same: "linked b xs c \<Longrightarrow> link_first b xs = xs"
  by (cases xs) (auto simp: with_same)

lemma ids_link [simp]:
  "map message_id (link_last b xs) = map message_id xs" "map message_id (link_first b xs) = map message_id xs"
  by (cases xs rule: rev_cases; simp) (cases xs; simp)

lemma link_Nil [simp]: "link_last b xs = [] \<longleftrightarrow> xs = []" "link_first b xs = [] \<longleftrightarrow> xs = []"
  by (cases xs rule: rev_cases; simp) (cases xs; simp)

lemma set_link_cond:
  assumes "\<And>m. P (with_next b m) \<longleftrightarrow> P m" "\<And>m. P (with_previous b m) \<longleftrightarrow> P m"
  shows "(\<forall>m \<in> set (link_last b xs). P m) \<longleftrightarrow> (\<forall>m \<in> set xs. P m)"
    "(\<forall>m \<in> set (link_first b xs). P m) \<longleftrightarrow> (\<forall>m \<in> set xs. P m)"
  by (cases xs rule: rev_cases; simp add: assms) (cases xs; simp add: assms)

abbreviation ordered :: "ordered_message list \<Rightarrow> bool" where
  "ordered xs \<equiv> sorted_wrt (<) (map message_id xs)"

lemma before_from:
  assumes "\<forall>m \<in> set as. message_id m < i" "\<forall>m \<in> set bs. \<not> message_id m < i"
  shows "before i (as @ bs) = as" "from_on i (as @ bs) = bs"
  using assms by (auto simp: before_def from_on_def takeWhile_append dropWhile_append) (cases bs; simp)+

lemma ordered_split:
  assumes "ordered xs"
  obtains as bs where "xs = as @ bs" "\<forall>m \<in> set as. message_id m < i" "\<forall>m \<in> set bs. \<not> message_id m < i"
proof
  show "xs = before i xs @ from_on i xs" by (simp add: before_def from_on_def)
  show "\<forall>m \<in> set (before i xs). message_id m < i" by (auto simp: before_def dest: set_takeWhileD)
  show "\<forall>m \<in> set (from_on i xs). \<not> message_id m < i"
  proof (cases "from_on i xs")
    case (Cons y ys)
    have "\<not> message_id y < i" using Cons hd_dropWhile [of "\<lambda>m. message_id m < i" xs] by (simp add: from_on_def)
    moreover have "ordered (y # ys)" using assms Cons takeWhile_dropWhile_id [of "\<lambda>m. message_id m < i" xs]
      unfolding from_on_def by (metis map_append sorted_wrt_append)
    ultimately show ?thesis using Cons by fastforce
  qed simp
qed

lemma change_last:
  assumes "ordered (as @ bs)" "as \<noteq> []"
  shows "change (message_id (last as)) f (as @ bs) = butlast as @ f (last as) # bs"
proof -
  obtain xs m where as: "as = xs @ [m]" using assms(2) by (cases as rule: rev_cases) auto
  have "change (message_id m) f xs = xs" "change (message_id m) f bs = bs"
    using assms(1) by (auto simp: as sorted_wrt_append intro!: change_absent)
  then show ?thesis by (simp add: as)
qed

lemma change_middle:
  assumes "ordered (as @ m # bs)"
  shows "change (message_id m) f (as @ m # bs) = as @ f m # bs"
  using change_last [of "as @ [m]" bs f] assms by simp

subsection \<open>The operations on the tree\<close>

context link_change
begin

lemma shape_set_flags: "shape t \<Longrightarrow> shape (set_flags i f t)"
  using bst_set_flags heap_set_flags set_change [of _ i "messages t"]
  by (auto simp: shape_def messages_set_flags) (metis, metis)

end

lemmas shape_flags = next_link.shape_set_flags previous_link.shape_set_flags

lemma shapeD:
  assumes "shape t"
  shows "bst t" "heap t" "ordered (messages t)" "m \<in> set (messages t) \<Longrightarrow> is_valid (message_id m)"
    "m \<in> set (messages t) \<Longrightarrow> \<not> is_scheduled (message_id m)"
    "m \<in> set (messages t) \<Longrightarrow> random_y m = random_priority (message_id m)"
  using assms valid_not_scheduled by (auto simp: shape_def bst_sorted)

lemma deref_position: "shape t \<Longrightarrow> messages t = as @ m # bs \<Longrightarrow> deref t (message_id m) = Some m"
  using deref_Some [of t "message_id m" m] by (simp add: shapeD(1))

lemma iterator_before:
  assumes "shape t" "is_valid i" "messages t = as @ bs" "\<forall>m \<in> set as. message_id m < i" "\<forall>m \<in> set bs. i < message_id m"
  shows "get_iterator t i = Some (if as = [] then [] else iter_at t (message_id (last as)))"
  by (rule get_iterator_at) (use assms in \<open>auto simp: shapeD less_imp_le valid_not_scheduled\<close>)

lemma ordered_middle:
  assumes "ordered (as @ m # bs)"
  shows "\<forall>x \<in> set as. message_id x < message_id m" "\<forall>x \<in> set bs. message_id m < message_id x"
  using assms by (auto simp: sorted_wrt_append)

lemma iterator_on:
  assumes "shape t" "messages t = as @ m # bs"
  shows "get_iterator t (message_id m) = Some (iter_at t (message_id m))"
proof -
  have "ordered (as @ m # bs)" using assms shapeD(3) by fastforce
  note o = ordered_middle [OF this]
  show ?thesis using get_iterator_at [of t "message_id m" "as @ [m]" bs] assms o
    by (auto simp: shapeD less_imp_le)
qed

lemma find_next_message_first:
  assumes "bst t" "\<forall>m \<in> set (messages t). \<not> is_scheduled (message_id m)" "\<not> is_scheduled i"
  shows "find_next_message i t k =
    Some (case filter (\<lambda>m. \<not> message_id m < i) (messages t) of [] \<Rightarrow> k | m # _ \<Rightarrow> Some (message_id m))"
  using assms
proof (induction t arbitrary: k)
  case (Msg l m r)
  show ?case
  proof (cases "message_id m < i")
    case True
    have "filter (\<lambda>m. \<not> message_id m < i) (messages l) = []" using True Msg.prems(1) by (auto intro!: filter_False)
    then show ?thesis using True Msg by (simp add: mid_compare)
  next
    case False
    then show ?thesis using Msg by (auto simp: mid_compare split: list.split)
  qed
qed simp

lemma filter_sides:
  assumes "\<forall>m \<in> set as. message_id m < i" "\<forall>m \<in> set bs. i < message_id m"
  shows "filter (\<lambda>m. message_id m < i) (as @ bs) = as" "filter (\<lambda>m. \<not> message_id m < i) (as @ bs) = bs"
proof -
  have "\<forall>m \<in> set bs. \<not> message_id m < i" using assms(2) by auto
  then show "filter (\<lambda>m. message_id m < i) (as @ bs) = as" "filter (\<lambda>m. \<not> message_id m < i) (as @ bs) = bs"
    using assms(1) by (simp_all add: filter_True filter_False del: not_less)
qed

lemma insert_between:
  assumes "shape t" "messages t = as @ bs" "\<forall>m \<in> set as. message_id m < i" "\<forall>m \<in> set bs. i < message_id m"
    and "message_id x = i" "random_y x = random_priority i" "is_valid i"
  shows "\<exists>t'. insert_at x t = Some t' \<and> shape t' \<and> messages t' = as @ x # bs"
proof -
  have "filter (\<lambda>m. message_id m < i) (messages t) = as" "filter (\<lambda>m. \<not> message_id m < i) (messages t) = bs"
    using filter_sides [OF assms(3,4)] by (simp_all only: assms(2))
  moreover have "i \<notin> set (ids t)" using assms(3,4) by (auto simp: assms(2))
  ultimately obtain t' where t': "insert_at x t = Some t'" "bst t'" "heap t'" "messages t' = as @ x # bs"
    using insert_at_order [of t x] shapeD(1,2) [OF assms(1)] assms(5) by auto
  then have "shape t'" using assms by (auto simp: shape_def)
  then show ?thesis using t' by blast
qed

lemma attach_to_next_spec:
  assumes t: "shape t" and i: "is_valid i" and m: "messages t = as @ bs" and as: "\<forall>m \<in> set as. message_id m < i"
    and bs: "\<forall>m \<in> set bs. i < message_id m" and x: "message_id x = i" and prev: "bs \<noteq> [] \<longrightarrow> \<not> have_previous (hd bs)"
  shows "\<exists>m1 t1. attach_to_next_only x t = Some (m1, t1) \<and> shape t1 \<and>
    (if mid_type i \<noteq> YetUnsentType \<and> bs \<noteq> [] then m1 = with_next True x \<and> messages t1 = as @ link_first True bs
     else m1 = x \<and> messages t1 = as @ bs)"
proof -
  have unsent: "is_yet_unsent i = Some (mid_type i = YetUnsentType)"
  proof -
    have "i mod 8 = 0 \<or> i mod 8 = 1 \<or> i mod 8 = 2" using i server_mod [of i] by (auto simp: is_valid_iff)
    then have "i mod 4 = 1 \<longleftrightarrow> i mod 8 = 1" using mod_mod_cancel [of 4 8 i] by auto
    then show ?thesis using i by (simp add: is_yet_unsent_def mid_consts int_and_masks mid_type_valid(2))
  qed
  have "filter (\<lambda>m. \<not> message_id m < i) (messages t) = bs"
    using filter_sides [OF as bs] by (simp only: m)
  then have find: "find_next_message i t None = Some (case bs of [] \<Rightarrow> None | m # _ \<Rightarrow> Some (message_id m))"
    using find_next_message_first [of t i None] shapeD [OF t] valid_not_scheduled [OF i] by simp
  show ?thesis
  proof (cases bs)
    case Nil
    then show ?thesis using t m by (auto simp: attach_to_next_only_def unsent find x)
  next
    case (Cons b bs')
    have ord: "ordered (as @ b # bs')" using shapeD(3) [OF t] by (simp add: m Cons)
    have "deref t (message_id b) = Some b" by (rule deref_position [OF t]) (simp add: m Cons)
    moreover have "messages (set_flags (message_id b) (with_previous True) t) = as @ with_previous True b # bs'"
      using change_middle [OF ord] messages_set_flags [OF shapeD(1) [OF t]] by (simp add: m Cons)
    ultimately show ?thesis using t m prev
      by (auto simp: attach_to_next_only_def unsent find x Cons shape_flags)
  qed
qed

lemma mid_is_server: "is_valid i \<Longrightarrow> \<exists>b. is_server i = Some b"
  by (simp add: is_server_def)

lemma auto_attach_spec:
  assumes t: "shape t" and i: "is_valid i" and m: "messages t = as @ bs" and as: "\<forall>m \<in> set as. message_id m < i"
    and bs: "\<forall>m \<in> set bs. i < message_id m" and x: "message_id x = i" and lk: "linked False (messages t) False"
  shows "\<exists>as1 m1 bs1 t1. auto_attach_message x last_message_id t = Some (m1, t1) \<and> shape t1 \<and>
    spec_attach last_message_id as x bs = (as1, m1, bs1) \<and> messages t1 = as1 @ bs1"
proof -
  have it: "get_iterator t i = Some (if as = [] then [] else iter_at t (message_id (last as)))"
    by (rule iterator_before [OF t i m as bs])
  show ?thesis
  proof (cases "as = []")
    case True
    have "bs \<noteq> [] \<longrightarrow> \<not> have_previous (hd bs)" using lk by (cases bs) (simp_all add: m True)
    from attach_to_next_spec [OF t i m as bs x this] show ?thesis
      by (cases "mid_type i \<noteq> YetUnsentType \<and> bs \<noteq> []")
        (auto simp: auto_attach_message_def x it iter_get_def True spec_attach_def Let_def)
  next
    case False
    then obtain as' p where p: "as = as' @ [p]" by (cases as rule: rev_cases) auto
    have mp: "messages t = as' @ p # bs" by (simp add: m p)
    have pi: "message_id p < i" "is_valid (message_id p)" using as p shapeD(4) [OF t] mp by auto
    have get: "iter_get (iter_at t (message_id p)) = Some (message_id p)"
      using shapeD(1) [OF t] by (simp add: mp)
    have dp: "deref t (message_id p) = Some p" by (rule deref_position [OF t mp])
    have lt: "mid_lt (message_id p) i = Some True"
      using mid_compare(1) [of "message_id p" i] pi i valid_not_scheduled by simp
    have nxt: "iter_get (iter_next t (iter_at t (message_id p))) = Some (message_id (hd bs)) \<and> bs \<noteq> []" if "have_next p"
    proof -
      have "bs \<noteq> []" using lk that by (auto simp: mp linked_append)
      then show ?thesis using iter_next_at [OF shapeD(1) [OF t] mp] that shapeD(1) [OF t]
        by (cases bs) (auto simp: mp)
    qed
    have log: "attach_log i p (iter_at t (message_id p)) t = Some ()"
    proof -
      have "\<exists>b. is_server (message_id (hd bs)) = Some b" if "bs \<noteq> []"
        using that shapeD(4) [OF t, of "hd bs"] by (simp add: m is_server_def)
      then show ?thesis using nxt mid_is_server [OF i] mid_is_server [OF pi(2)]
        by (auto simp: attach_log_def)
    qed
    define attach where "attach \<longleftrightarrow> have_next p \<or> is_valid last_message_id \<and> last_message_id \<le> message_id p"
    have att: "(if have_next p then Some True else if is_valid last_message_id then mid_ge (message_id p) last_message_id
        else Some False) = Some attach"
      using pi(2) valid_not_scheduled by (auto simp: attach_def mid_compare(4))
    have ord: "ordered (as @ bs)" using shapeD(3) [OF t] by (simp add: m)
    have auto: "auto_attach_message x last_message_id t =
        (if attach then Some (with_previous True (with_next (have_next p) x), set_flags (message_id p) (with_next True) t)
         else attach_to_next_only x t)"
      using it False by (simp add: auto_attach_message_def x p get dp lt att log Let_def)
    show ?thesis
    proof (cases attach)
      case True
      have "messages (set_flags (message_id p) (with_next True) t) = link_last True as @ bs"
        using change_last [OF ord False, of "with_next True"] messages_set_flags [OF shapeD(1) [OF t]] by (simp add: m p)
      then show ?thesis using True auto t by (auto simp: spec_attach_def p attach_def shape_flags)
    next
      case False
      then have "bs \<noteq> [] \<longrightarrow> \<not> have_previous (hd bs)" using lk by (cases bs) (auto simp: mp linked_append attach_def)
      from attach_to_next_spec [OF t i m as bs x this] show ?thesis
        using False auto by (cases "mid_type i \<noteq> YetUnsentType \<and> bs \<noteq> []") (auto simp: spec_attach_def p attach_def x)
    qed
  qed
qed

lemma detach_spec:
  assumes t: "shape t" and i: "is_valid i" and m: "messages t = as @ bs" and as: "\<forall>m \<in> set as. message_id m < i"
    and bs: "\<forall>m \<in> set bs. i < message_id m" and lk: "linked False (messages t) False"
  shows "\<exists>t1. detach_neighbours i t = Some t1 \<and> shape t1 \<and> messages t1 = link_last False as @ link_first False bs"
proof -
  have it: "get_iterator t i = Some (if as = [] then [] else iter_at t (message_id (last as)))"
    by (rule iterator_before [OF t i m as bs])
  obtain d where d: "linked False as d" "linked d bs False" using lk by (auto simp: m linked_append)
  show ?thesis
  proof (cases "as \<noteq> [] \<and> d")
    case False
    then have "\<not> d" using d(1) by auto
    then have same: "link_last False as = as" "link_first False bs = bs"
      using d link_last_same link_first_same by force+
    show ?thesis
    proof (cases "as = []")
      case False
      then obtain as' p where p: "as = as' @ [p]" by (cases as rule: rev_cases) auto
      have "\<not> have_next p" using linked_last [OF d(1)] \<open>\<not> d\<close> by (simp add: p)
      moreover have "deref t (message_id p) = Some p" by (rule deref_position [OF t]) (simp add: m p)
      moreover have "iter_get (iter_at t (message_id p)) = Some (message_id p)"
        using shapeD(1) [OF t] by (simp add: m p)
      ultimately show ?thesis using it t m same False by (simp add: detach_neighbours_def p)
    qed (use it t m same in \<open>simp add: detach_neighbours_def iter_get_def\<close>)
  next
    case True
    then obtain as' p where p: "as = as' @ [p]" by (cases as rule: rev_cases) auto
    have next_p: "have_next p" using linked_last [OF d(1)] True by (simp add: p)
    obtain b bs' where b: "bs = b # bs'" using d(2) True by (cases bs) auto
    have mp: "messages t = as' @ p # bs" by (simp add: m p)
    have dp: "deref t (message_id p) = Some p" by (rule deref_position [OF t mp])
    have get: "iter_get (iter_at t (message_id q)) = Some (message_id q)" if "q \<in> set (messages t)" for q
      using shapeD(1) [OF t] that by simp
    have nxt: "iter_next t (iter_at t (message_id p)) = iter_at t (message_id b)"
      using iter_next_at [OF shapeD(1) [OF t] mp] next_p by (simp add: b)
    have sched: "is_scheduled (message_id p) = is_scheduled i" "is_scheduled (message_id b) = is_scheduled i"
      using shapeD(5) [OF t] valid_not_scheduled [OF i] by (auto simp: m p b)
    have "detach_neighbours i t =
        Some (set_flags (message_id p) (with_next False) (set_flags (message_id b) (with_previous False) t))"
      using it as bs next_p by (simp add: detach_neighbours_def p b get m dp nxt mid_compare sched)
    moreover have "messages (set_flags (message_id p) (with_next False) (set_flags (message_id b) (with_previous False) t)) =
        link_last False as @ link_first False bs"
    proof -
      have ord: "ordered (as @ b # bs')" "ordered (as @ with_previous False b # bs')"
        using shapeD(3) [OF t] by (simp_all add: m b)
      have "messages (set_flags (message_id b) (with_previous False) t) = as @ with_previous False b # bs'"
        using change_middle [OF ord(1)] messages_set_flags [OF shapeD(1) [OF t]] by (simp add: m b)
      then show ?thesis
        using change_last [OF ord(2), of "with_next False"] messages_set_flags [OF shapeD(1) [OF shape_flags(2) [OF t]]]
        by (simp add: p b)
    qed
    ultimately show ?thesis using shape_flags t by blast
  qed
qed

subsection \<open>The operations implement their specification\<close>

context link_change
begin

lemma ids_set_flags: "shape t \<Longrightarrow> ids (set_flags i f t) = ids t"
  by (simp add: messages_set_flags shapeD(1) ids_change)

end

lemmas ids_flags = next_link.ids_set_flags previous_link.ids_set_flags

lemma auto_attach_keeps:
  assumes "shape t" "auto_attach_message x last_message_id t = Some (m1, t1)"
  shows "shape t1 \<and> ids t1 = ids t \<and> message_id m1 = message_id x \<and> random_y m1 = random_y x"
proof -
  have next_only: "shape t1 \<and> ids t1 = ids t \<and> message_id m1 = message_id x \<and> random_y m1 = random_y x"
    if "attach_to_next_only x t = Some (m1, t1)"
    using that assms(1) by (auto simp: attach_to_next_only_def bind_eq_Some_conv shape_flags ids_flags
        split: if_splits option.splits)
  show ?thesis using assms next_only
    by (auto simp: auto_attach_message_def bind_eq_Some_conv shape_flags ids_flags Let_def split: if_splits option.splits)
qed

lemma detach_keeps:
  assumes "shape t" "detach_neighbours i t = Some t1"
  shows "shape t1 \<and> ids t1 = ids t"
  using assms by (auto simp: detach_neighbours_def bind_eq_Some_conv shape_flags ids_flags split: if_splits option.splits)

lemma insert_present:
  assumes t: "shape t" and i: "i \<in> set (ids t)"
  shows "om_insert i auto_attach last_message_id t = None"
proof -
  have "insert_at m1 t1 = None"
    if "shape t1" "ids t1 = ids t" "message_id m1 = i" "random_y m1 = random_priority i" for m1 t1
  proof -
    have "i \<in> set (ids t1)" using i that by simp
    then obtain y where y: "y \<in> set (messages t1)" "message_id y = i" by auto
    then show ?thesis using insert_at_present [of t1 y m1] shapeD(1,2,6) [OF that(1)] that by simp
  qed
  note none = this
  show ?thesis
  proof (cases auto_attach)
    case True
    show ?thesis
    proof (cases "auto_attach_message (new_message i) last_message_id t")
      case (Some p)
      obtain m1 t1 where p: "p = (m1, t1)" by (cases p)
      have "insert_at m1 t1 = None"
        by (rule none) (use auto_attach_keeps [OF t Some [unfolded p]] in \<open>simp_all add: new_message_def\<close>)
      then show ?thesis using Some p True by (simp add: om_insert_def new_message_def)
    qed (simp add: om_insert_def True new_message_def)
  next
    case False
    show ?thesis
    proof (cases "detach_neighbours i t")
      case (Some t1)
      have "insert_at (new_message i) t1 = None"
        by (rule none) (use detach_keeps [OF t Some] in \<open>simp_all add: new_message_def\<close>)
      then show ?thesis using Some False by (simp add: om_insert_def new_message_def)
    qed (simp add: om_insert_def False)
  qed
qed

lemma ids_all: "map message_id xs = map message_id ys \<Longrightarrow> \<forall>m \<in> set ys. P (message_id m) \<Longrightarrow> \<forall>m \<in> set xs. P (message_id m)"
  by (induction xs arbitrary: ys) (auto simp: Cons_eq_map_conv)

lemma insert_absent:
  assumes ok: "om_ok t" and i: "is_valid i" "i \<notin> set (ids t)"
  shows "\<exists>t'. om_insert i auto_attach last_message_id t = Some t' \<and> om_ok t' \<and>
    spec_op (Insert i auto_attach last_message_id) (messages t) = Some (messages t')"
proof -
  have t: "shape t" "linked False (messages t) False" using ok by (simp_all add: om_ok_def)
  obtain as bs where m: "messages t = as @ bs" "\<forall>m \<in> set as. message_id m < i" "\<forall>m \<in> set bs. \<not> message_id m < i"
    by (rule ordered_split [OF shapeD(3) [OF t(1)]])
  have bs: "\<forall>m \<in> set bs. i < message_id m" using m i(2) by (force simp: not_less order_le_less)
  obtain d where d: "linked False as d" "linked d bs False" using t(2) by (auto simp: m linked_append)
  have d': "d = (as \<noteq> [] \<and> have_next (last as))" using linked_last [OF d(1)] d(1) by (cases "as = []") auto
  have spec: "before i (messages t) = as" "from_on i (messages t) = bs" using before_from [OF m(2,3)] by (simp_all add: m)
  have new: "message_id (new_message i) = i" "random_y (new_message i) = random_priority i"
    "\<not> have_previous (new_message i)" "\<not> have_next (new_message i)"
    by (simp_all add: new_message_def)
  show ?thesis
  proof (cases auto_attach)
    case True
    obtain as1 m1 bs1 t1 where a: "auto_attach_message (new_message i) last_message_id t = Some (m1, t1)" "shape t1"
        "spec_attach last_message_id as (new_message i) bs = (as1, m1, bs1)" "messages t1 = as1 @ bs1"
      using auto_attach_spec [OF t(1) i(1) m(1,2) bs new(1) t(2)] by blast
    have keep: "map message_id as1 = map message_id as" "map message_id bs1 = map message_id bs"
      "message_id m1 = i" "random_y m1 = random_priority i"
      using a(3) new by (auto simp: spec_attach_def split: if_splits)
    have sides: "\<forall>m \<in> set as1. message_id m < i" "\<forall>m \<in> set bs1. i < message_id m"
      by (rule ids_all [OF keep(1) m(2)], rule ids_all [OF keep(2) bs])
    obtain t' where t': "insert_at m1 t1 = Some t'" "shape t'" "messages t' = as1 @ m1 # bs1"
      using insert_between [OF a(2,4) sides keep(3,4) i(1)] by blast
    have "linked False (as1 @ m1 # bs1) False"
      using a(3) d d' new linked_link_last [OF d(1)] linked_link_first [OF d(2)]
      by (auto simp: spec_attach_def linked_append split: if_splits)
    then show ?thesis using t' a i(2)
      by (auto simp: om_insert_def True new_message_def [symmetric] om_ok_def spec Let_def)
  next
    case False
    obtain t1 where a: "detach_neighbours i t = Some t1" "shape t1" "messages t1 = link_last False as @ link_first False bs"
      using detach_spec [OF t(1) i(1) m(1,2) bs t(2)] by blast
    have sides: "\<forall>m \<in> set (link_last False as). message_id m < i" "\<forall>m \<in> set (link_first False bs). i < message_id m"
      using m(2) bs by (simp_all add: set_link_cond)
    obtain t' where t': "insert_at (new_message i) t1 = Some t'" "shape t'"
        "messages t' = link_last False as @ new_message i # link_first False bs"
      using insert_between [OF a(2,3) sides new(1,2) i(1)] by blast
    have "linked False (link_last False as) False" "linked False (link_first False bs) False"
      using linked_link_last [OF d(1)] linked_link_first [OF d(2)] d by (cases "as = []"; cases "bs = []"; auto)+
    then have "linked False (link_last False as @ new_message i # link_first False bs) False"
      using new by (auto simp: linked_append)
    then show ?thesis using t' a i(2)
      by (auto simp: om_insert_def False new_message_def [symmetric] om_ok_def spec Let_def)
  qed
qed

text \<open>A message of the tree with its neighbours.\<close>

lemma present_split:
  assumes "shape t" "i \<in> set (ids t)"
  obtains as m bs where "messages t = as @ m # bs" "message_id m = i" "before i (messages t) = as"
    "hd (from_on i (messages t)) = m" "tl (from_on i (messages t)) = bs"
proof -
  obtain m where m: "m \<in> set (messages t)" "message_id m = i" using assms(2) by auto
  then obtain as bs where mm: "messages t = as @ m # bs" using split_list by metis
  have ord: "ordered (as @ m # bs)" using shapeD(3) [OF assms(1)] by (simp add: mm)
  note o = ordered_middle [OF ord]
  have "\<forall>x \<in> set (m # bs). \<not> message_id x < i" using o(2) m(2) by auto
  then have "before i (messages t) = as" "from_on i (messages t) = m # bs"
    using before_from [of as i "m # bs"] o(1) m(2) by (simp_all add: mm)
  then show ?thesis using that [OF mm m(2)] by simp
qed

lemma set_flags_previous:
  assumes "shape t" "messages t = as @ m # bs" "as \<noteq> []"
  shows "messages (set_flags (message_id (last as)) f t) = butlast as @ f (last as) # m # bs"
  using change_last [of as "m # bs" f] messages_set_flags [OF shapeD(1) [OF assms(1)]] shapeD(3) [OF assms(1)] assms(2,3)
  by simp

lemma set_flags_next:
  assumes "shape t" "messages t = as @ m # bs" "bs \<noteq> []"
  shows "messages (set_flags (message_id (hd bs)) f t) = as @ m # f (hd bs) # tl bs"
  using change_middle [of "as @ [m]" "hd bs" "tl bs" f] messages_set_flags [OF shapeD(1) [OF assms(1)]]
    shapeD(3) [OF assms(1)] assms(2,3)
  by (cases bs) simp_all

lemma set_flags_here:
  assumes "shape t" "messages t = as @ m # bs"
  shows "messages (set_flags (message_id m) f t) = as @ f m # bs"
  using change_middle [of as m bs f] messages_set_flags [OF shapeD(1) [OF assms(1)]] shapeD(3) [OF assms(1)] assms(2)
  by simp

lemma iterator_previous:
  assumes "shape t" "messages t = as @ m # bs" "have_previous m"
  shows "iter_get (iter_previous t (iter_at t (message_id m))) = (if as = [] then None else Some (message_id (last as)))"
  using iter_previous_at [OF shapeD(1) [OF assms(1)] assms(2)] shapeD(1) [OF assms(1)] assms(2,3)
  by (auto simp: iter_get_def [of "[]"])

lemma iterator_next:
  assumes "shape t" "messages t = as @ m # bs" "have_next m"
  shows "iter_get (iter_next t (iter_at t (message_id m))) = (if bs = [] then None else Some (message_id (hd bs)))"
  using iter_next_at [OF shapeD(1) [OF assms(1)] assms(2)] shapeD(1) [OF assms(1)] assms(2,3)
  by (cases bs) (auto simp: iter_get_def [of "[]"])

lemma get_at: "shape t \<Longrightarrow> messages t = as @ m # bs \<Longrightarrow> iter_get (iter_at t (message_id m)) = Some (message_id m)"
  by (simp add: shapeD(1))

lemma linked_around:
  assumes "linked False (as @ m # bs) False"
  shows "have_previous m \<Longrightarrow> as \<noteq> []" "have_next m \<Longrightarrow> bs \<noteq> []"
    "linked False as (have_previous m)" "linked (have_next m) bs False"
  using assms by (auto simp: linked_append)

lemma erase_absent: "shape t \<Longrightarrow> i \<notin> set (ids t) \<Longrightarrow> om_erase i only_from_memory t = None"
  using deref_None [of t i] by (simp add: om_erase_def shapeD(1))

lemma erase_present:
  assumes ok: "om_ok t" and i: "i \<in> set (ids t)"
  shows "\<exists>t'. om_erase i only_from_memory t = Some t' \<and> om_ok t' \<and>
    spec_op (Erase i only_from_memory) (messages t) = Some (messages t')"
proof -
  have t: "shape t" "linked False (messages t) False" using ok by (simp_all add: om_ok_def)
  obtain as m bs where m: "messages t = as @ m # bs" "message_id m = i" and spec: "before i (messages t) = as"
    "hd (from_on i (messages t)) = m" "tl (from_on i (messages t)) = bs" by (rule present_split [OF t(1) i])
  note around = linked_around [OF t(2) [unfolded m(1)]]
  have d: "deref t i = Some m" using deref_position [OF t(1) m(1)] m(2) by simp
  define prev where "prev \<longleftrightarrow> have_previous m \<and> (only_from_memory \<or> \<not> have_next m)"
  define succ where "succ \<longleftrightarrow> have_next m \<and> (only_from_memory \<or> \<not> have_previous m)"
  define t1 where "t1 = (if prev then set_flags (message_id (last as)) (with_next False) t else t)"
  define as1 where "as1 = (if prev then link_last False as else as)"
  have m1: "messages t1 = as1 @ m # bs" and s1: "shape t1"
    using set_flags_previous [OF t(1) m(1)] around(1) shape_flags(1) [OF t(1)] t(1) m(1)
    by (auto simp: t1_def as1_def prev_def link_last_def)
  define t2 where "t2 = (if succ then set_flags (message_id (hd bs)) (with_previous False) t1 else t1)"
  define bs2 where "bs2 = (if succ then link_first False bs else bs)"
  have m2: "messages t2 = as1 @ m # bs2" and s2: "shape t2"
    using set_flags_next [OF s1 m1] around(2) shape_flags(2) [OF s1] s1 m1
    by (cases bs; auto simp: t2_def bs2_def succ_def)+
  have at: "get_iterator t i = Some (iter_at t i)" "get_iterator t1 i = Some (iter_at t1 i)"
    using iterator_on [OF t(1) m(1)] iterator_on [OF s1 m1] m(2) by simp_all
  have get: "iter_get (iter_at t i) = Some i" "iter_get (iter_at t1 i) = Some i"
    using get_at [OF t(1) m(1)] get_at [OF s1 m1] m(2) by simp_all
  have "(if have_previous m \<and> (only_from_memory \<or> \<not> have_next m)
      then do { it \<leftarrow> get_iterator t i; check (iter_get it = Some i); p \<leftarrow> iter_get (iter_previous t it);
                Some (set_flags p (with_next False) t) }
      else Some t) = Some t1"
    using iterator_previous [OF t(1) m(1)] around(1) m(2) by (auto simp: at get t1_def prev_def)
  moreover have "(if have_next m \<and> (only_from_memory \<or> \<not> have_previous m)
      then do { it \<leftarrow> get_iterator t1 i; check (iter_get it = Some i); n \<leftarrow> iter_get (iter_next t1 it);
                Some (set_flags n (with_previous False) t1) }
      else Some t1) = Some t2"
    using iterator_next [OF s1 m1] around(2) m(2) by (auto simp: at get t2_def succ_def)
  ultimately have "om_erase i only_from_memory t = Some (erase_at i t2)"
    unfolding om_erase_def d by simp
  moreover have keep: "messages (erase_at i t2) = as1 @ bs2"
  proof -
    have ord: "ordered (as1 @ m # bs2)" using shapeD(3) [OF s2] by (simp add: m2)
    have "filter (\<lambda>x. message_id x \<noteq> i) as1 = as1" "filter (\<lambda>x. message_id x \<noteq> i) bs2 = bs2"
      using ordered_middle [OF ord] m(2) by (auto intro!: filter_True)
    then show ?thesis using erase_at_order [OF shapeD(1,2) [OF s2], of i] m2 m(2) by simp
  qed
  moreover have "shape (erase_at i t2)"
    using erase_at_order [OF shapeD(1,2) [OF s2], of i] erase_at_bst [OF shapeD(1,2) [OF s2], of i] shapeD(4,6) [OF s2]
    by (auto simp: shape_def)
  moreover have "linked False as1 (have_previous m \<and> have_next m \<and> \<not> only_from_memory)"
    "linked (have_previous m \<and> have_next m \<and> \<not> only_from_memory) bs2 False"
    using around linked_link_last [OF around(3), of False] linked_link_first [OF around(4), of False]
    by (auto simp: as1_def bs2_def prev_def succ_def)
  then have "linked False (as1 @ bs2) False" unfolding linked_append by blast
  moreover have "spec_op (Erase i only_from_memory) (messages t) = Some (as1 @ bs2)"
    using i link_last_same [OF around(3)] link_first_same [OF around(4)]
    by (auto simp: spec as1_def bs2_def prev_def succ_def Let_def)
  ultimately show ?thesis by (auto simp: om_ok_def)
qed

context link_change
begin

lemma iter_at_set_flags: "iter_at (set_flags i f t) p = iter_at t p"
proof -
  have "path (set_flags i f t) p st = path t p st" for st
    by (induction t arbitrary: st) (simp_all add: keeps_id)
  then show ?thesis by (simp add: iter_at_def)
qed

end

lemma attach_absent:
  assumes t: "shape t" and i: "i \<notin> set (ids t)"
  shows "attach_message_to_previous i t = None" "attach_message_to_next i t = None"
proof -
  have no: "\<exists>it. get_iterator t i = Some it \<and> iter_get it \<noteq> Some i" if "is_valid i"
  proof -
    obtain as bs where m: "messages t = as @ bs" "\<forall>m \<in> set as. message_id m < i" "\<forall>m \<in> set bs. \<not> message_id m < i"
      by (rule ordered_split [OF shapeD(3) [OF t]])
    have "\<forall>m \<in> set bs. i < message_id m" using m i by (force simp: not_less order_le_less)
    from iterator_before [OF t that m(1,2) this]
    have it: "get_iterator t i = Some (if as = [] then [] else iter_at t (message_id (last as)))" .
    moreover have "iter_get (iter_at t (message_id (last as))) = Some (message_id (last as))" "message_id (last as) \<noteq> i"
      if "as \<noteq> []"
      using that shapeD(1) [OF t] m(2) last_in_set [OF that] by (auto simp: m(1))
    ultimately show ?thesis by (cases "as = []") (auto simp: iter_get_def [of "[]"])
  qed
  have "attach_message_to_previous i t = None \<and> attach_message_to_next i t = None"
  proof (cases "is_valid i")
    case True
    then obtain it where it: "get_iterator t i = Some it" "iter_get it \<noteq> Some i" using no by blast
    then show ?thesis
      by (cases "iter_get it") (simp_all add: attach_message_to_previous_def attach_message_to_next_def)
  qed (simp add: attach_message_to_previous_def attach_message_to_next_def)
  then show "attach_message_to_previous i t = None" "attach_message_to_next i t = None" by simp_all
qed

lemma attach_previous_present:
  assumes ok: "om_ok t" and i: "i \<in> set (ids t)"
  shows "map_option messages (attach_message_to_previous i t) = spec_op (AttachPrevious i) (messages t) \<and>
    (\<forall>t'. attach_message_to_previous i t = Some t' \<longrightarrow> om_ok t')"
proof -
  have t: "shape t" "linked False (messages t) False" using ok by (simp_all add: om_ok_def)
  obtain as m bs where m: "messages t = as @ m # bs" "message_id m = i" and spec: "before i (messages t) = as"
    "hd (from_on i (messages t)) = m" "tl (from_on i (messages t)) = bs" by (rule present_split [OF t(1) i])
  note around = linked_around [OF t(2) [unfolded m(1)]]
  let ?t1 = "set_flags i (with_previous True) t"
  have m1: "messages ?t1 = as @ with_previous True m # bs" using set_flags_here [OF t(1) m(1)] m(2) by simp
  have s1: "shape ?t1" by (rule shape_flags(2) [OF t(1)])
  have v: "is_valid i" using shapeD(4) [OF t(1)] m by auto
  have at: "get_iterator t i = Some (iter_at t i)" "iter_get (iter_at t i) = Some i" "deref t i = Some m"
    using iterator_on [OF t(1) m(1)] get_at [OF t(1) m(1)] deref_position [OF t(1) m(1)] m(2) by simp_all
  show ?thesis
  proof (cases "have_previous m")
    case True
    then show ?thesis using ok i by (simp add: attach_message_to_previous_def v at spec)
  next
    case False
    have get: "iter_get (iter_previous ?t1 (iter_at t i)) = (if as = [] then None else Some (message_id (last as)))"
      using iterator_previous [OF s1 m1] m(2) by (simp add: previous_link.iter_at_set_flags)
    show ?thesis
    proof (cases "as = []")
      case True
      then show ?thesis using False i get by (simp add: attach_message_to_previous_def v at spec)
    next
      case nonempty: False
      let ?t2 = "set_flags (message_id (last as)) (with_next True) ?t1"
      have "messages ?t1 = butlast as @ last as # with_previous True m # bs" using m1 nonempty by simp
      from deref_position [OF s1 this] have "deref ?t1 (message_id (last as)) = Some (last as)" .
      moreover have "\<not> have_next (last as)" using linked_last [OF around(3) nonempty] False by simp
      ultimately have run: "attach_message_to_previous i t = Some ?t2"
        using False get nonempty by (simp add: attach_message_to_previous_def v at)
      have m2: "messages ?t2 = link_last True as @ with_previous True m # bs"
        using set_flags_previous [OF s1 m1 nonempty] nonempty by (simp add: link_last_def)
      have "linked False (messages ?t2) False"
        using linked_link_last [OF around(3) nonempty, of True] around(4) by (auto simp: m2 linked_append)
      then show ?thesis using run m2 shape_flags(1) [OF s1] i False nonempty by (simp add: spec om_ok_def Let_def)
    qed
  qed
qed

lemma attach_next_present:
  assumes ok: "om_ok t" and i: "i \<in> set (ids t)"
  shows "map_option messages (attach_message_to_next i t) = spec_op (AttachNext i) (messages t) \<and>
    (\<forall>t'. attach_message_to_next i t = Some t' \<longrightarrow> om_ok t')"
proof -
  have t: "shape t" "linked False (messages t) False" using ok by (simp_all add: om_ok_def)
  obtain as m bs where m: "messages t = as @ m # bs" "message_id m = i" and spec: "before i (messages t) = as"
    "hd (from_on i (messages t)) = m" "tl (from_on i (messages t)) = bs" by (rule present_split [OF t(1) i])
  note around = linked_around [OF t(2) [unfolded m(1)]]
  let ?t1 = "set_flags i (with_next True) t"
  have m1: "messages ?t1 = as @ with_next True m # bs" using set_flags_here [OF t(1) m(1)] m(2) by simp
  have s1: "shape ?t1" by (rule shape_flags(1) [OF t(1)])
  have v: "is_valid i" using shapeD(4) [OF t(1)] m by auto
  have at: "get_iterator t i = Some (iter_at t i)" "iter_get (iter_at t i) = Some i" "deref t i = Some m"
    using iterator_on [OF t(1) m(1)] get_at [OF t(1) m(1)] deref_position [OF t(1) m(1)] m(2) by simp_all
  show ?thesis
  proof (cases "have_next m")
    case True
    then show ?thesis using ok i by (simp add: attach_message_to_next_def v at spec)
  next
    case False
    have get: "iter_get (iter_next ?t1 (iter_at t i)) = (if bs = [] then None else Some (message_id (hd bs)))"
      using iterator_next [OF s1 m1] m(2) by (simp add: next_link.iter_at_set_flags)
    show ?thesis
    proof (cases bs)
      case Nil
      then show ?thesis using False i get by (simp add: attach_message_to_next_def v at spec)
    next
      case (Cons b bs')
      let ?t2 = "set_flags (message_id b) (with_previous True) ?t1"
      have "messages ?t1 = (as @ [with_next True m]) @ b # bs'" using m1 Cons by simp
      from deref_position [OF s1 this] have "deref ?t1 (message_id b) = Some b" .
      moreover have "\<not> have_previous b" using around(4) False by (simp add: Cons)
      ultimately have run: "attach_message_to_next i t = Some ?t2"
        using False get by (simp add: attach_message_to_next_def v at Cons)
      have m2: "messages ?t2 = as @ with_next True m # link_first True bs"
        using set_flags_next [OF s1 m1] by (simp add: Cons)
      have "linked False (messages ?t2) False"
        using around(3,4) False by (auto simp: m2 linked_append Cons)
      then show ?thesis using run m2 shape_flags(2) [OF s1] i False by (simp add: spec om_ok_def Let_def Cons)
    qed
  qed
qed

text \<open>A sequence of operations on messages.\<close>

fun run_ops :: "om_op list \<Rightarrow> treap \<Rightarrow> treap option" where
  "run_ops [] t = Some t"
| "run_ops (p # ps) t = do { t \<leftarrow> run_op p t; run_ops ps t }"

fun spec_ops :: "om_op list \<Rightarrow> ordered_message list \<Rightarrow> ordered_message list option" where
  "spec_ops [] xs = Some xs"
| "spec_ops (p # ps) xs = do { xs \<leftarrow> spec_op p xs; spec_ops ps xs }"

lemma run_op_spec:
  assumes ok: "om_ok t" and v: "is_valid (op_mid p)"
  shows "map_option messages (run_op p t) = spec_op p (messages t) \<and> (\<forall>t'. run_op p t = Some t' \<longrightarrow> om_ok t')"
proof -
  have t: "shape t" using ok by (simp add: om_ok_def)
  show ?thesis
  proof (cases p)
    case (Insert i auto_attach l)
    show ?thesis
    proof (cases "i \<in> set (ids t)")
      case True
      then show ?thesis using insert_present [OF t, of i auto_attach l] by (simp add: Insert)
    next
      case False
      then obtain t' where "om_insert i auto_attach l t = Some t'" "om_ok t'"
          "spec_op (Insert i auto_attach l) (messages t) = Some (messages t')"
        using insert_absent [OF ok, of i auto_attach l] v by (auto simp: Insert)
      then show ?thesis by (simp add: Insert del: spec_op.simps)
    qed
  next
    case (Erase i only)
    show ?thesis
    proof (cases "i \<in> set (ids t)")
      case True
      then obtain t' where "om_erase i only t = Some t'" "om_ok t'" "spec_op (Erase i only) (messages t) = Some (messages t')"
        using erase_present [OF ok, of i only] by blast
      then show ?thesis by (simp add: Erase del: spec_op.simps)
    next
      case False
      then show ?thesis using erase_absent [OF t, of i only] by (simp add: Erase)
    qed
  next
    case (AttachPrevious i)
    show ?thesis
      using attach_previous_present [OF ok, of i] attach_absent(1) [OF t, of i]
      by (cases "i \<in> set (ids t)") (simp_all add: AttachPrevious del: spec_op.simps, simp)
  next
    case (AttachNext i)
    show ?thesis
      using attach_next_present [OF ok, of i] attach_absent(2) [OF t, of i]
      by (cases "i \<in> set (ids t)") (simp_all add: AttachNext del: spec_op.simps, simp)
  qed
qed

lemma om_ok_Null: "om_ok Null"
  by (simp add: om_ok_def shape_def)

lemma run_ops_refine:
  assumes "\<forall>p \<in> set ps. is_valid (op_mid p)" "om_ok t"
  shows "map_option messages (run_ops ps t) = spec_ops ps (messages t) \<and> (\<forall>t'. run_ops ps t = Some t' \<longrightarrow> om_ok t')"
  using assms
proof (induction ps arbitrary: t)
  case (Cons p ps)
  note step = run_op_spec [OF Cons.prems(2), of p]
  show ?case
  proof (cases "run_op p t")
    case None
    then show ?thesis using step Cons.prems(1) by (auto simp del: run_op.simps spec_op.simps)
  next
    case (Some t1)
    then have "spec_op p (messages t) = Some (messages t1)" "om_ok t1" using step Cons.prems(1) by auto
    then show ?thesis using Cons.IH [of t1] Cons.prems(1) Some by (simp del: run_op.simps spec_op.simps)
  qed
qed simp

text \<open>C5: the treap of messages implements the list of messages with links in the order of their identifiers: a sequence
  of insertions, removals and attachments of valid messages fails a check exactly when the list has no such
  operation, otherwise the messages in order are those of the list, and the tree stays ordered, a heap by the
  pseudorandom priorities, and with links that neighbours agree on.\<close>

lemma ordered_messages_refine:
  assumes "\<forall>p \<in> set ps. is_valid (op_mid p)"
  shows "map_option messages (run_ops ps Null) = spec_ops ps [] \<and>
    pred_option (\<lambda>t. bst t \<and> heap t \<and> linked False (messages t) False) (run_ops ps Null)"
  using run_ops_refine [OF assms om_ok_Null]
  by (cases "run_ops ps Null") (simp_all add: om_ok_def shape_def del: run_ops.simps spec_ops.simps)

lemma ordered_messages_refine_witness:
  "map_option messages (run_ops [Insert 1048576 True 0, Insert 2097152 True 1048576, Erase 1048576 False] Null) =
     spec_ops [Insert 1048576 True 0, Insert 2097152 True 1048576, Erase 1048576 False] []"
  using ordered_messages_refine [of "[Insert 1048576 True 0, Insert 2097152 True 1048576, Erase 1048576 False]"]
  by (simp add: is_valid_iff del: run_ops.simps spec_ops.simps)

end
