(* ===== verification/Td_MessageHistory.thy ===== *)
theory Td_MessageHistory
  imports Td_MessageLinks
begin

text \<open>
  What is read from the messages of a chat: the searches, the history and the counting of unread messages of
  \<open>OrderedMessages\<close> in \<open>td/telegram/OrderedMessage.cpp\<close>.

  Callbacks are functions; those of \<open>traverse\_messages\<close>, which change variables of the caller, take and return its
  state.  An \<open>int32\<close> that is counted or shifted by at most the number of messages is an integer.  The loops that
  follow an iterator to the left take as fuel the number of messages; \<^theory_text>\<open>None\<close> would be fuel that ran out, and the
  theorems show that it does not.
\<close>

subsection \<open>Searches\<close>

fun do_find_older_messages :: "treap \<Rightarrow> mid \<Rightarrow> mid list \<Rightarrow> mid list option" where
  "do_find_older_messages Null max_message_id message_ids = Some message_ids"
| "do_find_older_messages (Msg l m r) max_message_id message_ids =
     do { message_ids \<leftarrow> do_find_older_messages l max_message_id message_ids;
          le \<leftarrow> mid_le (message_id m) max_message_id;
          if le then do_find_older_messages r max_message_id (message_ids @ [message_id m]) else Some message_ids }"

definition find_older_messages :: "mid \<Rightarrow> treap \<Rightarrow> mid list option" where
  "find_older_messages max_message_id t = do_find_older_messages t max_message_id []"

fun do_find_newer_messages :: "treap \<Rightarrow> mid \<Rightarrow> mid list \<Rightarrow> mid list option" where
  "do_find_newer_messages Null min_message_id message_ids = Some message_ids"
| "do_find_newer_messages (Msg l m r) min_message_id message_ids =
     do { gt \<leftarrow> mid_gt (message_id m) min_message_id;
          message_ids \<leftarrow> (if gt then map_option (\<lambda>is. is @ [message_id m]) (do_find_newer_messages l min_message_id message_ids)
                         else Some message_ids);
          do_find_newer_messages r min_message_id message_ids }"

definition find_newer_messages :: "mid \<Rightarrow> treap \<Rightarrow> mid list option" where
  "find_newer_messages min_message_id t = do_find_newer_messages t min_message_id []"

fun do_find_message_by_date :: "treap \<Rightarrow> int \<Rightarrow> (mid \<Rightarrow> int) \<Rightarrow> mid" where
  "do_find_message_by_date Null date get_message_date = 0"
| "do_find_message_by_date (Msg l m r) date get_message_date =
     (if get_message_date (message_id m) > date then do_find_message_by_date l date get_message_date
      else let i = do_find_message_by_date r date get_message_date in if is_valid i then i else message_id m)"

definition find_message_by_date :: "int \<Rightarrow> (mid \<Rightarrow> int) \<Rightarrow> treap \<Rightarrow> mid" where
  "find_message_by_date date get_message_date t = do_find_message_by_date t date get_message_date"

fun do_find_messages_by_date :: "treap \<Rightarrow> int \<Rightarrow> int \<Rightarrow> (mid \<Rightarrow> int) \<Rightarrow> mid list \<Rightarrow> mid list" where
  "do_find_messages_by_date Null min_date max_date get_message_date message_ids = message_ids"
| "do_find_messages_by_date (Msg l m r) min_date max_date get_message_date message_ids =
     (let message_date = get_message_date (message_id m);
          message_ids = (if message_date \<ge> min_date
            then let message_ids = do_find_messages_by_date l min_date max_date get_message_date message_ids in
                 if message_date \<le> max_date then message_ids @ [message_id m] else message_ids
            else message_ids)
      in if message_date \<le> max_date then do_find_messages_by_date r min_date max_date get_message_date message_ids
         else message_ids)"

definition find_messages_by_date :: "int \<Rightarrow> int \<Rightarrow> (mid \<Rightarrow> int) \<Rightarrow> treap \<Rightarrow> mid list" where
  "find_messages_by_date min_date max_date get_message_date t =
     do_find_messages_by_date t min_date max_date get_message_date []"

fun do_traverse_messages :: "treap \<Rightarrow> (mid \<Rightarrow> 's \<Rightarrow> bool \<times> 's) \<Rightarrow> (mid \<Rightarrow> 's \<Rightarrow> bool \<times> 's) \<Rightarrow> 's \<Rightarrow> 's" where
  "do_traverse_messages Null need_scan_older need_scan_newer s = s"
| "do_traverse_messages (Msg l m r) need_scan_older need_scan_newer s =
     (let (older, s) = need_scan_older (message_id m) s;
          s = (if older then do_traverse_messages l need_scan_older need_scan_newer s else s);
          (newer, s) = need_scan_newer (message_id m) s
      in if newer then do_traverse_messages r need_scan_older need_scan_newer s else s)"

definition traverse_messages :: "(mid \<Rightarrow> 's \<Rightarrow> bool \<times> 's) \<Rightarrow> (mid \<Rightarrow> 's \<Rightarrow> bool \<times> 's) \<Rightarrow> treap \<Rightarrow> 's \<Rightarrow> 's" where
  "traverse_messages need_scan_older need_scan_newer t s = do_traverse_messages t need_scan_older need_scan_newer s"

subsection \<open>The last messages\<close>

fun last_sent_loop :: "nat \<Rightarrow> treap \<Rightarrow> iter \<Rightarrow> mid option" where
  "last_sent_loop fuel t [] = Some 0"
| "last_sent_loop 0 t (i # it) = None"
| "last_sent_loop (Suc fuel) t (i # it) =
     do { unsent \<leftarrow> is_yet_unsent i;
          if \<not> unsent then Some i else last_sent_loop fuel t (iter_previous t (i # it)) }"

definition get_last_sent_message_id :: "treap \<Rightarrow> mid option" where
  "get_last_sent_message_id t =
     do { it \<leftarrow> get_iterator t max_mid; last_sent_loop (length (messages t)) t it }"

definition get_last_message_id :: "treap \<Rightarrow> mid option" where
  "get_last_message_id t =
     do { it \<leftarrow> get_iterator t max_mid; Some (case iter_get it of None \<Rightarrow> 0 | Some i \<Rightarrow> i) }"

subsection \<open>The history\<close>

text \<open>The loop that moves to newer messages while the offset is negative.\<close>

function skip_newer :: "treap \<Rightarrow> iter \<Rightarrow> int \<Rightarrow> mid \<Rightarrow> iter \<times> int \<times> mid" where
  "skip_newer t it offset from_message_id =
     (if it \<noteq> [] \<and> offset < 0
      then let it = iter_next t it in
        (case iter_get it of
           None \<Rightarrow> skip_newer t it offset from_message_id
         | Some i \<Rightarrow> skip_newer t it (offset + 1) i)
      else (it, offset, from_message_id))"
  by pat_completeness auto
termination
  by (relation "measure (\<lambda>(t, it, offset, _). nat (- offset) + (if it = [] then 0 else 1))")
    (auto simp: iter_get_def split: list.splits)

declare skip_newer.simps [simp del]

function collect_messages :: "treap \<Rightarrow> nat \<Rightarrow> iter \<Rightarrow> mid list \<Rightarrow> mid \<Rightarrow> mid list \<times> mid" where
  "collect_messages t limit it message_ids from_message_id =
     (case iter_get it of
        None \<Rightarrow> (message_ids, from_message_id)
      | Some i \<Rightarrow>
          if length message_ids < limit then collect_messages t limit (iter_previous t it) (message_ids @ [i]) i
          else (message_ids, from_message_id))"
  by pat_completeness auto
termination
  by (relation "measure (\<lambda>(t, limit, it, message_ids, _). limit - length message_ids)") auto

declare collect_messages.simps [simp del]

text \<open>Where the history starts, with the flag of a gap and the new \<open>from\_message\_id\<close>.\<close>

definition history_start ::
  "mid \<Rightarrow> mid \<Rightarrow> int \<Rightarrow> bool \<Rightarrow> treap \<Rightarrow> iter \<Rightarrow> (bool \<times> iter \<times> mid) option" where
  "history_start last_message_id from_message_id offset forced t it =
     (case iter_get it of
        None \<Rightarrow>
          if forced \<and> offset < 0 \<and> t \<noteq> Null
          then do { let min_message_id = traverse_messages (\<lambda>i _. (True, i)) (\<lambda>_ s. (False, s)) t 0;
                    gt \<leftarrow> mid_gt min_message_id from_message_id;
                    check gt;
                    it \<leftarrow> get_iterator t min_message_id;
                    check (iter_get it \<noteq> None);
                    Some (False, it, min_message_id) }
          else Some (True, it, from_message_id)
      | Some i \<Rightarrow>
          if i = from_message_id then Some (False, it, from_message_id)
          else do { lt \<leftarrow> mid_lt i from_message_id;
                    check lt;
                    m \<leftarrow> deref t i;
                    gap \<leftarrow> (if have_next m then Some False
                           else if last_message_id = 0 then Some True else mid_lt i last_message_id);
                    Some (gap, it, from_message_id) })"

definition history_position ::
  "mid \<Rightarrow> mid \<Rightarrow> int \<Rightarrow> int \<Rightarrow> bool \<Rightarrow> treap \<Rightarrow> iter \<Rightarrow> (iter \<times> mid \<times> int \<times> int) option" where
  "history_position last_message_id from_message_id offset limit forced t it =
     do { (have_a_gap, it, from_message_id) \<leftarrow> history_start last_message_id from_message_id offset forced t it;
          let it = (if have_a_gap then [] else it);
          let (it, offset) = (if iter_get it = Some from_message_id
                              then if offset < 0 then (it, offset + 1) else (iter_previous t it, offset)
                              else (it, offset));
          let (it, offset, from_message_id) = skip_newer t it offset from_message_id;
          adjust \<leftarrow> (if offset < 0
                    then do { at_end \<leftarrow> (if last_message_id \<noteq> 0 then mid_ge from_message_id last_message_id else Some False);
                              Some (at_end \<or> \<not> have_a_gap \<and> forced) }
                    else Some False);
          (it, offset, limit) \<leftarrow> (if adjust
                                 then do { check (\<not> have_a_gap);
                                           new_it \<leftarrow> get_iterator t from_message_id;
                                           Some (new_it, 0, limit + offset) }
                                 else Some (it, offset, limit));
          Some (it, from_message_id, (if \<not> have_a_gap \<and> offset < 0 then offset - 1 else offset), limit) }"

text \<open>The result holds the identifiers and the new \<open>from\_message\_id\<close>, \<open>offset\<close> and \<open>limit\<close>.\<close>

definition get_history ::
  "mid \<Rightarrow> mid \<Rightarrow> int \<Rightarrow> int \<Rightarrow> bool \<Rightarrow> treap \<Rightarrow> (mid list \<times> mid \<times> int \<times> int) option" where
  "get_history last_message_id from_message_id offset limit forced t =
     do { check (limit > 0);
          let is_limit_increased = (limit = - offset);
          let limit = (if is_limit_increased then limit + 1 else limit);
          check (- limit < offset \<and> offset \<le> 0);
          it \<leftarrow> get_iterator t from_message_id;
          after_last \<leftarrow> (if last_message_id \<noteq> 0 then mid_gt from_message_id last_message_id else Some False);
          from_the_end \<leftarrow> (if after_last then Some True else mid_ge from_message_id max_mid);
          (it, from_message_id, offset, limit) \<leftarrow>
            (if from_the_end
             then Some (if last_message_id = 0 then [] else it, from_message_id, 0, limit + offset)
             else history_position last_message_id from_message_id offset limit forced t it);
          let (message_ids, from_message_id) =
            (if it \<noteq> [] \<and> offset = 0 then collect_messages t (nat (limit mod 2 ^ 64)) it [] from_message_id
             else ([], from_message_id));
          let from_message_id = (if from_the_end \<and> message_ids = [] then 0 else from_message_id);
          let message_ids = (if is_limit_increased \<and> nat (limit mod 2 ^ 64) = length message_ids then butlast message_ids
                             else message_ids);
          Some (message_ids, from_message_id, offset, limit) }"

subsection \<open>Unread messages\<close>

fun count_down :: "nat \<Rightarrow> treap \<Rightarrow> (mid \<Rightarrow> bool) \<Rightarrow> mid \<Rightarrow> int \<Rightarrow> iter \<Rightarrow> int \<Rightarrow> (int \<times> iter) option" where
  "count_down fuel t counted bound step [] n = Some (n, [])"
| "count_down 0 t counted bound step (i # it) n = None"
| "count_down (Suc fuel) t counted bound step (i # it) n =
     do { gt \<leftarrow> mid_gt i bound;
          if gt then count_down fuel t counted bound step (iter_previous t (i # it)) (if counted i then n + step else n)
          else Some (n, i # it) }"

definition calc_new_unread_count_from_last_unread ::
  "mid \<Rightarrow> mid \<Rightarrow> int \<Rightarrow> (mid \<Rightarrow> bool) \<Rightarrow> treap \<Rightarrow> int option" where
  "calc_new_unread_count_from_last_unread max_message_id last_read_inbox_message_id old_unread_count counted t =
     do { it \<leftarrow> get_iterator t max_message_id;
          if iter_get it \<noteq> Some max_message_id then Some (-1)
          else do { (unread_count, it) \<leftarrow>
                      count_down (length (messages t)) t counted last_read_inbox_message_id (-1) it old_unread_count;
                    if iter_get it \<noteq> Some last_read_inbox_message_id then Some (-1) else Some unread_count } }"

definition calc_new_unread_count_from_the_end ::
  "mid \<Rightarrow> mid \<Rightarrow> (mid \<Rightarrow> bool) \<Rightarrow> int \<Rightarrow> treap \<Rightarrow> int option" where
  "calc_new_unread_count_from_the_end max_message_id last_message_id counted hint_unread_count t =
     do { it \<leftarrow> get_iterator t max_mid;
          (unread_count, it) \<leftarrow> count_down (length (messages t)) t counted max_message_id 1 it 0;
          let is_count_exact = (is_valid last_message_id \<and> it \<noteq> []);
          if hint_unread_count \<ge> 0 \<and>
             (if is_count_exact then hint_unread_count = unread_count else hint_unread_count \<ge> unread_count)
          then Some hint_unread_count
          else if \<not> is_count_exact then Some (-1) else Some unread_count }"

definition calc_new_unread_count ::
  "mid \<Rightarrow> mid \<Rightarrow> int \<Rightarrow> mid \<Rightarrow> (mid \<Rightarrow> bool) \<Rightarrow> int \<Rightarrow> treap \<Rightarrow> int option" where
  "calc_new_unread_count max_message_id last_read_inbox_message_id old_unread_count last_message_id counted
     hint_unread_count t =
     (if \<not> is_valid last_read_inbox_message_id
      then calc_new_unread_count_from_the_end max_message_id last_message_id counted hint_unread_count t
      else if \<not> is_valid last_message_id \<or>
          last_message_id - max_message_id > max_message_id - last_read_inbox_message_id
      then do { unread_count \<leftarrow> calc_new_unread_count_from_last_unread max_message_id last_read_inbox_message_id
                  old_unread_count counted t;
                if unread_count \<ge> 0 then Some unread_count
                else calc_new_unread_count_from_the_end max_message_id last_message_id counted hint_unread_count t }
      else do { unread_count \<leftarrow> calc_new_unread_count_from_the_end max_message_id last_message_id counted
                  hint_unread_count t;
                if unread_count \<ge> 0 then Some unread_count
                else calc_new_unread_count_from_last_unread max_message_id last_read_inbox_message_id
                  old_unread_count counted t })"

subsection \<open>What the searches find\<close>

lemma do_find_older:
  assumes "bst t" "\<forall>m \<in> set (messages t). \<not> is_scheduled (message_id m)" "\<not> is_scheduled i"
  shows "do_find_older_messages t i acc = Some (acc @ filter (\<lambda>j. j \<le> i) (ids t))"
  using assms
proof (induction t arbitrary: acc)
  case (Msg l m r)
  have "filter (\<lambda>j. j \<le> i) (ids r) = []" if "\<not> message_id m \<le> i"
    using that Msg.prems(1) by (intro filter_False) auto
  then show ?case using Msg by (simp add: mid_compare)
qed simp

lemma do_find_newer:
  assumes "bst t" "\<forall>m \<in> set (messages t). \<not> is_scheduled (message_id m)" "\<not> is_scheduled i"
  shows "do_find_newer_messages t i acc = Some (acc @ filter (\<lambda>j. i < j) (ids t))"
  using assms
proof (induction t arbitrary: acc)
  case (Msg l m r)
  have "filter (\<lambda>j. i < j) (ids l) = []" if "\<not> i < message_id m"
    using that Msg.prems(1) by (intro filter_False) auto
  then show ?case using Msg by (simp add: mid_compare)
qed simp

text \<open>The dates of the messages do not decrease with the identifiers.\<close>

abbreviation dates_ordered :: "(mid \<Rightarrow> int) \<Rightarrow> mid list \<Rightarrow> bool" where
  "dates_ordered date is \<equiv> sorted (map date is)"

lemma dates_ordered_Msg:
  "dates_ordered date (ids (Msg l m r)) \<longleftrightarrow> dates_ordered date (ids l) \<and> dates_ordered date (ids r) \<and>
     (\<forall>x \<in> set (ids l). date x \<le> date (message_id m)) \<and> (\<forall>x \<in> set (ids r). date (message_id m) \<le> date x)"
  by (fastforce simp: sorted_append)

lemma find_messages_by_date_filter:
  assumes "dates_ordered date (ids t)"
  shows "do_find_messages_by_date t a b date acc = acc @ filter (\<lambda>i. a \<le> date i \<and> date i \<le> b) (ids t)"
  using assms
proof (induction t arbitrary: acc)
  case (Msg l m r)
  note d = Msg.prems [unfolded dates_ordered_Msg]
  have "filter (\<lambda>i. a \<le> date i \<and> date i \<le> b) (ids l) = []" if "\<not> a \<le> date (message_id m)"
    using that d by (intro filter_False) fastforce
  moreover have "filter (\<lambda>i. a \<le> date i \<and> date i \<le> b) (ids r) = []" if "\<not> date (message_id m) \<le> b"
    using that d by (intro filter_False) fastforce
  ultimately show ?case using Msg.IH d by (simp add: Let_def)
qed simp

lemma find_message_by_date_last:
  assumes "dates_ordered date (ids t)" "\<forall>m \<in> set (messages t). is_valid (message_id m)"
  shows "do_find_message_by_date t d date =
    (case rev (filter (\<lambda>i. date i \<le> d) (ids t)) of [] \<Rightarrow> 0 | i # _ \<Rightarrow> i)"
  using assms
proof (induction t)
  case (Msg l m r)
  note o = Msg.prems(1) [unfolded dates_ordered_Msg]
  show ?case
  proof (cases "date (message_id m) > d")
    case True
    then have "filter (\<lambda>i. date i \<le> d) (ids r) = []" using o by (intro filter_False) fastforce
    then show ?thesis using True Msg.IH o Msg.prems(2) by simp
  next
    case False
    let ?found = "rev (filter (\<lambda>i. date i \<le> d) (ids r))"
    have IH: "do_find_message_by_date r d date = (case ?found of [] \<Rightarrow> 0 | i # _ \<Rightarrow> i)"
      using Msg.IH(2) o Msg.prems(2) by simp
    have "is_valid (hd ?found)" if "?found \<noteq> []"
      using hd_in_set [OF that] Msg.prems(2) by auto
    moreover have "\<not> is_valid 0" by (simp add: is_valid_iff)
    ultimately show ?thesis using False IH by (cases ?found) (auto simp: Let_def)
  qed
qed simp

lemma traverse_least: "t \<noteq> Null \<Longrightarrow> do_traverse_messages t (\<lambda>i _. (True, i)) (\<lambda>_ s. (False, s)) s = hd (ids t)"
proof (induction t arbitrary: s)
  case (Msg l m r)
  then show ?case by (cases "l = Null") (auto simp: hd_append)
qed simp

text \<open>The searches give what they are to find: the identifiers up to and from one on, and, where the dates of the
  messages follow their identifiers, those in a range of dates and the last one not behind a date.\<close>

lemma searches_exact:
  assumes "om_ok t" "is_valid i" "dates_ordered date (ids t)"
  shows "find_older_messages i t = Some (filter (\<lambda>j. j \<le> i) (ids t))"
    "find_newer_messages i t = Some (filter (\<lambda>j. i < j) (ids t))"
    "find_messages_by_date a b date t = filter (\<lambda>j. a \<le> date j \<and> date j \<le> b) (ids t)"
    "find_message_by_date d date t = (case rev (filter (\<lambda>j. date j \<le> d) (ids t)) of [] \<Rightarrow> 0 | j # _ \<Rightarrow> j)"
proof -
  have t: "shape t" using assms(1) by (simp add: om_ok_def)
  show "find_older_messages i t = Some (filter (\<lambda>j. j \<le> i) (ids t))"
    "find_newer_messages i t = Some (filter (\<lambda>j. i < j) (ids t))"
    using do_find_older [of t i] do_find_newer [of t i] shapeD [OF t] valid_not_scheduled [OF assms(2)]
    by (simp_all add: find_older_messages_def find_newer_messages_def)
  show "find_messages_by_date a b date t = filter (\<lambda>j. a \<le> date j \<and> date j \<le> b) (ids t)"
    using find_messages_by_date_filter [OF assms(3)] by (simp add: find_messages_by_date_def)
  show "find_message_by_date d date t = (case rev (filter (\<lambda>j. date j \<le> d) (ids t)) of [] \<Rightarrow> 0 | j # _ \<Rightarrow> j)"
    using find_message_by_date_last [OF assms(3)] shapeD(4) [OF t] by (simp add: find_message_by_date_def)
qed

text \<open>A tree of two linked messages.\<close>

definition sample_messages :: treap where
  "sample_messages = the (run_ops [Insert 1048576 True 0, Insert 2097152 True 1048576] Null)"

lemma sample_messages_run: "map_option (map (\<lambda>m. (message_id m, have_previous m, have_next m)))
    (spec_ops [Insert 1048576 True 0, Insert 2097152 True 1048576] []) =
    Some [(1048576, False, True), (2097152, True, False)]"
  by code_simp

lemma sample_messages_ok:
  "om_ok sample_messages"
  "map (\<lambda>m. (message_id m, have_previous m, have_next m)) (messages sample_messages) =
     [(1048576, False, True), (2097152, True, False)]"
proof -
  let ?ps = "[Insert 1048576 True 0, Insert 2097152 True 1048576]"
  have "\<forall>p \<in> set ?ps. is_valid (op_mid p)" by (simp add: is_valid_iff)
  note r = run_ops_refine [OF this om_ok_Null]
  obtain xs where xs: "spec_ops ?ps [] = Some xs"
    "map (\<lambda>m. (message_id m, have_previous m, have_next m)) xs = [(1048576, False, True), (2097152, True, False)]"
    using sample_messages_run by (auto simp del: spec_ops.simps)
  then obtain t where "run_ops ?ps Null = Some t" "messages t = xs" using r by (auto simp del: run_ops.simps spec_ops.simps)
  then show "om_ok sample_messages" "map (\<lambda>m. (message_id m, have_previous m, have_next m)) (messages sample_messages) =
     [(1048576, False, True), (2097152, True, False)]"
    using r xs(2) by (simp_all add: sample_messages_def del: run_ops.simps)
qed

lemma searches_exact_witness:
  "find_older_messages 1500001 sample_messages = Some [1048576] \<and>
   find_newer_messages 1500001 sample_messages = Some [2097152] \<and>
   find_messages_by_date 2 3 (\<lambda>i. i div 1048576) sample_messages = [2097152] \<and>
   find_message_by_date 7 (\<lambda>i. i div 1048576) sample_messages = 2097152"
proof -
  have "ids sample_messages = map fst [(1048576, False, True), (2097152 :: mid, True, False)]"
    unfolding sample_messages_ok(2) [symmetric] by simp
  then have ids: "ids sample_messages = [1048576, 2097152]" by simp
  have "is_valid 1500001" by (simp add: is_valid_iff)
  from searches_exact [OF sample_messages_ok(1) this, of "\<lambda>i. i div 1048576", unfolded ids]
  show ?thesis using searches_exact [OF sample_messages_ok(1), of 1048576 "\<lambda>i. i div 1048576", unfolded ids]
    by (simp add: is_valid_iff)
qed

subsection \<open>Iterators that point to a message or to nothing\<close>

definition iter_ok :: "treap \<Rightarrow> iter \<Rightarrow> bool" where
  "iter_ok t it \<longleftrightarrow> it = [] \<or> (\<exists>i \<in> set (ids t). it = iter_at t i)"

lemma iter_ok_Nil [simp]: "iter_ok t []"
  by (simp add: iter_ok_def)

lemma iter_ok_at: "shape t \<Longrightarrow> i \<in> set (ids t) \<Longrightarrow> iter_ok t (iter_at t i)"
  by (auto simp: iter_ok_def)

lemma iter_get_Nil [simp]: "iter_get [] = None" "iter_get it = None \<longleftrightarrow> it = []"
  by (simp_all add: iter_get_def split: list.split)

lemma iter_ok_cases:
  assumes "shape t" "iter_ok t it"
  obtains "it = []" | as m bs where "messages t = as @ m # bs" "it = iter_at t (message_id m)" "iter_get it = Some (message_id m)"
proof (cases "it = []")
  case False
  then obtain m where m: "m \<in> set (messages t)" "it = iter_at t (message_id m)" using assms(2) by (auto simp: iter_ok_def)
  then obtain as bs where "messages t = as @ m # bs" using split_list by metis
  then show ?thesis using that(2) m assms(1) by (simp add: shapeD(1))
qed (use that in simp)

lemma iter_ok_next:
  assumes "shape t" "iter_ok t it" shows "iter_ok t (iter_next t it)"
proof (cases rule: iter_ok_cases [OF assms])
  case (2 as m bs)
  then show ?thesis using iter_next_at [OF shapeD(1) [OF assms(1)] 2(1)]
    by (cases bs) (auto simp: iter_ok_def)
qed simp

lemma iter_ok_previous:
  assumes "shape t" "iter_ok t it" shows "iter_ok t (iter_previous t it)"
proof (cases rule: iter_ok_cases [OF assms])
  case (2 as m bs)
  then show ?thesis using iter_previous_at [OF shapeD(1) [OF assms(1)] 2(1)] last_in_set [of as]
    by (auto simp: iter_ok_def)
qed simp

lemma get_iterator_ok:
  assumes t: "shape t" and i: "\<not> is_scheduled i"
  obtains it where "get_iterator t i = Some it" "iter_ok t it" "i \<in> set (ids t) \<Longrightarrow> it = iter_at t i"
    "it = [] \<Longrightarrow> \<forall>j \<in> set (ids t). i < j" "\<And>j. iter_get it = Some j \<Longrightarrow> j \<in> set (ids t) \<and> j \<le> i"
proof -
  obtain as bs where m: "messages t = as @ bs" "\<forall>m \<in> set as. message_id m < i + 1" "\<forall>m \<in> set bs. \<not> message_id m < i + 1"
    by (rule ordered_split [OF shapeD(3) [OF t]])
  then have sides: "\<forall>m \<in> set as. message_id m \<le> i" "\<forall>m \<in> set bs. i < message_id m" by auto
  have it: "get_iterator t i = Some (if as = [] then [] else iter_at t (message_id (last as)))"
    by (rule get_iterator_at) (use shapeD [OF t] i m(1) sides in auto)
  have get: "iter_get (iter_at t (message_id (last as))) = Some (message_id (last as))" if "as \<noteq> []"
    using that shapeD(1) [OF t] by (simp add: m(1))
  have here: "as \<noteq> [] \<and> message_id (last as) = i" if "i \<in> set (ids t)"
  proof -
    have "i \<in> message_id ` set as" using that sides(2) by (auto simp: m(1))
    then obtain k where k: "k \<in> set as" "message_id k = i" by auto
    then obtain ns n where n: "as = ns @ [n]" by (cases as rule: rev_cases) auto
    then have "message_id n \<le> i" using sides(1) by simp
    moreover have "ordered (ns @ [n])" using shapeD(3) [OF t] by (simp add: m(1) n sorted_wrt_append)
    then have "message_id k \<le> message_id n" using k(1) by (auto simp: n sorted_wrt_append)
    ultimately show ?thesis using k(2) n by simp
  qed
  show ?thesis
  proof (rule that [OF it])
    show "iter_ok t (if as = [] then [] else iter_at t (message_id (last as)))"
      using iter_ok_at [OF t, of "message_id (last as)"] by (simp add: m(1))
    show "(if as = [] then [] else iter_at t (message_id (last as))) = iter_at t i" if "i \<in> set (ids t)"
      using here [OF that] by simp
    show "\<forall>j \<in> set (ids t). i < j" if "(if as = [] then [] else iter_at t (message_id (last as))) = []"
    proof -
      have "as = []" using that get by (cases "as = []") auto
      then show ?thesis using sides(2) by (simp add: m(1))
    qed
    show "j \<in> set (ids t) \<and> j \<le> i" if "iter_get (if as = [] then [] else iter_at t (message_id (last as))) = Some j" for j
      using that get sides(1) last_in_set [of as] by (auto simp: m(1) split: if_splits)
  qed
qed

subsection \<open>Runs of linked messages\<close>

text \<open>The identifiers of the messages from the first on, newest first, up to a missing link.\<close>

fun unbroken :: "ordered_message list \<Rightarrow> mid list" where
  "unbroken [] = []"
| "unbroken (m # ms) = message_id m # (if have_previous m then unbroken ms else [])"

fun joined :: "ordered_message list \<Rightarrow> bool" where
  "joined [] \<longleftrightarrow> True"
| "joined [m] \<longleftrightarrow> True"
| "joined (m # n # ms) \<longleftrightarrow> have_next m \<and> joined (n # ms)"

lemma joined_snoc: "joined (xs @ [m]) \<longleftrightarrow> joined xs \<and> (xs = [] \<or> have_next (last xs))"
  by (induction xs rule: joined.induct) auto

lemma joined_append: "joined (xs @ ys) \<Longrightarrow> joined xs \<and> joined ys"
proof (induction xs rule: joined.induct)
  case (2 m)
  then show ?case by (cases ys) auto
qed auto

lemma collect_unbroken:
  assumes t: "shape t" and lk: "linked False (messages t) False" and m: "messages t = as @ m # bs"
    and len: "length acc \<le> limit"
  shows "collect_messages t limit (iter_at t (message_id m)) acc from_id =
    (let is = take (limit - length acc) (unbroken (m # rev as)) in (acc @ is, if is = [] then from_id else last is))"
  using m len
proof (induction as arbitrary: m bs acc from_id rule: rev_induct)
  case Nil
  have "\<not> have_previous m" using lk Nil(1) by simp
  then have prev: "iter_previous t (iter_at t (message_id m)) = []"
    using iter_previous_at [OF shapeD(1) [OF t] Nil(1)] by simp
  have get: "iter_get (iter_at t (message_id m)) = Some (message_id m)" by (rule get_at [OF t Nil(1)])
  show ?case
  proof (cases "length acc < limit")
    case True
    then show ?thesis using \<open>\<not> have_previous m\<close>
      by (subst collect_messages.simps, subst collect_messages.simps) (simp add: get prev take_Cons' Let_def)
  next
    case False
    then show ?thesis by (subst collect_messages.simps) (simp add: get)
  qed
next
  case (snoc n ns)
  have prev: "iter_previous t (iter_at t (message_id m)) = (if have_previous m then iter_at t (message_id n) else [])"
    using iter_previous_at [OF shapeD(1) [OF t] snoc.prems(1)] by simp
  have get: "iter_get (iter_at t (message_id m)) = Some (message_id m)" by (rule get_at [OF t snoc.prems(1)])
  show ?case
  proof (cases "length acc < limit")
    case True
    have step: "collect_messages t limit (iter_at t (message_id m)) acc from_id =
        collect_messages t limit (iter_previous t (iter_at t (message_id m))) (acc @ [message_id m]) (message_id m)"
      using True by (subst collect_messages.simps) (simp add: get)
    obtain k where k: "limit - length acc = Suc k" using True by (metis Suc_diff_Suc)
    show ?thesis
    proof (cases "have_previous m")
      case True
      have kk: "limit - length (acc @ [message_id m]) = k" using k by simp
      have "collect_messages t limit (iter_at t (message_id n)) (acc @ [message_id m]) (message_id m) =
          (let is = take (limit - length (acc @ [message_id m])) (unbroken (n # rev ns)) in
            ((acc @ [message_id m]) @ is, if is = [] then message_id m else last is))"
        by (rule snoc.IH) (use snoc.prems(1) \<open>length acc < limit\<close> in simp_all)
      note this [unfolded kk]
      moreover have "unbroken (m # rev (ns @ [n])) = message_id m # unbroken (n # rev ns)" using True by simp
      ultimately show ?thesis unfolding step prev k by (simp add: True Let_def del: unbroken.simps)
    next
      case False
      then show ?thesis by (simp add: step prev k) (subst collect_messages.simps, simp)
    qed
  next
    case False
    then show ?thesis by (subst collect_messages.simps) (simp add: get)
  qed
qed

lemma unbroken_joined:
  assumes "linked False ms c"
  shows "\<exists>ys xs. ms = ys @ xs \<and> take k (unbroken (rev ms)) = rev (map message_id xs) \<and> joined xs"
  using assms
proof (induction ms arbitrary: c k rule: rev_induct)
  case (snoc m ms)
  show ?case
  proof (cases k)
    case 0
    then show ?thesis by - (rule exI [where x = "ms @ [m]"], rule exI [where x = "[]"], simp)
  next
    case (Suc k')
    have lk: "linked False ms (have_previous m)" using snoc.prems by (auto simp: linked_append)
    show ?thesis
    proof (cases "have_previous m")
      case True
      obtain ys xs where xs: "ms = ys @ xs" "take k' (unbroken (rev ms)) = rev (map message_id xs)" "joined xs"
        using snoc.IH [OF lk] by blast
      have "have_next (last xs)" if "xs \<noteq> []" using linked_last [OF lk] xs(1) that True by simp
      then show ?thesis using Suc True xs 
        by - (rule exI [where x = ys], rule exI [where x = "xs @ [m]"], auto simp: joined_snoc)
    next
      case False
      then show ?thesis using Suc by - (rule exI [where x = ms], rule exI [where x = "[m]"], simp)
    qed
  qed
qed simp

subsection \<open>The history\<close>

lemma skip_newer_ok:
  assumes "shape t" "iter_ok t it" "offset \<le> 0"
  shows "case skip_newer t it offset from_id of (it', offset', from_id') \<Rightarrow>
    iter_ok t it' \<and> offset \<le> offset' \<and> offset' \<le> 0 \<and> (from_id' = from_id \<or> from_id' \<in> set (ids t)) \<and>
    (it = [] \<longrightarrow> it' = [] \<and> from_id' = from_id \<and> offset' = offset)"
  using assms
proof (induction t it offset from_id rule: skip_newer.induct)
  case (1 t it offset from_id)
  show ?case
  proof (cases "it \<noteq> [] \<and> offset < 0")
    case True
    note ok = iter_ok_next [OF 1(3,4)]
    show ?thesis
    proof (cases "iter_get (iter_next t it)")
      case None
      have "skip_newer t it offset from_id = skip_newer t (iter_next t it) offset from_id"
        using True None by (subst skip_newer.simps) simp
      then show ?thesis using 1(1) [OF True refl None 1(3) ok 1(5)] True by (auto split: prod.splits)
    next
      case (Some i)
      have "i \<in> set (ids t)" using iter_ok_cases [OF 1(3) ok] Some by (metis (no_types, lifting) iter_get_Nil(1) list.set_map
          image_eqI in_set_conv_decomp option.distinct(1) option.inject)
      moreover have "skip_newer t it offset from_id = skip_newer t (iter_next t it) (offset + 1) i"
        using True Some by (subst skip_newer.simps) simp
      ultimately show ?thesis using 1(2) [OF True refl Some 1(3) ok] True by (auto split: prod.splits)
    qed
  next
    case False
    then show ?thesis using 1(4,5) by (subst skip_newer.simps) auto
  qed
qed

text \<open>The identifiers that the caller may give.\<close>

definition history_args :: "mid \<Rightarrow> mid \<Rightarrow> treap \<Rightarrow> bool" where
  "history_args last_message_id from_message_id t \<longleftrightarrow>
     (last_message_id = 0 \<or> last_message_id \<in> set (ids t)) \<and> \<not> is_scheduled from_message_id"

lemma history_args_compare:
  assumes "shape t" "history_args l f t"
  shows "i \<in> set (ids t) \<Longrightarrow> is_scheduled i = is_scheduled f" "is_scheduled l = is_scheduled f" "is_scheduled max_mid = is_scheduled f"
  using assms shapeD(5) [OF assms(1)] by (auto simp: history_args_def is_scheduled_iff)

lemma history_start_ok:
  assumes ok: "om_ok t" and args: "history_args l f t" and it: "get_iterator t f = Some it"
  shows "\<exists>gap it' f'. history_start l f offset forced t it = Some (gap, it', f') \<and> iter_ok t it' \<and>
    (f' = f \<or> f' \<in> set (ids t)) \<and> (gap \<longrightarrow> f' = f \<and> f \<notin> set (ids t))"
proof -
  have t: "shape t" using ok by (simp add: om_ok_def)
  have f: "\<not> is_scheduled f" using args by (simp add: history_args_def)
  note sched = history_args_compare [OF t args]
  obtain it0 where "get_iterator t f = Some it0" and i: "iter_ok t it0" "f \<in> set (ids t) \<Longrightarrow> it0 = iter_at t f"
    "it0 = [] \<Longrightarrow> \<forall>j \<in> set (ids t). f < j" "\<And>j. iter_get it0 = Some j \<Longrightarrow> j \<in> set (ids t) \<and> j \<le> f"
    by (rule get_iterator_ok [OF t f]) blast
  then have it0: "it0 = it" using it by simp
  show ?thesis
  proof (cases "iter_get it")
    case None
    then have none: "it = []" "\<forall>j \<in> set (ids t). f < j" using i(3) by (auto simp: it0)
    show ?thesis
    proof (cases "forced \<and> offset < 0 \<and> t \<noteq> Null")
      case True
      let ?m = "hd (ids t)"
      have m: "?m \<in> set (ids t)" using True by (intro first_id) simp
      obtain it1 where it1: "get_iterator t ?m = Some it1" "iter_ok t it1" "it1 = iter_at t ?m"
        by (rule get_iterator_ok [OF t, of ?m]) (use m sched(1) [OF m] f in auto)
      have "iter_get it1 \<noteq> None" using m shapeD(1) [OF t] by (simp add: it1(3))
      then show ?thesis using True None m it1 none(2) sched(1) [OF m]
        by (auto simp: history_start_def traverse_messages_def traverse_least mid_compare Let_def)
    next
      case False
      have "f \<notin> set (ids t)" using none(2) by auto
      then show ?thesis using False None i by (auto simp: history_start_def it0)
    qed
  next
    case (Some j)
    have j: "j \<in> set (ids t)" "j \<le> f" using i(4) Some by (simp_all add: it0)
    show ?thesis
    proof (cases "j = f")
      case True
      then show ?thesis using Some i(1) by (auto simp: history_start_def it0)
    next
      case False
      obtain m where m: "deref t j = Some m" using deref_None [OF shapeD(1) [OF t], of j] j(1) by auto
      have "f \<notin> set (ids t)"
      proof
        assume "f \<in> set (ids t)"
        then have "iter_get it = Some f" using i(2) shapeD(1) [OF t] by (simp add: it0)
        then show False using Some False by simp
      qed
      then show ?thesis using Some False j m i(1) sched(1) [OF j(1)] sched(2)
        by (cases "have_next m"; cases "l = 0") (auto simp: history_start_def it0 mid_compare)
    qed
  qed
qed

lemma history_position_ok:
  assumes ok: "om_ok t" and args: "history_args l f t" and it: "get_iterator t f = Some it"
    and range: "- limit < offset" "offset \<le> 0" and front: "l = 0 \<or> f \<le> l"
  shows "\<exists>it' f' offset' limit'. history_position l f offset limit forced t it = Some (it', f', offset', limit') \<and>
    iter_ok t it' \<and> limit' \<le> limit \<and> (offset' = 0 \<longrightarrow> 0 < limit')"
proof -
  have t: "shape t" using ok by (simp add: om_ok_def)
  note sched = history_args_compare [OF t args]
  obtain gap it1 f1 where s: "history_start l f offset forced t it = Some (gap, it1, f1)" "iter_ok t it1"
    "f1 = f \<or> f1 \<in> set (ids t)" "gap \<longrightarrow> f1 = f \<and> f \<notin> set (ids t)" using history_start_ok [OF ok args it] by blast
  define it2 where "it2 = (if gap then [] else it1)"
  define p where "p = (if iter_get it2 = Some f1 then if offset < 0 then (it2, offset + 1) else (iter_previous t it2, offset)
    else (it2, offset))"
  obtain it3 o3 where p3: "p = (it3, o3)" by (cases p)
  have 3: "iter_ok t it3" "offset \<le> o3" "o3 \<le> 0" "gap \<longrightarrow> it3 = [] \<and> o3 = offset"
    using p3 s(2) range iter_ok_previous [OF t s(2)] by (auto simp: p_def it2_def split: if_splits)
  obtain it4 o4 f4 where sk: "skip_newer t it3 o3 f1 = (it4, o4, f4)" by (cases "skip_newer t it3 o3 f1")
  have 4: "iter_ok t it4" "offset \<le> o4" "o4 \<le> 0" "f4 = f1 \<or> f4 \<in> set (ids t)" "gap \<longrightarrow> f4 = f"
    using skip_newer_ok [OF t 3(1,3), of f1] 3 s(4) by (auto simp: sk)
  have f4: "is_scheduled f4 = is_scheduled f" using 4(4) s(3) sched(1) by auto
  define adjust where "adjust \<longleftrightarrow> o4 < 0 \<and> (l \<noteq> 0 \<and> l \<le> f4 \<or> \<not> gap \<and> forced)"
  have adj: "(if o4 < 0 then do { at_end \<leftarrow> (if l \<noteq> 0 then mid_ge f4 l else Some False);
      Some (at_end \<or> \<not> gap \<and> forced) } else Some False) = Some adjust"
    using f4 sched(2) by (auto simp: adjust_def mid_compare)
  have no_gap: "\<not> gap" if adjust
  proof
    assume gap
    then have "l \<noteq> 0" "l = f" using that 4(5) front by (auto simp: adjust_def)
    then show False using \<open>gap\<close> s(4) args by (auto simp: history_args_def)
  qed
  obtain it5 where it5: "get_iterator t f4 = Some it5" "iter_ok t it5"
    by (rule get_iterator_ok [OF t, of f4]) (use f4 args in \<open>auto simp: history_args_def\<close>)
  have fin: "(if adjust then do { check (\<not> gap); new_it \<leftarrow> get_iterator t f4; Some (new_it, 0, limit + o4) }
      else Some (it4, o4, limit)) = Some (if adjust then (it5, 0, limit + o4) else (it4, o4, limit))"
    using no_gap it5(1) by simp
  have "history_position l f offset limit forced t it =
      (let (it, o5, limit) = (if adjust then (it5, 0, limit + o4) else (it4, o4, limit)) in
       Some (it, f4, (if \<not> gap \<and> o5 < 0 then o5 - 1 else o5), limit))"
    unfolding history_position_def s(1) bind.bind_lunit prod.case Let_def it2_def [symmetric] p_def [symmetric] p3 sk adj fin
    by simp
  then show ?thesis using 4 it5(2) range by (auto simp: Let_def)
qed

text \<open>Messages that follow each other with no message missing between them on the server.\<close>

definition run_of :: "treap \<Rightarrow> mid list \<Rightarrow> bool" where
  "run_of t is \<longleftrightarrow> (\<exists>as xs bs. messages t = as @ xs @ bs \<and> is = rev (map message_id xs) \<and> joined xs)"

lemma run_of_Nil [simp]: "run_of t []"
  unfolding run_of_def by (rule exI [of _ "[]"], rule exI [of _ "[]"]) simp

lemma joined_tl: "joined xs \<Longrightarrow> joined (tl xs)"
  by (induction xs rule: joined.induct) auto

lemma run_of_butlast:
  assumes "run_of t is" shows "run_of t (butlast is)"
proof -
  obtain as xs bs where xs: "messages t = as @ xs @ bs" "is = rev (map message_id xs)" "joined xs"
    using assms by (auto simp: run_of_def)
  show ?thesis
  proof (cases xs)
    case (Cons x ys)
    have "messages t = (as @ [x]) @ ys @ bs \<and> butlast is = rev (map message_id ys) \<and> joined ys"
      using xs joined_tl [of xs] by (simp add: Cons)
    then show ?thesis unfolding run_of_def by blast
  qed (simp add: xs)
qed

lemma collect_run:
  assumes ok: "om_ok t" and it: "iter_ok t it"
  shows "run_of t (fst (collect_messages t limit it [] f)) \<and> length (fst (collect_messages t limit it [] f)) \<le> limit"
proof -
  have t: "shape t" "linked False (messages t) False" using ok by (simp_all add: om_ok_def)
  show ?thesis
  proof (cases rule: iter_ok_cases [OF t(1) it])
    case 1
    then show ?thesis by (subst (1 2) collect_messages.simps) simp
  next
    case (2 as m bs)
    have c: "fst (collect_messages t limit it [] f) = take limit (unbroken (m # rev as))"
      using collect_unbroken [OF t 2(1), of "[]" limit f] by (simp add: 2(2) Let_def)
    obtain c' where "linked False (as @ [m]) c'" using t(2) by (auto simp: 2(1) linked_append)
    from unbroken_joined [OF this, of limit] obtain ys xs
      where "as @ [m] = ys @ xs" "take limit (unbroken (m # rev as)) = rev (map message_id xs)" "joined xs" by auto
    moreover from this have "messages t = ys @ xs @ bs" using 2(1) by (metis append.assoc append_Cons append_Nil)
    ultimately have "run_of t (take limit (unbroken (m # rev as)))" unfolding run_of_def by blast
    then show ?thesis unfolding c by simp
  qed
qed


lemma sample_in: "1048576 \<in> set (ids sample_messages)" "2097152 \<in> set (ids sample_messages)"
  "messages sample_messages \<noteq> []"
proof -
  have "ids sample_messages = map fst [(1048576, False, True), (2097152 :: mid, True, False)]"
    unfolding sample_messages_ok(2) [symmetric] by simp
  then show "1048576 \<in> set (ids sample_messages)" "2097152 \<in> set (ids sample_messages)" "messages sample_messages \<noteq> []"
    by (simp, simp, force)
qed


text \<open>With offset zero, get\_history gives the messages before a known one: as many as asked, up to the first link
  that is missing.\<close>

lemma history_before:
  assumes ok: "om_ok t" and m: "messages t = as @ m # bs" and limit: "0 < limit" "limit \<le> int32_max"
    and l: "l = 0 \<or> l \<in> set (ids t) \<and> message_id m \<le> l" "message_id m < max_mid"
  shows "map_option fst (get_history l (message_id m) 0 limit forced t) =
    Some (if have_previous m then take (nat limit) (unbroken (rev as)) else [])"
proof -
  have t: "shape t" "linked False (messages t) False" using ok by (simp_all add: om_ok_def)
  have "\<not> is_scheduled (message_id m)" using shapeD(5) [OF t(1)] m by simp
  then have args: "history_args l (message_id m) t" using l by (auto simp: history_args_def)
  note sched = history_args_compare [OF t(1) args]
  have it: "get_iterator t (message_id m) = Some (iter_at t (message_id m))" by (rule iterator_on [OF t(1) m])
  have get: "iter_get (iter_at t (message_id m)) = Some (message_id m)" by (rule get_at [OF t(1) m])
  have as: "have_previous m \<Longrightarrow> as \<noteq> []" using linked_around(1) [OF t(2) [unfolded m]] by blast
  have prev: "iter_previous t (iter_at t (message_id m)) = (if have_previous m then iter_at t (message_id (last as)) else [])"
    using iter_previous_at [OF shapeD(1) [OF t(1)] m] as by auto
  have pos: "history_position l (message_id m) 0 limit forced t (iter_at t (message_id m)) =
      Some (iter_previous t (iter_at t (message_id m)), message_id m, 0, limit)"
    by (simp add: history_position_def history_start_def get Let_def skip_newer.simps)
  have "(if l \<noteq> 0 then mid_gt (message_id m) l else Some False) = Some False"
    "mid_ge (message_id m) max_mid = Some False"
    using mid_compare(2) [of "message_id m" l] mid_compare(4) [of "message_id m" max_mid] sched(2,3) l
    by (auto simp del: max_mid_eq)
  then have end_: "(if l \<noteq> 0 then mid_gt (message_id m) l else Some False) = Some False"
    "(if False then Some True else mid_ge (message_id m) max_mid) = Some False" by simp_all
  have mod: "nat (limit mod 2 ^ 64) = nat limit" using limit by (simp add: int32_max_def)
  have "map_option fst (get_history l (message_id m) 0 limit forced t) =
      Some (if have_previous m then fst (collect_messages t (nat limit) (iter_at t (message_id (last as))) [] (message_id m)) else [])"
    using limit unfolding get_history_def Let_def it bind.bind_lunit end_
    by (auto simp: pos prev mod [simplified] case_prod_unfold) (subst collect_messages.simps, simp)
  moreover have "fst (collect_messages t (nat limit) (iter_at t (message_id (last as))) [] (message_id m)) =
      take (nat limit) (unbroken (rev as))" if p: "have_previous m"
  proof -
    obtain ns n where n: "as = ns @ [n]" using as p by (cases as rule: rev_cases) auto
    then have "messages t = ns @ n # m # bs" by (simp add: m)
    from collect_unbroken [OF t this, of "[]" "nat limit" "message_id m"] show ?thesis by (simp add: n Let_def)
  qed
  ultimately show ?thesis by (cases "have_previous m") simp_all
qed

subsection \<open>Counting unread messages\<close>

lemma iter_at_Cons: "shape t \<Longrightarrow> messages t = as @ m # bs \<Longrightarrow> \<exists>st. iter_at t (message_id m) = message_id m # st"
  using path_Cons [of t "message_id m" "[]"] by (simp add: iter_at_def shapeD(1))

definition unread :: "(mid \<Rightarrow> bool) \<Rightarrow> ordered_message list \<Rightarrow> int" where
  "unread counted xs = int (length (filter (\<lambda>m. counted (message_id m)) xs))"

lemma unread_simps [simp]: "unread counted [] = 0" "unread counted (xs @ ys) = unread counted xs + unread counted ys"
  "unread counted [m] = (if counted (message_id m) then 1 else 0)" "0 \<le> unread counted xs"
  by (simp_all add: unread_def)

lemma count_down_joined:
  assumes t: "shape t" and lk: "linked False (messages t) False" and bound: "\<not> is_scheduled bound"
    and m: "messages t = as @ (r # xs) @ bs" "joined (r # xs)" "message_id r \<le> bound" "\<forall>x \<in> set xs. bound < message_id x"
    and fuel: "length xs < fuel"
  shows "count_down fuel t counted bound step (iter_at t (message_id (last (r # xs)))) n =
    Some (n + step * unread counted xs, iter_at t (message_id r))"
  using m fuel
proof (induction xs arbitrary: bs fuel n rule: rev_induct)
  case Nil
  have r: "messages t = as @ r # bs" using Nil by simp
  obtain st where st: "iter_at t (message_id r) = message_id r # st" using iter_at_Cons [OF t r] by blast
  have "mid_gt (message_id r) bound = Some False"
    using mid_compare(2) [of "message_id r" bound] shapeD(5) [OF t, of r] bound Nil(3) r by simp
  then show ?case using Nil by (cases fuel) (simp_all add: st)
next
  case (snoc x xs)
  have x: "messages t = (as @ r # xs) @ x # bs" using snoc.prems(1) by simp
  obtain st where st: "iter_at t (message_id x) = message_id x # st" using iter_at_Cons [OF t x] by blast
  obtain k where k: "fuel = Suc k" "length xs < k" using snoc.prems(5) by (cases fuel) auto
  have gt: "mid_gt (message_id x) bound = Some True"
    using mid_compare(2) [of "message_id x" bound] shapeD(5) [OF t, of x] bound snoc.prems(4) x by simp
  have j: "joined (r # xs)" "have_next (last (r # xs))" using snoc.prems(2) joined_snoc [of "r # xs" x] by simp_all
  have "have_previous x = have_next (last (r # xs))"
  proof -
    obtain c where "linked False (as @ r # xs) c" "have_previous x = c" using lk by (auto simp: x linked_append)
    then show ?thesis using linked_last [of False "as @ r # xs" c] by simp
  qed
  then have prev: "iter_previous t (message_id x # st) = iter_at t (message_id (last (r # xs)))"
    using iter_previous_at [OF shapeD(1) [OF t] x] j(2) by (simp add: st)
  have "count_down k t counted bound step (iter_at t (message_id (last (r # xs)))) (if counted (message_id x) then n + step else n) =
      Some ((if counted (message_id x) then n + step else n) + step * unread counted xs, iter_at t (message_id r))"
    by (rule snoc.IH [where bs = "x # bs"]) (use snoc.prems k j in simp_all)
  then show ?case by (simp add: st k(1) gt prev algebra_simps del: iter_previous.simps)
qed

text \<open>C10: when the messages from the last read one to the last one are known without a gap and the old count is right,
  calc\_new\_unread\_count gives the number of unread messages behind the newly read one, whichever of its two ways
  it takes.\<close>

lemma unread_count_exact:
  assumes ok: "om_ok t" and m: "messages t = as @ r # xs @ ys" and joined: "joined (r # xs @ ys)"
    and hint: "hint = -1 \<or> hint = unread counted ys"
  shows "calc_new_unread_count (message_id (last (r # xs))) (message_id r) (unread counted (xs @ ys))
      (message_id (last (r # xs @ ys))) counted hint t = Some (unread counted ys)"
proof -
  have t: "shape t" "linked False (messages t) False" using ok by (simp_all add: om_ok_def)
  define mm where "mm = last (r # xs)"
  define zs where "zs = as @ butlast (r # xs)"
  have mm: "messages t = zs @ mm # ys" using m by (simp add: mm_def zs_def append_butlast_last_id)
  define l where "l = last (r # xs @ ys)"
  have l: "l = last (mm # ys)" by (simp add: l_def mm_def)
  have "l \<in> set (messages t)" using last_in_set [of "r # xs @ ys"] by (auto simp: l_def m simp del: last.simps)
  then have l_valid: "is_valid (message_id l)" by (rule shapeD(4) [OF t(1)])
  have ord: "ordered (zs @ mm # ys)" "ordered (as @ r # xs @ ys)" using shapeD(3) [OF t(1)] by (simp_all add: mm [symmetric] m [symmetric])
  have sched: "\<not> is_scheduled (message_id r)" "\<not> is_scheduled (message_id mm)"
  proof -
    show "\<not> is_scheduled (message_id r)" by (rule shapeD(5) [OF t(1)]) (simp add: m)
    show "\<not> is_scheduled (message_id mm)" by (rule shapeD(5) [OF t(1)]) (simp add: mm)
  qed
  have from_last: "calc_new_unread_count_from_last_unread (message_id mm) (message_id r) (unread counted (xs @ ys)) counted t =
      Some (unread counted ys)"
  proof -
    have "messages t = as @ (r # xs) @ ys" "joined (r # xs)" 
      using m joined_append [of "r # xs" ys] joined by simp_all
    moreover have "\<forall>x \<in> set xs. message_id r < message_id x" using ordered_middle(2) [OF ord(2)] by simp
    ultimately have "count_down (length (messages t)) t counted (message_id r) (-1) (iter_at t (message_id mm))
        (unread counted (xs @ ys)) = Some (unread counted ys, iter_at t (message_id r))"
      using count_down_joined [OF t sched(1), of as r xs ys "length (messages t)" counted "-1"] by (simp add: mm_def)
    then show ?thesis
      using iterator_on [OF t(1) mm] get_at [OF t(1) mm] get_at [OF t(1) m]
      by (simp add: calc_new_unread_count_from_last_unread_def)
  qed
  have from_end: "calc_new_unread_count_from_the_end (message_id mm) (message_id l) counted hint t = Some (unread counted ys)"
  proof -
    have lm: "messages t = butlast (zs @ mm # ys) @ [l]"
    proof -
      have "last (zs @ mm # ys) = l" by (simp add: l)
      then show ?thesis using append_butlast_last_id [of "zs @ mm # ys"] by (simp add: mm)
    qed
    have "message_id x \<le> max_mid" if "x \<in> set (messages t)" for x
      using shapeD(4) [OF t(1) that] by (simp add: is_valid_iff)
    then have it: "get_iterator t max_mid = Some (iter_at t (message_id l))"
      using get_iterator_at [of t max_mid "butlast (zs @ mm # ys) @ [l]" "[]"] shapeD [OF t(1)] lm
      by (simp add: is_scheduled_iff)
    have "r # xs @ ys = butlast (r # xs) @ mm # ys"
      using append_butlast_last_id [of "r # xs"] by (simp add: mm_def del: butlast.simps last.simps)
    then have "joined (mm # ys)" using joined joined_append by metis
    moreover have "\<forall>y \<in> set ys. message_id mm < message_id y" using ordered_middle(2) [OF ord(1)] by simp
    ultimately have "count_down (length (messages t)) t counted (message_id mm) 1 (iter_at t (message_id l)) 0 =
        Some (unread counted ys, iter_at t (message_id mm))"
      using count_down_joined [OF t sched(2), of zs mm ys "[]" "length (messages t)" counted 1 0] mm by (simp add: l)
    moreover have "iter_at t (message_id mm) \<noteq> []" using iter_at_Cons [OF t(1) mm] by auto
    ultimately show ?thesis using it l_valid hint by (auto simp: calc_new_unread_count_from_the_end_def Let_def)
  qed
  show ?thesis unfolding mm_def [symmetric] l_def [symmetric]
    using from_last from_end by (simp add: calc_new_unread_count_def Let_def)
qed

lemma sample_messages_list:
  obtains x y where "messages sample_messages = [x, y]" "message_id x = 1048576" "message_id y = 2097152"
    "have_next x" "have_previous y" "\<not> have_previous x" "\<not> have_next y"
  using sample_messages_ok(2) that by (auto simp: map_eq_Cons_conv)

lemma unread_count_exact_witness:
  "calc_new_unread_count 1048576 1048576 1 2097152 (\<lambda>_. True) (-1) sample_messages = Some 1"
proof -
  obtain x y where xy: "messages sample_messages = [x, y]" "message_id x = 1048576" "message_id y = 2097152" "have_next x"
    by (rule sample_messages_list)
  then show ?thesis
    using unread_count_exact [OF sample_messages_ok(1), of "[]" x "[]" "[y]" "-1" "\<lambda>_. True"]
    by (simp add: unread_def)
qed

lemma history_before_witness:
  "map_option fst (get_history 2097152 2097152 0 10 False sample_messages) = Some [1048576]"
proof -
  obtain x y where xy: "messages sample_messages = [x, y]" "message_id x = 1048576" "message_id y = 2097152" "have_previous y"
    by (rule sample_messages_list)
  then show ?thesis
    using history_before [OF sample_messages_ok(1), of "[x]" y "[]" 10 2097152 False]
    by (cases "have_previous x") (simp_all add: int32_max_def)
qed

text \<open>The fuel of the search for the last message that was sent is enough.\<close>

lemma last_sent_loop_returns:
  assumes t: "shape t" and m: "messages t = as @ m # bs" and fuel: "length as < fuel"
  shows "\<exists>i. last_sent_loop fuel t (iter_at t (message_id m)) = Some i"
  using m fuel
proof (induction as arbitrary: m bs fuel rule: rev_induct)
  case Nil
  obtain st where st: "iter_at t (message_id m) = message_id m # st" using iter_at_Cons [OF t Nil(1)] by blast
  have "iter_previous t (message_id m # st) = []"
    using iter_previous_at [OF shapeD(1) [OF t] Nil(1)] by (simp add: st del: iter_previous.simps)
  moreover have "\<exists>u. is_yet_unsent (message_id m) = Some u" using shapeD(4) [OF t, of m] Nil(1) by (simp add: is_yet_unsent_def)
  ultimately show ?case using Nil(2) by (cases fuel) (auto simp: st simp del: iter_previous.simps)
next
  case (snoc n ns)
  obtain st where st: "iter_at t (message_id m) = message_id m # st" using iter_at_Cons [OF t snoc.prems(1)] by blast
  obtain k where k: "fuel = Suc k" "length ns < k" using snoc.prems(2) by (cases fuel) auto
  have "\<exists>u. is_yet_unsent (message_id m) = Some u" using shapeD(4) [OF t, of m] snoc.prems(1) by (simp add: is_yet_unsent_def)
  moreover have "\<exists>i. last_sent_loop k t (iter_at t (message_id n)) = Some i"
    by (rule snoc.IH [where bs = "m # bs"]) (use snoc.prems(1) k in simp_all)
  moreover have "iter_previous t (message_id m # st) = (if have_previous m then iter_at t (message_id n) else [])"
    using iter_previous_at [OF shapeD(1) [OF t] snoc.prems(1)] by (simp add: st del: iter_previous.simps)
  ultimately show ?case by (auto simp: st k(1) simp del: iter_previous.simps)
qed

lemma last_messages:
  assumes ok: "om_ok t"
  shows "get_last_message_id t = Some (if messages t = [] then 0 else message_id (last (messages t)))"
    "\<exists>i. get_last_sent_message_id t = Some i"
proof -
  have t: "shape t" using ok by (simp add: om_ok_def)
  have "message_id x \<le> max_mid" if "x \<in> set (messages t)" for x
    using shapeD(4) [OF t that] by (simp add: is_valid_iff)
  then have it: "get_iterator t max_mid = Some (if messages t = [] then [] else iter_at t (message_id (last (messages t))))"
    using get_iterator_at [of t max_mid "messages t" "[]"] shapeD [OF t] by (simp add: is_scheduled_iff)
  show "get_last_message_id t = Some (if messages t = [] then 0 else message_id (last (messages t)))"
    using it shapeD(1) [OF t] by (auto simp: get_last_message_id_def)
  show "\<exists>i. get_last_sent_message_id t = Some i"
  proof (cases "messages t" rule: rev_cases)
    case (snoc as m)
    then show ?thesis using last_sent_loop_returns [OF t, of as m "[]" "length (messages t)"] it
      by (simp add: get_last_sent_message_id_def)
  qed (use it in \<open>simp add: get_last_sent_message_id_def\<close>)
qed

end
