(* ===== verification/Td_FlatHash.thy ===== *)
theory Td_FlatHash
  imports Td_Prelude "HOL-Library.Multiset"
begin

text \<open>
  The hash table of the library: \<open>FlatHashTable\<close> of \<open>tdutils/td/utils/FlatHashTable.h\<close> and \<open>FlatHashTable.cpp\<close>,
  with the nodes of \<open>SetNode.h\<close> and \<open>MapNode.h\<close>.  Keys are found by linear probing; removing a key moves the keys
  behind it back.

  \<^item> An empty node, whose key is the key that the default constructor makes, is \<^theory_text>\<open>None\<close>; others hold a key and a value.
    A moved node is left empty.  No nodes at all, \<open>nullptr\<close>, is the empty list.
  \<^item> The template arguments are a record: the hash function, the size of a node and the empty key.
  \<^item> Counts are natural numbers: \<open>allocate\_nodes\<close> checks that there are at most \<open>2^29\<close> buckets, of which at most three
    fifths and one are used, so that no product or sum wraps around at 32 bits.
  \<^item> \<open>DCHECK\<close> is not compiled into a release and is left out.
  \<^item> The loops that look for an empty bucket have as many rounds as there are buckets.  A loop that has seen every
    bucket would go on forever; this is \<^theory_text>\<open>None\<close>, and that it does not happen is part of the theorems.
\<close>

subsection \<open>Tables\<close>

record 'k hashing =
  key_hash :: "'k \<Rightarrow> nat"
  node_size :: nat
  empty_key :: 'k

type_synonym ('k, 'v) table_node = "('k \<times> 'v) option"

record ('k, 'v) flat_table =
  nodes :: "('k, 'v) table_node list"
  used_node_count :: nat
  bucket_count_mask :: nat
  bucket_count :: nat
  begin_bucket :: nat

definition INVALID_BUCKET :: nat where "INVALID_BUCKET = 0xFFFFFFFF"

definition new_table :: "('k, 'v) flat_table" where
  "new_table = \<lparr>nodes = [], used_node_count = 0, bucket_count_mask = 0, bucket_count = 0, begin_bucket = 0\<rparr>"

definition node_at :: "('k, 'v) flat_table \<Rightarrow> nat \<Rightarrow> ('k, 'v) table_node option" where
  "node_at s i = (if i < length (nodes s) then Some (nodes s ! i) else None)"

definition put_node :: "nat \<Rightarrow> ('k, 'v) table_node \<Rightarrow> ('k, 'v) flat_table \<Rightarrow> ('k, 'v) flat_table" where
  "put_node i n s = s\<lparr>nodes := (nodes s)[i := n]\<rparr>"

definition max_buckets :: "'k hashing \<Rightarrow> nat" where
  "max_buckets c = min (2 ^ 29) (0x7FFFFFFF div node_size c)"

definition allocate_nodes :: "'k hashing \<Rightarrow> nat \<Rightarrow> ('k, 'v) flat_table \<Rightarrow> ('k, 'v) flat_table option" where
  "allocate_nodes c new_size s =
     do { check (new_size \<le> max_buckets c);
          Some (s\<lparr>nodes := replicate new_size None, bucket_count_mask := new_size - 1, bucket_count := new_size,
                  begin_bucket := INVALID_BUCKET\<rparr>) }"

definition calc_bucket :: "'k hashing \<Rightarrow> 'k \<Rightarrow> ('k, 'v) flat_table \<Rightarrow> nat" where
  "calc_bucket c k s = key_hash c k AND bucket_count_mask s"

definition next_bucket :: "('k, 'v) flat_table \<Rightarrow> nat \<Rightarrow> nat" where
  "next_bucket s b = (b + 1) AND bucket_count_mask s"

definition invalidate_iterators :: "('k, 'v) flat_table \<Rightarrow> ('k, 'v) flat_table" where
  "invalidate_iterators s = s\<lparr>begin_bucket := INVALID_BUCKET\<rparr>"

fun bit_length :: "nat \<Rightarrow> nat" where
  "bit_length 0 = 0"
| "bit_length (Suc n) = Suc (bit_length (Suc n div 2))"

text \<open>The number of leading zeros is 32 minus the length.\<close>

definition normalize_size :: "nat \<Rightarrow> nat" where
  "normalize_size want = max (2 ^ bit_length want) 8"

subsection \<open>Looking for a key\<close>

fun probe :: "nat \<Rightarrow> 'k \<Rightarrow> ('k, 'v) flat_table \<Rightarrow> nat \<Rightarrow> (nat \<times> bool) option" where
  "probe 0 k s b = None"
| "probe (Suc fuel) k s b =
     do { n \<leftarrow> node_at s b;
          (case n of
             None \<Rightarrow> Some (b, False)
           | Some (k', _) \<Rightarrow> if k' = k then Some (b, True) else probe fuel k s (next_bucket s b)) }"

text \<open>The bucket of a key, if it is there.\<close>

definition find_impl :: "'k hashing \<Rightarrow> 'k \<Rightarrow> ('k, 'v) flat_table \<Rightarrow> nat option option" where
  "find_impl c k s =
     (if nodes s = [] \<or> k = empty_key c then Some None
      else do { (b, found) \<leftarrow> probe (bucket_count s) k s (calc_bucket c k s);
                Some (if found then Some b else None) })"

text \<open>The node that a pointer to a key leads to.\<close>

definition ht_find :: "'k hashing \<Rightarrow> 'k \<Rightarrow> ('k, 'v) flat_table \<Rightarrow> ('k, 'v) table_node option" where
  "ht_find c k s = do { n \<leftarrow> find_impl c k s; (case n of None \<Rightarrow> Some None | Some b \<Rightarrow> node_at s b) }"

definition ht_count :: "'k hashing \<Rightarrow> 'k \<Rightarrow> ('k, 'v) flat_table \<Rightarrow> bool option" where
  "ht_count c k s = do { n \<leftarrow> find_impl c k s; Some (n \<noteq> None) }"

subsection \<open>Changing the number of buckets\<close>

fun free_bucket :: "nat \<Rightarrow> ('k, 'v) flat_table \<Rightarrow> nat \<Rightarrow> nat option" where
  "free_bucket 0 s b = None"
| "free_bucket (Suc fuel) s b =
     do { n \<leftarrow> node_at s b; if n = None then Some b else free_bucket fuel s (next_bucket s b) }"

fun rehash :: "'k hashing \<Rightarrow> ('k, 'v) table_node list \<Rightarrow> ('k, 'v) flat_table \<Rightarrow> ('k, 'v) flat_table option" where
  "rehash c [] s = Some s"
| "rehash c (None # old) s = rehash c old s"
| "rehash c (Some (k, v) # old) s =
     do { b \<leftarrow> free_bucket (bucket_count s) s (calc_bucket c k s); rehash c old (put_node b (Some (k, v)) s) }"

definition resize :: "'k hashing \<Rightarrow> nat \<Rightarrow> ('k, 'v) flat_table \<Rightarrow> ('k, 'v) flat_table option" where
  "resize c new_size s =
     (if nodes s = []
      then do { s \<leftarrow> allocate_nodes c new_size s; Some (s\<lparr>used_node_count := 0\<rparr>) }
      else do { let old_nodes = nodes s; s \<leftarrow> allocate_nodes c new_size s; rehash c old_nodes s })"

definition ht_reserve :: "'k hashing \<Rightarrow> nat \<Rightarrow> ('k, 'v) flat_table \<Rightarrow> ('k, 'v) flat_table option" where
  "ht_reserve c want s =
     (if want = 0 then Some s
      else do { check (want \<le> 2 ^ 29);
                let want_size = normalize_size (want * 5 div 3 + 1);
                if want_size > bucket_count s then resize c want_size s else Some s })"

definition try_shrink :: "'k hashing \<Rightarrow> ('k, 'v) flat_table \<Rightarrow> ('k, 'v) flat_table option" where
  "try_shrink c s =
     do { s \<leftarrow> (if used_node_count s * 10 < bucket_count_mask s \<and> bucket_count_mask s > 7
               then resize c (normalize_size ((used_node_count s + 1) * 5 div 3 + 1)) s else Some s);
          Some (invalidate_iterators s) }"

subsection \<open>Adding a key\<close>

text \<open>The function calls itself once, after the table has grown.\<close>

fun emplace_loop :: "nat \<Rightarrow> 'k hashing \<Rightarrow> 'k \<Rightarrow> 'v \<Rightarrow> ('k, 'v) flat_table \<Rightarrow> (nat \<times> bool \<times> ('k, 'v) flat_table) option" where
  "emplace_loop 0 c k v s = None"
| "emplace_loop (Suc fuel) c k v s =
     do { check (k \<noteq> empty_key c);
          s \<leftarrow> (if bucket_count_mask s = 0 then do { check (used_node_count s = 0); resize c 8 s } else Some s);
          (b, found) \<leftarrow> probe (bucket_count s) k s (calc_bucket c k s);
          if found then Some (b, False, s)
          else if used_node_count s * 5 \<ge> bucket_count_mask s * 3
          then do { s \<leftarrow> resize c (2 * bucket_count s) s;
                    check (used_node_count s * 5 < bucket_count_mask s * 3);
                    emplace_loop fuel c k v s }
          else Some (b, True, (put_node b (Some (k, v)) (invalidate_iterators s))
                                \<lparr>used_node_count := used_node_count s + 1\<rparr>) }"

definition ht_emplace :: "'k hashing \<Rightarrow> 'k \<Rightarrow> 'v \<Rightarrow> ('k, 'v) flat_table \<Rightarrow> (nat \<times> bool \<times> ('k, 'v) flat_table) option" where
  "ht_emplace c k v s = emplace_loop 2 c k v s"

fun ht_insert_all :: "'k hashing \<Rightarrow> ('k \<times> 'v) list \<Rightarrow> ('k, 'v) flat_table \<Rightarrow> ('k, 'v) flat_table option" where
  "ht_insert_all c [] s = Some s"
| "ht_insert_all c ((k, v) # kvs) s = do { (_, _, s) \<leftarrow> ht_emplace c k v s; ht_insert_all c kvs s }"

subsection \<open>Removing a key\<close>

definition move_node :: "nat \<Rightarrow> nat \<Rightarrow> ('k, 'v) flat_table \<Rightarrow> ('k, 'v) flat_table" where
  "move_node to_i from_i s = put_node from_i None (put_node to_i (nodes s ! from_i) s)"

text \<open>The loop up to the last bucket; it ends at an empty node, or with the bucket that is now empty.\<close>

function shift_tail :: "'k hashing \<Rightarrow> nat \<Rightarrow> nat \<Rightarrow> ('k, 'v) flat_table \<Rightarrow> ('k, 'v) flat_table \<times> nat option" where
  "shift_tail c it test s =
     (if test < length (nodes s)
      then (case nodes s ! test of
              None \<Rightarrow> (s, None)
            | Some (k, _) \<Rightarrow>
                let want = calc_bucket c k s in
                if want \<le> it \<or> want > test then shift_tail c test (test + 1) (move_node it test s)
                else shift_tail c it (test + 1) s)
      else (s, Some it))"
  by pat_completeness auto
termination
  by (relation "measure (\<lambda>(c, it, test, s). length (nodes s) - test)") (auto simp: move_node_def put_node_def)

declare shift_tail.simps [simp del]

text \<open>The loop from the first bucket on, with the positions counted on behind the last bucket.\<close>

fun shift_wrapped :: "nat \<Rightarrow> 'k hashing \<Rightarrow> nat \<Rightarrow> nat \<Rightarrow> nat \<Rightarrow> ('k, 'v) flat_table \<Rightarrow> ('k, 'v) flat_table option" where
  "shift_wrapped 0 c empty_i empty_bucket test_i s = None"
| "shift_wrapped (Suc fuel) c empty_i empty_bucket test_i s =
     do { let test_bucket = test_i - bucket_count s;
          n \<leftarrow> node_at s test_bucket;
          (case n of
             None \<Rightarrow> Some s
           | Some (k, _) \<Rightarrow>
               let want_i = calc_bucket c k s;
                   want_i = (if want_i < empty_i then want_i + bucket_count s else want_i) in
               if want_i \<le> empty_i \<or> want_i > test_i
               then shift_wrapped fuel c test_i test_bucket (test_i + 1) (move_node empty_bucket test_bucket s)
               else shift_wrapped fuel c empty_i empty_bucket (test_i + 1) s) }"

definition erase_node :: "'k hashing \<Rightarrow> nat \<Rightarrow> ('k, 'v) flat_table \<Rightarrow> ('k, 'v) flat_table option" where
  "erase_node c it s =
     (let s = (put_node it None s)\<lparr>used_node_count := used_node_count s - 1\<rparr> in
      case shift_tail c it (it + 1) s of
        (s, None) \<Rightarrow> Some s
      | (s, Some empty_i) \<Rightarrow> shift_wrapped (bucket_count s) c empty_i empty_i (bucket_count s) s)"

definition ht_erase :: "'k hashing \<Rightarrow> 'k \<Rightarrow> ('k, 'v) flat_table \<Rightarrow> (nat \<times> ('k, 'v) flat_table) option" where
  "ht_erase c k s =
     do { n \<leftarrow> find_impl c k s;
          (case n of
             None \<Rightarrow> Some (0, s)
           | Some b \<Rightarrow> do { s \<leftarrow> erase_node c b s; s \<leftarrow> try_shrink c s; Some (1, s) }) }"

definition ht_erase_at :: "'k hashing \<Rightarrow> nat \<Rightarrow> ('k, 'v) flat_table \<Rightarrow> ('k, 'v) flat_table option" where
  "ht_erase_at c b s = do { s \<leftarrow> erase_node c b s; try_shrink c s }"

definition ht_clear :: "('k, 'v) flat_table \<Rightarrow> ('k, 'v) flat_table" where
  "ht_clear s = (if nodes s \<noteq> [] then new_table else s)"

text \<open>A table that is moved from is new again.\<close>

definition ht_move :: "('k, 'v) flat_table \<Rightarrow> ('k, 'v) flat_table \<times> ('k, 'v) flat_table" where
  "ht_move other = (other, new_table)"

definition ht_swap :: "('k, 'v) flat_table \<Rightarrow> ('k, 'v) flat_table \<Rightarrow> ('k, 'v) flat_table \<times> ('k, 'v) flat_table" where
  "ht_swap s other = (other, s)"

subsection \<open>Going through the table\<close>

text \<open>The bucket where an iteration starts is random, and kept until the table changes.\<close>

fun next_used :: "nat \<Rightarrow> ('k, 'v) flat_table \<Rightarrow> nat \<Rightarrow> nat option" where
  "next_used 0 s b = None"
| "next_used (Suc fuel) s b =
     do { n \<leftarrow> node_at s b; if n \<noteq> None then Some b else next_used fuel s (next_bucket s b) }"

definition begin_impl :: "nat \<Rightarrow> ('k, 'v) flat_table \<Rightarrow> (nat option \<times> ('k, 'v) flat_table) option" where
  "begin_impl rnd s =
     (if used_node_count s = 0 then Some (None, s)
      else if begin_bucket s = INVALID_BUCKET
      then do { b \<leftarrow> next_used (bucket_count s) s (rnd AND bucket_count_mask s); Some (Some b, s\<lparr>begin_bucket := b\<rparr>) }
      else Some (Some (begin_bucket s), s))"

text \<open>An iterator holds its bucket and the one where it started.\<close>

fun next_iterator :: "nat \<Rightarrow> nat \<Rightarrow> nat \<Rightarrow> ('k, 'v) flat_table \<Rightarrow> nat option option" where
  "next_iterator 0 start it s = None"
| "next_iterator (Suc fuel) start it s =
     (let it = (if it + 1 = bucket_count s then 0 else it + 1) in
      if it = start then Some None
      else do { n \<leftarrow> node_at s it; if n = None then next_iterator fuel start it s else Some (Some it) })"

text \<open>The nodes that a loop over the table visits.\<close>

fun visit :: "nat \<Rightarrow> nat \<Rightarrow> nat \<Rightarrow> ('k, 'v) flat_table \<Rightarrow> ('k \<times> 'v) list option" where
  "visit 0 start it s = None"
| "visit (Suc fuel) start it s =
     do { n \<leftarrow> node_at s it;
          kv \<leftarrow> n;
          it \<leftarrow> next_iterator (bucket_count s) start it s;
          (case it of
             None \<Rightarrow> Some [kv]
           | Some it \<Rightarrow> do { kvs \<leftarrow> visit fuel start it s; Some (kv # kvs) }) }"

definition ht_elements :: "nat \<Rightarrow> ('k, 'v) flat_table \<Rightarrow> (('k \<times> 'v) list \<times> ('k, 'v) flat_table) option" where
  "ht_elements rnd s =
     do { (b, s) \<leftarrow> begin_impl rnd s;
          kvs \<leftarrow> (case b of None \<Rightarrow> Some [] | Some b \<Rightarrow> visit (bucket_count s) b b s);
          Some (kvs, s) }"

text \<open>\<open>remove\_if\<close>: the loops start behind an empty bucket, so that no key is moved to where it is not looked at.\<close>

function first_empty_up :: "('k, 'v) flat_table \<Rightarrow> nat \<Rightarrow> nat" where
  "first_empty_up s it =
     (if it < length (nodes s) \<and> nodes s ! it \<noteq> None then first_empty_up s (it + 1) else it)"
  by pat_completeness auto
termination
  by (relation "measure (\<lambda>(s, it). length (nodes s) - it)") auto

fun first_empty_down :: "('k, 'v) flat_table \<Rightarrow> nat \<Rightarrow> nat option" where
  "first_empty_down s 0 = None"
| "first_empty_down s (Suc it) = do { n \<leftarrow> node_at s it; if n = None then Some it else first_empty_down s it }"

declare first_empty_up.simps [simp del]

fun remove_range ::
  "nat \<Rightarrow> 'k hashing \<Rightarrow> ('k \<times> 'v \<Rightarrow> bool) \<Rightarrow> nat \<Rightarrow> nat \<Rightarrow> bool \<Rightarrow> ('k, 'v) flat_table \<Rightarrow> (bool \<times> ('k, 'v) flat_table) option" where
  "remove_range 0 c f it last_it is_removed s = (if it = last_it then Some (is_removed, s) else None)"
| "remove_range (Suc fuel) c f it last_it is_removed s =
     (if it = last_it then Some (is_removed, s)
      else do { n \<leftarrow> node_at s it;
                if n \<noteq> None \<and> f (the n)
                then do { s \<leftarrow> erase_node c it s; remove_range fuel c f it last_it True s }
                else remove_range fuel c f (it + 1) last_it is_removed s })"

definition ht_remove_if ::
  "nat \<Rightarrow> 'k hashing \<Rightarrow> ('k \<times> 'v \<Rightarrow> bool) \<Rightarrow> ('k, 'v) flat_table \<Rightarrow> (bool \<times> ('k, 'v) flat_table) option" where
  "ht_remove_if rnd c f s =
     do { (b, s) \<leftarrow> begin_impl rnd s;
          (case b of
             None \<Rightarrow> Some (False, s)
           | Some b \<Rightarrow>
               do { let it = first_empty_up s b;
                    it \<leftarrow> (if it = bucket_count s then first_empty_down s it else Some it);
                    let fuel = 2 * bucket_count s;
                    (is_removed, s) \<leftarrow> remove_range fuel c f it (bucket_count s) False s;
                    (is_removed, s) \<leftarrow> remove_range fuel c f 0 it is_removed s;
                    s \<leftarrow> try_shrink c s;
                    Some (is_removed, s) }) }"

subsection \<open>The table of a list\<close>

fun init_nodes :: "'k hashing \<Rightarrow> ('k \<times> 'v) list \<Rightarrow> nat \<Rightarrow> ('k, 'v) flat_table \<Rightarrow> ('k, 'v) flat_table option" where
  "init_nodes c [] used_nodes s = Some (s\<lparr>used_node_count := used_nodes\<rparr>)"
| "init_nodes c ((k, v) # kvs) used_nodes s =
     do { check (k \<noteq> empty_key c);
          (b, found) \<leftarrow> probe (bucket_count s) k s (calc_bucket c k s);
          if found then init_nodes c kvs used_nodes s
          else init_nodes c kvs (used_nodes + 1) (put_node b (Some (k, v)) s) }"

definition table_of_list :: "'k hashing \<Rightarrow> ('k \<times> 'v) list \<Rightarrow> ('k, 'v) flat_table option" where
  "table_of_list c kvs =
     (if kvs = [] then Some new_table
      else do { s \<leftarrow> ht_reserve c (length kvs) new_table; init_nodes c kvs 0 s })"

section \<open>Probing\<close>

subsection \<open>Distances around the table\<close>

text \<open>The number of steps from \<open>h\<close> to \<open>i\<close>, and the buckets passed on the way.\<close>

definition dist :: "nat \<Rightarrow> nat \<Rightarrow> nat \<Rightarrow> nat" where
  "dist n h i = (if h \<le> i then i - h else i + n - h)"

definition succ_mod :: "nat \<Rightarrow> nat \<Rightarrow> nat" where
  "succ_mod n i = (if i + 1 = n then 0 else i + 1)"

definition on_way :: "nat \<Rightarrow> nat \<Rightarrow> nat \<Rightarrow> nat \<Rightarrow> bool" where
  "on_way n h p i \<longleftrightarrow> dist n h p < dist n h i"

lemma dist_self [simp]: "dist n i i = 0"
  by (simp add: dist_def)

lemma dist_less: "h < n \<Longrightarrow> i < n \<Longrightarrow> dist n h i < n"
  by (auto simp: dist_def)

lemma dist_0: "h < n \<Longrightarrow> i < n \<Longrightarrow> dist n h i = 0 \<longleftrightarrow> h = i"
  by (auto simp: dist_def)

lemma dist_inject: "h < n \<Longrightarrow> i < n \<Longrightarrow> j < n \<Longrightarrow> dist n h i = dist n h j \<longleftrightarrow> i = j"
  by (auto simp: dist_def)

lemma dist_add:
  "h < n \<Longrightarrow> e < n \<Longrightarrow> t < n \<Longrightarrow> dist n h e + dist n e t < n \<Longrightarrow> dist n h t = dist n h e + dist n e t"
  by (auto simp: dist_def split: if_splits)

lemma dist_split:
  "h < n \<Longrightarrow> e < n \<Longrightarrow> i < n \<Longrightarrow> dist n h e \<le> dist n h i \<Longrightarrow> dist n h i = dist n h e + dist n e i"
  by (auto simp: dist_def split: if_splits)

lemma succ_mod_less [simp]: "i < n \<Longrightarrow> succ_mod n i < n"
  by (auto simp: succ_mod_def)

lemma dist_succ: "h < n \<Longrightarrow> i < n \<Longrightarrow> dist n h i + 1 < n \<Longrightarrow> dist n h (succ_mod n i) = dist n h i + 1"
  by (auto simp: dist_def succ_mod_def split: if_splits)

lemma dist_succ_left: "h < n \<Longrightarrow> i < n \<Longrightarrow> h \<noteq> i \<Longrightarrow> dist n h i = Suc (dist n (succ_mod n h) i)"
  by (auto simp: dist_def succ_mod_def split: if_splits)

lemma on_way_between:
  "h < n \<Longrightarrow> e < n \<Longrightarrow> t < n \<Longrightarrow> i < n \<Longrightarrow> on_way n h e i \<Longrightarrow> dist n e t < dist n e i \<Longrightarrow> on_way n h t i"
  using dist_split [of h n e i] dist_add [of h n e t] dist_less [of h n i] by (auto simp: on_way_def)

lemma on_way_trans: "on_way n h p e \<Longrightarrow> on_way n h e t \<Longrightarrow> on_way n h p t"
  by (simp add: on_way_def)

subsection \<open>Nodes in their places\<close>

text \<open>Every key is found from its own bucket on without passing an empty one.\<close>

definition slots_ok :: "('k \<Rightarrow> nat) \<Rightarrow> ('k, 'v) table_node list \<Rightarrow> bool" where
  "slots_ok home xs \<longleftrightarrow> (\<forall>i < length xs. \<forall>k v p. xs ! i = Some (k, v) \<and> p < length xs \<and>
     on_way (length xs) (home k) p i \<longrightarrow> xs ! p \<noteq> None)"

text \<open>
  While nodes are moved back: \<open>e\<close> is the empty bucket that was filled before, the nodes from \<open>t\<close> on may still need it.
\<close>

definition hole_ok :: "('k \<Rightarrow> nat) \<Rightarrow> ('k, 'v) table_node list \<Rightarrow> nat \<Rightarrow> nat \<Rightarrow> bool" where
  "hole_ok home xs e t \<longleftrightarrow> (\<forall>i < length xs. \<forall>k v p. xs ! i = Some (k, v) \<and> p < length xs \<and>
     on_way (length xs) (home k) p i \<and> xs ! p = None \<longrightarrow> p = e \<and> dist (length xs) e t \<le> dist (length xs) e i)"

definition homes :: "('k \<Rightarrow> nat) \<Rightarrow> nat \<Rightarrow> bool" where
  "homes home n \<longleftrightarrow> (\<forall>k. home k < n)"

lemma hole_start:
  assumes "slots_ok home xs" "it < length xs"
  shows "hole_ok home (xs[it := None]) it (succ_mod (length xs) it)"
proof -
  have "dist (length xs) it (succ_mod (length xs) it) \<le> dist (length xs) it i" if "i < length xs" "i \<noteq> it" for i
    using that assms(2) by (auto simp: dist_def succ_mod_def)
  then show ?thesis using assms unfolding slots_ok_def hole_ok_def
    by (auto simp: nth_list_update split: if_splits)
qed

lemma hole_end:
  assumes "homes home (length xs)" "hole_ok home xs e t" "xs ! t = None" "t < length xs" "e < length xs" "t \<noteq> e"
  shows "slots_ok home xs"
  unfolding slots_ok_def
proof (intro allI impI notI, elim conjE)
  fix i k v p
  assume i: "i < length xs" "xs ! i = Some (k, v)" "p < length xs" "on_way (length xs) (home k) p i" "xs ! p = None"
  have h: "home k < length xs" using assms(1) by (simp add: homes_def)
  have p: "p = e" "dist (length xs) e t \<le> dist (length xs) e i" using assms(2) i unfolding hole_ok_def by blast+
  have "i \<noteq> t" using i(2) assms(3) by auto
  then have "dist (length xs) e t < dist (length xs) e i"
    using p(2) dist_inject [of e "length xs" t i] assms(4,5) i(1) by linarith
  then have "on_way (length xs) (home k) t i"
    using on_way_between [OF h assms(5,4) i(1)] i(4) p(1) by blast
  then have "t = e" using assms(2,3,4) i(1,2) unfolding hole_ok_def by blast
  then show False using assms(6) by simp
qed

lemma hole_keep:
  assumes "hole_ok home xs e t" "xs ! t = Some (k, v)" "\<not> on_way (length xs) (home k) e t" "t < length xs" "e < length xs"
    and "dist (length xs) e t + 1 < length xs"
  shows "hole_ok home xs e (succ_mod (length xs) t)"
  unfolding hole_ok_def
proof (intro allI impI, elim conjE)
  fix i k' v' p
  assume i: "i < length xs" "xs ! i = Some (k', v')" "p < length xs" "on_way (length xs) (home k') p i" "xs ! p = None"
  have p: "p = e" "dist (length xs) e t \<le> dist (length xs) e i" using assms(1) i unfolding hole_ok_def by blast+
  have "i \<noteq> t" using i(2,4) p(1) assms(2,3) by auto
  then have "dist (length xs) e t < dist (length xs) e i"
    using p(2) dist_inject [of e "length xs" t i] assms(4,5) i(1) by linarith
  then show "p = e \<and> dist (length xs) e (succ_mod (length xs) t) \<le> dist (length xs) e i"
    using p(1) dist_succ [OF assms(5,4,6)] by simp
qed

lemma hole_move:
  assumes "homes home (length xs)" "hole_ok home xs e t" "xs ! t = Some (k, v)" "on_way (length xs) (home k) e t"
    and "t < length xs" "e < length xs" "xs ! e = None"
  shows "hole_ok home (xs[e := xs ! t, t := None]) t (succ_mod (length xs) t)"
  unfolding hole_ok_def length_list_update
proof (intro allI impI, elim conjE)
  let ?ys = "xs[e := xs ! t, t := None]" and ?n = "length xs"
  fix i k' v' p
  assume i: "i < ?n" "?ys ! i = Some (k', v')" "p < ?n" "on_way ?n (home k') p i" "?ys ! p = None"
  have te: "t \<noteq> e" using assms(3,7) by auto
  have it: "i \<noteq> t" using i(2) assms(5) by auto
  have far: "dist ?n t (succ_mod ?n t) \<le> dist ?n t i" using i(1) it assms(5) by (auto simp: dist_def succ_mod_def)
  have "p = t"
  proof (rule ccontr)
    assume pt: "p \<noteq> t"
    then have pe: "p \<noteq> e" using i(5) assms(3,6) by auto
    then have none: "xs ! p = None" using i(5) pt by simp
    show False
    proof (cases "i = e")
      case True
      then have "k' = k" using i(2) it assms(3,6) by simp
      then have "on_way ?n (home k) p t" using i(4) True on_way_trans assms(4) by metis
      then show False using assms(2,3,5) i(3) none pe unfolding hole_ok_def by blast
    next
      case False
      then have "xs ! i = Some (k', v')" using i(2) it by simp
      then show False using assms(2) i(1,3,4) none pe unfolding hole_ok_def by blast
    qed
  qed
  then show "p = t \<and> dist ?n t (succ_mod ?n t) \<le> dist ?n t i" using far by simp
qed

subsection \<open>The keys and values in the nodes\<close>

fun elems :: "('k, 'v) table_node list \<Rightarrow> ('k \<times> 'v) list" where
  "elems [] = []"
| "elems (None # xs) = elems xs"
| "elems (Some kv # xs) = kv # elems xs"

lemma set_elems: "kv \<in> set (elems xs) \<longleftrightarrow> Some kv \<in> set xs"
  by (induction xs rule: elems.induct) auto

lemma mset_elems: "mset (elems xs) = image_mset the (filter_mset (\<lambda>n. n \<noteq> None) (mset xs))"
  by (induction xs rule: elems.induct) auto

lemma length_elems: "length (elems xs) = size (filter_mset (\<lambda>n. n \<noteq> None) (mset xs))"
  using arg_cong [OF mset_elems [of xs], of size] by simp

lemma elems_le: "length (elems xs) \<le> length xs"
  by (induction xs rule: elems.induct) auto

lemma elems_less: "length (elems xs) < length xs \<longleftrightarrow> None \<in> set xs"
proof (induction xs rule: elems.induct)
  case (2 xs)
  then show ?case using elems_le [of xs] by simp
qed auto

lemma elems_replicate [simp]: "elems (replicate n None) = []"
  by (induction n) auto

lemma mset_elems_put:
  assumes "i < length xs" "xs ! i = None"
  shows "mset (elems (xs[i := Some kv])) = add_mset kv (mset (elems xs))"
  using assms by (simp add: mset_elems mset_update)

lemma mset_elems_clear:
  assumes "i < length xs" "xs ! i = Some kv"
  shows "mset (elems xs) = add_mset kv (mset (elems (xs[i := None])))"
proof -
  have "xs[i := None, i := Some kv] = xs" using assms(2) list_update_id [of xs i] by simp
  then show ?thesis using mset_elems_put [of i "xs[i := None]" kv] assms by simp
qed

lemma mset_elems_move:
  assumes "e < length xs" "t < length xs" "xs ! e = None"
  shows "mset (elems (xs[e := xs ! t, t := None])) = mset (elems xs)"
proof -
  have "mset (xs[e := xs ! t, t := xs ! e]) = mset xs" by (rule mset_swap [OF assms(2,1)])
  then show ?thesis using assms(3) by (simp add: mset_elems)
qed

lemma elems_nth: "i < length xs \<Longrightarrow> xs ! i = Some kv \<Longrightarrow> kv \<in> set (elems xs)"
  using nth_mem [of i xs] by (simp add: set_elems)

lemma elems_key_nth: "i < length xs \<Longrightarrow> xs ! i = Some (k, v) \<Longrightarrow> k \<in> fst ` set (elems xs)"
  using elems_nth [of i xs "(k, v)"] by force

lemma elems_inject:
  "distinct (map fst (elems xs)) \<Longrightarrow> i < length xs \<Longrightarrow> j < length xs \<Longrightarrow> xs ! i = Some (k, v) \<Longrightarrow>
   xs ! j = Some (k, w) \<Longrightarrow> i = j"
proof (induction xs arbitrary: i j rule: elems.induct)
  case (2 xs)
  then show ?case by (cases i; cases j) simp_all
next
  case (3 kv xs)
  have no: "fst kv \<notin> fst ` set (elems xs)" "distinct (map fst (elems xs))" using 3(2) by simp_all
  show ?case
  proof (cases i)
    case 0
    then show ?thesis using 3 no(1) elems_key_nth [of "j - 1" xs k w] by (cases j) simp_all
  next
    case (Suc i')
    then show ?thesis using 3 no elems_key_nth [of i' xs k v] by (cases j) simp_all
  qed
qed simp

text \<open>What the nodes stand for.\<close>

definition contents :: "('k, 'v) table_node list \<Rightarrow> 'k \<rightharpoonup> 'v" where
  "contents xs = map_of (elems xs)"

lemma contents_Some:
  "distinct (map fst (elems xs)) \<Longrightarrow> contents xs k = Some v \<longleftrightarrow> Some (k, v) \<in> set xs"
  by (simp add: contents_def set_elems)

lemma contents_None: "contents xs k = None \<longleftrightarrow> (\<forall>v. Some (k, v) \<notin> set xs)"
  by (force simp: contents_def map_of_eq_None_iff set_elems [symmetric])

lemma distinct_elems_mset:
  "mset (elems xs) = mset (elems ys) \<Longrightarrow> distinct (map fst (elems xs)) \<longleftrightarrow> distinct (map fst (elems ys))"
  by (metis mset_eq_imp_distinct_iff mset_map)

lemma contents_mset:
  assumes "mset (elems xs) = mset (elems ys)" "distinct (map fst (elems xs))"
  shows "contents xs = contents ys"
proof -
  have "distinct (map fst (elems ys))" "set (elems xs) = set (elems ys)"
    using assms distinct_elems_mset mset_eq_setD by blast+
  then show ?thesis unfolding contents_def using assms(2) by (simp add: map_of_inject_set)
qed

subsection \<open>Well-formed tables\<close>

definition home :: "'k hashing \<Rightarrow> nat \<Rightarrow> 'k \<Rightarrow> nat" where
  "home c n k = key_hash c k AND (n - 1)"

definition filled :: "'k hashing \<Rightarrow> ('k, 'v) table_node list \<Rightarrow> bool" where
  "filled c xs \<longleftrightarrow> (\<exists>m \<ge> 3. length xs = 2 ^ m) \<and> slots_ok (home c (length xs)) xs \<and>
     distinct (map fst (elems xs)) \<and> empty_key c \<notin> fst ` set (elems xs)"

definition table_ok :: "'k hashing \<Rightarrow> ('k, 'v) flat_table \<Rightarrow> bool" where
  "table_ok c s \<longleftrightarrow>
     (if nodes s = [] then used_node_count s = 0 \<and> bucket_count_mask s = 0 \<and> bucket_count s = 0
      else filled c (nodes s) \<and> bucket_count s = length (nodes s) \<and> bucket_count_mask s = length (nodes s) - 1 \<and>
        used_node_count s = length (elems (nodes s)) \<and> used_node_count s * 5 < bucket_count_mask s * 3 + 5 \<and>
        length (nodes s) \<le> max_buckets c)"

lemma nat_and_mask: "(x :: nat) AND (2 ^ m - 1) = x mod 2 ^ m" "(x :: nat) AND (2 ^ m - Suc 0) = x mod 2 ^ m"
  using take_bit_eq_mask [of m x] by (simp_all add: take_bit_eq_mod mask_eq_exp_minus_1)

lemma home_less: "n = 2 ^ m \<Longrightarrow> home c n k < n"
  by (simp add: home_def nat_and_mask)

lemma homes_home: "length xs = 2 ^ m \<Longrightarrow> homes (home c (length xs)) (length xs)"
  using home_less by (auto simp: homes_def)

lemma next_bucket_succ:
  assumes "bucket_count_mask s = n - 1" "n = 2 ^ m" "b < n"
  shows "next_bucket s b = succ_mod n b"
  using assms by (auto simp: next_bucket_def nat_and_mask succ_mod_def)

text \<open>What the loops over the nodes need to know of a table.\<close>

definition sized :: "('k, 'v) flat_table \<Rightarrow> bool" where
  "sized s \<longleftrightarrow> (\<exists>m. length (nodes s) = 2 ^ m) \<and> bucket_count s = length (nodes s) \<and>
     bucket_count_mask s = length (nodes s) - 1"

lemma sizedD:
  assumes "sized s"
  shows "calc_bucket c k s = home c (length (nodes s)) k" "home c (length (nodes s)) k < length (nodes s)"
    "b < length (nodes s) \<Longrightarrow> next_bucket s b = succ_mod (length (nodes s)) b" "bucket_count s = length (nodes s)"
    "homes (home c (length (nodes s))) (length (nodes s))"
proof -
  obtain m where s: "length (nodes s) = 2 ^ m" "bucket_count s = length (nodes s)" "bucket_count_mask s = length (nodes s) - 1"
    using assms by (auto simp: sized_def)
  show "calc_bucket c k s = home c (length (nodes s)) k" using s(3) by (simp add: calc_bucket_def home_def)
  show "home c (length (nodes s)) k < length (nodes s)" by (rule home_less [OF s(1)])
  show "b < length (nodes s) \<Longrightarrow> next_bucket s b = succ_mod (length (nodes s)) b" by (rule next_bucket_succ [OF s(3,1)])
  show "bucket_count s = length (nodes s)" by (rule s(2))
  show "homes (home c (length (nodes s))) (length (nodes s))" by (rule homes_home [OF s(1)])
qed

lemma all_on_way:
  assumes "h < n" "b < n" "dist n h b + 1 = n" "p < n" "p \<noteq> b" shows "on_way n h p b"
  using assms dist_less [of h n p] dist_inject [of h n p b] by (simp add: on_way_def)

lemma on_way_succ:
  assumes "h < n" "b < n" "dist n h b + 1 < n" "p < n"
  shows "on_way n h p (succ_mod n b) \<longleftrightarrow> on_way n h p b \<or> p = b"
  using dist_succ [OF assms(1-3)] dist_inject [of h n p b] assms by (auto simp: on_way_def less_Suc_eq)

text \<open>Walking from the bucket \<open>h\<close> on, the first bucket with \<open>stop\<close> is found.\<close>

lemma probe_walk:
  assumes s: "sized s" and h: "h < length (nodes s)" and b: "b < length (nodes s)" and none: "None \<in> set (nodes s)"
    and way: "\<And>p. p < length (nodes s) \<Longrightarrow> on_way (length (nodes s)) h p b \<Longrightarrow> \<exists>k' v. nodes s ! p = Some (k', v) \<and> k' \<noteq> k"
    and fuel: "length (nodes s) \<le> fuel + dist (length (nodes s)) h b"
  shows "\<exists>r found. probe fuel k s b = Some (r, found) \<and> r < length (nodes s) \<and>
    (\<forall>p < length (nodes s). on_way (length (nodes s)) h p r \<longrightarrow> (\<exists>k' v. nodes s ! p = Some (k', v) \<and> k' \<noteq> k)) \<and>
    (if found then \<exists>v. nodes s ! r = Some (k, v) else nodes s ! r = None)"
  using b way fuel
proof (induction fuel arbitrary: b)
  case 0
  then show ?case using dist_less [OF h 0(1)] by simp
next
  case (Suc fuel)
  let ?n = "length (nodes s)"
  show ?case
  proof (cases "\<exists>k' v. nodes s ! b = Some (k', v) \<and> k' \<noteq> k")
    case True
    have "dist ?n h b + 1 \<noteq> ?n"
    proof
      assume full: "dist ?n h b + 1 = ?n"
      obtain p where p: "p < ?n" "nodes s ! p = None" using none by (metis in_set_conv_nth)
      then have "p \<noteq> b" using True by auto
      then show False using Suc.prems(2) [OF p(1) all_on_way [OF h Suc.prems(1) full p(1)]] p(2) by auto
    qed
    then have lt: "dist ?n h b + 1 < ?n" using dist_less [OF h Suc.prems(1)] by simp
    have "probe (Suc fuel) k s b = probe fuel k s (succ_mod ?n b)"
      using True Suc.prems(1) sizedD(3) [OF s] by (auto simp: node_at_def)
    moreover have "\<exists>r found. probe fuel k s (succ_mod ?n b) = Some (r, found) \<and> r < ?n \<and>
      (\<forall>p < ?n. on_way ?n h p r \<longrightarrow> (\<exists>k' v. nodes s ! p = Some (k', v) \<and> k' \<noteq> k)) \<and>
      (if found then \<exists>v. nodes s ! r = Some (k, v) else nodes s ! r = None)"
    proof (rule Suc.IH)
      show "succ_mod ?n b < ?n" using Suc.prems(1) by simp
      show "?n \<le> fuel + dist ?n h (succ_mod ?n b)" using Suc.prems(3) dist_succ [OF h Suc.prems(1) lt] by simp
      show "\<exists>k' v. nodes s ! p = Some (k', v) \<and> k' \<noteq> k" if "p < ?n" "on_way ?n h p (succ_mod ?n b)" for p
        using that on_way_succ [OF h Suc.prems(1) lt that(1)] Suc.prems(2) True by blast
    qed
    ultimately show ?thesis by simp
  next
    case False
    show ?thesis
    proof (rule exI [where x = b], rule exI [where x = "nodes s ! b \<noteq> None"], intro conjI)
      show "probe (Suc fuel) k s b = Some (b, nodes s ! b \<noteq> None)"
        using False Suc.prems(1) by (cases "nodes s ! b") (auto simp: node_at_def)
      show "if nodes s ! b \<noteq> None then \<exists>v. nodes s ! b = Some (k, v) else nodes s ! b = None"
        using False by (cases "nodes s ! b") auto
    qed (use Suc.prems(1,2) in blast)+
  qed
qed

lemma sized_put [simp]: "sized (put_node i n s) \<longleftrightarrow> sized s" "length (nodes (put_node i n s)) = length (nodes s)"
  "nodes (put_node i n s) = (nodes s)[i := n]"
  by (simp_all add: sized_def put_node_def)

lemma free_walk:
  assumes s: "sized s" and h: "h < length (nodes s)" and b: "b < length (nodes s)" and none: "None \<in> set (nodes s)"
    and way: "\<And>p. p < length (nodes s) \<Longrightarrow> on_way (length (nodes s)) h p b \<Longrightarrow> nodes s ! p \<noteq> None"
    and fuel: "length (nodes s) \<le> fuel + dist (length (nodes s)) h b"
  shows "\<exists>r. free_bucket fuel s b = Some r \<and> r < length (nodes s) \<and> nodes s ! r = None \<and>
    (\<forall>p < length (nodes s). on_way (length (nodes s)) h p r \<longrightarrow> nodes s ! p \<noteq> None)"
  using b way fuel
proof (induction fuel arbitrary: b)
  case 0
  then show ?case using dist_less [OF h 0(1)] by simp
next
  case (Suc fuel)
  let ?n = "length (nodes s)"
  show ?case
  proof (cases "nodes s ! b = None")
    case False
    have "dist ?n h b + 1 \<noteq> ?n"
    proof
      assume full: "dist ?n h b + 1 = ?n"
      obtain p where p: "p < ?n" "nodes s ! p = None" using none by (metis in_set_conv_nth)
      then have "p \<noteq> b" using False by auto
      then show False using Suc.prems(2) [OF p(1) all_on_way [OF h Suc.prems(1) full p(1)]] p(2) by auto
    qed
    then have lt: "dist ?n h b + 1 < ?n" using dist_less [OF h Suc.prems(1)] by simp
    have "free_bucket (Suc fuel) s b = free_bucket fuel s (succ_mod ?n b)"
      using False Suc.prems(1) sizedD(3) [OF s] by (auto simp: node_at_def)
    moreover have "\<exists>r. free_bucket fuel s (succ_mod ?n b) = Some r \<and> r < ?n \<and> nodes s ! r = None \<and>
      (\<forall>p < ?n. on_way ?n h p r \<longrightarrow> nodes s ! p \<noteq> None)"
    proof (rule Suc.IH)
      show "succ_mod ?n b < ?n" using Suc.prems(1) by simp
      show "?n \<le> fuel + dist ?n h (succ_mod ?n b)" using Suc.prems(3) dist_succ [OF h Suc.prems(1) lt] by simp
      show "nodes s ! p \<noteq> None" if "p < ?n" "on_way ?n h p (succ_mod ?n b)" for p
        using that on_way_succ [OF h Suc.prems(1) lt that(1)] Suc.prems(2) False by blast
    qed
    ultimately show ?thesis by simp
  next
    case True
    then have "free_bucket (Suc fuel) s b = Some b" using Suc.prems(1) by (simp add: node_at_def)
    then show ?thesis using True Suc.prems(1,2) by blast
  qed
qed

lemma nothing_on_way [simp]: "\<not> on_way n h p h"
  by (simp add: on_way_def)

text \<open>A key is put in the first empty bucket from its own on.\<close>

lemma slots_ok_put:
  assumes "slots_ok hm xs" "r < length xs" "xs ! r = None"
    and "\<And>p. p < length xs \<Longrightarrow> on_way (length xs) (hm k) p r \<Longrightarrow> xs ! p \<noteq> None"
  shows "slots_ok hm (xs[r := Some (k, v)])"
  unfolding slots_ok_def length_list_update
proof (intro allI impI, elim conjE)
  fix i k' v' p
  assume i: "i < length xs" "xs[r := Some (k, v)] ! i = Some (k', v')" "p < length xs" "on_way (length xs) (hm k') p i"
  have "xs ! p \<noteq> None" if "p \<noteq> r"
  proof (cases "i = r")
    case True
    then have "k' = k" using i(1,2) by simp
    then show ?thesis using assms(4) [OF i(3)] i(4) True by blast
  next
    case False
    then have "xs ! i = Some (k', v')" using i(1,2) by simp
    then show ?thesis using assms(1) i(1,3,4) unfolding slots_ok_def by blast
  qed
  then show "xs[r := Some (k, v)] ! p \<noteq> None" using i(3) by (cases "p = r") simp_all
qed

lemma filled_put:
  assumes "filled c xs" "r < length xs" "xs ! r = None" "k \<noteq> empty_key c" "contents xs k = None"
    and "\<And>p. p < length xs \<Longrightarrow> on_way (length xs) (home c (length xs) k) p r \<Longrightarrow> xs ! p \<noteq> None"
  shows "filled c (xs[r := Some (k, v)])" "contents (xs[r := Some (k, v)]) = (contents xs)(k \<mapsto> v)"
    "length (elems (xs[r := Some (k, v)])) = Suc (length (elems xs))"
proof -
  have m: "mset (elems (xs[r := Some (k, v)])) = mset ((k, v) # elems xs)"
    using mset_elems_put [OF assms(2,3)] by simp
  have k: "k \<notin> fst ` set (elems xs)" using assms(5) by (simp add: contents_def map_of_eq_None_iff)
  have "mset (map fst (elems (xs[r := Some (k, v)]))) = mset (map fst ((k, v) # elems xs))" using m by (metis mset_map)
  then have d: "distinct (map fst (elems (xs[r := Some (k, v)])))"
    using k assms(1) mset_eq_imp_distinct_iff by (fastforce simp: filled_def)
  have set_new: "set (elems (xs[r := Some (k, v)])) = insert (k, v) (set (elems xs))"
    using mset_eq_setD [OF m] by simp
  show "filled c (xs[r := Some (k, v)])"
    using assms(1,4) d set_new slots_ok_put [of "home c (length xs)" xs r k v] assms(2,3,6) by (auto simp: filled_def)
  have "map_of (elems (xs[r := Some (k, v)])) = map_of ((k, v) # elems xs)"
  proof (rule map_of_inject_set [THEN iffD2])
    show "distinct (map fst ((k, v) # elems xs))" using k assms(1) by (simp add: filled_def)
    show "set (elems (xs[r := Some (k, v)])) = set ((k, v) # elems xs)" using set_new by simp
  qed (rule d)
  then show "contents (xs[r := Some (k, v)]) = (contents xs)(k \<mapsto> v)" by (simp add: contents_def)
  show "length (elems (xs[r := Some (k, v)])) = Suc (length (elems xs))"
    using arg_cong [OF m, of size] by simp
qed

subsection \<open>Looking for a key\<close>

lemma contents_key: "contents xs k = None \<longleftrightarrow> k \<notin> fst ` set (elems xs)"
  by (simp add: contents_def map_of_eq_None_iff)

text \<open>A walk for a key ends at its node or at the empty bucket where it is to be put.\<close>

lemma probe_correct:
  assumes "sized s" "filled c (nodes s)" "None \<in> set (nodes s)"
  shows "\<exists>r. r < length (nodes s) \<and> probe (bucket_count s) k s (calc_bucket c k s) = Some (r, contents (nodes s) k \<noteq> None) \<and>
    (case contents (nodes s) k of
       Some v \<Rightarrow> nodes s ! r = Some (k, v)
     | None \<Rightarrow> nodes s ! r = None \<and>
         (\<forall>p < length (nodes s). on_way (length (nodes s)) (home c (length (nodes s)) k) p r \<longrightarrow> nodes s ! p \<noteq> None))"
proof -
  let ?n = "length (nodes s)" and ?h = "home c (length (nodes s)) k"
  note sz = sizedD [OF assms(1)]
  obtain r found where r: "probe (bucket_count s) k s (calc_bucket c k s) = Some (r, found)" "r < ?n"
    "\<forall>p < ?n. on_way ?n ?h p r \<longrightarrow> (\<exists>k' v. nodes s ! p = Some (k', v) \<and> k' \<noteq> k)"
    "if found then \<exists>v. nodes s ! r = Some (k, v) else nodes s ! r = None"
    using probe_walk [of s ?h ?h k "bucket_count s"] assms sz by auto
  have d: "distinct (map fst (elems (nodes s)))" using assms(2) by (simp add: filled_def)
  have found: "contents (nodes s) k = None" if nf: "\<not> found"
  proof (rule ccontr)
    assume "contents (nodes s) k \<noteq> None"
    then obtain v i where i: "i < ?n" "nodes s ! i = Some (k, v)"
      using contents_Some [OF d] by (metis in_set_conv_nth option.exhaust)
    have none: "nodes s ! r = None" using r(4) nf by simp
    have "\<not> on_way ?n ?h r i" using assms(2) none i r(2) unfolding filled_def slots_ok_def by blast
    moreover have "i \<noteq> r" using i(2) none by auto
    ultimately have "on_way ?n ?h i r"
      using dist_inject [OF sz(2) i(1) r(2), of c k] unfolding on_way_def by linarith
    then show False using r(3) i by fastforce
  qed
  show ?thesis
  proof (cases found)
    case True
    then obtain v where v: "nodes s ! r = Some (k, v)" using r(4) by auto
    then have "contents (nodes s) k = Some v" using contents_Some [OF d, of k v] nth_mem [OF r(2)] by simp
    then show ?thesis using r(1,2) v True by auto
  next
    case False
    then show ?thesis using found r by (intro exI [of _ r]) fastforce
  qed
qed

lemma find_correct:
  assumes "sized s" "filled c (nodes s)" "None \<in> set (nodes s)"
  shows "\<exists>n. find_impl c k s = Some n \<and>
    (case contents (nodes s) k of
       None \<Rightarrow> n = None
     | Some v \<Rightarrow> \<exists>b. n = Some b \<and> b < length (nodes s) \<and> nodes s ! b = Some (k, v))"
proof (cases "k = empty_key c")
  case True
  then have "contents (nodes s) k = None" using assms(2) by (simp add: contents_key filled_def)
  then show ?thesis using True by (simp add: find_impl_def)
next
  case False
  have "nodes s \<noteq> []" using assms(3) by auto
  then show ?thesis using probe_correct [OF assms, of k] False by (auto simp: find_impl_def split: option.splits)
qed

end
