(* ===== verification/Td_FlatHashMap.thy ===== *)
theory Td_FlatHashMap
  imports Td_FlatHash
begin

text \<open>
  What the operations of \<^theory_text>\<open>Td_FlatHash\<close> do to a hash table, and that the table stands for a map.

  \<^item> Adding keys: the table is filled anew when it changes its size, and a key is put where the walk for it ends.
  \<^item> Removing a key: the nodes behind it are moved back, past the end of the table too, until every key can be found.
  \<^item> Going through the table, and removing many keys on the way.
  \<^item> The contract of a map with room for a number of keys, as a locale, and its interpretation on the hash table.
\<close>

section \<open>Adding keys\<close>

subsection \<open>Tables of another size\<close>

lemma has_empty: "length (elems xs) < length xs \<Longrightarrow> None \<in> set xs"
  by (simp add: elems_less)

lemma slots_ok_empty: "slots_ok hm (replicate n None)"
  by (simp add: slots_ok_def)

lemma filled_empty: "m \<ge> 3 \<Longrightarrow> filled c (replicate (2 ^ m) None)"
  by (auto simp: filled_def slots_ok_empty)

lemma contents_empty [simp]: "contents (replicate n None) = Map.empty" "contents [] = Map.empty"
  by (simp_all add: contents_def)

lemma free_correct:
  assumes "sized s" "None \<in> set (nodes s)"
  shows "\<exists>r. free_bucket (bucket_count s) s (calc_bucket c k s) = Some r \<and> r < length (nodes s) \<and> nodes s ! r = None \<and>
    (\<forall>p < length (nodes s). on_way (length (nodes s)) (home c (length (nodes s)) k) p r \<longrightarrow> nodes s ! p \<noteq> None)"
  using free_walk [of s "home c (length (nodes s)) k" "home c (length (nodes s)) k" "bucket_count s"] assms sizedD [OF assms(1)]
  by auto

text \<open>All that the rest of a rehashing does to the table.\<close>

definition added :: "'k hashing \<Rightarrow> ('k \<rightharpoonup> 'v) \<Rightarrow> nat \<Rightarrow> ('k, 'v) flat_table \<Rightarrow> ('k, 'v) flat_table \<Rightarrow> bool" where
  "added c new n s s' \<longleftrightarrow> s' = s\<lparr>nodes := nodes s'\<rparr> \<and> length (nodes s') = length (nodes s) \<and> filled c (nodes s') \<and>
     contents (nodes s') = contents (nodes s) ++ new \<and> length (elems (nodes s')) = length (elems (nodes s)) + n"

lemma added_trans:
  "added c m n s s' \<Longrightarrow> added c m' n' s' s'' \<Longrightarrow> added c (m ++ m') (n + n') s s''"
proof -
  assume a: "added c m n s s'" "added c m' n' s' s''"
  then have "s'' = s\<lparr>nodes := nodes s''\<rparr>" unfolding added_def by (metis flat_table.update_convs(1) flat_table.surjective)
  then show ?thesis using a by (simp add: added_def)
qed

lemma put_added:
  assumes "sized s" "filled c (nodes s)" "r < length (nodes s)" "nodes s ! r = None" "k \<noteq> empty_key c"
    and "contents (nodes s) k = None"
    and "\<forall>p < length (nodes s). on_way (length (nodes s)) (home c (length (nodes s)) k) p r \<longrightarrow> nodes s ! p \<noteq> None"
  shows "added c [k \<mapsto> v] 1 s (put_node r (Some (k, v)) s)"
proof -
  note f = filled_put [OF assms(2,3,4,5,6)]
  show ?thesis using f assms(7) by (simp add: added_def put_node_def)
qed

lemma rehash_correct:
  assumes "sized s" "filled c (nodes s)" "distinct (map fst (elems old))" "empty_key c \<notin> fst ` set (elems old)"
    and "\<And>k. k \<in> fst ` set (elems old) \<Longrightarrow> contents (nodes s) k = None"
    and "length (elems (nodes s)) + length (elems old) < length (nodes s)"
  shows "\<exists>s'. rehash c old s = Some s' \<and> added c (map_of (elems old)) (length (elems old)) s s'"
  using assms
proof (induction c old s rule: rehash.induct)
  case (1 c s)
  then show ?case by (simp add: added_def)
next
  case (2 c old s)
  then show ?case by simp
next
  case (3 c k v old s)
  obtain r where r: "free_bucket (bucket_count s) s (calc_bucket c k s) = Some r" "r < length (nodes s)" "nodes s ! r = None"
    "\<forall>p < length (nodes s). on_way (length (nodes s)) (home c (length (nodes s)) k) p r \<longrightarrow> nodes s ! p \<noteq> None"
    using free_correct [OF "3.prems"(1) has_empty] "3.prems"(6) by force
  let ?s = "put_node r (Some (k, v)) s"
  have k: "k \<noteq> empty_key c" "k \<notin> fst ` set (elems old)" using "3.prems"(3,4) by auto
  have none: "contents (nodes s) k = None" using "3.prems"(5) by simp
  have a: "added c [k \<mapsto> v] 1 s ?s" by (rule put_added [OF "3.prems"(1,2) r(2,3) k(1) none r(4)])
  have c: "contents (nodes ?s) = (contents (nodes s))(k \<mapsto> v)" "length (elems (nodes ?s)) = Suc (length (elems (nodes s)))"
    "filled c (nodes ?s)" using a by (simp_all add: added_def)
  have "\<exists>s'. rehash c old ?s = Some s' \<and> added c (map_of (elems old)) (length (elems old)) ?s s'"
  proof (rule "3.IH")
    show "free_bucket (bucket_count s) s (calc_bucket c k s) = Some r" by (rule r(1))
    show "sized ?s" "filled c (nodes ?s)" using "3.prems"(1) c(3) by simp_all
    show "distinct (map fst (elems old))" "empty_key c \<notin> fst ` set (elems old)" using "3.prems"(3,4) by simp_all
    show "contents (nodes ?s) k' = None" if "k' \<in> fst ` set (elems old)" for k'
    proof -
      have "k' \<noteq> k" using that k(2) by auto
      then show ?thesis unfolding c(1) using "3.prems"(5) that by simp
    qed
    show "length (elems (nodes ?s)) + length (elems old) < length (nodes ?s)" using "3.prems"(6) c(2) by simp
  qed
  then obtain s' where s': "rehash c old ?s = Some s'" "added c (map_of (elems old)) (length (elems old)) ?s s'" by blast
  have "map_of (elems (Some (k, v) # old)) = [k \<mapsto> v] ++ map_of (elems old)"
  proof -
    have "map_of (elems old) k = None" using k(2) by (simp add: map_of_eq_None_iff)
    then show ?thesis by (auto simp: map_add_def fun_eq_iff split: option.split)
  qed
  then show ?case using s' r(1) added_trans [OF a s'(2)] by simp
qed

text \<open>Any table that has room for the keys can take them.\<close>

lemma resize_correct:
  assumes "table_ok c s" "N = 2 ^ m" "m \<ge> 3" "N \<le> max_buckets c" "used_node_count s < N"
  shows "\<exists>xs. resize c N s = Some \<lparr>nodes = xs, used_node_count = used_node_count s, bucket_count_mask = N - 1, bucket_count = N,
      begin_bucket = INVALID_BUCKET\<rparr> \<and>
    length xs = N \<and> filled c xs \<and> contents xs = contents (nodes s) \<and> length (elems xs) = used_node_count s"
proof -
  let ?s = "s\<lparr>nodes := replicate N None, bucket_count_mask := N - 1, bucket_count := N, begin_bucket := INVALID_BUCKET\<rparr>"
  have alloc: "allocate_nodes c N s = Some ?s" using assms(4) by (simp add: allocate_nodes_def check_def)
  show ?thesis
  proof (cases "nodes s = []")
    case True
    have used: "used_node_count s = 0" using assms(1) True by (simp add: table_ok_def)
    have "resize c N s = Some (?s\<lparr>used_node_count := 0\<rparr>)" using True alloc by (simp add: resize_def)
    moreover have "?s\<lparr>used_node_count := 0\<rparr> = \<lparr>nodes = replicate N None, used_node_count = used_node_count s,
      bucket_count_mask = N - 1, bucket_count = N, begin_bucket = INVALID_BUCKET\<rparr>" using used by (cases s) simp
    ultimately show ?thesis using True filled_empty [OF assms(3), of c] assms(2) used
      by (intro exI [of _ "replicate N None"]) simp
  next
    case False
    have f: "filled c (nodes s)" "used_node_count s = length (elems (nodes s))" using assms(1) False by (simp_all add: table_ok_def)
    have "\<exists>s'. rehash c (nodes s) ?s = Some s' \<and> added c (map_of (elems (nodes s))) (length (elems (nodes s))) ?s s'"
    proof (rule rehash_correct)
      show "sized ?s" using assms(2) by (auto simp: sized_def)
      show "filled c (nodes ?s)" using filled_empty [OF assms(3), of c] assms(2) by simp
      show "length (elems (nodes ?s)) + length (elems (nodes s)) < length (nodes ?s)" using assms(5) f(2) by simp
    qed (use f in \<open>simp_all add: filled_def\<close>)
    then obtain s' where s': "rehash c (nodes s) ?s = Some s'" "added c (map_of (elems (nodes s))) (length (elems (nodes s))) ?s s'"
      by blast
    have eq: "s' = ?s\<lparr>nodes := nodes s'\<rparr>" using s'(2) by (simp add: added_def)
    have "resize c N s = Some s'" using False alloc s'(1) by (simp add: resize_def)
    moreover have "s' = \<lparr>nodes = nodes s', used_node_count = used_node_count s, bucket_count_mask = N - 1, bucket_count = N,
      begin_bucket = INVALID_BUCKET\<rparr>" 
      by (rule trans [OF eq], rule flat_table.equality) simp_all
    ultimately show ?thesis using s'(2) f(2) by (intro exI [of _ "nodes s'"]) (simp add: added_def contents_def)
  qed
qed

lemma bit_length_less: "n < 2 ^ bit_length n"
  by (induction n rule: bit_length.induct) auto

lemma bit_length_le: "n > 0 \<Longrightarrow> 2 ^ bit_length n \<le> 2 * n"
proof (induction n rule: bit_length.induct)
  case (2 n)
  then show ?case by (cases n) auto
qed simp

lemma normalize_size_pow: "\<exists>m \<ge> 3. normalize_size n = 2 ^ m"
proof (cases "bit_length n \<ge> 3")
  case True
  then have "(2::nat) ^ 3 \<le> 2 ^ bit_length n" by (rule power_increasing) simp
  then show ?thesis using True by (intro exI [of _ "bit_length n"]) (simp add: normalize_size_def)
next
  case False
  then have "(2::nat) ^ bit_length n \<le> 2 ^ 3" by (intro power_increasing) simp_all
  then show ?thesis by (intro exI [of _ 3]) (simp add: normalize_size_def)
qed

lemma normalize_size_less: "n < normalize_size n" "8 \<le> normalize_size n"
  using bit_length_less [of n] by (simp_all add: normalize_size_def less_max_iff_disj)

lemma normalize_size_le: "n > 0 \<Longrightarrow> normalize_size n \<le> max (2 * n) 8"
  using bit_length_le [of n] by (auto simp: normalize_size_def)

text \<open>A table that is well-formed but may have too many keys for adding another.\<close>

lemma table_okD:
  assumes "table_ok c s" "nodes s \<noteq> []"
  shows "sized s" "filled c (nodes s)" "None \<in> set (nodes s)" "bucket_count s = length (nodes s)" "8 \<le> length (nodes s)"
    "used_node_count s = length (elems (nodes s))" "bucket_count_mask s = length (nodes s) - 1"
    "used_node_count s * 5 < bucket_count_mask s * 3 + 5" "length (nodes s) \<le> max_buckets c"
proof -
  have t: "filled c (nodes s)" "bucket_count s = length (nodes s)" "bucket_count_mask s = length (nodes s) - 1"
    "used_node_count s = length (elems (nodes s))" "used_node_count s * 5 < bucket_count_mask s * 3 + 5"
    "length (nodes s) \<le> max_buckets c" using assms by (simp_all add: table_ok_def)
  obtain m where m: "m \<ge> 3" "length (nodes s) = 2 ^ m" using t(1) by (auto simp: filled_def)
  have "(2::nat) ^ 3 \<le> 2 ^ m" by (rule power_increasing) (use m(1) in simp_all)
  then show len: "8 \<le> length (nodes s)" using m(2) by simp
  show "sized s" using m t(2,3) by (auto simp: sized_def)
  have "length (elems (nodes s)) < length (nodes s)" using t(3-5) len by simp
  then show "None \<in> set (nodes s)" by (rule has_empty)
qed (use assms in \<open>simp_all add: table_ok_def\<close>)

lemma ht_find_correct:
  assumes "table_ok c s"
  shows "\<exists>n. find_impl c k s = Some n \<and>
    (case contents (nodes s) k of
       None \<Rightarrow> n = None
     | Some v \<Rightarrow> \<exists>b. n = Some b \<and> b < length (nodes s) \<and> nodes s ! b = Some (k, v))"
proof (cases "nodes s = []")
  case True
  then show ?thesis by (simp add: find_impl_def)
next
  case False
  show ?thesis by (rule find_correct [OF table_okD(1,2,3) [OF assms False]])
qed

subsection \<open>The table with one more key\<close>

lemma resized_ok:
  assumes "length xs = N" "filled c xs" "length (elems xs) = u" "u * 5 < (N - 1) * 3 + 5" "N \<le> max_buckets c" "N > 0"
  shows "table_ok c \<lparr>nodes = xs, used_node_count = u, bucket_count_mask = N - 1, bucket_count = N, begin_bucket = b\<rparr>"
  using assms by (auto simp: table_ok_def)

lemma put_new:
  assumes "table_ok c s" "nodes s \<noteq> []" "k \<noteq> empty_key c" "contents (nodes s) k = None" "r < length (nodes s)"
    and "nodes s ! r = None"
    and "\<forall>p < length (nodes s). on_way (length (nodes s)) (home c (length (nodes s)) k) p r \<longrightarrow> nodes s ! p \<noteq> None"
    and "used_node_count s * 5 < bucket_count_mask s * 3"
    and "s' = (put_node r (Some (k, v)) (invalidate_iterators s))\<lparr>used_node_count := used_node_count s + 1\<rparr>"
  shows "table_ok c s'" "contents (nodes s') = (contents (nodes s))(k \<mapsto> v)" "length (nodes s') = length (nodes s)"
    "nodes s' ! r = Some (k, v)"
proof -
  note t = table_okD [OF assms(1,2)]
  have ns: "nodes s' = (nodes s)[r := Some (k, v)]" by (simp add: assms(9) put_node_def invalidate_iterators_def)
  have p: "filled c (nodes s')" "contents (nodes s') = (contents (nodes s))(k \<mapsto> v)"
    "length (elems (nodes s')) = Suc (length (elems (nodes s)))"
    unfolding ns using filled_put [OF t(2) assms(5,6,3,4), of v] assms(7) by blast+
  show "contents (nodes s') = (contents (nodes s))(k \<mapsto> v)" by (rule p(2))
  show "length (nodes s') = length (nodes s)" "nodes s' ! r = Some (k, v)" using assms(5) by (simp_all add: ns)
  have f: "bucket_count s' = bucket_count s" "bucket_count_mask s' = bucket_count_mask s" "used_node_count s' = used_node_count s + 1"
    by (simp_all add: assms(9) put_node_def invalidate_iterators_def)
  have "nodes s' \<noteq> []" using assms(2) ns by simp
  then show "table_ok c s'" unfolding table_ok_def using p(1,3) f t ns assms(8) by simp
qed

text \<open>The bucket kept for iterations holds a node.\<close>

definition begin_ok :: "('k, 'v) flat_table \<Rightarrow> bool" where
  "begin_ok s \<longleftrightarrow> nodes s = [] \<or> begin_bucket s = INVALID_BUCKET \<or>
     begin_bucket s < length (nodes s) \<and> nodes s ! begin_bucket s \<noteq> None"

text \<open>What adding a key returns and leaves.\<close>

definition emplaced ::
  "'k hashing \<Rightarrow> 'k \<Rightarrow> 'v \<Rightarrow> ('k, 'v) flat_table \<Rightarrow> (nat \<times> bool \<times> ('k, 'v) flat_table) option \<Rightarrow> bool" where
  "emplaced c k v s r \<longleftrightarrow> (\<exists>b s'. r = Some (b, contents (nodes s) k = None, s') \<and> table_ok c s' \<and>
     contents (nodes s') = (if contents (nodes s) k = None then (contents (nodes s))(k \<mapsto> v) else contents (nodes s)) \<and>
     b < length (nodes s') \<and> (\<exists>w. contents (nodes s') k = Some w \<and> nodes s' ! b = Some (k, w)) \<and>
     (begin_ok s \<longrightarrow> begin_ok s'))"

lemma emplace_room:
  assumes "table_ok c s" "nodes s \<noteq> []" "k \<noteq> empty_key c"
    and "contents (nodes s) k \<noteq> None \<or> used_node_count s * 5 < bucket_count_mask s * 3"
  shows "emplaced c k v s (emplace_loop (Suc fuel) c k v s)"
proof -
  note t = table_okD [OF assms(1,2)]
  have mask: "bucket_count_mask s \<noteq> 0" using t(5,7) by simp
  obtain r where r: "r < length (nodes s)" "probe (bucket_count s) k s (calc_bucket c k s) = Some (r, contents (nodes s) k \<noteq> None)"
    "case contents (nodes s) k of
       Some v \<Rightarrow> nodes s ! r = Some (k, v)
     | None \<Rightarrow> nodes s ! r = None \<and>
         (\<forall>p < length (nodes s). on_way (length (nodes s)) (home c (length (nodes s)) k) p r \<longrightarrow> nodes s ! p \<noteq> None)"
    using probe_correct [OF t(1,2,3)] by blast
  show ?thesis
  proof (cases "contents (nodes s) k")
    case None
    have lt: "used_node_count s * 5 < bucket_count_mask s * 3" using assms(4) None by simp
    let ?s = "(put_node r (Some (k, v)) (invalidate_iterators s))\<lparr>used_node_count := used_node_count s + 1\<rparr>"
    have "emplace_loop (Suc fuel) c k v s = Some (r, True, ?s)" using assms(3) mask r(2) None lt by simp
    moreover have n: "nodes s ! r = None"
      "\<forall>p < length (nodes s). on_way (length (nodes s)) (home c (length (nodes s)) k) p r \<longrightarrow> nodes s ! p \<noteq> None"
      using r(3) None by simp_all
    note p = put_new [OF assms(1,2,3) None r(1) n lt refl, of v]
    ultimately show ?thesis unfolding emplaced_def using None p r(1)
      by (simp add: begin_ok_def put_node_def invalidate_iterators_def)
  next
    case (Some w)
    have "emplace_loop (Suc fuel) c k v s = Some (r, False, s)" using assms(3) mask r(2) Some by simp
    then show ?thesis unfolding emplaced_def using Some assms(1) r(1,3) by simp
  qed
qed

lemma emplace_grow:
  assumes "table_ok c s" "nodes s \<noteq> []" "k \<noteq> empty_key c" "contents (nodes s) k = None"
    and "\<not> used_node_count s * 5 < bucket_count_mask s * 3" "10 * used_node_count s + 24 \<le> 3 * max_buckets c"
  shows "\<exists>s'. emplace_loop (Suc fuel) c k v s = emplace_loop fuel c k v s' \<and> table_ok c s' \<and> nodes s' \<noteq> [] \<and>
    contents (nodes s') = contents (nodes s) \<and> used_node_count s' * 5 < bucket_count_mask s' * 3 \<and> begin_ok s'"
proof -
  note t = table_okD [OF assms(1,2)]
  let ?n = "length (nodes s)"
  obtain m where m: "m \<ge> 3" "?n = 2 ^ m" using t(2) by (auto simp: filled_def)
  have big: "2 * bucket_count s \<le> max_buckets c" "used_node_count s < 2 * bucket_count s"
    "used_node_count s * 5 < (2 * bucket_count s - 1) * 3" using t(4,5,7,8) assms(5,6) by simp_all
  have pow: "2 * bucket_count s = 2 ^ Suc m" "Suc m \<ge> 3" using m t(4) by simp_all
  obtain xs where xs: "resize c (2 * bucket_count s) s = Some \<lparr>nodes = xs, used_node_count = used_node_count s,
      bucket_count_mask = 2 * bucket_count s - 1, bucket_count = 2 * bucket_count s, begin_bucket = INVALID_BUCKET\<rparr>"
    "length xs = 2 * bucket_count s" "filled c xs" "contents xs = contents (nodes s)" "length (elems xs) = used_node_count s"
    using resize_correct [OF assms(1) pow big(1,2)] by blast
  obtain r where r: "probe (bucket_count s) k s (calc_bucket c k s) = Some (r, contents (nodes s) k \<noteq> None)"
    using probe_correct [OF t(1,2,3)] by blast
  let ?s = "\<lparr>nodes = xs, used_node_count = used_node_count s,
      bucket_count_mask = 2 * bucket_count s - 1, bucket_count = 2 * bucket_count s, begin_bucket = INVALID_BUCKET\<rparr>"
  have mask: "bucket_count_mask s \<noteq> 0" using t(5,7) by simp
  have "emplace_loop (Suc fuel) c k v s = emplace_loop fuel c k v ?s"
    using assms(3,4,5) mask r xs(1) big(3) by (simp add: check_def)
  moreover have "table_ok c ?s"
    by (rule resized_ok) (use xs big t(4,5) assms(2) in simp_all)
  moreover have "nodes ?s \<noteq> []" using xs(2) t(4,5) by (cases xs) simp_all
  ultimately show ?thesis using xs(4) big(3) by (intro exI [of _ ?s]) (simp add: begin_ok_def)
qed

lemma emplaced_mono: "contents (nodes s') = contents (nodes s) \<Longrightarrow> begin_ok s' \<Longrightarrow> emplaced c k v s' r \<Longrightarrow> emplaced c k v s r"
  unfolding emplaced_def by metis

lemma emplace_nonempty:
  assumes "table_ok c s" "nodes s \<noteq> []" "k \<noteq> empty_key c" "10 * used_node_count s + 24 \<le> 3 * max_buckets c"
  shows "emplaced c k v s (emplace_loop (Suc (Suc fuel)) c k v s)"
proof (cases "contents (nodes s) k \<noteq> None \<or> used_node_count s * 5 < bucket_count_mask s * 3")
  case True
  show ?thesis by (rule emplace_room [OF assms(1,2,3) True])
next
  case False
  then obtain s' where s': "emplace_loop (Suc (Suc fuel)) c k v s = emplace_loop (Suc fuel) c k v s'" "table_ok c s'" "nodes s' \<noteq> []"
    "contents (nodes s') = contents (nodes s)" "used_node_count s' * 5 < bucket_count_mask s' * 3" "begin_ok s'"
    using emplace_grow [OF assms(1,2,3) _ _ assms(4)] by blast
  then show ?thesis using emplace_room [OF s'(2,3) assms(3)] emplaced_mono [OF s'(4,6)] by simp
qed

lemma emplace_empty:
  assumes "table_ok c s" "nodes s = []" "8 \<le> max_buckets c" "k \<noteq> empty_key c"
  shows "emplaced c k v s (emplace_loop (Suc fuel) c k v s)"
proof -
  have u: "used_node_count s = 0" "bucket_count_mask s = 0" using assms(1,2) by (simp_all add: table_ok_def)
  obtain xs where xs: "resize c 8 s = Some \<lparr>nodes = xs, used_node_count = used_node_count s, bucket_count_mask = 8 - 1,
      bucket_count = 8, begin_bucket = INVALID_BUCKET\<rparr>"
    "length xs = 8" "filled c xs" "contents xs = contents (nodes s)" "length (elems xs) = used_node_count s"
    using resize_correct [OF assms(1), of 8 3] assms(3) u by auto
  let ?s = "\<lparr>nodes = xs, used_node_count = 0, bucket_count_mask = 8 - 1, bucket_count = 8, begin_bucket = INVALID_BUCKET\<rparr>"
  have s: "table_ok c ?s" "nodes ?s \<noteq> []" using resized_ok [of xs 8 c 0] xs u assms(3) by auto
  have "emplace_loop (Suc fuel) c k v s = emplace_loop (Suc fuel) c k v ?s"
    using u xs(1) assms(4) by (simp add: check_def)
  moreover have "emplaced c k v ?s (emplace_loop (Suc fuel) c k v ?s)"
    by (rule emplace_room [OF s assms(4)]) simp
  ultimately show ?thesis using emplaced_mono [of ?s s] xs(4) by (simp add: begin_ok_def)
qed

text \<open>The number of keys alone decides whether there is room.\<close>

lemma emplace_correct:
  assumes "table_ok c s" "k \<noteq> empty_key c" "10 * used_node_count s + 24 \<le> 3 * max_buckets c"
  shows "emplaced c k v s (ht_emplace c k v s)"
proof (cases "nodes s = []")
  case True
  then show ?thesis using emplace_empty [OF assms(1) True _ assms(2), of v 1] assms(3) by (simp add: ht_emplace_def numeral_2_eq_2)
next
  case False
  show ?thesis using emplace_nonempty [OF assms(1) False assms(2,3), of v 0] by (simp add: ht_emplace_def numeral_2_eq_2)
qed

section \<open>Removing keys\<close>

text \<open>
  While nodes are moved back, bucket \<open>e\<close> is empty and \<open>t\<close> is tested next.  When \<open>t\<close> comes round to \<open>e\<close>, every key is
  in its place.
\<close>

definition moving :: "'k hashing \<Rightarrow> ('k \<times> 'v) multiset \<Rightarrow> ('k, 'v) table_node list \<Rightarrow> nat \<Rightarrow> nat \<Rightarrow> bool" where
  "moving c M xs e t \<longleftrightarrow> e < length xs \<and> t < length xs \<and> xs ! e = None \<and> mset (elems xs) = M \<and>
     (if t = e then slots_ok (home c (length xs)) xs else hole_ok (home c (length xs)) xs e t)"

lemma moving_stop:
  assumes "moving c M xs e t" "homes (home c (length xs)) (length xs)" "xs ! t = None"
  shows "slots_ok (home c (length xs)) xs" "mset (elems xs) = M"
  using assms hole_end by (auto simp: moving_def split: if_splits)

lemma moving_keep:
  assumes "moving c M xs e t" "xs ! t = Some (k, v)" "\<not> on_way (length xs) (home c (length xs) k) e t"
  shows "moving c M xs e (succ_mod (length xs) t)"
proof -
  let ?n = "length xs" and ?hm = "home c (length xs)"
  have m: "e < ?n" "t < ?n" "xs ! e = None" "mset (elems xs) = M" using assms(1) by (simp_all add: moving_def)
  have te: "t \<noteq> e" using assms(2) m(3) by auto
  then have hole: "hole_ok ?hm xs e t" using assms(1) by (simp add: moving_def)
  show ?thesis
  proof (cases "dist ?n e t + 1 < ?n")
    case True
    have "succ_mod ?n t \<noteq> e" using dist_succ [OF m(1,2) True] by auto
    then show ?thesis using hole_keep [OF hole assms(2,3) m(2,1) True] m by (simp add: moving_def)
  next
    case False
    have wrap: "succ_mod ?n t = e" using False m(1,2) te by (auto simp: dist_def succ_mod_def split: if_splits)
    have "slots_ok ?hm xs" unfolding slots_ok_def
    proof (intro allI impI notI, elim conjE)
      fix i k' v' p
      assume i: "i < ?n" "xs ! i = Some (k', v')" "p < ?n" "on_way ?n (?hm k') p i" "xs ! p = None"
      then have p: "p = e" "dist ?n e t \<le> dist ?n e i" using hole unfolding hole_ok_def by blast+
      have "dist ?n e i < ?n" by (rule dist_less [OF m(1) i(1)])
      then have "dist ?n e t = dist ?n e i" using p(2) False by linarith
      then have "t = i" using dist_inject [OF m(1,2) i(1)] by simp
      then show False using i(2,4) assms(2,3) p(1) by simp
    qed
    then show ?thesis using wrap m by (simp add: moving_def)
  qed
qed

lemma moving_move:
  assumes "moving c M xs e t" "homes (home c (length xs)) (length xs)" "xs ! t = Some (k, v)"
    "on_way (length xs) (home c (length xs) k) e t"
  shows "moving c M (xs[e := xs ! t, t := None]) t (succ_mod (length xs) t)"
proof -
  let ?n = "length xs" and ?hm = "home c (length xs)"
  have m: "e < ?n" "t < ?n" "xs ! e = None" "mset (elems xs) = M" using assms(1) by (simp_all add: moving_def)
  have te: "t \<noteq> e" using assms(3) m(3) by auto
  then have "hole_ok ?hm xs e t" using assms(1) by (simp add: moving_def)
  from hole_move [OF assms(2) this assms(3,4) m(2,1,3)]
  have "hole_ok ?hm (xs[e := xs ! t, t := None]) t (succ_mod ?n t)" .
  moreover have "succ_mod ?n t \<noteq> t" using te m(1,2) by (auto simp: succ_mod_def)
  ultimately show ?thesis using m mset_elems_move [OF m(1,2,3)] by (simp add: moving_def)
qed

text \<open>The tests of the two loops ask whether the empty bucket is on the way of the key.\<close>

lemma shift_tail_test:
  "it < test \<Longrightarrow> test < n \<Longrightarrow> w < n \<Longrightarrow> w \<le> it \<or> w > test \<longleftrightarrow> on_way n w it test"
  by (auto simp: on_way_def dist_def)

lemma shift_wrapped_test:
  assumes "e < n" "t < n" "t \<noteq> e" "w < n" "empty_i = (if t < e then e else e + n)"
    "w' = (if w < empty_i then w + n else w)"
  shows "w' \<le> empty_i \<or> w' > t + n \<longleftrightarrow> on_way n w e t"
  using assms by (auto simp: on_way_def dist_def split: if_splits)

lemma nodes_move: "nodes (move_node e t s) = (nodes s)[e := nodes s ! t, t := None]"
  by (simp add: move_node_def)

lemma move_fields [simp]: "sized (move_node e t s) \<longleftrightarrow> sized s" "length (nodes (move_node e t s)) = length (nodes s)"
  "bucket_count (move_node e t s) = bucket_count s"
  "(move_node e t s)\<lparr>nodes := xs\<rparr> = s\<lparr>nodes := xs\<rparr>"
  by (simp_all add: move_node_def) (simp_all add: put_node_def)

text \<open>Both loops change only the nodes.\<close>

definition shifted :: "'k hashing \<Rightarrow> ('k \<times> 'v) multiset \<Rightarrow> ('k, 'v) flat_table \<Rightarrow> ('k, 'v) flat_table \<Rightarrow> bool" where
  "shifted c M s s' \<longleftrightarrow> s' = s\<lparr>nodes := nodes s'\<rparr> \<and> length (nodes s') = length (nodes s) \<and>
     slots_ok (home c (length (nodes s))) (nodes s') \<and> mset (elems (nodes s')) = M"

lemma shifted_move: "shifted c M (move_node e t s) s' \<longleftrightarrow> shifted c M s s'"
  by (simp add: shifted_def)

lemma shift_tail_correct:
  assumes "sized s" "it < test" "test \<le> length (nodes s)"
    and "moving c M (nodes s) it (if test = length (nodes s) then 0 else test)"
  shows "case shift_tail c it test s of
      (s', None) \<Rightarrow> shifted c M s s'
    | (s', Some e) \<Rightarrow> s' = s\<lparr>nodes := nodes s'\<rparr> \<and> length (nodes s') = length (nodes s) \<and> moving c M (nodes s') e 0"
  using assms
proof (induction c it test s rule: shift_tail.induct)
  case (1 c it test s)
  note sz = sizedD [OF "1.prems"(1)]
  show ?case
  proof (cases "test < length (nodes s)")
    case False
    then have "shift_tail c it test s = (s, Some it)" by (subst shift_tail.simps) simp
    then show ?thesis using False "1.prems"(3,4) by simp
  next
    case True
    let ?n = "length (nodes s)"
    have mv: "moving c M (nodes s) it test" using "1.prems"(4) True by simp
    have next_test: "succ_mod ?n test = (if test + 1 = ?n then 0 else test + 1)" by (simp add: succ_mod_def)
    show ?thesis
    proof (cases "nodes s ! test")
      case None
      then have "shift_tail c it test s = (s, None)" using True by (subst shift_tail.simps) simp
      then show ?thesis using moving_stop [OF mv sz(5) None] by (simp add: shifted_def)
    next
      case (Some kv)
      obtain k v where kv: "nodes s ! test = Some (k, v)" using Some by (cases kv) auto
      have cond: "calc_bucket c k s \<le> it \<or> calc_bucket c k s > test \<longleftrightarrow> on_way ?n (home c ?n k) it test"
        using shift_tail_test [OF "1.prems"(2) True sz(2)] sz(1) by simp
      show ?thesis
      proof (cases "on_way ?n (home c ?n k) it test")
        case way: True
        let ?s = "move_node it test s"
        have eq: "shift_tail c it test s = shift_tail c test (test + 1) ?s"
          using True kv cond way by (subst shift_tail.simps) simp
        have "moving c M (nodes ?s) test (if test + 1 = ?n then 0 else test + 1)"
          using moving_move [OF mv sz(5) kv way] next_test by (simp add: nodes_move)
        then show ?thesis unfolding eq using "1.IH"(1) [OF True kv refl refl] cond way "1.prems"(1) True
          by (simp add: shifted_move cong: prod.case_cong option.case_cong split: prod.splits option.splits)
      next
        case way: False
        have eq: "shift_tail c it test s = shift_tail c it (test + 1) s"
          using True kv cond way by (subst shift_tail.simps) simp
        have "moving c M (nodes s) it (if test + 1 = ?n then 0 else test + 1)"
          using moving_keep [OF mv kv way] next_test by simp
        then show ?thesis unfolding eq using "1.IH"(2) [OF True kv refl refl] cond way "1.prems"(1,2) True by simp
      qed
    qed
  qed
qed

text \<open>Another bucket is empty, so that the second loop ends before it comes to the end of the table.\<close>

lemma another_empty:
  assumes "length (elems xs) + 2 \<le> length xs" "e < length xs" "xs ! e = None"
  shows "\<exists>p < length xs. p \<noteq> e \<and> xs ! p = None"
proof -
  let ?ys = "xs[e := Some undefined]"
  have "length (elems ?ys) = Suc (length (elems xs))"
    using arg_cong [OF mset_elems_put [OF assms(2,3), of undefined], of size] by simp
  then have "None \<in> set ?ys" using has_empty [of ?ys] assms(1) by simp
  then obtain p where p: "p < length xs" "?ys ! p = None" by (auto simp: in_set_conv_nth)
  then have "p \<noteq> e" using assms(2) by auto
  then show ?thesis using p by auto
qed

lemma shift_wrapped_correct:
  assumes "sized s" "moving c M (nodes s) e t" "size M + 2 \<le> length (nodes s)"
    and "\<And>p. p < length (nodes s) \<Longrightarrow> nodes s ! p = None \<Longrightarrow> p = e \<or> t \<le> p"
    and "length (nodes s) \<le> fuel + t" "empty_i = (if t \<le> e then e else e + length (nodes s))"
  shows "\<exists>s'. shift_wrapped fuel c empty_i e (t + length (nodes s)) s = Some s' \<and> shifted c M s s'"
  using assms
proof (induction fuel arbitrary: s e t empty_i)
  case 0
  then show ?case by (simp add: moving_def)
next
  case (Suc fuel)
  note sz = sizedD [OF Suc.prems(1)]
  let ?n = "length (nodes s)"
  note mv = Suc.prems(2)
  have m: "e < ?n" "t < ?n" "nodes s ! e = None" "mset (elems (nodes s)) = M" using mv by (simp_all add: moving_def)
  show ?case
  proof (cases "nodes s ! t")
    case None
    then have "shift_wrapped (Suc fuel) c empty_i e (t + ?n) s = Some s" using m(2) sz(4) by (simp add: node_at_def)
    then show ?thesis using moving_stop [OF mv sz(5) None] by (simp add: shifted_def)
  next
    case (Some kv)
    obtain k v where kv: "nodes s ! t = Some (k, v)" using Some by (cases kv) auto
    have te: "t \<noteq> e" using kv m(3) by auto
    obtain p where p: "p < ?n" "p \<noteq> e" "nodes s ! p = None"
      using another_empty [of "nodes s" e] Suc.prems(3) m size_mset [of "elems (nodes s)"] by auto
    have "t \<le> p" using Suc.prems(4) [OF p(1,3)] p(2) by simp
    moreover have "p \<noteq> t" using p(3) kv by auto
    ultimately have t1: "t + 1 < ?n" "succ_mod ?n t = t + 1" using p(1) by (auto simp: succ_mod_def)
    let ?w = "calc_bucket c k s"
    let ?w' = "if ?w < empty_i then ?w + ?n else ?w"
    have cond: "?w' \<le> empty_i \<or> ?w' > t + ?n \<longleftrightarrow> on_way ?n (home c ?n k) e t"
      by (rule shift_wrapped_test [OF m(1,2) te sz(2)]) (use Suc.prems(6) te sz(1) in auto)
    have step: "shift_wrapped (Suc fuel) c empty_i e (t + ?n) s =
      (if ?w' \<le> empty_i \<or> ?w' > t + ?n then shift_wrapped fuel c (t + ?n) t (t + 1 + ?n) (move_node e t s)
       else shift_wrapped fuel c empty_i e (t + 1 + ?n) s)"
      using m(2) sz(4) kv by (simp add: node_at_def Let_def)
    show ?thesis
    proof (cases "on_way ?n (home c ?n k) e t")
      case True
      let ?s = "move_node e t s"
      have "\<exists>s'. shift_wrapped fuel c (t + ?n) t (t + 1 + length (nodes ?s)) ?s = Some s' \<and> shifted c M ?s s'"
      proof (rule Suc.IH)
        show "sized ?s" using Suc.prems(1) by simp
        show "moving c M (nodes ?s) t (t + 1)" using moving_move [OF mv sz(5) kv True] t1(2) by (simp add: nodes_move)
        show "p = t \<or> t + 1 \<le> p" if "p < length (nodes ?s)" "nodes ?s ! p = None" for p
        proof (rule ccontr)
          assume "\<not> ?thesis"
          then have lt: "p < t" "p \<noteq> e \<or> p = e" by auto
          have "p \<noteq> e" using that kv te m(1,2) lt(1) by (auto simp: nodes_move)
          then show False using that lt(1) Suc.prems(4) [of p] by (simp add: nodes_move)
        qed
      qed (use Suc.prems(3,5) in simp_all)
      then show ?thesis using step cond True by (simp add: shifted_move)
    next
      case False
      have "\<exists>s'. shift_wrapped fuel c empty_i e (t + 1 + ?n) s = Some s' \<and> shifted c M s s'"
      proof (rule Suc.IH [OF Suc.prems(1)])
        show "moving c M (nodes s) e (t + 1)" using moving_keep [OF mv kv False] t1(2) by simp
        show "p = e \<or> t + 1 \<le> p" if "p < ?n" "nodes s ! p = None" for p
          using Suc.prems(4) [OF that] that(2) kv by (cases "p = t") auto
        show "empty_i = (if t + 1 \<le> e then e else e + ?n)" using Suc.prems(6) te by auto
      qed (use Suc.prems(3,5) in simp_all)
      then show ?thesis using step cond False by simp
    qed
  qed
qed

lemma mset_contents:
  assumes "filled c xs" "it < length xs" "xs ! it = Some (k, v)" "mset (elems ys) = mset (elems (xs[it := None]))"
  shows "distinct (map fst (elems ys))" "empty_key c \<notin> fst ` set (elems ys)" "contents ys = (contents xs)(k := None)"
    "length (elems xs) = Suc (length (elems ys))"
proof -
  have m: "mset (elems xs) = mset ((k, v) # elems ys)" using mset_elems_clear [OF assms(2,3)] assms(4) by simp
  have d: "distinct (map fst (elems xs))" using assms(1) by (simp add: filled_def)
  have "mset (map fst (elems xs)) = mset (map fst ((k, v) # elems ys))" using m by (metis mset_map)
  then have d2: "distinct (map fst ((k, v) # elems ys))" using d mset_eq_imp_distinct_iff by blast
  then show "distinct (map fst (elems ys))" by simp
  have sets: "set (elems xs) = insert (k, v) (set (elems ys))" using mset_eq_setD [OF m] by simp
  then show "empty_key c \<notin> fst ` set (elems ys)" using assms(1) by (simp add: filled_def)
  have "map_of (elems xs) = map_of ((k, v) # elems ys)"
    by (rule map_of_inject_set [THEN iffD2, OF d d2]) (simp add: sets)
  moreover have "map_of (elems ys) k = None" using d2 by (simp add: map_of_eq_None_iff)
  ultimately show "contents ys = (contents xs)(k := None)" by (simp add: contents_def fun_eq_iff)
  show "length (elems xs) = Suc (length (elems ys))" using arg_cong [OF m, of size] by simp
qed

definition cleared :: "nat \<Rightarrow> ('k, 'v) flat_table \<Rightarrow> ('k, 'v) flat_table" where
  "cleared it s = (put_node it None s)\<lparr>used_node_count := used_node_count s - 1\<rparr>"

lemma erase_node_cleared:
  "erase_node c it s =
     (case shift_tail c it (it + 1) (cleared it s) of
        (s, None) \<Rightarrow> Some s
      | (s, Some empty_i) \<Rightarrow> shift_wrapped (bucket_count s) c empty_i empty_i (bucket_count s) s)"
  by (simp add: erase_node_def cleared_def Let_def)

lemma cleared_fields: "nodes (cleared it s) = (nodes s)[it := None]" "bucket_count (cleared it s) = bucket_count s"
  "bucket_count_mask (cleared it s) = bucket_count_mask s" "used_node_count (cleared it s) = used_node_count s - 1"
  by (simp_all add: cleared_def put_node_def)

lemma erase_tail:
  assumes "table_ok c s" "it < length (nodes s)" "nodes s ! it = Some (k, v)" "M = mset (elems ((nodes s)[it := None]))"
  shows "case shift_tail c it (it + 1) (cleared it s) of
      (s', None) \<Rightarrow> shifted c M (cleared it s) s'
    | (s', Some e) \<Rightarrow> s' = (cleared it s)\<lparr>nodes := nodes s'\<rparr> \<and> length (nodes s') = length (nodes s) \<and> sized s' \<and>
        bucket_count s' = length (nodes s) \<and> moving c M (nodes s') e 0"
proof -
  have ne: "nodes s \<noteq> []" using assms(2) by auto
  note t = table_okD [OF assms(1) ne]
  let ?n = "length (nodes s)" and ?hm = "home c (length (nodes s))"
  have ns: "nodes (cleared it s) = (nodes s)[it := None]" by (rule cleared_fields)
  have sized: "sized (cleared it s)" using t(1) by (simp add: sized_def cleared_fields)
  have slots: "slots_ok ?hm (nodes s)" using t(2) by (simp add: filled_def)
  have "moving c M (nodes (cleared it s)) it (succ_mod ?n it)"
    using hole_start [OF slots assms(2)] assms(2,4) t(5) by (auto simp: moving_def ns succ_mod_def)
  then have mv: "moving c M (nodes (cleared it s)) it (if it + 1 = length (nodes (cleared it s)) then 0 else it + 1)"
    by (simp add: succ_mod_def ns)
  have tail: "case shift_tail c it (it + 1) (cleared it s) of
      (s', None) \<Rightarrow> shifted c M (cleared it s) s'
    | (s', Some e) \<Rightarrow> s' = (cleared it s)\<lparr>nodes := nodes s'\<rparr> \<and> length (nodes s') = length (nodes (cleared it s)) \<and>
        moving c M (nodes s') e 0"
    by (rule shift_tail_correct [OF sized _ _ mv]) (use assms(2) ns in simp_all)
  have "sized s'" "bucket_count s' = ?n" if "s' = (cleared it s)\<lparr>nodes := nodes s'\<rparr>" "length (nodes s') = ?n" for s'
  proof -
    have "bucket_count s' = ?n" "bucket_count_mask s' = ?n - 1"
      using arg_cong [OF that(1), of bucket_count] arg_cong [OF that(1), of bucket_count_mask] t(4,7)
      by (simp_all add: cleared_fields)
    then show "sized s'" "bucket_count s' = ?n" using that(2) t(1) by (simp_all add: sized_def)
  qed
  then show ?thesis using tail by (auto simp: cleared_fields split: prod.splits option.splits)
qed

lemma erase_node_correct:
  assumes "table_ok c s" "it < length (nodes s)" "nodes s ! it = Some (k, v)"
  shows "\<exists>s'. erase_node c it s = Some s' \<and> table_ok c s' \<and> contents (nodes s') = (contents (nodes s))(k := None) \<and>
    length (nodes s') = length (nodes s)"
proof -
  have ne: "nodes s \<noteq> []" using assms(2) by auto
  note t = table_okD [OF assms(1) ne]
  let ?n = "length (nodes s)" and ?hm = "home c (length (nodes s))"
  let ?M = "mset (elems ((nodes s)[it := None]))"
  let ?s = "cleared it s"
  have ns: "nodes ?s = (nodes s)[it := None]" by (rule cleared_fields)
  have count: "length (elems (nodes s)) = Suc (length (elems ((nodes s)[it := None])))"
    by (rule mset_contents(4) [OF t(2) assms(2,3) refl])
  note tail = erase_tail [OF assms refl]
  have "\<exists>s'. erase_node c it s = Some s' \<and> shifted c ?M ?s s'"
  proof (cases "shift_tail c it (it + 1) ?s")
    case (Pair s1 r)
    show ?thesis
    proof (cases r)
      case None
      then show ?thesis using Pair tail by (simp add: erase_node_cleared)
    next
      case (Some e)
      have s1: "s1 = ?s\<lparr>nodes := nodes s1\<rparr>" "length (nodes s1) = ?n" "moving c ?M (nodes s1) e 0"
        "sized s1" "bucket_count s1 = ?n" using tail Pair Some by simp_all
      have room: "size ?M + 2 \<le> length (nodes s1)" using count t(5-8) s1(2) by simp
      have "\<exists>s'. shift_wrapped ?n c e e (0 + length (nodes s1)) s1 = Some s' \<and> shifted c ?M s1 s'"
        by (rule shift_wrapped_correct [OF s1(4,3) room]) (use s1(2) in simp_all)
      then obtain s' where s': "shift_wrapped ?n c e e ?n s1 = Some s'" "shifted c ?M s1 s'" using s1(2) by auto
      have "erase_node c it s = Some s'" using Pair Some s'(1) s1(5) by (simp add: erase_node_cleared)
      moreover have "s' = ?s\<lparr>nodes := nodes s'\<rparr>"
      proof -
        have "s' = s1\<lparr>nodes := nodes s'\<rparr>" using s'(2) by (simp add: shifted_def)
        also have "\<dots> = ?s\<lparr>nodes := nodes s1\<rparr>\<lparr>nodes := nodes s'\<rparr>" by (rule arg_cong [OF s1(1)])
        finally show ?thesis by simp
      qed
      then have "shifted c ?M ?s s'" using s'(2) s1(2) ns by (simp add: shifted_def)
      ultimately show ?thesis by blast
    qed
  qed
  then obtain s' where s': "erase_node c it s = Some s'" "shifted c ?M ?s s'" by blast
  have eq: "s' = ?s\<lparr>nodes := nodes s'\<rparr>" and len: "length (nodes s') = ?n" and sl: "slots_ok ?hm (nodes s')"
    and ms: "mset (elems (nodes s')) = ?M" using s'(2) ns by (simp_all add: shifted_def)
  note mc = mset_contents [OF t(2) assms(2,3) ms]
  have f: "bucket_count s' = ?n" "bucket_count_mask s' = ?n - 1" "used_node_count s' = used_node_count s - 1"
    using arg_cong [OF eq, of bucket_count] arg_cong [OF eq, of bucket_count_mask] arg_cong [OF eq, of used_node_count] t(4,7)
    by (simp_all add: cleared_fields)
  have "filled c (nodes s')" using t(2) sl len mc(1,2) by (simp add: filled_def)
  then have "table_ok c s'" using f len ne t mc(4) by (auto simp: table_ok_def)
  then show ?thesis using s'(1) mc(3) len by blast
qed

lemma try_shrink_begin: "try_shrink c s = Some s' \<Longrightarrow> begin_ok s'"
  by (auto simp: try_shrink_def invalidate_iterators_def begin_ok_def bind_eq_Some_conv)

lemma try_shrink_correct:
  assumes "table_ok c s" "nodes s \<noteq> []"
  shows "\<exists>s'. try_shrink c s = Some s' \<and> table_ok c s' \<and> contents (nodes s') = contents (nodes s) \<and> nodes s' \<noteq> []"
proof (cases "used_node_count s * 10 < bucket_count_mask s \<and> bucket_count_mask s > 7")
  case True
  note t = table_okD [OF assms]
  let ?u = "used_node_count s"
  let ?x = "(?u + 1) * 5 div 3 + 1"
  let ?N = "normalize_size ?x"
  obtain m where m: "m \<ge> 3" "?N = 2 ^ m" using normalize_size_pow by blast
  have x: "3 * ?x \<le> 5 * ?u + 8" "5 * ?u + 6 \<le> 3 * ?x" by presburger+
  have N: "?x < ?N" "8 \<le> ?N" "?N \<le> max (2 * ?x) 8" using normalize_size_less normalize_size_le [of ?x] by simp_all
  have small: "?N \<le> length (nodes s)" using N(3) x(1) True t(7) by linarith
  have le: "?N \<le> max_buckets c" using small t(9) by simp
  have "3 * ?x < 3 * ?N" using N(1) by simp
  then have "5 * ?u + 6 < 3 * ?N" using x(2) by linarith
  then have lt: "?u < ?N" "?u * 5 < (?N - 1) * 3 + 5" by (simp_all add: diff_mult_distrib)
  obtain xs where xs: "resize c ?N s = Some \<lparr>nodes = xs, used_node_count = ?u, bucket_count_mask = ?N - 1, bucket_count = ?N,
      begin_bucket = INVALID_BUCKET\<rparr>"
    "length xs = ?N" "filled c xs" "contents xs = contents (nodes s)" "length (elems xs) = ?u"
    using resize_correct [OF assms(1) m(2,1) le lt(1)] by blast
  let ?s = "\<lparr>nodes = xs, used_node_count = ?u, bucket_count_mask = ?N - 1, bucket_count = ?N, begin_bucket = INVALID_BUCKET\<rparr>"
  have "try_shrink c s = Some ?s" using True xs(1) by (simp add: try_shrink_def invalidate_iterators_def)
  moreover have "table_ok c ?s" using resized_ok [OF xs(2,3,5) lt(2) le] N(2) by simp
  moreover have "xs \<noteq> []" using xs(2) N(2) by auto
  ultimately show ?thesis using xs(4) by auto
next
  case False
  then have "try_shrink c s = Some (invalidate_iterators s)" by (auto simp: try_shrink_def)
  moreover have "table_ok c (invalidate_iterators s)"
    using assms(1) unfolding table_ok_def invalidate_iterators_def by (auto split: if_splits)
  ultimately show ?thesis using assms(2) by (simp add: invalidate_iterators_def)
qed

lemma ht_erase_correct:
  assumes "table_ok c s"
  shows "\<exists>s'. ht_erase c k s = Some (if contents (nodes s) k = None then 0 else 1, s') \<and> table_ok c s' \<and>
    contents (nodes s') = (contents (nodes s))(k := None) \<and> (begin_ok s \<longrightarrow> begin_ok s')"
proof (cases "contents (nodes s) k")
  case None
  then have "find_impl c k s = Some None" using ht_find_correct [OF assms, of k] by auto
  then show ?thesis using None assms by (simp add: ht_erase_def fun_upd_idem)
next
  case (Some v)
  then obtain b where b: "find_impl c k s = Some (Some b)" "b < length (nodes s)" "nodes s ! b = Some (k, v)"
    using ht_find_correct [OF assms, of k] by auto
  obtain s1 where s1: "erase_node c b s = Some s1" "table_ok c s1" "contents (nodes s1) = (contents (nodes s))(k := None)"
    "length (nodes s1) = length (nodes s)" using erase_node_correct [OF assms b(2,3)] by blast
  have "nodes s1 \<noteq> []" using s1(4) b(2) by auto
  then obtain s2 where s2: "try_shrink c s1 = Some s2" "table_ok c s2" "contents (nodes s2) = contents (nodes s1)"
    using try_shrink_correct [OF s1(2)] by blast
  then show ?thesis using Some b(1) s1 try_shrink_begin [OF s2(1)] by (simp add: ht_erase_def)
qed

lemma ht_erase_at_correct:
  assumes "table_ok c s" "b < length (nodes s)" "nodes s ! b = Some (k, v)"
  shows "\<exists>s'. ht_erase_at c b s = Some s' \<and> table_ok c s' \<and> contents (nodes s') = (contents (nodes s))(k := None) \<and> begin_ok s'"
proof -
  obtain s1 where s1: "erase_node c b s = Some s1" "table_ok c s1" "contents (nodes s1) = (contents (nodes s))(k := None)"
    "length (nodes s1) = length (nodes s)" using erase_node_correct [OF assms] by blast
  have "nodes s1 \<noteq> []" using s1(4) assms(2) by auto
  then show ?thesis using try_shrink_correct [OF s1(2)] try_shrink_begin s1 by (fastforce simp: ht_erase_at_def)
qed

lemma new_table_ok: "table_ok c new_table" "contents (nodes new_table) = Map.empty" "begin_ok new_table"
  by (simp_all add: table_ok_def new_table_def begin_ok_def)

lemma ht_clear_correct: "table_ok c s \<Longrightarrow> table_ok c (ht_clear s)" "contents (nodes (ht_clear s)) = Map.empty" "begin_ok (ht_clear s)"
  by (simp_all add: ht_clear_def new_table_ok) (simp add: begin_ok_def new_table_def)

section \<open>Going through the table\<close>

text \<open>The nodes from \<open>it\<close> on, around the table, up to \<open>start\<close>.\<close>

definition rest :: "nat \<Rightarrow> nat \<Rightarrow> 'a list \<Rightarrow> 'a list" where
  "rest start it xs = (if start \<le> it then drop it xs @ take start xs else drop it (take start xs))"

lemma rest_step:
  assumes "it < length xs" "start < length xs"
  shows "rest start it xs = xs ! it # (if succ_mod (length xs) it = start then [] else rest start (succ_mod (length xs) it) xs)"
proof (cases "it + 1 = length xs")
  case True
  then have d: "drop it xs = [xs ! it]" using Cons_nth_drop_Suc [OF assms(1)] by simp
  show ?thesis using True assms d by (cases start) (auto simp: rest_def succ_mod_def)
next
  case False
  show ?thesis
  proof (cases "start \<le> it")
    case True
    then show ?thesis using False Cons_nth_drop_Suc [OF assms(1)] by (auto simp: rest_def succ_mod_def)
  next
    case le: False
    then have "it < length (take start xs)" using assms by simp
    from Cons_nth_drop_Suc [OF this] have "drop it (take start xs) = xs ! it # drop (Suc it) (take start xs)" using le by simp
    then show ?thesis using False le by (auto simp: rest_def succ_mod_def)
  qed
qed

lemma next_iterator_correct:
  assumes "bucket_count s = length (nodes s)" "it < length (nodes s)" "start < length (nodes s)"
    and "length (rest start it (nodes s)) \<le> fuel"
  shows "\<exists>r. next_iterator fuel start it s = Some r \<and>
    (case r of
       None \<Rightarrow> elems (tl (rest start it (nodes s))) = []
     | Some j \<Rightarrow> j < length (nodes s) \<and> nodes s ! j \<noteq> None \<and> length (rest start j (nodes s)) < length (rest start it (nodes s)) \<and>
         elems (rest start j (nodes s)) = elems (tl (rest start it (nodes s))))"
  using assms(2,4)
proof (induction fuel arbitrary: it)
  case 0
  then show ?case using rest_step [OF 0(1) assms(3)] by simp
next
  case (Suc fuel)
  let ?n = "length (nodes s)"
  let ?j = "succ_mod ?n it"
  note step = rest_step [OF Suc.prems(1) assms(3)]
  have j: "?j < ?n" using Suc.prems(1) by simp
  have eq: "(if it + 1 = bucket_count s then 0 else it + 1) = ?j" using assms(1) by (simp add: succ_mod_def)
  show ?case
  proof (cases "?j = start")
    case True
    then show ?thesis using step eq by (simp add: Let_def)
  next
    case ne: False
    then have tl: "tl (rest start it (nodes s)) = rest start ?j (nodes s)"
      "length (rest start it (nodes s)) = Suc (length (rest start ?j (nodes s)))" using step by simp_all
    show ?thesis
    proof (cases "nodes s ! ?j = None")
      case True
      have run: "next_iterator (Suc fuel) start it s = next_iterator fuel start ?j s"
        unfolding next_iterator.simps Let_def eq using ne True j by (simp add: node_at_def)
      have "elems (rest start ?j (nodes s)) = elems (tl (rest start ?j (nodes s)))"
        using rest_step [OF j assms(3)] True by simp
      then show ?thesis unfolding run using Suc.IH [OF j] Suc.prems(2) tl by (fastforce split: option.splits)
    next
      case False
      have "next_iterator (Suc fuel) start it s = Some (Some ?j)"
        unfolding next_iterator.simps Let_def eq using ne False j by (auto simp: node_at_def)
      then show ?thesis using False j tl by simp
    qed
  qed
qed

lemma visit_correct:
  assumes "bucket_count s = length (nodes s)" "it < length (nodes s)" "start < length (nodes s)" "nodes s ! it \<noteq> None"
    and "length (rest start it (nodes s)) \<le> fuel" "fuel \<le> length (nodes s)"
  shows "visit fuel start it s = Some (elems (rest start it (nodes s)))"
  using assms(2,4,5,6)
proof (induction fuel arbitrary: it)
  case 0
  then show ?case using rest_step [OF 0(1) assms(3)] by simp
next
  case (Suc fuel)
  let ?n = "length (nodes s)"
  obtain kv where kv: "nodes s ! it = Some kv" using Suc.prems(2) by auto
  obtain r where r: "next_iterator (bucket_count s) start it s = Some r"
    "case r of
       None \<Rightarrow> elems (tl (rest start it (nodes s))) = []
     | Some j \<Rightarrow> j < ?n \<and> nodes s ! j \<noteq> None \<and> length (rest start j (nodes s)) < length (rest start it (nodes s)) \<and>
         elems (rest start j (nodes s)) = elems (tl (rest start it (nodes s)))"
    using next_iterator_correct [OF assms(1) Suc.prems(1) assms(3), of "bucket_count s"] Suc.prems(3,4) assms(1) by auto
  have e: "elems (rest start it (nodes s)) = kv # elems (tl (rest start it (nodes s)))"
    using rest_step [OF Suc.prems(1) assms(3)] kv by simp
  show ?case
  proof (cases r)
    case None
    then show ?thesis using r kv e Suc.prems(1) by (simp add: node_at_def)
  next
    case (Some j)
    then have "visit fuel start j s = Some (elems (rest start j (nodes s)))"
      using Suc.IH [of j] r(2) Suc.prems(3,4) by simp
    then show ?thesis using Some r kv e Suc.prems(1) by (simp add: node_at_def)
  qed
qed

lemma next_used_correct:
  assumes "sized s" "b < length (nodes s)" "p < length (nodes s)" "nodes s ! p \<noteq> None" "dist (length (nodes s)) b p < fuel"
  shows "\<exists>r. next_used fuel s b = Some r \<and> r < length (nodes s) \<and> nodes s ! r \<noteq> None"
  using assms(2,5)
proof (induction fuel arbitrary: b)
  case (Suc fuel)
  let ?n = "length (nodes s)"
  show ?case
  proof (cases "nodes s ! b = None")
    case True
    then have "b \<noteq> p" using assms(4) by auto
    then have "dist ?n (succ_mod ?n b) p < fuel" using dist_succ_left [OF Suc.prems(1) assms(3)] Suc.prems(2) by simp
    then show ?thesis using Suc.IH [of "succ_mod ?n b"] True Suc.prems(1) sizedD(3) [OF assms(1) Suc.prems(1)]
      by (simp add: node_at_def)
  next
    case False
    then show ?thesis using Suc.prems(1) by (simp add: node_at_def)
  qed
qed simp

lemma begin_correct:
  assumes "table_ok c s" "begin_ok s"
  shows "\<exists>b s'. begin_impl rnd s = Some (b, s') \<and> s' = s\<lparr>begin_bucket := begin_bucket s'\<rparr> \<and> begin_ok s' \<and>
    (case b of None \<Rightarrow> used_node_count s = 0 | Some b \<Rightarrow> used_node_count s \<noteq> 0 \<and> b < length (nodes s) \<and> nodes s ! b \<noteq> None)"
proof (cases "used_node_count s = 0")
  case True
  then show ?thesis using assms(2) by (simp add: begin_impl_def)
next
  case used: False
  then have ne: "nodes s \<noteq> []" using assms(1) by (auto simp: table_ok_def)
  note t = table_okD [OF assms(1) ne]
  show ?thesis
  proof (cases "begin_bucket s = INVALID_BUCKET")
    case False
    then show ?thesis using assms(2) used ne by (simp add: begin_impl_def begin_ok_def)
  next
    case True
    obtain kv where "kv \<in> set (elems (nodes s))" using used t(6) by (cases "elems (nodes s)") auto
    then obtain p where p: "p < length (nodes s)" "nodes s ! p = Some kv" by (metis in_set_conv_nth set_elems)
    have b: "rnd AND bucket_count_mask s < length (nodes s)"
      using sizedD(1,2) [OF t(1), of "c\<lparr>key_hash := \<lambda>k. rnd\<rparr>" undefined] by (simp add: calc_bucket_def)
    obtain r where r: "next_used (bucket_count s) s (rnd AND bucket_count_mask s) = Some r" "r < length (nodes s)" "nodes s ! r \<noteq> None"
      using next_used_correct [OF t(1) b p(1), of "bucket_count s"] p(2) dist_less [OF b p(1)] t(4) by auto
    then show ?thesis using True used by (simp add: begin_impl_def begin_ok_def)
  qed
qed

lemma begin_fields:
  assumes "s' = s\<lparr>begin_bucket := b\<rparr>"
  shows "nodes s' = nodes s" "bucket_count s' = bucket_count s" "bucket_count_mask s' = bucket_count_mask s"
    "used_node_count s' = used_node_count s"
  using assms by simp_all

lemma elements_correct:
  assumes "table_ok c s" "begin_ok s"
  shows "\<exists>kvs s'. ht_elements rnd s = Some (kvs, s') \<and> mset kvs = mset (elems (nodes s)) \<and> table_ok c s' \<and>
    nodes s' = nodes s \<and> begin_ok s'"
proof -
  obtain b s' where b: "begin_impl rnd s = Some (b, s')" "s' = s\<lparr>begin_bucket := begin_bucket s'\<rparr>"
    "case b of None \<Rightarrow> used_node_count s = 0 | Some b \<Rightarrow> used_node_count s \<noteq> 0 \<and> b < length (nodes s) \<and> nodes s ! b \<noteq> None"
    "begin_ok s'" using begin_correct [OF assms] by blast
  note s' = begin_fields [OF b(2)]
  have ok: "table_ok c s'" using assms(1) unfolding table_ok_def s' .
  show ?thesis
  proof (cases b)
    case None
    then have "elems (nodes s) = []" using b(3) assms(1) by (auto simp: table_ok_def split: if_splits)
    then show ?thesis using None b(1,4) ok s'(1) by (simp add: ht_elements_def)
  next
    case (Some j)
    then have j: "j < length (nodes s)" "nodes s ! j \<noteq> None" "nodes s \<noteq> []" using b(3) by auto
    have len: "length (rest j j (nodes s)) = length (nodes s)" using j(1) by (simp add: rest_def)
    have "visit (bucket_count s') j j s' = Some (elems (rest j j (nodes s')))"
      by (rule visit_correct) (use j s' len table_okD(4) [OF assms(1) j(3)] in simp_all)
    moreover have "mset (rest j j (nodes s)) = mset (nodes s)"
      by (metis append_take_drop_id mset_append rest_def union_commute order_refl)
    then have "mset (elems (rest j j (nodes s))) = mset (elems (nodes s))" by (simp add: mset_elems)
    ultimately show ?thesis using Some b(1,4) ok s' by (simp add: ht_elements_def)
  qed
qed

section \<open>Removing many keys\<close>

text \<open>Buckets are counted from the empty bucket \<open>z\<close>: removing a key changes none before its own.\<close>

definition unchanged :: "nat \<Rightarrow> nat \<Rightarrow> ('k, 'v) table_node list \<Rightarrow> ('k, 'v) table_node list \<Rightarrow> bool" where
  "unchanged z D xs ys \<longleftrightarrow> (\<forall>p < length xs. dist (length xs) z p < D \<longrightarrow> ys ! p = xs ! p)"

lemma unchanged_move:
  assumes "unchanged z D (xs[e := xs ! t, t := None]) ys" "D \<le> dist (length xs) z e" "D \<le> dist (length xs) z t"
  shows "unchanged z D xs ys"
  unfolding unchanged_def
proof (intro allI impI)
  fix p
  assume p: "p < length xs" "dist (length xs) z p < D"
  then have "p \<noteq> e" "p \<noteq> t" using assms(2,3) by auto
  then show "ys ! p = xs ! p" using assms(1) p by (simp add: unchanged_def)
qed

lemma unchanged_refl: "unchanged z D xs xs"
  by (simp add: unchanged_def)

text \<open>\<open>t\<close> is tested next, after \<open>e\<close>; the first bucket again is \<open>z\<close>.\<close>

definition ahead :: "nat \<Rightarrow> nat \<Rightarrow> nat \<Rightarrow> nat \<Rightarrow> bool" where
  "ahead n z e t \<longleftrightarrow> z < n \<and> e < n \<and> t < n \<and> e \<noteq> z \<and> (t = z \<or> dist n z e < dist n z t)"

lemma ahead_succ:
  assumes "ahead n z e t" "t \<noteq> z"
  shows "ahead n z e (succ_mod n t)" "ahead n z t (succ_mod n t)"
  using assms by (auto simp: ahead_def succ_mod_def dist_def split: if_splits)

lemma shift_tail_unchanged:
  assumes "it < test" "test \<le> length (nodes s)" "nodes s ! z = None" "D \<le> dist (length (nodes s)) z it" "D > 0"
    and "ahead (length (nodes s)) z it (if test = length (nodes s) then 0 else test)"
  shows "case shift_tail c it test s of
      (s', None) \<Rightarrow> unchanged z D (nodes s) (nodes s')
    | (s', Some e) \<Rightarrow> unchanged z D (nodes s) (nodes s') \<and> nodes s' ! z = None \<and> D \<le> dist (length (nodes s)) z e \<and>
        ahead (length (nodes s)) z e 0"
  using assms
proof (induction c it test s rule: shift_tail.induct)
  case (1 c it test s)
  let ?n = "length (nodes s)"
  note prems = "1.prems"
  show ?case
  proof (cases "test < ?n \<and> nodes s ! test \<noteq> None")
    case False
    then have "shift_tail c it test s = (s, if test < ?n then None else Some it)"
      by (cases "nodes s ! test"; subst shift_tail.simps) auto
    then show ?thesis using prems by (auto simp: unchanged_refl)
  next
    case True
    then obtain k v where kv: "nodes s ! test = Some (k, v)" by auto
    have lt: "test < ?n" using True by simp
    have ah: "ahead ?n z it test" using prems(6) lt by simp
    have tz: "test \<noteq> z" using kv prems(3) by auto
    then have far: "D \<le> dist ?n z test" using ah prems(4) by (simp add: ahead_def)
    have nt: "succ_mod ?n test = (if test + 1 = ?n then 0 else test + 1)" by (simp add: succ_mod_def)
    note ahs = ahead_succ [OF ah tz, unfolded nt]
    have iz: "it \<noteq> z" using ah by (simp add: ahead_def)
    show ?thesis
    proof (cases "calc_bucket c k s \<le> it \<or> calc_bucket c k s > test")
      case cond: True
      let ?s = "move_node it test s"
      have z: "nodes ?s ! z = None" using prems(3) iz tz by (simp add: nodes_move)
      have eq: "shift_tail c it test s = shift_tail c test (test + 1) ?s"
        using lt kv cond by (subst shift_tail.simps) simp
      have "case shift_tail c test (test + 1) ?s of
          (s', None) \<Rightarrow> unchanged z D (nodes ?s) (nodes s')
        | (s', Some e) \<Rightarrow> unchanged z D (nodes ?s) (nodes s') \<and> nodes s' ! z = None \<and> D \<le> dist ?n z e \<and> ahead ?n z e 0"
        using "1.IH"(1) [OF lt kv refl refl cond] lt z far prems(5) ahs(2) by simp
      moreover have "unchanged z D (nodes ?s) ys \<Longrightarrow> unchanged z D (nodes s) ys" for ys
        using unchanged_move [of z D "nodes s" it test ys] prems(4) far by (simp add: nodes_move)
      ultimately show ?thesis unfolding eq by (auto split: prod.splits option.splits)
    next
      case cond: False
      have eq: "shift_tail c it test s = shift_tail c it (test + 1) s"
        using lt kv cond by (subst shift_tail.simps) auto
      show ?thesis unfolding eq using "1.IH"(2) [OF lt kv refl refl cond] lt prems(1,3,4,5) ahs(1) by simp
    qed
  qed
qed

lemma shift_wrapped_unchanged:
  assumes "shift_wrapped fuel c empty_i e (t + length (nodes s)) s = Some s'" "bucket_count s = length (nodes s)"
    and "nodes s ! z = None" "D \<le> dist (length (nodes s)) z e" "D > 0" "ahead (length (nodes s)) z e t" "t \<le> z"
  shows "unchanged z D (nodes s) (nodes s')"
  using assms
proof (induction fuel arbitrary: s e t empty_i)
  case (Suc fuel)
  let ?n = "length (nodes s)"
  note prems = Suc.prems
  have t: "t < ?n" using prems(6) by (simp add: ahead_def)
  show ?case
  proof (cases "nodes s ! t")
    case None
    then show ?thesis using prems(1,2) t by (simp add: node_at_def unchanged_refl)
  next
    case (Some kv)
    obtain k v where kv: "nodes s ! t = Some (k, v)" using Some by (cases kv) auto
    have tz: "t \<noteq> z" using kv prems(3) by auto
    then have far: "D \<le> dist ?n z t" using prems(4,6) by (simp add: ahead_def)
    have "z < ?n" using prems(6) by (simp add: ahead_def)
    then have nt: "succ_mod ?n t = t + 1" using tz prems(7) by (simp add: succ_mod_def)
    note ahs = ahead_succ [OF prems(6) tz, unfolded nt]
    have iz: "e \<noteq> z" using prems(6) by (simp add: ahead_def)
    have t1: "t + 1 \<le> z" using tz prems(7) by simp
    let ?w = "calc_bucket c k s"
    let ?w' = "if ?w < empty_i then ?w + ?n else ?w"
    have step: "shift_wrapped (Suc fuel) c empty_i e (t + ?n) s =
      (if ?w' \<le> empty_i \<or> ?w' > t + ?n then shift_wrapped fuel c (t + ?n) t (t + 1 + ?n) (move_node e t s)
       else shift_wrapped fuel c empty_i e (t + 1 + ?n) s)"
      using t prems(2) kv by (simp add: node_at_def Let_def)
    show ?thesis
    proof (cases "?w' \<le> empty_i \<or> ?w' > t + ?n")
      case True
      let ?s = "move_node e t s"
      have "unchanged z D (nodes ?s) (nodes s')"
      proof (rule Suc.IH)
        show "shift_wrapped fuel c (t + ?n) t (t + 1 + length (nodes ?s)) ?s = Some s'" using prems(1) step True by simp
        show "nodes ?s ! z = None" using prems(3) iz tz by (simp add: nodes_move)
      qed (use prems(2,5) far ahs(2) t1 in simp_all)
      then show ?thesis using unchanged_move [of z D "nodes s" e t] prems(4) far by (simp add: nodes_move)
    next
      case False
      show ?thesis
      proof (rule Suc.IH)
        show "shift_wrapped fuel c empty_i e (t + 1 + ?n) s = Some s'" using prems(1) step False by simp
      qed (use prems ahs(1) t1 in simp_all)
    qed
  qed
qed simp

lemma unchanged_trans: "unchanged z D xs ys \<Longrightarrow> unchanged z D ys zs \<Longrightarrow> length ys = length xs \<Longrightarrow> unchanged z D xs zs"
  by (simp add: unchanged_def)

lemma unchanged_put: "D \<le> dist (length xs) z i \<Longrightarrow> unchanged z D xs (xs[i := v])"
  unfolding unchanged_def by (metis leD nth_list_update_neq)

lemma erase_node_unchanged:
  assumes "table_ok c s" "it < length (nodes s)" "nodes s ! it = Some (k, v)" "z < length (nodes s)" "nodes s ! z = None"
    and "erase_node c it s = Some s'"
  shows "unchanged z (dist (length (nodes s)) z it) (nodes s) (nodes s')"
proof -
  let ?n = "length (nodes s)"
  let ?D = "dist ?n z it"
  have iz: "it \<noteq> z" using assms(3,5) by auto
  have D: "?D > 0" using dist_0 [OF assms(4,2)] iz by simp
  have ah: "ahead ?n z it (if it + 1 = ?n then 0 else it + 1)"
    using assms(2,4) iz by (auto simp: ahead_def dist_def split: if_splits)
  have len: "length (nodes (cleared it s)) = ?n" by (simp add: cleared_fields)
  have tail: "case shift_tail c it (it + 1) (cleared it s) of
      (s', None) \<Rightarrow> unchanged z ?D (nodes (cleared it s)) (nodes s')
    | (s', Some e) \<Rightarrow> unchanged z ?D (nodes (cleared it s)) (nodes s') \<and> nodes s' ! z = None \<and>
        ?D \<le> dist (length (nodes (cleared it s))) z e \<and> ahead (length (nodes (cleared it s))) z e 0"
    by (rule shift_tail_unchanged) (use assms(2,5) iz D ah in \<open>simp_all add: cleared_fields\<close>)
  have put: "unchanged z ?D (nodes s) (nodes (cleared it s))" by (simp add: cleared_fields unchanged_put)
  have "unchanged z ?D (nodes (cleared it s)) (nodes s')"
  proof (cases "shift_tail c it (it + 1) (cleared it s)")
    case (Pair s1 r)
    show ?thesis
    proof (cases r)
      case None
      then show ?thesis using Pair tail assms(6) by (simp add: erase_node_cleared)
    next
      case (Some e)
      have s1: "length (nodes s1) = ?n" "bucket_count s1 = ?n"
        using erase_tail [OF assms(1,2,3) refl] Pair Some by simp_all
      have u: "unchanged z ?D (nodes (cleared it s)) (nodes s1)" "nodes s1 ! z = None" "?D \<le> dist ?n z e" "ahead ?n z e 0"
        using tail Pair Some len by simp_all
      have "shift_wrapped ?n c e e (0 + length (nodes s1)) s1 = Some s'"
        using assms(6) Pair Some s1 by (simp add: erase_node_cleared)
      from shift_wrapped_unchanged [OF this] have "unchanged z ?D (nodes s1) (nodes s')" using s1 u(2-4) D by simp
      then show ?thesis using unchanged_trans [OF u(1)] s1(1) len by simp
    qed
  qed
  then show ?thesis using unchanged_trans [OF put] len by simp
qed

lemma card_contents: "distinct (map fst (elems xs)) \<Longrightarrow> card (dom (contents xs)) = length (elems xs)"
  unfolding contents_def dom_map_of_conv_image_fst by (metis distinct_card length_map list.set_map)

lemma used_card: "table_ok c s \<Longrightarrow> used_node_count s = card (dom (contents (nodes s)))"
  by (cases "nodes s = []") (simp_all add: table_ok_def filled_def card_contents)

text \<open>Keys are only removed, and only those that \<open>f\<close> asks for.\<close>

definition thinned :: "('k \<times> 'v \<Rightarrow> bool) \<Rightarrow> ('k \<rightharpoonup> 'v) \<Rightarrow> ('k \<rightharpoonup> 'v) \<Rightarrow> bool" where
  "thinned f m m' \<longleftrightarrow> (\<forall>k. m' k = m k \<or> m' k = None \<and> (\<exists>v. m k = Some v \<and> f (k, v)))"

lemma thinned_refl: "thinned f m m"
  by (simp add: thinned_def)

lemma thinned_step:
  assumes "m k = Some v" "f (k, v)" "thinned f (m(k := None)) m'"
  shows "thinned f m m'" "m' \<noteq> m"
proof -
  have "m' k = None" using assms(3) by (auto simp: thinned_def dest: spec [of _ k])
  then show "m' \<noteq> m" using assms(1) by auto
  show "thinned f m m'" unfolding thinned_def
  proof
    fix j
    show "m' j = m j \<or> m' j = None \<and> (\<exists>v. m j = Some v \<and> f (j, v))"
      using assms \<open>m' k = None\<close> by (cases "j = k") (auto simp: thinned_def dest: spec [of _ j])
  qed
qed

lemma thinned_trans: "thinned f m m' \<Longrightarrow> thinned f m' m'' \<Longrightarrow> thinned f m m''"
  unfolding thinned_def by metis

lemma thinned_antisym: "thinned f m m' \<Longrightarrow> thinned f m' m \<Longrightarrow> m' = m"
  unfolding thinned_def fun_eq_iff by (metis option.distinct(1))

text \<open>The buckets before the \<open>q\<close>-th hold no key that is to be removed.\<close>

definition clean :: "('k \<times> 'v \<Rightarrow> bool) \<Rightarrow> nat \<Rightarrow> nat \<Rightarrow> ('k, 'v) table_node list \<Rightarrow> bool" where
  "clean f z q xs \<longleftrightarrow> (\<forall>p < length xs. dist (length xs) z p < q \<longrightarrow> xs ! p = None \<or> \<not> f (the (xs ! p)))"

lemma clean_unchanged: "clean f z q xs \<Longrightarrow> unchanged z q xs ys \<Longrightarrow> length ys = length xs \<Longrightarrow> clean f z q ys"
  by (simp add: clean_def unchanged_def)

lemma clean_Suc:
  assumes "clean f z (dist (length xs) z it) xs" "xs ! it = None \<or> \<not> f (the (xs ! it))" "z < length xs" "it < length xs"
  shows "clean f z (Suc (dist (length xs) z it)) xs"
  using assms dist_inject [OF assms(3) _ assms(4)] unfolding clean_def by (metis less_Suc_eq)

lemma remove_range_correct:
  assumes "table_ok c s" "z < length (nodes s)" "nodes s ! z = None" "it \<le> last_it" "last_it \<le> length (nodes s)"
    and "\<And>i. it \<le> i \<Longrightarrow> i < last_it \<Longrightarrow> dist (length (nodes s)) z i = i + off - z" "z \<le> it + off"
    and "last_it - it + used_node_count s \<le> fuel" "clean f z (it + off - z) (nodes s)"
  shows "\<exists>r s'. remove_range fuel c f it last_it removed s = Some (r, s') \<and> table_ok c s' \<and>
    length (nodes s') = length (nodes s) \<and> nodes s' ! z = None \<and> clean f z (last_it + off - z) (nodes s') \<and>
    thinned f (contents (nodes s)) (contents (nodes s')) \<and> (r \<longleftrightarrow> removed \<or> contents (nodes s') \<noteq> contents (nodes s)) \<and>
    used_node_count s' \<le> used_node_count s"
  using assms
proof (induction fuel arbitrary: s it removed)
  case 0
  then have "it = last_it" by simp
  then show ?case using 0 by (simp add: thinned_refl)
next
  case (Suc fuel)
  note prems = Suc.prems
  let ?n = "length (nodes s)"
  show ?case
  proof (cases "it = last_it")
    case True
    then show ?thesis using prems by (simp add: thinned_refl)
  next
    case False
    then have lt: "it < last_it" "it < ?n" using prems(4,5) by simp_all
    have d: "dist ?n z it = it + off - z" using prems(6) lt(1) by simp
    show ?thesis
    proof (cases "nodes s ! it \<noteq> None \<and> f (the (nodes s ! it))")
      case no: False
      have run: "remove_range (Suc fuel) c f it last_it removed s = remove_range fuel c f (it + 1) last_it removed s"
        using False no lt(2) by (auto simp: node_at_def)
      have no': "nodes s ! it = None \<or> \<not> f (the (nodes s ! it))" using no by blast
      have "clean f z (Suc (it + off - z)) (nodes s)"
        using clean_Suc [of f z "nodes s" it, OF _ no' prems(2) lt(2)] prems(9) unfolding d .
      then have cl: "clean f z (it + 1 + off - z) (nodes s)" using prems(7) by (simp add: Suc_diff_le)
      show ?thesis unfolding run
        by (rule Suc.IH [OF prems(1,2,3) _ prems(5) _ _ _ cl]) (use prems(6,7,8) lt in auto)
    next
      case yes: True
      then obtain k v where kv: "nodes s ! it = Some (k, v)" "f (k, v)" by auto
      have con: "contents (nodes s) k = Some v"
      proof -
        have "distinct (map fst (elems (nodes s)))" using prems(1) lt(2) by (auto simp: table_ok_def filled_def split: if_splits)
        then show ?thesis using contents_Some nth_mem [OF lt(2)] kv(1) by metis
      qed
      obtain s1 where s1: "erase_node c it s = Some s1" "table_ok c s1" "contents (nodes s1) = (contents (nodes s))(k := None)"
        "length (nodes s1) = ?n" using erase_node_correct [OF prems(1) lt(2) kv(1)] by blast
      have run: "remove_range (Suc fuel) c f it last_it removed s = remove_range fuel c f it last_it True s1"
        using False yes lt(2) s1(1) by (auto simp: node_at_def)
      have un: "unchanged z (it + off - z) (nodes s) (nodes s1)"
        using erase_node_unchanged [OF prems(1) lt(2) kv(1) prems(2,3) s1(1)] d by simp
      have "it \<noteq> z" using kv(1) prems(3) by auto
      then have "dist ?n z it > 0" using dist_0 [OF prems(2) lt(2)] by simp
      then have z: "nodes s1 ! z = None" using un prems(2,3) d by (simp add: unchanged_def)
      have fin: "finite (dom (contents (nodes s)))" by (simp add: contents_def finite_dom_map_of)
      have "card (dom (contents (nodes s)) - {k}) < card (dom (contents (nodes s)))"
        by (rule card_Diff1_less [OF fin]) (use con in auto)
      then have used: "used_node_count s1 < used_node_count s"
        unfolding used_card [OF prems(1)] used_card [OF s1(2)] s1(3) by (simp add: dom_fun_upd)
      have "\<exists>r s'. remove_range fuel c f it last_it True s1 = Some (r, s') \<and> table_ok c s' \<and>
        length (nodes s') = length (nodes s1) \<and> nodes s' ! z = None \<and> clean f z (last_it + off - z) (nodes s') \<and>
        thinned f (contents (nodes s1)) (contents (nodes s')) \<and> (r \<longleftrightarrow> True \<or> contents (nodes s') \<noteq> contents (nodes s1)) \<and>
        used_node_count s' \<le> used_node_count s1"
      proof (rule Suc.IH [OF s1(2) _ z prems(4)])
        show "clean f z (it + off - z) (nodes s1)" by (rule clean_unchanged [OF prems(9) un s1(4)])
        show "last_it - it + used_node_count s1 \<le> fuel" using prems(8) used by simp
      qed (use prems(2,5,6,7) s1(4) in simp_all)
      then obtain r s' where s': "remove_range fuel c f it last_it True s1 = Some (r, s')" "table_ok c s'"
        "length (nodes s') = length (nodes s1)" "nodes s' ! z = None" "clean f z (last_it + off - z) (nodes s')"
        "thinned f (contents (nodes s1)) (contents (nodes s'))" r "used_node_count s' \<le> used_node_count s1" by blast
      note th = thinned_step [of "contents (nodes s)" k v f, OF con kv(2) s'(6) [unfolded s1(3)]]
      show ?thesis unfolding run using s' th s1(4) used by auto
    qed
  qed
qed

lemma first_empty_up_correct:
  "it \<le> length (nodes s) \<Longrightarrow> first_empty_up s it \<le> length (nodes s) \<and>
     (first_empty_up s it < length (nodes s) \<longrightarrow> nodes s ! first_empty_up s it = None)"
  by (induction s it rule: first_empty_up.induct) (subst (1 2 3) first_empty_up.simps, auto simp del: not_None_eq)

lemma first_empty_down_correct:
  "it \<le> length (nodes s) \<Longrightarrow> p < it \<Longrightarrow> nodes s ! p = None \<Longrightarrow>
   \<exists>z. first_empty_down s it = Some z \<and> z < length (nodes s) \<and> nodes s ! z = None"
proof (induction it)
  case (Suc it)
  then show ?case by (cases "p = it") (auto simp: node_at_def)
qed simp

definition filtered :: "('k \<times> 'v \<Rightarrow> bool) \<Rightarrow> ('k \<rightharpoonup> 'v) \<Rightarrow> 'k \<rightharpoonup> 'v" where
  "filtered f m k = (case m k of None \<Rightarrow> None | Some v \<Rightarrow> if f (k, v) then None else Some v)"

lemma thinned_filtered:
  assumes "thinned f m m'" "\<And>k v. m' k = Some v \<Longrightarrow> \<not> f (k, v)"
  shows "m' = filtered f m"
proof
  fix k
  show "m' k = filtered f m k"
    using assms(1) assms(2) [of k] by (cases "m k") (auto simp: thinned_def filtered_def dest: spec [of _ k])
qed

lemma remove_if_correct:
  assumes "table_ok c s" "begin_ok s"
  shows "\<exists>r s'. ht_remove_if rnd c f s = Some (r, s') \<and> table_ok c s' \<and> contents (nodes s') = filtered f (contents (nodes s)) \<and>
    (r \<longleftrightarrow> contents (nodes s') \<noteq> contents (nodes s)) \<and> begin_ok s'"
proof -
  obtain b s1 where b: "begin_impl rnd s = Some (b, s1)" "s1 = s\<lparr>begin_bucket := begin_bucket s1\<rparr>"
    "case b of None \<Rightarrow> used_node_count s = 0 | Some b \<Rightarrow> used_node_count s \<noteq> 0 \<and> b < length (nodes s) \<and> nodes s ! b \<noteq> None"
    "begin_ok s1" using begin_correct [OF assms] by blast
  note f1 = begin_fields [OF b(2)]
  have ok1: "table_ok c s1" using assms(1) unfolding table_ok_def f1 .
  show ?thesis
  proof (cases b)
    case None
    then have "contents (nodes s) = Map.empty" using b(3) assms(1) by (auto simp: table_ok_def contents_def split: if_splits)
    then show ?thesis using None b(1,4) ok1 f1 
      by (intro exI [of _ False]) (simp add: ht_remove_if_def filtered_def fun_eq_iff)
  next
    case (Some j)
    then have j: "j < length (nodes s1)" using b(3) f1 by simp
    let ?n = "length (nodes s1)"
    have ne: "nodes s1 \<noteq> []" using j by auto
    note t = table_okD [OF ok1 ne]
    let ?up = "first_empty_up s1 j"
    obtain p where p: "p < ?n" "nodes s1 ! p = None" using t(3) by (metis in_set_conv_nth)
    have up: "?up \<le> ?n" "?up < ?n \<Longrightarrow> nodes s1 ! ?up = None" using first_empty_up_correct [of j s1] j by simp_all
    obtain z where z: "(if ?up = bucket_count s1 then first_empty_down s1 ?up else Some ?up) = Some z" "z < ?n" "nodes s1 ! z = None"
      using first_empty_down_correct [of ?n s1 p] p up t(4) by (cases "?up = ?n") auto
    let ?fuel = "2 * bucket_count s1"
    have small: "used_node_count s1 \<le> ?n" using t(6) elems_le [of "nodes s1"] by simp
    have "\<exists>r s'. remove_range ?fuel c f z (bucket_count s1) False s1 = Some (r, s') \<and> table_ok c s' \<and>
      length (nodes s') = ?n \<and> nodes s' ! z = None \<and> clean f z (bucket_count s1 + 0 - z) (nodes s') \<and>
      thinned f (contents (nodes s1)) (contents (nodes s')) \<and> (r \<longleftrightarrow> False \<or> contents (nodes s') \<noteq> contents (nodes s1)) \<and>
      used_node_count s' \<le> used_node_count s1"
      by (rule remove_range_correct [OF ok1 z(2,3)]) (use z(2) t(4) small in \<open>simp_all add: clean_def dist_def\<close>)
    then obtain r2 s2 where s2: "remove_range ?fuel c f z (bucket_count s1) False s1 = Some (r2, s2)" "table_ok c s2"
      "length (nodes s2) = ?n" "nodes s2 ! z = None" "clean f z (bucket_count s1 + 0 - z) (nodes s2)"
      "thinned f (contents (nodes s1)) (contents (nodes s2))" "r2 \<longleftrightarrow> contents (nodes s2) \<noteq> contents (nodes s1)"
      "used_node_count s2 \<le> used_node_count s1" by blast
    have "\<exists>r s'. remove_range ?fuel c f 0 z r2 s2 = Some (r, s') \<and> table_ok c s' \<and>
      length (nodes s') = length (nodes s2) \<and> nodes s' ! z = None \<and> clean f z (z + ?n - z) (nodes s') \<and>
      thinned f (contents (nodes s2)) (contents (nodes s')) \<and> (r \<longleftrightarrow> r2 \<or> contents (nodes s') \<noteq> contents (nodes s2)) \<and>
      used_node_count s' \<le> used_node_count s2"
      by (rule remove_range_correct [OF s2(2) _ s2(4)]) (use z(2) t(4) small s2(3,5,8) in \<open>simp_all add: dist_def\<close>)
    then obtain r3 s3 where s3: "remove_range ?fuel c f 0 z r2 s2 = Some (r3, s3)" "table_ok c s3"
      "length (nodes s3) = length (nodes s2)" "clean f z (z + ?n - z) (nodes s3)"
      "thinned f (contents (nodes s2)) (contents (nodes s3))" "r3 \<longleftrightarrow> r2 \<or> contents (nodes s3) \<noteq> contents (nodes s2)" by blast
    have "nodes s3 \<noteq> []" using s3(3) s2(3) ne by auto
    then obtain s4 where s4: "try_shrink c s3 = Some s4" "table_ok c s4" "contents (nodes s4) = contents (nodes s3)"
      using try_shrink_correct [OF s3(2)] by blast
    have d3: "distinct (map fst (elems (nodes s3)))" using s3(2) \<open>nodes s3 \<noteq> []\<close> by (simp add: table_ok_def filled_def)
    have all: "\<not> f (k, v)" if con: "contents (nodes s3) k = Some v" for k v
    proof -
      obtain i where i: "i < ?n" "nodes s3 ! i = Some (k, v)"
        using con contents_Some [OF d3, of k v] s3(3) s2(3) by (auto simp: in_set_conv_nth)
      have "dist ?n z i < z + ?n - z" using dist_less [OF z(2) i(1)] by simp
      then show ?thesis using s3(4) i s3(3) s2(3) unfolding clean_def by fastforce
    qed
    have th: "thinned f (contents (nodes s)) (contents (nodes s3))"
      using thinned_trans [OF s2(6) s3(5)] f1(1) by simp
    have eq: "contents (nodes s3) = filtered f (contents (nodes s))" by (rule thinned_filtered [OF th all])
    have "r3 \<longleftrightarrow> contents (nodes s3) \<noteq> contents (nodes s)"
      using s3(6) s2(7) f1(1) thinned_antisym [OF s2(6)] s3(5) by metis
    moreover have "ht_remove_if rnd c f s = Some (r3, s4)"
      using b(1) Some z(1) s2(1) s3(1) s4(1) by (simp add: ht_remove_if_def Let_def)
    ultimately show ?thesis using s4 eq try_shrink_begin [OF s4(1)] by auto
  qed
qed

section \<open>Room for many keys\<close>

lemma insert_all_correct:
  assumes "table_ok c s" "empty_key c \<notin> fst ` set kvs" "10 * (used_node_count s + length kvs) + 24 \<le> 3 * max_buckets c"
  shows "\<exists>s'. ht_insert_all c kvs s = Some s' \<and> table_ok c s' \<and> contents (nodes s') = map_of kvs ++ contents (nodes s)"
  using assms
proof (induction kvs arbitrary: s)
  case (Cons kv kvs)
  obtain k v where kv: "kv = (k, v)" by (cases kv)
  have k: "k \<noteq> empty_key c" "empty_key c \<notin> fst ` set kvs" using Cons.prems(2) kv by auto
  have room: "10 * used_node_count s + 24 \<le> 3 * max_buckets c" using Cons.prems(3) by simp
  obtain b s1 where s1: "ht_emplace c k v s = Some (b, contents (nodes s) k = None, s1)" "table_ok c s1"
    "contents (nodes s1) = (if contents (nodes s) k = None then (contents (nodes s))(k \<mapsto> v) else contents (nodes s))"
    using emplace_correct [OF Cons.prems(1) k(1) room, of v] by (auto simp: emplaced_def)
  have fin: "finite (dom (contents (nodes s)))" by (simp add: contents_def finite_dom_map_of)
  have "card (dom (contents (nodes s1))) \<le> Suc (card (dom (contents (nodes s))))"
    unfolding s1(3) using fin by (simp add: card_insert_if)
  then have used: "used_node_count s1 \<le> Suc (used_node_count s)" using used_card s1(2) Cons.prems(1) by metis
  have "10 * (used_node_count s1 + length kvs) + 24 \<le> 3 * max_buckets c" using Cons.prems(3) used by simp
  then obtain s2 where s2: "ht_insert_all c kvs s1 = Some s2" "table_ok c s2" "contents (nodes s2) = map_of kvs ++ contents (nodes s1)"
    using Cons.IH [OF s1(2) k(2)] by blast
  have "map_of kvs ++ contents (nodes s1) = map_of (kv # kvs) ++ contents (nodes s)"
    unfolding s1(3) kv by (auto simp: map_add_def fun_eq_iff split: option.split)
  then show ?case using s1(1) s2 kv by (simp del: map_of.simps)
qed simp


lemma reserve_correct:
  assumes "table_ok c s" "want \<le> 2 ^ 29" "normalize_size (want * 5 div 3 + 1) \<le> max_buckets c" "want > 0"
  shows "\<exists>s'. ht_reserve c want s = Some s' \<and> table_ok c s' \<and> contents (nodes s') = contents (nodes s) \<and>
    normalize_size (want * 5 div 3 + 1) \<le> length (nodes s') \<and> (begin_ok s \<longrightarrow> begin_ok s')"
proof -
  let ?N = "normalize_size (want * 5 div 3 + 1)"
  obtain m where m: "m \<ge> 3" "?N = 2 ^ m" using normalize_size_pow by blast
  have bc: "bucket_count s = length (nodes s)" using assms(1) by (auto simp: table_ok_def split: if_splits)
  show ?thesis
  proof (cases "?N > bucket_count s")
    case False
    then have "ht_reserve c want s = Some s" using assms(2,4) by (simp add: ht_reserve_def check_def Let_def)
    then show ?thesis using assms(1) False bc by simp
  next
    case True
    have used: "used_node_count s < ?N" "used_node_count s * 5 < (?N - 1) * 3 + 5"
    proof -
      have N8: "8 \<le> ?N" by (rule normalize_size_less)
      have "used_node_count s < ?N \<and> used_node_count s * 5 < (?N - 1) * 3 + 5"
      proof (cases "nodes s = []")
        case True
        then show ?thesis using assms(1) N8 by (simp add: table_ok_def)
      next
        case False
        note t = table_okD [OF assms(1) False]
        show ?thesis using t(4,5,7,8) True by linarith
      qed
      then show "used_node_count s < ?N" "used_node_count s * 5 < (?N - 1) * 3 + 5" by simp_all
    qed
    obtain xs where xs: "resize c ?N s = Some \<lparr>nodes = xs, used_node_count = used_node_count s, bucket_count_mask = ?N - 1,
        bucket_count = ?N, begin_bucket = INVALID_BUCKET\<rparr>"
      "length xs = ?N" "filled c xs" "contents xs = contents (nodes s)" "length (elems xs) = used_node_count s"
      using resize_correct [OF assms(1) m(2,1) assms(3) used(1)] by blast
    let ?s = "\<lparr>nodes = xs, used_node_count = used_node_count s, bucket_count_mask = ?N - 1, bucket_count = ?N,
      begin_bucket = INVALID_BUCKET\<rparr>"
    have "table_ok c ?s" using resized_ok [OF xs(2,3,5) used(2) assms(3)] True by simp
    moreover have "ht_reserve c want s = Some ?s" using assms(2,4) True xs(1) by (simp add: ht_reserve_def check_def Let_def)
    ultimately show ?thesis using xs(2,4) by (simp add: begin_ok_def)
  qed
qed

text \<open>The first of several pairs with the same key is kept.\<close>

lemma init_nodes_correct:
  assumes "sized s" "filled c (nodes s)" "empty_key c \<notin> fst ` set kvs" "length (elems (nodes s)) + length kvs < length (nodes s)"
  shows "\<exists>xs. init_nodes c kvs (length (elems (nodes s))) s = Some (s\<lparr>nodes := xs, used_node_count := length (elems xs)\<rparr>) \<and>
    length xs = length (nodes s) \<and> filled c xs \<and> contents xs = map_of kvs ++ contents (nodes s) \<and>
    length (elems xs) \<le> length (elems (nodes s)) + length kvs"
  using assms
proof (induction kvs arbitrary: s)
  case Nil
  then show ?case by (intro exI [of _ "nodes s"]) simp
next
  case (Cons kv kvs)
  obtain k v where kv: "kv = (k, v)" by (cases kv)
  note prems = Cons.prems [unfolded kv]
  have none: "None \<in> set (nodes s)" using has_empty [of "nodes s"] prems(4) by simp
  have k: "k \<noteq> empty_key c" "empty_key c \<notin> fst ` set kvs" using prems(3) by auto
  obtain r where r: "r < length (nodes s)" "probe (bucket_count s) k s (calc_bucket c k s) = Some (r, contents (nodes s) k \<noteq> None)"
    "case contents (nodes s) k of
       Some v \<Rightarrow> nodes s ! r = Some (k, v)
     | None \<Rightarrow> nodes s ! r = None \<and>
         (\<forall>p < length (nodes s). on_way (length (nodes s)) (home c (length (nodes s)) k) p r \<longrightarrow> nodes s ! p \<noteq> None)"
    using probe_correct [OF prems(1,2) none] by blast
  show ?case
  proof (cases "contents (nodes s) k")
    case (Some w)
    have run: "init_nodes c (kv # kvs) (length (elems (nodes s))) s = init_nodes c kvs (length (elems (nodes s))) s"
      using kv k(1) r(2) Some by (simp add: check_def)
    have "map_of (kv # kvs) ++ contents (nodes s) = map_of kvs ++ contents (nodes s)"
      using Some kv by (auto simp: map_add_def fun_eq_iff split: option.split)
    moreover have "length (elems (nodes s)) + length kvs < length (nodes s)" using prems(4) by simp
    note Cons.IH [OF prems(1,2) k(2) this]
    ultimately obtain xs where xs: "init_nodes c kvs (length (elems (nodes s))) s = Some (s\<lparr>nodes := xs, used_node_count := length (elems xs)\<rparr>)"
      "length xs = length (nodes s)" "filled c xs" "contents xs = map_of (kv # kvs) ++ contents (nodes s)"
      "length (elems xs) \<le> length (elems (nodes s)) + length kvs" by auto
    show ?thesis unfolding run using xs by (intro exI [of _ xs]) (simp del: map_of.simps)
  next
    case None
    let ?s = "put_node r (Some (k, v)) s"
    have n: "nodes s ! r = None"
      "\<forall>p < length (nodes s). on_way (length (nodes s)) (home c (length (nodes s)) k) p r \<longrightarrow> nodes s ! p \<noteq> None"
      using r(3) None by simp_all
    have a: "added c [k \<mapsto> v] 1 s ?s" by (rule put_added [OF prems(1,2) r(1) n(1) k(1) None n(2)])
    have con: "contents (nodes ?s) = (contents (nodes s))(k \<mapsto> v)" "length (elems (nodes ?s)) = length (elems (nodes s)) + 1"
      "filled c (nodes ?s)" using a by (simp_all add: added_def)
    have run: "init_nodes c (kv # kvs) (length (elems (nodes s))) s = init_nodes c kvs (length (elems (nodes ?s))) ?s"
      unfolding con(2) using kv k(1) r(2) None by (simp add: check_def)
    have sz: "sized ?s" "length (elems (nodes ?s)) + length kvs < length (nodes ?s)"
      using prems(1,4) con(2) by simp_all
    obtain xs where xs: "init_nodes c kvs (length (elems (nodes ?s))) ?s = Some (?s\<lparr>nodes := xs, used_node_count := length (elems xs)\<rparr>)"
      "length xs = length (nodes ?s)" "filled c xs" "contents xs = map_of kvs ++ contents (nodes ?s)"
      "length (elems xs) \<le> length (elems (nodes ?s)) + length kvs" using Cons.IH [OF sz(1) con(3) k(2) sz(2)] by blast
    have "map_of (kv # kvs) ++ contents (nodes s) = map_of kvs ++ contents (nodes ?s)"
      unfolding con(1) using None kv by (auto simp: map_add_def fun_eq_iff split: option.split)
    moreover have "?s\<lparr>nodes := xs, used_node_count := length (elems xs)\<rparr> = s\<lparr>nodes := xs, used_node_count := length (elems xs)\<rparr>"
      by (simp add: put_node_def)
    ultimately show ?thesis unfolding run using xs con(2) by (intro exI [of _ xs]) (simp del: map_of.simps)
  qed
qed

lemma table_of_list_correct:
  fixes kvs :: "('k \<times> 'v) list"
  assumes "length kvs \<le> 2 ^ 29" "normalize_size (length kvs * 5 div 3 + 1) \<le> max_buckets c" "empty_key c \<notin> fst ` set kvs"
  shows "\<exists>s. table_of_list c kvs = Some s \<and> table_ok c s \<and> contents (nodes s) = map_of kvs"
proof (cases "kvs = []")
  case True
  then show ?thesis by (simp add: table_of_list_def new_table_ok)
next
  case False
  let ?N = "normalize_size (length kvs * 5 div 3 + 1)"
  obtain s :: "('k, 'v) flat_table" where s: "ht_reserve c (length kvs) new_table = Some s" "table_ok c s" "contents (nodes s) = Map.empty"
    "?N \<le> length (nodes s)" using reserve_correct [OF new_table_ok(1) assms(1,2)] False by (auto simp: new_table_ok(2))
  have N: "length kvs * 5 div 3 + 1 < ?N" "8 \<le> ?N" by (rule normalize_size_less)+
  have ne: "nodes s \<noteq> []" using s(4) N(2) by auto
  note t = table_okD [OF s(2) ne]
  have "length (elems (nodes s)) = 0" using used_card [OF s(2)] s(3) t(6) by simp
  then have e: "elems (nodes s) = []" by simp
  have "length kvs * 5 < 3 * (length kvs * 5 div 3 + 1)" by presburger
  then have small: "length kvs * 5 + 3 < 3 * length (nodes s)" using N(1) s(4) by linarith
  obtain xs where xs: "init_nodes c kvs 0 s = Some (s\<lparr>nodes := xs, used_node_count := length (elems xs)\<rparr>)"
    "length xs = length (nodes s)" "filled c xs" "contents xs = map_of kvs" "length (elems xs) \<le> length kvs"
    using init_nodes_correct [OF t(1,2) assms(3)] e s(3) small by auto
  have "table_ok c (s\<lparr>nodes := xs, used_node_count := length (elems xs)\<rparr>)"
    using xs t(4,7,9) small ne by (auto simp: table_ok_def)
  then show ?thesis using False s(1) xs(1,4) by (simp add: table_of_list_def)
qed
section \<open>The table and the map it stands for\<close>

subsection \<open>The operations of a map\<close>

datatype ('k, 'v) table_call =
    Find 'k
  | Emplace 'k 'v
  | Erase 'k
  | Remove_if nat "'k \<times> 'v \<Rightarrow> bool"
  | For_each nat
  | Reserve nat
  | Clear

datatype ('k, 'v) table_result = Node "('k \<times> 'v) option" | Flag bool | Count nat | Elements "('k \<times> 'v) multiset" | Unit

text \<open>What they do to a map.\<close>

fun map_op :: "('k, 'v) table_call \<Rightarrow> ('k \<rightharpoonup> 'v) \<Rightarrow> ('k, 'v) table_result \<times> ('k \<rightharpoonup> 'v)" where
  "map_op (Find k) m = (Node (map_option (\<lambda>v. (k, v)) (m k)), m)"
| "map_op (Emplace k v) m = (Flag (m k = None), if m k = None then m(k \<mapsto> v) else m)"
| "map_op (Erase k) m = (Count (if m k = None then 0 else 1), m(k := None))"
| "map_op (Remove_if rnd f) m = (Flag (filtered f m \<noteq> m), filtered f m)"
| "map_op (For_each rnd) m = (Elements (mset_set (Map.graph m)), m)"
| "map_op (Reserve n) m = (Unit, m)"
| "map_op Clear m = (Unit, Map.empty)"

fun map_ops :: "('k, 'v) table_call list \<Rightarrow> ('k \<rightharpoonup> 'v) \<Rightarrow> ('k, 'v) table_result list \<times> ('k \<rightharpoonup> 'v)" where
  "map_ops [] m = ([], m)"
| "map_ops (x # xs) m = (let (r, m) = map_op x m; (rs, m) = map_ops xs m in (r # rs, m))"

text \<open>The same operations on a hash table.\<close>

fun table_op :: "'k hashing \<Rightarrow> ('k, 'v) table_call \<Rightarrow> ('k, 'v) flat_table \<Rightarrow> (('k, 'v) table_result \<times> ('k, 'v) flat_table) option" where
  "table_op c (Find k) s = do { n \<leftarrow> ht_find c k s; Some (Node n, s) }"
| "table_op c (Emplace k v) s = do { (_, b, s) \<leftarrow> ht_emplace c k v s; Some (Flag b, s) }"
| "table_op c (Erase k) s = do { (n, s) \<leftarrow> ht_erase c k s; Some (Count n, s) }"
| "table_op c (Remove_if rnd f) s = do { (b, s) \<leftarrow> ht_remove_if rnd c f s; Some (Flag b, s) }"
| "table_op c (For_each rnd) s = do { (kvs, s) \<leftarrow> ht_elements rnd s; Some (Elements (mset kvs), s) }"
| "table_op c (Reserve n) s = do { s \<leftarrow> ht_reserve c n s; Some (Unit, s) }"
| "table_op c Clear s = Some (Unit, ht_clear s)"

text \<open>Calls one after the other.\<close>

fun run_calls :: "('x \<Rightarrow> 's \<Rightarrow> ('r \<times> 's) option) \<Rightarrow> 'x list \<Rightarrow> 's \<Rightarrow> ('r list \<times> 's) option" where
  "run_calls f [] s = Some ([], s)"
| "run_calls f (x # xs) s = do { (r, s) \<leftarrow> f x s; (rs, s) \<leftarrow> run_calls f xs s; Some (r # rs, s) }"

text \<open>What a caller has to see to: the empty key is not added, and a table is not asked for that cannot be allocated.\<close>

fun op_allowed :: "'k hashing \<Rightarrow> ('k, 'v) table_call \<Rightarrow> bool" where
  "op_allowed c (Emplace k v) \<longleftrightarrow> k \<noteq> empty_key c"
| "op_allowed c (Reserve n) \<longleftrightarrow> n = 0 \<or> n \<le> 2 ^ 29 \<and> normalize_size (n * 5 div 3 + 1) \<le> max_buckets c"
| "op_allowed c x \<longleftrightarrow> True"

lemma map_op_size:
  assumes "finite (dom m)"
  shows "finite (dom (snd (map_op x m)))" "card (dom (snd (map_op x m))) \<le> Suc (card (dom m))"
proof -
  have f: "dom (filtered f m) \<subseteq> dom m" for f by (auto simp: filtered_def split: option.splits)
  have *: "dom (snd (map_op x m)) \<subseteq> insert (case x of Emplace k v \<Rightarrow> k | _ \<Rightarrow> undefined) (dom m)"
    using f by (cases x) (auto split: if_splits)
  then show "finite (dom (snd (map_op x m)))" using assms finite_subset by blast
  have "card (dom (snd (map_op x m))) \<le> card (insert (case x of Emplace k v \<Rightarrow> k | _ \<Rightarrow> undefined) (dom m))"
    by (rule card_mono [OF _ *]) (simp add: assms)
  also have "\<dots> \<le> Suc (card (dom m))" using assms by (simp add: card_insert_if)
  finally show "card (dom (snd (map_op x m))) \<le> Suc (card (dom m))" .
qed

text \<open>
  The contract of a table with room for a number of keys: each operation does to the table what it does to the map.
\<close>

locale map_table =
  fixes ok :: "'s \<Rightarrow> bool"
    and view :: "'s \<Rightarrow> 'k \<rightharpoonup> 'v"
    and step :: "('k, 'v) table_call \<Rightarrow> 's \<Rightarrow> (('k, 'v) table_result \<times> 's) option"
    and allowed :: "('k, 'v) table_call \<Rightarrow> bool"
    and room :: nat
  assumes step_view: "ok s \<Longrightarrow> allowed x \<Longrightarrow> card (dom (view s)) \<le> room \<Longrightarrow>
      \<exists>s'. step x s = Some (fst (map_op x (view s)), s') \<and> ok s' \<and> view s' = snd (map_op x (view s))"
    and finite_view: "ok s \<Longrightarrow> finite (dom (view s))"
begin

lemma steps_view:
  "ok s \<Longrightarrow> \<forall>x \<in> set xs. allowed x \<Longrightarrow> card (dom (view s)) + length xs \<le> Suc room \<Longrightarrow>
   \<exists>s'. run_calls step xs s = Some (fst (map_ops xs (view s)), s') \<and> ok s' \<and> view s' = snd (map_ops xs (view s))"
proof (induction xs arbitrary: s)
  case (Cons x xs)
  obtain s1 where s1: "step x s = Some (fst (map_op x (view s)), s1)" "ok s1" "view s1 = snd (map_op x (view s))"
    using step_view [of s x] Cons.prems by auto
  have "card (dom (view s1)) \<le> Suc (card (dom (view s)))"
    unfolding s1(3) by (rule map_op_size [OF finite_view [OF Cons.prems(1)]])
  then have "card (dom (view s1)) + length xs \<le> Suc room" using Cons.prems(3) by simp
  then obtain s2 where s2: "run_calls step xs s1 = Some (fst (map_ops xs (view s1)), s2)" "ok s2" "view s2 = snd (map_ops xs (view s1))"
    using Cons.IH [OF s1(2)] Cons.prems(2) by auto
  show ?case using s1 s2 by (cases "map_op x (view s)"; cases "map_ops xs (view s1)") simp
qed simp

end

subsection \<open>The hash table keeps the contract\<close>

lemma elems_graph: "distinct (map fst (elems xs)) \<Longrightarrow> mset (elems xs) = mset_set (Map.graph (contents xs))"
  by (simp add: contents_def graph_map_of_if_distinct_dom mset_set_set distinct_map)

lemma table_distinct: "table_ok c s \<Longrightarrow> distinct (map fst (elems (nodes s)))"
  by (cases "nodes s = []") (simp_all add: table_ok_def filled_def)

definition key_room :: "'k hashing \<Rightarrow> nat" where
  "key_room c = (3 * max_buckets c - 24) div 10"

lemma key_room_D: "n \<le> key_room c \<Longrightarrow> 24 \<le> 3 * max_buckets c \<Longrightarrow> 10 * n + 24 \<le> 3 * max_buckets c"
  by (simp add: key_room_def)

lemma find_node_correct:
  assumes "table_ok c s"
  shows "ht_find c k s = Some (map_option (\<lambda>v. (k, v)) (contents (nodes s) k))"
  using ht_find_correct [OF assms, of k] by (auto simp: ht_find_def node_at_def split: option.splits)

lemma table_op_correct:
  assumes "table_ok c s" "begin_ok s" "op_allowed c x" "card (dom (contents (nodes s))) \<le> key_room c" "8 \<le> max_buckets c"
  shows "\<exists>s'. table_op c x s = Some (fst (map_op x (contents (nodes s))), s') \<and> table_ok c s' \<and> begin_ok s' \<and>
    contents (nodes s') = snd (map_op x (contents (nodes s)))"
proof (cases x)
  case (Find k)
  then show ?thesis using find_node_correct [OF assms(1), of k] assms(1,2) by simp
next
  case (Emplace k v)
  have "10 * used_node_count s + 24 \<le> 3 * max_buckets c"
    using key_room_D [OF assms(4)] assms(5) used_card [OF assms(1)] by simp
  then show ?thesis using emplace_correct [OF assms(1), of k v] Emplace assms(2,3) by (auto simp: emplaced_def)
next
  case (Erase k)
  then show ?thesis using ht_erase_correct [OF assms(1), of k] assms(2) by auto
next
  case (Remove_if rnd f)
  then show ?thesis using remove_if_correct [OF assms(1,2), of rnd f] by auto
next
  case (For_each rnd)
  then show ?thesis using elements_correct [OF assms(1,2), of rnd] elems_graph [OF table_distinct [OF assms(1)]] by auto
next
  case (Reserve n)
  show ?thesis
  proof (cases "n = 0")
    case True
    then show ?thesis using Reserve assms(1,2) by (simp add: ht_reserve_def)
  next
    case False
    then show ?thesis using Reserve reserve_correct [OF assms(1), of n] assms(2,3) by auto
  qed
next
  case Clear
  then show ?thesis using ht_clear_correct(2,3) [of s] ht_clear_correct(1) [OF assms(1)] by simp
qed

definition usable :: "'k hashing \<Rightarrow> ('k, 'v) flat_table \<Rightarrow> bool" where
  "usable c s \<longleftrightarrow> table_ok c s \<and> begin_ok s \<and> 8 \<le> max_buckets c"

interpretation flat: map_table "usable c :: ('k, 'v) flat_table \<Rightarrow> bool" "\<lambda>s. contents (nodes s)" "table_op c" "op_allowed c" "key_room c" for c
proof unfold_locales
  fix s :: "('k, 'v) flat_table" and x :: "('k, 'v) table_call"
  assume a: "usable c s" "op_allowed c x" "card (dom (contents (nodes s))) \<le> key_room c"
  then have b: "table_ok c s" "begin_ok s" "8 \<le> max_buckets c" by (simp_all add: usable_def)
  show "\<exists>s'. table_op c x s = Some (fst (map_op x (contents (nodes s))), s') \<and> usable c s' \<and>
      contents (nodes s') = snd (map_op x (contents (nodes s)))"
    using table_op_correct [OF b(1,2) a(2,3) b(3)] b(3) by (auto simp: usable_def)
qed (simp add: contents_def finite_dom_map_of)



lemma bit_length_half: "0 < n \<Longrightarrow> bit_length n = Suc (bit_length (n div 2))"
  by (cases n) simp_all


end
