(* ===== verification/Td_Ordered.thy ===== *)
theory Td_Ordered
  imports Td_Prelude
begin

text \<open>
  Queues that put things back in order.

  \<^item> \<open>OrderedEventsProcessor\<close> (\<open>tdutils/td/utils/OrderedEventsProcessor.h\<close>) takes numbered events in any order and hands
    them to a function in the order of their numbers.
  \<^item> \<open>ChangesProcessor\<close> (\<open>tdutils/td/utils/ChangesProcessor.h\<close>) numbers changes and hands them on in their order, each
    when it and all before it are finished.  \<open>PtsManager\<close> (\<open>td/telegram/PtsManager.h\<close>) keeps the last state of which
    everything is stored with it.

  The function that gets the events is what an operation returns: the list of its calls.  It does not call the queue again,
  as none in the library does.  A pair of data and \<open>false\<close> in \<open>OrderedEventsProcessor\<close>, whose data is not read any more,
  is \<^theory_text>\<open>None\<close>.  An access outside of the array is \<^theory_text>\<open>None\<close>, as a failed check is.
\<close>

section \<open>Events in the order of their numbers\<close>

subsection \<open>The code\<close>

record 'a ordered_events =
  oe_offset :: nat
  oe_begin :: nat
  oe_end :: nat
  oe_data :: "'a option list"

definition new_ordered :: "nat \<Rightarrow> 'a ordered_events" where
  "new_ordered offset = \<lparr>oe_offset = offset, oe_begin = offset, oe_end = offset, oe_data = []\<rparr>"

definition oe_clear :: "'a ordered_events \<Rightarrow> 'a list \<times> 'a ordered_events" where
  "oe_clear s = (map the (filter (\<lambda>x. x \<noteq> None) (oe_data s)), new_ordered 1)"

function run_ready :: "'a ordered_events \<Rightarrow> ((nat \<times> 'a) list \<times> 'a ordered_events) option" where
  "run_ready s =
     (if oe_begin s < oe_end s
      then let pos = oe_begin s - oe_offset s in
           if pos < length (oe_data s)
           then (case oe_data s ! pos of
                   None \<Rightarrow> Some ([], s)
                 | Some x \<Rightarrow>
                     do { (calls, s') \<leftarrow> run_ready (s\<lparr>oe_data := (oe_data s)[pos := None], oe_begin := oe_begin s + 1\<rparr>);
                          Some ((oe_begin s, x) # calls, s') })
           else None
      else Some ([], s))"
  by pat_completeness auto
termination
  by (relation "measure (\<lambda>s. oe_end s - oe_begin s)") auto

declare run_ready.simps [simp del]

definition oe_compactify :: "'a ordered_events \<Rightarrow> 'a ordered_events option" where
  "oe_compactify s =
     (let begin_pos = oe_begin s - oe_offset s in
      if begin_pos > 5 \<and> begin_pos * 2 > length (oe_data s)
      then do { check (begin_pos \<le> length (oe_data s));
                Some (s\<lparr>oe_data := drop begin_pos (oe_data s), oe_offset := oe_begin s\<rparr>) }
      else Some s)"

definition oe_add :: "nat \<Rightarrow> 'a \<Rightarrow> 'a ordered_events \<Rightarrow> ((nat \<times> 'a) list \<times> 'a ordered_events) option" where
  "oe_add seq_no x s =
     do { check (seq_no \<ge> oe_begin s);
          if seq_no = oe_begin s
          then do { (calls, s) \<leftarrow> run_ready (s\<lparr>oe_begin := oe_begin s + 1\<rparr>);
                    let s = (if oe_begin s > oe_end s then s\<lparr>oe_end := oe_begin s\<rparr> else s);
                    let s = (if oe_begin s = oe_end s then s\<lparr>oe_offset := oe_begin s\<rparr> else s);
                    s \<leftarrow> oe_compactify s;
                    Some ((seq_no, x) # calls, s) }
          else do { let pos = seq_no - oe_offset s;
                    let data = oe_data s @ replicate (pos + 1 - length (oe_data s)) None;
                    Some ([], s\<lparr>oe_data := data[pos := Some x],
                                oe_end := (if oe_end s < seq_no + 1 then seq_no + 1 else oe_end s)\<rparr>) } }"

definition has_events :: "'a ordered_events \<Rightarrow> bool" where
  "has_events s \<longleftrightarrow> oe_begin s \<noteq> oe_end s"

definition max_unfinished_seq_no :: "'a ordered_events \<Rightarrow> nat" where
  "max_unfinished_seq_no s = oe_end s - 1"

definition max_finished_seq_no :: "'a ordered_events \<Rightarrow> nat" where
  "max_finished_seq_no s = oe_begin s - 1"

subsection \<open>What waits, and what is handed on\<close>

text \<open>The event that waits under a number.\<close>

definition waiting :: "'a ordered_events \<Rightarrow> nat \<Rightarrow> 'a option" where
  "waiting s n = (if oe_begin s \<le> n \<and> n - oe_offset s < length (oe_data s) then oe_data s ! (n - oe_offset s) else None)"

definition ordered_ok :: "'a ordered_events \<Rightarrow> bool" where
  "ordered_ok s \<longleftrightarrow> oe_offset s \<le> oe_begin s \<and> oe_begin s \<le> oe_end s \<and>
     (oe_begin s < oe_end s \<longrightarrow> oe_end s \<le> oe_offset s + length (oe_data s)) \<and>
     (\<forall>n < length (oe_data s). oe_data s ! n \<noteq> None \<longrightarrow> oe_begin s \<le> oe_offset s + n \<and> oe_offset s + n < oe_end s) \<and>
     (oe_begin s < oe_end s \<longrightarrow> waiting s (oe_end s - 1) \<noteq> None) \<and> waiting s (oe_begin s) = None \<and>
     (oe_begin s = oe_end s \<longrightarrow> oe_offset s = oe_begin s)"

text \<open>While events are run, the first one may wait, too.\<close>

definition running_ok :: "'a ordered_events \<Rightarrow> bool" where
  "running_ok s \<longleftrightarrow> oe_offset s \<le> oe_begin s \<and> oe_begin s \<le> oe_end s \<and>
     (oe_begin s < oe_end s \<longrightarrow> oe_end s \<le> oe_offset s + length (oe_data s)) \<and>
     (\<forall>n < length (oe_data s). oe_data s ! n \<noteq> None \<longrightarrow> oe_begin s \<le> oe_offset s + n \<and> oe_offset s + n < oe_end s) \<and>
     (oe_begin s < oe_end s \<longrightarrow> waiting s (oe_end s - 1) \<noteq> None)"

lemma run_ready_correct:
  assumes "running_ok s"
  shows "\<exists>calls s'. run_ready s = Some (calls, s') \<and> running_ok s' \<and> waiting s' (oe_begin s') = None \<and>
    oe_offset s' = oe_offset s \<and> oe_end s' = oe_end s \<and> length (oe_data s') = length (oe_data s) \<and> oe_begin s \<le> oe_begin s' \<and>
    map fst calls = [oe_begin s..<oe_begin s'] \<and> (\<forall>(n, x) \<in> set calls. waiting s n = Some x) \<and>
    (\<forall>n \<ge> oe_begin s'. waiting s' n = waiting s n)"
  using assms
proof (induction s rule: run_ready.induct)
  case (1 s)
  let ?pos = "oe_begin s - oe_offset s"
  note ok = "1.prems" [unfolded running_ok_def]
  show ?case
  proof (cases "oe_begin s < oe_end s \<and> oe_data s ! ?pos \<noteq> None")
    case False
    have "run_ready s = Some ([], s)" using False ok by (subst run_ready.simps) (auto simp: Let_def)
    moreover have "waiting s (oe_begin s) = None"
    proof (cases "oe_begin s < oe_end s")
      case True
      then show ?thesis using False by (simp add: waiting_def)
    next
      case no: False
      show ?thesis
      proof (rule ccontr)
        assume w: "waiting s (oe_begin s) \<noteq> None"
        then have "?pos < length (oe_data s)" "oe_data s ! ?pos \<noteq> None" by (auto simp: waiting_def split: if_splits)
        then have "oe_offset s + ?pos < oe_end s" using ok by blast
        then show False using no ok by simp
      qed
    qed
    ultimately show ?thesis using "1.prems" by auto
  next
    case True
    then obtain x where x: "oe_data s ! ?pos = Some x" by auto
    have lt: "oe_begin s < oe_end s" "?pos < length (oe_data s)" using True ok by auto
    let ?s = "s\<lparr>oe_data := (oe_data s)[?pos := None], oe_begin := oe_begin s + 1\<rparr>"
    have w: "waiting ?s n = waiting s n" if "oe_begin s + 1 \<le> n" for n
    proof -
      have "n - oe_offset s \<noteq> ?pos" using that ok by auto
      then show ?thesis using that by (auto simp: waiting_def)
    qed
    have ok': "running_ok ?s"
    proof -
      have last_one: "oe_begin s + 1 < oe_end s \<longrightarrow> waiting ?s (oe_end s - 1) \<noteq> None" using w [of "oe_end s - 1"] ok by auto
      have entries: "oe_begin s + 1 \<le> oe_offset s + n \<and> oe_offset s + n < oe_end s"
        if "n < length (oe_data s)" "(oe_data s)[?pos := None] ! n \<noteq> None" for n
      proof -
        have n: "n \<noteq> ?pos" using that by auto
        then have "oe_data s ! n \<noteq> None" using that by auto
        then have "oe_begin s \<le> oe_offset s + n \<and> oe_offset s + n < oe_end s" using ok that(1) by blast
        then show ?thesis using n by auto
      qed
      show ?thesis using ok lt last_one entries by (simp add: running_ok_def)
    qed
    obtain calls s' where r: "run_ready ?s = Some (calls, s')" "running_ok s'" "waiting s' (oe_begin s') = None"
      "oe_offset s' = oe_offset s" "oe_end s' = oe_end s" "length (oe_data s') = length (oe_data s)" "oe_begin s + 1 \<le> oe_begin s'"
      "map fst calls = [oe_begin s + 1..<oe_begin s']" "\<forall>(n, x) \<in> set calls. waiting ?s n = Some x"
      "\<forall>n \<ge> oe_begin s'. waiting s' n = waiting ?s n"
      using "1.IH" [OF lt(1) refl lt(2) x ok'] by auto
    have run: "run_ready s = Some ((oe_begin s, x) # calls, s')"
      using lt x r(1) by (subst run_ready.simps) (simp add: Let_def)
    have first: "waiting s (oe_begin s) = Some x" using x lt by (simp add: waiting_def)
    have "oe_begin s + 1 \<le> n" if "(n, y) \<in> set calls" for n y
    proof -
      have "n \<in> set (map fst calls)" using that by force
      then show ?thesis unfolding r(8) by simp
    qed
    then have "\<forall>(n, y) \<in> set calls. waiting s n = Some y" using r(9) w by fastforce
    moreover have "map fst ((oe_begin s, x) # calls) = [oe_begin s..<oe_begin s']"
      using r(7,8) by (simp add: upt_conv_Cons)
    ultimately show ?thesis using run r first w by auto
  qed
qed

lemma running_ordered:
  "running_ok s \<Longrightarrow> waiting s (oe_begin s) = None \<Longrightarrow> (oe_begin s = oe_end s \<longrightarrow> oe_offset s = oe_begin s) \<Longrightarrow> ordered_ok s"
  by (simp add: running_ok_def ordered_ok_def)

lemma compactify_correct:
  assumes "ordered_ok s"
  shows "\<exists>s'. oe_compactify s = Some s' \<and> ordered_ok s' \<and> oe_begin s' = oe_begin s \<and> oe_end s' = oe_end s \<and> waiting s' = waiting s"
proof -
  let ?p = "oe_begin s - oe_offset s"
  note ok = assms [unfolded ordered_ok_def]
  show ?thesis
  proof (cases "?p > 5 \<and> ?p * 2 > length (oe_data s)")
    case False
    then show ?thesis using assms by (auto simp: oe_compactify_def Let_def)
  next
    case True
    then have lt: "oe_begin s < oe_end s" using ok by auto
    then have le: "?p \<le> length (oe_data s)" using ok by linarith
    let ?s = "s\<lparr>oe_data := drop ?p (oe_data s), oe_offset := oe_begin s\<rparr>"
    have w: "waiting ?s = waiting s"
    proof
      fix n
      have "?p + (n - oe_begin s) = n - oe_offset s" if "oe_begin s \<le> n" using that ok by linarith
      then show "waiting ?s n = waiting s n" using le by (auto simp: waiting_def)
    qed
    have entries: "oe_begin s \<le> oe_begin s + n \<and> oe_begin s + n < oe_end s"
      if "n < length (oe_data s) - ?p" "drop ?p (oe_data s) ! n \<noteq> None" for n
    proof -
      have "?p + n < length (oe_data s)" "oe_data s ! (?p + n) \<noteq> None" using that le by simp_all
      then have "oe_offset s + (?p + n) < oe_end s" using ok by blast
      then show ?thesis using ok by linarith
    qed
    have "ordered_ok ?s" unfolding ordered_ok_def w using ok lt le entries by simp
    then show ?thesis using True le w by (simp add: oe_compactify_def Let_def)
  qed
qed

text \<open>What adding an event does.\<close>

lemma add_later:
  assumes "ordered_ok s" "seq > oe_begin s"
  shows "\<exists>s'. oe_add seq x s = Some ([], s') \<and> ordered_ok s' \<and> oe_begin s' = oe_begin s \<and>
    oe_end s' = max (oe_end s) (seq + 1) \<and> waiting s' = (waiting s)(seq \<mapsto> x)"
proof -
  note ok = assms(1) [unfolded ordered_ok_def]
  let ?pos = "seq - oe_offset s"
  let ?data = "oe_data s @ replicate (?pos + 1 - length (oe_data s)) None"
  let ?s = "s\<lparr>oe_data := ?data[?pos := Some x], oe_end := (if oe_end s < seq + 1 then seq + 1 else oe_end s)\<rparr>"
  have len: "?pos < length ?data" by simp
  have old: "?data ! n = (if n < length (oe_data s) then oe_data s ! n else None)" if "n < length ?data" for n
    using that by (auto simp: nth_append)
  have w: "waiting ?s n = ((waiting s)(seq \<mapsto> x)) n" for n
  proof (cases "n = seq")
    case True
    then show ?thesis using assms(2) len by (simp add: waiting_def)
  next
    case False
    show ?thesis
    proof (cases "oe_begin s \<le> n")
      case True
      then have "n - oe_offset s \<noteq> ?pos" using False assms(2) ok by auto
      then show ?thesis using False True old [of "n - oe_offset s"] by (auto simp: waiting_def)
    qed (use False in \<open>simp add: waiting_def\<close>)
  qed
  have entries: "oe_begin s \<le> oe_offset s + n \<and> oe_offset s + n < oe_end ?s"
    if "n < length (?data[?pos := Some x])" "?data[?pos := Some x] ! n \<noteq> None" for n
  proof (cases "n = ?pos")
    case True
    then show ?thesis using assms(2) ok by auto
  next
    case False
    then have "n < length (oe_data s)" "oe_data s ! n \<noteq> None" using that old [of n] by (auto split: if_splits)
    then show ?thesis using ok by fastforce
  qed
  have end_w: "waiting ?s (oe_end ?s - 1) \<noteq> None"
  proof (cases "oe_end s < seq + 1")
    case True
    then show ?thesis unfolding w by simp
  next
    case False
    then have "oe_begin s < oe_end s" using assms(2) by simp
    then show ?thesis unfolding w using ok False by simp
  qed
  have first: "waiting ?s (oe_begin ?s) = None" unfolding w using assms(2) ok by simp
  have size: "oe_end ?s \<le> oe_offset s + length (?data[?pos := Some x])"
  proof (cases "oe_end s < seq + 1")
    case True
    then show ?thesis using ok assms(2) by simp
  next
    case False
    then have "oe_end s \<le> oe_offset s + length (oe_data s)" using ok assms(2) by auto
    then show ?thesis using False by simp
  qed
  have "ordered_ok ?s" unfolding ordered_ok_def using ok assms(2) size entries end_w first by simp
  moreover have "oe_add seq x s = Some ([], ?s)" using assms(2) by (simp add: oe_add_def Let_def)
  ultimately show ?thesis using w by (auto simp: fun_eq_iff)
qed

lemma add_next:
  assumes "ordered_ok s"
  shows "\<exists>calls s'. oe_add (oe_begin s) x s = Some ((oe_begin s, x) # calls, s') \<and> ordered_ok s' \<and> oe_begin s < oe_begin s' \<and>
    oe_end s' = max (oe_end s) (oe_begin s + 1) \<and> map fst calls = [oe_begin s + 1..<oe_begin s'] \<and>
    (\<forall>(n, y) \<in> set calls. waiting s n = Some y) \<and> (\<forall>n \<ge> oe_begin s'. waiting s' n = waiting s n)"
proof -
  note ok = assms [unfolded ordered_ok_def]
  let ?b = "oe_begin s"
  let ?s = "s\<lparr>oe_begin := ?b + 1\<rparr>"
  have w: "waiting ?s n = waiting s n" if "?b + 1 \<le> n" for n using that by (simp add: waiting_def)
  show ?thesis
  proof (cases "?b < oe_end s")
    case False
    then have eq: "oe_end s = ?b" "oe_offset s = ?b" using ok by simp_all
    have none: "oe_data s ! n = None" if "n < length (oe_data s)" for n using that ok eq by fastforce
    have run: "run_ready ?s = Some ([], ?s)" using eq by (subst run_ready.simps) simp
    let ?t = "s\<lparr>oe_begin := ?b + 1, oe_end := ?b + 1, oe_offset := ?b + 1\<rparr>"
    have "waiting ?t n = None" "waiting s n = None" for n using none eq by (auto simp: waiting_def)
    moreover have "ordered_ok ?t" using none calculation by (simp add: ordered_ok_def)
    moreover obtain s' where "oe_compactify ?t = Some s'" "ordered_ok s'" "oe_begin s' = ?b + 1" "oe_end s' = ?b + 1"
      "waiting s' = waiting ?t" using compactify_correct [OF calculation(3)] by auto
    ultimately show ?thesis using eq run by (simp add: oe_add_def Let_def)
  next
    case True
    then have lt: "?b + 1 < oe_end s" using ok by (metis Suc_eq_plus1 Suc_lessI diff_Suc_1)
    have run_ok: "running_ok ?s"
    proof -
      have entries: "?b + 1 \<le> oe_offset s + n \<and> oe_offset s + n < oe_end s" if "n < length (oe_data s)" "oe_data s ! n \<noteq> None" for n
      proof -
        have n: "?b \<le> oe_offset s + n \<and> oe_offset s + n < oe_end s" using that ok by blast
        have "oe_offset s + n \<noteq> ?b"
        proof
          assume "oe_offset s + n = ?b"
          then have "n = ?b - oe_offset s" by simp
          then show False using that ok by (auto simp: waiting_def split: if_splits)
        qed
        then show ?thesis using n by simp
      qed
      have "waiting ?s (oe_end s - 1) \<noteq> None" using w [of "oe_end s - 1"] lt ok True by auto
      then show ?thesis using ok lt True entries by (simp add: running_ok_def)
    qed
    obtain calls s1 where r: "run_ready ?s = Some (calls, s1)" "running_ok s1" "waiting s1 (oe_begin s1) = None"
      "oe_offset s1 = oe_offset s" "oe_end s1 = oe_end s" "?b + 1 \<le> oe_begin s1"
      "map fst calls = [?b + 1..<oe_begin s1]" "\<forall>(n, y) \<in> set calls. waiting ?s n = Some y"
      "\<forall>n \<ge> oe_begin s1. waiting s1 n = waiting ?s n" using run_ready_correct [OF run_ok] by auto
    let ?t = "if oe_begin s1 = oe_end s1 then s1\<lparr>oe_offset := oe_begin s1\<rparr> else s1"
    have le: "oe_begin s1 \<le> oe_end s1" using r(2) by (simp add: running_ok_def)
    have t: "ordered_ok ?t \<and> waiting ?t = waiting s1"
    proof (cases "oe_begin s1 = oe_end s1")
      case False
      then show ?thesis using running_ordered [OF r(2,3)] by simp
    next
      case eq: True
      have none: "oe_data s1 ! n = None" if "n < length (oe_data s1)" for n
        using that r(2) eq unfolding running_ok_def by fastforce
      then have "waiting ?t = waiting s1" using eq by (auto simp: waiting_def fun_eq_iff)
      moreover have "ordered_ok ?t" using eq none by (auto simp: ordered_ok_def waiting_def)
      ultimately show ?thesis by simp
    qed
    obtain s' where s': "oe_compactify ?t = Some s'" "ordered_ok s'" "oe_begin s' = oe_begin ?t" "oe_end s' = oe_end ?t"
      "waiting s' = waiting ?t" using compactify_correct t by blast
    have f: "oe_begin s' = oe_begin s1" "oe_end s' = oe_end s" "waiting s' = waiting s1" using s' t r(5) by simp_all
    have add: "oe_add ?b x s = Some ((?b, x) # calls, s')"
      using r(1) le s'(1) by (cases "oe_begin s1 = oe_end s1") (simp_all add: oe_add_def Let_def)
    have "?b + 1 \<le> n" if "(n, y) \<in> set calls" for n y
    proof -
      have "n \<in> set (map fst calls)" using that by force
      then show ?thesis unfolding r(7) by simp
    qed
    then have c: "\<forall>(n, y) \<in> set calls. waiting s n = Some y" using r(8) w by fastforce
    have "\<forall>n \<ge> oe_begin s'. waiting s' n = waiting s n" using f r(6,9) w by simp
    then show ?thesis using add s'(2) f r(6,7) c lt by auto
  qed
qed

text \<open>\<open>A\<close> holds all events that were added; those up to the first missing one have been handed on.\<close>

definition delivers :: "nat \<Rightarrow> (nat \<rightharpoonup> 'a) \<Rightarrow> 'a ordered_events \<Rightarrow> bool" where
  "delivers start A s \<longleftrightarrow> ordered_ok s \<and> start \<le> oe_begin s \<and> (\<forall>n. start \<le> n \<and> n < oe_begin s \<longrightarrow> A n \<noteq> None) \<and>
     (\<forall>n \<ge> oe_begin s. waiting s n = A n)"

lemma delivers_new: "delivers start Map.empty (new_ordered start)"
  by (auto simp: delivers_def ordered_ok_def new_ordered_def waiting_def)

lemma delivers_missing: "delivers start A s \<Longrightarrow> A (oe_begin s) = None"
  by (metis delivers_def order_refl ordered_ok_def)

lemma add_delivers:
  assumes "delivers start A s" "start \<le> n" "A n = None"
  shows "\<exists>calls s'. oe_add n x s = Some (calls, s') \<and> delivers start (A(n \<mapsto> x)) s' \<and> oe_begin s \<le> oe_begin s' \<and>
    oe_end s' = max (oe_end s) (n + 1) \<and> calls = map (\<lambda>m. (m, the ((A(n \<mapsto> x)) m))) [oe_begin s..<oe_begin s']"
proof -
  note d = assms(1) [unfolded delivers_def]
  have ok: "ordered_ok s" using d by simp
  have le: "oe_begin s \<le> n" using d assms(2,3) not_le by blast
  show ?thesis
  proof (cases "n = oe_begin s")
    case False
    then obtain s' where s': "oe_add n x s = Some ([], s')" "ordered_ok s'" "oe_begin s' = oe_begin s"
      "oe_end s' = max (oe_end s) (n + 1)" "waiting s' = (waiting s)(n \<mapsto> x)" using add_later [OF ok, of n x] le by auto
    then show ?thesis using d by (auto simp: delivers_def)
  next
    case True
    obtain calls s' where s': "oe_add (oe_begin s) x s = Some ((oe_begin s, x) # calls, s')" "ordered_ok s'"
      "oe_begin s < oe_begin s'" "oe_end s' = max (oe_end s) (oe_begin s + 1)" "map fst calls = [oe_begin s + 1..<oe_begin s']"
      "\<forall>(n, y) \<in> set calls. waiting s n = Some y" "\<forall>n \<ge> oe_begin s'. waiting s' n = waiting s n"
      using add_next [OF ok, of x] by blast
    let ?A = "A(n \<mapsto> x)"
    have elem: "?A m = Some y \<and> oe_begin s + 1 \<le> m \<and> m < oe_begin s'" if "(m, y) \<in> set calls" for m y
    proof -
      have "m \<in> set (map fst calls)" using that by force
      then have m: "oe_begin s + 1 \<le> m" "m < oe_begin s'" unfolding s'(5) by simp_all
      moreover have "waiting s m = Some y" using s'(6) that by blast
      ultimately show ?thesis using d True by auto
    qed
    have "map (\<lambda>m. (m, the (?A m))) (map fst calls) = map (\<lambda>c. (fst c, the (?A (fst c)))) calls" by simp
    also have "\<dots> = calls"
    proof (rule map_idI)
      fix c
      assume "c \<in> set calls"
      then have "?A (fst c) = Some (snd c)" using elem [of "fst c" "snd c"] by simp
      then show "(fst c, the (?A (fst c))) = c" by simp
    qed
    finally have "calls = map (\<lambda>m. (m, the (?A m))) (map fst calls)" by (rule sym)
    then have "(oe_begin s, x) # calls = map (\<lambda>m. (m, the (?A m))) [oe_begin s..<oe_begin s']"
      using s'(3) True unfolding s'(5) by (simp add: upt_conv_Cons)
    moreover have "?A m \<noteq> None" if m: "start \<le> m" "m < oe_begin s'" for m
    proof (cases "m \<le> oe_begin s")
      case False
      then have "m \<in> set (map fst calls)" unfolding s'(5) using m by simp
      then show ?thesis using elem by fastforce
    qed (use d m True in auto)
    then have "delivers start ?A s'" using d s'(2,3,7) True by (auto simp: delivers_def)
    ultimately show ?thesis using s'(1,3,4) True by auto
  qed
qed

lemma add_twice_fails: "n < oe_begin s \<Longrightarrow> oe_add n x s = None"
  by (simp add: oe_add_def)

fun oe_adds :: "(nat \<times> 'a) list \<Rightarrow> 'a ordered_events \<Rightarrow> ((nat \<times> 'a) list \<times> 'a ordered_events) option" where
  "oe_adds [] s = Some ([], s)"
| "oe_adds ((n, x) # evs) s =
     do { (calls, s) \<leftarrow> oe_add n x s; (more_calls, s) \<leftarrow> oe_adds evs s; Some (calls @ more_calls, s) }"

lemma map_add_map_of_Cons: "map_of xs n = None \<Longrightarrow> A ++ map_of ((n, x) # xs) = A(n \<mapsto> x) ++ map_of xs"
  by (auto simp: map_add_def fun_eq_iff split: option.split)

lemma upt_split: "a \<le> b \<Longrightarrow> b \<le> c \<Longrightarrow> [a..<b] @ [b..<c] = [a..<c]" for a b c :: nat
  using upt_add_eq_append [of a b "c - b"] by simp

lemma adds_deliver:
  assumes "delivers start A s" "distinct (map fst evs)" "\<And>n. n \<in> fst ` set evs \<Longrightarrow> start \<le> n \<and> A n = None"
  shows "\<exists>calls s'. oe_adds evs s = Some (calls, s') \<and> delivers start (A ++ map_of evs) s' \<and> oe_begin s \<le> oe_begin s' \<and>
    calls = map (\<lambda>m. (m, the ((A ++ map_of evs) m))) [oe_begin s..<oe_begin s']"
  using assms
proof (induction evs arbitrary: A s)
  case Nil
  then show ?case by simp
next
  case (Cons ev evs)
  obtain n x where ev: "ev = (n, x)" by (cases ev)
  have n: "start \<le> n" "A n = None" "n \<notin> fst ` set evs" using Cons.prems(2,3) [unfolded ev] by auto
  obtain calls s1 where s1: "oe_add n x s = Some (calls, s1)" "delivers start (A(n \<mapsto> x)) s1" "oe_begin s \<le> oe_begin s1"
    "calls = map (\<lambda>m. (m, the ((A(n \<mapsto> x)) m))) [oe_begin s..<oe_begin s1]"
    using add_delivers [OF Cons.prems(1) n(1,2)] by blast
  have "start \<le> m \<and> (A(n \<mapsto> x)) m = None" if m: "m \<in> fst ` set evs" for m
  proof -
    have "m \<noteq> n" using m n(3) by blast
    then show ?thesis using Cons.prems(3) [of m] m by auto
  qed
  moreover have evs_distinct: "distinct (map fst evs)" using Cons.prems(2) by simp
  ultimately obtain calls' s' where s': "oe_adds evs s1 = Some (calls', s')" "delivers start (A(n \<mapsto> x) ++ map_of evs) s'"
    "oe_begin s1 \<le> oe_begin s'" "calls' = map (\<lambda>m. (m, the ((A(n \<mapsto> x) ++ map_of evs) m))) [oe_begin s1..<oe_begin s']"
    using Cons.IH [OF s1(2) evs_distinct] by blast
  have none: "map_of evs n = None" using n(3) by (simp add: map_of_eq_None_iff)
  have eq: "A ++ map_of (ev # evs) = A(n \<mapsto> x) ++ map_of evs" unfolding ev by (rule map_add_map_of_Cons [OF none])
  have "calls = map (\<lambda>m. (m, the ((A(n \<mapsto> x) ++ map_of evs) m))) [oe_begin s..<oe_begin s1]"
  proof -
    have "(A(n \<mapsto> x) ++ map_of evs) m = (A(n \<mapsto> x)) m" if "m < oe_begin s1" "oe_begin s \<le> m" for m
    proof (cases "map_of evs m")
      case (Some y)
      then have "m \<in> fst ` set evs" by (metis domI dom_map_of_conv_image_fst)
      then have m: "start \<le> m" "(A(n \<mapsto> x)) m = None" using Cons.prems(3) [of m] n(3) by auto
      have "(A(n \<mapsto> x)) m \<noteq> None" using s1(2) that(1) m(1) unfolding delivers_def by blast
      then show ?thesis using m(2) by blast
    qed (simp add: map_add_def)
    then show ?thesis unfolding s1(4) by simp
  qed
  then have all: "calls @ calls' = map (\<lambda>m. (m, the ((A ++ map_of (ev # evs)) m))) [oe_begin s..<oe_begin s']"
    unfolding eq s'(4) by (simp only: map_append [symmetric] upt_split [OF s1(3) s'(3)])
  have "oe_adds (ev # evs) s = Some (calls @ calls', s')" using s1(1) s'(1) ev by simp
  moreover have "oe_begin s \<le> oe_begin s'" using s1(3) s'(3) by simp
  moreover have "delivers start (A ++ map_of (ev # evs)) s'" unfolding eq by (rule s'(2))
  ultimately show ?case using all by blast
qed

text \<open>C17: Events with different numbers, added in any order, are handed on in the order of their numbers, each once and with its
  data, up to the first number that was not added; no check fails and no place outside of the array is read.\<close>

theorem ordered_events_exact:
  assumes "distinct (map fst evs)" "\<forall>n \<in> fst ` set evs. start \<le> n"
  shows "\<exists>s. oe_adds evs (new_ordered start) = Some (map (\<lambda>n. (n, the (map_of evs n))) [start..<oe_begin s], s) \<and>
    oe_begin s = (LEAST n. start \<le> n \<and> n \<notin> fst ` set evs)"
proof -
  obtain calls s where s: "oe_adds evs (new_ordered start) = Some (calls, s)" "delivers start (Map.empty ++ map_of evs) s"
    "calls = map (\<lambda>m. (m, the ((Map.empty ++ map_of evs) m))) [oe_begin (new_ordered start :: 'a ordered_events)..<oe_begin s]"
    using adds_deliver [OF delivers_new assms(1), of start] assms(2) by auto
  have "start \<le> oe_begin s" using s(2) by (simp add: delivers_def)
  moreover have "oe_begin s \<notin> fst ` set evs" using delivers_missing [OF s(2)] by (simp add: map_of_eq_None_iff)
  moreover have "n \<in> fst ` set evs" if "start \<le> n" "n < oe_begin s" for n
    using s(2) that by (auto simp: delivers_def map_of_eq_None_iff)
  ultimately have "(LEAST n. start \<le> n \<and> n \<notin> fst ` set evs) = oe_begin s"
    by (intro Least_equality) (auto simp: not_le [symmetric])
  then show ?thesis using s(1,3) by (simp add: new_ordered_def)
qed

lemma ordered_events_exact_witness:
  "\<exists>s. oe_adds [(7, ''c''), (5, ''a''), (9, ''e''), (6, ''b'')] (new_ordered 5) =
     Some ([(5, ''a''), (6, ''b''), (7, ''c'')], s)"
proof -
  have "(LEAST n. 5 \<le> n \<and> n \<notin> {7, 5, 9, 6}) = (8 :: nat)"
    by (rule Least_equality) (auto simp: not_le [symmetric] eval_nat_numeral)
  then show ?thesis
    using ordered_events_exact [of "[(7, ''c''), (5, ''a''), (9, ''e''), (6, ''b'')]" 5]
    by (auto simp: upt_rec_numeral)
qed

section \<open>Changes in the order of their numbers\<close>

subsection \<open>The code\<close>

text \<open>Identifiers and offsets have 64 bits; their difference wraps around.\<close>

record 'a changes =
  cp_offset :: nat
  cp_ready :: nat
  cp_data :: "('a \<times> bool) list"

definition new_changes :: "'a changes" where
  "new_changes = \<lparr>cp_offset = 1, cp_ready = 0, cp_data = []\<rparr>"

definition cp_clear :: "'a changes \<Rightarrow> 'a changes" where
  "cp_clear s = s\<lparr>cp_offset := cp_offset s + length (cp_data s), cp_ready := 0, cp_data := []\<rparr>"

definition cp_add :: "'a \<Rightarrow> 'a changes \<Rightarrow> nat \<times> 'a changes" where
  "cp_add x s = (cp_offset s + length (cp_data s), s\<lparr>cp_data := cp_data s @ [(x, False)]\<rparr>)"

function run_finished :: "'a changes \<Rightarrow> 'a list \<times> 'a changes" where
  "run_finished s =
     (if cp_ready s < length (cp_data s) \<and> snd (cp_data s ! cp_ready s)
      then let (calls, s') = run_finished (s\<lparr>cp_ready := cp_ready s + 1\<rparr>) in (fst (cp_data s ! cp_ready s) # calls, s')
      else ([], s))"
  by pat_completeness auto
termination
  by (relation "measure (\<lambda>s. length (cp_data s) - cp_ready s)") auto

declare run_finished.simps [simp del]

definition cp_compactify :: "'a changes \<Rightarrow> 'a changes" where
  "cp_compactify s =
     (if cp_ready s > 5 \<and> cp_ready s * 2 > length (cp_data s)
      then s\<lparr>cp_data := drop (cp_ready s) (cp_data s), cp_offset := cp_offset s + cp_ready s, cp_ready := 0\<rparr>
      else s)"

definition cp_finish :: "nat \<Rightarrow> 'a changes \<Rightarrow> 'a list \<times> 'a changes" where
  "cp_finish token s =
     (let pos = (token + 2 ^ 64 - cp_offset s) mod 2 ^ 64 in
      if pos \<ge> length (cp_data s) then ([], s)
      else let s = s\<lparr>cp_data := (cp_data s)[pos := (fst (cp_data s ! pos), True)]\<rparr>;
               (calls, s) = run_finished s in
           (calls, cp_compactify s))"

record pts_manager =
  pts_db :: int
  pts_mem :: int
  pts_helper :: "int changes"

definition new_pts :: pts_manager where
  "new_pts = \<lparr>pts_db = -1, pts_mem = -1, pts_helper = new_changes\<rparr>"

definition pts_init :: "int \<Rightarrow> pts_manager \<Rightarrow> pts_manager" where
  "pts_init pts s = s\<lparr>pts_db := pts, pts_mem := pts, pts_helper := cp_clear (pts_helper s)\<rparr>"

definition add_pts :: "int \<Rightarrow> pts_manager \<Rightarrow> nat \<times> pts_manager" where
  "add_pts pts s =
     (let s = (if pts > 0 then s\<lparr>pts_mem := pts\<rparr> else s);
          (i, h) = cp_add pts (pts_helper s) in
      (i, s\<lparr>pts_helper := h\<rparr>))"

definition last_pts :: "int \<Rightarrow> int list \<Rightarrow> int" where
  "last_pts db calls = foldl (\<lambda>db pts. if pts \<noteq> 0 then pts else db) db calls"

definition pts_finish :: "nat \<Rightarrow> pts_manager \<Rightarrow> int \<times> pts_manager" where
  "pts_finish pts_id s =
     (let (calls, h) = cp_finish pts_id (pts_helper s); db = last_pts (pts_db s) calls in
      (db, s\<lparr>pts_db := db, pts_helper := h\<rparr>))"

subsection \<open>What is finished\<close>

text \<open>\<open>L\<close> holds all changes since the last \<open>clear\<close>, the first with the identifier \<open>base\<close>.\<close>

definition changes_ok :: "nat \<Rightarrow> ('a \<times> bool) list \<Rightarrow> 'a changes \<Rightarrow> bool" where
  "changes_ok base L s \<longleftrightarrow> (\<exists>k. k \<le> length (takeWhile snd L) \<and> cp_offset s = base + k \<and> cp_data s = drop k L \<and>
     cp_ready s = length (takeWhile snd L) - k)"

lemma changes_new: "changes_ok 1 [] new_changes"
  by (simp add: changes_ok_def new_changes_def)

lemma clear_correct: "changes_ok base L s \<Longrightarrow> changes_ok (base + length L) [] (cp_clear s)"
  by (auto simp: changes_ok_def cp_clear_def dest: le_trans [OF _ length_takeWhile_le])

lemma takeWhile_unfinished: "takeWhile snd (L @ [(x, False)]) = takeWhile snd L"
  by (induction L) auto

lemma add_change_correct:
  assumes "changes_ok base L s"
  shows "fst (cp_add x s) = base + length L" "changes_ok base (L @ [(x, False)]) (snd (cp_add x s))"
proof -
  obtain k where k: "k \<le> length (takeWhile snd L)" "cp_offset s = base + k" "cp_data s = drop k L"
    "cp_ready s = length (takeWhile snd L) - k" using assms by (auto simp: changes_ok_def)
  have le: "k \<le> length L" using k(1) length_takeWhile_le [of snd L] by (rule le_trans)
  show "fst (cp_add x s) = base + length L" using k le by (simp add: cp_add_def)
  show "changes_ok base (L @ [(x, False)]) (snd (cp_add x s))"
    using k le unfolding changes_ok_def cp_add_def takeWhile_unfinished by (intro exI [of _ k]) simp
qed

lemma run_finished_eq:
  "run_finished s = (map fst (takeWhile snd (drop (cp_ready s) (cp_data s))),
     s\<lparr>cp_ready := cp_ready s + length (takeWhile snd (drop (cp_ready s) (cp_data s)))\<rparr>)"
proof (induction s rule: run_finished.induct)
  case (1 s)
  show ?case
  proof (cases "cp_ready s < length (cp_data s) \<and> snd (cp_data s ! cp_ready s)")
    case True
    have "drop (cp_ready s) (cp_data s) = cp_data s ! cp_ready s # drop (cp_ready s + 1) (cp_data s)"
      using True Cons_nth_drop_Suc [of "cp_ready s" "cp_data s"] by simp
    then show ?thesis using True "1.IH" by (subst run_finished.simps) simp
  next
    case False
    have "takeWhile snd (drop (cp_ready s) (cp_data s)) = []"
    proof (cases "cp_ready s < length (cp_data s)")
      case True
      have "drop (cp_ready s) (cp_data s) = cp_data s ! cp_ready s # drop (cp_ready s + 1) (cp_data s)"
        using True Cons_nth_drop_Suc [of "cp_ready s" "cp_data s"] by simp
      then show ?thesis using True False by simp
    qed simp
    then show ?thesis using False by (subst run_finished.simps) auto
  qed
qed

text \<open>Finishing the change with a number; other numbers, as those from before a \<open>clear\<close>, do nothing.\<close>

definition finish_change :: "nat \<Rightarrow> nat \<Rightarrow> ('a \<times> bool) list \<Rightarrow> ('a \<times> bool) list" where
  "finish_change base token L = (if base \<le> token \<and> token < base + length L
     then L[token - base := (fst (L ! (token - base)), True)] else L)"

lemma takeWhile_update:
  "i < length L \<Longrightarrow> length (takeWhile snd L) \<le> length (takeWhile snd (L[i := (x, True)]))"
proof (induction L arbitrary: i)
  case (Cons a L)
  then show ?case by (cases i) auto
qed simp

lemma wrap_minus: "b \<le> a \<Longrightarrow> a < M \<Longrightarrow> (a + M - b) mod M = a - b" "a < b \<Longrightarrow> b \<le> M \<Longrightarrow> (a + M - b) mod M = a + M - b"
  for a b M :: nat
proof -
  assume a: "b \<le> a" "a < M"
  have eq: "a + M - b = (a - b) + M" and lt: "a - b < M" using a by linarith+
  have "(a + M - b) mod M = (a - b) mod M" by (simp only: eq mod_add_self2)
  then show "(a + M - b) mod M = a - b" using lt by (simp only: mod_less)
next
  assume "a < b" "b \<le> M"
  then have "a + M - b < M" by linarith
  then show "(a + M - b) mod M = a + M - b" by simp
qed

lemma takeWhile_drop_prefix: "k \<le> length (takeWhile P L) \<Longrightarrow> takeWhile P (drop k L) = drop k (takeWhile P L)"
proof (induction L arbitrary: k)
  case (Cons a L)
  then show ?case by (cases k) (auto split: if_splits)
qed simp

lemma finish_correct:
  assumes "changes_ok base L s" "token < 2 ^ 64" "base + length L \<le> 2 ^ 64"
  shows "changes_ok base (finish_change base token L) (snd (cp_finish token s))"
    "fst (cp_finish token s) = map fst (drop (length (takeWhile snd L)) (takeWhile snd (finish_change base token L)))"
proof -
  obtain k where k: "k \<le> length (takeWhile snd L)" "cp_offset s = base + k" "cp_data s = drop k L"
    "cp_ready s = length (takeWhile snd L) - k" using assms(1) by (auto simp: changes_ok_def)
  have le: "k \<le> length L" using k(1) length_takeWhile_le [of snd L] by (rule le_trans)
  let ?pos = "(token + 2 ^ 64 - cp_offset s) mod 2 ^ 64"
  let ?L = "finish_change base token L"
  let ?w = "length (takeWhile snd L)"
  have eq: "?pos = token - (base + k)" if "base + k \<le> token" unfolding k(2) by (rule wrap_minus(1) [OF that assms(2)])
  have pos: "?pos < length (cp_data s) \<longleftrightarrow> base + k \<le> token \<and> token < base + length L"
  proof (cases "base + k \<le> token")
    case True
    then show ?thesis unfolding eq [OF True] k(3) using le by auto
  next
    case False
    then have lt: "token < base + k" by simp
    have "base + k \<le> 2 ^ 64" using assms(3) le by linarith
    then have "?pos = token + 2 ^ 64 - (base + k)" unfolding k(2) by (rule wrap_minus(2) [OF lt])
    moreover have "length L - k \<le> token + 2 ^ 64 - (base + k)" using assms(3) le by linarith
    ultimately show ?thesis using False k(3) by simp
  qed
  show "changes_ok base ?L (snd (cp_finish token s))"
    "fst (cp_finish token s) = map fst (drop ?w (takeWhile snd ?L))"
  proof -
    have "changes_ok base ?L (snd (cp_finish token s)) \<and> fst (cp_finish token s) = map fst (drop ?w (takeWhile snd ?L))"
    proof (cases "?pos < length (cp_data s)")
      case False
      have "?L = L"
      proof (cases "base \<le> token \<and> token < base + k")
        case True
        then have i: "token - base < ?w" using k(1) by linarith
        then have "snd (L ! (token - base))" by (metis nth_mem set_takeWhileD takeWhile_nth)
        then have "L[token - base := (fst (L ! (token - base)), True)] = L" by (metis list_update_id prod.collapse)
        then show ?thesis by (simp add: finish_change_def)
      next
        case no: False
        then show ?thesis using False unfolding pos finish_change_def by auto
      qed
      then show ?thesis using False assms(1) by (simp add: cp_finish_def)
    next
      case True
      then have t: "base + k \<le> token" "token < base + length L" "?pos = token - (base + k)" using pos eq by blast+
      let ?i = "token - base"
      have i: "?i < length L" "?i - k = ?pos" "k \<le> ?i" using t by simp_all
      have L: "?L = L[?i := (fst (L ! ?i), True)]" using t by (simp add: finish_change_def)
      have data: "(cp_data s)[?pos := (fst (cp_data s ! ?pos), True)] = drop k ?L"
      proof -
        have kp: "k + ?pos = ?i" using i by linarith
        have "drop k L ! ?pos = L ! ?i" unfolding kp [symmetric] by (rule nth_drop [OF le])
        moreover have "drop k ?L = (drop k L)[?pos := (fst (L ! ?i), True)]"
          unfolding L i(2) [symmetric] by (rule drop_update_swap [OF i(3)])
        ultimately show ?thesis unfolding k(3) by simp
      qed
      let ?s = "s\<lparr>cp_data := drop k ?L\<rparr>"
      let ?w' = "length (takeWhile snd ?L)"
      have w: "?w \<le> ?w'" unfolding L by (rule takeWhile_update [OF i(1)])
      have tw: "takeWhile snd (drop (cp_ready s) (drop k ?L)) = drop ?w (takeWhile snd ?L)"
        using takeWhile_drop_prefix [OF w] k(1,4) by simp
      have run: "run_finished ?s = (map fst (drop ?w (takeWhile snd ?L)), ?s\<lparr>cp_ready := ?w' - k\<rparr>)"
        using run_finished_eq [of ?s] tw k(1,4) w by simp
      have fin: "cp_finish token s = (map fst (drop ?w (takeWhile snd ?L)), cp_compactify (?s\<lparr>cp_ready := ?w' - k\<rparr>))"
        using True data run by (simp add: cp_finish_def Let_def)
      have "changes_ok base ?L (cp_compactify (?s\<lparr>cp_ready := ?w' - k\<rparr>))"
      proof (cases "?w' - k > 5 \<and> (?w' - k) * 2 > length (drop k ?L)")
        case True
        then show ?thesis using k(2) k(1) w unfolding changes_ok_def cp_compactify_def by (intro exI [of _ ?w']) simp
      next
        case False
        then show ?thesis using k(1,2) w unfolding changes_ok_def cp_compactify_def by (intro exI [of _ k]) auto
      qed
      then show ?thesis using fin by simp
    qed
    then show "changes_ok base ?L (snd (cp_finish token s))"
      "fst (cp_finish token s) = map fst (drop ?w (takeWhile snd ?L))" by simp_all
  qed
qed

subsection \<open>The stored state\<close>

text \<open>
  The reference: all changes since the last initialisation are kept, and the stored state is that of the last checkpoint
  before the first change that is not finished.
\<close>

datatype pts_action = Init int | Add_pts int | Finish nat

record pts_log =
  log_start :: int
  log_base :: nat
  log_changes :: "(int \<times> bool) list"

definition log_pts :: "pts_log \<Rightarrow> int" where
  "log_pts l = last_pts (log_start l) (map fst (takeWhile snd (log_changes l)))"

fun log_call :: "pts_action \<Rightarrow> pts_log \<Rightarrow> int \<times> pts_log" where
  "log_call (Init pts) l = (pts, \<lparr>log_start = pts, log_base = log_base l + length (log_changes l), log_changes = []\<rparr>)"
| "log_call (Add_pts pts) l = (int (log_base l + length (log_changes l)), l\<lparr>log_changes := log_changes l @ [(pts, False)]\<rparr>)"
| "log_call (Finish i) l =
     (let l = l\<lparr>log_changes := finish_change (log_base l) i (log_changes l)\<rparr> in (log_pts l, l))"

fun pts_call :: "pts_action \<Rightarrow> pts_manager \<Rightarrow> int \<times> pts_manager" where
  "pts_call (Init pts) s = (pts, pts_init pts s)"
| "pts_call (Add_pts pts) s = (let (i, s) = add_pts pts s in (int i, s))"
| "pts_call (Finish i) s = pts_finish i s"

fun all_calls :: "('c \<Rightarrow> 's \<Rightarrow> 'r \<times> 's) \<Rightarrow> 'c list \<Rightarrow> 's \<Rightarrow> 'r list \<times> 's" where
  "all_calls f [] s = ([], s)"
| "all_calls f (x # xs) s = (let (r, s) = f x s; (rs, s) = all_calls f xs s in (r # rs, s))"

definition pts_ok :: "pts_log \<Rightarrow> pts_manager \<Rightarrow> bool" where
  "pts_ok l s \<longleftrightarrow> changes_ok (log_base l) (log_changes l) (pts_helper s) \<and> pts_db s = log_pts l"

lemma last_pts_append: "last_pts db (xs @ ys) = last_pts (last_pts db xs) ys"
  by (simp add: last_pts_def)

lemma takeWhile_prefix:
  assumes "length (takeWhile snd L) \<le> length (takeWhile snd (finish_change base i L))"
  shows "map fst (takeWhile snd (finish_change base i L)) =
    map fst (takeWhile snd L) @ map fst (drop (length (takeWhile snd L)) (takeWhile snd (finish_change base i L)))"
proof -
  let ?w = "length (takeWhile snd L)" and ?L = "finish_change base i L"
  have fsts: "map fst ?L = map fst L"
    by (rule nth_equalityI) (auto simp: finish_change_def nth_list_update)
  have "map fst (take ?w (takeWhile snd ?L)) = take ?w (map fst ?L)"
    using assms by (metis take_map takeWhile_eq_take take_take min_absorb1)
  also have "\<dots> = map fst (takeWhile snd L)" unfolding fsts by (metis take_map takeWhile_eq_take)
  finally show ?thesis by (metis append_take_drop_id map_append)
qed

lemma finish_takeWhile: "length (takeWhile snd L) \<le> length (takeWhile snd (finish_change base i L))"
  using takeWhile_update [of "i - base" L] by (auto simp: finish_change_def)

lemma pts_call_correct:
  assumes "pts_ok l s" "log_base l + length (log_changes l) < 2 ^ 64" "\<forall>i. x = Finish i \<longrightarrow> i < 2 ^ 64"
  shows "fst (pts_call x s) = fst (log_call x l)" "pts_ok (snd (log_call x l)) (snd (pts_call x s))"
proof -
  have ok: "changes_ok (log_base l) (log_changes l) (pts_helper s)" "pts_db s = log_pts l" using assms(1) by (simp_all add: pts_ok_def)
  have "fst (pts_call x s) = fst (log_call x l) \<and> pts_ok (snd (log_call x l)) (snd (pts_call x s))"
  proof (cases x)
    case (Init pts)
    then show ?thesis using clear_correct [OF ok(1)] by (simp add: pts_init_def pts_ok_def log_pts_def last_pts_def)
  next
    case (Add_pts pts)
    show ?thesis using Add_pts add_change_correct [OF ok(1), of pts] ok(2)
      by (auto simp: add_pts_def pts_ok_def log_pts_def takeWhile_unfinished Let_def split: prod.splits)
  next
    case (Finish i)
    let ?L = "finish_change (log_base l) i (log_changes l)"
    have fin: "changes_ok (log_base l) ?L (snd (cp_finish i (pts_helper s)))"
      "fst (cp_finish i (pts_helper s)) = map fst (drop (length (takeWhile snd (log_changes l))) (takeWhile snd ?L))"
      using finish_correct [OF ok(1), of i] assms(2,3) Finish by simp_all
    have "log_pts (l\<lparr>log_changes := ?L\<rparr>) = last_pts (pts_db s) (fst (cp_finish i (pts_helper s)))"
      unfolding ok(2) log_pts_def fin(2) last_pts_append [symmetric]
      using takeWhile_prefix [where L = "log_changes l" and base = "log_base l" and i = i, OF finish_takeWhile] by simp
    then show ?thesis using Finish fin(1)
      by (auto simp: pts_finish_def pts_ok_def Let_def split: prod.splits)
  qed
  then show "fst (pts_call x s) = fst (log_call x l)" "pts_ok (snd (log_call x l)) (snd (pts_call x s))" by simp_all
qed

lemma log_call_length:
  "log_base (snd (log_call x l)) + length (log_changes (snd (log_call x l))) \<le> Suc (log_base l + length (log_changes l))"
  by (cases x) (simp_all add: finish_change_def Let_def)

lemma pts_calls_correct:
  assumes "pts_ok l s" "log_base l + length (log_changes l) + length xs < 2 ^ 64" "\<forall>i. Finish i \<in> set xs \<longrightarrow> i < 2 ^ 64"
  shows "fst (all_calls pts_call xs s) = fst (all_calls log_call xs l) \<and>
    pts_ok (snd (all_calls log_call xs l)) (snd (all_calls pts_call xs s))"
  using assms
proof (induction xs arbitrary: l s)
  case (Cons x xs)
  have lt: "log_base l + length (log_changes l) < 2 ^ 64" using Cons.prems(2) by simp
  have "\<forall>i. x = Finish i \<longrightarrow> i < 2 ^ 64" using Cons.prems(3) by auto
  note c = pts_call_correct [OF Cons.prems(1) lt this]
  have "log_base (snd (log_call x l)) + length (log_changes (snd (log_call x l))) + length xs < 2 ^ 64"
    using log_call_length [of x l] Cons.prems(2) by (simp only: length_Cons)
  from Cons.IH [OF c(2) this] Cons.prems(3) c(1)
  show ?case by (simp add: Let_def split_beta)
qed simp



end
