(* ===== verification/Td_ConcurrentBinlog.thy ===== *)
theory Td_ConcurrentBinlog
  imports Td_Ordered Td_BinlogEvent "HOL-Library.Multiset"
begin

text \<open>
  The binlog that many threads use: \<open>tddb/td/db/binlog/ConcurrentBinlog.h\<close> and \<open>ConcurrentBinlog.cpp\<close>, with the calls of
  \<open>BinlogInterface.h\<close>.  A caller takes a number from an atomic counter and sends a message to an actor that owns the
  binlog; messages come in any order, and the actor puts their events back in the order of the numbers.

  \<^item> What the actor does to its binlog and which promises it sets is a list of effects, in the order in which it does them.
    \<open>Sync\<close> is \<open>Binlog::sync\<close>, \<open>Flush\<close> is \<open>Binlog::flush\<close>, \<open>Write\<close> is \<open>Binlog::add\_raw\_event\<close>, with the number of the event.
  \<^item> A promise that is not set up, \<open>Promise<>()\<close>, is \<^theory_text>\<open>None\<close>; an event without data is the empty list.
  \<^item> Clocks are not modelled: whether the time to flush has come is an argument, and a timeout may come at any time.
    \<open>wakeup\_at\_\<close> is whether a timeout is set.
  \<^item> Numbers are natural numbers, of which fewer than \<open>2^64\<close> are given out.
\<close>

section \<open>The code\<close>

record 'p actor_event =
  le_raw :: bytes
  le_promise :: "'p option"

datatype 'p effect =
    Write nat bytes
  | Flush
  | Sync
  | Resolve 'p
  | Change_key "'p option"
  | Close "'p option"
  | Destroy "'p option"

record 'p binlog_actor =
  ba_processor :: "'p actor_event ordered_events"
  ba_immediate :: "(nat \<times> 'p option) list"
  ba_sync_promises :: "'p list"
  ba_force_sync :: bool
  ba_lazy_sync :: bool
  ba_flush :: bool
  ba_wakeup :: bool

definition new_actor :: "nat \<Rightarrow> 'p binlog_actor" where
  "new_actor seq_no = \<lparr>ba_processor = new_ordered seq_no, ba_immediate = [], ba_sync_promises = [], ba_force_sync = False,
     ba_lazy_sync = False, ba_flush = False, ba_wakeup = False\<rparr>"

definition do_immediate_sync :: "'p option \<Rightarrow> 'p binlog_actor \<Rightarrow> 'p binlog_actor" where
  "do_immediate_sync p a =
     (let a = (case p of None \<Rightarrow> a | Some p \<Rightarrow> a\<lparr>ba_sync_promises := ba_sync_promises a @ [p]\<rparr>) in
      if \<not> ba_force_sync a then a\<lparr>ba_force_sync := True, ba_wakeup := True\<rparr> else a)"

definition do_lazy_sync :: "'p option \<Rightarrow> 'p binlog_actor \<Rightarrow> 'p binlog_actor" where
  "do_lazy_sync p a =
     (case p of
        None \<Rightarrow> a
      | Some p \<Rightarrow>
          let a = a\<lparr>ba_sync_promises := ba_sync_promises a @ [p]\<rparr> in
          if \<not> ba_lazy_sync a \<and> \<not> ba_force_sync a then a\<lparr>ba_wakeup := True, ba_lazy_sync := True\<rparr> else a)"

fun handle_events :: "(nat \<times> 'p actor_event) list \<Rightarrow> 'p binlog_actor \<Rightarrow> 'p effect list \<times> 'p binlog_actor" where
  "handle_events [] a = ([], a)"
| "handle_events ((n, e) # calls) a =
     (let es = (if le_raw e \<noteq> [] then [Write n (le_raw e)] else []);
          a = do_lazy_sync (le_promise e) a;
          (fs, a) = handle_events calls a in
      (es @ fs, a))"

fun sync_finished :: "nat \<Rightarrow> (nat \<times> 'p option) list \<Rightarrow> 'p binlog_actor \<Rightarrow> 'p binlog_actor" where
  "sync_finished seq_no [] a = a\<lparr>ba_immediate := []\<rparr>"
| "sync_finished seq_no ((n, p) # ps) a =
     (if n \<le> seq_no then sync_finished seq_no ps (do_immediate_sync p a) else a\<lparr>ba_immediate := (n, p) # ps\<rparr>)"

definition flush_immediate_sync :: "'p binlog_actor \<Rightarrow> 'p binlog_actor" where
  "flush_immediate_sync a = sync_finished (max_finished_seq_no (ba_processor a)) (ba_immediate a) a"

definition try_flush :: "bool \<Rightarrow> 'p binlog_actor \<Rightarrow> 'p effect list \<times> 'p binlog_actor" where
  "try_flush late a =
     (if late then ([Flush], a)
      else ([], if \<not> ba_force_sync a then a\<lparr>ba_flush := True, ba_wakeup := True\<rparr> else a))"

definition actor_add :: "nat \<Rightarrow> bytes \<Rightarrow> 'p option \<Rightarrow> bool \<Rightarrow> 'p binlog_actor \<Rightarrow> ('p effect list \<times> 'p binlog_actor) option" where
  "actor_add seq_no raw p late a =
     do { (calls, pr) \<leftarrow> oe_add seq_no \<lparr>le_raw = raw, le_promise = p\<rparr> (ba_processor a);
          let (es, a) = handle_events calls (a\<lparr>ba_processor := pr\<rparr>);
          let a = flush_immediate_sync a;
          let (fs, a) = try_flush late a;
          Some (es @ fs, a) }"

text \<open>Each event of a batch is added as one of its own; whether it is time to flush may change on the way.\<close>

fun actor_erase_batch ::
  "(bytes \<Rightarrow> int32) \<Rightarrow> nat \<Rightarrow> int64 list \<Rightarrow> (nat \<Rightarrow> bool) \<Rightarrow> 'p binlog_actor \<Rightarrow> ('p effect list \<times> 'p binlog_actor) option" where
  "actor_erase_batch crc seq_no [] late a = Some ([], a)"
| "actor_erase_batch crc seq_no (i # ids) late a =
     do { raw \<leftarrow> create_raw crc i Empty_type Rewrite_flag empty_storer;
          (es, a) \<leftarrow> actor_add seq_no raw None (late seq_no) a;
          (fs, a) \<leftarrow> actor_erase_batch crc (seq_no + 1) ids late a;
          Some (es @ fs, a) }"

text \<open>A \<open>multimap\<close> keeps entries with the same key in the order of their insertion.\<close>

definition multimap_insert :: "nat \<Rightarrow> 'a \<Rightarrow> (nat \<times> 'a) list \<Rightarrow> (nat \<times> 'a) list" where
  "multimap_insert n x xs = takeWhile (\<lambda>y. fst y \<le> n) xs @ (n, x) # dropWhile (\<lambda>y. fst y \<le> n) xs"

definition actor_force_sync :: "'p option \<Rightarrow> 'p binlog_actor \<Rightarrow> 'p binlog_actor" where
  "actor_force_sync p a =
     (let seq_no = max_unfinished_seq_no (ba_processor a) in
      if max_finished_seq_no (ba_processor a) = seq_no then do_immediate_sync p a
      else a\<lparr>ba_immediate := multimap_insert seq_no p (ba_immediate a)\<rparr>)"

definition actor_force_flush :: "'p binlog_actor \<Rightarrow> 'p effect list \<times> 'p binlog_actor" where
  "actor_force_flush a = ([Flush], a\<lparr>ba_flush := False\<rparr>)"

definition actor_timeout :: "bool \<Rightarrow> 'p binlog_actor \<Rightarrow> 'p effect list \<times> 'p binlog_actor" where
  "actor_timeout late a =
     (let need_sync = ba_lazy_sync a \<or> ba_force_sync a;
          need_flush = ba_flush a;
          a = a\<lparr>ba_lazy_sync := False, ba_force_sync := False, ba_flush := False, ba_wakeup := False\<rparr> in
      if need_sync then (Sync # map Resolve (ba_sync_promises a), a\<lparr>ba_sync_promises := []\<rparr>)
      else if need_flush then try_flush late a else ([], a))"

datatype 'p message =
    Add_raw_event nat bytes "'p option"
  | Erase_batch_events nat "int64 list"
  | Force_sync "'p option"
  | Force_flush
  | New_key "'p option"
  | Timeout

definition actor_step ::
  "(bytes \<Rightarrow> int32) \<Rightarrow> 'p message \<Rightarrow> (nat \<Rightarrow> bool) \<Rightarrow> 'p binlog_actor \<Rightarrow> ('p effect list \<times> 'p binlog_actor) option" where
  "actor_step crc m late a =
     (case m of
        Add_raw_event seq_no raw p \<Rightarrow> actor_add seq_no raw p (late seq_no) a
      | Erase_batch_events seq_no ids \<Rightarrow> actor_erase_batch crc seq_no ids late a
      | Force_sync p \<Rightarrow> Some ([], actor_force_sync p a)
      | Force_flush \<Rightarrow> Some (actor_force_flush a)
      | New_key p \<Rightarrow> Some ([Change_key p], a)
      | Timeout \<Rightarrow> Some (actor_timeout (late 0) a))"

definition actor_close :: "'p option \<Rightarrow> 'p effect list" where
  "actor_close p = [Close p]"

definition actor_close_and_destroy :: "'p option \<Rightarrow> 'p effect list" where
  "actor_close_and_destroy p = [Destroy p]"

fun actor_run ::
  "(bytes \<Rightarrow> int32) \<Rightarrow> ('p message \<times> (nat \<Rightarrow> bool)) list \<Rightarrow> 'p binlog_actor \<Rightarrow> ('p effect list \<times> 'p binlog_actor) option" where
  "actor_run crc [] a = Some ([], a)"
| "actor_run crc ((m, late) # ms) a =
     do { (es, a) \<leftarrow> actor_step crc m late a; (fs, a) \<leftarrow> actor_run crc ms a; Some (es @ fs, a) }"

subsection \<open>The callers\<close>

datatype 'p log_request =
    Lazy_sync "'p option"
  | Log_add int32 storer "'p option"
  | Log_rewrite int64 int32 storer "'p option"
  | Log_erase int64 "'p option"
  | Log_erase_batch "int64 list"
  | Log_force_sync "'p option"
  | Log_force_flush
  | Log_change_key "'p option"

definition issue_erase_batch :: "int64 list \<Rightarrow> nat \<Rightarrow> ('p message list \<times> nat) option" where
  "issue_erase_batch ids n =
     do { shift \<leftarrow> narrow_cast_int32 (int (length ids));
          if shift = 0 then Some ([], n) else Some ([Erase_batch_events n ids], n + nat shift) }"

text \<open>The message of a call, if it sends one, and the counter; a call returns the number before.\<close>

definition issue :: "(bytes \<Rightarrow> int32) \<Rightarrow> 'p log_request \<Rightarrow> nat \<Rightarrow> ('p message list \<times> nat) option" where
  "issue crc x n =
     (case x of
        Lazy_sync p \<Rightarrow> Some ([Add_raw_event n [] p], n + 1)
      | Log_add typ sr p \<Rightarrow> do { raw \<leftarrow> create_raw crc (word_of_nat n) typ 0 sr; Some ([Add_raw_event n raw p], n + 1) }
      | Log_rewrite i typ sr p \<Rightarrow> do { raw \<leftarrow> create_raw crc i typ Rewrite_flag sr; Some ([Add_raw_event n raw p], n + 1) }
      | Log_erase i p \<Rightarrow>
          do { raw \<leftarrow> create_raw crc i Empty_type Rewrite_flag empty_storer; Some ([Add_raw_event n raw p], n + 1) }
      | Log_erase_batch ids \<Rightarrow> issue_erase_batch ids n
      | Log_force_sync p \<Rightarrow> Some ([Force_sync p], n)
      | Log_force_flush \<Rightarrow> Some ([Force_flush], n)
      | Log_change_key p \<Rightarrow> Some ([New_key p], n))"

fun issue_all :: "(bytes \<Rightarrow> int32) \<Rightarrow> 'p log_request list \<Rightarrow> nat \<Rightarrow> ('p message list \<times> nat) option" where
  "issue_all crc [] n = Some ([], n)"
| "issue_all crc (x # xs) n =
     do { (ms, n) \<leftarrow> issue crc x n; (ms', n) \<leftarrow> issue_all crc xs n; Some (ms @ ms', n) }"

section \<open>Promises and flags\<close>

text \<open>Promises that wait for a sync have a timeout that does it.\<close>

definition flags_ok :: "'p binlog_actor \<Rightarrow> bool" where
  "flags_ok a \<longleftrightarrow> (ba_sync_promises a \<noteq> [] \<longrightarrow> ba_lazy_sync a \<or> ba_force_sync a) \<and>
     (ba_lazy_sync a \<or> ba_force_sync a \<or> ba_flush a \<longrightarrow> ba_wakeup a)"

definition promises :: "'p option list \<Rightarrow> 'p list" where
  "promises ps = map the (filter (\<lambda>p. p \<noteq> None) ps)"

lemma promises_simps [simp]: "promises [] = []" "promises (None # ps) = promises ps" "promises (Some p # ps) = p # promises ps"
  "promises (ps @ qs) = promises ps @ promises qs"
  by (simp_all add: promises_def)

lemma set_promises: "p \<in> set (promises ps) \<longleftrightarrow> Some p \<in> set ps"
  by (induction ps) (auto simp: promises_def)

lemma immediate_sync_fields:
  "ba_processor (do_immediate_sync p a) = ba_processor a" "ba_immediate (do_immediate_sync p a) = ba_immediate a"
  "ba_sync_promises (do_immediate_sync p a) = ba_sync_promises a @ promises [p]"
  "flags_ok a \<Longrightarrow> flags_ok (do_immediate_sync p a)"
  by (auto simp: do_immediate_sync_def flags_ok_def Let_def split: option.splits)

lemma lazy_sync_fields:
  "ba_processor (do_lazy_sync p a) = ba_processor a" "ba_immediate (do_lazy_sync p a) = ba_immediate a"
  "ba_sync_promises (do_lazy_sync p a) = ba_sync_promises a @ promises [p]"
  "flags_ok a \<Longrightarrow> flags_ok (do_lazy_sync p a)"
  by (auto simp: do_lazy_sync_def flags_ok_def Let_def split: option.splits)

lemma sync_finished_correct:
  "ba_processor (sync_finished m ps a) = ba_processor a"
  "ba_immediate (sync_finished m ps a) = dropWhile (\<lambda>y. fst y \<le> m) ps"
  "ba_sync_promises (sync_finished m ps a) = ba_sync_promises a @ promises (map snd (takeWhile (\<lambda>y. fst y \<le> m) ps))"
  "flags_ok a \<Longrightarrow> flags_ok (sync_finished m ps a)"
proof (induction m ps a rule: sync_finished.induct)
  case (2 m n p ps a)
  { case 1 show ?case using "2.IH"(1) by (simp add: immediate_sync_fields(1)) }
  { case 2 show ?case using "2.IH"(2) by simp }
  { case 3 show ?case using "2.IH"(3) by (cases p) (simp_all add: immediate_sync_fields(3)) }
  { case 4 show ?case using "2.IH"(4) immediate_sync_fields(4) [OF 4] 4 by (simp add: flags_ok_def) }
qed (simp_all add: flags_ok_def)

fun effect_writes :: "'p effect list \<Rightarrow> (nat \<times> bytes) list" where
  "effect_writes [] = []"
| "effect_writes (Write n r # es) = (n, r) # effect_writes es"
| "effect_writes (_ # es) = effect_writes es"

lemma effect_writes_append [simp]: "effect_writes (es @ fs) = effect_writes es @ effect_writes fs"
  by (induction es rule: effect_writes.induct) simp_all

lemma set_effect_writes: "(n, r) \<in> set (effect_writes es) \<longleftrightarrow> Write n r \<in> set es"
  by (induction es rule: effect_writes.induct) auto

text \<open>The writes of a list of events.\<close>

definition event_writes :: "(nat \<times> 'p actor_event) list \<Rightarrow> (nat \<times> bytes) list" where
  "event_writes calls = map (\<lambda>c. (fst c, le_raw (snd c))) (filter (\<lambda>c. le_raw (snd c) \<noteq> []) calls)"

lemma event_writes_simps [simp]: "event_writes [] = []" "event_writes (xs @ ys) = event_writes xs @ event_writes ys"
  by (simp_all add: event_writes_def)

definition no_resolve :: "'p effect list \<Rightarrow> bool" where
  "no_resolve es \<longleftrightarrow> (\<forall>p. Resolve p \<notin> set es)"

lemma no_resolve_simps [simp]: "no_resolve []" "no_resolve (es @ fs) \<longleftrightarrow> no_resolve es \<and> no_resolve fs"
  "no_resolve (e # es) \<longleftrightarrow> (\<forall>p. e \<noteq> Resolve p) \<and> no_resolve es"
  by (auto simp: no_resolve_def)

lemma handle_events_correct:
  "effect_writes (fst (handle_events calls a)) = event_writes calls" "no_resolve (fst (handle_events calls a))"
  "ba_processor (snd (handle_events calls a)) = ba_processor a" "ba_immediate (snd (handle_events calls a)) = ba_immediate a"
  "ba_sync_promises (snd (handle_events calls a)) = ba_sync_promises a @ promises (map (\<lambda>c. le_promise (snd c)) calls)"
  "flags_ok a \<Longrightarrow> flags_ok (snd (handle_events calls a))"
proof (induction calls arbitrary: a)
  case (Cons c calls)
  obtain n e where c: "c = (n, e)" by (cases c)
  { case 1 show ?case using Cons.IH(1) by (simp add: c event_writes_def Let_def split_beta) }
  { case 2 show ?case using Cons.IH(2) by (simp add: c Let_def split_beta) }
  { case 3 show ?case using Cons.IH(3) by (simp add: lazy_sync_fields(1,2) c Let_def split_beta) }
  { case 4 show ?case using Cons.IH(4) by (simp add: lazy_sync_fields(1,2) c Let_def split_beta) }
  { case 5 show ?case using Cons.IH(5) [of "do_lazy_sync (le_promise e) a"]
      by (cases "le_promise e") (simp_all add: lazy_sync_fields(3) c Let_def split_beta) }
  { case 6 show ?case using Cons.IH(6) [OF lazy_sync_fields(4) [OF 6]] by (simp add: c Let_def split_beta) }
qed simp_all

lemma try_flush_correct:
  "effect_writes (fst (try_flush late a)) = []" "no_resolve (fst (try_flush late a))" "ba_processor (snd (try_flush late a)) = ba_processor a"
  "ba_immediate (snd (try_flush late a)) = ba_immediate a" "ba_sync_promises (snd (try_flush late a)) = ba_sync_promises a"
  "flags_ok a \<Longrightarrow> flags_ok (snd (try_flush late a))"
  by (auto simp: try_flush_def flags_ok_def)

section \<open>The actor keeps the order\<close>

text \<open>
  \<open>A\<close> holds the events that came; \<open>R\<close> the promises with the number up to which everything has to be stored.  A promise is
  set only behind a sync that is behind the writes of all events up to its number.
\<close>

definition durable :: "(nat \<rightharpoonup> 'p actor_event) \<Rightarrow> nat \<Rightarrow> nat \<Rightarrow> 'p effect list \<Rightarrow> bool" where
  "durable A start n tr \<longleftrightarrow> (\<exists>tr1 tr2. tr = tr1 @ Sync # tr2 \<and>
     (\<forall>m. start \<le> m \<and> m \<le> n \<longrightarrow> (\<exists>e. A m = Some e \<and> (le_raw e \<noteq> [] \<longrightarrow> Write m (le_raw e) \<in> set tr1))))"

definition resolved_ok :: "nat \<Rightarrow> (nat \<rightharpoonup> 'p actor_event) \<Rightarrow> ('p \<times> nat) set \<Rightarrow> 'p effect list \<Rightarrow> bool" where
  "resolved_ok start A R tr \<longleftrightarrow>
     (\<forall>i < length tr. \<forall>p. tr ! i = Resolve p \<longrightarrow> (\<exists>n. (p, n) \<in> R \<and> durable A start n (take i tr)))"

definition actor_ok ::
  "nat \<Rightarrow> (nat \<rightharpoonup> 'p actor_event) \<Rightarrow> ('p \<times> nat) set \<Rightarrow> 'p effect list \<Rightarrow> 'p binlog_actor \<Rightarrow> bool" where
  "actor_ok start A R tr a \<longleftrightarrow>
     (let b = oe_begin (ba_processor a) in
      0 < start \<and> delivers start A (ba_processor a) \<and>
      effect_writes tr = event_writes (map (\<lambda>n. (n, the (A n))) [start..<b]) \<and>
      (\<forall>p \<in> set (ba_sync_promises a). \<exists>n. (p, n) \<in> R \<and> n < b) \<and>
      sorted (map fst (ba_immediate a)) \<and>
      (\<forall>(n, q) \<in> set (ba_immediate a). b \<le> n \<and> n < oe_end (ba_processor a) \<and> (\<forall>p. q = Some p \<longrightarrow> (p, n) \<in> R)) \<and>
      (\<forall>n e p. A n = Some e \<and> le_promise e = Some p \<longrightarrow> (p, n) \<in> R) \<and>
      resolved_ok start A R tr \<and>
      (\<forall>(p, n) \<in> R. Resolve p \<in> set tr \<or> p \<in> set (ba_sync_promises a) \<or> (n, Some p) \<in> set (ba_immediate a) \<or>
         b \<le> n \<and> (\<exists>e. A n = Some e \<and> le_promise e = Some p)) \<and>
      flags_ok a)"

lemma durable_mono:
  assumes "durable A start n tr" "A \<subseteq>\<^sub>m B"
  shows "durable B start n (tr @ es)"
proof -
  obtain tr1 tr2 where tr: "tr = tr1 @ Sync # tr2"
    "\<forall>m. start \<le> m \<and> m \<le> n \<longrightarrow> (\<exists>e. A m = Some e \<and> (le_raw e \<noteq> [] \<longrightarrow> Write m (le_raw e) \<in> set tr1))"
    using assms(1) by (auto simp: durable_def)
  have "\<exists>e. B m = Some e \<and> (le_raw e \<noteq> [] \<longrightarrow> Write m (le_raw e) \<in> set tr1)" if m: "start \<le> m" "m \<le> n" for m
  proof -
    obtain e where e: "A m = Some e" "le_raw e \<noteq> [] \<longrightarrow> Write m (le_raw e) \<in> set tr1" using tr(2) m by blast
    then have "B m = Some e" using assms(2) by (auto simp: map_le_def dest: bspec [of _ _ m])
    then show ?thesis using e(2) by blast
  qed
  then show ?thesis unfolding durable_def tr(1) by (intro exI [of _ tr1] exI [of _ "tr2 @ es"]) simp
qed

lemma resolved_append:
  assumes "resolved_ok start A R tr" "A \<subseteq>\<^sub>m B" "R \<subseteq> S"
    and "\<And>i p. i < length es \<Longrightarrow> es ! i = Resolve p \<Longrightarrow> \<exists>n. (p, n) \<in> S \<and> durable B start n (tr @ take i es)"
  shows "resolved_ok start B S (tr @ es)"
  unfolding resolved_ok_def
proof (intro allI impI)
  fix i p
  assume i: "i < length (tr @ es)" "(tr @ es) ! i = Resolve p"
  show "\<exists>n. (p, n) \<in> S \<and> durable B start n (take i (tr @ es))"
  proof (cases "i < length tr")
    case True
    then obtain n where n: "(p, n) \<in> R" "durable A start n (take i tr)" using assms(1) i by (auto simp: resolved_ok_def nth_append)
    then show ?thesis using durable_mono [OF n(2) assms(2), of "[]"] assms(3) True by auto
  next
    case False
    then have "i - length tr < length es" "es ! (i - length tr) = Resolve p" using i by (auto simp: nth_append)
    from assms(4) [OF this] show ?thesis using False by (simp add: take_append)
  qed
qed

lemma resolved_none:
  assumes "resolved_ok start A R tr" "A \<subseteq>\<^sub>m B" "R \<subseteq> S" "no_resolve es"
  shows "resolved_ok start B S (tr @ es)"
  by (rule resolved_append [OF assms(1-3)]) (use assms(4) nth_mem in \<open>fastforce simp: no_resolve_def\<close>)

lemma dropWhile_greater: "sorted (map fst ps) \<Longrightarrow> y \<in> set (dropWhile (\<lambda>y. fst y \<le> k) ps) \<Longrightarrow> k < fst y" for k :: "'a :: linorder"
  by (induction ps) (auto split: if_splits)

lemma takeWhile_or_dropWhile: "y \<in> set ps \<Longrightarrow> y \<in> set (takeWhile P ps) \<or> y \<in> set (dropWhile P ps)"
  by (metis Un_iff set_append takeWhile_dropWhile_id)

lemma sorted_dropWhile_fst: "sorted (map fst ps) \<Longrightarrow> sorted (map fst (dropWhile P ps))"
  by (induction ps) auto

lemma promises_calls:
  "p \<in> set (promises (map (\<lambda>c. le_promise (snd c)) (map (\<lambda>m. (m, the (B m))) [b..<b']))) \<longleftrightarrow>
     (\<exists>m. b \<le> m \<and> m < b' \<and> le_promise (the (B m)) = Some p)"
  by (auto simp: set_promises eq_commute [of "Some p"])

lemma actor_add_ok:
  assumes ok: "actor_ok start A R tr a" and n: "start \<le> n" "A n = None"
  shows "\<exists>es a'. actor_add n raw q late a = Some (es, a') \<and>
    actor_ok start (A(n \<mapsto> \<lparr>le_raw = raw, le_promise = q\<rparr>)) (R \<union> {(p, n) | p. q = Some p}) (tr @ es) a' \<and>
    oe_end (ba_processor a') = max (oe_end (ba_processor a)) (n + 1)"
proof -
  let ?ev = "\<lparr>le_raw = raw, le_promise = q\<rparr>" and ?S = "R \<union> {(p, n) | p. q = Some p}"
  let ?B = "A(n \<mapsto> ?ev)" and ?b = "oe_begin (ba_processor a)"
  note inv = ok [unfolded actor_ok_def Let_def]
  have d: "delivers start A (ba_processor a)" using inv by blast
  obtain calls pr where pr: "oe_add n ?ev (ba_processor a) = Some (calls, pr)" "delivers start ?B pr" "?b \<le> oe_begin pr"
    "oe_end pr = max (oe_end (ba_processor a)) (n + 1)" "calls = map (\<lambda>m. (m, the (?B m))) [?b..<oe_begin pr]"
    using add_delivers [OF d n] by blast
  let ?b' = "oe_begin pr"
  let ?h = "handle_events calls (a\<lparr>ba_processor := pr\<rparr>)"
  let ?a2 = "flush_immediate_sync (snd ?h)"
  let ?t = "try_flush late ?a2"
  let ?moved = "takeWhile (\<lambda>y. fst y \<le> ?b' - 1) (ba_immediate a)" and ?kept = "dropWhile (\<lambda>y. fst y \<le> ?b' - 1) (ba_immediate a)"
  note h = handle_events_correct [where calls = calls and a = "a\<lparr>ba_processor := pr\<rparr>"]
  note tf = try_flush_correct [where late = late and a = ?a2]
  have start: "0 < start" "start \<le> ?b" using inv d by (simp_all add: delivers_def)
  have run: "actor_add n raw q late a = Some (fst ?h @ fst ?t, snd ?t)"
    using pr(1) by (simp add: actor_add_def Let_def split_beta)
  have proc: "ba_processor (snd ?t) = pr" and imm: "ba_immediate (snd ?t) = ?kept"
    and sync: "ba_sync_promises (snd ?t) =
      ba_sync_promises a @ promises (map (\<lambda>c. le_promise (snd c)) calls) @ promises (map snd ?moved)"
    using h tf by (simp_all add: flush_immediate_sync_def sync_finished_correct max_finished_seq_no_def)
  have flags: "flags_ok (snd ?t)"
  proof -
    have "flags_ok (a\<lparr>ba_processor := pr\<rparr>)" using inv by (simp add: flags_ok_def)
    then have "flags_ok (snd ?h)" by (rule h(6))
    then have "flags_ok ?a2" unfolding flush_immediate_sync_def by (rule sync_finished_correct(4))
    then show ?thesis by (rule tf(6))
  qed
  have sub: "A \<subseteq>\<^sub>m ?B" using n(2) by (auto simp: map_le_def)
  have B: "?B m = A m" if "A m \<noteq> None" for m using that n(2) by auto
  have before: "\<exists>e. A m = Some e" if "start \<le> m" "m < ?b" for m using d that by (auto simp: delivers_def)
  have events: "\<exists>e. ?B m = Some e" if "start \<le> m" "m < ?b'" for m using pr(2) that unfolding delivers_def by blast
  have promise: "(p, m) \<in> ?S" if "?B m = Some e" "le_promise e = Some p" for m e p
    using that inv by (cases "m = n") auto
  have called: "p \<in> set (ba_sync_promises (snd ?t))" if "?b \<le> m" "m < ?b'" "?B m = Some e" "le_promise e = Some p" for m e p
  proof -
    have "p \<in> set (promises (map (\<lambda>c. le_promise (snd c)) calls))"
      unfolding pr(5) promises_calls using that by (intro exI [of _ m]) simp
    then show ?thesis unfolding sync by simp
  qed
  have "actor_ok start ?B ?S (tr @ fst ?h @ fst ?t) (snd ?t)"
    unfolding actor_ok_def Let_def proc imm
  proof (intro conjI)
    show "0 < start" "delivers start ?B pr" "flags_ok (snd ?t)" by (fact start pr flags)+
    have "effect_writes tr = event_writes (map (\<lambda>m. (m, the (A m))) [start..<?b])" using inv by blast
    also have "map (\<lambda>m. (m, the (A m))) [start..<?b] = map (\<lambda>m. (m, the (?B m))) [start..<?b]" using before B by fastforce
    finally have "effect_writes (tr @ fst ?h @ fst ?t) = event_writes (map (\<lambda>m. (m, the (?B m))) [start..<?b]) @ event_writes calls"
      using h(1) tf(1) by simp
    then show "effect_writes (tr @ fst ?h @ fst ?t) = event_writes (map (\<lambda>m. (m, the (?B m))) [start..<?b'])"
      unfolding pr(5) event_writes_simps(2) [symmetric] map_append [symmetric] upt_split [OF start(2) pr(3)] .
    show "\<forall>p \<in> set (ba_sync_promises (snd ?t)). \<exists>m. (p, m) \<in> ?S \<and> m < ?b'"
    proof
      fix p
      assume "p \<in> set (ba_sync_promises (snd ?t))"
      then have "p \<in> set (ba_sync_promises a) \<or> p \<in> set (promises (map (\<lambda>c. le_promise (snd c)) calls)) \<or>
        p \<in> set (promises (map snd ?moved))" unfolding sync by simp
      then consider "p \<in> set (ba_sync_promises a)" | m where "?b \<le> m" "m < ?b'" "le_promise (the (?B m)) = Some p"
        | m where "(m, Some p) \<in> set ?moved"
        unfolding pr(5) promises_calls by (auto simp: set_promises)
      then show "\<exists>m. (p, m) \<in> ?S \<and> m < ?b'"
      proof cases
        case 1
        then obtain m where "(p, m) \<in> R" "m < ?b" using inv by blast
        then show ?thesis using pr(3) by (intro exI [of _ m]) simp
      next
        case (2 m)
        then obtain e where "?B m = Some e" using events [of m] start(2) by auto
        then show ?thesis using promise [of m e p] 2 by auto
      next
        case (3 m)
        then have "m \<le> ?b' - 1" "(m, Some p) \<in> set (ba_immediate a)" using set_takeWhileD by fastforce+
        moreover have "0 < ?b'" using start pr(3) by linarith
        ultimately show ?thesis using inv by fastforce
      qed
    qed
    show "sorted (map fst ?kept)" using sorted_dropWhile_fst inv by blast
    show "\<forall>(m, r) \<in> set ?kept. ?b' \<le> m \<and> m < oe_end pr \<and> (\<forall>p. r = Some p \<longrightarrow> (p, m) \<in> ?S)"
    proof (intro ballI, clarify)
      fix m r
      assume mr: "(m, r) \<in> set ?kept"
      then have "?b' - 1 < m" using dropWhile_greater [of "ba_immediate a" "(m, r)" "?b' - 1"] inv by simp
      moreover have "(m, r) \<in> set (ba_immediate a)" using mr set_dropWhileD by fast
      ultimately show "?b' \<le> m \<and> m < oe_end pr \<and> (\<forall>p. r = Some p \<longrightarrow> (p, m) \<in> ?S)" using inv pr(4) by fastforce
    qed
    show "\<forall>m e p. ?B m = Some e \<and> le_promise e = Some p \<longrightarrow> (p, m) \<in> ?S" using promise by blast
    show "resolved_ok start ?B ?S (tr @ fst ?h @ fst ?t)"
      by (rule resolved_none [OF _ sub]) (use inv h(2) tf(2) in auto)
    have "Resolve p \<in> set (tr @ fst ?h @ fst ?t) \<or> p \<in> set (ba_sync_promises (snd ?t)) \<or>
      (m, Some p) \<in> set ?kept \<or> ?b' \<le> m \<and> (\<exists>e. ?B m = Some e \<and> le_promise e = Some p)" if S: "(p, m) \<in> ?S" for p m
    proof (rule ccontr)
      assume neg: "\<not> ?thesis"
      then have pm: "(p, m) \<in> ?S" "Resolve p \<notin> set (tr @ fst ?h @ fst ?t)" "(m, Some p) \<notin> set ?kept"
        "\<not> (?b' \<le> m \<and> (\<exists>e. ?B m = Some e \<and> le_promise e = Some p))" using S by blast+
      have late_event: "p \<in> set (ba_sync_promises (snd ?t))" if "?b \<le> m" "?B m = Some e" "le_promise e = Some p" for e
        using called [OF that(1) _ that(2,3)] pm(4) that by fastforce
      have "p \<in> set (ba_sync_promises (snd ?t))"
      proof (cases "(p, m) \<in> R")
        case False
        then have mn: "m = n" "q = Some p" using pm(1) by simp_all
        have "\<not> n < ?b" using before [of n] n by auto
        then have "?b \<le> n" by simp
        then show ?thesis using late_event mn by simp
      next
        case True
        then have "p \<in> set (ba_sync_promises a) \<or> (m, Some p) \<in> set (ba_immediate a) \<or>
          ?b \<le> m \<and> (\<exists>e. A m = Some e \<and> le_promise e = Some p)" using inv pm(2) by fastforce
        then show ?thesis
        proof (elim disjE conjE exE)
          assume "(m, Some p) \<in> set (ba_immediate a)"
          then have "(m, Some p) \<in> set ?moved" using takeWhile_or_dropWhile [of "(m, Some p)" "ba_immediate a"] pm(3) by blast
          then have "p \<in> set (promises (map snd ?moved))" by (force simp: set_promises)
          then show ?thesis unfolding sync by simp
        next
          fix e
          assume "?b \<le> m" "A m = Some e" "le_promise e = Some p"
          then show ?thesis using late_event [of e] B [of m] by simp
        qed (simp add: sync)
      qed
      then show False using neg by blast
    qed
    then show "\<forall>(p, m) \<in> ?S. Resolve p \<in> set (tr @ fst ?h @ fst ?t) \<or> p \<in> set (ba_sync_promises (snd ?t)) \<or>
      (m, Some p) \<in> set ?kept \<or> ?b' \<le> m \<and> (\<exists>e. ?B m = Some e \<and> le_promise e = Some p)" by blast
  qed
  then show ?thesis using run proc pr(4) by auto
qed

text \<open>The events of a message.\<close>

fun message_events :: "(bytes \<Rightarrow> int32) \<Rightarrow> 'p message \<Rightarrow> (nat \<times> 'p actor_event) list" where
  "message_events crc (Add_raw_event n raw p) = [(n, \<lparr>le_raw = raw, le_promise = p\<rparr>)]"
| "message_events crc (Erase_batch_events n ids) =
     zip [n..<n + length ids]
       (map (\<lambda>i. \<lparr>le_raw = the (create_raw crc i Empty_type Rewrite_flag empty_storer), le_promise = None\<rparr>) ids)"
| "message_events crc _ = []"

lemma erase_raw: "\<exists>raw. create_raw crc i Empty_type Rewrite_flag empty_storer = Some raw"
  using create_raw_eq [of empty_storer "[]" crc i Empty_type Rewrite_flag] by (simp add: writes_def empty_storer_def)

lemma erase_batch_ok:
  assumes "actor_ok start A R tr a" "\<And>m. n \<le> m \<Longrightarrow> m < n + length ids \<Longrightarrow> A m = None" "start \<le> n"
  shows "\<exists>es a'. actor_erase_batch crc n ids late a = Some (es, a') \<and>
    actor_ok start (A ++ map_of (message_events crc (Erase_batch_events n ids :: 'p message))) R (tr @ es) (a' :: 'p binlog_actor) \<and>
    oe_end (ba_processor a') = max (oe_end (ba_processor a)) (if ids = [] then 0 else n + length ids)"
  using assms
proof (induction ids arbitrary: n A tr a)
  case Nil
  then show ?case by simp
next
  case (Cons i ids)
  obtain raw where raw: "create_raw crc i Empty_type Rewrite_flag empty_storer = Some raw" using erase_raw by blast
  let ?B = "A(n \<mapsto> \<lparr>le_raw = raw, le_promise = None\<rparr>)"
  have none: "A n = None" using Cons.prems(2) [of n] by simp
  obtain es a1 where a1: "actor_add n raw None (late n) a = Some (es, a1)" "actor_ok start ?B R (tr @ es) a1"
    "oe_end (ba_processor a1) = max (oe_end (ba_processor a)) (n + 1)"
    using actor_add_ok [OF Cons.prems(1,3) none, of raw None "late n"] by auto
  have none': "?B m = None" if "n + 1 \<le> m" "m < n + 1 + length ids" for m using that Cons.prems(2) [of m] by simp
  have start: "start \<le> n + 1" using Cons.prems(3) by simp
  obtain fs a2 where a2: "actor_erase_batch crc (n + 1) ids late a1 = Some (fs, a2)"
    "actor_ok start (?B ++ map_of (message_events crc (Erase_batch_events (n + 1) ids :: 'p message))) R ((tr @ es) @ fs) a2"
    "oe_end (ba_processor a2) = max (oe_end (ba_processor a1)) (if ids = [] then 0 else n + 1 + length ids)"
    using Cons.IH [OF a1(2) none' start] by blast
  have ev: "message_events crc (Erase_batch_events n (i # ids) :: 'p message) =
    (n, \<lparr>le_raw = raw, le_promise = None\<rparr>) # message_events crc (Erase_batch_events (n + 1) ids)"
    using raw by (simp add: upt_conv_Cons del: upt_Suc)
  have "map_of (message_events crc (Erase_batch_events (n + 1) ids :: 'p message)) n = None"
    by (auto simp: map_of_eq_None_iff dest!: set_zip_leftD)
  then have eq: "?B ++ map_of (message_events crc (Erase_batch_events (n + 1) ids :: 'p message)) =
    A ++ map_of (message_events crc (Erase_batch_events n (i # ids)))"
    unfolding ev by (rule map_add_map_of_Cons [symmetric])
  have "actor_erase_batch crc n (i # ids) late a = Some (es @ fs, a2)" using raw a1(1) a2(1) by simp
  moreover have "actor_ok start (A ++ map_of (message_events crc (Erase_batch_events n (i # ids) :: 'p message))) R (tr @ es @ fs) a2"
    using a2(2) unfolding eq by simp
  moreover have "oe_end (ba_processor a2) = max (oe_end (ba_processor a)) (n + length (i # ids))"
    using a1(3) a2(3) by (cases ids) simp_all
  ultimately show ?case by auto
qed

text \<open>The promises of a message, and the number up to which they wait; \<open>hi\<close> is the end of the numbers that came before.\<close>

fun message_promises :: "nat \<Rightarrow> 'p message \<Rightarrow> ('p \<times> nat) set" where
  "message_promises hi (Add_raw_event n raw q) = {(p, n) | p. q = Some p}"
| "message_promises hi (Force_sync q) = {(p, hi - 1) | p. q = Some p}"
| "message_promises hi _ = {}"

fun message_top :: "nat \<Rightarrow> 'p message \<Rightarrow> nat" where
  "message_top hi (Add_raw_event n raw q) = max hi (n + 1)"
| "message_top hi (Erase_batch_events n ids) = max hi (if ids = [] then 0 else n + length ids)"
| "message_top hi _ = hi"

lemma end_after_start: "actor_ok start A R tr a \<Longrightarrow> start \<le> oe_end (ba_processor a)"
  by (auto simp: actor_ok_def Let_def delivers_def ordered_ok_def)

lemma sorted_multimap_insert:
  "sorted (map fst ps) \<Longrightarrow> sorted (map fst (multimap_insert n q ps))"
proof -
  assume s: "sorted (map fst ps)"
  have "sorted (map fst (takeWhile (\<lambda>y. fst y \<le> n) ps))" using s by (metis sorted_append takeWhile_dropWhile_id map_append)
  moreover have "fst y \<le> n" if "y \<in> set (takeWhile (\<lambda>y. fst y \<le> n) ps)" for y using set_takeWhileD [OF that] by simp
  moreover have "n < fst y" if "y \<in> set (dropWhile (\<lambda>y. fst y \<le> n) ps)" for y by (rule dropWhile_greater [OF s that])
  ultimately show ?thesis using sorted_dropWhile_fst [OF s]
    by (fastforce simp: multimap_insert_def sorted_append)
qed

lemma set_multimap_insert: "set (multimap_insert n q ps) = insert (n, q) (set ps)"
proof -
  have "set ps = set (takeWhile (\<lambda>y. fst y \<le> n) ps) \<union> set (dropWhile (\<lambda>y. fst y \<le> n) ps)"
    by (metis set_append takeWhile_dropWhile_id)
  then show ?thesis by (auto simp: multimap_insert_def)
qed

lemma force_sync_ok:
  assumes "actor_ok start A R tr a"
  shows "actor_ok start A (R \<union> {(p, oe_end (ba_processor a) - 1) | p. q = Some p}) tr (actor_force_sync q a)"
    "oe_end (ba_processor (actor_force_sync q a)) = oe_end (ba_processor a)"
proof -
  let ?n = "oe_end (ba_processor a) - 1" and ?b = "oe_begin (ba_processor a)"
  let ?S = "R \<union> {(p, ?n) | p. q = Some p}"
  note inv = assms [unfolded actor_ok_def Let_def]
  have le: "?b \<le> oe_end (ba_processor a)" "0 < ?b" using inv by (auto simp: delivers_def ordered_ok_def)
  have res: "resolved_ok start A ?S tr" 
    using resolved_none [of start A R tr A ?S "[]"] inv by simp
  have proc: "ba_processor (actor_force_sync q a) = ba_processor a"
    by (simp add: actor_force_sync_def Let_def immediate_sync_fields)
  then show "oe_end (ba_processor (actor_force_sync q a)) = oe_end (ba_processor a)" by simp
  show "actor_ok start A ?S tr (actor_force_sync q a)"
  proof (cases "?b - 1 = ?n")
    case True
    then have eq: "actor_force_sync q a = do_immediate_sync q a"
      by (simp add: actor_force_sync_def max_unfinished_seq_no_def max_finished_seq_no_def)
    have lt: "?n < ?b" using True le by linarith
    have sync: "set (ba_sync_promises (actor_force_sync q a)) = set (ba_sync_promises a) \<union> {p. q = Some p}"
      unfolding eq immediate_sync_fields by (auto simp: set_promises)
    show ?thesis unfolding actor_ok_def Let_def proc sync
    proof (intro conjI)
      show "\<forall>p \<in> set (ba_sync_promises a) \<union> {p. q = Some p}. \<exists>m. (p, m) \<in> ?S \<and> m < ?b" using inv lt by blast
      show "\<forall>(p, m) \<in> ?S. Resolve p \<in> set tr \<or> p \<in> set (ba_sync_promises a) \<union> {p. q = Some p} \<or>
        (m, Some p) \<in> set (ba_immediate (actor_force_sync q a)) \<or> ?b \<le> m \<and> (\<exists>e. A m = Some e \<and> le_promise e = Some p)"
        unfolding eq immediate_sync_fields using inv by blast
      show "flags_ok (actor_force_sync q a)" unfolding eq by (rule immediate_sync_fields(4)) (use inv in blast)
      show "\<forall>(n, r) \<in> set (ba_immediate (actor_force_sync q a)). ?b \<le> n \<and> n < oe_end (ba_processor a) \<and>
        (\<forall>p. r = Some p \<longrightarrow> (p, n) \<in> ?S)" unfolding eq immediate_sync_fields using inv by blast
      show "sorted (map fst (ba_immediate (actor_force_sync q a)))" unfolding eq immediate_sync_fields using inv by blast
      show "resolved_ok start A ?S tr" by (rule res)
    qed (use inv in blast)+
  next
    case False
    then have eq: "actor_force_sync q a = a\<lparr>ba_immediate := multimap_insert ?n q (ba_immediate a)\<rparr>"
      by (simp add: actor_force_sync_def max_unfinished_seq_no_def max_finished_seq_no_def)
    have n: "?b \<le> ?n" "?n < oe_end (ba_processor a)" using False le by linarith+
    have imm: "set (ba_immediate (actor_force_sync q a)) = insert (?n, q) (set (ba_immediate a))"
      "sorted (map fst (ba_immediate (actor_force_sync q a)))"
      using inv sorted_multimap_insert by (auto simp: eq set_multimap_insert)
    have sync: "ba_sync_promises (actor_force_sync q a) = ba_sync_promises a" by (simp add: eq)
    show ?thesis unfolding actor_ok_def Let_def proc imm(1) sync
    proof (intro conjI)
      show "\<forall>p \<in> set (ba_sync_promises a). \<exists>m. (p, m) \<in> ?S \<and> m < ?b" using inv by blast
      show "\<forall>(p, m) \<in> ?S. Resolve p \<in> set tr \<or> p \<in> set (ba_sync_promises a) \<or>
        (m, Some p) \<in> insert (?n, q) (set (ba_immediate a)) \<or> ?b \<le> m \<and> (\<exists>e. A m = Some e \<and> le_promise e = Some p)"
        using inv by blast
      show "flags_ok (actor_force_sync q a)" using inv by (simp add: eq flags_ok_def)
      show "\<forall>(m, r) \<in> insert (?n, q) (set (ba_immediate a)). ?b \<le> m \<and> m < oe_end (ba_processor a) \<and>
        (\<forall>p. r = Some p \<longrightarrow> (p, m) \<in> ?S)" using inv n by blast
      show "sorted (map fst (ba_immediate (actor_force_sync q a)))" by (rule imm(2))
      show "resolved_ok start A ?S tr" by (rule res)
    qed (use inv in blast)+
  qed
qed

lemma written_event:
  assumes "actor_ok start A R tr a" "start \<le> m" "m < oe_begin (ba_processor a)"
  shows "\<exists>e. A m = Some e \<and> (le_raw e \<noteq> [] \<longrightarrow> Write m (le_raw e) \<in> set tr)"
proof -
  note inv = assms(1) [unfolded actor_ok_def Let_def]
  obtain e where e: "A m = Some e" using inv assms(2,3) unfolding delivers_def by blast
  have w: "effect_writes tr = event_writes (map (\<lambda>n. (n, the (A n))) [start..<oe_begin (ba_processor a)])" using inv by blast
  have "Write m (le_raw e) \<in> set tr" if "le_raw e \<noteq> []"
  proof -
    have "(m, le_raw e) \<in> set (effect_writes tr)" unfolding w event_writes_def using e that assms(2,3) by force
    then show ?thesis by (simp add: set_effect_writes)
  qed
  then show ?thesis using e by blast
qed

lemma timeout_ok:
  assumes ok: "actor_ok start A R tr a"
  shows "actor_ok start A R (tr @ fst (actor_timeout late a)) (snd (actor_timeout late a))"
    "ba_processor (snd (actor_timeout late a)) = ba_processor a" "ba_sync_promises (snd (actor_timeout late a)) = []"
proof -
  note inv = ok [unfolded actor_ok_def Let_def]
  let ?a = "a\<lparr>ba_lazy_sync := False, ba_force_sync := False, ba_flush := False, ba_wakeup := False\<rparr>"
  let ?es = "fst (actor_timeout late a)" and ?a' = "snd (actor_timeout late a)" and ?b = "oe_begin (ba_processor a)"
  have all: "effect_writes ?es = [] \<and> ba_processor ?a' = ba_processor a \<and> ba_immediate ?a' = ba_immediate a \<and> ba_sync_promises ?a' = [] \<and>
    flags_ok ?a' \<and> resolved_ok start A R (tr @ ?es) \<and> (\<forall>p \<in> set (ba_sync_promises a). Resolve p \<in> set ?es)"
  proof (cases "ba_lazy_sync a \<or> ba_force_sync a")
    case True
    let ?fs = "Sync # map Resolve (ba_sync_promises a)"
    have t: "actor_timeout late a = (?fs, ?a\<lparr>ba_sync_promises := []\<rparr>)" using True by (simp add: actor_timeout_def Let_def)
    have w: "effect_writes (map Resolve ps) = []" for ps :: "'a list" by (induction ps) simp_all
    have "resolved_ok start A R (tr @ ?fs)"
    proof (rule resolved_append [where A = A and R = R])
      fix i p
      assume i: "i < length ?fs" "?fs ! i = Resolve p"
      then obtain k where k: "i = Suc k" "k < length (ba_sync_promises a)" "ba_sync_promises a ! k = p" by (cases i) auto
      then obtain n where n: "(p, n) \<in> R" "n < ?b" using inv nth_mem by blast
      have "tr @ take i ?fs = tr @ Sync # take k (map Resolve (ba_sync_promises a))" using k(1) by simp
      then have "durable A start n (tr @ take i ?fs)"
        unfolding durable_def using written_event [OF ok] n(2) by (intro exI conjI) auto
      then show "\<exists>n. (p, n) \<in> R \<and> durable A start n (tr @ take i ?fs)" using n(1) by blast
    qed (use inv in auto)
    then show ?thesis unfolding t using w by (simp add: flags_ok_def)
  next
    case False
    then have none: "ba_sync_promises a = []" using inv by (auto simp: flags_ok_def)
    have t: "actor_timeout late a = (if ba_flush a then try_flush late ?a else ([], ?a))"
      using False by (simp add: actor_timeout_def Let_def)
    have "flags_ok ?a" using none by (simp add: flags_ok_def)
    then show ?thesis unfolding t using none try_flush_correct [where late = late and a = ?a] inv
      resolved_none [of start A R tr A R] by (simp add: no_resolve_def)
  qed
  then show "ba_processor ?a' = ba_processor a" "ba_sync_promises ?a' = []" by simp_all
  have cover: "Resolve p \<in> set (tr @ ?es) \<or> (n, Some p) \<in> set (ba_immediate a) \<or>
    ?b \<le> n \<and> (\<exists>e. A n = Some e \<and> le_promise e = Some p)" if "(p, n) \<in> R" for p n
  proof -
    have "Resolve p \<in> set tr \<or> p \<in> set (ba_sync_promises a) \<or> (n, Some p) \<in> set (ba_immediate a) \<or>
      ?b \<le> n \<and> (\<exists>e. A n = Some e \<and> le_promise e = Some p)" using inv that by blast
    then show ?thesis using all by auto
  qed
  have proc: "ba_processor ?a' = ba_processor a" and imm: "ba_immediate ?a' = ba_immediate a" and sync: "ba_sync_promises ?a' = []"
    using all by simp_all
  show "actor_ok start A R (tr @ ?es) ?a'"
    unfolding actor_ok_def Let_def proc imm sync
  proof (intro conjI)
    show "flags_ok ?a'" "resolved_ok start A R (tr @ ?es)" using all by simp_all
    show "effect_writes (tr @ ?es) = event_writes (map (\<lambda>n. (n, the (A n))) [start..<?b])" using all inv by simp
    show "\<forall>(p, n) \<in> R. Resolve p \<in> set (tr @ ?es) \<or> p \<in> set [] \<or> (n, Some p) \<in> set (ba_immediate a) \<or>
      ?b \<le> n \<and> (\<exists>e. A n = Some e \<and> le_promise e = Some p)" using cover by blast
  qed (use inv in auto)
qed

lemma quiet_ok:
  assumes ok: "actor_ok start A R tr a" and es: "no_resolve es" "effect_writes es = []"
    and a': "a' = a \<or> a' = a\<lparr>ba_flush := False\<rparr>"
  shows "actor_ok start A R (tr @ es) a'"
proof -
  note inv = ok [unfolded actor_ok_def Let_def]
  have f: "ba_processor a' = ba_processor a" "ba_immediate a' = ba_immediate a" "ba_sync_promises a' = ba_sync_promises a"
    using a' by auto
  show ?thesis
    unfolding actor_ok_def Let_def f
  proof (intro conjI)
    show "flags_ok a'" using inv a' by (auto simp: flags_ok_def)
    show "resolved_ok start A R (tr @ es)" by (rule resolved_none [where A = A and R = R]) (use inv es in auto)
    show "effect_writes (tr @ es) = event_writes (map (\<lambda>n. (n, the (A n))) [start..<oe_begin (ba_processor a)])" using es inv by simp
    show "\<forall>(p, n) \<in> R. Resolve p \<in> set (tr @ es) \<or> p \<in> set (ba_sync_promises a) \<or> (n, Some p) \<in> set (ba_immediate a) \<or>
      oe_begin (ba_processor a) \<le> n \<and> (\<exists>e. A n = Some e \<and> le_promise e = Some p)" using inv unfolding set_append by blast
  qed (use inv in auto)
qed

lemma new_ordered_fields [simp]: "oe_begin (new_ordered n) = n" "oe_end (new_ordered n) = n"
  by (simp_all add: new_ordered_def)

lemma new_actor_ok: "0 < start \<Longrightarrow> actor_ok start Map.empty {} [] (new_actor start)"
  by (simp add: actor_ok_def new_actor_def Let_def resolved_ok_def flags_ok_def delivers_new)

lemma actor_step_ok:
  assumes "actor_ok start A R tr a" "\<And>n. n \<in> fst ` set (message_events crc m) \<Longrightarrow> start \<le> n \<and> A n = None"
  shows "\<exists>es a'. actor_step crc m late a = Some (es, a') \<and>
    actor_ok start (A ++ map_of (message_events crc m)) (R \<union> message_promises (oe_end (ba_processor a)) m) (tr @ es) a' \<and>
    oe_end (ba_processor a') = message_top (oe_end (ba_processor a)) m"
proof (cases m)
  case (Add_raw_event n raw q)
  then show ?thesis using actor_add_ok [OF assms(1), of n raw q "late n"] assms(2) by (auto simp: actor_step_def)
next
  case (Erase_batch_events n ids)
  show ?thesis
  proof (cases "ids = []")
    case True
    then show ?thesis using Erase_batch_events assms(1) by (auto simp: actor_step_def)
  next
    case False
    have dom: "fst ` set (message_events crc m) = {n..<n + length ids}"
    proof -
      have "map fst (message_events crc m) = [n..<n + length ids]" using Erase_batch_events by simp
      then show ?thesis by (metis list.set_map set_upt)
    qed
    have "start \<le> n" "\<And>k. n \<le> k \<Longrightarrow> k < n + length ids \<Longrightarrow> A k = None"
      using assms(2) False unfolding dom by (auto simp: Suc_le_eq)
    then show ?thesis using erase_batch_ok [OF assms(1), of n ids crc late] Erase_batch_events by (auto simp: actor_step_def)
  qed
next
  case (Force_sync q)
  then show ?thesis using force_sync_ok [OF assms(1), of q] by (auto simp: actor_step_def)
next
  case Force_flush
  then show ?thesis using quiet_ok [OF assms(1), of "[Flush]" "a\<lparr>ba_flush := False\<rparr>"]
    by (auto simp: actor_step_def actor_force_flush_def)
next
  case (New_key q)
  then show ?thesis using quiet_ok [OF assms(1), of "[Change_key q]" a] by (auto simp: actor_step_def)
next
  case Timeout
  then show ?thesis using timeout_ok [OF assms(1), of "late 0"] by (cases "actor_timeout (late 0) a") (auto simp: actor_step_def)
qed

section \<open>Whole runs\<close>

definition all_events :: "(bytes \<Rightarrow> int32) \<Rightarrow> 'p message list \<Rightarrow> (nat \<times> 'p actor_event) list" where
  "all_events crc ms = concat (map (message_events crc) ms)"

fun all_promises :: "nat \<Rightarrow> 'p message list \<Rightarrow> ('p \<times> nat) set" where
  "all_promises hi [] = {}"
| "all_promises hi (m # ms) = message_promises hi m \<union> all_promises (message_top hi m) ms"

lemma map_of_append_disjoint:
  assumes "distinct (map fst (xs @ ys))"
  shows "A ++ map_of xs ++ map_of ys = A ++ map_of (xs @ ys)"
proof -
  have "dom (map_of xs) \<inter> dom (map_of ys) = {}" using assms by (simp add: dom_map_of_conv_image_fst)
  then have "map_of xs ++ map_of ys = map_of ys ++ map_of xs" by (rule map_add_comm)
  also have "\<dots> = map_of (xs @ ys)" by (rule map_of_append [symmetric])
  finally show ?thesis by (simp only: map_add_assoc [symmetric])
qed

lemma run_ok:
  assumes "actor_ok start A R tr a" "distinct (map fst (all_events crc (map fst ms)))"
    "\<And>n. n \<in> fst ` set (all_events crc (map fst ms)) \<Longrightarrow> start \<le> n \<and> A n = None"
  shows "\<exists>es a'. actor_run crc ms a = Some (es, a') \<and>
    actor_ok start (A ++ map_of (all_events crc (map fst ms))) (R \<union> all_promises (oe_end (ba_processor a)) (map fst ms)) (tr @ es) a'"
  using assms
proof (induction ms arbitrary: A R tr a)
  case Nil
  then show ?case by (simp add: all_events_def)
next
  case (Cons ml ms)
  obtain m late where ml: "ml = (m, late)" by (cases ml)
  let ?e = "message_events crc m" and ?rest = "all_events crc (map fst ms)"
  have ev: "all_events crc (map fst (ml # ms)) = ?e @ ?rest" by (simp add: all_events_def ml)
  have d: "distinct (map fst (?e @ ?rest))" using Cons.prems(2) unfolding ev .
  have "start \<le> n \<and> A n = None" if "n \<in> fst ` set ?e" for n using Cons.prems(3) [of n] that unfolding ev by auto
  then obtain es a1 where a1: "actor_step crc m late a = Some (es, a1)"
    "actor_ok start (A ++ map_of ?e) (R \<union> message_promises (oe_end (ba_processor a)) m) (tr @ es) a1"
    "oe_end (ba_processor a1) = message_top (oe_end (ba_processor a)) m" using actor_step_ok [OF Cons.prems(1)] by blast
  have "start \<le> n \<and> (A ++ map_of ?e) n = None" if "n \<in> fst ` set ?rest" for n
  proof -
    have "n \<notin> fst ` set ?e" using d that by auto
    then have "map_of ?e n = None" by (simp add: map_of_eq_None_iff)
    then show ?thesis using Cons.prems(3) [of n] that unfolding ev by (auto simp: map_add_def)
  qed
  moreover have "distinct (map fst ?rest)" using d by simp
  ultimately obtain fs a2 where a2: "actor_run crc ms a1 = Some (fs, a2)"
    "actor_ok start (A ++ map_of ?e ++ map_of ?rest) ((R \<union> message_promises (oe_end (ba_processor a)) m) \<union>
       all_promises (oe_end (ba_processor a1)) (map fst ms)) ((tr @ es) @ fs) a2" using Cons.IH [OF a1(2)] by blast
  have "actor_run crc (ml # ms) a = Some (es @ fs, a2)" using ml a1(1) a2(1) by simp
  moreover have "R \<union> message_promises (oe_end (ba_processor a)) m \<union> all_promises (oe_end (ba_processor a1)) (map fst ms) =
    R \<union> all_promises (oe_end (ba_processor a)) (map fst (ml # ms))" unfolding a1(3) ml by (simp add: Un_assoc)
  ultimately show ?case using a2(2) unfolding ev map_of_append_disjoint [OF d] by auto
qed




subsection \<open>From the callers to the binlog\<close>

lemma issue_correct:
  assumes "issue crc x n = Some (ms, n')"
  shows "n \<le> n' \<and> map fst (all_events crc ms) = [n..<n'] \<and> Timeout \<notin> set ms"
proof (cases x)
  case (Log_erase_batch ids)
  show ?thesis
  proof (cases "ids = []")
    case True
    then show ?thesis using assms Log_erase_batch by (auto simp: issue_def issue_erase_batch_def all_events_def bind_eq_Some_conv split: if_splits)
  next
    case False
    then have "ms = [Erase_batch_events n ids]" "n' = n + length ids"
      using assms Log_erase_batch by (auto simp: issue_def issue_erase_batch_def bind_eq_Some_conv split: if_splits)
    then show ?thesis by (simp add: all_events_def)
  qed
qed (use assms in \<open>auto simp: issue_def all_events_def bind_eq_Some_conv\<close>)

lemma all_events_append [simp]: "all_events crc (xs @ ys) = all_events crc xs @ all_events crc ys"
  by (simp add: all_events_def)

lemma issue_all_correct:
  "issue_all crc xs n = Some (ms, n') \<Longrightarrow> n \<le> n' \<and> map fst (all_events crc ms) = [n..<n'] \<and> Timeout \<notin> set ms"
proof (induction xs arbitrary: n ms)
  case Nil
  then show ?case by (simp add: all_events_def)
next
  case (Cons x xs)
  then obtain ms1 n1 ms2 where i: "issue crc x n = Some (ms1, n1)" "issue_all crc xs n1 = Some (ms2, n')" "ms = ms1 @ ms2"
    by (auto simp: bind_eq_Some_conv)
  note one = issue_correct [OF i(1)] and rest = Cons.IH [OF i(2)]
  have "[n..<n1] @ [n1..<n'] = [n..<n']" using one rest by (intro upt_split) simp_all
  then show ?case using one rest i(3) by auto
qed

lemma all_events_mset:
  assumes "mset (filter (\<lambda>m. m \<noteq> Timeout) ms) = mset msgs"
  shows "mset (all_events crc ms) = mset (all_events crc msgs)"
proof -
  have "all_events crc ms = all_events crc (filter (\<lambda>m. m \<noteq> Timeout) ms)"
    by (induction ms) (auto simp: all_events_def)
  also have "mset \<dots> = mset (all_events crc msgs)"
    using arg_cong [OF assms, of "\<lambda>M. \<Sum>m \<in># M. mset (message_events crc m)"]
    by (simp add: all_events_def mset_concat comp_def flip: sum_mset_sum_list)
  finally show ?thesis .
qed

text \<open>The promises that calls wait for.\<close>

definition waits_for :: "'p message \<Rightarrow> 'p set" where
  "waits_for m = (case m of Add_raw_event n raw q \<Rightarrow> {p. q = Some p} | Force_sync q \<Rightarrow> {p. q = Some p} | _ \<Rightarrow> {})"

lemma waits_promises: "m \<in> set ms \<Longrightarrow> p \<in> waits_for m \<Longrightarrow> \<exists>n. (p, n) \<in> all_promises hi ms"
proof (induction ms arbitrary: hi)
  case (Cons m' ms)
  show ?case
  proof (cases "m = m'")
    case True
    then have "\<exists>n. (p, n) \<in> message_promises hi m" using Cons.prems(2) by (cases m) (auto simp: waits_for_def)
    then show ?thesis using True by auto
  next
    case False
    then obtain n where "(p, n) \<in> all_promises (message_top hi m') ms" using Cons.IH Cons.prems by fastforce
    then show ?thesis by auto
  qed
qed simp

text \<open>When all events have come, nothing waits any more.\<close>

lemma all_delivered:
  assumes "delivers start A s" "dom A = {start..<hi}" "start \<le> hi"
  shows "oe_begin s = hi" "oe_end s = hi"
proof -
  note d = assms(1) [unfolded delivers_def]
  have "oe_begin s \<notin> {start..<hi}" using delivers_missing [OF assms(1)] assms(2) by blast
  then have "hi \<le> oe_begin s" using d by auto
  moreover have "\<not> hi < oe_begin s"
  proof
    assume "hi < oe_begin s"
    then have "hi \<in> dom A" using d assms(3) by blast
    then show False using assms(2) by simp
  qed
  ultimately show b: "oe_begin s = hi" by simp
  show "oe_end s = hi"
  proof (rule ccontr)
    assume "oe_end s \<noteq> hi"
    then have "oe_begin s < oe_end s" using d b by (simp add: ordered_ok_def)
    then have "waiting s (oe_end s - 1) \<noteq> None" "oe_begin s \<le> oe_end s - 1" using d by (auto simp: ordered_ok_def)
    then have "oe_end s - 1 \<in> dom A" using d by auto
    then show False using assms(2) \<open>oe_begin s \<le> oe_end s - 1\<close> b by simp
  qed
qed

lemma map_of_mset:
  assumes "mset xs = mset ys" "distinct (map fst xs)"
  shows "map_of xs = map_of ys"
proof -
  have "distinct (map fst ys)" using assms by (metis mset_eq_imp_distinct_iff mset_map)
  then show ?thesis using assms mset_eq_setD [OF assms(1)] by (simp add: map_of_inject_set)
qed

lemma map_of_upt:
  assumes "map fst xs = [n..<n']"
  shows "map (\<lambda>k. (k, the (map_of xs k))) [n..<n'] = xs"
proof -
  have d: "distinct (map fst xs)" using assms by simp
  have "map (\<lambda>k. (k, the (map_of xs k))) (map fst xs) = map (\<lambda>x. x) xs"
    unfolding map_map comp_def
  proof (rule map_cong [OF refl])
    fix x
    assume "x \<in> set xs"
    then have "map_of xs (fst x) = Some (snd x)" using map_of_is_SomeI [OF d, of "fst x" "snd x"] by simp
    then show "(fst x, the (map_of xs (fst x))) = x" by simp
  qed
  then show ?thesis unfolding assms by simp
qed

lemma actor_run_append:
  "actor_run crc (xs @ ys) a =
     do { (es, a) \<leftarrow> actor_run crc xs a; (fs, a) \<leftarrow> actor_run crc ys a; Some (es @ fs, a) }"
proof (induction xs arbitrary: a)
  case Nil
  then show ?case by (cases "actor_run crc ys a") auto
next
  case (Cons x xs)
  obtain m late where x: "x = (m, late)" by (cases x)
  show ?case
  proof (cases "actor_step crc m late a")
    case None
    then show ?thesis by (simp add: x)
  next
    case (Some r)
    obtain es a1 where r: "r = (es, a1)" by (cases r)
    show ?thesis
    proof (cases "actor_run crc xs a1")
      case None
      then show ?thesis using Some r Cons.IH [of a1] by (simp add: x)
    next
      case run: (Some r2)
      obtain fs a2 where "r2 = (fs, a2)" by (cases r2)
      then show ?thesis using Some r run Cons.IH [of a1] by (cases "actor_run crc ys a2") (auto simp: x)
    qed
  qed
qed

text \<open>C6: However the messages of the calls overtake each other on their way to the actor, and whenever timeouts and flushes
  come: once all have come, the binlog got exactly the events of the calls in the order of their numbers, which is that of the
  calls; and with one more timeout every promise of a call is set.\<close>

theorem concurrent_binlog_in_order:
  assumes "issue_all crc xs start = Some (msgs, hi)" "0 < start"
    "mset (filter (\<lambda>m. m \<noteq> Timeout) (map fst ms)) = mset msgs"
  shows "\<exists>tr a. actor_run crc (ms @ [(Timeout, late)]) (new_actor start) = Some (tr, a) \<and>
    effect_writes tr = event_writes (all_events crc msgs) \<and> (\<forall>m \<in> set msgs. \<forall>p \<in> waits_for m. Resolve p \<in> set tr)"
proof -
  let ?evs = "all_events crc (map fst ms)" and ?msgs = "all_events crc msgs"
  note iss = issue_all_correct [OF assms(1)]
  have eq: "mset ?evs = mset ?msgs" by (rule all_events_mset [OF assms(3)])
  have fsts: "map fst ?msgs = [start..<hi]" and le: "start \<le> hi" using iss by blast+
  have d: "distinct (map fst ?evs)" using eq fsts by (metis distinct_upt mset_eq_imp_distinct_iff mset_map)
  have keys: "fst ` set ?evs = {start..<hi}" using mset_eq_setD [OF eq] fsts by (metis list.set_map set_upt)
  obtain tr a where run: "actor_run crc ms (new_actor start) = Some (tr, a)"
    "actor_ok start (map_of ?evs) (all_promises start (map fst ms)) tr a"
    using run_ok [OF new_actor_ok [OF assms(2)] d] keys by (auto simp: new_actor_def)
  let ?t = "actor_timeout (late 0) a"
  note to = timeout_ok [OF run(2), of "late 0"]
  note inv = to(1) [unfolded actor_ok_def Let_def]
  have dl: "delivers start (map_of ?evs) (ba_processor a)" using inv unfolding to(2) by blast
  have dom: "dom (map_of ?evs) = {start..<hi}" using keys by (simp add: dom_map_of_conv_image_fst)
  note fin = all_delivered [OF dl dom le]
  have all: "actor_run crc (ms @ [(Timeout, late)]) (new_actor start) = Some (tr @ fst ?t, snd ?t)"
    using run(1) by (simp add: actor_run_append actor_step_def split_beta)
  have "map_of ?evs = map_of ?msgs" by (rule map_of_mset [OF eq d])
  then have "effect_writes (tr @ fst ?t) = event_writes (map (\<lambda>n. (n, the (map_of ?msgs n))) [start..<hi])"
    using inv unfolding to(2) fin by simp
  then have w: "effect_writes (tr @ fst ?t) = event_writes ?msgs" unfolding map_of_upt [OF fsts] .
  have "Resolve p \<in> set (tr @ fst ?t)" if m: "m \<in> set msgs" "p \<in> waits_for m" for m p
  proof -
    have "m \<in># mset (filter (\<lambda>m. m \<noteq> Timeout) (map fst ms))" unfolding assms(3) using m(1) by simp
    then have "m \<in> set (map fst ms)" by simp
    then obtain n where n: "(p, n) \<in> all_promises start (map fst ms)" using waits_promises [OF _ m(2)] by blast
    have "(n, Some p) \<notin> set (ba_immediate (snd ?t))" using inv unfolding to(2) fin by fastforce
    moreover have "\<not> (hi \<le> n \<and> (\<exists>e. map_of ?evs n = Some e))"
    proof
      assume "hi \<le> n \<and> (\<exists>e. map_of ?evs n = Some e)"
      then have "n \<in> dom (map_of ?evs)" "hi \<le> n" by auto
      then show False unfolding dom by simp
    qed
    moreover have "Resolve p \<in> set (tr @ fst ?t) \<or> p \<in> set (ba_sync_promises (snd ?t)) \<or> (n, Some p) \<in> set (ba_immediate (snd ?t)) \<or>
      hi \<le> n \<and> (\<exists>e. map_of ?evs n = Some e \<and> le_promise e = Some p)" using inv n unfolding to(2) fin by blast
    ultimately show ?thesis unfolding to(3) by auto
  qed
  then show ?thesis using all w by blast
qed

lemma concurrent_binlog_in_order_witness:
  "\<exists>tr a. actor_run (\<lambda>_. 0) ([(Force_sync (Some ''q''), \<lambda>_. False), (Erase_batch_events 2 [5, 6], \<lambda>_. True),
       (Timeout, \<lambda>_. False), (Add_raw_event 1 [] (Some ''p''), \<lambda>_. False)] @ [(Timeout, \<lambda>_. False)]) (new_actor 1) = Some (tr, a) \<and>
     Resolve ''p'' \<in> set tr \<and> Resolve ''q'' \<in> set tr"
proof -
  have "issue_all (\<lambda>_. 0) [Lazy_sync (Some ''p''), Log_erase_batch [5, 6], Log_force_sync (Some ''q'')] 1 =
    Some ([Add_raw_event 1 [] (Some ''p''), Erase_batch_events 2 [5, 6], Force_sync (Some ''q'')], 4)"
    by (simp add: issue_def issue_erase_batch_def narrow_cast_int32_def int_range_defs in_int32_def)
  from concurrent_binlog_in_order [OF this, of "[(Force_sync (Some ''q''), \<lambda>_. False), (Erase_batch_events 2 [5, 6], \<lambda>_. True),
       (Timeout, \<lambda>_. False), (Add_raw_event 1 [] (Some ''p''), \<lambda>_. False)]" "\<lambda>_. False"]
  show ?thesis by (auto simp: waits_for_def)
qed

end
